(* ===== verification/LL_Prelude.thy ===== *)
theory LL_Prelude
  imports Complex_Main "HOL-Library.Char_ord" "HOL-Library.List_Lexorder"
begin

text \<open>
  Shared vocabulary of the LedgerLens development.

  \<^item> Python run-time pieces the sources use: \<open>timedelta(seconds=x)\<close> as a whole number of
    microseconds, decimal rendering of integers in f-strings, \<open>str.lower\<close>,
    \<open>str.startswith\<close>, \<open>int(text)\<close>.
  \<^item> SQLite tables as row lists with an \<open>AUTOINCREMENT\<close> counter, and the four statements
    the stores issue (\<open>INSERT\<close>, \<open>UPDATE .. WHERE\<close>, \<open>DELETE .. WHERE\<close>,
    \<open>SELECT\<close>), with the locale \<open>autoinc_rows\<close> of the facts about row ids that every
    store relies on.
  \<^item> Collections of rules: \<open>table_simps\<close> for the statements.

  Instants are whole microseconds (\<open>int\<close>). The sources store them as
  \<open>datetime.now(timezone.utc).isoformat()\<close> and compare the text inside SQLite; for UTC
  instants with four-digit years that text order is the order of the instants.
  Floating-point quantities are exact rationals.
\<close>

named_theorems table_simps "effect of the SQL statements on a table"

type_synonym time = int   \<comment> \<open>microseconds since the epoch, UTC\<close>

subsection \<open>Python run-time pieces\<close>

text \<open>\<open>timedelta(seconds=x)\<close> rounds to whole microseconds, ties to even.\<close>

definition round_half_even :: "rat \<Rightarrow> int" where
  "round_half_even x =
     (let f = \<lfloor>x\<rfloor>; d = x - of_int f
      in if d < 1/2 then f else if 1/2 < d then f + 1 else if even f then f else f + 1)"

definition seconds :: "rat \<Rightarrow> time" where
  "seconds x = round_half_even (x * 1000000)"

lemma round_half_even_bounds:
  "x - 1/2 \<le> of_int (round_half_even x)" "of_int (round_half_even x) \<le> x + 1/2"
proof -
  have f: "of_int \<lfloor>x\<rfloor> \<le> x" "x < of_int \<lfloor>x\<rfloor> + 1" by (rule of_int_floor_le) linarith
  define d where "d = x - of_int \<lfloor>x\<rfloor>"
  have d: "x = of_int \<lfloor>x\<rfloor> + d" "0 \<le> d" "d < 1" using f by (simp_all add: d_def)
  have r: "(of_int (round_half_even x) :: rat) =
      (if d < 1/2 then of_int \<lfloor>x\<rfloor> else if 1/2 < d then of_int \<lfloor>x\<rfloor> + 1
       else if even \<lfloor>x\<rfloor> then of_int \<lfloor>x\<rfloor> else of_int \<lfloor>x\<rfloor> + (1::rat))"
    by (simp add: round_half_even_def Let_def d_def)
  show "x - 1/2 \<le> of_int (round_half_even x)"
    unfolding r using d by (auto split: if_splits)
  show "of_int (round_half_even x) \<le> x + 1/2"
    unfolding r using d by (auto split: if_splits)
qed

lemma round_half_even_of_int [simp]: "round_half_even (of_int n) = n"
  by (simp add: round_half_even_def)

lemma round_half_even_mono:
  assumes "x \<le> y" shows "round_half_even x \<le> round_half_even y"
proof (cases "\<lfloor>x\<rfloor> = \<lfloor>y\<rfloor>")
  case True
  with assms show ?thesis by (auto simp: round_half_even_def Let_def)
next
  case False
  with assms have lt: "\<lfloor>x\<rfloor> + 1 \<le> \<lfloor>y\<rfloor>" using floor_mono [OF assms] by linarith
  have "round_half_even x \<le> \<lfloor>x\<rfloor> + 1" "\<lfloor>y\<rfloor> \<le> round_half_even y"
    by (auto simp: round_half_even_def Let_def)
  with lt show ?thesis by linarith
qed

lemma seconds_of_int: "seconds (of_int n) = n * 1000000"
proof -
  have "(of_int n :: rat) * 1000000 = of_int (n * 1000000)" by simp
  then show ?thesis by (simp only: seconds_def round_half_even_of_int)
qed

lemma seconds_numeral [simp]:
  "seconds 0 = 0" "seconds 1 = 1000000" "seconds (numeral k) = numeral k * 1000000"
  using seconds_of_int [of 0] seconds_of_int [of 1] seconds_of_int [of "numeral k"] by simp_all

lemma seconds_mono: "x \<le> y \<Longrightarrow> seconds x \<le> seconds y"
  unfolding seconds_def by (rule round_half_even_mono) simp

lemma seconds_nonneg: "0 \<le> x \<Longrightarrow> 0 \<le> seconds x"
  using seconds_mono [of 0 x] by simp

text \<open>Decimal digits, as \<open>str(n)\<close> and f-strings print an integer.\<close>

definition digit_char :: "nat \<Rightarrow> char" where
  "digit_char d = char_of (48 + d)"

fun str_nat :: "nat \<Rightarrow> string" where
  "str_nat n = (if n < 10 then [digit_char n] else str_nat (n div 10) @ [digit_char (n mod 10)])"

declare str_nat.simps [simp del]

definition str_int :: "int \<Rightarrow> string" where
  "str_int i = (if i < 0 then ''-'' @ str_nat (nat (- i)) else str_nat (nat i))"

definition is_digit :: "char \<Rightarrow> bool" where
  "is_digit c \<longleftrightarrow> 48 \<le> (of_char c :: nat) \<and> (of_char c :: nat) \<le> 57"

definition digit_val :: "char \<Rightarrow> nat" where
  "digit_val c = of_char c - 48"

lemma of_digit_char: "d < 10 \<Longrightarrow> of_char (digit_char d) = (48 + d :: nat)"
  by (simp add: digit_char_def)

lemma is_digit_digit_char [simp]: "d < 10 \<Longrightarrow> is_digit (digit_char d)"
  by (simp add: is_digit_def of_digit_char)

lemma digit_val_digit_char [simp]: "d < 10 \<Longrightarrow> digit_val (digit_char d) = d"
  by (simp add: digit_val_def of_digit_char)

lemma str_nat_nonempty [simp]: "str_nat n \<noteq> []"
  by (subst str_nat.simps) simp

lemma str_nat_digits: "\<forall>c \<in> set (str_nat n). is_digit c"
proof (induction n rule: str_nat.induct)
  case (1 n)
  then show ?case by (subst str_nat.simps) auto
qed

text \<open>Reading the digits back: \<open>int(text)\<close> on a plain digit string.\<close>

definition nat_of_digits :: "string \<Rightarrow> nat" where
  "nat_of_digits s = foldl (\<lambda>acc c. 10 * acc + digit_val c) 0 s"

lemma nat_of_digits_str_nat [simp]: "nat_of_digits (str_nat n) = n"
proof (induction n rule: str_nat.induct)
  case (1 n)
  show ?case
  proof (cases "n < 10")
    case True
    then show ?thesis by (subst str_nat.simps) (simp add: nat_of_digits_def)
  next
    case False
    with 1 have "nat_of_digits (str_nat (n div 10)) = n div 10" by simp
    with False show ?thesis by (subst str_nat.simps) (simp add: nat_of_digits_def)
  qed
qed

lemma str_nat_inj [simp]: "str_nat m = str_nat n \<longleftrightarrow> m = n"
  by (metis nat_of_digits_str_nat)

lemma str_int_inj: "str_int i = str_int j \<Longrightarrow> i = j"
proof -
  have minus: "CHR ''-'' \<notin> set (str_nat n)" for n
    using str_nat_digits [of n] by (force simp: is_digit_def)
  assume eq: "str_int i = str_int j"
  have "str_nat n \<noteq> CHR ''-'' # cs" "CHR ''-'' # cs \<noteq> str_nat n" for n cs
    using minus [of n] by (metis list.set_intros(1))+
  with eq have "(i < 0) = (j < 0)"
    by (auto simp: str_int_def split: if_splits)
  with eq show ?thesis
    by (auto simp: str_int_def eq_nat_nat_iff split: if_splits)
qed

text \<open>
  \<open>int(text)\<close>: surrounding white space is stripped, one sign is allowed, then digits with
  single underscores between them (ASCII digits; other Unicode digits are out of scope).
\<close>

definition is_space :: "char \<Rightarrow> bool" where
  "is_space c \<longleftrightarrow> (let n = of_char c :: nat in n = 32 \<or> (9 \<le> n \<and> n \<le> 13) \<or> (28 \<le> n \<and> n \<le> 31))"

definition strip :: "string \<Rightarrow> string" where
  "strip s = rev (dropWhile is_space (rev (dropWhile is_space s)))"

fun digits_ok :: "string \<Rightarrow> bool" where
  "digits_ok [] = False"
| "digits_ok [c] = is_digit c"
| "digits_ok (c # d # cs) =
     (is_digit c \<and> (if d = CHR ''_'' then digits_ok cs else digits_ok (d # cs)))"

definition unsigned_int :: "string \<Rightarrow> nat option" where
  "unsigned_int s =
     (if digits_ok s then Some (nat_of_digits (filter is_digit s)) else None)"

definition py_int :: "string \<Rightarrow> int option" where
  "py_int s =
     (case strip s of
        [] \<Rightarrow> None
      | c # cs \<Rightarrow>
          if c = CHR ''-'' then map_option (\<lambda>n. - int n) (unsigned_int cs)
          else if c = CHR ''+'' then map_option int (unsigned_int cs)
          else map_option int (unsigned_int (c # cs)))"

lemma py_int_examples:
  "py_int ''70'' = Some 70" "py_int '' -7 '' = Some (-7)" "py_int ''7_0'' = Some 70"
  "py_int '''' = None" "py_int ''7a'' = None" "py_int ''_7'' = None" "py_int ''7_'' = None"
  by code_simp+

text \<open>\<open>str.lower\<close> on ASCII, and \<open>str.startswith\<close>.\<close>

definition lower_char :: "char \<Rightarrow> char" where
  "lower_char c = (let n = of_char c :: nat in if 65 \<le> n \<and> n \<le> 90 then char_of (n + 32) else c)"

definition lower :: "string \<Rightarrow> string" where
  "lower s = map lower_char s"

definition starts_with :: "string \<Rightarrow> string \<Rightarrow> bool" where
  "starts_with s p \<longleftrightarrow> take (length p) s = p"

text \<open>\<open>part in text\<close>.\<close>

fun mentions :: "string \<Rightarrow> string \<Rightarrow> bool" where
  "mentions part [] \<longleftrightarrow> part = []"
| "mentions part (c # cs) \<longleftrightarrow> starts_with (c # cs) part \<or> mentions part cs"

lemma lower_char_idem [simp]: "lower_char (lower_char c) = lower_char c"
proof (cases "65 \<le> (of_char c :: nat) \<and> (of_char c :: nat) \<le> 90")
  case True
  then have "(of_char c + 32 :: nat) mod 256 = of_char c + 32" by simp
  with True show ?thesis by (simp add: lower_char_def Let_def)
qed (auto simp: lower_char_def Let_def)

lemma lower_lower [simp]: "lower (lower s) = lower s"
  by (simp add: lower_def comp_def)

lemma starts_with_iff: "starts_with s p \<longleftrightarrow> (\<exists>r. s = p @ r)"
proof
  assume "starts_with s p"
  then have "s = p @ drop (length p) s" by (metis append_take_drop_id starts_with_def)
  then show "\<exists>r. s = p @ r" by blast
qed (auto simp: starts_with_def)

text \<open>\<open>float(text)\<close>: which texts it accepts, and the value of a finite one (\<open>py_float\<close> is \<open>None\<close> for the
  infinities and not-a-number).\<close>

definition unsigned :: "string \<Rightarrow> string" where
  "unsigned s = (case s of [] \<Rightarrow> [] | c # cs \<Rightarrow> if c = CHR ''+'' \<or> c = CHR ''-'' then cs else s)"

definition mantissa_ok :: "string \<Rightarrow> bool" where
  "mantissa_ok s =
     (let ip = takeWhile (\<lambda>c. c \<noteq> CHR ''.'') s; rest = dropWhile (\<lambda>c. c \<noteq> CHR ''.'') s in
      case rest of
        [] \<Rightarrow> digits_ok ip
      | _ # fp \<Rightarrow> (digits_ok ip \<and> (fp = [] \<or> digits_ok fp)) \<or> (ip = [] \<and> digits_ok fp))"

definition float_ok :: "string \<Rightarrow> bool" where
  "float_ok text =
     (let s = lower (unsigned (strip text));
          m = takeWhile (\<lambda>c. c \<noteq> CHR ''e'') s; rest = dropWhile (\<lambda>c. c \<noteq> CHR ''e'') s in
      s = ''inf'' \<or> s = ''infinity'' \<or> s = ''nan'' \<or>
      (mantissa_ok m \<and> (case rest of [] \<Rightarrow> True | _ # ex \<Rightarrow> digits_ok (unsigned ex))))"

lemma float_ok_examples:
  "float_ok ''0.05''" "float_ok '' -1e-3 ''" "float_ok ''.5''" "float_ok ''5.''" "float_ok ''NaN''"
  "\<not> float_ok ''.''" "\<not> float_ok ''''" "\<not> float_ok ''1e''" "\<not> float_ok ''0,5''" "\<not> float_ok ''0x1''"
  by code_simp+

definition float_value :: "string \<Rightarrow> rat" where
  "float_value s =
     (let m = takeWhile (\<lambda>c. c \<noteq> CHR ''e'') s; ex = drop (length m + 1) s;
          ip = takeWhile (\<lambda>c. c \<noteq> CHR ''.'') m; fp = filter is_digit (drop (length ip + 1) m);
          e = (if ex = [] then 0 else nat_of_digits (filter is_digit ex));
          v = of_nat (nat_of_digits (filter is_digit ip @ fp)) / 10 ^ length fp
      in if ex \<noteq> [] \<and> hd ex = CHR ''-'' then v / 10 ^ e else v * 10 ^ e)"

definition py_float :: "string \<Rightarrow> rat option" where
  "py_float text =
     (let t = strip text; s = lower (unsigned t) in
      if \<not> float_ok text \<or> s = ''inf'' \<or> s = ''infinity'' \<or> s = ''nan'' then None
      else Some (if t \<noteq> [] \<and> hd t = CHR ''-'' then - float_value s else float_value s))"

lemma py_float_examples:
  "py_float ''2.50'' = Some (5 / 2)" "py_float ''-1e-3'' = Some (- (1 / 1000))" "py_float '' 60 '' = Some 60"
  "py_float ''1_0.5E1'' = Some 105" "py_float ''abc'' = None"
  by code_simp+

text \<open>\<open>text.split(c)\<close> for a single character.\<close>

fun split_on :: "char \<Rightarrow> string \<Rightarrow> string list" where
  "split_on c [] = [[]]"
| "split_on c (x # xs) =
     (if x = c then [] # split_on c xs
      else (case split_on c xs of [] \<Rightarrow> [[x]] | w # ws \<Rightarrow> (x # w) # ws))"

subsection \<open>SQLite tables\<close>

text \<open>
  A table is its rows in rowid order and the counter of \<open>AUTOINCREMENT\<close>
  (\<open>sqlite_sequence\<close>): a new row gets the next number, numbers are never used again.
\<close>

record 'r table =
  trows :: "'r list"
  tseq :: nat

definition empty_table :: "'r table" where
  "empty_table = \<lparr>trows = [], tseq = 0\<rparr>"

definition sql_insert :: "(nat \<Rightarrow> 'r) \<Rightarrow> 'r table \<Rightarrow> 'r table" where
  "sql_insert mk t = t\<lparr>trows := trows t @ [mk (Suc (tseq t))], tseq := Suc (tseq t)\<rparr>"

definition last_insert_rowid :: "'r table \<Rightarrow> nat" where
  "last_insert_rowid t = tseq t"

definition sql_update :: "('r \<Rightarrow> bool) \<Rightarrow> ('r \<Rightarrow> 'r) \<Rightarrow> 'r table \<Rightarrow> 'r table" where
  "sql_update p f t = t\<lparr>trows := map (\<lambda>r. if p r then f r else r) (trows t)\<rparr>"

definition sql_delete :: "('r \<Rightarrow> bool) \<Rightarrow> 'r table \<Rightarrow> 'r table" where
  "sql_delete p t = t\<lparr>trows := filter (\<lambda>r. \<not> p r) (trows t)\<rparr>"

definition sql_select :: "('r \<Rightarrow> bool) \<Rightarrow> 'r table \<Rightarrow> 'r list" where
  "sql_select p t = filter p (trows t)"

text \<open>\<open>fetchone()\<close> of a \<open>SELECT\<close>: the first matching row, if any.\<close>

definition sql_fetchone :: "('r \<Rightarrow> bool) \<Rightarrow> 'r table \<Rightarrow> 'r option" where
  "sql_fetchone p t = find p (trows t)"

definition sql_rowcount :: "('r \<Rightarrow> bool) \<Rightarrow> 'r table \<Rightarrow> nat" where
  "sql_rowcount p t = length (filter p (trows t))"

text \<open>\<open>LIMIT n\<close>: a negative limit is no limit.\<close>

definition sql_limit :: "int \<Rightarrow> 'r list \<Rightarrow> 'r list" where
  "sql_limit n rs = (if n < 0 then rs else take (nat n) rs)"

lemma tseq_simps [table_simps]:
  "tseq (sql_insert mk t) = Suc (tseq t)" "tseq (sql_update p f t) = tseq t"
  "tseq (sql_delete p t) = tseq t" "tseq empty_table = 0"
  by (simp_all add: sql_insert_def sql_update_def sql_delete_def empty_table_def)

lemma trows_simps [table_simps]:
  "trows (sql_insert mk t) = trows t @ [mk (Suc (tseq t))]"
  "trows (sql_update p f t) = map (\<lambda>r. if p r then f r else r) (trows t)"
  "trows (sql_delete p t) = filter (\<lambda>r. \<not> p r) (trows t)"
  "trows empty_table = []"
  by (simp_all add: sql_insert_def sql_update_def sql_delete_def empty_table_def)

lemma sql_fetchone_SomeD: "sql_fetchone p t = Some r \<Longrightarrow> r \<in> set (trows t) \<and> p r"
  by (auto simp: sql_fetchone_def find_Some_iff)

lemma sql_fetchone_None: "sql_fetchone p t = None \<longleftrightarrow> (\<forall>r \<in> set (trows t). \<not> p r)"
  by (auto simp: sql_fetchone_def find_None_iff)

lemma sql_select_set: "set (sql_select p t) = {r \<in> set (trows t). p r}"
  by (auto simp: sql_select_def)

lemma sql_limit_subset: "set (sql_limit n rs) \<subseteq> set rs"
  using set_take_subset [of "nat n" rs] by (auto simp: sql_limit_def)

lemma find_map_upd:
  assumes "\<And>r. q (if p r then f r else r) = q r"
  shows "find q (map (\<lambda>r. if p r then f r else r) xs) =
         map_option (\<lambda>r. if p r then f r else r) (find q xs)"
proof (induction xs)
  case (Cons a xs)
  show ?case
    using Cons.IH assms [of a] by (simp only: list.map find.simps split: if_split) auto
qed simp

lemma find_append: "find q (xs @ ys) = (case find q xs of None \<Rightarrow> find q ys | Some r \<Rightarrow> Some r)"
  by (induction xs) auto

lemma sql_update_twice:
  "(\<And>r. p (f r) = p r) \<Longrightarrow> sql_update p g (sql_update p f t) = sql_update p (\<lambda>r. g (f r)) t"
  by (simp add: sql_update_def)

text \<open>A column no update writes keeps its values.\<close>

lemma map_upd_column:
  "(\<And>r. k (f r) = k r) \<Longrightarrow> map k (map (\<lambda>r. if p r then f r else r) xs) = map k xs"
  by simp

lemma image_upd_column:
  assumes "\<And>r. k (f r) = k r"
  shows "k ` set (map (\<lambda>r. if p r then f r else r) xs) = k ` set xs"
  by (metis assms list.set_map map_upd_column)

lemma length_filter_map_le:
  assumes "\<And>r. Q (g r) \<Longrightarrow> P r"
  shows "length (filter Q (map g xs)) \<le> length (filter P xs)"
  by (induction xs) (auto simp: le_SucI dest: assms)

lemma length_filter_mono: "(\<And>r. Q r \<Longrightarrow> P r) \<Longrightarrow> length (filter Q xs) \<le> length (filter P xs)"
  using length_filter_map_le [of Q "\<lambda>r. r" P xs] by simp

lemma filter_eq_singleton: "distinct xs \<Longrightarrow> r \<in> set xs \<Longrightarrow> filter ((=) r) xs = [r]"
  by (induction xs) (auto simp: filter_empty_conv)

text \<open>
  Row ids of a table: all different and none beyond the counter. Every store of the
  development keeps this; the facts about it are proved once, for any row type whose
  constructor puts the given number into the id column.
\<close>

definition ids_ok :: "('r \<Rightarrow> nat) \<Rightarrow> 'r table \<Rightarrow> bool" where
  "ids_ok rid t \<longleftrightarrow>
     distinct (map rid (trows t)) \<and> (\<forall>r \<in> set (trows t). 0 < rid r \<and> rid r \<le> tseq t)"

locale autoinc_rows =
  fixes rid :: "'r \<Rightarrow> nat"
    and mk :: "'x \<Rightarrow> nat \<Rightarrow> 'r"
  assumes rid_mk: "rid (mk x n) = n"
begin

lemma ids_ok_empty: "ids_ok rid empty_table"
  by (simp add: ids_ok_def table_simps)

lemma ids_ok_insert: "ids_ok rid t \<Longrightarrow> ids_ok rid (sql_insert (mk x) t)"
  by (force simp: ids_ok_def table_simps rid_mk)

lemma ids_ok_update:
  assumes "\<And>r. rid (f r) = rid r" "ids_ok rid t"
  shows "ids_ok rid (sql_update p f t)"
proof -
  have eq: "map rid (map (\<lambda>r. if p r then f r else r) (trows t)) = map rid (trows t)"
    using assms(1) by simp
  show ?thesis
    unfolding ids_ok_def table_simps eq using assms by (auto simp: ids_ok_def)
qed

lemma ids_ok_delete: "ids_ok rid t \<Longrightarrow> ids_ok rid (sql_delete p t)"
  by (auto simp: ids_ok_def table_simps distinct_map inj_on_def)

lemma fetch_inserted:
  "ids_ok rid t \<Longrightarrow>
   sql_fetchone (\<lambda>r. rid r = Suc (tseq t)) (sql_insert (mk x) t) = Some (mk x (Suc (tseq t)))"
proof -
  assume "ids_ok rid t"
  then have "find (\<lambda>r. rid r = Suc (tseq t)) (trows t) = None"
    by (auto simp: find_None_iff ids_ok_def)
  then show ?thesis by (simp add: sql_fetchone_def table_simps find_append rid_mk)
qed

lemma fetch_other_inserted:
  "n \<noteq> Suc (tseq t) \<Longrightarrow>
   sql_fetchone (\<lambda>r. rid r = n) (sql_insert (mk x) t) = sql_fetchone (\<lambda>r. rid r = n) t"
  by (simp add: sql_fetchone_def table_simps find_append rid_mk split: option.split)

lemma fetch_member:
  assumes "ids_ok rid t" "r \<in> set (trows t)"
  shows "sql_fetchone (\<lambda>q. rid q = rid r) t = Some r"
proof -
  have ex: "sql_fetchone (\<lambda>q. rid q = rid r) t \<noteq> None"
    using assms(2) by (auto simp: sql_fetchone_None)
  then obtain q where q: "sql_fetchone (\<lambda>q. rid q = rid r) t = Some q" by blast
  from sql_fetchone_SomeD [OF q] assms have "q = r"
    by (auto simp: ids_ok_def distinct_map inj_on_def)
  with q show ?thesis by simp
qed

lemma fetch_updated:
  assumes "\<And>r. rid (f r) = rid r"
  shows "sql_fetchone (\<lambda>r. rid r = n) (sql_update (\<lambda>r. rid r = n) f t) =
         map_option f (sql_fetchone (\<lambda>r. rid r = n) t)"
    and "m \<noteq> n \<Longrightarrow> sql_fetchone (\<lambda>r. rid r = m) (sql_update (\<lambda>r. rid r = n) f t) =
         sql_fetchone (\<lambda>r. rid r = m) t"
proof -
  have *: "sql_fetchone (\<lambda>r. rid r = k) (sql_update (\<lambda>r. rid r = n) f t) =
      map_option (\<lambda>r. if rid r = n then f r else r) (sql_fetchone (\<lambda>r. rid r = k) t)" for k
    unfolding sql_fetchone_def table_simps by (rule find_map_upd) (simp add: assms)
  show "sql_fetchone (\<lambda>r. rid r = n) (sql_update (\<lambda>r. rid r = n) f t) =
         map_option f (sql_fetchone (\<lambda>r. rid r = n) t)"
    unfolding * by (cases "sql_fetchone (\<lambda>r. rid r = n) t") (auto dest: sql_fetchone_SomeD)
  show "sql_fetchone (\<lambda>r. rid r = m) (sql_update (\<lambda>r. rid r = n) f t) =
         sql_fetchone (\<lambda>r. rid r = m) t" if "m \<noteq> n"
    unfolding * using that
    by (cases "sql_fetchone (\<lambda>r. rid r = m) t") (auto dest: sql_fetchone_SomeD)
qed

lemma rowcount_one:
  assumes "ids_ok rid t" "r \<in> set (trows t)" "p r"
  shows "sql_rowcount (\<lambda>q. rid q = rid r \<and> p q) t = 1"
proof -
  have "filter (\<lambda>q. rid q = rid r \<and> p q) (trows t) = filter ((=) r) (trows t)"
    using assms by (intro filter_cong) (auto simp: ids_ok_def distinct_map inj_on_def)
  moreover have "distinct (trows t)" using assms(1) by (simp add: ids_ok_def distinct_map)
  then have "length (filter ((=) r) (trows t)) = 1"
    using assms(2) by (simp add: filter_eq_singleton)
  ultimately show ?thesis by (simp add: sql_rowcount_def)
qed

end

subsection \<open>Sorting and selection\<close>

lemma insort_key_map: "insort_key k (g x) (map g xs) = map g (insort_key (k \<circ> g) x xs)"
  by (induction xs) simp_all

lemma sort_key_map: "sort_key k (map g xs) = map g (sort_key (k \<circ> g) xs)"
  by (induction xs) (simp_all add: insort_key_map comp_def)

lemma sort_key_hd_le:
  assumes "x \<in> set xs" shows "k (hd (sort_key k xs)) \<le> k x"
proof -
  from assms have "x \<in> set (sort_key k xs)" by simp
  then show ?thesis
    using sorted_sort_key [of k xs] by (cases "sort_key k xs") auto
qed

lemma sorted_take_sort_key: "sorted (map k (take n (sort_key k xs)))"
  by (metis sorted_sort_key sorted_wrt_take take_map)

lemma take_sort_key_least:
  assumes "s \<in> set xs" "s \<notin> set (take n (sort_key k xs))" "r \<in> set (take n (sort_key k xs))"
  shows "k r \<le> k s"
proof -
  let ?ys = "sort_key k xs"
  have "s \<in> set (take n ?ys @ drop n ?ys)" using assms(1) by simp
  then have "s \<in> set (drop n ?ys)" using assms(2) by (simp del: append_take_drop_id)
  moreover have "sorted (map k (take n ?ys) @ map k (drop n ?ys))"
    by (metis append_take_drop_id map_append sorted_sort_key)
  ultimately show ?thesis using assms(3) by (simp add: sorted_append)
qed

end
