(* ===== verification/Circuit_Breaker.thy ===== *)
theory Circuit_Breaker
  imports LL_Prelude
begin

text \<open>
  \<open>utils/circuit_breaker.py\<close>: the breaker around Horizon and Redis calls. Every method
  is one state transformer; \<open>time.monotonic()\<close> is the argument \<open>now\<close> (seconds). The two
  optional callbacks are observed through the list \<open>hooks\<close> of the calls made to them.
  \<open>call\<close> is modelled with the outcome of the wrapped function as an input, and with the
  two clock readings it makes (before and after that function ran).
\<close>

datatype circuit_state = CLOSED | OPEN | HALF_OPEN

datatype hook = On_open | On_close

record breaker =
  cb_name :: string
  failure_threshold :: int
  recovery_timeout :: rat
  on_open :: bool    \<comment> \<open>a callback is installed\<close>
  on_close :: bool
  cb_state :: circuit_state
  failure_count :: int
  opened_at :: "rat option"
  hooks :: "hook list"

definition CircuitBreaker :: "string \<Rightarrow> int \<Rightarrow> rat \<Rightarrow> bool \<Rightarrow> bool \<Rightarrow> breaker" where
  "CircuitBreaker name threshold timeout oo oc =
     \<lparr>cb_name = name, failure_threshold = threshold, recovery_timeout = timeout,
      on_open = oo, on_close = oc, cb_state = CLOSED, failure_count = 0,
      opened_at = None, hooks = []\<rparr>"

definition maybe_transition_to_half_open :: "rat \<Rightarrow> breaker \<Rightarrow> breaker" where
  "maybe_transition_to_half_open now b =
     (case opened_at b of
        None \<Rightarrow> b
      | Some t \<Rightarrow>
          if cb_state b = OPEN \<and> recovery_timeout b \<le> now - t
          then b\<lparr>cb_state := HALF_OPEN\<rparr> else b)"

definition current_state :: "rat \<Rightarrow> breaker \<Rightarrow> breaker \<times> circuit_state" where
  "current_state now b = (let b' = maybe_transition_to_half_open now b in (b', cb_state b'))"

definition allow_request :: "rat \<Rightarrow> breaker \<Rightarrow> breaker \<times> bool" where
  "allow_request now b =
     (let b' = maybe_transition_to_half_open now b in (b', cb_state b' \<noteq> OPEN))"

definition open_circuit :: "rat \<Rightarrow> breaker \<Rightarrow> breaker" where
  "open_circuit now b =
     (let was_open = (cb_state b = OPEN);
          b' = b\<lparr>cb_state := OPEN, opened_at := Some now\<rparr>
      in if \<not> was_open \<and> on_open b' then b'\<lparr>hooks := hooks b' @ [On_open]\<rparr> else b')"

definition close_circuit :: "breaker \<Rightarrow> breaker" where
  "close_circuit b =
     (let b' = b\<lparr>cb_state := CLOSED, opened_at := None, failure_count := 0\<rparr>
      in if on_close b' then b'\<lparr>hooks := hooks b' @ [On_close]\<rparr> else b')"

definition record_success :: "breaker \<Rightarrow> breaker" where
  "record_success b =
     (let b' = b\<lparr>failure_count := 0\<rparr>
      in if cb_state b' \<noteq> CLOSED then close_circuit b' else b')"

definition record_failure :: "rat \<Rightarrow> breaker \<Rightarrow> breaker" where
  "record_failure now b =
     (let b' = b\<lparr>failure_count := failure_count b + 1\<rparr>
      in if cb_state b' = HALF_OPEN then open_circuit now b'
         else if failure_threshold b' \<le> failure_count b' then open_circuit now b'
         else b')"

text \<open>
  The wrapped function returns, raises an \<open>Exception\<close>, or is left by a
  \<open>BaseException\<close> that \<open>except Exception\<close> does not catch.
\<close>

datatype ('v, 'e) outcome = Returns 'v | Raises 'e | Interrupted 'e

datatype ('v, 'e) call_result = CircuitOpenError string | Value 'v | Propagates 'e

definition call :: "rat \<Rightarrow> ('v, 'e) outcome \<Rightarrow> rat \<Rightarrow> breaker \<Rightarrow> breaker \<times> ('v, 'e) call_result" where
  "call now out later b =
     (case allow_request now b of
        (b', allowed) \<Rightarrow>
          if \<not> allowed then (b', CircuitOpenError (cb_name b'))
          else case out of
                 Raises e \<Rightarrow> (record_failure later b', Propagates e)
               | Interrupted e \<Rightarrow> (b', Propagates e)
               | Returns v \<Rightarrow> (record_success b', Value v))"

lemmas breaker_ops = maybe_transition_to_half_open_def allow_request_def current_state_def
  open_circuit_def close_circuit_def record_success_def record_failure_def Let_def

subsection \<open>Steps of concurrent callers and the invariant\<close>

text \<open>
  All methods run under one lock, so any interleaving of callers is a sequence of method
  calls; the model does not constrain which caller makes them or when.
\<close>

inductive breaker_step :: "breaker \<Rightarrow> breaker \<Rightarrow> bool" where
  step_state: "breaker_step b (fst (current_state now b))"
| step_allow: "breaker_step b (fst (allow_request now b))"
| step_success: "breaker_step b (record_success b)"
| step_failure: "breaker_step b (record_failure now b)"

inductive breaker_reachable :: "breaker \<Rightarrow> breaker \<Rightarrow> bool" for b0 where
  reach_start: "breaker_reachable b0 b0"
| reach_step: "breaker_reachable b0 b \<Longrightarrow> breaker_step b b' \<Longrightarrow> breaker_reachable b0 b'"

inductive_cases breaker_stepE: "breaker_step b b'"

definition breaker_inv :: "breaker \<Rightarrow> bool" where
  "breaker_inv b \<longleftrightarrow>
     (cb_state b = CLOSED \<longleftrightarrow> opened_at b = None) \<and> 0 \<le> failure_count b \<and>
     (cb_state b = CLOSED \<longrightarrow> failure_count b < failure_threshold b)"

lemma breaker_inv_init: "1 \<le> threshold \<Longrightarrow> breaker_inv (CircuitBreaker name threshold timeout oo oc)"
  by (simp add: breaker_inv_def CircuitBreaker_def)

lemma breaker_step_config:
  "breaker_step b b' \<Longrightarrow> failure_threshold b' = failure_threshold b \<and>
     recovery_timeout b' = recovery_timeout b \<and> cb_name b' = cb_name b"
  by (elim breaker_stepE) (auto simp: breaker_ops split: option.splits)

lemma breaker_step_inv:
  assumes "1 \<le> failure_threshold b" "breaker_inv b" "breaker_step b b'"
  shows "breaker_inv b'"
  using assms(3)
proof cases
  case step_state
  with assms show ?thesis by (auto simp: breaker_inv_def breaker_ops split: option.splits)
next
  case step_allow
  with assms show ?thesis by (auto simp: breaker_inv_def breaker_ops split: option.splits)
next
  case step_success
  with assms show ?thesis by (auto simp: breaker_inv_def breaker_ops)
next
  case step_failure
  with assms show ?thesis by (auto simp: breaker_inv_def breaker_ops)
qed

lemma reachable_config:
  "breaker_reachable b0 b \<Longrightarrow> failure_threshold b = failure_threshold b0"
  by (induction rule: breaker_reachable.induct) (auto dest: breaker_step_config)

text \<open>In every state the breaker can reach under any interleaving of its methods, it is
  closed exactly when no opening time is stored, its failure count is not negative, and while
  it is closed the count stays below the threshold.\<close>

theorem circuit_breaker_invariant:
  assumes "1 \<le> threshold"
    and "breaker_reachable (CircuitBreaker name threshold timeout oo oc) b"
  shows "(cb_state b = CLOSED \<longleftrightarrow> opened_at b = None) \<and> 0 \<le> failure_count b \<and>
     (cb_state b = CLOSED \<longrightarrow> failure_count b < threshold)"
proof -
  let ?b0 = "CircuitBreaker name threshold timeout oo oc"
  have thr: "failure_threshold ?b0 = threshold" by (simp add: CircuitBreaker_def)
  from assms(2) have "breaker_inv b"
  proof (induction rule: breaker_reachable.induct)
    case reach_start
    show ?case using assms(1) by (rule breaker_inv_init)
  next
    case (reach_step b b')
    with assms(1) thr show ?case
      by (metis breaker_step_inv reachable_config)
  qed
  with reachable_config [OF assms(2)] thr show ?thesis by (simp add: breaker_inv_def)
qed

theorem circuit_breaker_invariant_witness:
  "opened_at (record_failure 3 (record_failure 2 (CircuitBreaker ''horizon'' 2 60 True True))) \<noteq> None"
proof -
  let ?b0 = "CircuitBreaker ''horizon'' 2 60 True True"
  let ?b = "record_failure 3 (record_failure 2 ?b0)"
  have "breaker_reachable ?b0 ?b"
    by (blast intro: reach_start reach_step step_failure)
  with circuit_breaker_invariant [of 2 "''horizon''" 60 True True ?b] show ?thesis
    by (simp add: breaker_ops CircuitBreaker_def)
qed

subsection \<open>Opening at the threshold\<close>

definition fail_all :: "rat list \<Rightarrow> breaker \<Rightarrow> breaker" where
  "fail_all ts b = fold record_failure ts b"

lemma record_failure_below:
  assumes "cb_state b = CLOSED" "failure_count b + 1 < failure_threshold b"
  shows "record_failure now b = b\<lparr>failure_count := failure_count b + 1\<rparr>"
  using assms by (simp add: record_failure_def)

lemma fail_all_below:
  "cb_state b = CLOSED \<Longrightarrow> failure_count b + int (length ts) < failure_threshold b \<Longrightarrow>
   fail_all ts b = b\<lparr>failure_count := failure_count b + int (length ts)\<rparr>"
proof (induction ts arbitrary: b)
  case (Cons t ts)
  then show ?case
    using record_failure_below [of b t] by (simp add: fail_all_def algebra_simps)
qed (simp add: fail_all_def)

lemma fail_all_open:
  "cb_state b = OPEN \<Longrightarrow> failure_threshold b \<le> failure_count b + 1 \<Longrightarrow>
   cb_state (fail_all ts b) = OPEN \<and> hooks (fail_all ts b) = hooks b \<and>
   opened_at (fail_all ts b) = (if ts = [] then opened_at b else Some (last ts))"
proof (induction ts arbitrary: b)
  case (Cons t ts)
  let ?b' = "record_failure t b"
  have "cb_state ?b' = OPEN" "failure_threshold ?b' \<le> failure_count ?b' + 1"
      "hooks ?b' = hooks b" "opened_at ?b' = Some t"
    using Cons.prems by (simp_all add: record_failure_def open_circuit_def Let_def)
  with Cons.IH [of ?b'] show ?case by (simp add: fail_all_def)
qed (simp add: fail_all_def)

text \<open>From a closed breaker with no counted failures, consecutive failures leave it closed
  while there are fewer than the threshold, and open from the threshold on; the time stored is
  that of the last failure and the opening callback runs exactly once.\<close>

theorem opens_exactly_at_threshold:
  assumes "cb_state b = CLOSED" "failure_count b = 0" "on_open b"
    and "failure_threshold b = int k" "1 \<le> k"
  shows "cb_state (fail_all ts b) = (if length ts < k then CLOSED else OPEN) \<and>
     hooks (fail_all ts b) = hooks b @ (if length ts < k then [] else [On_open]) \<and>
     (k \<le> length ts \<longrightarrow> opened_at (fail_all ts b) = Some (last ts))"
proof (cases "length ts < k")
  case True
  with fail_all_below [of b ts] assms show ?thesis by simp
next
  case False
  define us t vs where "us = take (k - 1) ts" and "t = ts ! (k - 1)" and "vs = drop k ts"
  have "k - 1 < length ts" using False assms(5) by simp
  then have ts: "ts = us @ t # vs"
    using id_take_nth_drop [of "k - 1" ts] assms(5) by (simp add: us_def t_def vs_def)
  have len: "length us = k - 1" using False by (simp add: us_def)
  let ?b1 = "fail_all us b" let ?b2 = "record_failure t ?b1"
  have b1: "?b1 = b\<lparr>failure_count := int (k - 1)\<rparr>"
    using fail_all_below [of b us] assms len by simp
  have "cb_state ?b2 = OPEN" "failure_threshold ?b2 \<le> failure_count ?b2 + 1"
      "hooks ?b2 = hooks b @ [On_open]" "opened_at ?b2 = Some t"
    unfolding b1 using assms by (simp_all add: record_failure_def open_circuit_def Let_def of_nat_diff)
  moreover have "fail_all ts b = fail_all vs ?b2" by (simp add: ts fail_all_def)
  ultimately show ?thesis
    using fail_all_open [of ?b2 vs] False by (simp add: ts)
qed

theorem opens_exactly_at_threshold_witness:
  "cb_state (fail_all [1, 2, 3] (CircuitBreaker ''redis'' 3 60 True False)) = OPEN"
proof -
  let ?b = "CircuitBreaker ''redis'' 3 60 True False"
  have "cb_state ?b = CLOSED" "failure_count ?b = 0" "on_open ?b" "failure_threshold ?b = int 3"
      "(1::nat) \<le> 3"
    by (simp_all add: CircuitBreaker_def)
  from opens_exactly_at_threshold [OF this, of "[1, 2, 3]"] show ?thesis by simp
qed

subsection \<open>Rejecting while open, probing afterwards\<close>

fun ask_all :: "rat list \<Rightarrow> breaker \<Rightarrow> breaker \<times> bool list" where
  "ask_all [] b = (b, [])"
| "ask_all (t # ts) b =
     (let (b', a) = allow_request t b; (b'', as) = ask_all ts b' in (b'', a # as))"

lemma allow_request_early:
  "cb_state b = OPEN \<Longrightarrow> opened_at b = Some t \<Longrightarrow> now - t < recovery_timeout b \<Longrightarrow>
   allow_request now b = (b, False)"
  by (simp add: allow_request_def maybe_transition_to_half_open_def)

lemma allow_request_due:
  "cb_state b = OPEN \<Longrightarrow> opened_at b = Some t \<Longrightarrow> recovery_timeout b \<le> now - t \<Longrightarrow>
   allow_request now b = (b\<lparr>cb_state := HALF_OPEN\<rparr>, True)"
  by (simp add: allow_request_def maybe_transition_to_half_open_def Let_def)

lemma allow_request_half_open:
  "cb_state b = HALF_OPEN \<Longrightarrow> allow_request now b = (b, True)"
  by (simp add: allow_request_def maybe_transition_to_half_open_def Let_def split: option.split)

lemma ask_all_half_open:
  "cb_state b = HALF_OPEN \<Longrightarrow> ask_all ts b = (b, replicate (length ts) True)"
  by (induction ts) (simp_all add: allow_request_half_open)

text \<open>While the circuit is open and the recovery timeout has not elapsed, every request is
  refused, the wrapped function is not run, and the breaker does not change, however many
  callers ask.\<close>

theorem open_circuit_fast_fails:
  assumes "cb_state b = OPEN" "opened_at b = Some t"
    and "\<forall>now \<in> set ts. now - t < recovery_timeout b"
  shows "ask_all ts b = (b, replicate (length ts) False) \<and>
     (\<forall>now \<in> set ts. call now (Returns v) later b = (b, CircuitOpenError (cb_name b)))"
proof
  show "ask_all ts b = (b, replicate (length ts) False)"
    using assms(3) by (induction ts) (simp_all add: allow_request_early [OF assms(1,2)])
  show "\<forall>now \<in> set ts. call now (Returns v) later b = (b, CircuitOpenError (cb_name b))"
    using assms by (simp add: call_def allow_request_early)
qed

theorem open_circuit_fast_fails_witness:
  "let b = fail_all [0, 1] (CircuitBreaker ''redis'' 2 60 True True) in
   ask_all [2, 30, 60] b = (b, [False, False, False])"
proof -
  let ?b = "fail_all [0, 1] (CircuitBreaker ''redis'' 2 60 True True)"
  have b: "cb_state ?b = OPEN" "opened_at ?b = Some 1" "recovery_timeout ?b = 60"
    by (simp_all add: fail_all_def CircuitBreaker_def breaker_ops)
  have "\<forall>now \<in> set [2, 30, 60]. now - 1 < recovery_timeout ?b" by (simp add: b)
  from open_circuit_fast_fails [OF b(1,2) this, THEN conjunct1] show ?thesis
    by (simp only: Let_def) (simp add: numeral_eq_Suc)
qed

text \<open>Once the recovery timeout has elapsed the circuit is half open: a probe that succeeds
  closes it with a zero count, a probe that fails opens it again with the timer restarted. The
  half-open state does not limit the number of probes: every caller that asks before an outcome
  is recorded is let through.\<close>

theorem half_open_probe:
  assumes "cb_state b = OPEN" "opened_at b = Some t" "recovery_timeout b \<le> now - t"
  shows "ask_all (now # ts) b = (b\<lparr>cb_state := HALF_OPEN\<rparr>, replicate (Suc (length ts)) True) \<and>
     cb_state (fst (call now (Returns v) later b)) = CLOSED \<and>
     failure_count (fst (call now (Returns v) later b)) = 0 \<and>
     cb_state (fst (call now (Raises e) later b)) = OPEN \<and>
     opened_at (fst (call now (Raises e) later b)) = Some later"
proof -
  let ?h = "b\<lparr>cb_state := HALF_OPEN\<rparr>"
  note a = allow_request_due [OF assms]
  have "ask_all ts ?h = (?h, replicate (length ts) True)" by (rule ask_all_half_open) simp
  with a show ?thesis
    by (simp add: call_def record_success_def close_circuit_def record_failure_def
        open_circuit_def Let_def)
qed

theorem half_open_probe_witness:
  "snd (ask_all [61, 62, 63] (fail_all [0, 1] (CircuitBreaker ''redis'' 2 60 True True)))
     = [True, True, True]"
proof -
  let ?b = "fail_all [0, 1] (CircuitBreaker ''redis'' 2 60 True True)"
  have b: "cb_state ?b = OPEN" "opened_at ?b = Some 1" "recovery_timeout ?b \<le> 61 - 1"
    by (simp_all add: fail_all_def CircuitBreaker_def breaker_ops)
  from half_open_probe [OF b, of "[62, 63]", THEN conjunct1] show ?thesis
    by (simp only: snd_conv) simp
qed

end
