(* ===== verification/Retry_Contract.thy ===== *)
theory Retry_Contract
  imports LL_Prelude
begin

text \<open>
  The contract both delivery queues offer their workers
  (\<open>detection/webhook_queue.py\<close> and \<open>detection/chain_submission_queue.py\<close>): a failed
  attempt either puts the item back with one more attempt counted, or, at the item's limit,
  moves it to a dead-letter state it never leaves by failing again. The bounded-retry facts
  are proved here once, from the contract.
\<close>

locale retry_queue =
  fixes waiting :: "'q \<Rightarrow> nat \<Rightarrow> bool"
    and dead :: "'q \<Rightarrow> nat \<Rightarrow> bool"
    and used :: "'q \<Rightarrow> nat \<Rightarrow> int"
    and limit :: "'q \<Rightarrow> nat \<Rightarrow> int"
    and fail :: "'e \<Rightarrow> nat \<Rightarrow> 'q \<Rightarrow> 'q"
  assumes fail_retry: "waiting q i \<Longrightarrow> used q i + 1 < limit q i \<Longrightarrow>
      waiting (fail e i q) i \<and> used (fail e i q) i = used q i + 1 \<and> limit (fail e i q) i = limit q i"
    and fail_last: "waiting q i \<Longrightarrow> limit q i \<le> used q i + 1 \<Longrightarrow> dead (fail e i q) i"
    and fail_dead: "dead q i \<Longrightarrow> dead (fail e i q) i"
    and dead_not_waiting: "dead q i \<Longrightarrow> \<not> waiting q i"
begin

lemma fails_waiting:
  "waiting q i \<Longrightarrow> used q i + int (length es) < limit q i \<Longrightarrow>
   waiting (fold (\<lambda>e. fail e i) es q) i \<and>
   used (fold (\<lambda>e. fail e i) es q) i = used q i + int (length es) \<and>
   limit (fold (\<lambda>e. fail e i) es q) i = limit q i"
proof (induction es arbitrary: q)
  case (Cons e es)
  then have "used q i + 1 < limit q i" by simp
  with Cons.prems(1) have "waiting (fail e i q) i \<and> used (fail e i q) i = used q i + 1 \<and>
      limit (fail e i q) i = limit q i" by (rule fail_retry)
  with Cons.IH [of "fail e i q"] Cons.prems(2) show ?case by simp
qed simp

lemma fails_dead: "dead q i \<Longrightarrow> dead (fold (\<lambda>e. fail e i) es q) i"
  by (induction es arbitrary: q) (simp_all add: fail_dead)

lemma fails_exhausted:
  assumes "waiting q i" "used q i < limit q i" "limit q i \<le> used q i + int (length es)"
  shows "dead (fold (\<lambda>e. fail e i) es q) i"
proof -
  define k where "k = nat (limit q i - used q i - 1)"
  have k: "int k = limit q i - used q i - 1" "k < length es"
    using assms by (auto simp: k_def)
  have es: "es = take k es @ es ! k # drop (Suc k) es"
    using k(2) by (simp add: id_take_nth_drop)
  let ?q = "fold (\<lambda>e. fail e i) (take k es) q"
  have "waiting ?q i \<and> used ?q i = used q i + int k \<and> limit ?q i = limit q i"
    using fails_waiting [of q i "take k es"] assms(1) k by simp
  then have "dead (fail (es ! k) i ?q) i" using k(1) by (intro fail_last) auto
  then have "dead (fold (\<lambda>e. fail e i) (drop (Suc k) es) (fail (es ! k) i ?q)) i"
    by (rule fails_dead)
  then show ?thesis by (subst es) (simp del: take_append)
qed

lemma retries_bounded:
  assumes "waiting q i" "used q i < limit q i"
  shows "waiting (fold (\<lambda>e. fail e i) es q) i \<longleftrightarrow> used q i + int (length es) < limit q i"
proof (cases "used q i + int (length es) < limit q i")
  case True
  with fails_waiting [OF assms(1), of es] show ?thesis by simp
next
  case False
  then have "dead (fold (\<lambda>e. fail e i) es q) i" using assms by (intro fails_exhausted) auto
  with False show ?thesis by (simp add: dead_not_waiting)
qed

end

end
