(* ===== verification/Webhook_Queue.thy ===== *)
theory Webhook_Queue
  imports Retry_Contract
begin

text \<open>
  \<open>detection/webhook_queue.py\<close>: the SQLite delivery queue of webhook alerts. The table
  \<open>webhook_delivery_queue\<close> is a table of \<open>delivery\<close> rows; \<open>now\<close> is the reading of
  \<open>datetime.now(timezone.utc)\<close>, \<open>jitter\<close> the value \<open>random.random()\<close> returned,
  \<open>payload_json\<close> the text \<open>json.dumps\<close> gave for the payload.
\<close>

datatype delivery_status = Delivery_pending | Delivery_delivered | Delivery_dead

record delivery =
  dl_id :: nat
  dl_subscriber_id :: string
  dl_payload_json :: string
  dl_attempt_count :: int
  dl_next_attempt_at :: time
  dl_last_error :: "string option"
  dl_status :: delivery_status
  dl_created_at :: time
  dl_delivered_at :: "time option"

definition MAX_ATTEMPTS :: int where "MAX_ATTEMPTS = 8"
definition BASE_DELAY :: rat where "BASE_DELAY = 5"
definition MAX_DELAY :: rat where "MAX_DELAY = 3600"
definition JITTER_RATIO :: rat where "JITTER_RATIO = 1 / 5"

definition compute_backoff :: "nat \<Rightarrow> rat \<Rightarrow> rat" where
  "compute_backoff attempt jitter =
     (let delay = min (2 ^ attempt * BASE_DELAY) MAX_DELAY
      in delay * (1 - JITTER_RATIO * jitter))"

definition new_delivery :: "string \<times> string \<times> time \<Rightarrow> nat \<Rightarrow> delivery" where
  "new_delivery x n = (case x of (subscriber, payload_json, now) \<Rightarrow>
     \<lparr>dl_id = n, dl_subscriber_id = subscriber, dl_payload_json = payload_json,
      dl_attempt_count = 0, dl_next_attempt_at = now, dl_last_error = None,
      dl_status = Delivery_pending, dl_created_at = now, dl_delivered_at = None\<rparr>)"

definition enqueue :: "time \<Rightarrow> string \<Rightarrow> string \<Rightarrow> delivery table \<Rightarrow> delivery table" where
  "enqueue now subscriber payload_json q = sql_insert (new_delivery (subscriber, payload_json, now)) q"

definition get_due_deliveries :: "time \<Rightarrow> int \<Rightarrow> delivery table \<Rightarrow> delivery list" where
  "get_due_deliveries now limit q =
     sql_limit limit (sort_key dl_next_attempt_at
       (sql_select (\<lambda>r. dl_status r = Delivery_pending \<and> dl_next_attempt_at r \<le> now) q))"

definition mark_delivered :: "time \<Rightarrow> nat \<Rightarrow> int \<Rightarrow> delivery table \<Rightarrow> delivery table" where
  "mark_delivered now i response_status q =
     sql_update (\<lambda>r. dl_id r = i)
       (\<lambda>r. r\<lparr>dl_status := Delivery_delivered, dl_delivered_at := Some now,
            dl_last_error := Some (''HTTP '' @ str_int response_status)\<rparr>) q"

definition mark_failed ::
  "time \<Rightarrow> rat \<Rightarrow> nat \<Rightarrow> string \<Rightarrow> int \<Rightarrow> delivery table \<Rightarrow> delivery table \<times> delivery_status option" where
  "mark_failed now jitter i err max_attempts q =
     (case sql_fetchone (\<lambda>r. dl_id r = i) q of
        None \<Rightarrow> (q, None)
      | Some row \<Rightarrow>
          let attempt = dl_attempt_count row + 1 in
          if max_attempts \<le> attempt
          then (sql_update (\<lambda>r. dl_id r = i)
                  (\<lambda>r. r\<lparr>dl_attempt_count := attempt, dl_status := Delivery_dead,
                       dl_last_error := Some err\<rparr>) q, Some Delivery_dead)
          else (sql_update (\<lambda>r. dl_id r = i)
                  (\<lambda>r. r\<lparr>dl_attempt_count := attempt,
                       dl_next_attempt_at := now + seconds (compute_backoff (nat attempt) jitter),
                       dl_last_error := Some err, dl_status := Delivery_pending\<rparr>) q,
                Some Delivery_pending))"

definition get_dead_letters :: "delivery table \<Rightarrow> delivery list" where
  "get_dead_letters q =
     sort_key dl_created_at (sql_select (\<lambda>r. dl_status r = Delivery_dead) q)"

interpretation wq_rows: autoinc_rows dl_id new_delivery
  by unfold_locales (simp add: new_delivery_def split: prod.splits)

subsection \<open>Backoff\<close>

text \<open>The wait before a retry lies between 80 percent (exclusive) and 100 percent of the
  exponential delay \<open>5 * 2^attempt\<close> seconds capped at one hour, for every value
  \<open>random.random()\<close> can return; in particular it is positive and at most an hour.\<close>

theorem webhook_backoff_bounds:
  assumes "0 \<le> jitter" "jitter < 1"
  shows "4 / 5 * min (5 * 2 ^ attempt) 3600 < compute_backoff attempt jitter \<and>
     compute_backoff attempt jitter \<le> min (5 * 2 ^ attempt) 3600 \<and>
     0 < compute_backoff attempt jitter \<and> compute_backoff attempt jitter \<le> 3600"
proof -
  define d :: rat where "d = min (5 * 2 ^ attempt) 3600"
  have d: "0 < d" "d \<le> 3600" by (auto simp: d_def)
  have eq: "compute_backoff attempt jitter = d * (1 - jitter / 5)"
    by (simp add: compute_backoff_def BASE_DELAY_def MAX_DELAY_def JITTER_RATIO_def d_def
        Let_def mult.commute)
  have "d * (4 / 5) < d * (1 - jitter / 5)" using d assms by (intro mult_strict_left_mono) auto
  moreover have "d * (1 - jitter / 5) \<le> d * 1" using d assms by (intro mult_left_mono) auto
  moreover have "0 < d * (4 / 5)" using d by simp
  ultimately show ?thesis using d unfolding eq d_def [symmetric] by linarith
qed

theorem webhook_backoff_bounds_witness: "4 < compute_backoff 0 (1 / 2) \<and> compute_backoff 0 (1 / 2) \<le> 5"
  using webhook_backoff_bounds [of "1 / 2" 0] by simp

subsection \<open>What a worker sees\<close>

lemma due_deliveries_set:
  "r \<in> set (get_due_deliveries now limit q) \<Longrightarrow>
   r \<in> set (trows q) \<and> dl_status r = Delivery_pending \<and> dl_next_attempt_at r \<le> now"
  using sql_limit_subset by (fastforce simp: get_due_deliveries_def sql_select_set)

text \<open>A poll returns at most \<open>limit\<close> rows, only pending rows whose time has come, in order
  of their due time; and a due row it leaves out is not due before any row it returns, so the
  longest-waiting deliveries are served first.\<close>

theorem due_deliveries_earliest_first:
  assumes "0 \<le> limit"
  shows "length (get_due_deliveries now limit q) \<le> nat limit \<and>
     sorted (map dl_next_attempt_at (get_due_deliveries now limit q)) \<and>
     (\<forall>r \<in> set (get_due_deliveries now limit q).
        r \<in> set (trows q) \<and> dl_status r = Delivery_pending \<and> dl_next_attempt_at r \<le> now) \<and>
     (\<forall>s \<in> set (trows q). \<forall>r \<in> set (get_due_deliveries now limit q).
        dl_status s = Delivery_pending \<longrightarrow> dl_next_attempt_at s \<le> now \<longrightarrow>
        s \<notin> set (get_due_deliveries now limit q) \<longrightarrow> dl_next_attempt_at r \<le> dl_next_attempt_at s)"
proof -
  let ?rows = "sql_select (\<lambda>r. dl_status r = Delivery_pending \<and> dl_next_attempt_at r \<le> now) q"
  have eq: "get_due_deliveries now limit q = take (nat limit) (sort_key dl_next_attempt_at ?rows)"
    using assms by (simp add: get_due_deliveries_def sql_limit_def)
  have mem: "r \<in> set ?rows" if "r \<in> set (trows q)" "dl_status r = Delivery_pending"
      "dl_next_attempt_at r \<le> now" for r
    using that by (simp add: sql_select_set)
  show ?thesis
  proof (intro conjI ballI impI)
    show "length (get_due_deliveries now limit q) \<le> nat limit" by (simp add: eq)
    show "sorted (map dl_next_attempt_at (get_due_deliveries now limit q))"
      unfolding eq by (rule sorted_take_sort_key)
    fix s r
    assume "s \<in> set (trows q)" "r \<in> set (get_due_deliveries now limit q)"
      "dl_status s = Delivery_pending" "dl_next_attempt_at s \<le> now"
      "s \<notin> set (get_due_deliveries now limit q)"
    then show "dl_next_attempt_at r \<le> dl_next_attempt_at s"
      unfolding eq by (intro take_sort_key_least [OF mem])
  qed (auto dest: due_deliveries_set)
qed

theorem due_deliveries_earliest_first_witness:
  "length (get_due_deliveries 9 1 (enqueue 5 ''b'' ''x'' (enqueue 2 ''a'' ''y'' empty_table))) \<le> 1"
proof -
  have "(0::int) \<le> 1" by simp
  from due_deliveries_earliest_first [OF this, THEN conjunct1,
      of 9 "enqueue 5 ''b'' ''x'' (enqueue 2 ''a'' ''y'' empty_table)"]
  show ?thesis by simp
qed

subsection \<open>Bounded retries\<close>

definition delivery_row :: "delivery table \<Rightarrow> nat \<Rightarrow> delivery option" where
  "delivery_row q i = sql_fetchone (\<lambda>r. dl_id r = i) q"

definition delivery_waiting :: "delivery table \<Rightarrow> nat \<Rightarrow> bool" where
  "delivery_waiting q i \<longleftrightarrow>
     (case delivery_row q i of None \<Rightarrow> False | Some r \<Rightarrow> dl_status r = Delivery_pending)"

definition delivery_dead :: "delivery table \<Rightarrow> nat \<Rightarrow> bool" where
  "delivery_dead q i \<longleftrightarrow>
     (case delivery_row q i of None \<Rightarrow> False
      | Some r \<Rightarrow> dl_status r = Delivery_dead \<and> MAX_ATTEMPTS \<le> dl_attempt_count r)"

definition delivery_attempts :: "delivery table \<Rightarrow> nat \<Rightarrow> int" where
  "delivery_attempts q i =
     (case delivery_row q i of None \<Rightarrow> 0 | Some r \<Rightarrow> dl_attempt_count r)"

definition fail_delivery :: "time \<times> rat \<times> string \<Rightarrow> nat \<Rightarrow> delivery table \<Rightarrow> delivery table" where
  "fail_delivery e i q = (case e of (now, jitter, err) \<Rightarrow> fst (mark_failed now jitter i err MAX_ATTEMPTS q))"

lemma delivery_row_mark_failed:
  "delivery_row q i = Some row \<Longrightarrow>
   delivery_row (fail_delivery (now, jitter, err) i q) i =
     Some (let attempt = dl_attempt_count row + 1 in
       if MAX_ATTEMPTS \<le> attempt
       then row\<lparr>dl_attempt_count := attempt, dl_status := Delivery_dead, dl_last_error := Some err\<rparr>
       else row\<lparr>dl_attempt_count := attempt,
             dl_next_attempt_at := now + seconds (compute_backoff (nat attempt) jitter),
             dl_last_error := Some err, dl_status := Delivery_pending\<rparr>)"
  unfolding delivery_row_def fail_delivery_def mark_failed_def
  by (auto simp: Let_def wq_rows.fetch_updated)

interpretation wq: retry_queue delivery_waiting delivery_dead delivery_attempts
  "\<lambda>q i. MAX_ATTEMPTS" fail_delivery
proof unfold_locales
  fix q i and e :: "time \<times> rat \<times> string"
  obtain now jitter err where e: "e = (now, jitter, err)" by (cases e)
  note row = delivery_row_mark_failed [of q i _ now jitter err, folded e]
  show "delivery_waiting (fail_delivery e i q) i \<and>
      delivery_attempts (fail_delivery e i q) i = delivery_attempts q i + 1 \<and>
      MAX_ATTEMPTS = MAX_ATTEMPTS"
    if "delivery_waiting q i" "delivery_attempts q i + 1 < MAX_ATTEMPTS"
    using that by (auto simp: delivery_waiting_def delivery_attempts_def row Let_def split: option.splits)
  show "delivery_dead (fail_delivery e i q) i"
    if "delivery_waiting q i" "MAX_ATTEMPTS \<le> delivery_attempts q i + 1"
    using that by (auto simp: delivery_waiting_def delivery_attempts_def delivery_dead_def row Let_def
        split: option.splits)
  show "delivery_dead (fail_delivery e i q) i" if "delivery_dead q i"
    using that by (auto simp: delivery_dead_def row Let_def split: option.splits)
  show "\<not> delivery_waiting q i" if "delivery_dead q i"
    using that by (auto simp: delivery_dead_def delivery_waiting_def split: option.splits)
qed

text \<open>A newly queued delivery stays pending through fewer than eight failed attempts and is in
  the dead-letter state from the eighth on, whatever the clock, the jitter and the errors; a dead
  letter is never handed to a worker again.\<close>

theorem webhook_retries_bounded:
  assumes "ids_ok dl_id q0" and "q = enqueue t subscriber payload_json q0" and "i = Suc (tseq q0)"
  shows "delivery_waiting (fold (\<lambda>e. fail_delivery e i) es q) i = (length es < 8) \<and>
     (8 \<le> length es \<longrightarrow> (\<forall>now limit. \<forall>r \<in> set (get_due_deliveries now limit
        (fold (\<lambda>e. fail_delivery e i) es q)). r \<noteq> the (delivery_row (fold (\<lambda>e. fail_delivery e i) es q) i)) \<and>
        delivery_dead (fold (\<lambda>e. fail_delivery e i) es q) i)"
proof -
  have row: "delivery_row q i = Some (new_delivery (subscriber, payload_json, t) i)"
    unfolding assms delivery_row_def enqueue_def using assms(1) by (rule wq_rows.fetch_inserted)
  have w: "delivery_waiting q i" "delivery_attempts q i = 0"
    by (simp_all add: delivery_waiting_def delivery_attempts_def row new_delivery_def)
  then have bnd: "delivery_attempts q i < MAX_ATTEMPTS" by (simp add: MAX_ATTEMPTS_def)
  let ?q = "fold (\<lambda>e. fail_delivery e i) es q"
  have dead: "delivery_dead ?q i" if "8 \<le> length es"
    using wq.fails_exhausted [OF w(1) bnd] w(2) that by (simp add: MAX_ATTEMPTS_def)
  have "r \<noteq> the (delivery_row ?q i)"
    if "8 \<le> length es" "r \<in> set (get_due_deliveries now limit ?q)" for r now limit
    using dead [OF that(1)] due_deliveries_set [OF that(2)]
    by (auto simp: delivery_dead_def split: option.splits)
  with dead wq.retries_bounded [OF w(1) bnd, of es] w(2) show ?thesis
    by (auto simp: MAX_ATTEMPTS_def)
qed

theorem webhook_retries_bounded_witness:
  "delivery_dead (fold (\<lambda>e. fail_delivery e 1) (replicate 8 (7, 1 / 2, ''timeout''))
     (enqueue 0 ''sub'' ''{}'' empty_table)) 1"
  using webhook_retries_bounded [OF wq_rows.ids_ok_empty refl refl,
      where t = 0 and subscriber = "''sub''" and payload_json = "''{}''"
        and es = "replicate 8 (7, 1 / 2, ''timeout'')"]
  by (simp add: table_simps del: replicate.simps fold_replicate)

end
