(* ===== verification/Chain_Queue.thy ===== *)
theory Chain_Queue
  imports Retry_Contract "HOL-Library.Product_Lexorder"
begin

text \<open>
  \<open>detection/chain_submission_queue.py\<close>: the durable queue of writes owed to the Soroban
  registry, over the table \<open>pending_chain_submissions\<close> that migration 20 of
  \<open>detection/storage.py\<close> creates. \<open>now\<close> is the clock reading, \<open>rnd\<close> the value of
  \<open>random()\<close> inside \<open>rng.uniform\<close>. The column list of the deployed table is an argument
  of the enqueue statement, because the statement names a column that migration 20 does not
  create; the other operations are those of a table that has it.
\<close>

datatype submission_status = Sub_pending | Sub_in_flight | Sub_submitted | Sub_abandoned | Sub_dead_letter

datatype sql_error = No_such_column string

datatype payload = Payload (payload_score: int) (payload_reason: string) (payload_dispute: string)

definition KIND_DISPUTE_OVERRIDE :: string where "KIND_DISPUTE_OVERRIDE = ''dispute_override''"
definition PRIORITY_LOW :: int where "PRIORITY_LOW = 0"
definition PRIORITY_NORMAL :: int where "PRIORITY_NORMAL = 5"
definition PRIORITY_HIGH :: int where "PRIORITY_HIGH = 10"
definition DEFAULT_PRIORITY :: int where "DEFAULT_PRIORITY = PRIORITY_NORMAL"
definition DEFAULT_MAX_ATTEMPTS :: int where "DEFAULT_MAX_ATTEMPTS = 10"
definition LEASE_SECONDS :: rat where "LEASE_SECONDS = 300"
definition BACKOFF_BASE_SECONDS :: rat where "BACKOFF_BASE_SECONDS = 5"
definition BACKOFF_CAP_SECONDS :: rat where "BACKOFF_CAP_SECONDS = 3600"
definition BACKOFF_JITTER_FRACTION :: rat where "BACKOFF_JITTER_FRACTION = 1 / 4"

record submission =
  ps_id :: nat
  ps_idempotency_key :: string
  ps_kind :: string
  ps_override_id :: nat
  ps_dispute_id :: string
  ps_wallet :: string
  ps_asset_pair :: string
  ps_payload :: payload
  ps_status :: submission_status
  ps_attempts :: int
  ps_max_attempts :: int
  ps_priority :: int
  ps_next_attempt_at :: time
  ps_leased_until :: "time option"
  ps_last_error :: "string option"
  ps_tx_hash :: "string option"
  ps_created_at :: time
  ps_updated_at :: time

text \<open>The dictionary a worker gets: the row as the \<open>SELECT\<close> saw it.\<close>

record job =
  job_id :: nat
  job_idempotency_key :: string
  job_kind :: string
  job_override_id :: nat
  job_dispute_id :: string
  job_wallet :: string
  job_asset_pair :: string
  job_payload :: payload
  job_status :: submission_status
  job_attempts :: int
  job_max_attempts :: int
  job_priority :: int

definition job_of :: "submission \<Rightarrow> job" where
  "job_of r = \<lparr>job_id = ps_id r, job_idempotency_key = ps_idempotency_key r, job_kind = ps_kind r,
     job_override_id = ps_override_id r, job_dispute_id = ps_dispute_id r, job_wallet = ps_wallet r,
     job_asset_pair = ps_asset_pair r, job_payload = ps_payload r, job_status = ps_status r,
     job_attempts = ps_attempts r, job_max_attempts = ps_max_attempts r,
     job_priority = ps_priority r\<rparr>"

subsection \<open>Enqueue\<close>

definition override_idempotency_key :: "string \<Rightarrow> nat \<Rightarrow> string" where
  "override_idempotency_key dispute_id override_id =
     KIND_DISPUTE_OVERRIDE @ '':'' @ dispute_id @ '':'' @ str_nat override_id"

definition pending_chain_columns :: "string list" where
  "pending_chain_columns =
     [''id'', ''idempotency_key'', ''kind'', ''override_id'', ''dispute_id'', ''wallet'',
      ''asset_pair'', ''payload_json'', ''status'', ''attempts'', ''max_attempts'',
      ''next_attempt_at'', ''leased_until'', ''last_error'', ''tx_hash'', ''created_at'',
      ''updated_at'']"

definition enqueue_columns :: "string list" where
  "enqueue_columns =
     [''idempotency_key'', ''kind'', ''override_id'', ''dispute_id'', ''wallet'', ''asset_pair'',
      ''payload_json'', ''status'', ''attempts'', ''max_attempts'', ''priority'',
      ''next_attempt_at'', ''created_at'', ''updated_at'']"

definition new_submission ::
  "string \<times> nat \<times> string \<times> string \<times> int \<times> int \<times> time \<Rightarrow> nat \<Rightarrow> submission" where
  "new_submission x n = (case x of (dispute_id, override_id, wallet, asset_pair, max_attempts, priority, now) \<Rightarrow>
     \<lparr>ps_id = n, ps_idempotency_key = override_idempotency_key dispute_id override_id,
      ps_kind = KIND_DISPUTE_OVERRIDE, ps_override_id = override_id, ps_dispute_id = dispute_id,
      ps_wallet = wallet, ps_asset_pair = asset_pair,
      ps_payload = Payload 0 ''dispute_override'' dispute_id, ps_status = Sub_pending,
      ps_attempts = 0, ps_max_attempts = max_attempts, ps_priority = priority,
      ps_next_attempt_at = now, ps_leased_until = None, ps_last_error = None, ps_tx_hash = None,
      ps_created_at = now, ps_updated_at = now\<rparr>)"

text \<open>\<open>INSERT OR IGNORE\<close> under the \<open>UNIQUE\<close> constraint on the key.\<close>

definition enqueue_override_submission ::
  "string list \<Rightarrow> time \<Rightarrow> string \<Rightarrow> nat \<Rightarrow> string \<Rightarrow> string \<Rightarrow> int \<Rightarrow> int \<Rightarrow> submission table
     \<Rightarrow> sql_error + (submission table \<times> string)" where
  "enqueue_override_submission columns now dispute_id override_id wallet asset_pair max_attempts priority q =
     (case find (\<lambda>c. c \<notin> set columns) enqueue_columns of
        Some c \<Rightarrow> Inl (No_such_column c)
      | None \<Rightarrow>
          let key = override_idempotency_key dispute_id override_id in
          if sql_fetchone (\<lambda>r. ps_idempotency_key r = key) q = None
          then Inr (sql_insert (new_submission (dispute_id, override_id, wallet, asset_pair,
                 max_attempts, priority, now)) q, key)
          else Inr (q, key))"

subsection \<open>Claiming\<close>

definition claimable :: "time \<Rightarrow> submission \<Rightarrow> bool" where
  "claimable now r \<longleftrightarrow>
     ps_next_attempt_at r \<le> now \<and>
     (ps_status r = Sub_pending \<or>
      (ps_status r = Sub_in_flight \<and>
       (case ps_leased_until r of None \<Rightarrow> True | Some t \<Rightarrow> t \<le> now)))"

definition claim_order :: "submission \<Rightarrow> int \<times> time \<times> nat" where
  "claim_order r = (- ps_priority r, ps_next_attempt_at r, ps_id r)"

definition claim_next_due :: "time \<Rightarrow> submission table \<Rightarrow> submission table \<times> job option" where
  "claim_next_due now q =
     (case sql_select (claimable now) q of
        [] \<Rightarrow> (q, None)
      | r # rs \<Rightarrow>
          let row = arg_min_list claim_order (r # rs);
              lease_until = now + seconds LEASE_SECONDS;
              updated = sql_rowcount (\<lambda>p. ps_id p = ps_id row \<and> claimable now p) q;
              q' = sql_update (\<lambda>p. ps_id p = ps_id row \<and> claimable now p)
                     (\<lambda>p. p\<lparr>ps_status := Sub_in_flight, ps_leased_until := Some lease_until,
                          ps_updated_at := now\<rparr>) q
          in if updated \<noteq> 1 then (q', None) else (q', Some (job_of row)))"

subsection \<open>Failure, backoff and the dead-letter path\<close>

definition backoff_seconds :: "int \<Rightarrow> rat \<Rightarrow> rat" where
  "backoff_seconds attempts rnd =
     (let base = (if attempts < 1 then BACKOFF_BASE_SECONDS
                  else min (BACKOFF_BASE_SECONDS * 2 ^ nat (attempts - 1)) BACKOFF_CAP_SECONDS);
          jitter = base * BACKOFF_JITTER_FRACTION;
          delay = base + (- jitter + (jitter - (- jitter)) * rnd)
      in max 0 (min delay BACKOFF_CAP_SECONDS))"

definition dead_letter :: "time \<Rightarrow> string \<Rightarrow> job \<Rightarrow> submission table \<Rightarrow> submission table" where
  "dead_letter now err row q =
     sql_update (\<lambda>p. ps_id p = job_id row)
       (\<lambda>p. p\<lparr>ps_status := Sub_dead_letter, ps_last_error := Some err, ps_leased_until := None,
            ps_updated_at := now\<rparr>) q"

definition record_failure ::
  "time \<Rightarrow> rat \<Rightarrow> string \<Rightarrow> job \<Rightarrow> submission table \<Rightarrow> submission table \<times> submission_status" where
  "record_failure now rnd err row q =
     (let attempts = job_attempts row + 1; max_attempts = job_max_attempts row in
      if max_attempts \<le> attempts then (dead_letter now err row q, Sub_dead_letter)
      else
        (sql_update (\<lambda>p. ps_id p = job_id row)
           (\<lambda>p. p\<lparr>ps_status := Sub_pending, ps_attempts := attempts, ps_last_error := Some err,
                ps_leased_until := None,
                ps_next_attempt_at := now + seconds (backoff_seconds attempts rnd),
                ps_updated_at := now\<rparr>) q, Sub_pending))"

definition dead_lettered :: "submission table \<Rightarrow> submission list" where
  "dead_lettered q =
     sort_key (\<lambda>r. (ps_updated_at r, ps_id r)) (sql_select (\<lambda>r. ps_status r = Sub_dead_letter) q)"

interpretation cq_rows: autoinc_rows ps_id new_submission
  by unfold_locales (simp add: new_submission_def split: prod.splits)

subsection \<open>Idempotency\<close>

lemma colon_split:
  assumes "a @ CHR '':'' # s = b @ CHR '':'' # t" "CHR '':'' \<notin> set s" "CHR '':'' \<notin> set t"
  shows "a = b \<and> s = t"
proof -
  from assms(1) have "rev s @ CHR '':'' # rev a = rev t @ CHR '':'' # rev b"
    by (metis append.assoc append_Cons append_Nil rev.simps(2) rev_append)
  moreover have "takeWhile (\<lambda>c. c \<noteq> CHR '':'') (rev u @ CHR '':'' # v) = rev u"
    if "CHR '':'' \<notin> set u" for u v
    using that by (subst takeWhile_append2) auto
  ultimately have "rev s = rev t" using assms(2,3) by metis
  with assms(1) show ?thesis by simp
qed

lemma colon_not_digit: "CHR '':'' \<notin> set (str_nat n)"
  using str_nat_digits [of n] by (auto simp: is_digit_def)

lemma override_idempotency_key_inj:
  "override_idempotency_key d i = override_idempotency_key d' i' \<longleftrightarrow> d = d' \<and> i = i'"
  using colon_split [OF _ colon_not_digit colon_not_digit, of d i d' i']
  by (auto simp: override_idempotency_key_def)

lemma enqueue_on_full_schema:
  assumes "set enqueue_columns \<subseteq> set columns"
  shows "enqueue_override_submission columns now d i w a mx pr q =
     (if sql_fetchone (\<lambda>r. ps_idempotency_key r = override_idempotency_key d i) q = None
      then Inr (sql_insert (new_submission (d, i, w, a, mx, pr, now)) q, override_idempotency_key d i)
      else Inr (q, override_idempotency_key d i))"
proof -
  have "find (\<lambda>c. c \<notin> set columns) enqueue_columns = None"
    using assms by (auto simp: find_None_iff)
  then show ?thesis by (simp add: enqueue_override_submission_def Let_def)
qed

text \<open>On a table with every column the statement names, queueing the same decision again, with
  any other wallet, limit, priority or time, leaves the queue as it was and returns the same key;
  and a decision with another dispute or another override id is queued beside it.\<close>

theorem enqueue_idempotent:
  assumes "set enqueue_columns \<subseteq> set columns"
    and "enqueue_override_submission columns now d i w a mx pr q = Inr (q', key)"
  shows "enqueue_override_submission columns now' d i w' a' mx' pr' q' = Inr (q', key) \<and>
     ((d', i') \<noteq> (d, i) \<longrightarrow>
      sql_fetchone (\<lambda>r. ps_idempotency_key r = override_idempotency_key d' i') q = None \<longrightarrow>
      enqueue_override_submission columns now' d' i' w' a' mx' pr' q' =
        Inr (sql_insert (new_submission (d', i', w', a', mx', pr', now')) q',
             override_idempotency_key d' i'))"
  using assms(2) unfolding enqueue_on_full_schema [OF assms(1)]
  by (auto simp: sql_fetchone_def find_append table_simps new_submission_def
      override_idempotency_key_inj split: if_splits option.splits)

theorem enqueue_idempotent_witness:
  "enqueue_override_submission enqueue_columns 9 ''d1'' 4 ''G2'' ''XLM/EUR'' 3 10
     (sql_insert (new_submission (''d1'', 4, ''G1'', ''XLM/USDC'', 10, 5, 0)) empty_table)
   = Inr (sql_insert (new_submission (''d1'', 4, ''G1'', ''XLM/USDC'', 10, 5, 0)) empty_table,
          override_idempotency_key ''d1'' 4)"
proof -
  have "enqueue_override_submission enqueue_columns 0 ''d1'' 4 ''G1'' ''XLM/USDC'' 10 5 empty_table
    = Inr (sql_insert (new_submission (''d1'', 4, ''G1'', ''XLM/USDC'', 10, 5, 0)) empty_table,
          override_idempotency_key ''d1'' 4)"
    by (simp add: enqueue_on_full_schema sql_fetchone_def empty_table_def)
  from enqueue_idempotent [OF subset_refl this, THEN conjunct1] show ?thesis by blast
qed

lemma enqueue_fails:
  "enqueue_override_submission pending_chain_columns now d i w a mx pr q = Inl (No_such_column ''priority'')"
  by (simp add: enqueue_override_submission_def enqueue_columns_def pending_chain_columns_def)

subsection \<open>Claims: priority, single flight, recovery\<close>

lemma claim_selects:
  assumes "ids_ok ps_id q" "r \<in> set (trows q)" "claimable now r"
  obtains row where "row \<in> set (trows q)" "claimable now row"
    "\<forall>s \<in> set (trows q). claimable now s \<longrightarrow> claim_order row \<le> claim_order s"
    "claim_next_due now q =
      (sql_update (\<lambda>p. ps_id p = ps_id row \<and> claimable now p)
         (\<lambda>p. p\<lparr>ps_status := Sub_in_flight, ps_leased_until := Some (now + seconds LEASE_SECONDS),
              ps_updated_at := now\<rparr>) q, Some (job_of row))"
proof -
  let ?sel = "sql_select (claimable now) q"
  let ?row = "arg_min_list claim_order ?sel"
  have ne: "?sel \<noteq> []" using assms(2,3) by (auto simp: sql_select_def filter_empty_conv)
  have row: "?row \<in> set (trows q)" "claimable now ?row"
    using arg_min_list_in [OF ne, of claim_order] by (auto simp: sql_select_set)
  have least: "claim_order ?row \<le> claim_order s" if "s \<in> set (trows q)" "claimable now s" for s
    using f_arg_min_list_f [OF ne, of claim_order] that by (simp add: sql_select_set)
  have one: "sql_rowcount (\<lambda>p. ps_id p = ps_id ?row \<and> claimable now p) q = 1"
    using cq_rows.rowcount_one [OF assms(1) row(1), of "claimable now"] row(2) by simp
  have "claim_next_due now q =
      (sql_update (\<lambda>p. ps_id p = ps_id ?row \<and> claimable now p)
         (\<lambda>p. p\<lparr>ps_status := Sub_in_flight, ps_leased_until := Some (now + seconds LEASE_SECONDS),
              ps_updated_at := now\<rparr>) q, Some (job_of ?row))"
  proof -
    obtain x xs where "?sel = x # xs" using ne by (cases ?sel) auto
    with one show ?thesis by (simp add: claim_next_due_def Let_def)
  qed
  with row least show ?thesis by (intro that [of ?row]) auto
qed

lemma claim_none:
  "\<forall>r \<in> set (trows q). \<not> claimable now r \<Longrightarrow> claim_next_due now q = (q, None)"
proof -
  assume "\<forall>r \<in> set (trows q). \<not> claimable now r"
  then have "sql_select (claimable now) q = []" by (simp add: sql_select_def filter_empty_conv)
  then show ?thesis by (simp add: claim_next_due_def)
qed

lemma claim_order_leD:
  assumes "claim_order r \<le> claim_order s"
  shows "ps_priority s \<le> ps_priority r \<and>
    (ps_priority s = ps_priority r \<longrightarrow> ps_next_attempt_at r \<le> ps_next_attempt_at s) \<and>
    (ps_priority s = ps_priority r \<longrightarrow> ps_next_attempt_at s = ps_next_attempt_at r \<longrightarrow> ps_id r \<le> ps_id s)"
  using assms by (auto simp: claim_order_def)

lemma claim_spec:
  assumes "ids_ok ps_id q"
  shows "case claim_next_due now q of
       (q', None) \<Rightarrow> q' = q \<and> (\<forall>r \<in> set (trows q). \<not> claimable now r)
     | (q', Some j) \<Rightarrow>
         (\<exists>row \<in> set (trows q). claimable now row \<and> j = job_of row \<and>
            (\<forall>s \<in> set (trows q). claimable now s \<longrightarrow> claim_order row \<le> claim_order s) \<and>
            trows q' = map (\<lambda>p. if p = row
               then p\<lparr>ps_status := Sub_in_flight, ps_leased_until := Some (now + 300000000),
                      ps_updated_at := now\<rparr> else p) (trows q))"
proof (cases "\<exists>r \<in> set (trows q). claimable now r")
  case False
  then show ?thesis using claim_none [of q now] by simp
next
  case True
  then obtain r where "r \<in> set (trows q)" "claimable now r" by blast
  from claim_selects [OF assms this] obtain row where
    row: "row \<in> set (trows q)" "claimable now row"
    and least: "\<forall>s \<in> set (trows q). claimable now s \<longrightarrow> claim_order row \<le> claim_order s"
    and eq: "claim_next_due now q =
      (sql_update (\<lambda>p. ps_id p = ps_id row \<and> claimable now p)
         (\<lambda>p. p\<lparr>ps_status := Sub_in_flight, ps_leased_until := Some (now + seconds LEASE_SECONDS),
              ps_updated_at := now\<rparr>) q, Some (job_of row))" .
  have same: "(ps_id p = ps_id row \<and> claimable now p) = (p = row)" if "p \<in> set (trows q)" for p
    using assms row that by (auto simp: ids_ok_def distinct_map inj_on_def)
  show ?thesis
    unfolding eq prod.case option.case
    using row least same by (intro bexI [of _ row]) (auto simp: table_simps LEASE_SECONDS_def)
qed

text \<open>A claim returns nothing only when no row is due; otherwise it returns a due row of the
  highest priority present, of those the one due first, of those the oldest, and marks exactly
  that row in flight with a lease of 300 seconds. A backlog of lower priority therefore never
  delays a due row of higher priority.\<close>

theorem claim_takes_highest_priority:
  assumes "ids_ok ps_id q"
  shows "case claim_next_due now q of
       (q', None) \<Rightarrow> q' = q \<and> (\<forall>r \<in> set (trows q). \<not> claimable now r)
     | (q', Some j) \<Rightarrow>
         (\<exists>row \<in> set (trows q). claimable now row \<and> j = job_of row \<and>
            (\<forall>s \<in> set (trows q). claimable now s \<longrightarrow>
               ps_priority s \<le> ps_priority row \<and>
               (ps_priority s = ps_priority row \<longrightarrow> ps_next_attempt_at row \<le> ps_next_attempt_at s) \<and>
               (ps_priority s = ps_priority row \<longrightarrow> ps_next_attempt_at s = ps_next_attempt_at row \<longrightarrow>
                 ps_id row \<le> ps_id s)) \<and>
            trows q' = map (\<lambda>p. if p = row
               then p\<lparr>ps_status := Sub_in_flight, ps_leased_until := Some (now + 300000000),
                      ps_updated_at := now\<rparr> else p) (trows q))"
proof (cases "claim_next_due now q")
  case (Pair q' jo)
  show ?thesis
  proof (cases jo)
    case None
    with Pair claim_spec [OF assms, of now] show ?thesis by simp
  next
    case (Some j)
    with Pair claim_spec [OF assms, of now] obtain row where
      row: "row \<in> set (trows q)" "claimable now row" "j = job_of row"
        "\<forall>s \<in> set (trows q). claimable now s \<longrightarrow> claim_order row \<le> claim_order s"
        "trows q' = map (\<lambda>p. if p = row
               then p\<lparr>ps_status := Sub_in_flight, ps_leased_until := Some (now + 300000000),
                      ps_updated_at := now\<rparr> else p) (trows q)" by auto
    then show ?thesis
      unfolding Pair Some prod.case option.case
      by (intro bexI [of _ row] conjI ballI) (simp_all add: claim_order_leD)
  qed
qed

theorem claim_takes_highest_priority_witness:
  "map_option job_id (snd (claim_next_due 10
     (sql_insert (new_submission (''d2'', 2, ''B'', ''p'', 10, PRIORITY_HIGH, 5))
       (sql_insert (new_submission (''d1'', 1, ''A'', ''p'', 10, PRIORITY_LOW, 1)) empty_table)))) = Some 2"
proof -
  let ?q = "sql_insert (new_submission (''d2'', 2, ''B'', ''p'', 10, PRIORITY_HIGH, 5))
       (sql_insert (new_submission (''d1'', 1, ''A'', ''p'', 10, PRIORITY_LOW, 1)) empty_table)"
  have ok: "ids_ok ps_id ?q" by (intro cq_rows.ids_ok_insert cq_rows.ids_ok_empty)
  have rows: "trows ?q = [new_submission (''d1'', 1, ''A'', ''p'', 10, PRIORITY_LOW, 1) 1,
      new_submission (''d2'', 2, ''B'', ''p'', 10, PRIORITY_HIGH, 5) 2]"
    by (simp add: table_simps numeral_2_eq_2)
  show ?thesis
    using claim_takes_highest_priority [OF ok, of 10] unfolding rows
    by (auto simp: new_submission_def claimable_def job_of_def PRIORITY_LOW_def PRIORITY_HIGH_def
        split: prod.splits option.splits)
qed

fun claim_all :: "time list \<Rightarrow> submission table \<Rightarrow> job list" where
  "claim_all [] q = []"
| "claim_all (t # ts) q =
     (case claim_next_due t q of
        (q', None) \<Rightarrow> claim_all ts q'
      | (q', Some j) \<Rightarrow> j # claim_all ts q')"

lemma claim_ids_ok: "ids_ok ps_id q \<Longrightarrow> ids_ok ps_id (fst (claim_next_due now q))"
  by (auto simp: claim_next_due_def Let_def intro!: cq_rows.ids_ok_update split: list.split)

text \<open>Rows that stay leased beyond \<open>t1\<close> are not claimed by any claim before \<open>t1\<close>.\<close>

definition leased_beyond :: "time \<Rightarrow> nat \<Rightarrow> submission table \<Rightarrow> bool" where
  "leased_beyond t1 i q \<longleftrightarrow>
     (\<forall>r \<in> set (trows q). ps_id r = i \<longrightarrow>
        ps_status r = Sub_in_flight \<and> (\<exists>u. ps_leased_until r = Some u \<and> t1 \<le> u))"

lemma claim_step:
  assumes "ids_ok ps_id q" "claim_next_due now q = (q', Some j)" "t1 \<le> now + seconds LEASE_SECONDS"
  shows "leased_beyond t1 (job_id j) q'"
    and "leased_beyond t1 i q \<Longrightarrow> now < t1 \<Longrightarrow> job_id j \<noteq> i \<and> leased_beyond t1 i q'"
proof -
  have "\<exists>r \<in> set (trows q). claimable now r"
    using claim_none [of q now] assms(2) by force
  then obtain r where "r \<in> set (trows q)" "claimable now r" by blast
  from claim_selects [OF assms(1) this] obtain row where
    row: "row \<in> set (trows q)" "claimable now row"
    and eq: "claim_next_due now q =
      (sql_update (\<lambda>p. ps_id p = ps_id row \<and> claimable now p)
         (\<lambda>p. p\<lparr>ps_status := Sub_in_flight, ps_leased_until := Some (now + seconds LEASE_SECONDS),
              ps_updated_at := now\<rparr>) q, Some (job_of row))" by blast
  have same: "p = row" if "p \<in> set (trows q)" "ps_id p = ps_id row" for p
    using assms(1) row that by (auto simp: ids_ok_def distinct_map inj_on_def)
  have j: "job_id j = ps_id row" and q': "trows q' =
      map (\<lambda>p. if ps_id p = ps_id row \<and> claimable now p
        then p\<lparr>ps_status := Sub_in_flight, ps_leased_until := Some (now + seconds LEASE_SECONDS),
              ps_updated_at := now\<rparr> else p) (trows q)"
    using assms(2) eq by (auto simp: job_of_def table_simps)
  show "leased_beyond t1 (job_id j) q'"
    unfolding leased_beyond_def q' j using assms(3) row(2) same by (auto split: if_splits)
  show "job_id j \<noteq> i \<and> leased_beyond t1 i q'" if "leased_beyond t1 i q" "now < t1"
  proof -
    have "ps_id row \<noteq> i"
      using that row by (fastforce simp: leased_beyond_def claimable_def)
    then show ?thesis using that unfolding j leased_beyond_def q' by auto
  qed
qed

lemma claim_all_fresh:
  assumes "ids_ok ps_id q" "leased_beyond t1 i q" "\<forall>t \<in> set ts. t < t1 \<and> t1 \<le> t + seconds LEASE_SECONDS"
  shows "i \<notin> job_id ` set (claim_all ts q)"
  using assms
proof (induction ts arbitrary: q)
  case (Cons t ts)
  obtain q' jo where c: "claim_next_due t q = (q', jo)" by (cases "claim_next_due t q")
  have ok: "ids_ok ps_id q'" using claim_ids_ok [OF Cons.prems(1), of t] c by simp
  show ?case
  proof (cases jo)
    case None
    have "q' = q" using c None claim_spec [OF Cons.prems(1), of t] by simp
    with Cons c None show ?thesis by simp
  next
    case (Some j)
    have "job_id j \<noteq> i \<and> leased_beyond t1 i q'"
      using claim_step(2) [OF Cons.prems(1) c [unfolded Some], of t1 i] Cons.prems(2,3) by auto
    with Cons.IH [OF ok] Cons.prems(3) c Some show ?thesis by auto
  qed
qed simp



text \<open>A row whose worker died after the claim is owed again once the lease is over: if a claim
  at \<open>now\<close> handed out a row, any claim 300 seconds later or more on the same table finds it due, so
  it returns a row of at least its priority.\<close>

theorem claim_recovers_after_lease:
  assumes "ids_ok ps_id q" "claim_next_due now q = (q', Some j)" "now + 300000000 \<le> later"
  shows "(\<exists>r \<in> set (trows q'). ps_id r = job_id j \<and> claimable later r) \<and>
     (\<exists>k. snd (claim_next_due later q') = Some k \<and> job_priority j \<le> job_priority k)"
proof -
  from claim_spec [OF assms(1), of now] assms(2)
  obtain row where row: "row \<in> set (trows q)" "claimable now row" "j = job_of row"
    and q': "trows q' = map (\<lambda>p. if p = row
               then p\<lparr>ps_status := Sub_in_flight, ps_leased_until := Some (now + 300000000),
                      ps_updated_at := now\<rparr> else p) (trows q)" by auto
  let ?r = "row\<lparr>ps_status := Sub_in_flight, ps_leased_until := Some (now + 300000000),
                      ps_updated_at := now\<rparr>"
  have r: "?r \<in> set (trows q')" using row(1) unfolding q' by force
  have cl: "claimable later ?r" using row(2) assms(3) by (auto simp: claimable_def)
  have ok: "ids_ok ps_id q'" using claim_ids_ok [OF assms(1), of now] assms(2) by simp
  have pr: "ps_priority ?r = job_priority j" "ps_id ?r = job_id j" using row(3) by (simp_all add: job_of_def)
  from claim_spec [OF ok, of later] r cl pr(1)
  have "\<exists>k. snd (claim_next_due later q') = Some k \<and> job_priority j \<le> job_priority k"
    by (fastforce simp: job_of_def claim_order_def split: prod.splits option.splits)
  with r cl pr(2) show ?thesis by blast
qed

theorem claim_recovers_after_lease_witness:
  "\<exists>q' j k. claim_next_due 10 (sql_insert (new_submission (''d1'', 1, ''A'', ''p'', 10, 5, 1)) empty_table)
      = (q', Some j) \<and> snd (claim_next_due 300000010 q') = Some k"
proof -
  let ?q = "sql_insert (new_submission (''d1'', 1, ''A'', ''p'', 10, 5, 1)) empty_table"
  have ok: "ids_ok ps_id ?q" by (intro cq_rows.ids_ok_insert cq_rows.ids_ok_empty)
  obtain q' j where c: "claim_next_due 10 ?q = (q', Some j)"
    by (simp add: claim_next_due_def sql_select_def table_simps claimable_def new_submission_def
        sql_rowcount_def Let_def)
  from claim_recovers_after_lease [OF ok c, of 300000010] c show ?thesis by auto
qed

subsection \<open>Backoff and bounded retries\<close>

text \<open>After the n-th failure the wait is within 25 percent of \<open>5 * 2^(n-1)\<close> seconds capped at an
  hour, never negative and never above the hour, for every value the generator can return.\<close>

theorem chain_backoff_bounds:
  assumes "0 \<le> rnd" "rnd \<le> 1" "1 \<le> n"
  shows "3 / 4 * min (5 * 2 ^ nat (n - 1)) 3600 \<le> backoff_seconds n rnd \<and>
     backoff_seconds n rnd \<le> 5 / 4 * min (5 * 2 ^ nat (n - 1)) 3600 \<and>
     0 < backoff_seconds n rnd \<and> backoff_seconds n rnd \<le> 3600"
proof -
  define b :: rat where "b = min (5 * 2 ^ nat (n - 1)) 3600"
  have b: "0 < b" "b \<le> 3600" by (auto simp: b_def)
  define d where "d = b + (- (b / 4) + (b / 4 - - (b / 4)) * rnd)"
  have "0 \<le> b * rnd" "b * rnd \<le> b * 1" using b assms by (auto intro: mult_left_mono)
  then have d: "3 / 4 * b \<le> d" "d \<le> 5 / 4 * b" by (simp_all add: d_def field_simps)
  have "backoff_seconds n rnd = max 0 (min d 3600)"
    using assms(3) by (simp add: backoff_seconds_def BACKOFF_BASE_SECONDS_def BACKOFF_CAP_SECONDS_def
        BACKOFF_JITTER_FRACTION_def Let_def b_def [symmetric] d_def)
  then show ?thesis using b d unfolding b_def [symmetric] by auto
qed

theorem chain_backoff_bounds_witness: "15 \<le> backoff_seconds 3 (1 / 3) \<and> backoff_seconds 3 (1 / 3) \<le> 25"
  using chain_backoff_bounds [of "1 / 3" 3] by (simp add: min_def)

definition submission_row :: "submission table \<Rightarrow> nat \<Rightarrow> submission option" where
  "submission_row q i = sql_fetchone (\<lambda>r. ps_id r = i) q"

definition submission_waiting :: "submission table \<Rightarrow> nat \<Rightarrow> bool" where
  "submission_waiting q i \<longleftrightarrow>
     (case submission_row q i of None \<Rightarrow> False | Some r \<Rightarrow> ps_status r = Sub_pending)"

definition submission_dead :: "submission table \<Rightarrow> nat \<Rightarrow> bool" where
  "submission_dead q i \<longleftrightarrow>
     (case submission_row q i of None \<Rightarrow> False
      | Some r \<Rightarrow> ps_status r = Sub_dead_letter \<and> ps_max_attempts r \<le> ps_attempts r + 1)"

definition submission_attempts :: "submission table \<Rightarrow> nat \<Rightarrow> int" where
  "submission_attempts q i = (case submission_row q i of None \<Rightarrow> 0 | Some r \<Rightarrow> ps_attempts r)"

definition submission_limit :: "submission table \<Rightarrow> nat \<Rightarrow> int" where
  "submission_limit q i = (case submission_row q i of None \<Rightarrow> 0 | Some r \<Rightarrow> ps_max_attempts r)"

text \<open>One attempt that fails: the worker holds the dictionary of the row it claimed.\<close>

definition fail_submission :: "time \<times> rat \<times> string \<Rightarrow> nat \<Rightarrow> submission table \<Rightarrow> submission table" where
  "fail_submission e i q = (case e of (now, rnd, err) \<Rightarrow>
     (case submission_row q i of
        None \<Rightarrow> q
      | Some r \<Rightarrow> fst (record_failure now rnd err (job_of r) q)))"

lemma submission_row_fail:
  assumes "submission_row q i = Some r"
  shows "submission_row (fail_submission (now, rnd, err) i q) i =
     Some (if ps_max_attempts r \<le> ps_attempts r + 1
       then r\<lparr>ps_status := Sub_dead_letter, ps_last_error := Some err, ps_leased_until := None,
              ps_updated_at := now\<rparr>
       else r\<lparr>ps_status := Sub_pending, ps_attempts := ps_attempts r + 1, ps_last_error := Some err,
              ps_leased_until := None,
              ps_next_attempt_at := now + seconds (backoff_seconds (ps_attempts r + 1) rnd),
              ps_updated_at := now\<rparr>)"
proof -
  have id: "ps_id r = i" using assms by (auto simp: submission_row_def dest: sql_fetchone_SomeD)
  show ?thesis
    using assms id unfolding fail_submission_def record_failure_def dead_letter_def submission_row_def
    by (auto simp: Let_def job_of_def cq_rows.fetch_updated)
qed

interpretation cq: retry_queue submission_waiting submission_dead submission_attempts
  submission_limit fail_submission
proof unfold_locales
  fix q i and e :: "time \<times> rat \<times> string"
  obtain now rnd err where e: "e = (now, rnd, err)" by (cases e)
  note row = submission_row_fail [of q i _ now rnd err, folded e]
  show "submission_waiting (fail_submission e i q) i \<and>
      submission_attempts (fail_submission e i q) i = submission_attempts q i + 1 \<and>
      submission_limit (fail_submission e i q) i = submission_limit q i"
    if "submission_waiting q i" "submission_attempts q i + 1 < submission_limit q i"
    using that by (auto simp: submission_waiting_def submission_attempts_def submission_limit_def row
        split: option.splits)
  show "submission_dead (fail_submission e i q) i"
    if "submission_waiting q i" "submission_limit q i \<le> submission_attempts q i + 1"
    using that by (auto simp: submission_waiting_def submission_attempts_def submission_limit_def
        submission_dead_def row split: option.splits)
  show "submission_dead (fail_submission e i q) i" if "submission_dead q i"
    using that by (auto simp: submission_dead_def row split: option.splits)
  show "\<not> submission_waiting q i" if "submission_dead q i"
    using that by (auto simp: submission_dead_def submission_waiting_def split: option.splits)
qed

lemma fail_submission_ids: "map ps_id (trows (fail_submission e i q)) = map ps_id (trows q)"
  by (auto simp: fail_submission_def record_failure_def dead_letter_def Let_def table_simps
      split: prod.splits option.splits)

text \<open>A pending submission with fewer counted attempts than its limit is retried until exactly the
  limit and is then dead-lettered, and failing never removes a row: the queue keeps its rows, so an
  exhausted obligation stays there for inspection.\<close>

theorem chain_retries_bounded:
  assumes "submission_row q i = Some r" "ps_status r = Sub_pending" "ps_attempts r < ps_max_attempts r"
  shows "submission_waiting (fold (\<lambda>e. fail_submission e i) es q) i =
       (ps_attempts r + int (length es) < ps_max_attempts r) \<and>
     (ps_max_attempts r \<le> ps_attempts r + int (length es) \<longrightarrow>
       submission_dead (fold (\<lambda>e. fail_submission e i) es q) i) \<and>
     map ps_id (trows (fold (\<lambda>e. fail_submission e i) es q)) = map ps_id (trows q)"
proof -
  have w: "submission_waiting q i" and a: "submission_attempts q i = ps_attempts r"
    and l: "submission_limit q i = ps_max_attempts r"
    using assms by (simp_all add: submission_waiting_def submission_attempts_def submission_limit_def)
  have ids: "map ps_id (trows (fold (\<lambda>e. fail_submission e i) es q)) = map ps_id (trows q)" for es
    by (induction es arbitrary: q) (simp_all add: fail_submission_ids)
  show ?thesis
    using cq.retries_bounded [OF w, of es] cq.fails_exhausted [OF w, of es] ids assms(3) a l by auto
qed

theorem chain_retries_bounded_witness:
  "submission_dead (fold (\<lambda>e. fail_submission e 1) [(5, 1 / 2, ''rpc''), (90, 0, ''rpc'')]
     (sql_insert (new_submission (''d1'', 1, ''A'', ''p'', 2, 5, 1)) empty_table)) 1"
proof -
  let ?q = "sql_insert (new_submission (''d1'', 1, ''A'', ''p'', 2, 5, 1)) empty_table"
  have "submission_row ?q 1 = Some (new_submission (''d1'', 1, ''A'', ''p'', 2, 5, 1) 1)"
    using cq_rows.fetch_inserted [OF cq_rows.ids_ok_empty] by (simp add: submission_row_def table_simps)
  from chain_retries_bounded [OF this, of "[(5, 1 / 2, ''rpc''), (90, 0, ''rpc'')]"]
  show ?thesis by (simp add: new_submission_def)
qed

end
