(* ===== verification/Lifecycle.thy ===== *)
theory Lifecycle
  imports LL_Prelude
begin

text \<open>
  The contract of the stores whose rows go through a life cycle (disputes, governance
  proposals): every operation keeps the store's invariant, never loses a row, and moves a row
  only along an edge of its status graph. What follows for any sequence of operations (a row
  in a final state never changes again) is proved once.
\<close>

locale lifecycle =
  fixes inv :: "'s \<Rightarrow> bool"
    and row :: "'s \<Rightarrow> 'k \<Rightarrow> 'r option"
    and edge :: "'r \<Rightarrow> 'r \<Rightarrow> bool"
    and step :: "'op \<Rightarrow> 's \<Rightarrow> 's"
  assumes inv_step: "inv s \<Longrightarrow> inv (step op s)"
    and row_step: "inv s \<Longrightarrow> row s k = Some r \<Longrightarrow>
      \<exists>r'. row (step op s) k = Some r' \<and> (r' = r \<or> edge r r')"
begin

lemma inv_run: "inv s \<Longrightarrow> inv (fold step ops s)"
  by (induction ops arbitrary: s) (simp_all add: inv_step)

lemma row_run:
  "inv s \<Longrightarrow> row s k = Some r \<Longrightarrow> \<exists>r'. row (fold step ops s) k = Some r' \<and> edge\<^sup>*\<^sup>* r r'"
proof (induction ops arbitrary: s r)
  case (Cons op ops)
  from row_step [OF Cons.prems] obtain r1 where r1: "row (step op s) k = Some r1" "r1 = r \<or> edge r r1"
    by blast
  from Cons.IH [OF inv_step [OF Cons.prems(1)] r1(1)] obtain r2 where
    "row (fold step ops (step op s)) k = Some r2" "edge\<^sup>*\<^sup>* r1 r2" by blast
  with r1(2) show ?case by (auto intro: converse_rtranclp_into_rtranclp)
qed auto

lemma final_run:
  assumes "inv s" "row s k = Some r" "\<And>r'. \<not> edge r r'"
  shows "row (fold step ops s) k = Some r"
proof -
  from row_run [OF assms(1,2), of ops] obtain r' where
    r': "row (fold step ops s) k = Some r'" "edge\<^sup>*\<^sup>* r r'" by blast
  from r'(2) have "r' = r" by (induction rule: rtranclp_induct) (auto simp: assms(3))
  with r'(1) show ?thesis by simp
qed

end

end
