(* ===== verification/Disputes.thy ===== *)
theory Disputes
  imports Chain_Queue Lifecycle
begin

text \<open>
  \<open>detection/dispute_store.py\<close>: disputes of published scores, the committee's votes and what a
  decision triggers (override record, queued on-chain write, deletion of the local score, a
  training correction in \<open>detection/feedback_store.py\<close>). One clock reading \<open>now\<close> per call.

  \<open>cast_vote\<close> commits several times: the model returns every committed database state in order,
  so what a crash between two commits leaves behind is the list element before it. A URL comes
  with the scheme and host name \<open>urlparse\<close> finds in it.
\<close>

datatype dispute_status = Dispute_pending | Dispute_approved | Dispute_rejected | Dispute_resolved

datatype choice = Approve | Reject

record committee_vote =
  cv_voter_key_hash :: string
  cv_vote :: choice
  cv_voted_at :: time

record dispute =
  sd_id :: nat
  sd_dispute_id :: string
  sd_wallet :: string
  sd_asset_pair :: string
  sd_disputed_score :: int
  sd_soroban_tx_hash :: string
  sd_evidence_url :: "string option"
  sd_submitted_at :: time
  sd_status :: dispute_status
  sd_committee_votes :: "committee_vote list"
  sd_resolved_at :: "time option"
  sd_resolution :: "string option"

record chain_submission =
  cs_wallet :: string
  cs_asset_pair :: string
  cs_tx_hash :: "string option"
  cs_submitted_at :: time

record score_row =
  rs_wallet :: string
  rs_asset_pair :: string
  rs_score :: int
  rs_timestamp :: time

datatype override_status = Override_pending | Override_submitted

record score_override =
  so_id :: nat
  so_wallet :: string
  so_asset_pair :: string
  so_dispute_id :: string
  so_tx_hash :: "string option"
  so_status :: override_status
  so_recorded_at :: time

record correction =
  ac_wallet :: string
  ac_asset_pair :: string
  ac_label :: int
  ac_original_score :: int
  ac_confidence :: rat
  ac_has_feature_vector :: bool
  ac_created_at :: time
  ac_source_dispute_id :: "string option"

record dispute_db =
  on_chain_submissions :: "chain_submission list"
  score_disputes :: "dispute table"
  risk_scores :: "score_row list"
  score_overrides :: "score_override table"
  chain_queue :: "submission table"
  chain_queue_columns :: "string list"
  analyst_corrections :: "correction list"

datatype url = Url (url_text: string) (url_scheme: string) (url_host: "string option")

datatype dispute_error =
    Evidence_not_https | Evidence_private_ip | No_on_chain_submission | Dispute_rate_limited
  | Bad_vote | Bad_voter_key_hash | Dispute_not_found | Dispute_immutable | Already_voted
  | Bad_correction | Database_error sql_error

definition CONFIRMED_FALSE_POSITIVE :: string where "CONFIRMED_FALSE_POSITIVE = ''score_removed''"

definition COMMITTEE_QUORUM :: nat where "COMMITTEE_QUORUM = 3"

subsection \<open>Submitting a dispute\<close>

text \<open>
  In the branch for \<open>172.\<close> the check for 16 to 31 raises a \<open>ValueError\<close> inside the
  \<open>try\<close> whose handler swallows every \<open>ValueError\<close>.
\<close>

definition validate_172 :: "string \<Rightarrow> dispute_error option" where
  "validate_172 host =
     (let parts = split_on (CHR ''.'') host in
      if 2 \<le> length parts then
        (case (case py_int (parts ! 1) of
                 None \<Rightarrow> Some Evidence_private_ip   \<comment> \<open>any \<open>ValueError\<close>\<close>
               | Some second \<Rightarrow> if 16 \<le> second \<and> second \<le> 31 then Some Evidence_private_ip else None) of
           Some _ \<Rightarrow> None   \<comment> \<open>\<open>except ValueError: pass\<close>\<close>
         | None \<Rightarrow> None)
      else None)"

definition validate_evidence_url :: "url \<Rightarrow> dispute_error option" where
  "validate_evidence_url u =
     (let host = (case url_host u of None \<Rightarrow> '''' | Some h \<Rightarrow> h) in
      if lower (url_scheme u) \<noteq> ''https'' then Some Evidence_not_https
      else if starts_with host ''10.'' \<or> starts_with host ''127.'' \<or> starts_with host ''192.168.''
        then Some Evidence_private_ip
      else if starts_with host ''172.'' then validate_172 host
      else None)"

text \<open>\<open>ORDER BY k DESC LIMIT 1\<close>.\<close>

definition latest_by :: "('r \<Rightarrow> int) \<Rightarrow> 'r list \<Rightarrow> 'r option" where
  "latest_by k rs = (case sort_key (\<lambda>r. - k r) rs of [] \<Rightarrow> None | r # _ \<Rightarrow> Some r)"

definition new_dispute ::
  "string \<times> string \<times> string \<times> int \<times> string \<times> string option \<times> time \<Rightarrow> nat \<Rightarrow> dispute" where
  "new_dispute x n = (case x of (dispute_id, wallet, asset_pair, score, tx, evidence, now) \<Rightarrow>
     \<lparr>sd_id = n, sd_dispute_id = dispute_id, sd_wallet = wallet, sd_asset_pair = asset_pair,
      sd_disputed_score = score, sd_soroban_tx_hash = tx, sd_evidence_url = evidence,
      sd_submitted_at = now, sd_status = Dispute_pending, sd_committee_votes = [],
      sd_resolved_at = None, sd_resolution = None\<rparr>)"

definition submit_dispute ::
  "string \<Rightarrow> time \<Rightarrow> string \<Rightarrow> string \<Rightarrow> url option \<Rightarrow> dispute_db \<Rightarrow> dispute_error + (dispute_db \<times> dispute)" where
  "submit_dispute uuid now wallet asset_pair evidence db =
     (case (case evidence of None \<Rightarrow> None | Some u \<Rightarrow> validate_evidence_url u) of
        Some e \<Rightarrow> Inl e
      | None \<Rightarrow>
        (case latest_by cs_submitted_at
            (filter (\<lambda>r. cs_wallet r = wallet \<and> cs_asset_pair r = asset_pair) (on_chain_submissions db)) of
           None \<Rightarrow> Inl No_on_chain_submission
         | Some sub \<Rightarrow>
           (case cs_tx_hash sub of
              None \<Rightarrow> Inl No_on_chain_submission
            | Some tx \<Rightarrow>
              (if (case latest_by sd_submitted_at
                     (sql_select (\<lambda>r. sd_wallet r = wallet \<and> sd_asset_pair r = asset_pair) (score_disputes db)) of
                     None \<Rightarrow> False
                   | Some prev \<Rightarrow> now - sd_submitted_at prev < seconds (7 * 86400))
               then Inl Dispute_rate_limited
               else
                 let score = (case latest_by rs_timestamp
                       (filter (\<lambda>r. rs_wallet r = wallet \<and> rs_asset_pair r = asset_pair) (risk_scores db)) of
                       None \<Rightarrow> 0 | Some r \<Rightarrow> rs_score r);
                     x = (uuid, wallet, asset_pair, score, tx, map_option url_text evidence, now);
                     t' = sql_insert (new_dispute x) (score_disputes db)
                 in Inr (db\<lparr>score_disputes := t'\<rparr>, new_dispute x (last_insert_rowid t'))))))"

subsection \<open>Voting\<close>

definition load_dispute_row :: "string \<Rightarrow> dispute_db \<Rightarrow> dispute option" where
  "load_dispute_row dispute_id db = sql_fetchone (\<lambda>r. sd_dispute_id r = dispute_id) (score_disputes db)"

definition write_dispute_row ::
  "nat \<Rightarrow> dispute_status \<Rightarrow> committee_vote list \<Rightarrow> time option \<Rightarrow> string option \<Rightarrow> dispute_db \<Rightarrow> dispute_db" where
  "write_dispute_row i status votes resolved_at resolution db =
     db\<lparr>score_disputes := sql_update (\<lambda>r. sd_id r = i)
       (\<lambda>r. r\<lparr>sd_status := status, sd_committee_votes := votes, sd_resolved_at := resolved_at,
            sd_resolution := resolution\<rparr>) (score_disputes db)\<rparr>"

definition write_votes :: "nat \<Rightarrow> committee_vote list \<Rightarrow> dispute_db \<Rightarrow> dispute_db" where
  "write_votes i votes db =
     db\<lparr>score_disputes := sql_update (\<lambda>r. sd_id r = i) (\<lambda>r. r\<lparr>sd_committee_votes := votes\<rparr>)
       (score_disputes db)\<rparr>"

definition new_score_override :: "string \<times> string \<times> string \<times> time \<Rightarrow> nat \<Rightarrow> score_override" where
  "new_score_override x n = (case x of (wallet, asset_pair, dispute_id, now) \<Rightarrow>
     \<lparr>so_id = n, so_wallet = wallet, so_asset_pair = asset_pair, so_dispute_id = dispute_id,
      so_tx_hash = None, so_status = Override_pending, so_recorded_at = now\<rparr>)"

text \<open>\<open>AnalystFeedbackStore.add_correction\<close>.\<close>

definition add_correction ::
  "bool \<Rightarrow> time \<Rightarrow> string \<Rightarrow> string \<Rightarrow> int \<Rightarrow> int \<Rightarrow> rat \<Rightarrow> string option \<Rightarrow> dispute_db
     \<Rightarrow> dispute_error + dispute_db" where
  "add_correction has_fv now wallet asset_pair label score confidence source db =
     (if label \<notin> {0, 1} then Inl Bad_correction
      else if \<not> (0 \<le> score \<and> score \<le> 100) then Inl Bad_correction
      else if \<not> (0 \<le> confidence \<and> confidence \<le> 1) then Inl Bad_correction
      else Inr (db\<lparr>analyst_corrections := analyst_corrections db @
        [\<lparr>ac_wallet = wallet, ac_asset_pair = asset_pair, ac_label = label, ac_original_score = score,
          ac_confidence = confidence, ac_has_feature_vector = has_fv, ac_created_at = now,
          ac_source_dispute_id = source\<rparr>]\<rparr>))"

text \<open>
  The transaction of an approval after the status was committed: override row, queued write,
  deletion of the score. An error leaves the connection without a commit.
\<close>

definition record_override :: "time \<Rightarrow> dispute \<Rightarrow> dispute_db \<Rightarrow> dispute_error + dispute_db" where
  "record_override now row db =
     (let ov = sql_insert (new_score_override (sd_wallet row, sd_asset_pair row, sd_dispute_id row, now))
                 (score_overrides db)
      in case enqueue_override_submission (chain_queue_columns db) now (sd_dispute_id row)
            (last_insert_rowid ov) (sd_wallet row) (sd_asset_pair row) DEFAULT_MAX_ATTEMPTS
            DEFAULT_PRIORITY (chain_queue db) of
          Inl e \<Rightarrow> Inl (Database_error e)
        | Inr (q, key) \<Rightarrow>
            Inr (db\<lparr>score_overrides := ov, chain_queue := q,
                 risk_scores := filter (\<lambda>r. \<not> (rs_wallet r = sd_wallet row \<and>
                    rs_asset_pair r = sd_asset_pair row)) (risk_scores db)\<rparr>))"

definition approves :: "committee_vote list \<Rightarrow> nat" where
  "approves votes = length (filter (\<lambda>v. cv_vote v = Approve) votes)"

definition rejects :: "committee_vote list \<Rightarrow> nat" where
  "rejects votes = length (filter (\<lambda>v. cv_vote v = Reject) votes)"

text \<open>
  What follows the commit of the vote: the quorum check and the resolution. The result lists
  the states committed, oldest first, and the answer of the call.
\<close>

definition resolve_vote ::
  "nat \<Rightarrow> bool \<Rightarrow> time \<Rightarrow> string \<Rightarrow> dispute \<Rightarrow> committee_vote list \<Rightarrow> dispute_db
     \<Rightarrow> dispute_db list \<times> (dispute_error + dispute)" where
  "resolve_vote quorum has_fv now dispute_id row votes db1 =
     (let total = approves votes + rejects votes in
      if quorum \<le> length votes \<and> 2 * total \<le> 3 * approves votes then
        let db2 = write_dispute_row (sd_id row) Dispute_approved votes (Some now)
                    (Some CONFIRMED_FALSE_POSITIVE) db1
        in case record_override now row db2 of
             Inl e \<Rightarrow> ([db2], Inl e)
           | Inr db3 \<Rightarrow>
               (case add_correction has_fv now (sd_wallet row) (sd_asset_pair row) 0
                       (max 0 (min 100 (sd_disputed_score row))) 1 (Some dispute_id) db3 of
                  Inl e \<Rightarrow> ([db2, db3], Inl e)
                | Inr db4 \<Rightarrow> ([db2, db3, db4],
                    Inr (row\<lparr>sd_status := Dispute_approved, sd_committee_votes := votes,
                      sd_resolved_at := Some now, sd_resolution := Some CONFIRMED_FALSE_POSITIVE\<rparr>)))
      else if quorum \<le> length votes \<and> 2 * total \<le> 3 * rejects votes then
        ([write_dispute_row (sd_id row) Dispute_rejected votes (Some now) (Some ''upheld'') db1],
         Inr (row\<lparr>sd_status := Dispute_rejected, sd_committee_votes := votes,
              sd_resolved_at := Some now, sd_resolution := Some ''upheld''\<rparr>))
      else ([], Inr (row\<lparr>sd_status := Dispute_pending, sd_committee_votes := votes,
              sd_resolved_at := None, sd_resolution := None\<rparr>)))"

definition cast_vote ::
  "nat \<Rightarrow> bool \<Rightarrow> time \<Rightarrow> string \<Rightarrow> string \<Rightarrow> string \<Rightarrow> dispute_db
     \<Rightarrow> dispute_db list \<times> (dispute_error + dispute)" where
  "cast_vote quorum has_fv now dispute_id voter vote db =
     (if vote \<noteq> ''approve'' \<and> vote \<noteq> ''reject'' then ([], Inl Bad_vote)
      else if length voter \<noteq> 64 then ([], Inl Bad_voter_key_hash)
      else case load_dispute_row dispute_id db of
        None \<Rightarrow> ([], Inl Dispute_not_found)
      | Some row \<Rightarrow>
        if sd_status row \<in> {Dispute_approved, Dispute_rejected, Dispute_resolved}
        then ([], Inl Dispute_immutable)
        else if \<exists>v \<in> set (sd_committee_votes row). cv_voter_key_hash v = voter
        then ([], Inl Already_voted)
        else
          let votes = sd_committee_votes row @
                [\<lparr>cv_voter_key_hash = voter, cv_vote = (if vote = ''approve'' then Approve else Reject),
                  cv_voted_at = now\<rparr>];
              db1 = write_votes (sd_id row) votes db
          in (case resolve_vote quorum has_fv now dispute_id row votes db1 of
                (commits, res) \<Rightarrow> (db1 # commits, res)))"

definition update_override_status ::
  "nat \<Rightarrow> override_status \<Rightarrow> string option \<Rightarrow> dispute_db \<Rightarrow> dispute_db" where
  "update_override_status i status tx_hash db =
     db\<lparr>score_overrides := sql_update (\<lambda>r. so_id r = i)
        (case tx_hash of
           None \<Rightarrow> (\<lambda>r. r\<lparr>so_status := status\<rparr>)
         | Some tx \<Rightarrow> if tx = '''' then (\<lambda>r. r\<lparr>so_status := status\<rparr>)
             else (\<lambda>r. r\<lparr>so_tx_hash := Some tx, so_status := status\<rparr>)) (score_overrides db)\<rparr>"

definition apply_submission_result :: "nat option \<Rightarrow> string option \<Rightarrow> dispute_db \<Rightarrow> dispute_db" where
  "apply_submission_result override_id tx_hash db =
     (case override_id of
        None \<Rightarrow> db
      | Some i \<Rightarrow> update_override_status i Override_submitted tx_hash db)"

definition get_dispute :: "string \<Rightarrow> dispute_db \<Rightarrow> dispute option" where
  "get_dispute dispute_id db = load_dispute_row dispute_id db"

definition get_resolved_disputes :: "time \<Rightarrow> dispute_db \<Rightarrow> dispute list" where
  "get_resolved_disputes since db =
     sort_key (\<lambda>r. the (sd_resolved_at r))
       (sql_select (\<lambda>r. case sd_resolved_at r of None \<Rightarrow> False | Some t \<Rightarrow> since \<le> t) (score_disputes db))"

text \<open>The database after a call: the last commit, or the state before if there was none.\<close>

definition after_vote :: "dispute_db \<Rightarrow> dispute_db list \<times> 'a \<Rightarrow> dispute_db" where
  "after_vote db res = last (db # fst res)"

subsection \<open>How a vote changes the dispute table\<close>

lemmas db_simps = write_votes_def write_dispute_row_def

lemma record_override_disputes:
  "record_override now row db = Inr db' \<Longrightarrow> score_disputes db' = score_disputes db"
  by (auto simp: record_override_def Let_def split: sum.splits)

lemma add_correction_disputes:
  "add_correction fv now w a l sc c src db = Inr db' \<Longrightarrow> score_disputes db' = score_disputes db"
  by (auto simp: add_correction_def split: if_splits)

lemma approves_rejects: "approves votes + rejects votes = length votes"
  unfolding approves_def rejects_def by (induction votes) (auto intro: choice.exhaust)

lemma clamp_in_range: "0 \<le> max 0 (min 100 s) \<and> max 0 (min 100 s) \<le> (100::int)"
  by simp

lemma add_correction_ok:
  "\<exists>db'. add_correction fv now w a 0 (max 0 (min 100 s)) 1 src db = Inr db'"
  by (auto simp: add_correction_def)

lemma sd_status_pending:
  "sd_status r \<notin> {Dispute_approved, Dispute_rejected, Dispute_resolved} \<longleftrightarrow> sd_status r = Dispute_pending"
  by (cases "sd_status r") auto

text \<open>The three outcomes of the quorum check, on the dispute table.\<close>

definition new_status :: "nat \<Rightarrow> committee_vote list \<Rightarrow> dispute_status" where
  "new_status quorum votes =
     (if quorum \<le> length votes \<and> 2 * length votes \<le> 3 * approves votes then Dispute_approved
      else if quorum \<le> length votes \<and> 2 * length votes \<le> 3 * rejects votes then Dispute_rejected
      else Dispute_pending)"

lemma resolve_vote_table:
  assumes "resolve_vote quorum fv now d row votes db1 = (commits, res)"
  shows "(commits = [] \<and> new_status quorum votes = Dispute_pending) \<or>
    (\<exists>reso. new_status quorum votes \<noteq> Dispute_pending \<and> commits \<noteq> [] \<and>
       score_disputes (last commits) =
         score_disputes (write_dispute_row (sd_id row) (new_status quorum votes) votes (Some now) reso db1))"
proof (cases "new_status quorum votes")
  case Dispute_approved
  then have c: "quorum \<le> length votes \<and> 2 * length votes \<le> 3 * approves votes"
    by (auto simp: new_status_def split: if_splits)
  let ?db2 = "write_dispute_row (sd_id row) Dispute_approved votes (Some now)
       (Some CONFIRMED_FALSE_POSITIVE) db1"
  have "commits \<noteq> [] \<and> score_disputes (last commits) = score_disputes ?db2"
  proof (cases "record_override now row ?db2")
    case (Inl e)
    with assms c show ?thesis by (auto simp: resolve_vote_def Let_def approves_rejects)
  next
    case (Inr db3)
    obtain db4 where db4: "add_correction fv now (sd_wallet row) (sd_asset_pair row) 0
        (max 0 (min 100 (sd_disputed_score row))) 1 (Some d) db3 = Inr db4"
      using add_correction_ok by blast
    with assms c Inr have "commits = [?db2, db3, db4]"
      by (simp add: resolve_vote_def Let_def approves_rejects)
    with record_override_disputes [OF Inr] add_correction_disputes [OF db4] show ?thesis by simp
  qed
  with Dispute_approved show ?thesis by auto
next
  case Dispute_rejected
  with assms show ?thesis
    by (auto simp: new_status_def resolve_vote_def Let_def approves_rejects split: if_splits)
next
  case Dispute_pending
  with assms show ?thesis
    by (auto simp: new_status_def resolve_vote_def Let_def approves_rejects split: if_splits)
qed (simp add: new_status_def split: if_splits)

definition dispute_edge :: "nat \<Rightarrow> dispute \<Rightarrow> dispute \<Rightarrow> bool" where
  "dispute_edge quorum r r' \<longleftrightarrow>
     sd_status r = Dispute_pending \<and> sd_id r' = sd_id r \<and> sd_dispute_id r' = sd_dispute_id r \<and>
     (\<exists>v. sd_committee_votes r' = sd_committee_votes r @ [v] \<and>
          cv_voter_key_hash v \<notin> cv_voter_key_hash ` set (sd_committee_votes r)) \<and>
     sd_status r' = new_status quorum (sd_committee_votes r')"

definition dispute_origin :: "dispute \<Rightarrow> string \<times> string \<times> time" where
  "dispute_origin r = (sd_wallet r, sd_asset_pair r, sd_submitted_at r)"

text \<open>A call that commits updates the loaded row along an edge and touches no other row.\<close>

lemma cast_vote_table:
  assumes "cast_vote quorum fv now d voter vote db = (commits, res)" "commits \<noteq> []"
  obtains row f where "load_dispute_row d db = Some row" "dispute_edge quorum row (f row)"
    "\<And>r. sd_id (f r) = sd_id r" "\<forall>r. dispute_origin (f r) = dispute_origin r"
    "score_disputes (last commits) = sql_update (\<lambda>r. sd_id r = sd_id row) f (score_disputes db)"
proof -
  obtain row where row0: "load_dispute_row d db = Some row"
      "sd_status row \<notin> {Dispute_approved, Dispute_rejected, Dispute_resolved}"
      "\<not> (\<exists>v \<in> set (sd_committee_votes row). cv_voter_key_hash v = voter)"
      "vote = ''approve'' \<or> vote = ''reject''" "length voter = 64"
    using assms by (auto simp: cast_vote_def split: if_splits option.splits)
  then have row: "load_dispute_row d db = Some row" "sd_status row = Dispute_pending"
      "\<not> (\<exists>v \<in> set (sd_committee_votes row). cv_voter_key_hash v = voter)"
      "vote = ''approve'' \<or> vote = ''reject''" "length voter = 64"
    using sd_status_pending [of row] by blast+
  define v where "v = \<lparr>cv_voter_key_hash = voter,
      cv_vote = (if vote = ''approve'' then Approve else Reject), cv_voted_at = now\<rparr>"
  define votes where "votes = sd_committee_votes row @ [v]"
  define db1 where "db1 = write_votes (sd_id row) votes db"
  obtain cs where cs: "resolve_vote quorum fv now d row votes db1 = (cs, res)" "commits = db1 # cs"
    using assms(1) row by (auto simp: cast_vote_def Let_def votes_def v_def db1_def split: prod.splits)
  define f :: "dispute \<Rightarrow> dispute" where "f = (\<lambda>r. r\<lparr>sd_committee_votes := votes\<rparr>)"
  define g :: "string option \<Rightarrow> dispute \<Rightarrow> dispute" where
    "g = (\<lambda>reso r. r\<lparr>sd_status := new_status quorum votes, sd_committee_votes := votes,
      sd_resolved_at := Some now, sd_resolution := reso\<rparr>)"
  have fresh: "cv_voter_key_hash v \<notin> cv_voter_key_hash ` set (sd_committee_votes row)"
    using row(3) by (auto simp: v_def)
  from resolve_vote_table [OF cs(1)] show thesis
  proof (elim disjE exE conjE)
    assume "cs = []" "new_status quorum votes = Dispute_pending"
    then show thesis
      using row(1,2) fresh cs(2)
      by (intro that [of row f]) (auto simp: f_def dispute_origin_def dispute_edge_def votes_def db1_def write_votes_def)
  next
    fix reso assume a: "new_status quorum votes \<noteq> Dispute_pending" "cs \<noteq> []"
      "score_disputes (last cs) =
         score_disputes (write_dispute_row (sd_id row) (new_status quorum votes) votes (Some now) reso db1)"
    then have "score_disputes (last commits) =
        sql_update (\<lambda>r. sd_id r = sd_id row) (g reso) (score_disputes db)"
      unfolding cs(2) db1_def write_dispute_row_def write_votes_def g_def
      by (simp add: sql_update_twice)
    then show thesis
      using row(1,2) fresh by (intro that [of row "g reso"]) (auto simp: g_def dispute_origin_def dispute_edge_def votes_def)
  qed
qed

interpretation sd_rows: autoinc_rows sd_id new_dispute
  by unfold_locales (simp add: new_dispute_def split: prod.splits)

interpretation so_rows: autoinc_rows so_id new_score_override
  by unfold_locales (simp add: new_score_override_def split: prod.splits)

subsection \<open>The life of a dispute\<close>

datatype dispute_op =
    Submit string time string string "url option"
  | Vote bool time string string string

definition dispute_step :: "nat \<Rightarrow> dispute_op \<Rightarrow> dispute_db \<Rightarrow> dispute_db" where
  "dispute_step quorum op db =
     (case op of
        Submit uuid now w a e \<Rightarrow>
          (case submit_dispute uuid now w a e db of Inl _ \<Rightarrow> db | Inr (db', _) \<Rightarrow> db')
      | Vote fv now d voter vote \<Rightarrow> after_vote db (cast_vote quorum fv now d voter vote db))"

definition dispute_row :: "dispute_db \<Rightarrow> nat \<Rightarrow> dispute option" where
  "dispute_row db i = sql_fetchone (\<lambda>r. sd_id r = i) (score_disputes db)"

text \<open>The votes are of different voters, the status is what the quorum rule makes of them, and
  before the last vote the rule had not decided.\<close>

definition dispute_ok :: "nat \<Rightarrow> dispute \<Rightarrow> bool" where
  "dispute_ok quorum r \<longleftrightarrow>
     distinct (map cv_voter_key_hash (sd_committee_votes r)) \<and>
     sd_status r = new_status quorum (sd_committee_votes r) \<and>
     (\<forall>n < length (sd_committee_votes r).
        new_status quorum (take n (sd_committee_votes r)) = Dispute_pending)"

definition dispute_inv :: "nat \<Rightarrow> dispute_db \<Rightarrow> bool" where
  "dispute_inv quorum db \<longleftrightarrow>
     ids_ok sd_id (score_disputes db) \<and> (\<forall>r \<in> set (trows (score_disputes db)). dispute_ok quorum r)"

lemma dispute_ok_edge:
  assumes "dispute_ok quorum r" "dispute_edge quorum r r'"
  shows "dispute_ok quorum r'"
proof -
  from assms(2) obtain v where v: "sd_status r = Dispute_pending"
      "sd_committee_votes r' = sd_committee_votes r @ [v]"
      "cv_voter_key_hash v \<notin> cv_voter_key_hash ` set (sd_committee_votes r)"
      "sd_status r' = new_status quorum (sd_committee_votes r')"
    by (auto simp: dispute_edge_def)
  have "new_status quorum (take n (sd_committee_votes r')) = Dispute_pending"
    if "n < length (sd_committee_votes r')" for n
    using that v assms(1) by (cases "n = length (sd_committee_votes r)") (auto simp: dispute_ok_def)
  with v assms(1) show ?thesis by (auto simp: dispute_ok_def)
qed

lemma dispute_ok_new: "0 < quorum \<Longrightarrow> dispute_ok quorum (new_dispute x n)"
  by (cases x) (auto simp: dispute_ok_def new_dispute_def new_status_def approves_def)

lemma submit_dispute_table:
  assumes "submit_dispute uuid now w a e db = Inr (db', r)"
  obtains x where "score_disputes db' = sql_insert (new_dispute x) (score_disputes db)"
  using assms by (auto simp: submit_dispute_def Let_def split: option.splits if_splits)

text \<open>The two ways an operation changes the dispute table.\<close>

lemma dispute_step_cases:
  obtains (same) "score_disputes (dispute_step quorum op db) = score_disputes db"
  | (insert) x where "score_disputes (dispute_step quorum op db) = sql_insert (new_dispute x) (score_disputes db)"
  | (update) row f where "row \<in> set (trows (score_disputes db))" "dispute_edge quorum row (f row)"
      "\<And>r. sd_id (f r) = sd_id r" "\<forall>r. dispute_origin (f r) = dispute_origin r"
      "score_disputes (dispute_step quorum op db) =
         sql_update (\<lambda>r. sd_id r = sd_id row) f (score_disputes db)"
proof (cases op)
  case (Submit u n w a e)
  show ?thesis
  proof (cases "submit_dispute u n w a e db")
    case (Inl err)
    with Submit same show ?thesis by (simp add: dispute_step_def)
  next
    case (Inr res)
    obtain db' r where "res = (db', r)" by (cases res)
    with Inr Submit insert show ?thesis
      by (auto simp: dispute_step_def elim: submit_dispute_table)
  qed
next
  case (Vote fv now d voter vote)
  obtain commits res where c: "cast_vote quorum fv now d voter vote db = (commits, res)"
    by (cases "cast_vote quorum fv now d voter vote db")
  show ?thesis
  proof (cases "commits = []")
    case True
    with Vote c same show ?thesis by (simp add: dispute_step_def after_vote_def)
  next
    case False
    have step: "dispute_step quorum op db = last commits"
      using Vote c False by (simp add: dispute_step_def after_vote_def)
    from cast_vote_table [OF c False] obtain row f where
      "load_dispute_row d db = Some row" "dispute_edge quorum row (f row)"
      "\<And>r. sd_id (f r) = sd_id r" "\<forall>r. dispute_origin (f r) = dispute_origin r"
      "score_disputes (last commits) = sql_update (\<lambda>r. sd_id r = sd_id row) f (score_disputes db)" by blast
    with update [of row f] show ?thesis
      unfolding step by (auto simp: load_dispute_row_def dest: sql_fetchone_SomeD)
  qed
qed

lemma dispute_inv_step:
  assumes "0 < quorum" "dispute_inv quorum db"
  shows "dispute_inv quorum (dispute_step quorum op db)"
proof (cases rule: dispute_step_cases [of quorum op db])
  case same
  with assms show ?thesis by (simp add: dispute_inv_def)
next
  case (insert x)
  with assms sd_rows.ids_ok_insert dispute_ok_new show ?thesis
    by (auto simp: dispute_inv_def table_simps)
next
  case (update row f)
  have same: "r = row" if "r \<in> set (trows (score_disputes db))" "sd_id r = sd_id row" for r
    using assms(2) update(1) that by (auto simp: dispute_inv_def ids_ok_def distinct_map inj_on_def)
  have "dispute_ok quorum (f row)"
    using dispute_ok_edge [OF _ update(2)] assms(2) update(1) by (auto simp: dispute_inv_def)
  with same assms(2) sd_rows.ids_ok_update [OF update(3)] show ?thesis
    unfolding dispute_inv_def update(5) by (auto simp: table_simps)
qed

lemma dispute_row_step:
  assumes "dispute_inv quorum db" "dispute_row db i = Some r"
  shows "\<exists>r'. dispute_row (dispute_step quorum op db) i = Some r' \<and> (r' = r \<or> dispute_edge quorum r r')"
proof (cases rule: dispute_step_cases [of quorum op db])
  case same
  with assms show ?thesis by (simp add: dispute_row_def)
next
  case (insert x)
  with assms show ?thesis by (auto simp: dispute_row_def sql_fetchone_def table_simps find_append)
next
  case (update row f)
  have r: "r \<in> set (trows (score_disputes db))" "sd_id r = i"
    using assms(2) by (auto simp: dispute_row_def dest: sql_fetchone_SomeD)
  show ?thesis
  proof (cases "i = sd_id row")
    case True
    with r update(1) assms(1) have "r = row"
      by (auto simp: dispute_inv_def ids_ok_def distinct_map inj_on_def)
    with True assms(2) update(2,5) sd_rows.fetch_updated(1) [OF update(3)] show ?thesis
      by (auto simp: dispute_row_def)
  next
    case False
    with assms(2) update(5) sd_rows.fetch_updated(2) [OF update(3)] show ?thesis
      by (auto simp: dispute_row_def)
  qed
qed

interpretation dl: lifecycle "dispute_inv COMMITTEE_QUORUM" dispute_row
  "dispute_edge COMMITTEE_QUORUM" "dispute_step COMMITTEE_QUORUM"
  by unfold_locales (auto intro: dispute_inv_step dispute_row_step simp: COMMITTEE_QUORUM_def)

text \<open>With a quorum of three the third vote always decides.\<close>

lemma new_status_three:
  "new_status 3 votes \<noteq> Dispute_pending" if "length votes = 3"
  using that approves_rejects [of votes] by (auto simp: new_status_def)

lemma dispute_ok_three:
  assumes "dispute_ok 3 r"
  shows "length (sd_committee_votes r) \<le> 3 \<and>
    (sd_status r = Dispute_pending \<longleftrightarrow> length (sd_committee_votes r) \<le> 2) \<and>
    (sd_status r = Dispute_approved \<longleftrightarrow> length (sd_committee_votes r) = 3 \<and> 2 \<le> approves (sd_committee_votes r)) \<and>
    (sd_status r = Dispute_rejected \<longleftrightarrow> length (sd_committee_votes r) = 3 \<and> 2 \<le> rejects (sd_committee_votes r))"
proof -
  let ?vs = "sd_committee_votes r"
  have len: "length ?vs \<le> 3"
  proof (rule ccontr)
    assume "\<not> length ?vs \<le> 3"
    then have "new_status 3 (take 3 ?vs) = Dispute_pending" "length (take 3 ?vs) = 3"
      using assms by (auto simp: dispute_ok_def)
    with new_status_three show False by blast
  qed
  have st: "sd_status r = new_status 3 ?vs" using assms by (simp add: dispute_ok_def)
  show ?thesis
    using len approves_rejects [of ?vs] unfolding st new_status_def by auto
qed

text \<open>C1: whatever disputes are submitted and votes cast, in any order, starting from a database
  without disputes: the votes of a dispute are of different voters, there are at most three, the
  dispute is pending exactly while there are fewer than three, and with the third vote it is
  approved or rejected exactly when at least two of the three say so.\<close>

theorem dispute_decided_by_third_vote:
  assumes "score_disputes db0 = empty_table"
    and "r \<in> set (trows (score_disputes (fold (dispute_step COMMITTEE_QUORUM) ops db0)))"
  shows "distinct (map cv_voter_key_hash (sd_committee_votes r)) \<and>
    length (sd_committee_votes r) \<le> 3 \<and>
    (sd_status r = Dispute_pending \<longleftrightarrow> length (sd_committee_votes r) \<le> 2) \<and>
    (sd_status r = Dispute_approved \<longleftrightarrow> length (sd_committee_votes r) = 3 \<and> 2 \<le> approves (sd_committee_votes r)) \<and>
    (sd_status r = Dispute_rejected \<longleftrightarrow> length (sd_committee_votes r) = 3 \<and> 2 \<le> rejects (sd_committee_votes r))"
proof -
  have "dispute_inv COMMITTEE_QUORUM db0"
    using assms(1) sd_rows.ids_ok_empty by (simp add: dispute_inv_def table_simps)
  from dl.inv_run [OF this, of ops] assms(2) have ok: "dispute_ok 3 r"
    by (simp add: dispute_inv_def COMMITTEE_QUORUM_def)
  then show ?thesis using dispute_ok_three [OF ok] by (simp add: dispute_ok_def)
qed

definition dispute_demo :: dispute_db where
  "dispute_demo =
     \<lparr>on_chain_submissions = [\<lparr>cs_wallet = ''GA'', cs_asset_pair = ''XLM/USDC'', cs_tx_hash = Some ''tx'',
        cs_submitted_at = 0\<rparr>], score_disputes = empty_table, risk_scores = [],
      score_overrides = empty_table, chain_queue = empty_table, chain_queue_columns = enqueue_columns,
      analyst_corrections = []\<rparr>"

definition demo_ops :: "dispute_op list" where
  "demo_ops =
     [Submit ''d1'' 10 ''GA'' ''XLM/USDC'' None,
      Vote True 20 ''d1'' (replicate 64 CHR ''a'') ''approve'',
      Vote True 30 ''d1'' (replicate 64 CHR ''a'') ''approve'',
      Vote True 40 ''d1'' (replicate 64 CHR ''b'') ''reject'',
      Vote True 50 ''d1'' (replicate 64 CHR ''c'') ''reject'']"

lemma demo_run:
  "map (\<lambda>r. (sd_status r, sd_id r))
     (trows (score_disputes (fold (dispute_step COMMITTEE_QUORUM) demo_ops dispute_demo))) =
   [(Dispute_rejected, 1)]"
  by code_simp

lemma demo_row:
  "\<exists>r. trows (score_disputes (fold (dispute_step COMMITTEE_QUORUM) demo_ops dispute_demo)) = [r] \<and>
     sd_status r = Dispute_rejected \<and> sd_id r = 1"
  using demo_run by (auto simp: map_eq_Cons_conv)

theorem dispute_decided_by_third_vote_witness:
  "\<exists>r. trows (score_disputes (fold (dispute_step COMMITTEE_QUORUM) demo_ops dispute_demo)) = [r] \<and>
     length (sd_committee_votes r) = 3 \<and> 2 \<le> rejects (sd_committee_votes r)"
proof -
  obtain r where r: "trows (score_disputes (fold (dispute_step COMMITTEE_QUORUM) demo_ops dispute_demo)) = [r]"
     "sd_status r = Dispute_rejected" using demo_row by blast
  have "score_disputes dispute_demo = empty_table" by (simp add: dispute_demo_def)
  from dispute_decided_by_third_vote [OF this, of r demo_ops] r show ?thesis by simp
qed

text \<open>An approved or rejected dispute is final: no sequence of submissions and votes, its own
  included, changes its row again.\<close>

theorem resolved_disputes_immutable:
  assumes "dispute_inv COMMITTEE_QUORUM db" "dispute_row db i = Some r" "sd_status r \<noteq> Dispute_pending"
  shows "dispute_row (fold (dispute_step COMMITTEE_QUORUM) ops db) i = Some r"
  by (rule dl.final_run [OF assms(1,2)]) (simp add: dispute_edge_def assms(3))

theorem resolved_disputes_immutable_witness:
  "map_option sd_status (dispute_row (fold (dispute_step COMMITTEE_QUORUM)
     [Vote True 60 ''d1'' (replicate 64 CHR ''d'') ''approve'', Submit ''d2'' 70 ''GA'' ''XLM/USDC'' None]
     (fold (dispute_step COMMITTEE_QUORUM) demo_ops dispute_demo)) 1) = Some Dispute_rejected"
proof -
  let ?db = "fold (dispute_step COMMITTEE_QUORUM) demo_ops dispute_demo"
  have "dispute_inv COMMITTEE_QUORUM dispute_demo"
    using sd_rows.ids_ok_empty by (simp add: dispute_inv_def dispute_demo_def table_simps)
  then have inv: "dispute_inv COMMITTEE_QUORUM ?db" by (rule dl.inv_run)
  obtain r where r: "trows (score_disputes ?db) = [r]" "sd_status r = Dispute_rejected" "sd_id r = 1"
    using demo_row by blast
  then have "dispute_row ?db 1 = Some r" by (simp add: dispute_row_def sql_fetchone_def)
  from resolved_disputes_immutable [OF inv this, of "[Vote True 60 ''d1'' (replicate 64 CHR ''d'') ''approve'',
     Submit ''d2'' 70 ''GA'' ''XLM/USDC'' None]"] r(2) show ?thesis by (simp del: fold_simps One_nat_def)
qed

text \<open>A dispute is on record for good.\<close>

definition disputed_at :: "string \<Rightarrow> string \<Rightarrow> time \<Rightarrow> dispute_db \<Rightarrow> bool" where
  "disputed_at w a t db \<longleftrightarrow> (w, a, t) \<in> dispute_origin ` set (trows (score_disputes db))"

lemma disputed_at_step:
  assumes "disputed_at w a t db" shows "disputed_at w a t (dispute_step quorum op db)"
proof (cases rule: dispute_step_cases [of quorum op db])
  case (update row f)
  have "dispute_origin ` set (trows (score_disputes (dispute_step quorum op db))) =
      dispute_origin ` set (trows (score_disputes db))"
    unfolding update(5) table_simps by (rule image_upd_column) (use update(4) in simp)
  with assms show ?thesis by (simp add: disputed_at_def)
qed (use assms in \<open>auto simp: disputed_at_def table_simps\<close>)

lemma disputed_at_run:
  "disputed_at w a t db \<Longrightarrow> disputed_at w a t (fold (dispute_step quorum) ops db)"
  by (induction ops arbitrary: db) (simp_all add: disputed_at_step)

lemma latest_by_max:
  assumes "r \<in> set rs" shows "\<exists>m. latest_by k rs = Some m \<and> m \<in> set rs \<and> k r \<le> k m"
proof -
  have mem: "m \<in> set rs" if "sort_key (\<lambda>r. - k r) rs = m # ms" for m ms
    using that by (metis list.set_intros(1) set_sort)
  have "sort_key (\<lambda>r. - k r) rs \<noteq> []" using assms by (metis empty_iff list.set(1) set_sort)
  then show ?thesis
    using sort_key_hd_le [OF assms, of "\<lambda>r. - k r"] mem
    by (cases "sort_key (\<lambda>r. - k r) rs") (auto simp: latest_by_def)
qed

text \<open>After an accepted dispute of a wallet and pair at \<open>t1\<close>, whatever happens in between, every
  attempt to dispute the same wallet and pair less than seven days later is refused and leaves
  the database unchanged.\<close>

theorem dispute_rate_limit:
  assumes "submit_dispute uuid t1 w a e db = Inr (db1, r)" "t2 < t1 + 604800000000"
  shows "\<exists>err. submit_dispute uuid' t2 w a e' (fold (dispute_step quorum) ops db1) = Inl err"
proof -
  have "disputed_at w a t1 db1"
    using assms(1) by (auto simp: submit_dispute_def Let_def disputed_at_def dispute_origin_def
        table_simps new_dispute_def split: option.splits if_splits)
  then have "disputed_at w a t1 (fold (dispute_step quorum) ops db1)" by (rule disputed_at_run)
  then obtain p where p: "p \<in> set (sql_select (\<lambda>r. sd_wallet r = w \<and> sd_asset_pair r = a)
      (score_disputes (fold (dispute_step quorum) ops db1)))" "sd_submitted_at p = t1"
    by (auto simp: disputed_at_def dispute_origin_def sql_select_set)
  from latest_by_max [OF p(1), of sd_submitted_at] p(2) obtain m where
    m: "latest_by sd_submitted_at (sql_select (\<lambda>r. sd_wallet r = w \<and> sd_asset_pair r = a)
      (score_disputes (fold (dispute_step quorum) ops db1))) = Some m" "t1 \<le> sd_submitted_at m" by blast
  have "seconds (7 * 86400) = 604800000000" by simp
  with m assms(2) show ?thesis by (simp add: submit_dispute_def split: option.split)
qed

theorem dispute_rate_limit_witness:
  "\<exists>db1 r err. submit_dispute ''d1'' 10 ''GA'' ''XLM/USDC'' None dispute_demo = Inr (db1, r) \<and>
     submit_dispute ''d2'' 604800000009 ''GA'' ''XLM/USDC'' None db1 = Inl err"
proof -
  have "\<exists>db1 r. submit_dispute ''d1'' 10 ''GA'' ''XLM/USDC'' None dispute_demo = Inr (db1, r)"
    by (simp add: submit_dispute_def dispute_demo_def latest_by_def sql_select_def table_simps Let_def)
  then obtain db1 r where
    s: "submit_dispute ''d1'' 10 ''GA'' ''XLM/USDC'' None dispute_demo = Inr (db1, r)" by blast
  from dispute_rate_limit [OF s, where ops = "[]" and ?t2.0 = 604800000009] s show ?thesis by force
qed

text \<open>What the evidence check does, for every URL: anything but \<open>https\<close> and hosts starting with
  \<open>10.\<close>, \<open>127.\<close> or \<open>192.168.\<close> are refused, everything else is accepted. The branch for the private
  range 172.16 to 172.31 never refuses anything.\<close>

theorem evidence_url_172_accepted:
  "validate_evidence_url u =
     (let host = (case url_host u of None \<Rightarrow> '''' | Some h \<Rightarrow> h) in
      if lower (url_scheme u) \<noteq> ''https'' then Some Evidence_not_https
      else if starts_with host ''10.'' \<or> starts_with host ''127.'' \<or> starts_with host ''192.168.''
        then Some Evidence_private_ip else None) \<and>
   validate_evidence_url (Url ''https://172.16.0.1/x'' ''https'' (Some ''172.16.0.1'')) = None"
proof -
  have dead: "validate_172 host = None" for host
    by (auto simp: validate_172_def Let_def split: option.splits)
  then have eq: "validate_evidence_url u =
     (let host = (case url_host u of None \<Rightarrow> '''' | Some h \<Rightarrow> h) in
      if lower (url_scheme u) \<noteq> ''https'' then Some Evidence_not_https
      else if starts_with host ''10.'' \<or> starts_with host ''127.'' \<or> starts_with host ''192.168.''
        then Some Evidence_private_ip else None)" for u
    by (simp add: validate_evidence_url_def Let_def)
  have "lower ''https'' = ''https''" by code_simp
  then show ?thesis unfolding eq by (simp add: starts_with_def)
qed

subsection \<open>What the deciding approval commits\<close>

definition obligation_recorded :: "string \<Rightarrow> string \<Rightarrow> string \<Rightarrow> dispute_db \<Rightarrow> bool" where
  "obligation_recorded d w a db \<longleftrightarrow>
     (\<exists>ov \<in> set (trows (score_overrides db)).
        so_dispute_id ov = d \<and> so_wallet ov = w \<and> so_asset_pair ov = a \<and> so_status ov = Override_pending \<and>
        (\<exists>p \<in> set (trows (chain_queue db)). ps_idempotency_key p = override_idempotency_key d (so_id ov)))"

text \<open>The caller's situation: a pending dispute with two votes, at least one to approve, and a
  voter who has not voted.\<close>

definition about_to_approve :: "string \<Rightarrow> string \<Rightarrow> dispute \<Rightarrow> dispute_db \<Rightarrow> bool" where
  "about_to_approve d voter row db \<longleftrightarrow>
     load_dispute_row d db = Some row \<and> sd_status row = Dispute_pending \<and>
     length (sd_committee_votes row) = 2 \<and> 1 \<le> approves (sd_committee_votes row) \<and>
     voter \<notin> cv_voter_key_hash ` set (sd_committee_votes row) \<and> length voter = 64"

definition third_approval :: "time \<Rightarrow> string \<Rightarrow> dispute \<Rightarrow> committee_vote list" where
  "third_approval now voter row = sd_committee_votes row @
     [\<lparr>cv_voter_key_hash = voter, cv_vote = Approve, cv_voted_at = now\<rparr>]"

definition approved_state :: "time \<Rightarrow> string \<Rightarrow> dispute \<Rightarrow> dispute_db \<Rightarrow> dispute_db" where
  "approved_state now voter row db =
     write_dispute_row (sd_id row) Dispute_approved (third_approval now voter row) (Some now)
       (Some CONFIRMED_FALSE_POSITIVE)
       (write_votes (sd_id row) (third_approval now voter row) db)"

lemma resolve_vote_approves:
  assumes "quorum \<le> length votes" "2 * length votes \<le> 3 * approves votes"
  shows "resolve_vote quorum fv now d row votes db1 =
    (let db2 = write_dispute_row (sd_id row) Dispute_approved votes (Some now)
                 (Some CONFIRMED_FALSE_POSITIVE) db1
     in case record_override now row db2 of
          Inl e \<Rightarrow> ([db2], Inl e)
        | Inr db3 \<Rightarrow>
            (case add_correction fv now (sd_wallet row) (sd_asset_pair row) 0
                    (max 0 (min 100 (sd_disputed_score row))) 1 (Some d) db3 of
               Inl e \<Rightarrow> ([db2, db3], Inl e)
             | Inr db4 \<Rightarrow> ([db2, db3, db4],
                 Inr (row\<lparr>sd_status := Dispute_approved, sd_committee_votes := votes,
                   sd_resolved_at := Some now, sd_resolution := Some CONFIRMED_FALSE_POSITIVE\<rparr>))))"
  using assms by (simp add: resolve_vote_def Let_def approves_rejects)

lemma cast_third_approval:
  assumes "about_to_approve d voter row db"
  shows "cast_vote COMMITTEE_QUORUM fv now d voter ''approve'' db =
    (let db1 = write_votes (sd_id row) (third_approval now voter row) db;
         (commits, res) = resolve_vote COMMITTEE_QUORUM fv now d row (third_approval now voter row) db1
     in (db1 # commits, res))"
  using assms
  by (auto simp: cast_vote_def about_to_approve_def third_approval_def Let_def split: prod.splits)

lemma third_approval_decides:
  assumes "about_to_approve d voter row db"
  shows "COMMITTEE_QUORUM \<le> length (third_approval now voter row)"
    "2 * length (third_approval now voter row) \<le> 3 * approves (third_approval now voter row)"
  using assms by (auto simp: about_to_approve_def third_approval_def COMMITTEE_QUORUM_def approves_def)

lemma approved_state_simps [simp]:
  "risk_scores (approved_state now voter row db) = risk_scores db"
  "score_overrides (approved_state now voter row db) = score_overrides db"
  "chain_queue (approved_state now voter row db) = chain_queue db"
  "chain_queue_columns (approved_state now voter row db) = chain_queue_columns db"
  "analyst_corrections (approved_state now voter row db) = analyst_corrections db"
  by (simp_all add: approved_state_def db_simps)

lemma load_approved_state:
  assumes "load_dispute_row d db = Some row"
  shows "load_dispute_row d (approved_state now voter row db) =
    Some (row\<lparr>sd_status := Dispute_approved, sd_committee_votes := third_approval now voter row,
      sd_resolved_at := Some now, sd_resolution := Some CONFIRMED_FALSE_POSITIVE\<rparr>)"
proof -
  let ?f = "\<lambda>r :: dispute. r\<lparr>sd_status := Dispute_approved, sd_committee_votes := third_approval now voter row,
      sd_resolved_at := Some now, sd_resolution := Some CONFIRMED_FALSE_POSITIVE\<rparr>"
  have tab: "score_disputes (approved_state now voter row db) =
      sql_update (\<lambda>r. sd_id r = sd_id row) ?f (score_disputes db)"
    by (simp add: approved_state_def db_simps sql_update_twice)
  have "find (\<lambda>r. sd_dispute_id r = d) (trows (score_disputes db)) = Some row"
    using assms by (simp add: load_dispute_row_def sql_fetchone_def)
  moreover have "find (\<lambda>r. sd_dispute_id r = d)
      (map (\<lambda>r. if sd_id r = sd_id row then ?f r else r) (trows (score_disputes db))) =
    map_option (\<lambda>r. if sd_id r = sd_id row then ?f r else r)
      (find (\<lambda>r. sd_dispute_id r = d) (trows (score_disputes db)))"
    by (rule find_map_upd) simp
  ultimately show ?thesis
    by (simp add: load_dispute_row_def sql_fetchone_def tab table_simps)
qed

text \<open>An approved dispute refuses every further vote.\<close>

lemma approved_state_refuses:
  assumes "load_dispute_row d db = Some row"
  shows "fst (cast_vote q fv' now' d voter' v (approved_state now voter row db)) = [] \<and>
    (\<exists>e. snd (cast_vote q fv' now' d voter' v (approved_state now voter row db)) = Inl e)"
  using load_approved_state [OF assms, of now voter] by (auto simp: cast_vote_def)

lemma enqueue_records:
  assumes "enqueue_override_submission columns now d i w a mx pr q = Inr (q', key)"
  shows "\<exists>p \<in> set (trows q'). ps_idempotency_key p = override_idempotency_key d i"
proof (cases "sql_fetchone (\<lambda>r. ps_idempotency_key r = override_idempotency_key d i) q")
  case None
  with assms show ?thesis
    by (auto simp: enqueue_override_submission_def Let_def table_simps new_submission_def
        split: option.splits if_splits)
next
  case (Some p)
  from sql_fetchone_SomeD [OF Some] Some assms show ?thesis
    by (auto simp: enqueue_override_submission_def Let_def split: option.splits if_splits)
qed

lemma enqueue_total:
  assumes "set enqueue_columns \<subseteq> set columns"
  shows "\<exists>q' key. enqueue_override_submission columns now d i w a mx pr q = Inr (q', key)"
  unfolding enqueue_on_full_schema [OF assms] by (simp split: if_split)

lemma record_override_full:
  assumes "set enqueue_columns \<subseteq> set (chain_queue_columns db)" "sd_dispute_id row = d"
  shows "\<exists>db'. record_override now row db = Inr db' \<and>
    obligation_recorded d (sd_wallet row) (sd_asset_pair row) db' \<and>
    risk_scores db' = filter (\<lambda>r. \<not> (rs_wallet r = sd_wallet row \<and>
        rs_asset_pair r = sd_asset_pair row)) (risk_scores db) \<and>
    analyst_corrections db' = analyst_corrections db"
proof -
  let ?ov = "sql_insert (new_score_override (sd_wallet row, sd_asset_pair row, d, now)) (score_overrides db)"
  obtain q key where enq: "enqueue_override_submission (chain_queue_columns db) now d
      (last_insert_rowid ?ov) (sd_wallet row) (sd_asset_pair row) DEFAULT_MAX_ATTEMPTS
      DEFAULT_PRIORITY (chain_queue db) = Inr (q, key)"
    using enqueue_total [OF assms(1)] by blast
  from enqueue_records [OF enq] obtain p where
    "p \<in> set (trows q)" "ps_idempotency_key p = override_idempotency_key d (last_insert_rowid ?ov)" by blast
  then have "obligation_recorded d (sd_wallet row) (sd_asset_pair row)
      (db\<lparr>score_overrides := ?ov, chain_queue := q,
         risk_scores := filter (\<lambda>r. \<not> (rs_wallet r = sd_wallet row \<and>
            rs_asset_pair r = sd_asset_pair row)) (risk_scores db)\<rparr>)"
    by (auto simp: obligation_recorded_def table_simps new_score_override_def last_insert_rowid_def
        intro!: bexI [of _ "new_score_override (sd_wallet row, sd_asset_pair row, d, now)
          (Suc (tseq (score_overrides db)))"])
  with enq assms(2) show ?thesis by (simp add: record_override_def)
qed

text \<open>On a table with every column, the third vote that approves commits four states: the vote,
  then the status \<open>approved\<close>, then override row, queued obligation and deletion of the score
  together, then the training correction. A committed state has lost the score only if the
  override and the obligation to publish it are recorded in it.\<close>

theorem approval_records_obligation:
  assumes "about_to_approve d voter row db" "set enqueue_columns \<subseteq> set (chain_queue_columns db)"
  shows "\<exists>db3 db4 r. cast_vote COMMITTEE_QUORUM fv now d voter ''approve'' db =
      ([write_votes (sd_id row) (third_approval now voter row) db,
        approved_state now voter row db, db3, db4], Inr r) \<and>
    sd_status r = Dispute_approved \<and>
    risk_scores (approved_state now voter row db) = risk_scores db \<and>
    (\<forall>c \<in> {db3, db4}. obligation_recorded d (sd_wallet row) (sd_asset_pair row) c \<and>
       risk_scores c = filter (\<lambda>s. \<not> (rs_wallet s = sd_wallet row \<and> rs_asset_pair s = sd_asset_pair row))
         (risk_scores db)) \<and>
    (\<exists>c. analyst_corrections db4 = analyst_corrections db @ [c] \<and> ac_label c = 0 \<and>
       ac_confidence c = 1 \<and> ac_source_dispute_id c = Some d)"
proof -
  let ?db2 = "approved_state now voter row db"
  have d: "sd_dispute_id row = d"
    using assms(1) by (auto simp: about_to_approve_def load_dispute_row_def dest: sql_fetchone_SomeD)
  obtain db3 where db3: "record_override now row ?db2 = Inr db3"
      "obligation_recorded d (sd_wallet row) (sd_asset_pair row) db3"
      "risk_scores db3 = filter (\<lambda>r. \<not> (rs_wallet r = sd_wallet row \<and>
        rs_asset_pair r = sd_asset_pair row)) (risk_scores db)"
      "analyst_corrections db3 = analyst_corrections db"
    using record_override_full [of ?db2, OF _ d] assms(2) by auto
  obtain db4 where db4: "add_correction fv now (sd_wallet row) (sd_asset_pair row) 0
      (max 0 (min 100 (sd_disputed_score row))) 1 (Some d) db3 = Inr db4"
    using add_correction_ok by blast
  have keep: "obligation_recorded d (sd_wallet row) (sd_asset_pair row) db4" "risk_scores db4 = risk_scores db3"
    "\<exists>c. analyst_corrections db4 = analyst_corrections db @ [c] \<and> ac_label c = 0 \<and>
       ac_confidence c = 1 \<and> ac_source_dispute_id c = Some d"
  proof -
    obtain c where c: "db4 = db3\<lparr>analyst_corrections := analyst_corrections db3 @ [c]\<rparr>"
        "ac_label c = 0" "ac_confidence c = 1" "ac_source_dispute_id c = Some d"
      using db4 by (auto simp: add_correction_def split: if_splits)
    with db3(2) show "obligation_recorded d (sd_wallet row) (sd_asset_pair row) db4"
      by (simp add: obligation_recorded_def)
    from c db3(4) show "risk_scores db4 = risk_scores db3"
      "\<exists>c. analyst_corrections db4 = analyst_corrections db @ [c] \<and> ac_label c = 0 \<and>
       ac_confidence c = 1 \<and> ac_source_dispute_id c = Some d" by auto
  qed
  show ?thesis
    using db3 keep db4
    by (simp add: cast_third_approval [OF assms(1)] resolve_vote_approves
        [OF third_approval_decides [OF assms(1)]] Let_def approved_state_def [symmetric])
qed

text \<open>On the table as \<open>storage.py\<close> creates it, the same vote ends in a database error after the
  status \<open>approved\<close> has been committed: the wrong score stays published, no override, no
  obligation and no correction is recorded, and every further vote on the dispute is refused, so
  nothing can repair it.\<close>

theorem approval_lost_on_shipped_schema:
  assumes "about_to_approve d voter row db" "chain_queue_columns db = pending_chain_columns"
  shows "\<exists>db2. cast_vote COMMITTEE_QUORUM fv now d voter ''approve'' db =
      ([write_votes (sd_id row) (third_approval now voter row) db, db2],
       Inl (Database_error (No_such_column ''priority''))) \<and>
    map_option sd_status (load_dispute_row d db2) = Some Dispute_approved \<and>
    risk_scores db2 = risk_scores db \<and> score_overrides db2 = score_overrides db \<and>
    chain_queue db2 = chain_queue db \<and> analyst_corrections db2 = analyst_corrections db \<and>
    (\<forall>fv' now' voter' v. fst (cast_vote COMMITTEE_QUORUM fv' now' d voter' v db2) = [])"
proof -
  have l: "load_dispute_row d db = Some row" using assms(1) by (simp add: about_to_approve_def)
  have e: "record_override now row (approved_state now voter row db) =
      Inl (Database_error (No_such_column ''priority''))"
    using assms(2) by (simp add: record_override_def Let_def enqueue_fails)
  show ?thesis
    using approved_state_refuses [OF l] load_approved_state [OF l] e
    by (intro exI [of _ "approved_state now voter row db"])
      (simp add: cast_third_approval [OF assms(1)] resolve_vote_approves
        [OF third_approval_decides [OF assms(1)]] Let_def approved_state_def [symmetric])
qed

definition two_vote_db :: "string list \<Rightarrow> dispute_db" where
  "two_vote_db columns =
     \<lparr>on_chain_submissions = [], score_disputes = sql_insert (\<lambda>n.
        (new_dispute (''d1'', ''GA'', ''XLM/USDC'', 90, ''tx'', None, 0) n)
          \<lparr>sd_committee_votes := [\<lparr>cv_voter_key_hash = ''a'', cv_vote = Approve, cv_voted_at = 1\<rparr>,
             \<lparr>cv_voter_key_hash = ''b'', cv_vote = Reject, cv_voted_at = 2\<rparr>]\<rparr>) empty_table,
      risk_scores = [\<lparr>rs_wallet = ''GA'', rs_asset_pair = ''XLM/USDC'', rs_score = 90, rs_timestamp = 0\<rparr>],
      score_overrides = empty_table, chain_queue = empty_table, chain_queue_columns = columns,
      analyst_corrections = []\<rparr>"

lemma two_vote_db_about:
  "\<exists>row. about_to_approve ''d1'' (replicate 64 CHR ''c'') row (two_vote_db columns)"
  by (simp add: about_to_approve_def two_vote_db_def load_dispute_row_def sql_fetchone_def table_simps
      new_dispute_def approves_def image_iff numeral_eq_Suc)

theorem approval_records_obligation_witness:
  "\<exists>commits r. cast_vote COMMITTEE_QUORUM True 5 ''d1'' (replicate 64 CHR ''c'') ''approve''
     (two_vote_db enqueue_columns) = (commits, Inr r) \<and> length commits = 4"
proof -
  obtain row where r: "about_to_approve ''d1'' (replicate 64 CHR ''c'') row (two_vote_db enqueue_columns)"
    using two_vote_db_about by blast
  have "set enqueue_columns \<subseteq> set (chain_queue_columns (two_vote_db enqueue_columns))"
    by (simp add: two_vote_db_def)
  from approval_records_obligation [OF r this, of True 5] show ?thesis by auto
qed

theorem approval_lost_on_shipped_schema_witness:
  "\<exists>db2. map_option sd_status (load_dispute_row ''d1'' db2) = Some Dispute_approved \<and>
     risk_scores db2 = risk_scores (two_vote_db pending_chain_columns)"
proof -
  obtain row where r: "about_to_approve ''d1'' (replicate 64 CHR ''c'') row (two_vote_db pending_chain_columns)"
    using two_vote_db_about by blast
  have "chain_queue_columns (two_vote_db pending_chain_columns) = pending_chain_columns"
    by (simp add: two_vote_db_def)
  from approval_lost_on_shipped_schema [OF r this] show ?thesis by blast
qed

end
