(* ===== verification/Suppressions.thy ===== *)
theory Suppressions
  imports LL_Prelude
begin

text \<open>
  \<open>detection/suppressions.py\<close> and \<open>detection/wallet_override_store.py\<close>: the operator's
  whitelist rules for alerts, and the allowlist/denylist entries of wallets. Expiry times are
  the caller's text and are compared as text (SQLite's binary collation is the lexicographic
  order on bytes), so \<open>now\<close> is the ISO text of the clock here. The module-level cache of
  store objects by database path is not modelled: the table is the state.
\<close>

subsection \<open>Suppression rules\<close>

record suppression =
  sr_id :: nat
  sr_wallet :: string
  sr_reason :: string
  sr_created_at :: string
  sr_expires_at :: "string option"

definition new_suppression :: "string \<times> string \<times> string \<times> string option \<Rightarrow> nat \<Rightarrow> suppression" where
  "new_suppression x n = (case x of (wallet, reason, now, expires_at) \<Rightarrow>
     \<lparr>sr_id = n, sr_wallet = wallet, sr_reason = reason, sr_created_at = now,
      sr_expires_at = expires_at\<rparr>)"

interpretation sup_rows: autoinc_rows sr_id new_suppression
  by unfold_locales (simp add: new_suppression_def split: prod.splits)

definition add_suppression ::
  "string \<Rightarrow> string \<Rightarrow> string \<Rightarrow> string option \<Rightarrow> suppression table \<Rightarrow> suppression table \<times> suppression" where
  "add_suppression now wallet reason expires_at t =
     (let t' = sql_insert (new_suppression (wallet, reason, now, expires_at)) t
      in (t', new_suppression (wallet, reason, now, expires_at) (last_insert_rowid t')))"

definition rule_active :: "string \<Rightarrow> suppression \<Rightarrow> bool" where
  "rule_active now r \<longleftrightarrow> (case sr_expires_at r of None \<Rightarrow> True | Some e \<Rightarrow> now < e)"

definition list_active :: "string \<Rightarrow> suppression table \<Rightarrow> suppression list" where
  "list_active now t = sql_select (rule_active now) t"

definition delete_suppression :: "nat \<Rightarrow> suppression table \<Rightarrow> suppression table \<times> bool" where
  "delete_suppression i t =
     (sql_delete (\<lambda>r. sr_id r = i) t, 0 < sql_rowcount (\<lambda>r. sr_id r = i) t)"

definition is_suppressed :: "string \<Rightarrow> string \<Rightarrow> suppression table \<Rightarrow> suppression option" where
  "is_suppressed now wallet t = sql_fetchone (\<lambda>r. sr_wallet r = wallet \<and> rule_active now r) t"

text \<open>
  An alert is its \<open>wallet\<close> entry, if it has one, and the rest. The store reads the clock for
  every alert: each alert comes with the reading made for it.
\<close>

fun filter_suppressed_alerts ::
  "suppression table \<Rightarrow> (string \<times> string option \<times> 'a) list \<Rightarrow> (string option \<times> 'a) list" where
  "filter_suppressed_alerts t [] = []"
| "filter_suppressed_alerts t ((now, w, a) # rest) =
     (let wallet = (case w of None \<Rightarrow> '''' | Some x \<Rightarrow> x) in
      if is_suppressed now wallet t \<noteq> None then filter_suppressed_alerts t rest
      else (w, a) # filter_suppressed_alerts t rest)"

lemma is_suppressed_iff:
  "is_suppressed now w t \<noteq> None \<longleftrightarrow> (\<exists>r \<in> set (trows t). sr_wallet r = w \<and> rule_active now r)"
  unfolding is_suppressed_def by (auto simp: sql_fetchone_None)

lemma is_suppressed_None:
  "is_suppressed now w t = None \<longleftrightarrow> \<not> (\<exists>r \<in> set (list_active now t). sr_wallet r = w)"
  by (auto simp: is_suppressed_def sql_fetchone_None list_active_def sql_select_set)

lemma is_suppressed_SomeD:
  "is_suppressed now w t = Some r \<Longrightarrow> r \<in> set (list_active now t) \<and> sr_wallet r = w"
  by (auto simp: is_suppressed_def list_active_def sql_select_set dest: sql_fetchone_SomeD)

text \<open>A wallet is suppressed right after a rule without expiry is added for it and stays so at
  every later time; a rule with an expiry holds exactly while the clock text is below it; and
  deleting the only rule of a wallet ends the suppression.\<close>

theorem suppression_lifecycle:
  assumes "ids_ok sr_id t" "\<forall>r \<in> set (trows t). sr_wallet r \<noteq> w"
    and "add_suppression now w reason expires t = (t', r)"
  shows "(is_suppressed later w t' = (if rule_active later r then Some r else None)) \<and>
     (expires = None \<longrightarrow> is_suppressed later w t' = Some r) \<and>
     (expires = Some e \<longrightarrow> (is_suppressed later w t' \<noteq> None) = (later < e)) \<and>
     is_suppressed later w (fst (delete_suppression (sr_id r) t')) = None \<and>
     snd (delete_suppression (sr_id r) t')"
proof -
  have t': "trows t' = trows t @ [r]" and r: "r = new_suppression (w, reason, now, expires) (Suc (tseq t))"
    using assms(3) by (auto simp: add_suppression_def Let_def table_simps last_insert_rowid_def)
  have w: "sr_wallet r = w" "sr_expires_at r = expires" by (simp_all add: r new_suppression_def)
  have none: "find (\<lambda>r. sr_wallet r = w \<and> rule_active later r) (trows t) = None"
    using assms(2) by (auto simp: find_None_iff)
  have s: "is_suppressed later w t' = (if rule_active later r then Some r else None)"
    using none w by (simp add: is_suppressed_def sql_fetchone_def t' find_append)
  have "\<forall>q \<in> set (trows t'). sr_wallet q = w \<longrightarrow> q = r" using assms(2) t' by auto
  then have "is_suppressed later w (fst (delete_suppression (sr_id r) t')) = None"
    by (auto simp: is_suppressed_def sql_fetchone_None delete_suppression_def table_simps)
  moreover have "snd (delete_suppression (sr_id r) t')"
    by (simp add: delete_suppression_def sql_rowcount_def t')
  ultimately show ?thesis using s w by (auto simp: rule_active_def)
qed

theorem suppression_lifecycle_witness:
  "is_suppressed ''2026-01-02'' ''GBOT''
     (fst (add_suppression ''2026-01-01'' ''GBOT'' ''dex bot'' (Some ''2026-02-01'') empty_table)) \<noteq> None"
proof -
  have none: "\<forall>r \<in> set (trows empty_table). sr_wallet r \<noteq> ''GBOT''" by (simp add: table_simps)
  have lt: "''2026-01-02'' < ''2026-02-01''" by code_simp
  from suppression_lifecycle [OF sup_rows.ids_ok_empty none surjective_pairing,
      where e = "''2026-02-01''" and later = "''2026-01-02''" and now = "''2026-01-01''"
        and reason = "''dex bot''" and expires = "Some ''2026-02-01''"]
  show ?thesis using lt by blast
qed

text \<open>Filtering drops an alert exactly when an unexpired rule exists for its wallet at the moment it
  is looked at, keeps the others in order, and treats an alert without a wallet as the wallet
  with the empty name.\<close>

theorem filter_suppressed_alerts_spec:
  "filter_suppressed_alerts t alerts =
     map snd (filter (\<lambda>(now, w, a). \<not> (\<exists>r \<in> set (list_active now t).
       sr_wallet r = (case w of None \<Rightarrow> '''' | Some x \<Rightarrow> x))) alerts)"
proof (induction t alerts rule: filter_suppressed_alerts.induct)
  case (2 t now w a rest)
  show ?case
  proof (cases "is_suppressed now (case w of None \<Rightarrow> '''' | Some x \<Rightarrow> x) t = None")
    case True
    then have "\<not> (\<exists>r \<in> set (list_active now t). sr_wallet r = (case w of None \<Rightarrow> '''' | Some x \<Rightarrow> x))"
      by (simp only: is_suppressed_None not_False_eq_True)
    with 2 True show ?thesis by (simp add: Let_def)
  next
    case False
    then have "\<exists>r \<in> set (list_active now t). sr_wallet r = (case w of None \<Rightarrow> '''' | Some x \<Rightarrow> x)"
      by (simp only: is_suppressed_None not_not)
    with 2 False show ?thesis by (simp add: Let_def)
  qed
qed simp

subsection \<open>Wallet overrides\<close>

datatype list_type = Allowlist | Denylist

record override_entry =
  wo_id :: nat
  wo_entry_id :: string
  wo_wallet :: string
  wo_list_type :: list_type
  wo_reason :: string
  wo_added_by :: string
  wo_added_at :: time
  wo_removed_by :: "string option"
  wo_removed_at :: "time option"

datatype override_error = Already_listed string list_type

definition new_override ::
  "string \<times> string \<times> list_type \<times> string \<times> string \<times> time \<Rightarrow> nat \<Rightarrow> override_entry" where
  "new_override x n = (case x of (entry_id, wallet, list_type, reason, added_by, now) \<Rightarrow>
     \<lparr>wo_id = n, wo_entry_id = entry_id, wo_wallet = wallet, wo_list_type = list_type,
      wo_reason = reason, wo_added_by = added_by, wo_added_at = now, wo_removed_by = None,
      wo_removed_at = None\<rparr>)"

interpretation wo_rows: autoinc_rows wo_id new_override
  by unfold_locales (simp add: new_override_def split: prod.splits)

definition listed :: "string \<Rightarrow> list_type \<Rightarrow> override_entry \<Rightarrow> bool" where
  "listed wallet list_type r \<longleftrightarrow>
     wo_wallet r = wallet \<and> wo_list_type r = list_type \<and> wo_removed_at r = None"

text \<open>\<open>entry_id\<close> is the text of the fresh \<open>uuid4()\<close>.\<close>

definition add_override ::
  "string \<Rightarrow> time \<Rightarrow> string \<Rightarrow> list_type \<Rightarrow> string \<Rightarrow> string \<Rightarrow> override_entry table
     \<Rightarrow> override_error + override_entry table" where
  "add_override entry_id now wallet list_type reason added_by t =
     (case sql_fetchone (listed wallet list_type) t of
        Some _ \<Rightarrow> Inl (Already_listed wallet list_type)
      | None \<Rightarrow> Inr (sql_insert (new_override (entry_id, wallet, list_type, reason, added_by, now)) t))"

definition remove_override ::
  "time \<Rightarrow> string \<Rightarrow> list_type \<Rightarrow> string \<Rightarrow> override_entry table \<Rightarrow> override_entry table \<times> string option" where
  "remove_override now wallet list_type removed_by t =
     (case sql_fetchone (listed wallet list_type) t of
        None \<Rightarrow> (t, None)
      | Some row \<Rightarrow>
          (sql_update (\<lambda>r. wo_entry_id r = wo_entry_id row)
             (\<lambda>r. r\<lparr>wo_removed_by := Some removed_by, wo_removed_at := Some now\<rparr>) t,
           Some (wo_entry_id row)))"

definition get_active_override :: "string \<Rightarrow> override_entry table \<Rightarrow> override_entry option" where
  "get_active_override wallet t =
     sql_fetchone (\<lambda>r. wo_wallet r = wallet \<and> wo_removed_at r = None) t"

definition list_overrides :: "list_type \<Rightarrow> int \<Rightarrow> nat \<Rightarrow> override_entry table \<Rightarrow> override_entry list" where
  "list_overrides list_type limit offset t =
     sql_limit limit (drop offset
       (sort_key (\<lambda>r. - wo_added_at r) (sql_select (\<lambda>r. wo_list_type r = list_type) t)))"

text \<open>At most one entry of a list is in force for a wallet, and entry ids are all different.\<close>

definition overrides_inv :: "override_entry table \<Rightarrow> bool" where
  "overrides_inv t \<longleftrightarrow>
     distinct (map wo_entry_id (trows t)) \<and>
     (\<forall>w l. length (filter (listed w l) (trows t)) \<le> 1)"

datatype override_op =
    Add_override string time string list_type string string
  | Remove_override time string list_type string

fun override_apply :: "override_op \<Rightarrow> override_entry table \<Rightarrow> override_entry table" where
  "override_apply (Add_override e now w l reason who) t =
     (case add_override e now w l reason who t of Inl _ \<Rightarrow> t | Inr t' \<Rightarrow> t')"
| "override_apply (Remove_override now w l who) t = fst (remove_override now w l who t)"

fun fresh_entries :: "override_op list \<Rightarrow> string list" where
  "fresh_entries [] = []"
| "fresh_entries (Add_override e now w l reason who # ops) = e # fresh_entries ops"
| "fresh_entries (Remove_override now w l who # ops) = fresh_entries ops"

lemma filter_mono_length:
  "(\<And>x. x \<in> set xs \<Longrightarrow> P (f x) \<Longrightarrow> P x) \<Longrightarrow> length (filter P (map f xs)) \<le> length (filter P xs)"
  by (induction xs) auto

lemma override_apply_inv:
  assumes "overrides_inv t" "set (fresh_entries [op]) \<inter> wo_entry_id ` set (trows t) = {}"
  shows "overrides_inv (override_apply op t)"
proof (cases op)
  case (Add_override e now w l reason who)
  show ?thesis
  proof (cases "sql_fetchone (listed w l) t")
    case None
    let ?n = "new_override (e, w, l, reason, who, now) (Suc (tseq t))"
    have rows: "trows (override_apply op t) = trows t @ [?n]"
      using None Add_override by (simp add: add_override_def table_simps)
    have new: "wo_entry_id ?n = e" "listed v k ?n \<longleftrightarrow> v = w \<and> k = l" for v k
      by (auto simp: new_override_def listed_def)
    have "filter (listed w l) (trows t) = []"
      using None by (auto simp: sql_fetchone_None filter_empty_conv)
    moreover have "length (filter (listed v k) (trows t)) \<le> 1" for v k
      using assms(1) by (simp add: overrides_inv_def)
    ultimately have "length (filter (listed v k) (trows t @ [?n])) \<le> 1" for v k
      by (cases "v = w \<and> k = l") (auto simp: new)
    moreover have "distinct (map wo_entry_id (trows t @ [?n]))"
      using assms Add_override by (auto simp: new overrides_inv_def)
    ultimately show ?thesis by (simp only: overrides_inv_def rows) blast
  next
    case (Some r)
    with assms Add_override show ?thesis by (simp add: add_override_def)
  qed
next
  case (Remove_override now w l who)
  show ?thesis
  proof (cases "sql_fetchone (listed w l) t")
    case None
    with assms Remove_override show ?thesis by (simp add: remove_override_def)
  next
    case (Some row)
    let ?f = "\<lambda>r. if wo_entry_id r = wo_entry_id row
      then r\<lparr>wo_removed_by := Some who, wo_removed_at := Some now\<rparr> else r"
    have "length (filter (listed v k) (map ?f (trows t))) \<le> 1" for v k
    proof -
      have "length (filter (listed v k) (map ?f (trows t))) \<le> length (filter (listed v k) (trows t))"
        by (rule filter_mono_length) (simp add: listed_def split: if_splits)
      with assms(1) show ?thesis unfolding overrides_inv_def by (meson le_trans)
    qed
    moreover have "map wo_entry_id (map ?f (trows t)) = map wo_entry_id (trows t)"
      by (rule map_upd_column) simp
    moreover have "trows (override_apply op t) = map ?f (trows t)"
      using Some Remove_override by (simp add: remove_override_def table_simps)
    ultimately show ?thesis
      using assms(1) unfolding overrides_inv_def by metis
  qed
qed

lemma override_apply_ids:
  "wo_entry_id ` set (trows (override_apply op t)) \<subseteq>
     wo_entry_id ` set (trows t) \<union> set (fresh_entries [op])"
proof (cases op)
  case (Add_override e now w l reason who)
  then show ?thesis
    by (auto simp: add_override_def table_simps new_override_def split: option.splits)
next
  case (Remove_override now w l who)
  have "wo_entry_id ` set (map (\<lambda>r. if wo_entry_id r = x
      then r\<lparr>wo_removed_by := Some who, wo_removed_at := Some now\<rparr> else r) rs) = wo_entry_id ` set rs" for x and rs :: "override_entry list"
    by (rule image_upd_column) simp
  with Remove_override show ?thesis
    by (simp add: remove_override_def table_simps split: option.split del: set_map)
qed

lemma fresh_entries_Cons: "fresh_entries (op # ops) = fresh_entries [op] @ fresh_entries ops"
  by (cases op) auto

text \<open>Whatever sequence of additions and removals runs from an empty table, as long as the fresh
  entry ids differ, a wallet has at most one entry in force on each list.\<close>

theorem overrides_at_most_one_active:
  assumes "distinct (fresh_entries ops)"
  shows "length (filter (listed w l) (trows (fold override_apply ops empty_table))) \<le> 1"
proof -
  have "overrides_inv (fold override_apply ops t)"
    if "overrides_inv t" "distinct (fresh_entries ops)"
      "set (fresh_entries ops) \<inter> wo_entry_id ` set (trows t) = {}" for t
    using that
  proof (induction ops arbitrary: t)
    case (Cons op ops)
    have f: "distinct (fresh_entries [op] @ fresh_entries ops)"
      "set (fresh_entries [op] @ fresh_entries ops) \<inter> wo_entry_id ` set (trows t) = {}"
      using Cons.prems(2,3) by (simp_all only: fresh_entries_Cons [symmetric])
    have "overrides_inv (override_apply op t)"
      using Cons.prems(1) f(2) by (intro override_apply_inv) auto
    moreover have "set (fresh_entries ops) \<inter> wo_entry_id ` set (trows (override_apply op t)) = {}"
      using f override_apply_ids [of op t] unfolding distinct_append set_append by blast
    ultimately show ?case using Cons.IH f(1) by simp
  qed simp
  from this [of empty_table] assms show ?thesis by (simp add: overrides_inv_def table_simps)
qed

theorem overrides_at_most_one_active_witness:
  "length (filter (listed ''G'' Denylist) (trows (fold override_apply
     [Add_override ''e1'' 1 ''G'' Denylist ''x'' ''ops'', Remove_override 2 ''G'' Denylist ''ops'',
      Add_override ''e2'' 3 ''G'' Denylist ''x'' ''ops''] empty_table))) \<le> 1"
  by (rule overrides_at_most_one_active) simp

text \<open>The lookup the scorer uses returns the oldest entry in force whatever its list: while an
  allowlist entry of a wallet is in force, adding the wallet to the denylist succeeds and does
  not change the answer.\<close>

theorem denylist_masked_by_allowlist:
  assumes "get_active_override w t = Some r" "wo_list_type r = Allowlist"
    and "\<forall>q \<in> set (trows t). \<not> listed w Denylist q"
  shows "\<exists>t'. add_override e now w Denylist reason who t = Inr t' \<and>
     (\<exists>q \<in> set (trows t'). listed w Denylist q) \<and> get_active_override w t' = Some r"
  using assms
  by (auto simp: add_override_def get_active_override_def sql_fetchone_def table_simps find_append
      find_None_iff new_override_def listed_def split: option.splits)

theorem denylist_masked_by_allowlist_witness:
  "\<exists>t'. add_override ''e2'' 5 ''G'' Denylist ''wash'' ''ops''
      (sql_insert (new_override (''e1'', ''G'', Allowlist, ''anchor'', ''ops'', 1)) empty_table) = Inr t' \<and>
     map_option wo_list_type (get_active_override ''G'' t') = Some Allowlist"
proof -
  let ?r = "new_override (''e1'', ''G'', Allowlist, ''anchor'', ''ops'', 1) 1"
  let ?t = "sql_insert (new_override (''e1'', ''G'', Allowlist, ''anchor'', ''ops'', 1)) empty_table"
  have "get_active_override ''G'' ?t = Some ?r" "wo_list_type ?r = Allowlist"
      "\<forall>q \<in> set (trows ?t). \<not> listed ''G'' Denylist q"
    by (simp_all add: get_active_override_def sql_fetchone_def table_simps new_override_def listed_def)
  from denylist_masked_by_allowlist [OF this, of "''e2''" 5 "''wash''" "''ops''"]
  show ?thesis by (auto simp: new_override_def)
qed

end
