(* ===== verification/Alert_Engine.thy ===== *)
theory Alert_Engine
  imports Suppressions
begin

text \<open>
  \<open>detection/alert_engine.py\<close>: per-wallet alert state with hysteresis. The database is the
  table of states (keyed by wallet), the table of emitted events and the suppression rules the
  engine consults first. Scores are rationals; \<open>now_iso\<close> is the clock text the suppression
  lookup uses, \<open>now\<close> the instant written to the state row and \<open>emit_now\<close> the instant
  \<open>_emit_event\<close> reads.
\<close>

definition ESCALATION_DELTA :: rat where "ESCALATION_DELTA = 10"
definition RESOLUTION_CONSECUTIVE :: int where "RESOLUTION_CONSECUTIVE = 3"

datatype event_type = Opened | Escalated | Resolved

record alert_event =
  ae_wallet :: string
  ae_event_type :: event_type
  ae_score :: rat
  ae_previous_score :: "rat option"
  ae_emitted_at :: time

record alert_state =
  as_active :: bool
  as_last_score :: rat
  as_streak :: int
  as_opened_at :: "time option"
  as_updated_at :: time

record alert_db =
  alert_states :: "string \<rightharpoonup> alert_state"
  alert_events :: "alert_event list"   \<comment> \<open>in rowid order\<close>
  suppressions :: "suppression table"

definition emit_event ::
  "time \<Rightarrow> string \<Rightarrow> event_type \<Rightarrow> rat \<Rightarrow> rat option \<Rightarrow> alert_event" where
  "emit_event now wallet ty score previous =
     \<lparr>ae_wallet = wallet, ae_event_type = ty, ae_score = score, ae_previous_score = previous,
      ae_emitted_at = now\<rparr>"

text \<open>The transition of \<open>process\<close> on the loaded state, with the events it emits.\<close>

definition alert_transition ::
  "rat \<Rightarrow> time \<Rightarrow> time \<Rightarrow> string \<Rightarrow> rat \<Rightarrow> alert_state option \<Rightarrow> alert_state \<times> alert_event list" where
  "alert_transition threshold now emit_now wallet score row =
     (let (active, last_score, streak, opened) =
            (case row of None \<Rightarrow> (False, 0, 0, None)
             | Some s \<Rightarrow> (as_active s, as_last_score s, as_streak s, as_opened_at s));
          above = (threshold \<le> score);
          (active', streak', opened', events) =
            (if \<not> active then
               if above then (True, 0, Some now, [emit_event emit_now wallet Opened score None])
               else (False, 0, opened, [])
             else if above then
               (True, 0, opened,
                if last_score + ESCALATION_DELTA < score
                then [emit_event emit_now wallet Escalated score (Some last_score)] else [])
             else if RESOLUTION_CONSECUTIVE \<le> streak + 1 then
               (False, 0, None, [emit_event emit_now wallet Resolved score (Some last_score)])
             else (True, streak + 1, opened, []))
      in (\<lparr>as_active = active', as_last_score = score, as_streak = streak', as_opened_at = opened',
           as_updated_at = now\<rparr>, events))"

definition process ::
  "rat \<Rightarrow> string \<Rightarrow> time \<Rightarrow> time \<Rightarrow> string \<Rightarrow> rat \<Rightarrow> alert_db \<Rightarrow> alert_db \<times> alert_event list" where
  "process threshold now_iso now emit_now wallet score db =
     (case is_suppressed now_iso wallet (suppressions db) of
        Some _ \<Rightarrow> (db, [])
      | None \<Rightarrow>
          (case alert_transition threshold now emit_now wallet score (alert_states db wallet) of
             (s, events) \<Rightarrow>
               (db\<lparr>alert_states := (alert_states db)(wallet \<mapsto> s),
                   alert_events := alert_events db @ events\<rparr>, events)))"

definition get_state :: "string \<Rightarrow> alert_db \<Rightarrow> alert_state option" where
  "get_state wallet db = alert_states db wallet"

definition get_events :: "string \<Rightarrow> int \<Rightarrow> alert_db \<Rightarrow> alert_event list" where
  "get_events wallet limit db =
     sql_limit limit (sort_key (\<lambda>e. - ae_emitted_at e)
       (filter (\<lambda>e. ae_wallet e = wallet) (alert_events db)))"

subsection \<open>Suppressed and other wallets\<close>

text \<open>An observation for a suppressed wallet changes nothing and emits nothing, and an
  observation for one wallet never touches the state of another; every event returned is
  recorded, for that wallet, at the end of the event table.\<close>

theorem process_frame:
  assumes "process threshold now_iso now emit_now w score db = (db', evs)"
  shows "(is_suppressed now_iso w (suppressions db) \<noteq> None \<longrightarrow> db' = db \<and> evs = []) \<and>
     (\<forall>v. v \<noteq> w \<longrightarrow> get_state v db' = get_state v db) \<and>
     suppressions db' = suppressions db \<and>
     alert_events db' = alert_events db @ evs \<and> (\<forall>e \<in> set evs. ae_wallet e = w) \<and> length evs \<le> 1"
  using assms
  by (auto simp: process_def get_state_def alert_transition_def emit_event_def Let_def
      split: option.splits prod.splits if_splits)

theorem process_frame_witness:
  "\<exists>db' evs. process 70 ''2026'' 5 5 ''G'' 90
     \<lparr>alert_states = Map.empty, alert_events = [], suppressions = empty_table\<rparr> = (db', evs) \<and>
     alert_events db' = evs"
proof -
  let ?db = "\<lparr>alert_states = Map.empty, alert_events = [], suppressions = empty_table\<rparr>"
  obtain db' evs where p: "process 70 ''2026'' 5 5 ''G'' 90 ?db = (db', evs)" by fastforce
  from process_frame [OF p] p show ?thesis by auto
qed

subsection \<open>Hysteresis\<close>

text \<open>Runs of observations of one wallet, each with its clock readings.\<close>

fun alert_run ::
  "rat \<Rightarrow> string \<Rightarrow> (time \<times> time \<times> rat) list \<Rightarrow> alert_state option \<Rightarrow> alert_state option \<times> alert_event list" where
  "alert_run thr w [] s = (s, [])"
| "alert_run thr w ((now, en, score) # obs) s =
     (case alert_transition thr now en w score s of
        (s', evs) \<Rightarrow> (case alert_run thr w obs (Some s') of (s'', evs') \<Rightarrow> (s'', evs @ evs')))"

definition obs_score :: "time \<times> time \<times> rat \<Rightarrow> rat" where
  "obs_score ob = snd (snd ob)"

definition is_active :: "alert_state option \<Rightarrow> bool" where
  "is_active s \<longleftrightarrow> (case s of None \<Rightarrow> False | Some x \<Rightarrow> as_active x)"

text \<open>
  The promise, stated on the scores alone: an alert is active when some observation reached
  the threshold and no three consecutive observations since were below it.
\<close>

definition three_below :: "rat \<Rightarrow> rat list \<Rightarrow> bool" where
  "three_below thr xs \<longleftrightarrow>
     (\<exists>i. i + 2 < length xs \<and> xs ! i < thr \<and> xs ! (i + 1) < thr \<and> xs ! (i + 2) < thr)"

definition alert_expected :: "rat \<Rightarrow> rat list \<Rightarrow> bool" where
  "alert_expected thr xs \<longleftrightarrow>
     (\<exists>pre x post. xs = pre @ x # post \<and> thr \<le> x \<and> \<not> three_below thr (x # post))"

fun below_tail :: "rat \<Rightarrow> rat list \<Rightarrow> nat" where
  "below_tail thr [] = 0"
| "below_tail thr (r # rs) = (if r < thr then Suc (below_tail thr rs) else 0)"

text \<open>Number of below-threshold observations at the end.\<close>

definition trailing_below :: "rat \<Rightarrow> rat list \<Rightarrow> nat" where
  "trailing_below thr xs = below_tail thr (rev xs)"

lemma trailing_below_snoc:
  "trailing_below thr (xs @ [x]) = (if x < thr then Suc (trailing_below thr xs) else 0)"
  by (simp add: trailing_below_def)

lemma below_tail_stop: "thr \<le> x \<Longrightarrow> below_tail thr (rs @ x # ys) = below_tail thr (rs @ [x])"
  by (induction rs) auto

lemma trailing_below_suffix:
  "thr \<le> x \<Longrightarrow> trailing_below thr (pre @ x # post) = trailing_below thr (x # post)"
  using below_tail_stop [of thr x "rev post" "rev pre"] by (simp add: trailing_below_def)

lemma below_tail_two: "2 \<le> below_tail thr rs \<longleftrightarrow> (\<exists>a b cs. rs = a # b # cs \<and> a < thr \<and> b < thr)"
proof (cases rs)
  case (Cons a ts)
  then show ?thesis by (cases ts) auto
qed simp

lemma trailing_two:
  "2 \<le> trailing_below thr xs \<longleftrightarrow> (\<exists>ys a b. xs = ys @ [b, a] \<and> a < thr \<and> b < thr)"
proof -
  have "rev xs = a # b # cs \<longleftrightarrow> xs = rev cs @ [b, a]" for a b cs
    using rev_swap [of xs "a # b # cs"] by simp
  then have "(\<exists>cs. rev xs = a # b # cs) \<longleftrightarrow> (\<exists>ys. xs = ys @ [b, a])" for a b
    by (metis rev_rev_ident)
  then show ?thesis unfolding trailing_below_def below_tail_two by blast
qed

lemma three_below_snoc:
  "three_below thr (xs @ [x]) \<longleftrightarrow> three_below thr xs \<or> (x < thr \<and> 2 \<le> trailing_below thr xs)"
proof
  assume "three_below thr (xs @ [x])"
  then obtain i where i: "i + 2 < length (xs @ [x])" "(xs @ [x]) ! i < thr"
      "(xs @ [x]) ! (i + 1) < thr" "(xs @ [x]) ! (i + 2) < thr"
    unfolding three_below_def by blast
  show "three_below thr xs \<or> (x < thr \<and> 2 \<le> trailing_below thr xs)"
  proof (cases "i + 2 < length xs")
    case True
    with i show ?thesis unfolding three_below_def by (auto simp: nth_append)
  next
    case False
    then have l: "length xs = i + 2" using i(1) by simp
    have "xs = take i xs @ [xs ! i, xs ! (i + 1)]"
      using l by (intro nth_equalityI) (auto simp: nth_append less_Suc_eq nth_Cons split: nat.split)
    with i l show ?thesis unfolding trailing_two by (auto simp: nth_append)
  qed
next
  assume "three_below thr xs \<or> (x < thr \<and> 2 \<le> trailing_below thr xs)"
  then show "three_below thr (xs @ [x])"
  proof
    assume "three_below thr xs"
    then obtain i where "i + 2 < length xs" "xs ! i < thr" "xs ! (i + 1) < thr" "xs ! (i + 2) < thr"
      unfolding three_below_def by blast
    then show ?thesis unfolding three_below_def by (intro exI [of _ i]) (simp add: nth_append)
  next
    assume "x < thr \<and> 2 \<le> trailing_below thr xs"
    then obtain ys a b where "xs = ys @ [b, a]" "a < thr" "b < thr" "x < thr"
      unfolding trailing_two by blast
    then show ?thesis unfolding three_below_def by (intro exI [of _ "length ys"]) (simp add: nth_append)
  qed
qed

lemma alert_expected_above: "thr \<le> x \<Longrightarrow> alert_expected thr (xs @ [x])"
  unfolding alert_expected_def three_below_def by (intro exI [of _ xs] exI [of _ x] exI [of _ "[]"]) auto

lemma alert_expected_below:
  assumes "x < thr"
  shows "alert_expected thr (xs @ [x]) \<longleftrightarrow> alert_expected thr xs \<and> trailing_below thr xs < 2"
proof
  assume "alert_expected thr (xs @ [x])"
  then obtain pre y post where p: "xs @ [x] = pre @ y # post" "thr \<le> y" "\<not> three_below thr (y # post)"
    unfolding alert_expected_def by blast
  have ne: "post \<noteq> []" using p(1,2) assms by auto
  define q where "q = butlast post"
  have post: "post = q @ [x]" using p(1) ne unfolding q_def
    by (metis append_butlast_last_id last.simps last_appendR last_snoc list.discI)
  have xs: "xs = pre @ y # q" using p(1) post by simp
  have "\<not> three_below thr ((y # q) @ [x])" using p(3) post by simp
  then have "\<not> three_below thr (y # q)" "trailing_below thr (y # q) < 2"
    unfolding three_below_snoc using assms by auto
  then show "alert_expected thr xs \<and> trailing_below thr xs < 2"
    using xs p(2) trailing_below_suffix [OF p(2)] unfolding alert_expected_def by auto
next
  assume "alert_expected thr xs \<and> trailing_below thr xs < 2"
  then obtain pre y post where p: "xs = pre @ y # post" "thr \<le> y" "\<not> three_below thr (y # post)"
      "trailing_below thr xs < 2"
    unfolding alert_expected_def by blast
  then have "\<not> three_below thr ((y # post) @ [x])"
    unfolding three_below_snoc using trailing_below_suffix [OF p(2)] by auto
  with p(1,2) show "alert_expected thr (xs @ [x])"
    unfolding alert_expected_def by (intro exI [of _ pre] exI [of _ y] exI [of _ "post @ [x]"]) simp
qed

lemma alert_run_append:
  "alert_run thr w (as @ bs) s =
     (case alert_run thr w as s of (s', e) \<Rightarrow> (case alert_run thr w bs s' of (s'', e') \<Rightarrow> (s'', e @ e')))"
  by (induction as arbitrary: s) (auto split: prod.splits)

text \<open>The streak column is the number of trailing low scores while the alert is active.\<close>

lemma alert_run_state:
  assumes "fst (alert_run thr w obs None) = s"
  shows "is_active s = alert_expected thr (map obs_score obs) \<and>
     (\<forall>x. s = Some x \<longrightarrow> as_active x \<longrightarrow>
        as_streak x = int (trailing_below thr (map obs_score obs)) \<and> as_streak x < 3)"
  using assms
proof (induction obs arbitrary: s rule: rev_induct)
  case Nil
  then show ?case by (auto simp: is_active_def alert_expected_def)
next
  case (snoc ob obs)
  obtain now en x where ob: "ob = (now, en, x)" by (cases ob)
  let ?xs = "map obs_score obs"
  define s0 where "s0 = fst (alert_run thr w obs None)"
  note IH = snoc.IH [OF s0_def [symmetric]]
  have s: "s = Some (fst (alert_transition thr now en w x s0))"
    using snoc.prems ob by (auto simp: alert_run_append s0_def split: prod.splits)
  have xs: "map obs_score (obs @ [ob]) = ?xs @ [x]" by (simp add: ob obs_score_def)
  show ?case
  proof (cases "thr \<le> x")
    case True
    have "is_active s \<and> (\<forall>y. s = Some y \<longrightarrow> as_streak y = 0)"
      unfolding s is_active_def alert_transition_def using True by (auto simp: Let_def split: option.splits)
    with True alert_expected_above [OF True, of ?xs] show ?thesis
      unfolding xs trailing_below_snoc by auto
  next
    case False
    have exp: "alert_expected thr (?xs @ [x]) \<longleftrightarrow> is_active s0 \<and> trailing_below thr ?xs < 2"
      using alert_expected_below [of x thr ?xs] False IH by simp
    show ?thesis
    proof (cases s0)
      case None
      with False exp show ?thesis
        unfolding xs by (auto simp: s is_active_def alert_transition_def Let_def)
    next
      case (Some y)
      with False exp IH show ?thesis
        unfolding xs by (auto simp: s is_active_def alert_transition_def Let_def trailing_below_snoc
            RESOLUTION_CONSECUTIVE_def)
    qed
  qed
qed

text \<open>After any history of a wallet's observations the alert is active exactly when some score
  reached the threshold and no three consecutive scores since then were below it: one or two dips
  never resolve an alert, three in a row always do.\<close>

theorem alert_active_iff_hysteresis:
  "is_active (fst (alert_run thr w obs None)) = alert_expected thr (map obs_score obs)"
  using alert_run_state [OF refl, of thr w obs] by blast

text \<open>Opened and resolved events alternate, starting from the current activity.\<close>

fun alternating :: "bool \<Rightarrow> event_type list \<Rightarrow> bool" where
  "alternating active [] = True"
| "alternating active (Opened # es) = (\<not> active \<and> alternating True es)"
| "alternating active (Escalated # es) = (active \<and> alternating active es)"
| "alternating active (Resolved # es) = (active \<and> alternating False es)"

text \<open>The events of a wallet form a well-bracketed story: an alert is opened only when none is
  active, escalated and resolved only while one is, and never opened or resolved twice in a row;
  so repeated high scores produce no duplicate opening.\<close>

theorem alert_events_alternate:
  "alternating False (map ae_event_type (snd (alert_run thr w obs None)))"
proof -
  have "alternating (is_active s) (map ae_event_type (snd (alert_run thr w obs s)))" for s
  proof (induction obs arbitrary: s)
    case (Cons ob obs)
    obtain now en x where ob: "ob = (now, en, x)" by (cases ob)
    obtain s' evs where t: "alert_transition thr now en w x s = (s', evs)" by fastforce
    have step: "alternating (is_active s) (map ae_event_type evs @ es) =
        alternating (is_active (Some s')) es" for es
      using t by (auto simp: alert_transition_def is_active_def emit_event_def Let_def
          split: option.splits if_splits)
    obtain s'' evs' where r: "alert_run thr w obs (Some s') = (s'', evs')" by fastforce
    from Cons.IH [of "Some s'"] show ?case by (simp add: ob t r step)
  qed simp
  from this [of None] show ?thesis by (simp add: is_active_def)
qed

end
