(* ===== verification/Settings_Reloader.thy ===== *)
theory Settings_Reloader
  imports LL_Prelude
begin

text \<open>
  \<open>SettingsReloader\<close> of \<open>detection/governance.py\<close>: the live settings object and the
  \<open>.env\<close> file a governance decision changes. The file is the text \<open>open(..., "r")\<close> reads
  (line ends already translated to a line feed), absent if there is no file. Whether the write of
  the file fails, and with what text, is the argument \<open>fault\<close>. A float setting is kept as the
  text \<open>float(..)\<close> accepted.
\<close>

datatype setting_value = Int_value int | Float_of string

datatype setting_error = Not_modifiable string | Cannot_parse string string | Env_not_written string

record config_state =
  live :: "string \<rightharpoonup> setting_value"
  env_file :: "string option"

definition ALLOWED_SETTINGS :: "string list" where
  "ALLOWED_SETTINGS =
     [''RISK_SCORE_THRESHOLD'', ''SOROBAN_CIRCUIT_BREAKER_THRESHOLD'', ''FEEDBACK_DECAY_LAMBDA'',
      ''CROSS_CHAIN_MIN_CONFIDENCE'']"

datatype setting_type = Int_type | Float_type | Str_type

definition TYPE_MAP :: "string \<Rightarrow> setting_type" where
  "TYPE_MAP key =
     (if key = ''RISK_SCORE_THRESHOLD'' \<or> key = ''SOROBAN_CIRCUIT_BREAKER_THRESHOLD'' then Int_type
      else if key = ''FEEDBACK_DECAY_LAMBDA'' \<or> key = ''CROSS_CHAIN_MIN_CONFIDENCE'' then Float_type
      else Str_type)"

definition attr_map :: "string \<Rightarrow> string" where
  "attr_map key =
     (if key = ''RISK_SCORE_THRESHOLD'' then ''_default_risk_score_threshold''
      else if key = ''SOROBAN_CIRCUIT_BREAKER_THRESHOLD'' then ''soroban_circuit_breaker_threshold''
      else if key = ''FEEDBACK_DECAY_LAMBDA'' then ''feedback_decay_lambda''
      else if key = ''CROSS_CHAIN_MIN_CONFIDENCE'' then ''cross_chain_min_confidence''
      else lower key)"

definition parse_setting :: "string \<Rightarrow> string \<Rightarrow> setting_value option" where
  "parse_setting key v =
     (case TYPE_MAP key of
        Int_type \<Rightarrow> map_option Int_value (py_int v)
      | Float_type \<Rightarrow> if float_ok v then Some (Float_of v) else None
      | Str_type \<Rightarrow> Some (Float_of v))"

subsection \<open>The \<open>.env\<close> file\<close>

text \<open>\<open>f.readlines()\<close>: each line with its line feed; the last one may lack it.\<close>

fun readlines :: "string \<Rightarrow> string list" where
  "readlines [] = []"
| "readlines (c # cs) =
     (if c = CHR 0x0A then [c] # readlines cs
      else (case readlines cs of [] \<Rightarrow> [[c]] | l # ls \<Rightarrow> (c # l) # ls))"

definition sets_key :: "string \<Rightarrow> string \<Rightarrow> bool" where
  "sets_key key line \<longleftrightarrow> starts_with line (key @ ''='') \<or> starts_with line (''#'' @ key @ ''='')"

definition setting_line :: "string \<Rightarrow> string \<Rightarrow> string" where
  "setting_line key v = key @ ''='' @ v @ [CHR 0x0A]"

text \<open>The loop over the lines: the first match is replaced, none appends.\<close>

fun replace_line :: "string \<Rightarrow> string \<Rightarrow> string list \<Rightarrow> string list \<times> bool" where
  "replace_line key v [] = ([], False)"
| "replace_line key v (l # ls) =
     (if sets_key key l then (setting_line key v # ls, True)
      else (case replace_line key v ls of (ls', updated) \<Rightarrow> (l # ls', updated)))"

definition env_update :: "string \<Rightarrow> string \<Rightarrow> string option \<Rightarrow> string" where
  "env_update key v file =
     (let env_lines = (case file of None \<Rightarrow> [] | Some text \<Rightarrow> readlines text)
      in case replace_line key v env_lines of
           (ls, True) \<Rightarrow> concat ls
         | (ls, False) \<Rightarrow> concat (ls @ [setting_line key v]))"

text \<open>The live object is set before the file is written.\<close>

definition apply_setting ::
  "string option \<Rightarrow> string \<Rightarrow> string \<Rightarrow> config_state \<Rightarrow> config_state \<times> setting_error option" where
  "apply_setting fault key new_value c =
     (if key \<notin> set ALLOWED_SETTINGS then (c, Some (Not_modifiable key))
      else case parse_setting key new_value of
        None \<Rightarrow> (c, Some (Cannot_parse key new_value))
      | Some parsed \<Rightarrow>
          let c1 = c\<lparr>live := (live c)(attr_map key \<mapsto> parsed)\<rparr> in
          (case fault of
             Some e \<Rightarrow> (c1, Some (Env_not_written e))
           | None \<Rightarrow> (c1\<lparr>env_file := Some (env_update key new_value (env_file c))\<rparr>, None)))"

subsection \<open>Reading the file back\<close>

text \<open>The value a loader finds: of the last line that sets the key, without its line feed.\<close>

definition line_value :: "string \<Rightarrow> string \<Rightarrow> string option" where
  "line_value key line =
     (if starts_with line (key @ ''='')
      then Some (takeWhile (\<lambda>c. c \<noteq> CHR 0x0A) (drop (length key + 1) line)) else None)"

definition env_value :: "string \<Rightarrow> string \<Rightarrow> string option" where
  "env_value key text =
     (case List.map_filter (line_value key) (readlines text) of [] \<Rightarrow> None | v # vs \<Rightarrow> Some (last (v # vs)))"

text \<open>A line ends with its only line feed.\<close>

definition full_line :: "string \<Rightarrow> bool" where
  "full_line l \<longleftrightarrow> (\<exists>b. l = b @ [CHR 0x0A] \<and> CHR 0x0A \<notin> set b)"

lemma readlines_concat [simp]: "concat (readlines s) = s"
  by (induction s) (auto split: list.split)

lemma readlines_nonempty: "[] \<notin> set (readlines s)"
  by (induction s) (auto split: list.split)

lemma readlines_line: "CHR 0x0A \<notin> set b \<Longrightarrow> readlines (b @ CHR 0x0A # s) = (b @ [CHR 0x0A]) # readlines s"
  by (induction b) auto

lemma readlines_concat_lines: "\<forall>l \<in> set ls. full_line l \<Longrightarrow> readlines (concat ls @ s) = ls @ readlines s"
proof (induction ls)
  case (Cons l ls)
  then obtain b where "l = b @ [CHR 0x0A]" "CHR 0x0A \<notin> set b" by (auto simp: full_line_def)
  with Cons show ?case using readlines_line [of b "concat ls @ s"] by simp
qed simp

text \<open>All lines are full when the text is empty or ends with a line feed.\<close>

definition newline_terminated :: "string \<Rightarrow> bool" where
  "newline_terminated s \<longleftrightarrow> s = [] \<or> last s = CHR 0x0A"

lemma readlines_full:
  "newline_terminated s \<Longrightarrow> l \<in> set (readlines s) \<Longrightarrow> full_line l"
proof (induction s arbitrary: l)
  case (Cons c cs)
  show ?case
  proof (cases "c = CHR 0x0A")
    case True
    have "newline_terminated cs" using Cons.prems(1) by (auto simp: newline_terminated_def split: if_splits)
    with Cons True show ?thesis by (force simp: full_line_def)
  next
    case False
    with Cons.prems(1) have cs: "cs \<noteq> []" "newline_terminated cs"
      by (auto simp: newline_terminated_def split: if_splits)
    then obtain k ks where k: "readlines cs = k # ks"
      by (cases "readlines cs") (metis concat.simps(1) readlines_concat, blast)
    from Cons.IH [OF cs(2)] k have "full_line k" "\<forall>l \<in> set ks. full_line l" by auto
    moreover from this(1) False have "full_line (c # k)"
      unfolding full_line_def by (metis Cons_eq_appendI set_ConsD)
    ultimately show ?thesis using Cons.prems(2) k False by auto
  qed
qed simp

lemma replace_line_no_match:
  "\<forall>l \<in> set ls. \<not> sets_key key l \<Longrightarrow> replace_line key v ls = (ls, False)"
  by (induction ls) auto

lemma replace_line_match:
  "\<forall>l \<in> set pre. \<not> sets_key key l \<Longrightarrow> sets_key key l \<Longrightarrow>
   replace_line key v (pre @ l # post) = (pre @ setting_line key v # post, True)"
  by (induction pre) auto

lemma full_setting_line: "CHR 0x0A \<notin> set key \<Longrightarrow> CHR 0x0A \<notin> set v \<Longrightarrow> full_line (setting_line key v)"
  unfolding full_line_def setting_line_def by (intro exI [of _ "key @ ''='' @ v"]) auto

lemma line_value_setting: "CHR 0x0A \<notin> set v \<Longrightarrow> line_value key (setting_line key v) = Some v"
proof -
  assume "CHR 0x0A \<notin> set v"
  then have "\<forall>x \<in> set v. x \<noteq> CHR 0x0A" by auto
  then have "takeWhile (\<lambda>c. c \<noteq> CHR 0x0A) (v @ [CHR 0x0A]) = v" by simp
  then show ?thesis by (simp add: line_value_def setting_line_def starts_with_def)
qed

lemma readlines_append_unterminated:
  assumes "\<not> newline_terminated s" "CHR 0x0A \<notin> set b"
  shows "readlines (s @ b @ [CHR 0x0A]) =
    butlast (readlines s) @ [last (readlines s) @ b @ [CHR 0x0A]]"
  using assms(1)
proof (induction s)
  case (Cons c cs)
  have b: "readlines (b @ [CHR 0x0A]) = [b @ [CHR 0x0A]]" using readlines_line [OF assms(2), of "[]"] by simp
  show ?case
  proof (cases "cs = []")
    case True
    with Cons.prems b show ?thesis by (auto simp: newline_terminated_def)
  next
    case False
    then have cs: "\<not> newline_terminated cs" using Cons.prems by (auto simp: newline_terminated_def)
    obtain k ks where k: "readlines cs = k # ks"
      using False by (cases "readlines cs") (metis concat.simps(1) readlines_concat, blast)
    from Cons.IH [OF cs] k False show ?thesis by (cases ks) auto
  qed
qed (simp add: newline_terminated_def)

lemma env_update_append:
  assumes "\<forall>l \<in> set (readlines text). \<not> sets_key key l"
  shows "env_update key v (Some text) = text @ setting_line key v"
  using replace_line_no_match [OF assms] by (simp add: env_update_def)

text \<open>On a file that ends with a line feed, setting a key replaces the first line that sets it or has
  it commented out, or appends a line when there is none; every other line is kept as it is,
  and the new line reads back as the value.\<close>

theorem env_update_replaces_one_line:
  assumes "newline_terminated text" "CHR 0x0A \<notin> set key" "CHR 0x0A \<notin> set v"
  shows "((\<forall>l \<in> set (readlines text). \<not> sets_key key l) \<longrightarrow>
      readlines (env_update key v (Some text)) = readlines text @ [setting_line key v]) \<and>
    (\<forall>pre l post. readlines text = pre @ l # post \<longrightarrow> sets_key key l \<longrightarrow>
        (\<forall>k \<in> set pre. \<not> sets_key key k) \<longrightarrow>
      readlines (env_update key v (Some text)) = pre @ setting_line key v # post) \<and>
    env_update key v None = setting_line key v \<and>
    line_value key (setting_line key v) = Some v"
proof (intro conjI impI allI)
  have full: "full_line l" if "l \<in> set (readlines text)" for l
    using readlines_full [OF assms(1) that] .
  note sl = full_setting_line [OF assms(2,3)]
  show "readlines (env_update key v (Some text)) = readlines text @ [setting_line key v]"
    if "\<forall>l \<in> set (readlines text). \<not> sets_key key l"
    using full sl readlines_concat_lines [of "readlines text @ [setting_line key v]" "[]"]
    by (simp add: env_update_append [OF that] del: readlines_concat) (simp add: ball_Un)
  show "readlines (env_update key v (Some text)) = pre @ setting_line key v # post"
    if r: "readlines text = pre @ l # post" and "sets_key key l" "\<forall>k \<in> set pre. \<not> sets_key key k" for pre l post
  proof -
    have "\<forall>k \<in> set (pre @ setting_line key v # post). full_line k" using full sl r by auto
    from readlines_concat_lines [OF this, of "[]"] show ?thesis
      using replace_line_match [OF that(3,2), of v post] by (simp add: env_update_def r)
  qed
  show "env_update key v None = setting_line key v" by (simp add: env_update_def)
  show "line_value key (setting_line key v) = Some v" by (rule line_value_setting [OF assms(3)])
qed

theorem env_update_replaces_one_line_witness:
  "readlines (env_update ''K'' ''2'' (Some ''A=1\<newline>#K=1\<newline>'')) =
     [''A=1\<newline>''] @ setting_line ''K'' ''2'' # []"
proof -
  have t: "newline_terminated ''A=1\<newline>#K=1\<newline>''" by code_simp
  have r: "readlines ''A=1\<newline>#K=1\<newline>'' = [''A=1\<newline>''] @ ''#K=1\<newline>'' # []" by code_simp
  have k: "CHR 0x0A \<notin> set ''K''" "CHR 0x0A \<notin> set ''2''" by simp_all
  have s: "sets_key ''K'' ''#K=1\<newline>''" "\<forall>k \<in> set [''A=1\<newline>'']. \<not> sets_key ''K'' k" by code_simp+
  from env_update_replaces_one_line [OF t k] r s show ?thesis by blast
qed

text \<open>On a file whose last line lacks its line feed, a key not yet in the file is glued onto that
  line: no line for the key appears and the last setting of the file is corrupted.\<close>

theorem env_update_glues_last_line:
  assumes "\<not> newline_terminated text" "CHR 0x0A \<notin> set key" "CHR 0x0A \<notin> set v"
    and "\<forall>l \<in> set (readlines text). \<not> sets_key key l"
  shows "readlines (env_update key v (Some text)) =
    butlast (readlines text) @ [last (readlines text) @ setting_line key v]"
  using readlines_append_unterminated [OF assms(1), of "key @ ''='' @ v"] assms(2,3)
  by (simp add: env_update_append [OF assms(4)] setting_line_def)

theorem env_update_glues_last_line_witness:
  "readlines (env_update ''RISK_SCORE_THRESHOLD'' ''70'' (Some ''DB=x'')) =
     [''DB=x'' @ setting_line ''RISK_SCORE_THRESHOLD'' ''70''] \<and>
   env_value ''RISK_SCORE_THRESHOLD'' (env_update ''RISK_SCORE_THRESHOLD'' ''70'' (Some ''DB=x'')) = None"
proof -
  have n: "\<not> newline_terminated ''DB=x''" by code_simp
  have r: "readlines ''DB=x'' = [''DB=x'']" by code_simp
  have k: "CHR 0x0A \<notin> set ''RISK_SCORE_THRESHOLD''" "CHR 0x0A \<notin> set ''70''" by simp_all
  have m: "\<forall>l \<in> set (readlines ''DB=x''). \<not> sets_key ''RISK_SCORE_THRESHOLD'' l" by code_simp
  have "env_value ''RISK_SCORE_THRESHOLD'' (env_update ''RISK_SCORE_THRESHOLD'' ''70'' (Some ''DB=x'')) = None"
    by code_simp
  with env_update_glues_last_line [OF n k m] r show ?thesis by simp
qed

end
