(* ===== verification/Governance.thy ===== *)
theory Governance
  imports Settings_Reloader Lifecycle
begin

text \<open>
  \<open>GovernanceEngine\<close> and the legacy shim of \<open>detection/governance.py\<close>, with the two functions
  of \<open>detection/model_registry.py\<close> it calls: proposals, votes, sign-offs, execution.

  A payload is its JSON object with text values, a missing key being \<open>None\<close>. The two ways a
  statement inside \<open>execute_proposal\<close> can fail at run time (the \<open>.env\<close> file, the
  \<open>runtime_config\<close> row) are arguments. The digest of an approval chain (SHA-256 of its sorted
  JSON) is an argument. Each method is one step, except that \<open>close_proposal\<close>, which uses two
  connections, is split at the point where another caller can come in.
\<close>

datatype proposal_type = Config_change | Committee_update | Model_promotion

datatype proposal_status = Active | Passed | Rejected | Executed | Failed

datatype decision = For | Against | Abstain

type_synonym gpayload = "string \<rightharpoonup> string"

datatype exec_error =
    Key_error string | Setting_error setting_error | Runtime_write_error string
  | Unknown_action string | Version_not_found string string

record proposal =
  gp_id :: nat
  gp_type :: proposal_type
  gp_payload :: gpayload
  gp_proposer :: string
  gp_status :: proposal_status
  gp_submitted_at :: time
  gp_voting_ends_at :: time
  gp_executed_at :: "time option"
  gp_execution_error :: "exec_error option"

record gvote =
  gv_id :: nat
  gv_proposal :: nat
  gv_voter :: string
  gv_decision :: decision
  gv_cast_at :: time

record signoff =
  gs_id :: nat
  gs_proposal :: nat
  gs_role :: string
  gs_signer :: string
  gs_evidence :: "(string \<times> string) list"
  gs_signed_at :: time

record committee_member =
  cm_member :: string
  cm_added_at :: time
  cm_active :: bool

record chain_record =
  ch_proposal_id :: nat
  ch_type :: proposal_type
  ch_payload :: gpayload
  ch_proposer :: string
  ch_submitted_at :: time
  ch_status :: proposal_status
  ch_votes :: "gvote list"
  ch_signoffs :: "signoff list"
  ch_missing_roles :: "string list"
  ch_missing_evidence :: "string list"
  ch_executed_at :: "time option"

record approval_record =
  ar_chain :: chain_record
  ar_sha256 :: string
  ar_recorded_at :: time

record tally_result =
  ta_for :: nat
  ta_against :: nat
  ta_abstain :: nat
  ta_committee_size :: nat
  ta_quorum_required :: nat
  ta_quorum_met :: bool
  ta_outcome :: proposal_status

record gov =
  proposals :: "proposal table"
  votes :: "gvote table"
  committee :: "committee_member list"
  signoffs :: "signoff table"
  approval_records :: "nat \<rightharpoonup> approval_record"
  runtime_config :: "string \<rightharpoonup> string \<times> time"
  gov_config :: config_state
  model_files :: "string list option"
  latest_version :: "string \<rightharpoonup> string"

datatype gov_error =
    Invalid_proposal_type string | Bad_model_promotion | Setting_not_modifiable string
  | Proposer_not_member string | Invalid_decision string | Voter_not_member string
  | Proposal_not_found nat | Proposal_not_active nat | Voting_expired nat | Voter_has_voted string
  | Signoffs_closed nat | Role_not_in_policy string | Signer_not_member string
  | Proposer_signs_own_change | Already_signed | Not_executable nat
  | Approvals_missing "string list" "string list" | Integrity_error | Invalid_legacy_type string
  | Invalid_legacy_vote | Key_missing string

subsection \<open>Policies\<close>

definition policy_roles :: "proposal_type \<Rightarrow> string list" where
  "policy_roles ty =
     (case ty of
        Config_change \<Rightarrow> [''compliance_officer'', ''risk_owner'']
      | Model_promotion \<Rightarrow> [''compliance_officer'', ''independent_validator'', ''model_owner'']
      | Committee_update \<Rightarrow> [])"

definition policy_evidence :: "proposal_type \<Rightarrow> string list" where
  "policy_evidence ty =
     (case ty of
        Config_change \<Rightarrow> [''impact_analysis'']
      | Model_promotion \<Rightarrow> [''backtest_report'', ''red_team_report'', ''robustness_report'']
      | Committee_update \<Rightarrow> [])"

definition proposal_type_of :: "string \<Rightarrow> proposal_type option" where
  "proposal_type_of s =
     (if s = ''config_change'' then Some Config_change
      else if s = ''model_promotion'' then Some Model_promotion
      else if s = ''committee_update'' then Some Committee_update else None)"

definition VOTING_PERIOD_HOURS :: int where "VOTING_PERIOD_HOURS = 72"

definition hours :: "int \<Rightarrow> time" where "hours h = h * 3600000000"

text \<open>\<open>^[a-z0-9_]+$\<close> with \<open>re.match\<close>: the dollar also matches before a final line feed.\<close>

definition name_char :: "char \<Rightarrow> bool" where
  "name_char c \<longleftrightarrow> (let n = of_char c :: nat in
     (97 \<le> n \<and> n \<le> 122) \<or> (48 \<le> n \<and> n \<le> 57) \<or> n = 95)"

definition model_name_ok :: "string \<Rightarrow> bool" where
  "model_name_ok s =
     (let b = (if s \<noteq> [] \<and> last s = CHR 0x0A then butlast s else s) in b \<noteq> [] \<and> list_all name_char b)"

subsection \<open>Model registry\<close>

definition ends_with :: "string \<Rightarrow> string \<Rightarrow> bool" where
  "ends_with s p \<longleftrightarrow> starts_with (rev s) (rev p)"

definition list_model_versions :: "string \<Rightarrow> gov \<Rightarrow> string list" where
  "list_model_versions name g =
     (case model_files g of
        None \<Rightarrow> []
      | Some names \<Rightarrow>
          let pattern = name @ ''_v'' in
          rev (sort (map (\<lambda>f. drop (length pattern) (take (length f - length ''.joblib'') f))
            (filter (\<lambda>f. starts_with f pattern \<and> ends_with f ''.joblib'') names))))"

definition rollback_model :: "string \<Rightarrow> string \<Rightarrow> gov \<Rightarrow> gov" where
  "rollback_model name previous_version g =
     g\<lparr>latest_version := (latest_version g)(name \<mapsto> previous_version)\<rparr>"

subsection \<open>Proposals and votes\<close>

definition committee_size :: "gov \<Rightarrow> nat" where
  "committee_size g = length (filter cm_active (committee g))"

definition is_committee_member :: "gov \<Rightarrow> string \<Rightarrow> bool" where
  "is_committee_member g m \<longleftrightarrow> (\<exists>r \<in> set (committee g). cm_member r = m \<and> cm_active r)"

definition proposal_row :: "gov \<Rightarrow> nat \<Rightarrow> proposal option" where
  "proposal_row g i = sql_fetchone (\<lambda>r. gp_id r = i) (proposals g)"

definition new_proposal ::
  "proposal_type \<times> gpayload \<times> string \<times> time \<times> time \<Rightarrow> nat \<Rightarrow> proposal" where
  "new_proposal x n = (case x of (ty, payload, proposer, now, ends) \<Rightarrow>
     \<lparr>gp_id = n, gp_type = ty, gp_payload = payload, gp_proposer = proposer, gp_status = Active,
      gp_submitted_at = now, gp_voting_ends_at = ends, gp_executed_at = None,
      gp_execution_error = None\<rparr>)"

definition payload_get :: "gpayload \<Rightarrow> string \<Rightarrow> string" where
  "payload_get p k = (case p k of None \<Rightarrow> '''' | Some v \<Rightarrow> v)"

definition submit_proposal ::
  "int \<Rightarrow> time \<Rightarrow> string \<Rightarrow> string \<Rightarrow> gpayload \<Rightarrow> gov \<Rightarrow> gov_error + (gov \<times> proposal)" where
  "submit_proposal voting_hours now proposer type_name payload g =
     (case proposal_type_of type_name of
        None \<Rightarrow> Inl (Invalid_proposal_type type_name)
      | Some ty \<Rightarrow>
        if ty = Model_promotion \<and>
           (\<not> model_name_ok (payload_get payload ''model_name'') \<or> payload_get payload ''version'' = '''')
        then Inl Bad_model_promotion
        else if ty = Config_change \<and> payload_get payload ''key'' \<notin> set ALLOWED_SETTINGS
        then Inl (Setting_not_modifiable (payload_get payload ''key''))
        else if \<not> is_committee_member g proposer then Inl (Proposer_not_member proposer)
        else
          let x = (ty, payload, proposer, now, now + hours voting_hours);
              t' = sql_insert (new_proposal x) (proposals g)
          in Inr (g\<lparr>proposals := t'\<rparr>, new_proposal x (last_insert_rowid t')))"

definition decision_of :: "string \<Rightarrow> decision option" where
  "decision_of s = (if s = ''for'' then Some For else if s = ''against'' then Some Against
     else if s = ''abstain'' then Some Abstain else None)"

definition new_gvote :: "nat \<times> string \<times> decision \<times> time \<Rightarrow> nat \<Rightarrow> gvote" where
  "new_gvote x n = (case x of (i, voter, d, now) \<Rightarrow>
     \<lparr>gv_id = n, gv_proposal = i, gv_voter = voter, gv_decision = d, gv_cast_at = now\<rparr>)"

definition cast_gvote ::
  "time \<Rightarrow> nat \<Rightarrow> string \<Rightarrow> string \<Rightarrow> gov \<Rightarrow> gov_error + (gov \<times> gvote)" where
  "cast_gvote now i voter decision g =
     (case decision_of decision of
        None \<Rightarrow> Inl (Invalid_decision decision)
      | Some d \<Rightarrow>
        if \<not> is_committee_member g voter then Inl (Voter_not_member voter)
        else (case proposal_row g i of
          None \<Rightarrow> Inl (Proposal_not_found i)
        | Some row \<Rightarrow>
          if gp_status row \<noteq> Active then Inl (Proposal_not_active i)
          else if gp_voting_ends_at row < now then Inl (Voting_expired i)
          else if sql_fetchone (\<lambda>v. gv_proposal v = i \<and> gv_voter v = voter) (votes g) \<noteq> None
          then Inl (Voter_has_voted voter)
          else
            let t' = sql_insert (new_gvote (i, voter, d, now)) (votes g)
            in Inr (g\<lparr>votes := t'\<rparr>, new_gvote (i, voter, d, now) (last_insert_rowid t'))))"

definition count_votes :: "gov \<Rightarrow> nat \<Rightarrow> decision \<Rightarrow> nat" where
  "count_votes g i d = sql_rowcount (\<lambda>v. gv_proposal v = i \<and> gv_decision v = d) (votes g)"

text \<open>\<open>math.floor(committee_size * 0.5) + 1\<close>.\<close>

definition quorum_required :: "nat \<Rightarrow> nat" where
  "quorum_required n = n div 2 + 1"

definition tally :: "gov \<Rightarrow> nat \<Rightarrow> tally_result" where
  "tally g i =
     (let met = quorum_required (committee_size g) \<le> count_votes g i For in
      \<lparr>ta_for = count_votes g i For, ta_against = count_votes g i Against,
       ta_abstain = count_votes g i Abstain, ta_committee_size = committee_size g,
       ta_quorum_required = quorum_required (committee_size g), ta_quorum_met = met,
       ta_outcome = (if met then Passed else Rejected)\<rparr>)"

definition tally_proposal :: "nat \<Rightarrow> gov \<Rightarrow> gov_error + tally_result" where
  "tally_proposal i g = (case proposal_row g i of None \<Rightarrow> Inl (Proposal_not_found i) | Some _ \<Rightarrow> Inr (tally g i))"

subsection \<open>Sign-offs and the approval chain\<close>

definition new_signoff ::
  "nat \<times> string \<times> string \<times> (string \<times> string) list \<times> time \<Rightarrow> nat \<Rightarrow> signoff" where
  "new_signoff x n = (case x of (i, role, signer, evidence, now) \<Rightarrow>
     \<lparr>gs_id = n, gs_proposal = i, gs_role = role, gs_signer = signer, gs_evidence = evidence,
      gs_signed_at = now\<rparr>)"

text \<open>The two \<open>UNIQUE\<close> constraints make the insert fail.\<close>

definition record_signoff ::
  "time \<Rightarrow> nat \<Rightarrow> string \<Rightarrow> string \<Rightarrow> (string \<times> string) list \<Rightarrow> gov \<Rightarrow> gov_error + (gov \<times> signoff)" where
  "record_signoff now i signer role evidence g =
     (let ev = filter (\<lambda>(k, v). v \<noteq> '''') evidence in
      case proposal_row g i of
        None \<Rightarrow> Inl (Proposal_not_found i)
      | Some row \<Rightarrow>
        if gp_status row \<notin> {Active, Passed} then Inl (Signoffs_closed i)
        else if role \<notin> set (policy_roles (gp_type row)) then Inl (Role_not_in_policy role)
        else if \<not> is_committee_member g signer then Inl (Signer_not_member signer)
        else if signer = gp_proposer row then Inl Proposer_signs_own_change
        else if sql_fetchone (\<lambda>s. gs_proposal s = i \<and> (gs_role s = role \<or> gs_signer s = signer))
                  (signoffs g) \<noteq> None then Inl Already_signed
        else
          let t' = sql_insert (new_signoff (i, role, signer, ev, now)) (signoffs g)
          in Inr (g\<lparr>signoffs := t'\<rparr>, new_signoff (i, role, signer, ev, now) (last_insert_rowid t')))"

definition build_approval_chain :: "gov \<Rightarrow> proposal \<Rightarrow> chain_record" where
  "build_approval_chain g row =
     (let sos = sql_select (\<lambda>s. gs_proposal s = gp_id row) (signoffs g);
          kinds = concat (map (map fst \<circ> gs_evidence) sos) in
      \<lparr>ch_proposal_id = gp_id row, ch_type = gp_type row, ch_payload = gp_payload row,
       ch_proposer = gp_proposer row, ch_submitted_at = gp_submitted_at row, ch_status = gp_status row,
       ch_votes = sql_select (\<lambda>v. gv_proposal v = gp_id row) (votes g), ch_signoffs = sos,
       ch_missing_roles = filter (\<lambda>r. r \<notin> set (map gs_role sos)) (policy_roles (gp_type row)),
       ch_missing_evidence = filter (\<lambda>k. k \<notin> set kinds) (policy_evidence (gp_type row)),
       ch_executed_at = None\<rparr>)"

definition approval_chain :: "nat \<Rightarrow> gov \<Rightarrow> gov_error + chain_record" where
  "approval_chain i g = (case proposal_row g i of
     None \<Rightarrow> Inl (Proposal_not_found i) | Some row \<Rightarrow> Inr (build_approval_chain g row))"

definition recorded_approval :: "nat \<Rightarrow> gov \<Rightarrow> approval_record option" where
  "recorded_approval i g = approval_records g i"

text \<open>\<open>ORDER BY executed_at DESC, id DESC\<close>, then the first whose payload names the target.\<close>

definition live_change_approval ::
  "proposal_type \<Rightarrow> string \<Rightarrow> gov \<Rightarrow> gov_error + approval_record option" where
  "live_change_approval ty target g =
     (if ty = Committee_update then Inl (Key_missing ''committee_update'')
      else
        let field = (if ty = Config_change then ''key'' else ''model_name'');
            rows = sort_key (\<lambda>r. - (case gp_executed_at r of None \<Rightarrow> 0 | Some t \<Rightarrow> t))
              (rev (sql_select (\<lambda>r. gp_type r = ty \<and> gp_status r = Executed) (proposals g)))
        in case find (\<lambda>r. gp_payload r field = Some target) rows of
             None \<Rightarrow> Inr None
           | Some row \<Rightarrow> Inr (recorded_approval (gp_id row) g))"

subsection \<open>Closing\<close>

definition set_status :: "nat \<Rightarrow> proposal_status \<Rightarrow> gov \<Rightarrow> gov" where
  "set_status i st g =
     g\<lparr>proposals := sql_update (\<lambda>r. gp_id r = i) (\<lambda>r. r\<lparr>gp_status := st\<rparr>) (proposals g)\<rparr>"

text \<open>
  \<open>close_proposal\<close> reads the row and tallies, then a second connection writes the outcome without
  looking at the status again: \<open>close_check\<close> is the first half (\<open>Inr None\<close>: already closed,
  nothing to write), \<open>close_commit\<close> the second.
\<close>

definition close_check :: "nat \<Rightarrow> gov \<Rightarrow> gov_error + proposal_status option" where
  "close_check i g =
     (case proposal_row g i of
        None \<Rightarrow> Inl (Proposal_not_found i)
      | Some row \<Rightarrow>
          if gp_status row \<noteq> Active then Inr None
          else (case tally_proposal i g of Inl e \<Rightarrow> Inl e | Inr ta \<Rightarrow> Inr (Some (ta_outcome ta))))"

definition close_commit :: "nat \<Rightarrow> proposal_status \<Rightarrow> gov \<Rightarrow> gov" where
  "close_commit i outcome g = set_status i outcome g"

definition close_proposal :: "nat \<Rightarrow> gov \<Rightarrow> gov_error + gov" where
  "close_proposal i g =
     (case close_check i g of
        Inl e \<Rightarrow> Inl e
      | Inr None \<Rightarrow> Inr g
      | Inr (Some outcome) \<Rightarrow> Inr (close_commit i outcome g))"

definition close_expired :: "time \<Rightarrow> gov \<Rightarrow> gov \<times> nat list" where
  "close_expired now g =
     fold (\<lambda>row (g', closed).
        if gp_voting_ends_at row < now then
          (case close_proposal (gp_id row) g' of
             Inl _ \<Rightarrow> (g', closed) | Inr g'' \<Rightarrow> (g'', closed @ [gp_id row]))
        else (g', closed))
      (sql_select (\<lambda>r. gp_status r = Active) (proposals g)) (g, [])"

subsection \<open>Execution\<close>

definition insert_or_ignore_member :: "time \<Rightarrow> string \<Rightarrow> committee_member list \<Rightarrow> committee_member list" where
  "insert_or_ignore_member now m rows =
     (if m \<in> cm_member ` set rows then rows
      else rows @ [\<lparr>cm_member = m, cm_added_at = now, cm_active = True\<rparr>])"

definition set_member_active :: "string \<Rightarrow> bool \<Rightarrow> committee_member list \<Rightarrow> committee_member list" where
  "set_member_active m active rows =
     map (\<lambda>r. if cm_member r = m then r\<lparr>cm_active := active\<rparr> else r) rows"

record exec_faults =
  env_fault :: "string option"
  runtime_fault :: "string option"

text \<open>The body of the \<open>try\<close>: what it has done to the state, and the exception it ended with.\<close>

definition run_config_change :: "exec_faults \<Rightarrow> time \<Rightarrow> gpayload \<Rightarrow> gov \<Rightarrow> gov \<times> exec_error option" where
  "run_config_change faults now payload g =
     (case payload ''key'' of
        None \<Rightarrow> (g, Some (Key_error ''key''))
      | Some key \<Rightarrow>
        (case payload ''new_value'' of
           None \<Rightarrow> (g, Some (Key_error ''new_value''))
         | Some new_value \<Rightarrow>
           (case apply_setting (env_fault faults) key new_value (gov_config g) of
              (c, Some e) \<Rightarrow> (g\<lparr>gov_config := c\<rparr>, Some (Setting_error e))
            | (c, None) \<Rightarrow>
                (case runtime_fault faults of
                   Some e \<Rightarrow> (g\<lparr>gov_config := c\<rparr>, Some (Runtime_write_error e))
                 | None \<Rightarrow>
                     (g\<lparr>gov_config := c,
                        runtime_config := (runtime_config g)(lower key \<mapsto> (new_value, now))\<rparr>, None)))))"

definition run_committee_update :: "time \<Rightarrow> gpayload \<Rightarrow> gov \<Rightarrow> gov \<times> exec_error option" where
  "run_committee_update now payload g =
     (case payload ''action'' of
        None \<Rightarrow> (g, Some (Key_error ''action''))
      | Some action \<Rightarrow>
        (case payload ''member'' of
           None \<Rightarrow> (g, Some (Key_error ''member''))
         | Some member \<Rightarrow>
             if action = ''add'' then
               (g\<lparr>committee := set_member_active member True
                    (insert_or_ignore_member now member (committee g))\<rparr>, None)
             else if action = ''remove'' then
               (g\<lparr>committee := set_member_active member False (committee g)\<rparr>, None)
             else (g, Some (Unknown_action action))))"

definition run_model_promotion :: "gpayload \<Rightarrow> gov \<Rightarrow> gov \<times> exec_error option" where
  "run_model_promotion payload g =
     (case payload ''model_name'' of
        None \<Rightarrow> (g, Some (Key_error ''model_name''))
      | Some name \<Rightarrow>
        (case payload ''version'' of
           None \<Rightarrow> (g, Some (Key_error ''version''))
         | Some version \<Rightarrow>
             if version \<notin> set (list_model_versions name g)
             then (g, Some (Version_not_found name version))
             else (rollback_model name version g, None)))"

definition run_change :: "exec_faults \<Rightarrow> time \<Rightarrow> proposal \<Rightarrow> gov \<Rightarrow> gov \<times> exec_error option" where
  "run_change faults now row g =
     (case gp_type row of
        Config_change \<Rightarrow> run_config_change faults now (gp_payload row) g
      | Committee_update \<Rightarrow> run_committee_update now (gp_payload row) g
      | Model_promotion \<Rightarrow> run_model_promotion (gp_payload row) g)"

text \<open>
  The database part of a failed call is rolled back when the connection closes; the live settings,
  the \<open>.env\<close> file and the model pointer are outside the transaction.
\<close>

definition rolled_back :: "gov \<Rightarrow> gov \<Rightarrow> gov" where
  "rolled_back g0 g = g0\<lparr>gov_config := gov_config g, latest_version := latest_version g\<rparr>"

definition execute_proposal ::
  "(chain_record \<Rightarrow> string) \<Rightarrow> exec_faults \<Rightarrow> time \<Rightarrow> nat \<Rightarrow> gov \<Rightarrow> gov \<times> (gov_error + proposal)" where
  "execute_proposal digest faults now i g =
     (case proposal_row g i of
        None \<Rightarrow> (g, Inl (Proposal_not_found i))
      | Some row \<Rightarrow>
        if gp_status row \<noteq> Passed then (g, Inl (Not_executable i))
        else
          let chain = build_approval_chain g row in
          if ch_missing_roles chain \<noteq> [] \<or> ch_missing_evidence chain \<noteq> []
          then (g, Inl (Approvals_missing (ch_missing_roles chain) (ch_missing_evidence chain)))
          else
            (case run_change faults now row g of
               (g1, None) \<Rightarrow>
                 let upd = (\<lambda>r. r\<lparr>gp_status := Executed, gp_executed_at := Some now\<rparr>);
                     chain' = chain\<lparr>ch_status := Executed, ch_executed_at := Some now\<rparr> in
                 if approval_records g1 i \<noteq> None then (rolled_back g g1, Inl Integrity_error)
                 else (g1\<lparr>proposals := sql_update (\<lambda>r. gp_id r = i) upd (proposals g1),
                         approval_records := (approval_records g1)(i \<mapsto>
                           \<lparr>ar_chain = chain', ar_sha256 = digest chain', ar_recorded_at = now\<rparr>)\<rparr>,
                       Inr (upd row))
             | (g1, Some e) \<Rightarrow>
                 let upd = (\<lambda>r. r\<lparr>gp_status := Failed, gp_executed_at := Some now,
                                  gp_execution_error := Some e\<rparr>)
                 in (g1\<lparr>proposals := sql_update (\<lambda>r. gp_id r = i) upd (proposals g1)\<rparr>, Inr (upd row))))"

subsection \<open>The legacy entry points\<close>

definition legacy_payload :: "string \<Rightarrow> string \<Rightarrow> (string \<times> gpayload) option" where
  "legacy_payload ty v =
     (if ty = ''change_threshold''
      then Some (''config_change'', [''key'' \<mapsto> ''RISK_SCORE_THRESHOLD'', ''new_value'' \<mapsto> v])
      else if ty = ''add_committee_member''
      then Some (''committee_update'', [''action'' \<mapsto> ''add'', ''member'' \<mapsto> v])
      else if ty = ''remove_committee_member''
      then Some (''committee_update'', [''action'' \<mapsto> ''remove'', ''member'' \<mapsto> v])
      else None)"

text \<open>Both return the state as well when they fail: the committee insert is committed first.\<close>

definition create_proposal ::
  "time \<Rightarrow> string \<Rightarrow> string \<Rightarrow> string \<Rightarrow> int \<Rightarrow> gov \<Rightarrow> gov \<times> (gov_error + proposal)" where
  "create_proposal now ty v key_hash days_valid g =
     (case legacy_payload ty v of
        None \<Rightarrow> (g, Inl (Invalid_legacy_type ty))
      | Some (pt, payload) \<Rightarrow>
          let g1 = g\<lparr>committee := insert_or_ignore_member now key_hash (committee g)\<rparr> in
          (case submit_proposal (days_valid * 24) now key_hash pt payload g1 of
             Inl e \<Rightarrow> (g1, Inl e)
           | Inr (g2, p) \<Rightarrow> (g2, Inr p)))"

definition list_open_proposals :: "gov \<Rightarrow> (nat \<times> proposal_type \<times> string \<times> string \<times> time \<times> time) list" where
  "list_open_proposals g =
     map (\<lambda>r. (gp_id r, gp_type r,
            (case gp_payload r ''new_value'' of Some v \<Rightarrow> v | None \<Rightarrow> payload_get (gp_payload r) ''member''),
            gp_proposer r, gp_submitted_at r, gp_voting_ends_at r))
       (sql_select (\<lambda>r. gp_status r = Active) (proposals g))"

definition cast_proposal_vote ::
  "time \<Rightarrow> nat \<Rightarrow> string \<Rightarrow> string \<Rightarrow> gov \<Rightarrow> gov \<times> (gov_error + string list \<times> string list)" where
  "cast_proposal_vote now i key_hash vote g =
     (if vote \<noteq> ''for'' \<and> vote \<noteq> ''against'' then (g, Inl Invalid_legacy_vote)
      else
        let g1 = g\<lparr>committee := insert_or_ignore_member now key_hash (committee g)\<rparr> in
        (case cast_gvote now i key_hash vote g1 of
           Inl e \<Rightarrow> (g1, Inl e)
         | Inr (g2, v) \<Rightarrow>
             (g2, Inr (map gv_voter (sql_select (\<lambda>v. gv_proposal v = i \<and> gv_decision v = For) (votes g2)),
                       map gv_voter (sql_select (\<lambda>v. gv_proposal v = i \<and> gv_decision v = Against) (votes g2))))))"

interpretation gp_rows: autoinc_rows gp_id new_proposal
  by unfold_locales (simp add: new_proposal_def split: prod.splits)

interpretation gv_rows: autoinc_rows gv_id new_gvote
  by unfold_locales (simp add: new_gvote_def split: prod.splits)

interpretation gs_rows: autoinc_rows gs_id new_signoff
  by unfold_locales (simp add: new_signoff_def split: prod.splits)

subsection \<open>How an operation changes proposals, votes, sign-offs and records\<close>

datatype gov_op =
    Submit_op int time string string gpayload
  | Vote_op time nat string string
  | Signoff_op time nat string string "(string \<times> string) list"
  | Close_op nat
  | Execute_op exec_faults time nat
  | Legacy_create_op time string string string int
  | Legacy_vote_op time nat string string

definition ok_state :: "gov \<Rightarrow> gov_error + (gov \<times> 'a) \<Rightarrow> gov" where
  "ok_state g res = (case res of Inl _ \<Rightarrow> g | Inr (g', _) \<Rightarrow> g')"

definition gov_step :: "(chain_record \<Rightarrow> string) \<Rightarrow> gov_op \<Rightarrow> gov \<Rightarrow> gov" where
  "gov_step digest op g =
     (case op of
        Submit_op h now who ty payload \<Rightarrow> ok_state g (submit_proposal h now who ty payload g)
      | Vote_op now i voter d \<Rightarrow> ok_state g (cast_gvote now i voter d g)
      | Signoff_op now i signer role ev \<Rightarrow> ok_state g (record_signoff now i signer role ev g)
      | Close_op i \<Rightarrow> (case close_proposal i g of Inl _ \<Rightarrow> g | Inr g' \<Rightarrow> g')
      | Execute_op faults now i \<Rightarrow> fst (execute_proposal digest faults now i g)
      | Legacy_create_op now ty v who days \<Rightarrow> fst (create_proposal now ty v who days g)
      | Legacy_vote_op now i who v \<Rightarrow> fst (cast_proposal_vote now i who v g))"

definition core :: "gov \<Rightarrow> proposal table \<times> gvote table \<times> signoff table \<times> (nat \<rightharpoonup> approval_record)" where
  "core g = (proposals g, votes g, signoffs g, approval_records g)"

definition fully_approved :: "gov \<Rightarrow> proposal \<Rightarrow> bool" where
  "fully_approved g row \<longleftrightarrow> ch_missing_roles (build_approval_chain g row) = [] \<and>
     ch_missing_evidence (build_approval_chain g row) = []"

lemma run_config_change_core: "core (fst (run_config_change faults now payload g)) = core g"
  by (simp add: run_config_change_def core_def split: option.split prod.split)

lemma run_change_core: "core (fst (run_change faults now row g)) = core g"
  using run_config_change_core
  by (auto simp: run_change_def run_committee_update_def run_model_promotion_def core_def rollback_model_def
      split: proposal_type.split option.split)

text \<open>The cases of a step, on the core of the state.\<close>

inductive core_step :: "(chain_record \<Rightarrow> string) \<Rightarrow> gov \<Rightarrow> gov \<Rightarrow> bool" for digest g g' where
  quiet: "core g' = core g \<Longrightarrow> core_step digest g g'"
| submitted: "core g' = (sql_insert (new_proposal x) (proposals g), votes g, signoffs g, approval_records g) \<Longrightarrow>
    core_step digest g g'"
| voted: "sql_fetchone (\<lambda>v. gv_proposal v = i \<and> gv_voter v = voter) (votes g) = None \<Longrightarrow>
    core g' = (proposals g, sql_insert (new_gvote (i, voter, d, now)) (votes g), signoffs g, approval_records g) \<Longrightarrow>
    core_step digest g g'"
| signed: "proposal_row g i = Some row \<Longrightarrow> gp_status row \<in> {Active, Passed} \<Longrightarrow>
    role \<in> set (policy_roles (gp_type row)) \<Longrightarrow> signer \<noteq> gp_proposer row \<Longrightarrow>
    sql_fetchone (\<lambda>s. gs_proposal s = i \<and> (gs_role s = role \<or> gs_signer s = signer)) (signoffs g) = None \<Longrightarrow>
    core g' = (proposals g, votes g, sql_insert (new_signoff (i, role, signer, ev, now)) (signoffs g), approval_records g) \<Longrightarrow>
    core_step digest g g'"
| closed: "proposal_row g i = Some row \<Longrightarrow> gp_status row = Active \<Longrightarrow> outcome = ta_outcome (tally g i) \<Longrightarrow>
    core g' = (sql_update (\<lambda>r. gp_id r = i) (\<lambda>r. r\<lparr>gp_status := outcome\<rparr>) (proposals g),
      votes g, signoffs g, approval_records g) \<Longrightarrow>
    core_step digest g g'"
| executed: "proposal_row g i = Some row \<Longrightarrow> gp_status row = Passed \<Longrightarrow> fully_approved g row \<Longrightarrow>
    chain = (build_approval_chain g row)\<lparr>ch_status := Executed, ch_executed_at := Some now\<rparr> \<Longrightarrow>
    core g' = (sql_update (\<lambda>r. gp_id r = i) (\<lambda>r. r\<lparr>gp_status := Executed, gp_executed_at := Some now\<rparr>) (proposals g),
      votes g, signoffs g, (approval_records g)(i \<mapsto>
        \<lparr>ar_chain = chain, ar_sha256 = digest chain, ar_recorded_at = now\<rparr>)) \<Longrightarrow>
    core_step digest g g'"
| failed: "proposal_row g i = Some row \<Longrightarrow> gp_status row = Passed \<Longrightarrow>
    core g' = (sql_update (\<lambda>r. gp_id r = i) (\<lambda>r. r\<lparr>gp_status := Failed, gp_executed_at := Some now,
        gp_execution_error := Some e\<rparr>) (proposals g), votes g, signoffs g, approval_records g) \<Longrightarrow>
    core_step digest g g'"

lemma submit_core:
  assumes "core g1 = core g" shows "core_step digest g (ok_state g1 (submit_proposal h now who ty payload g1))"
proof (cases "submit_proposal h now who ty payload g1")
  case (Inl e)
  with assms show ?thesis by (simp add: ok_state_def core_step.quiet)
next
  case (Inr res)
  then obtain x where "ok_state g1 (submit_proposal h now who ty payload g1) =
      g1\<lparr>proposals := sql_insert (new_proposal x) (proposals g1)\<rparr>"
    by (auto simp: submit_proposal_def Let_def ok_state_def split: option.splits if_splits)
  with assms show ?thesis by (simp add: core_step.submitted [of _ x] core_def)
qed

lemma vote_core:
  assumes "core g1 = core g" shows "core_step digest g (ok_state g1 (cast_gvote now i voter d g1))"
proof (cases "cast_gvote now i voter d g1")
  case (Inl e)
  with assms show ?thesis by (simp add: ok_state_def core_step.quiet)
next
  case (Inr res)
  then obtain dc where "ok_state g1 (cast_gvote now i voter d g1) =
      g1\<lparr>votes := sql_insert (new_gvote (i, voter, dc, now)) (votes g1)\<rparr>"
      "sql_fetchone (\<lambda>v. gv_proposal v = i \<and> gv_voter v = voter) (votes g1) = None"
    by (auto simp: cast_gvote_def Let_def ok_state_def split: option.splits if_splits)
  with assms show ?thesis by (simp add: core_step.voted [of i voter _ _ dc now] core_def)
qed

lemma signoff_core: "core_step digest g (ok_state g (record_signoff now i signer role ev g))"
proof (cases "record_signoff now i signer role ev g")
  case (Inl e)
  then show ?thesis by (simp add: ok_state_def core_step.quiet)
next
  case (Inr res)
  define ev' where "ev' = filter (\<lambda>(k, v). v \<noteq> '''') ev"
  from Inr obtain row where row: "proposal_row g i = Some row" "gp_status row \<in> {Active, Passed}"
      "role \<in> set (policy_roles (gp_type row))" "signer \<noteq> gp_proposer row"
      "sql_fetchone (\<lambda>s. gs_proposal s = i \<and> (gs_role s = role \<or> gs_signer s = signer)) (signoffs g) = None"
      "ok_state g (record_signoff now i signer role ev g) =
        g\<lparr>signoffs := sql_insert (new_signoff (i, role, signer, ev', now)) (signoffs g)\<rparr>"
    unfolding record_signoff_def Let_def ev'_def [symmetric]
    by (auto simp: ok_state_def split: option.splits if_splits)
  from core_step.signed [OF row(1-5)] row(6) show ?thesis by (simp add: core_def)
qed

lemma close_core: "core_step digest g (case close_proposal i g of Inl _ \<Rightarrow> g | Inr g' \<Rightarrow> g')"
proof (cases "proposal_row g i")
  case None
  then show ?thesis by (simp add: close_proposal_def close_check_def core_step.quiet)
next
  case (Some row)
  show ?thesis
  proof (cases "gp_status row = Active")
    case True
    from core_step.closed [OF Some True refl] show ?thesis
      using Some True
      by (simp add: close_proposal_def close_check_def tally_proposal_def close_commit_def set_status_def core_def)
  next
    case False
    with Some show ?thesis by (simp add: close_proposal_def close_check_def core_step.quiet)
  qed
qed

lemma execute_core: "core_step digest g (fst (execute_proposal digest faults now i g))"
proof (cases "proposal_row g i")
  case None
  then show ?thesis by (simp add: execute_proposal_def core_step.quiet)
next
  case (Some row)
  let ?chain = "build_approval_chain g row"
  consider "gp_status row \<noteq> Passed" | "gp_status row = Passed" "\<not> fully_approved g row"
    | "gp_status row = Passed" "fully_approved g row" by blast
  then show ?thesis
  proof cases
    case 3
    obtain g1 err where r: "run_change faults now row g = (g1, err)" by (cases "run_change faults now row g")
    have c: "core g1 = core g" using run_change_core [of faults now row g] r by simp
    show ?thesis
    proof (cases err)
      case None
      show ?thesis
      proof (cases "approval_records g i")
        case None
        with c \<open>err = None\<close> Some 3 r show ?thesis
          by (intro core_step.executed [OF Some 3 refl])
            (simp add: execute_proposal_def fully_approved_def Let_def core_def)
      next
        case (Some ar)
        with c \<open>err = None\<close> \<open>proposal_row g i = Some row\<close> 3 r show ?thesis
          by (intro core_step.quiet)
            (simp add: execute_proposal_def fully_approved_def Let_def core_def rolled_back_def)
      qed
    next
      case (Some e)
      with c \<open>proposal_row g i = Some row\<close> 3 r show ?thesis
        by (intro core_step.failed [of _ i row])
          (simp_all add: execute_proposal_def fully_approved_def Let_def core_def)
    qed
  qed (use Some in \<open>auto simp: execute_proposal_def Let_def fully_approved_def core_step.quiet\<close>)
qed

lemma create_proposal_state:
  "fst (create_proposal now ty v who days g) = g \<or>
   (\<exists>pt payload. fst (create_proposal now ty v who days g) =
      ok_state (g\<lparr>committee := insert_or_ignore_member now who (committee g)\<rparr>)
        (submit_proposal (days * 24) now who pt payload
          (g\<lparr>committee := insert_or_ignore_member now who (committee g)\<rparr>)))"
proof (cases "legacy_payload ty v")
  case (Some x)
  obtain pt payload where "x = (pt, payload)" by (cases x)
  with Some show ?thesis
    by (intro disjI2 exI [of _ pt] exI [of _ payload])
      (simp add: create_proposal_def ok_state_def Let_def split: sum.split prod.split)
qed (simp add: create_proposal_def)

lemma cast_proposal_vote_state:
  "fst (cast_proposal_vote now i who v g) = g \<or>
   fst (cast_proposal_vote now i who v g) =
      ok_state (g\<lparr>committee := insert_or_ignore_member now who (committee g)\<rparr>)
        (cast_gvote now i who v (g\<lparr>committee := insert_or_ignore_member now who (committee g)\<rparr>))"
  by (auto simp: cast_proposal_vote_def ok_state_def Let_def split: sum.splits prod.splits)

lemma gov_core_step: "core_step digest g (gov_step digest op g)"
proof -
  have c: "core (g\<lparr>committee := rows\<rparr>) = core g" for rows by (simp add: core_def)
  show ?thesis
  proof (cases op)
    case (Legacy_create_op now ty v who days)
    then show ?thesis
      using create_proposal_state [of now ty v who days g] submit_core [OF c]
      by (auto simp: gov_step_def intro: core_step.quiet)
  next
    case (Legacy_vote_op now i who v)
    then show ?thesis
      using cast_proposal_vote_state [of now i who v g] vote_core [OF c]
      by (auto simp: gov_step_def intro: core_step.quiet)
  qed (simp_all add: gov_step_def submit_core vote_core signoff_core close_core execute_core)
qed

subsection \<open>The invariant\<close>

definition votes_ok :: "gvote table \<Rightarrow> bool" where
  "votes_ok t \<longleftrightarrow> distinct (map (\<lambda>v. (gv_proposal v, gv_voter v)) (trows t))"

definition signoffs_ok :: "proposal table \<Rightarrow> signoff table \<Rightarrow> bool" where
  "signoffs_ok ps t \<longleftrightarrow>
     distinct (map (\<lambda>s. (gs_proposal s, gs_role s)) (trows t)) \<and>
     distinct (map (\<lambda>s. (gs_proposal s, gs_signer s)) (trows t)) \<and>
     (\<forall>s \<in> set (trows t). \<exists>p \<in> set (trows ps). gp_id p = gs_proposal s \<and>
        gs_role s \<in> set (policy_roles (gp_type p)) \<and> gs_signer s \<noteq> gp_proposer p)"

definition approved_by :: "signoff table \<Rightarrow> proposal \<Rightarrow> bool" where
  "approved_by t p \<longleftrightarrow>
     (\<forall>role \<in> set (policy_roles (gp_type p)). \<exists>s \<in> set (trows t). gs_proposal s = gp_id p \<and> gs_role s = role) \<and>
     (\<forall>k \<in> set (policy_evidence (gp_type p)). \<exists>s \<in> set (trows t). gs_proposal s = gp_id p \<and>
        k \<in> fst ` set (gs_evidence s))"

lemma fully_approved_iff: "fully_approved g p \<longleftrightarrow> approved_by (signoffs g) p"
  by (auto simp: fully_approved_def build_approval_chain_def approved_by_def Let_def filter_empty_conv
      sql_select_set image_iff) (blast+)

definition executed_ok :: "(chain_record \<Rightarrow> string) \<Rightarrow> gov \<Rightarrow> bool" where
  "executed_ok digest g \<longleftrightarrow>
     (\<forall>p \<in> set (trows (proposals g)). gp_status p = Executed \<longrightarrow>
        approved_by (signoffs g) p \<and>
        (\<exists>rec. approval_records g (gp_id p) = Some rec \<and> ar_sha256 rec = digest (ar_chain rec) \<and>
           ch_proposal_id (ar_chain rec) = gp_id p \<and> ch_missing_roles (ar_chain rec) = [] \<and>
           ch_missing_evidence (ar_chain rec) = []))"

definition gov_inv :: "(chain_record \<Rightarrow> string) \<Rightarrow> gov \<Rightarrow> bool" where
  "gov_inv digest g \<longleftrightarrow> ids_ok gp_id (proposals g) \<and> votes_ok (votes g) \<and>
     signoffs_ok (proposals g) (signoffs g) \<and> executed_ok digest g"

text \<open>Updates of the status columns keep what the sign-off rules look at.\<close>

definition proposal_subject :: "proposal \<Rightarrow> nat \<times> proposal_type \<times> gpayload \<times> string \<times> time \<times> time" where
  "proposal_subject p = (gp_id p, gp_type p, gp_payload p, gp_proposer p, gp_submitted_at p, gp_voting_ends_at p)"

lemma signoffs_ok_update:
  assumes "signoffs_ok ps t" "\<And>r. proposal_subject (f r) = proposal_subject r"
  shows "signoffs_ok (sql_update p f ps) t"
proof -
  have keep: "\<exists>q \<in> set (trows (sql_update p f ps)). proposal_subject q = proposal_subject r"
    if "r \<in> set (trows ps)" for r
    using that assms(2) [of r] by (auto simp: table_simps)
  show ?thesis
    unfolding signoffs_ok_def
  proof (intro conjI ballI)
    fix s assume "s \<in> set (trows t)"
    then obtain r where r: "r \<in> set (trows ps)" "gp_id r = gs_proposal s"
        "gs_role s \<in> set (policy_roles (gp_type r))" "gs_signer s \<noteq> gp_proposer r"
      using assms(1) by (auto simp: signoffs_ok_def)
    from keep [OF r(1)] obtain q where
      q: "q \<in> set (trows (sql_update p f ps))" "proposal_subject q = proposal_subject r" by blast
    with r show "\<exists>q \<in> set (trows (sql_update p f ps)). gp_id q = gs_proposal s \<and>
        gs_role s \<in> set (policy_roles (gp_type q)) \<and> gs_signer s \<noteq> gp_proposer q"
      by (intro bexI [OF _ q(1)]) (auto simp: proposal_subject_def)
  qed (use assms(1) in \<open>simp_all add: signoffs_ok_def\<close>)
qed

lemma approved_by_subject: "proposal_subject q = proposal_subject p \<Longrightarrow> approved_by t q = approved_by t p"
  by (simp add: approved_by_def proposal_subject_def)

lemma approved_by_insert: "approved_by t p \<Longrightarrow> approved_by (sql_insert mk t) p"
  by (fastforce simp: approved_by_def table_simps)

lemma approved_by_id: "approved_by t p \<Longrightarrow> gp_id q = gp_id p \<Longrightarrow> gp_type q = gp_type p \<Longrightarrow> approved_by t q"
  by (simp add: approved_by_def)

text \<open>What a step does to a proposal and its approval record.\<close>

definition status_edges :: "(proposal_status \<times> proposal_status) set" where
  "status_edges = {(Active, Passed), (Active, Rejected), (Passed, Executed), (Passed, Failed)}"

definition proposal_edge ::
  "proposal \<times> approval_record option \<Rightarrow> proposal \<times> approval_record option \<Rightarrow> bool" where
  "proposal_edge x x' \<longleftrightarrow>
     proposal_subject (fst x') = proposal_subject (fst x) \<and>
     (gp_status (fst x), gp_status (fst x')) \<in> status_edges \<and>
     (snd x' \<noteq> snd x \<longrightarrow> gp_status (fst x') = Executed)"

definition proposal_and_record :: "gov \<Rightarrow> nat \<Rightarrow> (proposal \<times> approval_record option) option" where
  "proposal_and_record g i = map_option (\<lambda>p. (p, approval_records g i)) (proposal_row g i)"

lemma proposal_row_id: "proposal_row g i = Some p \<Longrightarrow> gp_id p = i \<and> p \<in> set (trows (proposals g))"
  by (auto simp: proposal_row_def dest: sql_fetchone_SomeD)

lemma tally_outcome: "ta_outcome (tally g i) \<in> {Passed, Rejected}"
  by (simp add: tally_def Let_def)

lemma proposal_update_row:
  assumes "proposals g' = sql_update (\<lambda>r. gp_id r = i) f (proposals g)" "\<And>r. gp_id (f r) = gp_id r"
  shows "proposal_row g' i = map_option f (proposal_row g i)" "k \<noteq> i \<Longrightarrow> proposal_row g' k = proposal_row g k"
  unfolding proposal_row_def assms(1) using gp_rows.fetch_updated [OF assms(2)] by auto

lemma core_step_row:
  assumes "core_step digest g g'" "ids_ok gp_id (proposals g)" "proposal_and_record g k = Some x"
  shows "\<exists>x'. proposal_and_record g' k = Some x' \<and> (x' = x \<or> proposal_edge x x')"
  using assms(1)
proof cases
  case quiet
  with assms(3) show ?thesis by (auto simp: core_def proposal_and_record_def proposal_row_def)
next
  case (submitted y)
  have "k \<noteq> Suc (tseq (proposals g))"
    using assms(2,3) proposal_row_id [of g k] by (fastforce simp: proposal_and_record_def ids_ok_def)
  with submitted assms(3) gp_rows.fetch_other_inserted [of k "proposals g" y] show ?thesis
    by (auto simp: core_def proposal_and_record_def proposal_row_def)
next
  case voted
  with assms(3) show ?thesis by (auto simp: core_def proposal_and_record_def proposal_row_def)
next
  case signed
  with assms(3) show ?thesis by (auto simp: core_def proposal_and_record_def proposal_row_def)
next
  case (closed i row outcome)
  then have p: "proposals g' = sql_update (\<lambda>r. gp_id r = i) (\<lambda>r. r\<lparr>gp_status := outcome\<rparr>) (proposals g)"
    "approval_records g' = approval_records g" by (simp_all add: core_def)
  note u = proposal_update_row [OF p(1)]
  show ?thesis
    using assms(3) u(1) u(2) [of k] closed(1-3) tally_outcome [of g i] p(2)
    by (cases "k = i") (auto simp: proposal_and_record_def proposal_edge_def proposal_subject_def status_edges_def)
next
  case (executed i row chain now)
  then have p: "proposals g' = sql_update (\<lambda>r. gp_id r = i)
      (\<lambda>r. r\<lparr>gp_status := Executed, gp_executed_at := Some now\<rparr>) (proposals g)"
    "k \<noteq> i \<longrightarrow> approval_records g' k = approval_records g k" by (simp_all add: core_def)
  note u = proposal_update_row [OF p(1)]
  show ?thesis
    using assms(3) u(1) u(2) [of k] executed(1-2) p(2)
    by (cases "k = i") (auto simp: proposal_and_record_def proposal_edge_def proposal_subject_def status_edges_def)
next
  case (failed i row e now)
  then have p: "proposals g' = sql_update (\<lambda>r. gp_id r = i)
      (\<lambda>r. r\<lparr>gp_status := Failed, gp_executed_at := Some now, gp_execution_error := Some e\<rparr>) (proposals g)"
    "approval_records g' = approval_records g" by (simp_all add: core_def)
  note u = proposal_update_row [OF p(1)]
  show ?thesis
    using assms(3) u(1) u(2) [of k] failed(1-2) p(2)
    by (cases "k = i") (auto simp: proposal_and_record_def proposal_edge_def proposal_subject_def status_edges_def)
qed

lemma executed_ok_frame:
  assumes "executed_ok digest g" "approval_records g' = approval_records g"
    and "\<And>p q. q \<in> set (trows (proposals g')) \<Longrightarrow> gp_status q = Executed \<Longrightarrow> q \<in> set (trows (proposals g))"
    and "\<And>p. approved_by (signoffs g) p \<Longrightarrow> approved_by (signoffs g') p"
  shows "executed_ok digest g'"
  using assms unfolding executed_ok_def by metis

lemma gov_inv_submitted:
  assumes "gov_inv digest g"
    and "core g' = (sql_insert (new_proposal x) (proposals g), votes g, signoffs g, approval_records g)"
  shows "gov_inv digest g'"
proof -
  have c: "proposals g' = sql_insert (new_proposal x) (proposals g)" "votes g' = votes g"
    "signoffs g' = signoffs g" "approval_records g' = approval_records g"
    using assms(2) by (simp_all add: core_def)
  have n: "gp_status (new_proposal x n) = Active" for n by (cases x) (simp add: new_proposal_def)
  have "executed_ok digest g'"
    using assms(1) c n by - (rule executed_ok_frame [of digest g], auto simp: gov_inv_def table_simps)
  moreover have "signoffs_ok (proposals g') (signoffs g')"
    using assms(1) unfolding gov_inv_def signoffs_ok_def c table_simps set_append by blast
  ultimately show ?thesis
    using assms(1) gp_rows.ids_ok_insert [of "proposals g" x] by (simp add: gov_inv_def c)
qed

lemma gov_inv_voted:
  assumes "gov_inv digest g"
    and "sql_fetchone (\<lambda>v. gv_proposal v = i \<and> gv_voter v = voter) (votes g) = None"
    and "core g' = (proposals g, sql_insert (new_gvote (i, voter, d, now)) (votes g), signoffs g, approval_records g)"
  shows "gov_inv digest g'"
proof -
  have c: "proposals g' = proposals g" "votes g' = sql_insert (new_gvote (i, voter, d, now)) (votes g)"
    "signoffs g' = signoffs g" "approval_records g' = approval_records g"
    using assms(3) by (simp_all add: core_def)
  have "votes_ok (votes g')"
    using assms(1,2) by (auto simp: gov_inv_def votes_ok_def c(2) table_simps new_gvote_def sql_fetchone_None)
  with assms(1) c show ?thesis by (simp add: gov_inv_def executed_ok_def)
qed

lemma gov_inv_signed:
  assumes "gov_inv digest g" "proposal_row g i = Some row"
    and "role \<in> set (policy_roles (gp_type row))" "signer \<noteq> gp_proposer row"
    and "sql_fetchone (\<lambda>s. gs_proposal s = i \<and> (gs_role s = role \<or> gs_signer s = signer)) (signoffs g) = None"
    and "core g' = (proposals g, votes g, sql_insert (new_signoff (i, role, signer, ev, now)) (signoffs g), approval_records g)"
  shows "gov_inv digest g'"
proof -
  have c: "proposals g' = proposals g" "votes g' = votes g"
    "signoffs g' = sql_insert (new_signoff (i, role, signer, ev, now)) (signoffs g)"
    "approval_records g' = approval_records g"
    using assms(6) by (simp_all add: core_def)
  have "executed_ok digest g'"
    using assms(1) c by - (rule executed_ok_frame [of digest g], auto simp: gov_inv_def approved_by_insert)
  moreover have "signoffs_ok (proposals g) (signoffs g')"
  proof -
    have n: "gs_proposal (new_signoff (i, role, signer, ev, now) k) = i"
      "gs_role (new_signoff (i, role, signer, ev, now) k) = role"
      "gs_signer (new_signoff (i, role, signer, ev, now) k) = signer" for k
      by (simp_all add: new_signoff_def)
    have free: "\<not> (gs_proposal s = i \<and> (gs_role s = role \<or> gs_signer s = signer))"
      if "s \<in> set (trows (signoffs g))" for s
      using assms(5) that by (auto simp: sql_fetchone_None)
    have ok: "signoffs_ok (proposals g) (signoffs g)" using assms(1) by (simp add: gov_inv_def)
    show ?thesis
      unfolding signoffs_ok_def c(3) table_simps
    proof (intro conjI ballI)
      fix s assume "s \<in> set (trows (signoffs g) @
          [new_signoff (i, role, signer, ev, now) (Suc (tseq (signoffs g)))])"
      then show "\<exists>p \<in> set (trows (proposals g)). gp_id p = gs_proposal s \<and>
          gs_role s \<in> set (policy_roles (gp_type p)) \<and> gs_signer s \<noteq> gp_proposer p"
        using ok proposal_row_id [OF assms(2)] assms(3,4) n by (auto simp: signoffs_ok_def)
    qed (use ok free n in \<open>auto simp: signoffs_ok_def\<close>)
  qed
  ultimately show ?thesis using assms(1) c by (simp add: gov_inv_def)
qed

lemma gov_inv_updated:
  assumes "gov_inv digest g" "executed_ok digest g'" "\<And>r. proposal_subject (f r) = proposal_subject r"
    and "proposals g' = sql_update p f (proposals g)" "votes g' = votes g" "signoffs g' = signoffs g"
  shows "gov_inv digest g'"
proof -
  have "ids_ok gp_id (proposals g')"
    using assms(1) assms(3) unfolding assms(4)
    by (intro gp_rows.ids_ok_update) (simp_all add: gov_inv_def proposal_subject_def)
  moreover have "signoffs_ok (proposals g') (signoffs g')"
    unfolding assms(4,6) using assms(1) by (intro signoffs_ok_update assms(3)) (simp add: gov_inv_def)
  ultimately show ?thesis using assms by (simp add: gov_inv_def)
qed

lemma gov_inv_not_executed:
  assumes "gov_inv digest g" "\<And>r. proposal_subject (f r) = proposal_subject r" "\<And>r. gp_status (f r) \<noteq> Executed"
    and "core g' = (sql_update (\<lambda>r. gp_id r = i) f (proposals g), votes g, signoffs g, approval_records g)"
  shows "gov_inv digest g'"
proof -
  have c: "proposals g' = sql_update (\<lambda>r. gp_id r = i) f (proposals g)" "votes g' = votes g"
    "signoffs g' = signoffs g" "approval_records g' = approval_records g"
    using assms(4) by (simp_all add: core_def)
  have "executed_ok digest g'"
    using assms(1) c(3,4) assms(3) by - (rule executed_ok_frame [of digest g], auto simp: gov_inv_def c(1) table_simps split: if_splits)
  from gov_inv_updated [OF assms(1) this assms(2) c(1-3)] show ?thesis .
qed

lemma gov_inv_executed:
  assumes "gov_inv digest g" "proposal_row g i = Some row" "fully_approved g row"
    and "chain = (build_approval_chain g row)\<lparr>ch_status := Executed, ch_executed_at := Some now\<rparr>"
    and "core g' = (sql_update (\<lambda>r. gp_id r = i) (\<lambda>r. r\<lparr>gp_status := Executed, gp_executed_at := Some now\<rparr>) (proposals g),
      votes g, signoffs g, (approval_records g)(i \<mapsto>
        \<lparr>ar_chain = chain, ar_sha256 = digest chain, ar_recorded_at = now\<rparr>))"
  shows "gov_inv digest g'"
proof -
  let ?f = "\<lambda>r :: proposal. r\<lparr>gp_status := Executed, gp_executed_at := Some now\<rparr>"
  let ?rec = "\<lparr>ar_chain = chain, ar_sha256 = digest chain, ar_recorded_at = now\<rparr>"
  have c: "proposals g' = sql_update (\<lambda>r. gp_id r = i) ?f (proposals g)" "votes g' = votes g"
    "signoffs g' = signoffs g" "approval_records g' = (approval_records g)(i \<mapsto> ?rec)"
    using assms(5) by (simp_all add: core_def)
  have row: "gp_id row = i" "row \<in> set (trows (proposals g))" using proposal_row_id [OF assms(2)] by auto
  have only: "p = row" if "p \<in> set (trows (proposals g))" "gp_id p = i" for p
    using assms(1) row that by (auto simp: gov_inv_def ids_ok_def distinct_map inj_on_def)
  have chain: "ch_proposal_id chain = i" "ch_missing_roles chain = []" "ch_missing_evidence chain = []"
    using assms(3,4) row by (simp_all add: build_approval_chain_def Let_def fully_approved_def)
  have "executed_ok digest g'"
    unfolding executed_ok_def
  proof (intro ballI impI)
    fix q assume q: "q \<in> set (trows (proposals g'))" "gp_status q = Executed"
    show "approved_by (signoffs g') q \<and>
        (\<exists>rec. approval_records g' (gp_id q) = Some rec \<and> ar_sha256 rec = digest (ar_chain rec) \<and>
           ch_proposal_id (ar_chain rec) = gp_id q \<and> ch_missing_roles (ar_chain rec) = [] \<and>
           ch_missing_evidence (ar_chain rec) = [])"
    proof (cases "gp_id q = i")
      case True
      with q(1) only have "q = ?f row" by (auto simp: c(1) table_simps)
      then have "gp_id q = gp_id row" "gp_type q = gp_type row" by simp_all
      with True assms(3) chain c(3,4) show ?thesis
        by (simp add: fully_approved_iff approved_by_id)
    next
      case False
      with q(1) have "q \<in> set (trows (proposals g))" by (auto simp: c(1) table_simps)
      with False q(2) assms(1) c(3,4) show ?thesis by (simp add: gov_inv_def executed_ok_def)
    qed
  qed
  from gov_inv_updated [OF assms(1) this _ c(1-3)] show ?thesis by (simp add: proposal_subject_def)
qed

lemma gov_inv_core_step:
  assumes "core_step digest g g'" "gov_inv digest g"
  shows "gov_inv digest g'"
  using assms(1)
proof cases
  case quiet
  with assms(2) show ?thesis by (simp add: core_def gov_inv_def executed_ok_def)
next
  case (closed i row outcome)
  show ?thesis
    by (rule gov_inv_not_executed [OF assms(2) _ _ closed(4)])
      (use tally_outcome [of g i] closed(3) in \<open>auto simp: proposal_subject_def\<close>)
next
  case (failed i row e now)
  show ?thesis
    by (rule gov_inv_not_executed [OF assms(2) _ _ failed(3)]) (simp_all add: proposal_subject_def)
next
  case submitted
  then show ?thesis by (rule gov_inv_submitted [OF assms(2)])
next
  case voted
  then show ?thesis by (rule gov_inv_voted [OF assms(2)])
next
  case signed
  show ?thesis by (rule gov_inv_signed [OF assms(2) signed(1,3-6)])
next
  case executed
  show ?thesis by (rule gov_inv_executed [OF assms(2) executed(1,3-5)])
qed

interpretation gl: lifecycle "gov_inv digest" proposal_and_record proposal_edge "gov_step digest" for digest
proof unfold_locales
  show "gov_inv digest (gov_step digest op g)" if "gov_inv digest g" for op g
    by (rule gov_inv_core_step [OF gov_core_step that])
  show "\<exists>x'. proposal_and_record (gov_step digest op g) k = Some x' \<and> (x' = x \<or> proposal_edge x x')"
    if "gov_inv digest g" "proposal_and_record g k = Some x" for op g k x
    using core_step_row [OF gov_core_step _ that(2)] that(1) by (simp add: gov_inv_def)
qed

subsection \<open>Nothing is executed without its approvals\<close>

definition fresh_gov :: "gov \<Rightarrow> bool" where
  "fresh_gov g \<longleftrightarrow> proposals g = empty_table \<and> votes g = empty_table \<and> signoffs g = empty_table"

lemma fresh_gov_inv: "fresh_gov g \<Longrightarrow> gov_inv digest g"
  using gp_rows.ids_ok_empty
  by (simp add: fresh_gov_def gov_inv_def votes_ok_def signoffs_ok_def executed_ok_def table_simps)

lemma signer_of_role:
  assumes "gov_inv digest g" "p \<in> set (trows (proposals g))" "approved_by (signoffs g) p"
  shows "\<exists>signer. inj_on signer (set (policy_roles (gp_type p))) \<and>
    (\<forall>role \<in> set (policy_roles (gp_type p)). signer role \<noteq> gp_proposer p \<and>
       (\<exists>s \<in> set (trows (signoffs g)). gs_proposal s = gp_id p \<and> gs_role s = role \<and> gs_signer s = signer role))"
proof -
  have "\<forall>role \<in> set (policy_roles (gp_type p)). \<exists>s. s \<in> set (trows (signoffs g)) \<and>
      gs_proposal s = gp_id p \<and> gs_role s = role"
    using assms(3) by (auto simp: approved_by_def)
  then obtain sg where sg: "\<And>role. role \<in> set (policy_roles (gp_type p)) \<Longrightarrow>
      sg role \<in> set (trows (signoffs g)) \<and> gs_proposal (sg role) = gp_id p \<and> gs_role (sg role) = role"
    by metis
  have ok: "signoffs_ok (proposals g) (signoffs g)" using assms(1) by (simp add: gov_inv_def)
  have "inj_on (gs_signer \<circ> sg) (set (policy_roles (gp_type p)))"
  proof (rule inj_onI)
    fix r r' assume a: "r \<in> set (policy_roles (gp_type p))" "r' \<in> set (policy_roles (gp_type p))"
      "(gs_signer \<circ> sg) r = (gs_signer \<circ> sg) r'"
    then have eq: "(gs_proposal (sg r), gs_signer (sg r)) = (gs_proposal (sg r'), gs_signer (sg r'))"
      using sg by simp
    have "inj_on (\<lambda>s. (gs_proposal s, gs_signer s)) (set (trows (signoffs g)))"
      using ok by (simp add: signoffs_ok_def distinct_map)
    from inj_onD [OF this eq] have "sg r = sg r'" using sg [OF a(1)] sg [OF a(2)] by blast
    then have "gs_role (sg r) = gs_role (sg r')" by (rule arg_cong)
    then show "r = r'" using sg [OF a(1)] sg [OF a(2)] by simp
  qed
  moreover have "gs_signer (sg r) \<noteq> gp_proposer p" if r: "r \<in> set (policy_roles (gp_type p))" for r
  proof -
    obtain q where q: "q \<in> set (trows (proposals g))" "gp_id q = gs_proposal (sg r)"
        "gs_signer (sg r) \<noteq> gp_proposer q"
      using ok sg [OF r] by (auto simp: signoffs_ok_def)
    have "q = p"
    proof -
      have "inj_on gp_id (set (trows (proposals g)))"
        using assms(1) by (simp add: gov_inv_def ids_ok_def distinct_map)
      then show ?thesis by (rule inj_onD) (use q(1,2) sg [OF r] assms(2) in simp_all)
    qed
    with q(3) show ?thesis by simp
  qed
  ultimately show ?thesis using sg by (intro exI [of _ "gs_signer \<circ> sg"]) auto
qed

text \<open>C15: however proposals are submitted, voted on, signed, closed and executed, through the engine or the
  legacy entry points, an executed proposal has for every role of its policy a sign-off of a
  different person, none of them the proposer, has every kind of evidence the policy asks for, and
  has an approval record whose digest is that of the recorded chain and which misses nothing.\<close>

theorem executed_changes_were_approved:
  assumes "fresh_gov g0" "g = fold (gov_step digest) ops g0"
    and "p \<in> set (trows (proposals g))" "gp_status p = Executed"
  shows "(\<exists>signer. inj_on signer (set (policy_roles (gp_type p))) \<and>
      (\<forall>role \<in> set (policy_roles (gp_type p)). signer role \<noteq> gp_proposer p \<and>
        (\<exists>s \<in> set (trows (signoffs g)). gs_proposal s = gp_id p \<and> gs_role s = role \<and> gs_signer s = signer role))) \<and>
    (\<forall>k \<in> set (policy_evidence (gp_type p)). \<exists>s \<in> set (trows (signoffs g)).
        gs_proposal s = gp_id p \<and> k \<in> fst ` set (gs_evidence s)) \<and>
    (\<exists>rec. approval_records g (gp_id p) = Some rec \<and> ar_sha256 rec = digest (ar_chain rec) \<and>
       ch_missing_roles (ar_chain rec) = [] \<and> ch_missing_evidence (ar_chain rec) = [])"
proof -
  have inv: "gov_inv digest g" unfolding assms(2) by (rule gl.inv_run [OF fresh_gov_inv [OF assms(1)]])
  then have e: "approved_by (signoffs g) p \<and> (\<exists>rec. approval_records g (gp_id p) = Some rec \<and>
      ar_sha256 rec = digest (ar_chain rec) \<and> ch_proposal_id (ar_chain rec) = gp_id p \<and>
      ch_missing_roles (ar_chain rec) = [] \<and> ch_missing_evidence (ar_chain rec) = [])"
    using assms(3,4) by (simp add: gov_inv_def executed_ok_def)
  then show ?thesis
    using signer_of_role [OF inv assms(3)] by (auto simp: approved_by_def)
qed

text \<open>A rejected, executed or failed proposal and its approval record never change again, whatever
  is called.\<close>

theorem terminal_proposals_immutable:
  assumes "gov_inv digest g" "proposal_and_record g i = Some (p, rec)" "gp_status p \<in> {Rejected, Executed, Failed}"
  shows "proposal_and_record (fold (gov_step digest) ops g) i = Some (p, rec)"
  by (rule gl.final_run [OF assms(1,2)]) (use assms(3) in \<open>auto simp: proposal_edge_def status_edges_def\<close>)

subsection \<open>The vote\<close>

lemma for_voters_card:
  assumes "votes_ok (votes g)"
  shows "card (gv_voter ` {v \<in> set (trows (votes g)). gv_proposal v = i \<and> gv_decision v = d}) = count_votes g i d"
proof -
  let ?vs = "filter (\<lambda>v. gv_proposal v = i \<and> gv_decision v = d) (trows (votes g))"
  have "distinct (map gv_voter ?vs)"
    using assms by (auto simp: votes_ok_def distinct_map inj_on_def)
  then have "card (set (map gv_voter ?vs)) = length ?vs" using distinct_card by fastforce
  then show ?thesis by (simp add: count_votes_def sql_rowcount_def)
qed

text \<open>Closing an active proposal passes it exactly when the different voters who voted for it are
  more than half of the active committee, rejects it otherwise, and changes no other proposal; a
  proposal that is not active is left alone.\<close>

theorem close_passes_on_strict_majority:
  assumes "gov_inv digest g" "proposal_row g i = Some row"
  shows "\<exists>g'. close_proposal i g = Inr g' \<and>
    (gp_status row \<noteq> Active \<longrightarrow> g' = g) \<and>
    (gp_status row = Active \<longrightarrow> proposal_row g' i = Some (row\<lparr>gp_status :=
       (if committee_size g < 2 * card (gv_voter ` {v \<in> set (trows (votes g)). gv_proposal v = i \<and> gv_decision v = For})
        then Passed else Rejected)\<rparr>)) \<and>
    (\<forall>k. k \<noteq> i \<longrightarrow> proposal_row g' k = proposal_row g k)"
proof -
  have c: "card (gv_voter ` {v \<in> set (trows (votes g)). gv_proposal v = i \<and> gv_decision v = For}) = count_votes g i For"
    using assms(1) by (simp add: gov_inv_def for_voters_card)
  have q: "quorum_required n \<le> m \<longleftrightarrow> n < 2 * m" for n m unfolding quorum_required_def by linarith
  have out: "ta_outcome (tally g i) = (if committee_size g < 2 * count_votes g i For then Passed else Rejected)"
    by (simp add: tally_def Let_def q)
  show ?thesis
  proof (cases "gp_status row = Active")
    case True
    then have "close_proposal i g = Inr (set_status i (ta_outcome (tally g i)) g)"
      using assms(2) by (simp add: close_proposal_def close_check_def tally_proposal_def close_commit_def)
    moreover have "proposals (set_status i st g) = sql_update (\<lambda>r. gp_id r = i) (\<lambda>r. r\<lparr>gp_status := st\<rparr>) (proposals g)" for st
      by (simp add: set_status_def)
    note u = proposal_update_row [OF this]
    ultimately show ?thesis using True assms(2) u unfolding c out by simp
  next
    case False
    with assms(2) show ?thesis by (simp add: close_proposal_def close_check_def)
  qed
qed

subsection \<open>What goes wrong\<close>

text \<open>The second half of closing does not look at the status again: if one caller has read an active
  proposal and tallied it as passed, and another closes and executes it in between, the first
  caller's write makes the executed proposal \<open>passed\<close> again, although executed is meant to be final.\<close>

theorem close_race_reopens_executed:
  assumes "close_check i g = Inr (Some outcome)"
    and "close_proposal i g = Inr g1"
    and "execute_proposal digest faults now i g1 = (g2, Inr p)" "gp_status p = Executed"
  shows "map_option gp_status (proposal_row g2 i) = Some Executed \<and>
    map_option gp_status (proposal_row (close_commit i outcome g2) i) = Some Passed"
proof -
  obtain row where row: "proposal_row g i = Some row"
    using assms(1) by (auto simp: close_check_def split: option.splits)
  have g1: "g1 = set_status i outcome g" using assms(1,2) by (simp add: close_proposal_def close_commit_def)
  have p1: "proposals (set_status i st h) = sql_update (\<lambda>r. gp_id r = i) (\<lambda>r. r\<lparr>gp_status := st\<rparr>) (proposals h)" for st h
    by (simp add: set_status_def)
  note r1 = proposal_update_row(1) [OF p1]
  have passed: "outcome = Passed"
    using assms(3) row r1 [of outcome g] unfolding g1 by (auto simp: execute_proposal_def split: if_splits)
  have "map_option gp_status (proposal_row g2 i) = Some Executed"
  proof -
    obtain h err where h: "run_change faults now (row\<lparr>gp_status := outcome\<rparr>) g1 = (h, err)"
      by (cases "run_change faults now (row\<lparr>gp_status := outcome\<rparr>) g1")
    have c: "core h = core g1" using run_change_core [of faults now "row\<lparr>gp_status := outcome\<rparr>" g1] h by simp
    have "err = None \<and> proposals g2 = sql_update (\<lambda>r. gp_id r = i)
        (\<lambda>r. r\<lparr>gp_status := Executed, gp_executed_at := Some now\<rparr>) (proposals h)"
      using assms(3,4) row r1 [of outcome g] h passed unfolding g1
      by (auto simp: execute_proposal_def Let_def split: if_splits option.splits)
    moreover have "proposal_row h i = proposal_row g1 i" using c by (simp add: core_def proposal_row_def)
    ultimately show ?thesis
      using proposal_update_row(1) [of g2 i "\<lambda>r. r\<lparr>gp_status := Executed, gp_executed_at := Some now\<rparr>" h]
        row r1 [of outcome g] unfolding g1 by simp
  qed
  then show ?thesis using r1 [of outcome g2] passed by (auto simp: close_commit_def)
qed

text \<open>When the row of \<open>runtime_config\<close> cannot be written, the proposal is \<open>failed\<close>, but the live
  setting and the \<open>.env\<close> file already carry the new value: the failure is not free of effects.\<close>

theorem failed_execution_keeps_setting:
  assumes "proposal_row g i = Some row" "gp_status row = Passed" "gp_type row = Config_change" "fully_approved g row"
    and "gp_payload row ''key'' = Some key" "gp_payload row ''new_value'' = Some v"
    and "key \<in> set ALLOWED_SETTINGS" "parse_setting key v = Some parsed"
    and "env_fault faults = None" "runtime_fault faults = Some e"
  shows "\<exists>g'. execute_proposal digest faults now i g = (g', Inr (row\<lparr>gp_status := Failed,
        gp_executed_at := Some now, gp_execution_error := Some (Runtime_write_error e)\<rparr>)) \<and>
    live (gov_config g') (attr_map key) = Some parsed \<and>
    env_file (gov_config g') = Some (env_update key v (env_file (gov_config g))) \<and>
    runtime_config g' = runtime_config g"
  using assms by (simp add: execute_proposal_def fully_approved_def run_change_def run_config_change_def
      apply_setting_def Let_def)

text \<open>Through the legacy entry point anybody votes: a key that is not in the committee becomes an
  active member by voting, and its vote counts.\<close>

theorem legacy_vote_admits_anyone:
  assumes "who \<notin> cm_member ` set (committee g)" "proposal_row g i = Some row" "gp_status row = Active"
    and "now \<le> gp_voting_ends_at row" "\<forall>v \<in> set (trows (votes g)). gv_voter v \<noteq> who"
  shows "\<exists>g' fs as. cast_proposal_vote now i who ''for'' g = (g', Inr (fs, as)) \<and> who \<in> set fs \<and>
    is_committee_member g' who \<and> count_votes g' i For = count_votes g i For + 1 \<and>
    committee_size g' = committee_size g + 1"
proof -
  let ?g1 = "g\<lparr>committee := committee g @ [\<lparr>cm_member = who, cm_added_at = now, cm_active = True\<rparr>]\<rparr>"
  let ?g2 = "?g1\<lparr>votes := sql_insert (new_gvote (i, who, For, now)) (votes g)\<rparr>"
  have none: "sql_fetchone (\<lambda>v. gv_proposal v = i \<and> gv_voter v = who) (votes g) = None"
    using assms(5) by (auto simp: sql_fetchone_None)
  have vote: "cast_gvote now i who ''for'' ?g1 = Inr (?g2, new_gvote (i, who, For, now) (Suc (tseq (votes g))))"
    using assms none by (simp add: cast_gvote_def decision_of_def is_committee_member_def proposal_row_def
        Let_def last_insert_rowid_def table_simps)
  show ?thesis
    using assms(1) vote
    by (simp add: cast_proposal_vote_def insert_or_ignore_member_def Let_def is_committee_member_def
        committee_size_def count_votes_def sql_rowcount_def sql_select_def table_simps new_gvote_def)
qed

subsection \<open>A run\<close>

definition gov_demo :: gov where
  "gov_demo =
     \<lparr>proposals = empty_table, votes = empty_table,
      committee = map (\<lambda>m. \<lparr>cm_member = m, cm_added_at = 0, cm_active = True\<rparr>) [''ann'', ''bob'', ''cy''],
      signoffs = empty_table, approval_records = Map.empty, runtime_config = Map.empty,
      gov_config = \<lparr>live = Map.empty, env_file = None\<rparr>, model_files = None, latest_version = Map.empty\<rparr>"

definition no_faults :: exec_faults where "no_faults = \<lparr>env_fault = None, runtime_fault = None\<rparr>"

definition raise_threshold :: gpayload where
  "raise_threshold = [''key'' \<mapsto> ''RISK_SCORE_THRESHOLD'', ''new_value'' \<mapsto> ''80'']"

definition voted_ops :: "gov_op list" where
  "voted_ops =
     [Submit_op VOTING_PERIOD_HOURS 0 ''ann'' ''config_change'' raise_threshold,
      Vote_op 1 1 ''bob'' ''for'', Vote_op 2 1 ''bob'' ''for'', Vote_op 3 1 ''cy'' ''for'',
      Signoff_op 4 1 ''ann'' ''risk_owner'' [(''impact_analysis'', ''doc'')],
      Signoff_op 5 1 ''bob'' ''risk_owner'' [(''impact_analysis'', ''doc'')],
      Signoff_op 6 1 ''bob'' ''compliance_officer'' [],
      Signoff_op 7 1 ''cy'' ''compliance_officer'' []]"

definition after_votes :: gov where "after_votes = fold (gov_step ch_proposer) voted_ops gov_demo"

definition after_close :: gov where "after_close = gov_step ch_proposer (Close_op 1) after_votes"

definition after_execute :: gov where
  "after_execute = gov_step ch_proposer (Execute_op no_faults 9 1) after_close"

lemma gov_demo_fresh: "fresh_gov gov_demo"
  by (simp add: fresh_gov_def gov_demo_def)

lemma demo_inv: "gov_inv ch_proposer after_votes" "gov_inv ch_proposer after_execute"
  using gl.inv_run [OF fresh_gov_inv [OF gov_demo_fresh], of ch_proposer voted_ops]
  by (simp_all add: after_votes_def after_execute_def after_close_def gl.inv_step)

lemma after_execute_ops:
  "after_execute = fold (gov_step ch_proposer) (voted_ops @ [Close_op 1, Execute_op no_faults 9 1]) gov_demo"
  by (simp add: after_execute_def after_close_def after_votes_def)

lemma demo_statuses:
  "map (\<lambda>p. (gp_id p, gp_status p)) (trows (proposals after_votes)) = [(1, Active)]"
  "map (\<lambda>p. (gp_id p, gp_status p)) (trows (proposals after_close)) = [(1, Passed)]"
  "map (\<lambda>p. (gp_id p, gp_status p)) (trows (proposals after_execute)) = [(1, Executed)]"
  by code_simp+

lemma demo_check: "close_check 1 after_votes = Inr (Some Passed)"
  by code_simp

lemma demo_close: "close_proposal 1 after_votes = Inr after_close"
  using demo_check by (simp add: close_proposal_def after_close_def gov_step_def)

lemma demo_execute:
  "\<exists>p. execute_proposal ch_proposer no_faults 9 1 after_close = (after_execute, Inr p) \<and> gp_status p = Executed"
proof -
  have "map_sum (\<lambda>_. ()) gp_status (snd (execute_proposal ch_proposer no_faults 9 1 after_close)) = Inr Executed"
    by code_simp
  then obtain p where "snd (execute_proposal ch_proposer no_faults 9 1 after_close) = Inr p" "gp_status p = Executed"
    by (cases "snd (execute_proposal ch_proposer no_faults 9 1 after_close)") auto
  moreover have "fst (execute_proposal ch_proposer no_faults 9 1 after_close) = after_execute"
    by (simp add: after_execute_def gov_step_def)
  ultimately show ?thesis by (intro exI [of _ p]) (simp add: prod_eq_iff)
qed

lemma gov_demo_row:
  "\<exists>row. proposal_row after_close 1 = Some row \<and> gp_status row = Passed \<and> gp_type row = Config_change \<and>
     fully_approved after_close row \<and> gp_payload row ''key'' = Some ''RISK_SCORE_THRESHOLD'' \<and>
     gp_payload row ''new_value'' = Some ''80''"
proof -
  have "map_option (\<lambda>p. (gp_status p, gp_type p, ch_missing_roles (build_approval_chain after_close p),
      ch_missing_evidence (build_approval_chain after_close p), gp_payload p ''key'', gp_payload p ''new_value''))
      (proposal_row after_close 1) =
    Some (Passed, Config_change, [], [], Some ''RISK_SCORE_THRESHOLD'', Some ''80'')"
    by code_simp
  then show ?thesis by (auto simp: fully_approved_def)
qed

theorem executed_changes_were_approved_witness:
  "\<exists>p \<in> set (trows (proposals after_execute)). gp_status p = Executed \<and>
     (\<exists>rec. approval_records after_execute (gp_id p) = Some rec \<and> ar_sha256 rec = ''ann'')"
proof -
  obtain p where p: "trows (proposals after_execute) = [p]" "gp_status p = Executed" "gp_id p = 1"
    using demo_statuses(3) by (auto simp: map_eq_Cons_conv)
  then have mem: "p \<in> set (trows (proposals after_execute))" by simp
  from executed_changes_were_approved [OF gov_demo_fresh after_execute_ops mem p(2)]
  obtain rec where r: "approval_records after_execute (gp_id p) = Some rec"
      "ar_sha256 rec = ch_proposer (ar_chain rec)" by blast
  have "map_option (\<lambda>r. ch_proposer (ar_chain r)) (approval_records after_execute 1) = Some ''ann''" by code_simp
  with r p(3) have "ar_sha256 rec = ''ann''" by simp
  with mem p(2) r(1) show ?thesis by blast
qed

theorem terminal_proposals_immutable_witness:
  "map_option (\<lambda>x. gp_status (fst x)) (proposal_and_record (fold (gov_step ch_proposer)
     [Close_op 1, Execute_op no_faults 20 1, Vote_op 21 1 ''ann'' ''against''] after_execute) 1) = Some Executed"
proof -
  have "map_option (\<lambda>x. gp_status (fst x)) (proposal_and_record after_execute 1) = Some Executed" by code_simp
  then obtain p rec where pr: "proposal_and_record after_execute 1 = Some (p, rec)" "gp_status p = Executed"
    by auto
  from terminal_proposals_immutable [OF demo_inv(2) pr(1), of
      "[Close_op 1, Execute_op no_faults 20 1, Vote_op 21 1 ''ann'' ''against'']"] pr(2)
  show ?thesis by (simp del: fold_simps One_nat_def)
qed

theorem close_passes_on_strict_majority_witness:
  "\<exists>g'. close_proposal 1 after_votes = Inr g' \<and> proposal_row g' 2 = proposal_row after_votes 2"
proof -
  have "proposal_row after_votes 1 \<noteq> None" by code_simp
  then obtain row where "proposal_row after_votes 1 = Some row" by blast
  from close_passes_on_strict_majority [OF demo_inv(1) this] obtain g' where
    "close_proposal 1 after_votes = Inr g'" "\<And>k. k \<noteq> 1 \<Longrightarrow> proposal_row g' k = proposal_row after_votes k" by blast
  then show ?thesis by (intro exI [of _ g'] conjI) auto
qed

theorem close_race_reopens_executed_witness:
  "map_option gp_status (proposal_row (close_commit 1 Passed after_execute) 1) = Some Passed"
  using close_race_reopens_executed [OF demo_check demo_close] demo_execute by blast

theorem failed_execution_keeps_setting_witness:
  "\<exists>g' row. execute_proposal ch_proposer \<lparr>env_fault = None, runtime_fault = Some ''disk full''\<rparr> 9 1 after_close =
     (g', Inr row) \<and> gp_status row = Failed \<and>
     live (gov_config g') ''_default_risk_score_threshold'' = Some (Int_value 80)"
proof -
  obtain row where row: "proposal_row after_close 1 = Some row" "gp_status row = Passed"
      "gp_type row = Config_change" "fully_approved after_close row"
      "gp_payload row ''key'' = Some ''RISK_SCORE_THRESHOLD''" "gp_payload row ''new_value'' = Some ''80''"
    using gov_demo_row by blast
  have k: "''RISK_SCORE_THRESHOLD'' \<in> set ALLOWED_SETTINGS" by (simp add: ALLOWED_SETTINGS_def)
  have p: "parse_setting ''RISK_SCORE_THRESHOLD'' ''80'' = Some (Int_value 80)" by code_simp
  have a: "attr_map ''RISK_SCORE_THRESHOLD'' = ''_default_risk_score_threshold''" by code_simp
  from failed_execution_keeps_setting [OF row k p,
      of "\<lparr>env_fault = None, runtime_fault = Some ''disk full''\<rparr>" "''disk full''" ch_proposer 9]
  show ?thesis unfolding a by force
qed

theorem legacy_vote_admits_anyone_witness:
  "\<exists>g' fs as. cast_proposal_vote 5 1 ''eve'' ''for'' after_votes = (g', Inr (fs, as)) \<and> ''eve'' \<in> set fs"
proof -
  have "map_option (\<lambda>p. (gp_status p, gp_voting_ends_at p)) (proposal_row after_votes 1) =
      Some (Active, 259200000000)" by code_simp
  then obtain row where row: "proposal_row after_votes 1 = Some row" "gp_status row = Active"
      "5 \<le> gp_voting_ends_at row" by auto
  have "''eve'' \<notin> set (map cm_member (committee after_votes))" by code_simp
  then have nm: "''eve'' \<notin> cm_member ` set (committee after_votes)" by simp
  have "''eve'' \<notin> set (map gv_voter (trows (votes after_votes)))" by code_simp
  then have nv: "\<forall>v \<in> set (trows (votes after_votes)). gv_voter v \<noteq> ''eve''"
    by (metis imageI list.set_map)
  from legacy_vote_admits_anyone [OF nm row nv] show ?thesis by blast
qed

end
