(* ===== verification/Lease.thy ===== *)
theory Lease
  imports LL_Prelude
begin

text \<open>
  \<open>detection/soroban_lease.py\<close>: which region may publish to the registry. The Kubernetes API is
  not part of the repository: its three calls are the arguments \<open>read\<close>, \<open>create\<close> and \<open>replace\<close>
  on a server state, and \<open>optimistic_server\<close> states the documented behaviour the module relies on
  (a replace takes effect only for the current resource version and stores the given spec).
  Sleeping between attempts has no effect on the state. \<open>now\<close> is \<open>time.time()\<close>.
\<close>

record lease_spec =
  holder_identity :: "string option"
  lease_duration_seconds :: int
  renew_time :: "rat option"

record lease =
  lease_version :: nat
  lease_spec :: lease_spec

datatype read_result = Read_ok lease | Read_404 | Read_error

datatype renew_result = Renewed | Lease_renewal_error

record lease_settings =
  renew_lead_seconds :: rat
  warn_window_seconds :: rat
  max_renew_attempts :: int

definition default_lease_settings :: lease_settings where
  "default_lease_settings =
     \<lparr>renew_lead_seconds = 10, warn_window_seconds = 15, max_renew_attempts = 3\<rparr>"

text \<open>The spec every write carries: it has no \<open>renew_time\<close>.\<close>

definition lease_body :: "string \<Rightarrow> int \<Rightarrow> lease_spec" where
  "lease_body region duration =
     \<lparr>holder_identity = Some region, lease_duration_seconds = duration, renew_time = None\<rparr>"

text \<open>\<open>replace version spec w\<close> is the server after the call and whether it was accepted.\<close>

fun renew_attempts ::
  "(nat \<Rightarrow> lease_spec \<Rightarrow> 'w \<Rightarrow> 'w \<times> bool) \<Rightarrow> nat \<Rightarrow> lease_spec \<Rightarrow> nat \<Rightarrow> 'w \<Rightarrow> 'w \<times> bool" where
  "renew_attempts replace version body 0 w = (w, False)"
| "renew_attempts replace version body (Suc n) w =
     (case replace version body w of
        (w', True) \<Rightarrow> (w', True)
      | (w', False) \<Rightarrow> renew_attempts replace version body n w')"

definition renew_lease ::
  "lease_settings \<Rightarrow> (nat \<Rightarrow> lease_spec \<Rightarrow> 'w \<Rightarrow> 'w \<times> bool) \<Rightarrow> lease \<Rightarrow> string \<Rightarrow> int \<Rightarrow> 'w \<Rightarrow> 'w \<times> bool" where
  "renew_lease cfg replace lease region duration w =
     renew_attempts replace (lease_version lease) (lease_body region duration)
       (nat (max 1 (max_renew_attempts cfg))) w"

definition is_stale :: "rat \<Rightarrow> int \<Rightarrow> lease_spec \<Rightarrow> bool" where
  "is_stale now duration spec \<longleftrightarrow>
     (case holder_identity spec of None \<Rightarrow> True | Some h \<Rightarrow>
        h = '''' \<or> (case renew_time spec of None \<Rightarrow> False | Some t \<Rightarrow> of_int duration < now - t))"

definition acquire_submission_lease ::
  "bool \<Rightarrow> lease_settings \<Rightarrow> ('w \<Rightarrow> read_result) \<Rightarrow> (lease_spec \<Rightarrow> 'w \<Rightarrow> 'w \<times> bool) \<Rightarrow>
   (nat \<Rightarrow> lease_spec \<Rightarrow> 'w \<Rightarrow> 'w \<times> bool) \<Rightarrow> rat \<Rightarrow> string \<Rightarrow> int \<Rightarrow> 'w \<Rightarrow> 'w \<times> bool" where
  "acquire_submission_lease enabled cfg read create replace now region duration w =
     (if \<not> enabled then (w, True)
      else case read w of
        Read_404 \<Rightarrow> create (lease_body region duration) w
      | Read_error \<Rightarrow> (w, False)
      | Read_ok lease \<Rightarrow>
          if \<not> is_stale now duration (lease_spec lease)
          then (w, holder_identity (lease_spec lease) = Some region)
          else renew_lease cfg replace lease region duration w)"

definition remaining :: "rat \<Rightarrow> int \<Rightarrow> lease_spec \<Rightarrow> rat option" where
  "remaining now duration spec = map_option (\<lambda>t. of_int duration - (now - t)) (renew_time spec)"

text \<open>With the state after the call comes the outcome: returned, or the error that pauses publication.\<close>

definition renew_submission_lease ::
  "bool \<Rightarrow> lease_settings \<Rightarrow> ('w \<Rightarrow> read_result) \<Rightarrow> (nat \<Rightarrow> lease_spec \<Rightarrow> 'w \<Rightarrow> 'w \<times> bool) \<Rightarrow>
   rat \<Rightarrow> string \<Rightarrow> int \<Rightarrow> 'w \<Rightarrow> 'w \<times> renew_result" where
  "renew_submission_lease enabled cfg read replace now region duration w =
     (if \<not> enabled then (w, Renewed)
      else case read w of
        Read_404 \<Rightarrow> (w, Lease_renewal_error)
      | Read_error \<Rightarrow> (w, Lease_renewal_error)
      | Read_ok lease \<Rightarrow>
          (case remaining now duration (lease_spec lease) of
             Some left \<Rightarrow>
               if renew_lead_seconds cfg < left then (w, Renewed)
               else (case renew_lease cfg replace lease region duration w of
                       (w', ok) \<Rightarrow> (w', if ok then Renewed else Lease_renewal_error))
           | None \<Rightarrow>
               (case renew_lease cfg replace lease region duration w of
                  (w', ok) \<Rightarrow> (w', if ok then Renewed else Lease_renewal_error))))"

subsection \<open>The server\<close>

definition optimistic_server ::
  "('w \<Rightarrow> read_result) \<Rightarrow> (lease_spec \<Rightarrow> 'w \<Rightarrow> 'w \<times> bool) \<Rightarrow> (nat \<Rightarrow> lease_spec \<Rightarrow> 'w \<Rightarrow> 'w \<times> bool) \<Rightarrow> bool" where
  "optimistic_server read create replace \<longleftrightarrow>
     (\<forall>w spec w'. create spec w = (w', True) \<longrightarrow> read w = Read_404 \<and>
        (\<exists>v. read w' = Read_ok \<lparr>lease_version = v, lease_spec = spec\<rparr>)) \<and>
     (\<forall>w spec w'. create spec w = (w', False) \<longrightarrow> w' = w) \<and>
     (\<forall>w v spec w'. replace v spec w = (w', True) \<longrightarrow>
        (\<exists>l. read w = Read_ok l \<and> lease_version l = v) \<and>
        (\<exists>v'. read w' = Read_ok \<lparr>lease_version = v', lease_spec = spec\<rparr>)) \<and>
     (\<forall>w v spec w'. replace v spec w = (w', False) \<longrightarrow> w' = w)"

lemma server_rules:
  assumes "optimistic_server read create replace"
  shows "create spec w = (w', True) \<Longrightarrow> \<exists>v. read w' = Read_ok \<lparr>lease_version = v, lease_spec = spec\<rparr>"
    and "create spec w = (w', False) \<Longrightarrow> w' = w"
    and "replace v spec w = (w', True) \<Longrightarrow> \<exists>v'. read w' = Read_ok \<lparr>lease_version = v', lease_spec = spec\<rparr>"
    and "replace v spec w = (w', False) \<Longrightarrow> w' = w"
  using assms unfolding optimistic_server_def by metis+

definition holder :: "('w \<Rightarrow> read_result) \<Rightarrow> 'w \<Rightarrow> string option" where
  "holder read w = (case read w of Read_ok l \<Rightarrow> holder_identity (lease_spec l) | _ \<Rightarrow> None)"

lemma renew_attempts_result:
  assumes "optimistic_server read create replace" "renew_attempts replace v body n w = (w', ok)"
  shows "(ok \<longrightarrow> (\<exists>v'. read w' = Read_ok \<lparr>lease_version = v', lease_spec = body\<rparr>)) \<and> (\<not> ok \<longrightarrow> w' = w)"
  using assms(2)
proof (induction n arbitrary: w)
  case (Suc n)
  obtain w1 b where r: "replace v body w = (w1, b)" by (cases "replace v body w")
  show ?case
  proof (cases b)
    case True
    with r Suc.prems server_rules(3) [OF assms(1)] show ?thesis by auto
  next
    case False
    with r have "w1 = w" using server_rules(4) [OF assms(1)] by simp
    with r False Suc.prems have "renew_attempts replace v body n w = (w', ok)" by simp
    then show ?thesis by (rule Suc.IH)
  qed
qed auto

lemma renew_lease_result:
  assumes "optimistic_server read create replace" "renew_lease cfg replace l region d w = (w', ok)"
  shows "(ok \<longrightarrow> (\<exists>v'. read w' = Read_ok \<lparr>lease_version = v', lease_spec = lease_body region d\<rparr>)) \<and>
    (\<not> ok \<longrightarrow> w' = w)"
  using renew_attempts_result [OF assms(1)] assms(2) by (simp add: renew_lease_def)

text \<open>With leasing enabled, acquiring answers yes only if the region is then the holder; a region that is
  not the holder of a lease that is not stale is refused and changes nothing.\<close>

theorem acquire_only_as_holder:
  assumes "optimistic_server read create replace"
    and "acquire_submission_lease True cfg read create replace now region d w = (w', ok)"
  shows "(ok \<longrightarrow> holder read w' = Some region) \<and> (\<not> ok \<longrightarrow> w' = w) \<and>
    (\<forall>l. read w = Read_ok l \<longrightarrow> \<not> is_stale now d (lease_spec l) \<longrightarrow> w' = w \<and> (ok = (holder read w = Some region)))"
proof (cases "read w")
  case (Read_ok l)
  show ?thesis
  proof (cases "is_stale now d (lease_spec l)")
    case True
    with Read_ok assms(2) have "renew_lease cfg replace l region d w = (w', ok)"
      by (simp add: acquire_submission_lease_def)
    from renew_lease_result [OF assms(1) this] True Read_ok show ?thesis
      by (auto simp: holder_def lease_body_def)
  next
    case False
    with Read_ok assms(2) show ?thesis by (auto simp: acquire_submission_lease_def holder_def)
  qed
next
  case Read_404
  with assms have c: "create (lease_body region d) w = (w', ok)" by (simp add: acquire_submission_lease_def)
  show ?thesis
  proof (cases ok)
    case True
    with c have "create (lease_body region d) w = (w', True)" by simp
    from server_rules(1) [OF assms(1) this] obtain v where
      "read w' = Read_ok \<lparr>lease_version = v, lease_spec = lease_body region d\<rparr>" by blast
    with True Read_404 show ?thesis by (simp add: holder_def lease_body_def)
  next
    case False
    with c server_rules(2) [OF assms(1)] Read_404 show ?thesis by auto
  qed
next
  case Read_error
  with assms show ?thesis by (auto simp: acquire_submission_lease_def)
qed

text \<open>A server of one lease, for concrete runs.\<close>

definition one_read :: "lease option \<Rightarrow> read_result" where
  "one_read w = (case w of None \<Rightarrow> Read_404 | Some l \<Rightarrow> Read_ok l)"

definition one_create :: "lease_spec \<Rightarrow> lease option \<Rightarrow> lease option \<times> bool" where
  "one_create spec w = (case w of None \<Rightarrow> (Some \<lparr>lease_version = 1, lease_spec = spec\<rparr>, True) | Some l \<Rightarrow> (w, False))"

definition one_replace :: "nat \<Rightarrow> lease_spec \<Rightarrow> lease option \<Rightarrow> lease option \<times> bool" where
  "one_replace v spec w =
     (case w of None \<Rightarrow> (w, False)
      | Some l \<Rightarrow> if lease_version l = v then (Some \<lparr>lease_version = v + 1, lease_spec = spec\<rparr>, True) else (w, False))"

lemma one_server: "optimistic_server one_read one_create one_replace"
  by (auto simp: optimistic_server_def one_read_def one_create_def one_replace_def
      split: option.splits if_splits)

theorem acquire_only_as_holder_witness:
  "holder one_read (fst (acquire_submission_lease True default_lease_settings one_read one_create one_replace
     5 ''eu'' 30 None)) = Some ''eu''"
proof -
  have "acquire_submission_lease True default_lease_settings one_read one_create one_replace 5 ''eu'' 30 None =
      (Some \<lparr>lease_version = 1, lease_spec = lease_body ''eu'' 30\<rparr>, True)"
    by (simp add: acquire_submission_lease_def one_read_def one_create_def)
  from acquire_only_as_holder [OF one_server this] show ?thesis
    using \<open>acquire_submission_lease _ _ _ _ _ _ _ _ _ = _\<close> by simp
qed

subsection \<open>No failover\<close>

text \<open>Any number of other regions trying to acquire, at any times.\<close>

fun try_regions ::
  "lease_settings \<Rightarrow> ('w \<Rightarrow> read_result) \<Rightarrow> (lease_spec \<Rightarrow> 'w \<Rightarrow> 'w \<times> bool) \<Rightarrow>
   (nat \<Rightarrow> lease_spec \<Rightarrow> 'w \<Rightarrow> 'w \<times> bool) \<Rightarrow> (string \<times> rat \<times> int) list \<Rightarrow> 'w \<Rightarrow> 'w \<times> bool list" where
  "try_regions cfg read create replace [] w = (w, [])"
| "try_regions cfg read create replace ((region, now, d) # rest) w =
     (case acquire_submission_lease True cfg read create replace now region d w of
        (w', ok) \<Rightarrow> (case try_regions cfg read create replace rest w' of (w'', oks) \<Rightarrow> (w'', ok # oks)))"

lemma held_without_renew_time:
  assumes "read w = Read_ok l" "lease_spec l = lease_body a d0" "a \<noteq> ''''"
  shows "acquire_submission_lease True cfg read create replace now region d w = (w, region = a)"
  using assms by (auto simp: acquire_submission_lease_def is_stale_def lease_body_def)

text \<open>No write of this module sets the renewal time, so the lease a region has acquired never becomes
  stale: once it is held, every attempt of every other region fails, at whatever later time, even
  if the holder has been dead for ever.\<close>

theorem dead_holder_is_never_replaced:
  assumes "optimistic_server read create replace" "a \<noteq> ''''"
    and "read w0 = Read_404 \<or> (\<exists>l. read w0 = Read_ok l \<and> is_stale now0 d0 (lease_spec l))"
    and "acquire_submission_lease True cfg read create replace now0 a d0 w0 = (w, True)"
    and "\<forall>(region, now, d) \<in> set attempts. region \<noteq> a"
  shows "try_regions cfg read create replace attempts w = (w, map (\<lambda>_. False) attempts)"
proof -
  have "\<exists>v. read w = Read_ok \<lparr>lease_version = v, lease_spec = lease_body a d0\<rparr>"
    using assms(3)
  proof
    assume "read w0 = Read_404"
    with assms(4) have "create (lease_body a d0) w0 = (w, True)"
      by (simp add: acquire_submission_lease_def)
    then show ?thesis by (rule server_rules(1) [OF assms(1)])
  next
    assume "\<exists>l. read w0 = Read_ok l \<and> is_stale now0 d0 (lease_spec l)"
    then obtain l where "read w0 = Read_ok l" "is_stale now0 d0 (lease_spec l)" by blast
    with assms(4) have "renew_lease cfg replace l a d0 w0 = (w, True)"
      by (simp add: acquire_submission_lease_def)
    with renew_lease_result [OF assms(1)] show ?thesis by blast
  qed
  then obtain v where v: "read w = Read_ok \<lparr>lease_version = v, lease_spec = lease_body a d0\<rparr>" by blast
  have h: "acquire_submission_lease True cfg read create replace now region d w = (w, region = a)" for now region d
    using held_without_renew_time [of read w _ a d0] v assms(2) by simp
  show ?thesis
    using assms(5) by (induction attempts) (auto simp: h)
qed

theorem dead_holder_is_never_replaced_witness:
  "snd (try_regions default_lease_settings one_read one_create one_replace
     [(''us'', 100, 30), (''us'', 1000000, 30)]
     (Some \<lparr>lease_version = 1, lease_spec = lease_body ''eu'' 30\<rparr>)) = [False, False]"
proof -
  have a: "acquire_submission_lease True default_lease_settings one_read one_create one_replace 5 ''eu'' 30 None =
      (Some \<lparr>lease_version = 1, lease_spec = lease_body ''eu'' 30\<rparr>, True)"
    by (simp add: acquire_submission_lease_def one_read_def one_create_def)
  have n: "one_read None = Read_404 \<or> (\<exists>l. one_read None = Read_ok l \<and> is_stale 5 30 (lease_spec l))"
    by (simp add: one_read_def)
  from dead_holder_is_never_replaced [OF one_server _ n a, of "[(''us'', 100, 30), (''us'', 1000000, 30)]"]
  show ?thesis by simp
qed

text \<open>Renewing does not look at who holds the lease: a region that renews while another one holds it
  takes it over and is told to go on, so both believe they may publish.\<close>

theorem renew_takes_over_foreign_lease:
  assumes "read w = Read_ok l" "lease_spec l = lease_body a d0" "a \<noteq> ''''" "b \<noteq> a"
    and "replace (lease_version l) (lease_body b d) w = (w', True)" "optimistic_server read create replace"
  shows "acquire_submission_lease True cfg read create replace now a d0 w = (w, True) \<and>
    renew_submission_lease True cfg read replace now b d w = (w', Renewed) \<and> holder read w' = Some b"
proof -
  obtain n where n: "nat (max 1 (max_renew_attempts cfg)) = Suc n"
    by (cases "nat (max 1 (max_renew_attempts cfg))") auto
  have ok: "\<exists>v. read w' = Read_ok \<lparr>lease_version = v, lease_spec = lease_body b d\<rparr>"
    by (rule server_rules(3) [OF assms(6,5)])
  have rem: "remaining now d (lease_spec l) = None" using assms(2) by (simp add: remaining_def lease_body_def)
  have "renew_submission_lease True cfg read replace now b d w = (w', Renewed)"
    using assms(1,5) n rem by (simp add: renew_submission_lease_def renew_lease_def)
  moreover have "holder read w' = Some b" using ok by (auto simp: holder_def lease_body_def)
  moreover have "acquire_submission_lease True cfg read create replace now a d0 w = (w, True)"
    using held_without_renew_time [of read w l a d0] assms(1-3) by simp
  ultimately show ?thesis by blast
qed

theorem renew_takes_over_foreign_lease_witness:
  "snd (renew_submission_lease True default_lease_settings one_read one_replace 7 ''us'' 30
     (Some \<lparr>lease_version = 1, lease_spec = lease_body ''eu'' 30\<rparr>)) = Renewed"
proof -
  let ?l = "\<lparr>lease_version = 1, lease_spec = lease_body ''eu'' 30\<rparr>"
  have r: "one_read (Some ?l) = Read_ok ?l" by (simp add: one_read_def)
  have u: "one_replace (lease_version ?l) (lease_body ''us'' 30) (Some ?l) =
      (Some \<lparr>lease_version = 2, lease_spec = lease_body ''us'' 30\<rparr>, True)"
    by (simp add: one_replace_def)
  have n: "lease_spec ?l = lease_body ''eu'' 30" "''eu'' \<noteq> ''''" "''us'' \<noteq> ''eu''" by simp_all
  from renew_takes_over_foreign_lease [OF r n u one_server, of default_lease_settings 7]
  show ?thesis by simp
qed

end
