(* ===== verification/Finality.thy ===== *)
theory Finality
  imports LL_Prelude "HOL-Library.AList"
begin

text \<open>
  \<open>ingestion/evm_finality.py\<close>: which EVM blocks are final, and which ingested transactions a reorg
  orphans. The dictionary of tracked blocks is an association list in insertion order with one
  entry per number; the canonical chain is the caller's function.
\<close>

record tracked_block =
  block_hash :: string
  tx_hashes :: "string set"

record finality =
  confirmation_depth :: int
  reorg_check_blocks :: int
  blocks :: "(int \<times> tracked_block) list"

definition FinalityTracker :: "int \<Rightarrow> int \<Rightarrow> finality option" where
  "FinalityTracker depth check =
     (if depth < 0 then None
      else Some \<lparr>confirmation_depth = depth, reorg_check_blocks = check, blocks = []\<rparr>)"

definition finalized_head :: "finality \<Rightarrow> int \<Rightarrow> int" where
  "finalized_head f latest = max 0 (latest - confirmation_depth f)"

definition is_final :: "finality \<Rightarrow> int \<Rightarrow> int \<Rightarrow> bool" where
  "is_final f number latest \<longleftrightarrow> number \<le> finalized_head f latest"

definition record_tx :: "int \<Rightarrow> string \<Rightarrow> string \<Rightarrow> finality \<Rightarrow> finality" where
  "record_tx number hash tx f =
     (if hash = [] then f
      else
        let tracked = (case map_of (blocks f) number of
              None \<Rightarrow> \<lparr>block_hash = hash, tx_hashes = {}\<rparr>
            | Some t \<Rightarrow> if block_hash t \<noteq> hash then \<lparr>block_hash = hash, tx_hashes = {}\<rparr> else t)
        in f\<lparr>blocks := AList.update number (tracked\<lparr>tx_hashes := insert tx (tx_hashes tracked)\<rparr>) (blocks f)\<rparr>)"

definition disagrees :: "(int \<Rightarrow> string option) \<Rightarrow> int \<times> tracked_block \<Rightarrow> bool" where
  "disagrees canonical b =
     (case canonical (fst b) of None \<Rightarrow> False | Some h \<Rightarrow> lower h \<noteq> lower (block_hash (snd b)))"

definition check_reorgs ::
  "int \<Rightarrow> (int \<Rightarrow> string option) \<Rightarrow> finality \<Rightarrow> finality \<times> (int \<times> string set) list" where
  "check_reorgs latest canonical f =
     (let oldest = finalized_head f latest - reorg_check_blocks f;
          kept = filter (\<lambda>b. \<not> fst b < oldest) (blocks f);
          orphaned = map (\<lambda>b. (fst b, tx_hashes (snd b))) (filter (disagrees canonical) (sort_key fst kept))
      in (f\<lparr>blocks := filter (\<lambda>b. fst b \<notin> fst ` set orphaned) kept\<rparr>, orphaned))"

definition finality_ok :: "finality \<Rightarrow> bool" where
  "finality_ok f \<longleftrightarrow> distinct (map fst (blocks f))"

lemma finality_ok_init: "FinalityTracker d c = Some f \<Longrightarrow> finality_ok f"
  by (auto simp: FinalityTracker_def finality_ok_def split: if_splits)

lemma finality_ok_record: "finality_ok f \<Longrightarrow> finality_ok (record_tx n h t f)"
  by (simp add: finality_ok_def record_tx_def Let_def distinct_update)

lemma orphaned_set:
  "set (snd (check_reorgs latest canonical f)) =
     (\<lambda>b. (fst b, tx_hashes (snd b))) ` {b \<in> set (blocks f).
        finalized_head f latest - reorg_check_blocks f \<le> fst b \<and> disagrees canonical b}"
  by (auto simp: check_reorgs_def Let_def)

lemma distinct_fst_filter_sort:
  "distinct (map fst xs) \<Longrightarrow> distinct (map fst (filter P (sort_key fst (xs :: (int \<times> 'b) list))))"
  by (auto simp: distinct_map intro: inj_on_subset)

lemma check_reorgs_blocks:
  assumes "finality_ok f"
  shows "set (blocks (fst (check_reorgs latest canonical f))) =
    {b \<in> set (blocks f). finalized_head f latest - reorg_check_blocks f \<le> fst b \<and> \<not> disagrees canonical b}"
proof -
  let ?o = "finalized_head f latest - reorg_check_blocks f"
  let ?kept = "filter (\<lambda>b. \<not> fst b < ?o) (blocks f)"
  let ?orphaned = "map (\<lambda>b. (fst b, tx_hashes (snd b))) (filter (disagrees canonical) (sort_key fst ?kept))"
  have d: "inj_on fst (set (blocks f))" using assms by (simp add: finality_ok_def distinct_map)
  have keys: "fst b \<in> fst ` set ?orphaned \<longleftrightarrow> disagrees canonical b" if "b \<in> set ?kept" for b
  proof
    assume "fst b \<in> fst ` set ?orphaned"
    then obtain c where c: "c \<in> set ?kept" "disagrees canonical c" "fst c = fst b" by auto
    then have "c = b" using d that by (auto dest: inj_onD)
    with c(2) show "disagrees canonical b" by simp
  next
    assume "disagrees canonical b"
    then show "fst b \<in> fst ` set ?orphaned" using that by force
  qed
  have "filter (\<lambda>b. fst b \<notin> fst ` set ?orphaned) ?kept = filter (\<lambda>b. \<not> disagrees canonical b) ?kept"
    by (rule filter_cong) (simp_all only: keys refl)
  then show ?thesis by (auto simp: check_reorgs_def Let_def)
qed

lemma check_reorgs_ordered:
  assumes "finality_ok f"
  shows "sorted_wrt (<) (map fst (snd (check_reorgs latest canonical f)))"
proof -
  let ?kept = "filter (\<lambda>b. \<not> fst b < finalized_head f latest - reorg_check_blocks f) (blocks f)"
  have "distinct (map fst ?kept)" using assms by (auto simp: finality_ok_def distinct_map intro: inj_on_subset)
  then have "distinct (map fst (filter (disagrees canonical) (sort_key fst ?kept)))"
    by (rule distinct_fst_filter_sort)
  moreover have "sorted (map fst (filter (disagrees canonical) (sort_key fst ?kept)))"
    by (metis sorted_filter sorted_sort_key)
  moreover have "map fst (snd (check_reorgs latest canonical f)) = map fst (filter (disagrees canonical) (sort_key fst ?kept))"
    by (simp add: check_reorgs_def Let_def)
  ultimately show ?thesis by (simp add: strict_sorted_iff)
qed

lemma check_reorgs_frame:
  "confirmation_depth (fst (check_reorgs latest canonical f)) = confirmation_depth f"
  "reorg_check_blocks (fst (check_reorgs latest canonical f)) = reorg_check_blocks f"
  by (simp_all add: check_reorgs_def Let_def)

lemma finality_ok_check: "finality_ok f \<Longrightarrow> finality_ok (fst (check_reorgs latest canonical f))"
  by (auto simp: finality_ok_def check_reorgs_def Let_def distinct_map intro: inj_on_subset)

text \<open>A check returns, in block order and once each, exactly the tracked blocks inside the window whose
  hash the canonical chain contradicts, with all the transactions recorded for that hash; it keeps
  exactly the other blocks of the window, so no kept block contradicts the chain and a second
  check against the same chain finds nothing.\<close>

theorem check_reorgs_exact:
  assumes "finality_ok f" "check_reorgs latest canonical f = (f', orphaned)"
  shows "sorted_wrt (<) (map fst orphaned) \<and>
    set orphaned = {(n, txs). \<exists>b. (n, b) \<in> set (blocks f) \<and> txs = tx_hashes b \<and>
       finalized_head f latest - reorg_check_blocks f \<le> n \<and> disagrees canonical (n, b)} \<and>
    set (blocks f') = {b \<in> set (blocks f). finalized_head f latest - reorg_check_blocks f \<le> fst b \<and>
       \<not> disagrees canonical b} \<and>
    finality_ok f' \<and> snd (check_reorgs latest canonical f') = []"
proof -
  let ?o = "finalized_head f latest - reorg_check_blocks f"
  have f': "f' = fst (check_reorgs latest canonical f)" "orphaned = snd (check_reorgs latest canonical f)"
    using assms(2) by simp_all
  have b': "set (blocks f') = {b \<in> set (blocks f). ?o \<le> fst b \<and> \<not> disagrees canonical b}"
    unfolding f' using assms(1) by (rule check_reorgs_blocks)
  have "set (snd (check_reorgs latest canonical f')) = {}"
    unfolding orphaned_set b' finalized_head_def using check_reorgs_frame [of latest canonical f] f' by auto
  moreover have "set orphaned = {(n, txs). \<exists>b. (n, b) \<in> set (blocks f) \<and> txs = tx_hashes b \<and>
       ?o \<le> n \<and> disagrees canonical (n, b)}"
    unfolding f'(2) orphaned_set image_def by auto
  ultimately show ?thesis
    using b' check_reorgs_ordered [OF assms(1), of latest canonical] finality_ok_check [OF assms(1)] f' by simp
qed
definition finality_demo :: finality where
  "finality_demo = \<lparr>confirmation_depth = 2, reorg_check_blocks = 10, blocks = []\<rparr>"

theorem check_reorgs_exact_witness:
  "(5, {''t1''}) \<in> set (snd (check_reorgs 8 (\<lambda>_. Some ''0xbb'') (record_tx 5 ''0xaa'' ''t1'' finality_demo)))"
proof -
  have ok: "finality_ok (record_tx 5 ''0xaa'' ''t1'' finality_demo)"
    by (rule finality_ok_record) (simp add: finality_ok_def finality_demo_def)
  have bl: "blocks (record_tx 5 ''0xaa'' ''t1'' finality_demo) = [(5, \<lparr>block_hash = ''0xaa'', tx_hashes = {''t1''}\<rparr>)]"
    by (simp add: record_tx_def finality_demo_def)
  have dis: "disagrees (\<lambda>_. Some ''0xbb'') (5, \<lparr>block_hash = ''0xaa'', tx_hashes = {''t1''}\<rparr>)"
    unfolding disagrees_def by code_simp
  have h: "finalized_head (record_tx 5 ''0xaa'' ''t1'' finality_demo) 8 = 6"
    "reorg_check_blocks (record_tx 5 ''0xaa'' ''t1'' finality_demo) = 10"
    by (simp_all add: record_tx_def finality_demo_def finalized_head_def)
  from check_reorgs_exact [OF ok surjective_pairing, of 8 "\<lambda>_. Some ''0xbb''"] dis
  show ?thesis unfolding bl h by auto
qed

text \<open>Recording another hash for a block number, be it only the same hash in other letters, drops the
  transactions recorded before: no later check, whatever the canonical chain, returns them, so the
  transactions of an orphaned block are not retracted when the block that replaced it was ingested
  before the check.\<close>

theorem rerecorded_block_forgets_transactions:
  assumes "finality_ok f" "h2 \<noteq> h1" "h1 \<noteq> []" "h2 \<noteq> []" "t2 \<noteq> t1"
    and "\<forall>b \<in> set (blocks f). fst b \<noteq> n \<longrightarrow> t1 \<notin> tx_hashes (snd b)"
  shows "t1 \<notin> \<Union> (snd ` set (snd (check_reorgs latest canonical
      (record_tx n h2 t2 (record_tx n h1 t1 f)))))"
proof -
  define f1 where "f1 = record_tx n h1 t1 f"
  define f2 where "f2 = record_tx n h2 t2 f1"
  obtain b1 where b1: "blocks f1 = AList.update n b1 (blocks f)" "block_hash b1 = h1"
    using assms(3) by (auto simp: f1_def record_tx_def Let_def split: option.split)
  have b2: "blocks f2 = AList.update n \<lparr>block_hash = h2, tx_hashes = {t2}\<rparr> (blocks f1)"
    using assms(2,4) b1 by (simp add: f2_def record_tx_def Let_def update_conv')
  have u: "set (AList.update n v al) \<subseteq> {(n, v)} \<union> {b \<in> set al. fst b \<noteq> n}"
    if "distinct (map fst al)" for v and al :: "(int \<times> tracked_block) list"
    using that by (induction al) (auto simp: image_iff)
  have d: "distinct (map fst (blocks f))" "distinct (map fst (blocks f1))"
    using assms(1) finality_ok_record [OF assms(1)] by (simp_all add: finality_ok_def f1_def)
  have "t1 \<notin> tx_hashes (snd b)" if "b \<in> set (blocks f2)" for b
    using u [OF d(2)] u [OF d(1)] that assms(5,6) unfolding b1(1) b2 by fastforce
  then show ?thesis using orphaned_set [of latest canonical f2] by (auto simp: f2_def f1_def)
qed

theorem rerecorded_block_forgets_transactions_witness:
  "''t1'' \<notin> \<Union> (snd ` set (snd (check_reorgs 8 (\<lambda>_. Some ''0xbb'')
      (record_tx 5 ''0xbb'' ''t2'' (record_tx 5 ''0xaa'' ''t1'' finality_demo)))))"
  by (rule rerecorded_block_forgets_transactions) (simp_all add: finality_ok_def finality_demo_def)

end
