(* ===== verification/Rate_Limit.thy ===== *)
theory Rate_Limit
  imports LL_Prelude
begin

text \<open>
  \<open>ingestion/rate_limiter.py\<close>: the token bucket, the backpressure controller, the controller that
  halves the rate on HTTP 429, and the bucket tuned by Horizon's headers. Seconds and token
  counts are exact rationals; every clock reading is an argument. A blocking loop reads a clock
  given as a function of how often it has been read.
\<close>

definition MIN_RATE :: rat where "MIN_RATE = 1 / 10"

subsection \<open>Token bucket\<close>

record token_bucket =
  tb_rate :: rat
  tb_capacity :: rat
  tb_tokens :: rat
  tb_last_refill :: rat

text \<open>\<open>capacity or rate * 2.0\<close>: zero counts as absent.\<close>

definition TokenBucket :: "rat \<Rightarrow> rat option \<Rightarrow> rat \<Rightarrow> token_bucket option" where
  "TokenBucket rate capacity now =
     (if rate \<le> 0 then None
      else
        let cap = (case capacity of None \<Rightarrow> rate * 2 | Some c \<Rightarrow> if c = 0 then rate * 2 else c) in
        Some \<lparr>tb_rate = rate, tb_capacity = cap, tb_tokens = cap, tb_last_refill = now\<rparr>)"

definition set_rate :: "rat \<Rightarrow> token_bucket \<Rightarrow> token_bucket" where
  "set_rate new_rate b = b\<lparr>tb_rate := max new_rate MIN_RATE\<rparr>"

definition refill :: "rat \<Rightarrow> token_bucket \<Rightarrow> token_bucket" where
  "refill now b =
     b\<lparr>tb_tokens := min (tb_capacity b) (tb_tokens b + (now - tb_last_refill b) * tb_rate b),
       tb_last_refill := now\<rparr>"

definition bucket_level :: "rat \<Rightarrow> token_bucket \<Rightarrow> token_bucket \<times> rat" where
  "bucket_level now b = (let b' = refill now b in (b', tb_tokens b'))"

definition try_acquire :: "rat \<Rightarrow> token_bucket \<Rightarrow> token_bucket \<times> bool" where
  "try_acquire now b =
     (let b' = refill now b in
      if 1 \<le> tb_tokens b' then (b'\<lparr>tb_tokens := tb_tokens b' - 1\<rparr>, True) else (b', False))"

text \<open>The waiting loop, from the \<open>i\<close>-th reading of the clock on; \<open>None\<close> if it never returns.\<close>

partial_function (option) acquire_loop ::
  "(nat \<Rightarrow> rat) \<Rightarrow> rat option \<Rightarrow> nat \<Rightarrow> token_bucket \<Rightarrow> (token_bucket \<times> bool) option" where
  "acquire_loop clock deadline i b =
     (if snd (try_acquire (clock i) b) then Some (fst (try_acquire (clock i) b), True)
      else if deadline \<noteq> None \<and> the deadline < clock (Suc i) then Some (fst (try_acquire (clock i) b), False)
      else acquire_loop clock deadline (i + 2) (fst (try_acquire (clock i) b)))"

definition acquire ::
  "(nat \<Rightarrow> rat) \<Rightarrow> rat option \<Rightarrow> token_bucket \<Rightarrow> (token_bucket \<times> bool) option" where
  "acquire clock timeout b =
     (case timeout of
        None \<Rightarrow> acquire_loop clock None 0 b
      | Some s \<Rightarrow> acquire_loop clock (Some (clock 0 + s)) 1 b)"

text \<open>Any mix of non-blocking attempts and rate changes, with the number of admitted attempts.\<close>

datatype bucket_op = Try rat | Set_rate rat

fun bucket_run :: "bucket_op list \<Rightarrow> token_bucket \<Rightarrow> token_bucket \<times> nat" where
  "bucket_run [] b = (b, 0)"
| "bucket_run (Try now # ops) b =
     (case bucket_run ops (fst (try_acquire now b)) of
        (b', n) \<Rightarrow> (b', n + (if snd (try_acquire now b) then 1 else 0)))"
| "bucket_run (Set_rate r # ops) b = bucket_run ops (set_rate r b)"

definition bucket_ok :: "token_bucket \<Rightarrow> bool" where
  "bucket_ok b \<longleftrightarrow> 0 \<le> tb_tokens b \<and> tb_tokens b \<le> tb_capacity b \<and> 0 \<le> tb_rate b"

fun times_ok :: "rat \<Rightarrow> bucket_op list \<Rightarrow> bool" where
  "times_ok t [] = True"
| "times_ok t (Try now # ops) = (t \<le> now \<and> times_ok now ops)"
| "times_ok t (Set_rate r # ops) = times_ok t ops"

fun end_time :: "rat \<Rightarrow> bucket_op list \<Rightarrow> rat" where
  "end_time t [] = t"
| "end_time t (Try now # ops) = end_time now ops"
| "end_time t (Set_rate r # ops) = end_time t ops"

fun rates_below :: "rat \<Rightarrow> bucket_op list \<Rightarrow> bool" where
  "rates_below R [] = True"
| "rates_below R (Try now # ops) = rates_below R ops"
| "rates_below R (Set_rate r # ops) = (r \<le> R \<and> rates_below R ops)"

lemma TokenBucket_ok: "TokenBucket r c now = Some b \<Longrightarrow> (\<forall>x. c = Some x \<longrightarrow> 0 \<le> x) \<Longrightarrow> bucket_ok b"
  by (auto simp: TokenBucket_def bucket_ok_def Let_def split: if_splits option.splits)

lemma refill_ok: "bucket_ok b \<Longrightarrow> tb_last_refill b \<le> now \<Longrightarrow> bucket_ok (refill now b)"
  by (simp add: bucket_ok_def refill_def)

lemma try_acquire_ok: "bucket_ok b \<Longrightarrow> tb_last_refill b \<le> now \<Longrightarrow> bucket_ok (fst (try_acquire now b))"
  using refill_ok [of b now] by (auto simp: try_acquire_def Let_def bucket_ok_def)

lemma try_acquire_fields:
  "tb_last_refill (fst (try_acquire now b)) = now" "tb_rate (fst (try_acquire now b)) = tb_rate b"
  "tb_capacity (fst (try_acquire now b)) = tb_capacity b"
  by (simp_all add: try_acquire_def refill_def Let_def)

lemma set_rate_ok: "bucket_ok b \<Longrightarrow> bucket_ok (set_rate r b)"
  by (simp add: bucket_ok_def set_rate_def MIN_RATE_def)

lemma try_acquire_balance:
  assumes "tb_rate b \<le> R" "tb_last_refill b \<le> now"
  shows "tb_tokens (fst (try_acquire now b)) + (if snd (try_acquire now b) then 1 else 0)
    \<le> tb_tokens b + R * (now - tb_last_refill b)"
proof -
  have "(now - tb_last_refill b) * tb_rate b \<le> R * (now - tb_last_refill b)"
    using assms by (simp add: mult.commute mult_right_mono)
  then show ?thesis by (auto simp: try_acquire_def refill_def Let_def)
qed

lemma bucket_run_balance:
  assumes "bucket_ok b" "times_ok (tb_last_refill b) ops" "tb_rate b \<le> R" "rates_below R ops" "MIN_RATE \<le> R"
  shows "bucket_ok (fst (bucket_run ops b)) \<and>
    tb_tokens (fst (bucket_run ops b)) + of_nat (snd (bucket_run ops b))
      \<le> tb_tokens b + R * (end_time (tb_last_refill b) ops - tb_last_refill b)"
  using assms
proof (induction ops arbitrary: b)
  case (Cons op ops)
  show ?case
  proof (cases op)
    case (Try now)
    let ?b = "fst (try_acquire now b)"
    have le: "tb_last_refill b \<le> now" using Cons.prems(2) Try by simp
    have IH: "bucket_ok (fst (bucket_run ops ?b)) \<and>
      tb_tokens (fst (bucket_run ops ?b)) + of_nat (snd (bucket_run ops ?b))
        \<le> tb_tokens ?b + R * (end_time now ops - now)"
      using Cons.IH [of ?b] Cons.prems Try try_acquire_ok [OF Cons.prems(1) le]
      by (simp add: try_acquire_fields)
    show ?thesis
      using IH try_acquire_balance [OF Cons.prems(3) le] Try
      by (auto simp: algebra_simps split: prod.split)
  next
    case (Set_rate r)
    have "bucket_ok (set_rate r b)" "tb_rate (set_rate r b) \<le> R"
      using Cons.prems Set_rate set_rate_ok by (auto simp: set_rate_def)
    with Cons.IH [of "set_rate r b"] Cons.prems Set_rate show ?thesis by (simp add: set_rate_def)
  qed
qed simp

text \<open>In any run of attempts and rate changes, at non-decreasing times and with rates up to \<open>R\<close>, the
  number of admitted attempts is at most the bucket's capacity plus \<open>R\<close> times the elapsed time.\<close>

theorem admitted_at_most_capacity_plus_rate:
  assumes "bucket_ok b" "times_ok (tb_last_refill b) ops" "tb_rate b \<le> R" "rates_below R ops" "MIN_RATE \<le> R"
  shows "of_nat (snd (bucket_run ops b)) \<le> tb_capacity b + R * (end_time (tb_last_refill b) ops - tb_last_refill b)"
  using bucket_run_balance [OF assms] assms(1) by (auto simp: bucket_ok_def)

theorem admitted_at_most_capacity_plus_rate_witness:
  "snd (bucket_run [Try 0, Try 0, Try 0, Set_rate 1, Try 1, Try 1]
     \<lparr>tb_rate = 1, tb_capacity = 2, tb_tokens = 2, tb_last_refill = 0\<rparr>) \<le> 3"
proof -
  have "of_nat (snd (bucket_run [Try 0, Try 0, Try 0, Set_rate 1, Try 1, Try 1]
     \<lparr>tb_rate = 1, tb_capacity = 2, tb_tokens = 2, tb_last_refill = 0\<rparr>)) \<le> (3 :: rat)"
    using admitted_at_most_capacity_plus_rate [of "\<lparr>tb_rate = 1, tb_capacity = 2, tb_tokens = 2, tb_last_refill = 0\<rparr>"
      "[Try 0, Try 0, Try 0, Set_rate 1, Try 1, Try 1]" 1]
    by (simp add: bucket_ok_def MIN_RATE_def)
  then show ?thesis by (metis of_nat_le_iff of_nat_numeral)
qed

subsection \<open>Waiting\<close>

lemma try_acquire_small: "tb_capacity b < 1 \<Longrightarrow> \<not> snd (try_acquire now b)"
  by (simp add: try_acquire_def refill_def Let_def)

lemma acquire_loop_small:
  assumes "acquire_loop clock deadline i b = Some r" "deadline = None"
  shows "\<not> tb_capacity b < 1"
proof -
  define P :: "(nat \<Rightarrow> rat) \<Rightarrow> rat option \<Rightarrow> nat \<Rightarrow> token_bucket \<Rightarrow> token_bucket \<times> bool \<Rightarrow> bool" where
    "P = (\<lambda>clock deadline i b r. deadline = None \<longrightarrow> \<not> tb_capacity b < 1)"
  have "P clock deadline i b r"
  proof (rule acquire_loop.raw_induct [of P, OF _ assms(1)])
    fix loop clock deadline i b r
    assume IH: "\<And>clock deadline i b r. loop clock deadline i b = Some r \<Longrightarrow> P clock deadline i b r"
      and eq: "(if snd (try_acquire (clock i) b) then Some (fst (try_acquire (clock i) b), True)
        else if deadline \<noteq> None \<and> the deadline < clock (Suc i) then Some (fst (try_acquire (clock i) b), False)
        else loop clock deadline (i + 2) (fst (try_acquire (clock i) b))) = Some r"
    show "P clock deadline i b r"
      unfolding P_def
    proof (intro impI)
      assume "deadline = None"
      with eq IH [of clock deadline "i + 2" "fst (try_acquire (clock i) b)" r] show "\<not> tb_capacity b < 1"
        by (cases "snd (try_acquire (clock i) b)") (auto simp: P_def try_acquire_fields dest: try_acquire_small)
    qed
  qed
  with assms(2) show ?thesis by (simp add: P_def)
qed

text \<open>After a refused attempt the tokens are what has flowed in since.\<close>

lemma try_acquire_refused:
  assumes "\<not> snd (try_acquire now b)" "1 \<le> tb_capacity b"
  shows "tb_tokens (fst (try_acquire now b)) = tb_tokens b + (now - tb_last_refill b) * tb_rate b"
  using assms by (auto simp: try_acquire_def refill_def Let_def min_def split: if_splits)

text \<open>Every refused attempt leaves the bucket at most one token minus what the next interval brings,
  so attempts at least \<open>d\<close> apart succeed within \<open>n\<close> rounds once \<open>n * rate * d\<close> reaches a token.\<close>

lemma acquire_loop_returns:
  assumes "bucket_ok b" "1 \<le> tb_capacity b" "0 < d" "\<forall>k. clock k + d \<le> clock (k + 2)"
    and "tb_last_refill b + d \<le> clock i" "1 \<le> tb_tokens b + of_nat (Suc n) * (d * tb_rate b)"
  shows "\<exists>b'. acquire_loop clock None i b = Some (b', True)"
  using assms
proof (induction n arbitrary: i b)
  case 0
  have "d * tb_rate b \<le> (clock i - tb_last_refill b) * tb_rate b"
    using 0(1,5) by (intro mult_right_mono) (auto simp: bucket_ok_def)
  then have "snd (try_acquire (clock i) b)"
    using 0(2,6) by (simp add: try_acquire_def refill_def Let_def)
  then show ?case by (subst acquire_loop.simps) simp
next
  case (Suc n)
  show ?case
  proof (cases "snd (try_acquire (clock i) b)")
    case True
    then show ?thesis by (subst acquire_loop.simps) simp
  next
    case False
    let ?b = "fst (try_acquire (clock i) b)"
    have "d * tb_rate b \<le> (clock i - tb_last_refill b) * tb_rate b"
      using Suc.prems(1,5) by (intro mult_right_mono) (auto simp: bucket_ok_def)
    then have "tb_tokens b + d * tb_rate b \<le> tb_tokens ?b"
      using try_acquire_refused [OF False Suc.prems(2)] by simp
    then have "1 \<le> tb_tokens ?b + of_nat (Suc n) * (d * tb_rate ?b)"
      using Suc.prems(6) by (simp add: try_acquire_fields algebra_simps)
    moreover have "bucket_ok ?b" using Suc.prems(1,3,5) by (intro try_acquire_ok) auto
    moreover have "tb_last_refill ?b + d \<le> clock (i + 2)"
      using Suc.prems(4) by (simp add: try_acquire_fields)
    ultimately have "\<exists>b'. acquire_loop clock None (i + 2) ?b = Some (b', True)"
      using Suc.IH [of ?b "i + 2"] Suc.prems(2,3,4) by (simp add: try_acquire_fields)
    with False show ?thesis by (subst acquire_loop.simps) simp
  qed
qed

text \<open>Waiting without a timeout returns with a token whenever the bucket can hold a whole token and the
  clock advances by some positive amount between attempts; but for a bucket that holds less than
  one token it never returns, however long it waits.\<close>

theorem acquire_returns_iff_capacity:
  assumes "bucket_ok b" "0 < tb_rate b" "0 < d" "\<forall>k. clock k + d \<le> clock (k + 2)" "tb_last_refill b + d \<le> clock 0"
  shows "(1 \<le> tb_capacity b \<longrightarrow> (\<exists>b'. acquire clock None b = Some (b', True))) \<and>
    (tb_capacity b < 1 \<longrightarrow> acquire clock None b = None)"
proof (intro conjI impI)
  assume cap: "1 \<le> tb_capacity b"
  obtain n :: nat where n: "1 / (d * tb_rate b) \<le> of_nat n" using real_arch_simple [where 'a = rat] by blast
  have pos: "0 < d * tb_rate b" using assms(2,3) by simp
  have "1 \<le> of_nat n * (d * tb_rate b)" using n pos by (simp add: field_simps)
  then have "1 \<le> tb_tokens b + of_nat (Suc n) * (d * tb_rate b)"
    using assms(1) pos by (simp add: bucket_ok_def algebra_simps)
  with acquire_loop_returns [OF assms(1) cap assms(3,4,5)] show "\<exists>b'. acquire clock None b = Some (b', True)"
    by (simp add: acquire_def)
next
  assume "tb_capacity b < 1"
  then show "acquire clock None b = None"
    using acquire_loop_small by (cases "acquire clock None b") (auto simp: acquire_def)
qed

theorem acquire_returns_iff_capacity_witness:
  "\<exists>b. TokenBucket (2 / 5) None 0 = Some b \<and> acquire (\<lambda>k. of_nat k + 1) None b = None"
proof -
  let ?b = "\<lparr>tb_rate = 2 / 5, tb_capacity = 4 / 5, tb_tokens = 4 / 5, tb_last_refill = 0\<rparr>"
  have "TokenBucket (2 / 5) None 0 = Some ?b" by (simp add: TokenBucket_def Let_def)
  moreover have "acquire (\<lambda>k. of_nat k + 1) None ?b = None"
    using acquire_returns_iff_capacity [of ?b 1 "\<lambda>k. of_nat k + 1"] by (simp add: bucket_ok_def)
  ultimately show ?thesis by blast
qed

subsection \<open>Backpressure\<close>

record backpressure =
  bp_high :: int
  bp_low :: int
  bp_paused :: bool

text \<open>\<open>sizes\<close> are the queue sizes the call reads one after the other, the first in the watermark check.
  The flag says whether the call returned before they ran out.\<close>

definition check_and_wait :: "int list \<Rightarrow> backpressure \<Rightarrow> backpressure \<times> bool" where
  "check_and_wait sizes c =
     (case sizes of
        [] \<Rightarrow> (c, False)
      | s # rest \<Rightarrow>
          let c1 = (if \<not> bp_paused c \<and> bp_high c \<le> s then c\<lparr>bp_paused := True\<rparr> else c);
              reads = (if bp_paused c then s # rest else rest) in
          if bp_paused c1 then
            (case dropWhile (\<lambda>q. bp_low c < q) reads of
               [] \<Rightarrow> (c1, False)
             | _ \<Rightarrow> (c1\<lparr>bp_paused := False\<rparr>, True))
          else (c1, True))"

lemma check_and_wait_passes:
  "\<not> bp_paused c \<Longrightarrow> s < bp_high c \<Longrightarrow> check_and_wait (s # rest) c = (c, True)"
  by (simp add: check_and_wait_def)

lemma check_and_wait_blocks:
  assumes "\<not> bp_paused c" "bp_high c \<le> s"
  shows "snd (check_and_wait (s # rest) c) = (\<exists>q \<in> set rest. q \<le> bp_low c)"
    and "bp_paused (fst (check_and_wait (s # rest) c)) = (\<forall>q \<in> set rest. bp_low c < q)"
proof -
  have eq: "check_and_wait (s # rest) c =
      (if dropWhile (\<lambda>q. bp_low c < q) rest = [] then (c\<lparr>bp_paused := True\<rparr>, False)
       else (c\<lparr>bp_paused := False\<rparr>, True))"
    using assms by (cases "dropWhile (\<lambda>q. bp_low c < q) rest")
      (simp_all add: check_and_wait_def Let_def del: dropWhile_eq_Nil_conv)
  have nil: "dropWhile (\<lambda>q. bp_low c < q) rest = [] \<longleftrightarrow> (\<forall>q \<in> set rest. bp_low c < q)" by simp
  show "snd (check_and_wait (s # rest) c) = (\<exists>q \<in> set rest. q \<le> bp_low c)"
    "bp_paused (fst (check_and_wait (s # rest) c)) = (\<forall>q \<in> set rest. bp_low c < q)"
    unfolding eq nil by (auto simp: not_less)
qed

subsection \<open>Halving and restoring the rate\<close>

record adaptive =
  ad_configured :: rat
  ad_restore_seconds :: rat
  ad_last_429_at :: "rat option"

definition on_429 :: "rat \<Rightarrow> adaptive \<times> token_bucket \<Rightarrow> adaptive \<times> token_bucket" where
  "on_429 now s = ((fst s)\<lparr>ad_last_429_at := Some now\<rparr>, set_rate (tb_rate (snd s) / 2) (snd s))"

definition tick :: "rat \<Rightarrow> adaptive \<times> token_bucket \<Rightarrow> adaptive \<times> token_bucket" where
  "tick now s =
     (let a = fst s; b = snd s in
      case ad_last_429_at a of
        None \<Rightarrow> s
      | Some t0 \<Rightarrow>
          if ad_restore_seconds a \<le> now - t0
          then (a\<lparr>ad_last_429_at := None\<rparr>, set_rate (ad_configured a) b)
          else (a, set_rate (tb_rate b + (ad_configured a - tb_rate b) * (1 / ad_restore_seconds a)) b))"

datatype adaptive_op = On_429 rat | Tick rat

definition adaptive_step :: "adaptive_op \<Rightarrow> adaptive \<times> token_bucket \<Rightarrow> adaptive \<times> token_bucket" where
  "adaptive_step op s = (case op of On_429 now \<Rightarrow> on_429 now s | Tick now \<Rightarrow> tick now s)"

definition adaptive_ok :: "adaptive \<times> token_bucket \<Rightarrow> bool" where
  "adaptive_ok s \<longleftrightarrow>
     MIN_RATE \<le> tb_rate (snd s) \<and> tb_rate (snd s) \<le> ad_configured (fst s) \<and> 1 \<le> ad_restore_seconds (fst s) \<and>
     (ad_last_429_at (fst s) = None \<longrightarrow> tb_rate (snd s) = ad_configured (fst s))"

lemma adaptive_ok_429:
  assumes "adaptive_ok s" shows "adaptive_ok (on_429 now s)"
  using assms by (auto simp: adaptive_ok_def on_429_def set_rate_def MIN_RATE_def)

lemma adaptive_ok_tick:
  assumes "adaptive_ok s" shows "adaptive_ok (tick now s) \<and> tb_rate (snd s) \<le> tb_rate (snd (tick now s))"
proof (cases "ad_last_429_at (fst s)")
  case None
  with assms show ?thesis by (simp add: tick_def Let_def)
next
  case (Some t0)
  define gap where "gap = ad_configured (fst s) - tb_rate (snd s)"
  define w where "w = ad_restore_seconds (fst s)"
  have g: "0 \<le> gap" "1 \<le> w" using assms by (simp_all add: adaptive_ok_def gap_def w_def)
  have "gap * 1 \<le> gap * w" using g by (intro mult_left_mono) auto
  then have step: "0 \<le> gap / w" "gap / w \<le> gap" using g by (simp_all add: field_simps)
  show ?thesis
    using assms Some step
    by (auto simp: tick_def Let_def adaptive_ok_def set_rate_def gap_def w_def le_max_iff_disj
        zero_le_divide_iff)
qed

lemma adaptive_ok_run: "adaptive_ok s \<Longrightarrow> adaptive_ok (fold adaptive_step ops s)"
proof (induction ops arbitrary: s)
  case (Cons op ops)
  have "adaptive_ok (adaptive_step op s)"
    using Cons.prems adaptive_ok_429 adaptive_ok_tick by (cases op) (simp_all add: adaptive_step_def)
  with Cons.IH show ?case by simp
qed simp

text \<open>Under any run of 429 responses and ticks, with a restore window of at least a second, the rate stays
  between the minimum and the configured rate, a tick never lowers it, and the first tick once the
  window after the last 429 is over puts it back to exactly the configured rate.\<close>

theorem adaptive_rate_bounded_and_restored:
  assumes "adaptive_ok s0" "s = fold adaptive_step ops s0"
  shows "MIN_RATE \<le> tb_rate (snd s) \<and> tb_rate (snd s) \<le> ad_configured (fst s) \<and>
    tb_rate (snd s) \<le> tb_rate (snd (tick now s)) \<and>
    (\<forall>t0. ad_last_429_at (fst s) = Some t0 \<longrightarrow> t0 + ad_restore_seconds (fst s) \<le> now \<longrightarrow>
       tb_rate (snd (tick now s)) = ad_configured (fst s) \<and> ad_last_429_at (fst (tick now s)) = None)"
proof -
  have ok: "adaptive_ok s" unfolding assms(2) by (rule adaptive_ok_run [OF assms(1)])
  have "MIN_RATE \<le> ad_configured (fst s)" using ok by (simp add: adaptive_ok_def)
  then show ?thesis
    using ok adaptive_ok_tick [OF ok, of now]
    by (auto simp: adaptive_ok_def tick_def Let_def set_rate_def)
qed

theorem adaptive_rate_bounded_and_restored_witness:
  "tb_rate (snd (tick 70 (fold adaptive_step [On_429 0, On_429 1, Tick 2]
     (\<lparr>ad_configured = 8, ad_restore_seconds = 60, ad_last_429_at = None\<rparr>,
      \<lparr>tb_rate = 8, tb_capacity = 16, tb_tokens = 16, tb_last_refill = 0\<rparr>)))) = 8"
proof -
  let ?s0 = "(\<lparr>ad_configured = 8, ad_restore_seconds = 60, ad_last_429_at = None\<rparr>,
      \<lparr>tb_rate = 8, tb_capacity = 16, tb_tokens = 16, tb_last_refill = 0\<rparr>)"
  have ok: "adaptive_ok ?s0" by (simp add: adaptive_ok_def MIN_RATE_def)
  have l: "ad_last_429_at (fst (fold adaptive_step [On_429 0, On_429 1, Tick 2] ?s0)) = Some 1"
    "ad_restore_seconds (fst (fold adaptive_step [On_429 0, On_429 1, Tick 2] ?s0)) = 60"
    "ad_configured (fst (fold adaptive_step [On_429 0, On_429 1, Tick 2] ?s0)) = 8"
    by (simp_all add: adaptive_step_def on_429_def tick_def Let_def)
  from adaptive_rate_bounded_and_restored [OF ok refl, of "[On_429 0, On_429 1, Tick 2]" 70] l
  show ?thesis by simp
qed

subsection \<open>The bucket tuned by Horizon's headers\<close>

record horizon_quota =
  hq_limit :: int
  hq_remaining :: int
  hq_reset_seconds :: rat

definition utilization :: "horizon_quota \<Rightarrow> rat" where
  "utilization q = (if 0 < hq_limit q then of_int (hq_limit q - hq_remaining q) / of_int (hq_limit q) else 0)"

text \<open>Response headers in order; the exact name first, then ignoring case.\<close>

definition header :: "(string \<times> string) list \<Rightarrow> string \<Rightarrow> string option" where
  "header headers name =
     (case map_of headers name of
        Some v \<Rightarrow> Some v
      | None \<Rightarrow> map_option snd (find (\<lambda>kv. lower (fst kv) = lower name) headers))"

definition parse_horizon_rate_limit_headers :: "(string \<times> string) list \<Rightarrow> horizon_quota option" where
  "parse_horizon_rate_limit_headers headers =
     (case (header headers ''X-Ratelimit-Limit'', header headers ''X-Ratelimit-Remaining'',
            header headers ''X-Ratelimit-Reset'') of
        (Some l, Some r, Some s) \<Rightarrow>
          (case (py_int l, py_int r, py_float s) of
             (Some limit, Some rem, Some reset) \<Rightarrow>
               if limit \<le> 0 \<or> rem < 0 \<or> reset < 0 then None
               else Some \<lparr>hq_limit = limit, hq_remaining = min rem limit, hq_reset_seconds = reset\<rparr>
           | _ \<Rightarrow> None)
      | _ \<Rightarrow> None)"

definition retry_after :: "(string \<times> string) list \<Rightarrow> rat option" where
  "retry_after headers =
     (case header headers ''Retry-After'' of
        None \<Rightarrow> None
      | Some v \<Rightarrow> map_option (max 0) (py_float v))"

record horizon_limiter =
  hl_rate :: rat
  hl_capacity :: rat
  hl_max_rate :: "rat option"
  hl_safety :: rat
  hl_max_backoff :: rat
  hl_tokens :: rat
  hl_last_refill :: rat
  hl_paused_until :: rat
  hl_consecutive_429 :: nat
  hl_sent :: "rat list"
  hl_quota :: "horizon_quota option"

definition HorizonAdaptiveRateLimiter ::
  "rat \<Rightarrow> rat option \<Rightarrow> rat option \<Rightarrow> rat \<Rightarrow> rat \<Rightarrow> rat \<Rightarrow> horizon_limiter option" where
  "HorizonAdaptiveRateLimiter rate burst max_rate safety max_backoff now =
     (if rate \<le> 0 then None
      else
        let cap = (case burst of None \<Rightarrow> rate * 2 | Some c \<Rightarrow> c) in
        Some \<lparr>hl_rate = rate, hl_capacity = cap, hl_max_rate = max_rate, hl_safety = safety,
          hl_max_backoff = max_backoff, hl_tokens = cap, hl_last_refill = now, hl_paused_until = 0,
          hl_consecutive_429 = 0, hl_sent = [], hl_quota = None\<rparr>)"

definition hl_refill :: "rat \<Rightarrow> horizon_limiter \<Rightarrow> horizon_limiter" where
  "hl_refill now h =
     h\<lparr>hl_tokens := min (hl_capacity h) (hl_tokens h + (now - hl_last_refill h) * hl_rate h),
       hl_last_refill := now\<rparr>"

definition effective_throughput :: "rat \<Rightarrow> rat \<Rightarrow> horizon_limiter \<Rightarrow> horizon_limiter \<times> rat" where
  "effective_throughput now window h =
     (let sent = dropWhile (\<lambda>t. t < now - window) (hl_sent h)
      in (h\<lparr>hl_sent := sent\<rparr>, of_nat (length sent) / window))"

text \<open>
  \<open>acquire\<close> under its lock. The clock is read on entry (\<open>t0\<close>), after a pause (\<open>t1\<close>), for the
  refill (\<open>t2\<close>), after waiting for a token (\<open>t3\<close>) and for the dispatch record (\<open>t4\<close>).
\<close>

definition hl_acquire :: "rat \<Rightarrow> rat \<Rightarrow> rat \<Rightarrow> rat \<Rightarrow> rat \<Rightarrow> horizon_limiter \<Rightarrow> horizon_limiter" where
  "hl_acquire t0 t1 t2 t3 t4 h =
     (let h1 = (if 0 < hl_paused_until h - t0 then h\<lparr>hl_last_refill := max (hl_last_refill h) t1\<rparr> else h);
          h2 = hl_refill t2 h1;
          h3 = (if hl_tokens h2 < 1 then hl_refill t3 h2 else h2)
      in h3\<lparr>hl_tokens := max 0 (hl_tokens h3 - 1), hl_sent := hl_sent h3 @ [t4]\<rparr>)"

definition hl_on_429 :: "rat \<Rightarrow> rat option \<Rightarrow> horizon_limiter \<Rightarrow> horizon_limiter" where
  "hl_on_429 now retry h =
     (let n = hl_consecutive_429 h + 1;
          delay = min (case retry of Some r \<Rightarrow> r | None \<Rightarrow> min (hl_max_backoff h) (2 ^ (n - 1))) (hl_max_backoff h);
          h1 = hl_refill now (h\<lparr>hl_consecutive_429 := n\<rparr>)
      in h1\<lparr>hl_rate := max (hl_rate h1 / 2) MIN_RATE, hl_tokens := 0,
            hl_paused_until := max (hl_paused_until h1) (now + delay)\<rparr>)"

definition observe_response :: "rat \<Rightarrow> int \<Rightarrow> (string \<times> string) list \<Rightarrow> horizon_limiter \<Rightarrow> horizon_limiter" where
  "observe_response now status_code headers h =
     (if status_code = 429 then hl_on_429 now (retry_after headers) h
      else
        let h0 = h\<lparr>hl_consecutive_429 := 0\<rparr> in
        (case parse_horizon_rate_limit_headers headers of
           None \<Rightarrow> h0
         | Some q \<Rightarrow>
             let h1 = h0\<lparr>hl_quota := Some q\<rparr>;
                 h2 = (if hq_remaining q = 0
                       then h1\<lparr>hl_paused_until := max (hl_paused_until h1) (now + hq_reset_seconds q)\<rparr> else h1);
                 target0 = hl_safety h * of_int (hq_remaining q) / max (hq_reset_seconds q) 1;
                 target = (case hl_max_rate h of None \<Rightarrow> target0 | Some m \<Rightarrow> min target0 m);
                 h3 = hl_refill now h2
             in h3\<lparr>hl_rate := max target MIN_RATE, hl_tokens := min (hl_tokens h3) (of_int (hq_remaining q))\<rparr>))"

definition limiter_ok :: "horizon_limiter \<Rightarrow> bool" where
  "limiter_ok h \<longleftrightarrow> 0 \<le> hl_tokens h \<and> hl_tokens h \<le> hl_capacity h \<and> 0 < hl_rate h \<and> 0 \<le> hl_capacity h"

lemma hl_refill_ok: "limiter_ok h \<Longrightarrow> hl_last_refill h \<le> now \<Longrightarrow> limiter_ok (hl_refill now h)"
  by (auto simp: limiter_ok_def hl_refill_def)

lemma parsed_quota: "parse_horizon_rate_limit_headers hs = Some q \<Longrightarrow> 0 \<le> hq_remaining q \<and> 0 \<le> hq_reset_seconds q"
  by (auto simp: parse_horizon_rate_limit_headers_def split: option.splits if_splits)

lemma hl_acquire_ok:
  assumes "limiter_ok h" "hl_last_refill h \<le> t2" "t1 \<le> t2" "t2 \<le> t3"
  shows "limiter_ok (hl_acquire t0 t1 t2 t3 t4 h)"
proof -
  define h1 where "h1 = (if 0 < hl_paused_until h - t0 then h\<lparr>hl_last_refill := max (hl_last_refill h) t1\<rparr> else h)"
  define h2 where "h2 = hl_refill t2 h1"
  define h3 where "h3 = (if hl_tokens h2 < 1 then hl_refill t3 h2 else h2)"
  have "limiter_ok h1" "hl_last_refill h1 \<le> t2" using assms by (auto simp: h1_def limiter_ok_def)
  then have "limiter_ok h2" "hl_last_refill h2 = t2" by (simp_all add: h2_def hl_refill_ok) (simp add: hl_refill_def)
  then have "limiter_ok h3" using assms(4) by (auto simp: h3_def hl_refill_ok)
  then show ?thesis
    unfolding hl_acquire_def Let_def h1_def [symmetric] h2_def [symmetric] h3_def [symmetric]
    by (auto simp: limiter_ok_def)
qed

lemma observe_response_ok:
  assumes "limiter_ok h" "hl_last_refill h \<le> now"
  shows "limiter_ok (observe_response now code hs h) \<and>
    (\<forall>q. code \<noteq> 429 \<longrightarrow> parse_horizon_rate_limit_headers hs = Some q \<longrightarrow>
       hl_tokens (observe_response now code hs h) \<le> of_int (hq_remaining q))"
proof (cases "parse_horizon_rate_limit_headers hs")
  case None
  with assms show ?thesis
    by (auto simp: observe_response_def hl_on_429_def Let_def limiter_ok_def hl_refill_def MIN_RATE_def)
next
  case (Some q)
  have "(0 :: rat) \<le> of_int (hq_remaining q)" using parsed_quota [OF Some] by simp
  moreover have "0 \<le> (now - hl_last_refill h) * hl_rate h" using assms by (simp add: limiter_ok_def)
  ultimately show ?thesis
    using assms Some
    by (auto simp: observe_response_def hl_on_429_def Let_def limiter_ok_def hl_refill_def MIN_RATE_def)
qed

text \<open>A 429 response empties the bucket, at most halves the rate and never below the minimum, and pauses
  the callers for the announced time, at most the maximal backoff; without an announced time the
  pause doubles with every consecutive 429 until that maximum.\<close>

theorem horizon_429_backs_off:
  assumes "limiter_ok h" "hl_last_refill h \<le> now" "0 \<le> hl_max_backoff h"
  shows "limiter_ok (hl_on_429 now retry h) \<and> hl_tokens (hl_on_429 now retry h) = 0 \<and>
    hl_rate (hl_on_429 now retry h) = max (hl_rate h / 2) MIN_RATE \<and>
    now + (case retry of None \<Rightarrow> min (2 ^ hl_consecutive_429 h) (hl_max_backoff h)
           | Some r \<Rightarrow> min r (hl_max_backoff h)) \<le> hl_paused_until (hl_on_429 now retry h) \<and>
    hl_paused_until (hl_on_429 now retry h) \<le> max (hl_paused_until h) (now + hl_max_backoff h)"
  using assms
  by (auto simp: hl_on_429_def Let_def limiter_ok_def hl_refill_def MIN_RATE_def split: option.split)

theorem horizon_429_backs_off_witness:
  "\<exists>h. HorizonAdaptiveRateLimiter 10 None None (9 / 10) 60 0 = Some h \<and> hl_rate (hl_on_429 1 None h) = 5 \<and>
     2 \<le> hl_paused_until (hl_on_429 1 None h)"
proof -
  let ?h = "the (HorizonAdaptiveRateLimiter 10 None None (9 / 10) 60 0)"
  have h: "HorizonAdaptiveRateLimiter 10 None None (9 / 10) 60 0 = Some ?h"
    by (simp add: HorizonAdaptiveRateLimiter_def Let_def)
  have "limiter_ok ?h" "hl_last_refill ?h \<le> 1" "0 \<le> hl_max_backoff ?h" "hl_rate ?h = 10"
    "hl_consecutive_429 ?h = 0" "hl_max_backoff ?h = 60"
    by (simp_all add: HorizonAdaptiveRateLimiter_def Let_def limiter_ok_def)
  with horizon_429_backs_off [of ?h 1 None] have "hl_rate (hl_on_429 1 None ?h) = 5"
    "2 \<le> hl_paused_until (hl_on_429 1 None ?h)" by (simp_all add: MIN_RATE_def)
  with h show ?thesis by blast
qed

end
