(* ===== verification/GraphQL_Cost.thy ===== *)
theory GraphQL_Cost
  imports LL_Prelude
begin

text \<open>
  \<open>api/graphql_cost.py\<close>: the static cost of a GraphQL query and the limiter that compares it with
  the caller's budget. The parsed document comes from the \<open>graphql\<close> package; the model takes its
  abstract syntax and the fields of the schema's object types (\<open>get_named_type\<close>,
  \<open>get_nullable_type\<close> and \<open>is_list_type\<close> are read off as the three components of a field
  definition). The tier's budget is an argument.
\<close>

datatype selection =
    Field_node string "selection list option"
  | Inline_fragment "selection list"
  | Fragment_spread string

record field_def =
  fd_named_type :: string
  fd_is_list :: bool
  fd_is_object :: bool

type_synonym schema = "string \<rightharpoonup> (string \<rightharpoonup> field_def)"
type_synonym fragments = "(string \<times> selection list) list"

record operation =
  op_name :: "string option"
  op_root :: "string option"   \<comment> \<open>\<open>schema.get_root_type\<close> of its kind\<close>
  op_selections :: "selection list"

record document =
  doc_fragments :: fragments
  doc_operations :: "operation list"

definition DEFAULT_LIST_MULTIPLIER :: nat where "DEFAULT_LIST_MULTIPLIER = 10"
definition DEFAULT_MAX_DEPTH :: nat where "DEFAULT_MAX_DEPTH = 8"

definition field_of :: "schema \<Rightarrow> string \<Rightarrow> string \<Rightarrow> field_def option" where
  "field_of schema parent name =
     (case schema parent of None \<Rightarrow> None | Some fs \<Rightarrow> fs name)"

definition introspective :: "string \<Rightarrow> bool" where
  "introspective name \<longleftrightarrow> starts_with name ''__''"

definition fan_out :: "nat \<Rightarrow> field_def \<Rightarrow> nat" where
  "fan_out multiplier fd = (if fd_is_list fd then multiplier else 1)"

lemma unvisited_decreases:
  assumes "map_of frags f = Some ss" "f \<notin> visiting"
  shows "card (fst ` set frags - insert f visiting) < card (fst ` set frags - visiting)"
proof (rule psubset_card_mono)
  have "f \<in> fst ` set frags" using assms(1) by (metis map_of_eq_None_iff option.distinct(1))
  then show "fst ` set frags - insert f visiting \<subset> fst ` set frags - visiting" using assms(2) by blast
qed simp

text \<open>
  The loop over a selection set. A fragment that is spread is added to the set of visited
  fragments for the rest of the loop, and so for everything below the later selections.
\<close>

function selection_cost ::
  "schema \<Rightarrow> fragments \<Rightarrow> nat \<Rightarrow> string \<Rightarrow> nat \<Rightarrow> string set \<Rightarrow> selection list \<Rightarrow> nat \<times> nat" where
  "selection_cost sch frags m parent depth visiting [] = (0, depth)"
| "selection_cost sch frags m parent depth visiting (Field_node name sub # rest) =
     (if introspective name then selection_cost sch frags m parent depth visiting rest
      else case field_of sch parent name of
        None \<Rightarrow> selection_cost sch frags m parent depth visiting rest
      | Some fd \<Rightarrow>
          let (cc, cd) = (case sub of
                None \<Rightarrow> (0, depth)
              | Some ss \<Rightarrow>
                  if fd_is_object fd
                  then selection_cost sch frags m (fd_named_type fd) (depth + 1) visiting ss else (0, depth));
              (c, d) = selection_cost sch frags m parent depth visiting rest
          in (1 + cc * fan_out m fd + c, max cd d))"
| "selection_cost sch frags m parent depth visiting (Inline_fragment ss # rest) =
     (let (c1, d1) = selection_cost sch frags m parent depth visiting ss;
          (c, d) = selection_cost sch frags m parent depth visiting rest
      in (c1 + c, max d1 d))"
| "selection_cost sch frags m parent depth visiting (Fragment_spread f # rest) =
     (case map_of frags f of
        None \<Rightarrow> selection_cost sch frags m parent depth visiting rest
      | Some ss \<Rightarrow>
          if f \<in> visiting then selection_cost sch frags m parent depth visiting rest
          else
            let (c1, d1) = selection_cost sch frags m parent depth (insert f visiting) ss;
                (c, d) = selection_cost sch frags m parent depth (insert f visiting) rest
            in (c1 + c, max d1 d))"
  by pat_completeness auto

termination
proof (relation "measures [\<lambda>(sch, frags, m, parent, depth, visiting, sels). card (fst ` set frags - visiting),
    \<lambda>(sch, frags, m, parent, depth, visiting, sels). size_list size sels]")
qed (auto simp: unvisited_decreases card_Diff_insert intro: card_mono)

definition calculate_query_cost :: "schema \<Rightarrow> nat \<Rightarrow> string option \<Rightarrow> document \<Rightarrow> nat \<times> nat" where
  "calculate_query_cost sch m operation_name doc =
     (let ops = (case operation_name of
            None \<Rightarrow> doc_operations doc
          | Some n \<Rightarrow> if n = '''' then doc_operations doc
                      else filter (\<lambda>q. op_name q = Some n) (doc_operations doc))
      in fold (\<lambda>q (cost, depth).
           case op_root q of
             None \<Rightarrow> (cost, depth)
           | Some root_type \<Rightarrow>
               (case selection_cost sch (doc_fragments doc) m root_type 1 {} (op_selections q) of
                  (c, d) \<Rightarrow> (cost + c, max depth d)))
         ops (0, 0))"

datatype cost_verdict = Accepted | Query_too_deep nat | Query_cost_exceeded nat nat

definition check_cost :: "schema \<Rightarrow> nat \<Rightarrow> string option \<Rightarrow> document \<Rightarrow> cost_verdict" where
  "check_cost sch budget operation_name doc =
     (case calculate_query_cost sch DEFAULT_LIST_MULTIPLIER operation_name doc of
        (cost, depth) \<Rightarrow>
          if DEFAULT_MAX_DEPTH < depth then Query_too_deep depth
          else if 0 < budget \<and> budget < cost then Query_cost_exceeded cost budget
          else Accepted)"

subsection \<open>The cost the query really has\<close>

text \<open>
  The reference: a fragment counts wherever it is spread; only a fragment inside itself (which
  validation rejects) is cut off.
\<close>

function full_cost ::
  "schema \<Rightarrow> fragments \<Rightarrow> nat \<Rightarrow> string \<Rightarrow> nat \<Rightarrow> string set \<Rightarrow> selection list \<Rightarrow> nat \<times> nat" where
  "full_cost sch frags m parent depth inside [] = (0, depth)"
| "full_cost sch frags m parent depth inside (Field_node name sub # rest) =
     (if introspective name then full_cost sch frags m parent depth inside rest
      else case field_of sch parent name of
        None \<Rightarrow> full_cost sch frags m parent depth inside rest
      | Some fd \<Rightarrow>
          let (cc, cd) = (case sub of
                None \<Rightarrow> (0, depth)
              | Some ss \<Rightarrow>
                  if fd_is_object fd
                  then full_cost sch frags m (fd_named_type fd) (depth + 1) inside ss else (0, depth));
              (c, d) = full_cost sch frags m parent depth inside rest
          in (1 + cc * fan_out m fd + c, max cd d))"
| "full_cost sch frags m parent depth inside (Inline_fragment ss # rest) =
     (let (c1, d1) = full_cost sch frags m parent depth inside ss;
          (c, d) = full_cost sch frags m parent depth inside rest
      in (c1 + c, max d1 d))"
| "full_cost sch frags m parent depth inside (Fragment_spread f # rest) =
     (case map_of frags f of
        None \<Rightarrow> full_cost sch frags m parent depth inside rest
      | Some ss \<Rightarrow>
          if f \<in> inside then full_cost sch frags m parent depth inside rest
          else
            let (c1, d1) = full_cost sch frags m parent depth (insert f inside) ss;
                (c, d) = full_cost sch frags m parent depth inside rest
            in (c1 + c, max d1 d))"
  by pat_completeness auto
termination
proof (relation "measures [\<lambda>(sch, frags, m, parent, depth, inside, sels). card (fst ` set frags - inside),
    \<lambda>(sch, frags, m, parent, depth, inside, sels). size_list size sels]")
qed (auto simp: unvisited_decreases card_Diff_insert intro: card_mono)

lemma selection_cost_le_full:
  assumes "inside \<subseteq> visiting"
  shows "fst (selection_cost sch frags m parent depth visiting sels) \<le> fst (full_cost sch frags m parent depth inside sels) \<and>
    snd (selection_cost sch frags m parent depth visiting sels) \<le> snd (full_cost sch frags m parent depth inside sels)"
  using assms
proof (induction sch frags m parent depth visiting sels arbitrary: inside rule: selection_cost.induct)
  case (1 sch frags m parent depth visiting)
  then show ?case by simp
next
  case (2 sch frags m parent depth visiting name sub rest)
  show ?case
  proof (cases "introspective name \<or> field_of sch parent name = None")
    case True
    with 2 show ?thesis by auto
  next
    case False
    then obtain fd where fd: "field_of sch parent name = Some fd" and ni: "\<not> introspective name" by blast
    have rest: "fst (selection_cost sch frags m parent depth visiting rest) \<le> fst (full_cost sch frags m parent depth inside rest) \<and>
      snd (selection_cost sch frags m parent depth visiting rest) \<le> snd (full_cost sch frags m parent depth inside rest)"
      using "2.IH"(4) [OF ni fd refl prod.collapse] "2.prems" by blast
    show ?thesis
    proof (cases "\<exists>ss. sub = Some ss \<and> fd_is_object fd")
      case True
      then obtain ss where ss: "sub = Some ss" "fd_is_object fd" by blast
      have "fst (selection_cost sch frags m (fd_named_type fd) (depth + 1) visiting ss)
          \<le> fst (full_cost sch frags m (fd_named_type fd) (depth + 1) inside ss) \<and>
        snd (selection_cost sch frags m (fd_named_type fd) (depth + 1) visiting ss)
          \<le> snd (full_cost sch frags m (fd_named_type fd) (depth + 1) inside ss)"
        using "2.IH"(3) [OF ni fd ss(1,2)] "2.prems" by blast
      with rest ni fd ss show ?thesis
        by (auto simp: Let_def split_def intro!: add_mono mult_right_mono max.mono)
    next
      case False
      with rest ni fd show ?thesis by (auto simp: Let_def split_def split: option.split)
    qed
  qed
next
  case (3 sch frags m parent depth visiting ss rest)
  have a: "fst (selection_cost sch frags m parent depth visiting ss) \<le> fst (full_cost sch frags m parent depth inside ss) \<and>
      snd (selection_cost sch frags m parent depth visiting ss) \<le> snd (full_cost sch frags m parent depth inside ss)"
    using "3.IH"(1) "3.prems" by blast
  have b: "fst (selection_cost sch frags m parent depth visiting rest) \<le> fst (full_cost sch frags m parent depth inside rest) \<and>
      snd (selection_cost sch frags m parent depth visiting rest) \<le> snd (full_cost sch frags m parent depth inside rest)"
    using "3.IH"(2) "3.prems" by (metis surj_pair)
  from a b show ?case by (auto simp: Let_def split_def intro: add_mono max.mono)
next
  case (4 sch frags m parent depth visiting f rest)
  show ?case
  proof (cases "map_of frags f")
    case None
    with 4 show ?thesis by simp
  next
    case (Some ss)
    show ?thesis
    proof (cases "f \<in> visiting")
      case True
      then have v: "selection_cost sch frags m parent depth visiting (Fragment_spread f # rest) =
          selection_cost sch frags m parent depth visiting rest" using Some by simp
      have IH: "fst (selection_cost sch frags m parent depth visiting rest) \<le> fst (full_cost sch frags m parent depth inside rest) \<and>
        snd (selection_cost sch frags m parent depth visiting rest) \<le> snd (full_cost sch frags m parent depth inside rest)"
        using "4.IH"(2) [OF Some True] "4.prems" by blast
      show ?thesis
        unfolding v using IH Some by (auto simp: Let_def split_def le_max_iff_disj)
    next
      case False
      then have ni: "f \<notin> inside" using "4.prems" by blast
      have a: "fst (selection_cost sch frags m parent depth (insert f visiting) ss) \<le> fst (full_cost sch frags m parent depth (insert f inside) ss) \<and>
        snd (selection_cost sch frags m parent depth (insert f visiting) ss) \<le> snd (full_cost sch frags m parent depth (insert f inside) ss)"
        using "4.IH"(3) [OF Some False, of "insert f inside"] "4.prems" by blast
      have b: "fst (selection_cost sch frags m parent depth (insert f visiting) rest) \<le> fst (full_cost sch frags m parent depth inside rest) \<and>
        snd (selection_cost sch frags m parent depth (insert f visiting) rest) \<le> snd (full_cost sch frags m parent depth inside rest)"
        using "4.IH"(4) [OF Some False] "4.prems" by (metis subset_insertI2 surj_pair)
      from a b Some False ni show ?thesis by (auto simp: Let_def split_def intro: add_mono max.mono)
    qed
  qed
qed

text \<open>Whatever the schema, the fragments and the query, neither the cost nor the depth the limiter
  computes is ever above the real one: it never rejects a query for a cost it does not have.\<close>

theorem cost_never_overestimated:
  "fst (selection_cost sch frags m parent depth {} sels) \<le> fst (full_cost sch frags m parent depth {} sels) \<and>
   snd (selection_cost sch frags m parent depth {} sels) \<le> snd (full_cost sch frags m parent depth {} sels)"
  by (rule selection_cost_le_full) simp

text \<open>Without fragment spreads the two agree.\<close>

fun no_spread :: "selection \<Rightarrow> bool" where
  "no_spread (Field_node name None) = True"
| "no_spread (Field_node name (Some ss)) = list_all no_spread ss"
| "no_spread (Inline_fragment ss) = list_all no_spread ss"
| "no_spread (Fragment_spread f) = False"

lemma selection_cost_no_spread:
  "list_all no_spread sels \<Longrightarrow>
   selection_cost sch frags m parent depth visiting sels = full_cost sch frags m parent depth visiting sels"
proof (induction sch frags m parent depth visiting sels rule: selection_cost.induct)
  case (2 sch frags m parent depth visiting name sub rest)
  show ?case
  proof (cases "introspective name \<or> field_of sch parent name = None")
    case True
    with 2 show ?thesis by auto
  next
    case False
    then obtain fd where fd: "field_of sch parent name = Some fd" and ni: "\<not> introspective name" by blast
    have r: "selection_cost sch frags m parent depth visiting rest = full_cost sch frags m parent depth visiting rest"
      using "2.IH"(4) [OF ni fd refl prod.collapse] "2.prems" by simp
    have s: "selection_cost sch frags m (fd_named_type fd) (depth + 1) visiting ss =
        full_cost sch frags m (fd_named_type fd) (depth + 1) visiting ss" if "sub = Some ss" "fd_is_object fd" for ss
      using "2.IH"(3) [OF ni fd that] "2.prems" that by simp
    show ?thesis using r s fd ni by (simp add: Let_def split: option.split)
  qed
next
  case (3 sch frags m parent depth visiting ss rest)
  have "selection_cost sch frags m parent depth visiting rest = full_cost sch frags m parent depth visiting rest"
    using "3.IH"(2) [OF refl prod.collapse] "3.prems" by simp
  with "3.IH"(1) "3.prems" show ?case by simp
qed simp_all

text \<open>A fragment that has been spread is free in everything selected after it: next to the fragment, a
  field whose sub-selection spreads the same fragment costs one and adds no depth, however
  expensive the fragment is, while the same query with the two selections swapped is charged for
  the whole fan-out.\<close>

theorem repeated_fragment_is_free:
  assumes "map_of frags f = Some ss" "field_of sch parent x = Some fd" "fd_is_object fd" "\<not> introspective x"
    and "selection_cost sch frags m parent depth {f} ss = (c, d)"
    and "selection_cost sch frags m (fd_named_type fd) (depth + 1) {f} ss = (c', d')"
  shows "selection_cost sch frags m parent depth {} [Fragment_spread f, Field_node x (Some [Fragment_spread f])]
      = (c + 1, max d (depth + 1)) \<and>
    selection_cost sch frags m parent depth {} [Field_node x (Some [Fragment_spread f]), Fragment_spread f]
      = (c + 1 + c' * fan_out m fd, max (max d' (depth + 1)) (max d depth))"
  using assms by (simp add: Let_def max.commute max.left_commute)

definition wallet_schema :: schema where
  "wallet_schema =
     [''Query'' \<mapsto> [''wallet'' \<mapsto> \<lparr>fd_named_type = ''Wallet'', fd_is_list = False, fd_is_object = True\<rparr>],
      ''Wallet'' \<mapsto> [''score'' \<mapsto> \<lparr>fd_named_type = ''Int'', fd_is_list = False, fd_is_object = False\<rparr>,
                    ''neighbors'' \<mapsto> \<lparr>fd_named_type = ''Wallet'', fd_is_list = True, fd_is_object = True\<rparr>]]"


definition score_fragment :: fragments where
  "score_fragment = [(''F'', [Field_node ''score'' None,
     Field_node ''neighbors'' (Some [Field_node ''neighbors'' (Some [Field_node ''score'' None])])])]"

theorem repeated_fragment_is_free_witness:
  "selection_cost wallet_schema score_fragment 10 ''Wallet'' 1 {}
     [Fragment_spread ''F'', Field_node ''neighbors'' (Some [Fragment_spread ''F''])] = (113, 3) \<and>
   selection_cost wallet_schema score_fragment 10 ''Wallet'' 1 {}
     [Field_node ''neighbors'' (Some [Fragment_spread ''F'']), Fragment_spread ''F''] = (1233, 4)"
proof -
  let ?ss = "[Field_node ''score'' None,
     Field_node ''neighbors'' (Some [Field_node ''neighbors'' (Some [Field_node ''score'' None])])]"
  let ?fd = "\<lparr>fd_named_type = ''Wallet'', fd_is_list = True, fd_is_object = True\<rparr>"
  have h: "map_of score_fragment ''F'' = Some ?ss" "field_of wallet_schema ''Wallet'' ''neighbors'' = Some ?fd"
    "fd_is_object ?fd" "\<not> introspective ''neighbors''"
    by (simp_all add: score_fragment_def field_of_def wallet_schema_def introspective_def starts_with_def)
  have c: "selection_cost wallet_schema score_fragment 10 ''Wallet'' depth {''F''} ?ss = (112, depth + 2)" for depth
    by (simp add: field_of_def wallet_schema_def introspective_def starts_with_def fan_out_def Let_def)
  have c2: "selection_cost wallet_schema score_fragment 10 (fd_named_type ?fd) (1 + 1) {''F''} ?ss = (112, 4)"
    by (simp add: field_of_def wallet_schema_def introspective_def starts_with_def fan_out_def Let_def)
  from repeated_fragment_is_free [OF h c [of 1] c2] show ?thesis
    by (simp add: fan_out_def)
qed

end
