(* ===== verification/Bytes.thy ===== *)
theory Bytes
  imports LL_Prelude "HOL-Library.Word"
begin

text \<open>
  Byte strings and big-endian integers of fixed width (\<open>int.from_bytes(.., "big")\<close>, \<open>struct.pack(">I", ..)\<close>), shared by
  the Wormhole messages and the oracle messages. A byte is an \<open>8 word\<close>.
\<close>

type_synonym bytes = "8 word list"

definition be_nat :: "bytes \<Rightarrow> nat" where
  "be_nat bs = foldl (\<lambda>acc b. 256 * acc + unat b) 0 bs"

fun be_bytes :: "nat \<Rightarrow> nat \<Rightarrow> bytes" where
  "be_bytes 0 n = []"
| "be_bytes (Suc k) n = be_bytes k (n div 256) @ [of_nat (n mod 256)]"

lemma length_be_bytes [simp]: "length (be_bytes k n) = k"
  by (induction k arbitrary: n) auto

lemma be_nat_snoc: "be_nat (bs @ [b]) = 256 * be_nat bs + unat b"
  by (simp add: be_nat_def)

lemma unat_byte_less: "unat (b :: 8 word) < 256"
  using unsigned_less [of b] by simp

lemma unat_of_nat_byte: "n < 256 \<Longrightarrow> unat (of_nat n :: 8 word) = n"
  by (simp add: unat_of_nat take_bit_nat_eq_self)

lemma be_nat_be_bytes: "n < 256 ^ k \<Longrightarrow> be_nat (be_bytes k n) = n"
proof (induction k arbitrary: n)
  case (Suc k)
  then have "n div 256 < 256 ^ k" by (simp add: less_mult_imp_div_less mult.commute)
  with Suc.IH show ?case by (simp add: be_nat_snoc unat_of_nat_byte)
qed (simp add: be_nat_def)

lemma be_bytes_be_nat: "length bs = k \<Longrightarrow> be_bytes k (be_nat bs) = bs"
proof (induction bs arbitrary: k rule: rev_induct)
  case (snoc b bs)
  then obtain j where j: "k = Suc j" "length bs = j" by auto
  with snoc.IH show ?case using unat_byte_less [of b] by (simp add: be_nat_snoc)
qed simp

lemma be_nat_less: "be_nat bs < 256 ^ length bs"
proof (induction bs rule: rev_induct)
  case (snoc b bs)
  have "256 * be_nat bs + unat b < 256 * (be_nat bs + 1)" using unat_byte_less [of b] by simp
  also have "\<dots> \<le> 256 * 256 ^ length bs" using snoc.IH by (intro mult_le_mono2) simp
  finally show ?case by (simp add: be_nat_snoc)
qed (simp add: be_nat_def)

lemma be_nat_single [simp]: "be_nat [b] = unat b"
  by (simp add: be_nat_def)

lemma be_bytes_inj: "m < 256 ^ k \<Longrightarrow> n < 256 ^ k \<Longrightarrow> be_bytes k m = be_bytes k n \<longleftrightarrow> m = n"
  using be_nat_be_bytes by metis

text \<open>Python's \<open>str.encode\<close> for the characters of the model (one byte each).\<close>

definition byte_of :: "char \<Rightarrow> 8 word" where
  "byte_of c = of_nat (of_char c)"

definition encode_text :: "string \<Rightarrow> bytes" where
  "encode_text s = map byte_of s"

lemma byte_of_inj [simp]: "byte_of c = byte_of d \<longleftrightarrow> c = d"
proof -
  have "unat (byte_of c) = (of_char c :: nat)" for c
    using nat_of_char_less_256 [of c] by (simp add: byte_of_def unat_of_nat_byte)
  then show ?thesis by (metis of_char_eq_iff)
qed

lemma encode_text_inj [simp]: "encode_text s = encode_text t \<longleftrightarrow> s = t"
  by (simp add: encode_text_def inj_map_eq_map inj_def)

lemma encode_text_append [simp]: "encode_text (s @ t) = encode_text s @ encode_text t"
  by (simp add: encode_text_def)

lemma length_encode_text [simp]: "length (encode_text s) = length s"
  by (simp add: encode_text_def)

text \<open>The last occurrence of a separator splits a string in one way only.\<close>

lemma split_last_sep:
  assumes "u @ sep # v = u' @ sep # v'" "sep \<notin> set v" "sep \<notin> set v'"
  shows "u = u' \<and> v = v'"
proof -
  have "rev v @ sep # rev u = rev v' @ sep # rev u'" using arg_cong [OF assms(1), of rev] by simp
  moreover have tw: "takeWhile (\<lambda>x. x \<noteq> sep) (rev w @ sep # r) = rev w" if "sep \<notin> set w" for w r
    using that by (subst takeWhile_append2) auto
  ultimately have "rev v = rev v'" using tw [OF assms(2)] tw [OF assms(3)] by metis
  with assms(1) show ?thesis by simp
qed

end
