(* ===== verification/Vaa.thy ===== *)
theory Vaa
  imports Bytes
begin

text \<open>
  \<open>ingestion/wormhole_vaa.py\<close>: strict parsing of Wormhole messages and verification against the
  guardian set. Bytes are \<open>8 word\<close>. Keccak and the public-key recovery come from packages that are
  not in the repository: they are the arguments \<open>keccak\<close> and \<open>recover\<close> (\<open>None\<close> when recovery
  raises). \<open>vaa_bytes\<close> is the documented layout, which the code never writes; it serves as the
  specification of the parser.
\<close>

definition VAA_VERSION :: nat where "VAA_VERSION = 1"
definition SIG_LEN :: nat where "SIG_LEN = 66"
definition BODY_MIN :: nat where "BODY_MIN = 51"

record guardian_signature =
  sg_guardian_index :: nat
  sg_r :: nat
  sg_s :: nat
  sg_v :: nat

record parsed_vaa =
  va_version :: nat
  va_guardian_set_index :: nat
  va_signatures :: "guardian_signature list"
  va_body :: bytes
  va_timestamp :: nat
  va_nonce :: nat
  va_emitter_chain :: nat
  va_emitter_address :: bytes
  va_sequence :: nat
  va_consistency_level :: nat
  va_payload :: bytes

record guardian_set =
  gset_index :: int
  gset_addresses :: "bytes list"

datatype vaa_error =
    Vaa_too_short nat | Vaa_unsupported_version nat | Vaa_truncated nat nat | No_guardian_set
  | Other_guardian_set nat int | Insufficient_signatures nat nat | Not_ascending
  | Unknown_guardian nat | Invalid_recovery_id nat | Recovery_failed nat | Coordinate_overflow | Invalid_signature nat

subsection \<open>Parsing\<close>

text \<open>\<open>raw[a:a+n]\<close>.\<close>

definition slice :: "bytes \<Rightarrow> nat \<Rightarrow> nat \<Rightarrow> bytes" where
  "slice raw a n = take n (drop a raw)"

lemma length_slice: "a + n \<le> length raw \<Longrightarrow> length (slice raw a n) = n"
  by (simp add: slice_def)

lemma slice_add: "slice raw a (m + n) = slice raw a m @ slice raw (a + m) n"
  by (simp add: slice_def take_add add.commute)

lemma slice_one: "a < length raw \<Longrightarrow> slice raw a 1 = [raw ! a]" "a < length raw \<Longrightarrow> slice raw a (Suc 0) = [raw ! a]"
  by (simp_all add: slice_def take_Suc_conv_app_nth hd_drop_conv_nth take_Suc)

lemma slice_drop: "slice (drop m raw) a n = slice raw (m + a) n"
  by (simp add: slice_def add.commute)

lemma slice_rest: "raw = slice raw 0 a @ drop a raw"
  by (simp add: slice_def)

definition parse_signature :: "bytes \<Rightarrow> nat \<Rightarrow> guardian_signature" where
  "parse_signature raw off =
     \<lparr>sg_guardian_index = unat (raw ! off), sg_r = be_nat (slice raw (off + 1) 32),
      sg_s = be_nat (slice raw (off + 33) 32), sg_v = unat (raw ! (off + 65))\<rparr>"

definition parse_vaa :: "bytes \<Rightarrow> vaa_error + parsed_vaa" where
  "parse_vaa raw =
     (if length raw < 6 then Inl (Vaa_too_short (length raw))
      else if unat (raw ! 0) \<noteq> VAA_VERSION then Inl (Vaa_unsupported_version (unat (raw ! 0)))
      else
        let num_sigs = unat (raw ! 5); body_start = 6 + SIG_LEN * num_sigs in
        if length raw < body_start + BODY_MIN then Inl (Vaa_truncated (length raw) (body_start + BODY_MIN))
        else
          let body = drop body_start raw in
          Inr \<lparr>va_version = unat (raw ! 0), va_guardian_set_index = be_nat (slice raw 1 4),
            va_signatures = map (\<lambda>i. parse_signature raw (6 + SIG_LEN * i)) [0..<num_sigs],
            va_body = body, va_timestamp = be_nat (slice body 0 4), va_nonce = be_nat (slice body 4 4),
            va_emitter_chain = be_nat (slice body 8 2), va_emitter_address = slice body 10 32,
            va_sequence = be_nat (slice body 42 8), va_consistency_level = unat (body ! 50),
            va_payload = drop 51 body\<rparr>)"

subsection \<open>The documented layout\<close>

definition sig_bytes :: "guardian_signature \<Rightarrow> bytes" where
  "sig_bytes g = [of_nat (sg_guardian_index g)] @ be_bytes 32 (sg_r g) @ be_bytes 32 (sg_s g) @ [of_nat (sg_v g)]"

definition body_bytes :: "parsed_vaa \<Rightarrow> bytes" where
  "body_bytes v = be_bytes 4 (va_timestamp v) @ be_bytes 4 (va_nonce v) @ be_bytes 2 (va_emitter_chain v) @
     va_emitter_address v @ be_bytes 8 (va_sequence v) @ [of_nat (va_consistency_level v)] @ va_payload v"

definition vaa_bytes :: "parsed_vaa \<Rightarrow> bytes" where
  "vaa_bytes v = [of_nat (va_version v)] @ be_bytes 4 (va_guardian_set_index v) @
     [of_nat (length (va_signatures v))] @ concat (map sig_bytes (va_signatures v)) @ va_body v"

definition sig_wf :: "guardian_signature \<Rightarrow> bool" where
  "sig_wf g \<longleftrightarrow> sg_guardian_index g < 256 \<and> sg_r g < 256 ^ 32 \<and> sg_s g < 256 ^ 32 \<and> sg_v g < 256"

definition vaa_wf :: "parsed_vaa \<Rightarrow> bool" where
  "vaa_wf v \<longleftrightarrow>
     va_version v = VAA_VERSION \<and> va_guardian_set_index v < 256 ^ 4 \<and> length (va_signatures v) < 256 \<and>
     list_all sig_wf (va_signatures v) \<and> va_body v = body_bytes v \<and> va_timestamp v < 256 ^ 4 \<and>
     va_nonce v < 256 ^ 4 \<and> va_emitter_chain v < 256 ^ 2 \<and> length (va_emitter_address v) = 32 \<and>
     va_sequence v < 256 ^ 8 \<and> va_consistency_level v < 256"

lemma length_sig_bytes [simp]: "length (sig_bytes g) = 66"
  by (simp add: sig_bytes_def)

lemma length_sigs: "length (concat (map sig_bytes sigs)) = 66 * length sigs"
  by (induction sigs) simp_all

lemma parse_sig_bytes:
  assumes "length pre = off" "sig_wf g"
  shows "parse_signature (pre @ sig_bytes g @ post) off = g"
proof -
  let ?raw = "pre @ sig_bytes g @ post"
  have 1: "?raw ! off = of_nat (sg_guardian_index g)" "?raw ! (off + 65) = of_nat (sg_v g)"
    using assms(1) by (simp_all add: sig_bytes_def nth_append)
  have 2: "slice ?raw (off + 1) 32 = be_bytes 32 (sg_r g)" "slice ?raw (off + 33) 32 = be_bytes 32 (sg_s g)"
    using assms(1) by (simp_all add: slice_def sig_bytes_def)
  show ?thesis
    using assms(2) unfolding parse_signature_def 1 2 by (simp add: sig_wf_def be_nat_be_bytes unat_of_nat_byte)
qed

lemma parse_sigs_bytes:
  assumes "length pre = 6" "list_all sig_wf sigs"
  shows "map (\<lambda>i. parse_signature (pre @ concat (map sig_bytes sigs) @ post) (6 + SIG_LEN * i)) [0..<length sigs] = sigs"
proof (rule nth_equalityI)
  fix i assume "i < length (map (\<lambda>i. parse_signature (pre @ concat (map sig_bytes sigs) @ post) (6 + SIG_LEN * i)) [0..<length sigs])"
  then have i: "i < length sigs" by simp
  let ?l = "take i sigs" and ?r = "drop (Suc i) sigs"
  have split: "sigs = ?l @ sigs ! i # ?r" using i by (simp add: id_take_nth_drop [symmetric])
  have "pre @ concat (map sig_bytes sigs) @ post =
      (pre @ concat (map sig_bytes ?l)) @ sig_bytes (sigs ! i) @ (concat (map sig_bytes ?r) @ post)"
    by (subst split) simp
  moreover have "length (pre @ concat (map sig_bytes ?l)) = 6 + SIG_LEN * i"
    using assms(1) i by (simp add: length_sigs SIG_LEN_def)
  moreover have "sig_wf (sigs ! i)" using assms(2) i by (simp add: list_all_length)
  ultimately have "parse_signature (pre @ concat (map sig_bytes sigs) @ post) (6 + SIG_LEN * i) = sigs ! i"
    by (metis parse_sig_bytes)
  then show "map (\<lambda>i. parse_signature (pre @ concat (map sig_bytes sigs) @ post) (6 + SIG_LEN * i)) [0..<length sigs] ! i = sigs ! i"
    using i by simp
qed simp

lemma sig_bytes_parse:
  assumes "off + 66 \<le> length raw"
  shows "sig_bytes (parse_signature raw off) = slice raw off 66 \<and> sig_wf (parse_signature raw off)"
proof -
  have a: "slice raw off 66 = [raw ! off] @ slice raw (off + 1) 32 @ slice raw (off + 33) 32 @ [raw ! (off + 65)]"
    using assms slice_add [of raw off 1 65] slice_add [of raw "off + 1" 32 33] slice_add [of raw "off + 33" 32 1]
    by (simp add: slice_one ac_simps)
  have l: "length (slice raw (off + 1) 32) = 32" "length (slice raw (off + 33) 32) = 32"
    using assms by (simp_all add: slice_def)
  show ?thesis
    unfolding a using be_bytes_be_nat [OF l(1)] be_bytes_be_nat [OF l(2)] be_nat_less [of "slice raw (off + 1) 32"]
      be_nat_less [of "slice raw (off + 33) 32"] l
    by (simp add: sig_bytes_def parse_signature_def sig_wf_def unat_byte_less)
qed

lemma parse_body_bytes:
  assumes "length (va_emitter_address v) = 32"
  shows "slice (body_bytes v) 0 4 = be_bytes 4 (va_timestamp v)"
    "slice (body_bytes v) 4 4 = be_bytes 4 (va_nonce v)"
    "slice (body_bytes v) 8 2 = be_bytes 2 (va_emitter_chain v)"
    "slice (body_bytes v) 10 32 = va_emitter_address v"
    "slice (body_bytes v) 42 8 = be_bytes 8 (va_sequence v)"
    "body_bytes v ! 50 = of_nat (va_consistency_level v)"
    "drop 51 (body_bytes v) = va_payload v"
    "length (body_bytes v) = 51 + length (va_payload v)"
  using assms by (simp_all add: slice_def body_bytes_def nth_append)

lemma body_split:
  assumes "51 \<le> length b"
  shows "b = slice b 0 4 @ slice b 4 4 @ slice b 8 2 @ slice b 10 32 @ slice b 42 8 @ [b ! 50] @ drop 51 b"
proof -
  have "slice b 0 51 = slice b 0 4 @ slice b 4 4 @ slice b 8 2 @ slice b 10 32 @ slice b 42 8 @ [b ! 50]"
    using assms slice_add [of b 0 4 47] slice_add [of b 4 4 43] slice_add [of b 8 2 41] slice_add [of b 10 32 9]
      slice_add [of b 42 8 1] by (simp add: slice_one)
  with slice_rest [of b 51] show ?thesis by (metis append_assoc)
qed

lemma header_split:
  assumes "6 \<le> length raw"
  shows "raw = [raw ! 0] @ slice raw 1 4 @ [raw ! 5] @ drop 6 raw"
proof -
  from assms have "raw \<noteq> []" by auto
  then have "slice raw 0 6 = [raw ! 0] @ slice raw 1 4 @ [raw ! 5]"
    using assms slice_add [of raw 0 1 5] slice_add [of raw 1 4 1] by (simp add: slice_one)
  with slice_rest [of raw 6] show ?thesis by (metis append_assoc)
qed

lemma concat_slices:
  "a + 66 * n \<le> length raw \<Longrightarrow> concat (map (\<lambda>i. slice raw (a + 66 * i) 66) [0..<n]) = slice raw a (66 * n)"
proof (induction n)
  case (Suc n)
  then show ?case using slice_add [of raw a "66 * n" 66] by (simp add: ac_simps)
qed (simp add: slice_def)

lemma parse_vaa_bytes:
  assumes "vaa_wf v"
  shows "parse_vaa (vaa_bytes v) = Inr v"
proof -
  let ?sigs = "va_signatures v" and ?raw = "vaa_bytes v"
  let ?pre = "[of_nat (va_version v)] @ be_bytes 4 (va_guardian_set_index v) @ [of_nat (length ?sigs)] :: bytes"
  have raw: "?raw = ?pre @ concat (map sig_bytes ?sigs) @ va_body v" by (simp add: vaa_bytes_def)
  have wf: "va_version v = 1" "length ?sigs < 256" "list_all sig_wf ?sigs" "va_body v = body_bytes v"
    "length (va_emitter_address v) = 32"
    using assms by (simp_all add: vaa_wf_def VAA_VERSION_def)
  note body = parse_body_bytes [OF wf(5), folded wf(4)]
  have len: "length ?raw = 6 + 66 * length ?sigs + length (va_body v)" unfolding raw by (simp add: length_sigs)
  have b0: "?raw ! 0 = of_nat (va_version v)" and b5: "?raw ! 5 = of_nat (length ?sigs)" and
    idx: "slice ?raw 1 4 = be_bytes 4 (va_guardian_set_index v)"
    by (simp_all add: raw nth_append slice_def)
  have "length (?pre @ concat (map sig_bytes ?sigs)) = 6 + 66 * length ?sigs" by (simp add: length_sigs)
  then have drp: "drop (6 + 66 * length ?sigs) ?raw = va_body v"
    unfolding raw by (metis append_assoc append_eq_conv_conj)
  have sigs: "map (\<lambda>i. parse_signature ?raw (6 + 66 * i)) [0..<length ?sigs] = ?sigs"
    unfolding raw using parse_sigs_bytes [of ?pre ?sigs "va_body v"] wf(3) by (simp add: SIG_LEN_def)
  have n: "unat (?raw ! 5) = length ?sigs" "unat (?raw ! 0) = 1"
    using wf by (simp_all add: b0 b5 unat_of_nat_byte)
  show ?thesis
    unfolding parse_vaa_def Let_def n SIG_LEN_def BODY_MIN_def drp sigs idx
    using assms len body wf by (simp add: vaa_wf_def VAA_VERSION_def be_nat_be_bytes unat_of_nat_byte)
qed

lemma parse_vaa_SomeD:
  assumes "parse_vaa raw = Inr v"
  shows "vaa_wf v \<and> vaa_bytes v = raw"
proof -
  let ?n = "unat (raw ! 5)"
  let ?b = "drop (6 + 66 * ?n) raw"
  have len: "6 + 66 * ?n + 51 \<le> length raw" and ver: "unat (raw ! 0) = 1" and
    v: "v = \<lparr>va_version = unat (raw ! 0), va_guardian_set_index = be_nat (slice raw 1 4),
            va_signatures = map (\<lambda>i. parse_signature raw (6 + 66 * i)) [0..<?n],
            va_body = ?b, va_timestamp = be_nat (slice ?b 0 4), va_nonce = be_nat (slice ?b 4 4),
            va_emitter_chain = be_nat (slice ?b 8 2), va_emitter_address = slice ?b 10 32,
            va_sequence = be_nat (slice ?b 42 8), va_consistency_level = unat (?b ! 50),
            va_payload = drop 51 ?b\<rparr>"
    using assms by (auto simp: parse_vaa_def Let_def SIG_LEN_def BODY_MIN_def VAA_VERSION_def split: if_splits)
  have lb: "51 \<le> length ?b" using len by simp
  have sl: "length (slice ?b 0 4) = 4" "length (slice ?b 4 4) = 4" "length (slice ?b 8 2) = 2"
    "length (slice ?b 10 32) = 32" "length (slice ?b 42 8) = 8" "length (slice raw 1 4) = 4"
    using lb len by (simp_all add: slice_def)
  have body: "va_body v = body_bytes v"
    unfolding body_bytes_def using body_split [OF lb] sl by (simp add: v be_bytes_be_nat)
  have sig: "sig_bytes (parse_signature raw (6 + 66 * i)) = slice raw (6 + 66 * i) 66"
    "sig_wf (parse_signature raw (6 + 66 * i))" if "i < ?n" for i
    using sig_bytes_parse [of "6 + 66 * i" raw] that len by simp_all
  have "map sig_bytes (va_signatures v) = map (\<lambda>i. slice raw (6 + 66 * i) 66) [0..<?n]"
    using sig(1) by (simp add: v)
  then have sigs: "concat (map sig_bytes (va_signatures v)) = slice raw 6 (66 * ?n)"
    using concat_slices [of 6 ?n raw] len by simp
  have "drop 6 raw = slice raw 6 (66 * ?n) @ ?b"
    using slice_rest [of "drop 6 raw" "66 * ?n"] by (simp add: slice_drop add.commute)
  then have "vaa_bytes v = raw"
    unfolding vaa_bytes_def sigs using header_split [of raw] len sl(6) by (simp add: v be_bytes_be_nat)
  moreover have "vaa_wf v"
    unfolding vaa_wf_def using body sig(2) ver sl
      be_nat_less [of "slice ?b 0 4"] be_nat_less [of "slice ?b 4 4"] be_nat_less [of "slice ?b 8 2"]
      be_nat_less [of "slice ?b 42 8"] be_nat_less [of "slice raw 1 4"] unat_byte_less
    by (simp add: v VAA_VERSION_def list_all_length)
  ultimately show ?thesis by blast
qed

subsection \<open>Guardian sets\<close>

definition fromhex_space :: "char \<Rightarrow> bool" where
  "fromhex_space c \<longleftrightarrow> (let n = of_char c :: nat in n = 32 \<or> (9 \<le> n \<and> n \<le> 13))"

definition hex_val :: "char \<Rightarrow> nat option" where
  "hex_val c =
     (let n = of_char (lower_char c) :: nat in
      if 48 \<le> n \<and> n \<le> 57 then Some (n - 48) else if 97 \<le> n \<and> n \<le> 102 then Some (n - 87) else None)"

text \<open>\<open>bytes.fromhex\<close>: pairs of digits, white space allowed between the pairs.\<close>

fun fromhex :: "string \<Rightarrow> bytes option" where
  "fromhex [] = Some []"
| "fromhex [c] = (if fromhex_space c then Some [] else None)"
| "fromhex (c # d # ds) =
     (if fromhex_space c then fromhex (d # ds)
      else case (hex_val c, hex_val d) of
          (Some h, Some l) \<Rightarrow> map_option (\<lambda>bs. of_nat (16 * h + l) # bs) (fromhex ds)
        | _ \<Rightarrow> None)"

datatype guardian_error = Bad_hex string | Not_20_bytes string

fun parse_addresses :: "string list \<Rightarrow> guardian_error + bytes list" where
  "parse_addresses [] = Inr []"
| "parse_addresses (a # as) =
     (let t = strip a in
      case fromhex (if starts_with t ''0x'' then drop 2 t else t) of
        None \<Rightarrow> Inl (Bad_hex a)
      | Some raw \<Rightarrow>
          if length raw \<noteq> 20 then Inl (Not_20_bytes a)
          else (case parse_addresses as of Inl e \<Rightarrow> Inl e | Inr rs \<Rightarrow> Inr (raw # rs)))"

definition from_hex :: "int \<Rightarrow> string list \<Rightarrow> guardian_error + guardian_set" where
  "from_hex index addresses =
     (case parse_addresses addresses of
        Inl e \<Rightarrow> Inl e
      | Inr rs \<Rightarrow> Inr \<lparr>gset_index = index, gset_addresses = rs\<rparr>)"

definition guardian_set_from_settings :: "int \<Rightarrow> string \<Rightarrow> guardian_error + guardian_set option" where
  "guardian_set_from_settings index text =
     (let addresses = filter (\<lambda>a. strip a \<noteq> []) (split_on CHR '','' text) in
      if addresses = [] then Inr None
      else (case from_hex index addresses of Inl e \<Rightarrow> Inl e | Inr g \<Rightarrow> Inr (Some g)))"

definition quorum :: "guardian_set \<Rightarrow> nat" where
  "quorum g = length (gset_addresses g) * 2 div 3 + 1"

lemma parse_addresses_20: "parse_addresses as = Inr rs \<Longrightarrow> length rs = length as \<and> list_all (\<lambda>a. length a = 20) rs"
  by (induction as arbitrary: rs) (auto simp: Let_def split: option.splits if_splits sum.splits)

subsection \<open>Verification\<close>

type_synonym hash_fn = "bytes \<Rightarrow> bytes"
type_synonym recover_fn = "bytes \<Rightarrow> nat \<times> nat \<times> nat \<Rightarrow> (nat \<times> nat) option"

definition vaa_digest :: "hash_fn \<Rightarrow> bytes \<Rightarrow> bytes" where
  "vaa_digest keccak body = keccak (keccak body)"

text \<open>\<open>xs[-20:]\<close>. \<open>to_bytes(32)\<close> raises on a coordinate of more than 32 bytes.\<close>

definition last_bytes :: "nat \<Rightarrow> bytes \<Rightarrow> bytes" where
  "last_bytes n bs = drop (length bs - n) bs"

definition recover_guardian_address ::
    "hash_fn \<Rightarrow> recover_fn \<Rightarrow> bytes \<Rightarrow> guardian_signature \<Rightarrow> vaa_error + bytes" where
  "recover_guardian_address keccak recover digest sig =
     (if sg_v sig \<noteq> 0 \<and> sg_v sig \<noteq> 1 then Inl (Invalid_recovery_id (sg_v sig))
      else case recover digest (sg_v sig + 27, sg_r sig, sg_s sig) of
          None \<Rightarrow> Inl (Recovery_failed (sg_guardian_index sig))
        | Some (x, y) \<Rightarrow>
            if 256 ^ 32 \<le> x \<or> 256 ^ 32 \<le> y then Inl Coordinate_overflow
            else Inr (last_bytes 20 (keccak (be_bytes 32 x @ be_bytes 32 y))))"

fun verify_signatures ::
    "hash_fn \<Rightarrow> recover_fn \<Rightarrow> bytes list \<Rightarrow> bytes \<Rightarrow> int \<Rightarrow> guardian_signature list \<Rightarrow> vaa_error + unit" where
  "verify_signatures keccak recover addresses digest last_index [] = Inr ()"
| "verify_signatures keccak recover addresses digest last_index (sig # sigs) =
     (let i = sg_guardian_index sig in
      if int i \<le> last_index then Inl Not_ascending
      else if length addresses \<le> i then Inl (Unknown_guardian i)
      else case recover_guardian_address keccak recover digest sig of
          Inl e \<Rightarrow> Inl e
        | Inr a \<Rightarrow>
            if a \<noteq> addresses ! i then Inl (Invalid_signature i)
            else verify_signatures keccak recover addresses digest (int i) sigs)"

definition verify_vaa :: "hash_fn \<Rightarrow> recover_fn \<Rightarrow> parsed_vaa \<Rightarrow> guardian_set option \<Rightarrow> vaa_error + unit" where
  "verify_vaa keccak recover vaa guardians =
     (case guardians of
        None \<Rightarrow> Inl No_guardian_set
      | Some g \<Rightarrow>
          if gset_addresses g = [] then Inl No_guardian_set
          else if int (va_guardian_set_index vaa) \<noteq> gset_index g
            then Inl (Other_guardian_set (va_guardian_set_index vaa) (gset_index g))
          else if length (va_signatures vaa) < quorum g
            then Inl (Insufficient_signatures (length (va_signatures vaa)) (quorum g))
          else verify_signatures keccak recover (gset_addresses g) (vaa_digest keccak (va_body vaa)) (- 1)
                 (va_signatures vaa))"

text \<open>A signature counts when it recovers to the address of the guardian it names.\<close>

definition signed_by_guardian :: "hash_fn \<Rightarrow> recover_fn \<Rightarrow> bytes list \<Rightarrow> bytes \<Rightarrow> guardian_signature \<Rightarrow> bool" where
  "signed_by_guardian keccak recover addresses digest sig \<longleftrightarrow>
     sg_guardian_index sig < length addresses \<and>
     recover_guardian_address keccak recover digest sig = Inr (addresses ! sg_guardian_index sig)"

lemma verify_signatures_iff:
  "verify_signatures keccak recover addresses digest last_index sigs = Inr () \<longleftrightarrow>
     sorted_wrt (<) (last_index # map (int \<circ> sg_guardian_index) sigs) \<and>
     list_all (signed_by_guardian keccak recover addresses digest) sigs"
proof (induction sigs arbitrary: last_index)
  case (Cons sig sigs)
  show ?case
    by (auto simp: Let_def signed_by_guardian_def Cons.IH split: sum.splits)
qed simp

lemma verify_vaa_iff:
  "verify_vaa keccak recover vaa (Some g) = Inr () \<longleftrightarrow>
     gset_addresses g \<noteq> [] \<and> int (va_guardian_set_index vaa) = gset_index g \<and>
     quorum g \<le> length (va_signatures vaa) \<and>
     sorted_wrt (<) (map sg_guardian_index (va_signatures vaa)) \<and>
     list_all (signed_by_guardian keccak recover (gset_addresses g) (vaa_digest keccak (va_body vaa))) (va_signatures vaa)"
  by (auto simp: verify_vaa_def verify_signatures_iff sorted_wrt_map)

definition signers :: "parsed_vaa \<Rightarrow> nat set" where
  "signers vaa = set (map sg_guardian_index (va_signatures vaa))"

lemma verified_signers:
  assumes "verify_vaa keccak recover vaa (Some g) = Inr ()"
  shows "signers vaa \<subseteq> {..<length (gset_addresses g)}" "2 * length (gset_addresses g) < 3 * card (signers vaa)"
proof -
  from assms have q: "quorum g \<le> length (va_signatures vaa)" and
    s: "sorted_wrt (<) (map sg_guardian_index (va_signatures vaa))" and
    all: "list_all (signed_by_guardian keccak recover (gset_addresses g) (vaa_digest keccak (va_body vaa))) (va_signatures vaa)"
    by (simp_all add: verify_vaa_iff)
  show "signers vaa \<subseteq> {..<length (gset_addresses g)}"
    using all by (auto simp: signers_def list_all_iff signed_by_guardian_def)
  have "card (signers vaa) = length (va_signatures vaa)"
    using s by (simp add: signers_def strict_sorted_iff distinct_card del: set_map)
  with q show "2 * length (gset_addresses g) < 3 * card (signers vaa)" by (simp add: quorum_def)
qed

lemma quorum_overlap:
  assumes "A \<subseteq> {..<n}" "B \<subseteq> {..<n}" "2 * n < 3 * card A" "2 * n < 3 * card (B :: nat set)"
  shows "n < 3 * card (A \<inter> B)"
proof -
  have fin: "finite A" "finite B" using assms by (meson finite_lessThan finite_subset)+
  have "card (A \<union> B) \<le> n" using assms card_mono [of "{..<n}" "A \<union> B"] by simp
  moreover have "card A + card B = card (A \<union> B) + card (A \<inter> B)" using fin by (rule card_Un_Int)
  ultimately show ?thesis using assms by linarith
qed

subsection \<open>Properties\<close>

text \<open>C34: the parser is exact. It accepts a byte string and returns a message if and only if the message is
  well formed (version 1, every field within its width, the body consistent with the decoded fields) and the
  byte string is the documented layout of that message: so every well-formed message is parsed back from its
  bytes, nothing else is accepted, and no byte of an accepted message is lost or read twice.\<close>

theorem parse_vaa_exact: "parse_vaa raw = Inr v \<longleftrightarrow> vaa_wf v \<and> vaa_bytes v = raw"
  using parse_vaa_bytes parse_vaa_SomeD by blast

text \<open>C35: a message passes verification only with a genuine quorum: a guardian set is configured and is the one
  the message names, the signatures are in strictly ascending guardian order (so no guardian counts twice), each
  recovers over the double hash of the body to the address the set lists at its index, and the guardians that
  signed are more than two thirds of the set.\<close>

theorem verified_vaa_has_quorum:
  assumes "verify_vaa keccak recover vaa guardians = Inr ()"
  shows "\<exists>g. guardians = Some g \<and> int (va_guardian_set_index vaa) = gset_index g \<and>
    sorted_wrt (<) (map sg_guardian_index (va_signatures vaa)) \<and>
    list_all (signed_by_guardian keccak recover (gset_addresses g) (keccak (keccak (va_body vaa)))) (va_signatures vaa) \<and>
    signers vaa \<subseteq> {..<length (gset_addresses g)} \<and> 2 * length (gset_addresses g) < 3 * card (signers vaa)"
proof -
  from assms obtain g where g: "guardians = Some g" by (cases guardians) (auto simp: verify_vaa_def)
  with assms have v: "verify_vaa keccak recover vaa (Some g) = Inr ()" by simp
  with verified_signers [OF v] g show ?thesis by (simp add: verify_vaa_iff vaa_digest_def)
qed

definition example_vaa :: parsed_vaa where
  "example_vaa =
     \<lparr>va_version = 1, va_guardian_set_index = 4,
      va_signatures = [\<lparr>sg_guardian_index = 0, sg_r = 0, sg_s = 1, sg_v = 0\<rparr>,
                       \<lparr>sg_guardian_index = 1, sg_r = 0, sg_s = 2, sg_v = 1\<rparr>],
      va_body = [], va_timestamp = 0, va_nonce = 0, va_emitter_chain = 1, va_emitter_address = [],
      va_sequence = 7, va_consistency_level = 1, va_payload = []\<rparr>"

definition example_set :: guardian_set where
  "example_set = \<lparr>gset_index = 4, gset_addresses = [be_bytes 20 1, be_bytes 20 2]\<rparr>"

definition example_recover :: recover_fn where
  "example_recover digest p = (case p of (v, r, s) \<Rightarrow> Some (r, s))"

lemma drop_be_bytes: "drop k (be_bytes (k + m) n) = be_bytes m n"
  by (induction m arbitrary: n) simp_all

lemma last_be_bytes: "last_bytes 20 (bs @ be_bytes 32 n) = be_bytes 20 n"
  using drop_be_bytes [of 12 20 n] by (simp add: last_bytes_def)

lemma example_verified: "verify_vaa (\<lambda>b. b) example_recover example_vaa (Some example_set) = Inr ()"
  by (simp add: verify_vaa_iff example_vaa_def example_set_def quorum_def signed_by_guardian_def
      recover_guardian_address_def example_recover_def last_be_bytes)

theorem verified_vaa_has_quorum_witness: "2 * length (gset_addresses example_set) < 3 * card (signers example_vaa)"
  using verified_vaa_has_quorum [OF example_verified] by auto

text \<open>Two messages accepted under the same guardian set share guardians: more than a third of the set
  signed both, so two contradictory messages need more than a third of the guardians to sign both.\<close>

theorem verified_vaas_share_guardians:
  assumes "verify_vaa keccak recover vaa (Some g) = Inr ()" "verify_vaa keccak recover vaa' (Some g) = Inr ()"
  shows "length (gset_addresses g) < 3 * card (signers vaa \<inter> signers vaa')"
  using verified_signers [OF assms(1)] verified_signers [OF assms(2)] quorum_overlap by blast

theorem verified_vaas_share_guardians_witness:
  "length (gset_addresses example_set) < 3 * card (signers example_vaa \<inter> signers example_vaa)"
  by (rule verified_vaas_share_guardians [OF example_verified example_verified])

text \<open>A guardian set built from the settings holds 20-byte addresses only and is never empty, so an accepted
  quorum is never one of nobody.\<close>

lemma settings_guardians:
  assumes "guardian_set_from_settings index text = Inr (Some g)"
  shows "gset_addresses g \<noteq> [] \<and> list_all (\<lambda>a. length a = 20) (gset_addresses g) \<and> gset_index g = index"
proof -
  let ?as = "filter (\<lambda>a. strip a \<noteq> []) (split_on CHR '','' text)"
  from assms obtain rs where rs: "parse_addresses ?as = Inr rs" "?as \<noteq> []"
      "g = \<lparr>gset_index = index, gset_addresses = rs\<rparr>"
    by (auto simp: guardian_set_from_settings_def from_hex_def Let_def split: if_splits sum.splits)
  from parse_addresses_20 [OF rs(1)] rs show ?thesis by auto
qed

end
