(* ===== verification/Replay_Buffer.thy ===== *)
theory Replay_Buffer
  imports LL_Prelude "HOL-Library.Product_Lexorder" "HOL-Library.Multiset"
begin

text \<open>
  \<open>ingestion/replay_buffer.py\<close>: the buffer that puts order-book events back into ledger order. The binary heap
  of \<open>heapq\<close> is the sorted list of its entries: \<open>heap[0]\<close> and \<open>heappop\<close> are its head, \<open>heappush\<close> is
  \<open>insort\<close>; entries are totally ordered, so nothing the source does can tell the difference. The two
  dictionaries are maps. Time is \<open>time.monotonic()\<close>, an exact rational. A \<open>KeyError\<close> is the value
  \<open>None\<close>.
\<close>

subsection \<open>Sort keys\<close>

datatype token_key = Numeric int | Opaque string

text \<open>The tuple \<open>(regime, numeric_value, string_value)\<close> of the source; keys are compared as these tuples.\<close>

fun key_tuple :: "token_key \<Rightarrow> int \<times> int \<times> string" where
  "key_tuple (Numeric n) = (0, n, '''')"
| "key_tuple (Opaque s) = (1, 0, s)"

definition sort_key_of :: "string \<Rightarrow> token_key" where
  "sort_key_of token = (case py_int token of Some n \<Rightarrow> Numeric n | None \<Rightarrow> Opaque token)"

lemma key_tuple_inj: "key_tuple a = key_tuple b \<longleftrightarrow> a = b"
  by (cases a; cases b) auto

instantiation token_key :: linorder
begin

definition less_eq_token_key :: "token_key \<Rightarrow> token_key \<Rightarrow> bool" where
  "less_eq_token_key a b \<longleftrightarrow> key_tuple a \<le> key_tuple b"

definition less_token_key :: "token_key \<Rightarrow> token_key \<Rightarrow> bool" where
  "less_token_key a b \<longleftrightarrow> key_tuple a < key_tuple b"

instance
  by standard (auto simp: less_eq_token_key_def less_token_key_def key_tuple_inj [symmetric] simp del: key_tuple.simps)

end

lemma token_key_less [simp]:
  "Numeric m < Numeric n \<longleftrightarrow> m < n" "Numeric m < Opaque s" "\<not> Opaque s < Numeric m"
  "Opaque s < Opaque t \<longleftrightarrow> s < t"
  by (auto simp: less_token_key_def less_prod_simp)

lemma token_key_le [simp]:
  "Numeric m \<le> Numeric n \<longleftrightarrow> m \<le> n" "Numeric m \<le> Opaque s" "\<not> Opaque s \<le> Numeric m"
  "Opaque s \<le> Opaque t \<longleftrightarrow> s \<le> t"
  by (auto simp: less_eq_token_key_def less_eq_prod_simp)

subsection \<open>The buffer\<close>

definition DEFAULT_GAP_TIMEOUT_SECONDS :: rat where "DEFAULT_GAP_TIMEOUT_SECONDS = 30"
definition DEDUP_TTL_SAFETY_FACTOR :: rat where "DEDUP_TTL_SAFETY_FACTOR = 2"

definition replay_window_seconds :: "rat \<Rightarrow> rat" where
  "replay_window_seconds gap_timeout_seconds = gap_timeout_seconds * DEDUP_TTL_SAFETY_FACTOR"

text \<open>Of an event the buffer reads only \<open>event.id\<close>.\<close>

record 'p book_event =
  be_id :: string
  be_rest :: 'p

type_synonym heap_entry = "token_key \<times> string"

record 'p replay_buffer =
  rb_max_size :: int
  rb_gap_timeout :: rat
  rb_heap :: "heap_entry list"
  rb_events :: "string \<rightharpoonup> 'p book_event"
  rb_ingested_at :: "string \<rightharpoonup> rat"
  rb_last_emitted_key :: "token_key option"
  rb_size :: nat   \<comment> \<open>\<open>len(self._events)\<close>\<close>

definition new_buffer :: "int \<Rightarrow> rat \<Rightarrow> 'p replay_buffer" where
  "new_buffer max_size timeout =
     \<lparr>rb_max_size = max_size, rb_gap_timeout = timeout, rb_heap = [], rb_events = Map.empty,
      rb_ingested_at = Map.empty, rb_last_emitted_key = None, rb_size = 0\<rparr>"

definition dedup_ttl_seconds :: "'p replay_buffer \<Rightarrow> rat" where
  "dedup_ttl_seconds b = replay_window_seconds (rb_gap_timeout b)"

definition expire_all :: "rat \<Rightarrow> 'p replay_buffer \<Rightarrow> 'p replay_buffer" where
  "expire_all clock b =
     (let past = clock - rb_gap_timeout b - 1 in
      b\<lparr>rb_ingested_at := (\<lambda>t. map_option (\<lambda>_. past) (rb_ingested_at b t))\<rparr>)"

text \<open>The clock is read once for the time stamp and once more, not earlier, by \<open>_expire_all\<close>.\<close>

definition ingest :: "rat \<Rightarrow> rat \<Rightarrow> 'p book_event \<Rightarrow> 'p replay_buffer \<Rightarrow> 'p replay_buffer" where
  "ingest clock clock' event b =
     (let token = be_id event in
      if rb_events b token \<noteq> None then b
      else
        let b1 = b\<lparr>rb_heap := insort (sort_key_of token, token) (rb_heap b),
                   rb_events := (rb_events b)(token \<mapsto> event),
                   rb_ingested_at := (rb_ingested_at b)(token \<mapsto> clock),
                   rb_size := rb_size b + 1\<rparr>
        in if rb_max_size b1 \<le> int (rb_size b1) then expire_all clock' b1 else b1)"

text \<open>The gap test: is the head to be held back after the last emitted key? For an opaque last key the tuple
  component read is 0.\<close>

definition key_number :: "token_key \<Rightarrow> int" where
  "key_number k = fst (snd (key_tuple k))"

definition has_gap :: "token_key option \<Rightarrow> token_key \<Rightarrow> bool" where
  "has_gap last_key key =
     (case last_key of
        None \<Rightarrow> False
      | Some l \<Rightarrow> fst (key_tuple key) = 0 \<and> key_number l + 1 < key_number key)"

definition emit :: "string \<Rightarrow> token_key \<Rightarrow> heap_entry list \<Rightarrow> 'p replay_buffer \<Rightarrow> 'p replay_buffer" where
  "emit token key rest b =
     b\<lparr>rb_heap := rest, rb_ingested_at := (rb_ingested_at b)(token := None),
       rb_events := (rb_events b)(token := None), rb_size := rb_size b - 1, rb_last_emitted_key := Some key\<rparr>"

function drain :: "rat \<Rightarrow> 'p replay_buffer \<Rightarrow> ('p book_event list \<times> 'p replay_buffer) option" where
  "drain now b =
     (case rb_heap b of
        [] \<Rightarrow> Some ([], b)
      | (key, token) # rest \<Rightarrow>
          (case rb_events b token of
             None \<Rightarrow> drain now (b\<lparr>rb_heap := rest\<rparr>)
           | Some event \<Rightarrow>
               (case rb_ingested_at b token of
                  None \<Rightarrow> None
                | Some t \<Rightarrow>
                    if \<not> (rb_gap_timeout b \<le> now - t) \<and> has_gap (rb_last_emitted_key b) key then Some ([], b)
                    else (case drain now (emit token key rest b) of
                            None \<Rightarrow> None
                          | Some (ready, b') \<Rightarrow> Some (event # ready, b')))))"
  by pat_completeness auto
termination
  by (relation "measure (\<lambda>(now, b). length (rb_heap b))") (auto simp: emit_def)

declare drain.simps [simp del]

function flush_loop :: "'p replay_buffer \<Rightarrow> 'p book_event list \<times> 'p replay_buffer" where
  "flush_loop b =
     (case rb_heap b of
        [] \<Rightarrow> ([], b)
      | (key, token) # rest \<Rightarrow>
          (case rb_events b token of
             None \<Rightarrow> flush_loop (b\<lparr>rb_heap := rest\<rparr>)
           | Some event \<Rightarrow>
               (let (result, b') = flush_loop (emit token key rest b) in (event # result, b'))))"
  by pat_completeness auto
termination
  by (relation "measure (\<lambda>b. length (rb_heap b))") (auto simp: emit_def)

declare flush_loop.simps [simp del]

definition flush_all :: "'p replay_buffer \<Rightarrow> 'p book_event list \<times> 'p replay_buffer" where
  "flush_all b = (let (result, b') = flush_loop b in (result, b'\<lparr>rb_ingested_at := Map.empty\<rparr>))"

subsection \<open>Invariant\<close>

definition entry_of :: "'p book_event \<Rightarrow> heap_entry" where
  "entry_of e = (sort_key_of (be_id e), be_id e)"

definition buffered :: "'p replay_buffer \<Rightarrow> 'p book_event list" where
  "buffered b = map (\<lambda>x. the (rb_events b (snd x))) (rb_heap b)"

definition buffer_ok :: "'p replay_buffer \<Rightarrow> bool" where
  "buffer_ok b \<longleftrightarrow>
     sorted (rb_heap b) \<and> distinct (map snd (rb_heap b)) \<and> dom (rb_events b) = snd ` set (rb_heap b) \<and>
     dom (rb_ingested_at b) = dom (rb_events b) \<and> rb_size b = length (rb_heap b) \<and>
     (\<forall>x \<in> set (rb_heap b). \<exists>e. rb_events b (snd x) = Some e \<and> entry_of e = x)"

lemma buffer_ok_new: "buffer_ok (new_buffer m t)"
  by (simp add: buffer_ok_def new_buffer_def)

lemma buffer_ok_heap: "buffer_ok b \<Longrightarrow> rb_heap b = map entry_of (buffered b)"
  by (force simp: buffer_ok_def buffered_def intro!: nth_equalityI dest: nth_mem)

lemma buffer_ok_expire: "buffer_ok (expire_all c b) \<longleftrightarrow> buffer_ok b"
  by (auto simp: buffer_ok_def expire_all_def Let_def dom_def)

lemma expire_all_simps [simp]:
  "rb_heap (expire_all c b) = rb_heap b" "rb_events (expire_all c b) = rb_events b"
  "rb_gap_timeout (expire_all c b) = rb_gap_timeout b" "rb_max_size (expire_all c b) = rb_max_size b"
  "buffered (expire_all c b) = buffered b"
  by (simp_all add: expire_all_def Let_def buffered_def)

lemma buffer_ok_ingest:
  assumes "buffer_ok b"
  shows "buffer_ok (ingest c c' e b)"
proof (cases "rb_events b (be_id e)")
  case None
  let ?x = "(sort_key_of (be_id e), be_id e)"
  let ?b = "b\<lparr>rb_heap := insort ?x (rb_heap b), rb_events := (rb_events b)(be_id e \<mapsto> e),
    rb_ingested_at := (rb_ingested_at b)(be_id e \<mapsto> c), rb_size := rb_size b + 1\<rparr>"
  have fresh: "be_id e \<notin> snd ` set (rb_heap b)" using assms None by (auto simp: buffer_ok_def)
  have "distinct (map snd (insort ?x (rb_heap b)))"
  proof -
    have "mset (map snd (insort ?x (rb_heap b))) = mset (be_id e # map snd (rb_heap b))" by simp
    then show ?thesis
      using assms fresh by (metis buffer_ok_def distinct.simps(2) list.set_map mset_eq_imp_distinct_iff)
  qed
  moreover have "\<exists>e'. (if snd x = be_id e then Some e else rb_events b (snd x)) = Some e' \<and> entry_of e' = x"
    if "x \<in> insert ?x (set (rb_heap b))" for x
    using that assms fresh by (auto simp: buffer_ok_def entry_of_def)
  ultimately have "buffer_ok ?b"
    using assms by (auto simp: buffer_ok_def sorted_insort set_insort_key)
  then show ?thesis using None by (simp add: ingest_def Let_def buffer_ok_expire)
qed (simp add: ingest_def assms)

lemma buffered_ingest:
  assumes "buffer_ok b"
  shows "mset (buffered (ingest c c' e b)) =
         (if rb_events b (be_id e) = None then add_mset e (mset (buffered b)) else mset (buffered b))"
proof (cases "rb_events b (be_id e)")
  case None
  let ?x = "(sort_key_of (be_id e), be_id e)"
  let ?f = "\<lambda>x. the (((rb_events b)(be_id e \<mapsto> e)) (snd x))"
  have "be_id e \<notin> snd ` set (rb_heap b)" using assms None by (auto simp: buffer_ok_def)
  then have old: "map ?f (rb_heap b) = buffered b" by (force simp: buffered_def)
  have "mset (map ?f (insort ?x (rb_heap b))) = add_mset e (mset (map ?f (rb_heap b)))" by simp
  then have "mset (map ?f (insort ?x (rb_heap b))) = add_mset e (mset (buffered b))" by (simp only: old)
  then show ?thesis using None by (simp add: ingest_def Let_def buffered_def)
qed (simp add: ingest_def)

lemma buffered_sorted: "buffer_ok b \<Longrightarrow> sorted (map entry_of (buffered b))"
  by (metis buffer_ok_def buffer_ok_heap)

lemma buffered_keys_sorted: "buffer_ok b \<Longrightarrow> sorted (map (sort_key_of \<circ> be_id) (buffered b))"
proof -
  assume "buffer_ok b"
  then have "sorted_wrt (\<lambda>d e. entry_of d \<le> entry_of e) (buffered b)" using buffered_sorted by (simp add: sorted_map)
  then have "sorted_wrt (\<lambda>d e. sort_key_of (be_id d) \<le> sort_key_of (be_id e)) (buffered b)"
    by (rule sorted_wrt_mono_rel [rotated]) (auto simp: entry_of_def less_eq_prod_simp)
  then show ?thesis by (simp add: sorted_map)
qed

text \<open>The head of a non-empty buffer, and what emitting it leaves.\<close>

lemma buffer_ok_head:
  assumes "buffer_ok b" "rb_heap b = (key, token) # rest"
  obtains e t where "rb_events b token = Some e" "rb_ingested_at b token = Some t" "be_id e = token"
    "sort_key_of token = key" "buffered b = e # buffered (emit token key rest b)"
proof -
  from assms obtain e where e: "rb_events b token = Some e" "entry_of e = (key, token)"
    by (auto simp: buffer_ok_def)
  have "token \<in> dom (rb_ingested_at b)" using assms(1) e by (auto simp: buffer_ok_def)
  then obtain t where t: "rb_ingested_at b token = Some t" by blast
  have "token \<notin> snd ` set rest" using assms by (auto simp: buffer_ok_def)
  then have "buffered b = e # buffered (emit token key rest b)"
    using assms(2) e by (force simp: buffered_def emit_def)
  with e t show ?thesis by (intro that [of e t]) (simp_all add: entry_of_def, auto)
qed

lemma buffer_ok_emit:
  assumes "buffer_ok b" "rb_heap b = (key, token) # rest"
  shows "buffer_ok (emit token key rest b)"
proof -
  have fresh: "token \<notin> snd ` set rest" using assms by (auto simp: buffer_ok_def)
  have "\<exists>e. (if snd x = token then None else rb_events b (snd x)) = Some e \<and> entry_of e = x"
    if "x \<in> set rest" for x
    using assms that fresh by (force simp: buffer_ok_def)
  with assms fresh show ?thesis by (auto simp: buffer_ok_def emit_def)
qed

lemma emit_simps [simp]:
  "rb_heap (emit token key rest b) = rest" "rb_last_emitted_key (emit token key rest b) = Some key"
  "rb_gap_timeout (emit token key rest b) = rb_gap_timeout b" "rb_max_size (emit token key rest b) = rb_max_size b"
  by (simp_all add: emit_def)

definition timed_out :: "rat \<Rightarrow> 'p replay_buffer \<Rightarrow> 'p book_event \<Rightarrow> bool" where
  "timed_out now b e \<longleftrightarrow> (\<exists>t. rb_ingested_at b (be_id e) = Some t \<and> rb_gap_timeout b \<le> now - t)"

definition held :: "rat \<Rightarrow> 'p replay_buffer \<Rightarrow> bool" where
  "held now b \<longleftrightarrow>
     (case buffered b of
        [] \<Rightarrow> True
      | e # es \<Rightarrow> \<not> timed_out now b e \<and> has_gap (rb_last_emitted_key b) (sort_key_of (be_id e)))"

lemma drain_step:
  assumes "buffer_ok b" "rb_heap b = (key, token) # rest" "rb_events b token = Some e"
  shows "drain now b =
    (if held now b then Some ([], b)
     else map_option (\<lambda>(ready, b'). (e # ready, b')) (drain now (emit token key rest b)))"
proof (rule buffer_ok_head [OF assms(1,2)])
  fix d t
  assume d: "rb_events b token = Some d" "rb_ingested_at b token = Some t" "be_id d = token"
    "sort_key_of token = key" "buffered b = d # buffered (emit token key rest b)"
  then have "d = e" using assms(3) by simp
  with d assms(2,3) show ?thesis
    by (subst drain.simps)
      (auto simp: held_def timed_out_def split: option.splits)
qed

lemma buffered_ids_distinct: "buffer_ok b \<Longrightarrow> distinct (map be_id (buffered b))"
  by (metis (no_types, lifting) buffer_ok_def buffer_ok_heap comp_def entry_of_def list.map_comp map_cong snd_conv)

definition drain_result :: "'p replay_buffer \<Rightarrow> rat \<Rightarrow> 'p book_event list \<Rightarrow> 'p replay_buffer \<Rightarrow> bool" where
  "drain_result b now out b' \<longleftrightarrow>
    buffer_ok b' \<and> buffered b = out @ buffered b' \<and> held now b' \<and> (out = [] \<longrightarrow> b' = b) \<and>
    (out \<noteq> [] \<longrightarrow> rb_last_emitted_key b' = Some (sort_key_of (be_id (last out)))) \<and>
    rb_max_size b' = rb_max_size b \<and> rb_gap_timeout b' = rb_gap_timeout b \<and>
    (\<forall>e \<in> set (buffered b'). rb_ingested_at b' (be_id e) = rb_ingested_at b (be_id e))"

lemma drain_total:
  assumes "buffer_ok b"
  shows "\<exists>out b'. drain now b = Some (out, b') \<and> drain_result b now out b'"
  using assms
proof (induction "length (rb_heap b)" arbitrary: b)
  case 0
  then have "drain now b = Some ([], b)" by (subst drain.simps) simp
  with 0 show ?case by (simp add: drain_result_def held_def buffered_def)
next
  case (Suc n)
  then obtain key token rest where h: "rb_heap b = (key, token) # rest" by (cases "rb_heap b") auto
  from Suc.prems h obtain e t where e: "rb_events b token = Some e" "be_id e = token" "sort_key_of token = key"
    "buffered b = e # buffered (emit token key rest b)" by (metis buffer_ok_head)
  note step = drain_step [OF Suc.prems h e(1), of now]
  show ?case
  proof (cases "held now b")
    case True
    with step Suc.prems show ?thesis by (simp add: drain_result_def)
  next
    case False
    let ?c = "emit token key rest b"
    have ok: "buffer_ok ?c" using Suc.prems h by (rule buffer_ok_emit)
    have n: "n = length (rb_heap ?c)" using Suc.hyps(2) h by simp
    from Suc.hyps(1) [OF n ok] obtain out b' where d: "drain now ?c = Some (out, b')"
      and r: "drain_result ?c now out b'" by blast
    have b': "buffered b = e # out @ buffered b'" using r e(4) by (simp add: drain_result_def)
    have "be_id e \<notin> be_id ` set (buffered b')" using buffered_ids_distinct [OF Suc.prems] by (simp add: b')
    then have "be_id d \<noteq> token" if "d \<in> set (buffered b')" for d using that e(2) by (metis image_eqI)
    then have "\<forall>d \<in> set (buffered b'). rb_ingested_at b' (be_id d) = rb_ingested_at b (be_id d)"
      using r by (simp add: drain_result_def emit_def)
    moreover have "rb_last_emitted_key b' = Some (sort_key_of (be_id (last (e # out))))"
    proof (cases "out = []")
      case True
      with r have "b' = ?c" unfolding drain_result_def by blast
      with True e(2,3) show ?thesis by simp
    next
      case False
      with r have "rb_last_emitted_key b' = Some (sort_key_of (be_id (last out)))" unfolding drain_result_def by blast
      with False show ?thesis by simp
    qed
    ultimately have "drain_result b now (e # out) b'"
      using r b' by (simp add: drain_result_def)
    moreover have "drain now b = Some (e # out, b')" using False step d(1) by simp
    ultimately show ?thesis by blast
  qed
qed

lemma drain_SomeD:
  assumes "buffer_ok b" "drain now b = Some (out, b')"
  shows "buffer_ok b'" "buffered b = out @ buffered b'" "held now b'" "out = [] \<Longrightarrow> b' = b"
    "out \<noteq> [] \<Longrightarrow> rb_last_emitted_key b' = Some (sort_key_of (be_id (last out)))"
    "rb_max_size b' = rb_max_size b" "rb_gap_timeout b' = rb_gap_timeout b"
    "\<And>e. e \<in> set (buffered b') \<Longrightarrow> rb_ingested_at b' (be_id e) = rb_ingested_at b (be_id e)"
  using drain_total [OF assms(1), of now] assms(2) by (auto simp: drain_result_def)

lemma drain_all_timed_out:
  assumes "buffer_ok b" "\<And>e. e \<in> set (buffered b) \<Longrightarrow> timed_out now b e"
  shows "\<exists>b'. drain now b = Some (buffered b, b') \<and> rb_heap b' = []"
proof -
  from assms(1) obtain out b' where d: "drain now b = Some (out, b')" using drain_total by blast
  note D = drain_SomeD [OF assms(1) d]
  have "buffered b' = []"
  proof (cases "buffered b'")
    case (Cons e es)
    then have "timed_out now b' e" using assms(2) D(2,7,8) by (simp add: timed_out_def)
    with D(3) Cons show ?thesis by (simp add: held_def)
  qed
  with D d show ?thesis by (simp add: buffered_def)
qed

lemma flush_loop_spec:
  "buffer_ok b \<Longrightarrow> \<exists>b'. flush_loop b = (buffered b, b') \<and> buffer_ok b' \<and> rb_heap b' = []"
proof (induction "length (rb_heap b)" arbitrary: b)
  case 0
  then show ?case by (subst flush_loop.simps) (simp add: buffered_def)
next
  case (Suc n)
  then obtain key token rest where h: "rb_heap b = (key, token) # rest" by (cases "rb_heap b") auto
  from Suc.prems h obtain e where e: "rb_events b token = Some e"
    "buffered b = e # buffered (emit token key rest b)" by (metis buffer_ok_head)
  have ok: "buffer_ok (emit token key rest b)" using Suc.prems h by (rule buffer_ok_emit)
  from Suc.hyps(1) [OF _ ok] Suc.hyps(2) h obtain b' where
    "flush_loop (emit token key rest b) = (buffered (emit token key rest b), b')" "buffer_ok b'" "rb_heap b' = []"
    by auto
  then show ?case using h e by (subst flush_loop.simps) simp
qed

subsection \<open>Runs\<close>

text \<open>Any interleaving of the three operations; \<open>accepted\<close> collects the events \<open>ingest\<close> did not drop
  as duplicates of a buffered one, \<open>emitted\<close> everything that was returned.\<close>

inductive rb_run ::
    "int \<Rightarrow> rat \<Rightarrow> 'p book_event list \<Rightarrow> 'p book_event list \<Rightarrow> 'p replay_buffer \<Rightarrow> bool"
  for max_size :: int and timeout :: rat where
  rb_start: "rb_run max_size timeout [] [] (new_buffer max_size timeout)"
| rb_ingest: "rb_run max_size timeout accepted emitted b \<Longrightarrow>
    rb_run max_size timeout (if rb_events b (be_id e) = None then accepted @ [e] else accepted) emitted
      (ingest c c' e b)"
| rb_drain: "rb_run max_size timeout accepted emitted b \<Longrightarrow> drain now b = Some (out, b') \<Longrightarrow>
    rb_run max_size timeout accepted (emitted @ out) b'"
| rb_flush: "rb_run max_size timeout accepted emitted b \<Longrightarrow> flush_all b = (out, b') \<Longrightarrow>
    rb_run max_size timeout accepted (emitted @ out) b'"

lemma flush_all_spec:
  assumes "buffer_ok b"
  shows "\<exists>b'. flush_all b = (buffered b, b') \<and> buffer_ok b' \<and> rb_heap b' = []"
proof -
  from flush_loop_spec [OF assms] obtain b' where b': "flush_loop b = (buffered b, b')" "buffer_ok b'" "rb_heap b' = []"
    by blast
  then have "buffer_ok (b'\<lparr>rb_ingested_at := Map.empty\<rparr>)" by (auto simp: buffer_ok_def)
  with b' show ?thesis by (simp add: flush_all_def)
qed

lemma rb_run_ok:
  "rb_run m t accepted emitted b \<Longrightarrow> buffer_ok b \<and> mset accepted = mset emitted + mset (buffered b)"
proof (induction rule: rb_run.induct)
  case rb_start
  then show ?case by (simp add: buffer_ok_new) (simp add: buffered_def new_buffer_def)
next
  case (rb_ingest accepted emitted b e c c')
  then show ?case by (simp add: buffer_ok_ingest buffered_ingest)
next
  case (rb_drain accepted emitted b now out b')
  then have "buffer_ok b" by simp
  from drain_SomeD(1,2) [OF this rb_drain.hyps(2)] rb_drain.IH show ?case by simp
next
  case (rb_flush accepted emitted b out b')
  then have "buffer_ok b" by simp
  from flush_all_spec [OF this] rb_flush have "out = buffered b" "buffer_ok b'" "rb_heap b' = []" by auto
  with rb_flush.IH show ?case by (simp add: buffered_def)
qed

text \<open>Over any interleaving of ingest, drain and shutdown flush, with any clock readings, no event is lost,
  invented or emitted twice: what was accepted is, as a multiset, what has been emitted together with what is
  still buffered; and \<open>drain\<close> never raises.\<close>

theorem replay_buffer_conserves_events:
  assumes "rb_run m t accepted emitted b"
  shows "mset accepted = mset emitted + mset (buffered b) \<and> drain now b \<noteq> None"
  using rb_run_ok [OF assms] drain_total [of b now] by auto

text \<open>One drain emits a prefix of the buffered events in key order: numeric tokens by value, before all
  other tokens, which follow in text order; nothing that stays behind precedes anything emitted. It stops only in
  front of a numeric token that is younger than the timeout and leaves a gap after the last emitted key.\<close>

theorem drain_emits_sorted_prefix:
  assumes "rb_run m t accepted emitted b" "drain now b = Some (out, b')"
  shows "sorted (map (sort_key_of \<circ> be_id) (out @ buffered b')) \<and> buffered b = out @ buffered b' \<and> held now b'"
proof -
  have ok: "buffer_ok b" using rb_run_ok [OF assms(1)] by simp
  note d = drain_SomeD [OF ok assms(2)]
  show ?thesis using buffered_keys_sorted [OF ok] d(2,3) by simp
qed

text \<open>No gap holds an event for ever: a drain when every buffered event is as old as the timeout returns all
  of them in order and leaves the buffer empty.\<close>

theorem timeout_releases_everything:
  assumes "rb_run m t accepted emitted b" "\<And>e. e \<in> set (buffered b) \<Longrightarrow> timed_out now b e"
  shows "\<exists>b'. drain now b = Some (buffered b, b') \<and> buffered b' = []"
proof -
  have "buffer_ok b" using rb_run_ok [OF assms(1)] by simp
  from drain_all_timed_out [OF this assms(2)] show ?thesis by (auto simp: buffered_def)
qed

text \<open>The size bound is enforced: when an ingest brings the buffer to its maximum, the next drain (not more
  than a second before the clock of that ingest) returns every buffered event in order and empties it.\<close>

theorem overflow_forces_flush:
  assumes "rb_run m t accepted emitted b" "rb_events b (be_id e) = None"
    "rb_max_size b \<le> int (length (buffered b)) + 1" "c' - 1 \<le> now"
  shows "\<exists>b'. drain now (ingest c c' e b) = Some (buffered (ingest c c' e b), b') \<and> buffered b' = []"
proof -
  let ?i = "ingest c c' e b"
  have ok: "buffer_ok b" using rb_run_ok [OF assms(1)] by simp
  then have oki: "buffer_ok ?i" by (rule buffer_ok_ingest)
  have size: "rb_max_size b \<le> 1 + int (rb_size b)" using ok assms(3) by (simp add: buffer_ok_def buffered_def)
  have "timed_out now ?i d" if d: "d \<in> set (buffered ?i)" for d
  proof -
    have "entry_of d \<in> set (rb_heap ?i)" using d buffer_ok_heap [OF oki] by force
    then have "be_id d \<in> dom (rb_ingested_at ?i)" using oki by (force simp: buffer_ok_def entry_of_def)
    then show ?thesis
      using assms(2,4) size
      by (auto simp: ingest_def Let_def timed_out_def expire_all_def split: if_splits option.splits)
  qed
  from drain_all_timed_out [OF oki this] show ?thesis by (auto simp: buffered_def)
qed

definition ev :: "string \<Rightarrow> unit book_event" where
  "ev token = \<lparr>be_id = token, be_rest = ()\<rparr>"

text \<open>A run of the witnesses: 3 and 1 arrive, are emitted in order, then 7 arrives and waits for 4.\<close>

definition rb1 :: "unit replay_buffer" where
  "rb1 = ingest 0 0 (ev ''1'') (ingest 0 0 (ev ''3'') (new_buffer 3 30))"

lemma numeric_tokens: "py_int ''1'' = Some 1" "py_int ''3'' = Some 3" "py_int ''5'' = Some 5" "py_int ''6'' = Some 6"
  by code_simp+

lemma rb1_run: "rb_run 3 30 [ev ''3'', ev ''1''] [] rb1"
proof -
  have 1: "rb_run 3 30 ([] @ [ev ''3'']) [] (ingest 0 0 (ev ''3'') (new_buffer 3 30))"
    using rb_ingest [OF rb_start, of 3 30 "ev ''3''" 0 0] by (simp add: new_buffer_def)
  then show ?thesis
    using rb_ingest [OF 1, of "ev ''1''" 0 0]
    by (simp add: rb1_def new_buffer_def ingest_def Let_def ev_def split: if_splits)
qed

lemma rb1_buffered: "buffered rb1 = [ev ''1'', ev ''3'']"
  by (simp add: rb1_def buffered_def ingest_def Let_def new_buffer_def ev_def sort_key_of_def numeric_tokens
      less_eq_prod_simp)

theorem replay_buffer_conserves_events_witness:
  "mset [ev ''3'', ev ''1''] = mset [] + mset (buffered rb1) \<and> drain 5 rb1 \<noteq> None"
  by (rule replay_buffer_conserves_events [OF rb1_run])

lemma rb1_drain: "\<exists>b'. drain 5 rb1 = Some ([ev ''1''], b')"
  by (subst drain.simps, simp add: rb1_def ingest_def Let_def new_buffer_def ev_def sort_key_of_def numeric_tokens
      less_eq_prod_simp has_gap_def emit_def, subst drain.simps, simp add: has_gap_def key_number_def)

theorem drain_emits_sorted_prefix_witness:
  "\<exists>b'. drain 5 rb1 = Some ([ev ''1''], b') \<and> buffered rb1 = [ev ''1''] @ buffered b' \<and> held 5 b'"
proof -
  from rb1_drain obtain b' where d: "drain 5 rb1 = Some ([ev ''1''], b')" by blast
  with drain_emits_sorted_prefix [OF rb1_run d] show ?thesis by blast
qed

theorem timeout_releases_everything_witness:
  "\<exists>b'. drain 30 rb1 = Some (buffered rb1, b') \<and> buffered b' = []"
proof (rule timeout_releases_everything [OF rb1_run])
  fix e assume "e \<in> set (buffered rb1)"
  then show "timed_out 30 rb1 e"
    by (auto simp: rb1_buffered) (auto simp: timed_out_def rb1_def ingest_def Let_def new_buffer_def ev_def)
qed

theorem overflow_forces_flush_witness:
  "\<exists>b'. drain 1 (ingest 1 1 (ev ''6'') rb1) = Some (buffered (ingest 1 1 (ev ''6'') rb1), b') \<and> buffered b' = []"
proof (rule overflow_forces_flush [OF rb1_run])
  show "rb_max_size rb1 \<le> int (length (buffered rb1)) + 1"
    by (simp add: rb1_buffered) (simp add: rb1_def ingest_def Let_def new_buffer_def ev_def)
qed (simp_all add: rb1_def ingest_def Let_def new_buffer_def ev_def)

definition rb_after_5 :: "unit replay_buffer" where
  "rb_after_5 = (new_buffer 1000 30)\<lparr>rb_last_emitted_key := Some (Numeric 5)\<rparr>"

lemma rb_after_5_reached: "map_option snd (drain 0 (ingest 0 0 (ev ''5'') (new_buffer 1000 30))) = Some rb_after_5"
  by (subst drain.simps, simp add: ingest_def Let_def new_buffer_def ev_def sort_key_of_def numeric_tokens
      has_gap_def emit_def, subst drain.simps, simp add: rb_after_5_def new_buffer_def fun_eq_iff)

text \<open>A late event below the last emitted key is emitted out of order and rewinds the expected sequence: once
  5 has been emitted, a late 3 is released at once, and then the very next event, 6, is taken for a gap and held
  until the timeout, although nothing between 5 and 6 is missing.\<close>

theorem late_event_rewinds_sequence:
  "(let b1 = ingest 1 1 (ev ''3'') rb_after_5;
        (out1, b2) = the (drain 1 b1);
        (out2, b3) = the (drain 2 (ingest 2 2 (ev ''6'') b2))
    in out1 = [ev ''3''] \<and> rb_last_emitted_key b2 = Some (Numeric 3) \<and> out2 = [] \<and> buffered b3 = [ev ''6'']) \<and>
   (let (out, b) = the (drain 2 (ingest 2 2 (ev ''6'') rb_after_5)) in out = [ev ''6''])"
proof -
  let ?s = "\<lambda>k. new_buffer 1000 30\<lparr>rb_last_emitted_key := Some (Numeric k)\<rparr> :: unit replay_buffer"
  have late: "drain 1 (ingest 1 1 (ev ''3'') (?s 5)) = Some ([ev ''3''], ?s 3)"
    by (subst drain.simps, simp add: ingest_def Let_def new_buffer_def ev_def sort_key_of_def numeric_tokens
        has_gap_def emit_def key_number_def, subst drain.simps, simp add: fun_eq_iff)
  have gap: "drain 2 (ingest 2 2 (ev ''6'') (?s 3)) = Some ([], ingest 2 2 (ev ''6'') (?s 3))"
    by (subst drain.simps, simp add: ingest_def Let_def new_buffer_def ev_def sort_key_of_def numeric_tokens
        has_gap_def key_number_def)
  have nxt: "drain 2 (ingest 2 2 (ev ''6'') (?s 5)) = Some ([ev ''6''], ?s 6)"
    by (subst drain.simps, simp add: ingest_def Let_def new_buffer_def ev_def sort_key_of_def numeric_tokens
        has_gap_def emit_def key_number_def, subst drain.simps, simp add: fun_eq_iff)
  have buf: "buffered (ingest 2 2 (ev ''6'') (?s 3)) = [ev ''6'']"
    by (simp add: ingest_def Let_def new_buffer_def ev_def buffered_def)
  show ?thesis
    unfolding rb_after_5_def late nxt by (simp add: Let_def late gap buf)
qed

text \<open>An event whose timeout has elapsed is still held when a younger event with a smaller, gapped token is at
  the head.\<close>

lemma timed_out_event_blocked:
  "let b = ingest 29 29 (ev ''3'') (ingest 0 0 (ev ''5'') ((new_buffer 1000 30)\<lparr>rb_last_emitted_key := Some (Numeric 1)\<rparr>))
   in timed_out 30 b (ev ''5'') \<and> drain 30 b = Some ([], b)"
proof -
  let ?b = "ingest 29 29 (ev ''3'') (ingest 0 0 (ev ''5'') ((new_buffer 1000 30)\<lparr>rb_last_emitted_key := Some (Numeric 1)\<rparr>))"
  have "timed_out 30 ?b (ev ''5'')" by (simp add: timed_out_def ingest_def Let_def new_buffer_def ev_def)
  moreover have "drain 30 ?b = Some ([], ?b)"
    by (subst drain.simps)
      (simp add: ingest_def Let_def new_buffer_def ev_def sort_key_of_def numeric_tokens less_eq_prod_simp
        has_gap_def key_number_def)
  ultimately show ?thesis by (simp add: Let_def)
qed

end
