(* ===== verification/Canonical_Json.thy ===== *)
theory Canonical_Json
  imports LL_Prelude "HOL-Library.Multiset"
begin

text \<open>
  \<open>json.dumps(d, sort_keys=True, separators=(",", ":"))\<close>, the text that \<open>storage/audit_log.py\<close> and
  \<open>audit/scoring_events.py\<close> sign and hash: strings with the escapes of the encoder (\<open>ensure_ascii\<close>), numbers as
  the text Python prints for them, \<open>null\<close>, and objects with their keys sorted. The text determines the value
  (\<open>json_text_inj\<close>), so what is hashed is the record and nothing else.
\<close>

subsection \<open>Strings\<close>

definition json_hex :: "nat \<Rightarrow> char" where
  "json_hex d = (if d < 10 then char_of (48 + d) else char_of (87 + d))"

definition json_esc :: "char \<Rightarrow> string" where
  "json_esc c =
     (let n = of_char c :: nat; bs = CHR 0x5C in
      if n = 34 then [bs, CHR 0x22] else if n = 92 then [bs, bs]
      else if n = 10 then [bs, CHR ''n''] else if n = 13 then [bs, CHR ''r''] else if n = 9 then [bs, CHR ''t'']
      else if n = 12 then [bs, CHR ''f''] else if n = 8 then [bs, CHR ''b'']
      else if 32 \<le> n \<and> n \<le> 126 then [c]
      else [bs, CHR ''u'', CHR ''0'', CHR ''0'', json_hex (n div 16), json_hex (n mod 16)])"

definition json_string :: "string \<Rightarrow> string" where
  "json_string s = CHR 0x22 # concat (map json_esc s) @ [CHR 0x22]"

text \<open>Reading one escape back.\<close>

definition unhex :: "char \<Rightarrow> nat" where
  "unhex c = (let n = of_char c :: nat in if n \<le> 57 then n - 48 else n - 87)"

definition unesc_short :: "char \<Rightarrow> char" where
  "unesc_short c =
     (if c = CHR ''n'' then char_of (10::nat) else if c = CHR ''r'' then char_of (13::nat)
      else if c = CHR ''t'' then char_of (9::nat) else if c = CHR ''f'' then char_of (12::nat)
      else if c = CHR ''b'' then char_of (8::nat) else c)"

definition unesc :: "string \<Rightarrow> char \<times> string" where
  "unesc s =
     (case s of
        c # d # r \<Rightarrow>
          if c \<noteq> CHR 0x5C then (c, d # r)
          else if d = CHR ''u''
            then (char_of (16 * unhex (r ! 2) + unhex (r ! 3)), drop 4 r)
            else (unesc_short d, r)
      | c # r \<Rightarrow> (c, r)
      | [] \<Rightarrow> (CHR 0x22, []))"

lemma unhex_hex: "d < 16 \<Longrightarrow> unhex (json_hex d) = d"
  by (simp add: unhex_def json_hex_def Let_def)

lemma of_char_lt: "(of_char c :: nat) < 256"
  using nat_of_char_less_256 [of c] by simp

lemma char_of_eqI: "(of_char c :: nat) = n \<Longrightarrow> char_of n = c"
  by auto

lemma same_code: "(of_char c :: nat) = of_char d \<Longrightarrow> c = d"
  by (simp only: of_char_eq_iff)

lemma char_neq_code: "(of_char c :: nat) \<noteq> of_char d \<Longrightarrow> c \<noteq> d"
  by auto

lemma unesc_esc:
  assumes "xs \<noteq> []"
  shows "unesc (json_esc c @ xs) = (c, xs)"
proof -
  let ?n = "of_char c :: nat"
  have lt: "?n < 256" by (rule of_char_lt)
  then have "unhex (json_hex (?n div 16)) = ?n div 16" by (intro unhex_hex less_mult_imp_div_less) simp
  moreover have "char_of (16 * (?n div 16) + ?n mod 16) = c" by simp
  moreover have "c \<noteq> CHR 0x5C" if "?n \<noteq> 92" using that by auto
  moreover obtain x ys where "xs = x # ys" using assms by (cases xs) auto
  moreover have "c = CHR 0x22" if "?n = 34" using that by (intro same_code) simp
  moreover have "c = CHR 0x5C" if "?n = 92" using that by (intro same_code) simp
  ultimately show ?thesis
    by (auto simp: json_esc_def Let_def unesc_def unesc_short_def unhex_hex char_of_eqI)
qed

lemma esc_inj:
  assumes "json_esc c @ xs = json_esc d @ ys" "xs \<noteq> []" "ys \<noteq> []"
  shows "c = d \<and> xs = ys"
proof -
  have "(c, xs) = unesc (json_esc d @ ys)"
    unfolding assms(1) [symmetric] using assms(2) by (rule unesc_esc [symmetric])
  also have "\<dots> = (d, ys)" using assms(3) by (rule unesc_esc)
  finally show ?thesis by simp
qed

lemma esc_shape: "\<exists>h t. json_esc c = h # t \<and> h \<noteq> CHR 0x22"
proof -
  have "c \<noteq> CHR 0x22" if "(of_char c :: nat) \<noteq> 34" using that by auto
  then show ?thesis by (auto simp: json_esc_def Let_def)
qed

lemma json_string_inj:
  "json_string s @ x = json_string t @ y \<Longrightarrow> s = t \<and> x = y"
proof (induction s arbitrary: t)
  case Nil
  show ?case
  proof (cases t)
    case (Cons d t')
    with Nil esc_shape [of d] show ?thesis by (auto simp: json_string_def)
  qed (use Nil in \<open>simp add: json_string_def\<close>)
next
  case (Cons c s)
  show ?case
  proof (cases t)
    case Nil
    with Cons.prems esc_shape [of c] show ?thesis by (auto simp: json_string_def)
  next
    case (Cons d t')
    with Cons.prems have "json_esc c @ (concat (map json_esc s) @ CHR 0x22 # x) =
        json_esc d @ (concat (map json_esc t') @ CHR 0x22 # y)" by (simp add: json_string_def)
    then have "c = d" "concat (map json_esc s) @ CHR 0x22 # x = concat (map json_esc t') @ CHR 0x22 # y"
      using esc_inj by blast+
    with Cons Cons.IH [of t'] show ?thesis by (simp add: json_string_def)
  qed
qed

subsection \<open>Values\<close>

datatype json = JNull | JNum string | JStr string | JObj "(string \<times> json) list"

fun json_text :: "json \<Rightarrow> string" and json_members :: "(string \<times> json) list \<Rightarrow> string" where
  "json_text JNull = ''null''"
| "json_text (JNum t) = t"
| "json_text (JStr s) = json_string s"
| "json_text (JObj kvs) = ''{'' @ json_members kvs @ ''}''"
| "json_members [] = []"
| "json_members [(k, v)] = json_string k @ '':'' @ json_text v"
| "json_members ((k, v) # kv # kvs) = json_string k @ '':'' @ json_text v @ '','' @ json_members (kv # kvs)"

text \<open>A dictionary becomes an object with its items sorted by key.\<close>

definition json_dict :: "(string \<times> json) list \<Rightarrow> json" where
  "json_dict items = JObj (sort_key fst items)"

definition num_ok :: "string \<Rightarrow> bool" where
  "num_ok t \<longleftrightarrow> t \<noteq> [] \<and> hd t \<notin> {CHR ''n'', CHR 0x22, CHR ''{''} \<and> CHR '','' \<notin> set t \<and> CHR ''}'' \<notin> set t"

fun json_ok :: "json \<Rightarrow> bool" where
  "json_ok (JNum t) = num_ok t"
| "json_ok (JObj kvs) = list_all (\<lambda>(k, v). json_ok v) kvs"
| "json_ok v = True"

definition ended :: "string \<Rightarrow> bool" where
  "ended r \<longleftrightarrow> (case r of [] \<Rightarrow> True | c # _ \<Rightarrow> c = CHR '','' \<or> c = CHR ''}'')"

lemma ended_simps [simp]: "ended []" "ended (CHR '','' # r)" "ended (CHR ''}'' # r)"
  by (simp_all add: ended_def)

lemma json_string_Cons: "\<exists>t. json_string s = CHR 0x22 # t"
  by (simp add: json_string_def)

lemma num_text_inj:
  assumes "num_ok t" "num_ok t'" "ended r" "ended r'" "t @ r = t' @ r'"
  shows "t = t' \<and> r = r'"
proof -
  let ?p = "\<lambda>c. c \<noteq> CHR '','' \<and> c \<noteq> CHR ''}''"
  have "takeWhile ?p (t @ r) = t" if "num_ok t" "ended r" for t r
  proof -
    have "takeWhile ?p r = []" using that(2) by (cases r) (auto simp: ended_def)
    moreover have "\<forall>c \<in> set t. ?p c" using that(1) by (auto simp: num_ok_def)
    ultimately show ?thesis by (simp add: takeWhile_append2)
  qed
  then have "t = t'" using assms by metis
  with assms(5) show ?thesis by simp
qed

lemma json_text_head:
  assumes "json_ok v"
  shows "\<exists>h t. json_text v = h # t \<and>
    (case v of JNull \<Rightarrow> h = CHR ''n'' | JStr _ \<Rightarrow> h = CHR 0x22 | JObj _ \<Rightarrow> h = CHR ''{''
     | JNum _ \<Rightarrow> h \<notin> {CHR ''n'', CHR 0x22, CHR ''{''})"
proof (cases v)
  case (JNum t)
  with assms show ?thesis by (cases t) (auto simp: num_ok_def)
qed (auto simp: json_string_def)

lemma same_shape:
  assumes "json_ok v" "json_ok w" "json_text v @ r = json_text w @ r'"
  shows "case v of JNull \<Rightarrow> w = JNull | JStr _ \<Rightarrow> (\<exists>s. w = JStr s) | JObj _ \<Rightarrow> (\<exists>kvs. w = JObj kvs)
    | JNum _ \<Rightarrow> (\<exists>t. w = JNum t)"
proof -
  from json_text_head [OF assms(1)] obtain h t where v: "json_text v = h # t"
    "case v of JNull \<Rightarrow> h = CHR ''n'' | JStr _ \<Rightarrow> h = CHR 0x22 | JObj _ \<Rightarrow> h = CHR ''{''
     | JNum _ \<Rightarrow> h \<notin> {CHR ''n'', CHR 0x22, CHR ''{''}" by blast
  from json_text_head [OF assms(2)] obtain h' t' where w: "json_text w = h' # t'"
    "case w of JNull \<Rightarrow> h' = CHR ''n'' | JStr _ \<Rightarrow> h' = CHR 0x22 | JObj _ \<Rightarrow> h' = CHR ''{''
     | JNum _ \<Rightarrow> h' \<notin> {CHR ''n'', CHR 0x22, CHR ''{''}" by blast
  have "h = h'" using assms(3) v(1) w(1) by simp
  with v(2) w(2) show ?thesis by (cases v; cases w) simp_all
qed

lemma members_cases [case_names Nil One More]:
  fixes kvs :: "(string \<times> json) list"
  obtains "kvs = []" | k v where "kvs = [(k, v)]" | k v kv rest where "kvs = (k, v) # kv # rest"
  by (cases kvs rule: json_members.cases) blast+

lemma members_Nil_iff: "json_members kvs @ CHR ''}'' # s = CHR ''}'' # s' \<Longrightarrow> kvs = []"
  by (cases kvs rule: members_cases) (auto simp: json_string_def)

lemma json_prefix:
  "json_ok v \<Longrightarrow> json_ok w \<Longrightarrow> ended r \<Longrightarrow> ended r' \<Longrightarrow> json_text v @ r = json_text w @ r' \<Longrightarrow> v = w \<and> r = r'"
  "list_all (\<lambda>(k, v). json_ok v) kvs \<Longrightarrow> list_all (\<lambda>(k, v). json_ok v) kvs' \<Longrightarrow>
   json_members kvs @ CHR ''}'' # s = json_members kvs' @ CHR ''}'' # s' \<Longrightarrow> kvs = kvs' \<and> s = s'"
proof (induction v and kvs arbitrary: w r r' and kvs' s s' rule: json_text_json_members.induct)
  case 1
  from same_shape [OF this(1,2,5)] 1 show ?case by simp
next
  case (2 t)
  from same_shape [OF 2(1,2,5)] obtain t' where "w = JNum t'" by auto
  with 2 num_text_inj [of t t' r r'] show ?case by simp
next
  case (3 s)
  from same_shape [OF 3(1,2,5)] obtain s' where "w = JStr s'" by auto
  with 3 json_string_inj [of s r s' r'] show ?case by simp
next
  case (4 kvs)
  from same_shape [OF 4(2,3,6)] obtain kvs' where w: "w = JObj kvs'" by auto
  with 4(6) have "json_members kvs @ CHR ''}'' # r = json_members kvs' @ CHR ''}'' # r'" by simp
  with 4(1) [of kvs'] 4(2,3) w show ?case by simp
next
  case 5
  from 5(3) have "kvs' = []" using members_Nil_iff [of kvs' s' s] by simp
  with 5 show ?case by simp
next
  case (6 k v)
  show ?case
  proof (cases kvs' rule: members_cases)
    case Nil
    with 6 show ?thesis by (simp add: json_string_def)
  next
    case (One k' v')
    with 6(4) have "json_string k @ (CHR '':'' # json_text v @ CHR ''}'' # s) =
        json_string k' @ (CHR '':'' # json_text v' @ CHR ''}'' # s')" by simp
    from json_string_inj [OF this] have "k = k'" "json_text v @ CHR ''}'' # s = json_text v' @ CHR ''}'' # s'" by simp_all
    with 6(1) [of v' "CHR ''}'' # s" "CHR ''}'' # s'"] 6(2,3) One show ?thesis by simp
  next
    case (More k' v' kv' kvs'')
    with 6(4) have "json_string k @ (CHR '':'' # json_text v @ CHR ''}'' # s) =
        json_string k' @ (CHR '':'' # json_text v' @ CHR '','' # json_members (kv' # kvs'') @ CHR ''}'' # s')" by simp
    from json_string_inj [OF this] have "json_text v @ CHR ''}'' # s = json_text v' @ CHR '','' # json_members (kv' # kvs'') @ CHR ''}'' # s'"
      by simp
    from 6(1) [OF _ _ _ _ this] 6(2,3) More show ?thesis by simp
  qed
next
  case (7 k v kv kvs)
  show ?case
  proof (cases kvs' rule: members_cases)
    case Nil
    with 7 show ?thesis by (simp add: json_string_def)
  next
    case (One k' v')
    with 7(5) have "json_string k @ (CHR '':'' # json_text v @ CHR '','' # json_members (kv # kvs) @ CHR ''}'' # s) =
        json_string k' @ (CHR '':'' # json_text v' @ CHR ''}'' # s')" by simp
    from json_string_inj [OF this] have "json_text v @ CHR '','' # json_members (kv # kvs) @ CHR ''}'' # s = json_text v' @ CHR ''}'' # s'"
      by simp
    from 7(1) [OF _ _ _ _ this] 7(3,4) One show ?thesis by simp
  next
    case (More k' v' kv' kvs'')
    with 7(5) have "json_string k @ (CHR '':'' # json_text v @ CHR '','' # json_members (kv # kvs) @ CHR ''}'' # s) =
        json_string k' @ (CHR '':'' # json_text v' @ CHR '','' # json_members (kv' # kvs'') @ CHR ''}'' # s')" by simp
    from json_string_inj [OF this] have "k = k'" and v: "json_text v @ CHR '','' # json_members (kv # kvs) @ CHR ''}'' # s =
        json_text v' @ CHR '','' # json_members (kv' # kvs'') @ CHR ''}'' # s'" by simp_all
    from 7(1) [OF _ _ _ _ v] 7(3,4) More have "v = v'"
      "json_members (kv # kvs) @ CHR ''}'' # s = json_members (kv' # kvs'') @ CHR ''}'' # s'" by simp_all
    with 7(2) [of "kv' # kvs''" s s'] 7(3,4) More \<open>k = k'\<close> show ?thesis by simp
  qed
qed

lemma json_text_inj: "json_ok v \<Longrightarrow> json_ok w \<Longrightarrow> json_text v = json_text w \<Longrightarrow> v = w"
  using json_prefix(1) [of v w "[]" "[]"] by simp

lemma num_ok_str_int [simp]: "num_ok (str_int i)"
proof -
  have *: "num_ok (str_nat n)" "num_ok (CHR ''-'' # str_nat n)" for n
  proof -
    have d: "\<forall>c \<in> set (str_nat n). is_digit c" by (rule str_nat_digits)
    then have "is_digit (hd (str_nat n))" by (simp add: hd_in_set)
    then have "hd (str_nat n) \<notin> {CHR ''n'', CHR 0x22, CHR ''{''}" by (auto simp: is_digit_def)
    with d show "num_ok (str_nat n)" "num_ok (CHR ''-'' # str_nat n)"
      by (auto simp: num_ok_def is_digit_def)
  qed
  show ?thesis by (simp add: str_int_def *)
qed

text \<open>Dictionaries are compared by their items.\<close>

lemma json_dict_inj:
  assumes "json_ok (JObj items)" "json_ok (JObj items')" "json_text (json_dict items) = json_text (json_dict items')"
  shows "set items = set items'"
proof -
  have "json_ok (json_dict items)" "json_ok (json_dict items')"
    using assms(1,2) by (simp_all add: json_dict_def list_all_iff)
  from json_text_inj [OF this assms(3)] have "sort_key fst items = sort_key fst items'" by (simp add: json_dict_def)
  then show ?thesis by (metis set_sort)
qed

lemma json_ok_dict [simp]: "json_ok (json_dict items) \<longleftrightarrow> list_all (\<lambda>(k, v). json_ok v) items"
  by (simp add: json_dict_def list_all_iff)

end
