(* ===== verification/Hash_Chain.thy ===== *)
theory Hash_Chain
  imports LL_Prelude
begin

text \<open>
  The contract of a hash chain, shared by the audit log and the scoring-event store. A record is \<open>linked\<close> to
  the hash before it when its stored hash is the digest of a message that covers that hash and the record's
  payload, and when messages determine both. From this follow, once for all chains: appending keeps a chain, a
  prefix of a chain is a chain (so cutting the tail off is invisible), and two chains that end in the same hash
  carry the same payloads unless two different messages with the same digest are exhibited.
\<close>

definition collision :: "(string \<Rightarrow> 'h) \<Rightarrow> bool" where
  "collision digest \<longleftrightarrow> (\<exists>m m'. m \<noteq> m' \<and> digest m = digest m')"

locale hash_chain =
  fixes linked :: "'h \<Rightarrow> 'r \<Rightarrow> bool"
    and stored :: "'r \<Rightarrow> 'h"
    and payload :: "'r \<Rightarrow> 'd"
    and message :: "'h \<Rightarrow> 'd \<Rightarrow> string"
    and digest :: "string \<Rightarrow> 'h"
    and valid :: "'d \<Rightarrow> bool"
  assumes linked_digest: "linked p r \<Longrightarrow> stored r = digest (message p (payload r))"
    and message_inj: "valid d \<Longrightarrow> valid d' \<Longrightarrow> message p d = message p' d' \<Longrightarrow> p = p' \<and> d = d'"
begin

fun chain :: "'h \<Rightarrow> 'r list \<Rightarrow> bool" where
  "chain p [] = True"
| "chain p (r # rs) = (linked p r \<and> chain (stored r) rs)"

fun head :: "'h \<Rightarrow> 'r list \<Rightarrow> 'h" where
  "head p [] = p"
| "head p (r # rs) = head (stored r) rs"

lemma head_snoc [simp]: "head p (rs @ [r]) = stored r"
  by (induction rs arbitrary: p) simp_all

lemma head_last: "rs \<noteq> [] \<Longrightarrow> head p rs = stored (last rs)"
  by (induction rs rule: rev_induct) simp_all

lemma chain_append: "chain p (xs @ ys) \<longleftrightarrow> chain p xs \<and> chain (head p xs) ys"
  by (induction xs arbitrary: p) simp_all

lemma chain_snoc: "chain p (rs @ [r]) \<longleftrightarrow> chain p rs \<and> linked (head p rs) r"
  by (simp add: chain_append)

lemma chain_prefix: "chain p (xs @ ys) \<Longrightarrow> chain p xs"
  by (simp add: chain_append)

lemma linked_same_hash:
  assumes "linked p r" "linked p' r'" "stored r = stored r'" "valid (payload r)" "valid (payload r')"
  shows "p = p' \<and> payload r = payload r' \<or> collision digest"
proof (cases "message p (payload r) = message p' (payload r')")
  case True
  with assms(4,5) message_inj show ?thesis by blast
next
  case False
  moreover have "digest (message p (payload r)) = digest (message p' (payload r'))"
    using assms(1-3) linked_digest by metis
  ultimately show ?thesis by (auto simp: collision_def)
qed

text \<open>Two chains from the same start that end in the same hash agree record by record.\<close>

lemma chain_determined:
  assumes "chain g xs" "chain g ys" "head g xs = head g ys" "\<And>m. digest m \<noteq> g"
    "list_all (valid \<circ> payload) xs" "list_all (valid \<circ> payload) ys"
  shows "map payload xs = map payload ys \<or> collision digest"
  using assms
proof (induction xs arbitrary: ys rule: rev_induct)
  case Nil
  show ?case
  proof (cases ys rule: rev_cases)
    case (snoc ys' r)
    with Nil have "stored r = g" "linked (head g ys') r" by (simp_all add: chain_snoc)
    with linked_digest assms(4) show ?thesis by metis
  qed simp
next
  case (snoc r xs)
  show ?case
  proof (cases ys rule: rev_cases)
    case Nil
    with snoc.prems have "stored r = g" "linked (head g xs) r" by (simp_all add: chain_snoc)
    with linked_digest assms(4) show ?thesis by metis
  next
    case (snoc ys' r')
    with snoc.prems have l: "linked (head g xs) r" "linked (head g ys') r'" "stored r = stored r'"
      "valid (payload r)" "valid (payload r')" by (simp_all add: chain_snoc)
    have "map payload xs = map payload ys' \<or> collision digest" if "head g xs = head g ys'"
      using that snoc snoc.prems snoc.IH [of ys'] by (simp add: chain_snoc)
    with linked_same_hash [OF l] snoc show ?thesis by auto
  qed
qed

end

end
