(* ===== verification/Audit_Log.thy ===== *)
theory Audit_Log
  imports Canonical_Json Hash_Chain
begin

text \<open>
  \<open>storage/audit_log.py\<close>: the HMAC-chained audit log. HMAC-SHA256 is the argument \<open>hmac\<close> (key, message to
  the hex digest); the JSON that is signed is \<open>Canonical_Json\<close>. The table is the row list of \<open>LL_Prelude\<close> with
  the UNIQUE constraint on \<open>entry_hash\<close>. Time stamps are the ISO texts the code stores. Each operation gets the
  outcome of resolving the signing secret, which \<open>get_audit_secret\<close> models with its environment and the
  development secret file.
\<close>

subsection \<open>The signing secret\<close>

definition MIN_AUDIT_SECRET_LENGTH :: nat where "MIN_AUDIT_SECRET_LENGTH = 32"

record audit_env =
  env_secret :: "string option"    \<comment> \<open>\<open>LEDGERLENS_AUDIT_SECRET\<close>\<close>
  env_name :: "string option"      \<comment> \<open>\<open>LEDGERLENS_ENV\<close>\<close>
  env_network :: "string option"   \<comment> \<open>\<open>NETWORK\<close>\<close>

datatype audit_error = Secret_too_short nat | Secret_required | Integrity_error

definition getenv :: "string option \<Rightarrow> string" where
  "getenv v = (case v of None \<Rightarrow> '''' | Some s \<Rightarrow> strip s)"

definition is_production_environment :: "audit_env \<Rightarrow> bool" where
  "is_production_environment env \<longleftrightarrow>
     lower (getenv (env_name env)) \<in> {''production'', ''prod'', ''staging''} \<or>
     lower (getenv (env_network env)) = ''mainnet''"

text \<open>The secret file: absent, unreadable, or its text; \<open>writable\<close> tells whether \<open>write_text\<close> succeeds and
  \<open>token\<close> is what \<open>secrets.token_urlsafe\<close> draws.\<close>

datatype secret_file = Missing | Unreadable | Holds string

definition load_or_create_dev_secret :: "bool \<Rightarrow> string \<Rightarrow> secret_file \<Rightarrow> string \<times> secret_file" where
  "load_or_create_dev_secret writable token file =
     (let fresh = (token, if writable then Holds token else file) in
      case file of
        Holds s \<Rightarrow> if strip s \<noteq> [] then (strip s, file) else fresh
      | Missing \<Rightarrow> fresh
      | Unreadable \<Rightarrow> fresh)"

definition get_audit_secret ::
    "audit_env \<Rightarrow> bool \<Rightarrow> string \<Rightarrow> secret_file \<Rightarrow> (audit_error + string) \<times> secret_file" where
  "get_audit_secret env writable token file =
     (let secret = getenv (env_secret env) in
      if secret \<noteq> [] then
        (if length secret < MIN_AUDIT_SECRET_LENGTH then (Inl (Secret_too_short (length secret)), file)
         else (Inr secret, file))
      else if is_production_environment env then (Inl Secret_required, file)
      else (let (s, file') = load_or_create_dev_secret writable token file in (Inr s, file')))"

subsection \<open>Entries\<close>

definition GENESIS_PREV_HASH :: string where "GENESIS_PREV_HASH = ''genesis''"

record audit_fields =
  ar_timestamp :: string
  ar_event_type :: string
  ar_actor :: string
  ar_wallet :: "string option"
  ar_score :: "int option"
  ar_justification :: "string option"

record audit_row = audit_fields +
  ar_id :: nat
  ar_prev_hash :: string
  ar_entry_hash :: string

type_synonym hmac_fn = "string \<Rightarrow> string \<Rightarrow> string"
type_synonym audit_table = "audit_row table"
type_synonym audit_secret = "audit_error + string"

definition json_opt :: "('a \<Rightarrow> json) \<Rightarrow> 'a option \<Rightarrow> json" where
  "json_opt f v = (case v of None \<Rightarrow> JNull | Some x \<Rightarrow> f x)"

text \<open>The signed dictionary: \<open>entry_hash\<close> left out, \<open>justification\<close> only when present.\<close>

definition entry_items :: "string \<Rightarrow> audit_fields \<Rightarrow> (string \<times> json) list" where
  "entry_items prev_hash e =
     [(''timestamp'', JStr (ar_timestamp e)), (''event_type'', JStr (ar_event_type e)),
      (''actor'', JStr (ar_actor e)), (''wallet'', json_opt JStr (ar_wallet e)),
      (''score'', json_opt (\<lambda>n. JNum (str_int n)) (ar_score e)), (''prev_hash'', JStr prev_hash)] @
     (case ar_justification e of None \<Rightarrow> [] | Some j \<Rightarrow> [(''justification'', JStr j)])"

definition canonical_json :: "string \<Rightarrow> audit_fields \<Rightarrow> string" where
  "canonical_json prev_hash e = json_text (json_dict (entry_items prev_hash e))"

definition compute_entry_hash :: "hmac_fn \<Rightarrow> string \<Rightarrow> string \<Rightarrow> audit_fields \<Rightarrow> string" where
  "compute_entry_hash hmac key prev_hash e = hmac key (canonical_json prev_hash e)"

definition mk_row :: "audit_fields \<Rightarrow> string \<Rightarrow> string \<Rightarrow> nat \<Rightarrow> audit_row" where
  "mk_row e prev_hash entry_hash n =
     \<lparr>ar_timestamp = ar_timestamp e, ar_event_type = ar_event_type e, ar_actor = ar_actor e,
      ar_wallet = ar_wallet e, ar_score = ar_score e, ar_justification = ar_justification e,
      ar_id = n, ar_prev_hash = prev_hash, ar_entry_hash = entry_hash\<rparr>"

subsection \<open>Operations\<close>

text \<open>\<open>INSERT\<close> under the UNIQUE constraint.\<close>

definition audit_insert :: "audit_fields \<Rightarrow> string \<Rightarrow> string \<Rightarrow> audit_table \<Rightarrow> audit_error + audit_table" where
  "audit_insert e prev_hash entry_hash t =
     (if entry_hash \<in> ar_entry_hash ` set (trows t) then Inl Integrity_error
      else Inr (sql_insert (mk_row e prev_hash entry_hash) t))"

definition init_db :: "hmac_fn \<Rightarrow> audit_secret \<Rightarrow> string \<Rightarrow> audit_table \<Rightarrow> audit_error + audit_table" where
  "init_db hmac secret now t =
     (if trows t \<noteq> [] then Inr t
      else case secret of
          Inl err \<Rightarrow> Inl err
        | Inr key \<Rightarrow>
            (let genesis = \<lparr>ar_timestamp = now, ar_event_type = ''genesis'', ar_actor = ''system'',
                   ar_wallet = None, ar_score = None, ar_justification = None\<rparr>
             in audit_insert genesis GENESIS_PREV_HASH (compute_entry_hash hmac key GENESIS_PREV_HASH genesis) t))"

text \<open>The two database steps of an append: read the last hash, then sign and insert.\<close>

definition last_hash :: "audit_table \<Rightarrow> string" where
  "last_hash t = (case trows t of [] \<Rightarrow> GENESIS_PREV_HASH | r # rs \<Rightarrow> ar_entry_hash (last (r # rs)))"

definition write_entry ::
    "hmac_fn \<Rightarrow> audit_secret \<Rightarrow> string \<Rightarrow> audit_fields \<Rightarrow> audit_table \<Rightarrow> audit_error + string \<times> audit_table" where
  "write_entry hmac secret prev_hash e t =
     (case secret of
        Inl err \<Rightarrow> Inl err
      | Inr key \<Rightarrow>
          (let h = compute_entry_hash hmac key prev_hash e in
           case audit_insert e prev_hash h t of Inl err \<Rightarrow> Inl err | Inr t' \<Rightarrow> Inr (h, t')))"

text \<open>Committed state after the call, and its outcome: the new entry's hash or the error.\<close>

definition append_entry ::
    "hmac_fn \<Rightarrow> audit_secret \<Rightarrow> string \<Rightarrow> audit_fields \<Rightarrow> audit_table \<Rightarrow> audit_table \<times> (audit_error + string)" where
  "append_entry hmac secret now e t =
     (case init_db hmac secret now t of
        Inl err \<Rightarrow> (t, Inl err)
      | Inr t1 \<Rightarrow>
          (case write_entry hmac secret (last_hash t1) e t1 of
             Inl err \<Rightarrow> (t1, Inl err)
           | Inr (h, t2) \<Rightarrow> (t2, Inr h)))"

definition log_fields :: "string \<Rightarrow> string \<Rightarrow> string \<Rightarrow> string option \<Rightarrow> int option \<Rightarrow> string option \<Rightarrow> audit_fields" where
  "log_fields now event_type actor wallet score justification =
     \<lparr>ar_timestamp = now, ar_event_type = event_type, ar_actor = actor, ar_wallet = wallet,
      ar_score = score, ar_justification = justification\<rparr>"

datatype audit_event =
    Score_computed string string int | Api_key_used string | Admin_config_changed string
  | Suppression_rule_added string | Suppression_rule_removed string | Break_glass string string

text \<open>The \<open>log_*\<close> wrappers.\<close>

fun event_fields :: "string \<Rightarrow> audit_event \<Rightarrow> audit_fields" where
  "event_fields now (Score_computed actor wallet score) =
     log_fields now ''score_computed'' actor (Some wallet) (Some score) None"
| "event_fields now (Api_key_used actor) = log_fields now ''api_key_used'' actor None None None"
| "event_fields now (Admin_config_changed actor) = log_fields now ''admin_config_changed'' actor None None None"
| "event_fields now (Suppression_rule_added actor) = log_fields now ''suppression_rule_added'' actor None None None"
| "event_fields now (Suppression_rule_removed actor) = log_fields now ''suppression_rule_removed'' actor None None None"
| "event_fields now (Break_glass actor why) = log_fields now ''break_glass_admin_action'' actor None None (Some why)"

definition log_event ::
    "hmac_fn \<Rightarrow> audit_secret \<Rightarrow> string \<Rightarrow> string \<Rightarrow> audit_event \<Rightarrow> audit_table \<Rightarrow> audit_table \<times> (audit_error + string)" where
  "log_event hmac secret now0 now ev t = append_entry hmac secret now0 (event_fields now ev) t"

subsection \<open>Verification\<close>

datatype audit_break =
    Hash_mismatch nat string string | Not_genesis nat string | Link_mismatch nat string string

record verify_result =
  vr_id :: nat
  vr_entry_hash :: string
  vr_computed_hash :: string
  vr_prev_hash_ok :: bool
  vr_hash_ok :: bool
  vr_error :: "audit_break option"

definition verify_row :: "hmac_fn \<Rightarrow> string \<Rightarrow> string option \<Rightarrow> audit_row \<Rightarrow> verify_result" where
  "verify_row hmac key previous r =
     (let computed = compute_entry_hash hmac key (ar_prev_hash r) (audit_fields.truncate r);
          hash_ok = (ar_entry_hash r = computed);
          prev_ok = (ar_prev_hash r = (case previous of None \<Rightarrow> GENESIS_PREV_HASH | Some h \<Rightarrow> h));
          err = (if hash_ok then None else Some (Hash_mismatch (ar_id r) (ar_entry_hash r) computed))
      in \<lparr>vr_id = ar_id r, vr_entry_hash = ar_entry_hash r, vr_computed_hash = computed,
          vr_prev_hash_ok = prev_ok, vr_hash_ok = hash_ok,
          vr_error =
            (if prev_ok then err
             else case previous of
                 None \<Rightarrow> Some (Not_genesis (ar_id r) (ar_prev_hash r))
               | Some h \<Rightarrow> Some (Link_mismatch (ar_id r) (ar_prev_hash r) h))\<rparr>)"

fun verify_rows :: "hmac_fn \<Rightarrow> string \<Rightarrow> string option \<Rightarrow> audit_row list \<Rightarrow> verify_result list" where
  "verify_rows hmac key previous [] = []"
| "verify_rows hmac key previous (r # rs) =
     verify_row hmac key previous r # verify_rows hmac key (Some (ar_entry_hash r)) rs"

definition verify_chain ::
    "hmac_fn \<Rightarrow> audit_secret \<Rightarrow> string \<Rightarrow> audit_table \<Rightarrow> audit_table \<times> (audit_error + verify_result list)" where
  "verify_chain hmac secret now t =
     (case init_db hmac secret now t of
        Inl err \<Rightarrow> (t, Inl err)
      | Inr t1 \<Rightarrow>
          (case secret of
             Inl err \<Rightarrow> (t1, Inl err)
           | Inr key \<Rightarrow> (t1, Inr (verify_rows hmac key None (trows t1)))))"

definition is_chain_intact :: "hmac_fn \<Rightarrow> audit_secret \<Rightarrow> string \<Rightarrow> audit_table \<Rightarrow> audit_error + bool" where
  "is_chain_intact hmac secret now t =
     (case snd (verify_chain hmac secret now t) of
        Inl err \<Rightarrow> Inl err | Inr rs \<Rightarrow> Inr (list_all (\<lambda>r. vr_error r = None) rs))"

definition verify_and_alert ::
    "hmac_fn \<Rightarrow> audit_secret \<Rightarrow> string \<Rightarrow> audit_table \<Rightarrow> audit_error + verify_result list" where
  "verify_and_alert hmac secret now t =
     (case snd (verify_chain hmac secret now t) of
        Inl err \<Rightarrow> Inl err | Inr rs \<Rightarrow> Inr (filter (\<lambda>r. vr_error r \<noteq> None) rs))"

definition get_all_entries :: "hmac_fn \<Rightarrow> audit_secret \<Rightarrow> string \<Rightarrow> audit_table \<Rightarrow> audit_error + audit_row list" where
  "get_all_entries hmac secret now t =
     (case init_db hmac secret now t of Inl err \<Rightarrow> Inl err | Inr t1 \<Rightarrow> Inr (trows t1))"

subsection \<open>The chain\<close>

definition audit_linked :: "hmac_fn \<Rightarrow> string \<Rightarrow> string \<Rightarrow> audit_row \<Rightarrow> bool" where
  "audit_linked hmac key p r \<longleftrightarrow>
     ar_prev_hash r = p \<and> ar_entry_hash r = compute_entry_hash hmac key p (audit_fields.truncate r)"

lemma json_opt_inj: "inj f \<Longrightarrow> (\<And>x. f x \<noteq> JNull) \<Longrightarrow> json_opt f v = json_opt f w \<Longrightarrow> v = w"
  by (cases v; cases w) (auto simp: json_opt_def dest: injD, metis)

lemma inj_json_int: "inj (\<lambda>n. JNum (str_int n))"
  by (rule injI) (simp add: str_int_inj)

lemma canonical_json_inj:
  assumes "canonical_json p d = canonical_json p' d'"
  shows "p = p' \<and> d = d'"
proof -
  have "list_all (\<lambda>(k, v). json_ok v) (entry_items q e)" for q e
    by (simp add: entry_items_def json_opt_def split: option.split)
  then have s: "set (entry_items p d) = set (entry_items p' d')"
    using assms json_dict_inj by (simp add: canonical_json_def)
  have m: "x \<in> set (entry_items p' d')" if "x \<in> set (entry_items p d)" for x using s that by simp
  have 1: "ar_timestamp d = ar_timestamp d'" "ar_event_type d = ar_event_type d'" "ar_actor d = ar_actor d'" "p = p'"
    using m [of "(''timestamp'', JStr (ar_timestamp d))"] m [of "(''event_type'', JStr (ar_event_type d))"]
      m [of "(''actor'', JStr (ar_actor d))"] m [of "(''prev_hash'', JStr p)"]
    by (auto simp: entry_items_def split: option.splits)
  have "json_opt JStr (ar_wallet d) = json_opt JStr (ar_wallet d')"
    using m [of "(''wallet'', json_opt JStr (ar_wallet d))"] by (auto simp: entry_items_def split: option.splits)
  then have 2: "ar_wallet d = ar_wallet d'" by (rule json_opt_inj [rotated 2]) (auto intro: injI)
  have "json_opt (\<lambda>n. JNum (str_int n)) (ar_score d) = json_opt (\<lambda>n. JNum (str_int n)) (ar_score d')"
    using m [of "(''score'', json_opt (\<lambda>n. JNum (str_int n)) (ar_score d))"]
    by (auto simp: entry_items_def split: option.splits)
  then have 3: "ar_score d = ar_score d'" by (rule json_opt_inj [OF inj_json_int, rotated]) simp
  have j: "(''justification'', JStr j) \<in> set (entry_items q e) \<longleftrightarrow> ar_justification e = Some j" for q e j
    by (auto simp: entry_items_def split: option.split)
  have "ar_justification d = Some j \<longleftrightarrow> ar_justification d' = Some j" for j
    using s by (simp only: j [symmetric, of d _ p] j [symmetric, of d' _ p'])
  then have "ar_justification d = ar_justification d'" by (metis not_Some_eq)
  with 1 2 3 show ?thesis by simp
qed

interpretation al: hash_chain "audit_linked hmac key" ar_entry_hash audit_fields.truncate canonical_json
    "hmac key" "\<lambda>_. True" for hmac key
proof
  fix p r assume "audit_linked hmac key p r"
  then show "ar_entry_hash r = hmac key (canonical_json p (audit_fields.truncate r))"
    by (simp add: audit_linked_def compute_entry_hash_def)
qed (rule canonical_json_inj)

lemma verify_row_ok:
  "vr_error (verify_row hmac key previous r) = None \<longleftrightarrow>
     audit_linked hmac key (case previous of None \<Rightarrow> GENESIS_PREV_HASH | Some h \<Rightarrow> h) r"
  by (auto simp: verify_row_def Let_def audit_linked_def split: option.split)

lemma verify_rows_ok:
  "list_all (\<lambda>r. vr_error r = None) (verify_rows hmac key previous rs) \<longleftrightarrow>
     al.chain hmac key (case previous of None \<Rightarrow> GENESIS_PREV_HASH | Some h \<Rightarrow> h) rs"
  by (induction rs arbitrary: previous) (simp_all add: verify_row_ok)

definition audit_ok :: "hmac_fn \<Rightarrow> string \<Rightarrow> audit_table \<Rightarrow> bool" where
  "audit_ok hmac key t \<longleftrightarrow> al.chain hmac key GENESIS_PREV_HASH (trows t)"

lemma last_hash_head: "last_hash t = al.head GENESIS_PREV_HASH (trows t)"
  using al.head_last [of "trows t" GENESIS_PREV_HASH] by (cases "trows t") (auto simp: last_hash_def)

lemma last_hash_last: "trows t \<noteq> [] \<Longrightarrow> last_hash t = ar_entry_hash (last (trows t))"
  by (cases "trows t") (auto simp: last_hash_def)

lemma truncate_mk_row [simp]: "audit_fields.truncate (mk_row e p h n) = audit_fields.truncate e"
  by (simp add: mk_row_def audit_fields.truncate_def)

lemma truncate_fields [simp]: "audit_fields.truncate (e :: audit_fields) = e"
  by (simp add: audit_fields.truncate_def)

lemma audit_insert_ok:
  assumes "audit_ok hmac key t" "audit_insert e (last_hash t) (compute_entry_hash hmac key (last_hash t) e) t = Inr t'"
  shows "audit_ok hmac key t'"
proof -
  have t': "trows t' = trows t @ [mk_row e (last_hash t) (compute_entry_hash hmac key (last_hash t) e) (Suc (tseq t))]"
    using assms(2) by (auto simp: audit_insert_def table_simps split: if_splits)
  show ?thesis
    using assms(1) unfolding audit_ok_def t' al.chain_snoc last_hash_head [symmetric]
    by (simp add: audit_linked_def) (simp add: mk_row_def)
qed

lemma init_db_ok:
  assumes "audit_ok hmac key t" "init_db hmac (Inr key) now t = Inr t'"
  shows "audit_ok hmac key t' \<and> (trows t \<noteq> [] \<longrightarrow> t' = t) \<and> trows t' \<noteq> []"
proof (cases "trows t")
  case Nil
  then have "last_hash t = GENESIS_PREV_HASH" by (simp add: last_hash_def)
  with Nil assms audit_insert_ok [OF assms(1)] show ?thesis
    by (auto simp: init_db_def Let_def audit_insert_def table_simps split: if_splits)
qed (use assms in \<open>simp add: init_db_def\<close>)

lemma append_entry_cases:
  assumes "append_entry hmac (Inr key) now e t = (t', res)"
  obtains (failed) err where "res = Inl err" "t' = t \<or> init_db hmac (Inr key) now t = Inr t'"
    | (appended) t1 h where "init_db hmac (Inr key) now t = Inr t1" "h = compute_entry_hash hmac key (last_hash t1) e"
        "audit_insert e (last_hash t1) h t1 = Inr t'" "res = Inr h"
  using assms by (auto simp: append_entry_def write_entry_def Let_def split: sum.splits)

lemma append_entry_ok:
  assumes "audit_ok hmac key t" "append_entry hmac (Inr key) now e t = (t', res)"
  shows "audit_ok hmac key t' \<and> (\<exists>rs. trows t' = trows t @ rs) \<and>
    (case res of Inl _ \<Rightarrow> True | Inr h \<Rightarrow> trows t' \<noteq> [] \<and> ar_entry_hash (last (trows t')) = h \<and>
       audit_fields.truncate (last (trows t')) = e)"
  using assms(2)
proof (cases rule: append_entry_cases)
  case (failed err)
  with assms(1) init_db_ok [OF assms(1)] show ?thesis
    by (cases "trows t") (auto simp: init_db_def split: if_splits)
next
  case (appended t1 h)
  note i = init_db_ok [OF assms(1) appended(1)]
  have g: "\<exists>rs. trows t1 = trows t @ rs" using i by (cases "trows t") auto
  have "trows t' = trows t1 @ [mk_row e (last_hash t1) h (Suc (tseq t1))]"
    using appended(3) by (auto simp: audit_insert_def table_simps split: if_splits)
  moreover have "audit_ok hmac key t'" using audit_insert_ok [of hmac key t1 e t'] i appended by simp
  ultimately show ?thesis using g appended(4) by (auto simp: mk_row_def audit_fields.truncate_def)
qed

text \<open>Any sequence of log calls under one key, failed ones included.\<close>

inductive audit_run :: "hmac_fn \<Rightarrow> string \<Rightarrow> audit_table \<Rightarrow> audit_table \<Rightarrow> bool" for hmac key where
  audit_start: "audit_run hmac key t t"
| audit_log: "audit_run hmac key t t1 \<Longrightarrow> log_event hmac (Inr key) now0 now ev t1 = (t2, res) \<Longrightarrow> audit_run hmac key t t2"

lemma audit_run_ok:
  assumes "audit_run hmac key t t'" "audit_ok hmac key t"
  shows "audit_ok hmac key t' \<and> (\<exists>rs. trows t' = trows t @ rs)"
  using assms
proof (induction rule: audit_run.induct)
  case (audit_log t t1 now0 now ev t2 res)
  then have ok: "audit_ok hmac key t1" and p: "\<exists>rs. trows t1 = trows t @ rs" by simp_all
  from append_entry_ok [OF ok audit_log.hyps(2) [unfolded log_event_def]] p show ?case by auto
qed simp

lemma intact_iff:
  "trows t \<noteq> [] \<Longrightarrow> is_chain_intact hmac (Inr key) now t = Inr (audit_ok hmac key t)"
  using verify_rows_ok [of hmac key None "trows t"]
  by (simp add: is_chain_intact_def verify_chain_def init_db_def audit_ok_def)

text \<open>Every sequence of log calls under one signing key leaves a chain that verifies as intact, and only ever
  adds rows at the end: the rows that were there are there unchanged.\<close>

theorem audit_log_stays_intact:
  assumes "audit_run hmac key empty_table t" "audit_run hmac key t t'" "trows t' \<noteq> []"
  shows "is_chain_intact hmac (Inr key) now t' = Inr True \<and> (\<exists>rs. trows t' = trows t @ rs)"
proof -
  have "audit_ok hmac key (empty_table :: audit_table)" by (simp add: audit_ok_def table_simps)
  with audit_run_ok [OF assms(1)] have "audit_ok hmac key t" by simp
  from audit_run_ok [OF assms(2) this] intact_iff [OF assms(3)] show ?thesis by simp
qed

lemma audit_ok_not_empty: "is_chain_intact hmac (Inr key) now t = Inr b \<Longrightarrow> trows t \<noteq> [] \<Longrightarrow> audit_ok hmac key t = b"
  using intact_iff [of t hmac key now] by simp

text \<open>C14: a history cannot be rewritten under a known last hash: two logs that both verify and end in the same
  entry hash contain the same entries in the same order, field by field, or else two different texts with the
  same HMAC have been found.\<close>

theorem audit_tampering_needs_collision:
  assumes "is_chain_intact hmac (Inr key) now t = Inr True" "is_chain_intact hmac (Inr key) now t' = Inr True"
    "trows t \<noteq> []" "trows t' \<noteq> []" "ar_entry_hash (last (trows t)) = ar_entry_hash (last (trows t'))"
    "\<And>m. hmac key m \<noteq> GENESIS_PREV_HASH"
  shows "map audit_fields.truncate (trows t) = map audit_fields.truncate (trows t') \<or> collision (hmac key)"
proof (rule al.chain_determined [of hmac key GENESIS_PREV_HASH])
  show "al.chain hmac key GENESIS_PREV_HASH (trows t)" "al.chain hmac key GENESIS_PREV_HASH (trows t')"
    using audit_ok_not_empty [OF assms(1,3)] audit_ok_not_empty [OF assms(2,4)] by (simp_all add: audit_ok_def)
  show "al.head GENESIS_PREV_HASH (trows t) = al.head GENESIS_PREV_HASH (trows t')"
    using assms(3-5) al.head_last by metis
qed (use assms(6) in \<open>simp_all add: list_all_iff\<close>)

text \<open>Cutting entries off the end is invisible: if a log verifies, so does every prefix of it, the empty one
  included (it is given a fresh genesis entry).\<close>

theorem audit_truncation_undetected:
  assumes "is_chain_intact hmac (Inr key) now t = Inr True" "trows t \<noteq> []"
  shows "is_chain_intact hmac (Inr key) now' (t\<lparr>trows := take n (trows t)\<rparr>) = Inr True"
proof (cases n)
  case 0
  have ok: "audit_ok hmac key (t\<lparr>trows := []\<rparr>)" by (simp add: audit_ok_def)
  obtain t1 where t1: "init_db hmac (Inr key) now' (t\<lparr>trows := []\<rparr>) = Inr t1"
    by (auto simp: init_db_def Let_def audit_insert_def)
  with init_db_ok [OF ok] have "audit_ok hmac key t1" by simp
  with t1 verify_rows_ok [of hmac key None "trows t1"] 0 show ?thesis
    by (simp add: is_chain_intact_def verify_chain_def audit_ok_def)
next
  case (Suc k)
  have "al.chain hmac key GENESIS_PREV_HASH (take n (trows t) @ drop n (trows t))"
    using audit_ok_not_empty [OF assms] by (simp add: audit_ok_def)
  then have "audit_ok hmac key (t\<lparr>trows := take n (trows t)\<rparr>)"
    unfolding audit_ok_def by (simp add: al.chain_prefix del: append_take_drop_id)
  with Suc assms(2) show ?thesis by (subst intact_iff) simp_all
qed

text \<open>Appends are not atomic. Two writers that both read the last hash of an intact log before either inserts
  and whose inserts both succeed leave a log that fails verification, although nobody tampered with it.\<close>

theorem concurrent_appends_break_chain:
  assumes "is_chain_intact hmac (Inr key) now t = Inr True" "trows t \<noteq> []"
    "write_entry hmac (Inr key) (last_hash t) e1 t = Inr (h1, t1)"
    "write_entry hmac (Inr key) (last_hash t) e2 t1 = Inr (h2, t2)"
  shows "is_chain_intact hmac (Inr key) now t2 = Inr False"
proof -
  have h1: "h1 \<notin> ar_entry_hash ` set (trows t)" and t1: "trows t1 = trows t @ [mk_row e1 (last_hash t) h1 (Suc (tseq t))]"
    using assms(3) by (auto simp: write_entry_def Let_def audit_insert_def table_simps split: if_splits sum.splits)
  have t2: "trows t2 = trows t1 @ [mk_row e2 (last_hash t) h2 (Suc (tseq t1))]"
    using assms(4) by (auto simp: write_entry_def Let_def audit_insert_def table_simps split: if_splits sum.splits)
  have "last_hash t \<in> ar_entry_hash ` set (trows t)"
    using assms(2) by (simp add: last_hash_last)
  then have "last_hash t \<noteq> al.head GENESIS_PREV_HASH (trows t1)"
    using h1 unfolding t1 al.head_snoc by (auto simp: mk_row_def)
  then have "\<not> audit_ok hmac key t2"
    unfolding audit_ok_def t2 al.chain_snoc by (simp add: audit_linked_def mk_row_def)
  then show ?thesis using intact_iff [of t2 hmac key now] by (simp add: t2)
qed

lemma append_is_read_then_write:
  "trows t \<noteq> [] \<Longrightarrow> append_entry hmac secret now e t =
     (case write_entry hmac secret (last_hash t) e t of Inl err \<Rightarrow> (t, Inl err) | Inr (h, t') \<Rightarrow> (t', Inr h))"
  by (simp add: append_entry_def init_db_def)

text \<open>A production deployment never signs with a generated or short key: whenever a key comes out there, it is
  the configured one, of at least 32 characters, and the secret file is left alone. In development the key that is
  generated is found again by every later call, so a chain still verifies after a restart.\<close>

theorem signing_key_sources:
  assumes "get_audit_secret env writable token file = (Inr key, file')"
  shows "(is_production_environment env \<longrightarrow>
      key = getenv (env_secret env) \<and> MIN_AUDIT_SECRET_LENGTH \<le> length key \<and> file' = file) \<and>
    (writable \<and> token \<noteq> [] \<and> strip token = token \<longrightarrow> get_audit_secret env writable' token' file' = (Inr key, file'))"
  using assms
  by (auto simp: get_audit_secret_def load_or_create_dev_secret_def Let_def split: if_splits secret_file.splits)

subsection \<open>Concrete runs\<close>

text \<open>A stand-in for HMAC that is injective and never the genesis text.\<close>

definition demo_hmac :: hmac_fn where
  "demo_hmac key m = key @ m"

definition demo_entry :: "string \<Rightarrow> audit_fields" where
  "demo_entry who = event_fields ''t1'' (Api_key_used who)"

definition demo_log :: audit_table where
  "demo_log = fst (append_entry demo_hmac (Inr ''kkkkkkkk'') ''t0'' (demo_entry ''alice'') empty_table)"

lemma demo_log_run: "audit_run demo_hmac ''kkkkkkkk'' empty_table demo_log"
proof -
  obtain res where "log_event demo_hmac (Inr ''kkkkkkkk'') ''t0'' ''t1'' (Api_key_used ''alice'') empty_table = (demo_log, res)"
    by (metis demo_entry_def demo_log_def log_event_def prod.collapse)
  from audit_log [OF audit_start this] show ?thesis .
qed

lemma demo_hmac_inj: "demo_hmac k m = demo_hmac k m' \<longleftrightarrow> m = m'"
  by (simp add: demo_hmac_def)

lemma canonical_json_eq: "canonical_json p d = canonical_json p' d' \<longleftrightarrow> p = p' \<and> d = d'"
  using canonical_json_inj by blast

definition demo_genesis :: audit_fields where
  "demo_genesis = log_fields ''t0'' ''genesis'' ''system'' None None None"

definition demo_hash :: "string \<Rightarrow> audit_fields \<Rightarrow> string" where
  "demo_hash p e = compute_entry_hash demo_hmac ''kkkkkkkk'' p e"

lemma demo_hash_eq: "demo_hash p e = demo_hash q d \<longleftrightarrow> p = q \<and> e = d"
  by (simp add: demo_hash_def compute_entry_hash_def demo_hmac_inj canonical_json_eq)

lemma demo_entry_eq: "demo_entry v = demo_entry w \<longleftrightarrow> v = w" "demo_entry v \<noteq> demo_genesis"
  by (simp_all add: demo_entry_def demo_genesis_def log_fields_def)

lemma demo_log_rows:
  "trows demo_log =
     [mk_row demo_genesis GENESIS_PREV_HASH (demo_hash GENESIS_PREV_HASH demo_genesis) 1,
      mk_row (demo_entry ''alice'') (demo_hash GENESIS_PREV_HASH demo_genesis)
        (demo_hash (demo_hash GENESIS_PREV_HASH demo_genesis) (demo_entry ''alice'')) 2]"
proof -
  have g: "\<lparr>ar_timestamp = ''t0'', ar_event_type = ''genesis'', ar_actor = ''system'', ar_wallet = None,
      ar_score = None, ar_justification = None\<rparr> = demo_genesis" by (simp add: demo_genesis_def log_fields_def)
  have i: "init_db demo_hmac (Inr ''kkkkkkkk'') ''t0'' empty_table =
      Inr (sql_insert (mk_row demo_genesis GENESIS_PREV_HASH (demo_hash GENESIS_PREV_HASH demo_genesis)) empty_table)"
    by (simp add: init_db_def Let_def audit_insert_def table_simps g demo_hash_def)
  show ?thesis
    unfolding demo_log_def append_entry_def i
    by (simp add: write_entry_def Let_def audit_insert_def table_simps last_hash_def demo_hash_def [symmetric])
      (simp add: mk_row_def demo_hash_eq demo_entry_eq)
qed

lemma demo_log_ok: "trows demo_log \<noteq> []" "audit_ok demo_hmac ''kkkkkkkk'' demo_log"
  "is_chain_intact demo_hmac (Inr ''kkkkkkkk'') ''now'' demo_log = Inr True"
proof -
  show ne: "trows demo_log \<noteq> []" by (simp add: demo_log_rows)
  have "audit_ok demo_hmac ''kkkkkkkk'' (empty_table :: audit_table)" by (simp add: audit_ok_def table_simps)
  from audit_run_ok [OF demo_log_run this] show ok: "audit_ok demo_hmac ''kkkkkkkk'' demo_log" by simp
  show "is_chain_intact demo_hmac (Inr ''kkkkkkkk'') ''now'' demo_log = Inr True"
    using intact_iff [OF ne] ok by simp
qed

theorem audit_log_stays_intact_witness:
  "is_chain_intact demo_hmac (Inr ''kkkkkkkk'') ''now'' demo_log = Inr True \<and> (\<exists>rs. trows demo_log = trows demo_log @ rs)"
  by (rule audit_log_stays_intact [OF demo_log_run audit_start demo_log_ok(1)])

theorem audit_tampering_needs_collision_witness:
  "map audit_fields.truncate (trows demo_log) = map audit_fields.truncate (trows demo_log) \<or>
   collision (demo_hmac ''kkkkkkkk'')"
  by (rule audit_tampering_needs_collision [OF demo_log_ok(3) demo_log_ok(3) demo_log_ok(1) demo_log_ok(1)])
    (simp_all add: demo_hmac_def GENESIS_PREV_HASH_def)

theorem audit_truncation_undetected_witness:
  "is_chain_intact demo_hmac (Inr ''kkkkkkkk'') ''later'' (demo_log\<lparr>trows := take 1 (trows demo_log)\<rparr>) = Inr True"
  by (rule audit_truncation_undetected [OF demo_log_ok(3,1)])

lemma write_entry_fresh:
  assumes "compute_entry_hash hmac key p e \<notin> ar_entry_hash ` set (trows t)"
  shows "\<exists>t'. write_entry hmac (Inr key) p e t = Inr (compute_entry_hash hmac key p e, t') \<and>
    trows t' = trows t @ [mk_row e p (compute_entry_hash hmac key p e) (Suc (tseq t))]"
  using assms by (simp add: write_entry_def Let_def audit_insert_def table_simps)

theorem concurrent_appends_break_chain_witness:
  "\<exists>h1 t1 h2 t2. write_entry demo_hmac (Inr ''kkkkkkkk'') (last_hash demo_log) (demo_entry ''bob'') demo_log = Inr (h1, t1) \<and>
     write_entry demo_hmac (Inr ''kkkkkkkk'') (last_hash demo_log) (demo_entry ''carol'') t1 = Inr (h2, t2) \<and>
     is_chain_intact demo_hmac (Inr ''kkkkkkkk'') ''now'' t2 = Inr False"
proof -
  let ?p = "demo_hash (demo_hash GENESIS_PREV_HASH demo_genesis) (demo_entry ''alice'')"
  have p: "last_hash demo_log = ?p" by (simp add: last_hash_last demo_log_ok(1)) (simp add: demo_log_rows mk_row_def)
  have hashes: "ar_entry_hash ` set (trows demo_log) = {demo_hash GENESIS_PREV_HASH demo_genesis, ?p}"
    by (simp add: demo_log_rows mk_row_def)
  have fresh: "demo_hash ?p (demo_entry w) \<notin> ar_entry_hash ` set (trows demo_log)" if "w \<noteq> ''alice''" for w
    unfolding hashes using that by (simp add: demo_hash_eq demo_entry_eq)
  from write_entry_fresh [OF fresh [of "''bob''", unfolded demo_hash_def [of ?p]]] obtain t1 where t1:
    "write_entry demo_hmac (Inr ''kkkkkkkk'') ?p (demo_entry ''bob'') demo_log = Inr (demo_hash ?p (demo_entry ''bob''), t1)"
    "trows t1 = trows demo_log @ [mk_row (demo_entry ''bob'') ?p (demo_hash ?p (demo_entry ''bob'')) (Suc (tseq demo_log))]"
    unfolding demo_hash_def [of ?p] by auto
  have "demo_hash ?p (demo_entry ''carol'') \<notin> ar_entry_hash ` set (trows t1)"
    using fresh [of "''carol''"] unfolding t1(2) by (simp add: mk_row_def demo_hash_eq demo_entry_eq)
  from write_entry_fresh [OF this [unfolded demo_hash_def [of ?p]]] obtain t2 where t2:
    "write_entry demo_hmac (Inr ''kkkkkkkk'') ?p (demo_entry ''carol'') t1 = Inr (demo_hash ?p (demo_entry ''carol''), t2)"
    unfolding demo_hash_def [of ?p] by auto
  from concurrent_appends_break_chain [OF demo_log_ok(3,1), unfolded p, OF t1(1) t2] t1(1) t2 show ?thesis
    unfolding p by blast
qed

theorem signing_key_sources_witness:
  "get_audit_secret \<lparr>env_secret = None, env_name = None, env_network = None\<rparr> True ''other'' (Holds ''abc'') = (Inr ''abc'', Holds ''abc'')"
proof -
  have s: "strip ''abc'' = ''abc''" "lower '''' = ''''" by code_simp+
  have "get_audit_secret \<lparr>env_secret = None, env_name = None, env_network = None\<rparr> True ''abc'' Missing = (Inr ''abc'', Holds ''abc'')"
    by (simp add: get_audit_secret_def Let_def getenv_def is_production_environment_def load_or_create_dev_secret_def s)
  from signing_key_sources [OF this] s show ?thesis by blast
qed

end
