(* ===== verification/Scoring_Events.thy ===== *)
theory Scoring_Events
  imports Audit_Log
begin

text \<open>
  \<open>audit/scoring_events.py\<close> and \<open>ingest_scoring_event\<close> of \<open>storage/audit_log.py\<close>: the event-sourced log of
  scoring decisions, chained per wallet with SHA-256 (the argument \<open>sha\<close>) and signed with HMAC. A feature value
  is the text \<open>json.dumps\<close> prints for it; a time stamp is its ISO text, which is what SQLite stores and compares.
  The table is the list of its rows in rowid order; the triggers leave \<open>INSERT\<close> as its only statement.
  Among equal time stamps the index on \<open>(wallet, occurred_at)\<close> is read in rowid order.
\<close>

subsection \<open>Events\<close>

definition VALID_TRIGGERED_BY :: "string set" where
  "VALID_TRIGGERED_BY = {''ingestion'', ''manual_recompute'', ''feedback_boost'', ''admin_override''}"

record scoring_event =
  se_event_id :: string
  se_wallet :: string
  se_namespace_id :: string
  se_score :: int
  se_previous_score :: "int option"
  se_feature_snapshot :: "(string \<times> string) list"
  se_model_version :: string
  se_triggered_by :: string
  se_actor_id :: "string option"
  se_chain_hash :: string
  se_occurred_at :: string
  se_signature :: string

type_synonym sha_fn = "string \<Rightarrow> string"

definition json_int :: "int \<Rightarrow> json" where
  "json_int n = JNum (str_int n)"

definition json_features :: "(string \<times> string) list \<Rightarrow> json" where
  "json_features fs = json_dict (map (\<lambda>(k, v). (k, JNum v)) fs)"

definition signing_items :: "scoring_event \<Rightarrow> (string \<times> json) list" where
  "signing_items e =
     [(''event_id'', JStr (se_event_id e)), (''wallet'', JStr (se_wallet e)),
      (''namespace_id'', JStr (se_namespace_id e)), (''score'', json_int (se_score e)),
      (''previous_score'', json_opt json_int (se_previous_score e)),
      (''features'', json_features (se_feature_snapshot e)), (''model_version'', JStr (se_model_version e)),
      (''triggered_by'', JStr (se_triggered_by e)), (''actor_id'', json_opt JStr (se_actor_id e)),
      (''occurred_at'', JStr (se_occurred_at e))]"

definition signing_payload :: "scoring_event \<Rightarrow> string" where
  "signing_payload e = json_text (json_dict (signing_items e))"

definition compute_signature :: "hmac_fn \<Rightarrow> audit_secret \<Rightarrow> scoring_event \<Rightarrow> audit_error + string" where
  "compute_signature hmac secret e =
     (case secret of Inl err \<Rightarrow> Inl err | Inr key \<Rightarrow> Inr (hmac key (signing_payload e)))"

definition sign :: "hmac_fn \<Rightarrow> audit_secret \<Rightarrow> scoring_event \<Rightarrow> audit_error + scoring_event" where
  "sign hmac secret e =
     (case compute_signature hmac secret e of Inl err \<Rightarrow> Inl err | Inr s \<Rightarrow> Inr (e\<lparr>se_signature := s\<rparr>))"

definition verify_signature :: "hmac_fn \<Rightarrow> audit_secret \<Rightarrow> scoring_event \<Rightarrow> audit_error + bool" where
  "verify_signature hmac secret e =
     (if se_signature e = '''' then Inr False
      else case compute_signature hmac secret e of Inl err \<Rightarrow> Inl err | Inr s \<Rightarrow> Inr (se_signature e = s))"

text \<open>The factory: the event id and the time stamp are drawn by the caller's environment.\<close>

definition make_scoring_event ::
    "hmac_fn \<Rightarrow> audit_secret \<Rightarrow> string \<Rightarrow> string \<Rightarrow> string \<Rightarrow> string \<Rightarrow> int \<Rightarrow> int option \<Rightarrow>
     (string \<times> string) list \<Rightarrow> string \<Rightarrow> string \<Rightarrow> string option \<Rightarrow> audit_error + scoring_event" where
  "make_scoring_event hmac secret uuid now wallet namespace_id score previous_score features model_version
       triggered_by actor_id =
     sign hmac secret
       \<lparr>se_event_id = uuid, se_wallet = wallet, se_namespace_id = namespace_id, se_score = score,
        se_previous_score = previous_score, se_feature_snapshot = features, se_model_version = model_version,
        se_triggered_by = triggered_by, se_actor_id = actor_id, se_chain_hash = '''', se_occurred_at = now,
        se_signature = ''''\<rparr>"

definition chain_message :: "string \<Rightarrow> string \<Rightarrow> string \<Rightarrow> int \<Rightarrow> (string \<times> string) list \<Rightarrow> string \<Rightarrow> string" where
  "chain_message prev event_id wallet score features occurred_at =
     json_text (json_dict
       [(''prev'', JStr prev), (''event_id'', JStr event_id), (''wallet'', JStr wallet),
        (''score'', json_int score), (''features'', json_features features), (''occurred_at'', JStr occurred_at)])"

text \<open>\<open>prev if prev else "GENESIS"\<close>: no previous hash and an empty one count alike.\<close>

definition compute_chain_hash :: "sha_fn \<Rightarrow> string \<Rightarrow> scoring_event \<Rightarrow> string" where
  "compute_chain_hash sha prev e =
     sha (chain_message (if prev = '''' then ''GENESIS'' else prev) (se_event_id e) (se_wallet e) (se_score e)
       (se_feature_snapshot e) (se_occurred_at e))"

subsection \<open>The store\<close>

datatype store_error = Invalid_triggered_by string | Missing_actor | Constraint_failed

text \<open>What a row gives back: the features sorted, no signature column, and a time stamp without an offset read as
  UTC (an ISO text without offset has 19 characters, or 26 with microseconds).\<close>

definition read_time :: "string \<Rightarrow> string" where
  "read_time t = (if length t = 19 \<or> length t = 26 then t @ ''+00:00'' else t)"

definition insert_row :: "scoring_event \<Rightarrow> scoring_event list \<Rightarrow> store_error + scoring_event list" where
  "insert_row e db =
     (if se_event_id e \<in> se_event_id ` set db \<or> se_chain_hash e \<in> se_chain_hash ` set db \<or>
         \<not> (0 \<le> se_score e \<and> se_score e \<le> 100)
      then Inl Constraint_failed
      else Inr (db @ [e\<lparr>se_feature_snapshot := sort_key fst (se_feature_snapshot e), se_signature := ''''\<rparr>]))"

definition from_row :: "scoring_event \<Rightarrow> scoring_event" where
  "from_row r = r\<lparr>se_occurred_at := read_time (se_occurred_at r)\<rparr>"

definition wallet_rows :: "string \<Rightarrow> scoring_event list \<Rightarrow> scoring_event list" where
  "wallet_rows wallet db = sort_key se_occurred_at (filter (\<lambda>r. se_wallet r = wallet) db)"

definition get_latest_event :: "string \<Rightarrow> scoring_event list \<Rightarrow> scoring_event option" where
  "get_latest_event wallet db =
     (case wallet_rows wallet db of [] \<Rightarrow> None | r # rs \<Rightarrow> Some (from_row (last (r # rs))))"

definition store_append ::
    "sha_fn \<Rightarrow> nat \<Rightarrow> scoring_event \<Rightarrow> scoring_event list \<Rightarrow> store_error + scoring_event list" where
  "store_append sha max_feature_keys e db =
     (if se_triggered_by e \<notin> VALID_TRIGGERED_BY then Inl (Invalid_triggered_by (se_triggered_by e))
      else if se_triggered_by e = ''admin_override'' \<and> (se_actor_id e = None \<or> se_actor_id e = Some '''')
      then Inl Missing_actor
      else
        let e1 = e\<lparr>se_feature_snapshot := take max_feature_keys (se_feature_snapshot e)\<rparr>;
            prev = (case get_latest_event (se_wallet e) db of None \<Rightarrow> '''' | Some r \<Rightarrow> se_chain_hash r)
        in insert_row (e1\<lparr>se_chain_hash := compute_chain_hash sha prev e1\<rparr>) db)"

definition replay :: "string \<Rightarrow> string option \<Rightarrow> int \<Rightarrow> scoring_event list \<Rightarrow> scoring_event list" where
  "replay wallet since limit db =
     map from_row (sql_limit limit
       (filter (\<lambda>r. case since of None \<Rightarrow> True | Some s \<Rightarrow> s \<le> se_occurred_at r) (wallet_rows wallet db)))"

definition current_score :: "string \<Rightarrow> scoring_event list \<Rightarrow> int option" where
  "current_score wallet db = map_option se_score (get_latest_event wallet db)"

text \<open>\<open>summary\<close>: the event count and the number of wallets since the cutoff; the third figure is the constant 0.\<close>

definition summary :: "string \<Rightarrow> scoring_event list \<Rightarrow> nat \<times> nat \<times> nat" where
  "summary since db =
     (let recent = filter (\<lambda>r. since \<le> se_occurred_at r) db
      in (length recent, length (remdups (map se_wallet recent)), 0))"

subsection \<open>Verification\<close>

datatype chain_status = Valid | Tampered | No_events

record chain_verification =
  cv_wallet :: string
  cv_status :: chain_status
  cv_total_events :: nat
  cv_first_tampered :: "string option"

fun first_mismatch :: "sha_fn \<Rightarrow> string \<Rightarrow> scoring_event list \<Rightarrow> string option" where
  "first_mismatch sha prev [] = None"
| "first_mismatch sha prev (e # es) =
     (if compute_chain_hash sha prev e \<noteq> se_chain_hash e then Some (se_event_id e)
      else first_mismatch sha (se_chain_hash e) es)"

definition verify :: "sha_fn \<Rightarrow> string \<Rightarrow> scoring_event list \<Rightarrow> chain_verification" where
  "verify sha wallet db =
     (let events = replay wallet None 1000 db in
      if events = [] then
        \<lparr>cv_wallet = wallet, cv_status = No_events, cv_total_events = 0, cv_first_tampered = None\<rparr>
      else case first_mismatch sha '''' events of
          None \<Rightarrow> \<lparr>cv_wallet = wallet, cv_status = Valid, cv_total_events = length events, cv_first_tampered = None\<rparr>
        | Some i \<Rightarrow>
            \<lparr>cv_wallet = wallet, cv_status = Tampered, cv_total_events = length events, cv_first_tampered = Some i\<rparr>)"

subsection \<open>The custody boundary\<close>

datatype ingest_error = Invalid_event_signature | Audit_failed audit_error

definition ingest_scoring_event ::
    "hmac_fn \<Rightarrow> audit_secret \<Rightarrow> string \<Rightarrow> string \<Rightarrow> scoring_event \<Rightarrow> audit_table \<Rightarrow> audit_table \<times> (ingest_error + string)" where
  "ingest_scoring_event hmac secret now0 now e t =
     (case verify_signature hmac secret e of
        Inl err \<Rightarrow> (t, Inl (Audit_failed err))
      | Inr ok \<Rightarrow>
          if \<not> ok then (t, Inl Invalid_event_signature)
          else
            let actor = (case se_actor_id e of None \<Rightarrow> se_triggered_by e
                         | Some a \<Rightarrow> if a = '''' then se_triggered_by e else a);
                (t', res) = log_event hmac secret now0 now (Score_computed actor (se_wallet e) (se_score e)) t
            in (t', case res of Inl err \<Rightarrow> Inl (Audit_failed err) | Inr h \<Rightarrow> Inr h))"

subsection \<open>Canonical texts\<close>

lemma fst_num: "fst \<circ> (\<lambda>(k, v). (k, JNum v)) = fst"
  by auto

lemma json_features_eq: "json_features fs = JObj (map (\<lambda>(k, v). (k, JNum v)) (sort_key fst fs))"
  by (simp add: json_features_def json_dict_def sort_key_map fst_num)

lemma json_features_sort [simp]: "json_features (sort_key fst fs) = json_features fs"
  by (simp add: json_features_eq sort_key_id_if_sorted)

lemma json_features_inj:
  assumes "json_features fs = json_features fs'"
  shows "sort_key fst fs = sort_key fst fs'"
proof -
  have "inj (\<lambda>(k :: string, v). (k, JNum v))" by (auto simp: inj_def)
  with assms show ?thesis by (simp add: json_features_eq inj_map_eq_map)
qed

definition features_ok :: "(string \<times> string) list \<Rightarrow> bool" where
  "features_ok fs \<longleftrightarrow> (\<forall>f \<in> set fs. num_ok (snd f))"

lemma json_ok_features [simp]: "json_ok (json_features fs) \<longleftrightarrow> features_ok fs"
  by (auto simp: json_features_def features_ok_def list_all_iff)

lemma json_int_simps [simp]: "json_ok (json_int n)" "json_int m = json_int n \<longleftrightarrow> m = n"
  by (auto simp: json_int_def dest: str_int_inj)

lemma json_ok_opt: "(\<And>x. json_ok (f x)) \<Longrightarrow> json_ok (json_opt f v)"
  by (simp add: json_opt_def split: option.split)

lemma chain_message_inj:
  assumes "chain_message p i w s fs t = chain_message p' i' w' s' fs' t'" "features_ok fs" "features_ok fs'"
  shows "p = p' \<and> i = i' \<and> w = w' \<and> s = s' \<and> sort_key fst fs = sort_key fst fs' \<and> t = t'"
proof -
  let ?items = "\<lambda>p i w s fs t. [(''prev'', JStr p), (''event_id'', JStr i), (''wallet'', JStr w),
        (''score'', json_int s), (''features'', json_features fs), (''occurred_at'', JStr t)]"
  have "set (?items p i w s fs t) = set (?items p' i' w' s' fs' t')"
    using assms by (intro json_dict_inj) (simp_all add: chain_message_def)
  then have m: "x \<in> set (?items p i w s fs t) \<Longrightarrow> x \<in> set (?items p' i' w' s' fs' t')" for x by (simp only:)
  from m [of "(''features'', json_features fs)"] have "json_features fs = json_features fs'" by simp
  then have "sort_key fst fs = sort_key fst fs'" by (rule json_features_inj)
  then show ?thesis
    using m [of "(''prev'', JStr p)"] m [of "(''event_id'', JStr i)"] m [of "(''wallet'', JStr w)"]
      m [of "(''score'', json_int s)"] m [of "(''occurred_at'', JStr t)"] by simp
qed

text \<open>What a signature covers: every field but the chain hash, the features as the dictionary they are.\<close>

definition signed_part :: "scoring_event \<Rightarrow> scoring_event" where
  "signed_part e = e\<lparr>se_feature_snapshot := sort_key fst (se_feature_snapshot e), se_chain_hash := '''', se_signature := ''''\<rparr>"

lemma signing_payload_inj:
  assumes "signing_payload d = signing_payload e" "features_ok (se_feature_snapshot d)" "features_ok (se_feature_snapshot e)"
  shows "signed_part d = signed_part e"
proof -
  have "set (signing_items d) = set (signing_items e)"
    using assms by (intro json_dict_inj) (simp_all add: signing_payload_def signing_items_def json_ok_opt)
  then have m: "x \<in> set (signing_items d) \<Longrightarrow> x \<in> set (signing_items e)" for x by (simp only:)
  from m [of "(''features'', json_features (se_feature_snapshot d))"]
  have f: "sort_key fst (se_feature_snapshot d) = sort_key fst (se_feature_snapshot e)"
    by (intro json_features_inj) (simp add: signing_items_def)
  from m [of "(''previous_score'', json_opt json_int (se_previous_score d))"]
  have p: "se_previous_score d = se_previous_score e"
    by (intro json_opt_inj [of json_int]) (auto simp: signing_items_def inj_def json_int_def dest: str_int_inj)
  from m [of "(''actor_id'', json_opt JStr (se_actor_id d))"]
  have a: "se_actor_id d = se_actor_id e"
    by (intro json_opt_inj [of JStr]) (auto simp: signing_items_def inj_def)
  show ?thesis
    using f p a m [of "(''event_id'', JStr (se_event_id d))"] m [of "(''wallet'', JStr (se_wallet d))"]
      m [of "(''namespace_id'', JStr (se_namespace_id d))"] m [of "(''score'', json_int (se_score d))"]
      m [of "(''model_version'', JStr (se_model_version d))"] m [of "(''triggered_by'', JStr (se_triggered_by d))"]
      m [of "(''occurred_at'', JStr (se_occurred_at d))"]
    by (simp add: signing_items_def signed_part_def)
qed

text \<open>Only events with a valid custody signature reach the audit log: an ingest that is not refused has checked
  the HMAC over every field of the event; a refused one writes nothing. And a signature fits one event only: two
  events that verify with the same signature agree in every signed field, or two texts with the same HMAC exist.\<close>

theorem ingest_requires_custody_signature:
  assumes "ingest_scoring_event hmac (Inr key) now0 now e t = (t', res)" "features_ok (se_feature_snapshot e)"
    "verify_signature hmac (Inr key) d = Inr True" "se_signature d = se_signature e" "features_ok (se_feature_snapshot d)"
  shows "(res = Inl Invalid_event_signature \<longrightarrow> t' = t) \<and>
    (res \<noteq> Inl Invalid_event_signature \<longrightarrow>
       se_signature e = hmac key (signing_payload e) \<and> (signed_part e = signed_part d \<or> collision (hmac key)))"
proof -
  have d: "se_signature e = hmac key (signing_payload d)" "se_signature e \<noteq> ''''"
    using assms(3,4) by (auto simp: verify_signature_def compute_signature_def split: if_splits)
  show ?thesis
  proof (cases "se_signature e = hmac key (signing_payload e)")
    case True
    with d have "hmac key (signing_payload e) = hmac key (signing_payload d)" by simp
    then have "signed_part e = signed_part d \<or> collision (hmac key)"
      using signing_payload_inj [OF _ assms(2,5)] by (auto simp: collision_def)
    with True assms(1) d show ?thesis
      by (auto simp: ingest_scoring_event_def verify_signature_def compute_signature_def Let_def split: prod.splits sum.splits)
  next
    case False
    with d assms(1) show ?thesis
      by (auto simp: ingest_scoring_event_def verify_signature_def compute_signature_def)
  qed
qed

subsection \<open>What the store keeps\<close>

definition event_typed :: "nat \<Rightarrow> scoring_event \<Rightarrow> bool" where
  "event_typed max_feature_keys r \<longleftrightarrow>
     0 \<le> se_score r \<and> se_score r \<le> 100 \<and> se_triggered_by r \<in> VALID_TRIGGERED_BY \<and>
     (se_triggered_by r = ''admin_override'' \<longrightarrow> (\<exists>a. se_actor_id r = Some a \<and> a \<noteq> '''')) \<and>
     length (se_feature_snapshot r) \<le> max_feature_keys \<and> sorted (map fst (se_feature_snapshot r))"

definition store_typed :: "nat \<Rightarrow> scoring_event list \<Rightarrow> bool" where
  "store_typed max_feature_keys db \<longleftrightarrow>
     list_all (event_typed max_feature_keys) db \<and> distinct (map se_event_id db) \<and> distinct (map se_chain_hash db)"

lemma store_append_row:
  assumes "store_append sha m e db = Inr db'"
  obtains r where "db' = db @ [r]" "event_typed m r" "se_event_id r \<notin> se_event_id ` set db"
    "se_chain_hash r \<notin> se_chain_hash ` set db" "se_wallet r = se_wallet e" "se_occurred_at r = se_occurred_at e"
    "se_event_id r = se_event_id e"
    "se_feature_snapshot r = sort_key fst (take m (se_feature_snapshot e))"
    "se_chain_hash r = compute_chain_hash sha
       (case get_latest_event (se_wallet e) db of None \<Rightarrow> '''' | Some r \<Rightarrow> se_chain_hash r) r"
  using assms
  by (auto simp: store_append_def insert_row_def Let_def event_typed_def compute_chain_hash_def chain_message_def
      split: if_splits)

lemma store_typed_append: "store_typed m db \<Longrightarrow> store_append sha m e db = Inr db' \<Longrightarrow> store_typed m db'"
  by (erule store_append_row) (simp add: store_typed_def)

fun append_all :: "sha_fn \<Rightarrow> nat \<Rightarrow> scoring_event list \<Rightarrow> scoring_event list \<Rightarrow> scoring_event list" where
  "append_all sha m [] db = db"
| "append_all sha m (e # es) db =
     append_all sha m es (case store_append sha m e db of Inl err \<Rightarrow> db | Inr db' \<Rightarrow> db')"

lemma append_all_typed: "store_typed m db \<Longrightarrow> store_typed m (append_all sha m es db)"
  by (induction es arbitrary: db) (auto split: sum.split intro: store_typed_append)

lemma append_all_prefix: "\<exists>rs. append_all sha m es db = db @ rs"
proof (induction es arbitrary: db)
  case (Cons e es)
  show ?case
  proof (cases "store_append sha m e db")
    case (Inr db')
    then obtain r where "db' = db @ [r]" by (rule store_append_row)
    with Inr Cons.IH [of db'] show ?thesis by auto
  qed (use Cons.IH in auto)
qed simp

text \<open>Whatever events are appended, in whatever order and however malformed, the store holds only well-formed
  decisions: a score from 0 to 100, a known trigger, an actor on every admin override, at most the configured number
  of features; ids and chain hashes are unique; and rows are only ever added at the end.\<close>

theorem scoring_store_well_typed:
  "store_typed m (append_all sha m es []) \<and> (\<exists>rs. append_all sha m (es @ es') [] = append_all sha m es [] @ rs)"
proof -
  have "append_all sha m (es @ es') db = append_all sha m es' (append_all sha m es db)" for db
    by (induction es arbitrary: db) simp_all
  moreover have "store_typed m ([] :: scoring_event list)" by (simp add: store_typed_def)
  ultimately show ?thesis using append_all_typed append_all_prefix by metis
qed

subsection \<open>The chain of a wallet\<close>

type_synonym event_payload = "string \<times> string \<times> int \<times> (string \<times> string) list \<times> string"

definition event_payload :: "scoring_event \<Rightarrow> event_payload" where
  "event_payload r = (se_event_id r, se_wallet r, se_score r, se_feature_snapshot r, se_occurred_at r)"

definition event_message :: "string \<Rightarrow> event_payload \<Rightarrow> string" where
  "event_message p d = (case d of (i, w, s, fs, t) \<Rightarrow> chain_message p i w s fs t)"

definition event_valid :: "event_payload \<Rightarrow> bool" where
  "event_valid d = (case d of (i, w, s, fs, t) \<Rightarrow> features_ok fs \<and> sorted (map fst fs))"

definition event_linked :: "sha_fn \<Rightarrow> string \<Rightarrow> scoring_event \<Rightarrow> bool" where
  "event_linked sha p r \<longleftrightarrow> se_chain_hash r = sha (event_message p (event_payload r))"

interpretation se: hash_chain "event_linked sha" se_chain_hash event_payload event_message sha event_valid for sha
proof
  show "event_valid d \<Longrightarrow> event_valid d' \<Longrightarrow> event_message p d = event_message p' d' \<Longrightarrow> p = p' \<and> d = d'" for d d' p p'
    by (auto simp: event_valid_def event_message_def sort_key_id_if_sorted split: prod.splits dest!: chain_message_inj)
qed (simp add: event_linked_def)

definition prev_text :: "string \<Rightarrow> string" where
  "prev_text p = (if p = '''' then ''GENESIS'' else p)"

lemma compute_chain_hash_eq: "compute_chain_hash sha p e = sha (event_message (prev_text p) (event_payload e))"
  by (simp add: compute_chain_hash_def event_message_def event_payload_def prev_text_def)

lemma first_mismatch_chain:
  assumes "\<And>m. sha m \<noteq> ''''"
  shows "first_mismatch sha p es = None \<longleftrightarrow> se.chain sha (prev_text p) es"
proof (induction es arbitrary: p)
  case (Cons e es)
  have "prev_text (se_chain_hash e) = se_chain_hash e" if "event_linked sha q e" for q
    using that assms by (simp add: event_linked_def prev_text_def)
  moreover have "event_linked sha (prev_text p) e \<longleftrightarrow> compute_chain_hash sha p e = se_chain_hash e"
    by (auto simp: compute_chain_hash_eq event_linked_def)
  ultimately show ?case using Cons.IH [of "se_chain_hash e"] by auto
qed simp

lemma verify_valid:
  assumes "\<And>m. sha m \<noteq> ''''"
  shows "cv_status (verify sha w db) = Valid \<longleftrightarrow>
    replay w None 1000 db \<noteq> [] \<and> se.chain sha ''GENESIS'' (replay w None 1000 db)"
  using first_mismatch_chain [of sha "''''" "replay w None 1000 db", OF assms]
  by (auto simp: verify_def Let_def prev_text_def split: option.split)

definition in_order :: "string \<Rightarrow> scoring_event list \<Rightarrow> bool" where
  "in_order w db \<longleftrightarrow> sorted (map se_occurred_at (filter (\<lambda>r. se_wallet r = w) db)) \<and>
     (\<forall>r \<in> set db. read_time (se_occurred_at r) = se_occurred_at r)"

lemma in_order_rows:
  assumes "in_order w db"
  shows "wallet_rows w db = filter (\<lambda>r. se_wallet r = w) db"
    and "replay w None 1000 db = take 1000 (filter (\<lambda>r. se_wallet r = w) db)"
    and "se_chain_hash (the (get_latest_event w db)) = se_chain_hash (last (filter (\<lambda>r. se_wallet r = w) db))
      \<or> filter (\<lambda>r. se_wallet r = w) db = []"
    and "get_latest_event w db = None \<longleftrightarrow> filter (\<lambda>r. se_wallet r = w) db = []"
proof -
  show r: "wallet_rows w db = filter (\<lambda>r. se_wallet r = w) db"
    using assms by (simp add: wallet_rows_def in_order_def sort_key_id_if_sorted)
  have "map from_row (take 1000 (filter (\<lambda>r. se_wallet r = w) db)) = take 1000 (filter (\<lambda>r. se_wallet r = w) db)"
    using assms by (intro map_idI) (auto simp: in_order_def from_row_def dest!: in_set_takeD)
  then show "replay w None 1000 db = take 1000 (filter (\<lambda>r. se_wallet r = w) db)"
    by (simp add: replay_def r sql_limit_def)
  show "se_chain_hash (the (get_latest_event w db)) = se_chain_hash (last (filter (\<lambda>r. se_wallet r = w) db))
      \<or> filter (\<lambda>r. se_wallet r = w) db = []" "get_latest_event w db = None \<longleftrightarrow> filter (\<lambda>r. se_wallet r = w) db = []"
    by (auto simp: get_latest_event_def r from_row_def split: list.splits)
qed

text \<open>Appends in time order, for any mix of wallets; refused appends change nothing and are left out.\<close>

inductive chrono_run :: "sha_fn \<Rightarrow> nat \<Rightarrow> scoring_event list \<Rightarrow> bool" for sha m where
  chrono_start: "chrono_run sha m []"
| chrono_append: "chrono_run sha m db \<Longrightarrow> read_time (se_occurred_at e) = se_occurred_at e \<Longrightarrow>
    (\<And>r. r \<in> set db \<Longrightarrow> se_wallet r = se_wallet e \<Longrightarrow> se_occurred_at r \<le> se_occurred_at e) \<Longrightarrow>
    store_append sha m e db = Inr db' \<Longrightarrow> chrono_run sha m db'"

definition wallet_chain :: "sha_fn \<Rightarrow> string \<Rightarrow> scoring_event list \<Rightarrow> bool" where
  "wallet_chain sha w db \<longleftrightarrow> se.chain sha ''GENESIS'' (filter (\<lambda>r. se_wallet r = w) db)"

lemma latest_hash_head:
  assumes "in_order w db"
  shows "prev_text (case get_latest_event w db of None \<Rightarrow> '''' | Some r \<Rightarrow> se_chain_hash r) =
    prev_text (if filter (\<lambda>r. se_wallet r = w) db = [] then '''' else se_chain_hash (last (filter (\<lambda>r. se_wallet r = w) db)))"
  using in_order_rows(3,4) [OF assms] by (auto split: option.split)

lemma chrono_run_chain:
  assumes "chrono_run sha m db" "\<And>m. sha m \<noteq> ''''"
  shows "in_order w db \<and> wallet_chain sha w db"
  using assms(1)
proof (induction arbitrary: w rule: chrono_run.induct)
  case chrono_start
  then show ?case by (simp add: in_order_def wallet_chain_def)
next
  case (chrono_append db e db')
  from chrono_append.hyps(4) obtain r where r: "db' = db @ [r]" "se_wallet r = se_wallet e"
    "se_occurred_at r = se_occurred_at e"
    "se_chain_hash r = compute_chain_hash sha
       (case get_latest_event (se_wallet e) db of None \<Rightarrow> '''' | Some r \<Rightarrow> se_chain_hash r) r"
    by (rule store_append_row)
  let ?w = "se_wallet e"
  let ?rows = "filter (\<lambda>r. se_wallet r = ?w) db"
  have o: "in_order ?w db" and c: "wallet_chain sha ?w db" using chrono_append.IH by blast+
  have order: "in_order w db'"
    using chrono_append.IH [of w] chrono_append.hyps(2,3) r(1-3) by (auto simp: in_order_def sorted_append)
  have "prev_text (if ?rows = [] then '''' else se_chain_hash (last ?rows)) = se.head ''GENESIS'' ?rows"
  proof (cases "?rows = []")
    case False
    with c obtain xs x where x: "?rows = xs @ [x]" "event_linked sha (se.head ''GENESIS'' xs) x"
      by (cases ?rows rule: rev_cases) (auto simp: wallet_chain_def se.chain_snoc)
    then have "se_chain_hash x \<noteq> ''''" using assms(2) by (simp add: event_linked_def)
    with x show ?thesis by (simp add: prev_text_def)
  qed (simp add: prev_text_def)
  then have "event_linked sha (se.head ''GENESIS'' ?rows) r"
    using r(4) latest_hash_head [OF o] by (simp add: compute_chain_hash_eq event_linked_def)
  with c r(1,2) chrono_append.IH [of w] order show ?case
    by (auto simp: wallet_chain_def se.chain_snoc)
qed

text \<open>Appends in time order always leave a history that verifies: for every wallet with events the verdict is
  valid, for the others that there are none, and never that something was tampered with.\<close>

theorem chronological_history_verifies:
  assumes "chrono_run sha m db" "\<And>m. sha m \<noteq> ''''"
  shows "cv_status (verify sha w db) = (if filter (\<lambda>r. se_wallet r = w) db = [] then No_events else Valid)"
proof -
  note c = chrono_run_chain [OF assms, of w]
  let ?rows = "filter (\<lambda>r. se_wallet r = w) db"
  have rp: "replay w None 1000 db = take 1000 ?rows" using in_order_rows(2) c by blast
  show ?thesis
  proof (cases "?rows = []")
    case True
    then show ?thesis by (simp add: verify_def Let_def rp)
  next
    case False
    have "se.chain sha ''GENESIS'' (take 1000 ?rows @ drop 1000 ?rows)" using c by (simp add: wallet_chain_def)
    then have "se.chain sha ''GENESIS'' (take 1000 ?rows)" by (rule se.chain_prefix)
    with False rp verify_valid [OF assms(2)] show ?thesis by simp
  qed
qed

lemma sort_key_snoc_least:
  fixes k :: "'b \<Rightarrow> 'c :: linorder"
  shows "(\<And>a. a \<in> set xs \<Longrightarrow> k x < k a) \<Longrightarrow> sort_key k (xs @ [x]) = x # sort_key k xs"
proof (induction xs)
  case (Cons a xs)
  then have "\<not> k a \<le> k x" by (simp add: not_le)
  with Cons show ?case by simp
qed simp
text \<open>An honest event that arrives late breaks the verdict. When an event is appended whose time lies before all
  the wallet's events, it is chained after the latest one, but verification walks by time: the next check reports
  tampering at that very event, although nothing was changed. Assumed of the hash: no collisions, and a digest is
  never the word GENESIS nor empty.\<close>

theorem late_event_reported_as_tampering:
  assumes "chrono_run sha m db" "\<And>m. sha m \<noteq> ''''" "\<And>m. sha m \<noteq> ''GENESIS''" "inj sha"
    "filter (\<lambda>r. se_wallet r = se_wallet e) db \<noteq> []" "read_time (se_occurred_at e) = se_occurred_at e"
    "\<And>r. r \<in> set db \<Longrightarrow> se_wallet r = se_wallet e \<Longrightarrow> se_occurred_at e < se_occurred_at r"
    "features_ok (se_feature_snapshot e)" "store_append sha m e db = Inr db'"
  shows "cv_status (verify sha (se_wallet e) db') = Tampered \<and>
    cv_first_tampered (verify sha (se_wallet e) db') = Some (se_event_id e)"
proof -
  let ?w = "se_wallet e"
  let ?rows = "filter (\<lambda>r. se_wallet r = ?w) db"
  from assms(9) obtain r where r: "db' = db @ [r]" "se_wallet r = ?w" "se_occurred_at r = se_occurred_at e"
    "se_event_id r = se_event_id e" "se_feature_snapshot r = sort_key fst (take m (se_feature_snapshot e))"
    "se_chain_hash r = compute_chain_hash sha (case get_latest_event ?w db of None \<Rightarrow> '''' | Some r \<Rightarrow> se_chain_hash r) r"
    by (rule store_append_row)
  note c = chrono_run_chain [OF assms(1,2), of ?w]
  have o: "in_order ?w db" using c by blast
  obtain xs x where x: "?rows = xs @ [x]" "event_linked sha (se.head ''GENESIS'' xs) x"
    using c assms(5) by (cases ?rows rule: rev_cases) (auto simp: wallet_chain_def se.chain_snoc)
  then have hx: "se_chain_hash x \<noteq> ''''" "se_chain_hash x \<noteq> ''GENESIS''"
    using assms(2,3) by (simp_all add: event_linked_def)
  then have rh: "se_chain_hash r = sha (event_message (se_chain_hash x) (event_payload r))"
    using r(6) latest_hash_head [OF o] x(1) by (simp add: compute_chain_hash_eq prev_text_def)
  have ok: "features_ok (se_feature_snapshot r)"
    using assms(8) r(5) by (auto simp: features_ok_def dest!: in_set_takeD)
  have ne: "compute_chain_hash sha '''' r \<noteq> se_chain_hash r"
  proof
    assume "compute_chain_hash sha '''' r = se_chain_hash r"
    then have "event_message ''GENESIS'' (event_payload r) = event_message (se_chain_hash x) (event_payload r)"
      using assms(4) rh by (simp add: compute_chain_hash_eq prev_text_def inj_eq)
    then show False
      using hx(2) ok by (auto simp: event_message_def event_payload_def dest!: chain_message_inj)
  qed
  have "sort_key se_occurred_at (?rows @ [r]) = r # sort_key se_occurred_at ?rows"
    using r(3) assms(7) by (intro sort_key_snoc_least) auto
  then have "wallet_rows ?w db' = r # sort_key se_occurred_at ?rows"
    unfolding wallet_rows_def r(1) filter_append using r(2) by simp
  then have "replay ?w None 1000 db' = r # map from_row (take 999 (sort_key se_occurred_at ?rows))"
    using r(3) assms(6) by (simp add: replay_def sql_limit_def from_row_def)
  with ne r(4) show ?thesis by (simp add: verify_def Let_def)
qed

text \<open>The chain hash leaves out the context of a decision. Rewriting the namespace, the previous score, the model
  version, the trigger or the actor of any stored events changes no verdict of the verifier.\<close>

theorem decision_context_unprotected:
  assumes "\<And>r. se_event_id (f r) = se_event_id r \<and> se_wallet (f r) = se_wallet r \<and> se_score (f r) = se_score r \<and>
      se_feature_snapshot (f r) = se_feature_snapshot r \<and> se_occurred_at (f r) = se_occurred_at r \<and>
      se_chain_hash (f r) = se_chain_hash r"
  shows "verify sha w (map f db) = verify sha w db"
proof -
  have rows: "wallet_rows w (map f db) = map f (wallet_rows w db)"
    using assms by (simp add: wallet_rows_def sort_key_map filter_map comp_def)
  have rp: "replay w None 1000 (map f db) = map (from_row \<circ> f) (sql_limit 1000 (wallet_rows w db))"
    by (simp add: replay_def rows sql_limit_def take_map)
  have fm: "first_mismatch sha p (map (from_row \<circ> f) rs) = first_mismatch sha p (map from_row rs)" for p rs
    using assms by (induction rs arbitrary: p) (simp_all add: compute_chain_hash_def from_row_def)
  have rp': "replay w None 1000 db = map from_row (sql_limit 1000 (wallet_rows w db))"
    by (simp add: replay_def)
  show ?thesis
    unfolding verify_def Let_def rp rp' fm by (simp split: option.split)
qed

text \<open>Only the first thousand events of a wallet are checked: whatever is stored after them, the verdict is the
  same, so a change to a later event is never reported.\<close>

theorem verification_stops_at_1000:
  assumes "wallet_rows w db = rows @ later" "wallet_rows w db' = rows @ later'" "1000 \<le> length rows"
  shows "verify sha w db = verify sha w db' \<and> cv_total_events (verify sha w db) = 1000"
proof -
  have "replay w None 1000 d = map from_row (take 1000 rows)" if "wallet_rows w d = rows @ ls" for d ls
    using that assms(3) by (simp add: replay_def sql_limit_def)
  then show ?thesis using assms by (auto simp: verify_def Let_def split: option.split)
qed

text \<open>The signature is not a column of the table, so an event read back from the store fails verification.\<close>

lemma stored_event_unsigned:
  "store_append sha m e db = Inr db' \<Longrightarrow> verify_signature hmac secret (from_row (last db')) = Inr False"
  by (auto simp: store_append_def insert_row_def Let_def verify_signature_def from_row_def split: if_splits)

subsection \<open>Concrete events\<close>

definition demo_sha :: sha_fn where
  "demo_sha m = CHR ''#'' # m"

definition demo_event :: "string \<Rightarrow> string \<Rightarrow> scoring_event" where
  "demo_event uid time =
     \<lparr>se_event_id = uid, se_wallet = ''GA'', se_namespace_id = ''default'', se_score = 70, se_previous_score = None,
      se_feature_snapshot = [(''f'', ''0.5'')], se_model_version = ''v1'', se_triggered_by = ''ingestion'',
      se_actor_id = None, se_chain_hash = '''', se_occurred_at = time, se_signature = ''''\<rparr>"

definition noon :: string where "noon = ''2026-01-01T12:00:00+00:00''"
definition morning :: string where "morning = ''2026-01-01T08:00:00+00:00''"

definition demo_store :: "scoring_event list" where
  "demo_store = [(demo_event ''e1'' noon)\<lparr>se_chain_hash := compute_chain_hash demo_sha '''' (demo_event ''e1'' noon)\<rparr>]"

lemma demo_times: "read_time noon = noon" "read_time morning = morning" "morning < noon"
  by (simp_all add: noon_def morning_def read_time_def)

lemma demo_sha_props: "demo_sha m \<noteq> ''''" "demo_sha m \<noteq> ''GENESIS''" "inj demo_sha"
  by (simp_all add: demo_sha_def inj_def)

lemma demo_features_ok: "features_ok (se_feature_snapshot (demo_event uid time))"
  by (simp add: features_ok_def demo_event_def num_ok_def)

lemma demo_first_append: "store_append demo_sha 50 (demo_event ''e1'' noon) [] = Inr demo_store"
  by (simp add: store_append_def insert_row_def Let_def demo_store_def demo_event_def VALID_TRIGGERED_BY_def
      get_latest_event_def wallet_rows_def compute_chain_hash_def)

lemma demo_chrono: "chrono_run demo_sha 50 demo_store"
  by (rule chrono_append [OF chrono_start _ _ demo_first_append]) (simp_all add: demo_event_def demo_times)

theorem chronological_history_verifies_witness: "cv_status (verify demo_sha ''GA'' demo_store) = Valid"
  using chronological_history_verifies [OF demo_chrono demo_sha_props(1), of "''GA''"]
  by (simp add: demo_store_def demo_event_def)

lemma demo_late_append:
  "\<exists>db'. store_append demo_sha 50 (demo_event ''e0'' morning) demo_store = Inr db'"
proof -
  have "compute_chain_hash demo_sha p (demo_event ''e0'' morning) \<noteq> compute_chain_hash demo_sha q (demo_event ''e1'' noon)" for p q
    using demo_features_ok [of "''e0''" morning] demo_features_ok [of "''e1''" noon]
    by (auto simp: compute_chain_hash_def demo_sha_def dest!: chain_message_inj) (simp_all add: demo_event_def)
  then show ?thesis
    by (simp add: store_append_def insert_row_def Let_def demo_store_def) (simp add: demo_event_def VALID_TRIGGERED_BY_def)
qed

theorem late_event_reported_as_tampering_witness:
  "\<exists>db'. store_append demo_sha 50 (demo_event ''e0'' morning) demo_store = Inr db' \<and>
     cv_status (verify demo_sha ''GA'' db') = Tampered \<and> cv_first_tampered (verify demo_sha ''GA'' db') = Some ''e0''"
proof -
  from demo_late_append obtain db' where db': "store_append demo_sha 50 (demo_event ''e0'' morning) demo_store = Inr db'" ..
  have e: "se_wallet (demo_event ''e0'' morning) = ''GA''" "se_event_id (demo_event ''e0'' morning) = ''e0''"
    "se_occurred_at (demo_event ''e0'' morning) = morning" by (simp_all add: demo_event_def)
  have "cv_status (verify demo_sha ''GA'' db') = Tampered \<and> cv_first_tampered (verify demo_sha ''GA'' db') = Some ''e0''"
    by (rule late_event_reported_as_tampering [OF demo_chrono demo_sha_props _ _ _ demo_features_ok db', unfolded e])
      (auto simp: demo_store_def demo_event_def demo_times)
  with db' show ?thesis by blast
qed

theorem decision_context_unprotected_witness:
  "verify demo_sha ''GA'' (map (\<lambda>r. r\<lparr>se_model_version := ''forged'', se_actor_id := Some ''mallory''\<rparr>) demo_store) =
   verify demo_sha ''GA'' demo_store"
  by (rule decision_context_unprotected) simp

theorem verification_stops_at_1000_witness:
  "verify demo_sha ''GA'' (replicate 1000 (demo_event ''e1'' morning) @ [demo_event ''e2'' noon]) =
   verify demo_sha ''GA'' (replicate 1000 (demo_event ''e1'' morning) @ [demo_event ''forged'' noon])"
proof -
  have "wallet_rows ''GA'' (replicate 1000 (demo_event ''e1'' morning) @ [demo_event u noon]) =
      replicate 1000 (demo_event ''e1'' morning) @ [demo_event u noon]" for u
  proof -
    have "sorted (map se_occurred_at (replicate 1000 (demo_event ''e1'' morning) @ [demo_event u noon]))"
      using demo_times(3) by (simp add: sorted_append demo_event_def less_imp_le)
    then show ?thesis by (simp add: wallet_rows_def filter_replicate demo_event_def sort_key_id_if_sorted)
  qed
  from verification_stops_at_1000 [OF this this] show ?thesis by simp
qed

definition demo_signed :: scoring_event where
  "demo_signed = (demo_event ''e1'' noon)\<lparr>se_signature := demo_hmac ''kkkkkkkk'' (signing_payload (demo_event ''e1'' noon))\<rparr>"

lemma demo_signed_ok: "verify_signature demo_hmac (Inr ''kkkkkkkk'') demo_signed = Inr True"
  "features_ok (se_feature_snapshot demo_signed)"
proof -
  have "signing_payload demo_signed = signing_payload (demo_event ''e1'' noon)"
    by (simp add: signing_payload_def signing_items_def demo_signed_def)
  then show "verify_signature demo_hmac (Inr ''kkkkkkkk'') demo_signed = Inr True"
    by (simp add: verify_signature_def compute_signature_def) (simp add: demo_signed_def demo_hmac_def)
qed (use demo_features_ok in \<open>simp add: demo_signed_def\<close>)

theorem ingest_requires_custody_signature_witness:
  "\<exists>t' res. ingest_scoring_event demo_hmac (Inr ''kkkkkkkk'') ''t0'' ''t1'' demo_signed demo_log = (t', res) \<and>
     res \<noteq> Inl Invalid_event_signature \<and> se_signature demo_signed = demo_hmac ''kkkkkkkk'' (signing_payload demo_signed)"
proof -
  obtain t' res where i: "ingest_scoring_event demo_hmac (Inr ''kkkkkkkk'') ''t0'' ''t1'' demo_signed demo_log = (t', res)"
    by fastforce
  have "res \<noteq> Inl Invalid_event_signature"
    using i by (auto simp: ingest_scoring_event_def demo_signed_ok(1) Let_def split: prod.splits sum.splits)
  with ingest_requires_custody_signature [OF i demo_signed_ok(2) demo_signed_ok(1) refl demo_signed_ok(2)] i
  show ?thesis by blast
qed

end
