(* ===== verification/Secure_Agg.thy ===== *)
theory Secure_Agg
  imports LL_Prelude "HOL-Library.Word" "HOL-Library.Multiset"
begin

text \<open>
  \<open>detection/federated/secure_agg.py\<close>: secure aggregation by pairwise masks over \<open>Z/2^64\<close>. Ring elements are
  \<open>64 word\<close>, so addition wraps as in numpy. X25519 (\<open>pub\<close>, \<open>dh\<close>) and the expansion of a shared secret
  into a mask (\<open>expand\<close>: HKDF and the seeded generator) come from packages and are arguments; what the code relies
  on is \<open>key_agreement\<close> and \<open>mask_length\<close>. Floats are exact rationals; \<open>encode\<close> agrees with numpy for scaled
  values that fit into 64 bits.
\<close>

definition MIN_PARTICIPANTS :: nat where "MIN_PARTICIPANTS = 3"
definition FRAC_BITS :: nat where "FRAC_BITS = 24"

definition scaled :: "rat \<Rightarrow> int" where
  "scaled x = round_half_even (x * 2 ^ FRAC_BITS)"

definition encode :: "rat list \<Rightarrow> 64 word list" where
  "encode update = map (\<lambda>x. of_int (scaled x)) update"

definition decode :: "64 word list \<Rightarrow> rat list" where
  "decode encoded = map (\<lambda>w. of_int (sint w) / 2 ^ FRAC_BITS) encoded"

record 'sk participant =
  sp_id :: string
  sp_private_key :: 'sk

type_synonym ('sk, 'pk, 'ss) dh_fn = "'sk \<Rightarrow> 'pk \<Rightarrow> 'ss"
type_synonym 'ss expand_fn = "'ss \<Rightarrow> string \<Rightarrow> nat \<Rightarrow> 64 word list"

definition pair_mask :: "'ss expand_fn \<Rightarrow> 'ss \<Rightarrow> string \<Rightarrow> nat \<Rightarrow> 64 word list" where
  "pair_mask expand secret round_id len = expand secret (''ledgerlens-secagg:'' @ round_id) len"

definition mask_step ::
    "('sk, 'pk, 'ss) dh_fn \<Rightarrow> 'ss expand_fn \<Rightarrow> 'sk participant \<Rightarrow> string \<Rightarrow> 64 word list \<Rightarrow> string \<times> 'pk \<Rightarrow> 64 word list" where
  "mask_step dh expand p round_id masked peer =
     (case peer of (peer_id, peer_key) \<Rightarrow>
        if peer_id = sp_id p then masked
        else
          let mask = pair_mask expand (dh (sp_private_key p) peer_key) round_id (length masked) in
          if sp_id p < peer_id then map2 (+) masked mask else map2 (-) masked mask)"

definition mask_update ::
    "('sk, 'pk, 'ss) dh_fn \<Rightarrow> 'ss expand_fn \<Rightarrow> 'sk participant \<Rightarrow> rat list \<Rightarrow> (string \<times> 'pk) list \<Rightarrow> string \<Rightarrow> 64 word list" where
  "mask_update dh expand p update public_keys round_id =
     foldl (mask_step dh expand p round_id) (encode update) public_keys"

subsection \<open>The coordinator\<close>

record aggregator =
  sa_expected :: "string list"
  sa_reported :: "string list"
  sa_running_sum :: "64 word list option"

datatype agg_error = Too_few_participants | Unexpected_participant string | Already_reported string
  | Shape_mismatch | Missing_participants "string list"

definition new_aggregator :: "string list \<Rightarrow> agg_error + aggregator" where
  "new_aggregator expected =
     (if length (remdups expected) < MIN_PARTICIPANTS then Inl Too_few_participants
      else Inr \<lparr>sa_expected = remdups expected, sa_reported = [], sa_running_sum = None\<rparr>)"

definition submit :: "string \<Rightarrow> 64 word list \<Rightarrow> aggregator \<Rightarrow> agg_error + aggregator" where
  "submit pid masked a =
     (if pid \<notin> set (sa_expected a) then Inl (Unexpected_participant pid)
      else if pid \<in> set (sa_reported a) then Inl (Already_reported pid)
      else case sa_running_sum a of
          None \<Rightarrow> Inr (a\<lparr>sa_running_sum := Some masked, sa_reported := pid # sa_reported a\<rparr>)
        | Some s \<Rightarrow>
            if length masked \<noteq> length s then Inl Shape_mismatch
            else Inr (a\<lparr>sa_running_sum := Some (map2 (+) s masked), sa_reported := pid # sa_reported a\<rparr>))"

definition aggregate :: "aggregator \<Rightarrow> agg_error + rat list" where
  "aggregate a =
     (let missing = filter (\<lambda>p. p \<notin> set (sa_reported a)) (sa_expected a) in
      if missing \<noteq> [] then Inl (Missing_participants (sort missing))
      else case sa_running_sum a of None \<Rightarrow> Inr [] | Some s \<Rightarrow> Inr (decode s))"

fun submit_all :: "(string \<times> 64 word list) list \<Rightarrow> aggregator \<Rightarrow> agg_error + aggregator" where
  "submit_all [] a = Inr a"
| "submit_all ((pid, masked) # rest) a =
     (case submit pid masked a of Inl e \<Rightarrow> Inl e | Inr a' \<Rightarrow> submit_all rest a')"

subsection \<open>What the packages promise\<close>

definition key_agreement :: "('sk \<Rightarrow> 'pk) \<Rightarrow> ('sk, 'pk, 'ss) dh_fn \<Rightarrow> bool" where
  "key_agreement pub dh \<longleftrightarrow> (\<forall>a b. dh a (pub b) = dh b (pub a))"

definition mask_length :: "'ss expand_fn \<Rightarrow> bool" where
  "mask_length expand \<longleftrightarrow> (\<forall>s i n. length (expand s i n) = n)"

subsection \<open>Cancellation\<close>

text \<open>Signed pair masks cancel over any finite set of participants; in \<open>Z/2^64\<close> this needs the pairs to cancel
  one by one, since a sum equal to its negation need not be zero.\<close>

lemma antisymmetric_sum_zero:
  fixes f :: "'a \<Rightarrow> 'a \<Rightarrow> 'r :: ab_group_add"
  assumes "finite A" "\<And>i k. i \<in> A \<Longrightarrow> k \<in> A \<Longrightarrow> f i k + f k i = 0" "\<And>i. i \<in> A \<Longrightarrow> f i i = 0"
  shows "(\<Sum>i\<in>A. \<Sum>k\<in>A. f i k) = 0"
  using assms
proof (induction A rule: finite_induct)
  case (insert a A)
  have "(\<Sum>i\<in>insert a A. \<Sum>k\<in>insert a A. f i k) =
      f a a + (\<Sum>k\<in>A. f a k + f k a) + (\<Sum>i\<in>A. \<Sum>k\<in>A. f i k)"
    using insert.hyps by (simp add: sum.distrib algebra_simps)
  also have "(\<Sum>k\<in>A. f a k + f k a) = 0" using insert.prems(1) by (intro sum.neutral) simp
  also have "(\<Sum>i\<in>A. \<Sum>k\<in>A. f i k) = 0" using insert.prems by (intro insert.IH) simp_all
  finally show ?case using insert.prems(2) by simp
qed simp

definition pair_term ::
    "('sk, 'pk, 'ss) dh_fn \<Rightarrow> 'ss expand_fn \<Rightarrow> 'sk participant \<Rightarrow> string \<Rightarrow> nat \<Rightarrow> nat \<Rightarrow> string \<times> 'pk \<Rightarrow> 64 word" where
  "pair_term dh expand p round_id n j peer =
     (if fst peer = sp_id p then 0
      else
        let m = pair_mask expand (dh (sp_private_key p) (snd peer)) round_id n ! j in
        if sp_id p < fst peer then m else - m)"

lemma mask_step_nth:
  assumes "mask_length expand" "j < length masked"
  shows "mask_step dh expand p round_id masked peer ! j = masked ! j + pair_term dh expand p round_id (length masked) j peer"
    and "length (mask_step dh expand p round_id masked peer) = length masked"
  using assms by (auto simp: mask_step_def pair_term_def pair_mask_def mask_length_def Let_def split: prod.split)

lemma length_mask_step: "mask_length expand \<Longrightarrow> length (mask_step dh expand p round_id masked peer) = length masked"
  by (auto simp: mask_step_def pair_mask_def mask_length_def Let_def split: prod.split)

lemma mask_fold_nth:
  assumes "mask_length expand" "j < length v"
  shows "foldl (mask_step dh expand p round_id) v peers ! j =
      v ! j + (\<Sum>peer\<leftarrow>peers. pair_term dh expand p round_id (length v) j peer)"
    and "length (foldl (mask_step dh expand p round_id) v peers) = length v"
proof -
  show "foldl (mask_step dh expand p round_id) v peers ! j =
      v ! j + (\<Sum>peer\<leftarrow>peers. pair_term dh expand p round_id (length v) j peer)"
    using assms(2)
  proof (induction peers arbitrary: v)
    case (Cons peer peers)
    then show ?case
      using mask_step_nth [OF assms(1), of j v] by (simp add: length_mask_step [OF assms(1)] add.assoc)
  qed simp
  show "length (foldl (mask_step dh expand p round_id) v peers) = length v"
    by (induction peers arbitrary: v) (simp_all add: length_mask_step [OF assms(1)])
qed

lemma length_mask_fold: "mask_length expand \<Longrightarrow> length (foldl (mask_step dh expand p round_id) v peers) = length v"
  by (induction peers arbitrary: v) (simp_all add: length_mask_step)

definition public_key :: "('sk \<Rightarrow> 'pk) \<Rightarrow> 'sk participant \<Rightarrow> string \<times> 'pk" where
  "public_key pub p = (sp_id p, pub (sp_private_key p))"

lemma pair_terms_cancel:
  assumes "key_agreement pub dh" "distinct (map sp_id ps)" "mset pks = mset (map (public_key pub) ps)"
  shows "(\<Sum>p\<leftarrow>ps. \<Sum>peer\<leftarrow>pks. pair_term dh expand p round_id n j peer) = 0"
proof -
  let ?f = "\<lambda>p q. pair_term dh expand p round_id n j (public_key pub q)"
  have d: "distinct ps" and inj: "inj_on sp_id (set ps)" using assms(2) by (simp_all add: distinct_map)
  have "(\<Sum>peer\<leftarrow>pks. pair_term dh expand p round_id n j peer) = (\<Sum>q\<in>set ps. ?f p q)" for p
  proof -
    have "mset (map (pair_term dh expand p round_id n j) pks) =
        mset (map (pair_term dh expand p round_id n j) (map (public_key pub) ps))"
      using assms(3) by (metis mset_map)
    then have "(\<Sum>peer\<leftarrow>pks. pair_term dh expand p round_id n j peer) = (\<Sum>q\<leftarrow>ps. ?f p q)"
      by (metis (no_types, lifting) list.map_comp comp_def map_cong sum_mset_sum_list)
    then show ?thesis using d by (simp add: sum_list_distinct_conv_sum_set)
  qed
  then have "(\<Sum>p\<leftarrow>ps. \<Sum>peer\<leftarrow>pks. pair_term dh expand p round_id n j peer) = (\<Sum>p\<in>set ps. \<Sum>q\<in>set ps. ?f p q)"
    using d by (simp add: sum_list_distinct_conv_sum_set)
  also have "\<dots> = 0"
  proof (rule antisymmetric_sum_zero)
    fix p q assume pq: "p \<in> set ps" "q \<in> set ps"
    show "?f p q + ?f q p = 0"
    proof (cases "p = q")
      case False
      then have "sp_id p \<noteq> sp_id q" using inj pq by (auto dest: inj_onD)
      moreover have "dh (sp_private_key p) (pub (sp_private_key q)) = dh (sp_private_key q) (pub (sp_private_key p))"
        using assms(1) by (simp add: key_agreement_def)
      ultimately show ?thesis by (auto simp: pair_term_def public_key_def Let_def)
    qed (simp add: pair_term_def public_key_def)
  qed (simp_all add: pair_term_def public_key_def)
  finally show ?thesis .
qed

lemma submit_fresh:
  assumes "pid \<in> set (sa_expected a)" "pid \<notin> set (sa_reported a)" "length masked = n"
    "\<And>s. sa_running_sum a = Some s \<Longrightarrow> length s = n"
  shows "\<exists>a'. submit pid masked a = Inr a' \<and> sa_expected a' = sa_expected a \<and> sa_reported a' = pid # sa_reported a \<and>
    (\<exists>s'. sa_running_sum a' = Some s' \<and> length s' = n \<and>
      (\<forall>j < n. s' ! j = (case sa_running_sum a of None \<Rightarrow> 0 | Some s \<Rightarrow> s ! j) + masked ! j))"
  using assms by (cases "sa_running_sum a") (auto simp: submit_def)

lemma submit_all_sum:
  assumes "distinct (map fst subs)" "\<And>x. x \<in> set subs \<Longrightarrow> fst x \<in> set (sa_expected a) \<and> fst x \<notin> set (sa_reported a) \<and> length (snd x) = n"
    "\<And>s. sa_running_sum a = Some s \<Longrightarrow> length s = n" "subs \<noteq> []"
  shows "\<exists>a' s. submit_all subs a = Inr a' \<and> sa_expected a' = sa_expected a \<and>
    set (sa_reported a') = fst ` set subs \<union> set (sa_reported a) \<and> sa_running_sum a' = Some s \<and> length s = n \<and>
    (\<forall>j < n. s ! j = (case sa_running_sum a of None \<Rightarrow> 0 | Some s \<Rightarrow> s ! j) + (\<Sum>x\<leftarrow>subs. snd x ! j))"
  using assms
proof (induction subs arbitrary: a)
  case (Cons x subs)
  obtain pid masked where x: "x = (pid, masked)" by (cases x)
  have "pid \<in> set (sa_expected a)" "pid \<notin> set (sa_reported a)" "length masked = n"
    using Cons.prems(2) [of x] x by simp_all
  from submit_fresh [OF this Cons.prems(3)] obtain a1 s1 where a1: "submit pid masked a = Inr a1" "sa_expected a1 = sa_expected a"
    "sa_reported a1 = pid # sa_reported a" "sa_running_sum a1 = Some s1" "length s1 = n"
    "\<forall>j < n. s1 ! j = (case sa_running_sum a of None \<Rightarrow> 0 | Some s \<Rightarrow> s ! j) + masked ! j"
    by auto
  show ?case
  proof (cases "subs = []")
    case True
    with a1 x show ?thesis by auto
  next
    case False
    have pre: "fst y \<in> set (sa_expected a1) \<and> fst y \<notin> set (sa_reported a1) \<and> length (snd y) = n" if "y \<in> set subs" for y
      using Cons.prems(1,2) that x a1 by auto
    from Cons.prems(1) have "distinct (map fst subs)" by simp
    from Cons.IH [OF this pre _ False] a1(4,5) obtain a' s where a': "submit_all subs a1 = Inr a'"
      "sa_expected a' = sa_expected a1" "set (sa_reported a') = fst ` set subs \<union> set (sa_reported a1)"
      "sa_running_sum a' = Some s" "length s = n" "\<forall>j < n. s ! j = s1 ! j + (\<Sum>x\<leftarrow>subs. snd x ! j)"
      by auto
    with a1 x show ?thesis by (auto simp: add.assoc)
  qed
qed simp

lemma sint_of_int_in_range:
  assumes "- (2 ^ 63) \<le> z" "z < 2 ^ 63"
  shows "sint (of_int z :: 64 word) = z"
  using assms by (simp only: sint_sbintrunc') (simp add: signed_take_bit_int_eq_self)

lemma of_int_sum_list: "of_int (\<Sum>x\<leftarrow>xs. f x) = (\<Sum>x\<leftarrow>xs. of_int (f x))"
  by (induction xs) simp_all

definition submission ::
    "('sk, 'pk, 'ss) dh_fn \<Rightarrow> 'ss expand_fn \<Rightarrow> (string \<times> 'pk) list \<Rightarrow> string \<Rightarrow> 'sk participant \<times> rat list \<Rightarrow> string \<times> 64 word list" where
  "submission dh expand pks round_id part =
     (sp_id (fst part), mask_update dh expand (fst part) (snd part) pks round_id)"

lemma length_mask_update: "mask_length expand \<Longrightarrow> length (mask_update dh expand p u pks round_id) = length u"
  by (simp add: mask_update_def length_mask_fold) (simp add: encode_def)

lemma submission_nth:
  assumes "mask_length expand" "j < length (snd part)"
  shows "snd (submission dh expand pks round_id part) ! j =
    of_int (scaled (snd part ! j)) + (\<Sum>peer\<leftarrow>pks. pair_term dh expand (fst part) round_id (length (snd part)) j peer)"
  using mask_fold_nth(1) [OF assms(1), of j "encode (snd part)" dh "fst part" round_id pks] assms(2)
  by (simp add: submission_def mask_update_def encode_def)

lemma submissions_sum:
  assumes "key_agreement pub dh" "mask_length expand" "distinct (map (sp_id \<circ> fst) parts)"
    "\<And>part. part \<in> set parts \<Longrightarrow> length (snd part) = n" "mset pks = mset (map (public_key pub \<circ> fst) parts)" "j < n"
  shows "(\<Sum>x\<leftarrow>map (submission dh expand pks round_id) parts. snd x ! j) = of_int (\<Sum>x\<leftarrow>parts. scaled (snd x ! j))"
proof -
  have "(\<Sum>x\<leftarrow>map (submission dh expand pks round_id) parts. snd x ! j) =
      (\<Sum>x\<leftarrow>parts. of_int (scaled (snd x ! j)) + (\<Sum>peer\<leftarrow>pks. pair_term dh expand (fst x) round_id n j peer))"
    using assms(4,6) submission_nth [OF assms(2), of j _ dh pks round_id]
    by (simp only: list.map_comp) (intro arg_cong [where f = sum_list], simp)
  also have "\<dots> = (\<Sum>x\<leftarrow>parts. of_int (scaled (snd x ! j))) +
      (\<Sum>p\<leftarrow>map fst parts. \<Sum>peer\<leftarrow>pks. pair_term dh expand p round_id n j peer)"
    by (simp add: sum_list_addf comp_def)
  also have "(\<Sum>p\<leftarrow>map fst parts. \<Sum>peer\<leftarrow>pks. pair_term dh expand p round_id n j peer) = 0"
    using assms(1,3,5) by (intro pair_terms_cancel) (simp_all add: comp_def)
  finally show ?thesis by (simp add: of_int_sum_list)
qed

text \<open>C16: secure aggregation refines plain addition. For any number of participants from three on, any order of the
  public keys and of the submissions, and any masks: if the key agreement is symmetric and the masks have the right
  length, the coordinator accepts every masked update and its result is, coordinate by coordinate, the sum of the
  fixed-point updates and nothing else, as long as that sum fits into 64 bits. Assumed: what X25519 and the mask
  expansion promise.\<close>

theorem secure_aggregate_is_sum:
  assumes "key_agreement pub dh" "mask_length expand"
    "distinct (map (sp_id \<circ> fst) parts)" "\<And>part. part \<in> set parts \<Longrightarrow> length (snd part) = n"
    "mset pks = mset (map (public_key pub \<circ> fst) parts)"
    "set expected = sp_id ` fst ` set parts" "new_aggregator expected = Inr a"
    "\<And>j. j < n \<Longrightarrow> - (2 ^ 63) \<le> (\<Sum>x\<leftarrow>parts. scaled (snd x ! j)) \<and> (\<Sum>x\<leftarrow>parts. scaled (snd x ! j)) < 2 ^ 63"
  shows "\<exists>a'. submit_all (map (submission dh expand pks round_id) parts) a = Inr a' \<and>
    aggregate a' = Inr (map (\<lambda>j. of_int (\<Sum>x\<leftarrow>parts. scaled (snd x ! j)) / 2 ^ FRAC_BITS) [0..<n])"
proof -
  let ?subs = "map (submission dh expand pks round_id) parts"
  have a: "sa_expected a = remdups expected" "sa_reported a = []" "sa_running_sum a = None" "parts \<noteq> []"
    using assms(6,7) by (auto simp: new_aggregator_def MIN_PARTICIPANTS_def split: if_splits)
  have ids: "map fst ?subs = map (sp_id \<circ> fst) parts" by (simp add: submission_def)
  have pre: "fst x \<in> set (sa_expected a) \<and> fst x \<notin> set (sa_reported a) \<and> length (snd x) = n" if "x \<in> set ?subs" for x
  proof -
    from that obtain part where part: "part \<in> set parts" "x = submission dh expand pks round_id part" by auto
    then have "sp_id (fst part) \<in> sp_id ` fst ` set parts" by (intro imageI)
    with part assms(4,6) a show ?thesis by (simp add: submission_def length_mask_update [OF assms(2)])
  qed
  have "distinct (map fst ?subs)" using assms(3) unfolding ids .
  from submit_all_sum [OF this pre] a obtain a' s where a': "submit_all ?subs a = Inr a'" "sa_expected a' = sa_expected a"
    "set (sa_reported a') = fst ` set ?subs" "sa_running_sum a' = Some s" "length s = n"
    "\<forall>j < n. s ! j = (\<Sum>x\<leftarrow>?subs. snd x ! j)"
    by (auto simp del: set_map)
  have "fst ` set ?subs = set expected" unfolding assms(6) by (force simp: submission_def)
  then have reported: "filter (\<lambda>p. p \<notin> set (sa_reported a')) (sa_expected a') = []" using a(1) a' by (simp add: filter_empty_conv)
  have s: "s ! j = of_int (\<Sum>x\<leftarrow>parts. scaled (snd x ! j))" if "j < n" for j
    using a'(6) submissions_sum [OF assms(1-5) that] that by metis
  have "decode s = map (\<lambda>j. of_int (\<Sum>x\<leftarrow>parts. scaled (snd x ! j)) / 2 ^ FRAC_BITS) [0..<n]"
    using a'(5) s assms(8)
    by (intro nth_equalityI) (simp_all add: decode_def sint_of_int_in_range del: of_int_sint)
  with reported a' show ?thesis by (simp add: aggregate_def)
qed
text \<open>Until every expected participant has reported, and each exactly once, there is no aggregate: a missing
  participant, a stranger, a second report and a vector of another length are refused, and a refused submission
  leaves the coordinator unchanged.\<close>

theorem aggregate_needs_everyone:
  assumes "new_aggregator expected = Inr a" "submit_all subs a = Inr a'"
  shows "((\<exists>r. aggregate a' = Inr r) \<longleftrightarrow> fst ` set subs = set expected) \<and> distinct (map fst subs)"
proof -
  have gen: "sa_expected b' = sa_expected b \<and> set (sa_reported b') = fst ` set subs \<union> set (sa_reported b) \<and>
      fst ` set subs \<subseteq> set (sa_expected b) \<and> distinct (map fst subs) \<and> fst ` set subs \<inter> set (sa_reported b) = {}"
    if "submit_all subs b = Inr b'" for subs b b'
    using that
  proof (induction subs arbitrary: b)
    case (Cons x subs)
    obtain pid m where x: "x = (pid, m)" by (cases x)
    from Cons.prems x obtain b1 where b1: "submit pid m b = Inr b1" "submit_all subs b1 = Inr b'"
      by (auto split: sum.splits)
    then have "pid \<in> set (sa_expected b)" "pid \<notin> set (sa_reported b)" "sa_expected b1 = sa_expected b"
      "sa_reported b1 = pid # sa_reported b"
      by (auto simp: submit_def split: if_splits option.splits)
    with Cons.IH [OF b1(2)] x show ?case by auto
  qed simp
  have a: "sa_expected a = remdups expected" "sa_reported a = []"
    using assms(1) by (auto simp: new_aggregator_def split: if_splits)
  note g = gen [OF assms(2), unfolded a]
  have "filter (\<lambda>p. p \<notin> set (sa_reported a')) (sa_expected a') = [] \<longleftrightarrow> set expected \<subseteq> fst ` set subs"
    using g a by (auto simp: filter_empty_conv)
  then show ?thesis
    using g by (auto simp: aggregate_def Let_def split: option.split)
qed

subsection \<open>A concrete round\<close>

definition toy_dh :: "(nat, nat, nat) dh_fn" where "toy_dh a b = a * b"
definition toy_expand :: "nat expand_fn" where "toy_expand s i n = replicate n (of_nat (s + 12345))"

definition toy_parts :: "(nat participant \<times> rat list) list" where
  "toy_parts = [(\<lparr>sp_id = ''b'', sp_private_key = 3\<rparr>, [1 / 2]), (\<lparr>sp_id = ''a'', sp_private_key = 5\<rparr>, [-2]),
     (\<lparr>sp_id = ''c'', sp_private_key = 7\<rparr>, [3])]"

definition toy_keys :: "(string \<times> nat) list" where
  "toy_keys = [(''a'', 5), (''b'', 3), (''c'', 7)]"

definition toy_aggregator :: aggregator where
  "toy_aggregator = \<lparr>sa_expected = [''a'', ''b'', ''c''], sa_reported = [], sa_running_sum = None\<rparr>"

lemma toy_new: "new_aggregator [''a'', ''b'', ''c''] = Inr toy_aggregator"
  by (simp add: new_aggregator_def MIN_PARTICIPANTS_def toy_aggregator_def)

lemma toy_scaled: "scaled (1 / 2) = 8388608" "scaled (-2) = -33554432" "scaled 3 = 50331648"
  using round_half_even_of_int [of 8388608] round_half_even_of_int [of "-33554432"] round_half_even_of_int [of 50331648]
  by (simp_all add: scaled_def FRAC_BITS_def)

theorem secure_aggregate_is_sum_witness:
  "\<exists>a'. submit_all (map (submission toy_dh toy_expand toy_keys ''r1'') toy_parts) toy_aggregator = Inr a' \<and>
    aggregate a' = Inr [3 / 2]"
proof -
  have sum: "(\<Sum>x\<leftarrow>toy_parts. scaled (snd x ! j)) = 25165824" if "j < 1" for j
    using that by (simp add: toy_parts_def toy_scaled)
  have "\<exists>a'. submit_all (map (submission toy_dh toy_expand toy_keys ''r1'') toy_parts) toy_aggregator = Inr a' \<and>
      aggregate a' = Inr (map (\<lambda>j. of_int (\<Sum>x\<leftarrow>toy_parts. scaled (snd x ! j)) / 2 ^ FRAC_BITS) [0..<1])"
    by (rule secure_aggregate_is_sum [where pub = id and expected = "[''a'', ''b'', ''c'']"])
      (auto simp: sum toy_new key_agreement_def mask_length_def toy_dh_def toy_expand_def toy_parts_def toy_keys_def public_key_def toy_scaled)
  moreover have "(25165824 :: rat) / 2 ^ FRAC_BITS = 3 / 2" by (simp add: FRAC_BITS_def)
  ultimately show ?thesis using sum [of 0] by simp
qed

theorem aggregate_needs_everyone_witness:
  "\<exists>a'. submit_all [(''a'', [1]), (''b'', [2])] toy_aggregator = Inr a' \<and> \<not> (\<exists>r. aggregate a' = Inr r)"
proof -
  have a': "submit_all [(''a'', [1]), (''b'', [2])] toy_aggregator =
      Inr (toy_aggregator\<lparr>sa_reported := [''b'', ''a''], sa_running_sum := Some [3]\<rparr>)"
    by (simp add: toy_aggregator_def submit_def)
  have "''c'' \<notin> fst ` set [(''a'', [1 :: 64 word]), (''b'', [2])]" by simp
  then have "fst ` set [(''a'', [1 :: 64 word]), (''b'', [2])] \<noteq> set [''a'', ''b'', ''c'']" by (metis list.set_intros)
  with aggregate_needs_everyone [OF toy_new a'] a' show ?thesis by blast
qed

end
