(* ===== verification/Admission.thy ===== *)
theory Admission
  imports LL_Prelude
begin

text \<open>
  \<open>detection/federated/admission.py\<close>: which participant identities an operator has admitted to the federated
  rounds, with the ceiling on the samples each may claim. The table
  \<open>federated_admitted_participants\<close> is the list of its rows; \<open>participant_id\<close> is its primary key.
\<close>

record admission_row =
  ad_participant :: string
  ad_max_n_samples :: int
  ad_admitted_at :: time
  ad_admitted_by :: string
  ad_revoked :: bool
  ad_revoked_at :: "time option"

record admission_record =
  ar_participant :: string
  ar_max_n_samples :: int
  ar_admitted_at :: time
  ar_admitted_by :: string
  ar_revoked :: bool

datatype admission_error = Ceiling_not_positive int | Empty_participant_id

definition record_of :: "admission_row \<Rightarrow> admission_record" where
  "record_of r = \<lparr>ar_participant = ad_participant r, ar_max_n_samples = ad_max_n_samples r,
     ar_admitted_at = ad_admitted_at r, ar_admitted_by = ad_admitted_by r, ar_revoked = ad_revoked r\<rparr>"

definition admit_upsert :: "string \<Rightarrow> int \<Rightarrow> string \<Rightarrow> time \<Rightarrow> admission_row list \<Rightarrow> admission_row list" where
  "admit_upsert pid mx by_whom now db =
     (if pid \<in> ad_participant ` set db
      then map (\<lambda>r. if ad_participant r = pid
             then r\<lparr>ad_max_n_samples := mx, ad_admitted_at := now, ad_admitted_by := by_whom,
                    ad_revoked := False, ad_revoked_at := None\<rparr>
             else r) db
      else db @ [\<lparr>ad_participant = pid, ad_max_n_samples = mx, ad_admitted_at = now, ad_admitted_by = by_whom,
                  ad_revoked = False, ad_revoked_at = None\<rparr>])"

definition admit_participant ::
    "string \<Rightarrow> int \<Rightarrow> string \<Rightarrow> time \<Rightarrow> admission_row list \<Rightarrow> admission_error + admission_record \<times> admission_row list" where
  "admit_participant pid mx by_whom now db =
     (if mx \<le> 0 then Inl (Ceiling_not_positive mx)
      else if pid = [] then Inl Empty_participant_id
      else Inr (\<lparr>ar_participant = pid, ar_max_n_samples = mx, ar_admitted_at = now, ar_admitted_by = by_whom,
                 ar_revoked = False\<rparr>, admit_upsert pid mx by_whom now db))"

definition revoke_admission :: "string \<Rightarrow> time \<Rightarrow> admission_row list \<Rightarrow> bool \<times> admission_row list" where
  "revoke_admission pid now db =
     (pid \<in> ad_participant ` set db,
      map (\<lambda>r. if ad_participant r = pid then r\<lparr>ad_revoked := True, ad_revoked_at := Some now\<rparr> else r) db)"

definition get_admission :: "string \<Rightarrow> admission_row list \<Rightarrow> admission_record option" where
  "get_admission pid db = map_option record_of (find (\<lambda>r. ad_participant r = pid) db)"

definition is_admitted :: "string \<Rightarrow> admission_row list \<Rightarrow> bool" where
  "is_admitted pid db = (case get_admission pid db of None \<Rightarrow> False | Some r \<Rightarrow> \<not> ar_revoked r)"

definition list_admissions :: "admission_row list \<Rightarrow> admission_record list" where
  "list_admissions db = map record_of (rev (sort_key ad_admitted_at db))"

subsection \<open>Lemmas\<close>

definition admissions_ok :: "admission_row list \<Rightarrow> bool" where
  "admissions_ok db \<longleftrightarrow> distinct (map ad_participant db) \<and> (\<forall>r \<in> set db. 0 < ad_max_n_samples r)"

lemma find_map_same_key:
  assumes "\<And>r. ad_participant (f r) = ad_participant r"
  shows "find (\<lambda>r. ad_participant r = k) (map f db) = map_option f (find (\<lambda>r. ad_participant r = k) db)"
  by (induction db) (simp_all add: assms)

lemma find_key_None: "find (\<lambda>r. ad_participant r = k) db = None \<longleftrightarrow> k \<notin> ad_participant ` set db"
  by (auto simp: find_None_iff)

lemma find_key_Some: "find (\<lambda>r. ad_participant r = k) db = Some r \<Longrightarrow> r \<in> set db \<and> ad_participant r = k"
  by (auto simp: find_Some_iff)

lemma admit_upsert_keys:
  "map ad_participant (admit_upsert pid mx w now db) =
     (if pid \<in> ad_participant ` set db then map ad_participant db else map ad_participant db @ [pid])"
  by (simp add: admit_upsert_def comp_def if_distrib cong: if_cong)

lemma admit_ok: "admit_participant pid mx w now db = Inr (r, db') \<Longrightarrow> admissions_ok db \<Longrightarrow> admissions_ok db'"
proof -
  assume a: "admit_participant pid mx w now db = Inr (r, db')" "admissions_ok db"
  then have db': "db' = admit_upsert pid mx w now db" "0 < mx" by (simp_all add: admit_participant_def split: if_splits)
  have "distinct (map ad_participant db')"
    using a(2) unfolding db' admit_upsert_keys by (simp add: admissions_ok_def)
  moreover have "\<forall>r \<in> set db'. 0 < ad_max_n_samples r"
    using a(2) db' by (auto simp: admissions_ok_def admit_upsert_def)
  ultimately show ?thesis by (simp add: admissions_ok_def)
qed

lemma revoke_ok: "admissions_ok db \<Longrightarrow> admissions_ok (snd (revoke_admission pid now db))"
  by (auto simp: revoke_admission_def admissions_ok_def comp_def if_distrib cong: if_cong)

lemma get_admission_upsert:
  "get_admission k (admit_upsert pid mx w now db) =
     (if k = pid then Some \<lparr>ar_participant = pid, ar_max_n_samples = mx, ar_admitted_at = now, ar_admitted_by = w,
        ar_revoked = False\<rparr> else get_admission k db)"
proof (cases "pid \<in> ad_participant ` set db")
  case True
  then obtain r where r: "find (\<lambda>r. ad_participant r = pid) db = Some r"
    using find_key_None [of pid db] by (cases "find (\<lambda>r. ad_participant r = pid) db") auto
  show ?thesis
  proof (cases "k = pid")
    case True
    with r find_key_Some [OF r] \<open>pid \<in> ad_participant ` set db\<close> show ?thesis
      by (simp add: get_admission_def admit_upsert_def find_map_same_key record_of_def)
  next
    case False
    with \<open>pid \<in> ad_participant ` set db\<close> show ?thesis
      by (cases "find (\<lambda>r. ad_participant r = k) db")
        (auto simp: get_admission_def admit_upsert_def find_map_same_key record_of_def dest: find_key_Some)
  qed
next
  case False
  then have "find (\<lambda>r. ad_participant r = pid) db = None" by (simp add: find_key_None)
  with False show ?thesis
    by (auto simp: get_admission_def admit_upsert_def find_append record_of_def split: option.splits)
qed

lemma get_admission_revoked:
  "get_admission k (snd (revoke_admission pid now db)) =
     (if k = pid then map_option (\<lambda>r. r\<lparr>ar_revoked := True\<rparr>) (get_admission k db) else get_admission k db)"
  by (cases "find (\<lambda>r. ad_participant r = k) db")
    (auto simp: get_admission_def revoke_admission_def find_map_same_key record_of_def dest: find_key_Some)

lemma get_admission_positive: "admissions_ok db \<Longrightarrow> get_admission k db = Some r \<Longrightarrow> 0 < ar_max_n_samples r"
  by (auto simp: get_admission_def admissions_ok_def record_of_def dest: find_key_Some)

text \<open>The operators' calls, in the order they were made.\<close>

datatype admission_op = Admit string int string time | Revoke string time

definition admission_step :: "admission_op \<Rightarrow> admission_row list \<Rightarrow> admission_row list" where
  "admission_step op db =
     (case op of
        Admit pid mx w now \<Rightarrow> (case admit_participant pid mx w now db of Inl _ \<Rightarrow> db | Inr (_, db') \<Rightarrow> db')
      | Revoke pid now \<Rightarrow> snd (revoke_admission pid now db))"

text \<open>What an operator promised last: the abstract state of one identity.\<close>

definition last_decision :: "string \<Rightarrow> admission_op \<Rightarrow> (int \<times> bool) option \<Rightarrow> (int \<times> bool) option" where
  "last_decision pid op d =
     (case op of
        Admit p mx w now \<Rightarrow> if p = pid \<and> 0 < mx \<and> p \<noteq> [] then Some (mx, True) else d
      | Revoke p now \<Rightarrow> if p = pid then map_option (\<lambda>(mx, _). (mx, False)) d else d)"

lemma admission_step_get:
  "map_option (\<lambda>r. (ar_max_n_samples r, \<not> ar_revoked r)) (get_admission pid (admission_step op db)) =
   last_decision pid op (map_option (\<lambda>r. (ar_max_n_samples r, \<not> ar_revoked r)) (get_admission pid db))"
  by (cases op)
    (auto simp: admission_step_def last_decision_def admit_participant_def get_admission_upsert get_admission_revoked
       option.map_comp comp_def)

text \<open>The admission table implements the operators' last decision: after any sequence of calls, an identity is
  admitted with exactly the ceiling of its latest valid admission unless it was revoked after it, and identities never
  mentioned are not admitted.\<close>

theorem admissions_refine_last_decision:
  "map_option (\<lambda>r. (ar_max_n_samples r, \<not> ar_revoked r)) (get_admission pid (fold admission_step ops [])) =
     fold (last_decision pid) ops None \<and>
   is_admitted pid (fold admission_step ops []) = (\<exists>mx. fold (last_decision pid) ops None = Some (mx, True))"
proof -
  have *: "map_option (\<lambda>r. (ar_max_n_samples r, \<not> ar_revoked r)) (get_admission pid (fold admission_step ops db)) =
     fold (last_decision pid) ops (map_option (\<lambda>r. (ar_max_n_samples r, \<not> ar_revoked r)) (get_admission pid db))" for db
    by (induction ops arbitrary: db) (simp_all add: admission_step_get)
  from this [of "[]"] have eq: "fold (last_decision pid) ops None =
      map_option (\<lambda>r. (ar_max_n_samples r, \<not> ar_revoked r)) (get_admission pid (fold admission_step ops []))"
    by (simp add: get_admission_def)
  show ?thesis unfolding eq by (auto simp: is_admitted_def split: option.splits)
qed

lemma admissions_ok_run: "admissions_ok db \<Longrightarrow> admissions_ok (fold admission_step ops db)"
proof (induction ops arbitrary: db)
  case (Cons op ops)
  have "admissions_ok (admission_step op db)"
    using Cons.prems admit_ok revoke_ok by (auto simp: admission_step_def split: admission_op.splits sum.splits)
  with Cons.IH show ?case by simp
qed simp

end
