(* ===== verification/Fed_Robust.thy ===== *)
theory Fed_Robust
  imports LL_Prelude "HOL-Library.Multiset"
begin

text \<open>
  The robust-aggregation functions of the federated server: the weight-share cap
  (\<open>detection/federated/weighting.py\<close>), Krum selection (\<open>detection/federated/krum.py\<close>) and the coordinate-wise
  trimmed mean (\<open>detection/federated/robust_aggregation.py\<close>). numpy arrays are lists, floats are real numbers
  without rounding. \<open>np.argsort\<close> is the stable order of the indices (numpy leaves the order of equal scores open
  for more than sixteen entries).
\<close>

subsection \<open>The weight-share cap\<close>

text \<open>The three parallel arrays \<open>weights\<close>, \<open>result\<close>, \<open>capped_mask\<close> as one list of entries.\<close>

record cap_entry =
  ce_weight :: real
  ce_result :: real
  ce_capped :: bool

definition cap_tolerance :: real where "cap_tolerance = 1 / 10 ^ 12"

definition over_cap :: "real \<Rightarrow> cap_entry \<Rightarrow> bool" where
  "over_cap eff e \<longleftrightarrow> \<not> ce_capped e \<and> eff + cap_tolerance < ce_result e"

definition clamp_entry :: "real \<Rightarrow> cap_entry \<Rightarrow> cap_entry" where
  "clamp_entry eff e = (if over_cap eff e then e\<lparr>ce_result := eff, ce_capped := True\<rparr> else e)"

definition redistribute :: "cap_entry list \<Rightarrow> cap_entry list" where
  "redistribute es =
     (let remaining = 1 - sum_list (map ce_result (filter ce_capped es));
          free = filter (\<lambda>e. \<not> ce_capped e) es;
          free_raw = sum_list (map ce_weight free)
      in map (\<lambda>e. if ce_capped e then e
                  else e\<lparr>ce_result := (if free_raw \<le> 0 then remaining / real (length free)
                                       else ce_weight e / free_raw * remaining)\<rparr>) es)"

fun cap_loop :: "nat \<Rightarrow> real \<Rightarrow> cap_entry list \<Rightarrow> cap_entry list" where
  "cap_loop 0 eff es = es"
| "cap_loop (Suc k) eff es =
     (if \<not> list_ex (over_cap eff) es then es
      else
        let es1 = map (clamp_entry eff) es in
        if list_all ce_capped es1 then es1 else cap_loop k eff (redistribute es1))"

definition apply_weight_share_cap :: "real list \<Rightarrow> real \<Rightarrow> real list" where
  "apply_weight_share_cap raw cap =
     (let n = length raw; total = sum_list raw in
      if n = 0 then []
      else if total \<le> 0 then raw
      else
        let weights = map (\<lambda>w. w / total) raw in
        if n \<le> 1 \<or> 1 \<le> cap then weights
        else map ce_result (cap_loop n (max cap (1 / real n))
               (map (\<lambda>w. \<lparr>ce_weight = w, ce_result = w, ce_capped = False\<rparr>) weights)))"

lemma over_cap_gt: "over_cap eff e \<Longrightarrow> eff < ce_result e"
  by (simp add: over_cap_def cap_tolerance_def)

definition cap_inv :: "real \<Rightarrow> cap_entry list \<Rightarrow> bool" where
  "cap_inv eff es \<longleftrightarrow>
     sum_list (map ce_result es) = 1 \<and> 1 \<le> real (length es) * eff \<and>
     (\<forall>e \<in> set es. 0 \<le> ce_weight e \<and> 0 \<le> ce_result e \<and> (ce_capped e \<longrightarrow> ce_result e = eff))"

lemma sum_list_split:
  "sum_list (map f xs) = sum_list (map f (filter P xs)) + sum_list (map f (filter (\<lambda>x. \<not> P x) xs))"
  for f :: "'a \<Rightarrow> real"
  by (induction xs) auto

lemma sum_list_const: "(\<And>x. x \<in> set xs \<Longrightarrow> f x = c) \<Longrightarrow> sum_list (map f xs) = real (length xs) * c"
  for f :: "'a \<Rightarrow> real"
  by (induction xs) (auto simp: algebra_simps)

lemma sum_list_ge: "(\<And>x. x \<in> set xs \<Longrightarrow> c \<le> f x) \<Longrightarrow> real (length xs) * c \<le> sum_list (map f xs)"
  for f :: "'a \<Rightarrow> real"
proof (induction xs)
  case (Cons x xs)
  then have "c \<le> f x" "real (length xs) * c \<le> sum_list (map f xs)" by simp_all
  then show ?case by (simp add: algebra_simps)
qed simp

lemma sum_list_ge_strict:
  "(\<And>x. x \<in> set xs \<Longrightarrow> c \<le> f x) \<Longrightarrow> x \<in> set xs \<Longrightarrow> c < f x \<Longrightarrow> real (length xs) * c < sum_list (map f xs)"
  for f :: "'a \<Rightarrow> real"
proof (induction xs)
  case (Cons a xs)
  have "c \<le> f a" "real (length xs) * c \<le> sum_list (map f xs)"
    using Cons.prems(1) sum_list_ge [of xs c f] by simp_all
  moreover have "c < f a \<or> real (length xs) * c < sum_list (map f xs)" using Cons by auto
  ultimately show ?case by (auto simp: algebra_simps)
qed simp

text \<open>Clamping never lifts a result, and what it frees stays non-negative.\<close>

lemma clamp_sum:
  assumes "cap_inv eff es"
  shows "real (length (filter ce_capped (map (clamp_entry eff) es))) * eff \<le> 1"
proof -
  let ?c = "filter (\<lambda>e. ce_capped (clamp_entry eff e)) es"
  have ge: "eff \<le> ce_result e" if "e \<in> set ?c" for e
    using that assms by (auto simp: cap_inv_def clamp_entry_def over_cap_def cap_tolerance_def split: if_splits)
  have "real (length (filter ce_capped (map (clamp_entry eff) es))) * eff = real (length ?c) * eff"
    by (simp add: filter_map comp_def)
  also have "\<dots> \<le> sum_list (map ce_result ?c)" using ge by (rule sum_list_ge)
  also have "\<dots> \<le> sum_list (map ce_result es)"
    using assms sum_list_split [of ce_result es "\<lambda>e. ce_capped (clamp_entry eff e)"]
      sum_list_ge [of "filter (\<lambda>e. \<not> ce_capped (clamp_entry eff e)) es" 0 ce_result]
    by (auto simp: cap_inv_def)
  finally show ?thesis using assms by (simp add: cap_inv_def)
qed

lemma clamp_not_all:
  assumes "cap_inv eff es" "list_ex (over_cap eff) es"
  shows "\<not> list_all ce_capped (map (clamp_entry eff) es)"
proof
  assume all: "list_all ce_capped (map (clamp_entry eff) es)"
  have "eff \<le> ce_result e" if "e \<in> set es" for e
  proof (cases "over_cap eff e")
    case True
    then show ?thesis using over_cap_gt by fastforce
  next
    case False
    then have "ce_capped e" using all that by (auto simp: clamp_entry_def list_all_iff)
    then show ?thesis using assms(1) that by (simp add: cap_inv_def)
  qed
  moreover obtain e where "e \<in> set es" "eff < ce_result e"
    using assms(2) over_cap_gt by (auto simp: list_ex_iff)
  ultimately have "real (length es) * eff < sum_list (map ce_result es)" by (intro sum_list_ge_strict)
  with assms(1) show False by (simp add: cap_inv_def)
qed

lemma redistribute_sum:
  assumes "\<exists>e \<in> set ds. \<not> ce_capped e"
  shows "sum_list (map ce_result (redistribute ds)) = 1"
proof -
  let ?free = "filter (\<lambda>e. \<not> ce_capped e) ds"
  let ?raw = "sum_list (map ce_weight ?free)"
  let ?rem = "1 - sum_list (map ce_result (filter ce_capped ds))"
  let ?f = "\<lambda>e. if ?raw \<le> 0 then ?rem / real (length ?free) else ce_weight e / ?raw * ?rem"
  have "?free \<noteq> []" using assms by (auto simp: filter_empty_conv)
  then have len: "0 < real (length ?free)" by simp
  have free_sum: "sum_list (map ?f ?free) = ?rem"
  proof (cases "?raw \<le> 0")
    case True
    then have "sum_list (map ?f ?free) = real (length ?free) * (?rem / real (length ?free))"
      by (intro sum_list_const) simp
    with len show ?thesis by simp
  next
    case False
    then have "sum_list (map ?f ?free) = sum_list (map (\<lambda>e. ce_weight e * (?rem / ?raw)) ?free)"
      by (intro arg_cong [where f = sum_list] map_cong refl) simp
    also have "\<dots> = ?raw * (?rem / ?raw)" by (rule sum_list_mult_const)
    also have "\<dots> = ?rem" using False by (metis nonzero_mult_div_cancel_left order_refl times_divide_eq_right)
    finally show ?thesis .
  qed
  have g: "sum_list (map (\<lambda>e. if ce_capped e then ce_result e else h e) xs) =
      sum_list (map ce_result (filter ce_capped xs)) + sum_list (map h (filter (\<lambda>e. \<not> ce_capped e) xs))" for h xs
    by (induction xs) auto
  have "sum_list (map ce_result (redistribute ds)) = sum_list (map (\<lambda>e. if ce_capped e then ce_result e else ?f e) ds)"
    unfolding redistribute_def Let_def by (intro arg_cong [where f = sum_list]) simp
  also have "\<dots> = sum_list (map ce_result (filter ce_capped ds)) + sum_list (map ?f ?free)" by (rule g)
  finally show ?thesis unfolding free_sum by simp
qed

lemma redistribute_entries:
  assumes "\<And>e. e \<in> set ds \<Longrightarrow> 0 \<le> ce_weight e \<and> 0 \<le> ce_result e \<and> (ce_capped e \<longrightarrow> ce_result e = eff)"
    "sum_list (map ce_result (filter ce_capped ds)) \<le> 1" "e \<in> set (redistribute ds)"
  shows "0 \<le> ce_weight e \<and> 0 \<le> ce_result e \<and> (ce_capped e \<longrightarrow> ce_result e = eff)"
proof -
  let ?raw = "sum_list (map ce_weight (filter (\<lambda>e. \<not> ce_capped e) ds))"
  let ?rem = "1 - sum_list (map ce_result (filter ce_capped ds))"
  from assms(3) obtain d where d: "d \<in> set ds" "e = (if ce_capped d then d
      else d\<lparr>ce_result := (if ?raw \<le> 0 then ?rem / real (length (filter (\<lambda>e. \<not> ce_capped e) ds)) else ce_weight d / ?raw * ?rem)\<rparr>)"
    unfolding redistribute_def Let_def set_map by (rule imageE) blast
  have "0 \<le> ?rem" using assms(2) by simp
  with d(2) assms(1) [OF d(1)] show ?thesis by (auto intro!: mult_nonneg_nonneg divide_nonneg_nonneg)
qed

lemma redistribute_inv:
  assumes "cap_inv eff es" "list_ex (over_cap eff) es" "0 \<le> eff"
  shows "cap_inv eff (redistribute (map (clamp_entry eff) es))"
proof -
  let ?es = "map (clamp_entry eff) es"
  have entry: "0 \<le> ce_weight e \<and> 0 \<le> ce_result e \<and> (ce_capped e \<longrightarrow> ce_result e = eff)" if "e \<in> set ?es" for e
    using that assms(1,3) by (auto simp: cap_inv_def clamp_entry_def)
  have "sum_list (map ce_result (filter ce_capped ?es)) = real (length (filter ce_capped ?es)) * eff"
    using entry by (intro sum_list_const) auto
  then have le: "sum_list (map ce_result (filter ce_capped ?es)) \<le> 1" using clamp_sum [OF assms(1)] by simp
  have "\<exists>e \<in> set ?es. \<not> ce_capped e" using clamp_not_all [OF assms(1,2)] by (simp only: list_all_iff) blast
  from redistribute_sum [OF this] redistribute_entries [OF entry le] assms(1) show ?thesis
    by (simp add: cap_inv_def redistribute_def Let_def)
qed
definition within_cap :: "real \<Rightarrow> cap_entry list \<Rightarrow> bool" where
  "within_cap eff es \<longleftrightarrow> (\<forall>e \<in> set es. 0 \<le> ce_result e \<and> ce_result e \<le> eff + cap_tolerance)"

lemma within_cap_stop:
  assumes "cap_inv eff es" "\<not> list_ex (over_cap eff) es"
  shows "within_cap eff es"
  using assms by (fastforce simp: within_cap_def cap_inv_def over_cap_def list_ex_iff cap_tolerance_def)

text \<open>As many rounds as there are uncapped entries suffice: each round caps one more.\<close>

lemma cap_loop_spec:
  assumes "cap_inv eff es" "0 \<le> eff" "length (filter (\<lambda>e. \<not> ce_capped e) es) \<le> k"
  shows "cap_inv eff (cap_loop k eff es) \<and> within_cap eff (cap_loop k eff es) \<and> length (cap_loop k eff es) = length es"
  using assms
proof (induction k arbitrary: es)
  case 0
  then have "\<not> list_ex (over_cap eff) es" by (auto simp: list_ex_iff over_cap_def filter_empty_conv)
  with 0 within_cap_stop show ?case by simp
next
  case (Suc k)
  show ?case
  proof (cases "list_ex (over_cap eff) es")
    case False
    with Suc.prems within_cap_stop show ?thesis by simp
  next
    case True
    let ?es = "map (clamp_entry eff) es"
    have red: "cap_inv eff (redistribute ?es)" using Suc.prems(1) True Suc.prems(2) by (rule redistribute_inv)
    have same: "length (filter (\<lambda>e. \<not> ce_capped e) (redistribute ?es)) = length (filter (\<lambda>e. \<not> ce_capped e) ?es)"
      unfolding redistribute_def Let_def filter_map by (simp add: comp_def cong: filter_cong)
    obtain x where x: "x \<in> set es" "over_cap eff x" using True by (auto simp: list_ex_iff)
    have "length (filter (\<lambda>e. \<not> ce_capped e) ?es) = length (filter (\<lambda>e. \<not> ce_capped e \<and> \<not> over_cap eff e) es)"
      unfolding filter_map length_map by (intro arg_cong [where f = length] filter_cong) (auto simp: clamp_entry_def)
    also have "\<dots> < length (filter (\<lambda>e. \<not> ce_capped e) es)"
    proof -
      have "filter (\<lambda>e. \<not> ce_capped e \<and> \<not> over_cap eff e) es = filter (\<lambda>e. \<not> over_cap eff e) (filter (\<lambda>e. \<not> ce_capped e) es)"
        by simp
      moreover have "x \<in> set (filter (\<lambda>e. \<not> ce_capped e) es)" using x by (auto simp: over_cap_def)
      ultimately show ?thesis using x(2) length_filter_less by metis
    qed
    finally have "length (filter (\<lambda>e. \<not> ce_capped e) (redistribute ?es)) \<le> k" using Suc.prems(3) same by simp
    from Suc.IH [OF red Suc.prems(2) this] True clamp_not_all [OF Suc.prems(1) True] show ?thesis
      by (simp add: Let_def redistribute_def)
  qed
qed

lemma capped_weights:
  assumes "\<And>w. w \<in> set raw \<Longrightarrow> 0 \<le> w" "0 < sum_list raw" "cap < 1" "2 \<le> length raw"
  shows "length (apply_weight_share_cap raw cap) = length raw \<and> sum_list (apply_weight_share_cap raw cap) = 1 \<and>
    (\<forall>w \<in> set (apply_weight_share_cap raw cap). 0 \<le> w \<and> w \<le> max cap (1 / real (length raw)) + cap_tolerance)"
proof -
  let ?eff = "max cap (1 / real (length raw))"
  let ?ws = "map (\<lambda>w. w / sum_list raw) raw"
  let ?es = "map (\<lambda>w. \<lparr>ce_weight = w, ce_result = w, ce_capped = False\<rparr>) ?ws"
  have "sum_list ?ws = sum_list (map (\<lambda>w. w * (1 / sum_list raw)) raw)" by simp
  also have "\<dots> = sum_list (map (\<lambda>w. w) raw) * (1 / sum_list raw)" by (rule sum_list_mult_const)
  finally have sum: "sum_list ?ws = 1" using assms(2) by simp
  have "1 \<le> real (length raw) * ?eff"
  proof -
    have "real (length raw) * (1 / real (length raw)) \<le> real (length raw) * ?eff" by (intro mult_left_mono) simp_all
    then show ?thesis using assms(4) by (cases "raw = []") simp_all
  qed
  then have inv: "cap_inv ?eff ?es" using sum assms(1,2) by (auto simp: cap_inv_def comp_def)
  have free: "length (filter (\<lambda>e. \<not> ce_capped e) ?es) \<le> length raw"
    using length_filter_le [of "\<lambda>e. \<not> ce_capped e" ?es] by simp
  have "0 \<le> ?eff" by (simp add: le_max_iff_disj)
  note l = cap_loop_spec [OF inv this free]
  have "apply_weight_share_cap raw cap = map ce_result (cap_loop (length raw) ?eff ?es)"
    using assms(2-4) by (simp add: apply_weight_share_cap_def Let_def not_le)
  with l show ?thesis by (auto simp: cap_inv_def within_cap_def)
qed

text \<open>C38: no participant dominates a round. For non-negative sample counts with a positive total and a cap below
  one, the capped weights are non-negative, sum to exactly one, and none exceeds the larger of the cap and the equal
  share by more than the tolerance of the loop; the loop bound of one round per participant is enough.\<close>

theorem weight_share_capped:
  assumes "\<And>w. w \<in> set raw \<Longrightarrow> 0 \<le> w" "0 < sum_list raw" "cap < 1" "2 \<le> length raw"
  shows "length (apply_weight_share_cap raw cap) = length raw \<and> sum_list (apply_weight_share_cap raw cap) = 1 \<and>
    (\<forall>w \<in> set (apply_weight_share_cap raw cap). 0 \<le> w \<and> w \<le> max cap (1 / real (length raw)) + cap_tolerance)"
  using assms by (rule capped_weights)

theorem weight_share_capped_witness:
  "sum_list (apply_weight_share_cap [900, 50, 50] (2 / 5)) = 1 \<and>
   list_all (\<lambda>w. w \<le> max (2 / 5) (1 / 3) + cap_tolerance) (apply_weight_share_cap [900, 50, 50] (2 / 5))"
proof -
  have "\<And>w :: real. w \<in> set [900, 50, 50] \<Longrightarrow> 0 \<le> w" by auto
  from weight_share_capped [of "[900, 50, 50]" "2 / 5", OF this] show ?thesis by (simp add: list_all_iff)
qed

subsection \<open>The trimmed mean\<close>

datatype robust_error = Bad_trim_fraction | No_updates | Shape_mismatch | Krum_too_few nat nat | Krum_bad_m nat nat

text \<open>\<open>np.stack\<close> raises when the arrays differ in shape.\<close>

definition stackable :: "real list list \<Rightarrow> bool" where
  "stackable us \<longleftrightarrow> (case us of [] \<Rightarrow> False | u # rest \<Rightarrow> list_all (\<lambda>v. length v = length u) rest)"

definition column :: "real list list \<Rightarrow> nat \<Rightarrow> real list" where
  "column us j = map (\<lambda>u. u ! j) us"

definition mean :: "real list \<Rightarrow> real" where
  "mean xs = sum_list xs / real (length xs)"

definition trim_count :: "real \<Rightarrow> nat \<Rightarrow> nat" where
  "trim_count trim_fraction n = nat \<lfloor>trim_fraction * real n\<rfloor>"

definition trimmed_mean :: "real list list \<Rightarrow> real \<Rightarrow> robust_error + real list" where
  "trimmed_mean updates trim_fraction =
     (if \<not> (0 \<le> trim_fraction \<and> trim_fraction < 1 / 2) then Inl Bad_trim_fraction
      else if updates = [] then Inl No_updates
      else if \<not> stackable updates then Inl Shape_mismatch
      else
        let n = length updates; k = trim_count trim_fraction n in
        Inr (map (\<lambda>j. if k = 0 then mean (column updates j)
                       else mean (take (n - 2 * k) (drop k (sort (column updates j)))))
               [0..<length (hd updates)]))"

lemma sort_below:
  assumes "length (filter (\<lambda>x. hi < x) xs) \<le> k" "p + k < length xs"
  shows "sort xs ! p \<le> (hi :: real)"
proof (rule ccontr)
  assume "\<not> sort xs ! p \<le> hi"
  then have "hi < sort xs ! q" if "p \<le> q" "q < length xs" for q
    using that sorted_nth_mono [of "sort xs" p q] by simp
  then have "{p..<length xs} \<subseteq> {i. i < length (sort xs) \<and> hi < sort xs ! i}" by auto
  then have "card {p..<length xs} \<le> card {i. i < length (sort xs) \<and> hi < sort xs ! i}" by (intro card_mono) simp_all
  also have "\<dots> = length (filter (\<lambda>x. hi < x) (sort xs))" by (simp add: length_filter_conv_card)
  also have "\<dots> = length (filter (\<lambda>x. hi < x) xs)" by (metis filter_sort length_sort)
  finally show False using assms by simp
qed

lemma sort_above:
  assumes "length (filter (\<lambda>x. x < lo) xs) \<le> k" "k \<le> p" "p < length xs"
  shows "(lo :: real) \<le> sort xs ! p"
proof (rule ccontr)
  assume "\<not> lo \<le> sort xs ! p"
  then have "sort xs ! q < lo" if "q \<le> p" for q
    using that assms(3) sorted_nth_mono [of "sort xs" q p] by simp
  then have "{..p} \<subseteq> {i. i < length (sort xs) \<and> sort xs ! i < lo}" using assms(3) by auto
  then have "card {..p} \<le> card {i. i < length (sort xs) \<and> sort xs ! i < lo}" by (intro card_mono) simp_all
  also have "\<dots> = length (filter (\<lambda>x. x < lo) (sort xs))" by (simp add: length_filter_conv_card)
  also have "\<dots> = length (filter (\<lambda>x. x < lo) xs)" by (metis filter_sort length_sort)
  finally show False using assms by simp
qed

lemma mean_between:
  assumes "xs \<noteq> []" "\<And>x. x \<in> set xs \<Longrightarrow> lo \<le> x \<and> x \<le> hi"
  shows "lo \<le> mean xs \<and> mean xs \<le> hi"
proof -
  have "real (length xs) * lo \<le> sum_list (map (\<lambda>x. x) xs)" using assms(2) by (intro sum_list_ge) simp
  moreover have "sum_list (map (\<lambda>x. x) xs) \<le> sum_list (map (\<lambda>_. hi) xs)" using assms(2) by (intro sum_list_mono) simp
  then have "sum_list xs \<le> real (length xs) * hi" by (simp add: sum_list_triv)
  ultimately show ?thesis using assms(1) by (simp add: mean_def field_simps)
qed

lemma trim_count_less: "0 \<le> tf \<Longrightarrow> tf < 1 / 2 \<Longrightarrow> 0 < n \<Longrightarrow> 2 * trim_count tf n < n"
proof -
  assume a: "0 \<le> tf" "tf < 1 / 2" "0 < n"
  then have "2 * (tf * real n) < real n" by simp
  moreover have "real (trim_count tf n) \<le> tf * real n" using a by (simp add: trim_count_def)
  ultimately have "real (2 * trim_count tf n) < real n" by simp
  then show ?thesis by (simp only: of_nat_less_iff)
qed

text \<open>C39: the trimmed mean bounds what attackers can do. If at most the trimmed number of participants misbehave, then
  in every coordinate the result lies within the range of the honest participants' values, whatever the others
  submit.\<close>

theorem trimmed_mean_robust:
  assumes "trimmed_mean updates trim_fraction = Inr r" "honest \<subseteq> {..<length updates}"
    "length updates - card honest \<le> trim_count trim_fraction (length updates)" "j < length r"
    "\<And>i. i \<in> honest \<Longrightarrow> lo \<le> updates ! i ! j \<and> updates ! i ! j \<le> hi"
  shows "lo \<le> r ! j \<and> r ! j \<le> hi"
proof -
  let ?n = "length updates" and ?k = "trim_count trim_fraction (length updates)" and ?c = "column updates j"
  from assms(1) have tf: "0 \<le> trim_fraction" "trim_fraction < 1 / 2" "updates \<noteq> []" and
    r: "r = map (\<lambda>j. if ?k = 0 then mean (column updates j)
        else mean (take (?n - 2 * ?k) (drop ?k (sort (column updates j))))) [0..<length (hd updates)]"
    by (auto simp: trimmed_mean_def Let_def split: if_splits)
  have k: "2 * ?k < ?n" using tf by (intro trim_count_less) simp_all
  have bad: "length (filter P ?c) \<le> ?k" if "\<And>i. i \<in> honest \<Longrightarrow> \<not> P (updates ! i ! j)" for P
  proof -
    have "{i. i < length ?c \<and> P (?c ! i)} \<subseteq> {..<?n} - honest" using that by (auto simp: column_def)
    then have "card {i. i < length ?c \<and> P (?c ! i)} \<le> card ({..<?n} - honest)" by (intro card_mono) simp_all
    also have "\<dots> = ?n - card honest" using assms(2) by (subst card_Diff_subset) (auto intro: finite_subset)
    finally show ?thesis using assms(3) by (simp add: length_filter_conv_card)
  qed
  have hi: "length (filter (\<lambda>x. hi < x) ?c) \<le> ?k" by (rule bad) (simp add: assms(5) not_less)
  have lo: "length (filter (\<lambda>x. x < lo) ?c) \<le> ?k" by (rule bad) (simp add: assms(5) not_less)
  have mid: "lo \<le> x \<and> x \<le> hi" if "x \<in> set (take (?n - 2 * ?k) (drop ?k (sort ?c)))" for x
  proof -
    from that obtain q where q: "q < ?n - 2 * ?k" "x = sort ?c ! (?k + q)"
      by (auto simp: in_set_conv_nth column_def)
    with sort_below [OF hi, of "?k + q"] sort_above [OF lo, of "?k + q"] show ?thesis by (simp add: column_def)
  qed
  have rj: "r ! j = mean (take (?n - 2 * ?k) (drop ?k (sort ?c)))"
  proof (cases "?k = 0")
    case True
    have "mean (sort ?c) = mean ?c"
      by (simp add: mean_def) (metis mset_sort sum_mset_sum_list)
    with True assms(4) show ?thesis by (simp add: r column_def)
  qed (use assms(4) in \<open>simp add: r\<close>)
  have "take (?n - 2 * ?k) (drop ?k (sort ?c)) \<noteq> []" using k by (simp add: column_def)
  from mean_between [OF this mid] show ?thesis unfolding rj .
qed

theorem trimmed_mean_robust_witness:
  "\<exists>r. trimmed_mean [[1], [2], [1000000], [3]] (1 / 4) = Inr r \<and> 1 \<le> r ! 0 \<and> r ! 0 \<le> 3"
proof -
  obtain r where r: "trimmed_mean [[1], [2], [1000000], [3]] (1 / 4) = Inr r"
    by (simp add: trimmed_mean_def stackable_def Let_def)
  then have "length r = 1" by (auto simp: trimmed_mean_def Let_def split: if_splits)
  then have "1 \<le> r ! 0 \<and> r ! 0 \<le> 3"
    by (intro trimmed_mean_robust [OF r, of "{0, 1, 3}"]) (auto simp: trim_count_def)
  with r show ?thesis by blast
qed

subsection \<open>Krum\<close>

definition sq_dist :: "real list \<Rightarrow> real list \<Rightarrow> real" where
  "sq_dist u v = sum_list (map2 (\<lambda>a b. (a - b) ^ 2) u v)"

definition krum_score :: "nat \<Rightarrow> real list list \<Rightarrow> nat \<Rightarrow> real" where
  "krum_score f gs i =
     sum_list (take (length gs - f - 2) (drop 1 (sort (map (sq_dist (gs ! i)) gs))))"

definition krum_scores :: "nat \<Rightarrow> real list list \<Rightarrow> robust_error + real list" where
  "krum_scores f gs =
     (if length gs \<le> 2 * f + 2 then Inl (Krum_too_few f (length gs))
      else if \<not> stackable gs then Inl Shape_mismatch
      else Inr (map (krum_score f gs) [0..<length gs]))"

definition krum_select :: "nat \<Rightarrow> real list list \<Rightarrow> nat \<Rightarrow> robust_error + nat list \<times> nat list \<times> real list" where
  "krum_select f gs m =
     (if int (length gs) - int f < int m then Inl (Krum_bad_m m (length gs - f))
      else case krum_scores f gs of
          Inl e \<Rightarrow> Inl e
        | Inr scores \<Rightarrow>
            (let ranked = sort_key (\<lambda>i. scores ! i) [0..<length gs]
             in Inr (take m ranked, drop m ranked, scores)))"

text \<open>The sum of the \<open>m\<close> smallest entries is at most the sum of any \<open>m\<close> of them.\<close>

lemma take_sorted_least:
  assumes "sorted ys" "A \<subseteq># mset ys" "size A = m"
  shows "sum_list (take m ys) \<le> sum_mset (A :: real multiset)"
  using assms
proof (induction ys arbitrary: A m)
  case (Cons y ys)
  show ?case
  proof (cases m)
    case (Suc k)
    with Cons.prems(3) have "A \<noteq> {#}" by auto
    obtain a where a: "a \<in># A" "a = y \<or> y \<notin># A" using \<open>A \<noteq> {#}\<close> by (metis multiset_nonemptyE)
    have "a \<in># mset (y # ys)" using Cons.prems(2) a(1) by (rule mset_subset_eqD)
    then have "y \<le> a" using Cons.prems(1) by auto
    moreover have "A - {#a#} \<subseteq># mset ys"
    proof (cases "a = y")
      case True
      with Cons.prems(2) show ?thesis by (simp add: subset_eq_diff_conv)
    next
      case False
      with a(2) have "y \<notin># A" by simp
      then have "A - {#y#} = A" by (rule diff_single_trivial)
      moreover have "A - {#y#} \<subseteq># mset ys" using Cons.prems(2) by (simp add: subset_eq_diff_conv)
      ultimately have "A \<subseteq># mset ys" by simp
      then show ?thesis by (meson diff_subset_eq_self subset_mset.order_trans)
    qed
    moreover have "size (A - {#a#}) = k" using a(1) Cons.prems(3) Suc by (simp add: size_Diff_singleton)
    moreover have "sorted ys" using Cons.prems(1) by simp
    ultimately have "y \<le> a" "sum_list (take k ys) \<le> sum_mset (A - {#a#})" by (simp_all only: Cons.IH)
    moreover have "sum_mset A = a + sum_mset (A - {#a#})" using sum_mset.remove [OF a(1)] by simp
    ultimately show ?thesis using Suc by simp
  qed (use Cons.prems in simp)
qed simp

lemma sq_dist_props: "sq_dist u u = 0" "0 \<le> sq_dist u v"
proof -
  show "sq_dist u u = 0" by (induction u) (simp_all add: sq_dist_def)
  show "0 \<le> sq_dist u v" by (auto simp: sq_dist_def intro!: sum_list_nonneg)
qed

text \<open>Krum's score is the sum of squared distances to the closest \<open>n - f - 2\<close> other updates: at most the sum over any
  other choice of that many peers. The selection takes the requested number of updates with the lowest scores, the
  excluded are exactly the others, and too small a round (\<open>n \<le> 2f + 2\<close>) is refused.\<close>

theorem krum_selects_most_central:
  assumes "krum_select f gs m = Inr (selected, excluded, scores)"
  shows "2 * f + 2 < length gs \<and> length selected = m \<and> mset (selected @ excluded) = mset [0..<length gs] \<and>
    (\<forall>i \<in> set selected. \<forall>j \<in> set excluded. scores ! i \<le> scores ! j) \<and>
    (\<forall>i < length gs. \<forall>peers \<subseteq> {..<length gs} - {i}. card peers = length gs - f - 2 \<longrightarrow>
       scores ! i \<le> (\<Sum>p\<in>peers. sq_dist (gs ! i) (gs ! p)))"
proof -
  let ?n = "length gs"
  from assms have n: "2 * f + 2 < ?n" "m \<le> ?n" and sc: "scores = map (krum_score f gs) [0..<?n]" and
    sel: "selected = take m (sort_key (\<lambda>i. scores ! i) [0..<?n])" "excluded = drop m (sort_key (\<lambda>i. scores ! i) [0..<?n])"
    by (auto simp: krum_select_def krum_scores_def Let_def split: if_splits sum.splits)
  have part: "mset (selected @ excluded) = mset [0..<?n]" unfolding sel by simp
  have "scores ! i \<le> scores ! j" if "i \<in> set selected" "j \<in> set excluded" for i j
  proof -
    have "sorted (map (\<lambda>i. scores ! i) (selected @ excluded))" unfolding sel by simp
    then show ?thesis using that by (simp add: sorted_append)
  qed
  moreover have "scores ! i \<le> (\<Sum>p\<in>peers. sq_dist (gs ! i) (gs ! p))"
    if i: "i < ?n" and peers: "peers \<subseteq> {..<?n} - {i}" "card peers = ?n - f - 2" for i peers
  proof -
    let ?d = "\<lambda>p. sq_dist (gs ! i) (gs ! p)"
    have fin: "finite peers" using peers(1) finite_subset by blast
    have row: "map (sq_dist (gs ! i)) gs = map ?d [0..<?n]" by (rule nth_equalityI) simp_all
    have "mset (map (sq_dist (gs ! i)) gs) = image_mset ?d (mset_set {..<?n})"
      unfolding row by (simp add: mset_map lessThan_atLeast0 flip: mset_upt)
    also have "mset_set {..<?n} = add_mset i (mset_set ({..<?n} - {i}))" using i by (intro mset_set.remove) simp_all
    also have "image_mset ?d \<dots> = add_mset 0 (image_mset ?d (mset_set ({..<?n} - {i})))"
      by (simp add: sq_dist_props)
    finally have ms: "mset (map (sq_dist (gs ! i)) gs) = add_mset 0 (image_mset ?d (mset_set ({..<?n} - {i})))" .
    obtain others where others: "mset others = image_mset ?d (mset_set ({..<?n} - {i}))" using ex_mset by blast
    have "x \<in># mset others \<Longrightarrow> 0 \<le> x" for x unfolding others by (auto simp: sq_dist_props)
    then have "sorted (0 # sort others)" by simp
    moreover have "mset (0 # sort others) = mset (map (sq_dist (gs ! i)) gs)" using ms others by simp
    ultimately have "sort (map (sq_dist (gs ! i)) gs) = 0 # sort others" by (metis properties_for_sort)
    then have s: "scores ! i = sum_list (take (?n - f - 2) (sort others))" using i by (simp add: sc krum_score_def)
    have "image_mset ?d (mset_set peers) \<subseteq># mset (sort others)"
      unfolding mset_sort others using peers(1) by (intro image_mset_subseteq_mono) (simp add: subset_imp_msubset_mset_set)
    from take_sorted_least [OF _ this] peers(2) fin have "sum_list (take (?n - f - 2) (sort others)) \<le> sum_mset (image_mset ?d (mset_set peers))"
      by simp
    then show ?thesis unfolding s by (simp add: sum_unfold_sum_mset)
  qed
  ultimately show ?thesis using n part sel by simp
qed

theorem krum_selects_most_central_witness:
  "\<exists>selected excluded scores. krum_select 1 [[0], [1], [2], [1], [100]] 4 = Inr (selected, excluded, scores) \<and>
     length selected = 4"
proof -
  obtain selected excluded scores where s: "krum_select 1 [[0], [1], [2], [1], [100]] 4 = Inr (selected, excluded, scores)"
    by (simp add: krum_select_def krum_scores_def stackable_def Let_def)
  from krum_selects_most_central [OF s] s show ?thesis by blast
qed

end
