(* ===== verification/Fed_Server.thy ===== *)
theory Fed_Server
  imports Admission Fed_Robust "HOL-Library.AList"
begin

text \<open>
  \<open>detection/federated/server.py\<close>: the federated aggregation server, its registration, the screening of a submitted
  update and the aggregation of a round, with the part of \<open>detection/federated/audit.py\<close> that keeps the privacy
  budget across restarts. Every operation runs under the server's lock, so it is one step. numpy vectors are lists of
  reals (no rounding); arithmetic on two arrays follows numpy's broadcasting. Key loading, signature verification, the
  RDP accountant and the hash of an id come from packages and are the fields of \<open>fed_env\<close>; the noise drawn for a round,
  its fresh id and the clock are arguments. Logging and the best-effort Krum log are left out.
\<close>

subsection \<open>numpy\<close>

definition bcast :: "(real \<Rightarrow> real \<Rightarrow> real) \<Rightarrow> real list \<Rightarrow> real list \<Rightarrow> real list option" where
  "bcast f u v =
     (if length u = length v then Some (map2 f u v)
      else if length u = 1 then Some (map (f (hd u)) v)
      else if length v = 1 then Some (map (\<lambda>a. f a (hd v)) u)
      else None)"

definition norm2 :: "real list \<Rightarrow> real" where
  "norm2 u = sqrt (sum_list (map (\<lambda>x. x ^ 2) u))"

definition dot :: "real list \<Rightarrow> real list \<Rightarrow> real" where
  "dot u v = sum_list (map2 (*) u v)"

definition clip01 :: "real \<Rightarrow> real" where
  "clip01 x = min 1 (max 0 x)"

subsection \<open>State\<close>

record fed_config =
  fc_min_participants :: int
  fc_clip :: real
  fc_outlier :: real
  fc_dp_epsilon :: real
  fc_max_epsilon :: real
  fc_noise_multiplier :: real
  fc_admission_required :: bool
  fc_weight_fraction :: real
  fc_growth :: real
  fc_use_krum :: bool
  fc_strategy :: string
  fc_trim :: real

record update_payload =
  pl_participant :: string
  pl_round_id :: string
  pl_soft_labels :: "real list"
  pl_n_samples :: int

record ('der, 'pk, 'sig) fed_env =
  env_load_key :: "'der \<Rightarrow> 'pk option"
  env_verify :: "'pk \<Rightarrow> 'sig \<Rightarrow> update_payload \<Rightarrow> bool"
  env_epsilon :: "nat \<Rightarrow> real"
  env_hash :: "string \<Rightarrow> string"

text \<open>What a round draws from outside: the server noise, the next round id, the time of the audit record.\<close>

record round_env =
  re_noise :: "nat \<Rightarrow> real"
  re_round_id :: string
  re_now :: time

datatype exclusion = Cosine_outlier real | Growth_exceeded int int

record fed_update =
  fu_participant :: string
  fu_labels :: "real list"
  fu_delta :: "real list"
  fu_n_samples :: int
  fu_claimed :: int
  fu_exclusion :: "exclusion option"

record 'pk fed_participant =
  fp_key :: 'pk
  fp_max_n_samples :: "int option"   \<comment> \<open>\<open>None\<close> is \<open>math.inf\<close>\<close>
  fp_last_round :: int
  fp_history_max :: int

record round_record =
  rr_round_id :: string
  rr_participants :: "string list"
  rr_excluded :: "string list"
  rr_norm :: real
  rr_consumed :: real
  rr_cumulative :: real
  rr_weight_capped :: "string list"
  rr_timestamp :: time

record 'pk fed_server =
  fs_admissions :: "admission_row list"
  fs_audit :: "round_record list"
  fs_participants :: "string \<rightharpoonup> 'pk fed_participant"
  fs_pending :: "(string \<times> fed_update) list"
  fs_global :: "real list option"
  fs_previous_mean_delta :: "real list option"
  fs_round_id :: string
  fs_round :: nat
  fs_epsilon :: real
  fs_in_progress :: bool

datatype fed_error = Bad_strategy string | Bad_key | Not_admitted string | Unknown_participant string
  | Budget_exhausted | Invalid_signature string | Shape_error | Robust_error robust_error

subsection \<open>The audit log and the constructor\<close>

definition build_record ::
    "('der, 'pk, 'sig) fed_env \<Rightarrow> string \<Rightarrow> string list \<Rightarrow> real \<Rightarrow> real \<Rightarrow> real \<Rightarrow> string list \<Rightarrow> string list \<Rightarrow> time \<Rightarrow> round_record" where
  "build_record env rid ids nrm consumed cumulative excluded capped now =
     \<lparr>rr_round_id = rid, rr_participants = map (env_hash env) ids, rr_excluded = map (env_hash env) excluded,
      rr_norm = nrm, rr_consumed = consumed, rr_cumulative = cumulative,
      rr_weight_capped = map (env_hash env) capped, rr_timestamp = now\<rparr>"

definition save_audit_record :: "round_record \<Rightarrow> round_record list \<Rightarrow> round_record list" where
  "save_audit_record r audit = filter (\<lambda>q. rr_round_id q \<noteq> rr_round_id r) audit @ [r]"

definition get_cumulative_epsilon :: "round_record list \<Rightarrow> real" where
  "get_cumulative_epsilon audit =
     (case sort_key (\<lambda>r. - rr_timestamp r) audit of [] \<Rightarrow> 0 | r # _ \<Rightarrow> rr_cumulative r)"

definition get_round_count :: "round_record list \<Rightarrow> nat" where
  "get_round_count audit = length audit"

definition AGGREGATION_STRATEGIES :: "string list" where
  "AGGREGATION_STRATEGIES = [''fedavg'', ''trimmed_mean'']"

definition epsilon_at_round :: "('der, 'pk, 'sig) fed_env \<Rightarrow> nat \<Rightarrow> real" where
  "epsilon_at_round env n = (if n = 0 then 0 else env_epsilon env n)"

definition new_server ::
    "fed_config \<Rightarrow> ('der, 'pk, 'sig) fed_env \<Rightarrow> admission_row list \<Rightarrow> round_record list \<Rightarrow> string \<Rightarrow> fed_error + 'pk fed_server" where
  "new_server cfg env admissions audit rid =
     (if fc_strategy cfg \<notin> set AGGREGATION_STRATEGIES then Inl (Bad_strategy (fc_strategy cfg))
      else
        let n = get_round_count audit in
        Inr \<lparr>fs_admissions = admissions, fs_audit = audit, fs_participants = Map.empty, fs_pending = [], fs_global = None,
          fs_previous_mean_delta = None, fs_round_id = rid, fs_round = n,
          fs_epsilon = (if 0 < fc_noise_multiplier cfg \<and> 0 < n then epsilon_at_round env n
                        else get_cumulative_epsilon audit),
          fs_in_progress = False\<rparr>)"

subsection \<open>Registration\<close>

definition register_participant ::
    "fed_config \<Rightarrow> ('der, 'pk, 'sig) fed_env \<Rightarrow> string \<Rightarrow> 'der \<Rightarrow> 'pk fed_server \<Rightarrow> fed_error + 'pk fed_server" where
  "register_participant cfg env pid der s =
     (case env_load_key env der of
        None \<Rightarrow> Inl Bad_key
      | Some pk \<Rightarrow>
          let enrol = (\<lambda>mx. Inr (s\<lparr>fs_participants := (fs_participants s)(pid \<mapsto>
                \<lparr>fp_key = pk, fp_max_n_samples = mx, fp_last_round = 0, fp_history_max = 0\<rparr>)\<rparr>)) in
          if fc_admission_required cfg then
            (case get_admission pid (fs_admissions s) of
               None \<Rightarrow> Inl (Not_admitted pid)
             | Some r \<Rightarrow> if ar_revoked r then Inl (Not_admitted pid) else enrol (Some (ar_max_n_samples r)))
          else enrol None)"

subsection \<open>Screening an update\<close>

definition within_budget :: "fed_config \<Rightarrow> ('der, 'pk, 'sig) fed_env \<Rightarrow> 'pk fed_server \<Rightarrow> bool" where
  "within_budget cfg env s \<longleftrightarrow>
     (if 0 < fc_noise_multiplier cfg then \<not> fc_max_epsilon cfg < epsilon_at_round env (fs_round s + 1)
      else \<not> fc_max_epsilon cfg \<le> fs_epsilon s)"

definition build_update_payload :: "'pk fed_server \<Rightarrow> string \<Rightarrow> real list \<Rightarrow> int \<Rightarrow> update_payload" where
  "build_update_payload s pid labels n =
     \<lparr>pl_participant = pid, pl_round_id = fs_round_id s, pl_soft_labels = labels, pl_n_samples = n\<rparr>"

definition clip_delta :: "real \<Rightarrow> real list \<Rightarrow> real list" where
  "clip_delta threshold delta =
     (if threshold < norm2 delta then map (\<lambda>x. x * (threshold / norm2 delta)) delta else delta)"

definition cosine_check :: "real \<Rightarrow> real list option \<Rightarrow> real list \<Rightarrow> fed_error + exclusion option" where
  "cosine_check threshold prev_mean delta =
     (case prev_mean of
        None \<Rightarrow> Inr None
      | Some m \<Rightarrow>
          if \<not> (1 / 10 ^ 10 < norm2 m \<and> 1 / 10 ^ 10 < norm2 delta) then Inr None
          else if length delta \<noteq> length m then Inl Shape_error
          else
            let cosine_sim = dot delta m / (norm2 delta * norm2 m) in
            Inr (if cosine_sim < threshold then Some (Cosine_outlier cosine_sim) else None))"

definition effective_n_samples :: "'pk fed_participant \<Rightarrow> int \<Rightarrow> int" where
  "effective_n_samples p n = (case fp_max_n_samples p of None \<Rightarrow> n | Some mx \<Rightarrow> min n mx)"

definition growth_check :: "fed_config \<Rightarrow> 'pk fed_participant \<Rightarrow> int \<Rightarrow> exclusion option" where
  "growth_check cfg p n =
     (if 0 < fp_history_max p \<and> fc_growth cfg * real_of_int (fp_history_max p) < real_of_int n
      then Some (Growth_exceeded n (fp_history_max p)) else None)"

definition screen_update ::
    "fed_config \<Rightarrow> string \<Rightarrow> real list \<Rightarrow> int \<Rightarrow> 'pk fed_participant \<Rightarrow> 'pk fed_server \<Rightarrow> fed_error + fed_update" where
  "screen_update cfg pid labels n p s =
     (let prev = (case fs_global s of None \<Rightarrow> replicate (length labels) (1 / 2) | Some g \<Rightarrow> g) in
      case bcast (-) labels prev of
        None \<Rightarrow> Inl Shape_error
      | Some raw \<Rightarrow>
          let delta = clip_delta (fc_clip cfg) raw in
          (case cosine_check (fc_outlier cfg) (fs_previous_mean_delta s) delta of
             Inl e \<Rightarrow> Inl e
           | Inr outlier \<Rightarrow>
               let eff = effective_n_samples p n;
                   exclusion = (case outlier of Some x \<Rightarrow> Some x | None \<Rightarrow> growth_check cfg p eff) in
               (case bcast (+) prev delta of
                  None \<Rightarrow> Inl Shape_error
                | Some back \<Rightarrow>
                    Inr \<lparr>fu_participant = pid, fu_labels = map clip01 back, fu_delta = delta, fu_n_samples = eff,
                      fu_claimed = n, fu_exclusion = exclusion\<rparr>)))"

subsection \<open>Krum\<close>

fun krum_f_down :: "nat \<Rightarrow> nat \<Rightarrow> nat" where
  "krum_f_down 0 n = 0"
| "krum_f_down (Suc f) n = (if n \<le> 2 * Suc f + 2 then krum_f_down f n else Suc f)"

definition select_krum_survivors ::
    "fed_config \<Rightarrow> fed_update list \<Rightarrow> robust_error + fed_update list \<times> string list" where
  "select_krum_survivors cfg us =
     (let n = length us in
      if \<not> fc_use_krum cfg \<or> n < 3 then Inr (us, [])
      else
        let f = krum_f_down (n div 3) n in
        if n \<le> 2 * f + 2 then Inr (us, [])
        else
          case krum_select f (map fu_delta us) (n - f) of
            Inl e \<Rightarrow> Inl e
          | Inr (selected, excluded, _) \<Rightarrow>
              Inr (map (\<lambda>i. us ! i) selected, map (\<lambda>i. fu_participant (us ! i)) excluded))"

subsection \<open>Aggregation\<close>

definition valid_updates :: "'pk fed_server \<Rightarrow> fed_update list" where
  "valid_updates s = filter (\<lambda>u. fu_exclusion u = None) (map snd (fs_pending s))"

definition fedavg :: "real list \<Rightarrow> fed_update list \<Rightarrow> real list" where
  "fedavg weights us =
     map (\<lambda>j. sum_list (map2 (\<lambda>w u. w * fu_labels u ! j) weights us)) [0..<length (fu_labels (hd us))]"

definition raw_weights :: "fed_update list \<Rightarrow> real list" where
  "raw_weights us = map (\<lambda>u. real_of_int (fu_n_samples u)) us"

definition combine_labels :: "fed_config \<Rightarrow> fed_update list \<Rightarrow> fed_error + real list" where
  "combine_labels cfg us =
     (if fc_strategy cfg = ''trimmed_mean'' then
        (case trimmed_mean (map fu_labels us) (fc_trim cfg) of Inl e \<Rightarrow> Inl (Robust_error e) | Inr r \<Rightarrow> Inr r)
      else if \<not> stackable (map fu_labels us) then Inl Shape_error
      else Inr (fedavg (apply_weight_share_cap (raw_weights us) (fc_weight_fraction cfg)) us))"

definition mean_delta :: "fed_update list \<Rightarrow> real list" where
  "mean_delta us = map (\<lambda>j. mean (column (map fu_delta us) j)) [0..<length (fu_delta (hd us))]"

definition capped_ids :: "fed_config \<Rightarrow> fed_update list \<Rightarrow> string list" where
  "capped_ids cfg us =
     (let raw = raw_weights us; weights = apply_weight_share_cap raw (fc_weight_fraction cfg) in
      map fst (filter (\<lambda>(_, w, raw_w). w < raw_w - 1 / 10 ^ 9)
        (zip (map fu_participant us) (zip weights (map (\<lambda>w. w / sum_list raw) raw)))))"

definition publish ::
    "fed_config \<Rightarrow> ('der, 'pk, 'sig) fed_env \<Rightarrow> round_env \<Rightarrow> fed_update list \<Rightarrow> string list \<Rightarrow> real list \<Rightarrow> real list \<Rightarrow> 'pk fed_server \<Rightarrow> 'pk fed_server" where
  "publish cfg env re us krum_excluded agg agg_delta s =
     (let n = fs_round s + 1;
          rdp = 0 < fc_noise_multiplier cfg;
          cumulative = (if rdp then epsilon_at_round env n else fs_epsilon s + fc_dp_epsilon cfg);
          consumed = (if rdp then cumulative - epsilon_at_round env (n - 1) else fc_dp_epsilon cfg);
          excluded = map fu_participant (filter (\<lambda>u. fu_exclusion u \<noteq> None) (map snd (fs_pending s))) @ krum_excluded;
          rec = build_record env (fs_round_id s) (map fu_participant us) (norm2 agg_delta) consumed cumulative excluded
                  (capped_ids cfg us) (re_now re)
      in s\<lparr>fs_previous_mean_delta := Some (mean_delta us), fs_global := Some agg, fs_round := n,
           fs_epsilon := cumulative, fs_audit := save_audit_record rec (fs_audit s), fs_round_id := re_round_id re,
           fs_pending := []\<rparr>)"

text \<open>Everything that can raise comes before the first assignment, so an error leaves the state as it was.\<close>

definition aggregate_locked ::
    "fed_config \<Rightarrow> ('der, 'pk, 'sig) fed_env \<Rightarrow> round_env \<Rightarrow> 'pk fed_server \<Rightarrow> fed_error + real list option \<times> 'pk fed_server" where
  "aggregate_locked cfg env re s =
     (if valid_updates s = [] then Inr (None, s)
      else case select_krum_survivors cfg (valid_updates s) of
        Inl e \<Rightarrow> Inl (Robust_error e)
      | Inr (us, krum_excluded) \<Rightarrow>
          if us = [] \<or> sum_list (map fu_n_samples us) = 0 then Inr (None, s)
          else case combine_labels cfg us of
            Inl e \<Rightarrow> Inl e
          | Inr labels \<Rightarrow>
              let agg = map (\<lambda>j. clip01 (labels ! j + re_noise re j)) [0..<length labels];
                  prev = (case fs_global s of None \<Rightarrow> replicate (length agg) (1 / 2) | Some g \<Rightarrow> g) in
              (case bcast (-) agg prev of
                 None \<Rightarrow> Inl Shape_error
               | Some agg_delta \<Rightarrow>
                   if \<not> stackable (map fu_delta us) then Inl Shape_error
                   else Inr (Some agg, publish cfg env re us krum_excluded agg agg_delta s)))"

definition force_aggregate ::
    "fed_config \<Rightarrow> ('der, 'pk, 'sig) fed_env \<Rightarrow> round_env \<Rightarrow> 'pk fed_server \<Rightarrow> (fed_error + real list option) \<times> 'pk fed_server" where
  "force_aggregate cfg env re s =
     (case aggregate_locked cfg env re s of Inl e \<Rightarrow> (Inl e, s) | Inr (r, s') \<Rightarrow> (Inr r, s'))"

subsection \<open>Submission\<close>

record submit_status =
  ss_accepted :: bool
  ss_reason :: "exclusion option"
  ss_pending_valid :: nat
  ss_quorum :: int
  ss_effective :: int
  ss_clamped :: bool

definition store_update :: "string \<Rightarrow> 'pk fed_participant \<Rightarrow> fed_update \<Rightarrow> 'pk fed_server \<Rightarrow> 'pk fed_server" where
  "store_update pid p u s =
     s\<lparr>fs_pending := AList.update pid u (fs_pending s),
       fs_participants := (fs_participants s)(pid \<mapsto> p\<lparr>fp_last_round := fu_n_samples u,
         fp_history_max := (if fu_exclusion u = None then max (fp_history_max p) (fu_n_samples u) else fp_history_max p)\<rparr>)\<rparr>"

definition submit_update ::
    "fed_config \<Rightarrow> ('der, 'pk, 'sig) fed_env \<Rightarrow> round_env \<Rightarrow> string \<Rightarrow> real list \<Rightarrow> int \<Rightarrow> 'sig \<Rightarrow> 'pk fed_server
     \<Rightarrow> (fed_error + submit_status) \<times> 'pk fed_server" where
  "submit_update cfg env re pid labels n signature s =
     (case fs_participants s pid of
        None \<Rightarrow> (Inl (Unknown_participant pid), s)
      | Some p \<Rightarrow>
          if \<not> within_budget cfg env s then (Inl Budget_exhausted, s)
          else if \<not> env_verify env (fp_key p) signature (build_update_payload s pid labels n)
            then (Inl (Invalid_signature pid), s)
          else case screen_update cfg pid labels n p s of
            Inl e \<Rightarrow> (Inl e, s)
          | Inr u \<Rightarrow>
              let s1 = store_update pid p u s;
                  n_valid = length (valid_updates s1);
                  status = \<lparr>ss_accepted = (fu_exclusion u = None), ss_reason = fu_exclusion u, ss_pending_valid = n_valid,
                    ss_quorum = fc_min_participants cfg, ss_effective = fu_n_samples u,
                    ss_clamped = (fu_n_samples u < n)\<rparr> in
              if fc_min_participants cfg \<le> int n_valid \<and> \<not> fs_in_progress s1 then
                let s2 = s1\<lparr>fs_in_progress := True\<rparr> in
                (case aggregate_locked cfg env re s2 of
                   Inl e \<Rightarrow> (Inl e, s2)
                 | Inr (_, s3) \<Rightarrow> (Inr status, s3\<lparr>fs_in_progress := False\<rparr>))
              else (Inr status, s1))"

subsection \<open>Runs\<close>

datatype ('der, 'sig) fed_op = Register string 'der | Admission admission_op
  | Submit round_env string "real list" int 'sig | Force round_env

definition fed_step ::
    "fed_config \<Rightarrow> ('der, 'pk, 'sig) fed_env \<Rightarrow> ('der, 'sig) fed_op \<Rightarrow> 'pk fed_server \<Rightarrow> 'pk fed_server" where
  "fed_step cfg env op s =
     (case op of
        Register pid der \<Rightarrow> (case register_participant cfg env pid der s of Inl _ \<Rightarrow> s | Inr s' \<Rightarrow> s')
      | Admission a \<Rightarrow> s\<lparr>fs_admissions := admission_step a (fs_admissions s)\<rparr>
      | Submit re pid labels n signature \<Rightarrow> snd (submit_update cfg env re pid labels n signature s)
      | Force re \<Rightarrow> snd (force_aggregate cfg env re s))"

subsection \<open>Lemmas\<close>

lemma clip01_range [simp]: "0 \<le> clip01 x" "clip01 x \<le> 1"
  by (simp_all add: clip01_def)

lemma norm2_nonneg [simp]: "0 \<le> norm2 u"
  by (auto simp: norm2_def intro!: sum_list_nonneg)

lemma norm2_scale: "0 \<le> c \<Longrightarrow> norm2 (map (\<lambda>x. x * c) u) = norm2 u * c"
proof -
  assume c: "0 \<le> c"
  have "sum_list (map (\<lambda>x. (x * c) ^ 2) u) = sum_list (map (\<lambda>x. x ^ 2) u) * c ^ 2"
    by (simp add: power_mult_distrib sum_list_mult_const)
  with c show ?thesis by (simp add: norm2_def comp_def real_sqrt_mult)
qed

lemma norm2_clip_delta: "0 \<le> threshold \<Longrightarrow> norm2 (clip_delta threshold delta) \<le> threshold"
proof (cases "threshold < norm2 delta")
  case True
  assume t: "0 \<le> threshold"
  with norm2_scale [of "threshold / norm2 delta" delta]
  have "norm2 (map (\<lambda>x. x * (threshold / norm2 delta)) delta) = norm2 delta * (threshold / norm2 delta)" by simp
  also have "\<dots> = threshold" using True t by simp
  finally show ?thesis using True by (simp add: clip_delta_def)
qed (simp add: clip_delta_def)

lemma screen_updateD:
  assumes "screen_update cfg pid labels n p s = Inr u"
  shows "fu_participant u = pid" "fu_n_samples u = effective_n_samples p n" "fu_claimed u = n"
    "fu_exclusion u = None \<Longrightarrow> growth_check cfg p (fu_n_samples u) = None"
    "0 \<le> fc_clip cfg \<Longrightarrow> norm2 (fu_delta u) \<le> fc_clip cfg" "\<forall>x \<in> set (fu_labels u). 0 \<le> x \<and> x \<le> 1"
  using assms by (auto simp: screen_update_def Let_def norm2_clip_delta split: option.splits sum.splits)

lemma aggregate_lockedE:
  assumes "aggregate_locked cfg env re s = Inr (r, s')"
  obtains (skipped) "r = None" "s' = s"
  | (published) us krum_excluded agg agg_delta where
      "valid_updates s \<noteq> []" "us \<noteq> []" "select_krum_survivors cfg (valid_updates s) = Inr (us, krum_excluded)"
      "r = Some agg" "\<forall>x \<in> set agg. 0 \<le> x \<and> x \<le> 1" "s' = publish cfg env re us krum_excluded agg agg_delta s"
  using assms by (auto simp: aggregate_locked_def Let_def split: if_splits sum.splits option.splits prod.splits)

lemma publish_simps [simp]:
  "fs_pending (publish cfg env re us kx agg d s) = []"
  "fs_round (publish cfg env re us kx agg d s) = fs_round s + 1"
  "fs_round_id (publish cfg env re us kx agg d s) = re_round_id re"
  "fs_global (publish cfg env re us kx agg d s) = Some agg"
  "fs_participants (publish cfg env re us kx agg d s) = fs_participants s"
  "fs_admissions (publish cfg env re us kx agg d s) = fs_admissions s"
  "fs_in_progress (publish cfg env re us kx agg d s) = fs_in_progress s"
  "fs_epsilon (publish cfg env re us kx agg d s) =
     (if 0 < fc_noise_multiplier cfg then epsilon_at_round env (fs_round s + 1) else fs_epsilon s + fc_dp_epsilon cfg)"
  by (simp_all add: publish_def Let_def)

text \<open>What a submission does: nothing, or it stores the screened update, and then at most one aggregation.\<close>

lemma submit_updateE:
  assumes "submit_update cfg env re pid labels n signature s = (res, s')"
  obtains (refused) "s' = s"
  | (stored) p u where "fs_participants s pid = Some p" "within_budget cfg env s"
      "env_verify env (fp_key p) signature (build_update_payload s pid labels n)"
      "screen_update cfg pid labels n p s = Inr u" "s' = store_update pid p u s" "\<exists>st. res = Inr st"
  | (failed) p u where "fs_participants s pid = Some p" "within_budget cfg env s"
      "env_verify env (fp_key p) signature (build_update_payload s pid labels n)"
      "screen_update cfg pid labels n p s = Inr u" "s' = (store_update pid p u s)\<lparr>fs_in_progress := True\<rparr>"
      "\<exists>e. aggregate_locked cfg env re s' = Inl e \<and> res = Inl e"
  | (aggregated) p u r s3 where "fs_participants s pid = Some p" "within_budget cfg env s"
      "env_verify env (fp_key p) signature (build_update_payload s pid labels n)"
      "screen_update cfg pid labels n p s = Inr u" "\<not> fs_in_progress s"
      "aggregate_locked cfg env re ((store_update pid p u s)\<lparr>fs_in_progress := True\<rparr>) = Inr (r, s3)"
      "s' = s3\<lparr>fs_in_progress := False\<rparr>"
proof (cases "fs_participants s pid")
  case None
  with assms refused show ?thesis by (simp add: submit_update_def)
next
  case (Some p)
  show ?thesis
  proof (cases "within_budget cfg env s \<and> env_verify env (fp_key p) signature (build_update_payload s pid labels n)")
    case False
    with Some assms refused show ?thesis by (auto simp: submit_update_def split: if_splits)
  next
    case ok: True
    show ?thesis
    proof (cases "screen_update cfg pid labels n p s")
      case (Inl e)
      with Some ok assms refused show ?thesis by (simp add: submit_update_def)
    next
      case (Inr u)
      let ?s1 = "store_update pid p u s"
      show ?thesis
      proof (cases "fc_min_participants cfg \<le> int (length (valid_updates ?s1)) \<and> \<not> fs_in_progress ?s1")
        case False
        with Some ok Inr assms have "s' = ?s1" "\<exists>st. res = Inr st" by (auto simp: submit_update_def Let_def)
        with Some ok Inr stored show ?thesis by blast
      next
        case True
        then have idle: "\<not> fs_in_progress s" by (simp add: store_update_def)
        show ?thesis
        proof (cases "aggregate_locked cfg env re (?s1\<lparr>fs_in_progress := True\<rparr>)")
          case (Inl e)
          with True Some ok \<open>screen_update cfg pid labels n p s = Inr u\<close> assms
          have "s' = ?s1\<lparr>fs_in_progress := True\<rparr>" "res = Inl e" by (auto simp: submit_update_def Let_def)
          with Inl Some ok \<open>screen_update cfg pid labels n p s = Inr u\<close> failed show ?thesis by blast
        next
          case (Inr rs)
          obtain r s3 where rs: "rs = (r, s3)" by (cases rs)
          with Inr True Some ok \<open>screen_update cfg pid labels n p s = Inr u\<close> assms
          have "s' = s3\<lparr>fs_in_progress := False\<rparr>" by (auto simp: submit_update_def Let_def)
          with Inr rs idle Some ok \<open>screen_update cfg pid labels n p s = Inr u\<close> aggregated show ?thesis by blast
        qed
      qed
    qed
  qed
qed

lemma store_update_simps [simp]:
  "fs_admissions (store_update pid p u s) = fs_admissions s"
  "fs_audit (store_update pid p u s) = fs_audit s"
  "fs_global (store_update pid p u s) = fs_global s"
  "fs_previous_mean_delta (store_update pid p u s) = fs_previous_mean_delta s"
  "fs_round_id (store_update pid p u s) = fs_round_id s"
  "fs_round (store_update pid p u s) = fs_round s"
  "fs_epsilon (store_update pid p u s) = fs_epsilon s"
  "fs_in_progress (store_update pid p u s) = fs_in_progress s"
  "fs_pending (store_update pid p u s) = AList.update pid u (fs_pending s)"
  by (simp_all add: store_update_def)

lemma register_participantD:
  assumes "register_participant cfg env pid der s = Inr s'"
  obtains pk mx where "env_load_key env der = Some pk"
    "fc_admission_required cfg \<Longrightarrow> \<exists>r. get_admission pid (fs_admissions s) = Some r \<and> \<not> ar_revoked r \<and> mx = Some (ar_max_n_samples r)"
    "s' = s\<lparr>fs_participants := (fs_participants s)(pid \<mapsto> \<lparr>fp_key = pk, fp_max_n_samples = mx, fp_last_round = 0, fp_history_max = 0\<rparr>)\<rparr>"
  using assms by (auto simp: register_participant_def Let_def split: option.splits if_splits)

subsection \<open>The privacy budget\<close>

definition epsilon_limit :: "fed_config \<Rightarrow> real" where
  "epsilon_limit cfg = fc_max_epsilon cfg + (if 0 < fc_noise_multiplier cfg then 0 else fc_dp_epsilon cfg)"

definition budget_inv :: "fed_config \<Rightarrow> ('der, 'pk, 'sig) fed_env \<Rightarrow> 'pk fed_server \<Rightarrow> bool" where
  "budget_inv cfg env s \<longleftrightarrow> fs_epsilon s \<le> epsilon_limit cfg \<and> (fs_pending s \<noteq> [] \<longrightarrow> within_budget cfg env s)"

lemma within_budget_cong:
  "fs_round s' = fs_round s \<Longrightarrow> fs_epsilon s' = fs_epsilon s \<Longrightarrow> within_budget cfg env s' = within_budget cfg env s"
  by (simp add: within_budget_def)

lemma budget_inv_aggregate:
  assumes "aggregate_locked cfg env re s = Inr (r, s')" "budget_inv cfg env s"
  shows "budget_inv cfg env s'"
  using assms(1)
proof (cases rule: aggregate_lockedE)
  case (published us kx agg d)
  then have "fs_pending s \<noteq> []" by (auto simp: valid_updates_def)
  with assms(2) have "within_budget cfg env s" by (simp add: budget_inv_def)
  with published show ?thesis by (auto simp: budget_inv_def epsilon_limit_def within_budget_def)
qed (use assms in simp)

lemma budget_inv_store: "within_budget cfg env s \<Longrightarrow> budget_inv cfg env s \<Longrightarrow> budget_inv cfg env (store_update pid p u s)"
  by (auto simp: budget_inv_def within_budget_def)

lemma budget_inv_in_progress [simp]: "budget_inv cfg env (s\<lparr>fs_in_progress := b\<rparr>) = budget_inv cfg env s"
  by (simp add: budget_inv_def within_budget_def)

lemma budget_inv_step: "budget_inv cfg env s \<Longrightarrow> budget_inv cfg env (fed_step cfg env op s)"
proof -
  assume inv: "budget_inv cfg env s"
  show ?thesis
  proof (cases op)
    case (Register pid der)
    with inv show ?thesis
      by (cases "register_participant cfg env pid der s")
        (auto simp: fed_step_def budget_inv_def within_budget_def elim!: register_participantD)
  next
    case (Admission a)
    with inv show ?thesis by (auto simp: fed_step_def budget_inv_def within_budget_def)
  next
    case (Submit re pid labels n signature)
    obtain res s' where sub: "submit_update cfg env re pid labels n signature s = (res, s')" by fastforce
    then have "budget_inv cfg env s'"
      by (cases rule: submit_updateE) (use inv in \<open>auto simp: budget_inv_store dest!: budget_inv_aggregate\<close>)
    with sub Submit show ?thesis by (simp add: fed_step_def)
  next
    case (Force re)
    with inv show ?thesis
      by (auto simp: fed_step_def force_aggregate_def split: sum.splits dest: budget_inv_aggregate)
  qed
qed


text \<open>A toy instance for the witnesses: keys and signatures are numbers, a signature is the key itself.\<close>

definition toy_cfg :: fed_config where
  "toy_cfg = \<lparr>fc_min_participants = 2, fc_clip = 10, fc_outlier = 0, fc_dp_epsilon = 1, fc_max_epsilon = 3,
     fc_noise_multiplier = 0, fc_admission_required = True, fc_weight_fraction = 1 / 2, fc_growth = 3,
     fc_use_krum = True, fc_strategy = ''fedavg'', fc_trim = 0\<rparr>"

definition toy_env :: "(nat, nat, nat) fed_env" where
  "toy_env = \<lparr>env_load_key = Some, env_verify = (\<lambda>k signature _. k = signature), env_epsilon = real, env_hash = id\<rparr>"

definition toy_server :: "nat fed_server" where
  "toy_server = \<lparr>fs_admissions = [], fs_audit = [], fs_participants = Map.empty, fs_pending = [], fs_global = None,
     fs_previous_mean_delta = None, fs_round_id = ''r0'', fs_round = 0, fs_epsilon = 0, fs_in_progress = False\<rparr>"

definition toy_round :: "string \<Rightarrow> time \<Rightarrow> round_env" where
  "toy_round rid t = \<lparr>re_noise = (\<lambda>_. 0), re_round_id = rid, re_now = t\<rparr>"

lemma fed_toy_new: "new_server toy_cfg toy_env [] [] ''r0'' = Inr toy_server"
  by (simp add: new_server_def toy_cfg_def toy_server_def AGGREGATION_STRATEGIES_def get_round_count_def
      get_cumulative_epsilon_def)


subsection \<open>What a submission can carry into a round\<close>

definition update_ok :: "fed_config \<Rightarrow> fed_update \<Rightarrow> bool" where
  "update_ok cfg u \<longleftrightarrow> (\<forall>x \<in> set (fu_labels u). 0 \<le> x \<and> x \<le> 1) \<and> norm2 (fu_delta u) \<le> fc_clip cfg"

definition server_ok :: "fed_config \<Rightarrow> 'pk fed_server \<Rightarrow> bool" where
  "server_ok cfg s \<longleftrightarrow>
     (\<forall>g. fs_global s = Some g \<longrightarrow> (\<forall>x \<in> set g. 0 \<le> x \<and> x \<le> 1)) \<and>
     (\<forall>(pid, u) \<in> set (fs_pending s). fu_participant u = pid \<and> update_ok cfg u) \<and>
     distinct (map fst (fs_pending s)) \<and> admissions_ok (fs_admissions s) \<and>
     (\<forall>pid p. fs_participants s pid = Some p \<longrightarrow>
        0 \<le> fp_history_max p \<and>
        (fc_admission_required cfg \<longrightarrow> (\<exists>mx. fp_max_n_samples p = Some mx \<and> 0 < mx \<and> fp_history_max p \<le> mx)))"

lemma set_alist_update: "set (AList.update k v al) \<subseteq> insert (k, v) (set al)"
  by (induction al) auto

lemma server_ok_store:
  assumes "server_ok cfg s" "fs_participants s pid = Some p" "screen_update cfg pid labels n p s = Inr u" "0 \<le> fc_clip cfg"
  shows "server_ok cfg (store_update pid p u s)"
proof -
  have "fu_participant u = pid \<and> update_ok cfg u" using screen_updateD [OF assms(3)] assms(4) by (simp add: update_ok_def)
  then have pend: "\<forall>(q, v) \<in> set (fs_pending (store_update pid p u s)). fu_participant v = q \<and> update_ok cfg v"
    using assms(1) set_alist_update [of pid u "fs_pending s"] by (fastforce simp: server_ok_def)
  let ?p = "p\<lparr>fp_last_round := fu_n_samples u,
      fp_history_max := (if fu_exclusion u = None then max (fp_history_max p) (fu_n_samples u) else fp_history_max p)\<rparr>"
  have p: "0 \<le> fp_history_max p" "fc_admission_required cfg \<Longrightarrow>
      \<exists>mx. fp_max_n_samples p = Some mx \<and> 0 < mx \<and> fp_history_max p \<le> mx"
    using assms(1,2) by (auto simp: server_ok_def)
  have ceiling: "fc_admission_required cfg \<Longrightarrow> \<exists>mx. fp_max_n_samples ?p = Some mx \<and> 0 < mx \<and> fp_history_max ?p \<le> mx"
    using p(2) screen_updateD(2) [OF assms(3)] by (auto simp: effective_n_samples_def)
  have history: "0 \<le> fp_history_max ?p" using p(1) by (simp add: le_max_iff_disj)
  have new: "fs_participants (store_update pid p u s) = (fs_participants s)(pid \<mapsto> ?p)" by (simp add: store_update_def)
  have parts: "\<forall>q r. fs_participants (store_update pid p u s) q = Some r \<longrightarrow> 0 \<le> fp_history_max r \<and>
      (fc_admission_required cfg \<longrightarrow> (\<exists>mx. fp_max_n_samples r = Some mx \<and> 0 < mx \<and> fp_history_max r \<le> mx))"
  proof (intro allI impI)
    fix q r
    assume "fs_participants (store_update pid p u s) q = Some r"
    then have upd: "((fs_participants s)(pid \<mapsto> ?p)) q = Some r" unfolding new .
    show "0 \<le> fp_history_max r \<and>
      (fc_admission_required cfg \<longrightarrow> (\<exists>mx. fp_max_n_samples r = Some mx \<and> 0 < mx \<and> fp_history_max r \<le> mx))"
    proof (cases "q = pid")
      case True
      then have r: "r = ?p" using upd by (simp only: fun_upd_same option.inject)
      show ?thesis unfolding r using ceiling history by blast
    next
      case False
      then have "fs_participants s q = Some r" using upd by (simp only: fun_upd_other not_False_eq_True)
      with assms(1) show ?thesis by (simp add: server_ok_def)
    qed
  qed
  show ?thesis using assms(1) pend parts by (simp add: server_ok_def distinct_update)
qed

lemma server_ok_aggregate:
  assumes "aggregate_locked cfg env re s = Inr (r, s')" "server_ok cfg s"
  shows "server_ok cfg s'"
  using assms(1) by (cases rule: aggregate_lockedE) (use assms(2) in \<open>auto simp: server_ok_def\<close>)

lemma server_ok_in_progress [simp]: "server_ok cfg (s\<lparr>fs_in_progress := b\<rparr>) = server_ok cfg s"
  by (simp add: server_ok_def)

lemma server_ok_register:
  assumes "register_participant cfg env pid der s = Inr s'" "server_ok cfg s"
  shows "server_ok cfg s'"
proof -
  from assms(1) obtain pk mx where
    mx: "fc_admission_required cfg \<Longrightarrow> \<exists>r. get_admission pid (fs_admissions s) = Some r \<and> mx = Some (ar_max_n_samples r)" and
    s': "s' = s\<lparr>fs_participants := (fs_participants s)(pid \<mapsto> \<lparr>fp_key = pk, fp_max_n_samples = mx, fp_last_round = 0, fp_history_max = 0\<rparr>)\<rparr>"
    by (elim register_participantD) blast
  have "fc_admission_required cfg \<Longrightarrow> \<exists>m. mx = Some m \<and> 0 < m"
    using mx assms(2) get_admission_positive by (fastforce simp: server_ok_def)
  with assms(2) show ?thesis unfolding s' by (auto simp: server_ok_def)
qed

lemma admission_step_ok: "admissions_ok db \<Longrightarrow> admissions_ok (admission_step op db)"
  using admissions_ok_run [of db "[op]"] by simp

lemma server_ok_step: "0 \<le> fc_clip cfg \<Longrightarrow> server_ok cfg s \<Longrightarrow> server_ok cfg (fed_step cfg env op s)"
proof -
  assume clip: "0 \<le> fc_clip cfg" and ok: "server_ok cfg s"
  show ?thesis
  proof (cases op)
    case (Register pid der)
    with ok show ?thesis by (auto simp: fed_step_def split: sum.splits dest: server_ok_register)
  next
    case (Admission a)
    with ok show ?thesis by (simp add: fed_step_def server_ok_def admission_step_ok)
  next
    case (Submit re pid labels n signature)
    obtain res s' where sub: "submit_update cfg env re pid labels n signature s = (res, s')" by fastforce
    then have "server_ok cfg s'"
      by (cases rule: submit_updateE)
        (use ok clip in \<open>auto simp: server_ok_store dest!: server_ok_aggregate\<close>)
    with sub Submit show ?thesis by (simp add: fed_step_def)
  next
    case (Force re)
    with ok show ?thesis by (auto simp: fed_step_def force_aggregate_def split: sum.splits dest: server_ok_aggregate)
  qed
qed

text \<open>The state stays well formed. After any sequence of operations the published global labels and all pending
  labels lie in the unit interval, every pending delta is within the clipping norm, each participant has at most one
  pending update, and, when admission is required, every participant has a positive ceiling its accepted history never
  exceeds.\<close>

theorem federated_state_well_formed:
  assumes "0 \<le> fc_clip cfg" "new_server cfg env [] audit rid = Inr s"
  shows "server_ok cfg (fold (fed_step cfg env) ops s)"
proof -
  have "server_ok cfg s"
    using assms(2) by (auto simp: new_server_def Let_def server_ok_def admissions_ok_def split: if_splits)
  then show ?thesis by (induction ops arbitrary: s) (simp_all add: server_ok_step assms(1))
qed

theorem federated_state_well_formed_witness:
  "server_ok toy_cfg (fold (fed_step toy_cfg toy_env) [Register ''a'' 7, Submit (toy_round ''r1'' 6) ''a'' [1] 50 7] toy_server)"
  using federated_state_well_formed [OF _ fed_toy_new, of "[Register ''a'' 7, Submit (toy_round ''r1'' 6) ''a'' [1] 50 7]"] by (simp add: toy_cfg_def)

text \<open>An update counts only if it is authentic, current and within its weight limits: when a submission is reported
  accepted, the identity is registered, its key verifies the signature over the identity, the labels, the claimed count
  and the id of the current round, the privacy budget allows another round, and the credited sample count is at most the
  claim, at most the admitted ceiling and at most the growth factor times the accepted history.\<close>

theorem accepted_update_authentic_and_bounded:
  assumes "submit_update cfg env re pid labels n signature s = (Inr st, s')" "ss_accepted st"
  shows "\<exists>p. fs_participants s pid = Some p \<and> within_budget cfg env s \<and>
    env_verify env (fp_key p) signature
      \<lparr>pl_participant = pid, pl_round_id = fs_round_id s, pl_soft_labels = labels, pl_n_samples = n\<rparr> \<and>
    ss_effective st \<le> n \<and> (\<forall>mx. fp_max_n_samples p = Some mx \<longrightarrow> ss_effective st \<le> mx) \<and>
    (0 < fp_history_max p \<longrightarrow> real_of_int (ss_effective st) \<le> fc_growth cfg * real_of_int (fp_history_max p))"
proof -
  from assms obtain p u where p: "fs_participants s pid = Some p" "within_budget cfg env s"
      "env_verify env (fp_key p) signature (build_update_payload s pid labels n)"
      "screen_update cfg pid labels n p s = Inr u" "fu_exclusion u = None" "ss_effective st = fu_n_samples u"
    by (auto simp: submit_update_def Let_def split: option.splits if_splits sum.splits prod.splits)
  note u = screen_updateD [OF p(4)]
  from u(4) [OF p(5)] have "0 < fp_history_max p \<longrightarrow> real_of_int (fu_n_samples u) \<le> fc_growth cfg * real_of_int (fp_history_max p)"
    by (auto simp: growth_check_def not_less split: if_splits)
  moreover have "fu_n_samples u \<le> n" "\<forall>mx. fp_max_n_samples p = Some mx \<longrightarrow> fu_n_samples u \<le> mx"
    by (auto simp: u(2) effective_n_samples_def split: option.splits)
  ultimately show ?thesis using p by (simp add: build_update_payload_def)
qed

definition toy_admitted :: "nat fed_server" where
  "toy_admitted = fold (fed_step toy_cfg toy_env)
     [Admission (Admit ''a'' 100 ''op'' 0), Admission (Admit ''b'' 100 ''op'' 0), Register ''a'' 7, Register ''b'' 8] toy_server"

lemmas toy_simps = toy_cfg_def toy_env_def toy_server_def toy_round_def

lemma toy_admitted_simps [simp]:
  "fs_participants toy_admitted ''a'' = Some \<lparr>fp_key = 7, fp_max_n_samples = Some 100, fp_last_round = 0, fp_history_max = 0\<rparr>"
  "fs_participants toy_admitted ''b'' = Some \<lparr>fp_key = 8, fp_max_n_samples = Some 100, fp_last_round = 0, fp_history_max = 0\<rparr>"
  "fs_pending toy_admitted = []" "fs_global toy_admitted = None" "fs_previous_mean_delta toy_admitted = None"
  "fs_round_id toy_admitted = ''r0''" "fs_round toy_admitted = 0" "fs_epsilon toy_admitted = 0"
  "\<not> fs_in_progress toy_admitted"
  by (simp_all add: toy_admitted_def toy_simps fed_step_def admission_step_def admit_participant_def admit_upsert_def
      register_participant_def get_admission_def record_of_def)

text \<open>A submission by \<open>a\<close> of one label far below the quorum.\<close>

lemma toy_budget: "within_budget toy_cfg toy_env toy_admitted"
  by (simp add: within_budget_def toy_simps)

definition toy_update :: "string \<Rightarrow> real list \<Rightarrow> int \<Rightarrow> int \<Rightarrow> fed_update" where
  "toy_update pid labels n eff = \<lparr>fu_participant = pid, fu_labels = labels, fu_delta = map (\<lambda>x. x - 1 / 2) labels,
     fu_n_samples = eff, fu_claimed = n, fu_exclusion = None\<rparr>"

lemma toy_screen:
  assumes "fs_global s = None" "fs_previous_mean_delta s = None" "fp_max_n_samples p = Some 100" "fp_history_max p = 0"
    "labels \<in> {[1], [1, 1]}"
  shows "screen_update toy_cfg pid labels n p s = Inr (toy_update pid labels n (min n 100))"
  using assms real_sqrt_le_mono [of "1 / 2" 100] real_sqrt_le_mono [of "1 / 4" 100]
  by (auto simp: screen_update_def Let_def bcast_def clip_delta_def norm2_def cosine_check_def
      effective_n_samples_def growth_check_def toy_cfg_def toy_update_def clip01_def power2_eq_square)

lemma toy_submit:
  "submit_update toy_cfg toy_env re ''a'' [1] 500 7 toy_admitted =
     (Inr \<lparr>ss_accepted = True, ss_reason = None, ss_pending_valid = 1, ss_quorum = 2, ss_effective = 100, ss_clamped = True\<rparr>,
      store_update ''a'' \<lparr>fp_key = 7, fp_max_n_samples = Some 100, fp_last_round = 0, fp_history_max = 0\<rparr>
        (toy_update ''a'' [1] 500 100) toy_admitted)"
proof -
  let ?p = "\<lparr>fp_key = 7, fp_max_n_samples = Some 100, fp_last_round = 0, fp_history_max = 0\<rparr> :: nat fed_participant"
  have "screen_update toy_cfg ''a'' [1] 500 ?p toy_admitted = Inr (toy_update ''a'' [1] 500 100)"
    using toy_screen [of toy_admitted ?p "[1]" "''a''" 500] by simp
  then show ?thesis
    by (simp add: submit_update_def toy_budget Let_def valid_updates_def toy_update_def)
      (simp add: toy_simps)
qed

theorem accepted_update_authentic_and_bounded_witness:
  "\<exists>st s'. submit_update toy_cfg toy_env (toy_round ''r1'' 5) ''a'' [1] 500 7 toy_admitted = (Inr st, s') \<and>
     ss_accepted st \<and> ss_effective st \<le> 100"
  using accepted_update_authentic_and_bounded [OF toy_submit [of "toy_round ''r1'' 5"]] toy_submit [of "toy_round ''r1'' 5"]
  by simp

subsection \<open>A failed aggregation\<close>

text \<open>Steps other than a forced aggregation start no round while the flag is set.\<close>

lemma in_progress_step:
  assumes "fs_in_progress s" "\<And>re. op \<noteq> Force re"
  shows "fs_in_progress (fed_step cfg env op s) \<and> fs_round (fed_step cfg env op s) = fs_round s \<and>
    fs_global (fed_step cfg env op s) = fs_global s"
proof (cases op)
  case (Register pid der)
  with assms show ?thesis
    by (cases "register_participant cfg env pid der s") (auto simp: fed_step_def elim!: register_participantD)
next
  case (Submit re pid labels n signature)
  obtain res s' where sub: "submit_update cfg env re pid labels n signature s = (res, s')" by fastforce
  then have "fs_in_progress s' \<and> fs_round s' = fs_round s \<and> fs_global s' = fs_global s"
    by (cases rule: submit_updateE) (use assms(1) in simp_all)
  with sub Submit show ?thesis by (simp add: fed_step_def)
qed (use assms in \<open>simp_all add: fed_step_def\<close>)

text \<open>One failed aggregation stops the rounds for good. When the aggregation a submission triggers raises (two
  participants sent label vectors of different length, say), the in-progress flag stays set, and no later registration,
  admission or submission by anyone ever aggregates a round again.\<close>

theorem failed_aggregation_stops_rounds:
  assumes "submit_update cfg env re pid labels n signature s = (Inl e, s')" "s' \<noteq> s"
    "\<And>op. op \<in> set ops \<Longrightarrow> (\<forall>re. op \<noteq> Force re)"
  shows "fs_round (fold (fed_step cfg env) ops s') = fs_round s \<and>
    fs_global (fold (fed_step cfg env) ops s') = fs_global s"
proof -
  from assms(1) have "fs_in_progress s' \<and> fs_round s' = fs_round s \<and> fs_global s' = fs_global s"
  proof (cases rule: submit_updateE)
    case (aggregated p u r s3)
    with assms(1) show ?thesis by (auto simp: submit_update_def Let_def split: if_splits)
  qed (use assms(2) in simp_all)
  with assms(3) show ?thesis
  proof (induction ops arbitrary: s')
    case (Cons op ops)
    from in_progress_step [of s' op cfg env] Cons.prems have
      "fs_in_progress (fed_step cfg env op s') \<and> fs_round (fed_step cfg env op s') = fs_round s \<and>
       fs_global (fed_step cfg env op s') = fs_global s" by auto
    with Cons.IH [of "fed_step cfg env op s'"] Cons.prems show ?case by simp
  qed simp
qed

definition toy_half :: "nat fed_server" where
  "toy_half = store_update ''a'' \<lparr>fp_key = 7, fp_max_n_samples = Some 100, fp_last_round = 0, fp_history_max = 0\<rparr>
     (toy_update ''a'' [1] 500 100) toy_admitted"

lemma toy_mismatch:
  "\<exists>s'. submit_update toy_cfg toy_env re ''b'' [1, 1] 50 8 toy_half = (Inl Shape_error, s') \<and> s' \<noteq> toy_half"
proof -
  let ?p = "\<lparr>fp_key = 8, fp_max_n_samples = Some 100, fp_last_round = 0, fp_history_max = 0\<rparr> :: nat fed_participant"
  have h: "fs_participants toy_half ''b'' = Some ?p" "fs_global toy_half = None" "fs_previous_mean_delta toy_half = None"
    "fs_pending toy_half = [(''a'', toy_update ''a'' [1] 500 100)]" "\<not> fs_in_progress toy_half"
    by (simp_all add: toy_half_def) (simp add: store_update_def)
  have b: "within_budget toy_cfg toy_env toy_half"
    unfolding toy_half_def using toy_budget by (subst within_budget_cong) (simp_all only: store_update_simps)
  have "screen_update toy_cfg ''b'' [1, 1] 50 ?p toy_half = Inr (toy_update ''b'' [1, 1] 50 50)"
    using toy_screen [of toy_half ?p "[1, 1]" "''b''" 50] h by simp
  with h b show ?thesis
    by (simp add: submit_update_def Let_def valid_updates_def toy_update_def aggregate_locked_def select_krum_survivors_def
        combine_labels_def stackable_def) (auto simp: toy_simps dest: arg_cong [of _ _ fs_in_progress])
qed

theorem failed_aggregation_stops_rounds_witness:
  "\<exists>s'. submit_update toy_cfg toy_env (toy_round ''r1'' 5) ''b'' [1, 1] 50 8 toy_half = (Inl Shape_error, s') \<and>
     fs_round (fold (fed_step toy_cfg toy_env)
       [Submit (toy_round ''r1'' 6) ''a'' [1] 50 7, Submit (toy_round ''r1'' 7) ''b'' [1] 50 8] s') = 0"
proof -
  obtain s' where s': "submit_update toy_cfg toy_env (toy_round ''r1'' 5) ''b'' [1, 1] 50 8 toy_half = (Inl Shape_error, s')"
    "s' \<noteq> toy_half" using toy_mismatch by blast
  have "fs_round toy_half = 0" by (simp add: toy_half_def)
  with failed_aggregation_stops_rounds [OF s', of
      "[Submit (toy_round ''r1'' 6) ''a'' [1] 50 7, Submit (toy_round ''r1'' 7) ''b'' [1] 50 8]"] s'(1)
  show ?thesis by auto
qed

subsection \<open>Identity and history\<close>

text \<open>Registration authenticates nobody. Whoever registers an admitted identity again, with any key, takes it over:
  the old key's signatures are refused, the new key's count, and the accepted history the growth check relies on is
  forgotten.\<close>

theorem reregistration_takes_over_identity:
  assumes "register_participant cfg env pid der s = Inr s'" "env_load_key env der = Some pk"
  shows "\<exists>p. fs_participants s' pid = Some p \<and> fp_key p = pk \<and> fp_history_max p = 0 \<and>
      (\<forall>n. growth_check cfg p n = None) \<and>
      (\<forall>re labels n signature. within_budget cfg env s \<longrightarrow>
         \<not> env_verify env pk signature (build_update_payload s pid labels n) \<longrightarrow>
         submit_update cfg env re pid labels n signature s' = (Inl (Invalid_signature pid), s'))"
  using assms(1)
proof (cases rule: register_participantD)
  case (1 pk' mx)
  then have "pk' = pk" using assms(2) by simp
  with 1(3) show ?thesis
    by (auto simp: growth_check_def submit_update_def within_budget_def build_update_payload_def)
qed

theorem reregistration_takes_over_identity_witness:
  "\<exists>s' p. register_participant toy_cfg toy_env ''a'' 666 toy_admitted = Inr s' \<and> fs_participants s' ''a'' = Some p \<and>
     fp_key p = 666 \<and> fp_history_max p = 0"
proof -
  have "fs_admissions toy_admitted = admit_upsert ''b'' 100 ''op'' 0 (admit_upsert ''a'' 100 ''op'' 0 [])"
    by (simp add: toy_admitted_def toy_simps fed_step_def admission_step_def admit_participant_def admit_upsert_def
        register_participant_def get_admission_def record_of_def)
  then obtain s' where s': "register_participant toy_cfg toy_env ''a'' 666 toy_admitted = Inr s'"
    by (simp add: register_participant_def Let_def get_admission_upsert toy_cfg_def toy_env_def)
  from reregistration_takes_over_identity [OF s', of 666] s' show ?thesis by (auto simp: toy_env_def)
qed

text \<open>Within one round the growth limit ratchets up: an accepted submission raises the history at once, so the next one
  of the same round may claim the growth factor more again.\<close>

lemma growth_limit_ratchets:
  assumes "fu_exclusion u = None" "fp_history_max p \<le> fu_n_samples u"
    "real_of_int n \<le> fc_growth cfg * real_of_int (fu_n_samples u)"
  shows "\<exists>p'. fs_participants (store_update pid p u s) pid = Some p' \<and> fs_round (store_update pid p u s) = fs_round s \<and>
    growth_check cfg p' n = None"
  using assms by (auto simp: store_update_def growth_check_def max_def)

subsection \<open>Krum in the server\<close>

lemma krum_f_down_closed: "3 \<le> n \<Longrightarrow> krum_f_down f n = min f ((n - 3) div 2)"
  by (induction f) (auto simp: min_def)

lemma krum_f_max:
  assumes "3 \<le> n"
  shows "2 * krum_f_down (n div 3) n + 2 < n \<and> krum_f_down (n div 3) n \<le> n"
    "g \<le> n div 3 \<Longrightarrow> 2 * g + 2 < n \<Longrightarrow> g \<le> krum_f_down (n div 3) n"
  using assms by (auto simp: krum_f_down_closed min_def)

lemma krum_select_parts:
  assumes "krum_select f gs m = Inr (selected, excluded, scores)" "m \<le> length gs"
  shows "length selected = m" "length excluded = length gs - m" "mset (selected @ excluded) = mset [0..<length gs]"
proof -
  from assms have "m \<le> length gs" "selected = take m (sort_key (\<lambda>i. scores ! i) [0..<length gs])"
    "excluded = drop m (sort_key (\<lambda>i. scores ! i) [0..<length gs])"
    by (auto simp: krum_select_def krum_scores_def Let_def split: if_splits sum.splits)
  then show "length selected = m" "length excluded = length gs - m" "mset (selected @ excluded) = mset [0..<length gs]"
    by (simp_all only: append_take_drop_id mset_sort) simp_all
qed

text \<open>Krum's tolerance follows the live round. With at least three valid updates of one shape the selection never
  fails: it excludes exactly \<open>f\<close> updates, the largest \<open>f\<close> at most a third for which \<open>2f + 2 < n\<close>, and survivors and
  excluded together are the round's updates; with fewer than three, all of them survive.\<close>

theorem krum_tolerance_follows_round:
  assumes "fc_use_krum cfg" "stackable (map fu_delta us)"
  shows "\<exists>survivors excluded. select_krum_survivors cfg us = Inr (survivors, excluded) \<and>
    (if length us < 3 then survivors = us \<and> excluded = []
     else mset (map fu_participant survivors @ excluded) = mset (map fu_participant us) \<and>
       length excluded = (GREATEST f. f \<le> length us div 3 \<and> 2 * f + 2 < length us))"
proof (cases "length us < 3")
  case False
  let ?n = "length us" and ?f = "krum_f_down (length us div 3) (length us)"
  have f: "2 * ?f + 2 < ?n" "?f \<le> ?n" using krum_f_max(1) [of ?n] False by auto
  have "?f \<le> ?n div 3" using False by (simp add: krum_f_down_closed)
  then have great: "(GREATEST f. f \<le> ?n div 3 \<and> 2 * f + 2 < ?n) = ?f"
    using krum_f_max [of ?n] False f by (intro Greatest_equality) auto
  obtain selected excluded scores where
    sel: "krum_select ?f (map fu_delta us) (?n - ?f) = Inr (selected, excluded, scores)"
    using f assms(2) by (simp add: krum_select_def krum_scores_def Let_def)
  have "?n - ?f \<le> length (map fu_delta us)" by simp
  note parts = krum_select_parts [OF sel this, unfolded length_map]
  have "mset (map (\<lambda>i. fu_participant (us ! i)) (selected @ excluded)) = mset (map (\<lambda>i. fu_participant (us ! i)) [0..<?n])"
    unfolding mset_map parts(3) ..
  also have "map (\<lambda>i. fu_participant (us ! i)) [0..<?n] = map fu_participant us" by (rule nth_equalityI) simp_all
  finally have "mset (map fu_participant (map (\<lambda>i. us ! i) selected) @ map (\<lambda>i. fu_participant (us ! i)) excluded) =
      mset (map fu_participant us)" by (simp add: comp_def multiset.map_comp)
  moreover have "length excluded = ?f" using parts(2) f by simp
  moreover have "select_krum_survivors cfg us = Inr (map (\<lambda>i. us ! i) selected, map (\<lambda>i. fu_participant (us ! i)) excluded)"
    using assms(1) False f sel by (simp add: select_krum_survivors_def Let_def)
  ultimately show ?thesis using False great by (simp add: multiset.map_comp comp_def)
qed (simp add: select_krum_survivors_def)

theorem krum_tolerance_follows_round_witness:
  "\<exists>survivors excluded. select_krum_survivors toy_cfg
      (replicate 6 (toy_update ''a'' [1] 1 1)) = Inr (survivors, excluded) \<and>
      mset (map fu_participant survivors @ excluded) = replicate_mset 6 ''a''"
proof -
  let ?us = "replicate 6 (toy_update ''a'' [1] 1 1)"
  have "fc_use_krum toy_cfg" "stackable (map fu_delta ?us)"
    by (simp_all add: toy_cfg_def stackable_def toy_update_def numeral_eq_Suc)
  from krum_tolerance_follows_round [OF this] show ?thesis by (auto simp: toy_update_def)
qed

subsection \<open>Influence of one participant\<close>

lemma fedavg_nth:
  assumes "length weights = length us" "j < length (fu_labels (hd us))"
  shows "fedavg weights us ! j = (\<Sum>k<length us. weights ! k * fu_labels (us ! k) ! j)"
proof -
  have "map2 (\<lambda>w u. w * fu_labels u ! j) weights us = map (\<lambda>k. weights ! k * fu_labels (us ! k) ! j) [0..<length us]"
    using assms(1) by (intro nth_equalityI) simp_all
  then show ?thesis using assms(2) by (simp add: fedavg_def interv_sum_list_conv_sum_set_nat lessThan_atLeast0)
qed

text \<open>No participant dominates the average. If a single participant changes its labels at will (within the unit
  interval, all else equal), no coordinate of the weighted average moves by more than the larger of the configured
  weight share and the equal share (up to the tolerance of the cap).\<close>

theorem fedavg_influence_bounded:
  assumes "2 \<le> length us" "i < length us" "length vs = length us" "\<And>k. k < length us \<Longrightarrow> k \<noteq> i \<Longrightarrow> vs ! k = us ! k"
    "fu_n_samples (vs ! i) = fu_n_samples (us ! i)" "\<And>u. u \<in> set us \<Longrightarrow> 0 \<le> fu_n_samples u"
    "0 < sum_list (map fu_n_samples us)" "fraction < 1"
    "j < length (fu_labels (hd us))" "j < length (fu_labels (hd vs))"
    "0 \<le> fu_labels (us ! i) ! j" "fu_labels (us ! i) ! j \<le> 1" "0 \<le> fu_labels (vs ! i) ! j" "fu_labels (vs ! i) ! j \<le> 1"
  shows "\<bar>fedavg (apply_weight_share_cap (raw_weights us) fraction) us ! j -
      fedavg (apply_weight_share_cap (raw_weights vs) fraction) vs ! j\<bar> \<le> max fraction (1 / real (length us)) + cap_tolerance"
proof -
  let ?W = "apply_weight_share_cap (raw_weights us) fraction" and ?x = "\<lambda>us k. fu_labels (us ! k) ! j"
  have raw: "raw_weights vs = raw_weights us"
  proof (rule nth_equalityI)
    fix k assume "k < length (raw_weights vs)"
    then show "raw_weights vs ! k = raw_weights us ! k"
      using assms(3-5) by (cases "k = i") (simp_all add: raw_weights_def)
  qed (simp add: raw_weights_def assms(3))
  have nonneg: "0 \<le> w" if "w \<in> set (raw_weights us)" for w using that assms(6) by (auto simp: raw_weights_def)
  have "sum_list (raw_weights us) = real_of_int (sum_list (map fu_n_samples us))"
    unfolding raw_weights_def by (induction us) simp_all
  then have W: "length ?W = length us" "\<forall>w \<in> set ?W. 0 \<le> w \<and> w \<le> max fraction (1 / real (length us)) + cap_tolerance"
    using capped_weights [of "raw_weights us" fraction, OF nonneg] assms(1,7,8) by (simp_all add: raw_weights_def)
  then have wi: "0 \<le> ?W ! i" "?W ! i \<le> max fraction (1 / real (length us)) + cap_tolerance"
    using assms(2) by simp_all
  have rest: "(\<Sum>k\<in>{..<length us} - {i}. ?W ! k * ?x us k) = (\<Sum>k\<in>{..<length us} - {i}. ?W ! k * ?x vs k)"
    using assms(4) by (intro sum.cong) auto
  have split: "(\<Sum>k<length us. ?W ! k * ?x ws k) = ?W ! i * ?x ws i + (\<Sum>k\<in>{..<length us} - {i}. ?W ! k * ?x ws k)" for ws
    using assms(2) by (intro sum.remove) simp_all
  have "fedavg ?W us ! j - fedavg ?W vs ! j = ?W ! i * (?x us i - ?x vs i)"
    using fedavg_nth [of ?W us j] fedavg_nth [of ?W vs j] assms(3,9,10) W(1) split [of us] split [of vs] rest
    by (simp add: algebra_simps)
  then have "\<bar>fedavg ?W us ! j - fedavg ?W vs ! j\<bar> = ?W ! i * \<bar>?x us i - ?x vs i\<bar>"
    using wi(1) by (simp add: abs_mult)
  also have "\<dots> \<le> ?W ! i * 1" using assms(11-14) wi(1) by (intro mult_left_mono) (simp_all add: abs_le_iff)
  finally show ?thesis using wi(2) unfolding raw by simp
qed

theorem fedavg_influence_bounded_witness:
  "\<bar>fedavg (apply_weight_share_cap (raw_weights [toy_update ''a'' [1] 90 90, toy_update ''b'' [0] 10 10]) (1 / 2))
       [toy_update ''a'' [1] 90 90, toy_update ''b'' [0] 10 10] ! 0 -
    fedavg (apply_weight_share_cap (raw_weights [toy_update ''a'' [0] 90 90, toy_update ''b'' [0] 10 10]) (1 / 2))
       [toy_update ''a'' [0] 90 90, toy_update ''b'' [0] 10 10] ! 0\<bar>
   \<le> max (1 / 2) (1 / real (length [toy_update ''a'' [1] 90 90, toy_update ''b'' [0] 10 10])) + cap_tolerance"
  by (rule fedavg_influence_bounded [where i = 0]) (auto simp: toy_update_def less_Suc_eq)

subsection \<open>Restart\<close>

fun round_envs :: "('der, 'sig) fed_op list \<Rightarrow> round_env list" where
  "round_envs [] = []"
| "round_envs (Submit re pid labels n signature # ops) = re # round_envs ops"
| "round_envs (Force re # ops) = re # round_envs ops"
| "round_envs (_ # ops) = round_envs ops"

text \<open>The round ids to come are new and the clock moves on: later than every record, and from round to round.\<close>

definition fresh_future :: "'pk fed_server \<Rightarrow> round_env list \<Rightarrow> bool" where
  "fresh_future s rs \<longleftrightarrow>
     distinct (map rr_round_id (fs_audit s) @ fs_round_id s # map re_round_id rs) \<and>
     (\<forall>r \<in> set (fs_audit s). \<forall>re \<in> set rs. rr_timestamp r < re_now re) \<and> sorted_wrt (<) (map re_now rs)"

definition audit_inv :: "fed_config \<Rightarrow> ('der, 'pk, 'sig) fed_env \<Rightarrow> 'pk fed_server \<Rightarrow> bool" where
  "audit_inv cfg env s \<longleftrightarrow>
     fs_round s = length (fs_audit s) \<and>
     fs_epsilon s = (if 0 < fc_noise_multiplier cfg \<and> 0 < fs_round s then epsilon_at_round env (fs_round s)
                     else get_cumulative_epsilon (fs_audit s))"

lemma get_cumulative_epsilon_latest:
  assumes "\<And>r. r \<in> set audit \<Longrightarrow> rr_timestamp r < rr_timestamp q"
  shows "get_cumulative_epsilon (audit @ [q]) = rr_cumulative q"
proof -
  let ?k = "\<lambda>r. - rr_timestamp r"
  have "length (sort_key ?k (audit @ [q])) \<noteq> 0" unfolding length_sort by simp
  then obtain h t where ht: "sort_key ?k (audit @ [q]) = h # t" by (cases "sort_key ?k (audit @ [q])") simp_all
  then have "sorted (map ?k (h # t))" by (metis sorted_sort_key)
  moreover have "set (h # t) = set (audit @ [q])" by (metis ht set_sort)
  ultimately have "h \<in> set (audit @ [q])" "rr_timestamp q \<le> rr_timestamp h" by auto
  with assms have "h = q" by fastforce
  with ht show ?thesis by (simp add: get_cumulative_epsilon_def)
qed

lemma audit_inv_aggregate:
  assumes "aggregate_locked cfg env re s = Inr (r, s')" "audit_inv cfg env s" "fresh_future s (re # rs)"
  shows "audit_inv cfg env s' \<and> fresh_future s' rs"
  using assms(1)
proof (cases rule: aggregate_lockedE)
  case skipped
  with assms(2,3) show ?thesis by (auto simp: fresh_future_def)
next
  case (published us kx agg d)
  define q where "q = build_record env (fs_round_id s) (map fu_participant us) (norm2 d)
    (if 0 < fc_noise_multiplier cfg then epsilon_at_round env (fs_round s + 1) - epsilon_at_round env (fs_round s + 1 - 1)
     else fc_dp_epsilon cfg) (fs_epsilon s')
    (map fu_participant (filter (\<lambda>u. fu_exclusion u \<noteq> None) (map snd (fs_pending s))) @ kx) (capped_ids cfg us) (re_now re)"
  have q: "rr_round_id q = fs_round_id s" "rr_cumulative q = fs_epsilon s'" "rr_timestamp q = re_now re"
    by (simp_all add: q_def build_record_def)
  have "fs_round_id s \<notin> rr_round_id ` set (fs_audit s)" using assms(3) by (simp add: fresh_future_def)
  then have "filter (\<lambda>x. rr_round_id x \<noteq> fs_round_id s) (fs_audit s) = fs_audit s" by (intro filter_True ballI notI) (metis imageI)
  then have audit: "fs_audit s' = fs_audit s @ [q]"
    unfolding published by (simp add: publish_def Let_def save_audit_record_def q(1)) (simp add: q_def published publish_def Let_def build_record_def)
  have "get_cumulative_epsilon (fs_audit s') = fs_epsilon s'"
    unfolding audit using assms(3) by (subst get_cumulative_epsilon_latest) (auto simp: q fresh_future_def)
  then have "audit_inv cfg env s'" using assms(2) audit published(6) by (auto simp: audit_inv_def)
  moreover have "fresh_future s' rs" using assms(3) audit published(6) by (auto simp: fresh_future_def q)
  ultimately show ?thesis ..
qed

lemma audit_inv_cong:
  "fs_round s' = fs_round s \<Longrightarrow> fs_audit s' = fs_audit s \<Longrightarrow> fs_epsilon s' = fs_epsilon s \<Longrightarrow>
   audit_inv cfg env s' = audit_inv cfg env s"
  by (simp add: audit_inv_def)

lemma fresh_future_cong:
  "fs_round_id s' = fs_round_id s \<Longrightarrow> fs_audit s' = fs_audit s \<Longrightarrow> fresh_future s' rs = fresh_future s rs"
  by (simp add: fresh_future_def)

lemma fresh_future_tl: "fresh_future s (re # rs) \<Longrightarrow> fresh_future s rs"
  by (auto simp: fresh_future_def)

lemma audit_inv_step:
  assumes "audit_inv cfg env s" "fresh_future s (round_envs (op # ops))"
  shows "audit_inv cfg env (fed_step cfg env op s) \<and> fresh_future (fed_step cfg env op s) (round_envs ops)"
proof (cases op)
  case (Register pid der)
  show ?thesis
  proof (cases "register_participant cfg env pid der s")
    case (Inr s')
    then have "audit_inv cfg env s' = audit_inv cfg env s" "fresh_future s' (round_envs ops) = fresh_future s (round_envs ops)"
      by (elim register_participantD; intro audit_inv_cong fresh_future_cong; simp)+
    with Inr Register assms show ?thesis by (simp add: fed_step_def)
  qed (use Register assms in \<open>simp add: fed_step_def\<close>)
next
  case (Admission a)
  with assms show ?thesis by (simp add: fed_step_def audit_inv_def fresh_future_def)
next
  case (Submit re pid labels n signature)
  then have fut: "fresh_future s (re # round_envs ops)" using assms(2) by simp
  obtain res s' where sub: "submit_update cfg env re pid labels n signature s = (res, s')" by fastforce
  then have "audit_inv cfg env s' \<and> fresh_future s' (round_envs ops)"
  proof (cases rule: submit_updateE)
    case (aggregated p u r s3)
    let ?s2 = "(store_update pid p u s)\<lparr>fs_in_progress := True\<rparr>"
    have "audit_inv cfg env ?s2" "fresh_future ?s2 (re # round_envs ops)"
      using assms(1) fut by (simp_all add: audit_inv_def fresh_future_def)
    from audit_inv_aggregate [OF aggregated(6) this] aggregated(7) show ?thesis
      by (simp add: audit_inv_def fresh_future_def)
  qed (use assms(1) fresh_future_tl [OF fut] in \<open>simp_all add: audit_inv_def fresh_future_def\<close>)
  with sub Submit show ?thesis by (simp add: fed_step_def)
next
  case (Force re)
  then have fut: "fresh_future s (re # round_envs ops)" using assms(2) by simp
  show ?thesis
  proof (cases "aggregate_locked cfg env re s")
    case (Inl e)
    with Force assms(1) fresh_future_tl [OF fut] show ?thesis by (simp add: fed_step_def force_aggregate_def)
  next
    case (Inr rs)
    with audit_inv_aggregate [OF _ assms(1) fut] Force show ?thesis
      by (cases rs) (simp add: fed_step_def force_aggregate_def)
  qed
qed

text \<open>The privacy accounting survives a restart. If round ids are fresh and the clock moves forward, a server started
  on the database another one left behind, after any operations, resumes with exactly its round number and its consumed
  privacy budget.\<close>

theorem restart_preserves_budget:
  assumes "new_server cfg env [] [] rid = Inr s0" "fresh_future s0 (round_envs ops)"
    "s = fold (fed_step cfg env) ops s0"
  shows "\<exists>s'. new_server cfg env (fs_admissions s) (fs_audit s) rid' = Inr s' \<and>
    fs_round s' = fs_round s \<and> fs_epsilon s' = fs_epsilon s"
proof -
  have "audit_inv cfg env s0"
    using assms(1) by (auto simp: new_server_def Let_def audit_inv_def get_round_count_def split: if_splits)
  then have "audit_inv cfg env (fold (fed_step cfg env) ops s0)"
    using assms(2) by (induction ops arbitrary: s0) (simp_all add: audit_inv_step)
  with assms(1,3) show ?thesis
    by (auto simp: new_server_def Let_def audit_inv_def get_round_count_def split: if_splits)
qed

theorem restart_preserves_budget_witness:
  "\<exists>s'. new_server toy_cfg toy_env
      (fs_admissions (fold (fed_step toy_cfg toy_env) [Force (toy_round ''r1'' 1), Force (toy_round ''r2'' 2)] toy_server))
      (fs_audit (fold (fed_step toy_cfg toy_env) [Force (toy_round ''r1'' 1), Force (toy_round ''r2'' 2)] toy_server)) ''x'' =
      Inr s'"
proof -
  have "fresh_future toy_server (round_envs [Force (toy_round ''r1'' 1), Force (toy_round ''r2'' 2) :: (nat, nat) fed_op])"
    by (simp add: fresh_future_def toy_simps)
  from restart_preserves_budget [OF fed_toy_new this refl] show ?thesis by blast
qed

end
