(* ===== verification/Dedup.thy ===== *)
theory Dedup
  imports Canonical_Json
begin

text \<open>
  \<open>ingestion/dedup.py\<close>: the idempotency layer of the ingestion. Times are microseconds; the readings of the clock
  during one call are one argument. SHA-256 is an argument (\<open>sha\<close>). Redis is a service: its \<open>SET NX EX\<close> is an argument
  \<open>redis_set\<close> over its own state that answers whether the key was added, or raises (\<open>None\<close>). The SQLite tables are lists
  of rows; failing inserts, which the code only logs, are left out.
\<close>

subsection \<open>Keys\<close>

text \<open>An identity field: a string, an integer (or bool), a finite float with the text \<open>json.dumps\<close> prints for it,
  or another value.\<close>

datatype id_value = IdStr string | IdInt int | IdFloat rat string | IdOther json

definition normalize_field :: "string \<Rightarrow> string \<Rightarrow> id_value \<Rightarrow> json" where
  "normalize_field source k v =
     (case v of
        IdStr s \<Rightarrow> if source = ''solana'' \<and> k = ''signature'' then JStr s else JStr (lower s)
      | IdInt i \<Rightarrow> JNum (str_int i)
      | IdFloat x t \<Rightarrow> if x = of_int \<lfloor>x\<rfloor> then JNum (str_int \<lfloor>x\<rfloor>) else JNum t
      | IdOther j \<Rightarrow> j)"

definition key_payload :: "string \<Rightarrow> (string \<times> id_value) list \<Rightarrow> string" where
  "key_payload source ids =
     json_text (json_dict [(''source'', JStr source),
       (''identity_fields'', json_dict (map (\<lambda>(k, v). (k, normalize_field source k v)) ids))])"

definition compute_key :: "(string \<Rightarrow> string) \<Rightarrow> string \<Rightarrow> (string \<times> id_value) list \<Rightarrow> string" where
  "compute_key sha source ids = sha (key_payload source ids)"

definition compute_event_hash :: "(string \<Rightarrow> string) \<Rightarrow> int \<Rightarrow> string \<Rightarrow> int \<Rightarrow> string" where
  "compute_event_hash sha chain_id tx_hash log_index =
     compute_key sha ''evm'' [(''chain_id'', IdInt chain_id), (''tx_hash'', IdStr tx_hash), (''log_index'', IdInt log_index)]"

subsection \<open>The bounded in-process store\<close>

type_synonym expiry = "(string \<times> time) list"

definition evict_expired :: "time \<Rightarrow> expiry \<Rightarrow> expiry" where
  "evict_expired now m = filter (\<lambda>(k, e). \<not> e \<le> now) m"

definition drop_oldest :: "expiry \<Rightarrow> expiry" where
  "drop_oldest m = (case sort_key snd m of [] \<Rightarrow> m | (oldest, _) # _ \<Rightarrow> filter (\<lambda>(k, _). k \<noteq> oldest) m)"

definition add_if_absent :: "time \<Rightarrow> nat \<Rightarrow> time \<Rightarrow> string \<Rightarrow> expiry \<Rightarrow> bool \<times> expiry" where
  "add_if_absent ttl max_keys now k m =
     (let m1 = evict_expired now m in
      if k \<in> fst ` set m1 then (False, m1)
      else
        let m2 = (if max_keys \<le> length m1 then drop_oldest m1 else m1) in
        (True, m2 @ [(k, now + ttl)]))"

definition store_length :: "time \<Rightarrow> expiry \<Rightarrow> nat" where
  "store_length now m = length (evict_expired now m)"

subsection \<open>The idempotency store\<close>

definition DEFAULT_DEDUP_TTL_SECONDS :: time where "DEFAULT_DEDUP_TTL_SECONDS = 86400 * 1000000"
definition MAX_KEYS :: nat where "MAX_KEYS = 1000000"

definition resolve_dedup_ttl :: "time \<Rightarrow> time" where
  "resolve_dedup_ttl replay_window =
     (let base = (if 0 < replay_window then replay_window else 3600 * 1000000)
      in max (base * 2) DEFAULT_DEDUP_TTL_SECONDS)"

datatype dedup_result = NEW | DUPLICATE | REPLAY_REJECTED

record key_row =
  kr_key :: string
  kr_source :: string
  kr_metadata :: "string option"
  kr_first_seen :: time

record dedup_audit_row =
  da_key :: string
  da_source :: string
  da_result :: dedup_result
  da_checked_at :: time
  da_metadata :: "string option"

record 'r dedup_store =
  ds_replay_window :: time
  ds_ttl :: time
  ds_seen :: nat
  ds_duplicate :: nat
  ds_rejected :: nat
  ds_redis :: 'r
  ds_fallback :: expiry
  ds_keys :: "key_row list"
  ds_audit :: "dedup_audit_row list"

type_synonym 'r redis_set = "string \<Rightarrow> time \<Rightarrow> time \<Rightarrow> 'r \<Rightarrow> (bool \<times> 'r) option"

definition new_dedup_store :: "time \<Rightarrow> time option \<Rightarrow> 'r \<Rightarrow> key_row list \<Rightarrow> dedup_audit_row list \<Rightarrow> 'r dedup_store" where
  "new_dedup_store window ttl r ks audit =
     \<lparr>ds_replay_window = window,
      ds_ttl = (case ttl of Some t \<Rightarrow> if t = 0 then resolve_dedup_ttl window else t | None \<Rightarrow> resolve_dedup_ttl window),
      ds_seen = 0, ds_duplicate = 0, ds_rejected = 0, ds_redis = r, ds_fallback = [], ds_keys = ks, ds_audit = audit\<rparr>"

definition DEDUP_REDIS_PREFIX :: string where "DEDUP_REDIS_PREFIX = ''ledgerlens:dedup:''"

definition fallback_add :: "time \<Rightarrow> string \<Rightarrow> 'r dedup_store \<Rightarrow> bool \<times> 'r dedup_store" where
  "fallback_add now k s =
     (case add_if_absent (ds_ttl s) MAX_KEYS now k (ds_fallback s) of (added, m) \<Rightarrow> (added, s\<lparr>ds_fallback := m\<rparr>))"

definition store_add_if_absent :: "'r redis_set option \<Rightarrow> time \<Rightarrow> string \<Rightarrow> 'r dedup_store \<Rightarrow> bool \<times> 'r dedup_store" where
  "store_add_if_absent redis now k s =
     (case redis of
        None \<Rightarrow> fallback_add now k s
      | Some redis_set \<Rightarrow>
          (case redis_set (DEDUP_REDIS_PREFIX @ k) (ds_ttl s div 1000000) now (ds_redis s) of
             Some (added, r) \<Rightarrow> (added, s\<lparr>ds_redis := r\<rparr>)
           | None \<Rightarrow> fallback_add now k s))"

definition log_audit :: "string \<Rightarrow> string \<Rightarrow> dedup_result \<Rightarrow> time \<Rightarrow> string option \<Rightarrow> 'r dedup_store \<Rightarrow> 'r dedup_store" where
  "log_audit k source res now meta s =
     s\<lparr>ds_audit := ds_audit s @ [\<lparr>da_key = k, da_source = source, da_result = res, da_checked_at = now, da_metadata = meta\<rparr>]\<rparr>"

definition insert_key_row :: "string \<Rightarrow> string \<Rightarrow> time \<Rightarrow> string option \<Rightarrow> 'r dedup_store \<Rightarrow> 'r dedup_store" where
  "insert_key_row k source now meta s =
     (if k \<in> kr_key ` set (ds_keys s) then s
      else s\<lparr>ds_keys := ds_keys s @ [\<lparr>kr_key = k, kr_source = source, kr_metadata = meta, kr_first_seen = now\<rparr>]\<rparr>)"

definition replayed :: "time \<Rightarrow> time option \<Rightarrow> 'r dedup_store \<Rightarrow> bool" where
  "replayed now timestamp s \<longleftrightarrow>
     (case timestamp of None \<Rightarrow> False
      | Some event_time \<Rightarrow> 0 < ds_replay_window s \<and> ds_replay_window s < now - event_time)"

definition is_duplicate ::
    "'r redis_set option \<Rightarrow> time \<Rightarrow> string \<Rightarrow> time option \<Rightarrow> string \<Rightarrow> string option \<Rightarrow> 'r dedup_store \<Rightarrow> dedup_result \<times> 'r dedup_store" where
  "is_duplicate redis now k timestamp source meta s0 =
     (let s = s0\<lparr>ds_seen := ds_seen s0 + 1\<rparr> in
      if replayed now timestamp s then
        (REPLAY_REJECTED, log_audit k source REPLAY_REJECTED now meta (s\<lparr>ds_rejected := ds_rejected s + 1\<rparr>))
      else
        case store_add_if_absent redis now k s of
          (False, s1) \<Rightarrow> (DUPLICATE, log_audit k source DUPLICATE now meta (s1\<lparr>ds_duplicate := ds_duplicate s1 + 1\<rparr>))
        | (True, s1) \<Rightarrow> (NEW, log_audit k source NEW now meta (insert_key_row k source now meta s1)))"

record dedup_stats =
  st_seen :: nat
  st_duplicate :: nat
  st_rejected :: nat
  st_rate :: rat

definition dedup_hit_rate :: "'r dedup_store \<Rightarrow> rat" where
  "dedup_hit_rate s = (if ds_seen s = 0 then 0 else of_nat (ds_duplicate s) / of_nat (ds_seen s))"

definition dedup_stats_of :: "'r dedup_store \<Rightarrow> dedup_stats" where
  "dedup_stats_of s = \<lparr>st_seen = ds_seen s, st_duplicate = ds_duplicate s, st_rejected = ds_rejected s, st_rate = dedup_hit_rate s\<rparr>"

definition prune_expired :: "time option \<Rightarrow> time \<Rightarrow> 'r dedup_store \<Rightarrow> nat \<times> 'r dedup_store" where
  "prune_expired older_than now s =
     (let cutoff = now - (case older_than of None \<Rightarrow> ds_ttl s | Some w \<Rightarrow> w)
      in (length (filter (\<lambda>r. kr_first_seen r < cutoff) (ds_keys s)),
          s\<lparr>ds_keys := filter (\<lambda>r. \<not> kr_first_seen r < cutoff) (ds_keys s)\<rparr>))"

text \<open>The wrapper for EVM events.\<close>

definition bridge_is_duplicate ::
    "(string \<Rightarrow> string) \<Rightarrow> 'r redis_set option \<Rightarrow> time \<Rightarrow> int \<Rightarrow> string \<Rightarrow> int \<Rightarrow> time option \<Rightarrow> string option \<Rightarrow> 'r dedup_store
     \<Rightarrow> dedup_result \<times> 'r dedup_store" where
  "bridge_is_duplicate sha redis now chain_id tx_hash log_index timestamp meta s =
     is_duplicate redis now (compute_event_hash sha chain_id tx_hash log_index) timestamp ''evm'' meta s"

subsection \<open>The contract of an expiring set\<close>

text \<open>
  What the deduplicator needs of its store: adding a key answers whether it was absent or expired, a new key stays for
  the time to live, live keys stay untouched. \<open>room n s\<close> says that \<open>n\<close> more keys fit. Under it, the
  store behaves like the record of when each key was last new.
\<close>

fun spec_run :: "time \<Rightarrow> (time \<times> 'k \<times> bool) list \<Rightarrow> ('k \<rightharpoonup> time) \<Rightarrow> dedup_result list" where
  "spec_run ttl [] seen = []"
| "spec_run ttl ((now, k, rejected) # xs) seen =
     (if rejected then REPLAY_REJECTED # spec_run ttl xs seen
      else if (case seen k of None \<Rightarrow> True | Some t \<Rightarrow> t + ttl \<le> now) then NEW # spec_run ttl xs (seen(k \<mapsto> now))
      else DUPLICATE # spec_run ttl xs seen)"

fun add_run :: "(time \<Rightarrow> 'k \<Rightarrow> 's \<Rightarrow> bool \<times> 's) \<Rightarrow> (time \<times> 'k \<times> bool) list \<Rightarrow> 's \<Rightarrow> dedup_result list" where
  "add_run add [] s = []"
| "add_run add ((now, k, rejected) # xs) s =
     (if rejected then REPLAY_REJECTED # add_run add xs s
      else (if fst (add now k s) then NEW else DUPLICATE) # add_run add xs (snd (add now k s)))"

lemma spec_run_new_after:
  "0 \<le> ttl \<Longrightarrow> seen k = Some t0 \<Longrightarrow> j < length xs \<Longrightarrow> spec_run ttl xs seen ! j = NEW \<Longrightarrow>
   fst (snd (xs ! j)) = k \<Longrightarrow> t0 + ttl \<le> fst (xs ! j)"
proof (induction xs arbitrary: seen t0 j)
  case (Cons x xs)
  obtain now k' rejected where x: "x = (now, k', rejected)" by (cases x)
  show ?case
  proof (cases j)
    case 0
    with Cons.prems x show ?thesis by (auto split: if_splits)
  next
    case (Suc i)
    let ?fresh = "case seen k' of None \<Rightarrow> True | Some t \<Rightarrow> t + ttl \<le> now"
    show ?thesis
    proof (cases "\<not> rejected \<and> ?fresh \<and> k' = k")
      case True
      then have new: "k' = k" "\<not> rejected" "case seen k of None \<Rightarrow> True | Some t \<Rightarrow> t + ttl \<le> now" by auto
      then have "spec_run ttl xs (seen(k \<mapsto> now)) ! i = NEW" using Cons.prems(4) by (simp add: x Suc)
      moreover have "i < length xs" "fst (snd (xs ! i)) = k" using Cons.prems(3,5) by (simp_all add: Suc)
      moreover have "(seen(k \<mapsto> now)) k = Some now" by simp
      ultimately have "now + ttl \<le> fst (xs ! i)" using Cons.IH [OF Cons.prems(1)] by blast
      with new Cons.prems(1,2) Suc show ?thesis by simp
    next
      case False
      have "t0 + ttl \<le> fst (xs ! i)"
      proof (cases "\<not> rejected \<and> ?fresh")
        case True
        with False have "(seen(k' \<mapsto> now)) k = Some t0" using Cons.prems(2) by auto
        moreover have "spec_run ttl xs (seen(k' \<mapsto> now)) ! i = NEW" using True Cons.prems(4) by (simp add: x Suc)
        moreover have "i < length xs" "fst (snd (xs ! i)) = k" using Cons.prems(3,5) by (simp_all add: Suc)
        ultimately show ?thesis using Cons.IH [OF Cons.prems(1)] by blast
      next
        case False
        with Cons.prems x Suc show ?thesis by (intro Cons.IH [of seen t0 i]) (auto split: if_splits)
      qed
      with Suc show ?thesis by simp
    qed
  qed
qed simp

lemma spec_run_Cons: "\<exists>r seen'. spec_run ttl (x # xs) seen = r # spec_run ttl xs seen'"
  by (cases x) auto

lemma spec_run_new_twice:
  "0 \<le> ttl \<Longrightarrow> i < j \<Longrightarrow> j < length xs \<Longrightarrow> spec_run ttl xs seen ! i = NEW \<Longrightarrow> spec_run ttl xs seen ! j = NEW \<Longrightarrow>
   fst (snd (xs ! i)) = fst (snd (xs ! j)) \<Longrightarrow> fst (xs ! i) + ttl \<le> fst (xs ! j)"
proof (induction xs arbitrary: seen i j)
  case (Cons x xs)
  obtain now k rejected where x: "x = (now, k, rejected)" by (cases x)
  obtain j' where j: "j = Suc j'" using Cons.prems(2) by (cases j) auto
  show ?case
  proof (cases i)
    case 0
    let ?fresh = "case seen k of None \<Rightarrow> True | Some t \<Rightarrow> t + ttl \<le> now"
    have new: "\<not> rejected" "?fresh" using Cons.prems(4) by (simp_all add: x 0 split: if_splits)
    have "spec_run ttl (x # xs) seen = NEW # spec_run ttl xs (seen(k \<mapsto> now))" using new by (simp add: x)
    then have res: "spec_run ttl xs (seen(k \<mapsto> now)) ! j' = NEW" using Cons.prems(5) by (simp add: j)
    have seen: "(seen(k \<mapsto> now)) k = Some now" by simp
    have j': "j' < length xs" "fst (snd (xs ! j')) = k" using Cons.prems(3,6) by (simp_all add: x 0 j)
    from spec_run_new_after [OF Cons.prems(1) seen j'(1) res j'(2)] show ?thesis by (simp add: x 0 j)
  next
    case (Suc i')
    obtain r seen' where tail: "spec_run ttl (x # xs) seen = r # spec_run ttl xs seen'"
      using spec_run_Cons by blast
    from Cons.prems(4,5) have "spec_run ttl xs seen' ! i' = NEW" "spec_run ttl xs seen' ! j' = NEW"
      unfolding tail by (simp_all add: Suc j)
    with Cons.prems(2,3,6) have "fst (xs ! i') + ttl \<le> fst (xs ! j')"
      by (intro Cons.IH [OF Cons.prems(1), of i' j' seen']) (simp_all add: Suc j)
    then show ?thesis by (simp add: Suc j)
  qed
qed simp

locale expiring_set =
  fixes add :: "time \<Rightarrow> 'k \<Rightarrow> 's \<Rightarrow> bool \<times> 's"
    and expires :: "'s \<Rightarrow> 'k \<Rightarrow> time option"
    and room :: "nat \<Rightarrow> 's \<Rightarrow> bool"
    and ttl :: time
  assumes add_result: "room (Suc n) s \<Longrightarrow> fst (add now k s) = (case expires s k of None \<Rightarrow> True | Some e \<Rightarrow> e \<le> now)"
    and add_expires: "room (Suc n) s \<Longrightarrow> expires (snd (add now k s)) k' =
      (if k' = k \<and> fst (add now k s) then Some (now + ttl)
       else case expires s k' of None \<Rightarrow> None | Some e \<Rightarrow> if e \<le> now then None else Some e)"
    and room_add: "room (Suc n) s \<Longrightarrow> room n (snd (add now k s))"
    and room_less: "room (Suc n) s \<Longrightarrow> room n s"
begin

text \<open>The abstract view: when each key was last new.\<close>

definition represents :: "time \<Rightarrow> 's \<Rightarrow> ('k \<rightharpoonup> time) \<Rightarrow> bool" where
  "represents now s seen \<longleftrightarrow>
     (\<forall>k. (case expires s k of None \<Rightarrow> True | Some e \<Rightarrow> seen k = Some (e - ttl)) \<and>
          (\<forall>t. seen k = Some t \<longrightarrow> now < t + ttl \<longrightarrow> expires s k = Some (t + ttl)))"

lemma represents_mono: "represents now s seen \<Longrightarrow> now \<le> now' \<Longrightarrow> represents now' s seen"
  by (auto simp: represents_def)

lemma represents_add:
  assumes "represents now s seen" "room (Suc n) s" "0 < ttl"
  shows "fst (add now k s) = (case seen k of None \<Rightarrow> True | Some t \<Rightarrow> t + ttl \<le> now) \<and>
    represents now (snd (add now k s)) (if fst (add now k s) then seen(k \<mapsto> now) else seen)"
proof -
  have k: "case expires s k of None \<Rightarrow> True | Some e \<Rightarrow> seen k = Some (e - ttl)"
    "\<And>t. seen k = Some t \<Longrightarrow> now < t + ttl \<Longrightarrow> expires s k = Some (t + ttl)" for k
    using assms(1) by (auto simp: represents_def)
  have res: "fst (add now k s) = (case seen k of None \<Rightarrow> True | Some t \<Rightarrow> t + ttl \<le> now)"
    using add_result [OF assms(2), of now k] k [of k] by (fastforce split: option.splits)
  have "represents now (snd (add now k s)) (if fst (add now k s) then seen(k \<mapsto> now) else seen)"
    unfolding represents_def
  proof (intro allI)
    fix k'
    show "(case expires (snd (add now k s)) k' of None \<Rightarrow> True
          | Some e \<Rightarrow> (if fst (add now k s) then seen(k \<mapsto> now) else seen) k' = Some (e - ttl)) \<and>
        (\<forall>t. (if fst (add now k s) then seen(k \<mapsto> now) else seen) k' = Some t \<longrightarrow> now < t + ttl \<longrightarrow>
          expires (snd (add now k s)) k' = Some (t + ttl))"
      using add_expires [OF assms(2), of now k k'] k [of k'] res assms(3) by (cases "k' = k") (auto split: option.splits if_splits)
  qed
  with res show ?thesis by blast
qed

lemma run_refines:
  assumes "represents now0 s seen" "room (length xs) s" "0 < ttl" "sorted (now0 # map fst xs)"
  shows "add_run add xs s = spec_run ttl xs seen"
  using assms
proof (induction xs arbitrary: now0 s seen)
  case (Cons x xs)
  obtain now k rejected where x: "x = (now, k, rejected)" by (cases x)
  have r: "represents now s seen" using Cons.prems(1,4) represents_mono x by force
  have room: "room (Suc (length xs)) s" using Cons.prems(2) by simp
  have srt: "sorted (now # map fst xs)" using Cons.prems(4) x by simp
  show ?case
  proof (cases rejected)
    case True
    with Cons.IH [OF r room_less [OF room] assms(3) srt] show ?thesis by (simp add: x)
  next
    case False
    note step = represents_add [OF r room assms(3), of k]
    have "add_run add xs (snd (add now k s)) = spec_run ttl xs (if fst (add now k s) then seen(k \<mapsto> now) else seen)"
      using step by (intro Cons.IH [OF _ room_add [OF room] assms(3) srt]) blast
    with False step show ?thesis by (auto simp: x split: option.splits)
  qed
qed simp

end

subsection \<open>The in-process store provides it\<close>

lemma evict_keys: "k \<in> fst ` set (evict_expired now m) \<longleftrightarrow> map_of (evict_expired now m) k \<noteq> None"
  by (simp add: map_of_eq_None_iff)

lemma map_of_evict:
  "distinct (map fst m) \<Longrightarrow> map_of (evict_expired now m) k =
     (case map_of m k of None \<Rightarrow> None | Some e \<Rightarrow> if e \<le> now then None else Some e)"
proof (induction m)
  case (Cons x m)
  then have "map_of m (fst x) = None" by (simp add: map_of_eq_None_iff)
  with Cons show ?case by (cases x) (auto simp: evict_expired_def split: option.splits)
qed (simp add: evict_expired_def)

lemma evict_distinct: "distinct (map fst m) \<Longrightarrow> distinct (map fst (evict_expired now m))"
  by (induction m) (auto simp: evict_expired_def)

lemma evict_length: "length (evict_expired now m) \<le> length m"
  by (simp add: evict_expired_def)

definition key_room :: "nat \<Rightarrow> nat \<Rightarrow> expiry \<Rightarrow> bool" where
  "key_room max_keys n m \<longleftrightarrow> distinct (map fst m) \<and> length m + n \<le> max_keys"

lemma add_in_room:
  assumes "key_room max_keys (Suc n) m"
  shows "add_if_absent ttl max_keys now k m =
    (let m1 = evict_expired now m in if map_of m1 k \<noteq> None then (False, m1) else (True, m1 @ [(k, now + ttl)]))"
  using assms evict_length [of now m] by (simp add: add_if_absent_def key_room_def Let_def evict_keys)

interpretation mem: expiring_set "add_if_absent ttl max_keys" map_of "key_room max_keys" ttl for ttl max_keys
proof unfold_locales
  fix n now k k' and m :: expiry
  assume room: "key_room max_keys (Suc n) m"
  then have dist: "distinct (map fst m)" by (simp add: key_room_def)
  note add = add_in_room [OF room, of ttl now k]
  show "fst (add_if_absent ttl max_keys now k m) = (case map_of m k of None \<Rightarrow> True | Some e \<Rightarrow> e \<le> now)"
    unfolding add by (simp add: Let_def map_of_evict [OF dist] split: option.splits)
  show "map_of (snd (add_if_absent ttl max_keys now k m)) k' =
      (if k' = k \<and> fst (add_if_absent ttl max_keys now k m) then Some (now + ttl)
       else case map_of m k' of None \<Rightarrow> None | Some e \<Rightarrow> if e \<le> now then None else Some e)"
    unfolding add by (auto simp: Let_def map_add_def map_of_evict [OF dist] split: option.splits if_splits)
  show "key_room max_keys n (snd (add_if_absent ttl max_keys now k m))"
    using room evict_length [of now m] evict_distinct [OF dist, of now] unfolding add
    by (auto simp: Let_def key_room_def map_of_eq_None_iff split: if_splits)
  show "key_room max_keys n m" using room by (simp add: key_room_def)
qed

subsection \<open>Classifying a stream of events\<close>

record dedup_event =
  ev_now :: time
  ev_key :: string
  ev_timestamp :: "time option"
  ev_source :: string
  ev_metadata :: "string option"

fun classify_all :: "'r redis_set option \<Rightarrow> dedup_event list \<Rightarrow> 'r dedup_store \<Rightarrow> dedup_result list \<times> 'r dedup_store" where
  "classify_all redis [] s = ([], s)"
| "classify_all redis (e # es) s =
     (let (res, s1) = is_duplicate redis (ev_now e) (ev_key e) (ev_timestamp e) (ev_source e) (ev_metadata e) s;
          (rest, s2) = classify_all redis es s1
      in (res # rest, s2))"

definition too_old :: "time \<Rightarrow> dedup_event \<Rightarrow> bool" where
  "too_old window e \<longleftrightarrow>
     (case ev_timestamp e of None \<Rightarrow> False | Some t \<Rightarrow> 0 < window \<and> window < ev_now e - t)"

lemma store_frame [simp]:
  "ds_ttl (log_audit k src res now meta s) = ds_ttl s" "ds_ttl (insert_key_row k src now meta s) = ds_ttl s"
  "ds_replay_window (log_audit k src res now meta s) = ds_replay_window s"
  "ds_replay_window (insert_key_row k src now meta s) = ds_replay_window s"
  "ds_fallback (log_audit k src res now meta s) = ds_fallback s" "ds_fallback (insert_key_row k src now meta s) = ds_fallback s"
  by (simp_all add: log_audit_def insert_key_row_def)

lemma replayed_window: "ds_replay_window s = w \<Longrightarrow> replayed now ts s =
    (case ts of None \<Rightarrow> False | Some t \<Rightarrow> 0 < w \<and> w < now - t)"
  by (simp add: replayed_def split: option.split)

lemma replayed_seen [simp]: "replayed now ts (s\<lparr>ds_seen := n\<rparr>) = replayed now ts s"
  by (simp add: replayed_def split: option.split)

lemma is_duplicate_fallback:
  assumes "is_duplicate None now k ts src meta s = (res, s')"
  shows "ds_ttl s' = ds_ttl s" "ds_replay_window s' = ds_replay_window s"
    "replayed now ts s \<Longrightarrow> res = REPLAY_REJECTED \<and> ds_fallback s' = ds_fallback s"
    "\<not> replayed now ts s \<Longrightarrow>
      res = (if fst (add_if_absent (ds_ttl s) MAX_KEYS now k (ds_fallback s)) then NEW else DUPLICATE) \<and>
      ds_fallback s' = snd (add_if_absent (ds_ttl s) MAX_KEYS now k (ds_fallback s))"
  using assms
  by (auto simp: is_duplicate_def Let_def store_add_if_absent_def fallback_add_def
      split: if_splits prod.splits bool.splits)

lemma classify_all_add_run:
  "fst (classify_all None es s) =
     add_run (add_if_absent (ds_ttl s) MAX_KEYS) (map (\<lambda>e. (ev_now e, ev_key e, too_old (ds_replay_window s) e)) es) (ds_fallback s)"
proof (induction es arbitrary: s)
  case (Cons e es)
  obtain res s1 where step: "is_duplicate None (ev_now e) (ev_key e) (ev_timestamp e) (ev_source e) (ev_metadata e) s = (res, s1)"
    by fastforce
  note d = is_duplicate_fallback [OF step]
  have "replayed (ev_now e) (ev_timestamp e) s = too_old (ds_replay_window s) e" by (simp add: replayed_def too_old_def)
  with d Cons.IH [of s1] show ?case by (cases "too_old (ds_replay_window s) e") (simp_all add: step split_beta)
qed simp

lemma classify_all_spec:
  assumes "sorted (map ev_now es)" "length es \<le> MAX_KEYS" "0 < ds_ttl s" "ds_fallback s = []"
  shows "fst (classify_all None es s) =
    spec_run (ds_ttl s) (map (\<lambda>e. (ev_now e, ev_key e, too_old (ds_replay_window s) e)) es) Map.empty"
proof (cases es)
  case (Cons e rest)
  let ?xs = "map (\<lambda>e. (ev_now e, ev_key e, too_old (ds_replay_window s) e)) es"
  have "mem.represents (ds_ttl s) (ev_now e) [] Map.empty" by (simp add: mem.represents_def)
  moreover have "key_room MAX_KEYS (length ?xs) []" using assms(2) by (simp add: key_room_def)
  moreover have "sorted (ev_now e # map fst ?xs)" using assms(1) Cons by (simp add: comp_def)
  ultimately have "add_run (add_if_absent (ds_ttl s) MAX_KEYS) ?xs [] = spec_run (ds_ttl s) ?xs Map.empty"
    using assms(3) by (intro mem.run_refines)
  then show ?thesis by (simp only: classify_all_add_run assms(4))
qed simp


text \<open>A concrete store and stream for the witnesses.\<close>

definition toy_store :: "unit dedup_store" where
  "toy_store = new_dedup_store (3600 * 1000000) None () [] []"

definition toy_event :: "time \<Rightarrow> time \<Rightarrow> dedup_event" where
  "toy_event now t = \<lparr>ev_now = now, ev_key = ''k'', ev_timestamp = Some t, ev_source = ''evm'', ev_metadata = None\<rparr>"

lemma toy_store_simps [simp]:
  "ds_ttl toy_store = 86400 * 1000000" "ds_replay_window toy_store = 3600 * 1000000" "ds_fallback toy_store = []"
  by (simp_all add: toy_store_def new_dedup_store_def resolve_dedup_ttl_def DEFAULT_DEDUP_TTL_SECONDS_def)


lemma resolve_ttl_covers_window: "0 < w \<Longrightarrow> 2 * w \<le> resolve_dedup_ttl w \<and> 0 < resolve_dedup_ttl w"
  by (simp add: resolve_dedup_ttl_def DEFAULT_DEDUP_TTL_SECONDS_def Let_def max_def)

lemma spec_run_replay: "i < length xs \<Longrightarrow> snd (snd (xs ! i)) \<Longrightarrow> spec_run ttl xs seen ! i = REPLAY_REJECTED"
  by (induction ttl xs seen arbitrary: i rule: spec_run.induct) (auto simp: nth_Cons split: nat.splits)

text \<open>An event is processed at most once, for ever. With the time to live the code derives from the replay window, an
  event seen as new (and dated less than the window into the future) is never seen as new again, however long
  after it is redelivered: while its key is remembered it is a duplicate, and afterwards it is too old.\<close>

theorem event_new_at_most_once:
  assumes "s = new_dedup_store window None r ks audit" "0 < window" "sorted (map ev_now es)" "length es \<le> MAX_KEYS"
    "i < j" "j < length es" "ev_key (es ! i) = ev_key (es ! j)" "ev_timestamp (es ! i) = Some t" "ev_timestamp (es ! j) = Some t"
    "t < ev_now (es ! i) + window" "fst (classify_all None es s) ! i = NEW"
  shows "fst (classify_all None es s) ! j \<in> {DUPLICATE, REPLAY_REJECTED}"
proof (rule ccontr)
  assume *: "\<not> ?thesis"
  let ?xs = "map (\<lambda>e. (ev_now e, ev_key e, too_old (ds_replay_window s) e)) es"
  have s: "ds_ttl s = resolve_dedup_ttl window" "ds_replay_window s = window" "ds_fallback s = []"
    by (simp_all add: assms(1) new_dedup_store_def)
  have ttl: "2 * window \<le> ds_ttl s" "0 < ds_ttl s" using resolve_ttl_covers_window [OF assms(2)] s by simp_all
  have x: "?xs ! i = (ev_now (es ! i), ev_key (es ! i), too_old window (es ! i))"
    "?xs ! j = (ev_now (es ! j), ev_key (es ! j), too_old window (es ! j))" using assms(5,6) s by simp_all
  have run: "fst (classify_all None es s) = spec_run (ds_ttl s) ?xs Map.empty"
    using assms(3,4) ttl(2) s(3) by (rule classify_all_spec)
  have new: "spec_run (ds_ttl s) ?xs Map.empty ! i = NEW" "spec_run (ds_ttl s) ?xs Map.empty ! j = NEW"
    using assms(11) * unfolding run by (auto intro: dedup_result.exhaust)
  have "\<not> too_old window (es ! j)"
    using new(2) spec_run_replay [of j ?xs "ds_ttl s" Map.empty] assms(6) x by force
  then have "ev_now (es ! j) - t \<le> window" using assms(2,9) by (simp add: too_old_def)
  moreover have "ev_now (es ! i) + ds_ttl s \<le> ev_now (es ! j)"
    using spec_run_new_twice [of "ds_ttl s" i j ?xs Map.empty] new assms(5-7) ttl x by simp
  ultimately show False using assms(2,10) ttl by simp
qed

theorem event_new_at_most_once_witness:
  "fst (classify_all None [toy_event 10 5, toy_event (10 + 86400 * 1000000) 5] toy_store) ! 1 \<in> {DUPLICATE, REPLAY_REJECTED}"
  by (rule event_new_at_most_once [OF toy_store_def, of _ 0 1 5])
    (simp_all add: MAX_KEYS_def toy_event_def is_duplicate_def replayed_def store_add_if_absent_def fallback_add_def
      add_if_absent_def evict_expired_def Let_def)

subsection \<open>What the key identifies\<close>

definition fields_ok :: "string \<Rightarrow> (string \<times> id_value) list \<Rightarrow> bool" where
  "fields_ok source ids \<longleftrightarrow> list_all (\<lambda>(k, v). json_ok (normalize_field source k v)) ids"

lemma key_payload_inj:
  assumes "key_payload source ids = key_payload source' ids'" "fields_ok source ids" "fields_ok source' ids'"
  shows "source = source' \<and>
    (\<lambda>(k, v). (k, normalize_field source k v)) ` set ids = (\<lambda>(k, v). (k, normalize_field source' k v)) ` set ids'"
proof -
  let ?o = "\<lambda>source ids. json_dict (map (\<lambda>(k, v). (k, normalize_field source k v)) ids)"
  let ?items = "\<lambda>source ids. [(''source'', JStr source), (''identity_fields'', ?o source ids)]"
  have ok: "json_ok (?o source ids)" if "fields_ok source ids" for source ids
    using that by (auto simp: fields_ok_def list_all_iff)
  then have "json_ok (JObj (?items source ids))" "json_ok (JObj (?items source' ids'))" using assms(2,3) by simp_all
  from json_dict_inj [OF this] assms(1) have items: "set (?items source ids) = set (?items source' ids')"
    by (simp add: key_payload_def)
  have "(''source'', JStr source) \<in> set (?items source' ids')" unfolding items [symmetric] by simp
  then have src: "source = source'" by simp
  have "(''identity_fields'', ?o source ids) \<in> set (?items source' ids')" unfolding items [symmetric] by simp
  then have o: "?o source ids = ?o source' ids'" by simp
  let ?l = "map (\<lambda>(k, v). (k, normalize_field source k v)) ids" and ?l' = "map (\<lambda>(k, v). (k, normalize_field source' k v)) ids'"
  have "sort_key fst ?l = sort_key fst ?l'" using o unfolding json_dict_def json.inject .
  then have "set (sort_key fst ?l) = set (sort_key fst ?l')" by (rule arg_cong)
  then show ?thesis using src unfolding set_sort set_map by blast
qed

text \<open>A key identifies the event. Two events with the same key have the same source and the same identity fields up
  to normalisation, or a collision of SHA-256 is exhibited; for EVM events the key is exactly chain, transaction
  hash up to case, and log index.\<close>

theorem idempotency_key_identifies_event:
  assumes "compute_event_hash sha c t l = compute_event_hash sha c' t' l'"
  shows "c = c' \<and> lower t = lower t' \<and> l = l' \<or> (\<exists>x y. x \<noteq> y \<and> sha x = sha y)"
proof (cases "\<exists>x y. x \<noteq> y \<and> sha x = sha y")
  case False
  let ?ids = "\<lambda>c t l. [(''chain_id'', IdInt c), (''tx_hash'', IdStr t), (''log_index'', IdInt l)]"
  have "key_payload ''evm'' (?ids c t l) = key_payload ''evm'' (?ids c' t' l')"
    using assms False by (auto simp: compute_event_hash_def compute_key_def)
  moreover have "fields_ok ''evm'' (?ids c t l)" "fields_ok ''evm'' (?ids c' t' l')"
    by (simp_all add: fields_ok_def normalize_field_def)
  ultimately have "(\<lambda>(k, v). (k, normalize_field ''evm'' k v)) ` set (?ids c t l) =
      (\<lambda>(k, v). (k, normalize_field ''evm'' k v)) ` set (?ids c' t' l')"
    by (rule key_payload_inj [THEN conjunct2])
  then have eq: "{(''chain_id'', JNum (str_int c)), (''tx_hash'', JStr (lower t)), (''log_index'', JNum (str_int l))} =
      {(''chain_id'', JNum (str_int c')), (''tx_hash'', JStr (lower t')), (''log_index'', JNum (str_int l'))}"
    by (simp only: list.set image_insert image_empty prod.case normalize_field_def id_value.case) (simp add: if_splits)
  have "(''chain_id'', JNum (str_int c)) \<in> {(''chain_id'', JNum (str_int c')), (''tx_hash'', JStr (lower t')), (''log_index'', JNum (str_int l'))}"
    "(''tx_hash'', JStr (lower t)) \<in> {(''chain_id'', JNum (str_int c')), (''tx_hash'', JStr (lower t')), (''log_index'', JNum (str_int l'))}"
    "(''log_index'', JNum (str_int l)) \<in> {(''chain_id'', JNum (str_int c')), (''tx_hash'', JStr (lower t')), (''log_index'', JNum (str_int l'))}"
    unfolding eq [symmetric] by simp_all
  then have "str_int c = str_int c'" "lower t = lower t'" "str_int l = str_int l'" by simp_all
  then show ?thesis by (auto dest: str_int_inj)
qed simp

theorem idempotency_key_identifies_event_witness:
  "compute_event_hash id 1 ''0xAB'' 0 = compute_event_hash id 1 ''0xab'' 0 \<and>
   (lower ''0xAB'' = lower ''0xab'' \<or> (\<exists>x y :: string. x \<noteq> y \<and> id x = id y))"
proof
  have "lower ''0xAB'' = lower ''0xab''" by code_simp
  then show h: "compute_event_hash id 1 ''0xAB'' 0 = compute_event_hash id 1 ''0xab'' 0"
    by (simp add: compute_event_hash_def compute_key_def key_payload_def normalize_field_def)
  show "lower ''0xAB'' = lower ''0xab'' \<or> (\<exists>x y :: string. x \<noteq> y \<and> id x = id y)"
    using idempotency_key_identifies_event [OF h] by (elim disjE conjE) (rule disjI1, assumption, rule disjI2, assumption)
qed

subsection \<open>Counters and tables\<close>

definition counted :: "dedup_result \<Rightarrow> 'r dedup_store \<Rightarrow> nat" where
  "counted res s = length (filter (\<lambda>a. da_result a = res) (ds_audit s))"

definition counters_ok :: "'r dedup_store \<Rightarrow> bool" where
  "counters_ok s \<longleftrightarrow> ds_seen s = length (ds_audit s) \<and> ds_duplicate s = counted DUPLICATE s \<and>
     ds_rejected s = counted REPLAY_REJECTED s \<and> distinct (map kr_key (ds_keys s))"

lemma counters_ok_step:
  assumes "counters_ok s" "is_duplicate redis now k ts src meta s = (res, s')"
  shows "counters_ok s'"
proof -
  have frame: "ds_seen s1 = ds_seen s0 \<and> ds_duplicate s1 = ds_duplicate s0 \<and> ds_rejected s1 = ds_rejected s0 \<and>
      ds_audit s1 = ds_audit s0 \<and> ds_keys s1 = ds_keys s0" if "store_add_if_absent redis now k s0 = (b, s1)" for s0 s1 b
    using that by (auto simp: store_add_if_absent_def fallback_add_def split: option.splits prod.splits)
  show ?thesis
  proof (cases "replayed now ts s")
    case True
    with assms show ?thesis by (auto simp: is_duplicate_def Let_def counters_ok_def counted_def log_audit_def)
  next
    case False
    obtain b s1 where add: "store_add_if_absent redis now k (s\<lparr>ds_seen := ds_seen s + 1\<rparr>) = (b, s1)" by fastforce
    from frame [OF add] False add assms show ?thesis
      by (cases b) (auto simp: is_duplicate_def Let_def counters_ok_def counted_def log_audit_def insert_key_row_def)
  qed
qed

text \<open>The statistics agree with the audit table, whatever the backend answers. From a fresh store, every call adds one
  audit row; the counters are the numbers of its rows, and the rate of duplicates lies between zero and one.\<close>

theorem dedup_counters_match_audit:
  "let s = snd (classify_all redis es (new_dedup_store window ttl r [] [])) in
   ds_seen s = length (ds_audit s) \<and> ds_duplicate s = length (filter (\<lambda>a. da_result a = DUPLICATE) (ds_audit s)) \<and>
   ds_rejected s = length (filter (\<lambda>a. da_result a = REPLAY_REJECTED) (ds_audit s)) \<and>
   length (ds_audit s) = length es \<and> 0 \<le> dedup_hit_rate s \<and> dedup_hit_rate s \<le> 1"
proof -
  have step: "length (ds_audit s') = length (ds_audit s) + 1" if "is_duplicate redis now k ts src meta s = (res, s')"
    for now k ts src meta res and s s' :: "'a dedup_store"
    using that by (auto simp: is_duplicate_def Let_def log_audit_def insert_key_row_def store_add_if_absent_def fallback_add_def
        split: if_splits prod.splits bool.splits option.splits)
  have "counters_ok s \<Longrightarrow> counters_ok (snd (classify_all redis es s)) \<and>
      length (ds_audit (snd (classify_all redis es s))) = length (ds_audit s) + length es" for s
  proof (induction es arbitrary: s)
    case (Cons e es)
    obtain res s1 where d: "is_duplicate redis (ev_now e) (ev_key e) (ev_timestamp e) (ev_source e) (ev_metadata e) s = (res, s1)"
      by fastforce
    with Cons.IH [OF counters_ok_step [OF Cons.prems d]] step [OF d] show ?case by (simp add: split_beta)
  qed simp
  from this [of "new_dedup_store window ttl r [] []"]
  have ok: "counters_ok (snd (classify_all redis es (new_dedup_store window ttl r [] [])))"
    "length (ds_audit (snd (classify_all redis es (new_dedup_store window ttl r [] [])))) = length es"
    by (simp_all add: counters_ok_def counted_def new_dedup_store_def)
  let ?s = "snd (classify_all redis es (new_dedup_store window ttl r [] []))"
  have "ds_duplicate ?s \<le> ds_seen ?s" using ok(1) by (simp add: counters_ok_def counted_def)
  then have "0 \<le> dedup_hit_rate ?s \<and> dedup_hit_rate ?s \<le> 1" by (simp add: dedup_hit_rate_def divide_le_eq)
  with ok show ?thesis by (simp add: Let_def counters_ok_def counted_def)
qed

text \<open>Without Redis the memory of keys dies with the process: the next one takes a processed event as new although the
  table of keys, which the code writes but never reads, still lists it.\<close>

lemma restart_forgets_keys:
  assumes "is_duplicate None now k ts src meta s = (NEW, s')" "\<not> replayed now' ts s'"
  shows "k \<in> kr_key ` set (ds_keys s') \<and>
    fst (is_duplicate None now' k ts src meta
      (new_dedup_store (ds_replay_window s') (Some (ds_ttl s')) (ds_redis s') (ds_keys s') (ds_audit s'))) = NEW"
proof
  show "k \<in> kr_key ` set (ds_keys s')"
    using assms(1) by (auto simp: is_duplicate_def Let_def insert_key_row_def log_audit_def split: if_splits prod.splits bool.splits)
  have "\<not> replayed now' ts (new_dedup_store (ds_replay_window s') (Some (ds_ttl s')) (ds_redis s') (ds_keys s') (ds_audit s'))"
    using assms(2) by (simp add: replayed_def new_dedup_store_def split: option.splits)
  then show "fst (is_duplicate None now' k ts src meta
      (new_dedup_store (ds_replay_window s') (Some (ds_ttl s')) (ds_redis s') (ds_keys s') (ds_audit s'))) = NEW"
    by (simp add: is_duplicate_def Let_def store_add_if_absent_def fallback_add_def add_if_absent_def evict_expired_def
        MAX_KEYS_def) (simp add: new_dedup_store_def)
qed

end
