(* ===== verification/Oracle.thy ===== *)
theory Oracle
  imports Bytes
begin

text \<open>
  The oracle quorum: the messages nodes sign and the aggregation of their reports
  (\<open>detection/oracle_node.py\<close>) and the coordinator's quorum with its slashing
  (\<open>detection/oracle_coordinator.py\<close>). Ed25519 and SHA-256 are packages; SHA-256 is the argument \<open>sha\<close>. Texts are byte
  strings of the model's characters (\<open>encode_text\<close>).
\<close>

subsection \<open>The signed message\<close>

definition ORACLE_DOMAIN_SEPARATOR :: bytes where "ORACLE_DOMAIN_SEPARATOR = encode_text ''LedgerLens-Oracle-v2''"
definition HEARTBEAT_DOMAIN_SEPARATOR :: bytes where
  "HEARTBEAT_DOMAIN_SEPARATOR = encode_text ''LedgerLens-Oracle-Heartbeat-v1''"
definition SOROBAN_SYMBOL_SCVAL_TYPE :: nat where "SOROBAN_SYMBOL_SCVAL_TYPE = 15"
definition MAX_SYMBOL_LENGTH :: nat where "MAX_SYMBOL_LENGTH = 32"

record submission =
  su_wallet :: string
  su_asset_pair :: string
  su_score :: int
  su_benford_flag :: bool
  su_ml_flag :: bool
  su_timestamp :: int
  su_confidence :: int
  su_model_version :: int

datatype oracle_error = Bad_symbol | Bad_score | Bad_confidence | Bad_timestamp | Bad_model_version
  | Total_nodes_below_one | Threshold_above_nodes int nat

definition symbol_char :: "char \<Rightarrow> bool" where
  "symbol_char c \<longleftrightarrow> (let n = of_char c :: nat in 48 \<le> n \<and> n \<le> 57 \<or> 65 \<le> n \<and> n \<le> 90 \<or> 97 \<le> n \<and> n \<le> 122 \<or> n = 95)"

definition symbol_xdr :: "string \<Rightarrow> oracle_error + bytes" where
  "symbol_xdr v =
     (if MAX_SYMBOL_LENGTH < length v \<or> v = [] \<or> \<not> list_all symbol_char v then Inl Bad_symbol
      else Inr (be_bytes 4 SOROBAN_SYMBOL_SCVAL_TYPE @ be_bytes 4 (length v) @ encode_text v @
                replicate ((4 - length v mod 4) mod 4) 0))"

definition validate_payload :: "submission \<Rightarrow> oracle_error option" where
  "validate_payload m =
     (if \<not> (0 \<le> su_score m \<and> su_score m \<le> 100) then Some Bad_score
      else if \<not> (0 \<le> su_confidence m \<and> su_confidence m \<le> 100) then Some Bad_confidence
      else if \<not> (0 \<le> su_timestamp m \<and> su_timestamp m \<le> 2 ^ 64 - 1) then Some Bad_timestamp
      else if \<not> (0 \<le> su_model_version m \<and> su_model_version m \<le> 2 ^ 32 - 1) then Some Bad_model_version
      else None)"

definition message_tail :: "submission \<Rightarrow> bytes" where
  "message_tail m = be_bytes 4 (nat (su_score m)) @ [if su_benford_flag m then 1 else 0] @ [if su_ml_flag m then 1 else 0] @
     be_bytes 8 (nat (su_timestamp m)) @ be_bytes 4 (nat (su_confidence m)) @ be_bytes 4 (nat (su_model_version m))"

definition message_body :: "submission \<Rightarrow> oracle_error + bytes" where
  "message_body m =
     (case validate_payload m of
        Some e \<Rightarrow> Inl e
      | None \<Rightarrow>
          (case symbol_xdr (su_asset_pair m) of
             Inl e \<Rightarrow> Inl e
           | Inr xdr \<Rightarrow> Inr (ORACLE_DOMAIN_SEPARATOR @ encode_text (su_wallet m) @ encode_text ''|'' @ xdr @
                            encode_text ''|'' @ message_tail m)))"

definition canonical_message :: "(bytes \<Rightarrow> bytes) \<Rightarrow> submission \<Rightarrow> oracle_error + bytes" where
  "canonical_message sha m = map_sum id sha (message_body m)"

definition heartbeat_body :: "string \<Rightarrow> bytes \<Rightarrow> nat \<Rightarrow> bytes" where
  "heartbeat_body name pk timestamp =
     HEARTBEAT_DOMAIN_SEPARATOR @ encode_text name @ encode_text ''|'' @ pk @ encode_text ''|'' @ be_bytes 8 timestamp"

definition heartbeat_message :: "(bytes \<Rightarrow> bytes) \<Rightarrow> string \<Rightarrow> bytes \<Rightarrow> int \<Rightarrow> oracle_error + bytes" where
  "heartbeat_message sha name pk timestamp =
     (if \<not> (0 \<le> timestamp \<and> timestamp \<le> 2 ^ 64 - 1) then Inl Bad_timestamp
      else Inr (sha (heartbeat_body name pk (nat timestamp))))"

subsection \<open>Aggregation of reports\<close>

record oracle_report =
  or_node :: string
  or_score :: int
  or_confidence :: int
  or_timestamp :: int

record quorum_result =
  qr_agreed :: bool
  qr_score :: "int option"
  qr_confidence :: "int option"
  qr_quorum_size :: nat
  qr_total_nodes :: nat
  qr_faulty_bound :: nat
  qr_agreeing :: "string list"
  qr_slashed :: "string list"

record bft_aggregator =
  bft_total_nodes :: nat
  bft_faulty_bound :: nat
  bft_quorum_size :: nat

definition new_bft :: "nat \<Rightarrow> oracle_error + bft_aggregator" where
  "new_bft total_nodes =
     (if total_nodes < 1 then Inl Total_nodes_below_one
      else let f = (total_nodes - 1) div 3 in
        Inr \<lparr>bft_total_nodes = total_nodes, bft_faulty_bound = f, bft_quorum_size = 2 * f + 1\<rparr>)"

text \<open>The keys of a dict filled in the order of \<open>xs\<close>.\<close>

definition first_occurrences :: "'a list \<Rightarrow> 'a list" where
  "first_occurrences xs = rev (remdups (rev xs))"

definition report_value :: "oracle_report \<Rightarrow> int \<times> int" where
  "report_value r = (or_score r, or_confidence r)"

definition tally :: "oracle_report list \<Rightarrow> ((int \<times> int) \<times> oracle_report list) list" where
  "tally reports = map (\<lambda>v. (v, filter (\<lambda>r. report_value r = v) reports)) (first_occurrences (map report_value reports))"

fun pick_winner ::
    "nat \<Rightarrow> ((int \<times> int) \<times> oracle_report list) list \<Rightarrow> (int \<times> int) option \<times> oracle_report list \<Rightarrow> (int \<times> int) option \<times> oracle_report list" where
  "pick_winner majority [] best = best"
| "pick_winner majority ((v, grp) # rest) best =
     pick_winner majority rest (if majority \<le> length grp \<and> length (snd best) < length grp then (Some v, grp) else best)"

definition no_agreement :: "bft_aggregator \<Rightarrow> quorum_result" where
  "no_agreement b = \<lparr>qr_agreed = False, qr_score = None, qr_confidence = None, qr_quorum_size = bft_quorum_size b,
     qr_total_nodes = bft_total_nodes b, qr_faulty_bound = bft_faulty_bound b, qr_agreeing = [], qr_slashed = []\<rparr>"

definition bft_aggregate :: "bft_aggregator \<Rightarrow> oracle_report list \<Rightarrow> quorum_result" where
  "bft_aggregate b reports =
     (if reports = [] then no_agreement b
      else
        case pick_winner (bft_total_nodes b div 2 + 1) (tally reports) (None, []) of
          (None, _) \<Rightarrow> no_agreement b
        | (Some v, grp) \<Rightarrow>
            \<lparr>qr_agreed = True, qr_score = Some (fst v), qr_confidence = Some (snd v), qr_quorum_size = bft_quorum_size b,
             qr_total_nodes = bft_total_nodes b, qr_faulty_bound = bft_faulty_bound b, qr_agreeing = map or_node grp,
             qr_slashed = map or_node (filter (\<lambda>r. report_value r \<noteq> v) reports)\<rparr>)"

definition slash_inconsistent :: "oracle_report list \<Rightarrow> (string \<rightharpoonup> int) \<Rightarrow> string list" where
  "slash_inconsistent reports consensus =
     map or_node (filter (\<lambda>r. case consensus (or_node r) of None \<Rightarrow> False | Some expected \<Rightarrow> or_score r \<noteq> expected) reports)"

subsection \<open>The coordinator\<close>

record coordinator =
  co_nodes :: "string list"
  co_threshold :: int
  co_tolerated_faults :: int
  co_required_quorum :: int
  co_slash_amount :: int
  co_slashed_nodes :: "string \<rightharpoonup> int"

record aggregation_result =
  ag_value :: "int option"
  ag_agreeing :: "string list"
  ag_dissenting :: "string list"
  ag_slashed :: "string list"
  ag_quorum_size :: nat
  ag_required_quorum :: int
  ag_tolerated_faults :: int
  ag_valid :: bool

definition new_coordinator :: "string list \<Rightarrow> int \<Rightarrow> oracle_error + coordinator" where
  "new_coordinator nodes threshold =
     (if int (length nodes) < threshold then Inl (Threshold_above_nodes threshold (length nodes))
      else let f = (int (length nodes) - 1) div 3 in
        Inr \<lparr>co_nodes = nodes, co_threshold = threshold, co_tolerated_faults = f, co_required_quorum = 2 * f + 1,
          co_slash_amount = 1, co_slashed_nodes = Map.empty\<rparr>)"

definition count_of :: "(string \<times> int) list \<Rightarrow> int \<Rightarrow> nat" where
  "count_of reports v = length (filter (\<lambda>(_, w). w = v) reports)"

definition most_common :: "(string \<times> int) list \<Rightarrow> (int \<times> nat) list" where
  "most_common reports =
     sort_key (\<lambda>(_, c). - int c) (map (\<lambda>v. (v, count_of reports v)) (first_occurrences (map snd reports)))"

definition slash_step :: "int \<Rightarrow> string \<Rightarrow> (string \<rightharpoonup> int) \<Rightarrow> (string \<rightharpoonup> int)" where
  "slash_step amount name m = m(name \<mapsto> (case m name of None \<Rightarrow> 0 | Some x \<Rightarrow> x) + amount)"

definition aggregate_reports :: "(string \<times> int) list \<Rightarrow> bool \<Rightarrow> coordinator \<Rightarrow> aggregation_result \<times> coordinator" where
  "aggregate_reports reports slash co =
     (case find (\<lambda>(_, c). co_required_quorum co \<le> int c) (most_common reports) of
        None \<Rightarrow>
          (\<lparr>ag_value = None, ag_agreeing = [], ag_dissenting = map fst reports, ag_slashed = [], ag_quorum_size = 0,
            ag_required_quorum = co_required_quorum co, ag_tolerated_faults = co_tolerated_faults co, ag_valid = False\<rparr>, co)
      | Some (winner, _) \<Rightarrow>
          let agreeing = map fst (filter (\<lambda>(_, v). v = winner) reports);
              dissenting = map fst (filter (\<lambda>(_, v). v \<noteq> winner) reports) in
          (\<lparr>ag_value = Some winner, ag_agreeing = agreeing, ag_dissenting = dissenting,
            ag_slashed = (if slash then dissenting else []), ag_quorum_size = length agreeing,
            ag_required_quorum = co_required_quorum co, ag_tolerated_faults = co_tolerated_faults co, ag_valid = True\<rparr>,
           if slash then co\<lparr>co_slashed_nodes := fold (slash_step (co_slash_amount co)) dissenting (co_slashed_nodes co)\<rparr>
           else co))"

subsection \<open>What a signature binds\<close>

lemma pipe_byte: "encode_text ''|'' = [124]"
  by (simp add: encode_text_def byte_of_def)

lemma message_tail_length: "length (message_tail m) = 22"
  by (simp add: message_tail_def)

lemma length_be_4: "be_bytes 4 n = [of_nat (n div 256 div 256 div 256 mod 256), of_nat (n div 256 div 256 mod 256),
    of_nat (n div 256 mod 256), of_nat (n mod 256)]"
proof -
  have "(4 :: nat) = Suc (Suc (Suc (Suc 0)))" by simp
  then show ?thesis by (simp only: be_bytes.simps) simp
qed

lemma symbol_xdr_no_pipe:
  assumes "symbol_xdr v = Inr xdr"
  shows "124 \<notin> set xdr"
proof -
  from assms have len: "length v \<le> 32" and chars: "\<forall>c \<in> set v. symbol_char c" and
    xdr: "xdr = be_bytes 4 15 @ be_bytes 4 (length v) @ encode_text v @ replicate ((4 - length v mod 4) mod 4) 0"
    by (auto simp: symbol_xdr_def MAX_SYMBOL_LENGTH_def SOROBAN_SYMBOL_SCVAL_TYPE_def list_all_iff split: if_splits)
  have "byte_of c \<noteq> 124" if "symbol_char c" for c
  proof -
    have "unat (byte_of c) = (of_char c :: nat)"
      using nat_of_char_less_256 [of c] by (simp add: byte_of_def unat_of_nat_byte)
    with that show ?thesis by (auto simp: symbol_char_def Let_def)
  qed
  then have "124 \<notin> byte_of ` set v" using chars by (intro notI, elim imageE) metis
  then have "124 \<notin> set (encode_text v)" by (simp add: encode_text_def)
  moreover have "(of_nat (length v) :: 8 word) \<noteq> 124"
    using len unat_of_nat_byte [of "length v"] by (auto dest: arg_cong [of _ _ unat])
  ultimately show ?thesis using len by (simp add: xdr length_be_4)
qed

lemma symbol_xdr_inj:
  assumes "symbol_xdr v = Inr xdr" "symbol_xdr v' = Inr xdr"
  shows "v = v'"
proof -
  let ?p = "\<lambda>v :: string. replicate ((4 - length v mod 4) mod 4) (0 :: 8 word)"
  from assms have eq: "be_bytes 4 (length v) @ encode_text v @ ?p v = be_bytes 4 (length v') @ encode_text v' @ ?p v'"
    and len: "length v \<le> 32" "length v' \<le> 32"
    by (auto simp: symbol_xdr_def MAX_SYMBOL_LENGTH_def split: if_splits)
  from eq have "be_bytes 4 (length v) = be_bytes 4 (length v')" "encode_text v @ ?p v = encode_text v' @ ?p v'" by simp_all
  moreover from this(1) len have "length v = length v'" by (simp add: be_bytes_inj)
  ultimately show ?thesis by simp
qed

lemma message_tail_inj:
  assumes "message_tail m = message_tail m'" "validate_payload m = None" "validate_payload m' = None"
  shows "su_score m = su_score m' \<and> su_benford_flag m = su_benford_flag m' \<and> su_ml_flag m = su_ml_flag m' \<and>
    su_timestamp m = su_timestamp m' \<and> su_confidence m = su_confidence m' \<and> su_model_version m = su_model_version m'"
proof -
  have r: "nat (su_score m) < 256 ^ 4" "nat (su_timestamp m) < 256 ^ 8" "nat (su_confidence m) < 256 ^ 4"
    "nat (su_model_version m) < 256 ^ 4" "0 \<le> su_score m" "0 \<le> su_timestamp m" "0 \<le> su_confidence m" "0 \<le> su_model_version m"
    if "validate_payload m = None" for m
    using that by (auto simp: validate_payload_def split: if_splits)
  have eqs: "be_bytes 4 (nat (su_score m)) = be_bytes 4 (nat (su_score m'))"
    "(if su_benford_flag m then 1 else 0 :: 8 word) = (if su_benford_flag m' then 1 else 0)"
    "(if su_ml_flag m then 1 else 0 :: 8 word) = (if su_ml_flag m' then 1 else 0)"
    "be_bytes 8 (nat (su_timestamp m)) = be_bytes 8 (nat (su_timestamp m'))"
    "be_bytes 4 (nat (su_confidence m)) = be_bytes 4 (nat (su_confidence m'))"
    "be_bytes 4 (nat (su_model_version m)) = be_bytes 4 (nat (su_model_version m'))"
    using assms(1) by (simp_all add: message_tail_def)
  note [simp] = be_bytes_inj r [OF assms(2)] r [OF assms(3)]
  have "nat (su_score m) = nat (su_score m')" "nat (su_timestamp m) = nat (su_timestamp m')"
    "nat (su_confidence m) = nat (su_confidence m')" "nat (su_model_version m) = nat (su_model_version m')"
    using eqs by (simp_all only: be_bytes_inj r [OF assms(2)] r [OF assms(3)])
  with eqs(2,3) show ?thesis using r(5-8) [OF assms(2)] r(5-8) [OF assms(3)] by (simp add: eq_nat_nat_iff split: if_splits)
qed

lemma message_body_inj:
  assumes "message_body m = Inr b" "message_body m' = Inr b"
  shows "m = m'"
proof -
  from assms obtain xdr xdr' where v: "validate_payload m = None" "validate_payload m' = None"
    and x: "symbol_xdr (su_asset_pair m) = Inr xdr" "symbol_xdr (su_asset_pair m') = Inr xdr'"
    and b: "b = ORACLE_DOMAIN_SEPARATOR @ encode_text (su_wallet m) @ encode_text ''|'' @ xdr @ encode_text ''|'' @ message_tail m"
      "b = ORACLE_DOMAIN_SEPARATOR @ encode_text (su_wallet m') @ encode_text ''|'' @ xdr' @ encode_text ''|'' @ message_tail m'"
    by (auto simp: message_body_def split: option.splits sum.splits)
  let ?u = "encode_text (su_wallet m) @ 124 # xdr" and ?u' = "encode_text (su_wallet m') @ 124 # xdr'"
  from b have "?u @ 124 # message_tail m = ?u' @ 124 # message_tail m'" by (simp add: pipe_byte)
  then have "?u = ?u' \<and> 124 # message_tail m = 124 # message_tail m'"
    by (subst (asm) append_eq_append_conv) (simp_all add: message_tail_length)
  then have eq: "?u = ?u'" "message_tail m = message_tail m'" by simp_all
  from split_last_sep [OF eq(1)] x have "su_wallet m = su_wallet m'" "xdr = xdr'" by (simp_all add: symbol_xdr_no_pipe)
  with message_tail_inj [OF eq(2) v] symbol_xdr_inj x show ?thesis by auto
qed

text \<open>An oracle signature binds every field. Two submissions with the same canonical message are equal in all eight
  fields, or a collision of SHA-256 is exhibited: no separator or width ambiguity lets one signature serve two
  submissions.\<close>

theorem canonical_message_binds_fields:
  assumes "canonical_message sha m = Inr d" "canonical_message sha m' = Inr d"
  shows "m = m' \<or> (\<exists>x y. x \<noteq> y \<and> sha x = sha y)"
proof -
  from assms obtain b b' where "message_body m = Inr b" "message_body m' = Inr b'" "sha b = d" "sha b' = d"
    by (auto simp: canonical_message_def map_sum_def split: sum.splits)
  then show ?thesis using message_body_inj [of m b m'] by metis
qed

definition toy_submission :: submission where
  "toy_submission = \<lparr>su_wallet = ''GA|x'', su_asset_pair = ''XLM_USDC'', su_score = 87, su_benford_flag = True, su_ml_flag = False,
     su_timestamp = 1700000000, su_confidence = 90, su_model_version = 3\<rparr>"

theorem canonical_message_binds_fields_witness:
  "\<exists>d. canonical_message id toy_submission = Inr d \<and>
    (toy_submission = toy_submission \<or> (\<exists>x y :: bytes. x \<noteq> y \<and> id x = id y))"
proof -
  have "list_all symbol_char ''XLM_USDC''" by code_simp
  then have "\<exists>d. canonical_message id toy_submission = Inr d"
    by (simp add: canonical_message_def message_body_def validate_payload_def symbol_xdr_def MAX_SYMBOL_LENGTH_def toy_submission_def)
  then obtain d where d: "canonical_message id toy_submission = Inr d" ..
  from canonical_message_binds_fields [OF d d] d show ?thesis by blast
qed

subsection \<open>Agreement\<close>

lemma first_occurrences_set [simp]: "set (first_occurrences xs) = set xs" "distinct (first_occurrences xs)"
  by (simp_all add: first_occurrences_def)

definition reporters :: "oracle_report list \<Rightarrow> int \<times> int \<Rightarrow> oracle_report list" where
  "reporters reports v = filter (\<lambda>r. report_value r = v) reports"

lemma tally_iff: "(v, g) \<in> set (tally reports) \<longleftrightarrow> v \<in> report_value ` set reports \<and> g = reporters reports v"
  by (auto simp: tally_def reporters_def)

lemma pick_winner_spec:
  "let r = pick_winner majority gs best in
   (r = best \<or> (\<exists>v g. (v, g) \<in> set gs \<and> r = (Some v, g) \<and> majority \<le> length g)) \<and>
   length (snd best) \<le> length (snd r) \<and>
   (\<forall>(v, g) \<in> set gs. majority \<le> length g \<longrightarrow> length g \<le> length (snd r))"
proof (induction majority gs best rule: pick_winner.induct)
  case (2 majority v g rest best)
  then show ?case by (cases v) (auto simp: Let_def)
qed simp

lemma bft_aggregate_cases:
  assumes "bft_aggregate b reports = q" "0 < bft_total_nodes b"
  obtains (agreed) v where "bft_total_nodes b div 2 < length (reporters reports v)"
      "\<And>w. length (reporters reports w) \<le> length (reporters reports v) \<or> length (reporters reports w) \<le> bft_total_nodes b div 2"
      "qr_agreed q" "qr_score q = Some (fst v)" "qr_confidence q = Some (snd v)"
      "qr_agreeing q = map or_node (reporters reports v)" "qr_slashed q = map or_node (filter (\<lambda>r. report_value r \<noteq> v) reports)"
  | (disagreed) "\<And>w. length (reporters reports w) \<le> bft_total_nodes b div 2" "q = no_agreement b"
proof (cases "pick_winner (bft_total_nodes b div 2 + 1) (tally reports) (None, [])")
  case (Pair w g)
  let ?maj = "bft_total_nodes b div 2 + 1"
  have spec: "(w, g) = (None, []) \<or> (\<exists>v. (v, g) \<in> set (tally reports) \<and> w = Some v \<and> ?maj \<le> length g)"
    "\<And>v h. (v, h) \<in> set (tally reports) \<Longrightarrow> ?maj \<le> length h \<Longrightarrow> length h \<le> length g"
    using pick_winner_spec [of ?maj "tally reports" "(None, [])"] unfolding Pair Let_def by auto
  have none: "reporters reports v = []" if "v \<notin> report_value ` set reports" for v
    using that by (auto simp: reporters_def filter_empty_conv)
  have le: "length (reporters reports v) \<le> length g \<or> length (reporters reports v) \<le> bft_total_nodes b div 2" for v
    using spec(2) [of v "reporters reports v"] none [of v] by (cases "v \<in> report_value ` set reports") (auto simp: tally_iff)
  show ?thesis
  proof (cases w)
    case None
    with spec(1) have "g = []" by auto
    have "length (reporters reports v) \<le> bft_total_nodes b div 2" for v using le [of v] \<open>g = []\<close> by auto
    moreover have "q = no_agreement b" using assms(1) None Pair by (auto simp: bft_aggregate_def)
    ultimately show ?thesis by (rule disagreed)
  next
    case (Some v)
    with spec(1) have g: "g = reporters reports v" "?maj \<le> length g" by (auto simp: tally_iff)
    then have "reports \<noteq> []" by (auto simp: reporters_def)
    with assms(1) Some Pair have "q = \<lparr>qr_agreed = True, qr_score = Some (fst v), qr_confidence = Some (snd v),
        qr_quorum_size = bft_quorum_size b, qr_total_nodes = bft_total_nodes b, qr_faulty_bound = bft_faulty_bound b,
        qr_agreeing = map or_node g, qr_slashed = map or_node (filter (\<lambda>r. report_value r \<noteq> v) reports)\<rparr>"
      by (simp add: bft_aggregate_def)
    with g le show ?thesis by (intro agreed [of v]) auto
  qed
qed


definition toy_report :: "string \<Rightarrow> int \<Rightarrow> oracle_report" where
  "toy_report node s = \<lparr>or_node = node, or_score = s, or_confidence = 90, or_timestamp = 1\<rparr>"

definition toy_bft :: bft_aggregator where
  "toy_bft = \<lparr>bft_total_nodes = 4, bft_faulty_bound = 1, bft_quorum_size = 3\<rparr>"

lemma toy_bft: "new_bft 4 = Inr toy_bft"
  by (simp add: new_bft_def toy_bft_def)


text \<open>The aggregator counts reports, not nodes. A single node that sends its report more than half as many times as
  there are nodes, and more often than the others report together, decides the value, and every node that reported
  something else is slashed.\<close>

theorem repeated_reports_decide:
  assumes "new_bft n = Inr b" "n div 2 < k" "length honest < k"
  shows "qr_score (bft_aggregate b (honest @ replicate k r)) = Some (or_score r) \<and>
    qr_slashed (bft_aggregate b (honest @ replicate k r)) = map or_node (filter (\<lambda>h. report_value h \<noteq> report_value r) honest)"
proof -
  let ?rs = "honest @ replicate k r"
  from assms(1) have b: "bft_total_nodes b = n" "0 < bft_total_nodes b"
    by (auto simp: new_bft_def Let_def split: if_splits)
  have mine: "k \<le> length (reporters ?rs (report_value r))" by (simp add: reporters_def)
  have others: "length (reporters ?rs w) < k" if "w \<noteq> report_value r" for w
  proof -
    have "length (reporters ?rs w) \<le> length honest" using that by (simp add: reporters_def)
    with assms(3) show ?thesis by simp
  qed
  obtain q where q: "bft_aggregate b ?rs = q" by simp
  from q b(2) show ?thesis
  proof (cases rule: bft_aggregate_cases)
    case (agreed v)
    have "v = report_value r"
      using agreed(2) [of "report_value r"] mine others [of v] assms(2) b(1) by (cases "v = report_value r") auto
    with agreed show ?thesis by (simp add: q report_value_def)
  next
    case disagreed
    from disagreed(1) [of "report_value r"] mine assms(2) b(1) show ?thesis by simp
  qed
qed

theorem repeated_reports_decide_witness:
  "qr_slashed (bft_aggregate toy_bft ([toy_report ''a'' 50, toy_report ''b'' 50] @ replicate 3 (toy_report ''d'' 0))) = [''a'', ''b'']"
  using repeated_reports_decide [OF toy_bft, of 3 "[toy_report ''a'' 50, toy_report ''b'' 50]" "toy_report ''d'' 0"]
  by (simp add: toy_report_def report_value_def)

subsection \<open>The coordinator's quorum\<close>

lemma new_coordinatorD:
  "new_coordinator nodes th = Inr co \<Longrightarrow> co_nodes co = nodes \<and> co_tolerated_faults co = (int (length nodes) - 1) div 3 \<and>
     co_required_quorum co = 2 * ((int (length nodes) - 1) div 3) + 1 \<and> co_slash_amount co = 1 \<and> co_slashed_nodes co = Map.empty"
  by (auto simp: new_coordinator_def Let_def split: if_splits)

text \<open>When quorums overlap safely. Any two quorums of the coordinator share more nodes than can be faulty, so at least
  one honest one, exactly when the number of nodes has the form \<open>3f + 1\<close>; for every other number two quorums exist whose
  common nodes may all be faulty (or that share none).\<close>

theorem quorum_intersection_iff:
  assumes "new_coordinator nodes th = Inr co" "distinct nodes" "nodes \<noteq> []"
  shows "(\<forall>A B. A \<subseteq> set nodes \<and> B \<subseteq> set nodes \<and> co_required_quorum co \<le> int (card A) \<and> co_required_quorum co \<le> int (card B) \<longrightarrow>
      co_tolerated_faults co < int (card (A \<inter> B))) \<longleftrightarrow> length nodes mod 3 = 1"
proof -
  let ?n = "length nodes" and ?q = "2 * ((length nodes - 1) div 3) + 1" and ?f = "(length nodes - 1) div 3"
  have qf: "co_required_quorum co = int ?q" "co_tolerated_faults co = int ?f" "0 < ?n"
    using new_coordinatorD [OF assms(1)] assms(3) by (simp_all add: of_nat_diff Suc_le_eq zdiv_int)
  have inter: "card A + card B \<le> ?n + card (A \<inter> B)" if "A \<subseteq> set nodes" "B \<subseteq> set nodes" for A B
  proof -
    have "finite A" "finite B" using that finite_subset by auto
    moreover have "card (A \<union> B) \<le> ?n" using that assms(2) by (metis Un_least card_mono distinct_card finite_set)
    ultimately show ?thesis using card_Un_Int [of A B] by simp
  qed
  show ?thesis
  proof
    assume "?n mod 3 = 1"
    then have n: "?n = 3 * ?f + 1" by presburger
    have "?f < card (A \<inter> B)" if "A \<subseteq> set nodes" "B \<subseteq> set nodes" "?q \<le> card A" "?q \<le> card B" for A B
      using inter [OF that(1,2)] that(3,4) n by linarith
    then show "\<forall>A B. A \<subseteq> set nodes \<and> B \<subseteq> set nodes \<and> co_required_quorum co \<le> int (card A) \<and>
        co_required_quorum co \<le> int (card B) \<longrightarrow> co_tolerated_faults co < int (card (A \<inter> B))"
      unfolding qf of_nat_le_iff of_nat_less_iff by blast
  next
    assume "\<forall>A B. A \<subseteq> set nodes \<and> B \<subseteq> set nodes \<and> co_required_quorum co \<le> int (card A) \<and>
        co_required_quorum co \<le> int (card B) \<longrightarrow> co_tolerated_faults co < int (card (A \<inter> B))"
    then have all: "\<forall>A B. A \<subseteq> set nodes \<and> B \<subseteq> set nodes \<and> ?q \<le> card A \<and> ?q \<le> card B \<longrightarrow> ?f < card (A \<inter> B)"
      unfolding qf of_nat_le_iff of_nat_less_iff .
    show "?n mod 3 = 1"
    proof (rule ccontr)
      assume "?n mod 3 \<noteq> 1"
      then have n: "3 * ?f + 2 \<le> ?n" using qf(3) by presburger
      let ?A = "set (take ?q nodes)" and ?B = "set (drop (?n - ?q) nodes)"
      have "?q \<le> ?n" using n by linarith
      then have cards: "card ?A = ?q" "card ?B = ?q"
        using assms(2) by (simp_all add: distinct_card)
      have "card (?A \<inter> ?B) \<le> ?f"
      proof (cases "?n - ?q \<le> ?q")
        case True
        have "set (take ?q nodes @ drop ?q nodes) = ?A \<union> set (drop ?q nodes)" by (rule set_append)
        moreover have "set (drop ?q nodes) \<subseteq> ?B" using True by (rule set_drop_subset_set_drop)
        ultimately have "set nodes \<subseteq> ?A \<union> ?B" unfolding append_take_drop_id by (simp add: le_supI2)
        then have "card (set nodes) \<le> card (?A \<union> ?B)" by (intro card_mono) simp_all
        then have "?n \<le> card (?A \<union> ?B)" unfolding distinct_card [OF assms(2)] .
        moreover have "card ?A + card ?B = card (?A \<union> ?B) + card (?A \<inter> ?B)"
          by (rule card_Un_Int) (rule List.finite_set)+
        ultimately show ?thesis using cards n by linarith
      next
        case False
        then have "?A \<inter> ?B = {}" using assms(2) by (intro set_take_disj_set_drop_if_distinct) simp_all
        then show ?thesis by simp
      qed
      moreover have "?A \<subseteq> set nodes" "?B \<subseteq> set nodes" by (auto dest: in_set_takeD in_set_dropD)
      ultimately show False using all [rule_format, of ?A ?B] cards by linarith
    qed
  qed
qed

theorem quorum_intersection_iff_witness:
  "\<exists>co. new_coordinator [''a'', ''b'', ''c'', ''d''] 3 = Inr co \<and> co_required_quorum co = 3 \<and>
    co_tolerated_faults co < int (card ({''a'', ''b'', ''c''} \<inter> {''b'', ''c'', ''d''}))"
proof -
  obtain co where co: "new_coordinator [''a'', ''b'', ''c'', ''d''] 3 = Inr co" and q: "co_required_quorum co = 3"
    by (simp add: new_coordinator_def Let_def)
  have sub: "{''a'', ''b'', ''c''} \<subseteq> set [''a'', ''b'', ''c'', ''d'']" "{''b'', ''c'', ''d''} \<subseteq> set [''a'', ''b'', ''c'', ''d'']"
    "co_required_quorum co \<le> int (card {''a'', ''b'', ''c''})" "co_required_quorum co \<le> int (card {''b'', ''c'', ''d''})"
    using q by simp_all
  have "distinct [''a'', ''b'', ''c'', ''d'']" "[''a'', ''b'', ''c'', ''d''] \<noteq> []" by simp_all
  moreover have "length [''a'', ''b'', ''c'', ''d''] mod 3 = 1" by simp
  moreover note quorum_intersection_iff [OF co]
  ultimately have "\<And>A B. A \<subseteq> set [''a'', ''b'', ''c'', ''d''] \<and> B \<subseteq> set [''a'', ''b'', ''c'', ''d''] \<and> co_required_quorum co \<le> int (card A) \<and>
      co_required_quorum co \<le> int (card B) \<Longrightarrow> co_tolerated_faults co < int (card (A \<inter> B))" by metis
  from this [OF conjI [OF sub(1) conjI [OF sub(2) conjI [OF sub(3,4)]]]] co q show ?thesis by metis
qed

lemma count_first: "(v, c) \<in> set (most_common reports) \<longleftrightarrow> v \<in> snd ` set reports \<and> c = count_of reports v"
  by (auto simp: most_common_def)

lemma fold_slash:
  "distinct names \<Longrightarrow> fold (slash_step a) names m n =
     (if n \<in> set names then Some ((case m n of None \<Rightarrow> 0 | Some x \<Rightarrow> x) + a) else m n)"
proof (induction names arbitrary: m)
  case (Cons x names)
  then show ?case by (cases "n = x") (auto simp: slash_step_def)
qed simp

text \<open>What a valid aggregation says: its value has a quorum of reports, as many as any other value.\<close>

lemma aggregate_reportsD:
  assumes "aggregate_reports reports slash co = (res, co')" "ag_valid res"
  obtains v where "ag_value res = Some v" "co_required_quorum co \<le> int (count_of reports v)"
    "\<And>w. count_of reports w \<le> count_of reports v"
    "ag_dissenting res = map fst (filter (\<lambda>(_, w). w \<noteq> v) reports)"
    "co' = (if slash then co\<lparr>co_slashed_nodes := fold (slash_step (co_slash_amount co)) (ag_dissenting res) (co_slashed_nodes co)\<rparr> else co)"
proof -
  let ?mc = "most_common reports" and ?P = "\<lambda>(_, c). co_required_quorum co \<le> int c"
  from assms obtain v c where f: "find ?P ?mc = Some (v, c)"
    by (auto simp: aggregate_reports_def split: option.splits)
  have srt: "sorted (map (\<lambda>(_, c). - int c) ?mc)" by (simp add: most_common_def)
  from f obtain i where i: "i < length ?mc" "?mc ! i = (v, c)" "co_required_quorum co \<le> int c"
    "\<And>j. j < i \<Longrightarrow> \<not> ?P (?mc ! j)"
    by (auto simp: find_Some_iff)
  then have c: "c = count_of reports v" by (metis count_first nth_mem)
  have "count_of reports w \<le> count_of reports v" for w
  proof (cases "w \<in> snd ` set reports")
    case True
    then have "(w, count_of reports w) \<in> set ?mc" by (simp add: count_first)
    then obtain j where j: "j < length ?mc" "?mc ! j = (w, count_of reports w)" by (auto simp: in_set_conv_nth)
    show ?thesis
    proof (cases "j < i")
      case True
      with i(3,4) j(2) c show ?thesis by fastforce
    next
      case False
      then have "map (\<lambda>(_, c). - int c) ?mc ! i \<le> map (\<lambda>(_, c). - int c) ?mc ! j"
        using srt j(1) by (intro sorted_nth_mono) simp_all
      with i(1,2) j c show ?thesis by simp
    qed
  next
    case False
    then have "count_of reports w = 0" by (force simp: count_of_def filter_empty_conv)
    then show ?thesis by simp
  qed
  with f i(3) c assms show ?thesis
    by (intro that [of v]) (auto simp: aggregate_reports_def Let_def split: if_splits)
qed

text \<open>Slashing spares honest nodes. With at most \<open>f\<close> faulty reporters and every honest node reporting the same score,
  an aggregation that succeeds has that score; a faulty node that reported otherwise loses exactly one unit, and every
  honest node's balance is untouched, however often and with whatever reports the coordinator is called.\<close>

theorem slashing_spares_honest:
  assumes "distinct (map fst reports)" "int (card (fst ` {r \<in> set reports. fst r \<notin> honest})) \<le> co_tolerated_faults co"
    "co_required_quorum co = 2 * co_tolerated_faults co + 1"
    "\<And>node w. (node, w) \<in> set reports \<Longrightarrow> node \<in> honest \<Longrightarrow> w = v"
    "aggregate_reports reports slash co = (res, co')"
  shows "(ag_valid res \<longrightarrow> ag_value res = Some v) \<and>
    (\<forall>node \<in> honest. co_slashed_nodes co' node = co_slashed_nodes co node) \<and>
    (\<forall>node. node \<in> set (ag_slashed res) \<longrightarrow>
      co_slashed_nodes co' node = Some ((case co_slashed_nodes co node of None \<Rightarrow> 0 | Some x \<Rightarrow> x) + co_slash_amount co))"
proof (cases "ag_valid res")
  case False
  with assms(5) show ?thesis by (auto simp: aggregate_reports_def Let_def split: option.splits if_splits)
next
  case True
  from aggregate_reportsD [OF assms(5) True] obtain w where w: "ag_value res = Some w"
    "co_required_quorum co \<le> int (count_of reports w)" "ag_dissenting res = map fst (filter (\<lambda>(_, u). u \<noteq> w) reports)"
    "co' = (if slash then co\<lparr>co_slashed_nodes := fold (slash_step (co_slash_amount co)) (ag_dissenting res) (co_slashed_nodes co)\<rparr> else co)"
    by metis
  have "w = v"
  proof (rule ccontr)
    assume "w \<noteq> v"
    have dist: "distinct reports" "inj_on fst (set reports)" using assms(1) by (auto simp: distinct_map)
    have "count_of reports w = card (fst ` {r \<in> set reports. snd r = w})"
    proof -
      have "count_of reports w = card (set (filter (\<lambda>(_, u). u = w) reports))"
        using dist(1) by (simp only: count_of_def distinct_card distinct_filter)
      also have "set (filter (\<lambda>(_, u). u = w) reports) = {r \<in> set reports. snd r = w}" by auto
      also have "card {r \<in> set reports. snd r = w} = card (fst ` {r \<in> set reports. snd r = w})"
        using dist(2) by (intro card_image [symmetric]) (auto simp: inj_on_def)
      finally show ?thesis .
    qed
    also have "\<dots> \<le> card (fst ` {r \<in> set reports. fst r \<notin> honest})"
      using assms(4) \<open>w \<noteq> v\<close> by (intro card_mono) force+
    finally show False using assms(2,3) w(2) by simp
  qed
  have dist: "distinct (ag_dissenting res)" unfolding w(3) using assms(1) by (simp add: distinct_map_filter)
  have out: "node \<notin> set (ag_dissenting res)" if "node \<in> honest" for node
    using assms(4) that unfolding w(3) \<open>w = v\<close> by auto
  have sl: "ag_slashed res = (if slash then ag_dissenting res else [])"
    using assms(5) True by (auto simp: aggregate_reports_def Let_def split: option.splits)
  show ?thesis using w(1,4) \<open>w = v\<close> out by (auto simp: fold_slash [OF dist] sl)
qed

definition toy_coordinator :: coordinator where
  "toy_coordinator = \<lparr>co_nodes = [''a'', ''b'', ''c'', ''d''], co_threshold = 3, co_tolerated_faults = 1, co_required_quorum = 3,
     co_slash_amount = 1, co_slashed_nodes = Map.empty\<rparr>"

theorem slashing_spares_honest_witness:
  "\<exists>res co'. aggregate_reports [(''a'', 50), (''b'', 50), (''c'', 50), (''d'', 1)] True toy_coordinator = (res, co') \<and>
     co_slashed_nodes co' ''a'' = None"
proof -
  obtain res co' where r: "aggregate_reports [(''a'', 50), (''b'', 50), (''c'', 50), (''d'', 1)] True toy_coordinator = (res, co')"
    by fastforce
  have "{r \<in> set [(''a'', 50), (''b'', 50), (''c'', 50), (''d'', 1 :: int)]. fst r \<notin> {''a'', ''b'', ''c''}} = {(''d'', 1)}" by auto
  then have "int (card (fst ` {r \<in> set [(''a'', 50), (''b'', 50), (''c'', 50), (''d'', 1 :: int)]. fst r \<notin> {''a'', ''b'', ''c''}}))
      \<le> co_tolerated_faults toy_coordinator" by (simp add: toy_coordinator_def)
  from slashing_spares_honest [OF _ this _ _ r, of 50] r show ?thesis by (auto simp: toy_coordinator_def)
qed

text \<open>The coordinator does not know who reports: names outside its node list count towards the quorum.\<close>

lemma remdups_replicate: "n \<noteq> 0 \<Longrightarrow> remdups (replicate n x) = [x]"
  by (induction n) (auto simp: Suc_le_eq)

lemma strangers_reach_quorum:
  assumes "co_required_quorum co \<le> int (length names)" "names \<noteq> []"
  shows "ag_value (fst (aggregate_reports (map (\<lambda>n. (n, v)) names) slash co)) = Some v"
proof -
  have "first_occurrences (map snd (map (\<lambda>n. (n, v)) names)) = [v]"
    using assms(2) by (simp add: first_occurrences_def comp_def map_replicate_const remdups_replicate)
  then have "most_common (map (\<lambda>n. (n, v)) names) = [(v, length names)]" by (simp add: most_common_def count_of_def comp_def)
  with assms(1) show ?thesis by (simp add: aggregate_reports_def Let_def)
qed

end
