(* ===== verification/Zk_Commitment.thy ===== *)
theory Zk_Commitment
  imports Bytes Canonical_Json
begin

text \<open>
  \<open>detection/zk_commitment.py\<close>: Pedersen commitments on BN254 and the SHA-256 commitment around them. The curve comes
  from \<open>py_ecc\<close>: it is the argument \<open>cv\<close> (points, addition, negation, multiplication, the base point, the group
  order, affine coordinates; the point at infinity has none, there \<open>int(pt[0])\<close> raises). The group laws it documents are
  \<open>curve_laws\<close>. SHA-256 is the argument \<open>sha\<close>; digests are bytes (the code prints some of them in hexadecimal).
\<close>

record 'p curve =
  cv_gen :: 'p
  cv_zero :: 'p
  cv_add :: "'p \<Rightarrow> 'p \<Rightarrow> 'p"
  cv_neg :: "'p \<Rightarrow> 'p"
  cv_mul :: "'p \<Rightarrow> nat \<Rightarrow> 'p"
  cv_order :: nat
  cv_coords :: "'p \<Rightarrow> (nat \<times> nat) option"

definition curve_laws :: "'p curve \<Rightarrow> bool" where
  "curve_laws cv \<longleftrightarrow> 1 < cv_order cv \<and>
     (\<forall>p q r. cv_add cv (cv_add cv p q) r = cv_add cv p (cv_add cv q r)) \<and>
     (\<forall>p q. cv_add cv p q = cv_add cv q p) \<and> (\<forall>p. cv_add cv (cv_zero cv) p = p) \<and>
     (\<forall>p. cv_add cv p (cv_neg cv p) = cv_zero cv) \<and>
     (\<forall>p. cv_mul cv p 0 = cv_zero cv) \<and> (\<forall>p n. cv_mul cv p (Suc n) = cv_add cv p (cv_mul cv p n)) \<and>
     (\<forall>p. cv_mul cv p (cv_order cv) = cv_zero cv)"

definition h_scalar :: "'p curve \<Rightarrow> (bytes \<Rightarrow> bytes) \<Rightarrow> nat" where
  "h_scalar cv sha = be_nat (sha (encode_text ''LedgerLens ZK Generator H'')) mod cv_order cv"

definition h_generator :: "'p curve \<Rightarrow> (bytes \<Rightarrow> bytes) \<Rightarrow> 'p" where
  "h_generator cv sha = cv_mul cv (cv_gen cv) (h_scalar cv sha)"

definition pedersen_commit :: "'p curve \<Rightarrow> (bytes \<Rightarrow> bytes) \<Rightarrow> int \<Rightarrow> int \<Rightarrow> 'p" where
  "pedersen_commit cv sha v blinding =
     cv_add cv (cv_mul cv (cv_gen cv) (nat (v mod int (cv_order cv))))
       (cv_mul cv (h_generator cv sha) (nat (blinding mod int (cv_order cv))))"

datatype zk_error = Score_range int | Threshold_negative | Score_below_threshold | Point_at_infinity
  | Circuit_version_range int | Wire_length nat | Wire_version nat | Int_too_big

definition serialize_point :: "'p curve \<Rightarrow> 'p \<Rightarrow> zk_error + nat \<times> nat" where
  "serialize_point cv pt = (case cv_coords cv pt of None \<Rightarrow> Inl Point_at_infinity | Some xy \<Rightarrow> Inr xy)"

record pedersen_commitment =
  pc_point :: "nat \<times> nat"
  pc_blinding :: int

definition commit :: "'p curve \<Rightarrow> (bytes \<Rightarrow> bytes) \<Rightarrow> int \<Rightarrow> int \<Rightarrow> zk_error + pedersen_commitment" where
  "commit cv sha score randomness =
     (if \<not> (0 \<le> score \<and> score \<le> 100) then Inl (Score_range score)
      else case serialize_point cv (pedersen_commit cv sha score randomness) of
          Inl e \<Rightarrow> Inl e
        | Inr xy \<Rightarrow> Inr \<lparr>pc_point = xy, pc_blinding = randomness\<rparr>)"

definition open_commitment :: "'p curve \<Rightarrow> (bytes \<Rightarrow> bytes) \<Rightarrow> pedersen_commitment \<Rightarrow> int \<Rightarrow> int \<Rightarrow> zk_error + bool" where
  "open_commitment cv sha c score randomness =
     (case serialize_point cv (pedersen_commit cv sha score randomness) of
        Inl e \<Rightarrow> Inl e
      | Inr xy \<Rightarrow> Inr (pc_point c = xy))"

text \<open>The JSON payload; a feature is a name with the JSON value of its number.\<close>

definition score_payload :: "string \<Rightarrow> int \<Rightarrow> (string \<times> json) list \<Rightarrow> nat \<times> nat \<Rightarrow> string" where
  "score_payload wallet score features xy =
     json_text (json_dict [(''wallet'', JStr wallet), (''score'', JNum (str_int score)), (''features'', json_dict features),
       (''pedersen_x'', JNum (str_int (int (fst xy)))), (''pedersen_y'', JNum (str_int (int (snd xy))))])"

definition score_commitment :: "(bytes \<Rightarrow> bytes) \<Rightarrow> string \<Rightarrow> int \<Rightarrow> (string \<times> json) list \<Rightarrow> bytes \<Rightarrow> nat \<times> nat \<Rightarrow> bytes" where
  "score_commitment sha wallet score features salt xy = sha (salt @ encode_text (score_payload wallet score features xy))"

definition verify_commitment ::
    "(bytes \<Rightarrow> bytes) \<Rightarrow> string \<Rightarrow> int \<Rightarrow> (string \<times> json) list \<Rightarrow> bytes \<Rightarrow> nat \<times> nat \<Rightarrow> bytes \<Rightarrow> bool" where
  "verify_commitment sha wallet score features salt xy expected \<longleftrightarrow> score_commitment sha wallet score features salt xy = expected"

subsection \<open>The group\<close>

lemma curve_lawsD:
  assumes "curve_laws cv"
  shows add_assoc: "cv_add cv (cv_add cv p q) r = cv_add cv p (cv_add cv q r)"
    and add_comm: "cv_add cv p q = cv_add cv q p"
    and add_zero: "cv_add cv (cv_zero cv) p = p" "cv_add cv p (cv_zero cv) = p"
    and add_neg: "cv_add cv p (cv_neg cv p) = cv_zero cv" "cv_add cv (cv_neg cv p) p = cv_zero cv"
    and mul_0: "cv_mul cv p 0 = cv_zero cv" and mul_Suc: "cv_mul cv p (Suc n) = cv_add cv p (cv_mul cv p n)"
    and mul_order: "cv_mul cv p (cv_order cv) = cv_zero cv" and order_pos: "0 < cv_order cv"
proof -
  note l = assms [unfolded curve_laws_def]
  show "cv_add cv (cv_add cv p q) r = cv_add cv p (cv_add cv q r)" using l by blast
  show comm: "cv_add cv p q = cv_add cv q p" for p q using l by blast
  show zero: "cv_add cv (cv_zero cv) p = p" using l by blast
  show "cv_add cv p (cv_zero cv) = p" unfolding comm [of p] by (rule zero)
  show neg: "cv_add cv p (cv_neg cv p) = cv_zero cv" using l by blast
  show "cv_add cv (cv_neg cv p) p = cv_zero cv" unfolding comm [of "cv_neg cv p"] by (rule neg)
  show "cv_mul cv p 0 = cv_zero cv" "cv_mul cv p (Suc n) = cv_add cv p (cv_mul cv p n)"
    "cv_mul cv p (cv_order cv) = cv_zero cv" using l by blast+
  show "0 < cv_order cv" using l by simp
qed

lemma add_left_comm: "curve_laws cv \<Longrightarrow> cv_add cv p (cv_add cv q r) = cv_add cv q (cv_add cv p r)"
  by (metis add_assoc add_comm)

lemma mul_add: "curve_laws cv \<Longrightarrow> cv_mul cv p (m + n) = cv_add cv (cv_mul cv p m) (cv_mul cv p n)"
  by (induction m) (simp_all add: add_zero mul_0 mul_Suc add_assoc)

lemma mul_zero: "curve_laws cv \<Longrightarrow> cv_mul cv (cv_zero cv) n = cv_zero cv"
  by (induction n) (simp_all add: mul_0 mul_Suc add_zero)

lemma mul_mul: "curve_laws cv \<Longrightarrow> cv_mul cv (cv_mul cv p m) n = cv_mul cv p (m * n)"
  by (induction n) (simp_all add: mul_0 mul_Suc mul_add)

lemma mul_distrib: "curve_laws cv \<Longrightarrow> cv_mul cv (cv_add cv p q) n = cv_add cv (cv_mul cv p n) (cv_mul cv q n)"
proof (induction n)
  case (Suc n)
  then show ?case by (simp add: mul_Suc) (metis add_assoc add_comm)
qed (simp add: mul_0 add_zero)

lemma mul_mod: "curve_laws cv \<Longrightarrow> cv_mul cv p (n mod cv_order cv) = cv_mul cv p n"
proof -
  assume l: "curve_laws cv"
  have "cv_mul cv p (cv_order cv * (n div cv_order cv)) = cv_mul cv (cv_mul cv p (cv_order cv)) (n div cv_order cv)"
    by (simp add: mul_mul [OF l])
  then have "cv_mul cv p (cv_order cv * (n div cv_order cv)) = cv_zero cv" by (simp add: mul_order [OF l] mul_zero [OF l])
  then show ?thesis
    using mul_add [OF l, of p "cv_order cv * (n div cv_order cv)" "n mod cv_order cv"] by (simp add: add_zero [OF l])
qed

lemma mul_cong: "curve_laws cv \<Longrightarrow> m mod cv_order cv = n mod cv_order cv \<Longrightarrow> cv_mul cv p m = cv_mul cv p n"
  by (metis mul_mod)

lemma h_multiple: "curve_laws cv \<Longrightarrow> cv_mul cv (h_generator cv sha) n = cv_mul cv (cv_gen cv) (h_scalar cv sha * n)"
  by (simp add: h_generator_def mul_mul)

text \<open>A commitment is the multiple of the base point by one known number.\<close>

lemma pedersen_multiple:
  assumes "curve_laws cv"
  shows "pedersen_commit cv sha v r = cv_mul cv (cv_gen cv) (nat ((v + int (h_scalar cv sha) * r) mod int (cv_order cv)))"
proof -
  let ?q = "cv_order cv" and ?a = "h_scalar cv sha"
  have q: "0 < ?q" using assms by (rule order_pos)
  have "pedersen_commit cv sha v r = cv_mul cv (cv_gen cv) (nat (v mod int ?q) + ?a * nat (r mod int ?q))"
    by (simp add: pedersen_commit_def h_multiple [OF assms] mul_add [OF assms])
  also have "\<dots> = cv_mul cv (cv_gen cv) (nat ((v + int ?a * r) mod int ?q))"
  proof (rule mul_cong [OF assms])
    have "int ((nat (v mod int ?q) + ?a * nat (r mod int ?q)) mod ?q) = (v mod int ?q + int ?a * (r mod int ?q)) mod int ?q"
      using q by (simp add: zmod_int)
    also have "\<dots> = (v + int ?a * r) mod int ?q" by (intro mod_add_cong mod_mult_cong) simp_all
    also have "\<dots> = int (nat ((v + int ?a * r) mod int ?q) mod ?q)" using q by (simp add: zmod_int)
    finally show "(nat (v mod int ?q) + ?a * nat (r mod int ?q)) mod ?q = nat ((v + int ?a * r) mod int ?q) mod ?q"
      by (simp only: of_nat_eq_iff)
  qed
  finally show ?thesis .
qed

text \<open>The factor that moves the blinding when the committed value is changed by one.\<close>

lemma scalar_inverse:
  assumes "coprime (h_scalar cv sha) (cv_order cv)" "1 < cv_order cv"
  obtains b where "int (h_scalar cv sha) * b mod int (cv_order cv) = 1"
proof -
  have "h_scalar cv sha \<noteq> 0" using assms by (cases "h_scalar cv sha = 0") auto
  then obtain x y where "h_scalar cv sha * x = cv_order cv * y + gcd (h_scalar cv sha) (cv_order cv)"
    using bezout_nat by blast
  then have "h_scalar cv sha * x = cv_order cv * y + 1" using assms(1) by simp
  then have "int (h_scalar cv sha) * int x = int (cv_order cv) * int y + 1"
    by (metis of_nat_1 of_nat_add of_nat_mult)
  then have "int (h_scalar cv sha) * int x mod int (cv_order cv) = 1" using assms(2) by simp
  then show ?thesis by (rule that)
qed

lemma reopen:
  assumes "curve_laws cv" "int (h_scalar cv sha) * b mod int (cv_order cv) = 1"
  shows "pedersen_commit cv sha v' (r + (v - v') * b) = pedersen_commit cv sha v r"
proof -
  let ?q = "int (cv_order cv)" and ?a = "int (h_scalar cv sha)"
  have "(v' + ?a * (r + (v - v') * b)) mod ?q = (v' + ?a * r + (v - v') * (?a * b)) mod ?q"
    by (simp add: algebra_simps)
  also have "\<dots> = (v' + ?a * r + (v - v') * (?a * b mod ?q)) mod ?q" by (intro mod_add_cong mod_mult_cong) simp_all
  also have "\<dots> = (v + ?a * r) mod ?q" unfolding assms(2) by (simp add: algebra_simps)
  finally show ?thesis by (simp add: pedersen_multiple [OF assms(1)])
qed

text \<open>The commitment binds to no score. The second generator is the hash of a fixed text times the first, so everyone
  knows its discrete logarithm; whoever knows one opening of a commitment can open it to every other score, and
  \<open>open\<close> accepts each of them.\<close>

theorem pedersen_commitment_not_binding:
  assumes "curve_laws cv" "coprime (h_scalar cv sha) (cv_order cv)" "commit cv sha score r = Inr c"
  shows "\<forall>score'. \<exists>r'. open_commitment cv sha c score' r' = Inr True"
proof
  fix score'
  have "1 < cv_order cv" using assms(1) by (simp add: curve_laws_def)
  with assms(2) obtain b where "int (h_scalar cv sha) * b mod int (cv_order cv) = 1" by (rule scalar_inverse)
  from reopen [OF assms(1) this, of score' r score] assms(3)
  have "open_commitment cv sha c score' (r + (score - score') * b) = Inr True"
    by (auto simp: open_commitment_def commit_def split: if_splits sum.splits)
  then show "\<exists>r'. open_commitment cv sha c score' r' = Inr True" by blast
qed

text \<open>The group with two elements, for the witnesses.\<close>

definition toy_curve :: "bool curve" where
  "toy_curve = \<lparr>cv_gen = True, cv_zero = False, cv_add = (\<lambda>x y. x \<noteq> y), cv_neg = (\<lambda>x. x),
     cv_mul = (\<lambda>x n. x \<and> odd n), cv_order = 2, cv_coords = (\<lambda>x. Some (if x then 1 else 0, 2))\<rparr>"
definition toy_sha :: "bytes \<Rightarrow> bytes" where "toy_sha b = [1]"

lemma toy_laws: "curve_laws toy_curve"
  by (auto simp: curve_laws_def toy_curve_def)

lemma toy_h: "h_scalar toy_curve toy_sha = 1" "h_generator toy_curve toy_sha = True"
  by (simp_all add: h_scalar_def h_generator_def toy_curve_def toy_sha_def)

theorem pedersen_commitment_not_binding_witness:
  "\<exists>c. commit toy_curve toy_sha 85 0 = Inr c \<and> (\<exists>r'. open_commitment toy_curve toy_sha c 12 r' = Inr True)"
proof -
  obtain c where c: "commit toy_curve toy_sha 85 0 = Inr c" by (simp add: commit_def serialize_point_def toy_curve_def)
  have "coprime (h_scalar toy_curve toy_sha) (cv_order toy_curve)" by (simp add: toy_h)
  from pedersen_commitment_not_binding [OF toy_laws this c] c show ?thesis by blast
qed

subsection \<open>The outer commitment\<close>

text \<open>The SHA-256 commitment does bind. Two openings of one commitment with salts of the same length agree in the
  salt, the wallet, the score, every feature and the Pedersen point, or a collision of SHA-256 is exhibited.\<close>

theorem score_commitment_binds:
  assumes "verify_commitment sha w s fs salt xy d" "verify_commitment sha w' s' fs' salt' xy' d" "length salt = length salt'"
    "list_all (\<lambda>(k, v). json_ok v) fs" "list_all (\<lambda>(k, v). json_ok v) fs'"
  shows "salt = salt' \<and> w = w' \<and> s = s' \<and> set fs = set fs' \<and> xy = xy' \<or> (\<exists>x y. x \<noteq> y \<and> sha x = sha y)"
proof (cases "\<exists>x y. x \<noteq> y \<and> sha x = sha y")
  case False
  let ?items = "\<lambda>w s fs xy. [(''wallet'', JStr w), (''score'', JNum (str_int s)), (''features'', json_dict fs),
    (''pedersen_x'', JNum (str_int (int (fst xy)))), (''pedersen_y'', JNum (str_int (int (snd xy))))]"
  from assms(1,2) False have "salt @ encode_text (score_payload w s fs xy) = salt' @ encode_text (score_payload w' s' fs' xy')"
    unfolding verify_commitment_def score_commitment_def by metis
  with assms(3) have salt: "salt = salt'" and p: "score_payload w s fs xy = score_payload w' s' fs' xy'" by simp_all
  have "json_ok (JObj (?items w s fs xy))" "json_ok (JObj (?items w' s' fs' xy'))" using assms(4,5) by simp_all
  from json_dict_inj [OF this] p have items: "set (?items w s fs xy) = set (?items w' s' fs' xy')"
    by (simp only: score_payload_def)
  have "(''wallet'', JStr w) \<in> set (?items w' s' fs' xy')" "(''score'', JNum (str_int s)) \<in> set (?items w' s' fs' xy')"
    "(''features'', json_dict fs) \<in> set (?items w' s' fs' xy')"
    "(''pedersen_x'', JNum (str_int (int (fst xy)))) \<in> set (?items w' s' fs' xy')"
    "(''pedersen_y'', JNum (str_int (int (snd xy)))) \<in> set (?items w' s' fs' xy')"
    unfolding items [symmetric] by simp_all
  then have eqs: "w = w'" "str_int s = str_int s'" "json_dict fs = json_dict fs'"
    "str_int (int (fst xy)) = str_int (int (fst xy'))" "str_int (int (snd xy)) = str_int (int (snd xy'))" by simp_all
  from eqs(3) have "sort_key fst fs = sort_key fst fs'" by (simp add: json_dict_def)
  then have "set (sort_key fst fs) = set (sort_key fst fs')" by (rule arg_cong)
  moreover have "xy = xy'" using eqs(4,5) by (auto simp: prod_eq_iff dest!: str_int_inj)
  ultimately show ?thesis using salt eqs(1,2) by (auto dest: str_int_inj)
qed simp

theorem score_commitment_binds_witness:
  "\<exists>d. verify_commitment id ''GA'' 85 [(''mad'', JNum ''1'')] [0] (1, 2) d \<and>
    (set [(''mad'', JNum ''1'')] = set [(''mad'', JNum ''1'')] \<or> (\<exists>x y :: bytes. x \<noteq> y \<and> id x = id y))"
proof -
  let ?d = "score_commitment id ''GA'' 85 [(''mad'', JNum ''1'')] [0] (1, 2)"
  have v: "verify_commitment id ''GA'' 85 [(''mad'', JNum ''1'')] [0] (1, 2) ?d" by (simp add: verify_commitment_def)
  have "list_all (\<lambda>(k, v). json_ok v) [(''mad'', JNum ''1'')]" by (simp add: num_ok_def)
  from score_commitment_binds [OF v v refl this this] v show ?thesis by blast
qed

end
