(* ===== verification/Zk_Proof.thy ===== *)
theory Zk_Proof
  imports Zk_Commitment
begin

text \<open>
  \<open>detection/zk_prover.py\<close>: the Sigma-protocol proof that a committed score reaches a threshold, and its wire format.
  The random scalars a call draws are arguments. The verifier is the Soroban contract
  (\<open>contracts/zk_verifier/src/lib.rs\<close>): its equations are \<open>verify_equations\<close>, its length check is part of
  \<open>contract_parses\<close>; the Python verifier the package imports does not exist.
\<close>

definition MAX_SCORE :: int where "MAX_SCORE = 100"
definition NUM_BITS :: nat where "NUM_BITS = 7"
definition PROOF_WIRE_VERSION :: nat where "PROOF_WIRE_VERSION = 1"
definition CIRCUIT_VERSION :: nat where "CIRCUIT_VERSION = 1"
definition BIT_RECORD_LEN :: nat where "BIT_RECORD_LEN = 6 * 32"
definition PROOF_WIRE_LEN :: nat where "PROOF_WIRE_LEN = 1 + 1 + 2 * 32 + NUM_BITS * BIT_RECORD_LEN"

record bit_proof =
  bp_c0 :: nat
  bp_c1 :: nat
  bp_s0 :: nat
  bp_s1 :: nat

record bit_record =
  br_commit :: "nat \<times> nat"
  br_proof :: bit_proof

record zk_proof =
  zp_circuit_version :: int
  zp_score_commit :: "nat \<times> nat"
  zp_bits :: "bit_record list"

definition modq :: "'p curve \<Rightarrow> int \<Rightarrow> nat" where
  "modq cv a = nat (a mod int (cv_order cv))"

definition fiat_shamir :: "'p curve \<Rightarrow> (bytes \<Rightarrow> bytes) \<Rightarrow> bytes list \<Rightarrow> nat" where
  "fiat_shamir cv sha parts = be_nat (sha (encode_text ''LedgerLens/zk/v1'' @ concat parts)) mod cv_order cv"

definition point_bytes :: "'p curve \<Rightarrow> 'p \<Rightarrow> zk_error + bytes" where
  "point_bytes cv pt = (case cv_coords cv pt of None \<Rightarrow> Inl Point_at_infinity | Some (x, y) \<Rightarrow> Inr (be_bytes 32 x @ be_bytes 32 y))"

text \<open>The challenge over two announcements and the bit commitment.\<close>

definition bit_challenge :: "'p curve \<Rightarrow> (bytes \<Rightarrow> bytes) \<Rightarrow> 'p \<Rightarrow> 'p \<Rightarrow> 'p \<Rightarrow> bytes \<Rightarrow> zk_error + nat" where
  "bit_challenge cv sha R0 R1 B ctx =
     (case (point_bytes cv R0, point_bytes cv R1, point_bytes cv B) of
        (Inr b0, Inr b1, Inr b2) \<Rightarrow> Inr (fiat_shamir cv sha [b0, b1, b2, ctx])
      | _ \<Rightarrow> Inl Point_at_infinity)"

definition announce :: "'p curve \<Rightarrow> 'p \<Rightarrow> 'p \<Rightarrow> nat \<Rightarrow> nat \<Rightarrow> 'p" where
  "announce cv H X s c = cv_add cv (cv_mul cv H s) (cv_neg cv (cv_mul cv X c))"

text \<open>The randomness of one bit proof: the simulated challenge and response, and the nonce.\<close>

record bit_rand =
  rn_c :: nat
  rn_s :: nat
  rn_t :: nat

definition prove_bit :: "'p curve \<Rightarrow> (bytes \<Rightarrow> bytes) \<Rightarrow> nat \<Rightarrow> nat \<Rightarrow> 'p \<Rightarrow> bytes \<Rightarrow> bit_rand \<Rightarrow> zk_error + bit_proof" where
  "prove_bit cv sha b blinding B ctx rn =
     (let H = h_generator cv sha; B_minus_G = cv_add cv B (cv_neg cv (cv_gen cv)) in
      if b = 0 then
        (case bit_challenge cv sha (cv_mul cv H (rn_t rn)) (announce cv H B_minus_G (rn_s rn) (rn_c rn)) B ctx of
           Inl e \<Rightarrow> Inl e
         | Inr c \<Rightarrow>
             let c0 = modq cv (int c - int (rn_c rn)) in
             Inr \<lparr>bp_c0 = c0, bp_c1 = rn_c rn, bp_s0 = modq cv (int (rn_t rn) + int c0 * int blinding), bp_s1 = rn_s rn\<rparr>)
      else
        (case bit_challenge cv sha (announce cv H B (rn_s rn) (rn_c rn)) (cv_mul cv H (rn_t rn)) B ctx of
           Inl e \<Rightarrow> Inl e
         | Inr c \<Rightarrow>
             let c1 = modq cv (int c - int (rn_c rn)) in
             Inr \<lparr>bp_c0 = rn_c rn, bp_c1 = c1, bp_s0 = rn_s rn, bp_s1 = modq cv (int (rn_t rn) + int c1 * int blinding)\<rparr>))"

definition bits_of :: "nat \<Rightarrow> nat list" where
  "bits_of d = map (\<lambda>i. d div 2 ^ i mod 2) [0..<NUM_BITS]"

definition bit_commit :: "'p curve \<Rightarrow> (bytes \<Rightarrow> bytes) \<Rightarrow> nat \<Rightarrow> nat \<Rightarrow> 'p" where
  "bit_commit cv sha b r = cv_add cv (cv_mul cv (cv_gen cv) b) (cv_mul cv (h_generator cv sha) r)"

definition proof_context :: "(bytes \<Rightarrow> bytes) \<Rightarrow> string \<Rightarrow> nat \<Rightarrow> nat \<times> nat \<Rightarrow> bytes" where
  "proof_context sha wallet threshold xy =
     sha (encode_text wallet @ be_bytes 1 threshold @ be_bytes 1 CIRCUIT_VERSION @ be_bytes 32 (fst xy) @ be_bytes 32 (snd xy))"

fun prove_bits ::
    "'p curve \<Rightarrow> (bytes \<Rightarrow> bytes) \<Rightarrow> bytes \<Rightarrow> (nat \<times> nat \<times> bit_rand) list \<Rightarrow> zk_error + bit_record list" where
  "prove_bits cv sha ctx [] = Inr []"
| "prove_bits cv sha ctx ((b, r, rn) # rest) =
     (case (prove_bit cv sha b r (bit_commit cv sha b r) ctx rn, serialize_point cv (bit_commit cv sha b r), prove_bits cv sha ctx rest) of
        (Inr bp, Inr xy, Inr bps) \<Rightarrow> Inr (\<lparr>br_commit = xy, br_proof = bp\<rparr> # bps)
      | (Inl e, _, _) \<Rightarrow> Inl e
      | (_, Inl e, _) \<Rightarrow> Inl e
      | (_, _, Inl e) \<Rightarrow> Inl e)"

definition score_blinding :: "'p curve \<Rightarrow> nat list \<Rightarrow> nat" where
  "score_blinding cv rs = sum_list (map (\<lambda>i. 2 ^ i * rs ! i) [0..<NUM_BITS]) mod cv_order cv"

definition generate_threshold_proof ::
    "'p curve \<Rightarrow> (bytes \<Rightarrow> bytes) \<Rightarrow> string \<Rightarrow> int \<Rightarrow> (string \<times> json) list \<Rightarrow> bytes \<Rightarrow> int \<Rightarrow> nat list \<Rightarrow> bit_rand list
     \<Rightarrow> zk_error + bytes \<times> (nat \<times> nat) \<times> zk_proof" where
  "generate_threshold_proof cv sha wallet score features salt threshold rs rns =
     (if \<not> (0 \<le> score \<and> score \<le> MAX_SCORE) then Inl (Score_range score)
      else if threshold < 0 then Inl Threshold_negative
      else if score < threshold then Inl Score_below_threshold
      else
        case serialize_point cv (pedersen_commit cv sha score (int (score_blinding cv rs))) of
          Inl e \<Rightarrow> Inl e
        | Inr xy \<Rightarrow>
            (case prove_bits cv sha (proof_context sha wallet (nat threshold) xy) (zip (bits_of (nat (score - threshold))) (zip rs rns)) of
               Inl e \<Rightarrow> Inl e
             | Inr bits \<Rightarrow>
                 Inr (score_commitment sha wallet score features salt xy, xy,
                   \<lparr>zp_circuit_version = int CIRCUIT_VERSION, zp_score_commit = xy, zp_bits = bits\<rparr>)))"

subsection \<open>The wire format\<close>

text \<open>\<open>int.to_bytes(32, "big")\<close> raises \<open>OverflowError\<close> for a number that does not fit.\<close>

definition fits32 :: "nat \<Rightarrow> bool" where "fits32 n \<longleftrightarrow> n < 256 ^ 32"

definition bit_fits :: "bit_record \<Rightarrow> bool" where
  "bit_fits b \<longleftrightarrow> fits32 (fst (br_commit b)) \<and> fits32 (snd (br_commit b)) \<and> fits32 (bp_c0 (br_proof b)) \<and>
     fits32 (bp_c1 (br_proof b)) \<and> fits32 (bp_s0 (br_proof b)) \<and> fits32 (bp_s1 (br_proof b))"

definition bit_bytes :: "bit_record \<Rightarrow> bytes" where
  "bit_bytes b = be_bytes 32 (fst (br_commit b)) @ be_bytes 32 (snd (br_commit b)) @ be_bytes 32 (bp_c0 (br_proof b)) @
     be_bytes 32 (bp_c1 (br_proof b)) @ be_bytes 32 (bp_s0 (br_proof b)) @ be_bytes 32 (bp_s1 (br_proof b))"

definition serialize_proof_bytes :: "zk_proof \<Rightarrow> zk_error + bytes" where
  "serialize_proof_bytes p =
     (if \<not> (0 \<le> zp_circuit_version p \<and> zp_circuit_version p \<le> 255) then Inl (Circuit_version_range (zp_circuit_version p))
      else if \<not> (fits32 (fst (zp_score_commit p)) \<and> fits32 (snd (zp_score_commit p)) \<and> list_all bit_fits (zp_bits p)) then Inl Int_too_big
      else Inr (be_bytes 1 PROOF_WIRE_VERSION @ be_bytes 1 (nat (zp_circuit_version p)) @ be_bytes 32 (fst (zp_score_commit p)) @
             be_bytes 32 (snd (zp_score_commit p)) @ concat (map bit_bytes (zp_bits p))))"

definition read32 :: "bytes \<Rightarrow> nat \<Rightarrow> nat" where
  "read32 data off = be_nat (take 32 (drop off data))"

definition read_bit :: "bytes \<Rightarrow> nat \<Rightarrow> bit_record" where
  "read_bit data off = \<lparr>br_commit = (read32 data off, read32 data (off + 32)),
     br_proof = \<lparr>bp_c0 = read32 data (off + 64), bp_c1 = read32 data (off + 96), bp_s0 = read32 data (off + 128),
       bp_s1 = read32 data (off + 160)\<rparr>\<rparr>"

definition deserialize_proof_bytes :: "bytes \<Rightarrow> zk_error + zk_proof" where
  "deserialize_proof_bytes data =
     (if length data \<noteq> PROOF_WIRE_LEN then Inl (Wire_length (length data))
      else if unat (data ! 0) \<noteq> PROOF_WIRE_VERSION then Inl (Wire_version (unat (data ! 0)))
      else Inr \<lparr>zp_circuit_version = int (unat (data ! 1)), zp_score_commit = (read32 data 2, read32 data 34),
             zp_bits = map (\<lambda>i. read_bit data (66 + i * BIT_RECORD_LEN)) [0..<NUM_BITS]\<rparr>)"

text \<open>The header checks of the contract's \<open>deserialise_proof\<close>, before it reads any point.\<close>

definition CONTRACT_WIRE_LEN :: nat where "CONTRACT_WIRE_LEN = 1 + 2 * 32 + NUM_BITS * BIT_RECORD_LEN"

definition contract_parses :: "bytes \<Rightarrow> bool" where
  "contract_parses data \<longleftrightarrow> length data = CONTRACT_WIRE_LEN \<and> unat (data ! 0) = PROOF_WIRE_VERSION"

subsection \<open>The verifier's equations\<close>

definition verify_bit :: "'p curve \<Rightarrow> (bytes \<Rightarrow> bytes) \<Rightarrow> bytes \<Rightarrow> 'p \<Rightarrow> bit_proof \<Rightarrow> bool" where
  "verify_bit cv sha ctx B bp =
     (let H = h_generator cv sha; B_minus_G = cv_add cv B (cv_neg cv (cv_gen cv)) in
      bit_challenge cv sha (announce cv H B (bp_s0 bp) (bp_c0 bp)) (announce cv H B_minus_G (bp_s1 bp) (bp_c1 bp)) B ctx =
        Inr ((bp_c0 bp + bp_c1 bp) mod cv_order cv))"

fun weighted_sum :: "'p curve \<Rightarrow> nat \<Rightarrow> 'p list \<Rightarrow> 'p" where
  "weighted_sum cv i [] = cv_zero cv"
| "weighted_sum cv i (B # Bs) = cv_add cv (cv_mul cv B (2 ^ i)) (weighted_sum cv (Suc i) Bs)"

definition verify_equations ::
    "'p curve \<Rightarrow> (bytes \<Rightarrow> bytes) \<Rightarrow> bytes \<Rightarrow> nat \<Rightarrow> 'p \<Rightarrow> ('p \<times> bit_proof) list \<Rightarrow> bool" where
  "verify_equations cv sha ctx threshold P bits \<longleftrightarrow>
     list_all (\<lambda>(B, bp). verify_bit cv sha ctx B bp) bits \<and>
     weighted_sum cv 0 (map fst bits) = cv_add cv P (cv_neg cv (cv_mul cv (cv_gen cv) threshold))"

subsection \<open>Completeness\<close>

lemma mul_modq:
  assumes "curve_laws cv"
  shows "cv_mul cv X (modq cv (int m)) = cv_mul cv X m"
proof -
  have "modq cv (int m) = m mod cv_order cv" by (simp add: modq_def flip: zmod_int)
  then show ?thesis by (simp add: mul_mod [OF assms])
qed

lemma neg_unique: "curve_laws cv \<Longrightarrow> cv_add cv p r = cv_zero cv \<Longrightarrow> r = cv_neg cv p"
  by (metis add_assoc add_neg(2) add_zero(1) add_zero(2))

lemma announce_real:
  assumes "curve_laws cv" "X = cv_mul cv H r"
  shows "announce cv H X (modq cv (int t + int c * int r)) c = cv_mul cv H t"
proof -
  have "cv_mul cv H (modq cv (int t + int c * int r)) = cv_add cv (cv_mul cv H t) (cv_mul cv X c)"
    using mul_modq [OF assms(1), of H "t + c * r"] by (simp add: mul_add [OF assms(1)] assms(2) mul_mul [OF assms(1)] mult.commute)
  then show ?thesis by (simp add: announce_def add_assoc [OF assms(1)] add_neg [OF assms(1)] add_zero [OF assms(1)])
qed

lemma challenge_sum:
  assumes "0 < cv_order cv" "c < cv_order cv"
  shows "(modq cv (int c - int d) + d) mod cv_order cv = c" "(d + modq cv (int c - int d)) mod cv_order cv = c"
proof -
  have "int ((modq cv (int c - int d) + d) mod cv_order cv) = ((int c - int d) mod int (cv_order cv) + int d) mod int (cv_order cv)"
    using assms(1) by (simp add: modq_def zmod_int)
  also have "\<dots> = int c" using assms by (simp add: mod_simps)
  finally show "(modq cv (int c - int d) + d) mod cv_order cv = c" by simp
  then show "(d + modq cv (int c - int d)) mod cv_order cv = c" by (simp add: add.commute)
qed

lemma bit_challenge_less: "bit_challenge cv sha R0 R1 B ctx = Inr c \<Longrightarrow> 0 < cv_order cv \<Longrightarrow> c < cv_order cv"
  by (auto simp: bit_challenge_def fiat_shamir_def split: sum.splits)

lemma prove_bit_verifies:
  assumes "curve_laws cv" "prove_bit cv sha b r (bit_commit cv sha b r) ctx rn = Inr bp" "b \<le> 1"
  shows "verify_bit cv sha ctx (bit_commit cv sha b r) bp"
proof (cases "b = 0")
  case True
  have B: "bit_commit cv sha b r = cv_mul cv (h_generator cv sha) r"
    using True by (simp add: bit_commit_def mul_0 [OF assms(1)] add_zero [OF assms(1)])
  from assms(2) True obtain c where c: "bit_challenge cv sha (cv_mul cv (h_generator cv sha) (rn_t rn))
      (announce cv (h_generator cv sha) (cv_add cv (bit_commit cv sha b r) (cv_neg cv (cv_gen cv))) (rn_s rn) (rn_c rn))
      (bit_commit cv sha b r) ctx = Inr c"
    and bp: "bp = \<lparr>bp_c0 = modq cv (int c - int (rn_c rn)), bp_c1 = rn_c rn,
      bp_s0 = modq cv (int (rn_t rn) + int (modq cv (int c - int (rn_c rn))) * int r), bp_s1 = rn_s rn\<rparr>"
    by (auto simp: prove_bit_def Let_def split: sum.splits)
  have less: "c < cv_order cv" using bit_challenge_less [OF c] order_pos [OF assms(1)] by blast
  show ?thesis
    using c by (simp add: verify_bit_def Let_def bp announce_real [OF assms(1) B] challenge_sum [OF order_pos [OF assms(1)] less])
next
  case False
  then have b: "b = 1" using assms(3) by simp
  have one: "cv_mul cv (cv_gen cv) 1 = cv_gen cv"
    using mul_Suc [OF assms(1), of "cv_gen cv" 0] by (simp add: mul_0 [OF assms(1)] add_zero [OF assms(1)])
  have "cv_add cv (bit_commit cv sha b r) (cv_neg cv (cv_gen cv)) =
      cv_add cv (cv_add cv (cv_gen cv) (cv_neg cv (cv_gen cv))) (cv_mul cv (h_generator cv sha) r)"
    unfolding bit_commit_def b one by (metis add_assoc [OF assms(1)] add_comm [OF assms(1)])
  then have B: "cv_add cv (bit_commit cv sha b r) (cv_neg cv (cv_gen cv)) = cv_mul cv (h_generator cv sha) r"
    by (simp add: add_neg [OF assms(1)] add_zero [OF assms(1)])
  from assms(2) b obtain c where c: "bit_challenge cv sha
      (announce cv (h_generator cv sha) (bit_commit cv sha b r) (rn_s rn) (rn_c rn)) (cv_mul cv (h_generator cv sha) (rn_t rn))
      (bit_commit cv sha b r) ctx = Inr c"
    and bp: "bp = \<lparr>bp_c0 = rn_c rn, bp_c1 = modq cv (int c - int (rn_c rn)), bp_s0 = rn_s rn,
      bp_s1 = modq cv (int (rn_t rn) + int (modq cv (int c - int (rn_c rn))) * int r)\<rparr>"
    by (auto simp: prove_bit_def Let_def split: sum.splits)
  have less: "c < cv_order cv" using bit_challenge_less [OF c] order_pos [OF assms(1)] by blast
  show ?thesis
    using c by (simp add: verify_bit_def Let_def bp announce_real [OF assms(1) B] challenge_sum [OF order_pos [OF assms(1)] less])
qed

lemma prove_bits_verify:
  assumes "curve_laws cv" "prove_bits cv sha ctx xs = Inr bits" "\<forall>(b, r, rn) \<in> set xs. b \<le> 1"
  shows "length bits = length xs \<and>
    list_all (\<lambda>(B, bp). verify_bit cv sha ctx B bp) (zip (map (\<lambda>(b, r, _). bit_commit cv sha b r) xs) (map br_proof bits)) \<and>
    map (\<lambda>(b, r, _). cv_coords cv (bit_commit cv sha b r)) xs = map (\<lambda>b. Some (br_commit b)) bits"
  using assms(2,3)
proof (induction xs arbitrary: bits)
  case (Cons x xs)
  obtain b r rn where x: "x = (b, r, rn)" by (cases x)
  with Cons.prems obtain bp xy bps where
    p: "prove_bit cv sha b r (bit_commit cv sha b r) ctx rn = Inr bp" "serialize_point cv (bit_commit cv sha b r) = Inr xy"
      "prove_bits cv sha ctx xs = Inr bps" and bits: "bits = \<lparr>br_commit = xy, br_proof = bp\<rparr> # bps"
    by (auto split: sum.splits)
  have "verify_bit cv sha ctx (bit_commit cv sha b r) bp" using p(1) Cons.prems(2) x by (intro prove_bit_verifies [OF assms(1)]) auto
  with Cons.IH [OF p(3)] Cons.prems(2) x bits p(2) show ?case by (auto simp: serialize_point_def split: option.splits)
qed simp

lemma weighted_sum_commits:
  assumes "curve_laws cv"
  shows "weighted_sum cv i (map (\<lambda>(b, r). bit_commit cv sha b r) xs) =
    cv_add cv (cv_mul cv (cv_gen cv) (\<Sum>k<length xs. 2 ^ (i + k) * fst (xs ! k)))
      (cv_mul cv (h_generator cv sha) (\<Sum>k<length xs. 2 ^ (i + k) * snd (xs ! k)))"
proof (induction xs arbitrary: i)
  case (Cons x xs)
  obtain b r where x: "x = (b, r)" by (cases x)
  have sum: "(\<Sum>k<length (x # xs). 2 ^ (i + k) * f ((x # xs) ! k)) = 2 ^ i * f x + (\<Sum>k<length xs. 2 ^ (Suc i + k) * f (xs ! k))"
    for f :: "nat \<times> nat \<Rightarrow> nat" by (simp add: sum.lessThan_Suc_shift del: sum.lessThan_Suc)
  have "weighted_sum cv i (map (\<lambda>(b, r). bit_commit cv sha b r) (x # xs)) =
      cv_add cv (cv_add cv (cv_mul cv (cv_gen cv) (2 ^ i * b)) (cv_mul cv (h_generator cv sha) (2 ^ i * r)))
        (weighted_sum cv (Suc i) (map (\<lambda>(b, r). bit_commit cv sha b r) xs))"
    by (simp add: x bit_commit_def mul_distrib [OF assms] mul_mul [OF assms] mult.commute)
  also have "\<dots> = cv_add cv (cv_add cv (cv_mul cv (cv_gen cv) (2 ^ i * b)) (cv_mul cv (cv_gen cv) (\<Sum>k<length xs. 2 ^ (Suc i + k) * fst (xs ! k))))
        (cv_add cv (cv_mul cv (h_generator cv sha) (2 ^ i * r)) (cv_mul cv (h_generator cv sha) (\<Sum>k<length xs. 2 ^ (Suc i + k) * snd (xs ! k))))"
    unfolding Cons.IH by (metis add_assoc [OF assms] add_left_comm [OF assms])
  finally show ?case unfolding sum [of fst] sum [of snd] by (simp add: x mul_add [OF assms])
qed (simp add: mul_0 add_zero assms)

lemma bits_value: "d < 2 ^ n \<Longrightarrow> (\<Sum>k<n. 2 ^ k * (d div 2 ^ k mod 2)) = (d :: nat)"
proof (induction n arbitrary: d)
  case (Suc n)
  have "(\<Sum>k<Suc n. 2 ^ k * (d div 2 ^ k mod 2)) = d mod 2 + (\<Sum>k<n. 2 ^ Suc k * (d div 2 ^ Suc k mod 2))"
    by (simp add: sum.lessThan_Suc_shift del: sum.lessThan_Suc)
  also have "(\<Sum>k<n. 2 ^ Suc k * (d div 2 ^ Suc k mod 2)) = 2 * (\<Sum>k<n. 2 ^ k * (d div 2 div 2 ^ k mod 2))"
    by (simp add: sum_distrib_left div_mult2_eq mult.assoc)
  also have "(\<Sum>k<n. 2 ^ k * (d div 2 div 2 ^ k mod 2)) = d div 2" using Suc.prems by (intro Suc.IH) simp
  finally show ?case by simp
qed simp

lemma generate_parts:
  assumes "generate_threshold_proof cv sha wallet score features salt threshold rs rns = Inr (d, xy, p)"
    "length rs = NUM_BITS" "length rns = NUM_BITS"
  obtains bits where "0 \<le> threshold" "threshold \<le> score" "score \<le> 100"
    "cv_coords cv (pedersen_commit cv sha score (int (score_blinding cv rs))) = Some xy"
    "p = \<lparr>zp_circuit_version = int CIRCUIT_VERSION, zp_score_commit = xy, zp_bits = bits\<rparr>"
    "prove_bits cv sha (proof_context sha wallet (nat threshold) xy) (zip (bits_of (nat (score - threshold))) (zip rs rns)) = Inr bits"
    "d = score_commitment sha wallet score features salt xy"
  using assms(1) by (auto simp: generate_threshold_proof_def MAX_SCORE_def serialize_point_def split: if_splits option.splits sum.splits)

lemma add_cancel_left:
  assumes "curve_laws cv"
  shows "cv_add cv (cv_add cv (cv_add cv t d) h) (cv_neg cv t) = cv_add cv d h"
proof -
  have "cv_add cv (cv_add cv (cv_add cv t d) h) (cv_neg cv t) = cv_add cv (cv_neg cv t) (cv_add cv t (cv_add cv d h))"
    by (simp only: add_comm [OF assms, of _ "cv_neg cv t"] add_assoc [OF assms])
  also have "\<dots> = cv_add cv (cv_add cv (cv_neg cv t) t) (cv_add cv d h)" by (simp only: add_assoc [OF assms])
  finally show ?thesis by (simp only: add_neg [OF assms] add_zero [OF assms])
qed

lemma threshold_bit_sum:
  assumes "curve_laws cv" "length rs = NUM_BITS" "0 \<le> threshold" "threshold \<le> score" "score \<le> 100"
  shows "weighted_sum cv 0 (map (\<lambda>(b, r). bit_commit cv sha b r) (zip (bits_of (nat (score - threshold))) rs)) =
    cv_add cv (pedersen_commit cv sha score (int (score_blinding cv rs))) (cv_neg cv (cv_mul cv (cv_gen cv) (nat threshold)))"
proof -
  let ?d = "nat (score - threshold)" and ?H = "h_generator cv sha" and ?b = "score_blinding cv rs"
  let ?pairs = "zip (bits_of ?d) rs"
  have d: "?d < 2 ^ NUM_BITS" using assms(3-5) by (simp add: NUM_BITS_def)
  have len: "length (bits_of ?d) = NUM_BITS" by (simp add: bits_of_def)
  have "(\<Sum>k<length ?pairs. 2 ^ (0 + k) * fst (?pairs ! k)) = (\<Sum>k<NUM_BITS. 2 ^ k * (?d div 2 ^ k mod 2))"
    using len assms(2) by (intro sum.cong) (simp_all add: bits_of_def)
  also have "\<dots> = ?d" using d by (rule bits_value)
  finally have bits: "(\<Sum>k<length ?pairs. 2 ^ (0 + k) * fst (?pairs ! k)) = ?d" .
  have "(\<Sum>k<length ?pairs. 2 ^ (0 + k) * snd (?pairs ! k)) = sum_list (map (\<lambda>i. 2 ^ i * rs ! i) [0..<NUM_BITS])"
    using len assms(2) by (simp add: interv_sum_list_conv_sum_set_nat lessThan_atLeast0)
  then have blind: "cv_mul cv ?H (\<Sum>k<length ?pairs. 2 ^ (0 + k) * snd (?pairs ! k)) = cv_mul cv ?H ?b"
    by (simp add: score_blinding_def mul_mod [OF assms(1)])
  have "cv_mul cv (cv_gen cv) (nat (score mod int (cv_order cv))) = cv_mul cv (cv_gen cv) (nat threshold + ?d)"
    using mul_modq [OF assms(1), of "cv_gen cv" "nat score"] assms(3,4) by (simp add: modq_def nat_diff_distrib)
  moreover have "cv_mul cv ?H (nat (int ?b mod int (cv_order cv))) = cv_mul cv ?H ?b"
    using mul_modq [OF assms(1), of ?H ?b] by (simp add: modq_def)
  ultimately have "pedersen_commit cv sha score (int ?b) =
      cv_add cv (cv_add cv (cv_mul cv (cv_gen cv) (nat threshold)) (cv_mul cv (cv_gen cv) ?d)) (cv_mul cv ?H ?b)"
    by (simp add: pedersen_commit_def mul_add [OF assms(1)])
  then show ?thesis
    unfolding weighted_sum_commits [OF assms(1)] bits blind by (simp only: add_cancel_left [OF assms(1)])
qed


definition toy_rand :: "bit_rand list" where "toy_rand = replicate 7 \<lparr>rn_c = 0, rn_s = 1, rn_t = 1\<rparr>"

lemma toy_points: "serialize_point toy_curve p = Inr (if p then 1 else 0, 2)" "\<exists>c. bit_challenge toy_curve sha R0 R1 B ctx = Inr c"
  by (simp_all add: serialize_point_def bit_challenge_def point_bytes_def toy_curve_def)

lemma toy_prove_bits: "\<exists>bps. prove_bits toy_curve sha ctx xs = Inr bps"
proof (induction xs)
  case (Cons x xs)
  obtain b r rn where x: "x = (b, r, rn)" by (cases x)
  have "\<exists>bp. prove_bit toy_curve sha b r B ctx rn = Inr bp" for B
  proof -
    have "\<exists>bp. (case bit_challenge toy_curve sha R0 R1 B ctx of Inl e \<Rightarrow> Inl e | Inr c \<Rightarrow> Inr (f c)) = Inr bp"
      for R0 R1 and f :: "nat \<Rightarrow> bit_proof" using toy_points(2) [of sha R0 R1 B ctx] by auto
    then show ?thesis
      unfolding prove_bit_def Let_def by (cases "b = 0") (simp_all only: simp_thms if_True if_False)
  qed
  then obtain bp where bp: "prove_bit toy_curve sha b r (bit_commit toy_curve sha b r) ctx rn = Inr bp" by blast
  from Cons.IH obtain bps where bps: "prove_bits toy_curve sha ctx xs = Inr bps" ..
  show ?case by (simp add: x bp bps toy_points(1))
qed simp


subsection \<open>The wire format\<close>

lemma read32_prefix: "fits32 n \<Longrightarrow> read32 (be_bytes 32 n @ rest) 0 = n"
  unfolding fits32_def read32_def using be_nat_be_bytes [of n 32] by (simp del: be_bytes.simps)

lemma read32_skip: "length pre \<le> off \<Longrightarrow> read32 (pre @ data) off = read32 data (off - length pre)"
  by (simp add: read32_def)

lemma length_bit_bytes: "length (bit_bytes b) = 192"
  by (simp add: bit_bytes_def del: be_bytes.simps)

lemma read_bit_prefix: "bit_fits b \<Longrightarrow> read_bit (bit_bytes b @ rest) 0 = b"
  unfolding bit_fits_def bit_bytes_def read_bit_def
  by (simp add: read32_skip read32_prefix del: be_bytes.simps)

lemma read_bit_drop: "read_bit data off = read_bit (drop off data) 0"
  by (simp add: read_bit_def read32_def add.commute)

lemma length_concat_bits: "length (concat (map bit_bytes bs)) = 192 * length bs"
  by (induction bs) (simp_all add: length_bit_bytes)

lemma read_bits:
  "list_all bit_fits bs \<Longrightarrow> map (\<lambda>i. read_bit (concat (map bit_bytes bs)) (i * 192)) [0..<length bs] = bs"
proof (induction bs)
  case (Cons b bs)
  have "map (\<lambda>i. read_bit (concat (map bit_bytes (b # bs))) (i * 192)) [0..<length (b # bs)] =
      read_bit (bit_bytes b @ concat (map bit_bytes bs)) 0 #
        map (\<lambda>i. read_bit (bit_bytes b @ concat (map bit_bytes bs)) (Suc i * 192)) [0..<length bs]"
    by (simp only: length_Cons map_upt_Suc) simp
  also have "(\<lambda>i. read_bit (bit_bytes b @ concat (map bit_bytes bs)) (Suc i * 192)) = (\<lambda>i. read_bit (concat (map bit_bytes bs)) (i * 192))"
    by (rule ext) (subst (1 2) read_bit_drop, simp add: length_bit_bytes)
  finally show ?case using Cons by (simp add: read_bit_prefix)
qed simp

lemma wire_length: "serialize_proof_bytes p = Inr data \<Longrightarrow> length data = 66 + 192 * length (zp_bits p)"
  by (auto simp: serialize_proof_bytes_def length_concat_bits split: if_splits simp del: be_bytes.simps)

text \<open>Every proof with seven bit records that serialises at all survives the wire: what
  \<open>deserialize_proof_bytes\<close> reads is the proof that was serialised, circuit version included.\<close>

theorem proof_wire_roundtrip:
  assumes "length (zp_bits p) = NUM_BITS" "serialize_proof_bytes p = Inr data"
  shows "deserialize_proof_bytes data = Inr p"
proof -
  let ?bits = "concat (map bit_bytes (zp_bits p))"
  let ?x = "be_bytes 32 (fst (zp_score_commit p))" and ?y = "be_bytes 32 (snd (zp_score_commit p))"
  have v: "0 \<le> zp_circuit_version p" "zp_circuit_version p \<le> 255"
    and data: "data = be_bytes 1 PROOF_WIRE_VERSION @ be_bytes 1 (nat (zp_circuit_version p)) @ ?x @ ?y @ ?bits"
    using assms(2) by (auto simp: serialize_proof_bytes_def split: if_splits simp del: be_bytes.simps)
  have one: "be_bytes 1 n = [of_nat (n mod 256)]" for n by simp
  have data': "data = 1 # of_nat (nat (zp_circuit_version p)) # ?x @ ?y @ ?bits"
    unfolding data one using v by (simp add: PROOF_WIRE_VERSION_def nat_mod_distrib del: be_bytes.simps)
  have fits: "fits32 (fst (zp_score_commit p))" "fits32 (snd (zp_score_commit p))" "list_all bit_fits (zp_bits p)"
    and len: "length (zp_bits p) = 7" using assms by (simp_all add: NUM_BITS_def serialize_proof_bytes_def split: if_splits)
  have version: "int (unat (data ! 1)) = zp_circuit_version p"
  proof -
    have "data ! 1 = of_nat (nat (zp_circuit_version p))" unfolding data' by simp
    moreover have "unat (of_nat (nat (zp_circuit_version p)) :: 8 word) = nat (zp_circuit_version p)"
      by (rule unat_of_nat_byte) (use v in simp)
    ultimately show ?thesis using v by (simp only: int_nat_eq if_True)
  qed
  have x: "read32 data 2 = fst (zp_score_commit p)" "read32 data 34 = snd (zp_score_commit p)"
    using read32_skip [of "[1, of_nat (nat (zp_circuit_version p))]" 2 "?x @ ?y @ ?bits"]
      read32_skip [of "[1, of_nat (nat (zp_circuit_version p))] @ ?x" 34 "?y @ ?bits"]
    by (simp_all add: data' read32_prefix fits del: be_bytes.simps)
  have "data = (1 # of_nat (nat (zp_circuit_version p)) # ?x @ ?y) @ ?bits" by (simp only: data' append_Cons append_assoc)
  moreover have "length (1 # of_nat (nat (zp_circuit_version p)) # ?x @ ?y) = 66" by (simp only: length_Cons length_append length_be_bytes)
  ultimately have drop: "drop (66 + k) data = drop k ?bits" for k by (simp only: drop_append drop_all le_add1 add_diff_cancel_left' append_Nil)
  have "map (\<lambda>i. read_bit data (66 + i * 192)) [0..<7] = map (\<lambda>i. read_bit ?bits (i * 192)) [0..<length (zp_bits p)]"
    unfolding len by (rule map_cong [OF refl], subst (1 2) read_bit_drop, simp only: drop)
  also have "\<dots> = zp_bits p" by (rule read_bits [OF fits(3)])
  finally have bits: "map (\<lambda>i. read_bit data (66 + i * 192)) [0..<7] = zp_bits p" .
  have "length data = 1410" using wire_length [OF assms(2)] len by simp
  moreover have "unat (data ! 0) = 1" by (simp add: data' del: be_bytes.simps)
  ultimately show ?thesis
    using version x bits by (simp add: deserialize_proof_bytes_def PROOF_WIRE_LEN_def PROOF_WIRE_VERSION_def NUM_BITS_def BIT_RECORD_LEN_def)
qed

text \<open>The contract refuses every serialised proof. The Python wire format has two header bytes (1410 bytes in
  all), the contract's \<open>deserialise_proof\<close> demands exactly 1409 bytes with one header byte, so \<open>verify_threshold\<close>
  returns false for every proof the package can produce.\<close>

theorem contract_rejects_python_proofs:
  "case serialize_proof_bytes p of Inl e \<Rightarrow> True | Inr data \<Rightarrow> \<not> contract_parses data"
proof (cases "serialize_proof_bytes p")
  case (Inr data)
  have "66 + 192 * length (zp_bits p) \<noteq> CONTRACT_WIRE_LEN" unfolding CONTRACT_WIRE_LEN_def NUM_BITS_def BIT_RECORD_LEN_def by presburger
  with wire_length [OF Inr] Inr show ?thesis by (simp add: contract_parses_def)
qed simp

definition toy_proof :: zk_proof where
  "toy_proof = \<lparr>zp_circuit_version = 1, zp_score_commit = (1, 2),
     zp_bits = replicate 7 \<lparr>br_commit = (3, 4), br_proof = \<lparr>bp_c0 = 5, bp_c1 = 6, bp_s0 = 7, bp_s1 = 8\<rparr>\<rparr>\<rparr>"

theorem proof_wire_roundtrip_witness:
  "\<exists>data. serialize_proof_bytes toy_proof = Inr data \<and> deserialize_proof_bytes data = Inr toy_proof"
proof -
  have "length (zp_bits toy_proof) = NUM_BITS" by (simp add: toy_proof_def NUM_BITS_def)
  moreover have "\<exists>data. serialize_proof_bytes toy_proof = Inr data"
    by (simp add: serialize_proof_bytes_def toy_proof_def fits32_def bit_fits_def list_all_iff del: be_bytes.simps)
  ultimately show ?thesis using proof_wire_roundtrip by blast
qed

end
