(* ===== verification/Rolling_Window.thy ===== *)
theory Rolling_Window
  imports LL_Prelude "HOL-Library.AList"
begin

text \<open>
  \<open>detection/rolling_window.py\<close>: the trades of the last 24 hours per wallet, and their checkpoint table. A window is
  the deque in its order. Of a trade the windows read the close time only (and the streamer the base account); the rest
  is the polymorphic \<open>tr_rest\<close>. A call reads the clock once (\<open>now\<close>). The JSON text of a checkpoint row is written
  by Pydantic and read back by it: the text's type \<open>'x\<close> and both directions (\<open>codec\<close>) are parameters.
\<close>

record 'p trade =
  tr_close :: time
  tr_base :: string
  tr_rest :: 'p

datatype late_event = OUT_OF_ORDER | BEYOND_WINDOW

record 'p wallet_window =
  ww_trades :: "'p trade list"
  ww_last_score :: "int option"

definition HOUR :: time where "HOUR = 3600000000"
definition WINDOW_TOLERANCE_HOURS :: int where "WINDOW_TOLERANCE_HOURS = 24"
definition MAX_TRADES_PER_WALLET_WINDOW :: nat where "MAX_TRADES_PER_WALLET_WINDOW = 10000"

definition new_window :: "'p wallet_window" where
  "new_window = \<lparr>ww_trades = [], ww_last_score = None\<rparr>"

definition window_cutoff :: "time \<Rightarrow> int \<Rightarrow> time" where
  "window_cutoff now hours = now - hours * HOUR"

definition evict :: "time \<Rightarrow> int \<Rightarrow> 'p trade list \<Rightarrow> 'p trade list" where
  "evict now hours ts = dropWhile (\<lambda>t. tr_close t < window_cutoff now hours) ts"

text \<open>The scan for the place of a late trade, from the newest end.\<close>

fun insert_index :: "'p trade list \<Rightarrow> time \<Rightarrow> nat \<Rightarrow> nat" where
  "insert_index ts c 0 = 0"
| "insert_index ts c (Suc i) = (if c < tr_close (ts ! i) then insert_index ts c i else Suc i)"

definition insert_at :: "nat \<Rightarrow> 'a \<Rightarrow> 'a list \<Rightarrow> 'a list" where
  "insert_at i x xs = take i xs @ x # drop i xs"

definition window_add :: "time \<Rightarrow> 'p trade \<Rightarrow> 'p wallet_window \<Rightarrow> (bool \<times> late_event option) \<times> 'p wallet_window" where
  "window_add now t w =
     (let ts = evict now WINDOW_TOLERANCE_HOURS (ww_trades w) in
      if tr_close t < window_cutoff now WINDOW_TOLERANCE_HOURS
      then ((False, Some BEYOND_WINDOW), w\<lparr>ww_trades := ts\<rparr>)
      else
        let ts = (if MAX_TRADES_PER_WALLET_WINDOW \<le> length ts then tl ts else ts) in
        if ts \<noteq> [] \<and> tr_close t < tr_close (last ts)
        then ((True, Some OUT_OF_ORDER), w\<lparr>ww_trades := insert_at (insert_index ts (tr_close t) (length ts)) t ts\<rparr>)
        else ((True, None), w\<lparr>ww_trades := ts @ [t]\<rparr>))"

definition window_get :: "time \<Rightarrow> int \<Rightarrow> 'p wallet_window \<Rightarrow> 'p trade list" where
  "window_get now hours w = filter (\<lambda>t. window_cutoff now hours \<le> tr_close t) (ww_trades w)"

subsection \<open>All wallets, and the checkpoint table\<close>

text \<open>A dictionary keeps the order in which its keys came first, as \<open>AList.update\<close> does.\<close>

type_synonym 'p windows = "(string \<times> 'p wallet_window) list"

definition add_trade :: "time \<Rightarrow> string \<Rightarrow> 'p trade \<Rightarrow> 'p windows \<Rightarrow> 'p windows" where
  "add_trade now wallet t ws =
     AList.update wallet (snd (window_add now t (case map_of ws wallet of None \<Rightarrow> new_window | Some w \<Rightarrow> w))) ws"

definition get_window :: "time \<Rightarrow> string \<Rightarrow> int \<Rightarrow> 'p windows \<Rightarrow> 'p trade list" where
  "get_window now wallet hours ws = (case map_of ws wallet of None \<Rightarrow> [] | Some w \<Rightarrow> window_get now hours w)"

definition active_wallets :: "'p windows \<Rightarrow> nat" where
  "active_wallets ws = length ws"

record ('p, 'x) codec =
  cd_dump :: "'p trade list \<Rightarrow> 'x"
  cd_load :: "'x \<Rightarrow> 'p trade list option"

type_synonym 'x checkpoint_rows = "(string \<times> 'x \<times> int option) list"

definition save_state :: "('p, 'x) codec \<Rightarrow> string \<Rightarrow> 'p wallet_window \<Rightarrow> 'x checkpoint_rows \<Rightarrow> 'x checkpoint_rows" where
  "save_state cd wallet w rows = AList.update wallet (cd_dump cd (ww_trades w), ww_last_score w) rows"

definition save_all :: "('p, 'x) codec \<Rightarrow> 'p windows \<Rightarrow> 'x checkpoint_rows \<Rightarrow> 'x checkpoint_rows" where
  "save_all cd ws rows = fold (\<lambda>(wallet, w). save_state cd wallet w) ws rows"

definition load_state :: "('p, 'x) codec \<Rightarrow> string \<Rightarrow> 'x checkpoint_rows \<Rightarrow> 'p wallet_window option" where
  "load_state cd wallet rows =
     (case map_of rows wallet of None \<Rightarrow> None
      | Some (text, score) \<Rightarrow>
          (case cd_load cd text of None \<Rightarrow> None
           | Some ts \<Rightarrow> Some \<lparr>ww_trades = ts, ww_last_score = score\<rparr>))"

definition load_row :: "('p, 'x) codec \<Rightarrow> string \<times> 'x \<times> int option \<Rightarrow> 'p windows \<Rightarrow> 'p windows" where
  "load_row cd row ws =
     (case row of (wallet, text, score) \<Rightarrow>
        (case cd_load cd text of None \<Rightarrow> ws
         | Some ts \<Rightarrow> AList.update wallet \<lparr>ww_trades = ts, ww_last_score = score\<rparr> ws))"

definition load_all :: "('p, 'x) codec \<Rightarrow> 'x checkpoint_rows \<Rightarrow> 'p windows \<Rightarrow> 'p windows" where
  "load_all cd rows ws = fold (load_row cd) rows ws"

subsection \<open>A window is the stably sorted recent past\<close>

lemma dropWhile_sorted:
  "sorted (map tr_close ts) \<Longrightarrow> dropWhile (\<lambda>t. tr_close t < c) ts = filter (\<lambda>t. c \<le> tr_close t) ts"
proof (induction ts)
  case (Cons a ts)
  show ?case
  proof (cases "tr_close a < c")
    case False
    then have "\<forall>t \<in> set ts. c \<le> tr_close t" using Cons.prems by (auto simp: not_less intro: order_trans)
    then have "filter (\<lambda>t. c \<le> tr_close t) ts = ts" by (simp only: filter_id_conv)
    with False show ?thesis by simp
  qed (use Cons in simp)
qed simp

lemma insert_index_takeWhile:
  "sorted (map tr_close ts) \<Longrightarrow> insert_index ts c (length ts) = length (takeWhile (\<lambda>t. tr_close t \<le> c) ts)"
proof -
  assume s: "sorted (map tr_close ts)"
  have "i \<le> length ts \<Longrightarrow> insert_index ts c i = length (takeWhile (\<lambda>t. tr_close t \<le> c) (take i ts))" for i
  proof (induction i)
    case (Suc i)
    have ti: "take (Suc i) ts = take i ts @ [ts ! i]" using Suc.prems by (simp add: take_Suc_conv_app_nth)
    show ?case
    proof (cases "c < tr_close (ts ! i)")
      case True
      then have "takeWhile (\<lambda>t. tr_close t \<le> c) (take (Suc i) ts) = takeWhile (\<lambda>t. tr_close t \<le> c) (take i ts)"
        unfolding ti takeWhile_append by (cases "\<forall>x \<in> set (take i ts). tr_close x \<le> c")
          (simp_all only: if_True if_False takeWhile_eq_all_conv [THEN iffD2], simp)
      then show ?thesis using Suc True by simp
    next
      case False
      have "tr_close (ts ! j) \<le> tr_close (ts ! i)" if "j \<le> i" for j
        using sorted_nth_mono [OF s, of j i] that Suc.prems by simp
      then have "\<forall>t \<in> set (take (Suc i) ts). tr_close t \<le> c"
        using False by (auto simp: in_set_conv_nth less_Suc_eq_le) (meson le_less_linear order_trans)
      then have tw: "takeWhile (\<lambda>t. tr_close t \<le> c) (take (Suc i) ts) = take (Suc i) ts" by (simp add: takeWhile_eq_all_conv)
      show ?thesis unfolding tw using False Suc.prems by simp
    qed
  qed simp
  from this [of "length ts"] show ?thesis by simp
qed

text \<open>Sorting a list with one more element puts it after its equals.\<close>

lemma insort_split:
  "insort_key f a (takeWhile (\<lambda>y. f y \<le> f x) s @ x # dropWhile (\<lambda>y. f y \<le> f x) s) =
   takeWhile (\<lambda>y. f y \<le> f x) (insort_key f a s) @ x # dropWhile (\<lambda>y. f y \<le> f x) (insort_key f a s)"
  by (induction s) auto

lemma sort_key_snoc:
  "sort_key f (xs @ [x]) = takeWhile (\<lambda>y. f y \<le> f x) (sort_key f xs) @ x # dropWhile (\<lambda>y. f y \<le> f x) (sort_key f xs)"
  by (induction xs) (simp_all add: insort_split)

text \<open>What \<open>add\<close> does with a sorted window below its cap.\<close>

lemma insert_at_takeWhile: "insert_at (length (takeWhile P xs)) x xs = takeWhile P xs @ x # dropWhile P xs"
  unfolding insert_at_def using takeWhile_dropWhile_id [of P xs] by (metis append_eq_conv_conj)

lemma late_insert:
  assumes "sorted (map tr_close ts)"
  shows "(if ts \<noteq> [] \<and> tr_close t < tr_close (last ts) then insert_at (insert_index ts (tr_close t) (length ts)) t ts else ts @ [t]) =
    takeWhile (\<lambda>u. tr_close u \<le> tr_close t) ts @ t # dropWhile (\<lambda>u. tr_close u \<le> tr_close t) ts"
proof (cases "ts \<noteq> [] \<and> tr_close t < tr_close (last ts)")
  case True
  then show ?thesis by (simp add: insert_index_takeWhile [OF assms] insert_at_takeWhile)
next
  case False
  have "tr_close u \<le> tr_close t" if "u \<in> set ts" for u
  proof -
    from that obtain i where i: "i < length ts" "u = ts ! i" by (auto simp: in_set_conv_nth)
    then have "tr_close u \<le> tr_close (last ts)"
      using sorted_nth_mono [OF assms, of i "length ts - 1"] by (cases ts rule: rev_cases) (auto simp: nth_append)
    with False i show ?thesis by auto
  qed
  then have tw: "takeWhile (\<lambda>u. tr_close u \<le> tr_close t) ts = ts" "dropWhile (\<lambda>u. tr_close u \<le> tr_close t) ts = []"
    by (simp_all add: takeWhile_eq_all_conv)
  show ?thesis unfolding tw using False by (simp only: if_False)
qed

definition recent :: "time \<Rightarrow> int \<Rightarrow> 'p trade list \<Rightarrow> 'p trade list" where
  "recent now hours ts = filter (\<lambda>t. window_cutoff now hours \<le> tr_close t) (sort_key tr_close ts)"

lemma recent_sorted: "sorted (map tr_close (recent now hours ts))"
  unfolding recent_def filter_sort by simp

lemma cutoff_mono: "now \<le> now' \<Longrightarrow> hours' \<le> hours \<Longrightarrow> window_cutoff now hours \<le> window_cutoff now' hours'"
  by (simp add: window_cutoff_def HOUR_def)

lemma filter_cutoffs: "c \<le> d \<Longrightarrow> filter (\<lambda>t. d \<le> tr_close t) (filter (\<lambda>t. c \<le> tr_close t) ts) = filter (\<lambda>t. d \<le> tr_close t) ts"
  unfolding filter_filter by (rule filter_cong) auto

lemma recent_length: "length (recent now hours ts) \<le> length ts"
  unfolding recent_def by (metis length_filter_le length_sort)

lemma add_recent:
  assumes "now \<le> now'" "length ts < MAX_TRADES_PER_WALLET_WINDOW" "ww_trades w = recent now 24 ts"
  shows "ww_trades (snd (window_add now' t w)) = recent now' 24 (ts @ [t])"
proof -
  let ?c = "window_cutoff now' 24" and ?old = "recent now' 24 ts"
  have "evict now' 24 (ww_trades w) = filter (\<lambda>u. ?c \<le> tr_close u) (recent now 24 ts)"
    using dropWhile_sorted [OF recent_sorted] by (simp add: evict_def assms(3))
  also have "\<dots> = ?old" using filter_cutoffs [OF cutoff_mono [OF assms(1) order_refl], of 24] by (simp add: recent_def)
  finally have old: "evict now' 24 (ww_trades w) = ?old" .
  have len: "\<not> MAX_TRADES_PER_WALLET_WINDOW \<le> length ?old" using recent_length [of now' 24 ts] assms(2) by simp
  show ?thesis
  proof (cases "tr_close t < ?c")
    case True
    then have "recent now' 24 (ts @ [t]) = ?old" by (simp add: recent_def filter_sort)
    with True old show ?thesis by (simp add: window_add_def Let_def WINDOW_TOLERANCE_HOURS_def)
  next
    case False
    have "recent now' 24 (ts @ [t]) = sort_key tr_close (filter (\<lambda>u. ?c \<le> tr_close u) ts @ [t])"
      using False by (simp add: recent_def filter_sort)
    also have "\<dots> = takeWhile (\<lambda>u. tr_close u \<le> tr_close t) ?old @ t # dropWhile (\<lambda>u. tr_close u \<le> tr_close t) ?old"
      by (simp add: sort_key_snoc recent_def filter_sort)
    also have "\<dots> = (if ?old \<noteq> [] \<and> tr_close t < tr_close (last ?old)
        then insert_at (insert_index ?old (tr_close t) (length ?old)) t ?old else ?old @ [t])"
      by (rule late_insert [OF recent_sorted, symmetric])
    finally have new: "recent now' 24 (ts @ [t]) = \<dots>" .
    show ?thesis
      unfolding new window_add_def Let_def WINDOW_TOLERANCE_HOURS_def old using False len by simp
  qed
qed

definition window_run :: "(time \<times> 'p trade) list \<Rightarrow> 'p wallet_window \<Rightarrow> 'p wallet_window" where
  "window_run offers w = fold (\<lambda>(now, t) w. snd (window_add now t w)) offers w"

lemma window_run_simps [simp]:
  "window_run [] w = w" "window_run (offers @ [(now, t)]) w = snd (window_add now t (window_run offers w))"
  by (simp_all add: window_run_def)

lemma get_recent:
  assumes "now \<le> now'" "hours \<le> 24" "ww_trades w = recent now 24 ts"
  shows "window_get now' hours w = recent now' hours ts"
  unfolding window_get_def assms(3) recent_def by (rule filter_cutoffs [OF cutoff_mono [OF assms(1,2)]])

lemma recent_early:
  assumes "offers \<noteq> []" "length offers \<le> MAX_TRADES_PER_WALLET_WINDOW" "sorted (map fst offers)"
  shows "ww_trades (window_run offers new_window) = recent (fst (last offers)) 24 (map snd offers)"
  using assms
proof (induction offers rule: rev_induct)
  case (snoc o' offers)
  obtain now t where o': "o' = (now, t)" by (cases o')
  show ?case
  proof (cases "offers = []")
    case True
    then show ?thesis
      by (simp add: o' window_run_def new_window_def window_add_def Let_def evict_def WINDOW_TOLERANCE_HOURS_def
          MAX_TRADES_PER_WALLET_WINDOW_def recent_def not_less)
  next
    case False
    with snoc have ih: "ww_trades (window_run offers new_window) = recent (fst (last offers)) 24 (map snd offers)"
      by (simp add: sorted_append)
    have "fst (last offers) \<le> now" using snoc.prems(3) False by (simp add: o' sorted_append)
    from add_recent [OF this _ ih] snoc.prems(2) show ?thesis by (simp add: o')
  qed
qed simp

lemma window_get_run:
  assumes "sorted (map fst offers)" "\<And>now t. (now, t) \<in> set offers \<Longrightarrow> now \<le> T" "length offers \<le> MAX_TRADES_PER_WALLET_WINDOW"
    "hours \<le> 24"
  shows "window_get T hours (window_run offers new_window) =
    sort_key tr_close (filter (\<lambda>t. window_cutoff T hours \<le> tr_close t) (map snd offers))"
proof (cases "offers = []")
  case False
  obtain now t where l: "last offers = (now, t)" by (cases "last offers")
  have "now \<le> T" using assms(2) last_in_set [OF False] by (simp add: l)
  from get_recent [OF this assms(4) recent_early [OF False assms(3,1), unfolded l fst_conv]]
  show ?thesis by (simp add: recent_def filter_sort)
qed (simp add: window_get_def new_window_def)


definition demo_trade :: "time \<Rightarrow> nat \<Rightarrow> nat trade" where
  "demo_trade c i = \<lparr>tr_close = c * HOUR, tr_base = ''GA'', tr_rest = i\<rparr>"


subsection \<open>The invariant, at the cap too\<close>

definition window_ok :: "'p wallet_window \<Rightarrow> bool" where
  "window_ok w \<longleftrightarrow> sorted (map tr_close (ww_trades w)) \<and> length (ww_trades w) \<le> MAX_TRADES_PER_WALLET_WINDOW"

lemma sorted_insert:
  "sorted (map tr_close ts) \<Longrightarrow>
   sorted (map tr_close (takeWhile (\<lambda>u. tr_close u \<le> tr_close t) ts @ t # dropWhile (\<lambda>u. tr_close u \<le> tr_close t) ts))"
proof (induction ts)
  case (Cons a ts)
  then show ?case by (auto dest: set_takeWhileD set_dropWhileD intro: order_trans)
qed simp

lemma length_insert: "length (takeWhile P ts @ t # dropWhile P ts) = Suc (length ts)"
  by (metis add_Suc_right length_Cons length_append takeWhile_dropWhile_id)

lemma window_add_ok:
  assumes "window_ok w"
  shows "window_ok (snd (window_add now t w)) \<and> (\<forall>u \<in> set (ww_trades (snd (window_add now t w))). window_cutoff now 24 \<le> tr_close u)"
proof -
  let ?ts = "evict now 24 (ww_trades w)"
  let ?cap = "if MAX_TRADES_PER_WALLET_WINDOW \<le> length ?ts then tl ?ts else ?ts"
  have ts: "?ts = filter (\<lambda>u. window_cutoff now 24 \<le> tr_close u) (ww_trades w)"
    using dropWhile_sorted [of "ww_trades w"] assms by (simp add: evict_def window_ok_def)
  then have s: "sorted (map tr_close ?ts)" "length ?ts \<le> MAX_TRADES_PER_WALLET_WINDOW"
    using assms by (simp_all add: window_ok_def sorted_filter order_trans [OF length_filter_le])
  have cut: "\<forall>u \<in> set ?ts. window_cutoff now 24 \<le> tr_close u" by (simp add: ts)
  have cap: "sorted (map tr_close ?cap)" "length ?cap < MAX_TRADES_PER_WALLET_WINDOW" "set ?cap \<subseteq> set ?ts"
    using s by (auto simp: MAX_TRADES_PER_WALLET_WINDOW_def map_tl intro: sorted_tl dest: list.set_sel(2) [rotated])
  show ?thesis
  proof (cases "tr_close t < window_cutoff now 24")
    case True
    then have "ww_trades (snd (window_add now t w)) = ?ts" by (simp add: window_add_def Let_def WINDOW_TOLERANCE_HOURS_def)
    with s cut show ?thesis by (simp add: window_ok_def)
  next
    case False
    then have new: "ww_trades (snd (window_add now t w)) =
        takeWhile (\<lambda>u. tr_close u \<le> tr_close t) ?cap @ t # dropWhile (\<lambda>u. tr_close u \<le> tr_close t) ?cap"
      unfolding late_insert [OF cap(1), symmetric] by (simp add: window_add_def Let_def WINDOW_TOLERANCE_HOURS_def)
    have "length (ww_trades (snd (window_add now t w))) \<le> MAX_TRADES_PER_WALLET_WINDOW"
      unfolding new length_insert using cap(2) by simp
    moreover have "sorted (map tr_close (ww_trades (snd (window_add now t w))))" unfolding new by (rule sorted_insert [OF cap(1)])
    moreover have "\<forall>u \<in> set (ww_trades (snd (window_add now t w))). window_cutoff now 24 \<le> tr_close u"
      unfolding new using cut cap(3) False by (auto dest!: set_takeWhileD set_dropWhileD)
    ultimately show ?thesis by (simp add: window_ok_def)
  qed
qed

text \<open>After any sequence of trades, at any clock readings, the window is in chronological order, holds at most 10000
  trades, and none that the last reading puts beyond the tolerance.\<close>

theorem rolling_window_invariant:
  "window_ok (window_run offers new_window) \<and>
   (offers = [] \<or> set (ww_trades (window_run offers new_window)) \<subseteq> {u. window_cutoff (fst (last offers)) 24 \<le> tr_close u})"
proof (induction offers rule: rev_induct)
  case (snoc o' offers)
  obtain now t where "o' = (now, t)" by (cases o')
  with window_add_ok snoc show ?case by auto
qed (simp add: window_ok_def new_window_def)

text \<open>At the cap, a late trade older than every trade of the window pushes out a newer one.\<close>

lemma late_trade_displaces_newer:
  assumes "ww_trades w = u # us" "length us = 9999" "sorted (map tr_close (u # us))"
    "window_cutoff now 24 \<le> tr_close t" "tr_close t < tr_close u"
  shows "ww_trades (snd (window_add now t w)) = t # us"
proof -
  have "evict now 24 (u # us) = u # us" using assms(4,5) by (simp add: evict_def)
  moreover have "sorted (map tr_close us)" using assms(3) by simp
  moreover have "takeWhile (\<lambda>v. tr_close v \<le> tr_close t) us = []" "dropWhile (\<lambda>v. tr_close v \<le> tr_close t) us = us"
    using assms(3,5) by (cases us, auto)+
  ultimately show ?thesis
    using late_insert [of us t, unfolded assms(2)] assms(1,2,4)
    by (auto simp: window_add_def Let_def WINDOW_TOLERANCE_HOURS_def MAX_TRADES_PER_WALLET_WINDOW_def)
qed

end
