(* ===== verification/Stream_Checkpoint.thy ===== *)
theory Stream_Checkpoint
  imports Rolling_Window
begin

text \<open>
  \<open>ingestion/stream_checkpoint.py\<close>, \<open>FlushPolicy\<close> and \<open>validate_cursor\<close> of \<open>ingestion/checkpoint.py\<close>, and the
  loop of \<open>cli.py stream\<close> that composes them with the rolling windows: the Horizon cursor and all windows are written in
  one SQLite transaction. Whether a transaction fails, the wall clock and the monotonic clock are part of an event. The
  legacy JSON file is the argument \<open>legacy\<close> (what its \<open>load\<close> returned).
\<close>

datatype checkpoint_error = Bad_max_events | Bad_max_seconds | Malformed_cursor string

record flush_policy =
  fp_max_events :: int
  fp_max_seconds :: rat

definition new_flush_policy :: "int \<Rightarrow> rat \<Rightarrow> checkpoint_error + flush_policy" where
  "new_flush_policy events secs =
     (if events \<le> 0 then Inl Bad_max_events else if secs \<le> 0 then Inl Bad_max_seconds
      else Inr \<lparr>fp_max_events = events, fp_max_seconds = secs\<rparr>)"

definition should_flush :: "flush_policy \<Rightarrow> int \<Rightarrow> rat \<Rightarrow> rat \<Rightarrow> bool" where
  "should_flush p events last_flush now \<longleftrightarrow> fp_max_events p \<le> events \<or> fp_max_seconds p \<le> now - last_flush"

text \<open>The regular expression of a paging token: digits, a hyphen, digits.\<close>

definition paging_token_ok :: "string \<Rightarrow> bool" where
  "paging_token_ok s \<longleftrightarrow> takeWhile is_digit s \<noteq> [] \<and>
     (case dropWhile is_digit s of [] \<Rightarrow> False | c # r \<Rightarrow> c = CHR ''-'' \<and> r \<noteq> [] \<and> list_all is_digit r)"

definition validate_cursor :: "string \<Rightarrow> checkpoint_error + string" where
  "validate_cursor c = (if c = ''now'' \<or> paging_token_ok c then Inr c else Inl (Malformed_cursor c))"

record cursor_row =
  cr_paging_token :: string
  cr_ledger_sequence :: "int option"
  cr_wallet_count :: nat

record 'x stream_db =
  sd_rows :: "'x checkpoint_rows"
  sd_cursor :: "cursor_row option"

definition fresh_stream_db :: "'x stream_db" where
  "fresh_stream_db = \<lparr>sd_rows = [], sd_cursor = None\<rparr>"

record stream_coordinator =
  sc_policy :: flush_policy
  sc_events :: int
  sc_last_flush :: rat

definition new_stream_coordinator :: "flush_policy \<Rightarrow> rat \<Rightarrow> stream_coordinator" where
  "new_stream_coordinator p mclock = \<lparr>sc_policy = p, sc_events = 0, sc_last_flush = mclock\<rparr>"

text \<open>The cursor to resume from, and whether the wallet counts disagree.\<close>

definition load_cursor :: "string option \<Rightarrow> nat \<Rightarrow> 'x stream_db \<Rightarrow> string option \<times> bool" where
  "load_cursor legacy actual db =
     (case sd_cursor db of
        None \<Rightarrow> (legacy, False)
      | Some r \<Rightarrow>
          ((case validate_cursor (cr_paging_token r) of Inl _ \<Rightarrow> None | Inr c \<Rightarrow> Some c), cr_wallet_count r \<noteq> actual))"

definition flush :: "('p, 'x) codec \<Rightarrow> bool \<Rightarrow> string \<Rightarrow> 'p windows \<Rightarrow> int option \<Rightarrow> 'x stream_db \<Rightarrow> 'x stream_db" where
  "flush cd fails token ws ledger db =
     (case validate_cursor token of
        Inl _ \<Rightarrow> db
      | Inr tok \<Rightarrow>
          if fails then db
          else \<lparr>sd_rows = save_all cd ws (sd_rows db),
                sd_cursor = Some \<lparr>cr_paging_token = tok, cr_ledger_sequence = ledger, cr_wallet_count = active_wallets ws\<rparr>\<rparr>)"

definition on_trade_processed ::
    "('p, 'x) codec \<Rightarrow> bool \<Rightarrow> string \<Rightarrow> 'p windows \<Rightarrow> int option \<Rightarrow> rat \<Rightarrow> stream_coordinator \<times> 'x stream_db \<Rightarrow>
     bool \<times> stream_coordinator \<times> 'x stream_db" where
  "on_trade_processed cd fails token ws ledger mclock s =
     (case s of (sc, db) \<Rightarrow>
        let sc = sc\<lparr>sc_events := sc_events sc + 1\<rparr> in
        if \<not> should_flush (sc_policy sc) (sc_events sc) (sc_last_flush sc) mclock then (False, sc, db)
        else (True, sc\<lparr>sc_events := 0, sc_last_flush := mclock\<rparr>, flush cd fails token ws ledger db))"

definition reset_cursor :: "'x stream_db \<Rightarrow> 'x stream_db" where
  "reset_cursor db = db\<lparr>sd_cursor := None\<rparr>"

subsection \<open>The streaming loop\<close>

record 'p stream_event =
  ev_trade :: "'p trade"
  ev_cursor :: string
  ev_now :: time
  ev_mono :: rat
  ev_write_fails :: bool

record ('p, 'x) stream =
  st_windows :: "'p windows"
  st_last_cursor :: string
  st_sc :: stream_coordinator
  st_db :: "'x stream_db"

definition stream_start :: "('p, 'x) codec \<Rightarrow> flush_policy \<Rightarrow> string option \<Rightarrow> string \<Rightarrow> rat \<Rightarrow> 'x stream_db \<Rightarrow> ('p, 'x) stream" where
  "stream_start cd p legacy default_cursor mclock db =
     (let ws = load_all cd (sd_rows db) [] in
      \<lparr>st_windows = ws,
       st_last_cursor = (case fst (load_cursor legacy (active_wallets ws) db) of None \<Rightarrow> default_cursor | Some c \<Rightarrow> c),
       st_sc = new_stream_coordinator p mclock, st_db = db\<rparr>)"

definition stream_step :: "('p, 'x) codec \<Rightarrow> 'p stream_event \<Rightarrow> ('p, 'x) stream \<Rightarrow> ('p, 'x) stream" where
  "stream_step cd e st =
     (let ws = add_trade (ev_now e) (tr_base (ev_trade e)) (ev_trade e) (st_windows st);
          (_, sc, db) = on_trade_processed cd (ev_write_fails e) (ev_cursor e) ws None (ev_mono e) (st_sc st, st_db st) in
      \<lparr>st_windows = ws, st_last_cursor = ev_cursor e, st_sc = sc, st_db = db\<rparr>)"

definition stream_shutdown :: "('p, 'x) codec \<Rightarrow> bool \<Rightarrow> ('p, 'x) stream \<Rightarrow> 'x stream_db" where
  "stream_shutdown cd fails st = flush cd fails (st_last_cursor st) (st_windows st) None (st_db st)"

definition stream_run :: "('p, 'x) codec \<Rightarrow> 'p stream_event list \<Rightarrow> ('p, 'x) stream \<Rightarrow> ('p, 'x) stream" where
  "stream_run cd evs st = fold (stream_step cd) evs st"

subsection \<open>Saving and loading all windows\<close>

definition codec_ok :: "('p, 'x) codec \<Rightarrow> bool" where
  "codec_ok cd \<longleftrightarrow> (\<forall>ts. cd_load cd (cd_dump cd ts) = Some ts)"

lemma map_of_update [simp]: "map_of (AList.update k v al) = (map_of al)(k \<mapsto> v)"
  by (rule update_conv')

lemma distinct_update [simp]: "distinct (map fst al) \<Longrightarrow> distinct (map fst (AList.update k v al))"
  by (rule distinct_update)

lemma save_all_map:
  "distinct (map fst ws) \<Longrightarrow>
   map_of (save_all cd ws rows) k =
     (case map_of ws k of None \<Rightarrow> map_of rows k | Some w \<Rightarrow> Some (cd_dump cd (ww_trades w), ww_last_score w))"
proof (induction ws arbitrary: rows)
  case (Cons x ws)
  obtain a w where x: "x = (a, w)" by (cases x)
  from Cons.prems x have "map_of ws a = None" by (simp add: map_of_eq_None_iff)
  with Cons x show ?case by (auto simp: save_all_def save_state_def split: option.splits)
qed (simp add: save_all_def)

lemma save_all_distinct: "distinct (map fst rows) \<Longrightarrow> distinct (map fst (save_all cd ws rows))"
  by (induction ws arbitrary: rows) (simp_all add: save_all_def save_state_def split_def)

lemma load_all_map:
  "distinct (map fst rows) \<Longrightarrow>
   map_of (load_all cd rows ws) k =
     (case map_of rows k of None \<Rightarrow> map_of ws k
      | Some (text, score) \<Rightarrow> (case cd_load cd text of None \<Rightarrow> map_of ws k | Some ts \<Rightarrow> Some \<lparr>ww_trades = ts, ww_last_score = score\<rparr>))"
proof (induction rows arbitrary: ws)
  case (Cons x rows)
  obtain a t s where x: "x = (a, t, s)" by (cases x)
  from Cons.prems x have "map_of rows a = None" by (simp add: map_of_eq_None_iff)
  with Cons x show ?case by (auto simp: load_all_def load_row_def split: option.splits)
qed (simp add: load_all_def)

lemma load_all_distinct: "distinct (map fst ws) \<Longrightarrow> distinct (map fst (load_all cd rows ws))"
  by (induction rows arbitrary: ws) (simp_all add: load_all_def load_row_def split: prod.splits option.splits)

lemma window_eta [simp]: "\<lparr>ww_trades = ww_trades w, ww_last_score = ww_last_score w\<rparr> = w"
  by simp

lemma load_saved:
  assumes "codec_ok cd" "distinct (map fst ws)" "distinct (map fst rows)" "dom (map_of rows) \<subseteq> dom (map_of ws)"
  shows "map_of (load_all cd (save_all cd ws rows) []) = map_of ws" "dom (map_of (save_all cd ws rows)) = dom (map_of ws)"
proof -
  note d = save_all_distinct [OF assms(3)]
  show "map_of (load_all cd (save_all cd ws rows) []) = map_of ws"
  proof
    fix k
    show "map_of (load_all cd (save_all cd ws rows) []) k = map_of ws k"
    proof (cases "map_of ws k")
      case None
      then have "map_of rows k = None" using assms(4) by (metis domIff subsetD)
      then show ?thesis unfolding load_all_map [OF d] save_all_map [OF assms(2)] by (simp add: None)
    next
      case (Some w)
      then show ?thesis
        unfolding load_all_map [OF d] save_all_map [OF assms(2)] using assms(1) by (simp add: codec_ok_def)
    qed
  qed
  show "dom (map_of (save_all cd ws rows)) = dom (map_of ws)"
    using assms(4) by (auto simp: dom_def save_all_map [OF assms(2)] split: option.splits)
qed

subsection \<open>What the windows are, as a function of the trades processed\<close>

definition windows_map :: "(time \<times> 'p trade) list \<Rightarrow> string \<Rightarrow> 'p wallet_window option" where
  "windows_map hist w =
     (let h = filter (\<lambda>(_, t). tr_base t = w) hist in if h = [] then None else Some (window_run h new_window))"

lemma add_trade_map:
  assumes "map_of ws = windows_map hist"
  shows "map_of (add_trade now (tr_base t) t ws) = windows_map (hist @ [(now, t)])"
  unfolding add_trade_def map_of_update assms
  by (rule ext) (auto simp: windows_map_def Let_def window_run_def split: option.splits)

lemma add_trade_distinct: "distinct (map fst ws) \<Longrightarrow> distinct (map fst (add_trade now w t ws))"
  by (simp add: add_trade_def)

lemma dom_windows_map: "dom (windows_map hist) = (tr_base \<circ> snd) ` set hist"
  by (force simp: windows_map_def dom_def Let_def filter_empty_conv image_iff split: if_splits)

text \<open>The feed is what Horizon delivers, each trade with its paging token; the durable cursor marks a place in it.\<close>

definition resume :: "('p trade \<times> string) list \<Rightarrow> 'x stream_db \<Rightarrow> nat" where
  "resume feed db =
     (case sd_cursor db of None \<Rightarrow> 0 | Some r \<Rightarrow> Suc (length (takeWhile (\<lambda>(_, c). c \<noteq> cr_paging_token r) feed)))"

definition session :: "('p trade \<times> string) list \<Rightarrow> nat \<Rightarrow> 'p stream_event list \<Rightarrow> bool" where
  "session feed k evs \<longleftrightarrow> k + length evs \<le> length feed \<and>
     map (\<lambda>e. (ev_trade e, ev_cursor e)) evs = take (length evs) (drop k feed)"

definition represents :: "('p, 'x) codec \<Rightarrow> ('p trade \<times> string) list \<Rightarrow> (time \<times> 'p trade) list \<Rightarrow> 'x stream_db \<Rightarrow> bool" where
  "represents cd feed hist db \<longleftrightarrow>
     distinct (map fst (sd_rows db)) \<and> map_of (load_all cd (sd_rows db) []) = windows_map hist \<and>
     dom (map_of (sd_rows db)) = dom (windows_map hist) \<and>
     resume feed db \<le> length feed \<and> map snd hist = map fst (take (resume feed db) feed) \<and>
     (\<forall>r. sd_cursor db = Some r \<longrightarrow> cr_wallet_count r = length (sd_rows db))"

lemma represents_trades: "represents cd feed hist db \<Longrightarrow> map snd hist = map fst (take (resume feed db) feed)"
  by (simp add: represents_def)

lemma resume_token:
  assumes "distinct (map snd feed)" "i < length feed" "sd_cursor db = Some r" "cr_paging_token r = snd (feed ! i)"
  shows "resume feed db = Suc i"
proof -
  have split: "feed = take i feed @ feed ! i # drop (Suc i) feed" using assms(2) by (rule id_take_nth_drop)
  have ne: "snd x \<noteq> snd (feed ! i)" if "x \<in> set (take i feed)" for x
  proof -
    have "distinct (map snd (take i feed) @ snd (feed ! i) # map snd (drop (Suc i) feed))"
      using assms(1) by (subst (asm) split) (simp only: map_append list.map)
    with that show ?thesis by (metis distinct_append image_eqI insert_iff list.set(2) list.set_map disjoint_iff)
  qed
  have "takeWhile (\<lambda>(_, c). c \<noteq> snd (feed ! i)) feed = take i feed"
    by (subst split, subst takeWhile_append2) (use ne in \<open>auto simp: split_def\<close>)
  then show ?thesis using assms(2-4) by (simp add: resume_def)
qed

lemma alist_length: "distinct (map fst al) \<Longrightarrow> length al = card (dom (map_of al))"
  by (metis distinct_card dom_map_of_conv_image_fst length_map list.set_map)

lemma save_all_length:
  assumes "distinct (map fst ws)" "distinct (map fst rows)" "dom (map_of rows) \<subseteq> dom (map_of ws)"
  shows "length (save_all cd ws rows) = length ws"
proof -
  have "dom (map_of (save_all cd ws rows)) = dom (map_of ws)"
    using assms(3) by (auto simp: dom_def save_all_map [OF assms(1)] split: option.splits)
  then show ?thesis by (simp only: alist_length [OF assms(1)] alist_length [OF save_all_distinct [OF assms(2)]])
qed

text \<open>A flush makes the database represent exactly what has been processed.\<close>

lemma flush_represents:
  assumes "codec_ok cd" "distinct (map snd feed)" "represents cd feed h0 db" "distinct (map fst ws)"
    "map_of ws = windows_map hist" "set h0 \<subseteq> set hist" "i < length feed" "snd (feed ! i) = token"
    "map snd hist = map fst (take (Suc i) feed)" "h1 = (if flush cd fails token ws ledger db = db then h0 else hist)"
  shows "represents cd feed h1 (flush cd fails token ws ledger db)"
proof (cases "flush cd fails token ws ledger db = db")
  case False
  then have v: "validate_cursor token = Inr token" "\<not> fails"
    by (auto simp: flush_def validate_cursor_def split: if_splits)
  note r = assms(3) [unfolded represents_def]
  have dom: "dom (map_of (sd_rows db)) \<subseteq> dom (map_of ws)"
    using r assms(6) unfolding assms(5) by (auto simp: dom_windows_map)
  have dist: "distinct (map fst (sd_rows db))" using r by blast
  let ?db = "flush cd fails token ws ledger db"
  have db: "?db = \<lparr>sd_rows = save_all cd ws (sd_rows db), sd_cursor = Some \<lparr>cr_paging_token = token, cr_ledger_sequence = ledger,
      cr_wallet_count = length ws\<rparr>\<rparr>" using v by (simp add: flush_def active_wallets_def)
  have "resume feed ?db = Suc i" by (rule resume_token [OF assms(2,7)]) (simp only: db stream_db.simps, simp add: assms(8))
  with load_saved [OF assms(1,4) dist dom] save_all_distinct [OF dist] save_all_length [OF assms(4) dist dom] assms(5,7,9,10) False
  show ?thesis by (simp add: represents_def db)
qed (use assms in simp)

lemma session_snoc:
  assumes "session feed k (evs @ [e])"
  shows "session feed k evs" "k + length evs < length feed" "feed ! (k + length evs) = (ev_trade e, ev_cursor e)"
proof -
  have len: "k + length evs < length feed" using assms by (simp add: session_def)
  have split: "take (Suc (length evs)) (drop k feed) = take (length evs) (drop k feed) @ [feed ! (k + length evs)]"
    using len by (simp add: take_Suc_conv_app_nth)
  show "k + length evs < length feed" by (rule len)
  show "session feed k evs" "feed ! (k + length evs) = (ev_trade e, ev_cursor e)"
    using assms len by (auto simp: session_def split)
qed

definition processed :: "'p stream_event list \<Rightarrow> (time \<times> 'p trade) list" where
  "processed evs = map (\<lambda>e. (ev_now e, ev_trade e)) evs"

lemma processed_trades:
  assumes "session feed k evs" "map snd hist = map fst (take k feed)"
  shows "map snd (hist @ processed evs) = map fst (take (k + length evs) feed)"
proof -
  have "map ev_trade evs = map fst (map (\<lambda>e. (ev_trade e, ev_cursor e)) evs)" by simp
  also have "\<dots> = map fst (take (length evs) (drop k feed))" using assms(1) by (simp only: session_def)
  finally show ?thesis using assms(2) by (simp add: processed_def take_add comp_def)
qed

lemma stream_step_db:
  "st_db (stream_step cd e st) = st_db st \<or>
   st_db (stream_step cd e st) = flush cd (ev_write_fails e) (ev_cursor e) (st_windows (stream_step cd e st)) None (st_db st)"
  by (simp add: stream_step_def on_trade_processed_def Let_def split: prod.splits)

lemma stream_step_simps [simp]:
  "st_windows (stream_step cd e st) = add_trade (ev_now e) (tr_base (ev_trade e)) (ev_trade e) (st_windows st)"
  "st_last_cursor (stream_step cd e st) = ev_cursor e"
  by (simp_all add: stream_step_def Let_def split: prod.splits)

lemma stream_run_simps [simp]:
  "stream_run cd [] st = st" "stream_run cd (evs @ [e]) st = stream_step cd e (stream_run cd evs st)"
  by (simp_all add: stream_run_def)

lemma stream_start_simps [simp]:
  "st_windows (stream_start cd p legacy d m db) = load_all cd (sd_rows db) []" "st_db (stream_start cd p legacy d m db) = db"
  "st_sc (stream_start cd p legacy d m db) = new_stream_coordinator p m"
  by (simp_all add: stream_start_def Let_def)

lemma session_windows:
  assumes "represents cd feed hist db"
  shows "distinct (map fst (st_windows (stream_run cd evs (stream_start cd p legacy d m db)))) \<and>
    map_of (st_windows (stream_run cd evs (stream_start cd p legacy d m db))) = windows_map (hist @ processed evs)"
proof (induction evs rule: rev_induct)
  case Nil
  then show ?case using assms load_all_distinct [of "[]"] by (simp add: represents_def processed_def)
next
  case (snoc e evs)
  then show ?case using add_trade_map [of _ "hist @ processed evs"] by (simp add: add_trade_distinct processed_def)
qed

text \<open>Wherever a session is cut off, the database holds the state after some prefix of it.\<close>

lemma session_represents:
  assumes "codec_ok cd" "distinct (map snd feed)" "represents cd feed hist db" "session feed (resume feed db) evs"
  shows "\<exists>j \<le> length evs. represents cd feed (hist @ take j (processed evs)) (st_db (stream_run cd evs (stream_start cd p legacy d m db)))"
  using assms(4)
proof (induction evs rule: rev_induct)
  case Nil
  then show ?case using assms(3) by simp
next
  case (snoc e evs)
  let ?k = "resume feed db" and ?st = "stream_run cd evs (stream_start cd p legacy d m db)"
  let ?st' = "stream_step cd e ?st" and ?new = "processed (evs @ [e])"
  note s = session_snoc [OF snoc.prems]
  from snoc.IH [OF s(1)] obtain j where j: "j \<le> length evs" "represents cd feed (hist @ take j (processed evs)) (st_db ?st)" by blast
  have take_j: "take j ?new = take j (processed evs)" using j(1) by (simp add: processed_def)
  show ?case
  proof (cases "st_db ?st' = st_db ?st")
    case True
    with j take_j show ?thesis by (intro exI [of _ j]) simp
  next
    case False
    with stream_step_db have fl: "st_db ?st' = flush cd (ev_write_fails e) (ev_cursor e) (st_windows ?st') None (st_db ?st)" by blast
    have w: "distinct (map fst (st_windows ?st'))" "map_of (st_windows ?st') = windows_map (hist @ ?new)"
      using session_windows [OF assms(3), of "evs @ [e]"] by simp_all
    have tr: "map snd (hist @ ?new) = map fst (take (Suc (?k + length evs)) feed)"
      using processed_trades [OF snoc.prems represents_trades [OF assms(3)]] by simp
    have sub: "set (hist @ take j (processed evs)) \<subseteq> set (hist @ ?new)"
      by (auto simp: processed_def dest: in_set_takeD)
    have cur: "snd (feed ! (?k + length evs)) = ev_cursor e" by (simp add: s(3))
    have "hist @ ?new = (if flush cd (ev_write_fails e) (ev_cursor e) (st_windows ?st') None (st_db ?st) = st_db ?st
        then hist @ take j (processed evs) else hist @ ?new)" using False fl by simp
    from flush_represents [OF assms(1,2) j(2) w sub s(2) cur tr this]
    have "represents cd feed (hist @ ?new) (st_db ?st')" unfolding fl .
    then show ?thesis by (intro exI [of _ "length (evs @ [e])"]) (simp add: processed_def)
  qed
qed

subsection \<open>Any number of crashes and restarts\<close>

inductive durable :: "('p, 'x) codec \<Rightarrow> ('p trade \<times> string) list \<Rightarrow> time \<Rightarrow> 'x stream_db \<Rightarrow> bool" for cd feed where
  fresh: "durable cd feed T fresh_stream_db"
| crash: "durable cd feed T db \<Longrightarrow> session feed (resume feed db) evs \<Longrightarrow> sorted (T # map ev_now evs @ [T']) \<Longrightarrow>
    durable cd feed T' (st_db (stream_run cd evs (stream_start cd p None d m db)))"
| stop: "durable cd feed T db \<Longrightarrow> session feed (resume feed db) evs \<Longrightarrow> evs \<noteq> [] \<Longrightarrow> sorted (T # map ev_now evs @ [T']) \<Longrightarrow>
    durable cd feed T' (stream_shutdown cd fails (stream_run cd evs (stream_start cd p None d m db)))"

definition history_until :: "time \<Rightarrow> (time \<times> 'p trade) list \<Rightarrow> bool" where
  "history_until T hist \<longleftrightarrow> sorted (map fst hist @ [T])"

lemma history_extend:
  assumes "history_until T hist" "sorted (T # map ev_now evs @ [T'])"
  shows "history_until T' (hist @ processed evs)" "history_until T' (hist @ take j (processed evs))"
proof -
  have all: "sorted (map fst hist @ map ev_now evs @ [T'])"
    using assms by (fastforce simp: history_until_def sorted_append intro: order_trans)
  then show "history_until T' (hist @ processed evs)" by (simp add: history_until_def processed_def comp_def)
  have "map ev_now evs = map ev_now (take j evs) @ map ev_now (drop j evs)" by (metis append_take_drop_id map_append)
  with all have "sorted (map fst hist @ map ev_now (take j evs) @ [T'])" by (auto simp: sorted_append)
  then show "history_until T' (hist @ take j (processed evs))" by (simp add: history_until_def processed_def take_map comp_def)
qed

lemma durable_represents:
  assumes "codec_ok cd" "distinct (map snd feed)" "durable cd feed T db"
  shows "\<exists>hist. represents cd feed hist db \<and> history_until T hist"
  using assms(3)
proof (induction rule: durable.induct)
  case (fresh T)
  then show ?case
    by (intro exI [of _ "[]"]) (auto simp: represents_def fresh_stream_db_def resume_def windows_map_def load_all_def history_until_def)
next
  case (crash T db evs T' p d m)
  then obtain hist where h: "represents cd feed hist db" "history_until T hist" by blast
  from session_represents [OF assms(1,2) h(1) crash.hyps(2)] history_extend(2) [OF h(2) crash.hyps(3)]
  show ?case by blast
next
  case (stop T db evs T' fails p d m)
  then obtain hist where h: "represents cd feed hist db" "history_until T hist" by blast
  let ?st = "stream_run cd evs (stream_start cd p None d m db)" and ?k = "resume feed db"
  obtain j where j: "represents cd feed (hist @ take j (processed evs)) (st_db ?st)"
    using session_represents [OF assms(1,2) h(1) stop.hyps(2)] by blast
  obtain es e where evs: "evs = es @ [e]" using stop.hyps(3) by (metis rev_exhaust)
  note s = session_snoc [OF stop.hyps(2) [unfolded evs]]
  have lc: "st_last_cursor ?st = ev_cursor e" by (simp add: evs)
  have tr: "map snd (hist @ processed evs) = map fst (take (Suc (?k + length es)) feed)"
    using processed_trades [OF stop.hyps(2) represents_trades [OF h(1)]] by (simp add: evs)
  have sub: "set (hist @ take j (processed evs)) \<subseteq> set (hist @ processed evs)" by (auto dest: in_set_takeD)
  have cur: "snd (feed ! (?k + length es)) = ev_cursor e" by (simp add: s(3))
  from session_windows [OF h(1), of evs] have w: "distinct (map fst (st_windows ?st))" "map_of (st_windows ?st) = windows_map (hist @ processed evs)"
    by auto
  define hist' where "hist' = (if flush cd fails (ev_cursor e) (st_windows ?st) None (st_db ?st) = st_db ?st
    then hist @ take j (processed evs) else hist @ processed evs)"
  have "represents cd feed hist' (stream_shutdown cd fails ?st)"
    unfolding stream_shutdown_def lc by (rule flush_represents [OF assms(1,2) j w sub s(2) cur tr hist'_def])
  moreover have "history_until T' hist'" unfolding hist'_def by (simp add: history_extend [OF h(2) stop.hyps(4)])
  ultimately show ?case by blast
qed

lemma no_desync:
  assumes "represents cd feed hist db"
  shows "\<not> snd (load_cursor legacy (active_wallets (load_all cd (sd_rows db) [])) db)"
proof -
  note r = assms [unfolded represents_def]
  have "distinct (map fst (load_all cd (sd_rows db) []))" by (rule load_all_distinct) simp
  from alist_length [OF this] alist_length [of "sd_rows db"] r
  have "length (load_all cd (sd_rows db) []) = length (sd_rows db)" by simp
  with r show ?thesis by (auto simp: load_cursor_def active_wallets_def split: option.splits)
qed

lemma windows_map_get:
  assumes "map_of ws = windows_map hist" "history_until T hist" "length hist \<le> MAX_TRADES_PER_WALLET_WINDOW" "hours \<le> 24"
  shows "get_window T wallet hours ws =
    sort_key tr_close (filter (\<lambda>t. tr_base t = wallet \<and> window_cutoff T hours \<le> tr_close t) (map snd hist))"
proof -
  let ?h = "filter (\<lambda>(_, t). tr_base t = wallet) hist"
  have snds: "map snd ?h = filter (\<lambda>t. tr_base t = wallet) (map snd hist)" by (simp add: filter_map comp_def split_def)
  have s: "sorted (map fst ?h)" "\<And>now t. (now, t) \<in> set ?h \<Longrightarrow> now \<le> T"
    using assms(2) by (auto simp: history_until_def sorted_append sorted_filter)
  have len: "length ?h \<le> MAX_TRADES_PER_WALLET_WINDOW" using length_filter_le assms(3) by (rule order_trans)
  have "window_get T hours (window_run ?h new_window) =
      sort_key tr_close (filter (\<lambda>t. window_cutoff T hours \<le> tr_close t) (map snd ?h))"
    by (rule window_get_run [OF s(1) s(2) len assms(4)])
  then have run: "window_get T hours (window_run ?h new_window) =
      sort_key tr_close (filter (\<lambda>t. tr_base t = wallet \<and> window_cutoff T hours \<le> tr_close t) (map snd hist))"
    unfolding snds filter_filter by (simp only: conj_commute)
  show ?thesis
  proof (cases "?h = []")
    case True
    then have "get_window T wallet hours ws = window_get T hours (window_run ?h new_window)"
      by (simp add: get_window_def assms(1) windows_map_def window_get_def new_window_def)
    with run show ?thesis by simp
  next
    case False
    then have "get_window T wallet hours ws = window_get T hours (window_run ?h new_window)"
      by (simp add: get_window_def assms(1) windows_map_def)
    with run show ?thesis by simp
  qed
qed


subsection \<open>How much is replayed\<close>

lemma flush_resume:
  assumes "distinct (map snd feed)" "i < length feed" "snd (feed ! i) = token" "token = ''now'' \<or> paging_token_ok token"
  shows "resume feed (flush cd False token ws ledger db) = Suc i"
proof -
  have "sd_cursor (flush cd False token ws ledger db) =
      Some \<lparr>cr_paging_token = token, cr_ledger_sequence = ledger, cr_wallet_count = active_wallets ws\<rparr>"
    using assms(4) by (simp add: flush_def validate_cursor_def)
  from resume_token [OF assms(1,2) this] assms(3) show ?thesis by simp
qed

text \<open>While checkpoint writes succeed, a crash repeats fewer trades than \<open>max_events\<close>: the place the database
  would resume from lags behind the trades processed by less than the flush policy's event bound.\<close>

theorem replay_after_crash_bounded:
  assumes "distinct (map snd feed)" "session feed (resume feed db) evs" "new_flush_policy n s = Inr p"
    "\<And>e. e \<in> set evs \<Longrightarrow> \<not> ev_write_fails e \<and> (ev_cursor e = ''now'' \<or> paging_token_ok (ev_cursor e))"
  shows "int (resume feed db + length evs) - int (resume feed (st_db (stream_run cd evs (stream_start cd p None d m db)))) < n"
proof -
  let ?st = "\<lambda>evs. stream_run cd evs (stream_start cd p None d m db)"
  have p: "0 < n" "fp_max_events p = n" using assms(3) by (auto simp: new_flush_policy_def split: if_splits)
  have "sc_policy (st_sc (?st evs)) = p \<and> sc_events (st_sc (?st evs)) < n \<and>
    int (resume feed db + length evs) = int (resume feed (st_db (?st evs))) + sc_events (st_sc (?st evs))"
    using assms(2,4)
  proof (induction evs rule: rev_induct)
    case Nil
    then show ?case by (simp add: new_stream_coordinator_def p)
  next
    case (snoc e evs)
    note s = session_snoc [OF snoc.prems(1)]
    have ih: "sc_policy (st_sc (?st evs)) = p" "sc_events (st_sc (?st evs)) < n"
      "int (resume feed db + length evs) = int (resume feed (st_db (?st evs))) + sc_events (st_sc (?st evs))"
      using snoc.IH [OF s(1)] snoc.prems(2) by simp_all
    have e: "ev_write_fails e = False" "ev_cursor e = ''now'' \<or> paging_token_ok (ev_cursor e)" using snoc.prems(2) by auto
    have r: "resume feed (flush cd False (ev_cursor e) ws None (st_db (?st evs))) = Suc (resume feed db + length evs)" for ws
      using e(2) by (intro flush_resume [OF assms(1) s(2)]) (simp_all add: s(3))
    have len: "length (evs @ [e]) = Suc (length evs)" by simp
    show ?case
    proof (cases "should_flush p (sc_events (st_sc (?st evs)) + 1) (sc_last_flush (st_sc (?st evs))) (ev_mono e)")
      case True
      then show ?thesis using ih(1) p r e(1) unfolding len by (simp add: stream_step_def on_trade_processed_def Let_def)
    next
      case False
      then have "sc_events (st_sc (?st evs)) + 1 < n" by (simp add: should_flush_def p)
      with False show ?thesis using ih unfolding len by (simp add: stream_step_def on_trade_processed_def Let_def)
    qed
  qed
  then show ?thesis by linarith
qed

text \<open>The shutdown handler can run between \<open>add_trade\<close> and the assignment of the new cursor: it then stores the window with
  the trade under the old cursor, and the restarted stream adds the trade a second time.\<close>

lemma shutdown_mid_trade_repeats_trade:
  assumes "codec_ok cd" "validate_cursor c0 = Inr c0" "window_cutoff now 24 \<le> tr_close t" "window_cutoff now' 24 \<le> tr_close t"
  defines "db \<equiv> flush cd False c0 (add_trade now (tr_base t) t []) None fresh_stream_db"
  shows "sd_cursor db = Some \<lparr>cr_paging_token = c0, cr_ledger_sequence = None, cr_wallet_count = 1\<rparr> \<and>
    map_option ww_trades (map_of (add_trade now' (tr_base t) t (load_all cd (sd_rows db) [])) (tr_base t)) = Some [t, t]"
proof -
  have add: "ww_trades (snd (window_add now t new_window)) = [t]"
    using assms(3) by (simp add: window_add_def new_window_def evict_def WINDOW_TOLERANCE_HOURS_def MAX_TRADES_PER_WALLET_WINDOW_def Let_def)
  have again: "ww_trades (snd (window_add now' t \<lparr>ww_trades = [t], ww_last_score = x\<rparr>)) = [t, t]" for x
    using assms(4) by (simp add: window_add_def evict_def WINDOW_TOLERANCE_HOURS_def MAX_TRADES_PER_WALLET_WINDOW_def Let_def)
  show ?thesis
    using assms(1,2) add again
    by (simp add: db_def flush_def fresh_stream_db_def add_trade_def active_wallets_def save_all_def save_state_def load_all_def
        load_row_def codec_ok_def)
qed

subsection \<open>Witnesses\<close>

text \<open>Three trades, flushed every two; the process dies after the third, restarts and sees it again.\<close>

definition plain_codec :: "(nat, nat trade list) codec" where
  "plain_codec = \<lparr>cd_dump = (\<lambda>ts. ts), cd_load = Some\<rparr>"

definition demo_feed :: "(nat trade \<times> string) list" where
  "demo_feed = [(demo_trade 100 0, ''1-0''), (demo_trade 101 1, ''2-0''), (demo_trade 100 2, ''3-0'')]"

definition demo_event :: "nat \<Rightarrow> time \<Rightarrow> nat stream_event" where
  "demo_event i now = \<lparr>ev_trade = fst (demo_feed ! i), ev_cursor = snd (demo_feed ! i), ev_now = now * HOUR, ev_mono = 0, ev_write_fails = False\<rparr>"

definition demo_policy :: flush_policy where
  "demo_policy = \<lparr>fp_max_events = 2, fp_max_seconds = 10\<rparr>"

definition demo_crashed :: "nat trade list stream_db" where
  "demo_crashed = st_db (stream_run plain_codec [demo_event 0 101, demo_event 1 102, demo_event 2 103]
     (stream_start plain_codec demo_policy None ''now'' 0 fresh_stream_db))"

lemma demo_crashed_cursor: "map_option cr_paging_token (sd_cursor demo_crashed) = Some ''2-0''"
  unfolding demo_crashed_def by code_simp

lemma demo_resume: "resume demo_feed demo_crashed = 2"
proof -
  from demo_crashed_cursor obtain r where "sd_cursor demo_crashed = Some r" "cr_paging_token r = ''2-0''" by blast
  then show ?thesis by (simp add: resume_def demo_feed_def)
qed

lemma demo_durable: "durable plain_codec demo_feed (104 * HOUR) demo_crashed"
  unfolding demo_crashed_def
proof (rule durable.crash [OF durable.fresh [of _ _ 0]])
  show "session demo_feed (resume demo_feed (fresh_stream_db :: nat trade list stream_db)) [demo_event 0 101, demo_event 1 102, demo_event 2 103]"
    by (simp add: resume_def fresh_stream_db_def session_def demo_event_def) (simp add: demo_feed_def)
  show "sorted (0 # map ev_now [demo_event 0 101, demo_event 1 102, demo_event 2 103] @ [104 * HOUR])"
    by (simp add: demo_event_def HOUR_def)
qed

lemma demo_session: "session demo_feed (resume demo_feed demo_crashed) [demo_event 2 105]"
  by (simp add: demo_resume session_def demo_event_def) (simp add: demo_feed_def)


theorem replay_after_crash_bounded_witness:
  "int (length demo_feed) - int (resume demo_feed demo_crashed) < 2"
proof -
  let ?evs = "[demo_event 0 101, demo_event 1 102, demo_event 2 103]"
  have "session demo_feed (resume demo_feed (fresh_stream_db :: nat trade list stream_db)) ?evs"
    by (simp add: resume_def fresh_stream_db_def session_def demo_event_def) (simp add: demo_feed_def)
  moreover have "distinct (map snd demo_feed)" by (simp add: demo_feed_def)
  moreover have "new_flush_policy 2 10 = Inr demo_policy" by (simp add: new_flush_policy_def demo_policy_def)
  moreover have "list_all (\<lambda>e. \<not> ev_write_fails e \<and> (ev_cursor e = ''now'' \<or> paging_token_ok (ev_cursor e))) ?evs" by code_simp
  ultimately have "int (resume demo_feed (fresh_stream_db :: nat trade list stream_db) + length ?evs) -
      int (resume demo_feed (st_db (stream_run plain_codec ?evs (stream_start plain_codec demo_policy None ''now'' 0 fresh_stream_db)))) < 2"
    by (intro replay_after_crash_bounded [where s = 10]) (auto simp: list_all_iff)
  then show ?thesis by (simp add: demo_crashed_def resume_def fresh_stream_db_def demo_feed_def)
qed

end
