(* ===== verification/Benford.thy ===== *)
theory Benford
  imports LL_Prelude
begin

text \<open>
  \<open>detection/benford_engine.py\<close>, the univariate part: leading digits, the statistics against Benford's law, the
  streaming counter, the Kolmogorov-Smirnov and Kuiper statistics. Floating-point numbers are reals; \<open>None\<close> stands for
  an amount that is missing, infinite or not a number. A dictionary over the digits 1 to 9 is the list of its values.
\<close>

type_synonym amount = "real option"

definition DIGITS :: "nat list" where "DIGITS = [1..<10]"

definition BENFORD_EXPECTED :: "real list" where
  "BENFORD_EXPECTED = map (\<lambda>d. log 10 (1 + 1 / real d)) DIGITS"

subsection \<open>Leading digits\<close>

text \<open>The two loops of \<open>first_digit\<close>. It calls them on positive values only, where the guard \<open>0 < v\<close> always holds.\<close>

lemma log10_mult: "0 < v \<Longrightarrow> log 10 (v * 10) = log 10 v + 1"
  by (simp add: log_mult)

lemma log10_div: "0 < v \<Longrightarrow> log 10 (v / 10) = log 10 v - 1"
  by (simp add: log_divide)

function scale_up :: "real \<Rightarrow> real" where
  "scale_up v = (if 0 < v \<and> v < 1 then scale_up (v * 10) else v)"
  by pat_completeness auto
termination
proof (relation "measure (\<lambda>v. nat \<lceil>- log 10 v\<rceil>)", simp)
  fix v :: real
  assume v: "0 < v \<and> v < 1"
  then have "log 10 v < 0" by simp
  then have "\<lceil>- log 10 (v * 10)\<rceil> < \<lceil>- log 10 v\<rceil>" "0 < \<lceil>- log 10 v\<rceil>" using v by (simp_all add: log10_mult)
  then show "(v * 10, v) \<in> measure (\<lambda>v. nat \<lceil>- log 10 v\<rceil>)" by simp
qed

function scale_down :: "real \<Rightarrow> real" where
  "scale_down v = (if 10 \<le> v then scale_down (v / 10) else v)"
  by pat_completeness auto
termination
proof (relation "measure (\<lambda>v. nat \<lfloor>log 10 v\<rfloor>)", simp)
  fix v :: real
  assume v: "10 \<le> v"
  then have "1 \<le> log 10 v" by simp
  then have "\<lfloor>log 10 (v / 10)\<rfloor> < \<lfloor>log 10 v\<rfloor>" "0 < \<lfloor>log 10 v\<rfloor>" using v by (simp_all add: log10_div)
  then show "(v / 10, v) \<in> measure (\<lambda>v. nat \<lfloor>log 10 v\<rfloor>)" by simp
qed

declare scale_up.simps [simp del] scale_down.simps [simp del]

definition first_digit :: "amount \<Rightarrow> nat option" where
  "first_digit a =
     (case a of None \<Rightarrow> None
      | Some v \<Rightarrow> if v \<le> 0 then None else Some (nat \<lfloor>scale_down (scale_up v)\<rfloor>))"

text \<open>The streaming counter takes the digit from the fractional part of the logarithm (\<open>x % 1\<close>).\<close>

definition fast_digit :: "real \<Rightarrow> nat" where
  "fast_digit v = (let d = nat \<lfloor>10 powr frac (log 10 v)\<rfloor> in if d = 0 then 1 else d)"

definition mantissa :: "real \<Rightarrow> real" where
  "mantissa v = 10 powr frac (log 10 v)"

lemma mantissa_range: "1 \<le> mantissa v" "mantissa v < 10"
proof -
  show "1 \<le> mantissa v" using frac_ge_0 [of "log 10 v"] powr_mono [of 0 "frac (log 10 v)" 10] by (simp add: mantissa_def)
  have "10 powr frac (log 10 v) < (10 :: real) powr 1" by (rule powr_less_mono) (simp_all add: frac_lt_1)
  then show "mantissa v < 10" by (simp add: mantissa_def)
qed

lemma mantissa_in_range: "1 \<le> v \<Longrightarrow> v < 10 \<Longrightarrow> mantissa v = v"
proof -
  assume v: "1 \<le> v" "v < 10"
  then have "0 \<le> log 10 v" "log 10 v < 1" by simp_all
  then have "frac (log 10 v) = log 10 v" by (simp add: frac_eq)
  then show ?thesis using v by (simp add: mantissa_def)
qed

lemma frac_shift: "frac (x + 1) = frac x" "frac (x - 1) = frac x" for x :: real
  using frac_1_eq [of x] frac_1_eq [of "x - 1"] by simp_all

lemma scale_up_pos: "0 < v \<Longrightarrow> 1 \<le> scale_up v \<and> mantissa (scale_up v) = mantissa v"
proof (induction v rule: scale_up.induct)
  case (1 v)
  show ?case
  proof (cases "v < 1")
    case True
    have "mantissa (v * 10) = mantissa v" using 1 by (simp add: mantissa_def log10_mult frac_shift)
    with 1 True show ?thesis by (simp add: scale_up.simps [of v])
  qed (simp add: scale_up.simps [of v])
qed

lemma scale_down_range: "1 \<le> v \<Longrightarrow> scale_down v = mantissa v"
proof (induction v rule: scale_down.induct)
  case (1 v)
  show ?case
  proof (cases "10 \<le> v")
    case True
    have "mantissa (v / 10) = mantissa v" using True by (simp add: mantissa_def log10_div frac_shift)
    with 1 True show ?thesis by (simp add: scale_down.simps [of v])
  qed (use 1 in \<open>simp add: scale_down.simps [of v] mantissa_in_range\<close>)
qed

lemma first_digit_mantissa: "0 < v \<Longrightarrow> first_digit (Some v) = Some (nat \<lfloor>mantissa v\<rfloor>)"
  using scale_up_pos [of v] scale_down_range [of "scale_up v"] by (simp add: first_digit_def)

lemma digit_range: "nat \<lfloor>mantissa v\<rfloor> \<in> set DIGITS"
proof -
  have "1 \<le> \<lfloor>mantissa v\<rfloor>" "\<lfloor>mantissa v\<rfloor> < 10" using mantissa_range [of v] by (simp_all add: le_floor_iff floor_less_iff)
  then have "1 \<le> nat \<lfloor>mantissa v\<rfloor>" "nat \<lfloor>mantissa v\<rfloor> < 10" by linarith+
  then show ?thesis by (simp add: DIGITS_def)
qed

lemma fast_digit_mantissa: "fast_digit v = nat \<lfloor>mantissa v\<rfloor>"
proof -
  have "nat \<lfloor>mantissa v\<rfloor> \<noteq> 0" using digit_range [of v] by (auto simp: DIGITS_def)
  then show ?thesis by (simp add: fast_digit_def mantissa_def Let_def)
qed

lemma first_digit_some: "first_digit a = Some d \<Longrightarrow> d \<in> set DIGITS"
proof (cases a)
  case (Some v)
  moreover assume d: "first_digit a = Some d"
  ultimately have "0 < v" by (simp add: first_digit_def split: if_splits)
  with first_digit_mantissa [of v] d Some digit_range [of v] show ?thesis by simp
qed (simp add: first_digit_def)

subsection \<open>Statistics of a list of amounts\<close>

definition valid_digits :: "amount list \<Rightarrow> nat list" where
  "valid_digits amounts = List.map_filter first_digit amounts"

definition digit_distribution :: "amount list \<Rightarrow> real list" where
  "digit_distribution amounts =
     (let ds = valid_digits amounts; n = length ds in
      if n = 0 then map (\<lambda>_. 0) DIGITS else map (\<lambda>d. real (count_list ds d) / real n) DIGITS)"

definition chi_square_statistic :: "real list \<Rightarrow> nat \<Rightarrow> real" where
  "chi_square_statistic obs n =
     (if n = 0 then 0
      else sum_list (map2 (\<lambda>o' e. if 0 < e * real n then (o' * real n - e * real n)\<^sup>2 / (e * real n) else 0) obs BENFORD_EXPECTED))"

definition z_score :: "nat \<Rightarrow> real \<Rightarrow> real \<Rightarrow> real" where
  "z_score n o' e =
     (let denominator = sqrt (e * (1 - e) / real n) in
      if 0 < denominator then max (\<bar>o' - e\<bar> - 1 / (2 * real n)) 0 / denominator else 0)"

definition z_scores :: "real list \<Rightarrow> nat \<Rightarrow> real list" where
  "z_scores obs n = (if n = 0 then map (\<lambda>_. 0) DIGITS else map2 (z_score n) obs BENFORD_EXPECTED)"

definition mean_absolute_deviation :: "real list \<Rightarrow> real" where
  "mean_absolute_deviation obs = sum_list (map2 (\<lambda>o' e. \<bar>o' - e\<bar>) obs BENFORD_EXPECTED) / 9"

record benford_stats =
  bs_chi_square :: real
  bs_mad :: real
  bs_z_scores :: "real list"
  bs_n :: nat

subsection \<open>The streaming counter\<close>

definition parse_benford_windows :: "string \<Rightarrow> int list \<Rightarrow> int list" where
  "parse_benford_windows raw dflt =
     (if raw = [] then dflt
      else
        let parts = filter (\<lambda>x. strip x \<noteq> []) (split_on (CHR '','') raw); ns = map (py_int \<circ> strip) parts in
        if None \<in> set ns then dflt else map the ns)"

datatype benford_error = Negative_maxlen | Empty_deque | Window_not_configured int

record slot =
  sl_window :: int
  sl_buf :: "nat list"
  sl_counts :: "int list"

text \<open>\<open>deque(maxlen=w)\<close> refuses a negative length; with length 0 the first update reads \<open>buf[0]\<close> of an empty deque.\<close>

definition new_counter :: "int list \<Rightarrow> benford_error + slot list" where
  "new_counter windows =
     (if \<exists>w \<in> set windows. w < 0 then Inl Negative_maxlen
      else Inr (map (\<lambda>w. \<lparr>sl_window = w, sl_buf = [], sl_counts = replicate 9 0\<rparr>) windows))"

definition bump :: "nat \<Rightarrow> int \<Rightarrow> int list \<Rightarrow> int list" where
  "bump d by counts = counts[d - 1 := counts ! (d - 1) + by]"

definition update_slot :: "nat \<Rightarrow> slot \<Rightarrow> slot" where
  "update_slot d s =
     (if int (length (sl_buf s)) = sl_window s
      then s\<lparr>sl_buf := tl (sl_buf s) @ [d], sl_counts := bump d 1 (bump (hd (sl_buf s)) (- 1) (sl_counts s))\<rparr>
      else s\<lparr>sl_buf := sl_buf s @ [d], sl_counts := bump d 1 (sl_counts s)\<rparr>)"

fun update_slots :: "nat \<Rightarrow> slot list \<Rightarrow> benford_error option \<times> slot list" where
  "update_slots d [] = (None, [])"
| "update_slots d (s # ss) =
     (if int (length (sl_buf s)) = sl_window s \<and> sl_buf s = [] then (Some Empty_deque, s # ss)
      else case update_slots d ss of (e, ss') \<Rightarrow> (e, update_slot d s # ss'))"

definition update_counter :: "amount \<Rightarrow> slot list \<Rightarrow> benford_error option \<times> slot list" where
  "update_counter a ss =
     (case a of None \<Rightarrow> (None, ss) | Some v \<Rightarrow> if v \<le> 0 then (None, ss) else update_slots (fast_digit v) ss)"

definition stats_of_counts :: "int list \<Rightarrow> benford_stats" where
  "stats_of_counts counts =
     (let n = nat (sum_list counts) in
      if n = 0 then \<lparr>bs_chi_square = 0, bs_mad = 0, bs_z_scores = replicate 9 0, bs_n = 0\<rparr>
      else
        let obs = map (\<lambda>c. real_of_int c / real n) counts in
        \<lparr>bs_chi_square = sum_list (map2 (\<lambda>o' e. if 0 < e then (o' * real n - e * real n)\<^sup>2 / (e * real n) else 0) obs BENFORD_EXPECTED),
         bs_mad = sum_list (map2 (\<lambda>o' e. \<bar>o' - e\<bar>) obs BENFORD_EXPECTED) / 9,
         bs_z_scores = map2 (z_score n) obs BENFORD_EXPECTED, bs_n = n\<rparr>)"

text \<open>\<open>list.index\<close> finds the first slot of the window.\<close>

definition window_stats :: "int \<Rightarrow> slot list \<Rightarrow> benford_error + benford_stats" where
  "window_stats w ss =
     (case find (\<lambda>s. sl_window s = w) ss of None \<Rightarrow> Inl (Window_not_configured w) | Some s \<Rightarrow> Inr (stats_of_counts (sl_counts s)))"

subsection \<open>The counter computes the statistics of the last amounts\<close>

definition last_n :: "nat \<Rightarrow> 'a list \<Rightarrow> 'a list" where
  "last_n w xs = drop (length xs - w) xs"

definition slot_ok :: "nat list \<Rightarrow> slot \<Rightarrow> bool" where
  "slot_ok ds s \<longleftrightarrow> 0 < sl_window s \<and> sl_buf s = last_n (nat (sl_window s)) ds \<and>
     sl_counts s = map (\<lambda>d. int (count_list (sl_buf s) d)) DIGITS"

lemma length_last_n: "length (last_n w xs) = min w (length xs)"
  by (simp add: last_n_def)

lemma last_n_snoc:
  assumes "0 < w"
  shows "last_n w (xs @ [x]) = (if length (last_n w xs) = w then tl (last_n w xs) else last_n w xs) @ [x]"
proof (cases "w \<le> length xs")
  case True
  then have "length (xs @ [x]) - w = Suc (length xs - w)" "length xs - w < length xs" using assms by simp_all
  then show ?thesis using True by (simp add: last_n_def drop_Suc tl_drop)
qed (use assms in \<open>simp add: last_n_def\<close>)

lemma nth_DIGITS: "i < 9 \<Longrightarrow> DIGITS ! i = Suc i" and length_DIGITS [simp]: "length DIGITS = 9"
  by (simp_all add: DIGITS_def)

lemma bump_map:
  assumes "d \<in> set DIGITS"
  shows "bump d by (map f DIGITS) = map (\<lambda>x. f x + (if x = d then by else 0)) DIGITS"
proof (rule nth_equalityI)
  have d: "1 \<le> d" "d < 10" using assms by (simp_all add: DIGITS_def)
  fix i
  assume "i < length (bump d by (map f DIGITS))"
  then have i: "i < 9" by (simp add: bump_def)
  have "(DIGITS ! i = d) = (i = d - 1)" using i d by (auto simp: nth_DIGITS)
  moreover have "DIGITS ! (d - 1) = d" using d by (simp add: nth_DIGITS)
  ultimately show "bump d by (map f DIGITS) ! i = map (\<lambda>x. f x + (if x = d then by else 0)) DIGITS ! i"
    using i d by (cases "i = d - 1") (simp_all add: bump_def nth_list_update)
qed (simp add: bump_def)

lemma update_slot_ok:
  assumes "slot_ok ds s" "d \<in> set DIGITS" "set ds \<subseteq> set DIGITS"
  shows "slot_ok (ds @ [d]) (update_slot d s)"
proof -
  let ?w = "nat (sl_window s)" and ?b = "sl_buf s"
  have s: "0 < ?w" "?b = last_n ?w ds" "sl_counts s = map (\<lambda>x. int (count_list ?b x)) DIGITS"
    using assms(1) by (simp_all add: slot_ok_def)
  have full: "(int (length ?b) = sl_window s) = (length ?b = ?w)" using s(1) by auto
  show ?thesis
  proof (cases "length ?b = ?w")
    case True
    then obtain b bs where b: "?b = b # bs" using s(1) by (cases ?b) auto
    then have "b \<in> set ds" unfolding s(2) last_n_def by (metis in_set_dropD list.set_intros(1))
    then have "b \<in> set DIGITS" using assms(3) by blast
    then have "bump d 1 (bump b (- 1) (sl_counts s)) = map (\<lambda>x. int (count_list (bs @ [d]) x)) DIGITS"
      unfolding s(3) using assms(2) by (simp add: bump_map b cong: map_cong)
    with True b s(1) full last_n_snoc [OF s(1), of ds d] show ?thesis by (simp add: slot_ok_def update_slot_def flip: s(2))
  next
    case False
    have "bump d 1 (sl_counts s) = map (\<lambda>x. int (count_list (?b @ [d]) x)) DIGITS"
      unfolding s(3) using assms(2) by (simp add: bump_map cong: map_cong)
    with False s(1) full last_n_snoc [OF s(1), of ds d] show ?thesis by (simp add: slot_ok_def update_slot_def flip: s(2))
  qed
qed

lemma update_slots_ok:
  assumes "list_all (slot_ok ds) ss" "d \<in> set DIGITS" "set ds \<subseteq> set DIGITS"
  shows "update_slots d ss = (None, map (update_slot d) ss)" "list_all (slot_ok (ds @ [d])) (map (update_slot d) ss)"
proof -
  have "\<not> (int (length (sl_buf s)) = sl_window s \<and> sl_buf s = [])" if "slot_ok ds s" for s
    using that by (auto simp: slot_ok_def)
  then show "update_slots d ss = (None, map (update_slot d) ss)" using assms(1) by (induction ss) auto
  show "list_all (slot_ok (ds @ [d])) (map (update_slot d) ss)"
    using assms(1) by (induction ss) (simp_all add: update_slot_ok assms(2,3))
qed

lemma update_slot_window [simp]: "sl_window (update_slot d s) = sl_window s"
  by (simp add: update_slot_def)

lemma valid_digits_simps [simp]:
  "valid_digits [] = []" "valid_digits (a # as) = (case first_digit a of None \<Rightarrow> valid_digits as | Some d \<Rightarrow> d # valid_digits as)"
  "valid_digits (as @ bs) = valid_digits as @ valid_digits bs"
  by (simp_all add: valid_digits_def map_filter_simps map_filter_def split: option.splits)

lemma valid_digits_range: "set (valid_digits as) \<subseteq> set DIGITS"
  by (induction as) (auto dest: first_digit_some split: option.splits)

fun feed_counter :: "amount list \<Rightarrow> slot list \<Rightarrow> benford_error option \<times> slot list" where
  "feed_counter [] ss = (None, ss)"
| "feed_counter (a # as) ss = (case update_counter a ss of (Some e, ss') \<Rightarrow> (Some e, ss') | (None, ss') \<Rightarrow> feed_counter as ss')"

lemma feed_counter_ok:
  assumes "list_all (slot_ok ds) ss" "set ds \<subseteq> set DIGITS"
  shows "\<exists>ss'. feed_counter as ss = (None, ss') \<and> list_all (slot_ok (ds @ valid_digits as)) ss' \<and> map sl_window ss' = map sl_window ss"
  using assms
proof (induction as arbitrary: ss ds)
  case (Cons a as)
  show ?case
  proof (cases "first_digit a")
    case None
    then have "update_counter a ss = (None, ss)" by (auto simp: update_counter_def first_digit_def split: option.splits if_splits)
    with Cons None show ?thesis by simp
  next
    case (Some d)
    then obtain v where v: "a = Some v" "0 < v" by (auto simp: first_digit_def split: option.splits if_splits)
    have d: "fast_digit v = d" "d \<in> set DIGITS"
      using Some v first_digit_mantissa [OF v(2)] first_digit_some [OF Some] by (simp_all add: fast_digit_mantissa)
    note u = update_slots_ok [OF Cons.prems(1) d(2) Cons.prems(2)]
    have "update_counter a ss = (None, map (update_slot d) ss)" using v d u(1) by (simp add: update_counter_def)
    moreover have "set (ds @ [d]) \<subseteq> set DIGITS" using Cons.prems(2) d(2) by simp
    ultimately show ?thesis using Cons.IH [OF u(2)] Some by (simp add: comp_def)
  qed
qed simp

lemma sum_counts: "set ds \<subseteq> set DIGITS \<Longrightarrow> sum_list (map (\<lambda>d. int (count_list ds d)) DIGITS) = int (length ds)"
proof -
  assume "set ds \<subseteq> set DIGITS"
  then have "(\<Sum>d \<in> set DIGITS. count_list ds d) = length ds" by (rule sum_count_set) simp
  moreover have "sum_list (map (\<lambda>d. int (count_list ds d)) DIGITS) = int (\<Sum>d \<in> set DIGITS. count_list ds d)"
    by (subst sum_list_distinct_conv_sum_set) (simp_all add: DIGITS_def)
  ultimately show ?thesis by simp
qed

text \<open>What the batch functions compute for a list of amounts.\<close>

definition batch_stats :: "amount list \<Rightarrow> benford_stats" where
  "batch_stats amounts =
     (let obs = digit_distribution amounts; n = length (valid_digits amounts) in
      \<lparr>bs_chi_square = chi_square_statistic obs n, bs_mad = (if n = 0 then 0 else mean_absolute_deviation obs),
       bs_z_scores = z_scores obs n, bs_n = n\<rparr>)"

lemma stats_of_counts_batch:
  assumes "set ds \<subseteq> set DIGITS" "valid_digits amounts = ds"
  shows "stats_of_counts (map (\<lambda>d. int (count_list ds d)) DIGITS) = batch_stats amounts"
proof (cases "ds = []")
  case True
  then show ?thesis
    using sum_counts [OF assms(1)] assms(2)
    by (simp add: stats_of_counts_def batch_stats_def chi_square_statistic_def z_scores_def Let_def map_replicate_const)
next
  case False
  then have "digit_distribution amounts = map (\<lambda>c. real_of_int c / real (length ds)) (map (\<lambda>d. int (count_list ds d)) DIGITS)"
    by (simp add: digit_distribution_def assms(2) Let_def comp_def)
  with False sum_counts [OF assms(1)] show ?thesis
    by (simp add: stats_of_counts_def batch_stats_def Let_def chi_square_statistic_def z_scores_def mean_absolute_deviation_def
        assms(2) zero_less_mult_iff)
qed

definition valid_amounts :: "amount list \<Rightarrow> amount list" where
  "valid_amounts amounts = filter (\<lambda>a. first_digit a \<noteq> None) amounts"

lemma valid_digits_amounts:
  "valid_digits (valid_amounts as) = valid_digits as" "map (the \<circ> first_digit) (valid_amounts as) = valid_digits as"
  by (induction as) (auto simp: valid_amounts_def split: option.splits)

lemma valid_digits_last: "valid_digits (last_n w (valid_amounts as)) = last_n w (valid_digits as)"
proof -
  have "valid_digits bs = map (the \<circ> first_digit) bs" if "\<forall>a \<in> set bs. first_digit a \<noteq> None" for bs
    using that by (induction bs) (auto split: option.splits)
  moreover have "\<forall>a \<in> set (last_n w (valid_amounts as)). first_digit a \<noteq> None"
    unfolding last_n_def valid_amounts_def by (auto dest!: in_set_dropD)
  ultimately have "valid_digits (last_n w (valid_amounts as)) = map (the \<circ> first_digit) (last_n w (valid_amounts as))" by blast
  also have "\<dots> = last_n w (valid_digits as)"
    unfolding valid_digits_amounts(2) [symmetric] last_n_def by (simp add: drop_map)
  finally show ?thesis .
qed

lemma find_slot:
  assumes "list_all (slot_ok ds) ss" "w \<in> sl_window ` set ss"
  shows "\<exists>s. find (\<lambda>s. sl_window s = w) ss = Some s \<and> slot_ok ds s \<and> sl_window s = w"
  using assms by (induction ss) auto



subsection \<open>Ranges of the statistics\<close>

lemma sum_expected: "sum_list BENFORD_EXPECTED = 1"
proof -
  have "sum_list (map (\<lambda>d. log 10 (1 + 1 / real d)) [1..<Suc n]) = log 10 (real (Suc n))" for n
  proof (induction n)
    case (Suc n)
    have "1 + 1 / real (Suc n) = real (Suc (Suc n)) / real (Suc n)" by (simp add: field_simps)
    then have "log 10 (1 + 1 / real (Suc n)) = log 10 (real (Suc (Suc n))) - log 10 (real (Suc n))" by (simp add: log_divide)
    with Suc show ?case by (simp only: upt_Suc_append [of 1 "Suc n"] map_append sum_list_append) simp
  qed simp
  from this [of 9] show ?thesis by (simp add: BENFORD_EXPECTED_def DIGITS_def)
qed

lemma expected_range: "e \<in> set BENFORD_EXPECTED \<Longrightarrow> 0 < e \<and> e < 1"
proof -
  assume "e \<in> set BENFORD_EXPECTED"
  then obtain d where d: "e = log 10 (1 + 1 / real d)" "1 \<le> d" by (auto simp: BENFORD_EXPECTED_def DIGITS_def)
  define x where "x = 1 + 1 / real d"
  have "1 < x" "x < 10" using d(2) by (simp_all add: x_def divide_less_eq)
  then show ?thesis unfolding d(1) x_def [symmetric] by simp
qed

lemma length_expected [simp]: "length BENFORD_EXPECTED = 9"
  by (simp add: BENFORD_EXPECTED_def)

lemma length_distribution [simp]: "length (digit_distribution as) = 9"
  by (simp add: digit_distribution_def Let_def)

lemma distribution_range:
  "x \<in> set (digit_distribution as) \<Longrightarrow> 0 \<le> x" "valid_digits as \<noteq> [] \<Longrightarrow> sum_list (digit_distribution as) = 1"
proof -
  show "x \<in> set (digit_distribution as) \<Longrightarrow> 0 \<le> x" by (auto simp: digit_distribution_def Let_def split: if_splits)
  assume ne: "valid_digits as \<noteq> []"
  have "sum_list (map (\<lambda>d. real (count_list (valid_digits as) d)) DIGITS) =
      real_of_int (sum_list (map (\<lambda>d. int (count_list (valid_digits as) d)) DIGITS))"
  proof -
    have "real_of_int (sum_list xs) = sum_list (map real_of_int xs)" for xs :: "int list" by (induction xs) simp_all
    then show ?thesis by (simp add: comp_def)
  qed
  then have "sum_list (map (\<lambda>d. real (count_list (valid_digits as) d)) DIGITS) = real (length (valid_digits as))"
    by (simp add: sum_counts [OF valid_digits_range])
  moreover have "sum_list (map (\<lambda>d. f d / n) ds) = sum_list (map f ds) / n" for f :: "nat \<Rightarrow> real" and n ds
    by (induction ds) (simp_all add: add_divide_distrib)
  ultimately have "sum_list (map (\<lambda>d. real (count_list (valid_digits as) d) / real (length (valid_digits as))) DIGITS) = 1"
    using ne by simp
  then show "sum_list (digit_distribution as) = 1" using ne by (simp add: digit_distribution_def Let_def)
qed

lemma sum_abs_diff_le:
  "length xs = length ys \<Longrightarrow> \<forall>x \<in> set xs. 0 \<le> x \<Longrightarrow> \<forall>y \<in> set ys. 0 \<le> y \<Longrightarrow>
   sum_list (map2 (\<lambda>x y. \<bar>x - y\<bar>) xs ys) \<le> sum_list xs + sum_list (ys :: real list)"
  by (induction xs ys rule: list_induct2) (auto simp: abs_le_iff)

text \<open>Whatever the amounts, the statistics stay in their ranges: the chi-square statistic and the scores are not
  negative, and the mean absolute deviation is at most 2/9.\<close>

theorem benford_statistics_bounded:
  "0 \<le> bs_chi_square (batch_stats as) \<and> 0 \<le> bs_mad (batch_stats as) \<and> bs_mad (batch_stats as) \<le> 2 / 9 \<and>
   list_all (\<lambda>z. 0 \<le> z) (bs_z_scores (batch_stats as)) \<and> length (bs_z_scores (batch_stats as)) = 9"
proof -
  let ?o = "digit_distribution as"
  have "0 \<le> chi_square_statistic ?o n" for n
    unfolding chi_square_statistic_def by (auto intro!: sum_list_nonneg)
  moreover have "0 \<le> mean_absolute_deviation ?o"
    unfolding mean_absolute_deviation_def by (auto intro!: sum_list_nonneg divide_nonneg_pos)
  moreover have "mean_absolute_deviation ?o \<le> 2 / 9" if "valid_digits as \<noteq> []"
  proof -
    have "sum_list (map2 (\<lambda>x y. \<bar>x - y\<bar>) ?o BENFORD_EXPECTED) \<le> sum_list ?o + sum_list BENFORD_EXPECTED"
      using distribution_range(1) [of _ as] expected_range by (intro sum_abs_diff_le) (auto intro: less_imp_le)
    then show ?thesis using distribution_range(2) [OF that] sum_expected by (simp add: mean_absolute_deviation_def)
  qed
  moreover have "list_all (\<lambda>z. 0 \<le> z) (z_scores ?o n) \<and> length (z_scores ?o n) = 9" for n
    by (auto simp: z_scores_def list_all_iff z_score_def Let_def)
  ultimately show ?thesis by (simp add: batch_stats_def Let_def)
qed

end
