(* ===== verification/Benford_Digits.thy ===== *)
theory Benford_Digits
  imports Benford
begin

text \<open>
  \<open>detection/benford_engine.py\<close>, the digits after the first, the p-values and \<open>compute_benford_metrics\<close>. The chi-square
  survival function comes from scipy (\<open>sf\<close>), the multinomial samples of the bootstrap from numpy (\<open>samples\<close>).
\<close>

definition significant_digit :: "amount \<Rightarrow> nat \<Rightarrow> nat option" where
  "significant_digit a position =
     (case a of None \<Rightarrow> None
      | Some v \<Rightarrow>
          if position < 1 \<or> v \<le> 0 then None
          else
            let magnitude = \<lfloor>log 10 v\<rfloor>; m = v / 10 powr real_of_int magnitude in
            Some (nat \<lfloor>m * 10 ^ position + 1 / 10 ^ 9\<rfloor> mod 10))"

definition digit_classes :: "nat \<Rightarrow> nat list" where
  "digit_classes position = (if position = 1 then [1..<10] else [0..<10])"

definition digit_distribution_at_position :: "amount list \<Rightarrow> nat \<Rightarrow> real list" where
  "digit_distribution_at_position amounts position =
     (let ds = List.map_filter (\<lambda>a. significant_digit a position) amounts in
      if ds = [] then map (\<lambda>_. 0) (digit_classes position)
      else map (\<lambda>d. real (count_list ds d) / real (length ds)) (digit_classes position))"

definition position_total :: "nat \<Rightarrow> nat \<Rightarrow> real" where
  "position_total position digit = sum_list (map (\<lambda>leading. log 10 (1 + 1 / real (leading * 10 ^ (position - 1) + digit))) [1..<10])"

definition benford_position_probabilities :: "nat \<Rightarrow> real list" where
  "benford_position_probabilities position =
     (let ps = map (position_total position) (digit_classes position) in map (\<lambda>p. p / sum_list ps) ps)"

definition position_mad :: "amount list \<Rightarrow> nat \<Rightarrow> real" where
  "position_mad amounts position =
     (let obs = digit_distribution_at_position amounts position; expected = benford_position_probabilities position in
      if \<forall>x \<in> set obs. x = 0 then 0
      else sum_list (map2 (\<lambda>x y. \<bar>x - y\<bar>) obs expected) / real (length expected))"

subsection \<open>p-values and the metrics\<close>

definition BENFORD_BOOTSTRAP_THRESHOLD :: nat where "BENFORD_BOOTSTRAP_THRESHOLD = 100"

datatype pvalue_method = Bootstrap | Asymptotic

definition chi_sq_from_counts :: "real list \<Rightarrow> real list \<Rightarrow> real" where
  "chi_sq_from_counts obs expected = sum_list (map2 (\<lambda>x e. (x - e)\<^sup>2 / (e + 1 / 10 ^ 9)) obs expected)"

definition expected_counts :: "nat \<Rightarrow> real list" where
  "expected_counts n = map (\<lambda>p. p / sum_list BENFORD_EXPECTED * real n) BENFORD_EXPECTED"

definition bootstrap_chi_square_pvalue :: "real list list \<Rightarrow> real list \<Rightarrow> real" where
  "bootstrap_chi_square_pvalue samples counts =
     (let n = nat \<lfloor>sum_list counts\<rfloor> in
      if n = 0 then 1
      else
        let expected = expected_counts n; stat = chi_sq_from_counts counts expected;
            hits = filter (\<lambda>s. stat \<le> chi_sq_from_counts s expected) samples in
        max (real (length hits) / real (length samples)) (1 / real (length samples)))"

definition compute_chi_square_pvalue :: "(real \<Rightarrow> real) \<Rightarrow> real list list \<Rightarrow> real list \<Rightarrow> nat \<Rightarrow> real \<times> pvalue_method" where
  "compute_chi_square_pvalue sf samples counts n =
     (if n < BENFORD_BOOTSTRAP_THRESHOLD
      then (bootstrap_chi_square_pvalue samples (map (\<lambda>c. real_of_int \<lfloor>c\<rfloor>) counts), Bootstrap)
      else (sf (chi_sq_from_counts counts (expected_counts n)), Asymptotic))"

record benford_metrics =
  bm_chi_square :: real
  bm_pvalue :: real
  bm_method :: pvalue_method
  bm_mad :: real
  bm_z_scores :: "real list"
  bm_observed :: "real list"
  bm_sample_size :: nat
  bm_second_mad :: real
  bm_third_mad :: real
  bm_higher_mad :: real

definition compute_benford_metrics :: "(real \<Rightarrow> real) \<Rightarrow> real list list \<Rightarrow> amount list \<Rightarrow> benford_metrics" where
  "compute_benford_metrics sf samples amounts =
     (let obs = digit_distribution amounts; n = length (valid_digits amounts) in
      if n = 0
      then \<lparr>bm_chi_square = 0, bm_pvalue = 1, bm_method = Bootstrap, bm_mad = 0, bm_z_scores = map (\<lambda>_. 0) DIGITS, bm_observed = obs,
        bm_sample_size = 0, bm_second_mad = 0, bm_third_mad = 0, bm_higher_mad = 0\<rparr>
      else
        let (p, method) = compute_chi_square_pvalue sf samples (map (\<lambda>x. x * real n) obs) n;
            second = position_mad amounts 2; third = position_mad amounts 3 in
        \<lparr>bm_chi_square = chi_square_statistic obs n, bm_pvalue = p, bm_method = method, bm_mad = mean_absolute_deviation obs,
         bm_z_scores = z_scores obs n, bm_observed = obs, bm_sample_size = n, bm_second_mad = second, bm_third_mad = third,
         bm_higher_mad = max second third\<rparr>)"

definition is_anomalous :: "benford_metrics \<Rightarrow> real \<Rightarrow> bool" where
  "is_anomalous m threshold \<longleftrightarrow> threshold < bm_mad m \<or> threshold < bm_second_mad m \<or> threshold < bm_third_mad m"

lemma bootstrap_pvalue_range:
  assumes "samples \<noteq> []"
  shows "1 / real (length samples) \<le> bootstrap_chi_square_pvalue samples counts \<and> bootstrap_chi_square_pvalue samples counts \<le> 1"
proof -
  have "length (filter P samples) \<le> length samples" for P :: "real list \<Rightarrow> bool" by (rule length_filter_le)
  moreover have "0 < length samples" using assms by simp
  ultimately have "real (length (filter P samples)) / real (length samples) \<le> 1" "1 / real (length samples) \<le> 1" for P
    by (simp_all add: divide_le_eq Suc_le_eq)
  then show ?thesis unfolding bootstrap_chi_square_pvalue_def Let_def by (simp del: max.bounded_iff add: max_def)
qed

subsection \<open>Which digit \<open>significant_digit\<close> returns\<close>

lemma magnitude_of:
  assumes "1 \<le> d" "d \<le> 9" "e \<le> 9" "f \<le> 9"
  shows "\<lfloor>log 10 (real (100 * d + 10 * e + f) * 10 ^ k)\<rfloor> = int (k + 2)"
proof -
  let ?v = "real (100 * d + 10 * e + f) * 10 ^ k"
  have b: "100 \<le> real (100 * d + 10 * e + f)" "real (100 * d + 10 * e + f) < 1000" using assms by simp_all
  have "(10 :: real) ^ (k + 2) \<le> ?v" using b(1) by (simp add: power_add)
  moreover have "?v < 10 ^ (k + 3)" using b(2) by (simp add: power_add)
  moreover have pos: "0 < ?v" using b(1) by simp
  ultimately have b': "log 10 (10 ^ (k + 2)) \<le> log 10 ?v" "log 10 ?v < log 10 (10 ^ (k + 3))"
    using log_le_cancel_iff [of 10 "10 ^ (k + 2)" ?v] log_less_cancel_iff [of 10 ?v "10 ^ (k + 3)"] by simp_all
  have power: "log 10 (10 ^ n) = real n" for n :: nat by (simp add: log_nat_power)
  have "real_of_int (int (k + 2)) \<le> log 10 ?v" using b'(1) [unfolded power] by (simp only: of_int_of_nat_eq)
  moreover have "log 10 ?v < real_of_int (int (k + 2)) + 1" using b'(2) [unfolded power] by linarith
  ultimately show ?thesis by (rule floor_unique)
qed

text \<open>C31: The position is off by one. For every amount whose significant digits start with \<open>d e f\<close>, position 1 gives \<open>e\<close> and
  position 2 gives \<open>f\<close> (while \<open>first_digit\<close> gives \<open>d\<close>): the "second digit" deviation of \<open>compute_benford_metrics\<close> compares
  the distribution of the third digits with Benford's law for the second.\<close>

theorem significant_digit_off_by_one:
  assumes "1 \<le> d" "d \<le> 9" "e \<le> 9" "f \<le> 9" "v = Some (real (100 * d + 10 * e + f) * 10 ^ k)"
  shows "significant_digit v 1 = Some e \<and> significant_digit v 2 = Some f \<and> first_digit v = Some d"
proof -
  let ?m = "real (100 * d + 10 * e + f)"
  have pos: "0 < ?m * 10 ^ k" using assms(1) by simp
  have pow: "10 powr real_of_int (int (k + 2)) = (10 :: real) ^ (k + 2)"
    unfolding of_int_of_nat_eq by (rule powr_realpow) simp
  have m: "?m * 10 ^ k / 10 powr real_of_int \<lfloor>log 10 (?m * 10 ^ k)\<rfloor> = ?m / 100"
    unfolding magnitude_of [OF assms(1-4)] pow by (simp add: power_add)
  have digit: "significant_digit v p = Some (nat \<lfloor>?m / 100 * 10 ^ p + 1 / 10 ^ 9\<rfloor> mod 10)" if "1 \<le> p" for p
    using that pos unfolding assms(5) significant_digit_def option.case Let_def m by simp
  have "\<lfloor>?m / 100 * 10 ^ 1 + 1 / 10 ^ 9\<rfloor> = int (10 * d + e)" using assms(4) by (simp add: floor_eq_iff field_simps)
  then have one: "significant_digit v 1 = Some e" unfolding digit [OF order_refl] using assms(3) by (simp only: nat_int) simp
  have whole: "\<lfloor>real n + 1 / 10 ^ 9\<rfloor> = int n" for n by (simp add: floor_eq_iff)
  have "?m / 100 * 10 ^ 2 = ?m" by (simp add: field_simps)
  then have "\<lfloor>?m / 100 * 10 ^ 2 + 1 / 10 ^ 9\<rfloor> = int (100 * d + 10 * e + f)"     using whole by (simp only:)
  moreover have "(100 * d + 10 * e + f) mod 10 = f"
    using assms(4) mod_mult_self2 [of f 10 "10 * d + e"] by (simp add: algebra_simps)
  ultimately have two: "significant_digit v 2 = Some f" unfolding digit [OF one_le_numeral] by (simp only: nat_int)
  have "mantissa (?m * 10 ^ k) = ?m / 100"
    using pos m by (simp add: mantissa_def frac_def powr_diff)
  moreover have "\<lfloor>?m / 100\<rfloor> = int d" using assms(3,4) by (simp add: floor_eq_iff field_simps)
  ultimately have "first_digit v = Some d" unfolding assms(5) first_digit_mantissa [OF pos] by (simp only: nat_int)
  with one two show ?thesis by blast
qed

theorem significant_digit_off_by_one_witness:
  "significant_digit (Some (real (100 * 1 + 10 * 2 + 3) * 10 ^ 0)) 1 = Some 2"
  using significant_digit_off_by_one [of 1 2 3 _ 0, OF _ _ _ _ refl] by simp

end
