(* ===== verification/Benford_Strata.thy ===== *)
theory Benford_Strata
  imports Benford "HOL-Library.AList"
begin

text \<open>
  \<open>detection/benford_engine.py\<close>, the analysis per asset pair and the adaptive window. A trade is the two assets
  (\<open>Asset\<close> of \<open>ingestion/data_models.py\<close>) and the base amount. Widths and times are whole numbers of one unit.
\<close>

record asset =
  as_code :: string
  as_issuer :: "string option"

record pair_trade =
  pt_base :: asset
  pt_counter :: asset
  pt_amount :: real

definition pair_symbol :: "asset \<Rightarrow> string" where
  "pair_symbol a = (case as_issuer a of None \<Rightarrow> as_code a | Some i \<Rightarrow> as_code a @ '':'' @ i)"

definition canonical_asset_pair :: "string \<Rightarrow> string \<Rightarrow> string" where
  "canonical_asset_pair b c = (if c < b then c @ ''/'' @ b else b @ ''/'' @ c)"

definition upper_char :: "char \<Rightarrow> char" where
  "upper_char c = (if 97 \<le> (of_char c :: nat) \<and> (of_char c :: nat) \<le> 122 then char_of (of_char c - 32 :: nat) else c)"

definition pair_char :: "char \<Rightarrow> bool" where
  "pair_char c \<longleftrightarrow> 65 \<le> (of_char c :: nat) \<and> (of_char c :: nat) \<le> 90 \<or> is_digit c \<or> c \<in> set ''/.:-''"

text \<open>The \<open>$\<close> of the pattern also matches before a final newline.\<close>

definition sanitize_asset_pair :: "string \<Rightarrow> string option" where
  "sanitize_asset_pair pair =
     (if pair = [] \<or> 30 < length pair then None
      else
        let u = map upper_char pair; body = (if last u = CHR 0x0A then butlast u else u) in
        if body \<noteq> [] \<and> list_all pair_char body then Some pair else None)"

definition group_step :: "pair_trade \<Rightarrow> (string \<times> amount list) list \<Rightarrow> (string \<times> amount list) list" where
  "group_step t g =
     (let pair = canonical_asset_pair (pair_symbol (pt_base t)) (pair_symbol (pt_counter t)) in
      if sanitize_asset_pair pair = None then g
      else AList.update pair ((case map_of g pair of None \<Rightarrow> [] | Some xs \<Rightarrow> xs) @ [Some (pt_amount t)]) g)"

definition group_trades_list :: "pair_trade list \<Rightarrow> (string \<times> amount list) list" where
  "group_trades_list trades = fold group_step trades []"

text \<open>A row of a data frame holds its assets as dictionaries (their \<open>code\<close> only is used) or as objects.\<close>

datatype frame_asset = Missing | Dict "string option" | Object string

record frame_row =
  fr_base :: frame_asset
  fr_counter :: frame_asset
  fr_amount :: real

definition frame_symbol :: "frame_asset \<Rightarrow> string" where
  "frame_symbol a = (case a of Missing \<Rightarrow> [] | Dict code \<Rightarrow> (case code of None \<Rightarrow> [] | Some c \<Rightarrow> c) | Object s \<Rightarrow> s)"

definition group_frame_step :: "frame_row \<Rightarrow> (string \<times> amount list) list \<Rightarrow> (string \<times> amount list) list" where
  "group_frame_step r g =
     (let pair = canonical_asset_pair (frame_symbol (fr_base r)) (frame_symbol (fr_counter r)) in
      if fr_base r = Missing \<or> fr_counter r = Missing then g
      else if sanitize_asset_pair pair = None then g
      else AList.update pair ((case map_of g pair of None \<Rightarrow> [] | Some xs \<Rightarrow> xs) @ [Some (fr_amount r)]) g)"

definition group_trades_df :: "frame_row list \<Rightarrow> (string \<times> amount list) list" where
  "group_trades_df rows = fold group_frame_step rows []"

datatype strata_input = Trades "pair_trade list" | Frame "frame_row list"

definition MIN_STRATUM_SIZE :: nat where "MIN_STRATUM_SIZE = 30"
definition CHI2_CRITICAL_005 :: real where "CHI2_CRITICAL_005 = 15507 / 1000"

definition extract_digit_histogram :: "amount list \<Rightarrow> int list \<times> nat" where
  "extract_digit_histogram amounts =
     (fold (\<lambda>d cs. bump d 1 cs) (valid_digits amounts) (replicate 9 0), length (valid_digits amounts))"

record benford_result =
  br_pair :: string
  br_chi_square :: real
  br_mad :: real
  br_z_scores :: "real list"
  br_flagged :: "nat list"
  br_flag :: bool
  br_sample_size :: nat
  br_valid :: bool

definition compute_stratum_benford :: "string \<Rightarrow> amount list \<Rightarrow> benford_result" where
  "compute_stratum_benford pair amounts =
     (case extract_digit_histogram amounts of (counts, n) \<Rightarrow>
        if n < MIN_STRATUM_SIZE
        then \<lparr>br_pair = pair, br_chi_square = 0, br_mad = 0, br_z_scores = [], br_flagged = [], br_flag = False,
          br_sample_size = n, br_valid = False\<rparr>
        else
          let obs = map (\<lambda>c. real_of_int c / real n) counts; chi = chi_square_statistic obs n; zs = z_scores obs n in
          \<lparr>br_pair = pair, br_chi_square = chi, br_mad = mean_absolute_deviation obs, br_z_scores = zs,
           br_flagged = filter (\<lambda>d. 196 / 100 < \<bar>zs ! (d - 1)\<bar>) DIGITS, br_flag = (CHI2_CRITICAL_005 < chi),
           br_sample_size = n, br_valid = True\<rparr>)"

record stratified_summary =
  ss_results :: "(string \<times> benford_result) list"
  ss_max_chi2 :: real
  ss_max_mad :: real
  ss_mean_mad :: real
  ss_above :: nat
  ss_flagged :: nat
  ss_fallback :: bool

definition list_max :: "real list \<Rightarrow> real" where
  "list_max xs = foldr max (tl xs) (hd xs)"

definition summary_of :: "(string \<times> benford_result) list \<Rightarrow> benford_result list \<Rightarrow> bool \<Rightarrow> stratified_summary" where
  "summary_of results valid fallback =
     (let mads = map br_mad valid in
      \<lparr>ss_results = results, ss_max_chi2 = list_max (map br_chi_square valid), ss_max_mad = list_max mads,
       ss_mean_mad = sum_list mads / real (length mads), ss_above = length (filter (\<lambda>m. 15 / 1000 < m) mads),
       ss_flagged = length (filter br_flag valid), ss_fallback = fallback\<rparr>)"

definition empty_summary :: "(string \<times> benford_result) list \<Rightarrow> stratified_summary" where
  "empty_summary results = \<lparr>ss_results = results, ss_max_chi2 = 0, ss_max_mad = 0, ss_mean_mad = 0, ss_above = 0, ss_flagged = 0, ss_fallback = True\<rparr>"

text \<open>The parameter \<open>min_stratum_size\<close> is accepted and never used.\<close>

definition stratified_benford_analysis :: "strata_input \<Rightarrow> nat \<Rightarrow> stratified_summary" where
  "stratified_benford_analysis input min_stratum_size =
     (let grouped = (case input of Trades ts \<Rightarrow> group_trades_list ts | Frame rows \<Rightarrow> group_trades_df rows) in
      if grouped = [] then empty_summary []
      else
        let results = map (\<lambda>(pair, amounts). (pair, compute_stratum_benford pair amounts)) grouped;
            valid = filter br_valid (map snd results) in
        if valid = [] then
          let glob = compute_stratum_benford ''__global__'' (concat (map snd grouped));
              results = AList.update ''__global__'' glob results in
          if br_valid glob then summary_of results [glob] True else empty_summary results
        else summary_of results valid False)"

subsection \<open>Properties of the stratification\<close>

definition swap_sides :: "pair_trade \<Rightarrow> pair_trade" where
  "swap_sides t = t\<lparr>pt_base := pt_counter t, pt_counter := pt_base t\<rparr>"

lemma canonical_comm: "canonical_asset_pair b c = canonical_asset_pair c b"
  by (auto simp: canonical_asset_pair_def)

lemma group_step_swap: "group_step (swap_sides t) = group_step t"
  by (rule ext) (simp add: group_step_def swap_sides_def Let_def canonical_comm)

text \<open>The analysis does not depend on which side of a trade is called the base: turning around any of the trades
  leaves every stratum, every statistic and the summary unchanged, and so does the minimum stratum size asked for (the
  parameter is ignored; 30 is always used).\<close>

theorem stratification_direction_blind:
  assumes "list_all2 (\<lambda>t u. u = t \<or> u = swap_sides t) trades trades'"
  shows "stratified_benford_analysis (Trades trades') m' = stratified_benford_analysis (Trades trades) m"
proof -
  have "fold group_step trades' g = fold group_step trades g" for g
    using assms by (induction arbitrary: g rule: list_all2_induct) (auto simp: group_step_swap)
  then show ?thesis by (simp add: stratified_benford_analysis_def group_trades_list_def)
qed

lemma long_pair: "30 < length p \<Longrightarrow> sanitize_asset_pair p = None"
  by (simp add: sanitize_asset_pair_def)

text \<open>Given \<open>Trade\<close> objects the analysis is empty. An issuer of a credit asset is a Stellar account id of 56 characters; every
  pair with such an asset is longer than the 30 characters the sanitiser admits, so a list of trades that all involve an
  issued asset yields no stratum, no statistic and no flag, whatever the amounts.\<close>

theorem issued_pairs_never_analysed:
  assumes "\<And>t. t \<in> set trades \<Longrightarrow>
    \<exists>i. length i = 56 \<and> (as_issuer (pt_base t) = Some i \<or> as_issuer (pt_counter t) = Some i)"
  shows "stratified_benford_analysis (Trades trades) m = empty_summary []"
proof -
  have "group_step t g = g" if t: "t \<in> set trades" for t g
  proof -
    have len: "length (canonical_asset_pair a b) = length a + length b + 1" for a b by (simp add: canonical_asset_pair_def)
    have "56 \<le> length (pair_symbol (pt_base t)) + length (pair_symbol (pt_counter t))"
      using assms [OF t] by (auto simp: pair_symbol_def)
    then have "sanitize_asset_pair (canonical_asset_pair (pair_symbol (pt_base t)) (pair_symbol (pt_counter t))) = None"
      by (intro long_pair) (simp add: len)
    then show ?thesis by (simp add: group_step_def)
  qed
  then have "fold group_step trades g = g" for g by (induction trades arbitrary: g) auto
  then show ?thesis by (simp add: stratified_benford_analysis_def group_trades_list_def)
qed

definition usdc_trade :: "real \<Rightarrow> pair_trade" where
  "usdc_trade a = \<lparr>pt_base = \<lparr>as_code = ''XLM'', as_issuer = None\<rparr>,
     pt_counter = \<lparr>as_code = ''USDC'', as_issuer = Some (CHR ''G'' # replicate 55 (CHR ''A''))\<rparr>, pt_amount = a\<rparr>"

theorem issued_pairs_never_analysed_witness:
  "ss_results (stratified_benford_analysis (Trades (replicate 1000 (usdc_trade 9))) 5) = []"
proof -
  have "stratified_benford_analysis (Trades (replicate 1000 (usdc_trade 9))) 5 = empty_summary []"
    by (rule issued_pairs_never_analysed) (simp add: usdc_trade_def)
  then show ?thesis by (simp add: empty_summary_def)
qed

theorem stratification_direction_blind_witness:
  "stratified_benford_analysis (Trades [swap_sides (usdc_trade 9)]) 5 = stratified_benford_analysis (Trades [usdc_trade 9]) 30"
  by (rule stratification_direction_blind) simp

text \<open>In a data frame, on the other hand, the issuer is not looked at: assets that share a code share a stratum.\<close>

lemma frame_conflates_issuers:
  "group_trades_df [\<lparr>fr_base = Dict (Some ''XLM''), fr_counter = Dict (Some ''USD''), fr_amount = 1\<rparr>,
     \<lparr>fr_base = Dict (Some ''USD''), fr_counter = Dict (Some ''XLM''), fr_amount = 2\<rparr>] = [(''USD/XLM'', [Some 1, Some 2])]"
proof -
  have "canonical_asset_pair ''XLM'' ''USD'' = ''USD/XLM''" "canonical_asset_pair ''USD'' ''XLM'' = ''USD/XLM''"
    "sanitize_asset_pair ''USD/XLM'' = Some ''USD/XLM''" by code_simp+
  then show ?thesis by (simp add: group_trades_df_def group_frame_step_def frame_symbol_def)
qed

subsection \<open>The adaptive window\<close>

record adaptive_window =
  aw_min_count :: int
  aw_max_width :: int

record window_result =
  wr_trades :: "amount list"
  wr_width :: int
  wr_valid :: bool
  wr_expanded :: bool
  wr_merged :: bool
  wr_label :: string

type_synonym timed_amounts = "(time \<times> amount) list"

definition count_valid :: "amount list \<Rightarrow> int" where
  "count_valid amounts = int (length (valid_digits amounts))"

definition slice_amounts :: "timed_amounts \<Rightarrow> time \<Rightarrow> int \<Rightarrow> amount list" where
  "slice_amounts trades as_of width = map snd (filter (\<lambda>(t, _). as_of - width < t \<and> t \<le> as_of) trades)"

definition merged_result :: "adaptive_window \<Rightarrow> timed_amounts \<Rightarrow> string \<Rightarrow> window_result" where
  "merged_result aw trades label =
     \<lparr>wr_trades = map snd trades, wr_width = aw_max_width aw, wr_valid = (aw_min_count aw \<le> count_valid (map snd trades)),
      wr_expanded = True, wr_merged = True, wr_label = label\<rparr>"

partial_function (option) fit_loop ::
    "adaptive_window \<Rightarrow> timed_amounts \<Rightarrow> time \<Rightarrow> string \<Rightarrow> int \<Rightarrow> int \<Rightarrow> window_result option" where
  "fit_loop aw trades as_of label target width =
     (if aw_min_count aw \<le> count_valid (slice_amounts trades as_of width)
      then Some \<lparr>wr_trades = slice_amounts trades as_of width, wr_width = width, wr_valid = True, wr_expanded = (target < width),
        wr_merged = False, wr_label = label\<rparr>
      else if aw_max_width aw \<le> width then Some (merged_result aw trades label)
      else fit_loop aw trades as_of label target (min (width * 2) (aw_max_width aw)))"

text \<open>\<open>window_map[label]\<close> raises \<open>KeyError\<close>: \<open>Inl\<close> the label. \<open>None\<close> is a call that does not return.\<close>

definition fit :: "adaptive_window \<Rightarrow> timed_amounts \<Rightarrow> string \<Rightarrow> time \<Rightarrow> (string \<rightharpoonup> int) \<Rightarrow> (string + window_result) option" where
  "fit aw trades label as_of window_map =
     (case window_map label of None \<Rightarrow> Some (Inl label)
      | Some target \<Rightarrow> map_option Inr (fit_loop aw trades as_of label target target))"

lemma slice_nonpositive: "width \<le> 0 \<Longrightarrow> slice_amounts trades as_of width = []"
  by (auto simp: slice_amounts_def filter_empty_conv)

lemma fit_loop_returns:
  assumes "fit_loop aw trades as_of label target width = Some r"
  shows "\<not> (width \<le> 0 \<and> width < aw_max_width aw \<and> 0 < aw_min_count aw)"
proof (rule fit_loop.raw_induct [where P = "\<lambda>aw trades as_of label target width r. \<not> (width \<le> 0 \<and> width < aw_max_width aw \<and> 0 < aw_min_count aw)",
      OF _ assms])
  fix loop aw trades as_of label target width r
  assume IH: "\<And>aw trades as_of label target width r. loop aw trades as_of label target width = Some r \<Longrightarrow>
      \<not> (width \<le> 0 \<and> width < aw_max_width aw \<and> 0 < aw_min_count aw)"
    and eq: "(if aw_min_count aw \<le> count_valid (slice_amounts trades as_of width)
      then Some \<lparr>wr_trades = slice_amounts trades as_of width, wr_width = width, wr_valid = True, wr_expanded = (target < width),
        wr_merged = False, wr_label = label\<rparr>
      else if aw_max_width aw \<le> width then Some (merged_result aw trades label)
      else loop aw trades as_of label target (min (width * 2) (aw_max_width aw))) = Some r"
  show "\<not> (width \<le> 0 \<and> width < aw_max_width aw \<and> 0 < aw_min_count aw)"
  proof
    assume w: "width \<le> 0 \<and> width < aw_max_width aw \<and> 0 < aw_min_count aw"
    then have "min (width * 2) (aw_max_width aw) = width * 2" by simp
    with eq w have "loop aw trades as_of label target (width * 2) = Some r"
      by (auto simp: slice_nonpositive count_valid_def split: if_splits)
    from IH [OF this] w show False by auto
  qed
qed

text \<open>With a positive width the doubling reaches the maximum.\<close>

lemma fit_loop_total:
  assumes "0 < width"
  shows "\<exists>r. fit_loop aw trades as_of label target width = Some r"
  using assms
proof (induction "nat (aw_max_width aw - width)" arbitrary: width rule: less_induct)
  case less
  show ?case
  proof (cases "aw_min_count aw \<le> count_valid (slice_amounts trades as_of width) \<or> aw_max_width aw \<le> width")
    case True
    then show ?thesis by (auto simp: fit_loop.simps [of _ _ _ _ _ width])
  next
    case False
    let ?w = "min (width * 2) (aw_max_width aw)"
    have "nat (aw_max_width aw - ?w) < nat (aw_max_width aw - width)" "0 < ?w" using False less.prems by (auto simp: min_def)
    from less.hyps [OF this] show ?thesis using False by (simp add: fit_loop.simps [of _ _ _ _ _ width])
  qed
qed


lemma fit_loop_spec:
  assumes "fit_loop aw trades as_of label target width = Some r"
  shows "(wr_merged r \<longrightarrow> r = merged_result aw trades label) \<and>
    (\<not> wr_merged r \<longrightarrow> wr_valid r \<and> wr_trades r = slice_amounts trades as_of (wr_width r) \<and> wr_expanded r = (target < wr_width r)) \<and>
    (wr_valid r \<longleftrightarrow> aw_min_count aw \<le> count_valid (wr_trades r))"
  by (rule fit_loop.raw_induct [where P = "\<lambda>aw trades as_of label target width r.
        (wr_merged r \<longrightarrow> r = merged_result aw trades label) \<and>
        (\<not> wr_merged r \<longrightarrow> wr_valid r \<and> wr_trades r = slice_amounts trades as_of (wr_width r) \<and> wr_expanded r = (target < wr_width r)) \<and>
        (wr_valid r \<longleftrightarrow> aw_min_count aw \<le> count_valid (wr_trades r))", OF _ assms])
    (auto simp: merged_result_def split: if_splits)

text \<open>What the fit returns. The result is marked valid exactly when its amounts contain the demanded number of valid
  ones; unmerged, its amounts are those that closed in the effective width up to \<open>as_of\<close>, and it is marked expanded exactly
  when that is wider than the target; merged, its amounts are all trades of the frame, those after \<open>as_of\<close> included.\<close>

theorem adaptive_fit_result:
  assumes "fit aw trades label as_of window_map = Some (Inr r)" "window_map label = Some target"
  shows "(wr_valid r \<longleftrightarrow> aw_min_count aw \<le> count_valid (wr_trades r)) \<and>
    (if wr_merged r then wr_trades r = map snd trades
     else wr_valid r \<and> wr_trades r = slice_amounts trades as_of (wr_width r) \<and> wr_expanded r = (target < wr_width r))"
  using assms fit_loop_spec [of aw trades as_of label target target r] by (auto simp: fit_def merged_result_def)

theorem adaptive_fit_result_witness:
  "\<exists>r. fit \<lparr>aw_min_count = 2, aw_max_width = 10\<rparr> [(5, Some 7), (99, Some 8)] ''1h'' 10 [''1h'' \<mapsto> 3] = Some (Inr r) \<and>
    wr_merged r \<and> wr_valid r \<and> wr_trades r = [Some 7, Some 8]"
proof -
  let ?aw = "\<lparr>aw_min_count = 2, aw_max_width = 10\<rparr>" and ?ts = "[(5, Some 7), (99, Some 8)] :: timed_amounts"
  have "fit_loop ?aw ?ts 10 ''1h'' 3 3 = Some (merged_result ?aw ?ts ''1h'')"
    by (simp add: fit_loop.simps count_valid_def slice_amounts_def first_digit_def)
  then have f: "fit ?aw ?ts ''1h'' 10 [''1h'' \<mapsto> 3] = Some (Inr (merged_result ?aw ?ts ''1h''))" by (simp add: fit_def)
  have "wr_merged (merged_result ?aw ?ts ''1h'')" "wr_valid (merged_result ?aw ?ts ''1h'')"
    by (simp_all add: merged_result_def count_valid_def first_digit_def)
  with adaptive_fit_result [OF f] f show ?thesis by auto
qed

end
