(* ===== verification/Benford_Cdf.thy ===== *)
theory Benford_Cdf
  imports Benford_Strata
begin

text \<open>
  \<open>detection/benford_engine.py\<close>, the tests on the cumulative distribution: Kolmogorov-Smirnov and Kuiper. \<open>None\<close> is the
  result with \<open>valid=False\<close> and NaN statistics.
\<close>

record cdf_test =
  ct_statistic :: real
  ct_p_value :: real
  ct_flag :: bool

definition cumsum :: "real list \<Rightarrow> real list" where
  "cumsum xs = map (\<lambda>i. sum_list (take (Suc i) xs)) [0..<length xs]"

definition BENFORD_CDF :: "real list" where "BENFORD_CDF = cumsum BENFORD_EXPECTED"
definition KS_MIN_N :: real where "KS_MIN_N = 5"

definition clip_probability :: "real \<Rightarrow> real" where
  "clip_probability p = max 0 (min 1 p)"

definition ks_pvalue :: "real \<Rightarrow> real" where
  "ks_pvalue lam =
     (if lam \<le> 0 then 1
      else clip_probability (2 * sum_list (map (\<lambda>j. (- 1) ^ (j - 1) * exp (- 2 * real j * real j * lam * lam)) [1..<101])))"

text \<open>The series stops at the first exponent below -300.\<close>

definition kuiper_pvalue :: "real \<Rightarrow> int \<Rightarrow> real" where
  "kuiper_pvalue V N =
     (if V \<le> 0 \<or> N < 1 then 1
      else
        let sqrt_n = sqrt (real_of_int N); v = V * (sqrt_n + 155 / 1000 + 24 / 100 / sqrt_n) in
        if v \<le> 0 then 1
        else
          let js = takeWhile (\<lambda>j. \<not> - 2 * (real j * real j * v * v) < - 300) [1..<101] in
          clip_probability (2 * sum_list (map (\<lambda>j. (4 * (real j * real j * v * v) - 1) * exp (- 2 * (real j * real j * v * v))) js)))"

definition counts_ok :: "real list \<Rightarrow> bool" where
  "counts_ok counts \<longleftrightarrow> length counts = 9 \<and> \<not> (\<exists>c \<in> set counts. c < 0) \<and> \<not> sum_list counts < KS_MIN_N"

definition cdf_differences :: "real list \<Rightarrow> real list" where
  "cdf_differences counts = map2 (-) (map (\<lambda>x. x / sum_list counts) (cumsum counts)) BENFORD_CDF"

definition compute_ks_statistic :: "real list \<Rightarrow> cdf_test option" where
  "compute_ks_statistic counts =
     (if \<not> counts_ok counts then None
      else
        let n = sum_list counts; d = list_max (map abs (cdf_differences counts)) in
        Some \<lparr>ct_statistic = d, ct_p_value = ks_pvalue ((sqrt n + 12 / 100 + 11 / 100 / sqrt n) * d), ct_flag = (1358 / 1000 / sqrt n < d)\<rparr>)"

definition compute_kuiper_statistic :: "real list \<Rightarrow> cdf_test option" where
  "compute_kuiper_statistic counts =
     (if \<not> counts_ok counts then None
      else
        let v = list_max (cdf_differences counts) + list_max (map uminus (cdf_differences counts));
            p = kuiper_pvalue v \<lfloor>sum_list counts\<rfloor> in
        Some \<lparr>ct_statistic = v, ct_p_value = p, ct_flag = (p < 5 / 100)\<rparr>)"

definition compute_benford_ks_kuiper :: "amount list \<Rightarrow> cdf_test option \<times> cdf_test option" where
  "compute_benford_ks_kuiper amounts =
     (let counts = map real_of_int (fst (extract_digit_histogram amounts)) in (compute_ks_statistic counts, compute_kuiper_statistic counts))"

subsection \<open>The two statistics bound each other\<close>

lemma list_max_Max: "xs \<noteq> [] \<Longrightarrow> list_max xs = Max (set xs)"
proof -
  have "foldr max ys y = Max (insert y (set ys))" for y :: real and ys
  proof (induction ys)
    case (Cons a ys)
    have "Max (insert y (set (a # ys))) = Max (insert a (insert y (set ys)))" by (simp add: insert_commute)
    also have "\<dots> = max a (Max (insert y (set ys)))" by (rule Max_insert) simp_all
    finally show ?case using Cons by simp
  qed simp
  then show "xs \<noteq> [] \<Longrightarrow> ?thesis" by (cases xs) (simp_all add: list_max_def)
qed

lemma clip_probability_range: "0 \<le> clip_probability p" "clip_probability p \<le> 1"
  by (simp_all add: clip_probability_def)

lemma pvalue_range: "0 \<le> ks_pvalue l \<and> ks_pvalue l \<le> 1" "0 \<le> kuiper_pvalue V N \<and> kuiper_pvalue V N \<le> 1"
  by (auto simp: ks_pvalue_def kuiper_pvalue_def Let_def clip_probability_range)

lemma cumsum_range:
  assumes "\<forall>x \<in> set xs. 0 \<le> x" "c \<in> set (cumsum xs)"
  shows "0 \<le> c \<and> c \<le> sum_list xs"
proof -
  from assms(2) obtain i where c: "c = sum_list (take (Suc i) xs)" by (auto simp: cumsum_def)
  have "sum_list xs = c + sum_list (drop (Suc i) xs)" unfolding c by (metis append_take_drop_id sum_list_append)
  moreover have "0 \<le> sum_list (take (Suc i) xs)" "0 \<le> sum_list (drop (Suc i) xs)"
    using assms(1) by (auto intro!: sum_list_nonneg dest: in_set_takeD in_set_dropD)
  ultimately show ?thesis using c by simp
qed

lemma differences_range:
  assumes "counts_ok counts"
  shows "\<forall>d \<in> set (cdf_differences counts). \<bar>d\<bar> \<le> 1" "0 \<in> set (cdf_differences counts)"
proof -
  let ?n = "sum_list counts"
  have n: "0 < ?n" and pos: "\<forall>c \<in> set counts. 0 \<le> c" and len: "length counts = 9"
    using assms by (auto simp: counts_ok_def KS_MIN_N_def not_less)
  have e: "\<forall>e \<in> set BENFORD_EXPECTED. 0 \<le> e" using expected_range by (auto intro: less_imp_le)
  show "\<forall>d \<in> set (cdf_differences counts). \<bar>d\<bar> \<le> 1"
  proof
    fix d
    assume "d \<in> set (cdf_differences counts)"
    then obtain x y where d: "d = x / ?n - y" "x \<in> set (cumsum counts)" "y \<in> set BENFORD_CDF"
      by (auto simp: cdf_differences_def dest!: set_zip_leftD set_zip_rightD elim!: in_set_zipE)
    have "0 \<le> x / ?n" "x / ?n \<le> 1" using cumsum_range [OF pos d(2)] n by simp_all
    moreover have "0 \<le> y" "y \<le> 1" using cumsum_range [OF e d(3) [unfolded BENFORD_CDF_def]] sum_expected by simp_all
    ultimately show "\<bar>d\<bar> \<le> 1" using d(1) by simp
  qed
  have lens: "length (cumsum counts) = 9" "length BENFORD_CDF = 9" by (simp_all add: cumsum_def BENFORD_CDF_def len)
  have ends: "cumsum counts ! 8 = ?n" "BENFORD_CDF ! 8 = 1"
    using sum_expected len by (simp_all add: cumsum_def BENFORD_CDF_def)
  have "cdf_differences counts ! 8 = 0" using ends n lens by (simp add: cdf_differences_def)
  moreover have "8 < length (cdf_differences counts)" by (simp add: cdf_differences_def lens)
  ultimately show "0 \<in> set (cdf_differences counts)" by (metis nth_mem)
qed

text \<open>The two tests agree on what they measure. Both are valid on the same counts; then the Kolmogorov-Smirnov statistic
  lies between 0 and 1, the Kuiper statistic between it and its double, and both p-values are probabilities.\<close>

theorem ks_kuiper_consistent:
  "case (compute_ks_statistic counts, compute_kuiper_statistic counts) of
     (None, None) \<Rightarrow> True
   | (Some ks, Some ku) \<Rightarrow> 0 \<le> ct_statistic ks \<and> ct_statistic ks \<le> 1 \<and> ct_statistic ks \<le> ct_statistic ku \<and>
       ct_statistic ku \<le> 2 * ct_statistic ks \<and> 0 \<le> ct_p_value ks \<and> ct_p_value ks \<le> 1 \<and> 0 \<le> ct_p_value ku \<and> ct_p_value ku \<le> 1
   | _ \<Rightarrow> False"
proof (cases "counts_ok counts")
  case True
  let ?d = "cdf_differences counts"
  note r = differences_range [OF True]
  have ne: "?d \<noteq> []" using r(2) by auto
  have max: "list_max (map f ?d) = Max (f ` set ?d)" for f using list_max_Max [of "map f ?d"] ne by simp
  have id: "list_max ?d = Max (set ?d)" by (rule list_max_Max [OF ne])
  have fin: "finite (f ` set ?d)" "f ` set ?d \<noteq> {}" for f :: "real \<Rightarrow> real" using ne by simp_all
  have up: "x \<le> Max (set ?d)" "- x \<le> Max (uminus ` set ?d)" "\<bar>x\<bar> \<le> Max (abs ` set ?d)" if "x \<in> set ?d" for x
    using that by (auto intro!: Max_ge)
  have zero: "0 \<le> Max (set ?d)" "0 \<le> Max (uminus ` set ?d)" "0 \<le> Max (abs ` set ?d)" using up [OF r(2)] by simp_all
  have abs1: "Max (abs ` set ?d) \<le> 1" unfolding Max_le_iff [OF fin] using r(1) by blast
  have abs2: "Max (abs ` set ?d) \<le> Max (set ?d) + Max (uminus ` set ?d)"
    unfolding Max_le_iff [OF fin]
  proof
    fix a
    assume "a \<in> abs ` set ?d"
    then obtain x where x: "x \<in> set ?d" "a = \<bar>x\<bar>" by blast
    show "a \<le> Max (set ?d) + Max (uminus ` set ?d)" using up(1,2) [OF x(1)] zero(1,2) unfolding x(2) abs_if by auto
  qed
  have plus: "Max (set ?d) \<le> Max (abs ` set ?d)"
    using Max_le_iff [of "set ?d" "Max (abs ` set ?d)"] ne up(3) by (simp, meson abs_ge_self order_trans)
  have minus: "Max (uminus ` set ?d) \<le> Max (abs ` set ?d)"
    unfolding Max_le_iff [OF fin] using up(3) by (auto intro: order_trans [OF abs_ge_minus_self])
  show ?thesis
    using True zero(3) abs1 abs2 plus minus
    by (simp add: compute_ks_statistic_def compute_kuiper_statistic_def Let_def max id pvalue_range)
qed (simp add: compute_ks_statistic_def compute_kuiper_statistic_def)

end
