(* ===== verification/Api_Keys.thy ===== *)
theory Api_Keys
  imports LL_Prelude
begin

text \<open>
  \<open>detection/api_key_store.py\<close>: the table \<open>api_keys\<close> and the access log \<open>gateway_request_log\<close>. The digest
  (BLAKE2b), the random key identifiers and plaintexts and the clock readings are arguments. Comma-separated scopes are
  kept as the text the table holds. Schema creation and the migration of older tables are not modelled.
\<close>

subsection \<open>Comma-separated scopes\<close>

fun join_commas :: "string list \<Rightarrow> string" where
  "join_commas [] = ''''"
| "join_commas [s] = s"
| "join_commas (s # t # ss) = s @ '','' @ join_commas (t # ss)"

definition split_scopes :: "string \<Rightarrow> string list" where
  "split_scopes text = filter (\<lambda>s. s \<noteq> '''') (map strip (split_on CHR '','' text))"

definition VALID_SCOPES :: "string list" where
  "VALID_SCOPES = [''read:scores'', ''write:suppressions'', ''admin'']"

lemma split_on_not_empty [simp]: "split_on c s \<noteq> []"
  by (induction s) (auto split: list.split)

lemma split_on_no_mark: "c \<notin> set s \<Longrightarrow> split_on c s = [s]"
  by (induction s) auto

lemma split_on_append: "c \<notin> set s \<Longrightarrow> split_on c (s @ c # t) = s # split_on c t"
  by (induction s) auto

lemma split_join:
  "ss \<noteq> [] \<Longrightarrow> \<forall>s \<in> set ss. CHR '','' \<notin> set s \<Longrightarrow> split_on CHR '','' (join_commas ss) = ss"
  by (induction ss rule: join_commas.induct) (auto simp: split_on_no_mark split_on_append)

lemma strip_id: "\<forall>c \<in> set s. \<not> is_space c \<Longrightarrow> strip s = s"
proof -
  have id: "\<forall>c \<in> set t. \<not> is_space c \<Longrightarrow> dropWhile is_space t = t" for t by (cases t) auto
  assume "\<forall>c \<in> set s. \<not> is_space c"
  with id [of s] id [of "rev s"] show ?thesis by (simp add: strip_def)
qed

definition plain_scope :: "string \<Rightarrow> bool" where
  "plain_scope s \<longleftrightarrow> s \<noteq> '''' \<and> CHR '','' \<notin> set s \<and> strip s = s"

lemma split_scopes_join:
  assumes "\<forall>s \<in> set ss. plain_scope s"
  shows "split_scopes (join_commas ss) = ss"
proof (cases "ss = []")
  case True
  then show ?thesis by (simp add: split_scopes_def strip_def)
next
  case False
  from assms have "\<forall>s \<in> set ss. CHR '','' \<notin> set s" "map strip ss = ss" "filter (\<lambda>s. s \<noteq> '''') ss = ss"
    by (auto simp: plain_scope_def intro!: map_idI)
  with split_join [OF False] show ?thesis by (simp add: split_scopes_def)
qed

lemma valid_scopes_plain: "s \<in> set VALID_SCOPES \<Longrightarrow> plain_scope s"
  by (auto simp: VALID_SCOPES_def plain_scope_def is_space_def Let_def intro!: strip_id)

lemma strip_strip [simp]: "strip (strip s) = strip s"
proof -
  let ?a = "dropWhile is_space s"
  let ?b = "rev (dropWhile is_space (rev ?a))"
  have "dropWhile is_space ?b = ?b"
  proof (cases "?b = []")
    case False
    have a: "?b @ rev (takeWhile is_space (rev ?a)) = ?a"
      by (metis rev_append rev_rev_ident takeWhile_dropWhile_id)
    then have "?a \<noteq> []" using False by (metis append_is_Nil_conv)
    moreover have "hd ?b = hd ?a" using a False by (metis hd_append2)
    ultimately show ?thesis using hd_dropWhile [of is_space s] by (metis dropWhile_eq_self_iff)
  next
    case True
    then show ?thesis by (simp only: dropWhile.simps)
  qed
  then show ?thesis by (simp add: strip_def dropWhile_idem)
qed

lemma set_strip: "c \<in> set (strip s) \<Longrightarrow> c \<in> set s"
  unfolding strip_def set_rev by (metis set_dropWhileD set_rev)

lemma split_on_no_comma: "w \<in> set (split_on c s) \<Longrightarrow> c \<notin> set w"
  by (induction s arbitrary: w) (force split: if_splits list.splits)+

lemma split_scopes_plain: "w \<in> set (split_scopes text) \<Longrightarrow> plain_scope w"
  using split_on_no_comma set_strip by (fastforce simp: split_scopes_def plain_scope_def)

lemma split_scopes_idem: "split_scopes (join_commas (split_scopes text)) = split_scopes text"
  using split_scopes_join split_scopes_plain by blast

subsection \<open>The table and its operations\<close>

datatype key_status = Key_active | Key_rotating | Key_revoked

record api_key =
  ak_id :: string
  ak_hash :: string
  ak_namespace :: string
  ak_scopes :: string
  ak_rate_limit :: int
  ak_daily :: int
  ak_ns_daily :: int
  ak_monthly :: int
  ak_ns_monthly :: int
  ak_created_at :: time
  ak_expires_at :: "time option"
  ak_last_used :: "time option"
  ak_revoked :: bool
  ak_status :: key_status
  ak_rotated_from :: "string option"
  ak_rotated_to :: "string option"
  ak_deadline :: "time option"
  ak_tier :: string

record log_row =
  gl_key :: string
  gl_namespace :: string
  gl_status :: int
  gl_recorded_at :: time

record key_store =
  ks_keys :: "api_key list"
  ks_log :: "log_row list"

text \<open>The quotas of the settings: per key and per namespace, for a day and for a month.\<close>

record quota_defaults =
  qd_daily :: int
  qd_ns_daily :: int
  qd_monthly :: int
  qd_ns_monthly :: int

datatype key_error = Invalid_scopes "string list" | Key_not_found string | Cannot_rotate_revoked string
  | Cannot_rotate_expired string | Integrity_error

definition insert_key :: "api_key \<Rightarrow> api_key list \<Rightarrow> key_error + api_key list" where
  "insert_key r keys =
     (if \<exists>q \<in> set keys. ak_id q = ak_id r \<or> ak_hash q = ak_hash r then Inl Integrity_error else Inr (keys @ [r]))"

definition create_api_key ::
    "(string \<Rightarrow> string) \<Rightarrow> quota_defaults \<Rightarrow> string \<Rightarrow> string \<Rightarrow> time \<Rightarrow> string list \<Rightarrow> string \<Rightarrow> int \<Rightarrow> time option \<Rightarrow> string
     \<Rightarrow> key_store \<Rightarrow> (key_error + api_key) \<times> key_store" where
  "create_api_key hash qd key_id plaintext now scopes namespace_id rate expires tier s =
     (let invalid = filter (\<lambda>x. x \<notin> set VALID_SCOPES) scopes in
      if invalid \<noteq> [] then (Inl (Invalid_scopes (sort (remdups invalid))), s)
      else
        (let r = \<lparr>ak_id = key_id, ak_hash = hash plaintext, ak_namespace = namespace_id,
              ak_scopes = join_commas (sort scopes), ak_rate_limit = rate, ak_daily = qd_daily qd,
              ak_ns_daily = qd_ns_daily qd, ak_monthly = qd_monthly qd, ak_ns_monthly = qd_ns_monthly qd,
              ak_created_at = now, ak_expires_at = expires, ak_last_used = None, ak_revoked = False,
              ak_status = Key_active, ak_rotated_from = None, ak_rotated_to = None, ak_deadline = None, ak_tier = tier\<rparr>
         in case insert_key r (ks_keys s) of
              Inl e \<Rightarrow> (Inl e, s)
            | Inr keys \<Rightarrow> (Inr r, s\<lparr>ks_keys := keys\<rparr>)))"

definition revoke_api_key :: "string \<Rightarrow> key_store \<Rightarrow> bool \<times> key_store" where
  "revoke_api_key key_id s =
     (let hit = (\<lambda>r. ak_id r = key_id \<and> \<not> ak_revoked r) in
      (\<exists>r \<in> set (ks_keys s). hit r,
       s\<lparr>ks_keys := map (\<lambda>r. if hit r then r\<lparr>ak_revoked := True, ak_status := Key_revoked\<rparr> else r) (ks_keys s)\<rparr>))"

definition expired :: "api_key \<Rightarrow> time \<Rightarrow> bool" where
  "expired r now = (case ak_expires_at r of None \<Rightarrow> False | Some e \<Rightarrow> e < now)"

definition start_rotation :: "time \<Rightarrow> string \<Rightarrow> api_key \<Rightarrow> api_key" where
  "start_rotation deadline new_key_id r =
     r\<lparr>ak_status := Key_rotating, ak_deadline := Some deadline, ak_rotated_to := Some new_key_id\<rparr>"

definition replacement_key :: "string \<Rightarrow> string \<Rightarrow> time \<Rightarrow> api_key \<Rightarrow> api_key" where
  "replacement_key new_key_id new_key_hash now row =
     \<lparr>ak_id = new_key_id, ak_hash = new_key_hash, ak_namespace = ak_namespace row,
      ak_scopes = join_commas (split_scopes (ak_scopes row)), ak_rate_limit = ak_rate_limit row,
      ak_daily = ak_daily row, ak_ns_daily = ak_ns_daily row, ak_monthly = ak_monthly row,
      ak_ns_monthly = ak_ns_monthly row, ak_created_at = now, ak_expires_at = ak_expires_at row,
      ak_last_used = None, ak_revoked = False, ak_status = Key_active, ak_rotated_from = Some (ak_id row),
      ak_rotated_to = None, ak_deadline = None, ak_tier = ''free''\<rparr>"

definition rotate_api_key ::
    "(string \<Rightarrow> string) \<Rightarrow> string \<Rightarrow> string \<Rightarrow> time \<Rightarrow> string \<Rightarrow> int \<Rightarrow> key_store \<Rightarrow> (key_error + api_key) \<times> key_store" where
  "rotate_api_key hash new_key_id plaintext now key_id grace_period_seconds s =
     (case find (\<lambda>r. ak_id r = key_id) (ks_keys s) of
        None \<Rightarrow> (Inl (Key_not_found key_id), s)
      | Some row \<Rightarrow>
          if ak_revoked row \<or> ak_status row = Key_revoked then (Inl (Cannot_rotate_revoked key_id), s)
          else if expired row now then (Inl (Cannot_rotate_expired key_id), s)
          else
            (let deadline = now + grace_period_seconds * 1000000;
                 keys = map (\<lambda>r. if ak_id r = key_id then start_rotation deadline new_key_id r else r) (ks_keys s);
                 new = replacement_key new_key_id (hash plaintext) now row
             in case insert_key new keys of
                  Inl e \<Rightarrow> (Inl e, s)
                | Inr keys' \<Rightarrow> (Inr new, s\<lparr>ks_keys := keys'\<rparr>)))"

definition deadline_passed :: "api_key \<Rightarrow> time \<Rightarrow> bool" where
  "deadline_passed r now = (case ak_deadline r of None \<Rightarrow> False | Some d \<Rightarrow> d < now)"

definition sweep_expired_api_keys :: "time \<Rightarrow> key_store \<Rightarrow> nat \<times> key_store" where
  "sweep_expired_api_keys now s =
     (let hit = (\<lambda>r. ak_status r = Key_rotating \<and> deadline_passed r now) in
      (length (filter hit (ks_keys s)),
       s\<lparr>ks_keys := map (\<lambda>r. if hit r then r\<lparr>ak_revoked := True, ak_status := Key_revoked\<rparr> else r) (ks_keys s)\<rparr>))"

definition get_overdue_api_keys_count :: "int \<Rightarrow> time \<Rightarrow> key_store \<Rightarrow> nat" where
  "get_overdue_api_keys_count max_age_days now s =
     length (filter (\<lambda>r. \<not> ak_revoked r \<and> (ak_status r = Key_active \<or> ak_status r = Key_rotating) \<and>
       ak_created_at r < now - max_age_days * 86400000000) (ks_keys s))"

definition get_api_key_by_hash :: "string \<Rightarrow> time \<Rightarrow> key_store \<Rightarrow> api_key option" where
  "get_api_key_by_hash key_hash now s =
     (case find (\<lambda>r. ak_hash r = key_hash \<and> \<not> ak_revoked r \<and> ak_status r \<noteq> Key_revoked) (ks_keys s) of
        None \<Rightarrow> None
      | Some row \<Rightarrow>
          if expired row now then None
          else if ak_status row = Key_rotating \<and> deadline_passed row now then None
          else Some row)"

definition touch_api_key_last_used :: "string \<Rightarrow> time \<Rightarrow> key_store \<Rightarrow> key_store" where
  "touch_api_key_last_used key_id now s =
     s\<lparr>ks_keys := map (\<lambda>r. if ak_id r = key_id then r\<lparr>ak_last_used := Some now\<rparr> else r) (ks_keys s)\<rparr>"

definition lookup_key :: "(string \<Rightarrow> string) \<Rightarrow> string \<Rightarrow> time \<Rightarrow> key_store \<Rightarrow> api_key option \<times> key_store" where
  "lookup_key hash plaintext now s =
     (case get_api_key_by_hash (hash plaintext) now s of
        None \<Rightarrow> (None, s)
      | Some row \<Rightarrow> (Some row, touch_api_key_last_used (ak_id row) now s))"

definition list_api_keys :: "key_store \<Rightarrow> api_key list" where
  "list_api_keys s = sort_key (\<lambda>r. - ak_created_at r) (ks_keys s)"

definition log_gateway_request :: "string \<Rightarrow> string \<Rightarrow> int \<Rightarrow> time \<Rightarrow> key_store \<Rightarrow> key_store" where
  "log_gateway_request key_id namespace_id status_code now s =
     s\<lparr>ks_log := ks_log s @ [\<lparr>gl_key = key_id, gl_namespace = namespace_id, gl_status = status_code, gl_recorded_at = now\<rparr>]\<rparr>"

subsection \<open>Quotas\<close>

text \<open>\<open>date(recorded_at)\<close> as the number of the day; \<open>strftime('%Y-%m', ...)\<close> as the first day of the month, by
  the proleptic Gregorian calendar of \<open>datetime\<close>.\<close>

definition DAY :: time where "DAY = 86400000000"

definition day_of :: "time \<Rightarrow> int" where "day_of t = t div DAY"

definition day_of_month :: "int \<Rightarrow> int" where
  "day_of_month d =
     (let doe = (d + 719468) mod 146097;
          yoe = (doe - doe div 1460 + doe div 36524 - doe div 146096) div 365;
          doy = doe - (365 * yoe + yoe div 4 - yoe div 100);
          mp = (5 * doy + 2) div 153
      in doy - (153 * mp + 2) div 5 + 1)"

definition month_start :: "time \<Rightarrow> int" where
  "month_start t = day_of t - day_of_month (day_of t) + 1"

lemma month_start_examples:
  "day_of_month 0 = 1" "day_of_month 58 = 28" "day_of_month 59 = 1" "day_of_month 11016 = 29" "day_of_month 11017 = 1"
  "month_start (20089 * 86400000000 + 5) = 20089" "day_of_month 20089 = 1" "day_of_month 20088 = 31"
  by (simp_all add: day_of_month_def month_start_def day_of_def DAY_def Let_def)

definition count_log :: "(log_row \<Rightarrow> bool) \<Rightarrow> key_store \<Rightarrow> int" where
  "count_log p s = int (length (filter p (ks_log s)))"

definition next_midnight :: "time \<Rightarrow> time" where
  "next_midnight now = (day_of now + 1) * DAY"

definition next_month :: "time \<Rightarrow> time" where
  "next_month now = month_start ((month_start now + 32) * DAY) * DAY"

definition check_daily_quota :: "string \<Rightarrow> int \<Rightarrow> time \<Rightarrow> key_store \<Rightarrow> bool \<times> time option" where
  "check_daily_quota key_id daily_limit now s =
     (if daily_limit \<le> 0 then (True, None)
      else if daily_limit \<le> count_log (\<lambda>g. gl_key g = key_id \<and> day_of (gl_recorded_at g) = day_of now) s
      then (False, Some (next_midnight now)) else (True, None))"

definition check_namespace_quota :: "string \<Rightarrow> int \<Rightarrow> time \<Rightarrow> key_store \<Rightarrow> bool \<times> time option" where
  "check_namespace_quota namespace_id daily_limit now s =
     (if namespace_id = ''*'' \<or> daily_limit \<le> 0 then (True, None)
      else if daily_limit \<le> count_log (\<lambda>g. gl_namespace g = namespace_id \<and> day_of (gl_recorded_at g) = day_of now) s
      then (False, Some (next_midnight now)) else (True, None))"

definition check_monthly_quota :: "string \<Rightarrow> int \<Rightarrow> time \<Rightarrow> key_store \<Rightarrow> bool \<times> time option" where
  "check_monthly_quota key_id monthly_limit now s =
     (if monthly_limit \<le> 0 then (True, None)
      else if monthly_limit \<le> count_log (\<lambda>g. gl_key g = key_id \<and> month_start (gl_recorded_at g) = month_start now) s
      then (False, Some (next_month now)) else (True, None))"

definition check_namespace_monthly_quota :: "string \<Rightarrow> int \<Rightarrow> time \<Rightarrow> key_store \<Rightarrow> bool \<times> time option" where
  "check_namespace_monthly_quota namespace_id monthly_limit now s =
     (if namespace_id = ''*'' \<or> monthly_limit \<le> 0 then (True, None)
      else if monthly_limit \<le> count_log (\<lambda>g. gl_namespace g = namespace_id \<and> month_start (gl_recorded_at g) = month_start now) s
      then (False, Some (next_month now)) else (True, None))"

subsection \<open>Steps of the store\<close>

text \<open>Every operation, with any arguments; the digest is fixed.\<close>

inductive key_step :: "(string \<Rightarrow> string) \<Rightarrow> key_store \<Rightarrow> key_store \<Rightarrow> bool" for hash where
  step_create: "key_step hash s (snd (create_api_key hash qd key_id plaintext now scopes namespace_id rate expires tier s))"
| step_revoke: "key_step hash s (snd (revoke_api_key key_id s))"
| step_rotate: "key_step hash s (snd (rotate_api_key hash new_id plaintext now key_id grace s))"
| step_sweep: "key_step hash s (snd (sweep_expired_api_keys now s))"
| step_lookup: "key_step hash s (snd (lookup_key hash plaintext now s))"
| step_touch: "key_step hash s (touch_api_key_last_used key_id now s)"
| step_log: "key_step hash s (log_gateway_request key_id namespace_id code now s)"

inductive key_steps :: "(string \<Rightarrow> string) \<Rightarrow> key_store \<Rightarrow> key_store \<Rightarrow> bool" for hash s where
  steps_refl: "key_steps hash s s"
| steps_step: "key_steps hash s t \<Longrightarrow> key_step hash t u \<Longrightarrow> key_steps hash s u"

inductive_cases key_stepE: "key_step hash s t"

definition empty_store :: key_store where "empty_store = \<lparr>ks_keys = [], ks_log = []\<rparr>"

text \<open>A row only changes its last use, its status and its links; a revoked one stays revoked.\<close>

definition evolves :: "api_key \<Rightarrow> api_key \<Rightarrow> bool" where
  "evolves r r' \<longleftrightarrow> ak_id r' = ak_id r \<and> ak_hash r' = ak_hash r \<and> ak_namespace r' = ak_namespace r \<and>
     ak_scopes r' = ak_scopes r \<and> ak_rate_limit r' = ak_rate_limit r \<and> ak_expires_at r' = ak_expires_at r \<and>
     ak_rotated_from r' = ak_rotated_from r \<and> ak_tier r' = ak_tier r \<and> (ak_revoked r \<longrightarrow> ak_revoked r')"

lemma evolves_refl [simp]: "evolves r r" by (simp add: evolves_def)

definition extends :: "key_store \<Rightarrow> key_store \<Rightarrow> (api_key \<Rightarrow> bool) \<Rightarrow> bool" where
  "extends s t ok \<longleftrightarrow>
     (\<exists>f new. ks_keys t = map f (ks_keys s) @ new \<and> (\<forall>r \<in> set (ks_keys s). evolves r (f r)) \<and>
        (new = [] \<or> (\<exists>n. new = [n] \<and> ok n \<and> ak_id n \<notin> ak_id ` set (ks_keys s) \<and> ak_hash n \<notin> ak_hash ` set (ks_keys s))))"

lemma extends_map:
  "(\<And>r. r \<in> set (ks_keys s) \<Longrightarrow> evolves r (f r)) \<Longrightarrow> ks_keys t = map f (ks_keys s) \<Longrightarrow> extends s t ok"
  unfolding extends_def by (intro exI [of _ f] exI [of _ "[]"]) auto

lemma extends_same: "ks_keys t = ks_keys s \<Longrightarrow> extends s t ok"
  by (rule extends_map [of s id]) auto

lemma extends_touch: "t = touch_api_key_last_used key_id now s \<Longrightarrow> extends s t ok"
  by (intro extends_map [where f = "\<lambda>r. if ak_id r = key_id then r\<lparr>ak_last_used := Some now\<rparr> else r"])
    (simp_all add: touch_api_key_last_used_def evolves_def)

text \<open>What a new key may be: of valid scopes, or a copy of the rights of the row it replaces.\<close>

definition fresh_or_rotated :: "key_store \<Rightarrow> api_key \<Rightarrow> bool" where
  "fresh_or_rotated s n \<longleftrightarrow>
     (case ak_rotated_from n of
        None \<Rightarrow> \<exists>scopes. set scopes \<subseteq> set VALID_SCOPES \<and> ak_scopes n = join_commas (sort scopes)
      | Some old \<Rightarrow> \<exists>r \<in> set (ks_keys s). ak_id r = old \<and> \<not> ak_revoked r \<and>
          ak_scopes n = join_commas (split_scopes (ak_scopes r)) \<and> ak_namespace n = ak_namespace r \<and>
          ak_rate_limit n = ak_rate_limit r \<and> ak_expires_at n = ak_expires_at r)"

definition rotation_of :: "time \<Rightarrow> string \<Rightarrow> string \<Rightarrow> api_key list \<Rightarrow> api_key list" where
  "rotation_of deadline new_id key_id keys = map (\<lambda>r. if ak_id r = key_id then start_rotation deadline new_id r else r) keys"

lemma rotation_columns [simp]:
  "map ak_id (rotation_of d new_id key_id keys) = map ak_id keys" "map ak_hash (rotation_of d new_id key_id keys) = map ak_hash keys"
  by (auto simp: rotation_of_def start_rotation_def)

lemma find_SomeD: "find P xs = Some x \<Longrightarrow> x \<in> set xs \<and> P x"
  by (metis find_Some_iff nth_mem)

lemma insert_key_ok: "insert_key r keys = Inr keys' \<longleftrightarrow> ak_id r \<notin> ak_id ` set keys \<and> ak_hash r \<notin> ak_hash ` set keys \<and> keys' = keys @ [r]"
  by (auto simp: insert_key_def image_iff) metis+

lemma rotate_shape:
  assumes "rotate_api_key hash new_id plaintext now key_id grace s = (res, t)"
  shows "(\<exists>e. res = Inl e) \<and> t = s \<or>
    (\<exists>row. find (\<lambda>r. ak_id r = key_id) (ks_keys s) = Some row \<and> row \<in> set (ks_keys s) \<and> ak_id row = key_id \<and> \<not> ak_revoked row \<and>
       ak_status row \<noteq> Key_revoked \<and> \<not> expired row now \<and> res = Inr (replacement_key new_id (hash plaintext) now row) \<and>
       t = s\<lparr>ks_keys := rotation_of (now + grace * 1000000) new_id key_id (ks_keys s) @ [replacement_key new_id (hash plaintext) now row]\<rparr> \<and>
       new_id \<notin> ak_id ` set (ks_keys s) \<and> hash plaintext \<notin> ak_hash ` set (ks_keys s))"
proof (cases "find (\<lambda>r. ak_id r = key_id) (ks_keys s)")
  case None
  with assms show ?thesis by (auto simp: rotate_api_key_def)
next
  case (Some row)
  from find_SomeD [OF this] have row: "row \<in> set (ks_keys s)" "ak_id row = key_id" by blast+
  let ?new = "replacement_key new_id (hash plaintext) now row" and ?keys = "rotation_of (now + grace * 1000000) new_id key_id (ks_keys s)"
  have cols: "ak_id ?new = new_id" "ak_hash ?new = hash plaintext" "ak_id ` set ?keys = ak_id ` set (ks_keys s)"
      "ak_hash ` set ?keys = ak_hash ` set (ks_keys s)"
    by (simp_all add: replacement_key_def flip: set_map)
  show ?thesis
  proof (cases "ak_revoked row \<or> ak_status row = Key_revoked \<or> expired row now")
    case True
    with assms Some show ?thesis by (auto simp: rotate_api_key_def split: if_splits)
  next
    case False
    with assms Some have r: "(case insert_key ?new ?keys of Inl e \<Rightarrow> (Inl e, s) | Inr keys' \<Rightarrow> (Inr ?new, s\<lparr>ks_keys := keys'\<rparr>)) = (res, t)"
      by (simp add: rotate_api_key_def rotation_of_def Let_def)
    show ?thesis
    proof (cases "insert_key ?new ?keys")
      case (Inl e)
      with r have "res = Inl e" "t = s" by simp_all
      then show ?thesis by blast
    next
      case (Inr keys')
      with r False Some row cols show ?thesis by (simp add: insert_key_ok)
    qed
  qed
qed

lemma step_extends:
  assumes "key_step hash s t"
  shows "extends s t (fresh_or_rotated s)"
  using assms
proof cases
  case (step_create qd key_id plaintext now scopes namespace_id rate expires tier)
  then show ?thesis
    by (auto simp: create_api_key_def insert_key_def Let_def extends_def fresh_or_rotated_def filter_empty_conv
        intro!: exI [of _ id] split: if_splits)
next
  case (step_revoke key_id)
  then show ?thesis
    by (intro extends_map [where f = "\<lambda>r. if ak_id r = key_id \<and> \<not> ak_revoked r then r\<lparr>ak_revoked := True, ak_status := Key_revoked\<rparr> else r"])
      (simp_all add: revoke_api_key_def Let_def evolves_def)
next
  case (step_rotate new_id plaintext now key_id grace)
  show ?thesis
  proof (cases "ks_keys t = ks_keys s")
    case False
    have "rotate_api_key hash new_id plaintext now key_id grace s = (fst (rotate_api_key hash new_id plaintext now key_id grace s), t)"
      using step_rotate by simp
    from rotate_shape [OF this] False obtain row where row: "row \<in> set (ks_keys s)" "ak_id row = key_id" "\<not> ak_revoked row"
        and t: "ks_keys t = rotation_of (now + grace * 1000000) new_id key_id (ks_keys s) @ [replacement_key new_id (hash plaintext) now row]"
        and new: "new_id \<notin> ak_id ` set (ks_keys s)" "hash plaintext \<notin> ak_hash ` set (ks_keys s)"
      by auto
    have "evolves r (if ak_id r = key_id then start_rotation (now + grace * 1000000) new_id r else r)" for r
      by (simp add: evolves_def start_rotation_def)
    moreover have "fresh_or_rotated s (replacement_key new_id (hash plaintext) now row)"
      using row by (auto simp: fresh_or_rotated_def replacement_key_def)
    moreover have "ak_id (replacement_key new_id (hash plaintext) now row) = new_id"
        "ak_hash (replacement_key new_id (hash plaintext) now row) = hash plaintext"
      by (simp_all add: replacement_key_def)
    ultimately show ?thesis
      using t new unfolding extends_def rotation_of_def by (metis (no_types, lifting))
  qed (rule extends_same)
next
  case (step_sweep now)
  then show ?thesis
    by (intro extends_map [where f = "\<lambda>r. if ak_status r = Key_rotating \<and> deadline_passed r now
        then r\<lparr>ak_revoked := True, ak_status := Key_revoked\<rparr> else r"])
      (simp_all add: sweep_expired_api_keys_def Let_def evolves_def)
next
  case (step_lookup plaintext now)
  show ?thesis
  proof (cases "get_api_key_by_hash (hash plaintext) now s")
    case None
    with step_lookup show ?thesis by (intro extends_same) (simp add: lookup_key_def)
  next
    case (Some row)
    with step_lookup show ?thesis
      by (intro extends_touch [of _ "ak_id row" now]) (simp add: lookup_key_def)
  qed
next
  case (step_touch key_id now)
  then show ?thesis by (intro extends_touch)
next
  case (step_log key_id namespace_id code now)
  then show ?thesis by (intro extends_same) (simp add: log_gateway_request_def)
qed

subsection \<open>Reachable stores\<close>

definition store_ok :: "key_store \<Rightarrow> bool" where
  "store_ok s \<longleftrightarrow> distinct (map ak_id (ks_keys s)) \<and> distinct (map ak_hash (ks_keys s))"

lemma extends_ok:
  assumes "extends s t ok" "store_ok s"
  shows "store_ok t"
proof -
  obtain f new where f: "ks_keys t = map f (ks_keys s) @ new" "\<forall>r \<in> set (ks_keys s). evolves r (f r)"
      "new = [] \<or> (\<exists>n. new = [n] \<and> ok n \<and> ak_id n \<notin> ak_id ` set (ks_keys s) \<and> ak_hash n \<notin> ak_hash ` set (ks_keys s))"
    using assms(1) unfolding extends_def by blast
  have cols: "map ak_id (ks_keys t) = map ak_id (ks_keys s) @ map ak_id new"
      "map ak_hash (ks_keys t) = map ak_hash (ks_keys s) @ map ak_hash new"
    using f(1,2) by (simp_all add: evolves_def)
  from f(3) assms(2) show ?thesis unfolding store_ok_def cols by (elim disjE exE) simp_all
qed

lemma steps_ok: "key_steps hash s t \<Longrightarrow> store_ok s \<Longrightarrow> store_ok t"
  by (induction rule: key_steps.induct) (auto intro: extends_ok step_extends)

lemma empty_ok [simp]: "store_ok empty_store" by (simp add: store_ok_def empty_store_def)

lemma steps_revoked:
  assumes "key_steps hash s t" "r \<in> set (ks_keys s)" "ak_revoked r"
  shows "\<exists>r' \<in> set (ks_keys t). ak_hash r' = ak_hash r \<and> ak_id r' = ak_id r \<and> ak_revoked r'"
  using assms(1)
proof (induction rule: key_steps.induct)
  case steps_refl
  with assms show ?case by blast
next
  case (steps_step t u)
  then obtain r' where r': "r' \<in> set (ks_keys t)" "ak_hash r' = ak_hash r" "ak_id r' = ak_id r" "ak_revoked r'" by blast
  from step_extends [OF steps_step.hyps(2)] obtain f new where "ks_keys u = map f (ks_keys t) @ new"
      "\<forall>r \<in> set (ks_keys t). evolves r (f r)"
    unfolding extends_def by blast
  with r' have "f r' \<in> set (ks_keys u)" "evolves r' (f r')" by simp_all
  with r' show ?case by (intro bexI [of _ "f r'"]) (simp_all add: evolves_def)
qed

lemma unique_hash: "store_ok s \<Longrightarrow> r \<in> set (ks_keys s) \<Longrightarrow> q \<in> set (ks_keys s) \<Longrightarrow> ak_hash r = ak_hash q \<Longrightarrow> r = q"
  by (auto simp: store_ok_def distinct_map inj_on_def)

lemma find_by_hash:
  assumes "store_ok s" "r \<in> set (ks_keys s)"
  shows "find (\<lambda>q. ak_hash q = ak_hash r \<and> P q) (ks_keys s) = (if P r then Some r else None)"
proof (cases "find (\<lambda>q. ak_hash q = ak_hash r \<and> P q) (ks_keys s)")
  case None
  then have "\<not> P r" using assms(2) unfolding find_None_iff by blast
  with None show ?thesis by simp
next
  case (Some q)
  from find_SomeD [OF this] have "q \<in> set (ks_keys s)" "ak_hash q = ak_hash r" "P q" by blast+
  moreover from this have "r = q" by (intro unique_hash [OF assms(1,2)]) simp_all
  ultimately show ?thesis using Some by (simp only: if_True)
qed

lemma authenticates_iff:
  assumes "store_ok s" "r \<in> set (ks_keys s)"
  shows "get_api_key_by_hash (ak_hash r) now s =
    (if \<not> ak_revoked r \<and> ak_status r \<noteq> Key_revoked \<and> \<not> expired r now \<and> \<not> (ak_status r = Key_rotating \<and> deadline_passed r now)
     then Some r else None)"
  using find_by_hash [OF assms, of "\<lambda>q. \<not> ak_revoked q \<and> ak_status q \<noteq> Key_revoked"]
  by (simp add: get_api_key_by_hash_def)

lemma revoke_revokes:
  assumes "r \<in> set (ks_keys s)" "ak_id r = key_id"
  shows "\<exists>r' \<in> set (ks_keys (snd (revoke_api_key key_id s))). ak_hash r' = ak_hash r \<and> ak_revoked r'"
proof -
  let ?f = "\<lambda>r. if ak_id r = key_id \<and> \<not> ak_revoked r then r\<lparr>ak_revoked := True, ak_status := Key_revoked\<rparr> else r"
  have "?f r \<in> set (ks_keys (snd (revoke_api_key key_id s)))"
    using assms(1) by (simp add: revoke_api_key_def Let_def)
  moreover have "ak_hash (?f r) = ak_hash r" "ak_revoked (?f r)" using assms(2) by simp_all
  ultimately show ?thesis by blast
qed

lemma revoked_stays_out:
  assumes "key_steps hash empty_store s" "r \<in> set (ks_keys s)"
    and "key_steps hash (snd (revoke_api_key (ak_id r) s)) t"
  shows "get_api_key_by_hash (ak_hash r) now t = None"
proof -
  from revoke_revokes [OF assms(2) refl] obtain r' where r':
      "r' \<in> set (ks_keys (snd (revoke_api_key (ak_id r) s)))" "ak_hash r' = ak_hash r" "ak_revoked r'" by blast
  from steps_revoked [OF assms(3) r'(1,3)] obtain q where q: "q \<in> set (ks_keys t)" "ak_hash q = ak_hash r'" "ak_revoked q" by blast
  have "store_ok (snd (revoke_api_key (ak_id r) s))"
    by (rule extends_ok [OF step_extends [OF step_revoke] steps_ok [OF assms(1) empty_ok]])
  then have "store_ok t" by (rule steps_ok [OF assms(3)])
  from authenticates_iff [OF this q(1), of now] q r' show ?thesis by simp
qed

text \<open>Revocation is final: once a key has been revoked, no later sequence of operations (rotations, new keys with the same
  plaintext or identifier, sweeps) lets its plaintext authenticate again.\<close>

theorem revoked_key_never_authenticates:
  assumes "key_steps hash empty_store s" "r \<in> set (ks_keys s)" "ak_hash r = hash plaintext"
    and "key_steps hash (snd (revoke_api_key (ak_id r) s)) t"
  shows "fst (lookup_key hash plaintext now t) = None"
  using revoked_stays_out [OF assms(1,2,4)] assms(3) by (simp add: lookup_key_def)

definition no_quotas :: quota_defaults where
  "no_quotas = \<lparr>qd_daily = 0, qd_ns_daily = 0, qd_monthly = 0, qd_ns_monthly = 0\<rparr>"

definition one_key_store :: key_store where
  "one_key_store = snd (create_api_key id no_quotas ''k1'' ''ll_a'' 0 [''admin''] ''ns'' 60 None ''enterprise'' empty_store)"

lemma one_key_reachable: "key_steps id empty_store one_key_store"
  unfolding one_key_store_def by (rule steps_step [OF steps_refl step_create])

lemma one_key_rows: "ks_keys one_key_store =
   [\<lparr>ak_id = ''k1'', ak_hash = ''ll_a'', ak_namespace = ''ns'', ak_scopes = ''admin'', ak_rate_limit = 60, ak_daily = 0,
     ak_ns_daily = 0, ak_monthly = 0, ak_ns_monthly = 0, ak_created_at = 0, ak_expires_at = None, ak_last_used = None,
     ak_revoked = False, ak_status = Key_active, ak_rotated_from = None, ak_rotated_to = None, ak_deadline = None,
     ak_tier = ''enterprise''\<rparr>]"
  by (simp add: one_key_store_def create_api_key_def VALID_SCOPES_def insert_key_def empty_store_def no_quotas_def Let_def)

theorem revoked_key_never_authenticates_witness:
  "fst (lookup_key id ''ll_a'' 5 (snd (create_api_key id no_quotas ''k2'' ''ll_a'' 4 [''admin''] ''ns'' 60 None ''free''
     (snd (revoke_api_key ''k1'' one_key_store))))) = None"
proof -
  let ?r = "hd (ks_keys one_key_store)"
  have r: "?r \<in> set (ks_keys one_key_store)" "ak_hash ?r = id ''ll_a''" "ak_id ?r = ''k1''" by (simp_all add: one_key_rows)
  show ?thesis
    unfolding r(3) [symmetric]
    by (rule revoked_key_never_authenticates [OF one_key_reachable r(1,2) steps_step [OF steps_refl step_create]])
qed

subsection \<open>Rotation\<close>

lemma rotated_store:
  assumes "store_ok s" "rotate_api_key hash new_id plaintext now key_id grace s = (Inr n, t)"
  shows "\<exists>row \<in> set (ks_keys s). ak_id row = key_id \<and> \<not> ak_revoked row \<and> ak_status row \<noteq> Key_revoked \<and> \<not> expired row now \<and>
    store_ok t \<and> n \<in> set (ks_keys t) \<and> n = replacement_key new_id (hash plaintext) now row \<and>
    start_rotation (now + grace * 1000000) new_id row \<in> set (ks_keys t)"
proof -
  from rotate_shape [OF assms(2)] obtain row where row: "row \<in> set (ks_keys s)" "ak_id row = key_id" "\<not> ak_revoked row"
      "ak_status row \<noteq> Key_revoked" "\<not> expired row now" "n = replacement_key new_id (hash plaintext) now row"
      "t = s\<lparr>ks_keys := rotation_of (now + grace * 1000000) new_id key_id (ks_keys s) @ [n]\<rparr>" by auto
  have "key_step hash s t" using step_rotate [of hash s new_id plaintext now key_id grace] assms(2) by simp
  then have "store_ok t" using extends_ok step_extends assms(1) by blast
  moreover have "start_rotation (now + grace * 1000000) new_id row \<in> set (ks_keys t)"
    using row(1,2,7) by (auto simp: rotation_of_def image_iff intro!: bexI [of _ row])
  ultimately show ?thesis using row by auto
qed

text \<open>After a rotation at \<open>now\<close> the old plaintext authenticates until the end of the grace period and not after it, the new
  one until the key's own expiry; the new key has the old one's scopes, namespace and limits, and the tier \<open>free\<close>
  whatever the old one's was.\<close>

theorem rotation_overlaps_until_deadline:
  assumes "key_steps hash empty_store s" "rotate_api_key hash new_id new_plain now key_id grace s = (Inr n, t)"
  shows "\<exists>row \<in> set (ks_keys s). ak_id row = key_id \<and>
    (\<forall>later. get_api_key_by_hash (ak_hash row) later t \<noteq> None \<longleftrightarrow> later \<le> now + grace * 1000000 \<and> \<not> expired row later) \<and>
    (\<forall>later. get_api_key_by_hash (hash new_plain) later t \<noteq> None \<longleftrightarrow> \<not> expired row later) \<and>
    split_scopes (ak_scopes n) = split_scopes (ak_scopes row) \<and> ak_namespace n = ak_namespace row \<and>
    ak_rate_limit n = ak_rate_limit row \<and> ak_tier n = ''free''"
proof -
  from rotated_store [OF steps_ok [OF assms(1) empty_ok] assms(2)] obtain row where row: "row \<in> set (ks_keys s)" "ak_id row = key_id"
      "\<not> ak_revoked row" "ak_status row \<noteq> Key_revoked" "store_ok t" "n \<in> set (ks_keys t)"
      "n = replacement_key new_id (hash new_plain) now row" "start_rotation (now + grace * 1000000) new_id row \<in> set (ks_keys t)" by blast
  let ?old = "start_rotation (now + grace * 1000000) new_id row"
  have "ak_hash ?old = ak_hash row" "ak_revoked ?old = ak_revoked row" "expired ?old = expired row"
      "ak_status ?old = Key_rotating" "deadline_passed ?old later \<longleftrightarrow> now + grace * 1000000 < later" for later
    by (auto simp: start_rotation_def expired_def deadline_passed_def)
  note old = this
  have new: "ak_hash n = hash new_plain" "\<not> ak_revoked n" "ak_status n = Key_active" "expired n = expired row"
    by (auto simp: row(7) replacement_key_def expired_def)
  have "split_scopes (ak_scopes n) = split_scopes (ak_scopes row)"
    by (simp add: row(7) replacement_key_def split_scopes_idem)
  then show ?thesis
    using authenticates_iff [OF row(5,8)] authenticates_iff [OF row(5,6)] old new row
    by (intro bexI [of _ row]) (auto simp: replacement_key_def)
qed

lemma rotate_one_key:
  "rotate_api_key id ''k2'' ''ll_b'' 7 ''k1'' 10 one_key_store =
    (Inr (replacement_key ''k2'' ''ll_b'' 7 (hd (ks_keys one_key_store))),
     one_key_store\<lparr>ks_keys := [start_rotation 10000007 ''k2'' (hd (ks_keys one_key_store)),
       replacement_key ''k2'' ''ll_b'' 7 (hd (ks_keys one_key_store))]\<rparr>)"
  by (simp add: rotate_api_key_def one_key_rows expired_def insert_key_def start_rotation_def replacement_key_def Let_def)

theorem rotation_overlaps_until_deadline_witness:
  "\<exists>row \<in> set (ks_keys one_key_store). ak_tier row = ''enterprise'' \<and>
     get_api_key_by_hash (ak_hash row) 10000007 (snd (rotate_api_key id ''k2'' ''ll_b'' 7 ''k1'' 10 one_key_store)) \<noteq> None \<and>
     get_api_key_by_hash (ak_hash row) 10000008 (snd (rotate_api_key id ''k2'' ''ll_b'' 7 ''k1'' 10 one_key_store)) = None"
proof -
  from rotation_overlaps_until_deadline [OF one_key_reachable rotate_one_key] obtain row where row: "row \<in> set (ks_keys one_key_store)"
    "\<forall>later. get_api_key_by_hash (ak_hash row) later (one_key_store\<lparr>ks_keys := [start_rotation 10000007 ''k2'' (hd (ks_keys one_key_store)),
       replacement_key ''k2'' ''ll_b'' 7 (hd (ks_keys one_key_store))]\<rparr>) \<noteq> None \<longleftrightarrow> later \<le> 7 + 10 * 1000000 \<and> \<not> expired row later" by blast
  have "ak_tier row = ''enterprise''" "\<not> expired row later" for later
    using row(1) by (auto simp: one_key_rows expired_def)
  moreover have "(10000007::int) \<le> 7 + 10 * 1000000" "\<not> (10000008::int) \<le> 7 + 10 * 1000000" by simp_all
  ultimately show ?thesis
    using row unfolding rotate_one_key snd_conv by (intro bexI [OF _ row(1)]) metis
qed

text \<open>A rotation does not look at an earlier grace period: a key whose deadline has passed, and that no longer
  authenticates, is brought back by rotating it again before a sweep has revoked it.\<close>

theorem second_rotation_revives_expired_key:
  assumes "key_steps hash empty_store s" "row \<in> set (ks_keys s)" "ak_status row = Key_rotating" "\<not> ak_revoked row"
    and "deadline_passed row now" "\<not> expired row now" "0 \<le> grace"
    and "rotate_api_key hash new_id new_plain now (ak_id row) grace s = (Inr n, t)"
  shows "get_api_key_by_hash (ak_hash row) now s = None \<and> get_api_key_by_hash (ak_hash row) now t \<noteq> None"
proof -
  have ok: "store_ok s" by (rule steps_ok [OF assms(1) empty_ok])
  from rotated_store [OF this assms(8)] obtain r where r: "r \<in> set (ks_keys s)" "ak_id r = ak_id row" "store_ok t"
      "start_rotation (now + grace * 1000000) new_id r \<in> set (ks_keys t)" by blast
  then have "r = row" using ok assms(2) by (auto simp: store_ok_def distinct_map inj_on_def)
  with authenticates_iff [OF r(3,4), of now] authenticates_iff [OF ok assms(2), of now] assms
  show ?thesis by (simp add: start_rotation_def expired_def deadline_passed_def)
qed

theorem second_rotation_revives_expired_key_witness:
  "get_api_key_by_hash ''ll_a'' 10000008 (snd (rotate_api_key id ''k2'' ''ll_b'' 7 ''k1'' 10 one_key_store)) = None \<and>
   get_api_key_by_hash ''ll_a'' 10000008 (snd (rotate_api_key id ''k3'' ''ll_c'' 10000008 ''k1'' 10
     (snd (rotate_api_key id ''k2'' ''ll_b'' 7 ''k1'' 10 one_key_store)))) \<noteq> None"
proof -
  let ?s = "snd (rotate_api_key id ''k2'' ''ll_b'' 7 ''k1'' 10 one_key_store)"
  let ?row = "start_rotation 10000007 ''k2'' (hd (ks_keys one_key_store))"
  let ?again = "rotate_api_key id ''k3'' ''ll_c'' 10000008 ''k1'' 10 ?s"
  have s: "key_steps id empty_store ?s" by (rule steps_step [OF one_key_reachable step_rotate])
  have row: "?row \<in> set (ks_keys ?s)" by (simp add: rotate_one_key)
  have facts: "ak_status ?row = Key_rotating" "\<not> ak_revoked ?row" "deadline_passed ?row 10000008" "\<not> expired ?row 10000008"
      "ak_id ?row = ''k1''" "ak_hash ?row = ''ll_a''"
    by (simp_all add: start_rotation_def one_key_rows deadline_passed_def expired_def)
  have "\<exists>n. fst ?again = Inr n"
    by (simp add: rotate_one_key) (simp add: rotate_api_key_def one_key_rows expired_def insert_key_def start_rotation_def replacement_key_def Let_def)
  then obtain n where "?again = (Inr n, snd ?again)" by (metis prod.collapse)
  then have "rotate_api_key id ''k3'' ''ll_c'' 10000008 (ak_id ?row) 10 ?s = (Inr n, snd ?again)" by (simp only: facts(5))
  from second_rotation_revives_expired_key [OF s row facts(1-4) _ this] show ?thesis
    by (simp only: facts(6)) simp
qed

end
