(* ===== verification/Request_Limiter.thy ===== *)
theory Request_Limiter
  imports Circuit_Breaker
begin

text \<open>
  \<open>detection/rate_limiter.py\<close>: the rate limiter that the REST gateway and the gRPC service share. The Lua script runs
  inside Redis, a service: its \<open>GET\<close>, \<open>INCR\<close> and \<open>EXPIRE\<close> are an argument (\<open>redis_ops\<close>), and what
  Redis documents about them is the hypothesis \<open>redis_laws\<close>. One wall clock is shared by the replicas and the server,
  as the source's comment asks for; \<open>tick\<close> is the monotonic clock of a process. Clock readings are rational seconds.
\<close>

definition RATE_LIMITER_FAILURE_THRESHOLD :: int where "RATE_LIMITER_FAILURE_THRESHOLD = 3"
definition RATE_LIMITER_RECOVERY_TIMEOUT_SECONDS :: rat where "RATE_LIMITER_RECOVERY_TIMEOUT_SECONDS = 15"
definition DEFAULT_WINDOW_SECONDS :: rat where "DEFAULT_WINDOW_SECONDS = 60"

record 'r redis_ops =
  redis_get :: "rat \<Rightarrow> string \<Rightarrow> 'r \<Rightarrow> int option"
  redis_incr :: "rat \<Rightarrow> string \<Rightarrow> 'r \<Rightarrow> int \<times> 'r"
  redis_expire :: "rat \<Rightarrow> string \<Rightarrow> int \<Rightarrow> 'r \<Rightarrow> 'r"

text \<open>The script: the count of the previous bucket, weighted by its share of the sliding window, plus the count of the
  current one. \<open>now % window\<close> of Lua is the remainder towards the floor.\<close>

definition elapsed :: "rat \<Rightarrow> rat \<Rightarrow> rat" where
  "elapsed window now = now - of_int \<lfloor>now / window\<rfloor> * window"

definition script_count :: "'r redis_ops \<Rightarrow> rat \<Rightarrow> string \<Rightarrow> 'r \<Rightarrow> int" where
  "script_count ops now k r = (case redis_get ops now k r of None \<Rightarrow> 0 | Some v \<Rightarrow> v)"

definition sliding_window_lua ::
    "'r redis_ops \<Rightarrow> string \<Rightarrow> string \<Rightarrow> int \<Rightarrow> int \<Rightarrow> rat \<Rightarrow> 'r \<Rightarrow> (int \<times> int) \<times> 'r" where
  "sliding_window_lua ops key1 key2 limit window now r =
     (let el = elapsed (of_int window) now;
          weight = (of_int window - el) / of_int window;
          prev = script_count ops now key2 r;
          curr = script_count ops now key1 r;
          estimated = of_int prev * weight + of_int curr
      in if of_int limit \<le> estimated then ((0, \<lfloor>of_int window - el\<rfloor> + 1), r)
         else let (newval, r1) = redis_incr ops now key1 r
              in ((1, 0), if newval = 1 then redis_expire ops now key1 (window * 2) r1 else r1))"

definition bucket_of :: "rat \<Rightarrow> rat \<Rightarrow> int" where
  "bucket_of window now = \<lfloor>now / window\<rfloor>"

definition bucket_key :: "string \<Rightarrow> int \<Rightarrow> string" where
  "bucket_key key_id b = ''ll:ratelimit:{'' @ key_id @ ''}:'' @ str_int b"

definition bucket_keys :: "string \<Rightarrow> rat \<Rightarrow> rat \<Rightarrow> string \<times> string" where
  "bucket_keys key_id window now =
     (bucket_key key_id (bucket_of window now), bucket_key key_id (bucket_of window now - 1))"

text \<open>One process.\<close>

record limiter =
  using_redis :: bool
  local_windows :: "string \<rightharpoonup> rat list"
  circuit :: breaker

definition DistributedRateLimiter :: "string option \<Rightarrow> string \<Rightarrow> bool \<Rightarrow> limiter" where
  "DistributedRateLimiter redis_url quota_store reachable =
     \<lparr>using_redis = (lower quota_store = ''redis'' \<and> redis_url \<noteq> None \<and> redis_url \<noteq> Some '''' \<and> reachable),
      local_windows = Map.empty,
      circuit = CircuitBreaker ''rate_limiter_redis'' RATE_LIMITER_FAILURE_THRESHOLD
        RATE_LIMITER_RECOVERY_TIMEOUT_SECONDS True True\<rparr>"

definition redis_available :: "rat \<Rightarrow> limiter \<Rightarrow> limiter \<times> bool" where
  "redis_available tick l =
     (if using_redis l then (let (c, a) = allow_request tick (circuit l) in (l\<lparr>circuit := c\<rparr>, a)) else (l, False))"

definition local_times :: "string \<Rightarrow> limiter \<Rightarrow> rat list" where
  "local_times key_id l = (case local_windows l key_id of None \<Rightarrow> [] | Some ts \<Rightarrow> ts)"

definition check_local :: "rat \<Rightarrow> string \<Rightarrow> int \<Rightarrow> rat \<Rightarrow> limiter \<Rightarrow> (bool \<times> int) \<times> limiter" where
  "check_local now key_id limit window l =
     (let ts = filter (\<lambda>t. now - window < t) (local_times key_id l)
      in if limit \<le> int (length ts)
         then ((False, \<lfloor>window - (now - hd ts)\<rfloor> + 1), l\<lparr>local_windows := (local_windows l)(key_id \<mapsto> ts)\<rparr>)
         else ((True, 0), l\<lparr>local_windows := (local_windows l)(key_id \<mapsto> ts @ [now])\<rparr>))"

text \<open>What happens to the call of the script: it answers, it does not reach Redis, or Redis runs it and the answer is
  lost (a socket time-out).\<close>

datatype link = Answers | Unreachable | Answer_lost

definition check ::
    "'r redis_ops \<Rightarrow> link \<Rightarrow> rat \<Rightarrow> rat \<Rightarrow> string \<Rightarrow> int \<Rightarrow> rat \<Rightarrow> limiter \<Rightarrow> 'r \<Rightarrow> (bool \<times> int) \<times> limiter \<times> 'r" where
  "check ops lnk wall tick key_id limit window l r =
     (if limit \<le> 0 then ((True, 0), l, r)
      else let (l1, available) = redis_available tick l in
        if available then
          (let (cur_key, prev_key) = bucket_keys key_id window wall;
               (result, r1) = sliding_window_lua ops cur_key prev_key limit \<lfloor>window\<rfloor> wall r
           in case lnk of
                Answers \<Rightarrow> ((fst result \<noteq> 0, snd result), l1\<lparr>circuit := record_success (circuit l1)\<rparr>, r1)
              | Unreachable \<Rightarrow>
                  (let (res, l2) = check_local tick key_id limit window
                         (l1\<lparr>circuit := record_failure tick (circuit l1)\<rparr>) in (res, l2, r))
              | Answer_lost \<Rightarrow>
                  (let (res, l2) = check_local tick key_id limit window
                         (l1\<lparr>circuit := record_failure tick (circuit l1)\<rparr>) in (res, l2, r1)))
        else (let (res, l2) = check_local tick key_id limit window l1 in (res, l2, r)))"

text \<open>Several processes, one Redis: the requests in the order in which they are decided.\<close>

record request =
  rq_replica :: nat
  rq_key :: string
  rq_wall :: rat
  rq_tick :: rat
  rq_link :: link

fun serve_all ::
    "'r redis_ops \<Rightarrow> (string \<Rightarrow> int) \<Rightarrow> rat \<Rightarrow> request list \<Rightarrow> (nat \<Rightarrow> limiter) \<Rightarrow> 'r \<Rightarrow> bool list \<times> (nat \<Rightarrow> limiter) \<times> 'r" where
  "serve_all ops limits window [] fleet r = ([], fleet, r)"
| "serve_all ops limits window (q # qs) fleet r =
     (let ((ok, _), l, r1) = check ops (rq_link q) (rq_wall q) (rq_tick q) (rq_key q) (limits (rq_key q)) window
            (fleet (rq_replica q)) r;
          (oks, fleet', r2) = serve_all ops limits window qs (fleet(rq_replica q := l)) r1
      in (ok # oks, fleet', r2))"

subsection \<open>The contract of Redis and the reference definition\<close>

text \<open>A key holds an integer and possibly an instant at which it expires.\<close>

type_synonym redis_view = "string \<rightharpoonup> int \<times> rat option"

definition alive :: "rat \<Rightarrow> rat option \<Rightarrow> bool" where
  "alive now d = (case d of None \<Rightarrow> True | Some e \<Rightarrow> now < e)"

definition view_get :: "rat \<Rightarrow> string \<Rightarrow> redis_view \<Rightarrow> int option" where
  "view_get now k m = (case m k of None \<Rightarrow> None | Some (v, d) \<Rightarrow> if alive now d then Some v else None)"

definition view_incr :: "rat \<Rightarrow> string \<Rightarrow> redis_view \<Rightarrow> int \<times> redis_view" where
  "view_incr now k m =
     (case m k of
        Some (v, d) \<Rightarrow> if alive now d then (v + 1, m(k \<mapsto> (v + 1, d))) else (1, m(k \<mapsto> (1, None)))
      | None \<Rightarrow> (1, m(k \<mapsto> (1, None))))"

definition view_expire :: "rat \<Rightarrow> string \<Rightarrow> int \<Rightarrow> redis_view \<Rightarrow> redis_view" where
  "view_expire now k n m =
     (case m k of
        Some (v, d) \<Rightarrow> if alive now d then m(k \<mapsto> (v, Some (now + of_int n))) else m
      | None \<Rightarrow> m)"

definition redis_laws :: "'r redis_ops \<Rightarrow> ('r \<Rightarrow> redis_view) \<Rightarrow> bool" where
  "redis_laws ops view \<longleftrightarrow>
     (\<forall>now k r. redis_get ops now k r = view_get now k (view r)) \<and>
     (\<forall>now k r. fst (redis_incr ops now k r) = fst (view_incr now k (view r)) \<and>
        view (snd (redis_incr ops now k r)) = snd (view_incr now k (view r))) \<and>
     (\<forall>now k n r. view (redis_expire ops now k n r) = view_expire now k n (view r))"

text \<open>The reference: one log of the admitted requests, in which the requests of a bucket are counted.\<close>

definition admitted_in :: "rat \<Rightarrow> string \<Rightarrow> int \<Rightarrow> (string \<times> rat) list \<Rightarrow> nat" where
  "admitted_in window k b adm = length (filter (\<lambda>(k', t). k' = k \<and> bucket_of window t = b) adm)"

definition sliding_admits :: "int \<Rightarrow> rat \<Rightarrow> string \<Rightarrow> rat \<Rightarrow> (string \<times> rat) list \<Rightarrow> bool" where
  "sliding_admits limit window k now adm \<longleftrightarrow>
     limit \<le> 0 \<or>
     of_nat (admitted_in window k (bucket_of window now - 1) adm) * ((window - elapsed window now) / window) +
       of_nat (admitted_in window k (bucket_of window now) adm) < (of_int limit :: rat)"

fun sliding_run :: "(string \<Rightarrow> int) \<Rightarrow> rat \<Rightarrow> request list \<Rightarrow> (string \<times> rat) list \<Rightarrow> bool list \<times> (string \<times> rat) list" where
  "sliding_run limits window [] adm = ([], adm)"
| "sliding_run limits window (q # qs) adm =
     (let ok = sliding_admits (limits (rq_key q)) window (rq_key q) (rq_wall q) adm;
          (oks, adm') = sliding_run limits window qs (if ok then adm @ [(rq_key q, rq_wall q)] else adm)
      in (ok # oks, adm'))"

subsection \<open>Bucket keys\<close>

lemma str_int_chars: "c \<in> set (str_int i) \<Longrightarrow> c = CHR ''-'' \<or> is_digit c"
  using str_nat_digits by (auto simp: str_int_def split: if_splits)

lemma append_last_mark:
  assumes "xs @ c # ys = xs' @ c # ys'" "c \<notin> set ys" "c \<notin> set ys'"
  shows "xs = xs' \<and> ys = ys'"
proof -
  have "takeWhile (\<lambda>d. d \<noteq> c) (rev (zs @ c # us)) = rev us" if "c \<notin> set us" for zs us
    using that by (simp add: takeWhile_append)
  with assms have "rev ys = rev ys'" by metis
  with assms(1) show ?thesis by simp
qed

lemma bucket_key_inj [simp]: "bucket_key k b = bucket_key k' b' \<longleftrightarrow> k = k' \<and> b = b'"
proof
  assume eq: "bucket_key k b = bucket_key k' b'"
  have colon: "CHR '':'' \<notin> set (str_int i)" for i
    using str_int_chars [of "CHR '':''" i] by (auto simp: is_digit_def)
  from eq have "(k @ ''}'') @ CHR '':'' # str_int b = (k' @ ''}'') @ CHR '':'' # str_int b'"
    by (simp add: bucket_key_def)
  then show "k = k' \<and> b = b'"
    using append_last_mark colon str_int_inj by (metis append_same_eq)
qed auto

subsection \<open>The shared limiter is the reference\<close>

definition slot_holds :: "rat \<Rightarrow> int \<Rightarrow> nat \<Rightarrow> (int \<times> rat option) option \<Rightarrow> bool" where
  "slot_holds window b n e \<longleftrightarrow>
     (if n = 0 then e = None else \<exists>d. e = Some (int n, Some d) \<and> of_int (b + 2) * window \<le> d)"

definition counts_match :: "(string \<Rightarrow> int) \<Rightarrow> rat \<Rightarrow> (string \<times> rat) list \<Rightarrow> redis_view \<Rightarrow> bool" where
  "counts_match limits window adm m \<longleftrightarrow>
     (\<forall>k b. 0 < limits k \<longrightarrow> slot_holds window b (admitted_in window k b adm) (m (bucket_key k b)))"

lemma bucket_bounds:
  assumes "0 < window"
  shows "of_int (bucket_of window now) * window \<le> now" "now < of_int (bucket_of window now + 1) * window"
    "0 \<le> elapsed window now" "elapsed window now < window"
proof -
  have "of_int \<lfloor>now / window\<rfloor> \<le> now / window" "now / window < of_int \<lfloor>now / window\<rfloor> + 1" by linarith+
  with assms show *: "of_int (bucket_of window now) * window \<le> now" "now < of_int (bucket_of window now + 1) * window"
    unfolding bucket_of_def of_int_add of_int_1
    by (simp_all only: pos_le_divide_eq [OF assms] pos_divide_less_eq [OF assms])
  then show "0 \<le> elapsed window now" "elapsed window now < window"
    by (simp_all add: elapsed_def bucket_of_def algebra_simps)
qed

lemma counted:
  assumes "counts_match limits window adm m" "0 < limits k" "now < of_int (b + 2) * window"
  shows "(case view_get now (bucket_key k b) m of None \<Rightarrow> 0 | Some v \<Rightarrow> v) = int (admitted_in window k b adm)"
proof -
  from assms(1,2) have "slot_holds window b (admitted_in window k b adm) (m (bucket_key k b))"
    unfolding counts_match_def by blast
  then show ?thesis
    using assms(3) by (auto simp: slot_holds_def view_get_def alive_def split: if_splits)
qed

lemma admitted_in_snoc:
  "admitted_in window k b (adm @ [(k', t)]) = admitted_in window k b adm + (if k' = k \<and> bucket_of window t = b then 1 else 0)"
  by (simp add: admitted_in_def)

lemma counts_match_admit:
  assumes "counts_match limits window adm m" "0 < window" "0 < limits k" and that: "window = of_int w"
    and c_def: "c = bucket_key k (bucket_of window now)"
  shows "counts_match limits window (adm @ [(k, now)])
     (let (n, m1) = view_incr now c m in if n = 1 then view_expire now c (w * 2) m1 else m1)"
proof -
  let ?b = "bucket_of window now"
  let ?m = "let (n, m1) = view_incr now c m in if n = 1 then view_expire now c (w * 2) m1 else m1"
  have now: "of_int ?b * window \<le> now" "now < of_int (?b + 1) * window" using bucket_bounds [OF assms(2)] by blast+
  have fresh: "of_int (?b + 2) * window \<le> now + of_int (w * 2)" using now(1) that by (simp add: algebra_simps)
  have "now < of_int (?b + 2) * window" using now(2) assms(2) by (simp add: algebra_simps)
  then have live: "alive now (Some d)" if "of_int (?b + 2) * window \<le> d" for d
    using that by (simp add: alive_def)
  have here: "slot_holds window ?b (admitted_in window k ?b adm) (m c)"
    using assms(1,3) unfolding counts_match_def c_def by blast
  have mine: "slot_holds window ?b (admitted_in window k ?b adm + 1) (?m c)"
    using here fresh live
    by (auto simp: slot_holds_def view_incr_def view_expire_def alive_def Let_def split: if_splits)
  have other: "?m c' = m c'" if "c' \<noteq> c" for c'
    using that by (auto simp: view_incr_def view_expire_def Let_def split: option.splits prod.splits)
  show ?thesis
    unfolding counts_match_def
  proof (intro allI impI)
    fix k' b assume pos: "0 < limits k'"
    show "slot_holds window b (admitted_in window k' b (adm @ [(k, now)])) (?m (bucket_key k' b))"
    proof (cases "k' = k \<and> b = ?b")
      case True
      with mine show ?thesis by (simp add: admitted_in_snoc c_def)
    next
      case False
      then have "?m (bucket_key k' b) = m (bucket_key k' b)" by (intro other) (auto simp: c_def)
      moreover have "admitted_in window k' b (adm @ [(k, now)]) = admitted_in window k' b adm"
        using False by (auto simp: admitted_in_snoc)
      moreover have "slot_holds window b (admitted_in window k' b adm) (m (bucket_key k' b))"
        using assms(1) pos unfolding counts_match_def by blast
      ultimately show ?thesis by simp
    qed
  qed
qed

definition connected :: "limiter \<Rightarrow> bool" where
  "connected l \<longleftrightarrow> using_redis l \<and> cb_state (circuit l) = CLOSED \<and> failure_count (circuit l) = 0"

lemma connected_available: "connected l \<Longrightarrow> redis_available t l = (l, True)"
  by (simp add: connected_def redis_available_def allow_request_def maybe_transition_to_half_open_def split: option.splits)

lemma script_step:
  fixes now :: rat
  assumes "redis_laws ops view" "counts_match limits (of_int w) adm (view r)" "0 < w" "0 < limits k"
  defines "window \<equiv> of_int w"
  defines "res \<equiv> sliding_window_lua ops (fst (bucket_keys k window now)) (snd (bucket_keys k window now)) (limits k) w now r"
  shows "fst (fst res) \<noteq> 0 \<longleftrightarrow> sliding_admits (limits k) window k now adm"
    and "counts_match limits window (if sliding_admits (limits k) window k now adm then adm @ [(k, now)] else adm) (view (snd res))"
proof -
  let ?b = "bucket_of window now"
  have w: "0 < window" using assms(3) by (simp add: window_def)
  have now: "now < of_int (?b + 1) * window" using bucket_bounds [OF w] by blast
  moreover have "of_int (?b + 1) * window \<le> of_int (?b + 2) * window" using w by (simp add: algebra_simps)
  ultimately have now2: "now < of_int (?b + 2) * window" by linarith
  have get: "script_count ops now c r = (case view_get now c (view r) of None \<Rightarrow> 0 | Some v \<Rightarrow> v)" for c
    using assms(1) by (simp add: redis_laws_def script_count_def)
  note cm = assms(2) [folded window_def]
  have curr: "script_count ops now (bucket_key k ?b) r = int (admitted_in window k ?b adm)"
    unfolding get by (rule counted [OF cm assms(4) now2])
  have prev: "script_count ops now (bucket_key k (?b - 1)) r = int (admitted_in window k (?b - 1) adm)"
    unfolding get by (rule counted [OF cm assms(4)]) (use now in \<open>simp add: add.commute\<close>)
  have adm: "\<not> of_int (limits k) \<le> of_int (int (admitted_in window k (?b - 1) adm)) * ((window - elapsed window now) / window) +
      of_int (int (admitted_in window k ?b adm)) \<longleftrightarrow> sliding_admits (limits k) window k now adm"
    using assms(4) by (simp add: sliding_admits_def not_le)
  have res: "res = (if \<not> sliding_admits (limits k) window k now adm then ((0, \<lfloor>of_int w - elapsed window now\<rfloor> + 1), r)
       else let (newval, r1) = redis_incr ops now (bucket_key k ?b) r
            in ((1, 0), if newval = 1 then redis_expire ops now (bucket_key k ?b) (w * 2) r1 else r1))"
    unfolding adm [symmetric] by (simp add: res_def sliding_window_lua_def bucket_keys_def curr prev Let_def window_def [symmetric])
  show "fst (fst res) \<noteq> 0 \<longleftrightarrow> sliding_admits (limits k) window k now adm"
    unfolding res by (auto simp: Let_def split: prod.split)
  have "view (snd res) = (let (n, m1) = view_incr now (bucket_key k ?b) (view r)
      in if n = 1 then view_expire now (bucket_key k ?b) (w * 2) m1 else m1)"
    if "sliding_admits (limits k) window k now adm"
    using that assms(1) unfolding res by (auto simp: redis_laws_def Let_def split: prod.split)
      (metis fst_conv snd_conv)+
  with counts_match_admit [OF cm w assms(4) _ refl, of w now] cm
  show "counts_match limits window (if sliding_admits (limits k) window k now adm then adm @ [(k, now)] else adm) (view (snd res))"
    by (auto simp: window_def res)
qed

lemma connected_success: "connected l \<Longrightarrow> record_success (circuit l) = circuit l"
  by (simp add: connected_def record_success_def Let_def)

lemma check_connected:
  assumes "connected l" "0 < limit"
  shows "check ops Answers wall t k limit (of_int w) l r =
    (let (result, r1) = sliding_window_lua ops (fst (bucket_keys k (of_int w) wall)) (snd (bucket_keys k (of_int w) wall)) limit w wall r
     in ((fst result \<noteq> 0, snd result), l, r1))"
  using assms by (simp add: check_def connected_available connected_success Let_def split: prod.split)

lemma serve_all_refines:
  assumes "redis_laws ops view" "0 < w" "counts_match limits (of_int w) adm (view r)"
    and "\<forall>q \<in> set qs. rq_link q = Answers" "\<forall>n. connected (fleet n)"
  shows "fst (serve_all ops limits (of_int w) qs fleet r) = fst (sliding_run limits (of_int w) qs adm)"
  using assms(3-5)
proof (induction qs arbitrary: fleet r adm)
  case (Cons q qs)
  let ?k = "rq_key q" and ?now = "rq_wall q"
  obtain ok ra l r1 where c: "check ops (rq_link q) ?now (rq_tick q) ?k (limits ?k) (of_int w) (fleet (rq_replica q)) r = ((ok, ra), l, r1)"
    by (metis prod.exhaust)
  have lnk: "rq_link q = Answers" using Cons.prems(2) by simp
  have conn: "connected (fleet (rq_replica q))" using Cons.prems(3) by blast
  let ?a = "sliding_admits (limits ?k) (of_int w) ?k ?now adm"
  have "l = fleet (rq_replica q) \<and> ok = ?a \<and>
      counts_match limits (of_int w) (if ok then adm @ [(?k, ?now)] else adm) (view r1)"
  proof (cases "0 < limits ?k")
    case True
    from c [unfolded lnk check_connected [OF conn True]] script_step [OF assms(1) Cons.prems(1) assms(2) True, of ?now]
    show ?thesis by (auto simp: Let_def split: prod.splits)
  next
    case False
    with c have same: "ok" "l = fleet (rq_replica q)" "r1 = r" by (auto simp: check_def)
    have "admitted_in (of_int w) k b (adm @ [(?k, ?now)]) = admitted_in (of_int w) k b adm" if "0 < limits k" for k b
      using that False by (auto simp: admitted_in_snoc)
    with Cons.prems(1) have "counts_match limits (of_int w) (adm @ [(?k, ?now)]) (view r)"
      unfolding counts_match_def by simp
    with same False show ?thesis by (simp add: sliding_admits_def)
  qed
  then have step: "l = fleet (rq_replica q)" "ok = ?a"
      "counts_match limits (of_int w) (if ok then adm @ [(?k, ?now)] else adm) (view r1)" by blast+
  have ih: "fst (serve_all ops limits (of_int w) qs fleet r1) =
      fst (sliding_run limits (of_int w) qs (if ok then adm @ [(?k, ?now)] else adm))"
    using Cons.IH [OF step(3) _ Cons.prems(3)] Cons.prems(2) by simp
  show ?case
    using c ih unfolding step(1,2) by (simp add: Let_def case_prod_beta)
qed simp

text \<open>C8: While Redis answers, the requests of any number of processes, over any keys and with any clock readings, are decided
  exactly as one sliding-window counter over one log decides them: no count is lost to expiry, to another process or to
  another key.\<close>

theorem distributed_limiter_refines_log:
  assumes "redis_laws ops view" "view r0 = Map.empty" "0 < w"
    and "\<forall>q \<in> set qs. rq_link q = Answers" "\<forall>n. connected (fleet n)"
  shows "fst (serve_all ops limits (of_int w) qs fleet r0) = fst (sliding_run limits (of_int w) qs [])"
proof (rule serve_all_refines [OF assms(1,3) _ assms(4,5)])
  show "counts_match limits (of_int w) [] (view r0)"
    using assms(2) by (simp add: counts_match_def slot_holds_def admitted_in_def)
qed

text \<open>An instance of the contract: the view itself.\<close>

definition map_redis :: "redis_view redis_ops" where
  "map_redis = \<lparr>redis_get = view_get, redis_incr = view_incr, redis_expire = view_expire\<rparr>"

lemma map_redis_laws: "redis_laws map_redis (\<lambda>m. m)"
  by (simp add: redis_laws_def map_redis_def)

definition one_key :: "nat \<Rightarrow> rat \<Rightarrow> request" where
  "one_key n t = \<lparr>rq_replica = n, rq_key = ''k'', rq_wall = t, rq_tick = t, rq_link = Answers\<rparr>"

lemma fresh_connected: "connected (DistributedRateLimiter (Some ''redis://r'') ''redis'' True)"
  by (simp add: connected_def DistributedRateLimiter_def CircuitBreaker_def lower_def lower_char_def)

theorem distributed_limiter_refines_log_witness:
  "fst (serve_all map_redis (\<lambda>_. 2) 60 [one_key 0 1, one_key 1 2, one_key 2 3, one_key 0 90, one_key 1 91]
      (\<lambda>_. DistributedRateLimiter (Some ''redis://r'') ''redis'' True) Map.empty) = [True, True, False, True, True]"
proof -
  have "\<forall>q \<in> set [one_key 0 1, one_key 1 2, one_key 2 3, one_key 0 90, one_key 1 91]. rq_link q = Answers"
    by (simp add: one_key_def)
  note d = distributed_limiter_refines_log [OF map_redis_laws, of Map.empty 60, OF refl _ this,
      of "\<lambda>_. DistributedRateLimiter (Some ''redis://r'') ''redis'' True" "\<lambda>_. 2"]
  have "fst (sliding_run (\<lambda>_. 2) 60 [one_key 0 1, one_key 1 2, one_key 2 3, one_key 0 90, one_key 1 91] [])
      = [True, True, False, True, True]"
    by code_simp
  with d show ?thesis by (simp add: fresh_connected)
qed

subsection \<open>What the limiter bounds\<close>

text \<open>The requests admitted by a run of the reference, in order.\<close>

lemma sliding_run_log:
  "\<exists>new. snd (sliding_run limits window qs adm) = adm @ new"
proof (induction qs arbitrary: adm)
  case (Cons q qs)
  then show ?case by (auto simp: Let_def case_prod_beta) (metis append_assoc)+
qed simp

lemma bucket_capped:
  assumes "0 < window" "0 < limits k" "\<forall>b. admitted_in window k b adm \<le> nat (limits k)"
  shows "admitted_in window k b (snd (sliding_run limits window qs adm)) \<le> nat (limits k)"
  using assms(3)
proof (induction qs arbitrary: adm)
  case (Cons q qs)
  let ?a = "sliding_admits (limits (rq_key q)) window (rq_key q) (rq_wall q) adm"
  have "admitted_in window k b (adm @ [(rq_key q, rq_wall q)]) \<le> nat (limits k)" if "?a" for b
  proof (cases "rq_key q = k \<and> bucket_of window (rq_wall q) = b")
    case True
    have "0 \<le> of_nat (admitted_in window k (b - 1) adm) * ((window - elapsed window (rq_wall q)) / window)"
      using bucket_bounds(4) [OF assms(1), of "rq_wall q"] assms(1) by simp
    with that True assms(2) have "(of_nat (admitted_in window k b adm) :: rat) < of_int (limits k)"
      by (auto simp: sliding_admits_def)
    then have "int (admitted_in window k b adm) < limits k"
      by (metis of_int_less_iff of_int_of_nat_eq)
    with True show ?thesis by (simp add: admitted_in_snoc)
  next
    case False
    with Cons.prems show ?thesis by (auto simp: admitted_in_snoc)
  qed
  with Cons show ?case by (simp add: Let_def case_prod_beta)
qed simp

text \<open>The admissions of a key inside one sliding window, ending at any instant.\<close>

definition admitted_within :: "rat \<Rightarrow> string \<Rightarrow> rat \<Rightarrow> (string \<times> rat) list \<Rightarrow> nat" where
  "admitted_within window k t adm = length (filter (\<lambda>(k', t'). k' = k \<and> t - window < t' \<and> t' \<le> t) adm)"

lemma within_two_buckets:
  assumes "0 < window"
  shows "admitted_within window k t adm \<le> admitted_in window k (bucket_of window t - 1) adm + admitted_in window k (bucket_of window t) adm"
proof (induction adm)
  case (Cons e adm)
  obtain k' t' where e: "e = (k', t')" by (cases e)
  have "bucket_of window t' = bucket_of window t - 1 \<or> bucket_of window t' = bucket_of window t"
    if "t - window < t'" "t' \<le> t"
  proof -
    have "(t - window) / window < t' / window" "t' / window \<le> t / window"
      using that assms by (simp_all add: divide_strict_right_mono divide_right_mono)
    moreover have "(t - window) / window = t / window - 1" using assms by (simp add: diff_divide_distrib)
    ultimately show ?thesis unfolding bucket_of_def by linarith
  qed
  with Cons show ?case by (auto simp: admitted_within_def admitted_in_def e)
qed (simp add: admitted_within_def)

text \<open>In any sliding window, a key with a limit is admitted at most twice its limit, over all processes; in each bucket at
  most once.\<close>

theorem distributed_overshoot_bounded:
  assumes "0 < window" "0 < limits k"
  shows "admitted_within window k t (snd (sliding_run limits window qs [])) \<le> 2 * nat (limits k) \<and>
    admitted_in window k b (snd (sliding_run limits window qs [])) \<le> nat (limits k)"
proof -
  have c: "admitted_in window k b (snd (sliding_run limits window qs [])) \<le> nat (limits k)" for b
    by (rule bucket_capped [where limits = limits and k = k, OF assms]) (simp add: admitted_in_def)
  show ?thesis
    using within_two_buckets [OF assms(1), of k t "snd (sliding_run limits window qs [])"]
      c [of "bucket_of window t - 1"] c [of "bucket_of window t"] c [of b] by linarith
qed

theorem distributed_overshoot_bounded_witness:
  "admitted_within 60 ''k'' 61 (snd (sliding_run (\<lambda>_. 1) 60 [one_key 0 59, one_key 1 61] [])) = 2 \<and>
   admitted_within 60 ''k'' 61 (snd (sliding_run (\<lambda>_. 1) 60 [one_key 0 59, one_key 1 61] [])) \<le> 2 * nat 1"
proof
  show "admitted_within 60 ''k'' 61 (snd (sliding_run (\<lambda>_. 1) 60 [one_key 0 59, one_key 1 61] [])) = 2"
    by code_simp
  show "admitted_within 60 ''k'' 61 (snd (sliding_run (\<lambda>_. 1) 60 [one_key 0 59, one_key 1 61] [])) \<le> 2 * nat 1"
    using distributed_overshoot_bounded [of 60 "\<lambda>_. 1" "''k''" 61 "[one_key 0 59, one_key 1 61]" 0] by simp
qed

text \<open>A refused caller that waits for the announced time is admitted, if nobody uses the key meanwhile and the waiting
  ends within the next bucket.\<close>

lemma elapsed_next:
  assumes "0 < window" "window \<le> elapsed window now + d" "elapsed window now + d < 2 * window"
  shows "bucket_of window (now + d) = bucket_of window now + 1" "elapsed window (now + d) = elapsed window now + d - window"
proof -
  have e: "now = of_int (bucket_of window now) * window + elapsed window now"
    by (simp add: elapsed_def bucket_of_def)
  have "(now + d) / window = of_int (bucket_of window now + 1) + (elapsed window now + d - window) / window"
    using assms(1) by (subst e) (simp add: field_simps)
  moreover have "0 \<le> (elapsed window now + d - window) / window" "(elapsed window now + d - window) / window < 1"
    using assms by (simp_all add: divide_simps)
  ultimately show b: "bucket_of window (now + d) = bucket_of window now + 1"
    unfolding bucket_of_def by linarith
  have "now + d = of_int (bucket_of window (now + d)) * window + elapsed window (now + d)"
    by (simp add: elapsed_def bucket_of_def)
  with b e show "elapsed window (now + d) = elapsed window now + d - window"
    by (simp add: algebra_simps)
qed

theorem redis_retry_after_suffices:
  assumes "1 < w" "0 < limit" "admitted_in (of_int w) k (bucket_of (of_int w) now) adm \<le> nat limit"
    and "admitted_in (of_int w) k (bucket_of (of_int w) now + 1) adm = 0"
    and "redis_laws ops view" "counts_match (\<lambda>_. limit) (of_int w) adm (view r)"
    and "sliding_window_lua ops (fst (bucket_keys k (of_int w) now)) (snd (bucket_keys k (of_int w) now)) limit w now r = ((0, ra), r')"
    and "of_int ra \<le> d" "elapsed (of_int w) now + d < 2 * of_int w"
  shows "sliding_admits limit (of_int w) k (now + d) adm"
proof -
  let ?W = "of_int w :: rat" and ?e = "elapsed (of_int w) now"
  have W: "0 < ?W" using assms(1) by simp
  from assms(7) have ra: "ra = \<lfloor>?W - ?e\<rfloor> + 1"
    by (auto simp: sliding_window_lua_def Let_def split: if_splits prod.splits)
  then have "?W < ?e + of_int ra" by linarith
  with assms(8) have d: "?W < ?e + d" by linarith
  note n = elapsed_next [OF W less_imp_le [OF d] assms(9)]
  have "of_nat (admitted_in ?W k (bucket_of ?W now) adm) \<le> (of_nat (nat limit) :: rat)" using assms(3) by simp
  also have "\<dots> = of_int limit" using assms(2) by simp
  finally have cap: "of_nat (admitted_in ?W k (bucket_of ?W now) adm) \<le> (of_int limit :: rat)" .
  have "of_nat (admitted_in ?W k (bucket_of ?W now) adm) * ((?W - (?e + d - ?W)) / ?W) \<le> of_int limit * ((?W - (?e + d - ?W)) / ?W)"
    using assms(9) W by (intro mult_right_mono [OF cap]) simp
  also have "\<dots> < of_int limit * 1"
    using d W assms(2) by (intro mult_strict_left_mono) (simp_all add: divide_less_eq)
  finally show ?thesis using assms(4) by (simp add: sliding_admits_def n)
qed

text \<open>A full bucket leaves the next one only its share of the elapsed time: the burst across the boundary that the module's
  comment describes is refused.\<close>

lemma boundary_burst_refused:
  assumes "0 < window" "0 < limit" "int (admitted_in window k (bucket_of window now - 1) adm) = limit"
    and "sliding_admits limit window k now adm"
  shows "of_nat (admitted_in window k (bucket_of window now) adm) < of_int limit * (elapsed window now / window)"
proof -
  have "of_nat (admitted_in window k (bucket_of window now - 1) adm) = (of_int limit :: rat)"
    using assms(3) by (metis of_int_of_nat_eq)
  with assms(2,4) have "of_int limit * ((window - elapsed window now) / window) +
      of_nat (admitted_in window k (bucket_of window now) adm) < (of_int limit :: rat)"
    by (simp add: sliding_admits_def)
  moreover have "(window - elapsed window now) / window = 1 - elapsed window now / window"
    using assms(1) by (simp add: diff_divide_distrib)
  ultimately show ?thesis by (simp add: algebra_simps)
qed

subsection \<open>Falling back to the process\<close>

text \<open>The times a process admitted for a key.\<close>

fun local_run :: "int \<Rightarrow> rat \<Rightarrow> string \<Rightarrow> rat list \<Rightarrow> limiter \<Rightarrow> bool list \<times> limiter" where
  "local_run limit window k [] l = ([], l)"
| "local_run limit window k (t # ts) l =
     (let ((ok, _), l1) = check_local t k limit window l; (oks, l2) = local_run limit window k ts l1 in (ok # oks, l2))"

definition granted :: "rat list \<Rightarrow> bool list \<Rightarrow> rat list" where
  "granted ts oks = map fst (filter snd (zip ts oks))"

definition recent :: "rat \<Rightarrow> rat \<Rightarrow> rat list \<Rightarrow> rat list" where
  "recent window t ts = filter (\<lambda>t'. t - window < t') ts"

lemma check_local_spec:
  "check_local t k limit window l =
     (let ts = recent window t (local_times k l); ok = int (length ts) < limit
      in ((ok, if ok then 0 else \<lfloor>window - (t - hd ts)\<rfloor> + 1),
          l\<lparr>local_windows := (local_windows l)(k \<mapsto> ts @ (if ok then [t] else []))\<rparr>))"
  by (simp add: check_local_def recent_def Let_def not_less)

lemma local_run_Cons:
  "local_run limit window k (t # ts) l =
     (let ok = int (length (recent window t (local_times k l))) < limit;
          l1 = l\<lparr>local_windows := (local_windows l)(k \<mapsto> recent window t (local_times k l) @ (if ok then [t] else []))\<rparr>
      in (ok # fst (local_run limit window k ts l1), snd (local_run limit window k ts l1)))"
  by (simp add: check_local_spec Let_def case_prod_beta)

declare local_run.simps(2) [simp del]

lemma recent_recent: "t \<le> t' \<Longrightarrow> recent window t' (recent window t ts) = recent window t' ts"
  unfolding recent_def filter_filter by (intro filter_cong) auto

lemma recent_append: "recent window t (xs @ ys) = recent window t xs @ recent window t ys"
  by (simp add: recent_def)

text \<open>The decisions of a process alone follow the log of everything it granted.\<close>

fun log_run :: "int \<Rightarrow> rat \<Rightarrow> rat list \<Rightarrow> rat list \<Rightarrow> bool list" where
  "log_run limit window [] g = []"
| "log_run limit window (t # ts) g =
     (let ok = int (length (recent window t g)) < limit in ok # log_run limit window ts (if ok then g @ [t] else g))"

lemma local_run_log:
  assumes "sorted (t0 # ts)" "\<forall>t \<ge> t0. recent window t (local_times k l) = recent window t g"
  shows "fst (local_run limit window k ts l) = log_run limit window ts g"
  using assms
proof (induction ts arbitrary: l g t0)
  case (Cons t ts)
  let ?ok = "int (length (recent window t g)) < limit"
  let ?l = "l\<lparr>local_windows := (local_windows l)(k \<mapsto> recent window t g @ (if ?ok then [t] else []))\<rparr>"
  have eq: "recent window t (local_times k l) = recent window t g" using Cons.prems by simp
  have "\<forall>t' \<ge> t. recent window t' (local_times k ?l) = recent window t' (if ?ok then g @ [t] else g)"
    by (simp add: local_times_def recent_append recent_recent) (simp add: recent_def)
  moreover have "sorted (t # ts)" using Cons.prems(1) by simp
  ultimately show ?case
    using Cons.IH [of t ?l] by (simp add: local_run_Cons Let_def eq)
qed simp

definition in_window :: "rat \<Rightarrow> rat \<Rightarrow> rat list \<Rightarrow> nat" where
  "in_window window t ts = length (filter (\<lambda>t'. t - window < t' \<and> t' \<le> t) ts)"

lemma length_filter_le_imp:
  "(\<And>x. x \<in> set xs \<Longrightarrow> P x \<Longrightarrow> Q x) \<Longrightarrow> length (filter P xs) \<le> length (filter Q xs)"
  by (induction xs) (auto simp: le_SucI)

lemma log_run_bounded:
  assumes "0 < window" "0 \<le> limit" "\<forall>x \<in> set g. x \<le> t0" "sorted (t0 # ts)" "\<forall>t. int (in_window window t g) \<le> limit"
  shows "int (in_window window t (g @ granted ts (log_run limit window ts g))) \<le> limit"
  using assms(3-5)
proof (induction ts arbitrary: g t0)
  case (Cons u ts)
  let ?ok = "int (length (recent window u g)) < limit"
  have le: "\<forall>x \<in> set (if ?ok then g @ [u] else g). x \<le> u" using Cons.prems(1,2) by auto
  have "int (in_window window s (g @ [u])) \<le> limit" if "?ok" for s
  proof (cases "s - window < u \<and> u \<le> s")
    case True
    then have "in_window window s g \<le> length (recent window u g)"
      unfolding in_window_def recent_def by (intro length_filter_le_imp) auto
    with that True show ?thesis by (simp add: in_window_def)
  next
    case False
    with Cons.prems(3) show ?thesis by (auto simp: in_window_def)
  qed
  with Cons.prems(3) have "\<forall>s. int (in_window window s (if ?ok then g @ [u] else g)) \<le> limit" by simp
  from Cons.IH [OF le _ this] Cons.prems(2)
  show ?case by (cases ?ok) (simp_all add: granted_def Let_def)
qed (simp add: granted_def)


text \<open>Served by one process alone, a key is admitted at most its limit times in any sliding window, and a request is refused
  only when the window ending with it holds that many.\<close>

theorem local_limiter_exact:
  assumes "0 < window" "0 < limit" "sorted ts" "local_windows l k = None"
  defines "oks \<equiv> fst (local_run limit window k ts l)"
  shows "int (in_window window t (granted ts oks)) \<le> limit \<and>
    (i < length ts \<and> \<not> oks ! i \<longrightarrow> limit \<le> int (length (recent window (ts ! i) (granted (take i ts) (take i oks)))))"
proof -
  have "fst (local_run limit window k ts l) = log_run limit window ts []"
  proof (cases ts)
    case (Cons u us)
    show ?thesis
      by (rule local_run_log [of u]) (use assms(3,4) Cons in \<open>simp_all add: local_times_def recent_def\<close>)
  qed simp
  then have oks: "oks = log_run limit window ts []" by (simp add: oks_def)
  have "int (in_window window t ([] @ granted ts (log_run limit window ts []))) \<le> limit"
  proof (cases ts)
    case (Cons u us)
    show ?thesis
      using log_run_bounded [of window limit "[]" u ts t] assms(1-3) Cons by (simp add: in_window_def)
  qed (use assms(2) in \<open>simp add: granted_def in_window_def\<close>)
  moreover have "limit \<le> int (length (recent window (ts ! i) (g @ granted (take i ts) (take i (log_run limit window ts g)))))"
    if "i < length ts" "\<not> log_run limit window ts g ! i" for g
    using that
  proof (induction ts arbitrary: g i)
    case (Cons u us)
    show ?case
      using Cons.prems Cons.IH [of "i - 1" "g @ [u]"] Cons.IH [of "i - 1" g]
      by (cases i) (auto simp: Let_def granted_def split: if_splits)
  qed simp
  note this [of "[]"]
  ultimately show ?thesis by (simp add: oks)
qed

theorem local_limiter_exact_witness:
  "int (in_window 60 61 (granted [1, 2, 61, 61] (fst (local_run 2 60 ''k'' [1, 2, 61, 61] (DistributedRateLimiter None ''redis'' False))))) \<le> 2 \<and>
   fst (local_run 2 60 ''k'' [1, 2, 61, 61] (DistributedRateLimiter None ''redis'' False)) = [True, True, True, False]"
proof
  have "local_windows (DistributedRateLimiter None ''redis'' False) ''k'' = None" by (simp add: DistributedRateLimiter_def)
  then show "int (in_window 60 61 (granted [1, 2, 61, 61] (fst (local_run 2 60 ''k'' [1, 2, 61, 61] (DistributedRateLimiter None ''redis'' False))))) \<le> 2"
    using local_limiter_exact [of 60 2 "[1, 2, 61, 61]"] by simp
  show "fst (local_run 2 60 ''k'' [1, 2, 61, 61] (DistributedRateLimiter None ''redis'' False)) = [True, True, True, False]"
    by code_simp
qed

fun serve_down :: "'r redis_ops \<Rightarrow> int \<Rightarrow> rat \<Rightarrow> string \<Rightarrow> rat list \<Rightarrow> limiter \<Rightarrow> 'r \<Rightarrow> bool list \<times> limiter \<times> 'r" where
  "serve_down ops limit window k [] l r = ([], l, r)"
| "serve_down ops limit window k (t # ts) l r =
     (let ((ok, _), l1, r1) = check ops Unreachable t t k limit window l r;
          (oks, l2, r2) = serve_down ops limit window k ts l1 r1
      in (ok # oks, l2, r2))"

lemma redis_available_circuit: "\<exists>c. fst (redis_available t l) = l\<lparr>circuit := c\<rparr>"
proof (cases "using_redis l")
  case True
  then show ?thesis by (auto simp: redis_available_def case_prod_beta)
next
  case False
  then have "fst (redis_available t l) = l\<lparr>circuit := circuit l\<rparr>" by (simp add: redis_available_def)
  then show ?thesis by blast
qed

lemma check_local_windows:
  assumes "local_windows l = local_windows l'"
  shows "fst (check_local t k limit window l) = fst (check_local t k limit window l')"
    "local_windows (snd (check_local t k limit window l)) = local_windows (snd (check_local t k limit window l'))"
  using assms by (simp_all add: check_local_spec local_times_def Let_def)

lemma check_down:
  assumes "0 < limit" "local_windows l = local_windows l'"
  shows "fst (check ops Unreachable wall t k limit window l r) = fst (check_local t k limit window l')"
    "local_windows (fst (snd (check ops Unreachable wall t k limit window l r))) = local_windows (snd (check_local t k limit window l'))"
    "snd (snd (check ops Unreachable wall t k limit window l r)) = r"
proof -
  obtain c where c: "fst (redis_available t l) = l\<lparr>circuit := c\<rparr>" using redis_available_circuit by blast
  have "local_windows (l\<lparr>circuit := d\<rparr>) = local_windows l'" for d using assms(2) by simp
  note w = check_local_windows [OF this, of t k limit window]
  from assms(1) c show "fst (check ops Unreachable wall t k limit window l r) = fst (check_local t k limit window l')"
    "local_windows (fst (snd (check ops Unreachable wall t k limit window l r))) = local_windows (snd (check_local t k limit window l'))"
    "snd (snd (check ops Unreachable wall t k limit window l r)) = r"
    by (simp_all add: check_def Let_def case_prod_beta w)
qed

text \<open>Redis down: the limiter fails open to the process. Whatever its breaker does, it decides exactly as a limiter that never
  had Redis, and leaves Redis as it is; and while the breaker is open no request reaches Redis, whatever the link would do.\<close>

theorem limiter_fails_open:
  assumes "0 < limit"
  shows "fst (serve_down ops limit window k ts l r) = fst (local_run limit window k ts (l\<lparr>using_redis := False\<rparr>)) \<and>
    snd (snd (serve_down ops limit window k ts l r)) = r \<and>
    (using_redis l \<and> cb_state (circuit l) = OPEN \<and> opened_at (circuit l) = Some t0 \<and> t - t0 < recovery_timeout (circuit l) \<longrightarrow>
       check ops lnk wall t k limit window l r = (let (res, l1) = check_local t k limit window l in (res, l1, r)))"
proof -
  have "fst (serve_down ops limit window k ts l r) = fst (local_run limit window k ts l') \<and>
      snd (snd (serve_down ops limit window k ts l r)) = r" if "local_windows l = local_windows l'" for l l' r
    using that
  proof (induction ts arbitrary: l l' r)
    case (Cons t ts)
    note c = check_down [OF assms Cons.prems, of ops t t k window r]
    let ?c = "check ops Unreachable t t k limit window l r"
    have "fst (serve_down ops limit window k ts (fst (snd ?c)) (snd (snd ?c))) =
        fst (local_run limit window k ts (snd (check_local t k limit window l'))) \<and>
        snd (snd (serve_down ops limit window k ts (fst (snd ?c)) (snd (snd ?c)))) = snd (snd ?c)"
      by (rule Cons.IH [OF c(2)])
    with c show ?case by (simp add: Let_def case_prod_beta local_run.simps(2))
  qed simp
  from this [of l "l\<lparr>using_redis := False\<rparr>" r] show ?thesis
    using assms by (auto simp: check_def redis_available_def allow_request_early Let_def)
qed

theorem limiter_fails_open_witness:
  "fst (serve_down map_redis 2 60 ''k'' [1, 2, 3, 4, 62] (DistributedRateLimiter (Some ''redis://r'') ''redis'' True) Map.empty)
     = [True, True, False, False, True]"
proof -
  have "fst (local_run 2 60 ''k'' [1, 2, 3, 4, 62] ((DistributedRateLimiter (Some ''redis://r'') ''redis'' True)\<lparr>using_redis := False\<rparr>))
     = [True, True, False, False, True]" by code_simp
  with limiter_fails_open [of 2 map_redis 60 "''k''" "[1, 2, 3, 4, 62]"
      "DistributedRateLimiter (Some ''redis://r'') ''redis'' True" Map.empty]
  show ?thesis by simp
qed

end
