(* ===== verification/Api_Policy.thy ===== *)
theory Api_Policy
  imports Api_Keys Request_Limiter
begin

text \<open>
  \<open>api/policy.py\<close>, the dispatch of \<open>api/gateway.py\<close> and the rate-limiting step of \<open>api/waf_middleware.py\<close>: who
  gets through, over the key store of \<open>Api_Keys\<close> and the limiter of \<open>Request_Limiter\<close>. What the route handler does
  is an input. \<open>secrets.compare_digest\<close> raises \<open>TypeError\<close> for text that is not ASCII, so exceptions are values
  here. The injection patterns of the WAF are the argument \<open>scan\<close>.
\<close>

datatype py_exc = Type_error | Value_error | Handler_error

subsection \<open>Tiers\<close>

type_synonym limits = "string \<rightharpoonup> int"
type_synonym tier_table = "string \<rightharpoonup> limits"

definition tier_row :: "int \<Rightarrow> int \<Rightarrow> limits" where
  "tier_row rpm cost = [''requests_per_minute'' \<mapsto> rpm, ''graphql_max_cost'' \<mapsto> cost]"

definition DEFAULT_TIER_LIMITS :: tier_table where
  "DEFAULT_TIER_LIMITS =
     [''anonymous'' \<mapsto> tier_row 30 100, ''free'' \<mapsto> tier_row 60 250, ''standard'' \<mapsto> tier_row 300 1000,
      ''enterprise'' \<mapsto> tier_row 1200 5000, ''admin'' \<mapsto> tier_row 0 0]"

text \<open>The tier file: its path in the environment, its modification time (\<open>None\<close>: \<open>OSError\<close>) and what parsing it
  gives (\<open>None\<close>: unreadable, not JSON, or not an object), with the cache of the last good value.\<close>

record tier_cache =
  tc_path :: string
  tc_mtime :: rat
  tc_data :: tier_table

definition load_tier_file :: "string \<Rightarrow> rat option \<Rightarrow> tier_table option \<Rightarrow> tier_cache \<Rightarrow> tier_table \<times> tier_cache" where
  "load_tier_file path mtime parsed c =
     (if path = '''' then (Map.empty, c)
      else case mtime of
        None \<Rightarrow> (Map.empty, c)
      | Some t \<Rightarrow>
          if tc_path c = path \<and> tc_mtime c = t then (tc_data c, c)
          else (case parsed of
                  None \<Rightarrow> (if tc_path c = path then tc_data c else Map.empty, c)
                | Some data \<Rightarrow> (data, \<lparr>tc_path = path, tc_mtime = t, tc_data = data\<rparr>)))"

definition tier_get :: "tier_table \<Rightarrow> string \<Rightarrow> limits" where
  "tier_get table tier = (case table tier of None \<Rightarrow> Map.empty | Some l \<Rightarrow> l)"

definition get_tier_limits :: "tier_table \<Rightarrow> tier_table \<Rightarrow> string \<Rightarrow> limits" where
  "get_tier_limits file overrides tier =
     (case DEFAULT_TIER_LIMITS tier of None \<Rightarrow> tier_get DEFAULT_TIER_LIMITS ''free'' | Some l \<Rightarrow> l)
       ++ tier_get file tier ++ tier_get overrides tier"

datatype auth_type = Auth_admin | Auth_compliance | Auth_api_key

record key_meta =
  km_id :: string
  km_namespace :: string
  km_scopes :: string
  km_rate_limit :: int
  km_daily :: int
  km_ns_daily :: int
  km_monthly :: int
  km_ns_monthly :: int
  km_auth :: auth_type
  km_tier :: string

definition tier_for :: "key_meta option \<Rightarrow> string" where
  "tier_for meta =
     (case meta of None \<Rightarrow> ''anonymous''
      | Some m \<Rightarrow> if km_auth m = Auth_admin \<or> km_auth m = Auth_compliance then ''admin''
                 else if km_tier m = '''' then ''free'' else km_tier m)"

subsection \<open>Credentials, scopes, quotas\<close>

definition is_ascii :: "string \<Rightarrow> bool" where
  "is_ascii s \<longleftrightarrow> (\<forall>c \<in> set s. (of_char c :: nat) < 128)"

definition compare_digest :: "string \<Rightarrow> string \<Rightarrow> py_exc + bool" where
  "compare_digest a b = (if is_ascii a \<and> is_ascii b then Inr (a = b) else Inl Type_error)"

record credentials =
  cr_admin :: string
  cr_api :: string
  cr_compliance :: string

record policy_settings =
  pol_admin_api_key :: string
  pol_compliance_api_key :: string

definition admin_meta :: key_meta where
  "admin_meta = \<lparr>km_id = ''__admin__'', km_namespace = ''*'', km_scopes = ''admin'', km_rate_limit = 0, km_daily = 0,
     km_ns_daily = 0, km_monthly = 0, km_ns_monthly = 0, km_auth = Auth_admin, km_tier = ''''\<rparr>"

definition compliance_meta :: key_meta where
  "compliance_meta = \<lparr>km_id = ''__compliance__'', km_namespace = ''*'', km_scopes = ''compliance:read'', km_rate_limit = 0,
     km_daily = 0, km_ns_daily = 0, km_monthly = 0, km_ns_monthly = 0, km_auth = Auth_compliance, km_tier = ''''\<rparr>"

definition meta_of :: "api_key \<Rightarrow> key_meta" where
  "meta_of r = \<lparr>km_id = ak_id r, km_namespace = ak_namespace r, km_scopes = ak_scopes r, km_rate_limit = ak_rate_limit r,
     km_daily = ak_daily r, km_ns_daily = ak_ns_daily r, km_monthly = ak_monthly r, km_ns_monthly = ak_ns_monthly r,
     km_auth = Auth_api_key, km_tier = ak_tier r\<rparr>"

definition presented :: "string \<Rightarrow> string \<Rightarrow> py_exc + bool" where
  "presented given configured =
     (if given \<noteq> '''' \<and> configured \<noteq> '''' then compare_digest given configured else Inr False)"

definition resolve_credentials ::
    "(string \<Rightarrow> string) \<Rightarrow> policy_settings \<Rightarrow> time \<Rightarrow> credentials \<Rightarrow> key_store \<Rightarrow> py_exc + key_meta option" where
  "resolve_credentials hash pol now cr store =
     (case presented (cr_admin cr) (pol_admin_api_key pol) of
        Inl e \<Rightarrow> Inl e
      | Inr True \<Rightarrow> Inr (Some admin_meta)
      | Inr False \<Rightarrow>
          (case presented (cr_compliance cr) (pol_compliance_api_key pol) of
             Inl e \<Rightarrow> Inl e
           | Inr True \<Rightarrow> Inr (Some compliance_meta)
           | Inr False \<Rightarrow>
               if cr_api cr = '''' then Inr None
               else Inr (map_option meta_of (get_api_key_by_hash (hash (cr_api cr)) now store))))"

definition check_scope :: "string option \<Rightarrow> key_meta \<Rightarrow> bool" where
  "check_scope required m =
     (case required of None \<Rightarrow> True
      | Some scope \<Rightarrow> (let scopes = split_scopes (km_scopes m) in scope \<in> set scopes \<or> ''admin'' \<in> set scopes))"

datatype quota_header = No_header | Retry_after int | Quota_reset "time option"

text \<open>The clocks of a request: \<open>datetime.now\<close>, \<open>time.time\<close> and \<open>time.monotonic\<close>.\<close>

record clocks =
  ck_now :: time
  ck_wall :: rat
  ck_tick :: rat

definition check_quota ::
    "'r redis_ops \<Rightarrow> link \<Rightarrow> clocks \<Rightarrow> key_meta \<Rightarrow> key_store \<Rightarrow> limiter \<Rightarrow> 'r \<Rightarrow> (bool \<times> quota_header) \<times> limiter \<times> 'r" where
  "check_quota ops lnk ck m store l r =
     (let ((ok, retry), l1, r1) =
        (if 0 < km_rate_limit m
         then check ops lnk (ck_wall ck) (ck_tick ck) (km_id m) (km_rate_limit m) DEFAULT_WINDOW_SECONDS l r
         else ((True, 0), l, r));
        daily = (if 0 < km_daily m then check_daily_quota (km_id m) (km_daily m) (ck_now ck) store else (True, None));
        ns_daily = (if 0 < km_ns_daily m \<and> km_namespace m \<noteq> ''*''
                    then check_namespace_quota (km_namespace m) (km_ns_daily m) (ck_now ck) store else (True, None));
        monthly = (if 0 < km_monthly m then check_monthly_quota (km_id m) (km_monthly m) (ck_now ck) store else (True, None));
        ns_monthly = (if 0 < km_ns_monthly m \<and> km_namespace m \<noteq> ''*''
                      then check_namespace_monthly_quota (km_namespace m) (km_ns_monthly m) (ck_now ck) store else (True, None))
      in (if \<not> ok then (False, Retry_after retry)
          else if \<not> fst daily then (False, Quota_reset (snd daily))
          else if \<not> fst ns_daily then (False, Quota_reset (snd ns_daily))
          else if \<not> fst monthly then (False, Quota_reset (snd monthly))
          else if \<not> fst ns_monthly then (False, Quota_reset (snd ns_monthly))
          else (True, No_header), l1, r1))"

subsection \<open>Enforcement and the gateway\<close>

datatype policy_status = Policy_ok | Unauthenticated | Forbidden | Rate_limited

record policy_decision =
  de_status :: policy_status
  de_meta :: "key_meta option"
  de_header :: quota_header

record 'r gateway =
  gw_store :: key_store
  gw_limiter :: limiter
  gw_redis :: 'r

definition enforce ::
    "'r redis_ops \<Rightarrow> link \<Rightarrow> (string \<Rightarrow> string) \<Rightarrow> policy_settings \<Rightarrow> clocks \<Rightarrow> string option \<Rightarrow> credentials \<Rightarrow> 'r gateway
     \<Rightarrow> (py_exc + policy_decision) \<times> 'r gateway" where
  "enforce ops lnk hash pol ck required_scope cr g =
     (case required_scope of
        None \<Rightarrow> (Inr \<lparr>de_status = Policy_ok, de_meta = None, de_header = No_header\<rparr>, g)
      | Some scope \<Rightarrow>
          (case resolve_credentials hash pol (ck_now ck) cr (gw_store g) of
             Inl e \<Rightarrow> (Inl e, g)
           | Inr None \<Rightarrow> (Inr \<lparr>de_status = Unauthenticated, de_meta = None, de_header = No_header\<rparr>, g)
           | Inr (Some m) \<Rightarrow>
               if \<not> check_scope (Some scope) m
               then (Inr \<lparr>de_status = Forbidden, de_meta = Some m, de_header = No_header\<rparr>, g)
               else (let ((ok, h), l, r) = check_quota ops lnk ck m (gw_store g) (gw_limiter g) (gw_redis g);
                         g' = g\<lparr>gw_limiter := l, gw_redis := r\<rparr>
                     in (Inr (if ok then \<lparr>de_status = Policy_ok, de_meta = Some m, de_header = No_header\<rparr>
                              else \<lparr>de_status = Rate_limited, de_meta = Some m, de_header = h\<rparr>), g'))))"

text \<open>The dispatch of the middleware: the response (or the exception), how often the handler ran, and the state. The handler
  answers a status code or raises; \<open>finished\<close> is the clock when it has.\<close>

definition log_access :: "key_meta option \<Rightarrow> int \<Rightarrow> time \<Rightarrow> 'r gateway \<Rightarrow> 'r gateway" where
  "log_access meta status finished g =
     (let (key_id, ns) = (case meta of None \<Rightarrow> ('''', '''') | Some m \<Rightarrow> (km_id m, km_namespace m))
      in g\<lparr>gw_store := log_gateway_request key_id ns status finished (gw_store g)\<rparr>)"

definition status_code :: "policy_status \<Rightarrow> int" where
  "status_code st = (case st of Unauthenticated \<Rightarrow> 401 | Forbidden \<Rightarrow> 403 | Rate_limited \<Rightarrow> 429 | Policy_ok \<Rightarrow> 200)"

definition gateway_dispatch ::
    "'r redis_ops \<Rightarrow> link \<Rightarrow> (string \<Rightarrow> string) \<Rightarrow> policy_settings \<Rightarrow> bool \<Rightarrow> clocks \<Rightarrow> string option \<Rightarrow> credentials
     \<Rightarrow> py_exc + int \<Rightarrow> time \<Rightarrow> 'r gateway \<Rightarrow> (py_exc + int) \<times> nat \<times> 'r gateway" where
  "gateway_dispatch ops lnk hash pol enabled ck required_scope cr outcome finished g =
     (if \<not> enabled then (outcome, 1, g)
      else case required_scope of
        None \<Rightarrow>
          (case outcome of Inl e \<Rightarrow> (Inl e, 1, g) | Inr status \<Rightarrow> (Inr status, 1, log_access None status finished g))
      | Some scope \<Rightarrow>
          (case enforce ops lnk hash pol ck (Some scope) cr g of
             (Inl e, g1) \<Rightarrow> (Inl e, 0, g1)
           | (Inr d, g1) \<Rightarrow>
               if de_status d \<noteq> Policy_ok then (Inr (status_code (de_status d)), 0, g1)
               else (case outcome of
                       Inl e \<Rightarrow> (Inl e, 1, log_access (de_meta d) 503 finished g1)
                     | Inr status \<Rightarrow> (Inr status, 1, log_access (de_meta d) status finished g1))))"

subsection \<open>The rate-limiting step of the WAF\<close>

definition rate_limit_bucket :: "key_meta option \<Rightarrow> string \<Rightarrow> string" where
  "rate_limit_bucket meta client_ip =
     (case meta of Some m \<Rightarrow> ''key:'' @ km_id m
      | None \<Rightarrow> ''ip:'' @ (if client_ip = '''' then ''unknown'' else client_ip))"

definition check_tier_rate_limit ::
    "'r redis_ops \<Rightarrow> link \<Rightarrow> clocks \<Rightarrow> tier_table \<Rightarrow> tier_table \<Rightarrow> key_meta option \<Rightarrow> string \<Rightarrow> limiter \<Rightarrow> 'r
     \<Rightarrow> (bool \<times> int \<times> string) \<times> limiter \<times> 'r" where
  "check_tier_rate_limit ops lnk ck file overrides meta client_ip l r =
     (let tier = tier_for meta;
          limit = (case get_tier_limits file overrides tier ''requests_per_minute'' of None \<Rightarrow> 0 | Some n \<Rightarrow> n)
      in if limit \<le> 0 then ((True, 0, tier), l, r)
         else (let ((ok, retry), l1, r1) =
                 check ops lnk (ck_wall ck) (ck_tick ck) (rate_limit_bucket meta client_ip) limit DEFAULT_WINDOW_SECONDS l r
               in ((ok, retry, tier), l1, r1)))"

text \<open>The middleware. \<open>content_length\<close> is the header with the value \<open>int\<close> gives it (\<open>Some None\<close>: not a number);
  \<open>scan\<close> is the verdict of the scans of query and body (\<open>Some status\<close> blocks). The handler (\<open>call_next\<close>) is run once
  more when anything in the block has raised; \<open>downstream\<close> are the outcomes of its runs.\<close>

definition waf_dispatch ::
    "'r redis_ops \<Rightarrow> link \<Rightarrow> (string \<Rightarrow> string) \<Rightarrow> policy_settings \<Rightarrow> bool \<Rightarrow> bool \<Rightarrow> clocks \<Rightarrow> tier_table \<Rightarrow> tier_table \<Rightarrow>
     int \<Rightarrow> credentials \<Rightarrow> string \<Rightarrow> int option option \<Rightarrow> int option \<Rightarrow> (nat \<Rightarrow> py_exc + int) \<Rightarrow> 'r gateway
     \<Rightarrow> (py_exc + int) \<times> nat \<times> 'r gateway" where
  "waf_dispatch ops lnk hash pol enabled tier_enabled ck file overrides max_body cr client_ip content_length scan downstream g =
     (if \<not> enabled then (downstream 0, 1, g)
      else
        (let pass = (case downstream 0 of Inr st \<Rightarrow> (Inr st, 1) | Inl e \<Rightarrow> (downstream 1, 2));
             after_limit = (\<lambda>g1.
               case content_length of
                 Some None \<Rightarrow> (downstream 0, 1, g1)
               | Some (Some n) \<Rightarrow>
                   if max_body < n then (Inr 413, 0, g1)
                   else (case scan of Some st \<Rightarrow> (Inr st, 0, g1) | None \<Rightarrow> (fst pass, snd pass, g1))
               | None \<Rightarrow> (case scan of Some st \<Rightarrow> (Inr st, 0, g1) | None \<Rightarrow> (fst pass, snd pass, g1)))
         in if \<not> tier_enabled then after_limit g
            else case resolve_credentials hash pol (ck_now ck) (cr\<lparr>cr_compliance := ''''\<rparr>) (gw_store g) of
              Inl e \<Rightarrow> (downstream 0, 1, g)
            | Inr meta \<Rightarrow>
                (let ((ok, retry, tier), l, r) =
                       check_tier_rate_limit ops lnk ck file overrides meta client_ip (gw_limiter g) (gw_redis g);
                     g1 = g\<lparr>gw_limiter := l, gw_redis := r\<rparr>
                 in if ok then after_limit g1 else (Inr 429, 0, g1))))"

subsection \<open>Key cycling\<close>

definition ip_range :: "string \<Rightarrow> string" where
  "ip_range client_ip =
     (if CHR '':'' \<in> set client_ip
      then concat (map (\<lambda>p. p @ '':'') (butlast (take 3 (split_on CHR '':'' client_ip)))) @ last (take 3 (split_on CHR '':'' client_ip)) @ ''::/48''
      else (let parts = split_on CHR ''.'' client_ip in
            if length parts = 4 then parts ! 0 @ ''.'' @ parts ! 1 @ ''.'' @ parts ! 2 @ ''.0/24''
            else if client_ip = '''' then ''unknown'' else client_ip))"

record cycling =
  cy_threshold :: nat
  cy_window :: rat
  cy_seen :: "string \<Rightarrow> (rat \<times> string) list"
  cy_alerted :: "string \<rightharpoonup> rat"

definition key_cycling_detector :: "nat \<Rightarrow> rat \<Rightarrow> cycling" where
  "key_cycling_detector threshold window =
     \<lparr>cy_threshold = threshold, cy_window = window, cy_seen = (\<lambda>_. []), cy_alerted = Map.empty\<rparr>"

text \<open>The result, and whether an alert is emitted.\<close>

definition observe :: "(string \<Rightarrow> string) \<Rightarrow> string \<Rightarrow> string \<Rightarrow> rat \<Rightarrow> cycling \<Rightarrow> (bool \<times> bool) \<times> cycling" where
  "observe fingerprint client_ip api_key now d =
     (if api_key = '''' then ((False, False), d)
      else
        (let range = ip_range client_ip;
             window = dropWhile (\<lambda>(t, _). cy_window d < now - t) (cy_seen d range @ [(now, fingerprint api_key)]);
             d1 = d\<lparr>cy_seen := (cy_seen d)(range := window)\<rparr>;
             distinct_keys = length (remdups (map snd window))
         in if distinct_keys < cy_threshold d then ((False, False), d1)
            else (let last = (case cy_alerted d range of None \<Rightarrow> - (10 ^ 18) | Some t \<Rightarrow> t);
                      should_alert = (cy_window d < now - last)
                  in ((True, should_alert), if should_alert then d1\<lparr>cy_alerted := (cy_alerted d)(range \<mapsto> now)\<rparr> else d1))))"

subsection \<open>Who gets through\<close>

lemma check_quota_none:
  "check_quota ops lnk ck admin_meta store l r = ((True, No_header), l, r)"
  "check_quota ops lnk ck compliance_meta store l r = ((True, No_header), l, r)"
  by (simp_all add: check_quota_def admin_meta_def compliance_meta_def)

lemma split_scopes_single: "plain_scope s \<Longrightarrow> split_scopes s = [s]"
  using split_scopes_join [of "[s]"] by simp

lemma builtin_scopes:
  "check_scope (Some scope) admin_meta" "check_scope (Some scope) compliance_meta \<longleftrightarrow> scope = ''compliance:read''"
proof -
  have "plain_scope ''admin''" "plain_scope ''compliance:read''"
    by (auto simp: plain_scope_def is_space_def Let_def intro!: strip_id)
  then show "check_scope (Some scope) admin_meta" "check_scope (Some scope) compliance_meta \<longleftrightarrow> scope = ''compliance:read''"
    by (simp_all add: check_scope_def admin_meta_def compliance_meta_def split_scopes_single)
qed

lemma presented_ascii:
  "is_ascii given \<Longrightarrow> is_ascii configured \<Longrightarrow> presented given configured = Inr (given \<noteq> '''' \<and> given = configured)"
  by (auto simp: presented_def compare_digest_def)

text \<open>C3: A protected request is let through exactly by the admin key, by the compliance key for the compliance scope, or by a
  valid API key that carries the scope (or \<open>admin\<close>) and is within its quotas. Configured keys and presented ones are
  ASCII.\<close>

theorem enforce_allows_exactly:
  assumes "is_ascii (cr_admin cr)" "is_ascii (cr_compliance cr)" "is_ascii (pol_admin_api_key pol)" "is_ascii (pol_compliance_api_key pol)"
  defines "admin \<equiv> cr_admin cr \<noteq> '''' \<and> cr_admin cr = pol_admin_api_key pol"
    and "compliance \<equiv> cr_compliance cr \<noteq> '''' \<and> cr_compliance cr = pol_compliance_api_key pol"
  shows "(\<exists>d. fst (enforce ops lnk hash pol ck (Some scope) cr g) = Inr d \<and> de_status d = Policy_ok) \<longleftrightarrow>
    admin \<or> (\<not> admin \<and> compliance \<and> scope = ''compliance:read'') \<or>
    (\<not> admin \<and> \<not> compliance \<and> cr_api cr \<noteq> '''' \<and>
      (\<exists>r. get_api_key_by_hash (hash (cr_api cr)) (ck_now ck) (gw_store g) = Some r \<and>
         (scope \<in> set (split_scopes (ak_scopes r)) \<or> ''admin'' \<in> set (split_scopes (ak_scopes r))) \<and>
         fst (fst (check_quota ops lnk ck (meta_of r) (gw_store g) (gw_limiter g) (gw_redis g)))))"
proof -
  have res: "resolve_credentials hash pol (ck_now ck) cr (gw_store g) =
      Inr (if admin then Some admin_meta else if compliance then Some compliance_meta
        else if cr_api cr = '''' then None else map_option meta_of (get_api_key_by_hash (hash (cr_api cr)) (ck_now ck) (gw_store g)))"
  proof -
    have "presented (cr_admin cr) (pol_admin_api_key pol) = Inr admin"
        "presented (cr_compliance cr) (pol_compliance_api_key pol) = Inr compliance"
      using assms(1-4) by (simp_all add: presented_ascii admin_def compliance_def)
    then show ?thesis by (simp add: resolve_credentials_def split: bool.split)
  qed
  consider "admin" | "\<not> admin" "compliance" | "\<not> admin" "\<not> compliance" by blast
  then show ?thesis
  proof cases
    case 3
    then show ?thesis
      by (cases "get_api_key_by_hash (hash (cr_api cr)) (ck_now ck) (gw_store g)")
        (auto simp: enforce_def res check_scope_def meta_of_def Let_def case_prod_beta)
  qed (simp_all add: enforce_def res builtin_scopes check_quota_none Let_def)
qed

definition demo_gateway :: "redis_view gateway" where
  "demo_gateway = \<lparr>gw_store = one_key_store, gw_limiter = DistributedRateLimiter None ''sqlite'' False, gw_redis = Map.empty\<rparr>"

definition demo_policy :: policy_settings where
  "demo_policy = \<lparr>pol_admin_api_key = ''s3cret'', pol_compliance_api_key = ''''\<rparr>"

definition demo_clock :: clocks where
  "demo_clock = \<lparr>ck_now = 5, ck_wall = 0, ck_tick = 0\<rparr>"

theorem enforce_allows_exactly_witness:
  "\<not> (\<exists>d. fst (enforce map_redis Answers id demo_policy demo_clock (Some ''read:scores'')
        \<lparr>cr_admin = ''guess'', cr_api = ''ll_zzz'', cr_compliance = ''''\<rparr> demo_gateway) = Inr d \<and> de_status d = Policy_ok)"
proof -
  have "get_api_key_by_hash ''ll_zzz'' 5 one_key_store = None"
    by (simp add: get_api_key_by_hash_def one_key_rows)
  then show ?thesis
    using enforce_allows_exactly [of "\<lparr>cr_admin = ''guess'', cr_api = ''ll_zzz'', cr_compliance = ''''\<rparr>" demo_policy
        map_redis Answers id demo_clock "''read:scores''" demo_gateway]
    by (simp add: is_ascii_def demo_policy_def demo_clock_def demo_gateway_def)
qed

text \<open>C32: End to end: after a key has been revoked, whatever else happens to the store, a request to a protected route that
  presents only that key is answered 401 and the handler does not run.\<close>

theorem gateway_rejects_revoked_key:
  assumes "key_steps hash empty_store s" "r \<in> set (ks_keys s)" "ak_hash r = hash plaintext"
    and "key_steps hash (snd (revoke_api_key (ak_id r) s)) (gw_store g)"
  shows "gateway_dispatch ops lnk hash pol True ck (Some scope) \<lparr>cr_admin = '''', cr_api = plaintext, cr_compliance = ''''\<rparr>
    outcome finished g = (Inr 401, 0, g)"
  using revoked_stays_out [OF assms(1,2,4), of "ck_now ck"] assms(3)
  by (simp add: gateway_dispatch_def enforce_def resolve_credentials_def presented_def status_code_def)

theorem gateway_rejects_revoked_key_witness:
  "fst (gateway_dispatch map_redis Answers id demo_policy True demo_clock (Some ''read:scores'')
     \<lparr>cr_admin = '''', cr_api = ''ll_a'', cr_compliance = ''''\<rparr> (Inr 200) 6
     (demo_gateway\<lparr>gw_store := snd (revoke_api_key ''k1'' one_key_store)\<rparr>)) = Inr 401"
proof -
  let ?r = "hd (ks_keys one_key_store)"
  have r: "?r \<in> set (ks_keys one_key_store)" "ak_hash ?r = id ''ll_a''" "ak_id ?r = ''k1''" by (simp_all add: one_key_rows)
  have "key_steps id (snd (revoke_api_key (ak_id ?r) one_key_store))
      (gw_store (demo_gateway\<lparr>gw_store := snd (revoke_api_key ''k1'' one_key_store)\<rparr>))"
    unfolding r(3) by (simp add: steps_refl)
  from gateway_rejects_revoked_key [OF one_key_reachable r(1,2) this] show ?thesis by simp
qed

text \<open>C33: A request whose admin key is not ASCII makes the WAF raise and fail open: the handler is run although the scan would
  have blocked the request, the body is too long and the tier limit is reached.\<close>

theorem waf_fails_open_on_non_ascii_key:
  assumes "cr_admin cr \<noteq> ''''" "\<not> is_ascii (cr_admin cr)" "pol_admin_api_key pol \<noteq> ''''"
  shows "waf_dispatch ops lnk hash pol True True ck file overrides max_body cr client_ip content_length scan downstream g = (downstream 0, 1, g)"
  using assms by (simp add: waf_dispatch_def resolve_credentials_def presented_def compare_digest_def Let_def)

theorem waf_fails_open_on_non_ascii_key_witness:
  "fst (waf_dispatch map_redis Answers id demo_policy True True demo_clock Map.empty Map.empty 1000
      \<lparr>cr_admin = [CHR 0xE9], cr_api = '''', cr_compliance = ''''\<rparr> ''10.0.0.1'' (Some (Some 5000)) (Some 400) (\<lambda>_. Inr 200) demo_gateway) = Inr 200 \<and>
   fst (waf_dispatch map_redis Answers id demo_policy True True demo_clock Map.empty Map.empty 1000
      \<lparr>cr_admin = ''e'', cr_api = '''', cr_compliance = ''''\<rparr> ''10.0.0.1'' (Some (Some 5000)) (Some 400) (\<lambda>_. Inr 200) demo_gateway) = Inr 413"
proof
  show "fst (waf_dispatch map_redis Answers id demo_policy True True demo_clock Map.empty Map.empty 1000
      \<lparr>cr_admin = [CHR 0xE9], cr_api = '''', cr_compliance = ''''\<rparr> ''10.0.0.1'' (Some (Some 5000)) (Some 400) (\<lambda>_. Inr 200) demo_gateway) = Inr 200"
    by (subst waf_fails_open_on_non_ascii_key) (simp_all add: is_ascii_def demo_policy_def)
  show "fst (waf_dispatch map_redis Answers id demo_policy True True demo_clock Map.empty Map.empty 1000
      \<lparr>cr_admin = ''e'', cr_api = '''', cr_compliance = ''''\<rparr> ''10.0.0.1'' (Some (Some 5000)) (Some 400) (\<lambda>_. Inr 200) demo_gateway) = Inr 413"
    by (simp add: waf_dispatch_def resolve_credentials_def presented_def compare_digest_def is_ascii_def demo_policy_def
        check_tier_rate_limit_def get_tier_limits_def tier_for_def DEFAULT_TIER_LIMITS_def tier_row_def tier_get_def
        demo_gateway_def DistributedRateLimiter_def check_def redis_available_def check_local_def local_times_def Let_def)
qed

text \<open>Whenever the handler raises, the WAF runs it a second time: the exception is taken for one of its own.\<close>

lemma waf_reruns_failing_handler:
  assumes "downstream 0 = Inl e"
  shows "waf_dispatch ops lnk hash pol True False ck file overrides max_body cr client_ip None None downstream g = (downstream 1, 2, g)"
  using assms by (simp add: waf_dispatch_def)

subsection \<open>Quotas over a run of the gateway\<close>

record gw_request =
  gr_link :: link
  gr_clocks :: clocks
  gr_scope :: "string option"
  gr_credentials :: credentials
  gr_outcome :: "py_exc + int"
  gr_finished :: time

fun gateway_run ::
    "'r redis_ops \<Rightarrow> (string \<Rightarrow> string) \<Rightarrow> policy_settings \<Rightarrow> gw_request list \<Rightarrow> 'r gateway \<Rightarrow> 'r gateway" where
  "gateway_run ops hash pol [] g = g"
| "gateway_run ops hash pol (q # qs) g =
     (let (_, _, g1) = gateway_dispatch ops (gr_link q) hash pol True (gr_clocks q) (gr_scope q) (gr_credentials q)
            (gr_outcome q) (gr_finished q) g
      in gateway_run ops hash pol qs g1)"

text \<open>One request after the other: each starts after the previous one has finished.\<close>

fun one_by_one :: "time \<Rightarrow> gw_request list \<Rightarrow> bool" where
  "one_by_one t [] \<longleftrightarrow> True"
| "one_by_one t (q # qs) \<longleftrightarrow> t \<le> ck_now (gr_clocks q) \<and> ck_now (gr_clocks q) \<le> gr_finished q \<and> one_by_one (gr_finished q) qs"

definition served_on :: "string \<Rightarrow> int \<Rightarrow> key_store \<Rightarrow> int" where
  "served_on key_id day s = count_log (\<lambda>g. gl_key g = key_id \<and> day_of (gl_recorded_at g) = day) s"

definition reserved_id :: "string \<Rightarrow> bool" where
  "reserved_id k \<longleftrightarrow> k = '''' \<or> k = ''__admin__'' \<or> k = ''__compliance__''"

text \<open>The keys a request at \<open>now\<close> may be logged under: none or a built-in one, or one that is within its daily quota.\<close>

definition may_log :: "string \<Rightarrow> time \<Rightarrow> key_store \<Rightarrow> bool" where
  "may_log k now s \<longleftrightarrow> reserved_id k \<or>
     (\<exists>r \<in> set (ks_keys s). k = ak_id r \<and> (0 < ak_daily r \<longrightarrow> served_on (ak_id r) (day_of now) s < ak_daily r))"

lemma enforce_state: "gw_store (snd (enforce ops lnk hash pol ck sc cr g)) = gw_store g"
  by (auto simp: enforce_def Let_def split: option.splits sum.splits prod.splits)

lemma get_by_hash_member: "get_api_key_by_hash h now s = Some r \<Longrightarrow> r \<in> set (ks_keys s)"
  by (auto simp: get_api_key_by_hash_def split: option.splits if_splits dest: find_SomeD)

lemma enforce_ok_meta:
  assumes "enforce ops lnk hash pol ck (Some sc) cr g = (Inr d, g1)" "de_status d = Policy_ok"
  shows "\<exists>m. de_meta d = Some m \<and> may_log (km_id m) (ck_now ck) (gw_store g)"
proof -
  obtain m where m: "resolve_credentials hash pol (ck_now ck) cr (gw_store g) = Inr (Some m)" "de_meta d = Some m"
      "fst (fst (check_quota ops lnk ck m (gw_store g) (gw_limiter g) (gw_redis g)))"
    using assms by (auto simp: enforce_def Let_def split: sum.splits option.splits prod.splits if_splits)
  consider "m = admin_meta" | "m = compliance_meta" | r where "r \<in> set (ks_keys (gw_store g))" "m = meta_of r"
    using m(1) by (auto simp: resolve_credentials_def dest: get_by_hash_member split: sum.splits bool.splits if_splits)
  then show ?thesis
  proof cases
    case 3
    with m(3) have "0 < ak_daily r \<longrightarrow> served_on (ak_id r) (day_of (ck_now ck)) (gw_store g) < ak_daily r"
      by (auto simp: check_quota_def meta_of_def check_daily_quota_def served_on_def Let_def split: prod.splits if_splits)
    with 3 m(2) show ?thesis by (auto simp: may_log_def meta_of_def)
  qed (use m(2) in \<open>auto simp: may_log_def reserved_id_def admin_meta_def compliance_meta_def\<close>)
qed

text \<open>What a dispatch does to the log: nothing, or one row at the end of the request.\<close>

lemma dispatch_log:
  assumes "gateway_dispatch ops lnk hash pol True ck sc cr outcome finished g = (res, n, g1)"
  shows "ks_keys (gw_store g1) = ks_keys (gw_store g)"
    and "ks_log (gw_store g1) = ks_log (gw_store g) \<or>
      (\<exists>row. ks_log (gw_store g1) = ks_log (gw_store g) @ [row] \<and> gl_recorded_at row = finished \<and>
        may_log (gl_key row) (ck_now ck) (gw_store g))"
proof -
  have "ks_keys (gw_store g1) = ks_keys (gw_store g) \<and> (ks_log (gw_store g1) = ks_log (gw_store g) \<or>
      (\<exists>row. ks_log (gw_store g1) = ks_log (gw_store g) @ [row] \<and> gl_recorded_at row = finished \<and>
        may_log (gl_key row) (ck_now ck) (gw_store g)))"
  proof (cases sc)
    case None
    with assms show ?thesis
      by (auto simp: gateway_dispatch_def log_access_def log_gateway_request_def may_log_def reserved_id_def split: sum.splits)
  next
    case (Some scope)
    obtain x g2 where e: "enforce ops lnk hash pol ck (Some scope) cr g = (x, g2)" by fastforce
    have store: "gw_store g2 = gw_store g" using enforce_state [of ops lnk hash pol ck "Some scope" cr g] e by simp
    show ?thesis
    proof (cases "\<exists>d. x = Inr d \<and> de_status d = Policy_ok")
      case True
      then obtain d where d: "x = Inr d" "de_status d = Policy_ok" by blast
      from enforce_ok_meta [OF e [unfolded d(1)] d(2)] obtain m where m: "de_meta d = Some m"
        "may_log (km_id m) (ck_now ck) (gw_store g)" by blast
      with assms d show ?thesis
        by (auto simp: gateway_dispatch_def Some e store log_access_def log_gateway_request_def split: sum.splits)
    next
      case False
      with assms store show ?thesis by (auto simp: gateway_dispatch_def Some e split: sum.splits if_splits)
    qed
  qed
  then show "ks_keys (gw_store g1) = ks_keys (gw_store g)"
    "ks_log (gw_store g1) = ks_log (gw_store g) \<or>
      (\<exists>row. ks_log (gw_store g1) = ks_log (gw_store g) @ [row] \<and> gl_recorded_at row = finished \<and>
        may_log (gl_key row) (ck_now ck) (gw_store g))" by blast+
qed

lemma served_on_append:
  "ks_log t = ks_log s @ [row] \<Longrightarrow>
   served_on k day t = served_on k day s + (if gl_key row = k \<and> day_of (gl_recorded_at row) = day then 1 else 0)"
  by (simp add: served_on_def count_log_def)

lemma served_on_future:
  assumes "\<forall>row \<in> set (ks_log s). gl_recorded_at row \<le> t" "day_of t < day"
  shows "served_on k day s = 0"
proof -
  have "day_of (gl_recorded_at row) < day" if "row \<in> set (ks_log s)" for row
    using assms that zdiv_mono1 [of "gl_recorded_at row" t DAY] by (force simp: day_of_def DAY_def)
  then show ?thesis by (force simp: served_on_def count_log_def filter_empty_conv)
qed

lemma run_within_quota:
  assumes "store_ok (gw_store g)" "r \<in> set (ks_keys (gw_store g))" "0 < ak_daily r" "\<not> reserved_id (ak_id r)"
    and "one_by_one t qs" "\<forall>row \<in> set (ks_log (gw_store g)). gl_recorded_at row \<le> t"
    and "\<forall>day. served_on (ak_id r) day (gw_store g) \<le> ak_daily r"
  shows "served_on (ak_id r) day (gw_store (gateway_run ops hash pol qs g)) \<le> ak_daily r"
  using assms(1,2,5-7)
proof (induction qs arbitrary: g t)
  case (Cons q qs)
  obtain res n g1 where d: "gateway_dispatch ops (gr_link q) hash pol True (gr_clocks q) (gr_scope q) (gr_credentials q)
      (gr_outcome q) (gr_finished q) g = (res, n, g1)" by (metis prod.exhaust)
  note keys = dispatch_log(1) [OF d]
  let ?now = "ck_now (gr_clocks q)" and ?fin = "gr_finished q"
  have times: "t \<le> ?now" "?now \<le> ?fin" "one_by_one ?fin qs" using Cons.prems(3) by simp_all
  have old: "\<forall>row \<in> set (ks_log (gw_store g)). gl_recorded_at row \<le> ?now" using Cons.prems(4) times(1) by force
  have log1: "(\<forall>row \<in> set (ks_log (gw_store g1)). gl_recorded_at row \<le> ?fin) \<and>
      (\<forall>day. served_on (ak_id r) day (gw_store g1) \<le> ak_daily r)"
    using dispatch_log(2) [OF d]
  proof (elim disjE exE conjE)
    assume "ks_log (gw_store g1) = ks_log (gw_store g)"
    with old times(2) Cons.prems(5) show ?thesis by (force simp: served_on_def count_log_def)
  next
    fix row
    assume row: "ks_log (gw_store g1) = ks_log (gw_store g) @ [row]" "gl_recorded_at row = ?fin"
      "may_log (gl_key row) ?now (gw_store g)"
    have "served_on (ak_id r) day (gw_store g1) \<le> ak_daily r" for day
    proof (cases "gl_key row = ak_id r \<and> day_of ?fin = day")
      case True
      with row(3) assms(4) obtain r' where "r' \<in> set (ks_keys (gw_store g))" "ak_id r' = ak_id r"
          "0 < ak_daily r' \<longrightarrow> served_on (ak_id r') (day_of ?now) (gw_store g) < ak_daily r'"
        by (auto simp: may_log_def)
      with Cons.prems(1,2) assms(3) have now: "served_on (ak_id r) (day_of ?now) (gw_store g) < ak_daily r"
        by (metis inj_onD distinct_map store_ok_def)
      have "day_of ?now \<le> day" using True times(2) zdiv_mono1 [of ?now ?fin DAY] by (simp add: day_of_def DAY_def)
      then have "served_on (ak_id r) day (gw_store g) < ak_daily r"
        using now assms(3) served_on_future [OF old, of day] by (cases "day_of ?now = day") simp_all
      then show ?thesis by (simp add: served_on_append [OF row(1)])
    next
      case False
      with Cons.prems(5) show ?thesis by (auto simp: served_on_append [OF row(1)] row(2))
    qed
    with row(1,2) old times(2) show ?thesis by force
  qed
  show ?case
    using Cons.IH [of g1 ?fin] Cons.prems(1,2) times(3) log1 by (simp add: d keys store_ok_def)
qed simp


definition quota_row :: api_key where
  "quota_row = (hd (ks_keys one_key_store))\<lparr>ak_rate_limit := 0, ak_daily := 1\<rparr>"

definition quota_gateway :: "redis_view gateway" where
  "quota_gateway = demo_gateway\<lparr>gw_store := \<lparr>ks_keys = [quota_row], ks_log = []\<rparr>\<rparr>"

definition quota_request :: "time \<Rightarrow> time \<Rightarrow> gw_request" where
  "quota_request start finish =
     \<lparr>gr_link = Answers, gr_clocks = \<lparr>ck_now = start, ck_wall = 0, ck_tick = 0\<rparr>, gr_scope = Some ''read:scores'',
      gr_credentials = \<lparr>cr_admin = '''', cr_api = ''ll_a'', cr_compliance = ''''\<rparr>, gr_outcome = Inr 200, gr_finished = finish\<rparr>"


text \<open>Requests in flight at the same time are checked before any of them is logged, so both pass a quota of one.\<close>

definition both_checked ::
    "'r redis_ops \<Rightarrow> (string \<Rightarrow> string) \<Rightarrow> policy_settings \<Rightarrow> gw_request \<Rightarrow> gw_request \<Rightarrow> 'r gateway
     \<Rightarrow> (py_exc + policy_decision) \<times> (py_exc + policy_decision)" where
  "both_checked ops hash pol p q g =
     (let (d1, g1) = enforce ops (gr_link p) hash pol (gr_clocks p) (gr_scope p) (gr_credentials p) g;
          (d2, g2) = enforce ops (gr_link q) hash pol (gr_clocks q) (gr_scope q) (gr_credentials q) g1
      in (d1, d2))"

lemma concurrent_requests_exceed_quota:
  "case both_checked map_redis id demo_policy (quota_request 1 2) (quota_request 1 2) quota_gateway of
     (Inr d1, Inr d2) \<Rightarrow> de_status d1 = Policy_ok \<and> de_status d2 = Policy_ok | _ \<Rightarrow> False"
  by (simp add: both_checked_def enforce_def quota_request_def resolve_credentials_def presented_def get_api_key_by_hash_def
      quota_gateway_def demo_gateway_def quota_row_def one_key_rows expired_def meta_of_def check_scope_def
      split_scopes_def strip_def is_space_def check_quota_def check_daily_quota_def count_log_def Let_def)

subsection \<open>Key cycling is detected exactly\<close>

type_synonym presentation = "string \<times> string \<times> rat"

fun observe_all :: "(string \<Rightarrow> string) \<Rightarrow> presentation list \<Rightarrow> cycling \<Rightarrow> bool list \<times> cycling" where
  "observe_all fingerprint [] d = ([], d)"
| "observe_all fingerprint ((ip, k, now) # qs) d =
     (let (res, d1) = observe fingerprint ip k now d; (rest, d2) = observe_all fingerprint qs d1 in (fst res # rest, d2))"

text \<open>The reference: the fingerprints a range has shown within the window, out of the whole history.\<close>

definition shown :: "(string \<Rightarrow> string) \<Rightarrow> string \<Rightarrow> presentation list \<Rightarrow> (rat \<times> string) list" where
  "shown fingerprint rng qs = map (\<lambda>(ip, k, t). (t, fingerprint k)) (filter (\<lambda>(ip, k, t). k \<noteq> '''' \<and> ip_range ip = rng) qs)"

definition recent_pairs :: "rat \<Rightarrow> rat \<Rightarrow> (rat \<times> string) list \<Rightarrow> (rat \<times> string) list" where
  "recent_pairs window now ps = filter (\<lambda>(t, _). now - t \<le> window) ps"

definition cycles :: "(string \<Rightarrow> string) \<Rightarrow> nat \<Rightarrow> rat \<Rightarrow> presentation list \<Rightarrow> presentation \<Rightarrow> bool" where
  "cycles fingerprint threshold window before q =
     (case q of (ip, k, now) \<Rightarrow>
        k \<noteq> '''' \<and> threshold \<le> length (remdups (map snd (recent_pairs window now (shown fingerprint (ip_range ip) (before @ [q]))))))"

definition tracks :: "(string \<Rightarrow> string) \<Rightarrow> presentation list \<Rightarrow> rat \<Rightarrow> cycling \<Rightarrow> bool" where
  "tracks fingerprint before t d \<longleftrightarrow>
     (\<forall>rng. sorted (map fst (cy_seen d rng)) \<and> (\<forall>p \<in> set (cy_seen d rng). fst p \<le> t) \<and>
        (\<forall>now \<ge> t. recent_pairs (cy_window d) now (cy_seen d rng) = recent_pairs (cy_window d) now (shown fingerprint rng before)))"

lemma dropWhile_recent:
  "sorted (map fst ps) \<Longrightarrow> dropWhile (\<lambda>(t, _). window < now - t) ps = recent_pairs window now ps"
proof (induction ps)
  case (Cons p ps)
  obtain t x where p: "p = (t, x)" by (cases p)
  show ?case
  proof (cases "window < now - t")
    case False
    with Cons.prems have "\<forall>q \<in> set ps. now - fst q \<le> window" by (force simp: p)
    then have "recent_pairs window now ps = ps" unfolding recent_pairs_def by (intro filter_True) auto
    with False show ?thesis by (simp add: p recent_pairs_def)
  qed (use Cons in \<open>simp add: p recent_pairs_def\<close>)
qed (simp add: recent_pairs_def)

lemma recent_pairs_twice: "now \<le> later \<Longrightarrow> recent_pairs window later (recent_pairs window now ps) = recent_pairs window later ps"
  unfolding recent_pairs_def filter_filter by (intro filter_cong) auto

lemma recent_pairs_append: "recent_pairs window now (ps @ qs) = recent_pairs window now ps @ recent_pairs window now qs"
  by (simp add: recent_pairs_def)

lemma observe_step:
  assumes "tracks fingerprint before t d" "t \<le> now" "0 \<le> cy_window d"
    and o: "observe fingerprint ip k now d = (res, d1)"
  shows "fst res = cycles fingerprint (cy_threshold d) (cy_window d) before (ip, k, now)"
    and "tracks fingerprint (before @ [(ip, k, now)]) now d1 \<and> cy_threshold d1 = cy_threshold d \<and> cy_window d1 = cy_window d"
proof -
  let ?r = "ip_range ip" and ?W = "cy_window d" and ?p = "(now, fingerprint k)"
  have tr: "sorted (map fst (cy_seen d rng))" "\<forall>p \<in> set (cy_seen d rng). fst p \<le> t"
    "\<forall>now \<ge> t. recent_pairs ?W now (cy_seen d rng) = recent_pairs ?W now (shown fingerprint rng before)" for rng
    using assms(1) by (simp_all add: tracks_def)
  have "fst res = cycles fingerprint (cy_threshold d) ?W before (ip, k, now) \<and>
      tracks fingerprint (before @ [(ip, k, now)]) now d1 \<and> cy_threshold d1 = cy_threshold d \<and> cy_window d1 = ?W"
  proof (cases "k = ''''")
    case True
    then have "shown fingerprint rng (before @ [(ip, k, now)]) = shown fingerprint rng before" for rng
      by (simp add: shown_def)
    with True o tr assms(2) show ?thesis by (fastforce simp: observe_def cycles_def tracks_def)
  next
    case False
    define w where "w = dropWhile (\<lambda>(t, _). ?W < now - t) (cy_seen d ?r @ [?p])"
    have srt: "sorted (map fst (cy_seen d ?r @ [?p]))"
      using tr(1,2) [of ?r] assms(2) by (force simp: sorted_append)
    have shown_now: "shown fingerprint rng (before @ [(ip, k, now)]) = shown fingerprint rng before @ (if rng = ?r then [?p] else [])" for rng
      using False by (simp add: shown_def)
    have w: "w = recent_pairs ?W now (shown fingerprint ?r (before @ [(ip, k, now)]))"
      unfolding w_def dropWhile_recent [OF srt] using tr(3) [of ?r] assms(2) by (simp add: shown_now recent_pairs_append)
    have d1: "fst res = cycles fingerprint (cy_threshold d) ?W before (ip, k, now)" "cy_seen d1 = (cy_seen d)(?r := w)"
        "cy_threshold d1 = cy_threshold d" "cy_window d1 = ?W"
      using o False by (auto simp: observe_def Let_def cycles_def w [symmetric] w_def [symmetric] split: if_splits)
    have "sorted (map fst w)" using srt unfolding w_def by (metis dropWhile_eq_drop sorted_wrt_drop drop_map)
    moreover have "\<forall>p \<in> set w. fst p \<le> now"
      using tr(2) [of ?r] assms(2) by (force simp: w_def dest: set_dropWhileD)
    moreover have "\<forall>later \<ge> now. recent_pairs ?W later w = recent_pairs ?W later (shown fingerprint ?r (before @ [(ip, k, now)]))"
      by (simp add: w recent_pairs_twice)
    ultimately have "tracks fingerprint (before @ [(ip, k, now)]) now d1"
      using tr assms(2) by (force simp: tracks_def d1 shown_now)
    with d1 show ?thesis by simp
  qed
  then show "fst res = cycles fingerprint (cy_threshold d) (cy_window d) before (ip, k, now)"
    "tracks fingerprint (before @ [(ip, k, now)]) now d1 \<and> cy_threshold d1 = cy_threshold d \<and> cy_window d1 = cy_window d" by blast+
qed

fun cycles_all :: "(string \<Rightarrow> string) \<Rightarrow> nat \<Rightarrow> rat \<Rightarrow> presentation list \<Rightarrow> presentation list \<Rightarrow> bool list" where
  "cycles_all fingerprint threshold window before [] = []"
| "cycles_all fingerprint threshold window before (q # qs) =
     cycles fingerprint threshold window before q # cycles_all fingerprint threshold window (before @ [q]) qs"

lemma observe_all_tracks:
  assumes "tracks fingerprint before t d" "sorted (t # map (\<lambda>(_, _, u). u) qs)" "0 \<le> cy_window d"
  shows "fst (observe_all fingerprint qs d) = cycles_all fingerprint (cy_threshold d) (cy_window d) before qs"
  using assms
proof (induction qs arbitrary: before t d)
  case (Cons q qs)
  obtain ip k now where q: "q = (ip, k, now)" by (cases q)
  obtain res d1 where o: "observe fingerprint ip k now d = (res, d1)" by fastforce
  have "t \<le> now" using Cons.prems(2) by (simp add: q)
  note s = observe_step [OF Cons.prems(1) this Cons.prems(3) o]
  have "fst (observe_all fingerprint qs d1) = cycles_all fingerprint (cy_threshold d1) (cy_window d1) (before @ [q]) qs"
    by (rule Cons.IH [of _ now]) (use s Cons.prems in \<open>auto simp: q\<close>)
  with s show ?case by (simp add: q o case_prod_beta)
qed simp

text \<open>The bounded queues detect exactly what the whole history shows: a presentation is reported if and only if its address
  range has shown the threshold of distinct keys within the window that ends with it.\<close>

theorem key_cycling_detected_iff:
  assumes "sorted (map (\<lambda>(_, _, t). t) qs)" "0 \<le> window"
  shows "fst (observe_all fingerprint qs (key_cycling_detector threshold window)) = cycles_all fingerprint threshold window [] qs"
proof (cases qs)
  case (Cons q qs')
  obtain ip k now where "q = (ip, k, now)" by (cases q)
  with assms Cons have "sorted (now # map (\<lambda>(_, _, u). u) qs)" by auto
  from observe_all_tracks [OF _ this, of fingerprint "[]" "key_cycling_detector threshold window"] assms(2)
  show ?thesis by (simp add: tracks_def key_cycling_detector_def shown_def recent_pairs_def)
qed simp

theorem key_cycling_detected_iff_witness:
  "fst (observe_all id [(''10.0.0.1'', ''a'', 0), (''10.0.0.9'', ''b'', 30), (''10.0.1.1'', ''c'', 31), (''10.0.0.2'', ''c'', 61)]
     (key_cycling_detector 2 60)) = [False, True, False, True]"
proof -
  have "sorted (map (\<lambda>(_, _, t). t) [(''10.0.0.1'', ''a'', 0), (''10.0.0.9'', ''b'', 30), (''10.0.1.1'', ''c'', 31), (''10.0.0.2'', ''c'', 61 :: rat)])"
    by simp
  note key_cycling_detected_iff [OF this, of 60 id 2]
  moreover have "cycles_all id 2 60 [] [(''10.0.0.1'', ''a'', 0), (''10.0.0.9'', ''b'', 30), (''10.0.1.1'', ''c'', 31), (''10.0.0.2'', ''c'', 61)]
      = [False, True, False, True]" by code_simp
  ultimately show ?thesis by simp
qed

end
