(* ===== verification/Retention.thy ===== *)
theory Retention
  imports LL_Prelude "HOL-Library.Multiset"
begin

text \<open>
  \<open>storage/retention.py\<close>: the archive-then-purge engine and the tiered engine, for one table (the tables are treated one
  after the other). A row is its timestamp text and its other columns. ISO timestamps are compared as text, by SQLite, by
  pandas and by Python; the cutoffs (\<open>(now - timedelta(days=...)).isoformat()\<close>) are arguments. The Parquet files of
  a table are listed with the month directory each is in. \<open>None\<close> is a table that does not exist.
\<close>

type_synonym 'a row = "string \<times> 'a"

definition ts_of :: "'a row \<Rightarrow> string" where "ts_of r = fst r"

definition month_of :: "string \<Rightarrow> string" where "month_of ts = take 7 ts"

type_synonym 'a archive = "(string \<times> 'a row list) list"

subsection \<open>Parquet files\<close>

definition file_rows :: "string \<Rightarrow> 'a archive \<Rightarrow> 'a row list option" where
  "file_rows month files = map_of files month"

text \<open>\<open>pd.concat([existing, part])\<close> when the file exists, else a new file.\<close>

definition append_to_file :: "string \<Rightarrow> 'a row list \<Rightarrow> 'a archive \<Rightarrow> 'a archive" where
  "append_to_file month part files =
     (if month \<in> fst ` set files
      then map (\<lambda>(m, rs). (m, if m = month then rs @ part else rs)) files
      else files @ [(month, part)])"

definition archived :: "'a archive \<Rightarrow> 'a row list" where
  "archived files = concat (map snd files)"

subsection \<open>Archive and purge\<close>

record 'a retained =
  rt_table :: "'a row list option"
  rt_files :: "'a archive"

record retention_report =
  rr_rows :: nat
  rr_path :: "string option"
  rr_skipped :: bool
  rr_dry_run :: bool

text \<open>The two halves of a run that writes: reading and archiving, then deleting.\<close>

definition archive_rows :: "string \<Rightarrow> 'a retained \<Rightarrow> 'a retained" where
  "archive_rows cutoff s =
     (case rt_table s of None \<Rightarrow> s
      | Some rows \<Rightarrow> s\<lparr>rt_files := append_to_file (month_of cutoff) (filter (\<lambda>r. ts_of r < cutoff) rows) (rt_files s)\<rparr>)"

definition purge_rows :: "string \<Rightarrow> 'a retained \<Rightarrow> 'a retained" where
  "purge_rows cutoff s = s\<lparr>rt_table := map_option (filter (\<lambda>r. \<not> ts_of r < cutoff)) (rt_table s)\<rparr>"

definition process_table :: "string \<Rightarrow> bool \<Rightarrow> 'a retained \<Rightarrow> retention_report \<times> 'a retained" where
  "process_table cutoff dry_run s =
     (case rt_table s of
        None \<Rightarrow> (\<lparr>rr_rows = 0, rr_path = None, rr_skipped = True, rr_dry_run = False\<rparr>, s)
      | Some rows \<Rightarrow>
          (let count = length (filter (\<lambda>r. ts_of r < cutoff) rows) in
           if count = 0 then (\<lparr>rr_rows = 0, rr_path = None, rr_skipped = False, rr_dry_run = False\<rparr>, s)
           else if dry_run then (\<lparr>rr_rows = count, rr_path = None, rr_skipped = False, rr_dry_run = True\<rparr>, s)
           else (\<lparr>rr_rows = count, rr_path = Some (month_of cutoff), rr_skipped = False, rr_dry_run = False\<rparr>,
                 purge_rows cutoff (archive_rows cutoff s))))"

subsection \<open>Hot, warm and cold\<close>

record 'a tiers =
  ti_hot :: "'a row list option"
  ti_warm :: "'a row list"
  ti_cold :: "'a archive"

datatype tier_error = Tier_integrity_error | Bad_days

definition tiered_days_ok :: "int \<Rightarrow> int \<Rightarrow> bool" where
  "tiered_days_ok hot_days warm_days \<longleftrightarrow> 0 < hot_days \<and> hot_days < warm_days"

definition hot_rows :: "'a tiers \<Rightarrow> 'a row list" where
  "hot_rows s = (case ti_hot s of None \<Rightarrow> [] | Some rows \<Rightarrow> rows)"

definition hot_to_warm :: "string \<Rightarrow> 'a tiers \<Rightarrow> nat \<times> 'a tiers" where
  "hot_to_warm cutoff s =
     (let moved = filter (\<lambda>r. ts_of r < cutoff) (hot_rows s)
      in (length moved, s\<lparr>ti_hot := map_option (filter (\<lambda>r. \<not> ts_of r < cutoff)) (ti_hot s), ti_warm := ti_warm s @ moved\<rparr>))"

text \<open>Each month of the rows that leave the warm tier goes to its own file; the rows are deleted afterwards.\<close>

definition write_months :: "'a row list \<Rightarrow> 'a archive \<Rightarrow> 'a archive" where
  "write_months df files =
     fold (\<lambda>m fs. append_to_file m (filter (\<lambda>r. month_of (ts_of r) = m) df) fs) (sort (remdups (map (\<lambda>r. month_of (ts_of r)) df))) files"

definition write_cold :: "string \<Rightarrow> 'a tiers \<Rightarrow> 'a tiers" where
  "write_cold cutoff s = s\<lparr>ti_cold := write_months (filter (\<lambda>r. ts_of r < cutoff) (ti_warm s)) (ti_cold s)\<rparr>"

definition drop_warm :: "string \<Rightarrow> 'a tiers \<Rightarrow> 'a tiers" where
  "drop_warm cutoff s = s\<lparr>ti_warm := filter (\<lambda>r. \<not> ts_of r < cutoff) (ti_warm s)\<rparr>"

definition warm_to_cold :: "string \<Rightarrow> 'a tiers \<Rightarrow> nat \<times> 'a tiers" where
  "warm_to_cold cutoff s =
     (let df = filter (\<lambda>r. ts_of r < cutoff) (ti_warm s)
      in if df = [] then (0, s) else (length df, drop_warm cutoff (write_cold cutoff s)))"

definition total_rows :: "'a tiers \<Rightarrow> nat" where
  "total_rows s = length (hot_rows s) + length (ti_warm s) + length (archived (ti_cold s))"

text \<open>The report of a table: rows moved to the warm and to the cold tier. \<open>None\<close>: the table was skipped.\<close>

definition migrate :: "string \<Rightarrow> string \<Rightarrow> 'a tiers \<Rightarrow> (tier_error + (nat \<times> nat) option) \<times> 'a tiers" where
  "migrate hot_cutoff cold_cutoff s =
     (if ti_hot s = None then (Inr None, s)
      else
        (let (to_warm, s1) = hot_to_warm hot_cutoff s;
             (to_cold, s2) = warm_to_cold cold_cutoff s1
         in if total_rows s \<noteq> total_rows s2 then (Inl Tier_integrity_error, s2) else (Inr (Some (to_warm, to_cold)), s2)))"

definition in_range :: "string option \<Rightarrow> string option \<Rightarrow> string \<Rightarrow> bool" where
  "in_range start stop ts \<longleftrightarrow>
     (case start of None \<Rightarrow> True | Some a \<Rightarrow> a \<le> ts) \<and> (case stop of None \<Rightarrow> True | Some b \<Rightarrow> ts < b)"

definition skip_month :: "string option \<Rightarrow> string option \<Rightarrow> string \<Rightarrow> bool" where
  "skip_month start stop month \<longleftrightarrow>
     (case start of None \<Rightarrow> False | Some a \<Rightarrow> month < month_of a) \<or> (case stop of None \<Rightarrow> False | Some b \<Rightarrow> month_of b < month)"

definition query_sqlite :: "string option \<Rightarrow> string option \<Rightarrow> 'a row list \<Rightarrow> 'a row list" where
  "query_sqlite start stop rows = filter (\<lambda>r. in_range start stop (ts_of r)) rows"

definition query_cold :: "string option \<Rightarrow> string option \<Rightarrow> 'a archive \<Rightarrow> 'a row list" where
  "query_cold start stop files =
     concat (map (\<lambda>(m, rs). if skip_month start stop m then [] else filter (\<lambda>r. in_range start stop (ts_of r)) rs) (sort_key fst files))"

definition needs_tier :: "string option \<Rightarrow> string \<Rightarrow> bool" where
  "needs_tier start cutoff \<longleftrightarrow> (case start of None \<Rightarrow> True | Some a \<Rightarrow> a < cutoff)"

definition query :: "string \<Rightarrow> string \<Rightarrow> string option \<Rightarrow> string option \<Rightarrow> 'a tiers \<Rightarrow> 'a row list" where
  "query hot_cutoff cold_cutoff start stop s =
     sort_key ts_of
       (query_sqlite start stop (hot_rows s) @
        (if needs_tier start hot_cutoff then query_sqlite start stop (ti_warm s) else []) @
        (if needs_tier start cold_cutoff then query_cold start stop (ti_cold s) else []))"

subsection \<open>Files keep every row\<close>

lemma archived_append:
  assumes "distinct (map fst files)"
  shows "mset (archived (append_to_file m part files)) = mset (archived files) + mset part"
    and "distinct (map fst (append_to_file m part files))"
proof -
  have upd: "mset (archived (map (\<lambda>(m', rs). (m', if m' = m then rs @ part else rs)) fs)) =
      mset (archived fs) + (if m \<in> fst ` set fs then mset part else {#})" if "distinct (map fst fs)" for fs :: "'a archive"
    using that by (induction fs) (auto simp: archived_def image_iff)
  have keys: "map fst (map (\<lambda>(m', rs). (m', if m' = m then rs @ part else rs)) fs) = map fst fs" for fs :: "'a archive"
    by (induction fs) auto
  show "mset (archived (append_to_file m part files)) = mset (archived files) + mset part"
    using upd [OF assms] by (auto simp: append_to_file_def archived_def)
  show "distinct (map fst (append_to_file m part files))"
    using assms by (auto simp: append_to_file_def keys simp del: map_map)
qed

definition files_ok :: "'a archive \<Rightarrow> bool" where
  "files_ok files \<longleftrightarrow> distinct (map fst files) \<and> (\<forall>(m, rs) \<in> set files. \<forall>r \<in> set rs. month_of (ts_of r) = m)"

lemma append_files_ok:
  assumes "files_ok files" "\<forall>r \<in> set part. month_of (ts_of r) = m"
  shows "files_ok (append_to_file m part files)"
proof -
  have "\<forall>(m', rs) \<in> set (append_to_file m part files). \<forall>r \<in> set rs. month_of (ts_of r) = m'"
    using assms by (fastforce simp: files_ok_def append_to_file_def split: if_splits)
  with archived_append(2) [of files m part] assms(1) show ?thesis by (simp add: files_ok_def)
qed

lemma mset_partition:
  assumes "distinct ms" "\<forall>r \<in> set df. f r \<in> set ms"
  shows "(\<Sum>m\<leftarrow>ms. mset (filter (\<lambda>r. f r = m) df)) = mset df"
  using assms
proof (induction df)
  case (Cons x df)
  have "(\<Sum>m\<leftarrow>ms'. mset (filter (\<lambda>r. f r = m) (x # df))) =
      (\<Sum>m\<leftarrow>ms'. mset (filter (\<lambda>r. f r = m) df)) + (if f x \<in> set ms' then {#x#} else {#})" if "distinct ms'" for ms'
    using that by (induction ms') auto
  with Cons show ?case by simp
qed simp

lemma write_months_rows:
  assumes "files_ok files"
  shows "mset (archived (write_months df files)) = mset (archived files) + mset df \<and> files_ok (write_months df files)"
proof -
  have step: "mset (archived (fold (\<lambda>m fs. append_to_file m (filter (\<lambda>r. month_of (ts_of r) = m) df) fs) ms fs)) =
      mset (archived fs) + (\<Sum>m\<leftarrow>ms. mset (filter (\<lambda>r. month_of (ts_of r) = m) df)) \<and>
      files_ok (fold (\<lambda>m fs. append_to_file m (filter (\<lambda>r. month_of (ts_of r) = m) df) fs) ms fs)" if "files_ok fs" for ms fs
    using that
  proof (induction ms arbitrary: fs)
    case (Cons m ms)
    let ?fs = "append_to_file m (filter (\<lambda>r. month_of (ts_of r) = m) df) fs"
    have "files_ok ?fs" by (rule append_files_ok) (use Cons.prems in auto)
    from Cons.IH [OF this] archived_append(1) [of fs m] Cons.prems show ?case
      by (simp add: files_ok_def ac_simps)
  qed simp
  let ?ms = "sort (remdups (map (\<lambda>r. month_of (ts_of r)) df))"
  have "(\<Sum>m\<leftarrow>?ms. mset (filter (\<lambda>r. month_of (ts_of r) = m) df)) = mset df"
    by (rule mset_partition) auto
  with step [OF assms, of ?ms] show ?thesis by (simp only: write_months_def)
qed

subsection \<open>The tiers are one table\<close>

definition tier_rows :: "'a tiers \<Rightarrow> 'a row list" where
  "tier_rows s = hot_rows s @ ti_warm s @ archived (ti_cold s)"

lemma mset_filter_split: "mset (filter P xs) + mset (filter (\<lambda>x. \<not> P x) xs) = mset xs"
  by (induction xs) auto

lemma hot_to_warm_rows:
  assumes "hot_to_warm cutoff s = (n, t)"
  shows "mset (tier_rows t) = mset (tier_rows s)" "ti_cold t = ti_cold s"
    "set (ti_warm t) = set (ti_warm s) \<union> {r \<in> set (hot_rows s). ts_of r < cutoff}"
proof -
  have t: "hot_rows t = filter (\<lambda>r. \<not> ts_of r < cutoff) (hot_rows s)" "ti_warm t = ti_warm s @ filter (\<lambda>r. ts_of r < cutoff) (hot_rows s)"
    "ti_cold t = ti_cold s"
    using assms by (auto simp: hot_to_warm_def hot_rows_def Let_def split: option.splits)
  then show "ti_cold t = ti_cold s" "set (ti_warm t) = set (ti_warm s) \<union> {r \<in> set (hot_rows s). ts_of r < cutoff}" by auto
  show "mset (tier_rows t) = mset (tier_rows s)"
    using mset_filter_split [of "\<lambda>r. ts_of r < cutoff" "hot_rows s"]
    by (simp add: tier_rows_def t del: mset_filter) (metis add.commute add.left_commute)
qed

lemma warm_to_cold_rows:
  assumes "warm_to_cold cutoff s = (n, t)" "files_ok (ti_cold s)"
  shows "mset (tier_rows t) = mset (tier_rows s)" "files_ok (ti_cold t)" "hot_rows t = hot_rows s"
    "set (ti_warm t) \<subseteq> set (ti_warm s)"
    "set (archived (ti_cold t)) \<subseteq> set (archived (ti_cold s)) \<union> {r \<in> set (ti_warm s). ts_of r < cutoff}"
proof -
  let ?df = "filter (\<lambda>r. ts_of r < cutoff) (ti_warm s)"
  have w: "mset (archived (write_months ?df (ti_cold s))) = mset (archived (ti_cold s)) + mset ?df"
      "files_ok (write_months ?df (ti_cold s))"
    using write_months_rows [OF assms(2)] by blast+
  have t: "t = (if ?df = [] then s else drop_warm cutoff (write_cold cutoff s))"
    using assms(1) by (auto simp: warm_to_cold_def Let_def split: if_splits)
  show "files_ok (ti_cold t)" using w(2) assms(2) by (simp add: t drop_warm_def write_cold_def)
  show "hot_rows t = hot_rows s" "set (ti_warm t) \<subseteq> set (ti_warm s)"
    by (auto simp: t drop_warm_def write_cold_def hot_rows_def)
  have "set (archived (write_months ?df (ti_cold s))) = set (archived (ti_cold s)) \<union> set ?df"
    using w(1) by (metis set_mset_mset set_mset_union)
  then show "set (archived (ti_cold t)) \<subseteq> set (archived (ti_cold s)) \<union> {r \<in> set (ti_warm s). ts_of r < cutoff}"
    by (auto simp: t drop_warm_def write_cold_def)
  show "mset (tier_rows t) = mset (tier_rows s)"
  proof (cases "?df = []")
    case False
    then have "mset (tier_rows t) = mset (hot_rows s) + mset (filter (\<lambda>r. \<not> ts_of r < cutoff) (ti_warm s)) + (mset (archived (ti_cold s)) + mset ?df)"
      using w(1) by (simp add: t tier_rows_def drop_warm_def write_cold_def hot_rows_def del: mset_filter)
    also have "\<dots> = mset (hot_rows s) + (mset ?df + mset (filter (\<lambda>r. \<not> ts_of r < cutoff) (ti_warm s))) + mset (archived (ti_cold s))"
      by (simp only: ac_simps)
    also have "\<dots> = mset (tier_rows s)" unfolding mset_filter_split by (simp add: tier_rows_def)
    finally show ?thesis .
  qed (simp add: t)
qed

text \<open>What holds between migrations: every file holds rows of its month, the warm tier only rows older than the last hot
  cutoff, the cold one only rows older than the last cold cutoff.\<close>

definition tiers_ok :: "string \<Rightarrow> string \<Rightarrow> 'a tiers \<Rightarrow> bool" where
  "tiers_ok hot_cutoff cold_cutoff s \<longleftrightarrow>
     files_ok (ti_cold s) \<and> (\<forall>r \<in> set (ti_warm s). ts_of r < hot_cutoff) \<and> (\<forall>r \<in> set (archived (ti_cold s)). ts_of r < cold_cutoff)"

lemma tiers_ok_later:
  "tiers_ok h c s \<Longrightarrow> h \<le> h' \<Longrightarrow> c \<le> c' \<Longrightarrow> tiers_ok h' c' s"
  unfolding tiers_ok_def by (meson less_le_trans)

lemma migrate_ok:
  assumes "tiers_ok h c s"
  shows "\<exists>res. fst (migrate h c s) = Inr res" "tiers_ok h c (snd (migrate h c s))"
    "mset (tier_rows (snd (migrate h c s))) = mset (tier_rows s)"
proof -
  obtain n1 s1 where h: "hot_to_warm h s = (n1, s1)" by fastforce
  obtain n2 s2 where w: "warm_to_cold c s1 = (n2, s2)" by fastforce
  note hr = hot_to_warm_rows [OF h]
  have f1: "files_ok (ti_cold s1)" using assms by (simp add: hr(2) tiers_ok_def)
  note wr = warm_to_cold_rows [OF w f1]
  have rows: "mset (tier_rows s2) = mset (tier_rows s)" using hr wr by simp
  then have "total_rows s2 = total_rows s"
    by (metis add.assoc length_append mset_eq_length tier_rows_def total_rows_def)
  then have m: "migrate h c s = (if ti_hot s = None then (Inr None, s) else (Inr (Some (n1, n2)), s2))"
    by (simp add: migrate_def h w)
  show "\<exists>res. fst (migrate h c s) = Inr res" by (simp add: m)
  show "mset (tier_rows (snd (migrate h c s))) = mset (tier_rows s)" using rows by (simp add: m)
  have "\<forall>r \<in> set (ti_warm s1). ts_of r < h" using assms hr(3) by (auto simp: tiers_ok_def)
  moreover have "\<forall>r \<in> set (archived (ti_cold s2)). ts_of r < c"
    using assms wr(5) by (auto simp: tiers_ok_def hr(2))
  ultimately have "tiers_ok h c s2" using wr by (auto simp: tiers_ok_def)
  then show "tiers_ok h c (snd (migrate h c s))" using assms by (simp add: m)
qed

subsection \<open>Queries\<close>

lemma take_mono_text:
  fixes s t :: string
  assumes "s \<le> t" shows "take n s \<le> take n t"
  using assms
proof (induction n arbitrary: s t)
  case (Suc n)
  then show ?case by (cases s; cases t) (auto simp: Cons_le_Cons)
qed simp

lemma in_range_not_skipped: "in_range start stop ts \<Longrightarrow> \<not> skip_month start stop (month_of ts)"
  using take_mono_text [of _ ts 7] take_mono_text [of ts _ 7]
  by (auto simp: in_range_def skip_month_def month_of_def not_less split: option.splits)

lemma query_cold_rows:
  assumes "files_ok files"
  shows "mset (query_cold start stop files) = mset (filter (\<lambda>r. in_range start stop (ts_of r)) (archived files))"
proof -
  let ?g = "\<lambda>f. filter (\<lambda>r. in_range start stop (ts_of r)) (snd f)"
  have same: "(case f of (m, rs) \<Rightarrow> if skip_month start stop m then [] else filter (\<lambda>r. in_range start stop (ts_of r)) rs) = ?g f"
    if "f \<in> set files" for f
  proof (cases f)
    case (Pair m rs)
    show ?thesis
    proof (cases "skip_month start stop m")
      case True
      have "\<not> in_range start stop (ts_of r)" if "r \<in> set rs" for r
        using in_range_not_skipped [of start stop "ts_of r"] True assms that \<open>f \<in> set files\<close>
        by (auto simp: files_ok_def Pair)
      then show ?thesis by (simp add: Pair)
    qed (simp add: Pair)
  qed
  have "query_cold start stop files = concat (map ?g (sort_key fst files))"
    unfolding query_cold_def by (intro arg_cong [of _ _ concat] map_cong refl same) simp
  also have "mset \<dots> = (\<Sum>f\<in>#mset (sort_key fst files). mset (?g f))" by (simp add: mset_concat sum_mset_sum_list [symmetric] comp_def)
  also have "\<dots> = mset (concat (map ?g files))" by (simp add: mset_concat sum_mset_sum_list [symmetric] comp_def)
  also have "concat (map ?g files) = filter (\<lambda>r. in_range start stop (ts_of r)) (archived files)"
    by (simp add: archived_def filter_concat comp_def)
  finally show ?thesis .
qed

lemma tier_not_needed:
  assumes "\<not> needs_tier start cutoff" "\<forall>r \<in> set rows. ts_of r < cutoff"
  shows "filter (\<lambda>r. in_range start stop (ts_of r)) rows = []"
  using assms by (fastforce simp: needs_tier_def in_range_def filter_empty_conv split: option.splits)

lemma query_complete:
  assumes "tiers_ok h c s"
  shows "mset (query h c start stop s) = mset (filter (\<lambda>r. in_range start stop (ts_of r)) (tier_rows s))"
    "sorted (map ts_of (query h c start stop s))"
proof -
  have ok: "files_ok (ti_cold s)" "\<forall>r \<in> set (ti_warm s). ts_of r < h" "\<forall>r \<in> set (archived (ti_cold s)). ts_of r < c"
    using assms unfolding tiers_ok_def by blast+
  have warm: "mset (if needs_tier start h then query_sqlite start stop (ti_warm s) else []) =
      mset (filter (\<lambda>r. in_range start stop (ts_of r)) (ti_warm s))"
  proof (cases "needs_tier start h")
    case False
    then show ?thesis using tier_not_needed [OF False ok(2), of stop] by (simp only: if_False)
  qed (simp only: query_sqlite_def if_True)
  have cold: "mset (if needs_tier start c then query_cold start stop (ti_cold s) else []) =
      mset (filter (\<lambda>r. in_range start stop (ts_of r)) (archived (ti_cold s)))"
  proof (cases "needs_tier start c")
    case True
    then show ?thesis using query_cold_rows [OF ok(1), of start stop] by (simp only: if_True)
  next
    case False
    then show ?thesis using tier_not_needed [OF False ok(3), of stop] by (simp only: if_False)
  qed
  show "mset (query h c start stop s) = mset (filter (\<lambda>r. in_range start stop (ts_of r)) (tier_rows s))"
    unfolding query_def mset_sort mset_append warm cold by (simp add: query_sqlite_def tier_rows_def)
  show "sorted (map ts_of (query h c start stop s))" by (simp add: query_def)
qed

subsection \<open>Runs\<close>

text \<open>A life of the table: rows are inserted into the hot database, and migrations run with cutoffs that never go back.\<close>

datatype 'a tier_event = Insert "'a row" | Migrate string string

fun tier_apply :: "'a tier_event \<Rightarrow> 'a tiers \<Rightarrow> 'a tiers" where
  "tier_apply (Insert r) s = s\<lparr>ti_hot := map_option (\<lambda>rows. rows @ [r]) (ti_hot s)\<rparr>"
| "tier_apply (Migrate h c) s = snd (migrate h c s)"

definition tier_run :: "'a tier_event list \<Rightarrow> 'a tiers \<Rightarrow> 'a tiers" where
  "tier_run es s = fold tier_apply es s"

fun inserted :: "'a tier_event list \<Rightarrow> 'a row list" where
  "inserted [] = []"
| "inserted (Insert r # es) = r # inserted es"
| "inserted (Migrate h c # es) = inserted es"

fun cutoffs_advance :: "string \<Rightarrow> string \<Rightarrow> 'a tier_event list \<Rightarrow> string \<Rightarrow> string \<Rightarrow> bool" where
  "cutoffs_advance h c [] h' c' \<longleftrightarrow> h \<le> h' \<and> c \<le> c'"
| "cutoffs_advance h c (Insert r # es) h' c' \<longleftrightarrow> cutoffs_advance h c es h' c'"
| "cutoffs_advance h c (Migrate h1 c1 # es) h' c' \<longleftrightarrow> h \<le> h1 \<and> c \<le> c1 \<and> cutoffs_advance h1 c1 es h' c'"

definition new_tiers :: "'a tiers" where
  "new_tiers = \<lparr>ti_hot = Some [], ti_warm = [], ti_cold = []\<rparr>"

lemma migrate_hot: "ti_hot s \<noteq> None \<Longrightarrow> ti_hot (snd (migrate h c s)) \<noteq> None"
  by (auto simp: migrate_def hot_to_warm_def warm_to_cold_def drop_warm_def write_cold_def Let_def)

lemma tier_run_rows:
  assumes "tiers_ok h c s" "cutoffs_advance h c es h' c'" "ti_hot s \<noteq> None"
  shows "tiers_ok h' c' (tier_run es s) \<and> mset (tier_rows (tier_run es s)) = mset (tier_rows s) + mset (inserted es)"
  using assms
proof (induction es arbitrary: s h c)
  case Nil
  then show ?case using tiers_ok_later by (auto simp: tier_run_def)
next
  case (Cons e es)
  show ?case
  proof (cases e)
    case (Insert r)
    let ?s = "tier_apply e s"
    have s: "tiers_ok h c ?s" "ti_hot ?s \<noteq> None" "mset (tier_rows ?s) = mset (tier_rows s) + {#r#}"
      using Cons.prems by (auto simp: Insert tiers_ok_def tier_rows_def hot_rows_def)
    have "cutoffs_advance h c es h' c'" using Cons.prems(2) by (simp add: Insert)
    from Cons.IH [OF s(1) this s(2)] s(3) show ?thesis by (simp add: tier_run_def Insert)
  next
    case (Migrate h1 c1)
    let ?s = "tier_apply e s"
    have adv: "h \<le> h1" "c \<le> c1" "cutoffs_advance h1 c1 es h' c'" using Cons.prems(2) by (simp_all add: Migrate)
    note ok = tiers_ok_later [OF Cons.prems(1) adv(1,2)]
    have s: "tiers_ok h1 c1 ?s" "ti_hot ?s \<noteq> None" "mset (tier_rows ?s) = mset (tier_rows s)"
      using migrate_ok [OF ok] migrate_hot [OF Cons.prems(3)] by (simp_all add: Migrate)
    from Cons.IH [OF s(1) adv(3) s(2)] s(3) show ?thesis by (simp add: tier_run_def Migrate)
  qed
qed

text \<open>C9: Three tiers answer as one table: after any inserts and migrations, in any order, a query returns exactly the inserted
  rows of its range, each as often as it was inserted, in the order of their timestamps. No migration fails.\<close>

theorem tiers_refine_one_table:
  fixes start stop :: "string option"
  assumes "cutoffs_advance '''' '''' es hot_cutoff cold_cutoff"
  defines "answer \<equiv> query hot_cutoff cold_cutoff start stop (tier_run es new_tiers)"
  shows "mset answer = mset (filter (\<lambda>r. in_range start stop (ts_of r)) (inserted es)) \<and> sorted (map ts_of answer) \<and>
    (\<exists>moved. fst (migrate hot_cutoff cold_cutoff (tier_run es new_tiers)) = Inr moved)"
proof -
  have "tiers_ok '''' '''' new_tiers" "ti_hot new_tiers \<noteq> None" "tier_rows new_tiers = []"
    by (simp_all add: new_tiers_def tiers_ok_def files_ok_def tier_rows_def hot_rows_def archived_def)
  with tier_run_rows [OF this(1) assms(1) this(2)]
  have r: "tiers_ok hot_cutoff cold_cutoff (tier_run es new_tiers)" "mset (tier_rows (tier_run es new_tiers)) = mset (inserted es)" by simp_all
  show ?thesis
    using query_complete [OF r(1), of start stop] migrate_ok(1) [OF r(1)] r(2) by (simp add: answer_def)
qed

theorem tiers_refine_one_table_witness:
  "mset (query ''2025-03'' ''2024-04'' (Some ''2024'') None
     (tier_run [Insert (''2024-01-05T'', 1), Insert (''2025-02-01T'', 2), Migrate ''2025-01'' ''2024-02'', Insert (''2024-12-31T'', 3 :: int)] new_tiers))
   = mset [(''2024-01-05T'', 1), (''2025-02-01T'', 2), (''2024-12-31T'', 3)]"
proof -
  let ?es = "[Insert (''2024-01-05T'', 1), Insert (''2025-02-01T'', 2), Migrate ''2025-01'' ''2024-02'', Insert (''2024-12-31T'', 3 :: int)]"
  let ?q = "query ''2025-03'' ''2024-04'' (Some ''2024'') None (tier_run ?es new_tiers)"
  have "cutoffs_advance '''' '''' ?es ''2025-03'' ''2024-04''" by code_simp
  from tiers_refine_one_table [OF this, of "Some ''2024''" None] have m:
    "mset ?q = mset (filter (\<lambda>r. in_range (Some ''2024'') None (ts_of r)) (inserted ?es))" by blast
  have "filter (\<lambda>r. in_range (Some ''2024'') None (ts_of r)) (inserted ?es) = [(''2024-01-05T'', 1), (''2025-02-01T'', 2), (''2024-12-31T'', 3)]"
    by code_simp
  with m show ?thesis by (simp only:)
qed

text \<open>A migration that stops between writing the cold files and deleting the warm rows leaves them twice: the next one writes
  them again, without an error.\<close>

theorem interrupted_migration_duplicates_rows:
  assumes "tiers_ok hot_cutoff cold_cutoff s" "ti_hot s \<noteq> None" "r \<in> set (ti_warm s)" "ts_of r < cold_cutoff"
  defines "crashed \<equiv> write_cold cold_cutoff (snd (hot_to_warm hot_cutoff s))"
  shows "(\<exists>moved. fst (migrate hot_cutoff cold_cutoff crashed) = Inr moved) \<and>
    count (mset (tier_rows (snd (migrate hot_cutoff cold_cutoff crashed)))) r \<ge> count (mset (tier_rows s)) r + 1"
proof -
  obtain n1 s1 where h: "hot_to_warm hot_cutoff s = (n1, s1)" by fastforce
  note hr = hot_to_warm_rows [OF h]
  let ?df = "filter (\<lambda>r. ts_of r < cold_cutoff) (ti_warm s1)"
  have f: "files_ok (ti_cold s1)" using assms(1) by (simp add: hr(2) tiers_ok_def)
  have w: "mset (archived (write_months ?df (ti_cold s1))) = mset (archived (ti_cold s1)) + mset ?df" "files_ok (write_months ?df (ti_cold s1))"
    using write_months_rows [OF f] by blast+
  have c: "crashed = write_cold cold_cutoff s1" by (simp add: crashed_def h)
  have "mset (tier_rows crashed) = mset (tier_rows s1) + mset ?df"
    using w(1) by (simp add: c tier_rows_def write_cold_def hot_rows_def del: mset_filter)
  then have dup: "mset (tier_rows crashed) = mset (tier_rows s) + mset ?df" by (simp add: hr(1))
  have "r \<in># mset ?df" using assms(3,4) hr(3) by auto
  then have "1 \<le> count (mset ?df) r" by (metis count_greater_eq_one_iff)
  moreover have "tiers_ok hot_cutoff cold_cutoff crashed"
  proof -
    have "set (archived (write_months ?df (ti_cold s1))) = set (archived (ti_cold s1)) \<union> set ?df"
      using w(1) by (metis set_mset_mset set_mset_union)
    with assms(1) hr w(2) show ?thesis by (auto simp: c write_cold_def tiers_ok_def)
  qed
  ultimately show ?thesis
    using migrate_ok [of hot_cutoff cold_cutoff crashed] dup by simp
qed

definition aged_tiers :: "int tiers" where
  "aged_tiers = \<lparr>ti_hot = Some [], ti_warm = [(''2024-01-05'', 1)], ti_cold = []\<rparr>"

theorem interrupted_migration_duplicates_rows_witness:
  "count (mset (tier_rows (snd (migrate ''2025-03'' ''2024-04'' (write_cold ''2024-04'' (snd (hot_to_warm ''2025-03'' aged_tiers))))))) (''2024-01-05'', 1) \<ge> 2"
proof -
  have a: "tiers_ok ''2025-03'' ''2024-04'' aged_tiers" "ti_hot aged_tiers \<noteq> None" "(''2024-01-05'', 1) \<in> set (ti_warm aged_tiers)"
      "ts_of (''2024-01-05'', 1 :: int) < ''2024-04''" "count (mset (tier_rows aged_tiers)) (''2024-01-05'', 1) = 1"
    by code_simp+
  from interrupted_migration_duplicates_rows [OF a(1-4)] show ?thesis unfolding a(5) by simp
qed

text \<open>The archiving engine keeps every row when it runs alone; the purge deletes by the cutoff and not by what was archived, so
  a row older than the cutoff that is inserted between the two is lost.\<close>

lemma archive_run_keeps_rows:
  assumes "rt_table s = Some rows" "distinct (map fst (rt_files s))"
  shows "\<exists>rows'. rt_table (snd (process_table cutoff dry s)) = Some rows' \<and>
    mset rows' + mset (archived (rt_files (snd (process_table cutoff dry s)))) = mset rows + mset (archived (rt_files s))"
proof -
  let ?old = "filter (\<lambda>r. ts_of r < cutoff) rows"
  have "mset (archived (append_to_file (month_of cutoff) ?old (rt_files s))) = mset (archived (rt_files s)) + mset ?old"
    using archived_append(1) [OF assms(2)] .
  moreover have "mset (filter (\<lambda>r. \<not> ts_of r < cutoff) rows) + mset ?old = mset rows"
    using mset_filter_split [of "\<lambda>r. ts_of r < cutoff" rows] by (simp only: add.commute)
  ultimately have "mset (filter (\<lambda>r. \<not> ts_of r < cutoff) rows) + mset (archived (append_to_file (month_of cutoff) ?old (rt_files s))) =
      mset rows + mset (archived (rt_files s))"
    by (simp only: add.commute [of "mset (archived (rt_files s))" "mset ?old"] add.assoc [symmetric])
  note kept = this
  have "snd (process_table cutoff dry s) = s \<or> snd (process_table cutoff dry s) = purge_rows cutoff (archive_rows cutoff s)"
    by (simp add: process_table_def assms(1) Let_def)
  then consider "snd (process_table cutoff dry s) = s" | "snd (process_table cutoff dry s) = purge_rows cutoff (archive_rows cutoff s)"
    by blast
  then show ?thesis
  proof cases
    case 1
    then show ?thesis using assms(1) by simp
  next
    case 2
    have "rt_table (purge_rows cutoff (archive_rows cutoff s)) = Some (filter (\<lambda>r. \<not> ts_of r < cutoff) rows)"
        "rt_files (purge_rows cutoff (archive_rows cutoff s)) = append_to_file (month_of cutoff) ?old (rt_files s)"
      by (simp_all add: purge_rows_def archive_rows_def assms(1))
    with 2 kept show ?thesis by (intro exI [of _ "filter (\<lambda>r. \<not> ts_of r < cutoff) rows"]) (simp only: simp_thms)
  qed
qed

lemma backdated_row_lost:
  assumes "rt_table s = Some rows" "ts_of r < cutoff" "r \<notin> set rows" "r \<notin> set (archived (rt_files s))" "distinct (map fst (rt_files s))"
  defines "t \<equiv> purge_rows cutoff ((archive_rows cutoff s)\<lparr>rt_table := Some (rows @ [r])\<rparr>)"
  shows "rt_table t = Some (filter (\<lambda>r. \<not> ts_of r < cutoff) rows) \<and> r \<notin> set (archived (rt_files t))"
proof -
  have "set (archived (append_to_file (month_of cutoff) (filter (\<lambda>r. ts_of r < cutoff) rows) (rt_files s))) =
      set (archived (rt_files s)) \<union> {r \<in> set rows. ts_of r < cutoff}"
    using archived_append(1) [OF assms(5)] by (metis set_filter set_mset_mset set_mset_union)
  with assms show ?thesis by (simp add: t_def purge_rows_def archive_rows_def)
qed

end
