(* ===== verification/Case_Claims.thy ===== *)
theory Case_Claims
  imports Lifecycle
begin

text \<open>
  \<open>detection/analyst_store.py\<close>: the soft locks analysts take on wallets (\<open>case_assignments\<close>), their verdicts
  (\<open>analyst_feedback\<close>) and the review queue over \<open>risk_scores\<close>. Every call reads the clock itself, so each operation
  has its own reading and the submission has three. The two settings (claims per analyst, lock time) are arguments.
\<close>

datatype claim_status = Claim_assigned | Claim_released | Claim_resolved

record assignment =
  ca_id :: nat
  ca_wallet :: string
  ca_pair :: string
  ca_analyst :: string
  ca_assigned_at :: time
  ca_lock_expires :: time
  ca_status :: claim_status
  ca_released_at :: "time option"
  ca_resolved_at :: "time option"

record feedback =
  af_id :: nat
  af_wallet :: string
  af_pair :: string
  af_verdict :: string
  af_notes :: "string option"
  af_analyst :: string
  af_submitted_at :: time
  af_review_started :: "time option"

record score_row =
  rs_id :: nat
  rs_wallet :: string
  rs_pair :: string
  rs_score :: int
  rs_timestamp :: time

record case_db =
  cd_assignments :: "assignment table"
  cd_feedback :: "feedback table"
  cd_scores :: "score_row table"

datatype claim_error = Too_many_claims nat | Already_claimed string time | Invalid_verdict string | No_active_claim
  | Claimed_by_another string

definition VALID_VERDICTS :: "string list" where
  "VALID_VERDICTS = [''confirmed_wash'', ''false_positive'', ''needs_review'']"

text \<open>\<open>status = 'assigned' AND lock_expires_at > now\<close>.\<close>

definition active :: "time \<Rightarrow> assignment \<Rightarrow> bool" where
  "active now r \<longleftrightarrow> ca_status r = Claim_assigned \<and> now < ca_lock_expires r"

definition on_case :: "string \<Rightarrow> string \<Rightarrow> assignment \<Rightarrow> bool" where
  "on_case wallet pair r \<longleftrightarrow> ca_wallet r = wallet \<and> ca_pair r = pair"

definition new_assignment :: "string \<times> string \<times> string \<times> time \<times> time \<Rightarrow> nat \<Rightarrow> assignment" where
  "new_assignment x n =
     (case x of (wallet, pair, analyst, now, expires) \<Rightarrow>
        \<lparr>ca_id = n, ca_wallet = wallet, ca_pair = pair, ca_analyst = analyst, ca_assigned_at = now,
         ca_lock_expires = expires, ca_status = Claim_assigned, ca_released_at = None, ca_resolved_at = None\<rparr>)"

interpretation ca_rows: autoinc_rows ca_id new_assignment
  by unfold_locales (simp add: new_assignment_def split: prod.splits)

definition claim_wallet ::
    "nat \<Rightarrow> time \<Rightarrow> time \<Rightarrow> string \<Rightarrow> string \<Rightarrow> string \<Rightarrow> case_db \<Rightarrow> (claim_error + time \<times> time) \<times> case_db" where
  "claim_wallet max_active timeout now wallet pair analyst db =
     (let t = cd_assignments db;
          expires = now + timeout;
          active_count = sql_rowcount (\<lambda>r. ca_analyst r = analyst \<and> active now r) t
      in if max_active \<le> active_count then (Inl (Too_many_claims active_count), db)
         else case sql_fetchone (\<lambda>r. on_case wallet pair r \<and> active now r) t of
           Some existing \<Rightarrow>
             if ca_analyst existing \<noteq> analyst
             then (Inl (Already_claimed (ca_analyst existing) (ca_lock_expires existing)), db)
             else (Inr (now, expires), db\<lparr>cd_assignments := sql_update
                    (\<lambda>r. on_case wallet pair r \<and> ca_analyst r = analyst \<and> active now r)
                    (\<lambda>r. r\<lparr>ca_lock_expires := expires, ca_assigned_at := now\<rparr>) t\<rparr>)
         | None \<Rightarrow>
             (Inr (now, expires), db\<lparr>cd_assignments := sql_insert (new_assignment (wallet, pair, analyst, now, expires))
                (sql_update (\<lambda>r. on_case wallet pair r \<and> ca_status r = Claim_assigned \<and> ca_lock_expires r \<le> now)
                   (\<lambda>r. r\<lparr>ca_status := Claim_released, ca_released_at := Some now\<rparr>) t)\<rparr>))"

definition release_wallet :: "time \<Rightarrow> string \<Rightarrow> string \<Rightarrow> string \<Rightarrow> case_db \<Rightarrow> bool \<times> case_db" where
  "release_wallet now wallet pair analyst db =
     (let p = (\<lambda>r. on_case wallet pair r \<and> ca_analyst r = analyst \<and> active now r); t = cd_assignments db
      in (0 < sql_rowcount p t,
          db\<lparr>cd_assignments := sql_update p (\<lambda>r. r\<lparr>ca_status := Claim_released, ca_released_at := Some now\<rparr>) t\<rparr>))"

definition resolve_claim :: "time \<Rightarrow> string \<Rightarrow> string \<Rightarrow> string \<Rightarrow> case_db \<Rightarrow> bool \<times> case_db" where
  "resolve_claim now wallet pair analyst db =
     (let p = (\<lambda>r. on_case wallet pair r \<and> ca_analyst r = analyst \<and> active now r); t = cd_assignments db
      in (0 < sql_rowcount p t,
          db\<lparr>cd_assignments := sql_update p (\<lambda>r. r\<lparr>ca_status := Claim_resolved, ca_resolved_at := Some now\<rparr>) t\<rparr>))"

definition expire_stale_locks :: "time \<Rightarrow> case_db \<Rightarrow> nat \<times> case_db" where
  "expire_stale_locks now db =
     (let p = (\<lambda>r. ca_status r = Claim_assigned \<and> ca_lock_expires r \<le> now); t = cd_assignments db
      in (sql_rowcount p t,
          db\<lparr>cd_assignments := sql_update p (\<lambda>r. r\<lparr>ca_status := Claim_released, ca_released_at := Some now\<rparr>) t\<rparr>))"

definition get_active_claim :: "time \<Rightarrow> string \<Rightarrow> string \<Rightarrow> case_db \<Rightarrow> assignment option" where
  "get_active_claim now wallet pair db =
     (case sort_key (\<lambda>r. - ca_assigned_at r) (sql_select (\<lambda>r. on_case wallet pair r \<and> active now r) (cd_assignments db)) of
        [] \<Rightarrow> None | r # _ \<Rightarrow> Some r)"

definition new_feedback :: "string \<times> string \<times> string \<times> string option \<times> string \<times> time \<times> time option \<Rightarrow> nat \<Rightarrow> feedback" where
  "new_feedback x n =
     (case x of (wallet, pair, verdict, notes, analyst, now, started) \<Rightarrow>
        \<lparr>af_id = n, af_wallet = wallet, af_pair = pair, af_verdict = verdict, af_notes = notes, af_analyst = analyst,
         af_submitted_at = now, af_review_started = started\<rparr>)"

interpretation af_rows: autoinc_rows af_id new_feedback
  by unfold_locales (simp add: new_feedback_def split: prod.splits)

text \<open>The three steps of a submission are separate transactions: the check at \<open>t1\<close>, the insert at \<open>t2\<close>, the
  resolution at \<open>t3\<close>.\<close>

definition submission_check :: "time \<Rightarrow> string \<Rightarrow> string \<Rightarrow> string \<Rightarrow> string \<Rightarrow> bool \<Rightarrow> case_db \<Rightarrow> claim_error option" where
  "submission_check t1 wallet pair verdict analyst require_claim db =
     (if verdict \<notin> set VALID_VERDICTS then Some (Invalid_verdict verdict)
      else if require_claim then
        (case get_active_claim t1 wallet pair db of
           None \<Rightarrow> Some No_active_claim
         | Some c \<Rightarrow> if ca_analyst c \<noteq> analyst then Some (Claimed_by_another (ca_analyst c)) else None)
      else None)"

definition record_feedback ::
    "time \<Rightarrow> time \<Rightarrow> string \<Rightarrow> string \<Rightarrow> string \<Rightarrow> string option \<Rightarrow> string \<Rightarrow> time option \<Rightarrow> bool \<Rightarrow> case_db \<Rightarrow> nat \<times> case_db" where
  "record_feedback t2 t3 wallet pair verdict notes analyst started require_claim db =
     (let db1 = db\<lparr>cd_feedback := sql_insert (new_feedback (wallet, pair, verdict, notes, analyst, t2, started)) (cd_feedback db)\<rparr>
      in (last_insert_rowid (cd_feedback db1),
          if require_claim then snd (resolve_claim t3 wallet pair analyst db1) else db1))"

definition submit_analyst_feedback ::
    "time \<Rightarrow> time \<Rightarrow> time \<Rightarrow> string \<Rightarrow> string \<Rightarrow> string \<Rightarrow> string option \<Rightarrow> string \<Rightarrow> time option \<Rightarrow> bool \<Rightarrow> case_db
     \<Rightarrow> (claim_error + nat) \<times> case_db" where
  "submit_analyst_feedback t1 t2 t3 wallet pair verdict notes analyst started require_claim db =
     (case submission_check t1 wallet pair verdict analyst require_claim db of
        Some e \<Rightarrow> (Inl e, db)
      | None \<Rightarrow> (let (n, db') = record_feedback t2 t3 wallet pair verdict notes analyst started require_claim db in (Inr n, db')))"

text \<open>The review queue: the latest score of every wallet and pair without a verdict today, joined with the active claims.\<close>

record queue_item =
  qi_wallet :: string
  qi_pair :: string
  qi_score :: int
  qi_scored_at :: time
  qi_assigned_to :: "string option"
  qi_lock_expires :: "time option"

definition today_start :: "time \<Rightarrow> time" where
  "today_start now = now div 86400000000 * 86400000000"

definition latest_score :: "score_row table \<Rightarrow> score_row \<Rightarrow> bool" where
  "latest_score t r \<longleftrightarrow> (\<forall>q \<in> set (trows t). rs_wallet q = rs_wallet r \<and> rs_pair q = rs_pair r \<longrightarrow> rs_id q \<le> rs_id r)"

definition reviewed_today :: "time \<Rightarrow> string \<Rightarrow> string \<Rightarrow> feedback table \<Rightarrow> bool" where
  "reviewed_today now wallet pair t \<longleftrightarrow>
     (\<exists>f \<in> set (trows t). af_wallet f = wallet \<and> af_pair f = pair \<and> today_start now \<le> af_submitted_at f)"

definition queue_items :: "time \<Rightarrow> case_db \<Rightarrow> score_row \<Rightarrow> queue_item list" where
  "queue_items now db r =
     (let item = (\<lambda>who until. \<lparr>qi_wallet = rs_wallet r, qi_pair = rs_pair r, qi_score = rs_score r,
            qi_scored_at = rs_timestamp r, qi_assigned_to = who, qi_lock_expires = until\<rparr>);
          claims = sql_select (\<lambda>c. on_case (rs_wallet r) (rs_pair r) c \<and> active now c) (cd_assignments db)
      in if claims = [] then [item None None]
         else map (\<lambda>c. item (Some (ca_analyst c)) (Some (ca_lock_expires c))) claims)"

definition get_analyst_queue :: "int \<Rightarrow> time \<Rightarrow> case_db \<Rightarrow> queue_item list" where
  "get_analyst_queue limit now db =
     sql_limit limit (sort_key (\<lambda>i. - qi_score i) (concat (map (queue_items now db)
       (filter (\<lambda>r. latest_score (cd_scores db) r \<and> \<not> reviewed_today now (rs_wallet r) (rs_pair r) (cd_feedback db))
          (trows (cd_scores db))))))"

definition get_analyst_feedback_since :: "time \<Rightarrow> case_db \<Rightarrow> feedback list" where
  "get_analyst_feedback_since since db = sort_key af_submitted_at (sql_select (\<lambda>f. since \<le> af_submitted_at f) (cd_feedback db))"

definition false_positive_rate :: "time \<Rightarrow> case_db \<Rightarrow> rat" where
  "false_positive_rate since db =
     (let decided = sql_select (\<lambda>f. since \<le> af_submitted_at f \<and> (af_verdict f = ''confirmed_wash'' \<or> af_verdict f = ''false_positive'')) (cd_feedback db);
          fps = filter (\<lambda>f. af_verdict f = ''false_positive'') decided
      in if decided = [] then 0 else of_nat (length fps) / of_nat (length decided))"

definition reviewed_since :: "time \<Rightarrow> case_db \<Rightarrow> nat" where
  "reviewed_since since db = sql_rowcount (\<lambda>f. since \<le> af_submitted_at f) (cd_feedback db)"

text \<open>The counts of \<open>get_case_stats\<close>: assigned, unassigned, expired or reclaimed.\<close>

definition case_counts :: "time \<Rightarrow> case_db \<Rightarrow> nat \<times> nat \<times> nat" where
  "case_counts now db =
     (sql_rowcount (active now) (cd_assignments db),
      sql_rowcount (\<lambda>r. latest_score (cd_scores db) r \<and> \<not> reviewed_today now (rs_wallet r) (rs_pair r) (cd_feedback db) \<and>
        sql_select (\<lambda>c. on_case (rs_wallet r) (rs_pair r) c \<and> active now c) (cd_assignments db) = []) (cd_scores db),
      sql_rowcount (\<lambda>r. ca_status r = Claim_released \<and> ca_released_at r \<noteq> None) (cd_assignments db))"

subsection \<open>One assignment per case\<close>

datatype case_op =
    Claim nat time time string string string
  | Release time string string string
  | Resolve time string string string
  | Expire time
  | Submit_feedback time time time string string string "string option" string "time option" bool

fun case_step :: "case_op \<Rightarrow> case_db \<Rightarrow> case_db" where
  "case_step (Claim m timeout now w p a) db = snd (claim_wallet m timeout now w p a db)"
| "case_step (Release now w p a) db = snd (release_wallet now w p a db)"
| "case_step (Resolve now w p a) db = snd (resolve_claim now w p a db)"
| "case_step (Expire now) db = snd (expire_stale_locks now db)"
| "case_step (Submit_feedback t1 t2 t3 w p v n a st rq) db = snd (submit_analyst_feedback t1 t2 t3 w p v n a st rq db)"

definition assigned_on :: "string \<Rightarrow> string \<Rightarrow> case_db \<Rightarrow> assignment list" where
  "assigned_on w p db = filter (\<lambda>r. on_case w p r \<and> ca_status r = Claim_assigned) (trows (cd_assignments db))"

definition case_inv :: "case_db \<Rightarrow> bool" where
  "case_inv db \<longleftrightarrow> ids_ok ca_id (cd_assignments db) \<and> (\<forall>w p. length (assigned_on w p db) \<le> 1)"

text \<open>The edges of an assignment's life: its lock is renewed while it is assigned, or it ends.\<close>

definition claim_edge :: "assignment \<Rightarrow> assignment \<Rightarrow> bool" where
  "claim_edge r r' \<longleftrightarrow> ca_status r = Claim_assigned \<and> ca_id r' = ca_id r \<and> on_case (ca_wallet r) (ca_pair r) r' \<and> ca_analyst r' = ca_analyst r"

definition assignment_row :: "case_db \<Rightarrow> nat \<Rightarrow> assignment option" where
  "assignment_row db n = sql_fetchone (\<lambda>r. ca_id r = n) (cd_assignments db)"

text \<open>Updates that only touch assigned rows and keep who they belong to.\<close>

definition tame :: "(assignment \<Rightarrow> bool) \<Rightarrow> (assignment \<Rightarrow> assignment) \<Rightarrow> bool" where
  "tame p f \<longleftrightarrow> (\<forall>r. ca_id (f r) = ca_id r \<and> ca_wallet (f r) = ca_wallet r \<and> ca_pair (f r) = ca_pair r \<and> ca_analyst (f r) = ca_analyst r) \<and>
     (\<forall>r. p r \<longrightarrow> ca_status r = Claim_assigned)"

lemma tame_update_inv:
  assumes "tame p f" "case_inv db"
  shows "case_inv (db\<lparr>cd_assignments := sql_update p f (cd_assignments db)\<rparr>)"
proof -
  have "length (filter (\<lambda>r. on_case w q r \<and> ca_status r = Claim_assigned) (map (\<lambda>r. if p r then f r else r) (trows (cd_assignments db))))
      \<le> length (filter (\<lambda>r. on_case w q r \<and> ca_status r = Claim_assigned) (trows (cd_assignments db)))" for w q
    by (rule length_filter_map_le) (use assms(1) in \<open>auto simp: tame_def on_case_def split: if_splits\<close>)
  then have "length (assigned_on w q (db\<lparr>cd_assignments := sql_update p f (cd_assignments db)\<rparr>)) \<le> length (assigned_on w q db)" for w q
    by (simp add: assigned_on_def table_simps)
  moreover have "ids_ok ca_id (sql_update p f (cd_assignments db))"
    using assms by (intro ca_rows.ids_ok_update) (auto simp: tame_def case_inv_def)
  ultimately show ?thesis using assms(2) unfolding case_inv_def by simp (meson le_trans)
qed

lemma tame_update_row:
  assumes "tame p f" "assignment_row db n = Some r"
  shows "\<exists>r'. assignment_row (db\<lparr>cd_assignments := sql_update p f (cd_assignments db)\<rparr>) n = Some r' \<and> (r' = r \<or> claim_edge r r')"
proof -
  have "find (\<lambda>q. ca_id q = n) (map (\<lambda>r. if p r then f r else r) (trows (cd_assignments db))) =
      map_option (\<lambda>r. if p r then f r else r) (find (\<lambda>q. ca_id q = n) (trows (cd_assignments db)))"
    using assms(1) by (intro find_map_upd) (simp add: tame_def)
  with assms show ?thesis
    by (auto simp: assignment_row_def sql_fetchone_def table_simps tame_def claim_edge_def on_case_def)
qed

lemma tame_end: "tame (\<lambda>r. P r \<and> active now r) (\<lambda>r. r\<lparr>ca_status := st, ca_released_at := Some now\<rparr>)"
    "tame (\<lambda>r. P r \<and> active now r) (\<lambda>r. r\<lparr>ca_status := st, ca_resolved_at := Some now\<rparr>)"
    "tame (\<lambda>r. P r \<and> ca_status r = Claim_assigned \<and> ca_lock_expires r \<le> now) (\<lambda>r. r\<lparr>ca_status := st, ca_released_at := Some now\<rparr>)"
    "tame (\<lambda>r. P r \<and> active now r) (\<lambda>r. r\<lparr>ca_lock_expires := e, ca_assigned_at := now\<rparr>)"
    "tame (\<lambda>r. ca_status r = Claim_assigned \<and> ca_lock_expires r \<le> now) (\<lambda>r. r\<lparr>ca_status := st, ca_released_at := Some now\<rparr>)"
  by (simp_all add: tame_def active_def)

text \<open>A successful claim: a renewal of the analyst's own lock, or a new row after every assigned one of the case has been
  released.\<close>

lemma claim_cases:
  assumes "claim_wallet m timeout now w p a db = (Inr res, db')"
  shows "(\<exists>pr f. tame pr f \<and> db' = db\<lparr>cd_assignments := sql_update pr f (cd_assignments db)\<rparr>) \<or>
    (db' = db\<lparr>cd_assignments := sql_insert (new_assignment (w, p, a, now, now + timeout))
       (sql_update (\<lambda>r. on_case w p r \<and> ca_status r = Claim_assigned \<and> ca_lock_expires r \<le> now)
          (\<lambda>r. r\<lparr>ca_status := Claim_released, ca_released_at := Some now\<rparr>) (cd_assignments db))\<rparr> \<and>
     (\<forall>r \<in> set (trows (cd_assignments db)). \<not> (on_case w p r \<and> active now r)))"
  using assms tame_end(4) [of "\<lambda>r. on_case w p r \<and> ca_analyst r = a" now "now + timeout"]
  by (auto simp: claim_wallet_def Let_def sql_fetchone_None conj_assoc split: if_splits option.splits)

lemma claim_error_same: "claim_wallet m timeout now w p a db = (Inl e, db') \<Longrightarrow> db' = db"
  by (auto simp: claim_wallet_def Let_def split: if_splits option.splits)

lemma claim_insert_inv:
  assumes "case_inv db" "\<forall>r \<in> set (trows (cd_assignments db)). \<not> (on_case w p r \<and> active now r)"
  shows "case_inv (db\<lparr>cd_assignments := sql_insert (new_assignment (w, p, a, now, expires))
       (sql_update (\<lambda>r. on_case w p r \<and> ca_status r = Claim_assigned \<and> ca_lock_expires r \<le> now)
          (\<lambda>r. r\<lparr>ca_status := Claim_released, ca_released_at := Some now\<rparr>) (cd_assignments db))\<rparr>)"
proof -
  let ?u = "db\<lparr>cd_assignments := sql_update (\<lambda>r. on_case w p r \<and> ca_status r = Claim_assigned \<and> ca_lock_expires r \<le> now)
          (\<lambda>r. r\<lparr>ca_status := Claim_released, ca_released_at := Some now\<rparr>) (cd_assignments db)\<rparr>"
  have u: "case_inv ?u" by (rule tame_update_inv [OF tame_end(3) assms(1)])
  have none: "assigned_on w p ?u = []"
  proof -
    have "\<not> (on_case w p q \<and> ca_status q = Claim_assigned)" if q: "q \<in> set (trows (cd_assignments ?u))" for q
    proof -
      from q obtain r where r: "r \<in> set (trows (cd_assignments db))"
          "q = (if on_case w p r \<and> ca_status r = Claim_assigned \<and> ca_lock_expires r \<le> now
                then r\<lparr>ca_status := Claim_released, ca_released_at := Some now\<rparr> else r)"
        by (auto simp: table_simps)
      show ?thesis
      proof (cases "on_case w p r \<and> ca_status r = Claim_assigned \<and> ca_lock_expires r \<le> now")
        case True
        then show ?thesis by (simp add: r(2))
      next
        case False
        with r assms(2) show ?thesis by (auto simp: active_def)
      qed
    qed
    then show ?thesis by (simp add: assigned_on_def filter_empty_conv)
  qed
  let ?t = "sql_insert (new_assignment (w, p, a, now, expires)) (cd_assignments ?u)"
  have "assigned_on w' p' (db\<lparr>cd_assignments := ?t\<rparr>) = assigned_on w' p' ?u @
      (if w' = w \<and> p' = p then [new_assignment (w, p, a, now, expires) (Suc (tseq (cd_assignments ?u)))] else [])" for w' p'
    by (simp add: assigned_on_def table_simps new_assignment_def on_case_def)
  then have "length (assigned_on w' p' (db\<lparr>cd_assignments := ?t\<rparr>)) \<le> 1" for w' p'
    using u none by (cases "w' = w \<and> p' = p") (auto simp: case_inv_def)
  moreover have "ids_ok ca_id ?t" using u by (intro ca_rows.ids_ok_insert) (simp add: case_inv_def)
  ultimately show ?thesis by (simp add: case_inv_def)
qed

lemma claim_insert_row:
  assumes "assignment_row db n = Some r"
  shows "\<exists>r'. assignment_row (db\<lparr>cd_assignments := sql_insert mk
       (sql_update (\<lambda>r. on_case w p r \<and> ca_status r = Claim_assigned \<and> ca_lock_expires r \<le> now)
          (\<lambda>r. r\<lparr>ca_status := Claim_released, ca_released_at := Some now\<rparr>) (cd_assignments db))\<rparr>) n = Some r' \<and> (r' = r \<or> claim_edge r r')"
proof -
  from tame_update_row [OF tame_end(3) assms, of "on_case w p" now Claim_released] obtain r' where
    "find (\<lambda>q. ca_id q = n) (trows (sql_update (\<lambda>r. on_case w p r \<and> ca_status r = Claim_assigned \<and> ca_lock_expires r \<le> now)
          (\<lambda>r. r\<lparr>ca_status := Claim_released, ca_released_at := Some now\<rparr>) (cd_assignments db))) = Some r'" "r' = r \<or> claim_edge r r'"
    by (auto simp: assignment_row_def sql_fetchone_def)
  then show ?thesis by (auto simp: assignment_row_def sql_fetchone_def table_simps(5) find_append)
qed

lemma step_cases:
  obtains (same) "cd_assignments (case_step op db) = cd_assignments db"
  | (upd) pr f where "tame pr f" "cd_assignments (case_step op db) = sql_update pr f (cd_assignments db)"
  | (claim) w p a now timeout where "\<forall>r \<in> set (trows (cd_assignments db)). \<not> (on_case w p r \<and> active now r)"
      "cd_assignments (case_step op db) = sql_insert (new_assignment (w, p, a, now, now + timeout))
         (sql_update (\<lambda>r. on_case w p r \<and> ca_status r = Claim_assigned \<and> ca_lock_expires r \<le> now)
            (\<lambda>r. r\<lparr>ca_status := Claim_released, ca_released_at := Some now\<rparr>) (cd_assignments db))"
proof (cases op)
  case (Claim m timeout now w p a)
  obtain res db' where c: "claim_wallet m timeout now w p a db = (res, db')" by fastforce
  show thesis
  proof (cases res)
    case (Inl e)
    from claim_error_same [OF c [unfolded this]] c show thesis by (intro same) (simp add: Claim)
  next
    case (Inr x)
    from claim_cases [OF c [unfolded Inr]] show thesis
      using upd claim [of w p now a timeout] c by (elim disjE exE conjE) (simp_all add: Claim)
  qed
next
  case (Release now w p a)
  with upd [OF tame_end(1) [of "\<lambda>r. on_case w p r \<and> ca_analyst r = a" now Claim_released]] show thesis
    by (simp add: release_wallet_def Let_def conj_assoc)
next
  case (Resolve now w p a)
  with upd [OF tame_end(2) [of "\<lambda>r. on_case w p r \<and> ca_analyst r = a" now Claim_resolved]] show thesis
    by (simp add: resolve_claim_def Let_def conj_assoc)
next
  case (Expire now)
  with upd [OF tame_end(5) [of now Claim_released]] show thesis by (simp add: expire_stale_locks_def Let_def)
next
  case (Submit_feedback t1 t2 t3 w p v n a st rq)
  show thesis
  proof (cases "submission_check t1 w p v a rq db = None \<and> rq")
    case True
    then have rq: "rq = True" and "submission_check t1 w p v a True db = None" by auto
    with upd [OF tame_end(2) [of "\<lambda>r. on_case w p r \<and> ca_analyst r = a" t3 Claim_resolved]] show thesis
      by (simp add: Submit_feedback submit_analyst_feedback_def record_feedback_def resolve_claim_def Let_def conj_assoc)
  next
    case False
    with same show thesis
      by (auto simp: Submit_feedback submit_analyst_feedback_def record_feedback_def Let_def split: option.splits)
  qed
qed

lemma case_inv_cong: "cd_assignments db = cd_assignments db' \<Longrightarrow> case_inv db = case_inv db'"
  by (simp add: case_inv_def assigned_on_def)

lemma case_inv_step: "case_inv db \<Longrightarrow> case_inv (case_step op db)"
proof (cases rule: step_cases [of op db])
  case same
  then show "case_inv db \<Longrightarrow> ?thesis" using case_inv_cong by metis
next
  case (upd pr f)
  assume "case_inv db"
  from tame_update_inv [OF upd(1) this] upd(2) show ?thesis
    using case_inv_cong [of "case_step op db" "db\<lparr>cd_assignments := sql_update pr f (cd_assignments db)\<rparr>"] by simp
next
  case (claim w p a now timeout)
  assume "case_inv db"
  from claim_insert_inv [OF this claim(1), of a "now + timeout"] show ?thesis
    by (rule case_inv_cong [THEN iffD2, rotated]) (simp add: claim(2))
qed

lemma case_row_step:
  assumes "assignment_row db n = Some r"
  shows "\<exists>r'. assignment_row (case_step op db) n = Some r' \<and> (r' = r \<or> claim_edge r r')"
proof (cases rule: step_cases [of op db])
  case same
  with assms show ?thesis by (simp add: assignment_row_def)
next
  case (upd pr f)
  with tame_update_row [OF upd(1) assms] show ?thesis by (simp add: assignment_row_def)
next
  case (claim w p a now timeout)
  with claim_insert_row [OF assms] show ?thesis by (simp add: assignment_row_def)
qed

interpretation cl: lifecycle case_inv assignment_row claim_edge case_step
  by unfold_locales (auto intro: case_inv_step case_row_step)

definition empty_cases :: "score_row table \<Rightarrow> case_db" where
  "empty_cases scores = \<lparr>cd_assignments = empty_table, cd_feedback = empty_table, cd_scores = scores\<rparr>"

lemma empty_cases_inv: "case_inv (empty_cases scores)"
  by (simp add: case_inv_def empty_cases_def ca_rows.ids_ok_empty assigned_on_def table_simps)

lemma length_le_1_eq:
  assumes "length xs \<le> 1" "x \<in> set xs" "y \<in> set xs" shows "x = y"
  using assms by (cases xs; cases "tl xs") auto

text \<open>C37: At no time two analysts hold the same case: after any operations with any clock readings, also when the clocks of the
  processes disagree, two rows of a case that are both assigned are the same row.\<close>

theorem one_assignment_per_case:
  assumes "r \<in> set (trows (cd_assignments (fold case_step ops (empty_cases scores))))"
    and "r' \<in> set (trows (cd_assignments (fold case_step ops (empty_cases scores))))"
    and "ca_status r = Claim_assigned" "ca_status r' = Claim_assigned" "ca_wallet r = ca_wallet r'" "ca_pair r = ca_pair r'"
  shows "r = r'"
proof (rule length_le_1_eq)
  let ?db = "fold case_step ops (empty_cases scores)"
  show "length (assigned_on (ca_wallet r) (ca_pair r) ?db) \<le> 1"
    using cl.inv_run [OF empty_cases_inv] by (simp add: case_inv_def)
  show "r \<in> set (assigned_on (ca_wallet r) (ca_pair r) ?db)" "r' \<in> set (assigned_on (ca_wallet r) (ca_pair r) ?db)"
    using assms by (simp_all add: assigned_on_def on_case_def)
qed

definition two_claims :: "case_op list" where
  "two_claims = [Claim 10 100 0 ''W'' ''XLM/USDC'' ''ann'', Claim 10 100 50 ''W'' ''XLM/USDC'' ''bob'', Claim 10 100 200 ''W'' ''XLM/USDC'' ''bob'']"

definition bobs_row :: assignment where
  "bobs_row = \<lparr>ca_id = 2, ca_wallet = ''W'', ca_pair = ''XLM/USDC'', ca_analyst = ''bob'', ca_assigned_at = 200,
     ca_lock_expires = 300, ca_status = Claim_assigned, ca_released_at = None, ca_resolved_at = None\<rparr>"

lemma two_claims_rows: "trows (cd_assignments (fold case_step two_claims (empty_cases empty_table))) =
    [\<lparr>ca_id = 1, ca_wallet = ''W'', ca_pair = ''XLM/USDC'', ca_analyst = ''ann'', ca_assigned_at = 0, ca_lock_expires = 100,
      ca_status = Claim_released, ca_released_at = Some 200, ca_resolved_at = None\<rparr>, bobs_row]"
  unfolding two_claims_def by code_simp

theorem one_assignment_per_case_witness:
  "bobs_row = trows (cd_assignments (fold case_step two_claims (empty_cases empty_table))) ! 1"
proof -
  have "bobs_row \<in> set (trows (cd_assignments (fold case_step two_claims (empty_cases empty_table))))"
      "trows (cd_assignments (fold case_step two_claims (empty_cases empty_table))) ! 1
         \<in> set (trows (cd_assignments (fold case_step two_claims (empty_cases empty_table))))"
    by (simp_all add: two_claims_rows)
  from one_assignment_per_case [OF this] show ?thesis by (simp add: two_claims_rows bobs_row_def)
qed

text \<open>A released or resolved assignment is final.\<close>

lemma ended_assignment_final:
  assumes "case_inv db" "assignment_row db n = Some r" "ca_status r \<noteq> Claim_assigned"
  shows "assignment_row (fold case_step ops db) n = Some r"
  by (rule cl.final_run [OF assms(1,2)]) (simp add: claim_edge_def assms(3))

subsection \<open>Claims per analyst\<close>

definition active_claims :: "string \<Rightarrow> time \<Rightarrow> case_db \<Rightarrow> nat" where
  "active_claims a t db = length (filter (\<lambda>r. ca_analyst r = a \<and> active t r) (trows (cd_assignments db)))"

text \<open>The clock readings of a run never go back, and all claims use the same cap.\<close>

fun clock_advances :: "nat \<Rightarrow> time \<Rightarrow> case_op list \<Rightarrow> time \<Rightarrow> bool" where
  "clock_advances m t [] u \<longleftrightarrow> t \<le> u"
| "clock_advances m t (Claim m' timeout now w p a # ops) u \<longleftrightarrow> m' = m \<and> t \<le> now \<and> clock_advances m now ops u"
| "clock_advances m t (Release now w p a # ops) u \<longleftrightarrow> t \<le> now \<and> clock_advances m now ops u"
| "clock_advances m t (Resolve now w p a # ops) u \<longleftrightarrow> t \<le> now \<and> clock_advances m now ops u"
| "clock_advances m t (Expire now # ops) u \<longleftrightarrow> t \<le> now \<and> clock_advances m now ops u"
| "clock_advances m t (Submit_feedback t1 t2 t3 w p v n a st rq # ops) u \<longleftrightarrow>
     t \<le> t1 \<and> t1 \<le> t2 \<and> t2 \<le> t3 \<and> clock_advances m t3 ops u"

lemma active_earlier: "active t r \<Longrightarrow> u \<le> t \<Longrightarrow> active u r"
  by (simp add: active_def)

lemma active_claims_le:
  assumes "\<And>r. ca_analyst (g r) = b \<and> active t (g r) \<Longrightarrow> ca_analyst r = b \<and> active u r"
  shows "length (filter (\<lambda>r. ca_analyst r = b \<and> active t r) (map g xs)) \<le> length (filter (\<lambda>r. ca_analyst r = b \<and> active u r) xs)"
  by (rule length_filter_map_le) (rule assms)

text \<open>Ending claims frees room; a claim is checked against the cap at its own time.\<close>

lemma ending_claims:
  assumes "cd_assignments db' = sql_update pr (\<lambda>r. f r) (cd_assignments db)" "\<And>r. ca_status (f r) \<noteq> Claim_assigned"
  shows "active_claims b t db' \<le> active_claims b t db"
proof -
  have "active_claims b t db' = length (filter (\<lambda>r. ca_analyst r = b \<and> active t r) (map (\<lambda>r. if pr r then f r else r) (trows (cd_assignments db))))"
    by (simp only: active_claims_def assms(1) table_simps)
  also have "\<dots> \<le> active_claims b t db"
    unfolding active_claims_def by (rule active_claims_le) (auto simp: active_def assms(2) split: if_splits)
  finally show ?thesis .
qed

lemma claim_within_cap:
  assumes "claim_wallet m timeout now w p a db = (Inr res, db')" "now \<le> t"
  shows "active_claims b t db' \<le> (if b = a then m else active_claims b t db)"
proof -
  let ?t = "cd_assignments db"
  have free: "active_claims a now db < m"
    using assms(1) by (auto simp: claim_wallet_def active_claims_def sql_rowcount_def Let_def split: if_splits)
  show ?thesis
  proof (cases "sql_fetchone (\<lambda>r. on_case w p r \<and> active now r) ?t")
    case (Some e)
    let ?g = "\<lambda>r. if on_case w p r \<and> ca_analyst r = a \<and> active now r then r\<lparr>ca_lock_expires := now + timeout, ca_assigned_at := now\<rparr> else r"
    have db': "trows (cd_assignments db') = map ?g (trows ?t)"
      using assms(1) Some by (auto simp: claim_wallet_def Let_def table_simps split: if_splits)
    have "active_claims a t db' \<le> active_claims a now db"
      unfolding active_claims_def db'
      by (rule active_claims_le) (use assms(2) in \<open>auto simp: active_def split: if_splits\<close>)
    moreover have "active_claims b t db' \<le> active_claims b t db" if "b \<noteq> a"
      unfolding active_claims_def db' by (rule active_claims_le) (use that in \<open>auto split: if_splits\<close>)
    ultimately show ?thesis using free by simp
  next
    case None
    let ?g = "\<lambda>r. if on_case w p r \<and> ca_status r = Claim_assigned \<and> ca_lock_expires r \<le> now
        then r\<lparr>ca_status := Claim_released, ca_released_at := Some now\<rparr> else r"
    let ?n = "new_assignment (w, p, a, now, now + timeout) (Suc (tseq ?t))"
    have db': "trows (cd_assignments db') = map ?g (trows ?t) @ [?n]"
      using assms(1) None by (auto simp: claim_wallet_def Let_def table_simps split: if_splits)
    have old: "length (filter (\<lambda>r. ca_analyst r = c \<and> active t r) (map ?g (trows ?t))) \<le> active_claims c u db" if "u \<le> t" for c u
      unfolding active_claims_def
      by (rule active_claims_le) (use that in \<open>auto simp: active_def split: if_splits\<close>)
    have n: "ca_analyst ?n = a" by (simp add: new_assignment_def)
    show ?thesis
    proof (cases "b = a")
      case True
      with old [OF assms(2), of a] free show ?thesis by (simp add: active_claims_def db' n)
    next
      case False
      with old [of t b] show ?thesis by (simp add: active_claims_def db' n)
    qed
  qed
qed

lemma active_claims_later: "t \<le> u \<Longrightarrow> active_claims a u db \<le> active_claims a t db"
proof -
  assume "t \<le> u"
  then have "\<And>r. ca_analyst r = a \<and> active u r \<Longrightarrow> ca_analyst r = a \<and> active t r" using active_earlier by blast
  from active_claims_le [of "\<lambda>r. r", OF this] show ?thesis by (simp add: active_claims_def)
qed

lemma cap_run:
  assumes "clock_advances m t ops u" "\<forall>b. active_claims b t db \<le> m"
  shows "\<forall>b. active_claims b u (fold case_step ops db) \<le> m"
  using assms
proof (induction m t ops u arbitrary: db rule: clock_advances.induct)
  case (1 m t u)
  then show ?case using active_claims_later by (metis clock_advances.simps(1) fold_simps(1) le_trans)
next
  case (2 m t m' timeout now w p a ops u)
  have now: "\<forall>b. active_claims b now db \<le> m" using "2.prems" active_claims_later by (metis clock_advances.simps(2) le_trans)
  obtain res db' where c: "claim_wallet m' timeout now w p a db = (res, db')" by fastforce
  have "\<forall>b. active_claims b now db' \<le> m"
  proof (cases res)
    case (Inl e)
    with claim_error_same [OF c [unfolded this]] now show ?thesis by simp
  next
    case (Inr x)
    have "m' = m" using "2.prems"(1) by simp
    with claim_within_cap [OF c [unfolded Inr] order_refl] have le: "active_claims b now db' \<le> (if b = a then m else active_claims b now db)" for b
      by blast
    have "active_claims b now db' \<le> m" for b
      using le [of b] now by (cases "b = a") (auto intro: le_trans)
    then show ?thesis ..
  qed
  with 2 c show ?case by simp
next
  case (3 m t now w p a ops u)
  have "active_claims b now (snd (release_wallet now w p a db)) \<le> active_claims b now db" for b
    by (rule ending_claims [where f = "\<lambda>r. r\<lparr>ca_status := Claim_released, ca_released_at := Some now\<rparr>"])
      (simp_all add: release_wallet_def Let_def)
  with 3 active_claims_later show ?case by (simp, meson le_trans)
next
  case (4 m t now w p a ops u)
  have "active_claims b now (snd (resolve_claim now w p a db)) \<le> active_claims b now db" for b
    by (rule ending_claims [where f = "\<lambda>r. r\<lparr>ca_status := Claim_resolved, ca_resolved_at := Some now\<rparr>"])
      (simp_all add: resolve_claim_def Let_def)
  with 4 active_claims_later show ?case by (simp, meson le_trans)
next
  case (5 m t now ops u)
  have "active_claims b now (snd (expire_stale_locks now db)) \<le> active_claims b now db" for b
    by (rule ending_claims [where f = "\<lambda>r. r\<lparr>ca_status := Claim_released, ca_released_at := Some now\<rparr>"])
      (simp_all add: expire_stale_locks_def Let_def)
  with 5 active_claims_later show ?case by (simp, meson le_trans)
next
  case (6 m t t1 t2 t3 w p v n a st rq ops u)
  have "active_claims b t3 (snd (submit_analyst_feedback t1 t2 t3 w p v n a st rq db)) \<le> active_claims b t3 db" for b
  proof (cases "submission_check t1 w p v a rq db = None \<and> rq")
    case True
    then have rq: "rq = True" "submission_check t1 w p v a True db = None" by auto
    show ?thesis
      by (rule ending_claims [where f = "\<lambda>r. r\<lparr>ca_status := Claim_resolved, ca_resolved_at := Some t3\<rparr>"])
        (simp_all add: rq submit_analyst_feedback_def record_feedback_def resolve_claim_def Let_def)
  next
    case False
    then have "cd_assignments (snd (submit_analyst_feedback t1 t2 t3 w p v n a st rq db)) = cd_assignments db"
      by (auto simp: submit_analyst_feedback_def record_feedback_def Let_def split: option.splits)
    then show ?thesis by (simp add: active_claims_def)
  qed
  moreover have "\<forall>b. active_claims b t3 db \<le> m"
    using "6.prems" active_claims_later [of t t3] by (auto intro: le_trans)
  ultimately have "\<forall>b. active_claims b t3 (snd (submit_analyst_feedback t1 t2 t3 w p v n a st rq db)) \<le> m" by (meson le_trans)
  with 6 show ?case by simp
qed

text \<open>With clocks that agree, no analyst ever holds more active claims than the setting allows.\<close>

theorem claims_per_analyst_bounded:
  assumes "clock_advances m t ops u"
  shows "active_claims a u (fold case_step ops (empty_cases scores)) \<le> m"
  using cap_run [OF assms, of "empty_cases scores"] by (simp add: active_claims_def empty_cases_def table_simps)

theorem claims_per_analyst_bounded_witness:
  "active_claims ''ann'' 5 (fold case_step [Claim 1 100 0 ''W'' ''P'' ''ann'', Claim 1 100 5 ''V'' ''P'' ''ann''] (empty_cases empty_table)) \<le> 1"
proof -
  have "clock_advances 1 0 [Claim 1 100 0 ''W'' ''P'' ''ann'', Claim 1 100 5 ''V'' ''P'' ''ann''] 5" by simp
  then show ?thesis by (rule claims_per_analyst_bounded)
qed

text \<open>An analyst at the cap cannot renew a lock either: the count is taken before the own claim is looked at.\<close>

lemma cap_blocks_renewal:
  assumes "active_claims a now db = m"
  shows "claim_wallet m timeout now w p a db = (Inl (Too_many_claims m), db)"
  using assms by (simp add: claim_wallet_def active_claims_def sql_rowcount_def Let_def)

subsection \<open>Verdicts and the queue\<close>

lemma active_claim_iff:
  assumes "case_inv db"
  shows "get_active_claim now w p db = Some r \<longleftrightarrow> r \<in> set (trows (cd_assignments db)) \<and> on_case w p r \<and> active now r"
    and "get_active_claim now w p db = None \<longleftrightarrow> (\<forall>r \<in> set (trows (cd_assignments db)). \<not> (on_case w p r \<and> active now r))"
proof -
  let ?cs = "sql_select (\<lambda>r. on_case w p r \<and> active now r) (cd_assignments db)"
  have "length ?cs \<le> length (assigned_on w p db)"
    using length_filter_map_le [of "\<lambda>r. on_case w p r \<and> active now r" "\<lambda>r. r" "\<lambda>r. on_case w p r \<and> ca_status r = Claim_assigned" "trows (cd_assignments db)"]
    by (simp add: sql_select_def assigned_on_def active_def)
  then have len: "length ?cs \<le> 1" using assms unfolding case_inv_def by (meson le_trans)
  have mem: "q \<in> set ?cs \<longleftrightarrow> q \<in> set (trows (cd_assignments db)) \<and> on_case w p q \<and> active now q" for q
    unfolding sql_select_set by blast
  have "(get_active_claim now w p db = Some r \<longleftrightarrow> r \<in> set ?cs) \<and> (get_active_claim now w p db = None \<longleftrightarrow> set ?cs = {})"
  proof (cases ?cs)
    case Nil
    then show ?thesis by (simp add: get_active_claim_def)
  next
    case (Cons c cs)
    with len have "?cs = [c]" by simp
    then show ?thesis by (auto simp: get_active_claim_def)
  qed
  then show "get_active_claim now w p db = Some r \<longleftrightarrow> r \<in> set (trows (cd_assignments db)) \<and> on_case w p r \<and> active now r"
    "get_active_claim now w p db = None \<longleftrightarrow> (\<forall>r \<in> set (trows (cd_assignments db)). \<not> (on_case w p r \<and> active now r))"
    unfolding sql_select_set by blast+
qed

lemma resolved_case_free:
  assumes "case_inv db" "get_active_claim t w p db = Some c" "ca_analyst c = a"
  shows "get_active_claim t w p (snd (resolve_claim t w p a db)) = None"
proof -
  let ?f = "\<lambda>r. if on_case w p r \<and> ca_analyst r = a \<and> active t r then r\<lparr>ca_status := Claim_resolved, ca_resolved_at := Some t\<rparr> else r"
  have rows: "trows (cd_assignments (snd (resolve_claim t w p a db))) = map ?f (trows (cd_assignments db))"
    by (simp add: resolve_claim_def Let_def table_simps)
  have inv: "case_inv (snd (resolve_claim t w p a db))" using case_inv_step [OF assms(1), of "Resolve t w p a"] by simp
  have "\<not> (on_case w p (?f r) \<and> active t (?f r))" if "r \<in> set (trows (cd_assignments db))" for r
  proof (cases "on_case w p r \<and> active t r")
    case True
    with that assms have "r = c" by (metis active_claim_iff(1) [OF assms(1)] option.inject)
    with True assms(3) show ?thesis by (simp add: active_def)
  next
    case False
    then show ?thesis by auto
  qed
  then show ?thesis unfolding active_claim_iff(2) [OF inv] rows set_map by blast
qed

text \<open>A verdict under a claim is accepted exactly for a known verdict from the analyst who holds the case; it is recorded once
  and ends the claim, so that a second verdict under it is refused.\<close>

theorem verdict_needs_and_ends_claim:
  fixes t :: time and w p v a :: string and n :: "string option" and st :: "time option"
  assumes "db = fold case_step ops (empty_cases scores)"
  defines "out \<equiv> submit_analyst_feedback t t t w p v n a st True db"
  shows "((\<exists>k. fst out = Inr k) \<longleftrightarrow> v \<in> set VALID_VERDICTS \<and> (\<exists>c. get_active_claim t w p db = Some c \<and> ca_analyst c = a)) \<and>
    ((\<exists>k. fst out = Inr k) \<longrightarrow>
      length (trows (cd_feedback (snd out))) = Suc (length (trows (cd_feedback db))) \<and>
      submit_analyst_feedback t t t w p v n a st True (snd out) = (Inl No_active_claim, snd out)) \<and>
    ((\<exists>e. fst out = Inl e) \<longrightarrow> snd out = db)"
proof -
  have inv: "case_inv db" unfolding assms(1) by (rule cl.inv_run [OF empty_cases_inv])
  have chk: "submission_check t w p v a True db = None \<longleftrightarrow>
      v \<in> set VALID_VERDICTS \<and> (\<exists>c. get_active_claim t w p db = Some c \<and> ca_analyst c = a)"
    by (auto simp: submission_check_def split: option.splits)
  show ?thesis
  proof (cases "submission_check t w p v a True db")
    case None
    then obtain c where c: "v \<in> set VALID_VERDICTS" "get_active_claim t w p db = Some c" "ca_analyst c = a" using chk by blast
    let ?db1 = "db\<lparr>cd_feedback := sql_insert (new_feedback (w, p, v, n, a, t, st)) (cd_feedback db)\<rparr>"
    have out: "out = (Inr (Suc (tseq (cd_feedback db))), snd (resolve_claim t w p a ?db1))"
      by (simp add: out_def submit_analyst_feedback_def None record_feedback_def last_insert_rowid_def table_simps Let_def)
    have "case_inv ?db1" "get_active_claim t w p ?db1 = Some c"
      using inv c(2) by (simp_all add: case_inv_def assigned_on_def get_active_claim_def)
    from resolved_case_free [OF this c(3)] have "get_active_claim t w p (snd out) = None" by (simp add: out)
    then have "submit_analyst_feedback t t t w p v n a st True (snd out) = (Inl No_active_claim, snd out)"
      using c(1) by (simp add: submit_analyst_feedback_def submission_check_def)
    moreover have "length (trows (cd_feedback (snd out))) = Suc (length (trows (cd_feedback db)))"
      by (simp add: out resolve_claim_def Let_def table_simps)
    ultimately show ?thesis using chk None out by simp
  next
    case (Some e)
    then have "out = (Inl e, db)" by (simp add: out_def submit_analyst_feedback_def)
    with chk Some show ?thesis by simp
  qed
qed

theorem verdict_needs_and_ends_claim_witness:
  "\<exists>k. fst (submit_analyst_feedback 250 250 250 ''W'' ''XLM/USDC'' ''false_positive'' None ''bob'' None True
     (fold case_step two_claims (empty_cases empty_table))) = Inr k"
proof -
  have "get_active_claim 250 ''W'' ''XLM/USDC'' (fold case_step two_claims (empty_cases empty_table)) = Some bobs_row"
    by (simp add: get_active_claim_def sql_select_def two_claims_rows bobs_row_def on_case_def active_def)
  moreover have "ca_analyst bobs_row = ''bob''" "''false_positive'' \<in> set VALID_VERDICTS" by (simp_all add: bobs_row_def VALID_VERDICTS_def)
  ultimately show ?thesis using verdict_needs_and_ends_claim [OF refl, of 250 "''W''" "''XLM/USDC''" "''false_positive''" None "''bob''" None two_claims empty_table]
    by blast
qed

text \<open>The check, the insert and the resolution are separate: a verdict checked just before the lock ends is recorded after
  another analyst has taken the case, whose claim stays open.\<close>

lemma late_verdict_recorded:
  "submission_check 90 ''W'' ''XLM/USDC'' ''confirmed_wash'' ''ann'' True (fold case_step (take 1 two_claims) (empty_cases empty_table)) = None \<and>
   length (trows (cd_feedback (snd (record_feedback 210 211 ''W'' ''XLM/USDC'' ''confirmed_wash'' None ''ann'' None True
     (fold case_step two_claims (empty_cases empty_table)))))) = 1 \<and>
   get_active_claim 212 ''W'' ''XLM/USDC'' (snd (record_feedback 210 211 ''W'' ''XLM/USDC'' ''confirmed_wash'' None ''ann'' None True
     (fold case_step two_claims (empty_cases empty_table)))) = Some bobs_row"
  unfolding two_claims_def bobs_row_def by code_simp

lemma queue_item_case:
  assumes "case_inv db"
  shows "queue_items now db r = [\<lparr>qi_wallet = rs_wallet r, qi_pair = rs_pair r, qi_score = rs_score r, qi_scored_at = rs_timestamp r,
     qi_assigned_to = map_option ca_analyst (get_active_claim now (rs_wallet r) (rs_pair r) db),
     qi_lock_expires = map_option ca_lock_expires (get_active_claim now (rs_wallet r) (rs_pair r) db)\<rparr>]"
proof -
  let ?cs = "sql_select (\<lambda>c. on_case (rs_wallet r) (rs_pair r) c \<and> active now c) (cd_assignments db)"
  have "length ?cs \<le> length (assigned_on (rs_wallet r) (rs_pair r) db)"
    using length_filter_map_le [of "\<lambda>c. on_case (rs_wallet r) (rs_pair r) c \<and> active now c" "\<lambda>r. r"
        "\<lambda>c. on_case (rs_wallet r) (rs_pair r) c \<and> ca_status c = Claim_assigned" "trows (cd_assignments db)"]
    by (simp add: sql_select_def assigned_on_def active_def)
  then have "length ?cs \<le> 1" using assms unfolding case_inv_def by (meson le_trans)
  then have "?cs = [] \<or> (\<exists>c. ?cs = [c])" by (cases ?cs) auto
  then show ?thesis by (auto simp: queue_items_def get_active_claim_def Let_def)
qed

lemma steps_keep_scores: "cd_scores (fold case_step ops d) = cd_scores d"
proof (induction ops arbitrary: d)
  case (Cons op ops)
  have "cd_scores (case_step op d) = cd_scores d"
    by (cases op) (auto simp: claim_wallet_def release_wallet_def resolve_claim_def expire_stale_locks_def
        submit_analyst_feedback_def record_feedback_def Let_def split: option.splits)
  with Cons show ?case by simp
qed simp

lemma latest_cases_distinct:
  assumes "distinct (map rs_id (trows scores))"
  shows "distinct (map (\<lambda>r. (rs_wallet r, rs_pair r)) (filter (\<lambda>r. latest_score scores r \<and> P r) (trows scores)))"
proof -
  let ?rs = "filter (\<lambda>r. latest_score scores r \<and> P r) (trows scores)"
  have inj: "inj_on rs_id (set (trows scores))" "distinct (trows scores)" using assms by (simp_all only: distinct_map)
  have "r = r'" if r: "r \<in> set ?rs" "r' \<in> set ?rs" "rs_wallet r = rs_wallet r'" "rs_pair r = rs_pair r'" for r r'
  proof -
    have mem: "r \<in> set (trows scores)" "r' \<in> set (trows scores)" "latest_score scores r" "latest_score scores r'" using r(1,2) by simp_all
    then have "rs_id r \<le> rs_id r'" "rs_id r' \<le> rs_id r" using r(3,4) unfolding latest_score_def by metis+
    then have "rs_id r = rs_id r'" by (rule antisym)
    from inj_onD [OF inj(1) this mem(1,2)] show ?thesis .
  qed
  then have "inj_on (\<lambda>r. (rs_wallet r, rs_pair r)) (set ?rs)" by (intro inj_onI) (metis prod.inject)
  then show ?thesis using inj(2) by (simp only: distinct_map distinct_filter)
qed

text \<open>The queue lists every case at most once, with who holds it now; and unless the limit cuts it off, every wallet and pair
  whose latest score has no verdict today is in it.\<close>

theorem queue_lists_each_case_once:
  fixes now :: time and limit :: int
  assumes "db = fold case_step ops (empty_cases scores)" "distinct (map rs_id (trows scores))"
  defines "q \<equiv> get_analyst_queue limit now db"
  shows "distinct (map (\<lambda>i. (qi_wallet i, qi_pair i)) q) \<and>
    (\<forall>i \<in> set q. qi_assigned_to i = map_option ca_analyst (get_active_claim now (qi_wallet i) (qi_pair i) db)) \<and>
    sorted (map (\<lambda>i. - qi_score i) q) \<and>
    (limit < 0 \<longrightarrow> (\<forall>r \<in> set (trows scores). latest_score scores r \<and> \<not> reviewed_today now (rs_wallet r) (rs_pair r) (cd_feedback db) \<longrightarrow>
       (\<exists>i \<in> set q. qi_wallet i = rs_wallet r \<and> qi_pair i = rs_pair r \<and> qi_score i = rs_score r)))"
proof -
  have inv: "case_inv db" unfolding assms(1) by (rule cl.inv_run [OF empty_cases_inv])
  have scores: "cd_scores db = scores" by (simp add: assms(1) steps_keep_scores empty_cases_def)
  let ?item = "\<lambda>r. \<lparr>qi_wallet = rs_wallet r, qi_pair = rs_pair r, qi_score = rs_score r, qi_scored_at = rs_timestamp r,
     qi_assigned_to = map_option ca_analyst (get_active_claim now (rs_wallet r) (rs_pair r) db),
     qi_lock_expires = map_option ca_lock_expires (get_active_claim now (rs_wallet r) (rs_pair r) db)\<rparr>"
  let ?rs = "filter (\<lambda>r. latest_score scores r \<and> \<not> reviewed_today now (rs_wallet r) (rs_pair r) (cd_feedback db)) (trows scores)"
  let ?all = "sort_key (\<lambda>i. - qi_score i) (map ?item ?rs)"
  have items: "queue_items now db = (\<lambda>r. [?item r])" by (rule ext) (rule queue_item_case [OF inv])
  have q: "q = sql_limit limit ?all"
    unfolding q_def get_analyst_queue_def items scores by (simp only: concat_map_singleton)
  have "distinct (map (\<lambda>r. (rs_wallet r, rs_pair r)) ?rs)" by (rule latest_cases_distinct) (rule assms(2))
  then have "distinct (map (\<lambda>i. (qi_wallet i, qi_pair i)) (map ?item ?rs))" by (simp add: comp_def)
  then have d: "distinct (map (\<lambda>i. (qi_wallet i, qi_pair i)) ?all)"
    by (simp only: distinct_map distinct_sort set_sort)
  have "distinct (map (\<lambda>i. (qi_wallet i, qi_pair i)) q)"
    using d distinct_take [OF d, of "nat limit"] by (cases "limit < 0") (simp_all only: q sql_limit_def if_True if_False take_map)
  moreover have "\<forall>i \<in> set q. qi_assigned_to i = map_option ca_analyst (get_active_claim now (qi_wallet i) (qi_pair i) db)"
    using sql_limit_subset [of limit ?all] by (auto simp: q)
  moreover have "sorted (map (\<lambda>i. - qi_score i) q)"
    by (auto simp: q sql_limit_def sorted_take_sort_key)
  moreover have "limit < 0 \<longrightarrow> (\<forall>r \<in> set (trows scores). latest_score scores r \<and> \<not> reviewed_today now (rs_wallet r) (rs_pair r) (cd_feedback db) \<longrightarrow>
       (\<exists>i \<in> set q. qi_wallet i = rs_wallet r \<and> qi_pair i = rs_pair r \<and> qi_score i = rs_score r))"
    by (auto simp: q sql_limit_def)
  ultimately show ?thesis by blast
qed

theorem queue_lists_each_case_once_witness:
  "distinct (map (\<lambda>i. (qi_wallet i, qi_pair i)) (get_analyst_queue 20 250 (fold case_step two_claims (empty_cases
     \<lparr>trows = [\<lparr>rs_id = 1, rs_wallet = ''W'', rs_pair = ''XLM/USDC'', rs_score = 70, rs_timestamp = 1\<rparr>,
               \<lparr>rs_id = 2, rs_wallet = ''W'', rs_pair = ''XLM/USDC'', rs_score = 80, rs_timestamp = 2\<rparr>], tseq = 2\<rparr>))))"
  by (rule queue_lists_each_case_once [OF refl, THEN conjunct1]) simp

end
