(* ===== verification/Schema_Migrations.thy ===== *)
theory Schema_Migrations
  imports Chain_Queue
begin

text \<open>
  The schema of the database and its migrations (\<open>detection/storage.py\<close>): the registry \<open>_MIGRATIONS\<close>, statement by statement;
  \<open>migrate_db\<close>, once as the function it is and once as a machine that can be killed between any two of its transactions;
  the operator's recovery as the error message asks for it. Of the schema the names of tables and columns are kept; types and
  constraints of columns are not, nor are the indexes: creating one needs its table and columns, and one that is there already
  has them. An absent bookkeeping table is an empty one, so \<open>_ensure_meta_tables\<close> has no effect here.
\<close>

subsection \<open>Schemas and DDL statements\<close>

type_synonym schema = "(string \<times> string list) list"

datatype ddl =
    Create_table bool string "string list"   \<comment> \<open>the flag is \<open>IF NOT EXISTS\<close>\<close>
  | Drop_table string                         \<comment> \<open>\<open>IF EXISTS\<close>\<close>
  | Add_column string string
  | Create_index string string "string list"  \<comment> \<open>\<open>IF NOT EXISTS\<close>\<close>

datatype ddl_error = Table_exists string | No_such_table string | No_such_column string string | Duplicate_column string string

definition columns_of :: "string \<Rightarrow> schema \<Rightarrow> string list option" where
  "columns_of t s = map_of s t"

fun exec_ddl :: "ddl \<Rightarrow> schema \<Rightarrow> ddl_error + schema" where
  "exec_ddl (Create_table if_not_exists t cols) s =
     (if columns_of t s \<noteq> None then (if if_not_exists then Inr s else Inl (Table_exists t))
      else Inr (s @ [(t, cols)]))"
| "exec_ddl (Drop_table t) s = Inr (filter (\<lambda>e. fst e \<noteq> t) s)"
| "exec_ddl (Add_column t c) s =
     (case columns_of t s of
        None \<Rightarrow> Inl (No_such_table t)
      | Some cols \<Rightarrow>
          if c \<in> set cols then Inl (Duplicate_column t c)
          else Inr (map (\<lambda>e. if fst e = t then (t, snd e @ [c]) else e) s))"
| "exec_ddl (Create_index i t cols) s =
     (case columns_of t s of
        None \<Rightarrow> Inl (No_such_table t)
      | Some cs \<Rightarrow>
          (case find (\<lambda>c. c \<notin> set cs) cols of
             Some c \<Rightarrow> Inl (No_such_column t c)
           | None \<Rightarrow> Inr s))"

text \<open>\<open>conn.executescript\<close>: the statements run one after the other, each committed by itself; it stops at the first error.\<close>

fun exec_script :: "ddl list \<Rightarrow> schema \<Rightarrow> ddl_error option \<times> schema" where
  "exec_script [] s = (None, s)"
| "exec_script (d # ds) s = (case exec_ddl d s of Inl e \<Rightarrow> (Some e, s) | Inr s' \<Rightarrow> exec_script ds s')"

type_synonym migration = "int \<times> string \<times> ddl list"

subsection \<open>The registry\<close>

definition initial_migration :: migration where
  "initial_migration = (1, ''initial schema'',
     [Create_table True ''risk_scores'' [''id'', ''wallet'', ''asset_pair'', ''score'', ''benford_flag'', ''ml_flag'',
        ''confidence'', ''timestamp''],
      Create_index ''idx_risk_scores_wallet'' ''risk_scores'' [''wallet''],
      Create_index ''idx_risk_scores_asset_pair'' ''risk_scores'' [''asset_pair''],
      Create_table True ''on_chain_submissions'' [''id'', ''wallet'', ''asset_pair'', ''score'', ''tx_hash'',
        ''status'', ''error_message'', ''submitted_at''],
      Create_index ''idx_submissions_wallet'' ''on_chain_submissions'' [''wallet''],
      Create_index ''idx_submissions_status'' ''on_chain_submissions'' [''status''],
      Create_table True ''pair_correlations'' [''id'', ''pair_a'', ''pair_b'', ''correlation_r'', ''method'',
        ''shared_wallet_count'', ''timestamp''],
      Create_index ''idx_pair_correlations_pair_a'' ''pair_correlations'' [''pair_a''],
      Create_index ''idx_pair_correlations_pair_b'' ''pair_correlations'' [''pair_b''],
      Create_table True ''trades'' [''paging_token'', ''trade_id'', ''ledger_close_time'', ''base_account'',
        ''counter_account'', ''base_asset_code'', ''base_asset_issuer'', ''counter_asset_code'',
        ''counter_asset_issuer'', ''base_amount'', ''counter_amount'', ''price'', ''base_is_seller'',
        ''trade_type'', ''liquidity_pool_id'', ''transaction_hash'', ''path_payment_id'', ''hop_index''],
      Create_index ''idx_trades_ledger_close_time'' ''trades'' [''ledger_close_time''],
      Create_index ''idx_trades_base_account'' ''trades'' [''base_account''],
      Create_index ''idx_trades_counter_account'' ''trades'' [''counter_account'']])"

definition shap_column_migration :: migration where
  "shap_column_migration = (2, ''add shap_json column to risk_scores'',
     [Add_column ''risk_scores'' ''shap_json''])"

definition feature_vectors_migration :: migration where
  "feature_vectors_migration = (3, ''add feature_vectors table with shap cache'',
     [Create_table True ''feature_vectors'' [''id'', ''wallet'', ''asset_pair'', ''features_json'', ''shap_json'',
        ''timestamp''],
      Create_index ''idx_feature_vectors_wallet'' ''feature_vectors'' [''wallet''],
      Create_index ''idx_feature_vectors_asset_pair'' ''feature_vectors'' [''asset_pair'']])"

definition pool_and_paths_migration :: migration where
  "pool_and_paths_migration = (4, ''add AMM pool trade, path payment, and circular route tables'',
     [Create_table True ''liquidity_pool_trades'' [''id'', ''trade_id'', ''pool_id'', ''base_account'',
        ''base_asset_pair'', ''counter_asset_pair'', ''base_amount'', ''counter_amount'', ''base_is_seller'',
        ''timestamp''],
      Create_index ''idx_lp_trades_pool_id'' ''liquidity_pool_trades'' [''pool_id''],
      Create_index ''idx_lp_trades_base_account'' ''liquidity_pool_trades'' [''base_account''],
      Create_table True ''path_payments'' [''id'', ''payment_id'', ''transaction_hash'', ''source_account'',
        ''destination_account'', ''source_asset_pair'', ''destination_asset_pair'', ''source_amount'',
        ''destination_amount'', ''hop_count'', ''strict_send'', ''timestamp''],
      Create_index ''idx_path_payments_source'' ''path_payments'' [''source_account''],
      Create_index ''idx_path_payments_tx_hash'' ''path_payments'' [''transaction_hash''],
      Create_table True ''circular_path_routes'' [''id'', ''transaction_hash'', ''accounts_json'', ''hop_count'',
        ''cycle_volume'', ''is_atomic_self_payment'', ''touches_pool'', ''timestamp''],
      Create_index ''idx_circular_routes_tx_hash'' ''circular_path_routes'' [''transaction_hash'']])"

definition drift_reports_migration :: migration where
  "drift_reports_migration = (5, ''add drift_reports and retrain_runs tables for model governance'',
     [Create_table True ''drift_reports'' [''id'', ''triggered_at'', ''drift_detected'', ''psi_report_json'',
        ''psi_threshold'', ''min_drifted_features''],
      Create_index ''idx_drift_reports_triggered_at'' ''drift_reports'' [''triggered_at''],
      Create_table True ''retrain_runs'' [''id'', ''triggered_at'', ''drift_report_id'', ''model_name'',
        ''old_version'', ''new_version'', ''old_auc_roc'', ''new_auc_roc'', ''promoted'', ''forced''],
      Create_index ''idx_retrain_runs_triggered_at'' ''retrain_runs'' [''triggered_at''],
      Create_index ''idx_retrain_runs_model_name'' ''retrain_runs'' [''model_name'']])"

definition robustness_migration :: migration where
  "robustness_migration = (6, ''add robustness_reports table for adversarial evaluation'',
     [Create_table True ''robustness_reports'' [''id'', ''created_at'', ''model_version'', ''asr_json'', ''mean_map'',
        ''p95_map'', ''certified_radius'', ''n_samples'', ''epsilon'', ''report_json''],
      Create_index ''idx_robustness_reports_created_at'' ''robustness_reports'' [''created_at'']])"

definition committee_tables_migration :: migration where
  "committee_tables_migration = (7, ''add dispute, committee, overrides, runtime_config and governance tables'',
     [Create_table True ''committee_members'' [''id'', ''public_key_hex'', ''key_hash'', ''added_at''],
      Create_index ''idx_committee_key_hash'' ''committee_members'' [''key_hash''],
      Create_table True ''score_disputes'' [''id'', ''dispute_id'', ''wallet'', ''asset_pair'', ''disputed_score'',
        ''soroban_tx_hash'', ''evidence_url'', ''submitted_at'', ''status'', ''committee_votes_json'',
        ''resolved_at'', ''resolution''],
      Create_index ''idx_score_disputes_dispute_id'' ''score_disputes'' [''dispute_id''],
      Create_index ''idx_score_disputes_wallet'' ''score_disputes'' [''wallet''],
      Create_table True ''score_overrides'' [''id'', ''wallet'', ''asset_pair'', ''dispute_id'', ''tx_hash'',
        ''status'', ''recorded_at''],
      Create_index ''idx_score_overrides_dispute_id'' ''score_overrides'' [''dispute_id''],
      Create_table True ''runtime_config'' [''key'', ''value'', ''updated_at''],
      Create_table True ''governance_proposals'' [''id'', ''proposal_id'', ''proposal_type'', ''proposed_value'',
        ''proposed_by_key_hash'', ''votes_for_json'', ''votes_against_json'', ''status'', ''created_at'',
        ''expires_at''],
      Create_index ''idx_governance_proposals_proposal_id'' ''governance_proposals'' [''proposal_id'']])"

definition feature_states_migration :: migration where
  "feature_states_migration = (8, ''add wallet_feature_states table for streaming feature store'',
     [Create_table True ''wallet_feature_states'' [''id'', ''wallet'', ''asset_pair'', ''state_json'',
        ''last_updated''],
      Create_index ''idx_wallet_feature_states_key'' ''wallet_feature_states'' [''wallet'', ''asset_pair''],
      Create_index ''idx_wallet_feature_states_updated'' ''wallet_feature_states'' [''last_updated'']])"

definition wash_rings_migration :: migration where
  "wash_rings_migration = (9, ''add wash_rings table for wash trading ring detection'',
     [Create_table True ''wash_rings'' [''id'', ''accounts_json'', ''total_volume'', ''cycle_volume'',
        ''avg_trade_count'', ''timing_tightness'', ''truncated'', ''detected_at''],
      Create_index ''idx_wash_rings_detected_at'' ''wash_rings'' [''detected_at'']])"

definition bridge_transfers_migration :: migration where
  "bridge_transfers_migration = (10, ''add bridge_transfers table for cross-chain wallet linking'',
     [Create_table True ''bridge_transfers'' [''id'', ''chain'', ''direction'', ''evm_wallet'', ''stellar_wallet'',
        ''amount_usd'', ''token'', ''tx_hash_evm'', ''tx_hash_stellar'', ''timestamp''],
      Create_index ''idx_bridge_transfers_stellar_wallet'' ''bridge_transfers'' [''stellar_wallet''],
      Create_index ''idx_bridge_transfers_evm_wallet'' ''bridge_transfers'' [''evm_wallet''],
      Create_index ''idx_bridge_transfers_timestamp'' ''bridge_transfers'' [''timestamp'']])"

definition alerts_migration :: migration where
  "alerts_migration = (11, ''add alerts table for typed manipulation alerts'',
     [Create_table True ''alerts'' [''id'', ''alert_type'', ''wallet'', ''asset_pair'', ''pool_id'', ''detail_json'',
        ''timestamp''],
      Create_index ''idx_alerts_wallet'' ''alerts'' [''wallet''],
      Create_index ''idx_alerts_alert_type'' ''alerts'' [''alert_type''],
      Create_index ''idx_alerts_timestamp'' ''alerts'' [''timestamp'']])"

definition payment_cycles_migration :: migration where
  "payment_cycles_migration = (12, ''add path_payment_cycles table for multi-hop cycle detection'',
     [Create_table True ''path_payment_cycles'' [''id'', ''accounts_json'', ''cycle_path_json'', ''cycle_value_xlm'',
        ''cycle_length'', ''completed_in_seconds'', ''asset_diversity'', ''cycle_metadata_json'',
        ''detected_at''],
      Create_index ''idx_path_payment_cycles_detected_at'' ''path_payment_cycles'' [''detected_at'']])"

definition bridge_integrity_migration :: migration where
  "bridge_integrity_migration = (13, ''add integrity verification columns to bridge_transfers'',
     [Add_column ''bridge_transfers'' ''canonical_hash'',
      Add_column ''bridge_transfers'' ''verification_status'',
      Add_column ''bridge_transfers'' ''verified_at''])"

definition dead_letters_migration :: migration where
  "dead_letters_migration = (14, ''add soroban_dead_letters table for DLQ'',
     [Create_table True ''soroban_dead_letters'' [''id'', ''wallet'', ''asset_pair'', ''score'', ''ledger_timestamp'',
        ''error_message'', ''status'', ''created_at'', ''replayed_at'', ''replay_tx_hash''],
      Create_index ''idx_dlq_status'' ''soroban_dead_letters'' [''status''],
      Create_index ''idx_dlq_created'' ''soroban_dead_letters'' [''created_at'']])"

definition ring_evidence_migration :: migration where
  "ring_evidence_migration = (15, ''add structured ring evidence for analyst review'',
     [Add_column ''wash_rings'' ''evidence_json''])"

definition benford_baselines_migration :: migration where
  "benford_baselines_migration = (15, ''add benford_baselines table for market-wide calibration'',
     [Create_table True ''benford_baselines'' [''id'', ''asset_pair'', ''digit_freqs_json'', ''trade_count'',
        ''computed_at'', ''window_days''],
      Create_index ''idx_benford_baselines_pair'' ''benford_baselines'' [''asset_pair'']])"

definition case_assignments_migration :: migration where
  "case_assignments_migration = (16, ''add case_assignments table for analyst case management'',
     [Create_table True ''case_assignments'' [''id'', ''wallet'', ''asset_pair'', ''analyst_key_hash'',
        ''assigned_at'', ''lock_expires_at'', ''status'', ''released_at'', ''resolved_at''],
      Create_index ''idx_case_assignments_wallet'' ''case_assignments'' [''wallet'', ''asset_pair''],
      Create_index ''idx_case_assignments_analyst'' ''case_assignments'' [''analyst_key_hash'', ''status''],
      Create_index ''idx_case_assignments_status'' ''case_assignments'' [''status''],
      Create_index ''idx_case_assignments_lock_expires'' ''case_assignments'' [''lock_expires_at''],
      Create_table True ''analyst_feedback'' [''id'', ''wallet'', ''asset_pair'', ''verdict'', ''notes'',
        ''analyst_key_hash'', ''submitted_at'', ''review_started_at''],
      Create_index ''idx_analyst_feedback_wallet'' ''analyst_feedback'' [''wallet''],
      Create_index ''idx_analyst_feedback_submitted'' ''analyst_feedback'' [''submitted_at'']])"

definition compliance_exports_migration :: migration where
  "compliance_exports_migration = (17, ''add compliance_exports table for regulatory export audit trail'',
     [Create_table True ''compliance_exports'' [''id'', ''export_type'', ''wallet_hash'', ''risk_score'', ''dry_run'',
        ''timestamp''],
      Create_index ''idx_compliance_exports_timestamp'' ''compliance_exports'' [''timestamp'']])"

definition proof_system_migration :: migration where
  "proof_system_migration = (18, ''add proof_system column to on_chain_submissions'',
     [Add_column ''on_chain_submissions'' ''proof_system''])"

definition governance_tables_migration :: migration where
  "governance_tables_migration = (19, ''fix governance_proposals schema for GovernanceEngine (Issue #150) and add the governance_votes/governance_committee tables it requires'',
     [Drop_table ''governance_proposals'',
      Create_table False ''governance_proposals'' [''id'', ''proposal_type'', ''payload'', ''proposer'', ''status'',
        ''submitted_at'', ''voting_ends_at'', ''executed_at'', ''execution_error''],
      Create_table True ''governance_votes'' [''id'', ''proposal_id'', ''voter'', ''decision'', ''cast_at''],
      Create_table True ''governance_committee'' [''member'', ''added_at'', ''active'']])"

definition chain_submissions_migration :: migration where
  "chain_submissions_migration = (20, ''durable pending_chain_submissions queue'',
     [Create_table True ''pending_chain_submissions'' [''id'', ''idempotency_key'', ''kind'', ''override_id'',
        ''dispute_id'', ''wallet'', ''asset_pair'', ''payload_json'', ''status'', ''attempts'',
        ''max_attempts'', ''next_attempt_at'', ''leased_until'', ''last_error'', ''tx_hash'', ''created_at'',
        ''updated_at''],
      Create_index ''idx_pending_chain_submissions_due'' ''pending_chain_submissions'' [''status'',
        ''next_attempt_at''],
      Create_index ''idx_pending_chain_submissions_override'' ''pending_chain_submissions'' [''override_id'']])"

definition MIGRATIONS :: "migration list" where
  "MIGRATIONS = [initial_migration, shap_column_migration, feature_vectors_migration, pool_and_paths_migration,
     drift_reports_migration, robustness_migration, committee_tables_migration, feature_states_migration,
     wash_rings_migration, bridge_transfers_migration, alerts_migration, payment_cycles_migration,
     bridge_integrity_migration, dead_letters_migration, ring_evidence_migration, benford_baselines_migration,
     case_assignments_migration, compliance_exports_migration, proof_system_migration, governance_tables_migration,
     chain_submissions_migration]"

subsection \<open>The bookkeeping and \<open>migrate_db\<close>\<close>

datatype migration_status = Applying | Applied

record migration_row =
  mr_version :: int
  mr_description :: string
  mr_status :: migration_status
  mr_error :: "ddl_error option"
  mr_started :: time
  mr_finished :: "time option"

record migration_db =
  md_schema :: schema
  md_versions :: "(int \<times> time) list"
  md_log :: "migration_row list"

datatype migrate_error = Interrupted "int list" | Script_failed ddl_error

definition get_schema_version :: "migration_db \<Rightarrow> int" where
  "get_schema_version db = (if md_versions db = [] then 0 else Max (set (map fst (md_versions db))))"

definition interrupted :: "migration_db \<Rightarrow> int list" where
  "interrupted db = sort (map mr_version (filter (\<lambda>r. mr_status r = Applying) (md_log db)))"

definition log_applying :: "time \<Rightarrow> migration \<Rightarrow> migration_db \<Rightarrow> migration_db" where
  "log_applying now m db =
     (case m of (version, description, _) \<Rightarrow>
        db\<lparr>md_log := md_log db @ [\<lparr>mr_version = version, mr_description = description, mr_status = Applying, mr_error = None,
             mr_started = now, mr_finished = None\<rparr>]\<rparr>)"

definition on_applying :: "int \<Rightarrow> (migration_row \<Rightarrow> migration_row) \<Rightarrow> migration_row list \<Rightarrow> migration_row list" where
  "on_applying version f = map (\<lambda>r. if mr_version r = version \<and> mr_status r = Applying then f r else r)"

definition log_error :: "int \<Rightarrow> ddl_error \<Rightarrow> migration_db \<Rightarrow> migration_db" where
  "log_error version e db = db\<lparr>md_log := on_applying version (\<lambda>r. r\<lparr>mr_error := Some e\<rparr>) (md_log db)\<rparr>"

definition mark_applied :: "time \<Rightarrow> int \<Rightarrow> migration_row list \<Rightarrow> migration_row list" where
  "mark_applied finished version = on_applying version (\<lambda>r. r\<lparr>mr_status := Applied, mr_finished := Some finished\<rparr>)"

text \<open>One transaction marks the row and sets the version: an \<open>INSERT\<close> into an empty table, else an \<open>UPDATE\<close> of every row.\<close>

definition record_applied :: "time \<Rightarrow> int \<Rightarrow> migration_db \<Rightarrow> migration_db" where
  "record_applied finished version db =
     db\<lparr>md_log := mark_applied finished version (md_log db),
        md_versions := (if md_versions db = [] then [(version, finished)] else map (\<lambda>_. (version, finished)) (md_versions db))\<rparr>"

text \<open>The loop of \<open>migrate_db\<close> over the registry; \<open>clock\<close> gives the readings for the n-th migration it applies.\<close>

fun apply_migrations ::
    "(nat \<Rightarrow> time) \<Rightarrow> int \<Rightarrow> migration list \<Rightarrow> int list \<Rightarrow> migration_db \<Rightarrow> (migrate_error + int list) \<times> migration_db" where
  "apply_migrations clock current [] applied db = (Inr applied, db)"
| "apply_migrations clock current ((version, description, script) # ms) applied db =
     (if version \<le> current then apply_migrations clock current ms applied db
      else let db1 = log_applying (clock (length applied)) (version, description, script) db
           in case exec_script script (md_schema db1) of
                (Some e, s) \<Rightarrow> (Inl (Script_failed e), log_error version e (db1\<lparr>md_schema := s\<rparr>))
              | (None, s) \<Rightarrow>
                  apply_migrations clock current ms (applied @ [version])
                    (record_applied (clock (length applied)) version (db1\<lparr>md_schema := s\<rparr>)))"

definition migrate_db :: "(nat \<Rightarrow> time) \<Rightarrow> migration list \<Rightarrow> migration_db \<Rightarrow> (migrate_error + int list) \<times> migration_db" where
  "migrate_db clock registry db =
     (if interrupted db \<noteq> [] then (Inl (Interrupted (interrupted db)), db)
      else apply_migrations clock (get_schema_version db) registry [] db)"

definition new_database :: migration_db where
  "new_database = \<lparr>md_schema = [], md_versions = [], md_log = []\<rparr>"

subsection \<open>The same, transaction by transaction\<close>

datatype proc =
    Starting
  | Looping int "migration list" "int list"
  | Running migration "ddl list" int "migration list" "int list"
  | Failing int ddl_error
  | Finished "migrate_error + int list"

fun migrate_step :: "migration list \<Rightarrow> time \<Rightarrow> migration_db \<times> proc \<Rightarrow> migration_db \<times> proc" where
  "migrate_step registry now (db, Starting) =
     (db, if interrupted db \<noteq> [] then Finished (Inl (Interrupted (interrupted db)))
          else Looping (get_schema_version db) registry [])"
| "migrate_step registry now (db, Looping current [] applied) = (db, Finished (Inr applied))"
| "migrate_step registry now (db, Looping current ((version, description, script) # ms) applied) =
     (if version \<le> current then (db, Looping current ms applied)
      else (log_applying now (version, description, script) db,
            Running (version, description, script) script current ms applied))"
| "migrate_step registry now (db, Running m (d # ds) current ms applied) =
     (case exec_ddl d (md_schema db) of
        Inl e \<Rightarrow> (db, Failing (fst m) e)
      | Inr s \<Rightarrow> (db\<lparr>md_schema := s\<rparr>, Running m ds current ms applied))"
| "migrate_step registry now (db, Running m [] current ms applied) =
     (record_applied now (fst m) db, Looping current ms (applied @ [fst m]))"
| "migrate_step registry now (db, Failing version e) = (log_error version e db, Finished (Inl (Script_failed e)))"
| "migrate_step registry now (db, Finished r) = (db, Finished r)"

text \<open>A deployment: the process works, or is killed and started again at any point.\<close>

inductive deployment :: "migration list \<Rightarrow> migration_db \<times> proc \<Rightarrow> migration_db \<times> proc \<Rightarrow> bool" for registry where
  work: "deployment registry s (migrate_step registry now s)"
| killed: "deployment registry (db, p) (db, Starting)"

text \<open>The recovery the error message asks for: complete the script by hand, set the status to \<open>applied\<close>.\<close>

definition operator_recovery :: "time \<Rightarrow> int \<Rightarrow> ddl list \<Rightarrow> migration_db \<Rightarrow> migration_db" where
  "operator_recovery now version rest db =
     db\<lparr>md_schema := snd (exec_script rest (md_schema db)), md_log := mark_applied now version (md_log db)\<rparr>"

subsection \<open>The machine and the function agree\<close>

lemma exec_script_append:
  "exec_script (xs @ ys) s = (case exec_script xs s of (Some e, s') \<Rightarrow> (Some e, s') | (None, s') \<Rightarrow> exec_script ys s')"
  by (induction xs arbitrary: s) (auto split: sum.splits)

lemma exec_script_None_append:
  "exec_script xs s = (None, s') \<Longrightarrow> exec_script (xs @ ys) s = exec_script ys s'"
  by (simp add: exec_script_append)

abbreviation runs :: "migration list \<Rightarrow> time list \<Rightarrow> migration_db \<times> proc \<Rightarrow> migration_db \<times> proc" where
  "runs registry ts s \<equiv> fold (migrate_step registry) ts s"

lemma runs_script:
  "\<exists>ts. length ts \<le> Suc (length ds) \<and> runs registry ts (db, Running m ds current ms applied) =
     (case exec_script ds (md_schema db) of
        (Some e, s) \<Rightarrow> (db\<lparr>md_schema := s\<rparr>, Failing (fst m) e)
      | (None, s) \<Rightarrow> (db\<lparr>md_schema := s\<rparr>, Running m [] current ms applied))"
proof (induction ds arbitrary: db)
  case Nil
  show ?case by (rule exI [of _ "[]"]) simp
next
  case (Cons d ds)
  show ?case
  proof (cases "exec_ddl d (md_schema db)")
    case (Inl e)
    then show ?thesis by (intro exI [of _ "[0]"]) simp
  next
    case (Inr s)
    obtain ts where ts: "length ts \<le> Suc (length ds)"
      "runs registry ts (db\<lparr>md_schema := s\<rparr>, Running m ds current ms applied) =
        (case exec_script ds s of
           (Some e, s') \<Rightarrow> (db\<lparr>md_schema := s'\<rparr>, Failing (fst m) e)
         | (None, s') \<Rightarrow> (db\<lparr>md_schema := s'\<rparr>, Running m [] current ms applied))"
      using Cons [of "db\<lparr>md_schema := s\<rparr>"] by (auto split: prod.splits option.splits)
    then show ?thesis using Inr by (intro exI [of _ "0 # ts"]) simp
  qed
qed

definition script_steps :: "migration list \<Rightarrow> nat" where
  "script_steps ms = (\<Sum>m \<leftarrow> ms. length (snd (snd m)) + 4)"

lemma runs_loop:
  "\<exists>ts. length ts \<le> script_steps ms + 1 \<and>
     runs registry ts (db, Looping current ms applied) =
       (snd (apply_migrations clock current ms applied db), Finished (fst (apply_migrations clock current ms applied db)))"
proof (induction ms arbitrary: db applied)
  case Nil
  show ?case by (rule exI [of _ "[0]"]) simp
next
  case (Cons m ms)
  obtain version description script where m: "m = (version, description, script)" by (cases m) auto
  have len: "script_steps (m # ms) = length script + 4 + script_steps ms" by (simp add: script_steps_def m)
  show ?case
  proof (cases "version \<le> current")
    case True
    obtain ts where "length ts \<le> script_steps ms + 1" "runs registry ts (db, Looping current ms applied) =
       (snd (apply_migrations clock current ms applied db), Finished (fst (apply_migrations clock current ms applied db)))"
      using Cons by blast
    with True len show ?thesis by (intro exI [of _ "0 # ts"]) (simp add: m)
  next
    case False
    let ?now = "clock (length applied)"
    let ?db1 = "log_applying ?now m db"
    obtain ts where ts: "length ts \<le> Suc (length script)" "runs registry ts (?db1, Running m script current ms applied) =
     (case exec_script script (md_schema ?db1) of
        (Some e, s) \<Rightarrow> (?db1\<lparr>md_schema := s\<rparr>, Failing (fst m) e)
      | (None, s) \<Rightarrow> (?db1\<lparr>md_schema := s\<rparr>, Running m [] current ms applied))"
      using runs_script [of script registry ?db1 m current ms applied] by blast
    show ?thesis
    proof (cases "exec_script script (md_schema ?db1)")
      case (Pair r s)
      show ?thesis
      proof (cases r)
        case (Some e)
        with ts Pair False len show ?thesis
          by (intro exI [of _ "?now # ts @ [0]"]) (simp add: m Let_def)
      next
        case None
        obtain us where us: "length us \<le> script_steps ms + 1" "runs registry us
            (record_applied ?now version (?db1\<lparr>md_schema := s\<rparr>), Looping current ms (applied @ [version])) =
          (snd (apply_migrations clock current (m # ms) applied db), Finished (fst (apply_migrations clock current (m # ms) applied db)))"
          using Cons [of "record_applied ?now version (?db1\<lparr>md_schema := s\<rparr>)" "applied @ [version]"] False Pair None
          by (auto simp: m Let_def)
        have "runs registry (?now # ts @ ?now # us) (db, Looping current (m # ms) applied) =
          (snd (apply_migrations clock current (m # ms) applied db), Finished (fst (apply_migrations clock current (m # ms) applied db)))"
          using ts(2) us(2) Pair None False by (simp add: m)
        moreover have "length (?now # ts @ ?now # us) \<le> script_steps (m # ms) + 1" using ts(1) us(1) len by simp
        ultimately show ?thesis by blast
      qed
    qed
  qed
qed

text \<open>The machine, left alone, does what the function says, within a number of steps fixed by the registry.\<close>

theorem migration_machine_runs_migrate_db:
  "\<exists>ts. length ts \<le> script_steps registry + 2 \<and>
     fold (migrate_step registry) ts (db, Starting) =
       (snd (migrate_db clock registry db), Finished (fst (migrate_db clock registry db)))"
proof (cases "interrupted db = []")
  case True
  obtain ts where "length ts \<le> script_steps registry + 1"
     "runs registry ts (db, Looping (get_schema_version db) registry []) =
       (snd (migrate_db clock registry db), Finished (fst (migrate_db clock registry db)))"
    using runs_loop [of registry registry db "get_schema_version db" "[]" clock] True by (auto simp: migrate_db_def)
  with True show ?thesis by (intro exI [of _ "0 # ts"]) simp
next
  case False
  then show ?thesis by (intro exI [of _ "[0]"]) (simp add: migrate_db_def)
qed

subsection \<open>Kills and restarts under increasing versions\<close>

definition statements :: "migration list \<Rightarrow> ddl list" where
  "statements ms = concat (map (\<lambda>m. snd (snd m)) ms)"

definition build :: "migration list \<Rightarrow> schema" where
  "build ms = snd (exec_script (statements ms) (md_schema new_database))"

definition clean :: "migration list \<Rightarrow> bool" where
  "clean ms \<longleftrightarrow> fst (exec_script (statements ms) (md_schema new_database)) = None"

definition applying_versions :: "migration_db \<Rightarrow> int list" where
  "applying_versions db = map mr_version (filter (\<lambda>r. mr_status r = Applying) (md_log db))"

lemma statements_simps [simp]:
  "statements [] = []" "statements (m # ms) = snd (snd m) @ statements ms" "statements (a @ b) = statements a @ statements b"
  by (simp_all add: statements_def)

lemma build_Nil [simp]: "build [] = md_schema new_database" by (simp add: build_def)

lemma clean_append: "clean (a @ b) \<Longrightarrow> clean a"
  by (auto simp: clean_def exec_script_append split: option.splits prod.splits)

lemma clean_exec: "clean a \<Longrightarrow> exec_script (statements a) (md_schema new_database) = (None, build a)"
  by (auto simp: clean_def build_def prod_eq_iff)

lemma clean_prefix:
  assumes "clean (a @ m # b)" "snd (snd m) = pre @ ds"
  shows "exec_script pre (build a) = (None, snd (exec_script pre (build a)))"
    "exec_script (pre @ ds) (build a) = (None, build (a @ [m]))"
proof -
  have "clean (a @ [m])" "clean a" using clean_append [of "a @ [m]" b] clean_append [of a "m # b"] assms(1) by simp_all
  from clean_exec [OF this(1)] exec_script_None_append [OF clean_exec [OF this(2)], of "pre @ ds"]
  show s: "exec_script (pre @ ds) (build a) = (None, build (a @ [m]))" by (simp add: assms(2))
  then show "exec_script pre (build a) = (None, snd (exec_script pre (build a)))"
    by (auto simp: exec_script_append split: option.splits prod.splits)
qed

lemma applying_log [simp]:
  "applying_versions (log_applying now m db) = applying_versions db @ [fst m]"
  by (auto simp: applying_versions_def log_applying_def split: prod.splits)

lemma applying_recorded: "applying_versions (record_applied now v db) = filter (\<lambda>w. w \<noteq> v) (applying_versions db)"
proof -
  have "map mr_version (filter (\<lambda>r. mr_status r = Applying) (mark_applied now v log)) =
      filter (\<lambda>w. w \<noteq> v) (map mr_version (filter (\<lambda>r. mr_status r = Applying) log))" for log
    by (induction log) (auto simp: mark_applied_def on_applying_def)
  then show ?thesis by (simp add: applying_versions_def record_applied_def)
qed

lemma applying_schema [simp]: "applying_versions (db\<lparr>md_schema := s\<rparr>) = applying_versions db"
  by (simp add: applying_versions_def)

lemma log_record_simps [simp]:
  "md_schema (log_applying now m db) = md_schema db" "md_versions (log_applying now m db) = md_versions db"
  "md_schema (record_applied now v db) = md_schema db"
  "map fst (md_versions (record_applied now v db)) = (if md_versions db = [] then [v] else map (\<lambda>_. v) (md_versions db))"
  by (auto simp: log_applying_def record_applied_def split: prod.splits)

lemma log_schema_same: "(log_applying now m db)\<lparr>md_schema := md_schema db\<rparr> = log_applying now m db"
  by (simp add: log_applying_def split: prod.splits)

lemma interrupted_applying: "interrupted db = sort (applying_versions db)"
  by (simp add: interrupted_def applying_versions_def)

lemma interrupted_Nil: "interrupted db = [] \<longleftrightarrow> applying_versions db = []"
  by (metis interrupted_applying length_0_conv length_sort)

text \<open>Between two migrations, and inside one.\<close>

definition last_applied :: "migration list \<Rightarrow> int list" where
  "last_applied a = (if a = [] then [] else [fst (last a)])"

definition settled :: "migration list \<Rightarrow> migration list \<Rightarrow> migration_db \<Rightarrow> bool" where
  "settled registry a db \<longleftrightarrow> applying_versions db = [] \<and> md_schema db = build a \<and> map fst (md_versions db) = last_applied a \<and>
     (\<exists>b. registry = a @ b)"

definition underway :: "migration list \<Rightarrow> migration list \<Rightarrow> migration \<Rightarrow> ddl list \<Rightarrow> migration_db \<Rightarrow> bool" where
  "underway registry a m ds db \<longleftrightarrow> applying_versions db = [fst m] \<and> map fst (md_versions db) = last_applied a \<and>
     (\<exists>b. registry = a @ m # b) \<and> (\<exists>pre. snd (snd m) = pre @ ds \<and> md_schema db = snd (exec_script pre (build a)))"

fun machine_inv :: "migration list \<Rightarrow> migration_db \<times> proc \<Rightarrow> bool" where
  "machine_inv registry (db, Looping current ms applied) =
     (\<exists>a d b. registry = a @ b \<and> settled registry a db \<and> ms = d @ b \<and> (\<forall>m \<in> set d. fst m \<le> current) \<and> (\<forall>m \<in> set b. current < fst m))"
| "machine_inv registry (db, Running m ds current ms applied) =
     (\<exists>a. registry = a @ m # ms \<and> underway registry a m ds db \<and> (\<forall>m \<in> set ms. current < fst m))"
| "machine_inv registry (db, Failing v e) = False"
| "machine_inv registry (db, p) = ((\<exists>a. settled registry a db) \<or> (\<exists>a m ds. underway registry a m ds db))"

lemma version_of_last: "map fst (md_versions db) = last_applied a \<Longrightarrow> get_schema_version db = (if a = [] then 0 else fst (last a))"
  by (auto simp: get_schema_version_def last_applied_def split: if_splits)

lemma version_splits:
  assumes "sorted_wrt (<) (map fst (a @ b))" "\<forall>m \<in> set (a @ b). 0 < fst m" "map fst (md_versions db) = last_applied a"
  shows "\<forall>m \<in> set a. fst m \<le> get_schema_version db" "\<forall>m \<in> set b. get_schema_version db < fst m"
proof -
  note v = version_of_last [OF assms(3)]
  show "\<forall>m \<in> set a. fst m \<le> get_schema_version db"
  proof
    fix m assume m: "m \<in> set a"
    then show "fst m \<le> get_schema_version db"
      unfolding v using assms(1) by (cases a rule: rev_cases) (auto simp: sorted_wrt_append)
  qed
  show "\<forall>m \<in> set b. get_schema_version db < fst m"
    using assms(1,2) unfolding v by (auto simp: sorted_wrt_append)
qed

definition orderly :: "migration list \<Rightarrow> bool" where
  "orderly registry \<longleftrightarrow> sorted_wrt (<) (map fst registry) \<and> (\<forall>m \<in> set registry. 0 < fst m) \<and> clean registry"

lemma settled_split:
  assumes "orderly registry" "settled registry a db"
  obtains b where "registry = a @ b" "\<forall>m \<in> set a. fst m \<le> get_schema_version db" "\<forall>m \<in> set b. get_schema_version db < fst m"
proof -
  from assms(2) obtain b where b: "registry = a @ b" "map fst (md_versions db) = last_applied a" by (auto simp: settled_def)
  with version_splits [of a b db] assms(1) that show thesis by (auto simp: orderly_def)
qed

lemma settled_log:
  "settled registry a db \<Longrightarrow> registry = a @ m # b \<Longrightarrow> underway registry a m (snd (snd m)) (log_applying now m db)"
  by (auto simp: settled_def underway_def)

lemma underway_exec:
  assumes "clean registry" "underway registry a m (d # ds) db"
  obtains s where "exec_ddl d (md_schema db) = Inr s" "underway registry a m ds (db\<lparr>md_schema := s\<rparr>)"
proof -
  from assms(2) obtain pre b where u: "snd (snd m) = pre @ d # ds" "md_schema db = snd (exec_script pre (build a))"
    "registry = a @ m # b" "applying_versions db = [fst m]" "map fst (md_versions db) = last_applied a"
    by (auto simp: underway_def)
  have "clean (a @ m # b)" using assms(1) u(3) by simp
  from clean_prefix(1) [OF this u(1)] clean_prefix(1) [OF this, of "pre @ [d]" ds] u(1)
  have e: "exec_script pre (build a) = (None, md_schema db)"
    "exec_script (pre @ [d]) (build a) = (None, snd (exec_script (pre @ [d]) (build a)))" by (simp_all add: u(2))
  from e(2) obtain s where s: "exec_ddl d (md_schema db) = Inr s" "snd (exec_script (pre @ [d]) (build a)) = s"
    by (auto simp: exec_script_None_append [OF e(1)] split: sum.splits)
  have "underway registry a m ds (db\<lparr>md_schema := s\<rparr>)"
    unfolding underway_def using u s(2) by (auto intro!: exI [of _ "pre @ [d]"])
  with s(1) that show thesis by blast
qed

lemma underway_record:
  assumes "clean registry" "underway registry a m [] db"
  shows "settled registry (a @ [m]) (record_applied now (fst m) db)"
proof -
  from assms(2) obtain b where u: "md_schema db = snd (exec_script (snd (snd m)) (build a))"
    "registry = a @ m # b" "applying_versions db = [fst m]" "map fst (md_versions db) = last_applied a"
    by (auto simp: underway_def)
  have "clean (a @ m # b)" using assms(1) u(2) by simp
  from clean_prefix(2) [OF this, of "snd (snd m)" "[]"] have "md_schema db = build (a @ [m])" by (simp add: u(1))
  moreover have "map fst (md_versions (record_applied now (fst m) db)) = [fst m]"
    using u(4) by (auto simp: last_applied_def split: if_splits)
  ultimately show ?thesis using u by (simp add: settled_def applying_recorded last_applied_def del: log_record_simps(4))
qed

lemma machine_inv_step:
  assumes "orderly registry" "machine_inv registry s"
  shows "machine_inv registry (migrate_step registry now s)"
  using assms
proof (induction registry now s rule: migrate_step.induct)
  case (1 registry now db)
  show ?case
  proof (cases "interrupted db = []")
    case True
    then have "applying_versions db = []" by (simp add: interrupted_Nil)
    with 1 obtain a where a: "settled registry a db" by (auto simp: underway_def)
    from settled_split [OF "1.prems"(1) this] a True show ?thesis by simp blast
  qed (use 1 in simp)
next
  case (2 registry now db current applied)
  then show ?case by auto
next
  case (3 registry now db current version description script ms applied)
  let ?m = "(version, description, script)"
  from "3.prems"(2) obtain a d b where s: "registry = a @ b" "settled registry a db" "?m # ms = d @ b"
    "\<forall>m \<in> set d. fst m \<le> current" "\<forall>m \<in> set b. current < fst m" by auto
  show ?case
  proof (cases d)
    case Nil
    with s have b: "registry = a @ ?m # ms" "\<not> version \<le> current" "\<forall>m \<in> set ms. current < fst m" by (auto simp del: append_assoc)
    have "underway registry a ?m script (log_applying now ?m db)" using settled_log [OF s(2) b(1), of now] by simp
    with b show ?thesis by (simp only: migrate_step.simps machine_inv.simps if_False) blast
  next
    case (Cons m d')
    with s have "ms = d' @ b" "version \<le> current" "\<forall>m \<in> set d'. fst m \<le> current" by auto
    with s(1,2,5) show ?thesis by simp blast
  qed
next
  case (4 registry now db m d ds current ms applied)
  then obtain a where a: "registry = a @ m # ms" "underway registry a m (d # ds) db" "\<forall>m \<in> set ms. current < fst m" by auto
  obtain s where s: "exec_ddl d (md_schema db) = Inr s" "underway registry a m ds (db\<lparr>md_schema := s\<rparr>)"
    by (rule underway_exec [OF _ a(2)]) (use "4.prems"(1) in \<open>simp add: orderly_def\<close>)
  show ?case by (simp only: migrate_step.simps s(1) sum.case machine_inv.simps) (use a s(2) in blast)
next
  case (5 registry now db m current ms applied)
  then obtain a where a: "registry = a @ m # ms" "underway registry a m [] db" "\<forall>m \<in> set ms. current < fst m" by auto
  have "settled registry (a @ [m]) (record_applied now (fst m) db)"
    by (rule underway_record [OF _ a(2)]) (use "5.prems"(1) in \<open>simp add: orderly_def\<close>)
  moreover have "registry = (a @ [m]) @ ms" using a(1) by simp
  ultimately show ?case
    by (simp only: migrate_step.simps machine_inv.simps)
      (rule exI [of _ "a @ [m]"], rule exI [of _ "[]"], rule exI [of _ ms], use a(3) in simp)
qed auto

lemma machine_inv_killed: "machine_inv registry (db, p) \<Longrightarrow> machine_inv registry (db, Starting)"
  by (cases p) auto

lemma machine_inv_reachable:
  assumes "orderly registry" "(deployment registry)\<^sup>*\<^sup>* (new_database, Starting) s"
  shows "machine_inv registry s"
  using assms(2)
proof (induction rule: rtranclp_induct)
  case base
  have "settled registry [] new_database"
    by (simp add: settled_def applying_versions_def last_applied_def) (simp add: new_database_def)
  then show ?case by auto
next
  case (step s s')
  from step(2) show ?case
    by cases (use step(3) assms(1) machine_inv_step machine_inv_killed in auto)
qed

text \<open>A start from a settled database applies exactly the rest of the registry.\<close>

lemma apply_from_settled:
  assumes "clean registry" "settled registry a db" "registry = a @ b" "\<forall>m \<in> set b. current < fst m" "\<forall>m \<in> set d. fst m \<le> current"
  shows "fst (apply_migrations clock current (d @ b) applied db) = Inr (applied @ map fst b) \<and>
    settled registry registry (snd (apply_migrations clock current (d @ b) applied db))"
  using assms(2-)
proof (induction d)
  case Nil
  then show ?case
  proof (induction b arbitrary: a db applied)
    case (Cons m b)
    obtain v dsc sc where m: "m = (v, dsc, sc)" by (cases m) auto
    let ?now = "clock (length applied)"
    let ?db1 = "log_applying ?now m db"
    have u: "underway registry a m sc ?db1" using settled_log [OF Cons.prems(1,2)] by (simp add: m)
    have c: "md_schema db = build a" using Cons.prems(1) by (simp add: settled_def)
    have "clean (a @ m # b)" using assms(1) Cons.prems(2) by simp
    from clean_prefix(2) [OF this, of sc "[]"]
    have e: "exec_script sc (md_schema ?db1) = (None, build (a @ [m]))" by (simp add: m c)
    have "underway registry a m [] (?db1\<lparr>md_schema := build (a @ [m])\<rparr>)"
      using u e c by (auto simp: underway_def m intro!: exI [of _ sc])
    from Cons.IH [OF underway_record [OF assms(1) this, of ?now], where applied = "applied @ [v]"] Cons.prems e
    show ?case by (simp add: m Let_def)
  qed simp
qed (use assms in auto)

text \<open>C10: With increasing versions and scripts that run in order, a deployment may be killed and restarted at any point: the next
  start either applies exactly the migrations that are missing and leaves the full schema, or names the one migration that was
  interrupted, of whose script a first part has run and nothing else.\<close>

theorem migrations_survive_kills:
  assumes "orderly registry" "(deployment registry)\<^sup>*\<^sup>* (new_database, Starting) (db, p)"
  shows "\<exists>a b. registry = a @ b \<and>
    (migrate_db clock registry db = (Inr (map fst b), snd (migrate_db clock registry db)) \<and> md_schema db = build a \<and>
       md_schema (snd (migrate_db clock registry db)) = build registry \<or>
     (\<exists>pre ds. b \<noteq> [] \<and> snd (snd (hd b)) = pre @ ds \<and> md_schema db = snd (exec_script pre (build a)) \<and>
       migrate_db clock registry db = (Inl (Interrupted [fst (hd b)]), db)))"
proof -
  have "(\<exists>a. settled registry a db) \<or> (\<exists>a m ds. underway registry a m ds db)"
    using machine_inv_killed [OF machine_inv_reachable [OF assms]] by simp
  then consider a where "settled registry a db" | a m ds where "underway registry a m ds db" by blast
  then show ?thesis
  proof cases
    case 1
    from settled_split [OF assms(1) 1] obtain b where b: "registry = a @ b" "\<forall>m \<in> set a. fst m \<le> get_schema_version db"
      "\<forall>m \<in> set b. get_schema_version db < fst m" .
    have "interrupted db = []" using 1 by (simp add: interrupted_Nil settled_def)
    then have "migrate_db clock registry db = apply_migrations clock (get_schema_version db) (a @ b) [] db"
      by (simp add: migrate_db_def b(1))
    with apply_from_settled [OF _ 1 b(1,3,2), of clock "[]"] assms(1)
    have "fst (migrate_db clock registry db) = Inr (map fst b)" "md_schema (snd (migrate_db clock registry db)) = build registry"
      by (simp_all add: settled_def orderly_def)
    moreover have "md_schema db = build a" using 1 by (simp add: settled_def)
    ultimately show ?thesis using b(1) by (metis prod.collapse)
  next
    case 2
    then obtain b pre where u: "registry = a @ m # b" "snd (snd m) = pre @ ds" "md_schema db = snd (exec_script pre (build a))"
      "applying_versions db = [fst m]" by (auto simp: underway_def)
    then have "interrupted db = [fst m]" by (simp add: interrupted_applying)
    with u show ?thesis by (intro exI [of _ a] exI [of _ "m # b"]) (auto simp: migrate_db_def)
  qed
qed

subsection \<open>The shipped registry\<close>

text \<open>The table and the columns named in the SQL of each function of \<open>detection/storage.py\<close>.\<close>

definition trade_sql :: "(string \<times> string \<times> string list) list" where
  "trade_sql =
     [(''upsert_trades'', ''trades'', [''paging_token'', ''trade_id'', ''ledger_close_time'', ''base_account'',
        ''counter_account'', ''base_asset_code'', ''base_asset_issuer'', ''counter_asset_code'',
        ''counter_asset_issuer'', ''base_amount'', ''counter_amount'', ''price'', ''base_is_seller'', ''trade_type'',
        ''liquidity_pool_id'', ''transaction_hash'', ''path_payment_id'', ''hop_index'']),
      (''store_filtered_trade'', ''filtered_trades'', [''id'', ''paging_token'', ''ledger_close_time'',
        ''rejection_reason'', ''filtered_at'']),
      (''prune_filtered_trades'', ''filtered_trades'', [''paging_token'', ''filtered_at''])]"

definition score_sql :: "(string \<times> string \<times> string list) list" where
  "score_sql =
     [(''save_scores'', ''risk_scores'', [''wallet'', ''asset_pair'', ''score'', ''benford_flag'', ''ml_flag'',
        ''confidence'', ''timestamp'']),
      (''save_submission'', ''on_chain_submissions'', [''wallet'', ''asset_pair'', ''score'', ''tx_hash'', ''status'',
        ''error_message'', ''proof_system'', ''submitted_at'']),
      (''get_latest_scores'', ''risk_scores'', [''wallet'', ''asset_pair'', ''score'', ''benford_flag'', ''ml_flag'',
        ''confidence'', ''timestamp''])]"

definition feature_sql :: "(string \<times> string \<times> string list) list" where
  "feature_sql =
     [(''save_pair_correlations'', ''pair_correlations'', [''pair_a'', ''pair_b'', ''correlation_r'', ''method'',
        ''shared_wallet_count'', ''timestamp'']),
      (''get_pair_correlations'', ''pair_correlations'', [''pair_a'', ''pair_b'', ''correlation_r'', ''method'',
        ''shared_wallet_count'', ''timestamp'']),
      (''save_feature_vectors'', ''feature_vectors'', [''wallet'', ''asset_pair'', ''features_json'', ''timestamp'']),
      (''get_feature_vector'', ''feature_vectors'', [''features_json'', ''wallet'', ''asset_pair'', ''timestamp'']),
      (''save_shap_values'', ''feature_vectors'', [''id'', ''shap_json'', ''wallet'', ''asset_pair'', ''timestamp'']),
      (''get_shap_values'', ''feature_vectors'', [''shap_json'', ''wallet'', ''asset_pair'', ''timestamp''])]"

definition governance_sql :: "(string \<times> string \<times> string list) list" where
  "governance_sql =
     [(''save_drift_report'', ''drift_reports'', [''triggered_at'', ''drift_detected'', ''psi_report_json'',
        ''psi_threshold'', ''min_drifted_features'']),
      (''get_drift_reports'', ''drift_reports'', [''id'', ''triggered_at'', ''drift_detected'', ''psi_report_json'',
        ''psi_threshold'', ''min_drifted_features'']),
      (''save_retrain_run'', ''retrain_runs'', [''triggered_at'', ''drift_report_id'', ''model_name'',
        ''old_version'', ''new_version'', ''old_auc_roc'', ''new_auc_roc'', ''promoted'', ''forced'']),
      (''get_retrain_runs'', ''retrain_runs'', [''model_name'', ''triggered_at'', ''id'', ''drift_report_id'',
        ''old_version'', ''new_version'', ''old_auc_roc'', ''new_auc_roc'', ''promoted'', ''forced'']),
      (''save_robustness_report'', ''robustness_reports'', [''created_at'', ''model_version'', ''asr_json'',
        ''mean_map'', ''p95_map'', ''certified_radius'', ''n_samples'', ''epsilon'', ''report_json'']),
      (''get_latest_robustness_report'', ''robustness_reports'', [''report_json'', ''created_at''])]"

definition path_sql :: "(string \<times> string \<times> string list) list" where
  "path_sql =
     [(''save_liquidity_pool_trades'', ''liquidity_pool_trades'', [''trade_id'', ''pool_id'', ''base_account'',
        ''base_asset_pair'', ''counter_asset_pair'', ''base_amount'', ''counter_amount'', ''base_is_seller'',
        ''timestamp'']),
      (''get_liquidity_pool_trades'', ''liquidity_pool_trades'', [''base_account'', ''base_asset_pair'',
        ''counter_asset_pair'', ''base_amount'', ''counter_amount'', ''base_is_seller'', ''timestamp'', ''pool_id'']),
      (''save_path_payments'', ''path_payments'', [''payment_id'', ''transaction_hash'', ''source_account'',
        ''destination_account'', ''source_asset_pair'', ''destination_asset_pair'', ''source_amount'',
        ''destination_amount'', ''hop_count'', ''strict_send'', ''timestamp'']),
      (''save_circular_routes'', ''circular_path_routes'', [''transaction_hash'', ''accounts_json'', ''hop_count'',
        ''cycle_volume'', ''is_atomic_self_payment'', ''touches_pool'', ''timestamp'']),
      (''get_circular_routes'', ''circular_path_routes'', [''transaction_hash'', ''accounts_json'', ''hop_count'',
        ''cycle_volume'', ''is_atomic_self_payment'', ''touches_pool'', ''timestamp''])]"

definition cycle_sql :: "(string \<times> string \<times> string list) list" where
  "cycle_sql =
     [(''save_path_payment_cycles'', ''path_payment_cycles'', [''accounts_json'', ''cycle_path_json'',
        ''cycle_value_xlm'', ''cycle_length'', ''completed_in_seconds'', ''asset_diversity'', ''cycle_metadata_json'',
        ''detected_at'']),
      (''get_path_payment_cycles'', ''path_payment_cycles'', [''accounts_json'', ''cycle_path_json'',
        ''cycle_value_xlm'', ''cycle_length'', ''completed_in_seconds'', ''asset_diversity'', ''cycle_metadata_json'',
        ''detected_at'']),
      (''save_rings'', ''wash_rings'', [''accounts_json'', ''total_volume'', ''cycle_volume'', ''avg_trade_count'',
        ''timing_tightness'', ''truncated'', ''evidence_json'', ''detected_at'']),
      (''get_rings'', ''wash_rings'', [''accounts_json'', ''total_volume'', ''cycle_volume'', ''avg_trade_count'',
        ''timing_tightness'', ''truncated'', ''evidence_json'', ''detected_at''])]"

definition bridge_write_sql :: "(string \<times> string \<times> string list) list" where
  "bridge_write_sql =
     [(''save_feature_state'', ''wallet_feature_states'', [''wallet'', ''asset_pair'', ''state_json'',
        ''last_updated'']),
      (''get_feature_state'', ''wallet_feature_states'', [''state_json'', ''wallet'', ''asset_pair'']),
      (''promote_cold_to_hot'', ''wallet_feature_states'', [''state_json'', ''last_updated'']),
      (''save_bridge_transfer'', ''bridge_transfers'', [''chain'', ''direction'', ''evm_wallet'', ''stellar_wallet'',
        ''amount_usd'', ''token'', ''tx_hash_evm'', ''tx_hash_stellar'', ''timestamp'', ''canonical_hash'',
        ''verification_status'', ''verified_at'']),
      (''save_bridge_transfers'', ''bridge_transfers'', [''chain'', ''direction'', ''evm_wallet'', ''stellar_wallet'',
        ''amount_usd'', ''token'', ''tx_hash_evm'', ''tx_hash_stellar'', ''timestamp'', ''canonical_hash'',
        ''verification_status'', ''verified_at'']),
      (''retract_bridge_transfers'', ''bridge_transfers'', [''chain'', ''tx_hash_evm''])]"

definition bridge_read_sql :: "(string \<times> string \<times> string list) list" where
  "bridge_read_sql =
     [(''get_bridge_transfers'', ''bridge_transfers'', [''timestamp'', ''stellar_wallet'', ''evm_wallet'', ''chain'',
        ''direction'', ''amount_usd'', ''token'', ''tx_hash_evm'', ''tx_hash_stellar'', ''canonical_hash'',
        ''verification_status'', ''verified_at'']),
      (''get_bridge_transfer_history'', ''bridge_transfers'', [''chain'', ''direction'', ''evm_wallet'',
        ''stellar_wallet'', ''amount_usd'', ''token'', ''tx_hash_evm'', ''tx_hash_stellar'', ''timestamp''])]"

definition alert_sql :: "(string \<times> string \<times> string list) list" where
  "alert_sql =
     [(''save_alerts'', ''alerts'', [''alert_type'', ''wallet'', ''asset_pair'', ''pool_id'', ''detail_json'',
        ''timestamp'']),
      (''get_alerts'', ''alerts'', [''alert_type'', ''wallet'', ''timestamp'', ''asset_pair'', ''pool_id'',
        ''detail_json'']),
      (''log_compliance_export'', ''compliance_exports'', [''export_type'', ''wallet_hash'', ''risk_score'',
        ''dry_run'', ''timestamp'']),
      (''count_compliance_exports_since'', ''compliance_exports'', [''timestamp''])]"

definition history_sql :: "(string \<times> string \<times> string list) list" where
  "history_sql =
     [(''get_score_history'', ''risk_scores'', [''wallet'', ''asset_pair'', ''score'', ''benford_flag'', ''ml_flag'',
        ''confidence'', ''timestamp'']),
      (''get_scores_since'', ''risk_scores'', [''timestamp''])]"

definition hop_sql :: "(string \<times> string \<times> string list) list" where
  "hop_sql =
     [(''save_hop_payment_cycles'', ''hop_payment_cycles'', [''origin_wallet'', ''origin_asset'', ''path_length'',
        ''recovery_ratio'', ''cycle_duration_seconds'', ''counterparty_overlap'', ''cycle_score'', ''hop_json'',
        ''detected_at'']),
      (''get_hop_payment_cycles'', ''hop_payment_cycles'', [''id'', ''origin_wallet'', ''origin_asset'',
        ''path_length'', ''recovery_ratio'', ''cycle_duration_seconds'', ''counterparty_overlap'', ''cycle_score'',
        ''hop_json'', ''detected_at'']),
      (''log_krum_aggregation'', ''fl_aggregation_log'', [''round_number'', ''n_clients'', ''f_tolerance'',
        ''m_selected'', ''selected_indices'', ''excluded_indices'', ''krum_scores'', ''recorded_at'']),
      (''get_krum_aggregation_log'', ''fl_aggregation_log'', [''round_number'', ''n_clients'', ''f_tolerance'',
        ''m_selected'', ''selected_indices'', ''excluded_indices'', ''krum_scores'', ''recorded_at''])]"

definition override_sql :: "(string \<times> string \<times> string list) list" where
  "override_sql =
     [(''get_active_wallet_override'', ''score_overrides'', [''wallet'', ''asset_pair'', ''override_score'',
        ''reason'', ''recorded_at'', ''status''])]"

definition storage_sql :: "(string \<times> string \<times> string list) list" where
  "storage_sql =
     trade_sql @ score_sql @ feature_sql @ governance_sql @ path_sql @ cycle_sql @ bridge_write_sql @
     bridge_read_sql @ alert_sql @ history_sql @ hop_sql @ override_sql"

definition sql_runs :: "schema \<Rightarrow> string \<times> string \<times> string list \<Rightarrow> bool" where
  "sql_runs s x = (case x of (_, t, cols) \<Rightarrow> (case columns_of t s of None \<Rightarrow> False | Some cs \<Rightarrow> list_all (\<lambda>c. c \<in> set cs) cols))"

text \<open>What a fresh install ends with.\<close>

definition shipped_schema :: schema where
  "shipped_schema = 
     [(''risk_scores'', [''id'', ''wallet'', ''asset_pair'', ''score'', ''benford_flag'', ''ml_flag'', ''confidence'',
        ''timestamp'', ''shap_json'']),
      (''on_chain_submissions'', [''id'', ''wallet'', ''asset_pair'', ''score'', ''tx_hash'', ''status'',
        ''error_message'', ''submitted_at'', ''proof_system'']),
      (''pair_correlations'', [''id'', ''pair_a'', ''pair_b'', ''correlation_r'', ''method'', ''shared_wallet_count'',
        ''timestamp'']),
      (''trades'', [''paging_token'', ''trade_id'', ''ledger_close_time'', ''base_account'', ''counter_account'',
        ''base_asset_code'', ''base_asset_issuer'', ''counter_asset_code'', ''counter_asset_issuer'', ''base_amount'',
        ''counter_amount'', ''price'', ''base_is_seller'', ''trade_type'', ''liquidity_pool_id'', ''transaction_hash'',
        ''path_payment_id'', ''hop_index'']),
      (''feature_vectors'', [''id'', ''wallet'', ''asset_pair'', ''features_json'', ''shap_json'', ''timestamp'']),
      (''liquidity_pool_trades'', [''id'', ''trade_id'', ''pool_id'', ''base_account'', ''base_asset_pair'',
        ''counter_asset_pair'', ''base_amount'', ''counter_amount'', ''base_is_seller'', ''timestamp'']),
      (''path_payments'', [''id'', ''payment_id'', ''transaction_hash'', ''source_account'', ''destination_account'',
        ''source_asset_pair'', ''destination_asset_pair'', ''source_amount'', ''destination_amount'', ''hop_count'',
        ''strict_send'', ''timestamp'']),
      (''circular_path_routes'', [''id'', ''transaction_hash'', ''accounts_json'', ''hop_count'', ''cycle_volume'',
        ''is_atomic_self_payment'', ''touches_pool'', ''timestamp'']),
      (''drift_reports'', [''id'', ''triggered_at'', ''drift_detected'', ''psi_report_json'', ''psi_threshold'',
        ''min_drifted_features'']),
      (''retrain_runs'', [''id'', ''triggered_at'', ''drift_report_id'', ''model_name'', ''old_version'',
        ''new_version'', ''old_auc_roc'', ''new_auc_roc'', ''promoted'', ''forced'']),
      (''robustness_reports'', [''id'', ''created_at'', ''model_version'', ''asr_json'', ''mean_map'', ''p95_map'',
        ''certified_radius'', ''n_samples'', ''epsilon'', ''report_json'']),
      (''committee_members'', [''id'', ''public_key_hex'', ''key_hash'', ''added_at'']),
      (''score_disputes'', [''id'', ''dispute_id'', ''wallet'', ''asset_pair'', ''disputed_score'',
        ''soroban_tx_hash'', ''evidence_url'', ''submitted_at'', ''status'', ''committee_votes_json'', ''resolved_at'',
        ''resolution'']),
      (''score_overrides'', [''id'', ''wallet'', ''asset_pair'', ''dispute_id'', ''tx_hash'', ''status'',
        ''recorded_at'']),
      (''runtime_config'', [''key'', ''value'', ''updated_at'']),
      (''wallet_feature_states'', [''id'', ''wallet'', ''asset_pair'', ''state_json'', ''last_updated'']),
      (''wash_rings'', [''id'', ''accounts_json'', ''total_volume'', ''cycle_volume'', ''avg_trade_count'',
        ''timing_tightness'', ''truncated'', ''detected_at'', ''evidence_json'']),
      (''bridge_transfers'', [''id'', ''chain'', ''direction'', ''evm_wallet'', ''stellar_wallet'', ''amount_usd'',
        ''token'', ''tx_hash_evm'', ''tx_hash_stellar'', ''timestamp'', ''canonical_hash'', ''verification_status'',
        ''verified_at'']),
      (''alerts'', [''id'', ''alert_type'', ''wallet'', ''asset_pair'', ''pool_id'', ''detail_json'', ''timestamp'']),
      (''path_payment_cycles'', [''id'', ''accounts_json'', ''cycle_path_json'', ''cycle_value_xlm'',
        ''cycle_length'', ''completed_in_seconds'', ''asset_diversity'', ''cycle_metadata_json'', ''detected_at'']),
      (''soroban_dead_letters'', [''id'', ''wallet'', ''asset_pair'', ''score'', ''ledger_timestamp'',
        ''error_message'', ''status'', ''created_at'', ''replayed_at'', ''replay_tx_hash'']),
      (''benford_baselines'', [''id'', ''asset_pair'', ''digit_freqs_json'', ''trade_count'', ''computed_at'',
        ''window_days'']),
      (''case_assignments'', [''id'', ''wallet'', ''asset_pair'', ''analyst_key_hash'', ''assigned_at'',
        ''lock_expires_at'', ''status'', ''released_at'', ''resolved_at'']),
      (''analyst_feedback'', [''id'', ''wallet'', ''asset_pair'', ''verdict'', ''notes'', ''analyst_key_hash'',
        ''submitted_at'', ''review_started_at'']),
      (''compliance_exports'', [''id'', ''export_type'', ''wallet_hash'', ''risk_score'', ''dry_run'', ''timestamp'']),
      (''governance_proposals'', [''id'', ''proposal_type'', ''payload'', ''proposer'', ''status'', ''submitted_at'',
        ''voting_ends_at'', ''executed_at'', ''execution_error'']),
      (''governance_votes'', [''id'', ''proposal_id'', ''voter'', ''decision'', ''cast_at'']),
      (''governance_committee'', [''member'', ''added_at'', ''active'']),
      (''pending_chain_submissions'', [''id'', ''idempotency_key'', ''kind'', ''override_id'', ''dispute_id'',
        ''wallet'', ''asset_pair'', ''payload_json'', ''status'', ''attempts'', ''max_attempts'', ''next_attempt_at'',
        ''leased_until'', ''last_error'', ''tx_hash'', ''created_at'', ''updated_at''])]"

lemma shipped_registry_runs: "exec_script (statements MIGRATIONS) (md_schema new_database) = (None, shipped_schema)"
  by code_simp

lemma shipped_sql_gaps:
  "map fst (filter (\<lambda>x. \<not> sql_runs shipped_schema x) storage_sql) =
     [''store_filtered_trade'', ''prune_filtered_trades'', ''save_hop_payment_cycles'', ''get_hop_payment_cycles'',
      ''log_krum_aggregation'', ''get_krum_aggregation_log'', ''get_active_wallet_override'']"
  by code_simp

lemma shipped_pending_columns: "columns_of ''pending_chain_submissions'' shipped_schema = Some pending_chain_columns"
  by code_simp

lemma without_second_15:
  "exec_script (statements (take 15 MIGRATIONS @ drop 16 MIGRATIONS)) (md_schema new_database) =
     (None, filter (\<lambda>e. fst e \<noteq> ''benford_baselines'') shipped_schema)"
  by code_simp

lemma recovery_example_clean: "clean (take 2 MIGRATIONS)"
  by code_simp


lemma settled_new: "settled registry [] new_database"
  by (simp add: settled_def applying_versions_def last_applied_def) (simp add: new_database_def)

lemma settled_version: "settled registry a db \<Longrightarrow> a \<noteq> [] \<Longrightarrow> get_schema_version db = fst (last a)"
  using version_of_last [of db a] by (simp add: settled_def)

lemma migrate_settled: "settled registry a db \<Longrightarrow> migrate_db clock ms db = apply_migrations clock (get_schema_version db) ms [] db"
  by (simp add: migrate_db_def interrupted_Nil settled_def)

lemma apply_nothing: "\<forall>m \<in> set ms. fst m \<le> current \<Longrightarrow> apply_migrations clock current ms applied db = (Inr applied, db)"
  by (induction ms) auto

lemma MIGRATIONS_versions: "map fst MIGRATIONS = [1, 2, 3, 4, 5, 6, 7, 8, 9, 10, 11, 12, 13, 14, 15, 15, 16, 17, 18, 19, 20]"
  by code_simp

lemma MIGRATIONS_bounds:
  "\<forall>m \<in> set MIGRATIONS. 0 < fst m" "\<forall>m \<in> set MIGRATIONS. fst m \<le> 20" "fst (last MIGRATIONS) = 20" "MIGRATIONS \<noteq> []"
  "\<forall>m \<in> set (take 16 MIGRATIONS). fst m \<le> 15" "\<forall>m \<in> set (drop 16 MIGRATIONS). 15 < fst m"
proof -
  have v: "map fst (take k MIGRATIONS) = take k [1, 2, 3, 4, 5, 6, 7, 8, 9, 10, 11, 12, 13, 14, 15, 15, 16, 17, 18, 19, 20]"
    "map fst (drop k MIGRATIONS) = drop k [1, 2, 3, 4, 5, 6, 7, 8, 9, 10, 11, 12, 13, 14, 15, 15, 16, 17, 18, 19, 20]" for k
    by (simp_all add: take_map [symmetric] drop_map [symmetric] MIGRATIONS_versions)
  have s: "fst ` set ms = set (map fst ms)" for ms :: "migration list" by simp
  have "fst ` set MIGRATIONS = {1..20}" unfolding s MIGRATIONS_versions by (auto simp: atLeastAtMost_def) presburger
  then have "\<forall>m \<in> set MIGRATIONS. fst m \<in> {1..20}" by (metis imageI)
  then show "\<forall>m \<in> set MIGRATIONS. 0 < fst m" "\<forall>m \<in> set MIGRATIONS. fst m \<le> 20" by auto
  show "MIGRATIONS \<noteq> []" using MIGRATIONS_versions by auto
  then show "fst (last MIGRATIONS) = 20" by (simp add: last_map [symmetric] MIGRATIONS_versions)
  have "fst ` set (take 16 MIGRATIONS) \<subseteq> {..15}" "fst ` set (drop 16 MIGRATIONS) \<subseteq> {15<..}" unfolding s v by auto
  then show "\<forall>m \<in> set (take 16 MIGRATIONS). fst m \<le> 15" "\<forall>m \<in> set (drop 16 MIGRATIONS). 15 < fst m" by auto
qed

lemma clean_shipped: "clean MIGRATIONS" "build MIGRATIONS = shipped_schema"
  using shipped_registry_runs by (simp_all add: clean_def build_def)

text \<open>A fresh install applies all twenty-one migrations and ends at version 20 (two of them share the number 15); it is then
  complete. On the schema it leaves, seven functions of the storage module name tables or columns that do not exist, and
  \<open>pending_chain_submissions\<close> has the columns \<open>Chain_Queue\<close> assumes.\<close>

theorem fresh_install:
  fixes c1 c2 :: "nat \<Rightarrow> time"
  defines "db \<equiv> snd (migrate_db c1 MIGRATIONS new_database)"
  shows "fst (migrate_db c1 MIGRATIONS new_database) = Inr (map fst MIGRATIONS) \<and> length MIGRATIONS = 21 \<and>
    get_schema_version db = 20 \<and> migrate_db c2 MIGRATIONS db = (Inr [], db) \<and>
    map fst (filter (\<lambda>x. \<not> sql_runs (md_schema db) x) storage_sql) =
      [''store_filtered_trade'', ''prune_filtered_trades'', ''save_hop_payment_cycles'', ''get_hop_payment_cycles'',
       ''log_krum_aggregation'', ''get_krum_aggregation_log'', ''get_active_wallet_override''] \<and>
    columns_of ''pending_chain_submissions'' (md_schema db) = Some pending_chain_columns"
proof -
  have "get_schema_version new_database = 0" by (simp add: get_schema_version_def new_database_def)
  then have m: "migrate_db c1 MIGRATIONS new_database = apply_migrations c1 0 ([] @ MIGRATIONS) [] new_database"
    using migrate_settled [OF settled_new] by simp
  have a: "fst (migrate_db c1 MIGRATIONS new_database) = Inr (map fst MIGRATIONS)" "settled MIGRATIONS MIGRATIONS db"
    using apply_from_settled [OF clean_shipped(1) settled_new, of MIGRATIONS 0 "[]" c1 "[]"] MIGRATIONS_bounds(1)
    by (simp_all add: m db_def)
  have v: "get_schema_version db = 20" using settled_version [OF a(2)] MIGRATIONS_bounds by simp
  have "migrate_db c2 MIGRATIONS db = (Inr [], db)"
    using migrate_settled [OF a(2)] apply_nothing [OF MIGRATIONS_bounds(2)] by (simp add: v)
  moreover have "md_schema db = shipped_schema" using a(2) by (simp add: settled_def clean_shipped)
  moreover have "length MIGRATIONS = 21" using arg_cong [OF MIGRATIONS_versions, of length] by simp
  ultimately show ?thesis using a v by (simp add: shipped_sql_gaps shipped_pending_columns)
qed

text \<open>C17: The second migration numbered 15 is lost on every database that stood at version 15: all starts succeed, the table never
  comes.\<close>

theorem second_version_15_skipped:
  fixes c1 c2 c3 :: "nat \<Rightarrow> time"
  defines "db \<equiv> snd (migrate_db c1 (take 15 MIGRATIONS) new_database)"
  defines "db' \<equiv> snd (migrate_db c2 MIGRATIONS db)"
  shows "get_schema_version db = 15 \<and> fst (migrate_db c2 MIGRATIONS db) = Inr (map fst (drop 16 MIGRATIONS)) \<and>
    migrate_db c3 MIGRATIONS db' = (Inr [], db') \<and> columns_of ''benford_baselines'' (md_schema db') = None \<and>
    columns_of ''benford_baselines'' shipped_schema \<noteq> None"
proof -
  let ?old = "take 15 MIGRATIONS" and ?new = "take 15 MIGRATIONS @ drop 16 MIGRATIONS"
  have clean: "clean ?new" "build ?new = filter (\<lambda>e. fst e \<noteq> ''benford_baselines'') shipped_schema"
    using without_second_15 by (simp_all add: clean_def build_def)
  have cold: "clean ?old" using clean_append [OF clean(1)] .
  have old: "?old \<noteq> []" "fst (last ?old) = 15"
  proof -
    have o: "map fst ?old = [1, 2, 3, 4, 5, 6, 7, 8, 9, 10, 11, 12, 13, 14, 15]"
      by (simp add: take_map [symmetric] MIGRATIONS_versions)
    then show ne: "?old \<noteq> []" by auto
    have "fst (last ?old) = last (map fst ?old)" by (rule last_map [OF ne, symmetric])
    then show "fst (last ?old) = 15" by (simp add: o)
  qed
  have "get_schema_version new_database = 0" by (simp add: get_schema_version_def new_database_def)
  then have m: "migrate_db c1 ?old new_database = apply_migrations c1 0 ([] @ ?old) [] new_database"
    using migrate_settled [OF settled_new] by simp
  have "\<forall>m \<in> set ?old. 0 < fst m" using MIGRATIONS_bounds(1) by (meson in_set_takeD)
  then have s: "settled ?old ?old db"
    using apply_from_settled [OF cold settled_new, of ?old 0 "[]" c1 "[]"] by (simp add: m db_def)
  have v: "get_schema_version db = 15" using settled_version [OF s old(1)] old(2) by simp
  have s': "settled ?new ?old db" using s by (simp add: settled_def)
  have "migrate_db c2 MIGRATIONS db = apply_migrations c2 15 (take 16 MIGRATIONS @ drop 16 MIGRATIONS) [] db"
    using migrate_settled [OF s] v by simp
  with apply_from_settled [OF clean(1) s' refl MIGRATIONS_bounds(6,5), of c2 "[]"]
  have r: "fst (migrate_db c2 MIGRATIONS db) = Inr (map fst (drop 16 MIGRATIONS))" "settled ?new ?new db'"
    by (simp_all add: db'_def)
  have "get_schema_version db' = fst (last ?new)" using settled_version [OF r(2)] old(1) by simp
  also have "\<dots> = 20"
  proof -
    have "drop 16 MIGRATIONS \<noteq> []" using arg_cong [OF MIGRATIONS_versions, of length] by auto
    then show ?thesis using MIGRATIONS_bounds(3) by (simp add: last_drop)
  qed
  finally have "migrate_db c3 MIGRATIONS db' = (Inr [], db')"
    using migrate_settled [OF r(2)] apply_nothing [OF MIGRATIONS_bounds(2)] by simp
  moreover have "columns_of ''benford_baselines'' (md_schema db') = None"
    using r(2) by (simp add: settled_def clean(2) columns_of_def map_of_eq_None_iff image_iff)
  moreover have "columns_of ''benford_baselines'' shipped_schema \<noteq> None" by code_simp
  ultimately show ?thesis using v r(1) by simp
qed

text \<open>The documented recovery leaves the version behind. If the script adds a column, the next start runs it again, fails on the
  column that exists, and the migration counts as interrupted once more.\<close>

theorem documented_recovery_fails_again:
  assumes "registry = a @ (v, desc, Add_column t c # ds) # b" "\<forall>m \<in> set a. fst m \<le> get_schema_version db" "get_schema_version db < v"
    and "applying_versions db = [v]" "columns_of t (md_schema (operator_recovery now v rest db)) = Some cols" "c \<in> set cols"
  shows "\<exists>db'. migrate_db clock registry (operator_recovery now v rest db) = (Inl (Script_failed (Duplicate_column t c)), db') \<and>
    migrate_db clock registry db' = (Inl (Interrupted [v]), db')"
proof -
  let ?db = "operator_recovery now v rest db"
  have ver: "get_schema_version ?db = get_schema_version db" by (simp add: get_schema_version_def operator_recovery_def)
  have "applying_versions ?db = applying_versions (record_applied now v db)"
    by (simp add: applying_versions_def operator_recovery_def record_applied_def)
  then have app: "applying_versions ?db = []" by (simp add: applying_recorded assms(4))
  have skip: "apply_migrations clock (get_schema_version db) (a @ x) [] d = apply_migrations clock (get_schema_version db) x [] d" for x d
    using assms(2) by (induction a) auto
  let ?db1 = "log_applying (clock 0) (v, desc, Add_column t c # ds) ?db"
  let ?db' = "log_error v (Duplicate_column t c) ?db1"
  have "exec_script (Add_column t c # ds) (md_schema ?db1) = (Some (Duplicate_column t c), md_schema ?db1)"
    using assms(5,6) by simp
  then have "migrate_db clock registry ?db = (Inl (Script_failed (Duplicate_column t c)), ?db')"
    using app assms(3)
    by (simp add: log_schema_same migrate_db_def interrupted_Nil assms(1) ver skip Let_def del: exec_script.simps)
  moreover have "applying_versions ?db' = [v]"
  proof -
    have "map mr_version (filter (\<lambda>r. mr_status r = Applying) (on_applying w (\<lambda>r. r\<lparr>mr_error := e\<rparr>) log)) =
        map mr_version (filter (\<lambda>r. mr_status r = Applying) log)" for w e log
      by (induction log) (auto simp: on_applying_def)
    then have "applying_versions ?db' = applying_versions ?db1" by (simp add: applying_versions_def log_error_def)
    with app show ?thesis by simp
  qed
  then have "interrupted ?db' = [v]" by (simp add: interrupted_applying)
  then have "migrate_db clock registry ?db' = (Inl (Interrupted [v]), ?db')" by (simp add: migrate_db_def)
  ultimately show ?thesis by blast
qed


lemma deployment_runs: "(deployment registry)\<^sup>*\<^sup>* s (fold (migrate_step registry) ts s)"
proof (induction ts arbitrary: s)
  case (Cons t ts)
  have "deployment registry s (migrate_step registry t s)" by (rule deployment.work)
  from converse_rtranclp_into_rtranclp [OF this Cons] show ?case by simp
qed simp

lemma first_two_orderly: "orderly (take 2 MIGRATIONS)"
proof -
  have "map fst (take 2 MIGRATIONS) = [1, 2]" by (simp add: take_map [symmetric] MIGRATIONS_versions)
  moreover from this have "fst ` set (take 2 MIGRATIONS) = {1, 2}" by (metis list.set_map list.simps(15) set_empty2)
  then have "\<forall>m \<in> set (take 2 MIGRATIONS). 0 < fst m" by (metis imageI insert_iff singletonD zero_less_numeral zero_less_one)
  ultimately show ?thesis using recovery_example_clean by (simp add: orderly_def)
qed

text \<open>Killed after the second statement of the first migration, and after the first migration.\<close>

theorem migrations_survive_kills_witness:
  "let db = fst (fold (migrate_step (take 2 MIGRATIONS)) [1, 2, 3, 4] (new_database, Starting))
   in \<exists>a b. take 2 MIGRATIONS = a @ b \<and>
    (migrate_db (\<lambda>n. 9) (take 2 MIGRATIONS) db = (Inr (map fst b), snd (migrate_db (\<lambda>n. 9) (take 2 MIGRATIONS) db)) \<and> md_schema db = build a \<and>
       md_schema (snd (migrate_db (\<lambda>n. 9) (take 2 MIGRATIONS) db)) = build (take 2 MIGRATIONS) \<or>
     (\<exists>pre ds. b \<noteq> [] \<and> snd (snd (hd b)) = pre @ ds \<and> md_schema db = snd (exec_script pre (build a)) \<and>
       migrate_db (\<lambda>n. 9) (take 2 MIGRATIONS) db = (Inl (Interrupted [fst (hd b)]), db)))"
proof -
  let ?s = "fold (migrate_step (take 2 MIGRATIONS)) [1, 2, 3, 4] (new_database, Starting)"
  have "(deployment (take 2 MIGRATIONS))\<^sup>*\<^sup>* (new_database, Starting) ?s" by (rule deployment_runs)
  moreover have "deployment (take 2 MIGRATIONS) ?s (fst ?s, Starting)"
    using deployment.killed [of "take 2 MIGRATIONS" "fst ?s" "snd ?s"] by simp
  ultimately have "(deployment (take 2 MIGRATIONS))\<^sup>*\<^sup>* (new_database, Starting) (fst ?s, Starting)" by (rule rtranclp.rtrancl_into_rtrancl)
  from migrations_survive_kills [OF first_two_orderly this, of "\<lambda>n. 9"] show ?thesis by (simp only: Let_def)
qed

text \<open>A database stopped between the third migration's columns and their bookkeeping: migration 13 adds three columns.\<close>

definition stopped_in_13 :: migration_db where
  "stopped_in_13 = \<lparr>md_schema = [(''bridge_transfers'', [''id'', ''canonical_hash''])], md_versions = [(12, 1)],
     md_log = [\<lparr>mr_version = 13, mr_description = '''', mr_status = Applying, mr_error = None, mr_started = 2, mr_finished = None\<rparr>]\<rparr>"

theorem documented_recovery_fails_again_witness:
  "\<exists>db'. migrate_db (\<lambda>n. 9) (take 13 MIGRATIONS)
      (operator_recovery 5 13 [Add_column ''bridge_transfers'' ''verification_status'', Add_column ''bridge_transfers'' ''verified_at''] stopped_in_13) =
      (Inl (Script_failed (Duplicate_column ''bridge_transfers'' ''canonical_hash'')), db') \<and>
    migrate_db (\<lambda>n. 9) (take 13 MIGRATIONS) db' = (Inl (Interrupted [13]), db')"
proof (rule documented_recovery_fails_again)
  show "take 13 MIGRATIONS = take 12 MIGRATIONS @
      (13, fst (snd bridge_integrity_migration), Add_column ''bridge_transfers'' ''canonical_hash'' #
        [Add_column ''bridge_transfers'' ''verification_status'', Add_column ''bridge_transfers'' ''verified_at'']) # []"
    by (simp add: MIGRATIONS_def bridge_integrity_migration_def)
  have v: "get_schema_version stopped_in_13 = 12" by (simp add: get_schema_version_def stopped_in_13_def)
  have "map fst (take 12 MIGRATIONS) = [1, 2, 3, 4, 5, 6, 7, 8, 9, 10, 11, 12]" by (simp add: take_map [symmetric] MIGRATIONS_versions)
  then have "fst ` set (take 12 MIGRATIONS) \<subseteq> {..12}" unfolding list.set_map [symmetric] by simp
  then show "\<forall>m \<in> set (take 12 MIGRATIONS). fst m \<le> get_schema_version stopped_in_13" by (auto simp: v)
  show "get_schema_version stopped_in_13 < 13" by (simp add: v)
  show "applying_versions stopped_in_13 = [13]" by (simp add: applying_versions_def stopped_in_13_def)
  show "columns_of ''bridge_transfers'' (md_schema (operator_recovery 5 13
      [Add_column ''bridge_transfers'' ''verification_status'', Add_column ''bridge_transfers'' ''verified_at''] stopped_in_13)) =
    Some [''id'', ''canonical_hash'', ''verification_status'', ''verified_at'']" by code_simp
qed simp

text \<open>Two processes that start together on a database at version 1: both pass the check, the second fails on the column, its row
  stays, and every later start is refused although the schema is complete.\<close>

lemma two_starts_collide:
  fixes registry :: "migration list"
  defines "registry \<equiv> [(2, ''shap'', [Add_column ''risk_scores'' ''shap_json''])]"
  defines "db0 \<equiv> \<lparr>md_schema = [(''risk_scores'', [''id''])], md_versions = [(1, 0)], md_log = []\<rparr>"
  shows "let p = migrate_step registry 1 (db0, Starting); q = migrate_step registry 2 (db0, Starting);
      one = fold (migrate_step registry) [3, 4, 5] p;
      two = fold (migrate_step registry) [6, 7, 8] (fst one, snd q)
    in snd one = Looping 1 [] [2] \<and> snd two = Finished (Inl (Script_failed (Duplicate_column ''risk_scores'' ''shap_json''))) \<and>
       fst (migrate_db (\<lambda>n. 9) registry (fst two)) = Inl (Interrupted [2]) \<and>
       columns_of ''risk_scores'' (md_schema (fst two)) = Some [''id'', ''shap_json'']"
  unfolding registry_def db0_def by code_simp

end
