(* ===== verification/Score_Store.thy ===== *)
theory Score_Store
  imports Suppressions "HOL-Library.Multiset"
begin

text \<open>
  The rows \<open>detection/storage.py\<close> reads and writes: historical trades (\<open>RiskScoreStore.upsert_trades\<close>), risk scores, pair
  correlations, feature vectors with their SHAP cache, drift reports and retrain runs, wallet feature states, bridge transfers,
  typed alerts. Values that are stored as JSON text (\<open>'a\<close> below) are kept as values: \<open>json.loads\<close> gives back what
  \<open>json.dumps\<close> was given. Rows that an \<open>ORDER BY\<close> does not separate come in the order of their ids.
\<close>

subsection \<open>Historical trades\<close>

record dex_trade =
  dt_id :: string
  dt_paging_token :: "string option"
  dt_ledger_close_time :: time
  dt_base_account :: string
  dt_counter_account :: "string option"
  dt_base_code :: string
  dt_base_issuer :: "string option"
  dt_counter_code :: string
  dt_counter_issuer :: "string option"
  dt_base_amount :: rat
  dt_counter_amount :: rat
  dt_price :: rat
  dt_base_is_seller :: bool
  dt_trade_type :: string
  dt_liquidity_pool_id :: "string option"
  dt_transaction_hash :: "string option"
  dt_path_payment_id :: "string option"
  dt_hop_index :: "int option"

text \<open>\<open>trade.paging_token or trade.id\<close>: the empty token counts as none.\<close>

definition trade_key :: "dex_trade \<Rightarrow> string" where
  "trade_key t = (case dt_paging_token t of Some p \<Rightarrow> if p = '''' then dt_id t else p | None \<Rightarrow> dt_id t)"

text \<open>\<open>INSERT OR IGNORE\<close> on the primary key; \<open>total_changes\<close> counts the rows that went in.\<close>

fun upsert_trades :: "dex_trade list \<Rightarrow> (string \<times> dex_trade) list \<Rightarrow> nat \<times> (string \<times> dex_trade) list" where
  "upsert_trades [] rows = (0, rows)"
| "upsert_trades (t # ts) rows =
     (if trade_key t \<in> fst ` set rows then upsert_trades ts rows
      else let (n, rows') = upsert_trades ts (rows @ [(trade_key t, t)]) in (Suc n, rows'))"

fun ingest_pages :: "dex_trade list list \<Rightarrow> (string \<times> dex_trade) list \<Rightarrow> nat \<times> (string \<times> dex_trade) list" where
  "ingest_pages [] rows = (0, rows)"
| "ingest_pages (p # ps) rows = (let (n, rows') = upsert_trades p rows; (m, rows'') = ingest_pages ps rows' in (n + m, rows''))"

text \<open>The reference: of the trades of all pages, the first with each token.\<close>

fun firsts :: "string set \<Rightarrow> dex_trade list \<Rightarrow> dex_trade list" where
  "firsts seen [] = []"
| "firsts seen (t # ts) = (if trade_key t \<in> seen then firsts seen ts else t # firsts (insert (trade_key t) seen) ts)"

lemma upsert_firsts:
  "upsert_trades ts rows = (length (firsts (fst ` set rows) ts), rows @ map (\<lambda>t. (trade_key t, t)) (firsts (fst ` set rows) ts))"
proof (induction ts rows rule: upsert_trades.induct)
  case (2 t ts rows)
  then show ?case by (auto simp: Let_def image_iff split: prod.splits)
qed simp

lemma firsts_append: "firsts seen (xs @ ys) = firsts seen xs @ firsts (seen \<union> trade_key ` set xs) ys"
  by (induction xs arbitrary: seen) (auto simp: insert_absorb Un_commute)

lemma firsts_keys: "seen \<union> trade_key ` set (firsts seen ts) = seen \<union> trade_key ` set ts"
proof (induction ts arbitrary: seen)
  case (Cons t ts)
  from Cons [of seen] Cons [of "insert (trade_key t) seen"] show ?case by (auto simp: insert_absorb)
qed simp

lemma firsts_distinct: "distinct (map trade_key (firsts seen ts)) \<and> seen \<inter> trade_key ` set (firsts seen ts) = {}"
proof (induction ts arbitrary: seen)
  case (Cons t ts)
  from Cons [of seen] Cons [of "insert (trade_key t) seen"] show ?case by auto
qed simp

lemma firsts_known: "trade_key ` set ts \<subseteq> seen \<Longrightarrow> firsts seen ts = []"
  by (induction ts) auto

lemma ingest_firsts:
  "ingest_pages ps rows =
     (length (firsts (fst ` set rows) (concat ps)), rows @ map (\<lambda>t. (trade_key t, t)) (firsts (fst ` set rows) (concat ps)))"
proof (induction ps arbitrary: rows)
  case (Cons p ps)
  have "fst ` set (rows @ map (\<lambda>t. (trade_key t, t)) (firsts (fst ` set rows) p)) = fst ` set rows \<union> trade_key ` set p"
    using firsts_keys [of "fst ` set rows" p] by (simp add: image_Un image_image)
  with Cons show ?case by (simp add: upsert_firsts firsts_append)
qed simp

text \<open>C27: Replayed pages and duplicates at page boundaries are harmless: the table holds the first trade of every paging token in
  the order they came, the counts of the pages add up to the rows, and pages that were ingested before add nothing.\<close>

theorem trade_replay_harmless:
  "ingest_pages ps [] = (length (firsts {} (concat ps)), map (\<lambda>t. (trade_key t, t)) (firsts {} (concat ps))) \<and>
   distinct (map fst (snd (ingest_pages ps []))) \<and> fst ` set (snd (ingest_pages ps [])) = trade_key ` set (concat ps) \<and>
   (\<forall>replay. set replay \<subseteq> set ps \<longrightarrow> ingest_pages (ps @ replay) [] = ingest_pages ps [])"
proof (intro conjI allI impI)
  show i: "ingest_pages ps [] = (length (firsts {} (concat ps)), map (\<lambda>t. (trade_key t, t)) (firsts {} (concat ps)))" for ps
    using ingest_firsts [of ps "[]"] by simp
  show "distinct (map fst (snd (ingest_pages ps [])))" using firsts_distinct [of "{}" "concat ps"] by (simp add: i comp_def)
  show "fst ` set (snd (ingest_pages ps [])) = trade_key ` set (concat ps)"
    using firsts_keys [of "{}" "concat ps"] by (simp add: i image_image del: set_concat)
  fix replay assume "set replay \<subseteq> set ps"
  then have "trade_key ` set (concat replay) \<subseteq> trade_key ` set (concat ps)" by auto
  then have "firsts (trade_key ` set (concat ps)) (concat replay) = []" by (rule firsts_known)
  then show "ingest_pages (ps @ replay) [] = ingest_pages ps []"
    unfolding i by (simp only: concat_append firsts_append Un_empty_left append_Nil2)
qed

definition sample_trade :: dex_trade where
  "sample_trade = \<lparr>dt_id = ''1-0'', dt_paging_token = Some '''', dt_ledger_close_time = 5, dt_base_account = ''A'', dt_counter_account = Some ''B'',
     dt_base_code = ''XLM'', dt_base_issuer = None, dt_counter_code = ''USDC'', dt_counter_issuer = Some ''I'', dt_base_amount = 2,
     dt_counter_amount = 1, dt_price = 1/2, dt_base_is_seller = True, dt_trade_type = ''orderbook'', dt_liquidity_pool_id = None,
     dt_transaction_hash = None, dt_path_payment_id = None, dt_hop_index = None\<rparr>"

theorem trade_replay_harmless_witness:
  "ingest_pages ([[sample_trade]] @ [[sample_trade], [sample_trade]]) [] = ingest_pages [[sample_trade]] []"
  using trade_replay_harmless [of "[[sample_trade]]", THEN conjunct2, THEN conjunct2, THEN conjunct2, rule_format,
      of "[[sample_trade], [sample_trade]]"] by simp

subsection \<open>Risk scores\<close>

record stored_score =
  ss_id :: nat
  ss_wallet :: string
  ss_pair :: string
  ss_score :: int
  ss_benford_flag :: bool
  ss_ml_flag :: bool
  ss_confidence :: int
  ss_timestamp :: time

definition new_score :: "string \<times> string \<times> int \<times> bool \<times> bool \<times> int \<times> time \<Rightarrow> nat \<Rightarrow> stored_score" where
  "new_score x n =
     (case x of (wallet, pair, score, benford, ml, confidence, ts) \<Rightarrow>
        \<lparr>ss_id = n, ss_wallet = wallet, ss_pair = pair, ss_score = score, ss_benford_flag = benford, ss_ml_flag = ml,
         ss_confidence = confidence, ss_timestamp = ts\<rparr>)"

interpretation ss_rows: autoinc_rows ss_id new_score
  by unfold_locales (simp add: new_score_def split: prod.splits)

definition save_scores :: "(string \<times> string \<times> int \<times> bool \<times> bool \<times> int \<times> time) list \<Rightarrow> stored_score table \<Rightarrow> stored_score table" where
  "save_scores scores t = fold (\<lambda>s. sql_insert (new_score s)) scores t"

datatype storage_error = Bad_sort_column

definition sort_column :: "string \<Rightarrow> (stored_score \<Rightarrow> int) option" where
  "sort_column by_col =
     (if by_col = ''score'' then Some ss_score
      else if by_col = ''confidence'' then Some ss_confidence
      else if by_col = ''timestamp'' then Some ss_timestamp
      else None)"

definition wanted :: "'v option \<Rightarrow> 'v \<Rightarrow> bool" where
  "wanted cond v = (case cond of None \<Rightarrow> True | Some c \<Rightarrow> v = c)"

text \<open>The group of a row in the subquery, and the join with its \<open>MAX(timestamp)\<close>.\<close>

definition score_group :: "string option \<Rightarrow> string option \<Rightarrow> stored_score \<Rightarrow> stored_score table \<Rightarrow> stored_score list" where
  "score_group wallet pair r t =
     sql_select (\<lambda>q. wanted wallet (ss_wallet q) \<and> wanted pair (ss_pair q) \<and> ss_wallet q = ss_wallet r \<and> ss_pair q = ss_pair r) t"

definition sql_page :: "int option \<Rightarrow> int \<Rightarrow> 'r list \<Rightarrow> 'r list" where
  "sql_page limit offset rs = (case limit of None \<Rightarrow> rs | Some n \<Rightarrow> sql_limit n (drop (nat offset) rs))"

definition get_latest_scores ::
    "string option \<Rightarrow> int option \<Rightarrow> int \<Rightarrow> bool option \<Rightarrow> bool option \<Rightarrow> string \<Rightarrow> string option \<Rightarrow> stored_score table
     \<Rightarrow> storage_error + stored_score list" where
  "get_latest_scores wallet limit offset benford ml by_col pair t =
     (case sort_column by_col of
        None \<Rightarrow> Inl Bad_sort_column
      | Some key \<Rightarrow>
          Inr (sql_page limit offset (sort_key (\<lambda>r. - key r)
            (sql_select (\<lambda>r. (let g = score_group wallet pair r t
                               in g \<noteq> [] \<and> ss_timestamp r = Max (set (map ss_timestamp g))) \<and>
                             wanted benford (ss_benford_flag r) \<and> wanted ml (ss_ml_flag r)) t))))"

definition get_score_history :: "string \<Rightarrow> time \<Rightarrow> time \<Rightarrow> stored_score table \<Rightarrow> stored_score list" where
  "get_score_history wallet start until t =
     sort_key ss_timestamp (sql_select (\<lambda>r. ss_wallet r = wallet \<and> start \<le> ss_timestamp r \<and> ss_timestamp r \<le> until) t)"

definition get_scores_since :: "time \<Rightarrow> stored_score table \<Rightarrow> stored_score list" where
  "get_scores_since since t = sort_key ss_timestamp (sql_select (\<lambda>r. since \<le> ss_timestamp r) t)"

text \<open>The row is the newest of its wallet and pair.\<close>

definition newest :: "stored_score table \<Rightarrow> stored_score \<Rightarrow> bool" where
  "newest t r \<longleftrightarrow> (\<forall>q \<in> set (trows t). ss_wallet q = ss_wallet r \<and> ss_pair q = ss_pair r \<longrightarrow> ss_timestamp q \<le> ss_timestamp r)"

lemma joined_iff:
  assumes "r \<in> set (trows t)"
  shows "(let g = score_group wallet pair r t in g \<noteq> [] \<and> ss_timestamp r = Max (set (map ss_timestamp g))) \<longleftrightarrow>
    wanted wallet (ss_wallet r) \<and> wanted pair (ss_pair r) \<and> newest t r"
proof (cases "wanted wallet (ss_wallet r) \<and> wanted pair (ss_pair r)")
  case True
  let ?g = "score_group wallet pair r t"
  have g: "?g = filter (\<lambda>q. ss_wallet q = ss_wallet r \<and> ss_pair q = ss_pair r) (trows t)"
    unfolding score_group_def sql_select_def by (rule filter_cong) (use True in auto)
  have r: "r \<in> set ?g" using assms by (simp add: g)
  then have ne: "?g \<noteq> []" by auto
  moreover have "ss_timestamp r = Max (set (map ss_timestamp ?g)) \<longleftrightarrow> (\<forall>q \<in> set ?g. ss_timestamp q \<le> ss_timestamp r)"
    using r ne Max_eq_iff [of "ss_timestamp ` set ?g" "ss_timestamp r"] by (auto simp: eq_commute [of "ss_timestamp r"])
  ultimately show ?thesis using True by (auto simp: Let_def newest_def g)
next
  case False
  then have "score_group wallet pair r t = []" by (auto simp: score_group_def sql_select_def filter_empty_conv)
  with False show ?thesis by (auto simp: Let_def)
qed

lemma latest_scores_eq:
  assumes "sort_column by_col = Some key"
  shows "get_latest_scores wallet limit offset benford ml by_col pair t = Inr (sql_page limit offset (sort_key (\<lambda>r. - key r)
     (filter (\<lambda>r. wanted wallet (ss_wallet r) \<and> wanted pair (ss_pair r) \<and> newest t r \<and>
        wanted benford (ss_benford_flag r) \<and> wanted ml (ss_ml_flag r)) (trows t))))"
proof -
  have "sql_select (\<lambda>r. (let g = score_group wallet pair r t in g \<noteq> [] \<and> ss_timestamp r = Max (set (map ss_timestamp g))) \<and>
      wanted benford (ss_benford_flag r) \<and> wanted ml (ss_ml_flag r)) t =
    filter (\<lambda>r. wanted wallet (ss_wallet r) \<and> wanted pair (ss_pair r) \<and> newest t r \<and>
        wanted benford (ss_benford_flag r) \<and> wanted ml (ss_ml_flag r)) (trows t)"
    unfolding sql_select_def by (rule filter_cong [OF refl]) (simp only: joined_iff conj_assoc)
  then show ?thesis by (simp add: get_latest_scores_def assms)
qed

lemma pages_cover: "concat (map (\<lambda>k. take n (drop (k * n) xs)) [0..<m]) = take (m * n) xs"
proof (induction m)
  case (Suc m)
  then show ?case by (simp add: take_add add.commute [of n])
qed simp

text \<open>C28: A page is a slice of one list, so pages neither overlap nor miss a row; that list holds exactly the newest row of every
  wallet and pair that passes the filters, by the chosen column, and no case twice unless two of its rows share the newest
  instant. The flags are those of the newest row: a case whose newest row is not flagged is not listed.\<close>

theorem latest_scores_exact:
  assumes "by_col \<in> {''score'', ''confidence'', ''timestamp''}"
  shows "\<exists>rows key. sort_column by_col = Some key \<and>
    get_latest_scores wallet None offset benford ml by_col pair t = Inr rows \<and>
    set rows = {r \<in> set (trows t). newest t r \<and> wanted wallet (ss_wallet r) \<and> wanted pair (ss_pair r) \<and>
       wanted benford (ss_benford_flag r) \<and> wanted ml (ss_ml_flag r)} \<and>
    sorted (map (\<lambda>r. - key r) rows) \<and>
    (distinct (map (\<lambda>r. (ss_wallet r, ss_pair r, ss_timestamp r)) (trows t)) \<longrightarrow> distinct (map (\<lambda>r. (ss_wallet r, ss_pair r)) rows)) \<and>
    (\<forall>n m. concat (map (\<lambda>k. case get_latest_scores wallet (Some (int n)) (int (k * n)) benford ml by_col pair t of
         Inr page \<Rightarrow> page | Inl _ \<Rightarrow> []) [0..<m]) = take (m * n) rows)"
proof -
  obtain key where key: "sort_column by_col = Some key" using assms by (auto simp: sort_column_def)
  define rows where "rows = sort_key (\<lambda>r. - key r) (filter (\<lambda>r. wanted wallet (ss_wallet r) \<and> wanted pair (ss_pair r) \<and> newest t r \<and>
        wanted benford (ss_benford_flag r) \<and> wanted ml (ss_ml_flag r)) (trows t))"
  have eq: "get_latest_scores wallet limit offset benford ml by_col pair t = Inr (sql_page limit offset rows)" for limit offset
    unfolding rows_def by (rule latest_scores_eq [OF key])
  have "distinct (map (\<lambda>r. (ss_wallet r, ss_pair r)) rows)"
    if d: "distinct (map (\<lambda>r. (ss_wallet r, ss_pair r, ss_timestamp r)) (trows t))"
  proof -
    have inj: "distinct (trows t)" "inj_on (\<lambda>r. (ss_wallet r, ss_pair r, ss_timestamp r)) (set (trows t))"
      using d by (simp_all only: distinct_map)
    have "inj_on (\<lambda>r. (ss_wallet r, ss_pair r)) (set rows)"
    proof (rule inj_onI)
      fix q r assume qr: "q \<in> set rows" "r \<in> set rows" "(ss_wallet q, ss_pair q) = (ss_wallet r, ss_pair r)"
      then have "newest t q" "newest t r" "q \<in> set (trows t)" "r \<in> set (trows t)" by (auto simp: rows_def)
      with qr(3) have "ss_timestamp q = ss_timestamp r" unfolding newest_def by (metis antisym prod.inject)
      with inj_onD [OF inj(2), of q r] qr(3) \<open>q \<in> set (trows t)\<close> \<open>r \<in> set (trows t)\<close> show "q = r" by simp
    qed
    then show ?thesis using inj(1) by (simp add: distinct_map rows_def)
  qed
  moreover have "concat (map (\<lambda>k. case get_latest_scores wallet (Some (int n)) (int (k * n)) benford ml by_col pair t of
         Inr page \<Rightarrow> page | Inl _ \<Rightarrow> []) [0..<m]) = take (m * n) rows" for n m
    unfolding pages_cover [symmetric] by (simp add: eq sql_page_def sql_limit_def del: of_nat_mult)
  moreover have "set rows = {r \<in> set (trows t). newest t r \<and> wanted wallet (ss_wallet r) \<and> wanted pair (ss_pair r) \<and>
       wanted benford (ss_benford_flag r) \<and> wanted ml (ss_ml_flag r)}" by (auto simp: rows_def)
  moreover have "sorted (map (\<lambda>r. - key r) rows)" by (simp add: rows_def)
  ultimately show ?thesis using key eq by (intro exI [of _ rows] exI [of _ key]) (simp add: sql_page_def)
qed

text \<open>Two rows of a case that share the newest instant are both returned.\<close>

lemma latest_score_twice:
  "get_latest_scores None None 0 None None ''score'' None
     (save_scores [(''W'', ''P'', 80, False, True, 90, 5), (''W'', ''P'', 20, False, False, 90, 5)] empty_table) =
   Inr [new_score (''W'', ''P'', 80, False, True, 90, 5) 1, new_score (''W'', ''P'', 20, False, False, 90, 5) 2]"
  by code_simp

theorem latest_scores_exact_witness:
  "\<exists>rows key. sort_column ''score'' = Some key \<and>
    get_latest_scores None None 0 None (Some True) ''score'' None
      (save_scores [(''W'', ''P'', 80, False, True, 90, 5), (''W'', ''P'', 20, False, False, 90, 6)] empty_table) = Inr rows \<and> rows = []"
proof -
  let ?t = "save_scores [(''W'', ''P'', 80, False, True, 90, 5), (''W'', ''P'', 20, False, False, 90, 6)] empty_table"
  have none: "{r \<in> set (trows ?t). newest ?t r \<and> wanted None (ss_wallet r) \<and> wanted None (ss_pair r) \<and>
       wanted None (ss_benford_flag r) \<and> wanted (Some True) (ss_ml_flag r)} = {}"
    by (auto simp: save_scores_def new_score_def table_simps newest_def wanted_def)
  have "''score'' \<in> {''score'', ''confidence'', ''timestamp''}" by simp
  from latest_scores_exact [OF this, of None 0 None "Some True" None ?t] none show ?thesis by auto
qed

text \<open>An \<open>offset\<close> without a \<open>limit\<close> is ignored.\<close>

lemma offset_needs_limit:
  "get_latest_scores wallet None offset benford ml by_col pair t = get_latest_scores wallet None 0 benford ml by_col pair t"
  by (simp add: get_latest_scores_def sql_page_def split: option.split)

subsection \<open>Pair correlations\<close>

record pair_correlation =
  pc_id :: nat
  pc_pair_a :: string
  pc_pair_b :: string
  pc_r :: rat
  pc_method :: string
  pc_shared :: nat
  pc_timestamp :: time

definition new_correlation :: "string \<times> string \<times> rat \<times> string \<times> nat \<times> time \<Rightarrow> nat \<Rightarrow> pair_correlation" where
  "new_correlation x n =
     (case x of (a, b, r, method, shared, ts) \<Rightarrow>
        \<lparr>pc_id = n, pc_pair_a = a, pc_pair_b = b, pc_r = r, pc_method = method, pc_shared = shared, pc_timestamp = ts\<rparr>)"

interpretation pc_rows: autoinc_rows pc_id new_correlation
  by unfold_locales (simp add: new_correlation_def split: prod.splits)

definition save_pair_correlations ::
    "time \<Rightarrow> (string \<times> string \<times> rat) list \<Rightarrow> string \<Rightarrow> (string \<times> string \<Rightarrow> nat option) \<Rightarrow> pair_correlation table \<Rightarrow> pair_correlation table" where
  "save_pair_correlations ts correlations method shared t =
     fold (\<lambda>(a, b, r). sql_insert (new_correlation (a, b, r, method, case shared (a, b) of None \<Rightarrow> 0 | Some n \<Rightarrow> n, ts))) correlations t"

definition get_pair_correlations :: "pair_correlation table \<Rightarrow> pair_correlation list" where
  "get_pair_correlations t =
     sort_key (\<lambda>r. - pc_r r) (sql_select (\<lambda>r. pc_timestamp r = Max (set (map pc_timestamp (trows t)))) t)"

lemma fold_insert_split:
  "\<exists>new. trows (fold (\<lambda>x. sql_insert (f x)) xs t) = trows t @ new \<and> list_all2 (\<lambda>x r. \<exists>n. r = f x n) xs new"
proof (induction xs arbitrary: t)
  case (Cons x xs)
  from Cons [of "sql_insert (f x) t"] obtain new where
    "trows (fold (\<lambda>x. sql_insert (f x)) xs (sql_insert (f x) t)) = trows t @ f x (Suc (tseq t)) # new"
    "list_all2 (\<lambda>x r. \<exists>n. r = f x n) xs new" by (auto simp: table_simps)
  then show ?case by (intro exI [of _ "f x (Suc (tseq t)) # new"]) auto
qed simp

lemma fold_insert_map:
  assumes "\<And>x n. h (f x n) = g x"
  shows "map h (trows (fold (\<lambda>x. sql_insert (f x)) xs t)) = map h (trows t) @ map g xs"
  by (induction xs arbitrary: t) (simp_all add: table_simps assms)

text \<open>After a run that found correlations the store returns exactly those of that run, strongest first. A run that found none
  leaves the answer of the run before.\<close>

theorem correlations_of_last_run:
  assumes "correlations \<noteq> []" "\<forall>r \<in> set (trows t). pc_timestamp r < ts"
  shows "let t' = save_pair_correlations ts correlations method shared t in
    mset (map (\<lambda>r. (pc_pair_a r, pc_pair_b r, pc_r r)) (get_pair_correlations t')) = mset correlations \<and>
    sorted (map (\<lambda>r. - pc_r r) (get_pair_correlations t')) \<and>
    (\<forall>later method' shared'. get_pair_correlations (save_pair_correlations later [] method' shared' t') = get_pair_correlations t')"
proof -
  let ?mk = "\<lambda>(a, b, r). new_correlation (a, b, r, method, case shared (a, b) of None \<Rightarrow> 0 | Some n \<Rightarrow> n, ts)"
  let ?t' = "save_pair_correlations ts correlations method shared t"
  have t': "?t' = fold (\<lambda>x. sql_insert (?mk x)) correlations t"
    by (simp add: save_pair_correlations_def case_prod_unfold)
  obtain new where rows: "trows ?t' = trows t @ new" and all: "list_all2 (\<lambda>x r. \<exists>n. r = ?mk x n) correlations new"
    unfolding t' using fold_insert_split by blast
  have new: "\<forall>r \<in> set new. pc_timestamp r = ts" "map (\<lambda>r. (pc_pair_a r, pc_pair_b r, pc_r r)) new = correlations"
    using all by (induction rule: list_all2_induct) (auto simp: new_correlation_def)
  then have "new \<noteq> []" using assms(1) by auto
  note new = new this
  have "Max (set (map pc_timestamp (trows ?t'))) = ts"
    by (rule Max_eqI) (use new assms(2) in \<open>auto simp: rows intro: less_imp_le\<close>, use new in \<open>cases new\<close>, auto)
  then have sel: "get_pair_correlations ?t' = sort_key (\<lambda>r. - pc_r r) new"
  proof -
    have "filter (\<lambda>r. pc_timestamp r = ts) (trows t) = []" using assms(2) by (auto simp: filter_empty_conv)
    moreover have "filter (\<lambda>r. pc_timestamp r = ts) new = new" using new(1) by (simp add: filter_id_conv)
    ultimately show ?thesis using \<open>Max _ = ts\<close> by (simp only: get_pair_correlations_def sql_select_def rows filter_append append_Nil)
  qed
  have "mset (map (\<lambda>r. (pc_pair_a r, pc_pair_b r, pc_r r)) (sort_key (\<lambda>r. - pc_r r) new)) = mset correlations"
    by (simp only: mset_map mset_sort) (simp only: mset_map [symmetric] new(2))
  then show ?thesis by (simp add: sel Let_def save_pair_correlations_def [of _ "[]"])
qed

theorem correlations_of_last_run_witness:
  "map (\<lambda>r. (pc_pair_a r, pc_r r)) (get_pair_correlations (save_pair_correlations 9 [] ''pearson'' Map.empty
     (save_pair_correlations 7 [(''A'', ''B'', 9/10)] ''pearson'' Map.empty
       (save_pair_correlations 5 [(''C'', ''D'', 1)] ''pearson'' Map.empty empty_table)))) = [(''A'', 9/10)]"
proof -
  let ?t = "save_pair_correlations 5 [(''C'', ''D'', 1)] ''pearson'' Map.empty empty_table"
  have "\<forall>r \<in> set (trows ?t). pc_timestamp r < 7" by (simp add: save_pair_correlations_def table_simps new_correlation_def)
  from correlations_of_last_run [OF _ this, of "[(''A'', ''B'', 9/10)]" "''pearson''" Map.empty]
  have "mset (map (\<lambda>r. (pc_pair_a r, pc_pair_b r, pc_r r)) (get_pair_correlations (save_pair_correlations 9 [] ''pearson'' Map.empty
     (save_pair_correlations 7 [(''A'', ''B'', 9/10)] ''pearson'' Map.empty ?t)))) = {#(''A'', ''B'', 9/10)#}" by (simp add: Let_def)
  then have "map (\<lambda>r. (pc_pair_a r, pc_pair_b r, pc_r r)) (get_pair_correlations (save_pair_correlations 9 [] ''pearson'' Map.empty
     (save_pair_correlations 7 [(''A'', ''B'', 9/10)] ''pearson'' Map.empty ?t))) = [(''A'', ''B'', 9/10)]"
    by (simp only: mset_single_iff_right mset_single_iff)
  then show ?thesis by (auto simp: map_eq_Cons_conv)
qed


subsection \<open>Feature vectors and their SHAP cache\<close>

record 'a feature_row =
  fv_id :: nat
  fv_wallet :: string
  fv_pair :: string
  fv_features :: 'a
  fv_shap :: "'a option"
  fv_timestamp :: time

definition new_features :: "string \<times> string \<times> 'a \<times> time \<Rightarrow> nat \<Rightarrow> 'a feature_row" where
  "new_features x n =
     (case x of (wallet, pair, features, ts) \<Rightarrow>
        \<lparr>fv_id = n, fv_wallet = wallet, fv_pair = pair, fv_features = features, fv_shap = None, fv_timestamp = ts\<rparr>)"

interpretation fv_rows: autoinc_rows fv_id new_features
  by unfold_locales (simp add: new_features_def split: prod.splits)

definition save_feature_vectors :: "time \<Rightarrow> (string \<times> string \<times> 'a) list \<Rightarrow> 'a feature_row table \<Rightarrow> 'a feature_row table" where
  "save_feature_vectors ts vectors t = fold (\<lambda>(w, p, f). sql_insert (new_features (w, p, f, ts))) vectors t"

text \<open>\<open>ORDER BY timestamp DESC LIMIT 1\<close>.\<close>

definition latest_vector :: "string \<Rightarrow> string \<Rightarrow> 'a feature_row table \<Rightarrow> 'a feature_row option" where
  "latest_vector wallet pair t =
     (case sort_key (\<lambda>r. - fv_timestamp r) (sql_select (\<lambda>r. fv_wallet r = wallet \<and> fv_pair r = pair) t) of
        [] \<Rightarrow> None | r # _ \<Rightarrow> Some r)"

definition get_feature_vector :: "string \<Rightarrow> string \<Rightarrow> 'a feature_row table \<Rightarrow> 'a option" where
  "get_feature_vector wallet pair t = map_option fv_features (latest_vector wallet pair t)"

definition save_shap_values :: "string \<Rightarrow> string \<Rightarrow> 'a \<Rightarrow> 'a feature_row table \<Rightarrow> 'a feature_row table" where
  "save_shap_values wallet pair shap t =
     (case latest_vector wallet pair t of
        None \<Rightarrow> t
      | Some v \<Rightarrow> sql_update (\<lambda>r. fv_id r = fv_id v) (\<lambda>r. r\<lparr>fv_shap := Some shap\<rparr>) t)"

definition get_shap_values :: "string \<Rightarrow> string \<Rightarrow> 'a feature_row table \<Rightarrow> 'a option" where
  "get_shap_values wallet pair t = Option.bind (latest_vector wallet pair t) fv_shap"

lemma latest_vector_SomeD:
  assumes "latest_vector wallet pair t = Some v"
  shows "v \<in> set (trows t)" "fv_wallet v = wallet" "fv_pair v = pair"
proof -
  let ?rs = "sql_select (\<lambda>r. fv_wallet r = wallet \<and> fv_pair r = pair) t"
  have "\<exists>vs. sort_key (\<lambda>r. - fv_timestamp r) ?rs = v # vs" using assms by (simp add: latest_vector_def split: list.splits)
  then have "v \<in> set (sort_key (\<lambda>r. - fv_timestamp r) ?rs)" by (metis list.set_intros(1))
  then show "v \<in> set (trows t)" "fv_wallet v = wallet" "fv_pair v = pair" by (auto simp: sql_select_set)
qed

text \<open>An update that keeps the columns the query looks at changes only what the found row holds.\<close>

lemma latest_vector_updated:
  assumes "\<And>r. fv_wallet (f r) = fv_wallet r \<and> fv_pair (f r) = fv_pair r \<and> fv_timestamp (f r) = fv_timestamp r"
  shows "latest_vector w p (sql_update q f t) = map_option (\<lambda>r. if q r then f r else r) (latest_vector w p t)"
proof -
  let ?g = "\<lambda>r. if q r then f r else r"
  have "sql_select (\<lambda>r. fv_wallet r = w \<and> fv_pair r = p) (sql_update q f t) = map ?g (sql_select (\<lambda>r. fv_wallet r = w \<and> fv_pair r = p) t)"
  proof -
    have "fv_wallet (?g r) = fv_wallet r" "fv_pair (?g r) = fv_pair r" for r using assms by simp_all
    then show ?thesis by (simp add: sql_select_def table_simps filter_map comp_def)
  qed
  moreover have "(\<lambda>r. - fv_timestamp r) \<circ> ?g = (\<lambda>r. - fv_timestamp r)" using assms by auto
  ultimately show ?thesis
    by (simp add: latest_vector_def sort_key_map split: list.split)
qed

lemma sort_key_append_least:
  "\<forall>x \<in> set xs. k a < k x \<Longrightarrow> sort_key k (xs @ [a]) = a # sort_key k xs"
  by (induction xs) auto

lemma latest_vector_appended:
  assumes "\<forall>r \<in> set (trows t). fv_timestamp r < ts"
  shows "latest_vector w p (save_feature_vectors ts [(w, p, f)] t) = Some (new_features (w, p, f, ts) (Suc (tseq t)))"
proof -
  let ?new = "new_features (w, p, f, ts) (Suc (tseq t))"
  let ?rs = "filter (\<lambda>r. fv_wallet r = w \<and> fv_pair r = p) (trows t)"
  have "sort_key (\<lambda>r. - fv_timestamp r) (?rs @ [?new]) = ?new # sort_key (\<lambda>r. - fv_timestamp r) ?rs"
    by (rule sort_key_append_least) (use assms in \<open>auto simp: new_features_def\<close>)
  then show ?thesis by (simp add: latest_vector_def save_feature_vectors_def sql_select_def table_simps new_features_def)
qed

text \<open>The SHAP cache belongs to the latest vector of the pair: a saved explanation is read back, it touches neither the features
  nor any other pair, and a newer vector has no explanation until one is saved for it. Without a vector it is dropped.\<close>

theorem shap_cache_follows_latest_vector:
  fixes w p :: string and shap :: 'a
  assumes "ids_ok fv_id t"
  defines "t' \<equiv> save_shap_values w p shap t"
  shows "get_shap_values w p t' = (if latest_vector w p t = None then None else Some shap) \<and>
    get_feature_vector v q t' = get_feature_vector v q t \<and>
    ((v, q) \<noteq> (w, p) \<longrightarrow> get_shap_values v q t' = get_shap_values v q t) \<and>
    (\<forall>ts f. (\<forall>r \<in> set (trows t). fv_timestamp r < ts) \<longrightarrow>
       get_shap_values w p (save_feature_vectors ts [(w, p, f)] t') = None \<and>
       get_feature_vector w p (save_feature_vectors ts [(w, p, f)] t') = Some f)"
proof (cases "latest_vector w p t")
  case None
  then have "t' = t" by (simp add: t'_def save_shap_values_def)
  with None show ?thesis
    by (auto simp: get_shap_values_def get_feature_vector_def latest_vector_appended new_features_def)
next
  case (Some x)
  let ?f = "\<lambda>r. r\<lparr>fv_shap := Some shap\<rparr>"
  have t': "t' = sql_update (\<lambda>r. fv_id r = fv_id x) ?f t" by (simp add: t'_def save_shap_values_def Some)
  have upd: "latest_vector v q t' = map_option (\<lambda>r. if fv_id r = fv_id x then ?f r else r) (latest_vector v q t)" for v q
    unfolding t' by (rule latest_vector_updated) simp
  have other: "fv_id r \<noteq> fv_id x" if "latest_vector v q t = Some r" "(v, q) \<noteq> (w, p)" for r
  proof
    assume "fv_id r = fv_id x"
    moreover have "inj_on fv_id (set (trows t))" using assms(1) by (simp add: ids_ok_def distinct_map)
    ultimately have "r = x" using latest_vector_SomeD(1) [OF that(1)] latest_vector_SomeD(1) [OF Some] by (simp add: inj_on_eq_iff)
    with latest_vector_SomeD(2,3) [OF that(1)] latest_vector_SomeD(2,3) [OF Some] that(2) show False by simp
  qed
  have "\<forall>r \<in> set (trows t'). fv_timestamp r < ts" if "\<forall>r \<in> set (trows t). fv_timestamp r < ts" for ts
    using that by (auto simp: t' table_simps)
  moreover have "(v, q) \<noteq> (w, p) \<longrightarrow> get_shap_values v q t' = get_shap_values v q t"
    using upd other by (cases "latest_vector v q t") (auto simp: get_shap_values_def)
  ultimately show ?thesis using upd Some
    by (auto simp: get_shap_values_def get_feature_vector_def latest_vector_appended new_features_def option.map_comp
        split: option.splits intro!: option.map_cong)
qed

theorem shap_cache_follows_latest_vector_witness:
  "get_shap_values ''W'' ''P'' (save_shap_values ''W'' ''P'' ''top5'' (save_feature_vectors 5 [(''W'', ''P'', ''f'')] empty_table)) = Some ''top5''"
proof -
  let ?t = "save_feature_vectors 5 [(''W'', ''P'', ''f'')] empty_table"
  have "ids_ok fv_id ?t" by (simp add: save_feature_vectors_def fv_rows.ids_ok_insert fv_rows.ids_ok_empty)
  moreover have "latest_vector ''W'' ''P'' ?t \<noteq> None" by code_simp
  ultimately show ?thesis using shap_cache_follows_latest_vector [of ?t "''W''" "''P''" "''top5''"] by simp
qed

subsection \<open>Feature states of the streaming store\<close>

record 'a state_row =
  ws_id :: nat
  ws_wallet :: string
  ws_pair :: string
  ws_state :: 'a
  ws_updated :: time

definition new_state :: "string \<times> string \<times> 'a \<times> time \<Rightarrow> nat \<Rightarrow> 'a state_row" where
  "new_state x n = (case x of (wallet, pair, state, updated) \<Rightarrow>
     \<lparr>ws_id = n, ws_wallet = wallet, ws_pair = pair, ws_state = state, ws_updated = updated\<rparr>)"

text \<open>\<open>INSERT OR REPLACE\<close> under the unique index on wallet and pair.\<close>

definition save_feature_state :: "string \<Rightarrow> string \<Rightarrow> 'a \<Rightarrow> time \<Rightarrow> 'a state_row table \<Rightarrow> 'a state_row table" where
  "save_feature_state wallet pair state updated t =
     sql_insert (new_state (wallet, pair, state, updated)) (sql_delete (\<lambda>r. ws_wallet r = wallet \<and> ws_pair r = pair) t)"

definition get_feature_state :: "string \<Rightarrow> string \<Rightarrow> 'a state_row table \<Rightarrow> 'a option" where
  "get_feature_state wallet pair t = map_option ws_state (sql_fetchone (\<lambda>r. ws_wallet r = wallet \<and> ws_pair r = pair) t)"

text \<open>\<open>set_state\<close> of the hot store returns the store after the write, or fails; a failure is logged and skipped.\<close>

fun promote_rows :: "('a \<Rightarrow> 'h \<Rightarrow> 'h option) \<Rightarrow> 'a list \<Rightarrow> 'h \<Rightarrow> nat \<times> 'h" where
  "promote_rows set_state [] hot = (0, hot)"
| "promote_rows set_state (s # ss) hot =
     (case set_state s hot of
        None \<Rightarrow> promote_rows set_state ss hot
      | Some hot' \<Rightarrow> (let (n, h) = promote_rows set_state ss hot' in (Suc n, h)))"

definition promote_cold_to_hot :: "('a \<Rightarrow> 'h \<Rightarrow> 'h option) \<Rightarrow> int \<Rightarrow> 'a state_row table \<Rightarrow> 'h \<Rightarrow> nat \<times> 'h" where
  "promote_cold_to_hot set_state batch_size t hot =
     promote_rows set_state (map ws_state (sql_limit batch_size (sort_key (\<lambda>r. - ws_updated r) (trows t)))) hot"

definition one_state_per_case :: "'a state_row table \<Rightarrow> bool" where
  "one_state_per_case t \<longleftrightarrow> distinct (map (\<lambda>r. (ws_wallet r, ws_pair r)) (trows t))"

lemma one_state_empty: "one_state_per_case empty_table"
  by (simp add: one_state_per_case_def table_simps)

lemma one_state_saved: "one_state_per_case t \<Longrightarrow> one_state_per_case (save_feature_state w p s u t)"
  by (auto simp: one_state_per_case_def save_feature_state_def table_simps new_state_def distinct_map_filter)

lemma feature_state_read_back:
  "get_feature_state v q (save_feature_state w p s u t) = (if (v, q) = (w, p) then Some s else get_feature_state v q t)"
proof -
  have "find (\<lambda>r. ws_wallet r = v \<and> ws_pair r = q) (filter (\<lambda>r. \<not> (ws_wallet r = w \<and> ws_pair r = p)) xs) =
      (if (v, q) = (w, p) then None else find (\<lambda>r. ws_wallet r = v \<and> ws_pair r = q) xs)" for xs :: "'a state_row list"
    by (induction xs) auto
  then show ?thesis
    by (auto simp: get_feature_state_def save_feature_state_def sql_fetchone_def table_simps find_append new_state_def split: option.split)
qed

lemma promote_all:
  assumes "\<And>s h. set_state s h = Some (add s h)"
  shows "promote_rows set_state ss hot = (length ss, fold add ss hot)"
  by (induction ss arbitrary: hot) (simp_all add: assms)

text \<open>A hot store that accepts every state gets the most recently updated states, as many as the batch allows, no wallet and pair
  twice.\<close>

theorem promotion_takes_newest_states:
  assumes "one_state_per_case t" "0 \<le> batch" "\<And>s h. set_state s h = Some (s # h)"
  shows "\<exists>rows. promote_cold_to_hot set_state batch t [] = (length rows, rev (map ws_state rows)) \<and>
    length rows = min (nat batch) (length (trows t)) \<and> set rows \<subseteq> set (trows t) \<and>
    distinct (map (\<lambda>r. (ws_wallet r, ws_pair r)) rows) \<and>
    (\<forall>r \<in> set rows. \<forall>q \<in> set (trows t) - set rows. ws_updated q \<le> ws_updated r)"
proof -
  let ?all = "sort_key (\<lambda>r. - ws_updated r) (trows t)"
  let ?rows = "take (nat batch) ?all"
  have "promote_cold_to_hot set_state batch t [] = (length ?rows, rev (map ws_state ?rows))"
    using assms(2) by (simp add: promote_cold_to_hot_def sql_limit_def promote_all [OF assms(3)] fold_Cons_rev)
  moreover have "distinct (map (\<lambda>r. (ws_wallet r, ws_pair r)) ?all)"
    using assms(1) by (simp add: one_state_per_case_def distinct_map)
  then have "distinct (map (\<lambda>r. (ws_wallet r, ws_pair r)) ?rows)" using distinct_take by (metis take_map)
  moreover have "ws_updated q \<le> ws_updated r" if "r \<in> set ?rows" "q \<in> set (trows t) - set ?rows" for r q
    using take_sort_key_least [of q "trows t" "nat batch" "\<lambda>r. - ws_updated r" r] that by simp
  moreover have "set ?rows \<subseteq> set (trows t)" using set_take_subset [of "nat batch" ?all] by simp
  ultimately show ?thesis by (intro exI [of _ ?rows]) (simp add: min.commute)
qed

theorem promotion_takes_newest_states_witness:
  "\<exists>rows :: string state_row list. promote_cold_to_hot (\<lambda>s h. Some (s # h)) 1 (save_feature_state ''V'' ''P'' ''b'' 9 (save_feature_state ''W'' ''P'' ''a'' 5 empty_table)) [] =
     (length rows, rev (map ws_state rows)) \<and> length rows = 1"
proof -
  let ?t = "save_feature_state ''V'' ''P'' ''b'' 9 (save_feature_state ''W'' ''P'' ''a'' 5 empty_table)"
  have one: "one_state_per_case ?t" by (intro one_state_saved one_state_empty)
  have len: "length (trows ?t) = 2" by code_simp
  obtain rows :: "string state_row list" where r: "promote_cold_to_hot (\<lambda>s h. Some (s # h)) 1 ?t [] = (length rows, rev (map ws_state rows))"
    "length rows = min (nat 1) (length (trows ?t))"
    using promotion_takes_newest_states [of ?t 1 "\<lambda>s h. Some (s # h)", OF one zero_le_one refl] by blast
  have "length rows = 1" using r(2) unfolding len by simp
  with r(1) show ?thesis by (intro exI [of _ rows] conjI)
qed


subsection \<open>Typed alerts\<close>

record 'a alert =
  at_type :: string
  at_wallet :: string
  at_pair :: string
  at_pool :: "string option"
  at_detail :: "'a option"
  at_timestamp :: "string option"

record 'a alert_row =
  al_id :: nat
  al_type :: string
  al_wallet :: string
  al_pair :: string
  al_pool :: "string option"
  al_detail :: 'a
  al_timestamp :: string

text \<open>Missing details are the empty mapping (\<open>none\<close>), a missing timestamp is the instant of the call. Timestamps are compared as
  the texts they are.\<close>

definition new_alert :: "'a \<Rightarrow> string \<Rightarrow> 'a alert \<Rightarrow> nat \<Rightarrow> 'a alert_row" where
  "new_alert none now a n =
     \<lparr>al_id = n, al_type = at_type a, al_wallet = at_wallet a, al_pair = at_pair a, al_pool = at_pool a,
      al_detail = (case at_detail a of None \<Rightarrow> none | Some d \<Rightarrow> d), al_timestamp = (case at_timestamp a of None \<Rightarrow> now | Some ts \<Rightarrow> ts)\<rparr>"

interpretation al_rows: autoinc_rows al_id "new_alert none now" for none now
  by unfold_locales (simp add: new_alert_def)

definition save_alerts :: "'a \<Rightarrow> string \<Rightarrow> suppression table \<Rightarrow> (string \<times> 'a alert) list \<Rightarrow> 'a alert_row table \<Rightarrow> 'a alert_row table" where
  "save_alerts none now suppressions alerts t =
     fold (\<lambda>(_, a). sql_insert (new_alert none now a))
       (filter_suppressed_alerts suppressions (map (\<lambda>(n, a). (n, Some (at_wallet a), a)) alerts)) t"

definition get_alerts ::
    "string option \<Rightarrow> string option \<Rightarrow> string option \<Rightarrow> string option \<Rightarrow> int option \<Rightarrow> int \<Rightarrow> 'a alert_row table \<Rightarrow> 'a alert_row list" where
  "get_alerts typ wallet start until limit offset t =
     sql_page limit offset (rev (sort_key al_timestamp (sql_select (\<lambda>r. wanted typ (al_type r) \<and> wanted wallet (al_wallet r) \<and>
       (case start of None \<Rightarrow> True | Some s \<Rightarrow> s \<le> al_timestamp r) \<and>
       (case until of None \<Rightarrow> True | Some u \<Rightarrow> al_timestamp r \<le> u)) t)))"

lemma filter_suppressed_none:
  "map snd (filter_suppressed_alerts s (map (\<lambda>(n, a). (n, Some (at_wallet a), a)) alerts)) =
   map snd (filter (\<lambda>(n, a). is_suppressed n (at_wallet a) s = None) alerts)"
  by (induction alerts) (auto simp: Let_def)

text \<open>The content of a row, without its id.\<close>

definition alert_content :: "'a alert_row \<Rightarrow> string \<times> string \<times> string \<times> string option \<times> 'a \<times> string" where
  "alert_content r = (al_type r, al_wallet r, al_pair r, al_pool r, al_detail r, al_timestamp r)"

lemma saved_alerts:
  "map alert_content (trows (save_alerts none now s alerts t)) =
     map alert_content (trows t) @
     map (\<lambda>(n, a). alert_content (new_alert none now a 0)) (filter (\<lambda>(n, a). is_suppressed n (at_wallet a) s = None) alerts)"
proof -
  let ?kept = "filter_suppressed_alerts s (map (\<lambda>(n, a). (n, Some (at_wallet a), a)) alerts)"
  have "save_alerts none now s alerts t = fold (\<lambda>a. sql_insert (new_alert none now a)) (map snd ?kept) t"
    by (simp add: save_alerts_def fold_map comp_def case_prod_unfold)
  then have "map alert_content (trows (save_alerts none now s alerts t)) =
      map alert_content (trows t) @ map (\<lambda>a. alert_content (new_alert none now a 0)) (map snd ?kept)"
    using fold_insert_map [where h = alert_content and f = "new_alert none now" and g = "\<lambda>a. alert_content (new_alert none now a 0)"
        and xs = "map snd ?kept" and t = t] by (simp add: alert_content_def new_alert_def)
  then show ?thesis unfolding filter_suppressed_none by (simp add: case_prod_unfold)
qed

text \<open>What a query returns after alerts are saved: the stored alerts and the new ones of wallets that were not suppressed when
  they were checked, those among them that pass the filters, newest text first. Suppressed alerts leave no trace.\<close>

theorem alerts_saved_and_listed:
  "let new = map (\<lambda>(n, a). alert_content (new_alert none now a 0)) (filter (\<lambda>(n, a). is_suppressed n (at_wallet a) s = None) alerts);
       passes = (\<lambda>(ty, w, p, pool, d, ts). wanted typ ty \<and> wanted wallet w \<and> (case start of None \<Rightarrow> True | Some b \<Rightarrow> b \<le> ts) \<and>
          (case until of None \<Rightarrow> True | Some u \<Rightarrow> ts \<le> u));
       rows = get_alerts typ wallet start until None offset (save_alerts none now s alerts t)
   in mset (map alert_content rows) = mset (filter passes (map alert_content (trows t) @ new)) \<and>
      sorted (rev (map al_timestamp rows)) \<and>
      (\<forall>n m. concat (map (\<lambda>k. get_alerts typ wallet start until (Some (int n)) (int (k * n)) (save_alerts none now s alerts t)) [0..<m]) =
         take (m * n) rows)"
proof -
  define passes where "passes = (\<lambda>(ty, w, p :: string, pool :: string option, d :: 'a, ts). wanted typ ty \<and> wanted wallet w \<and>
     (case start of None \<Rightarrow> True | Some b \<Rightarrow> b \<le> ts) \<and> (case until of None \<Rightarrow> True | Some u \<Rightarrow> ts \<le> u))"
  let ?t' = "save_alerts none now s alerts t"
  define rows where "rows = rev (sort_key al_timestamp (filter (\<lambda>r. passes (alert_content r)) (trows ?t')))"
  have get: "get_alerts typ wallet start until l off ?t' = sql_page l off rows" for l off
    by (simp add: get_alerts_def rows_def passes_def alert_content_def sql_select_def)
  have "mset (map alert_content rows) = mset (filter passes (map alert_content (trows ?t')))"
    by (simp add: rows_def filter_map comp_def)
  moreover have "sorted (rev (map al_timestamp rows))" by (simp add: rows_def rev_map)
  moreover have "concat (map (\<lambda>k. get_alerts typ wallet start until (Some (int n)) (int (k * n)) ?t') [0..<m]) = take (m * n) rows" for n m
    unfolding pages_cover [symmetric] by (simp add: get sql_page_def sql_limit_def del: of_nat_mult)
  ultimately show ?thesis unfolding passes_def [symmetric] saved_alerts Let_def by (simp add: get sql_page_def)
qed

subsection \<open>Bridge transfers\<close>

record bridge_transfer =
  bt_chain :: string
  bt_direction :: string
  bt_evm_wallet :: string
  bt_stellar_wallet :: string
  bt_amount_usd :: "rat option"
  bt_token :: string
  bt_tx_hash_evm :: string
  bt_tx_hash_stellar :: "string option"
  bt_timestamp :: time
  bt_canonical_hash :: "string option"
  bt_status :: string
  bt_verified_at :: "time option"

definition save_bridge_transfer :: "bridge_transfer \<Rightarrow> (nat \<times> bridge_transfer) table \<Rightarrow> (nat \<times> bridge_transfer) table" where
  "save_bridge_transfer b = sql_insert (\<lambda>n. (n, b))"

definition save_bridge_transfers :: "bridge_transfer list \<Rightarrow> (nat \<times> bridge_transfer) table \<Rightarrow> (nat \<times> bridge_transfer) table" where
  "save_bridge_transfers bs t = fold (\<lambda>b. sql_insert (\<lambda>n. (n, b))) bs t"

definition retract_bridge_transfers :: "string \<Rightarrow> string list \<Rightarrow> (nat \<times> bridge_transfer) table \<Rightarrow> nat \<times> (nat \<times> bridge_transfer) table" where
  "retract_bridge_transfers chain hashes t =
     (if hashes = [] then (0, t)
      else let p = (\<lambda>(n, b). bt_chain b = chain \<and> bt_tx_hash_evm b \<in> set hashes) in (sql_rowcount p t, sql_delete p t))"

definition get_bridge_transfers ::
    "time \<Rightarrow> string option \<Rightarrow> string option \<Rightarrow> int \<Rightarrow> (nat \<times> bridge_transfer) table \<Rightarrow> bridge_transfer list" where
  "get_bridge_transfers now stellar evm since_days t =
     map snd (sort_key (\<lambda>(n, b). - bt_timestamp b) (sql_select (\<lambda>(n, b). now - since_days * 86400000000 \<le> bt_timestamp b \<and>
       wanted stellar (bt_stellar_wallet b) \<and> wanted evm (bt_evm_wallet b)) t))"

definition get_bridge_transfer_history :: "string \<Rightarrow> (nat \<times> bridge_transfer) table \<Rightarrow> bridge_transfer list" where
  "get_bridge_transfer_history stellar t =
     map snd (sort_key (\<lambda>(n, b). - bt_timestamp b) (sql_select (\<lambda>(n, b). bt_stellar_wallet b = stellar) t))"

text \<open>A retraction removes exactly the transfers of the given transactions of that chain from every later answer, says how many,
  and is idempotent. The same transfer saved twice is kept twice and counted twice.\<close>

theorem reorged_transfers_vanish:
  fixes chain :: string and hashes :: "string list"
  defines "keep \<equiv> \<lambda>b. \<not> (bt_chain b = chain \<and> bt_tx_hash_evm b \<in> set hashes)"
  shows "get_bridge_transfers now w e days (snd (retract_bridge_transfers chain hashes t)) = filter keep (get_bridge_transfers now w e days t) \<and>
    get_bridge_transfer_history w' (snd (retract_bridge_transfers chain hashes t)) = filter keep (get_bridge_transfer_history w' t) \<and>
    fst (retract_bridge_transfers chain hashes t) + length (trows (snd (retract_bridge_transfers chain hashes t))) = length (trows t) \<and>
    retract_bridge_transfers chain hashes (snd (retract_bridge_transfers chain hashes t)) = (0, snd (retract_bridge_transfers chain hashes t)) \<and>
    length (get_bridge_transfer_history w' (save_bridge_transfers [b, b] t)) =
      length (get_bridge_transfer_history w' t) + (if bt_stellar_wallet b = w' then 2 else 0)"
proof -
  let ?p = "\<lambda>r. keep (snd r)"
  have r: "snd (retract_bridge_transfers chain hashes t) = t\<lparr>trows := filter ?p (trows t)\<rparr>" for t
    by (cases "hashes = []") (simp_all add: retract_bridge_transfers_def Let_def sql_delete_def keep_def case_prod_unfold)
  have sel: "map snd (sort_key k (sql_select q (t\<lparr>trows := filter ?p (trows t)\<rparr>))) = filter keep (map snd (sort_key k (sql_select q t)))" for k :: "_ \<Rightarrow> int" and q
    by (simp add: sql_select_def filter_map comp_def filter_sort conj_commute)
  have n: "fst (retract_bridge_transfers chain hashes t) = length (filter (\<lambda>r. \<not> ?p r) (trows t))" for t
    by (cases "hashes = []") (simp_all add: retract_bridge_transfers_def Let_def sql_rowcount_def keep_def case_prod_unfold)
  have "retract_bridge_transfers chain hashes (t\<lparr>trows := filter ?p (trows t)\<rparr>) = (0, t\<lparr>trows := filter ?p (trows t)\<rparr>)"
    using n [of "t\<lparr>trows := filter ?p (trows t)\<rparr>"] r [of "t\<lparr>trows := filter ?p (trows t)\<rparr>"] by (simp add: prod_eq_iff)
  moreover have "length (filter (\<lambda>r. \<not> ?p r) (trows t)) + length (filter ?p (trows t)) = length (trows t)"
    using sum_length_filter_compl [of ?p "trows t"] by simp
  ultimately show ?thesis unfolding r n get_bridge_transfers_def get_bridge_transfer_history_def sel
    by (simp add: save_bridge_transfers_def sql_select_def table_simps)
qed

end
