(* ===== verification/Compliance.thy ===== *)
theory Compliance
  imports Score_Store
begin

text \<open>
  Regulatory exports: \<open>detection/compliance_exporter.py\<close> (the risk field, the SAR package and its manifest, the gated
  exports), the mandatory review of \<open>detection/sar_narrative.py\<close>, and the export log of \<open>detection/storage.py\<close>. SHA-256
  is an argument. The text of the draft (number formatting, the Benford statistic, the relationship graph) is any function
  \<open>render\<close> of the database, the wallet and the dates; the unified diff kept with a review is left out.
\<close>

subsection \<open>The export log\<close>

record export_row =
  ce_id :: nat
  ce_type :: string
  ce_wallet_hash :: string
  ce_risk_score :: int
  ce_dry_run :: bool
  ce_timestamp :: time

definition new_export :: "string \<times> string \<times> int \<times> bool \<times> time \<Rightarrow> nat \<Rightarrow> export_row" where
  "new_export x n = (case x of (typ, wallet_hash, score, dry, now) \<Rightarrow>
     \<lparr>ce_id = n, ce_type = typ, ce_wallet_hash = wallet_hash, ce_risk_score = score, ce_dry_run = dry, ce_timestamp = now\<rparr>)"

interpretation ce_rows: autoinc_rows ce_id new_export
  by unfold_locales (simp add: new_export_def split: prod.splits)

definition log_compliance_export :: "time \<Rightarrow> string \<Rightarrow> string \<Rightarrow> int \<Rightarrow> bool \<Rightarrow> export_row table \<Rightarrow> export_row table" where
  "log_compliance_export now typ wallet_hash score dry = sql_insert (new_export (typ, wallet_hash, score, dry, now))"

definition count_compliance_exports_since :: "time \<Rightarrow> export_row table \<Rightarrow> nat" where
  "count_compliance_exports_since since t = sql_rowcount (\<lambda>r. since \<le> ce_timestamp r) t"

record 'a compliance_db =
  cb_scores :: "stored_score table"
  cb_alerts :: "'a alert_row table"
  cb_exports :: "export_row table"

subsection \<open>The risk field\<close>

datatype risk_level = LOW | MEDIUM | HIGH | CRITICAL

definition risk_level_from_score :: "int \<Rightarrow> risk_level" where
  "risk_level_from_score score =
     (if 90 \<le> score then CRITICAL else if 70 \<le> score then HIGH else if 40 \<le> score then MEDIUM else LOW)"

record ivms_risk_field =
  iv_score :: int
  iv_level :: risk_level
  iv_alert_types :: "string list"
  iv_timestamp :: time
  iv_evidence_hash :: string

type_synonym sha256 = "string \<Rightarrow> string"

definition evidence_hash :: "sha256 \<Rightarrow> (time \<Rightarrow> string) \<Rightarrow> string \<Rightarrow> int \<Rightarrow> time \<Rightarrow> string" where
  "evidence_hash sha isof wallet score ts = sha (wallet @ ''|'' @ str_int score @ ''|'' @ isof ts)"

definition hash_wallet :: "sha256 \<Rightarrow> string \<Rightarrow> string" where
  "hash_wallet sha wallet = sha wallet"

definition latest_of_wallet :: "string \<Rightarrow> 'a compliance_db \<Rightarrow> stored_score list" where
  "latest_of_wallet wallet db =
     (case get_latest_scores (Some wallet) None 0 None None ''score'' None (cb_scores db) of Inr rs \<Rightarrow> rs | Inl _ \<Rightarrow> [])"

definition build_ivms_risk_field :: "sha256 \<Rightarrow> (time \<Rightarrow> string) \<Rightarrow> time \<Rightarrow> string \<Rightarrow> 'a compliance_db \<Rightarrow> ivms_risk_field" where
  "build_ivms_risk_field sha isof now wallet db =
     (let scores = latest_of_wallet wallet db;
          peak = (if scores = [] then 0 else Max (set (map ss_score scores)));
          latest_ts = (if scores = [] then now else Max (set (map ss_timestamp scores)))
      in \<lparr>iv_score = peak, iv_level = risk_level_from_score peak,
          iv_alert_types = sorted_list_of_set (set (map al_type (get_alerts None (Some wallet) None None None 0 (cb_alerts db)))),
          iv_timestamp = latest_ts, iv_evidence_hash = evidence_hash sha isof wallet peak latest_ts\<rparr>)"

subsection \<open>The review of a narrative\<close>

record sar_review =
  rv_reviewer :: string
  rv_reviewed_at :: time
  rv_draft_sha :: string
  rv_final_text :: string
  rv_edited :: bool
  rv_notes :: string

datatype review_error = No_reviewer | Empty_narrative | Not_reviewed | Review_without_reviewer | Review_of_another_draft

definition review_sar_narrative ::
    "sha256 \<Rightarrow> time \<Rightarrow> string \<Rightarrow> string \<Rightarrow> string option \<Rightarrow> string \<Rightarrow> review_error + sar_review" where
  "review_sar_narrative sha now draft reviewer edited_text notes =
     (if strip reviewer = [] then Inl No_reviewer
      else let final = (case edited_text of None \<Rightarrow> draft | Some e \<Rightarrow> e)
           in if strip final = [] then Inl Empty_narrative
              else Inr \<lparr>rv_reviewer = strip reviewer, rv_reviewed_at = now, rv_draft_sha = sha draft, rv_final_text = final,
                        rv_edited = (final \<noteq> draft), rv_notes = notes\<rparr>)"

definition require_approved_narrative :: "sha256 \<Rightarrow> string \<Rightarrow> sar_review option \<Rightarrow> review_error + string" where
  "require_approved_narrative sha draft review =
     (case review of
        None \<Rightarrow> Inl Not_reviewed
      | Some r \<Rightarrow>
          if strip (rv_reviewer r) = [] then Inl Review_without_reviewer
          else if rv_draft_sha r \<noteq> sha draft then Inl Review_of_another_draft
          else Inr (rv_final_text r))"

subsection \<open>The package\<close>

type_synonym 'a render = "'a compliance_db \<Rightarrow> string \<Rightarrow> string \<Rightarrow> string \<Rightarrow> string"

record sar_package =
  pk_name :: string
  pk_files :: "(string \<times> string) list"
  pk_manifest :: "(string \<times> string \<times> nat) list"

text \<open>The evidence files besides the narrative are any function \<open>evidence\<close>; \<open>payload\<close> names in the order of the code.\<close>

definition evidence_names :: "string list" where
  "evidence_names = [''sar_review.json'', ''evidence/alerts.json'', ''evidence/score_history.csv'', ''evidence/graph_export.gexf'',
     ''evidence/shap_explanations.json'']"

definition generate_sar_package ::
    "sha256 \<Rightarrow> 'a render \<Rightarrow> ('a compliance_db \<Rightarrow> sar_review \<Rightarrow> string \<Rightarrow> string) \<Rightarrow> string \<Rightarrow> string \<Rightarrow> string \<Rightarrow> sar_review option
     \<Rightarrow> 'a compliance_db \<Rightarrow> review_error + sar_package" where
  "generate_sar_package sha render evidence wallet start_date end_date review db =
     (case require_approved_narrative sha (render db wallet start_date end_date) review of
        Inl e \<Rightarrow> Inl e
      | Inr narrative \<Rightarrow>
          (case review of
             None \<Rightarrow> Inl Not_reviewed
           | Some r \<Rightarrow>
               let files = (''sar_narrative.txt'', narrative) # map (\<lambda>n. (n, evidence db r n)) evidence_names
               in Inr \<lparr>pk_name = ''sar_'' @ take 12 wallet @ ''_'' @ take 10 start_date @ ''_'' @ take 10 end_date @ ''.zip'',
                       pk_files = files, pk_manifest = map (\<lambda>(n, p). (n, sha p, length p)) files\<rparr>))"

datatype export_error = Rate_limit_exceeded | Score_too_low int | Not_approved review_error

text \<open>Three readings of the clock: the rate check, the risk field, the log entry.\<close>

definition export_sar_package ::
    "sha256 \<Rightarrow> (time \<Rightarrow> string) \<Rightarrow> 'a render \<Rightarrow> ('a compliance_db \<Rightarrow> sar_review \<Rightarrow> string \<Rightarrow> string) \<Rightarrow> nat \<Rightarrow> int \<Rightarrow> time \<Rightarrow> time \<Rightarrow> time
     \<Rightarrow> string \<Rightarrow> string \<Rightarrow> string \<Rightarrow> bool \<Rightarrow> sar_review option \<Rightarrow> 'a compliance_db \<Rightarrow> (export_error + sar_package) \<times> 'a compliance_db" where
  "export_sar_package sha isof render evidence hourly minimum t1 t2 t3 wallet start_date end_date dry review db =
     (if hourly \<le> count_compliance_exports_since (t1 - 3600000000) (cb_exports db) then (Inl Rate_limit_exceeded, db)
      else let risk = build_ivms_risk_field sha isof t2 wallet db
           in if iv_score risk < minimum then (Inl (Score_too_low (iv_score risk)), db)
              else case generate_sar_package sha render evidence wallet start_date end_date review db of
                Inl e \<Rightarrow> (Inl (Not_approved e), db)
              | Inr package \<Rightarrow>
                  (Inr package,
                   if dry then db
                   else db\<lparr>cb_exports := log_compliance_export t3 ''sar'' (hash_wallet sha wallet) (iv_score risk) False (cb_exports db)\<rparr>))"

definition export_travel_rule ::
    "sha256 \<Rightarrow> (time \<Rightarrow> string) \<Rightarrow> time \<Rightarrow> time \<Rightarrow> string \<Rightarrow> bool \<Rightarrow> 'a compliance_db \<Rightarrow> ivms_risk_field \<times> 'a compliance_db" where
  "export_travel_rule sha isof t1 t2 wallet dry db =
     (let field = build_ivms_risk_field sha isof t1 wallet db
      in (field, if dry then db
          else db\<lparr>cb_exports := log_compliance_export t2 ''travel_rule'' (hash_wallet sha wallet) (iv_score field) False (cb_exports db)\<rparr>))"


subsection \<open>Which exports go out\<close>

lemma strip_Nil_iff: "strip s = [] \<longleftrightarrow> (\<forall>c \<in> set s. is_space c)"
proof
  assume "strip s = []"
  then have all: "\<forall>c \<in> set (dropWhile is_space s). is_space c" by (simp add: strip_def)
  have "dropWhile is_space s = []"
  proof (rule ccontr)
    assume ne: "dropWhile is_space s \<noteq> []"
    then have "hd (dropWhile is_space s) \<in> set (dropWhile is_space s)" by simp
    with all hd_dropWhile [OF ne] show False by simp
  qed
  then show "\<forall>c \<in> set s. is_space c" by simp
qed (auto simp: strip_def dest: set_dropWhileD)

lemma strip_strip_Nil: "strip (strip s) = [] \<longleftrightarrow> strip s = []"
proof
  assume "strip (strip s) = []"
  then have all: "\<forall>c \<in> set (strip s). is_space c" by (simp add: strip_Nil_iff)
  show "strip s = []"
  proof (rule ccontr)
    assume "strip s \<noteq> []"
    then have ne: "dropWhile is_space (rev (dropWhile is_space s)) \<noteq> []" by (simp add: strip_def)
    then have "hd (dropWhile is_space (rev (dropWhile is_space s))) \<in> set (strip s)" by (simp add: strip_def)
    with all hd_dropWhile [OF ne] show False by simp
  qed
next
  assume "strip s = []"
  then have "set (strip s) = {}" by (simp only: list.set)
  then show "strip (strip s) = []" by (simp only: strip_Nil_iff ball_empty)
qed

text \<open>A recorded approval stands for exactly the draft it was given for.\<close>

lemma reviewed_draft_approved:
  assumes "review_sar_narrative sha now draft reviewer edited comment = Inr r"
  shows "require_approved_narrative sha draft (Some r) = Inr (rv_final_text r)" "rv_draft_sha r = sha draft"
    "rv_final_text r = (case edited of None \<Rightarrow> draft | Some e \<Rightarrow> e)" "strip (rv_reviewer r) \<noteq> []"
  using assms by (auto simp: review_sar_narrative_def require_approved_narrative_def Let_def strip_strip_Nil split: if_splits)

text \<open>C5: An export goes out exactly within the hourly limit, for a score of at least the minimum, with a named approval of this very
  draft; the approved text is what the package holds, its manifest lists every file with its digest, and unless it is a dry run
  one row is logged. Everything else changes nothing. An approval recorded for some draft opens this export only if that was
  the current draft, or a SHA-256 collision is at hand.\<close>

theorem sar_export_exactly:
  fixes sha :: sha256 and isof :: "time \<Rightarrow> string" and render :: "'a render"
    and evidence :: "'a compliance_db \<Rightarrow> sar_review \<Rightarrow> string \<Rightarrow> string" and hourly :: nat and minimum :: int
    and t1 t2 t3 :: time and wallet start_date end_date :: string and dry :: bool and review :: "sar_review option"
    and db :: "'a compliance_db"
  defines "export \<equiv> export_sar_package sha isof render evidence hourly minimum t1 t2 t3 wallet start_date end_date dry review db"
    and "draft \<equiv> render db wallet start_date end_date"
    and "score \<equiv> iv_score (build_ivms_risk_field sha isof t2 wallet db)"
  shows "((\<exists>package. fst export = Inr package) \<longleftrightarrow>
      count_compliance_exports_since (t1 - 3600000000) (cb_exports db) < hourly \<and> minimum \<le> score \<and>
      (\<exists>r. review = Some r \<and> strip (rv_reviewer r) \<noteq> [] \<and> rv_draft_sha r = sha draft)) \<and>
    (\<forall>package. fst export = Inr package \<longrightarrow>
       map_of (pk_files package) ''sar_narrative.txt'' = map_option rv_final_text review \<and>
       pk_manifest package = map (\<lambda>(n, p). (n, sha p, length p)) (pk_files package) \<and>
       trows (cb_exports (snd export)) = trows (cb_exports db) @
         (if dry then [] else [new_export (''sar'', sha wallet, score, False, t3) (Suc (tseq (cb_exports db)))])) \<and>
    (\<forall>e. fst export = Inl e \<longrightarrow> snd export = db) \<and>
    (\<forall>package now d reviewer edited comment r. fst export = Inr package \<longrightarrow> review = Some r \<longrightarrow>
       review_sar_narrative sha now d reviewer edited comment = Inr r \<longrightarrow> d = draft \<or> d \<noteq> draft \<and> sha d = sha draft)"
proof -
  have "(\<exists>package. fst export = Inr package) \<longleftrightarrow>
      count_compliance_exports_since (t1 - 3600000000) (cb_exports db) < hourly \<and> minimum \<le> score \<and>
      (\<exists>r. review = Some r \<and> strip (rv_reviewer r) \<noteq> [] \<and> rv_draft_sha r = sha draft)"
    by (auto simp: export_def export_sar_package_def generate_sar_package_def require_approved_narrative_def score_def draft_def Let_def
        split: option.splits)
  moreover have "map_of (pk_files package) ''sar_narrative.txt'' = map_option rv_final_text review \<and>
       pk_manifest package = map (\<lambda>(n, p). (n, sha p, length p)) (pk_files package) \<and>
       trows (cb_exports (snd export)) = trows (cb_exports db) @
         (if dry then [] else [new_export (''sar'', sha wallet, score, False, t3) (Suc (tseq (cb_exports db)))])"
    if "fst export = Inr package" for package
    using that by (auto simp: export_def export_sar_package_def generate_sar_package_def require_approved_narrative_def score_def Let_def
        log_compliance_export_def hash_wallet_def table_simps split: option.splits if_splits)
  moreover have "snd export = db" if "fst export = Inl e" for e
    using that by (auto simp: export_def export_sar_package_def Let_def split: sum.splits if_splits)
  moreover have "d = draft \<or> d \<noteq> draft \<and> sha d = sha draft"
    if "fst export = Inr package" "review = Some r" "review_sar_narrative sha now d reviewer edited comment = Inr r"
    for package now d reviewer edited comment r
    using that(1,2) reviewed_draft_approved(2) [OF that(3)] calculation(1) by auto
  ultimately show ?thesis by blast
qed

subsection \<open>The hourly limit\<close>

datatype 'a export_op =
    Export_sar time time time string string string bool "sar_review option"
  | Export_travel time time string bool
  | New_data "stored_score table" "'a alert_row table"

fun export_step ::
    "sha256 \<Rightarrow> (time \<Rightarrow> string) \<Rightarrow> 'a render \<Rightarrow> ('a compliance_db \<Rightarrow> sar_review \<Rightarrow> string \<Rightarrow> string) \<Rightarrow> nat \<Rightarrow> int \<Rightarrow> 'a export_op
     \<Rightarrow> 'a compliance_db \<Rightarrow> 'a compliance_db" where
  "export_step sha isof render evidence hourly minimum (Export_sar t1 t2 t3 w s e dry review) db =
     snd (export_sar_package sha isof render evidence hourly minimum t1 t2 t3 w s e dry review db)"
| "export_step sha isof render evidence hourly minimum (Export_travel t1 t2 w dry) db = snd (export_travel_rule sha isof t1 t2 w dry db)"
| "export_step sha isof render evidence hourly minimum (New_data scores alerts) db = db\<lparr>cb_scores := scores, cb_alerts := alerts\<rparr>"

text \<open>Calls one after the other, the clock never goes back.\<close>

fun clock_runs :: "time \<Rightarrow> 'a export_op list \<Rightarrow> bool" where
  "clock_runs t [] = True"
| "clock_runs t (Export_sar t1 t2 t3 w s e dry review # ops) = (t \<le> t1 \<and> t1 \<le> t2 \<and> t2 \<le> t3 \<and> clock_runs t3 ops)"
| "clock_runs t (Export_travel t1 t2 w dry # ops) = (t \<le> t1 \<and> t1 \<le> t2 \<and> clock_runs t2 ops)"
| "clock_runs t (New_data scores alerts # ops) = clock_runs t ops"

definition sars_within :: "time \<Rightarrow> export_row list \<Rightarrow> nat" where
  "sars_within s rows = length (filter (\<lambda>r. ce_type r = ''sar'' \<and> s \<le> ce_timestamp r \<and> ce_timestamp r \<le> s + 3600000000) rows)"

definition limit_inv :: "nat \<Rightarrow> time \<Rightarrow> export_row list \<Rightarrow> bool" where
  "limit_inv hourly now rows \<longleftrightarrow> (\<forall>r \<in> set rows. ce_timestamp r \<le> now) \<and> (\<forall>s. sars_within s rows \<le> hourly)"

lemma limit_inv_later: "limit_inv hourly now rows \<Longrightarrow> now \<le> now' \<Longrightarrow> limit_inv hourly now' rows"
  by (force simp: limit_inv_def)

lemma limit_inv_sar:
  assumes "limit_inv hourly now (trows t)" "now \<le> t1" "t1 \<le> t3" "count_compliance_exports_since (t1 - 3600000000) t < hourly"
  shows "limit_inv hourly t3 (trows t @ [new_export (''sar'', h, v, False, t3) n])"
proof -
  have "sars_within s (trows t @ [new_export (''sar'', h, v, False, t3) n]) \<le> hourly" for s
  proof (cases "s \<le> t3 \<and> t3 \<le> s + 3600000000")
    case True
    have "length (filter (\<lambda>r. ce_type r = ''sar'' \<and> s \<le> ce_timestamp r \<and> ce_timestamp r \<le> s + 3600000000) (trows t)) \<le>
        length (filter (\<lambda>r. t1 - 3600000000 \<le> ce_timestamp r) (trows t))"
      by (rule length_filter_mono) (use True assms(3) in auto)
    with assms(4) True show ?thesis
      by (simp add: sars_within_def count_compliance_exports_since_def sql_rowcount_def new_export_def)
  next
    case False
    then have "sars_within s (trows t @ [new_export (''sar'', h, v, False, t3) n]) = sars_within s (trows t)"
      by (auto simp: sars_within_def new_export_def)
    with assms(1) show ?thesis by (simp add: limit_inv_def)
  qed
  moreover have "\<forall>r \<in> set (trows t). ce_timestamp r \<le> t3" using assms(1-3) by (force simp: limit_inv_def)
  ultimately show ?thesis by (simp add: limit_inv_def new_export_def)
qed

lemma limit_inv_travel:
  "limit_inv hourly now rows \<Longrightarrow> now \<le> t \<Longrightarrow> limit_inv hourly t (rows @ [new_export (''travel_rule'', h, v, False, t) n])"
  by (force simp: limit_inv_def sars_within_def new_export_def)

lemma limit_inv_run:
  assumes "clock_runs now ops" "limit_inv hourly now (trows (cb_exports db))"
  shows "\<exists>later. limit_inv hourly later (trows (cb_exports (fold (export_step sha isof render evidence hourly minimum) ops db)))"
  using assms
proof (induction now ops arbitrary: db rule: clock_runs.induct)
  case (2 t t1 t2 t3 w s e dry review ops)
  let ?step = "export_step sha isof render evidence hourly minimum (Export_sar t1 t2 t3 w s e dry review)"
  have "limit_inv hourly t3 (trows (cb_exports (?step db)))"
  proof (cases "trows (cb_exports (?step db)) = trows (cb_exports db)")
    case True
    with 2 show ?thesis using limit_inv_later [of hourly t _ t3] by auto
  next
    case False
    then have "count_compliance_exports_since (t1 - 3600000000) (cb_exports db) < hourly"
      "\<exists>h v n. trows (cb_exports (?step db)) = trows (cb_exports db) @ [new_export (''sar'', h, v, False, t3) n]"
      by (auto simp: export_sar_package_def Let_def log_compliance_export_def table_simps split: if_splits sum.splits)
    with 2 limit_inv_sar [of hourly t "cb_exports db" t1 t3] show ?thesis by auto
  qed
  with 2 show ?case by simp
next
  case (3 t t1 t2 w dry ops)
  have "limit_inv hourly t2 (trows (cb_exports (export_step sha isof render evidence hourly minimum (Export_travel t1 t2 w dry) db)))"
    using 3 limit_inv_travel [of hourly t _ t2] limit_inv_later [of hourly t _ t2]
    by (auto simp: export_travel_rule_def Let_def log_compliance_export_def table_simps)
  with 3 show ?case by simp
qed auto

text \<open>Served one after the other, no hour ever holds more logged SAR exports than the limit, whatever else is exported and
  however the data change in between.\<close>

theorem sar_exports_per_hour_bounded:
  assumes "clock_runs now ops" "trows (cb_exports db) = []"
  shows "sars_within s (trows (cb_exports (fold (export_step sha isof render evidence hourly minimum) ops db))) \<le> hourly"
proof -
  have "limit_inv hourly now (trows (cb_exports db))" by (simp add: limit_inv_def sars_within_def assms(2))
  from limit_inv_run [OF assms(1) this] show ?thesis by (auto simp: limit_inv_def)
qed

text \<open>Dry runs produce the package and leave no trace: their number is not limited.\<close>

lemma dry_run_leaves_no_trace: "snd (export_sar_package sha isof render evidence hourly minimum t1 t2 t3 w s e True review db) = db"
  by (simp add: export_sar_package_def Let_def split: sum.split)


definition sample_db :: "unit compliance_db" where
  "sample_db = \<lparr>cb_scores = save_scores [(''W'', ''P'', 95, False, True, 90, 5), (''W'', ''Q'', 10, False, False, 90, 9)] empty_table,
     cb_alerts = empty_table, cb_exports = empty_table\<rparr>"

definition sample_review :: sar_review where
  "sample_review = \<lparr>rv_reviewer = ''ann'', rv_reviewed_at = 10, rv_draft_sha = ''the draft'', rv_final_text = ''approved'', rv_edited = True,
     rv_notes = ''''\<rparr>"

theorem sar_export_exactly_witness:
  "\<exists>package. fst (export_sar_package (\<lambda>x. x) str_int (\<lambda>_ _ _ _. ''the draft'') (\<lambda>_ _ _. '''') 10 70 100 101 102 ''W'' ''2026-01-01'' ''2026-02-01''
     False (Some sample_review) sample_db) = Inr package"
proof -
  have "count_compliance_exports_since (100 - 3600000000) (cb_exports sample_db) < 10"
    "70 \<le> iv_score (build_ivms_risk_field (\<lambda>x. x) str_int 101 ''W'' sample_db)"
    "strip (rv_reviewer sample_review) \<noteq> []" "rv_draft_sha sample_review = ''the draft''"
    by code_simp+
  then show ?thesis
    using sar_export_exactly [of "\<lambda>x. x" str_int "\<lambda>_ _ _ _. ''the draft''" "\<lambda>_ _ _. ''''" 10 70 100 101 102 "''W''"
        "''2026-01-01''" "''2026-02-01''" False "Some sample_review" sample_db, THEN conjunct1] by blast
qed

theorem sar_exports_per_hour_bounded_witness:
  "sars_within 0 (trows (cb_exports (fold (export_step (\<lambda>x. x) str_int (\<lambda>_ _ _ _. ''the draft'') (\<lambda>_ _ _. '''') 1 70)
     [Export_sar 100 101 102 ''W'' '''' '''' False (Some sample_review), Export_sar 200 201 202 ''W'' '''' '''' False (Some sample_review)]
     sample_db))) \<le> 1"
  by (rule sar_exports_per_hour_bounded [of 100]) (simp_all add: sample_db_def empty_table_def)

text \<open>Travel Rule exports are not limited, but they use up the limit of the SAR exports.\<close>

lemma travel_exports_block_sars:
  "fst (export_sar_package (\<lambda>x. x) str_int (\<lambda>_ _ _ _. ''the draft'') (\<lambda>_ _ _. '''') 1 70 100 101 102 ''W'' '''' '''' False (Some sample_review)
     (snd (export_travel_rule (\<lambda>x. x) str_int 90 91 ''V'' False sample_db))) = Inl Rate_limit_exceeded"
  by code_simp

text \<open>The evidence hash joins the highest score of the wallet with the newest instant, of different pairs: a fact that was never
  scored.\<close>

lemma evidence_hash_mixes_scores:
  "iv_evidence_hash (build_ivms_risk_field (\<lambda>x. x) str_int 101 ''W'' sample_db) = ''W|95|9'' \<and>
   filter (\<lambda>r. ss_score r = 95 \<and> ss_timestamp r = 9) (trows (cb_scores sample_db)) = []"
  by code_simp

end
