(* ===== verification/Trade_Filters.thy ===== *)
theory Trade_Filters
  imports Score_Store
begin

text \<open>
  The configurable filters between ingestion and detection (\<open>ingestion/filters.py\<close>): the five filters with their
  rejection counters, the pipeline, the configuration file and its hot reload. The file reaches the model as the mapping the
  YAML parser returns (a decimal that \<open>Decimal\<close> refuses is \<open>None\<close>); the Stellar SDK's check of a public key is an argument.
  A rejection reason is its filter and its data; the English sentence around them is left out.
\<close>

subsection \<open>Filters\<close>

datatype volume_field = Base_amount | Counter_amount | Price

datatype asset_type = Native | Credit_alphanum4 | Credit_alphanum12

datatype rule =
    Pair_whitelist "string set"
  | Pair_blacklist "string set"
  | Minimum_volume rat volume_field
  | Asset_types "asset_type set"
  | Account_exclusion "string set"

record trade_filter =
  tf_rule :: rule
  tf_rejections :: nat

datatype reason =
    Pair_not_in_whitelist string
  | Pair_blacklisted string
  | Volume_below volume_field rat rat
  | Type_not_allowed string asset_type
  | Account_excluded string string

definition code_pair :: "dex_trade \<Rightarrow> string" where
  "code_pair t = dt_base_code t @ ''/'' @ dt_counter_code t"

fun volume_of :: "volume_field \<Rightarrow> dex_trade \<Rightarrow> rat" where
  "volume_of Base_amount t = dt_base_amount t"
| "volume_of Counter_amount t = dt_counter_amount t"
| "volume_of Price t = dt_price t"

definition asset_type_of :: "string \<Rightarrow> string option \<Rightarrow> asset_type" where
  "asset_type_of code issuer =
     (if issuer = None then Native else if length code \<le> 4 then Credit_alphanum4 else Credit_alphanum12)"

text \<open>\<open>apply\<close> of each filter, as the reason it rejection for.\<close>

fun rejection :: "rule \<Rightarrow> dex_trade \<Rightarrow> reason option" where
  "rejection (Pair_whitelist allowed) t =
     (if allowed = {} then None else if code_pair t \<in> allowed then None else Some (Pair_not_in_whitelist (code_pair t)))"
| "rejection (Pair_blacklist blocked) t =
     (if blocked = {} then None else if code_pair t \<in> blocked then Some (Pair_blacklisted (code_pair t)) else None)"
| "rejection (Minimum_volume least field) t =
     (if least = 0 then None
      else if volume_of field t < least then Some (Volume_below field (volume_of field t) least) else None)"
| "rejection (Asset_types allowed) t =
     (let base = asset_type_of (dt_base_code t) (dt_base_issuer t); counter = asset_type_of (dt_counter_code t) (dt_counter_issuer t)
      in if base \<notin> allowed then Some (Type_not_allowed ''base_asset'' base)
         else if counter \<notin> allowed then Some (Type_not_allowed ''counter_asset'' counter)
         else None)"
| "rejection (Account_exclusion excluded) t =
     (if dt_base_account t \<in> excluded then Some (Account_excluded ''base_account'' (take 8 (dt_base_account t)))
      else case dt_counter_account t of
        None \<Rightarrow> None
      | Some a \<Rightarrow> if a \<in> excluded then Some (Account_excluded ''counter_account'' (take 8 a)) else None)"

definition apply_filter :: "trade_filter \<Rightarrow> dex_trade \<Rightarrow> reason option \<times> trade_filter" where
  "apply_filter f t =
     (case rejection (tf_rule f) t of
        None \<Rightarrow> (None, f)
      | Some r \<Rightarrow> (Some r, f\<lparr>tf_rejections := tf_rejections f + 1\<rparr>))"

fun filter_name :: "rule \<Rightarrow> string" where
  "filter_name (Pair_whitelist _) = ''asset_pair_whitelist''"
| "filter_name (Pair_blacklist _) = ''asset_pair_blacklist''"
| "filter_name (Minimum_volume _ _) = ''minimum_volume''"
| "filter_name (Asset_types _) = ''asset_type''"
| "filter_name (Account_exclusion _) = ''account_exclusion''"

text \<open>The pipeline: the first rejection ends it.\<close>

fun apply_pipeline :: "trade_filter list \<Rightarrow> dex_trade \<Rightarrow> (string \<times> reason) option \<times> trade_filter list" where
  "apply_pipeline [] t = (None, [])"
| "apply_pipeline (f # fs) t =
     (case apply_filter f t of
        (Some r, f') \<Rightarrow> (Some (filter_name (tf_rule f), r), f' # fs)
      | (None, f') \<Rightarrow> (let (res, fs') = apply_pipeline fs t in (res, f' # fs')))"

definition reset_stats :: "trade_filter list \<Rightarrow> trade_filter list" where
  "reset_stats = map (\<lambda>f. f\<lparr>tf_rejections := 0\<rparr>)"

text \<open>A dictionary by name: of two filters of one kind the later one counts.\<close>

definition pipeline_stats :: "trade_filter list \<Rightarrow> string \<rightharpoonup> nat" where
  "pipeline_stats fs = map_of (rev (map (\<lambda>f. (filter_name (tf_rule f), tf_rejections f)) fs))"

fun run_pipeline :: "trade_filter list \<Rightarrow> dex_trade list \<Rightarrow> dex_trade list \<times> trade_filter list" where
  "run_pipeline fs [] = ([], fs)"
| "run_pipeline fs (t # ts) =
     (let (res, fs') = apply_pipeline fs t; (passed, fs'') = run_pipeline fs' ts
      in (if res = None then t # passed else passed, fs''))"

subsection \<open>Configuration\<close>

datatype raw_rule =
    Raw_whitelist "string list"
  | Raw_blacklist "string list"
  | Raw_volume "rat option" string
  | Raw_types "string list"
  | Raw_exclusion "string list"

record raw_filter =
  rf_enabled :: bool
  rf_rule :: raw_rule

record raw_config =
  rc_version :: string
  rc_filters :: "raw_filter list"

datatype config_error = File_not_found | Not_a_mapping | Schema_invalid

definition volume_field_of :: "string \<Rightarrow> volume_field option" where
  "volume_field_of s =
     (if s = ''base_amount'' then Some Base_amount else if s = ''counter_amount'' then Some Counter_amount
      else if s = ''price'' then Some Price else None)"

definition type_of_text :: "string \<Rightarrow> asset_type option" where
  "type_of_text s =
     (if s = ''native'' then Some Native else if s = ''credit_alphanum4'' then Some Credit_alphanum4
      else if s = ''credit_alphanum12'' then Some Credit_alphanum12 else None)"

definition valid_stellar_key :: "(string \<Rightarrow> bool) \<Rightarrow> string \<Rightarrow> bool" where
  "valid_stellar_key strkey k \<longleftrightarrow> starts_with ''G'' k \<and> length k = 56 \<and> strkey k"

text \<open>Validation and construction of one filter; a disabled filter is validated too.\<close>

fun build_rule :: "(string \<Rightarrow> bool) \<Rightarrow> raw_rule \<Rightarrow> rule option" where
  "build_rule strkey (Raw_whitelist pairs) = Some (Pair_whitelist (set pairs))"
| "build_rule strkey (Raw_blacklist pairs) = Some (Pair_blacklist (set pairs))"
| "build_rule strkey (Raw_volume least field) =
     (case (least, volume_field_of field) of
        (Some v, Some f) \<Rightarrow> if v < 0 then None else Some (Minimum_volume v f)
      | _ \<Rightarrow> None)"
| "build_rule strkey (Raw_types ts) =
     (if list_all (\<lambda>s. type_of_text s \<noteq> None) ts then Some (Asset_types (set (map (\<lambda>s. the (type_of_text s)) ts))) else None)"
| "build_rule strkey (Raw_exclusion ks) = (if list_all (valid_stellar_key strkey) ks then Some (Account_exclusion (set ks)) else None)"

definition build_filters :: "(string \<Rightarrow> bool) \<Rightarrow> raw_filter list \<Rightarrow> trade_filter list option" where
  "build_filters strkey rfs =
     (if list_all (\<lambda>rf. build_rule strkey (rf_rule rf) \<noteq> None) rfs
      then Some (map (\<lambda>rf. \<lparr>tf_rule = the (build_rule strkey (rf_rule rf)), tf_rejections = 0\<rparr>) (filter rf_enabled rfs))
      else None)"

text \<open>What is at the path: nothing, something that is no mapping, or a mapping; an empty file reads as the empty mapping, which is
  \<open>Mapping\<close> of the defaults.\<close>

datatype file_content = Missing | Unreadable | Mapping raw_config

definition load_config :: "(string \<Rightarrow> bool) \<Rightarrow> file_content \<Rightarrow> config_error + trade_filter list" where
  "load_config strkey c =
     (case c of
        Missing \<Rightarrow> Inl File_not_found
      | Unreadable \<Rightarrow> Inl Not_a_mapping
      | Mapping rc \<Rightarrow>
          if rc_version rc \<noteq> ''1.0'' then Inl Schema_invalid
          else case build_filters strkey (rc_filters rc) of None \<Rightarrow> Inl Schema_invalid | Some fs \<Rightarrow> Inr fs)"

subsection \<open>Hot reload\<close>

text \<open>A snapshot of the path: its content and its modification time, if the file can be read.\<close>

type_synonym snapshot = "file_content \<times> time option"

record loader =
  ld_filters :: "trade_filter list"
  ld_last_mtime :: time

text \<open>The constructor reads the file first and its modification time afterwards: two snapshots.\<close>

definition start_loader :: "(string \<Rightarrow> bool) \<Rightarrow> snapshot \<Rightarrow> snapshot \<Rightarrow> config_error + loader" where
  "start_loader strkey at_load at_stat =
     (case load_config strkey (fst at_load) of
        Inl e \<Rightarrow> Inl e
      | Inr fs \<Rightarrow> Inr \<lparr>ld_filters = fs, ld_last_mtime = (case snd at_stat of None \<Rightarrow> 0 | Some m \<Rightarrow> m)\<rparr>)"

text \<open>The timer reads the modification time first.\<close>

definition check_and_reload :: "(string \<Rightarrow> bool) \<Rightarrow> snapshot \<Rightarrow> snapshot \<Rightarrow> loader \<Rightarrow> loader" where
  "check_and_reload strkey at_stat at_load l =
     (case snd at_stat of
        None \<Rightarrow> l
      | Some mtime \<Rightarrow>
          if mtime \<le> ld_last_mtime l then l
          else case load_config strkey (fst at_load) of
            Inl _ \<Rightarrow> l
          | Inr fs \<Rightarrow> \<lparr>ld_filters = fs, ld_last_mtime = mtime\<rparr>)"


subsection \<open>What passes\<close>

text \<open>The reference: what a configured filter permits.\<close>

fun permits :: "raw_rule \<Rightarrow> dex_trade \<Rightarrow> bool" where
  "permits (Raw_whitelist pairs) t = (pairs = [] \<or> code_pair t \<in> set pairs)"
| "permits (Raw_blacklist pairs) t = (code_pair t \<notin> set pairs)"
| "permits (Raw_volume least field) t =
     (least = Some 0 \<or> the least \<le> (if field = ''base_amount'' then dt_base_amount t else if field = ''counter_amount'' then dt_counter_amount t else dt_price t))"
| "permits (Raw_types ts) t =
     (\<forall>(code, issuer) \<in> {(dt_base_code t, dt_base_issuer t), (dt_counter_code t, dt_counter_issuer t)}.
        (if issuer = None then ''native'' else if length code \<le> 4 then ''credit_alphanum4'' else ''credit_alphanum12'') \<in> set ts)"
| "permits (Raw_exclusion ks) t = (dt_base_account t \<notin> set ks \<and> (\<forall>a. dt_counter_account t = Some a \<longrightarrow> a \<notin> set ks))"

lemma type_of_text_inverse:
  assumes "type_of_text s = Some a"
  shows "asset_type_of code issuer = a \<longleftrightarrow>
    (if issuer = None then ''native'' else if length code \<le> 4 then ''credit_alphanum4'' else ''credit_alphanum12'') = s"
  using assms by (auto simp: type_of_text_def asset_type_of_def split: if_splits)

lemma allowed_type_iff:
  assumes "list_all (\<lambda>s. type_of_text s \<noteq> None) ts"
  shows "asset_type_of code issuer \<in> (\<lambda>s. the (type_of_text s)) ` set ts \<longleftrightarrow>
    (if issuer = None then ''native'' else if length code \<le> 4 then ''credit_alphanum4'' else ''credit_alphanum12'') \<in> set ts"
proof -
  have "asset_type_of code issuer = the (type_of_text s) \<longleftrightarrow>
      (if issuer = None then ''native'' else if length code \<le> 4 then ''credit_alphanum4'' else ''credit_alphanum12'') = s"
    if s: "s \<in> set ts" for s
  proof -
    from assms s obtain a where "type_of_text s = Some a" by (auto simp: list_all_iff)
    with type_of_text_inverse [OF this] show ?thesis by simp
  qed
  then show ?thesis by (auto simp: image_iff)
qed

lemma built_rule_permits: "build_rule strkey rr = Some r \<Longrightarrow> rejection r t = None \<longleftrightarrow> permits rr t"
proof (induction rr)
  case (Raw_volume least field)
  then show ?case by (auto simp: volume_field_of_def split: option.splits if_splits)
next
  case (Raw_types ts)
  then have l: "list_all (\<lambda>s. type_of_text s \<noteq> None) ts" and r: "r = Asset_types ((\<lambda>s. the (type_of_text s)) ` set ts)"
    by (auto split: if_splits)
  show ?case unfolding r by (auto simp: Let_def allowed_type_iff [OF l] simp del: if_image_distrib)
next
  case (Raw_exclusion ks)
  then show ?case by (auto split: if_splits option.splits)
qed (auto split: if_splits)

lemma pipeline_passes: "fst (apply_pipeline fs t) = None \<longleftrightarrow> (\<forall>f \<in> set fs. rejection (tf_rule f) t = None)"
  by (induction fs) (auto simp: apply_filter_def split: option.splits prod.splits)

lemma pipeline_rules: "map tf_rule (snd (apply_pipeline fs t)) = map tf_rule fs"
  by (induction fs) (auto simp: apply_filter_def split: option.splits prod.splits)

definition total_rejections :: "trade_filter list \<Rightarrow> nat" where
  "total_rejections fs = sum_list (map tf_rejections fs)"

lemma pipeline_counts:
  "total_rejections (snd (apply_pipeline fs t)) = total_rejections fs + (if fst (apply_pipeline fs t) = None then 0 else 1)"
  by (induction fs) (auto simp: total_rejections_def apply_filter_def split: option.splits prod.splits)

lemma run_passes:
  "fst (run_pipeline fs ts) = filter (\<lambda>t. \<forall>f \<in> set fs. rejection (tf_rule f) t = None) ts \<and>
   total_rejections (snd (run_pipeline fs ts)) + length (fst (run_pipeline fs ts)) = total_rejections fs + length ts"
proof (induction ts arbitrary: fs)
  case (Cons t ts)
  obtain res fs' where a: "apply_pipeline fs t = (res, fs')" by (cases "apply_pipeline fs t")
  obtain passed fs'' where b: "run_pipeline fs' ts = (passed, fs'')" by (cases "run_pipeline fs' ts")
  have "tf_rule ` set fs' = tf_rule ` set fs" using pipeline_rules [of fs t] a by (metis list.set_map snd_conv)
  then have same: "(\<forall>f \<in> set fs'. rejection (tf_rule f) u = None) = (\<forall>f \<in> set fs. rejection (tf_rule f) u = None)" for u
    by (metis (mono_tags, lifting) image_iff)
  let ?P = "\<lambda>t. \<forall>f \<in> set fs. rejection (tf_rule f) t = None"
  note c = Cons [of fs', unfolded b fst_conv snd_conv same]
  note ih = c [THEN conjunct1] c [THEN conjunct2]
  have n: "total_rejections fs' = total_rejections fs + (if res = None then 0 else 1)" "(res = None) = ?P t"
    using pipeline_passes [of fs t] pipeline_counts [of fs t] a by simp_all
  have r: "run_pipeline fs (t # ts) = (if res = None then t # passed else passed, fs'')" by (simp add: a b)
  have "fst (run_pipeline fs (t # ts)) = filter ?P (t # ts)" unfolding r using n(2) ih(1) by simp
  moreover have "total_rejections fs'' + length (if res = None then t # passed else passed) = total_rejections fs + length (t # ts)"
    using n(1) ih(2) by simp
  ultimately show ?case unfolding r by simp
qed simp


text \<open>The statistics are a dictionary by filter name: with two filters of one kind the rejections of the first do not appear.\<close>

lemma stats_lose_first_of_a_kind:
  "pipeline_stats (snd (run_pipeline [\<lparr>tf_rule = Minimum_volume 5 Base_amount, tf_rejections = 0\<rparr>,
     \<lparr>tf_rule = Minimum_volume 1 Price, tf_rejections = 0\<rparr>] [sample_trade])) ''minimum_volume'' = Some 0 \<and>
   fst (run_pipeline [\<lparr>tf_rule = Minimum_volume 5 Base_amount, tf_rejections = 0\<rparr>,
     \<lparr>tf_rule = Minimum_volume 1 Price, tf_rejections = 0\<rparr>] [sample_trade]) = []"
  by code_simp


subsection \<open>Which configuration is in force\<close>

text \<open>The versions of the file: their contents and their modification times. A check sees version \<open>i\<close> when it reads the time and
  version \<open>j\<close> when it reads the file.\<close>

definition snap :: "(nat \<Rightarrow> file_content) \<Rightarrow> (nat \<Rightarrow> time) \<Rightarrow> nat \<Rightarrow> snapshot" where
  "snap content mtime v = (content v, Some (mtime v))"

definition run_checks :: "(string \<Rightarrow> bool) \<Rightarrow> (nat \<Rightarrow> file_content) \<Rightarrow> (nat \<Rightarrow> time) \<Rightarrow> (nat \<times> nat) list \<Rightarrow> loader \<Rightarrow> loader" where
  "run_checks strkey content mtime = fold (\<lambda>(i, j). check_and_reload strkey (snap content mtime i) (snap content mtime j))"

fun checks_ordered :: "nat \<Rightarrow> (nat \<times> nat) list \<Rightarrow> bool" where
  "checks_ordered v [] = True"
| "checks_ordered v ((i, j) # cs) = (v \<le> i \<and> i \<le> j \<and> checks_ordered j cs)"

definition in_force :: "(string \<Rightarrow> bool) \<Rightarrow> (nat \<Rightarrow> file_content) \<Rightarrow> (nat \<Rightarrow> time) \<Rightarrow> nat \<Rightarrow> loader \<Rightarrow> bool" where
  "in_force strkey content mtime cur l \<longleftrightarrow>
     (\<exists>i j. ld_last_mtime l = mtime i \<and> i \<le> j \<and> j \<le> cur \<and> load_config strkey (content j) = Inr (ld_filters l))"

lemma check_in_force:
  assumes "in_force strkey content mtime v l" "v \<le> i" "i \<le> j"
  shows "in_force strkey content mtime j (check_and_reload strkey (snap content mtime i) (snap content mtime j) l)"
proof (cases "mtime i \<le> ld_last_mtime l \<or> (\<exists>e. load_config strkey (content j) = Inl e)")
  case True
  then have "check_and_reload strkey (snap content mtime i) (snap content mtime j) l = l"
    by (auto simp: check_and_reload_def snap_def)
  with assms show ?thesis unfolding in_force_def by (metis le_trans)
next
  case False
  then obtain fs where "load_config strkey (content j) = Inr fs" by (cases "load_config strkey (content j)") auto
  with False assms show ?thesis by (auto simp: in_force_def check_and_reload_def snap_def)
qed

lemma checks_in_force:
  assumes "in_force strkey content mtime v l" "checks_ordered v cs" "\<forall>(i, j) \<in> set cs. j \<le> k" "v \<le> k"
  shows "in_force strkey content mtime k (run_checks strkey content mtime cs l)"
  using assms
proof (induction cs arbitrary: v l)
  case Nil
  then show ?case by (auto simp: run_checks_def in_force_def intro: le_trans)
next
  case (Cons c cs)
  obtain i j where c: "c = (i, j)" by (cases c)
  with Cons.prems have "in_force strkey content mtime j (check_and_reload strkey (snap content mtime i) (snap content mtime j) l)"
    by (auto intro: check_in_force)
  from Cons.IH [OF this] Cons.prems c show ?case by (simp add: run_checks_def)
qed


text \<open>An edit between the two reads of the constructor is lost: its modification time is remembered with the filters of the version
  before, and no later check loads it.\<close>

theorem edit_during_start_lost:
  assumes "start_loader strkey (snap content mtime v) (snap content mtime w) = Inr l" "set cs \<subseteq> {(w, w)}"
  shows "run_checks strkey content mtime cs l = l \<and> load_config strkey (content v) = Inr (ld_filters l)"
proof -
  have l: "ld_last_mtime l = mtime w" "load_config strkey (content v) = Inr (ld_filters l)"
    using assms(1) by (auto simp: start_loader_def snap_def split: sum.splits)
  have "check_and_reload strkey (snap content mtime w) (snap content mtime w) l = l"
    by (simp add: check_and_reload_def snap_def l)
  with assms(2) have "run_checks strkey content mtime cs l = l" by (induction cs) (auto simp: run_checks_def)
  with l show ?thesis by simp
qed

definition sample_file :: "nat \<Rightarrow> file_content" where
  "sample_file v = (if v = 1 then Unreadable else Mapping \<lparr>rc_version = ''1.0'', rc_filters =
     [\<lparr>rf_enabled = True, rf_rule = Raw_volume (Some (of_nat v)) ''price''\<rparr>]\<rparr>)"


theorem edit_during_start_lost_witness:
  "run_checks (\<lambda>_. True) sample_file int [(2, 2), (2, 2)]
     \<lparr>ld_filters = [\<lparr>tf_rule = Minimum_volume 0 Price, tf_rejections = 0\<rparr>], ld_last_mtime = 2\<rparr> =
     \<lparr>ld_filters = [\<lparr>tf_rule = Minimum_volume 0 Price, tf_rejections = 0\<rparr>], ld_last_mtime = 2\<rparr>"
  by (rule edit_during_start_lost [of _ _ _ 0 2, THEN conjunct1]) code_simp+

end
