(* ===== verification/Dlq.thy ===== *)
theory Dlq
  imports Lifecycle
begin

text \<open>
  The dead-letter queue of the ingestion (\<open>ingestion/dlq.py\<close>): records that could not be processed, their classification,
  their replay through a handler, and the quarantine that ends a record after too many failed replays. The JSON codec and the
  handler are arguments; a handler returns the error it raised, if any. Raised alerts are kept in the state.
\<close>

datatype dlq_class = ParseError | NetworkError | SchemaError | StorageError | VersionError | Unknown

datatype dlq_status = Pending | Replayed | Dead | Quarantined

record dlq_entry =
  dq_id :: nat
  dq_source :: string
  dq_class :: dlq_class
  dq_message :: string
  dq_raw :: string
  dq_created :: time
  dq_retry_count :: nat
  dq_status :: dlq_status
  dq_replayed_at :: "time option"
  dq_failures :: nat
  dq_last_error :: "string option"

record dlq =
  dl_entries :: "dlq_entry table"
  dl_alerts :: "(dlq_entry \<times> string) list"

definition new_entry :: "string \<times> dlq_class \<times> string \<times> string \<times> time \<Rightarrow> nat \<Rightarrow> dlq_entry" where
  "new_entry x n =
     (case x of (source, cls, message, raw, now) \<Rightarrow>
        \<lparr>dq_id = n, dq_source = source, dq_class = cls, dq_message = message, dq_raw = raw, dq_created = now, dq_retry_count = 0,
         dq_status = Pending, dq_replayed_at = None, dq_failures = 0, dq_last_error = None\<rparr>)"

interpretation dq_rows: autoinc_rows dq_id new_entry
  by unfold_locales (simp add: new_entry_def split: prod.splits)

text \<open>A record is pushed as it is when it is a text, else as JSON.\<close>

datatype 'j raw_record = Text string | Data 'j

definition encode_record :: "('j \<Rightarrow> string) \<Rightarrow> 'j raw_record \<Rightarrow> string" where
  "encode_record dumps r = (case r of Text s \<Rightarrow> s | Data j \<Rightarrow> dumps j)"

definition decode_record :: "(string \<Rightarrow> 'j option) \<Rightarrow> string \<Rightarrow> 'j raw_record" where
  "decode_record loads raw = (case loads raw of Some j \<Rightarrow> Data j | None \<Rightarrow> Text raw)"

definition push :: "time \<Rightarrow> string \<Rightarrow> dlq_class \<Rightarrow> string \<Rightarrow> string \<Rightarrow> dlq \<Rightarrow> nat \<times> dlq" where
  "push now source cls message raw q =
     (let t = sql_insert (new_entry (source, cls, message, raw, now)) (dl_entries q)
      in (last_insert_rowid t, q\<lparr>dl_entries := t\<rparr>))"

definition get_entry :: "nat \<Rightarrow> dlq \<Rightarrow> dlq_entry option" where
  "get_entry n q = sql_fetchone (\<lambda>e. dq_id e = n) (dl_entries q)"

definition on_quarantined :: "dlq_entry option \<Rightarrow> string \<Rightarrow> dlq \<Rightarrow> dlq" where
  "on_quarantined entry error q = (case entry of None \<Rightarrow> q | Some e \<Rightarrow> q\<lparr>dl_alerts := dl_alerts q @ [(e, error)]\<rparr>)"

definition update_entry :: "nat \<Rightarrow> (dlq_entry \<Rightarrow> dlq_entry) \<Rightarrow> dlq \<Rightarrow> dlq" where
  "update_entry n f q = q\<lparr>dl_entries := sql_update (\<lambda>e. dq_id e = n) f (dl_entries q)\<rparr>"

definition quarantine :: "time \<Rightarrow> string \<Rightarrow> dlq_class \<Rightarrow> string \<Rightarrow> string \<Rightarrow> dlq \<Rightarrow> nat \<times> dlq" where
  "quarantine now source cls message raw q =
     (let (n, q1) = push now source cls message raw q;
          q2 = update_entry n (\<lambda>e. e\<lparr>dq_status := Quarantined, dq_last_error := Some message\<rparr>) q1
      in (n, on_quarantined (get_entry n q2) message q2))"

definition list_entries :: "dlq_status option \<Rightarrow> dlq_class option \<Rightarrow> string option \<Rightarrow> int \<Rightarrow> nat \<Rightarrow> dlq \<Rightarrow> dlq_entry list" where
  "list_entries status cls source limit offset q =
     sql_limit limit (drop offset (sort_key (\<lambda>e. - dq_created e) (sql_select (\<lambda>e.
       (case status of None \<Rightarrow> True | Some s \<Rightarrow> dq_status e = s) \<and> (case cls of None \<Rightarrow> True | Some c \<Rightarrow> dq_class e = c) \<and>
       (case source of None \<Rightarrow> True | Some s \<Rightarrow> dq_source e = s)) (dl_entries q))))"

definition mark_replayed :: "time \<Rightarrow> nat \<Rightarrow> dlq \<Rightarrow> dlq" where
  "mark_replayed now n =
     update_entry n (\<lambda>e. e\<lparr>dq_status := Replayed, dq_replayed_at := Some now, dq_retry_count := dq_retry_count e + 1\<rparr>)"

definition mark_dead :: "nat \<Rightarrow> dlq \<Rightarrow> dlq" where
  "mark_dead n = update_entry n (\<lambda>e. e\<lparr>dq_status := Dead\<rparr>)"

definition get_replayable :: "dlq_class option \<Rightarrow> int \<Rightarrow> dlq \<Rightarrow> dlq_entry list" where
  "get_replayable cls max_entries q =
     sql_limit max_entries (sort_key dq_created (sql_select (\<lambda>e. dq_status e = Pending \<and>
       dq_class e = (case cls of None \<Rightarrow> NetworkError | Some c \<Rightarrow> c)) (dl_entries q)))"

text \<open>By the names of the exception's type and of the type's module.\<close>

definition classify_exception :: "string \<Rightarrow> string \<Rightarrow> dlq_class" where
  "classify_exception typ modname =
     (if mentions ''ValidationError'' typ \<or> mentions ''pydantic'' modname then ParseError
      else if mentions ''Timeout'' typ \<or> mentions ''Connect'' typ \<or> mentions ''Network'' typ then NetworkError
      else if mentions ''Schema'' typ \<or> mentions ''HorizonSchema'' typ then SchemaError
      else if mentions ''OperationalError'' typ \<or> mentions ''sqlite3'' modname then StorageError
      else if mentions ''Version'' typ \<or> mentions ''HorizonVersion'' typ then VersionError
      else Unknown)"

definition record_replay_failure :: "int \<Rightarrow> nat \<Rightarrow> string \<Rightarrow> dlq \<Rightarrow> bool \<times> dlq" where
  "record_replay_failure max_failures n error q =
     (let q1 = update_entry n (\<lambda>e. e\<lparr>dq_failures := dq_failures e + 1, dq_retry_count := dq_retry_count e + 1, dq_last_error := Some error,
            dq_status := (if max_failures \<le> int (dq_failures e + 1) then Quarantined else dq_status e)\<rparr>) q
      in case get_entry n q1 of
           None \<Rightarrow> (False, q1)
         | Some e \<Rightarrow> if dq_status e \<noteq> Quarantined then (False, q1) else (True, on_quarantined (Some e) error q1))"

datatype outcome = Outcome_replayed | Outcome_failed string | Outcome_quarantined string | Outcome_skipped "dlq_status option"

text \<open>A replay reads the entry, runs the handler outside of any transaction, and records what came of it.\<close>

definition replay_start :: "(string \<Rightarrow> 'j option) \<Rightarrow> nat \<Rightarrow> dlq \<Rightarrow> outcome + 'j raw_record" where
  "replay_start loads n q =
     (case get_entry n q of
        None \<Rightarrow> Inl (Outcome_skipped None)
      | Some e \<Rightarrow> if dq_status e \<noteq> Pending then Inl (Outcome_skipped (Some (dq_status e))) else Inr (decode_record loads (dq_raw e)))"

definition replay_finish :: "int \<Rightarrow> time \<Rightarrow> nat \<Rightarrow> string option \<Rightarrow> dlq \<Rightarrow> outcome \<times> dlq" where
  "replay_finish max_failures now n result q =
     (case result of
        None \<Rightarrow> (Outcome_replayed, mark_replayed now n q)
      | Some error \<Rightarrow> (let (quarantined, q') = record_replay_failure max_failures n error q
                       in (if quarantined then Outcome_quarantined error else Outcome_failed error, q')))"

definition replay ::
    "(string \<Rightarrow> 'j option) \<Rightarrow> int \<Rightarrow> time \<Rightarrow> nat \<Rightarrow> ('j raw_record \<Rightarrow> string option) \<Rightarrow> dlq \<Rightarrow> outcome \<times> dlq" where
  "replay loads max_failures now n handler q =
     (case replay_start loads n q of
        Inl skipped \<Rightarrow> (skipped, q)
      | Inr record \<Rightarrow> replay_finish max_failures now n (handler record) q)"

definition dlq_stats :: "time \<Rightarrow> dlq \<Rightarrow> nat \<times> nat \<times> time" where
  "dlq_stats now q =
     (let pending = sql_select (\<lambda>e. dq_status e = Pending) (dl_entries q)
      in (length pending, sql_rowcount (\<lambda>e. dq_status e = Quarantined) (dl_entries q),
          if pending = [] then 0 else max 0 (now - Min (set (map dq_created pending)))))"

subsection \<open>The life of an entry\<close>

datatype 'j dlq_op =
    Push time string dlq_class string string
  | Quarantine time string dlq_class string string
  | Replay time nat "'j raw_record \<Rightarrow> string option"

fun dlq_step :: "(string \<Rightarrow> 'j option) \<Rightarrow> int \<Rightarrow> 'j dlq_op \<Rightarrow> dlq \<Rightarrow> dlq" where
  "dlq_step loads mx (Push now source cls message raw) q = snd (push now source cls message raw q)"
| "dlq_step loads mx (Quarantine now source cls message raw) q = snd (quarantine now source cls message raw q)"
| "dlq_step loads mx (Replay now n handler) q = snd (replay loads mx now n handler q)"

text \<open>A pending entry stays below the limit; what is stored of the record never changes; attempts are failures plus, for a replayed
  entry, the one success.\<close>

definition entry_ok :: "int \<Rightarrow> dlq_entry \<Rightarrow> bool" where
  "entry_ok mx e \<longleftrightarrow>
     (dq_status e = Pending \<or> dq_status e = Replayed \<longrightarrow> dq_failures e = 0 \<or> int (dq_failures e) < mx) \<and>
     (dq_failures e \<le> 1 \<or> int (dq_failures e) \<le> mx) \<and>
     dq_retry_count e = dq_failures e + (if dq_status e = Replayed then 1 else 0) \<and>
     (dq_status e = Replayed \<longleftrightarrow> dq_replayed_at e \<noteq> None)"

definition alerts_of :: "nat \<Rightarrow> dlq \<Rightarrow> nat" where
  "alerts_of n q = length (filter (\<lambda>a. dq_id (fst a) = n) (dl_alerts q))"

definition dlq_inv :: "int \<Rightarrow> dlq \<Rightarrow> bool" where
  "dlq_inv mx q \<longleftrightarrow> ids_ok dq_id (dl_entries q) \<and>
     (\<forall>n. case get_entry n q of
        None \<Rightarrow> alerts_of n q = 0
      | Some e \<Rightarrow> entry_ok mx e \<and> alerts_of n q = (if dq_status e = Quarantined then 1 else 0))"

definition dlq_edge :: "dlq_entry \<Rightarrow> dlq_entry \<Rightarrow> bool" where
  "dlq_edge e e' \<longleftrightarrow> dq_status e = Pending \<and> dq_status e' \<noteq> Dead \<and> dq_failures e \<le> dq_failures e' \<and> dq_id e' = dq_id e \<and>
     dq_source e' = dq_source e \<and> dq_class e' = dq_class e \<and> dq_message e' = dq_message e \<and> dq_raw e' = dq_raw e \<and> dq_created e' = dq_created e"


lemma get_entry_id: "get_entry n q = Some e \<Longrightarrow> dq_id e = n"
  by (auto simp: get_entry_def dest: sql_fetchone_SomeD)

lemma get_updated:
  assumes "\<And>e. dq_id (f e) = dq_id e"
  shows "get_entry m (update_entry n f q) = (if m = n then map_option f (get_entry n q) else get_entry m q)"
  using dq_rows.fetch_updated [of f, OF assms] by (simp add: get_entry_def update_entry_def)

lemma update_entry_simps [simp]: "dl_alerts (update_entry n f q) = dl_alerts q"
  by (simp add: update_entry_def)

lemma alerts_updated [simp]: "alerts_of m (update_entry n f q) = alerts_of m q"
  by (simp add: alerts_of_def)

lemma ids_updated: "(\<And>e. dq_id (f e) = dq_id e) \<Longrightarrow> ids_ok dq_id (dl_entries q) \<Longrightarrow> ids_ok dq_id (dl_entries (update_entry n f q))"
  by (simp add: update_entry_def dq_rows.ids_ok_update)

lemma get_pushed:
  assumes "ids_ok dq_id (dl_entries q)"
  shows "get_entry m (snd (push now source cls message raw q)) =
    (if m = Suc (tseq (dl_entries q)) then Some (new_entry (source, cls, message, raw, now) (Suc (tseq (dl_entries q)))) else get_entry m q)"
  using assms dq_rows.fetch_inserted [of "dl_entries q" "(source, cls, message, raw, now)"]
    dq_rows.fetch_other_inserted [of m "dl_entries q" "(source, cls, message, raw, now)"]
  by (simp add: get_entry_def push_def Let_def)

lemma no_entry_beyond: "ids_ok dq_id (dl_entries q) \<Longrightarrow> get_entry (Suc (tseq (dl_entries q))) q = None"
  by (auto simp: get_entry_def sql_fetchone_None ids_ok_def)

lemma alerts_pushed [simp]: "alerts_of m (snd (push now source cls message raw q)) = alerts_of m q"
  by (simp add: alerts_of_def push_def Let_def)

lemma ids_pushed: "ids_ok dq_id (dl_entries q) \<Longrightarrow> ids_ok dq_id (dl_entries (snd (push now source cls message raw q)))"
  by (simp add: push_def Let_def dq_rows.ids_ok_insert)

lemma alerts_raised: "alerts_of m (on_quarantined (Some e) error q) = alerts_of m q + (if dq_id e = m then 1 else 0)"
  by (simp add: alerts_of_def on_quarantined_def)

lemma get_raised [simp]: "get_entry m (on_quarantined e error q) = get_entry m q" "dl_entries (on_quarantined e error q) = dl_entries q"
  by (simp_all add: get_entry_def on_quarantined_def split: option.split)

lemma invD:
  assumes "dlq_inv mx q"
  shows "ids_ok dq_id (dl_entries q)"
    and "get_entry n q = None \<Longrightarrow> alerts_of n q = 0"
    and "get_entry n q = Some e \<Longrightarrow> entry_ok mx e"
    and "get_entry n q = Some e \<Longrightarrow> alerts_of n q = (if dq_status e = Quarantined then 1 else 0)"
  using assms unfolding dlq_inv_def by (auto dest!: spec [of _ n] split: option.splits)

text \<open>Every operation writes one entry, and raises an alert exactly when that quarantines it.\<close>

lemma inv_pointwise:
  assumes "dlq_inv mx q" "ids_ok dq_id (dl_entries q')"
    and "\<And>m. get_entry m q' = (if m = n then Some e' else get_entry m q)"
    and "\<And>m. alerts_of m q' = alerts_of m q + (if m = n \<and> dq_status e' = Quarantined then 1 else 0)"
    and "entry_ok mx e'" "alerts_of n q = 0"
  shows "dlq_inv mx q'"
  unfolding dlq_inv_def using assms(2,5,6) invD [OF assms(1)] by (auto simp: assms(3,4) split: option.split)

lemma push_inv:
  assumes "dlq_inv mx q"
  shows "dlq_inv mx (snd (push now source cls message raw q))"
proof -
  note ids = invD(1) [OF assms]
  show ?thesis
    by (rule inv_pointwise [OF assms ids_pushed [OF ids] get_pushed [OF ids]])
      (simp_all add: new_entry_def entry_ok_def invD(2) [OF assms no_entry_beyond [OF ids]])
qed

lemma push_id: "fst (push now source cls message raw q) = Suc (tseq (dl_entries q))"
  by (simp add: push_def Let_def last_insert_rowid_def table_simps)

lemma quarantine_entries:
  fixes q :: dlq
  assumes "dlq_inv mx q"
  defines "n \<equiv> Suc (tseq (dl_entries q))"
  shows "get_entry m (snd (quarantine now source cls message raw q)) =
      (if m = n then Some ((new_entry (source, cls, message, raw, now) n)\<lparr>dq_status := Quarantined, dq_last_error := Some message\<rparr>)
       else get_entry m q)"
    and "alerts_of m (snd (quarantine now source cls message raw q)) = alerts_of m q + (if m = n then 1 else 0)"
    and "ids_ok dq_id (dl_entries (snd (quarantine now source cls message raw q)))"
proof -
  have ids: "ids_ok dq_id (dl_entries q)" using assms(1) by (simp add: dlq_inv_def)
  let ?f = "\<lambda>e. e\<lparr>dq_status := Quarantined, dq_last_error := Some message\<rparr>"
  let ?q2 = "update_entry n ?f (snd (push now source cls message raw q))"
  have g: "get_entry m ?q2 = (if m = n then Some (?f (new_entry (source, cls, message, raw, now) n)) else get_entry m q)" for m
    by (simp add: get_updated get_pushed [OF ids] n_def)
  have q: "snd (quarantine now source cls message raw q) = on_quarantined (get_entry n ?q2) message ?q2"
    using push_id [of now source cls message raw q]
    by (cases "push now source cls message raw q") (simp add: quarantine_def Let_def n_def)
  show "get_entry m (snd (quarantine now source cls message raw q)) =
      (if m = n then Some (?f (new_entry (source, cls, message, raw, now) n)) else get_entry m q)"
    unfolding q by (simp add: g)
  show "alerts_of m (snd (quarantine now source cls message raw q)) = alerts_of m q + (if m = n then 1 else 0)"
    unfolding q by (auto simp: g alerts_raised new_entry_def)
  show "ids_ok dq_id (dl_entries (snd (quarantine now source cls message raw q)))"
    unfolding q by (simp add: ids_updated ids_pushed ids)
qed

lemma quarantine_inv:
  assumes "dlq_inv mx q"
  shows "dlq_inv mx (snd (quarantine now source cls message raw q))"
  by (rule inv_pointwise [OF assms quarantine_entries(3) [OF assms] quarantine_entries(1) [OF assms]])
    (simp_all add: quarantine_entries(2) [OF assms] new_entry_def entry_ok_def
      invD(2) [OF assms no_entry_beyond [OF invD(1) [OF assms]]])

text \<open>A replay that runs the handler changes its own entry, along the edge, and counts one attempt.\<close>

definition after_failure :: "int \<Rightarrow> string \<Rightarrow> dlq_entry \<Rightarrow> dlq_entry" where
  "after_failure mx error e = e\<lparr>dq_failures := dq_failures e + 1, dq_retry_count := dq_retry_count e + 1, dq_last_error := Some error,
     dq_status := (if mx \<le> int (dq_failures e + 1) then Quarantined else dq_status e)\<rparr>"

lemma failure_entries:
  assumes "get_entry n q = Some e"
  shows "get_entry m (snd (record_replay_failure mx n error q)) = (if m = n then Some (after_failure mx error e) else get_entry m q)"
    and "alerts_of m (snd (record_replay_failure mx n error q)) =
       alerts_of m q + (if m = n \<and> dq_status (after_failure mx error e) = Quarantined then 1 else 0)"
    and "ids_ok dq_id (dl_entries q) \<Longrightarrow> ids_ok dq_id (dl_entries (snd (record_replay_failure mx n error q)))"
proof -
  let ?q1 = "update_entry n (after_failure mx error) q"
  have keep: "dq_id (after_failure mx error e) = dq_id e" for e by (simp add: after_failure_def)
  have g: "get_entry m ?q1 = (if m = n then Some (after_failure mx error e) else get_entry m q)" for m
    by (simp add: get_updated [OF keep] assms)
  have r: "snd (record_replay_failure mx n error q) =
      (if dq_status (after_failure mx error e) \<noteq> Quarantined then ?q1 else on_quarantined (Some (after_failure mx error e)) error ?q1)"
    using g [of n] by (simp add: record_replay_failure_def Let_def after_failure_def [abs_def])
  show "get_entry m (snd (record_replay_failure mx n error q)) = (if m = n then Some (after_failure mx error e) else get_entry m q)"
    unfolding r by (simp add: g)
  show "alerts_of m (snd (record_replay_failure mx n error q)) =
       alerts_of m q + (if m = n \<and> dq_status (after_failure mx error e) = Quarantined then 1 else 0)"
    unfolding r using get_entry_id [OF assms] by (auto simp: alerts_raised keep)
  show "ids_ok dq_id (dl_entries (snd (record_replay_failure mx n error q)))" if "ids_ok dq_id (dl_entries q)"
    unfolding r using ids_updated [OF keep that] by simp
qed

lemma failure_keeps [simp]: "dq_id (after_failure mx error e) = dq_id e" "dq_raw (after_failure mx error e) = dq_raw e"
    "dq_source (after_failure mx error e) = dq_source e" "dq_class (after_failure mx error e) = dq_class e"
    "dq_message (after_failure mx error e) = dq_message e" "dq_created (after_failure mx error e) = dq_created e"
    "dq_failures (after_failure mx error e) = Suc (dq_failures e)" "dq_retry_count (after_failure mx error e) = Suc (dq_retry_count e)"
    "dq_replayed_at (after_failure mx error e) = dq_replayed_at e"
  by (simp_all add: after_failure_def)

definition after_success :: "time \<Rightarrow> dlq_entry \<Rightarrow> dlq_entry" where
  "after_success now e = e\<lparr>dq_status := Replayed, dq_replayed_at := Some now, dq_retry_count := dq_retry_count e + 1\<rparr>"

lemma replayed_entries:
  assumes "get_entry n q = Some e"
  shows "get_entry m (mark_replayed now n q) = (if m = n then Some (after_success now e) else get_entry m q)"
    and "alerts_of m (mark_replayed now n q) = alerts_of m q"
    and "ids_ok dq_id (dl_entries q) \<Longrightarrow> ids_ok dq_id (dl_entries (mark_replayed now n q))"
  using assms by (simp_all add: mark_replayed_def get_updated after_success_def [abs_def] ids_updated)

lemma failure_inv:
  assumes q: "dlq_inv mx q" and e: "get_entry n q = Some e" "dq_status e = Pending"
  shows "dlq_inv mx (snd (record_replay_failure mx n error q))"
proof (rule inv_pointwise [OF q failure_entries(3) [OF e(1) invD(1) [OF q]] failure_entries(1) [OF e(1)]
    failure_entries(2) [OF e(1)]])
  show "entry_ok mx (after_failure mx error e)"
    using invD(3) [OF q e(1)] e(2) by (auto simp: entry_ok_def after_failure_def)
  show "alerts_of n q = 0" using invD(4) [OF q e(1)] e(2) by simp
qed

lemma success_inv:
  assumes q: "dlq_inv mx q" and e: "get_entry n q = Some e" "dq_status e = Pending"
  shows "dlq_inv mx (mark_replayed now n q)"
proof (rule inv_pointwise [OF q replayed_entries(3) [OF e(1) invD(1) [OF q]] replayed_entries(1) [OF e(1)]])
  show "entry_ok mx (after_success now e)"
    using invD(3) [OF q e(1)] e(2) by (auto simp: entry_ok_def after_success_def)
  show "alerts_of n q = 0" using invD(4) [OF q e(1)] e(2) by simp
qed (simp add: replayed_entries(2) [OF e(1)] after_success_def)

lemma replay_cases:
  obtains (skipped) status where "replay loads mx now n handler q = (Outcome_skipped status, q)"
      "\<And>e. get_entry n q = Some e \<Longrightarrow> dq_status e \<noteq> Pending"
  | (replayed) e where "get_entry n q = Some e" "dq_status e = Pending" "handler (decode_record loads (dq_raw e)) = None"
      "replay loads mx now n handler q = (Outcome_replayed, mark_replayed now n q)"
  | (failed) e error where "get_entry n q = Some e" "dq_status e = Pending" "handler (decode_record loads (dq_raw e)) = Some error"
      "replay loads mx now n handler q =
        (if fst (record_replay_failure mx n error q) then Outcome_quarantined error else Outcome_failed error,
         snd (record_replay_failure mx n error q))"
proof (cases "replay_start loads n q")
  case (Inl skipped)
  then show ?thesis
    by (auto simp: replay_def replay_start_def intro: that(1) split: option.splits if_splits)
next
  case (Inr r)
  then obtain e where e: "get_entry n q = Some e" "dq_status e = Pending" "r = decode_record loads (dq_raw e)"
    by (auto simp: replay_start_def split: option.splits if_splits)
  show ?thesis
  proof (cases "handler r")
    case None
    then show ?thesis using that(2) [OF e(1,2)] e(3) Inr by (simp add: replay_def replay_finish_def)
  next
    case (Some error)
    then show ?thesis using that(3) [OF e(1,2), of error] e(3) Inr
      by (simp add: replay_def replay_finish_def split: prod.split)
  qed
qed

lemma replay_inv:
  assumes q: "dlq_inv mx q"
  shows "dlq_inv mx (snd (replay loads mx now n handler q))"
proof (cases rule: replay_cases [of loads mx now n handler q])
  case (replayed e)
  then show ?thesis using success_inv [OF q] by simp
next
  case (failed e error)
  then show ?thesis using failure_inv [OF q] by simp
qed (simp add: q)

lemma dlq_step_inv: "dlq_inv mx q \<Longrightarrow> dlq_inv mx (dlq_step loads mx op q)"
  by (cases op) (simp_all add: push_inv quarantine_inv replay_inv)

lemma dlq_step_row:
  assumes q: "dlq_inv mx q" and e: "get_entry k q = Some e"
  shows "\<exists>e'. get_entry k (dlq_step loads mx op q) = Some e' \<and> (e' = e \<or> dlq_edge e e')"
proof -
  have new: "k \<noteq> Suc (tseq (dl_entries q))" using no_entry_beyond [OF invD(1) [OF q]] e by auto
  show ?thesis
  proof (cases op)
    case (Push now source cls message raw)
    then show ?thesis using new e by (simp add: get_pushed [OF invD(1) [OF q]])
  next
    case (Quarantine now source cls message raw)
    then show ?thesis using new e by (simp add: quarantine_entries(1) [OF q])
  next
    case (Replay now n handler)
    show ?thesis unfolding Replay dlq_step.simps
    proof (cases rule: replay_cases [of loads mx now n handler q])
      case (replayed e1)
      then show "\<exists>e'. get_entry k (snd (replay loads mx now n handler q)) = Some e' \<and> (e' = e \<or> dlq_edge e e')"
        using e by (auto simp: replayed_entries(1) [OF replayed(1)] dlq_edge_def after_success_def)
    next
      case (failed e1 error)
      then show "\<exists>e'. get_entry k (snd (replay loads mx now n handler q)) = Some e' \<and> (e' = e \<or> dlq_edge e e')"
        using e by (auto simp: failure_entries(1) [OF failed(1)] dlq_edge_def after_failure_def)
    qed (use e in simp)
  qed
qed

interpretation dq_life: lifecycle "dlq_inv mx" "\<lambda>q n. get_entry n q" dlq_edge "dlq_step loads mx" for loads :: "string \<Rightarrow> 'j option" and mx
  by unfold_locales (simp_all add: dlq_step_inv dlq_step_row)

text \<open>The runs of the handler on one entry, over a sequence of operations.\<close>

definition runs_handler :: "(string \<Rightarrow> 'j option) \<Rightarrow> nat \<Rightarrow> 'j dlq_op \<Rightarrow> dlq \<Rightarrow> nat" where
  "runs_handler loads n op q =
     (case op of Replay now m handler \<Rightarrow> (case replay_start loads m q of Inr r \<Rightarrow> if m = n then 1 else 0 | Inl skipped \<Rightarrow> 0) | _ \<Rightarrow> 0)"

fun handler_runs :: "(string \<Rightarrow> 'j option) \<Rightarrow> int \<Rightarrow> nat \<Rightarrow> 'j dlq_op list \<Rightarrow> dlq \<Rightarrow> nat" where
  "handler_runs loads mx n [] q = 0"
| "handler_runs loads mx n (op # ops) q = runs_handler loads n op q + handler_runs loads mx n ops (dlq_step loads mx op q)"

definition attempts :: "nat \<Rightarrow> dlq \<Rightarrow> nat" where
  "attempts n q = (case get_entry n q of None \<Rightarrow> 0 | Some e \<Rightarrow> dq_retry_count e)"

lemma attempts_bound: "dlq_inv mx q \<Longrightarrow> attempts n q \<le> nat (max 1 mx)"
  using invD(3) [of mx q n] by (auto simp: attempts_def entry_ok_def split: option.split if_splits)

lemma replay_attempts:
  "attempts n (snd (replay loads mx now m handler q)) =
     attempts n q + (case replay_start loads m q of Inr r \<Rightarrow> if m = n then 1 else 0 | Inl skipped \<Rightarrow> 0)"
proof (cases rule: replay_cases [of loads mx now m handler q])
  case (skipped status)
  then show ?thesis by (auto simp: replay_start_def split: option.split)
next
  case (replayed e)
  then show ?thesis
    by (auto simp: replay_start_def attempts_def replayed_entries(1) [OF replayed(1)] after_success_def)
next
  case (failed e error)
  then show ?thesis
    by (auto simp: replay_start_def attempts_def failure_entries(1) [OF failed(1)])
qed

lemma step_attempts:
  assumes "dlq_inv mx q"
  shows "attempts n (dlq_step loads mx op q) = attempts n q + runs_handler loads n op q"
proof (cases op)
  case (Replay now m handler)
  then show ?thesis by (simp only: dlq_step.simps replay_attempts runs_handler_def dlq_op.case)
next
  case (Push now source cls message raw)
  then show ?thesis using no_entry_beyond [OF invD(1) [OF assms]]
    by (simp add: runs_handler_def attempts_def get_pushed [OF invD(1) [OF assms]] new_entry_def)
next
  case (Quarantine now source cls message raw)
  then show ?thesis using no_entry_beyond [OF invD(1) [OF assms]]
    by (simp add: runs_handler_def attempts_def quarantine_entries(1) [OF assms] new_entry_def)
qed

lemma run_attempts:
  "dlq_inv mx q \<Longrightarrow> attempts n (fold (dlq_step loads mx) ops q) = attempts n q + handler_runs loads mx n ops q"
  by (induction ops arbitrary: q) (simp_all add: step_attempts dlq_step_inv)

definition empty_dlq :: dlq where
  "empty_dlq = \<lparr>dl_entries = empty_table, dl_alerts = []\<rparr>"

lemma empty_dlq_inv: "dlq_inv mx empty_dlq"
  by (simp add: dlq_inv_def empty_dlq_def get_entry_def sql_fetchone_def sql_select_def empty_table_def alerts_of_def ids_ok_def)

definition dlq_run :: "(string \<Rightarrow> 'j option) \<Rightarrow> int \<Rightarrow> 'j dlq_op list \<Rightarrow> dlq \<Rightarrow> dlq" where
  "dlq_run loads mx ops q = fold (dlq_step loads mx) ops q"


text \<open>Two workers replaying one entry at once: both see it pending, both run the handler, and both raise the alert.\<close>

lemma concurrent_replays_alert_twice:
  fixes q :: dlq and mx :: int and now :: time and n :: nat and err1 err2 :: string
  assumes e: "get_entry n q = Some e" "dq_status e = Pending" and limit: "mx \<le> int (dq_failures e + 1)"
  defines "q1 \<equiv> snd (replay_finish mx now n (Some err1) q)"
  defines "q2 \<equiv> snd (replay_finish mx now n (Some err2) q1)"
  shows "replay_start loads n q = Inr (decode_record loads (dq_raw e))" "alerts_of n q2 = alerts_of n q + 2"
proof -
  show "replay_start loads n q = Inr (decode_record loads (dq_raw e))" using e by (simp add: replay_start_def)
  have q1: "q1 = snd (record_replay_failure mx n err1 q)" "q2 = snd (record_replay_failure mx n err2 q1)"
    by (simp_all add: q1_def q2_def replay_finish_def split: prod.split)
  have e1: "get_entry n q1 = Some (after_failure mx err1 e)" by (simp add: q1 failure_entries(1) [OF e(1)])
  show "alerts_of n q2 = alerts_of n q + 2"
    unfolding q1(2) failure_entries(2) [OF e1] unfolding q1(1) failure_entries(2) [OF e(1)]
    using limit by (simp add: after_failure_def)
qed

text \<open>What a replay hands to the handler: the record that was pushed, except that a text which is JSON comes back parsed.\<close>

lemma record_roundtrip:
  "loads (dumps j) = Some j \<Longrightarrow> decode_record loads (encode_record dumps (Data j)) = Data j"
  "decode_record loads (encode_record dumps (Text s)) = (case loads s of None \<Rightarrow> Text s | Some j \<Rightarrow> Data j)"
  by (simp_all add: decode_record_def encode_record_def)

text \<open>Between the insert and the update of \<open>quarantine\<close>, the record is pending: a crash there leaves it to be replayed.\<close>

lemma quarantine_crash_leaves_pending:
  assumes "dlq_inv mx q"
  shows "replay_start loads (fst (push now source cls message raw q)) (snd (push now source cls message raw q)) =
    Inr (decode_record loads raw)"
  by (simp add: replay_start_def push_id get_pushed [OF invD(1) [OF assms]] new_entry_def)

end
