(* ===== verification/Soroban_Publisher.thy ===== *)
theory Soroban_Publisher
  imports LL_Prelude
begin

text \<open>
  Publishing scores on chain (\<open>detection/soroban_publisher.py\<close>, with \<open>save_submission\<close> of \<open>detection/storage.py\<close>, the step of
  \<open>run_pipeline.py\<close> that submits a batch, and the \<open>dlq-replay\<close> command): the circuit breaker, one submission with its retry, the
  audit row and the dead letter it leaves. The Soroban RPC server is an argument: its replies to one submission are a value of
  \<open>rpc\<close>, read in the order the code asks. The lease and the building of the commitment bundle are arguments as well
  (theories \<open>Lease\<close>, \<open>Zk_Proof\<close>). Clocks are arguments; metrics and logging are left out.
\<close>

subsection \<open>The circuit\<close>

datatype circuit = Circuit_closed | Circuit_open | Circuit_half_open

record publisher =
  sp_state :: circuit
  sp_failures :: nat
  sp_last_error :: "string option"
  sp_opened_at :: "rat option"
  sp_failure_times :: "rat list"

record publisher_config =
  pc_threshold :: nat
  pc_reset :: rat
  pc_dlq_max :: int

definition new_publisher :: publisher where
  "new_publisher = \<lparr>sp_state = Circuit_closed, sp_failures = 0, sp_last_error = None, sp_opened_at = None, sp_failure_times = []\<rparr>"

text \<open>The result: whether the call may go on, and the circuit after the check.\<close>

definition check_circuit :: "publisher_config \<Rightarrow> rat \<Rightarrow> publisher \<Rightarrow> bool \<times> publisher" where
  "check_circuit cfg clock p =
     (case sp_state p of
        Circuit_closed \<Rightarrow> (True, p)
      | Circuit_half_open \<Rightarrow> (True, p)
      | Circuit_open \<Rightarrow>
          (case sp_opened_at p of
             Some t \<Rightarrow> if pc_reset cfg \<le> clock - t then (True, p\<lparr>sp_state := Circuit_half_open\<rparr>) else (False, p)
           | None \<Rightarrow> (False, p)))"

definition circuit_message :: "publisher \<Rightarrow> string" where
  "circuit_message p = ''Circuit breaker open: '' @ str_nat (sp_failures p) @ '' consecutive failures''"

definition record_failure :: "publisher_config \<Rightarrow> rat \<Rightarrow> rat \<Rightarrow> string \<Rightarrow> publisher \<Rightarrow> publisher" where
  "record_failure cfg wall clock error p =
     (let p1 = p\<lparr>sp_failures := sp_failures p + 1, sp_last_error := (if error = '''' then sp_last_error p else Some error),
                 sp_failure_times := sp_failure_times p @ [wall]\<rparr>
      in if sp_state p1 = Circuit_half_open then p1\<lparr>sp_state := Circuit_open, sp_opened_at := Some clock\<rparr>
         else if pc_threshold cfg \<le> sp_failures p1 then p1\<lparr>sp_state := Circuit_open, sp_opened_at := Some clock\<rparr>
         else p1)"

definition record_success :: "publisher \<Rightarrow> publisher" where
  "record_success p =
     p\<lparr>sp_state := (if sp_state p = Circuit_half_open then Circuit_closed else sp_state p),
       sp_failures := 0, sp_last_error := None, sp_opened_at := None\<rparr>"

definition reset_circuit :: "publisher \<Rightarrow> publisher" where
  "reset_circuit p = p\<lparr>sp_state := Circuit_closed, sp_failures := 0, sp_last_error := None, sp_opened_at := None, sp_failure_times := []\<rparr>"

subsection \<open>One transaction\<close>

record onchain_score =
  sc_wallet :: string
  sc_pair :: string
  sc_score :: int
  sc_time :: time
  sc_version :: string

record zk_bundle =
  zb_commitment :: string
  zb_x :: int
  zb_y :: int

datatype scval = Address string | Symbol string | U32 int | U64 int | U256 int | Str string | Bool bool | Bytes string | Smap "(string \<times> scval) list" | Vec "scval list"

definition score_params :: "onchain_score \<Rightarrow> zk_bundle option \<Rightarrow> scval list" where
  "score_params s bundle =
     [Address (sc_wallet s), Symbol (sc_pair s), U32 (max 0 (min 100 (sc_score s))), U64 (sc_time s div 1000000), Str (sc_version s)] @
     (case bundle of None \<Rightarrow> [] | Some z \<Rightarrow> [Str (zb_commitment z), U256 (zb_x z), U256 (zb_y z)])"

text \<open>What the RPC server answers to one submission: every request may raise instead.\<close>

datatype 'a reply = Reply 'a | Raised string

datatype send_reply = Send_error string | Sent string

datatype poll_reply = Tx_success | Tx_failed string string | Tx_pending

record rpc =
  rpc_prepare :: "unit reply"
  rpc_simulate :: "(string \<times> int) reply"
  rpc_send :: "send_reply reply"
  rpc_polls :: "nat \<Rightarrow> poll_reply reply"

text \<open>A transaction that left the process: the function, its arguments, the fee and the hash.\<close>

type_synonym sent_tx = "string \<times> scval list \<times> int \<times> string"

fun await_tx :: "string \<Rightarrow> poll_reply reply list \<Rightarrow> string + string" where
  "await_tx h [] = Inl ''timeout: polling exceeded 30 attempts''"
| "await_tx h (Reply Tx_success # ps) = Inr h"
| "await_tx h (Reply (Tx_failed xdr err) # ps) = Inl (if xdr \<noteq> '''' then xdr else if err \<noteq> '''' then err else ''execution failed'')"
| "await_tx h (Reply Tx_pending # ps) = await_tx h ps"
| "await_tx h (Raised e # ps) = Inl e"

definition invoke_contract :: "string \<Rightarrow> scval list \<Rightarrow> rat \<Rightarrow> rpc \<Rightarrow> sent_tx list \<times> (string + string)" where
  "invoke_contract fn params mult rpc =
     (case rpc_prepare rpc of
        Raised e \<Rightarrow> ([], Inl e)
      | Reply _ \<Rightarrow>
     (case rpc_simulate rpc of
        Raised e \<Rightarrow> ([], Inl e)
      | Reply (err, min_fee) \<Rightarrow>
          if err \<noteq> '''' then ([], Inl err)
          else
     (case rpc_send rpc of
        Raised e \<Rightarrow> ([], Inl e)
      | Reply (Send_error e) \<Rightarrow> ([], Inl (if e \<noteq> '''' then e else ''send failed''))
      | Reply (Sent h) \<Rightarrow> ([(fn, params, \<lfloor>of_int min_fee * mult\<rfloor>, h)], await_tx h (map (rpc_polls rpc) [0..<30])))))"

definition submit_once :: "onchain_score \<Rightarrow> rat \<Rightarrow> zk_bundle option \<Rightarrow> rpc \<Rightarrow> sent_tx list \<times> (string + string)" where
  "submit_once s mult bundle rpc = invoke_contract ''submit_score'' (score_params s bundle) mult rpc"

definition auth_failed :: "string \<Rightarrow> bool" where
  "auth_failed e \<longleftrightarrow> mentions ''auth'' (lower e) \<and> mentions ''failed'' (lower e)"

text \<open>The fee factor of a second attempt, where an error allows one.\<close>

definition retry_multiplier :: "string \<Rightarrow> rat option" where
  "retry_multiplier e =
     (if mentions ''bad_seq'' (lower e) then Some 1
      else if mentions ''insufficient_fee'' (lower e) then Some (3 / 2)
      else if mentions ''timeout'' (lower e) then Some 1
      else None)"

definition final_error :: "string \<Rightarrow> string" where
  "final_error e = (if e \<noteq> '''' then e else ''Submission failed after retries'')"

definition execute_with_retries ::
    "onchain_score \<Rightarrow> zk_bundle option \<Rightarrow> rpc \<Rightarrow> rpc \<Rightarrow> sent_tx list \<times> (string + string)" where
  "execute_with_retries s bundle rpc1 rpc2 =
     (case submit_once s 1 bundle rpc1 of
        (sent1, Inr h) \<Rightarrow> (sent1, Inr h)
      | (sent1, Inl e) \<Rightarrow>
          if auth_failed e then (sent1, Inl e)
          else (case retry_multiplier e of
              None \<Rightarrow> (sent1, Inl (final_error e))
            | Some mult \<Rightarrow>
                (case submit_once s mult bundle rpc2 of
                   (sent2, Inr h) \<Rightarrow> (sent1 @ sent2, Inr h)
                 | (sent2, Inl e2) \<Rightarrow> (sent1 @ sent2, Inl (final_error e2)))))"

subsection \<open>The audit table and the dead letters\<close>

datatype sub_status = Submitted | Skipped | Failed

record onchain_row =
  sr_id :: nat
  sr_wallet :: string
  sr_pair :: string
  sr_score :: int
  sr_tx :: "string option"
  sr_status :: sub_status
  sr_error :: "string option"
  sr_proof_system :: string
  sr_at :: time

datatype letter_status = Letter_pending | Letter_replayed | Letter_failed

record letter =
  dl_id :: nat
  dl_wallet :: string
  dl_pair :: string
  dl_score :: int
  dl_ledger_time :: int
  dl_error :: "string option"
  dl_status :: letter_status
  dl_created :: time
  dl_replayed_at :: "time option"
  dl_tx :: "string option"

text \<open>The database, and the transactions that were sent.\<close>

record world =
  on_chain_submissions :: "onchain_row table"
  dead_letters :: "letter table"
  chain :: "sent_tx list"

definition onchain_row_of :: "string \<times> string \<times> int \<times> sub_status \<times> string option \<times> string option \<times> string \<times> time \<Rightarrow> nat \<Rightarrow> onchain_row" where
  "onchain_row_of x n = (case x of (wallet, pair, score, status, tx, error, proof_system, now) \<Rightarrow>
     \<lparr>sr_id = n, sr_wallet = wallet, sr_pair = pair, sr_score = score, sr_tx = tx, sr_status = status, sr_error = error,
      sr_proof_system = proof_system, sr_at = now\<rparr>)"

interpretation sub_rows: autoinc_rows sr_id onchain_row_of
  by unfold_locales (simp add: onchain_row_of_def split: prod.splits)

definition save_submission ::
    "string \<Rightarrow> time \<Rightarrow> string \<Rightarrow> string \<Rightarrow> int \<Rightarrow> sub_status \<Rightarrow> string option \<Rightarrow> string option \<Rightarrow> world \<Rightarrow> world" where
  "save_submission proof_system now wallet pair score status tx error w =
     w\<lparr>on_chain_submissions := sql_insert (onchain_row_of (wallet, pair, score, status, tx, error, proof_system, now)) (on_chain_submissions w)\<rparr>"

definition new_letter :: "string \<times> string \<times> int \<times> int \<times> string \<times> time \<Rightarrow> nat \<Rightarrow> letter" where
  "new_letter x n = (case x of (wallet, pair, score, ledger_time, error, now) \<Rightarrow>
     \<lparr>dl_id = n, dl_wallet = wallet, dl_pair = pair, dl_score = score, dl_ledger_time = ledger_time, dl_error = Some error,
      dl_status = Letter_pending, dl_created = now div 1000000 * 1000000, dl_replayed_at = None, dl_tx = None\<rparr>)"

interpretation letter_rows: autoinc_rows dl_id new_letter
  by unfold_locales (simp add: new_letter_def split: prod.splits)

definition oldest_letters :: "int \<Rightarrow> letter table \<Rightarrow> letter list" where
  "oldest_letters n t = sql_limit n (sort_key dl_created (trows t))"

definition write_dead_letter :: "publisher_config \<Rightarrow> time \<Rightarrow> string \<Rightarrow> string \<Rightarrow> int \<Rightarrow> int \<Rightarrow> string \<Rightarrow> world \<Rightarrow> world" where
  "write_dead_letter cfg now wallet pair score timestamp error w =
     (let t = sql_insert (new_letter (wallet, pair, score, timestamp, error, now)) (dead_letters w);
          count = int (length (trows t));
          t' = (if pc_dlq_max cfg < count
                then let old = map dl_id (oldest_letters (count - pc_dlq_max cfg) t) in sql_delete (\<lambda>r. dl_id r \<in> set old) t
                else t)
      in w\<lparr>dead_letters := t'\<rparr>)"

definition get_dlq_pending_count :: "world \<Rightarrow> nat" where
  "get_dlq_pending_count w = sql_rowcount (\<lambda>r. dl_status r = Letter_pending) (dead_letters w)"

definition get_dlq_entries :: "letter_status option \<Rightarrow> int \<Rightarrow> int \<Rightarrow> world \<Rightarrow> letter list \<times> nat" where
  "get_dlq_entries status page page_size w =
     (let matches = (\<lambda>r. case status of None \<Rightarrow> True | Some s \<Rightarrow> dl_status r = s)
      in (sql_limit page_size (drop (nat ((page - 1) * page_size)) (sort_key dl_created (sql_select matches (dead_letters w)))),
          sql_rowcount matches (dead_letters w)))"

record health =
  h_state :: circuit
  h_failures :: nat
  h_last_error :: "string option"
  h_opened_at :: "rat option"
  h_until_reset :: "rat option"
  h_pending :: nat

definition health_of :: "publisher_config \<Rightarrow> rat \<Rightarrow> rat \<Rightarrow> publisher \<Rightarrow> world \<Rightarrow> health" where
  "health_of cfg wall clock p w =
     (let opened = (if sp_state p \<noteq> Circuit_closed then sp_opened_at p else None)
      in \<lparr>h_state = sp_state p, h_failures = sp_failures p, h_last_error = sp_last_error p,
          h_opened_at = map_option (\<lambda>t. wall - (clock - t)) opened,
          h_until_reset = map_option (\<lambda>t. max 0 (pc_reset cfg - (clock - t))) opened,
          h_pending = get_dlq_pending_count w\<rparr>)"

subsection \<open>Submitting\<close>

text \<open>What one call meets: the lease, the clocks before and after, the replies to its two attempts.\<close>

record call_env =
  ce_lease :: bool
  ce_now :: time
  ce_clock :: rat
  ce_clock_end :: rat
  ce_wall :: rat
  ce_rpc1 :: rpc
  ce_rpc2 :: rpc
  ce_proof_system :: string

datatype submit_error = Lease_error | Circuit_open_error string | Submission_error string | Bundle_error string

definition submit_score ::
    "publisher_config \<Rightarrow> call_env \<Rightarrow> onchain_score \<Rightarrow> bool \<Rightarrow> (string + zk_bundle) option \<Rightarrow> publisher \<times> world \<Rightarrow>
       (submit_error + string option) \<times> publisher \<times> world" where
  "submit_score cfg env s dry bundle pw =
     (case pw of (p, w) \<Rightarrow>
        if \<not> ce_lease env then (Inl Lease_error, p, w)
        else
     (case check_circuit cfg (ce_clock env) p of
        (False, p1) \<Rightarrow>
          (Inl (Circuit_open_error (circuit_message p1)), p1,
           write_dead_letter cfg (ce_now env) (sc_wallet s) (sc_pair s) (sc_score s) (sc_time s div 1000000) (circuit_message p1)
             (save_submission (ce_proof_system env) (ce_now env) (sc_wallet s) (sc_pair s) (sc_score s) Skipped None
               (Some ''Circuit breaker open'') w))
      | (True, p1) \<Rightarrow>
          (case (case bundle of None \<Rightarrow> Inr None | Some (Inl e) \<Rightarrow> Inl e | Some (Inr z) \<Rightarrow> Inr (Some z)) of
             Inl e \<Rightarrow> (Inl (Bundle_error e), p1, w)
           | Inr z \<Rightarrow>
               if dry then (Inr None, p1, save_submission (ce_proof_system env) (ce_now env) (sc_wallet s) (sc_pair s) (sc_score s) Skipped None None w)
               else
             (case execute_with_retries s z (ce_rpc1 env) (ce_rpc2 env) of
                (sent, Inr h) \<Rightarrow>
                  (Inr (Some h), record_success p1,
                   save_submission (ce_proof_system env) (ce_now env) (sc_wallet s) (sc_pair s) (sc_score s) Submitted (Some h) None
                     (w\<lparr>chain := chain w @ sent\<rparr>))
              | (sent, Inl e) \<Rightarrow>
                  (Inl (Submission_error e), record_failure cfg (ce_wall env) (ce_clock_end env) e p1,
                   save_submission (ce_proof_system env) (ce_now env) (sc_wallet s) (sc_pair s) (sc_score s) Failed None
                     (Some ''Submission failed after retries'') (w\<lparr>chain := chain w @ sent\<rparr>))))))"

text \<open>The message of each exception, as \<open>str(e)\<close>.\<close>

fun error_text :: "submit_error \<Rightarrow> string" where
  "error_text Lease_error = ''Region does not hold the Soroban submission lease.''"
| "error_text (Circuit_open_error m) = m"
| "error_text (Submission_error m) = m"
| "error_text (Bundle_error m) = m"

definition batch_key :: "onchain_score \<Rightarrow> string" where
  "batch_key s = sc_wallet s @ '':'' @ sc_pair s"

fun batch_loop ::
    "publisher_config \<Rightarrow> bool \<Rightarrow> (onchain_score \<times> call_env) list \<Rightarrow> (string \<rightharpoonup> string) \<Rightarrow> publisher \<times> world \<Rightarrow>
       (string \<rightharpoonup> string) \<times> publisher \<times> world" where
  "batch_loop cfg dry [] results pw = (results, pw)"
| "batch_loop cfg dry ((s, env) # calls) results pw =
     (case submit_score cfg env s dry None pw of
        (Inr tx, pw') \<Rightarrow> batch_loop cfg dry calls
           (results(batch_key s \<mapsto> (case tx of Some h \<Rightarrow> if h = '''' then ''skipped'' else h | None \<Rightarrow> ''skipped''))) pw'
      | (Inl (Circuit_open_error m), pw') \<Rightarrow> (results(batch_key s \<mapsto> ''ERROR: '' @ m), pw')
      | (Inl e, pw') \<Rightarrow> batch_loop cfg dry calls (results(batch_key s \<mapsto> ''ERROR: '' @ error_text e)) pw')"

definition submit_batch ::
    "publisher_config \<Rightarrow> bool \<Rightarrow> (onchain_score \<times> call_env) list \<Rightarrow> bool \<Rightarrow> publisher \<times> world \<Rightarrow>
       (submit_error + (string \<rightharpoonup> string)) \<times> publisher \<times> world" where
  "submit_batch cfg lease calls dry pw =
     (if \<not> lease then (Inl Lease_error, pw)
      else case batch_loop cfg dry calls Map.empty pw of (results, pw') \<Rightarrow> (Inr results, pw'))"

text \<open>The payload signed by a quorum of oracles; the circuit is checked, but not told how the call ends.\<close>

record quorum_payload =
  qp_wallet :: string
  qp_pair :: string
  qp_score :: int
  qp_benford :: bool
  qp_ml :: bool
  qp_timestamp :: int
  qp_confidence :: int
  qp_model_version :: int
  qp_signatures :: "(string \<times> string) list"

definition quorum_params :: "quorum_payload \<Rightarrow> scval list" where
  "quorum_params q =
     [Address (qp_wallet q), Symbol (qp_pair q), U32 (qp_score q), Bool (qp_benford q), Bool (qp_ml q), U64 (qp_timestamp q),
      U32 (qp_confidence q), U32 (qp_model_version q),
      Vec (map (\<lambda>(pub, sig). Smap [(''public_key'', Bytes pub), (''signature'', Bytes sig)]) (qp_signatures q))]"

definition submit_with_quorum :: "publisher_config \<Rightarrow> call_env \<Rightarrow> quorum_payload \<Rightarrow> publisher \<times> world \<Rightarrow> bool \<times> publisher \<times> world" where
  "submit_with_quorum cfg env q pw =
     (case pw of (p, w) \<Rightarrow>
     (case check_circuit cfg (ce_clock env) p of
        (False, p1) \<Rightarrow>
          (False, p1, save_submission (ce_proof_system env) (ce_now env) (qp_wallet q) (qp_pair q) (qp_score q) Skipped None
             (Some ''Circuit breaker open'') w)
      | (True, p1) \<Rightarrow>
          (case invoke_contract ''submit_with_quorum'' (quorum_params q) 1 (ce_rpc1 env) of
             (sent, Inr h) \<Rightarrow>
               (True, p1, save_submission (ce_proof_system env) (ce_now env) (qp_wallet q) (qp_pair q) (qp_score q) Submitted (Some h) None
                  (w\<lparr>chain := chain w @ sent\<rparr>))
           | (sent, Inl e) \<Rightarrow> (False, p1, w\<lparr>chain := chain w @ sent\<rparr>))))"

text \<open>The pipeline submits what reaches the threshold and counts what was not an error; it swallows the lease error.\<close>

definition submit_on_chain ::
    "publisher_config \<Rightarrow> int \<Rightarrow> bool \<Rightarrow> (onchain_score \<times> call_env) list \<Rightarrow> world \<Rightarrow> nat \<times> world" where
  "submit_on_chain cfg threshold lease calls w =
     (let high = filter (\<lambda>(s, env). threshold \<le> sc_score s) calls
      in if high = [] then (0, w)
         else case submit_batch cfg lease high False (new_publisher, w) of
           (Inl e, p, w') \<Rightarrow> (0, w')
         | (Inr results, p, w') \<Rightarrow>
             (length (filter (\<lambda>k. case results k of None \<Rightarrow> False | Some v \<Rightarrow> v \<noteq> ''skipped'' \<and> \<not> starts_with v ''ERROR: '')
                (remdups (map (\<lambda>(s, env). batch_key s) high))), w'))"

text \<open>Integration: the bounds of an uncertainty interval are scaled, but nothing is deployed that could store them.\<close>

datatype uncertainty_result = Dry_run int int | Unsupported | Submission "submit_error + string option"

definition submit_score_with_uncertainty ::
    "publisher_config \<Rightarrow> call_env \<Rightarrow> onchain_score \<Rightarrow> rat option \<Rightarrow> rat option \<Rightarrow> bool \<Rightarrow> bool \<Rightarrow> publisher \<times> world \<Rightarrow>
       uncertainty_result \<times> publisher \<times> world" where
  "submit_score_with_uncertainty cfg env s lo hi dry allow_downgrade pw =
     (if dry then (Dry_run (round_half_even ((case lo of None \<Rightarrow> 0 | Some x \<Rightarrow> x) * 100))
                      (round_half_even ((case hi of None \<Rightarrow> 100 | Some x \<Rightarrow> x) * 100)), pw)
      else if \<not> allow_downgrade then (Unsupported, pw)
      else case submit_score cfg env s dry None pw of (r, pw') \<Rightarrow> (Submission r, pw'))"

subsection \<open>Replaying the dead letters\<close>

text \<open>A fresh publisher submits each selected letter as a new score; every error counts as failed. A score out of range is
  refused by the model of the score outside of the handler, which ends the command.\<close>

definition letter_score :: "letter \<Rightarrow> onchain_score option" where
  "letter_score l =
     (if 0 \<le> dl_score l \<and> dl_score l \<le> 100
      then Some \<lparr>sc_wallet = dl_wallet l, sc_pair = dl_pair l, sc_score = dl_score l, sc_time = dl_ledger_time l * 1000000, sc_version = ''3''\<rparr>
      else None)"

definition settle_letter :: "nat \<Rightarrow> letter_status \<Rightarrow> time \<Rightarrow> string option \<Rightarrow> world \<Rightarrow> world" where
  "settle_letter n status now tx w =
     w\<lparr>dead_letters := sql_update (\<lambda>r. dl_id r = n) (\<lambda>r. r\<lparr>dl_status := status, dl_replayed_at := Some now, dl_tx := tx\<rparr>) (dead_letters w)\<rparr>"

fun replay_letters ::
    "publisher_config \<Rightarrow> (nat \<Rightarrow> call_env) \<Rightarrow> letter list \<Rightarrow> nat \<times> nat \<Rightarrow> publisher \<times> world \<Rightarrow> (nat \<times> nat) option \<times> publisher \<times> world" where
  "replay_letters cfg env [] counts pw = (Some counts, pw)"
| "replay_letters cfg env (l # ls) (replayed, failed) pw =
     (case letter_score l of
        None \<Rightarrow> (None, pw)
      | Some s \<Rightarrow>
          (case submit_score cfg (env (dl_id l)) s False None pw of
             (Inr tx, p', w') \<Rightarrow>
               replay_letters cfg env ls (replayed + 1, failed) (p', settle_letter (dl_id l) Letter_replayed (ce_now (env (dl_id l))) tx w')
           | (Inl e, p', w') \<Rightarrow>
               replay_letters cfg env ls (replayed, failed + 1) (p', settle_letter (dl_id l) Letter_failed (ce_now (env (dl_id l))) None w')))"

definition dlq_replay :: "publisher_config \<Rightarrow> (nat \<Rightarrow> call_env) \<Rightarrow> int \<Rightarrow> bool \<Rightarrow> world \<Rightarrow> (nat \<times> nat) option \<times> world" where
  "dlq_replay cfg env limit dry w =
     (let items = fst (get_dlq_entries (Some Letter_pending) 1 limit w)
      in if items = [] \<or> dry then (Some (0, 0), w)
         else case replay_letters cfg env items (0, 0) (new_publisher, w) of (r, p, w') \<Rightarrow> (r, w'))"

subsection \<open>One submission\<close>

lemma await_tx_hash: "await_tx h ps = Inr h' \<Longrightarrow> h' = h \<and> Reply Tx_success \<in> set ps"
  by (induction h ps rule: await_tx.induct) auto

definition submits :: "onchain_score \<Rightarrow> zk_bundle option \<Rightarrow> sent_tx \<Rightarrow> bool" where
  "submits s bundle t \<longleftrightarrow> fst t = ''submit_score'' \<and> fst (snd t) = score_params s bundle"

lemma submit_once_sent:
  assumes "submit_once s mult bundle rpc = (sent, r)"
  shows "length sent \<le> 1" "list_all (submits s bundle) sent"
    and "r = Inr h \<Longrightarrow> \<exists>fee. sent = [(''submit_score'', score_params s bundle, fee, h)]"
  using assms by (auto simp: submit_once_def invoke_contract_def submits_def dest: await_tx_hash split: reply.splits send_reply.splits prod.splits if_splits)

lemma auth_failed_nonempty: "auth_failed e \<Longrightarrow> e \<noteq> ''''"
  by (auto simp: auth_failed_def lower_def)

lemma execute_with_retries_sent:
  assumes "execute_with_retries s bundle rpc1 rpc2 = (sent, r)"
  shows "length sent \<le> 2 \<and> list_all (submits s bundle) sent \<and>
    (case r of Inr h \<Rightarrow> sent \<noteq> [] \<and> snd (snd (snd (last sent))) = h | Inl e \<Rightarrow> e \<noteq> '''')"
proof -
  obtain sent1 r1 where 1: "submit_once s 1 bundle rpc1 = (sent1, r1)" by fastforce
  note s1 = submit_once_sent [OF 1]
  show ?thesis
  proof (cases r1)
    case (Inr h)
    with assms 1 s1(1,2) s1(3) [OF Inr] show ?thesis by (auto simp: execute_with_retries_def)
  next
    case (Inl e)
    show ?thesis
    proof (cases "auth_failed e \<or> retry_multiplier e = None")
      case True
      then have "execute_with_retries s bundle rpc1 rpc2 = (sent1, Inl (final_error e))"
        using 1 Inl auth_failed_nonempty [of e] by (auto simp: execute_with_retries_def final_error_def)
      then show ?thesis using assms s1(1,2) by (auto simp: final_error_def)
    next
      case False
      then obtain mult where m: "\<not> auth_failed e" "retry_multiplier e = Some mult" by auto
      obtain sent2 r2 where 2: "submit_once s mult bundle rpc2 = (sent2, r2)" by fastforce
      note s2 = submit_once_sent [OF 2]
      show ?thesis
      proof (cases r2)
        case (Inl e2)
        then show ?thesis using assms 1 2 s1(1,2) s2(1,2) \<open>r1 = Inl e\<close> m
          by (auto simp: execute_with_retries_def final_error_def)
      next
        case (Inr h)
        then show ?thesis using assms 1 2 s1(1,2) s2(1,2) s2(3) [OF Inr] \<open>r1 = Inl e\<close> m
          by (auto simp: execute_with_retries_def)
      qed
    qed
  qed
qed

definition one_submission :: "onchain_score \<Rightarrow> sub_status \<Rightarrow> string option \<Rightarrow> world \<Rightarrow> world \<Rightarrow> bool" where
  "one_submission s status tx w w' \<longleftrightarrow>
     (\<exists>row. trows (on_chain_submissions w') = trows (on_chain_submissions w) @ [row] \<and> sr_wallet row = sc_wallet s \<and>
        sr_pair row = sc_pair s \<and> sr_score row = sc_score s \<and> sr_status row = status \<and> sr_tx row = tx)"

definition sends :: "onchain_score \<Rightarrow> world \<Rightarrow> world \<Rightarrow> sent_tx list \<Rightarrow> bool" where
  "sends s w w' sent \<longleftrightarrow> chain w' = chain w @ sent \<and> length sent \<le> 2 \<and> (\<exists>bundle. list_all (submits s bundle) sent)"

lemma write_dead_letter_keeps [simp]:
  "on_chain_submissions (write_dead_letter cfg now wallet pair score ts e w) = on_chain_submissions w"
  "chain (write_dead_letter cfg now wallet pair score ts e w) = chain w"
  by (simp_all add: write_dead_letter_def Let_def)

lemma save_submission_keeps [simp]:
  "dead_letters (save_submission ps now wallet pair score status tx e w) = dead_letters w"
  "chain (save_submission ps now wallet pair score status tx e w) = chain w"
  by (simp_all add: save_submission_def)

lemma one_submission_saved:
  "on_chain_submissions w' = on_chain_submissions (save_submission ps now (sc_wallet s) (sc_pair s) (sc_score s) status tx e w0) \<Longrightarrow>
   on_chain_submissions w0 = on_chain_submissions w \<Longrightarrow> one_submission s status tx w w'"
  by (simp add: one_submission_def save_submission_def table_simps onchain_row_of_def)

text \<open>C23: What a call leaves behind, by its outcome: an audit row with the outcome's status unless the lease or the bundle stopped it,
  a dead letter only when the circuit did, at most two transactions, and the reported hash is that of the last one.\<close>

theorem submission_accounted:
  "case submit_score cfg env s dry bundle (p, w) of (r, p', w') \<Rightarrow>
     (case r of
        Inl Lease_error \<Rightarrow> p' = p \<and> w' = w
      | Inl (Bundle_error e) \<Rightarrow> w' = w
      | Inl (Circuit_open_error m) \<Rightarrow> p' = p \<and> one_submission s Skipped None w w' \<and> chain w' = chain w \<and>
          dead_letters w' = dead_letters (write_dead_letter cfg (ce_now env) (sc_wallet s) (sc_pair s) (sc_score s) (sc_time s div 1000000) m w)
      | Inl (Submission_error e) \<Rightarrow> one_submission s Failed None w w' \<and> dead_letters w' = dead_letters w \<and>
          (\<exists>sent. sends s w w' sent) \<and> sp_failures p' = sp_failures p + 1
      | Inr None \<Rightarrow> dry \<and> one_submission s Skipped None w w' \<and> dead_letters w' = dead_letters w \<and> chain w' = chain w
      | Inr (Some h) \<Rightarrow> one_submission s Submitted (Some h) w w' \<and> dead_letters w' = dead_letters w \<and>
          (\<exists>sent. sends s w w' sent \<and> sent \<noteq> [] \<and> snd (snd (snd (last sent))) = h) \<and> sp_failures p' = 0)"
proof (cases "ce_lease env")
  case False
  then show ?thesis by (simp add: submit_score_def)
next
  case True
  obtain ok p1 where c: "check_circuit cfg (ce_clock env) p = (ok, p1)" by fastforce
  have fails: "sp_failures p1 = sp_failures p" "\<not> ok \<Longrightarrow> p1 = p"
    using c by (auto simp: check_circuit_def split: circuit.splits option.splits if_splits)
  show ?thesis
  proof (cases ok)
    case False
    with c fails True show ?thesis
      by (auto simp: submit_score_def write_dead_letter_def Let_def intro!: one_submission_saved)
  next
    case ok: True
    define z where "z = (case bundle of None \<Rightarrow> Inr None | Some (Inl e) \<Rightarrow> Inl e | Some (Inr z) \<Rightarrow> Inr (Some z))"
    show ?thesis
    proof (cases z)
      case (Inl e)
      with ok c True show ?thesis by (simp add: submit_score_def z_def)
    next
      case (Inr b)
      obtain sent r where x: "execute_with_retries s b (ce_rpc1 env) (ce_rpc2 env) = (sent, r)" by fastforce
      note sent = execute_with_retries_sent [OF x]
      show ?thesis
      proof (cases r)
        case (Inl e)
        then show ?thesis using Inr ok c True x sent fails
          by (auto simp: submit_score_def z_def [symmetric] sends_def record_failure_def Let_def intro!: one_submission_saved exI [of _ sent])
      next
        case (Inr h)
        then show ?thesis using \<open>z = Inr b\<close> ok c True x sent
          by (auto simp: submit_score_def z_def [symmetric] sends_def record_success_def intro!: one_submission_saved exI [of _ sent])
      qed
    qed
  qed
qed

subsection \<open>The circuit under one caller, and under two\<close>

definition publisher_inv :: "publisher_config \<Rightarrow> publisher \<Rightarrow> bool" where
  "publisher_inv cfg p \<longleftrightarrow>
     (if sp_state p = Circuit_closed then sp_opened_at p = None \<and> sp_failures p < pc_threshold cfg else sp_opened_at p \<noteq> None)"

lemma failure_simps [simp]:
  "sp_failures (record_failure cfg wall t e p) = Suc (sp_failures p)"
  "sp_state (record_failure cfg wall t e p) =
     (if sp_state p = Circuit_half_open \<or> pc_threshold cfg \<le> Suc (sp_failures p) then Circuit_open else sp_state p)"
  "sp_opened_at (record_failure cfg wall t e p) =
     (if sp_state p = Circuit_half_open \<or> pc_threshold cfg \<le> Suc (sp_failures p) then Some t else sp_opened_at p)"
  by (simp_all add: record_failure_def Let_def)

lemma success_simps [simp]:
  "sp_failures (record_success p) = 0" "sp_opened_at (record_success p) = None"
  "sp_state (record_success p) = (if sp_state p = Circuit_half_open then Circuit_closed else sp_state p)"
  by (simp_all add: record_success_def)

lemma circuit_steps_inv:
  assumes "publisher_inv cfg p" "0 < pc_threshold cfg"
  shows "publisher_inv cfg (snd (check_circuit cfg t p))"
    and "publisher_inv cfg (record_failure cfg wall t e p)"
    and "sp_state p \<noteq> Circuit_open \<Longrightarrow> publisher_inv cfg (record_success p)"
    and "publisher_inv cfg (reset_circuit p)"
proof -
  show "publisher_inv cfg (snd (check_circuit cfg t p))"
    using assms by (cases "sp_state p") (auto simp: publisher_inv_def check_circuit_def split: if_splits)
  show "publisher_inv cfg (record_failure cfg wall t e p)"
    using assms by (auto simp: publisher_inv_def)
  show "publisher_inv cfg (record_success p)" if "sp_state p \<noteq> Circuit_open"
    using that assms by (cases "sp_state p") (simp_all add: publisher_inv_def)
  show "publisher_inv cfg (reset_circuit p)" using assms by (simp add: publisher_inv_def reset_circuit_def)
qed

lemma check_passes_not_open: "check_circuit cfg t p = (True, p') \<Longrightarrow> sp_state p' \<noteq> Circuit_open"
  by (auto simp: check_circuit_def split: circuit.splits option.splits if_splits)

lemma submit_score_inv:
  assumes "publisher_inv cfg p" "0 < pc_threshold cfg" "submit_score cfg env s dry bundle (p, w) = (r, p', w')"
  shows "publisher_inv cfg p'"
proof -
  obtain ok p1 where c: "check_circuit cfg (ce_clock env) p = (ok, p1)" by fastforce
  have p1: "publisher_inv cfg p1" using circuit_steps_inv(1) [OF assms(1,2), of "ce_clock env"] c by simp
  from c check_passes_not_open [of cfg "ce_clock env" p p1] assms(3) show ?thesis
    using assms(1) p1 circuit_steps_inv(2,3) [OF p1 assms(2)]
    by (auto simp: submit_score_def split: if_splits bool.splits sum.splits option.splits prod.splits)
qed

text \<open>Any submissions one after the other, and operator resets, in any order.\<close>

datatype publisher_op = Submit call_env onchain_score bool "(string + zk_bundle) option" | Reset

fun publisher_step :: "publisher_config \<Rightarrow> publisher_op \<Rightarrow> publisher \<times> world \<Rightarrow> publisher \<times> world" where
  "publisher_step cfg (Submit env s dry bundle) pw = snd (submit_score cfg env s dry bundle pw)"
| "publisher_step cfg Reset (p, w) = (reset_circuit p, w)"

definition publisher_run :: "publisher_config \<Rightarrow> publisher_op list \<Rightarrow> world \<Rightarrow> publisher \<times> world" where
  "publisher_run cfg ops w = fold (publisher_step cfg) ops (new_publisher, w)"

lemma publisher_step_inv:
  "publisher_inv cfg (fst pw) \<Longrightarrow> 0 < pc_threshold cfg \<Longrightarrow> publisher_inv cfg (fst (publisher_step cfg op pw))"
proof (cases op)
  case (Submit env s dry zk)
  assume "publisher_inv cfg (fst pw)" "0 < pc_threshold cfg"
  then show ?thesis using submit_score_inv [of cfg "fst pw" env s dry zk "snd pw"] Submit
    by (metis prod.collapse publisher_step.simps(1))
qed (cases pw, simp add: circuit_steps_inv)

lemma publisher_run_inv: "0 < pc_threshold cfg \<Longrightarrow> publisher_inv cfg (fst (publisher_run cfg ops w))"
proof -
  assume t: "0 < pc_threshold cfg"
  have "publisher_inv cfg (fst pw) \<Longrightarrow> publisher_inv cfg (fst (fold (publisher_step cfg) ops pw))" for pw
    using t by (induction ops arbitrary: pw) (simp_all add: publisher_step_inv)
  with t show ?thesis by (simp add: publisher_run_def publisher_inv_def new_publisher_def)
qed

text \<open>C21: After any such history the circuit is not stuck: once the reset time has passed since it opened, a call whose transaction
  succeeds is let through, is published, and closes the circuit.\<close>

theorem publisher_recovers:
  assumes "0 < pc_threshold cfg" "ce_lease env"
    and "snd (execute_with_retries s None (ce_rpc1 env) (ce_rpc2 env)) = Inr h"
    and "\<And>t. sp_opened_at (fst (publisher_run cfg ops w)) = Some t \<Longrightarrow> pc_reset cfg \<le> ce_clock env - t"
  shows "fst (submit_score cfg env s False None (publisher_run cfg ops w)) = Inr (Some h) \<and>
    sp_state (fst (snd (submit_score cfg env s False None (publisher_run cfg ops w)))) = Circuit_closed"
proof -
  obtain p w' where pw: "publisher_run cfg ops w = (p, w')" by fastforce
  have inv: "publisher_inv cfg p" using publisher_run_inv [OF assms(1), of ops w] pw by simp
  obtain p1 where c: "check_circuit cfg (ce_clock env) p = (True, p1)"
    using inv assms(4) pw by (cases "sp_state p") (auto simp: publisher_inv_def check_circuit_def)
  have "sp_state p1 \<noteq> Circuit_open" by (rule check_passes_not_open [OF c])
  then have "sp_state (record_success p1) = Circuit_closed"
    by (cases "sp_state p1") (simp_all add: record_success_def)
  with c assms(2,3) pw show ?thesis
    by (cases "execute_with_retries s None (ce_rpc1 env) (ce_rpc2 env)") (simp add: submit_score_def)
qed

definition good_rpc :: rpc where
  "good_rpc = \<lparr>rpc_prepare = Reply (), rpc_simulate = Reply ('''', 100), rpc_send = Reply (Sent ''h1''), rpc_polls = \<lambda>_. Reply Tx_success\<rparr>"

definition down_rpc :: rpc where
  "down_rpc = \<lparr>rpc_prepare = Raised ''refused'', rpc_simulate = Raised ''refused'', rpc_send = Raised ''refused'', rpc_polls = \<lambda>_. Raised ''refused''\<rparr>"

definition env_at :: "rat \<Rightarrow> rpc \<Rightarrow> call_env" where
  "env_at t rpc = \<lparr>ce_lease = True, ce_now = 0, ce_clock = t, ce_clock_end = t, ce_wall = t, ce_rpc1 = rpc, ce_rpc2 = rpc, ce_proof_system = ''sigma''\<rparr>"

definition some_score :: onchain_score where
  "some_score = \<lparr>sc_wallet = ''GA'', sc_pair = ''XLM'', sc_score = 80, sc_time = 0, sc_version = ''3''\<rparr>"

definition empty_world :: world where
  "empty_world = \<lparr>on_chain_submissions = empty_table, dead_letters = empty_table, chain = []\<rparr>"

definition strict_config :: publisher_config where
  "strict_config = \<lparr>pc_threshold = 1, pc_reset = 300, pc_dlq_max = 10000\<rparr>"

lemma down_call:
  "execute_with_retries s b down_rpc rpc2 = ([], Inl ''refused'')" "execute_with_retries s b good_rpc rpc2 =
     ([(''submit_score'', score_params s b, 100, ''h1'')], Inr ''h1'')"
  by (simp_all add: execute_with_retries_def submit_once_def invoke_contract_def down_rpc_def good_rpc_def auth_failed_def
      retry_multiplier_def final_error_def starts_with_def upt_rec lower_def lower_char_def)

lemma publisher_recovers_witness:
  "fst (submit_score strict_config (env_at 310 good_rpc) some_score False None
     (publisher_run strict_config [Submit (env_at 5 down_rpc) some_score False None] empty_world)) = Inr (Some ''h1'')"
  using publisher_recovers [of strict_config "env_at 310 good_rpc" some_score "''h1''"
      "[Submit (env_at 5 down_rpc) some_score False None]" empty_world]
  by (simp add: strict_config_def env_at_def down_call publisher_run_def submit_score_def check_circuit_def record_failure_def new_publisher_def)

text \<open>C18: Two callers: one passed the check before the other's failures opened the circuit, and succeeds after. The circuit then is
  open with no opening time, and no later call is ever let through.\<close>

theorem late_success_wedges_circuit:
  "case check_circuit cfg t0 new_publisher of (passed, p) \<Rightarrow> passed \<and>
     (let q = record_success ((record_failure cfg t1 t1 ''refused'' ^^ max 1 (pc_threshold cfg)) p)
      in sp_state q = Circuit_open \<and> fold (\<lambda>t q'. snd (check_circuit cfg t q')) later q = q \<and> (\<forall>t. \<not> fst (check_circuit cfg t q)))"
proof -
  let ?f = "record_failure cfg t1 t1 ''refused''"
  have closed: "n < pc_threshold cfg \<Longrightarrow> sp_state ((?f ^^ n) new_publisher) = Circuit_closed \<and>
      sp_failures ((?f ^^ n) new_publisher) = n" for n
    by (induction n) (simp_all add: new_publisher_def)
  define k where "k = max 1 (pc_threshold cfg) - 1"
  have k: "max 1 (pc_threshold cfg) = Suc k" by (simp add: k_def)
  have "pc_threshold cfg \<le> Suc (sp_failures ((?f ^^ k) new_publisher))"
    using closed [of k] k by (cases "pc_threshold cfg = 0") auto
  then have opened: "sp_state ((?f ^^ Suc k) new_publisher) = Circuit_open" by simp
  define q where "q = record_success ((?f ^^ Suc k) new_publisher)"
  have q: "sp_state q = Circuit_open" "sp_opened_at q = None" using opened by (simp_all add: q_def)
  have stuck: "check_circuit cfg t q = (False, q)" for t using q by (simp add: check_circuit_def)
  have "fold (\<lambda>t q'. snd (check_circuit cfg t q')) later q = q" by (induction later) (simp_all add: stuck)
  moreover have "check_circuit cfg t0 new_publisher = (True, new_publisher)" by (simp add: check_circuit_def new_publisher_def)
  ultimately show ?thesis using q stuck by (simp only: k q_def [symmetric] prod.case Let_def fst_conv simp_thms)
qed

subsection \<open>What is lost and what is sent twice\<close>

text \<open>A batch that meets the open circuit leaves a dead letter for the score at hand and forgets the rest.\<close>

lemma open_circuit_drops_rest:
  assumes "check_circuit cfg (ce_clock env) p = (False, p)" "ce_lease env"
  shows "submit_batch cfg True ((s, env) # rest) False (p, w) = submit_batch cfg True [(s, env)] False (p, w)"
    and "fst (submit_batch cfg True ((s, env) # rest) False (p, w)) = Inr [batch_key s \<mapsto> ''ERROR: '' @ circuit_message p]"
  using assms by (simp_all add: submit_batch_def submit_score_def)

text \<open>A first transaction that is accepted but not seen within thirty polls is sent again: both may be executed.\<close>

lemma timeout_sends_twice:
  assumes "rpc_prepare rpc1 = Reply ()" "rpc_simulate rpc1 = Reply ('''', fee)" "rpc_send rpc1 = Reply (Sent h1)"
    "\<And>i. rpc_polls rpc1 i = Reply Tx_pending"
  shows "execute_with_retries s None rpc1 good_rpc =
    ([(''submit_score'', score_params s None, fee, h1), (''submit_score'', score_params s None, 100, ''h1'')], Inr ''h1'')"
proof -
  have "await_tx h1 (replicate n (Reply Tx_pending)) = Inl ''timeout: polling exceeded 30 attempts''" for n by (induction n) simp_all
  moreover have "map (rpc_polls rpc1) [0..<30] = replicate 30 (Reply Tx_pending)"
    by (rule nth_equalityI) (simp_all add: assms(4))
  ultimately have 1: "submit_once s 1 None rpc1 = ([(''submit_score'', score_params s None, fee, h1)], Inl ''timeout: polling exceeded 30 attempts'')"
    using assms(1-3) by (simp add: submit_once_def invoke_contract_def)
  have "\<not> auth_failed ''timeout: polling exceeded 30 attempts''" "retry_multiplier ''timeout: polling exceeded 30 attempts'' = Some 1"
    by code_simp+
  with 1 show ?thesis
    by (simp add: execute_with_retries_def submit_once_def invoke_contract_def good_rpc_def upt_rec)
qed

subsection \<open>Replaying during an outage\<close>

definition letter_content :: "letter \<Rightarrow> string \<times> string \<times> int \<times> int" where
  "letter_content l = (dl_wallet l, dl_pair l, dl_score l, dl_ledger_time l)"

definition pending_except :: "nat set \<Rightarrow> world \<Rightarrow> (string \<times> string \<times> int \<times> int) list" where
  "pending_except ns w = map letter_content (filter (\<lambda>r. dl_status r = Letter_pending \<and> dl_id r \<notin> ns) (trows (dead_letters w)))"

definition outage :: "publisher_config \<Rightarrow> (nat \<Rightarrow> call_env) \<Rightarrow> bool" where
  "outage cfg env \<longleftrightarrow> (\<forall>n. ce_lease (env n) \<and> rpc_prepare (ce_rpc1 (env n)) = Raised ''connection refused'') \<and>
     (\<forall>m n. ce_clock (env n) - ce_clock_end (env m) < pc_reset cfg)"

lemma refused:
  assumes "rpc_prepare rpc1 = Raised ''connection refused''"
  shows "execute_with_retries s b rpc1 rpc2 = ([], Inl ''connection refused'')"
proof -
  have "\<not> auth_failed ''connection refused''" "retry_multiplier ''connection refused'' = None"
    "final_error ''connection refused'' = ''connection refused''" by code_simp+
  with assms show ?thesis by (simp add: execute_with_retries_def submit_once_def invoke_contract_def)
qed

lemma letter_added:
  assumes "int (length (trows (dead_letters w))) < pc_dlq_max cfg"
  shows "dead_letters (write_dead_letter cfg now wallet pair score ts e w) = sql_insert (new_letter (wallet, pair, score, ts, e, now)) (dead_letters w)"
  using assms by (simp add: write_dead_letter_def Let_def table_simps)

lemma pending_settled:
  assumes "status \<noteq> Letter_pending"
  shows "pending_except ns (settle_letter n status now tx w) = pending_except (insert n ns) w"
proof -
  have "map letter_content (filter (\<lambda>r. dl_status r = Letter_pending \<and> dl_id r \<notin> ns)
      (map (\<lambda>r. if dl_id r = n then r\<lparr>dl_status := status, dl_replayed_at := Some now, dl_tx := tx\<rparr> else r) rs)) =
    map letter_content (filter (\<lambda>r. dl_status r = Letter_pending \<and> dl_id r \<notin> insert n ns) rs)" for rs
    using assms by (induction rs) (simp_all add: letter_content_def)
  then show ?thesis by (simp add: pending_except_def settle_letter_def table_simps)
qed

lemma settled_table [simp]:
  "length (trows (dead_letters (settle_letter n status now tx w))) = length (trows (dead_letters w))"
  "tseq (dead_letters (settle_letter n status now tx w)) = tseq (dead_letters w)"
  by (simp_all add: settle_letter_def table_simps)

text \<open>One letter of an outage: below the threshold it just fails; with the open circuit it also comes back as a new letter.\<close>

definition failing :: "publisher_config \<Rightarrow> (nat \<Rightarrow> call_env) \<Rightarrow> nat \<Rightarrow> publisher \<Rightarrow> bool" where
  "failing cfg env left p \<longleftrightarrow>
     (if left = 0 then sp_state p = Circuit_open \<and> (\<exists>m. sp_opened_at p = Some (ce_clock_end (env m)))
      else sp_state p = Circuit_closed \<and> sp_failures p + left = pc_threshold cfg)"

lemma outage_submit:
  assumes "outage cfg env" "failing cfg env left p"
  obtains e p' w' where "submit_score cfg (env n) s False None (p, w) = (Inl e, p', w')" "failing cfg env (left - 1) p'"
    and "dead_letters w' = (if left = 0 then dead_letters (write_dead_letter cfg (ce_now (env n)) (sc_wallet s) (sc_pair s) (sc_score s)
        (sc_time s div 1000000) (circuit_message p) w) else dead_letters w)"
proof (cases "left = 0")
  case True
  with assms obtain m where p: "sp_state p = Circuit_open" "sp_opened_at p = Some (ce_clock_end (env m))" by (auto simp: failing_def)
  have "\<not> pc_reset cfg \<le> ce_clock (env n) - ce_clock_end (env m)" using assms(1) by (auto simp: outage_def not_le)
  with p have "check_circuit cfg (ce_clock (env n)) p = (False, p)" by (simp add: check_circuit_def)
  with assms True that show ?thesis
    by (auto simp: submit_score_def outage_def write_dead_letter_def Let_def)
next
  case False
  with assms have p: "sp_state p = Circuit_closed" "sp_failures p + left = pc_threshold cfg" by (auto simp: failing_def)
  then have c: "check_circuit cfg (ce_clock (env n)) p = (True, p)" by (simp add: check_circuit_def)
  have "failing cfg env (left - 1) (record_failure cfg (ce_wall (env n)) (ce_clock_end (env n)) ''connection refused'' p)"
    using p False by (auto simp: failing_def)
  with assms(1) c False that show ?thesis
    by (auto simp: submit_score_def outage_def refused)
qed

lemma pending_added:
  assumes "dead_letters w' = sql_insert (new_letter (wallet, pair, score, ts, e, now)) (dead_letters w)" "Suc (tseq (dead_letters w)) \<notin> ns"
  shows "pending_except ns w' = pending_except ns w @ [(wallet, pair, score, ts)]"
  using assms by (simp add: pending_except_def table_simps new_letter_def letter_content_def)

lemma replay_letters_outage:
  assumes "outage cfg env"
  shows "failing cfg env left p \<Longrightarrow> distinct (map dl_id ls) \<Longrightarrow>
    \<forall>l \<in> set ls. 0 \<le> dl_score l \<and> dl_score l \<le> 100 \<and> dl_id l \<le> tseq (dead_letters w) \<Longrightarrow>
    int (length (trows (dead_letters w)) + length ls) \<le> pc_dlq_max cfg \<Longrightarrow>
    \<exists>p' w'. replay_letters cfg env ls (a, b) (p, w) = (Some (a, b + length ls), p', w') \<and>
      pending_except {} w' = pending_except (set (map dl_id ls)) w @ map letter_content (drop left ls)"
proof (induction ls arbitrary: left p w b)
  case (Cons l ls)
  from Cons.prems(3) obtain s where s: "letter_score l = Some s" by (simp add: letter_score_def)
  then have content: "(sc_wallet s, sc_pair s, sc_score s, sc_time s div 1000000) = letter_content l"
    by (auto simp: letter_score_def letter_content_def split: if_splits)
  obtain e p1 w1 where sub: "submit_score cfg (env (dl_id l)) s False None (p, w) = (Inl e, p1, w1)" "failing cfg env (left - 1) p1"
    and w1: "dead_letters w1 = (if left = 0 then dead_letters (write_dead_letter cfg (ce_now (env (dl_id l))) (sc_wallet s) (sc_pair s) (sc_score s)
        (sc_time s div 1000000) (circuit_message p) w) else dead_letters w)"
    by (rule outage_submit [OF assms Cons.prems(1)])
  define w2 where "w2 = settle_letter (dl_id l) Letter_failed (ce_now (env (dl_id l))) None w1"
  have room: "int (length (trows (dead_letters w))) < pc_dlq_max cfg" using Cons.prems(4) by simp
  note added = letter_added [OF room, of "ce_now (env (dl_id l))" "sc_wallet s" "sc_pair s" "sc_score s" "sc_time s div 1000000" "circuit_message p"]
  have size: "length (trows (dead_letters w1)) \<le> Suc (length (trows (dead_letters w)))" "tseq (dead_letters w) \<le> tseq (dead_letters w1)"
    using w1 added by (simp_all add: table_simps)
  have fresh: "Suc (tseq (dead_letters w)) \<notin> set (map dl_id (l # ls))" using Cons.prems(3) by fastforce
  have p1: "pending_except (set (map dl_id (l # ls))) w1 =
      pending_except (set (map dl_id (l # ls))) w @ (if left = 0 then [letter_content l] else [])"
  proof (cases "left = 0")
    case True
    then show ?thesis using pending_added [OF _ fresh, of w1] w1 added content by simp
  next
    case False
    with w1 show ?thesis by (simp add: pending_except_def)
  qed
  have "\<exists>p' w'. replay_letters cfg env ls (a, Suc b) (p1, w2) = (Some (a, Suc b + length ls), p', w') \<and>
      pending_except {} w' = pending_except (set (map dl_id ls)) w2 @ map letter_content (drop (left - 1) ls)"
  proof (rule Cons.IH [OF sub(2)])
    show "distinct (map dl_id ls)" using Cons.prems(2) by simp
    show "\<forall>l\<in>set ls. 0 \<le> dl_score l \<and> dl_score l \<le> 100 \<and> dl_id l \<le> tseq (dead_letters w2)"
      using Cons.prems(3) size(2) by (auto simp: w2_def)
    show "int (length (trows (dead_letters w2)) + length ls) \<le> pc_dlq_max cfg"
      using Cons.prems(4) size(1) by (simp add: w2_def)
  qed
  then obtain p' w' where run: "replay_letters cfg env ls (a, Suc b) (p1, w2) = (Some (a, Suc b + length ls), p', w')"
    and pend: "pending_except {} w' = pending_except (set (map dl_id ls)) w2 @ map letter_content (drop (left - 1) ls)" by blast
  have "pending_except (set (map dl_id ls)) w2 = pending_except (set (map dl_id (l # ls))) w1"
    by (simp add: w2_def pending_settled)
  with pend p1 have "pending_except {} w' = pending_except (set (map dl_id (l # ls))) w @ map letter_content (drop left (l # ls))"
    by (cases left) simp_all
  moreover have "replay_letters cfg env (l # ls) (a, b) (p, w) = (Some (a, b + length (l # ls)), p', w')"
    using s sub(1) run by (simp add: w2_def)
  ultimately show ?case by blast
qed (simp add: pending_except_def)

lemma selected_letters:
  assumes "ids_ok dl_id (dead_letters w)" "l \<in> set (fst (get_dlq_entries status 1 limit w))"
  shows "dl_id l \<le> tseq (dead_letters w)"
  using assms sql_limit_subset [of limit] by (fastforce simp: get_dlq_entries_def Let_def ids_ok_def sql_select_def)

lemma selected_distinct:
  assumes "ids_ok dl_id (dead_letters w)"
  shows "distinct (map dl_id (fst (get_dlq_entries status 1 limit w)))"
proof -
  have "distinct (map dl_id (sort_key dl_created (sql_select Q (dead_letters w))))" for Q
    using assms by (simp add: ids_ok_def sql_select_def distinct_map inj_on_def)
  then show ?thesis by (auto simp: get_dlq_entries_def Let_def sql_limit_def take_map [symmetric])
qed

text \<open>C22: A replay while the RPC server is down: the first letters, as many as the threshold of the circuit, end as failed and are
  never selected again; every later one is marked failed too, but comes back as a new pending letter.\<close>

theorem replay_during_outage:
  assumes "outage cfg env" "0 < pc_threshold cfg" "ids_ok dl_id (dead_letters w)"
    and "items = fst (get_dlq_entries (Some Letter_pending) 1 limit w)" "\<forall>l \<in> set items. 0 \<le> dl_score l \<and> dl_score l \<le> 100"
    and "int (length (trows (dead_letters w)) + length items) \<le> pc_dlq_max cfg"
  shows "fst (dlq_replay cfg env limit False w) = Some (0, length items) \<and>
    pending_except {} (snd (dlq_replay cfg env limit False w)) =
      pending_except (set (map dl_id items)) w @ map letter_content (drop (pc_threshold cfg) items)"
proof (cases "items = []")
  case True
  with assms(4) show ?thesis by (simp add: dlq_replay_def)
next
  case False
  have start: "failing cfg env (pc_threshold cfg) new_publisher" using assms(2) by (simp add: failing_def new_publisher_def)
  have ids: "distinct (map dl_id items)" "\<forall>l \<in> set items. 0 \<le> dl_score l \<and> dl_score l \<le> 100 \<and> dl_id l \<le> tseq (dead_letters w)"
    using selected_distinct [OF assms(3)] selected_letters [OF assms(3)] assms(4,5) by auto
  from replay_letters_outage [OF assms(1) start ids assms(6), of 0 0] obtain p' w' where
    "replay_letters cfg env items (0, 0) (new_publisher, w) = (Some (0, length items), p', w')"
    "pending_except {} w' = pending_except (set (map dl_id items)) w @ map letter_content (drop (pc_threshold cfg) items)" by auto
  with False assms(4) show ?thesis by (simp add: dlq_replay_def Let_def)
qed

definition refused_env :: "nat \<Rightarrow> call_env" where
  "refused_env n = env_at 0 (down_rpc\<lparr>rpc_prepare := Raised ''connection refused''\<rparr>)"

definition two_letters :: world where
  "two_letters = empty_world\<lparr>dead_letters := sql_insert (new_letter (''GB'', ''XLM'', 91, 7, ''open'', 0)) (sql_insert (new_letter (''GA'', ''XLM'', 90, 7, ''open'', 0)) empty_table)\<rparr>"

lemma replay_during_outage_witness:
  "pending_except {} (snd (dlq_replay strict_config refused_env 100 False two_letters)) = [(''GB'', ''XLM'', 91, 7)]"
proof -
  have "ids_ok dl_id (dead_letters two_letters)"
    by (simp add: two_letters_def letter_rows.ids_ok_insert letter_rows.ids_ok_empty)
  moreover have "outage strict_config refused_env"
    by (simp add: outage_def refused_env_def env_at_def strict_config_def)
  moreover have items: "fst (get_dlq_entries (Some Letter_pending) 1 100 two_letters) =
      [new_letter (''GA'', ''XLM'', 90, 7, ''open'', 0) 1, new_letter (''GB'', ''XLM'', 91, 7, ''open'', 0) 2]"
    by (simp add: get_dlq_entries_def two_letters_def sql_select_def table_simps new_letter_def sql_limit_def Let_def)
  ultimately show ?thesis
    using replay_during_outage [of strict_config refused_env two_letters _ 100]
    by (simp add: strict_config_def two_letters_def table_simps new_letter_def pending_except_def letter_content_def)
qed

end
