(* ===== verification/Rpc_Breaker.thy ===== *)
theory Rpc_Breaker
  imports LL_Prelude
begin

text \<open>
  The breaker around Soroban RPC reads (\<open>integrations/contract_client.py\<close>): outcomes of a rolling window, an opening time, a
  cache of last values. The wrapped call is an argument: what it returns or raises, and how long it takes.
\<close>

record rpc_config =
  rb_rate :: rat
  rb_min_samples :: nat
  rb_window :: rat
  rb_open :: rat
  rb_timeout :: rat

definition default_rpc_config :: rpc_config where
  "default_rpc_config = \<lparr>rb_rate = 1 / 2, rb_min_samples = 5, rb_window = 60, rb_open = 30, rb_timeout = 5\<rparr>"

record 'v rpc_result =
  rr_value :: 'v
  rr_stale :: bool
  rr_reason :: "string option"
  rr_cached_at :: "rat option"

record 'v rpc_breaker =
  rb_outcomes :: "(rat \<times> bool) list"
  rb_opened_at :: "rat option"
  rb_cache :: "string \<rightharpoonup> 'v rpc_result"

definition prune :: "rpc_config \<Rightarrow> rat \<Rightarrow> 'v rpc_breaker \<Rightarrow> 'v rpc_breaker" where
  "prune cfg now b = b\<lparr>rb_outcomes := filter (\<lambda>(t, ok). now - rb_window cfg \<le> t) (rb_outcomes b)\<rparr>"

definition failure_rate :: "'v rpc_breaker \<Rightarrow> rat" where
  "failure_rate b =
     (if rb_outcomes b = [] then 0
      else of_nat (length (filter (\<lambda>(t, ok). \<not> ok) (rb_outcomes b))) / of_nat (length (rb_outcomes b)))"

definition is_open :: "rpc_config \<Rightarrow> rat \<Rightarrow> 'v rpc_breaker \<Rightarrow> bool" where
  "is_open cfg now b = (case rb_opened_at b of None \<Rightarrow> False | Some t \<Rightarrow> now - t < rb_open cfg)"

definition record_outcome :: "rpc_config \<Rightarrow> rat \<Rightarrow> bool \<Rightarrow> 'v rpc_breaker \<Rightarrow> 'v rpc_breaker" where
  "record_outcome cfg now success b =
     (let b1 = prune cfg now b; b2 = b1\<lparr>rb_outcomes := rb_outcomes b1 @ [(now, success)]\<rparr>
      in if success then b2\<lparr>rb_opened_at := None, rb_outcomes := [(now, True)]\<rparr>
         else if rb_min_samples cfg \<le> length (rb_outcomes b2) \<and> rb_rate cfg \<le> failure_rate b2 then b2\<lparr>rb_opened_at := Some now\<rparr>
         else b2)"

definition cache_put :: "rat \<Rightarrow> string \<Rightarrow> 'v \<Rightarrow> 'v rpc_breaker \<Rightarrow> 'v rpc_breaker" where
  "cache_put now key v b = b\<lparr>rb_cache := (rb_cache b)(key \<mapsto> \<lparr>rr_value = v, rr_stale = False, rr_reason = None, rr_cached_at = Some now\<rparr>)\<rparr>"

definition fallback :: "string \<Rightarrow> string \<Rightarrow> 'v rpc_breaker \<Rightarrow> 'v rpc_result option" where
  "fallback key reason b =
     map_option (\<lambda>c. \<lparr>rr_value = rr_value c, rr_stale = True, rr_reason = Some reason, rr_cached_at = rr_cached_at c\<rparr>) (rb_cache b key)"

text \<open>One call at the time \<open>now\<close>; the wrapped function ends \<open>elapsed\<close> later. \<open>None\<close> is the open-circuit error.\<close>

definition rpc_call ::
    "rpc_config \<Rightarrow> rat \<Rightarrow> rat \<Rightarrow> rat option \<Rightarrow> string \<Rightarrow> (string + 'v) \<Rightarrow> 'v rpc_breaker \<Rightarrow> 'v rpc_result option \<times> 'v rpc_breaker" where
  "rpc_call cfg now elapsed timeout key reply b =
     (if is_open cfg now b then (fallback key ''circuit_open'' b, b)
      else case reply of
        Inl e \<Rightarrow> (let b' = record_outcome cfg (now + elapsed) False b in (fallback key (''rpc_error: '' @ e) b', b'))
      | Inr v \<Rightarrow>
          if (case timeout of Some t \<Rightarrow> t | None \<Rightarrow> rb_timeout cfg) < elapsed
          then (let b' = record_outcome cfg (now + elapsed) False b in (fallback key ''rpc_timeout'' b', b'))
          else (Some \<lparr>rr_value = v, rr_stale = False, rr_reason = None, rr_cached_at = None\<rparr>,
                cache_put (now + elapsed) key v (record_outcome cfg (now + elapsed) True b)))"

definition new_breaker :: "'v rpc_breaker" where
  "new_breaker = \<lparr>rb_outcomes = [], rb_opened_at = None, rb_cache = Map.empty\<rparr>"

subsection \<open>What the failure rate is taken over\<close>

text \<open>A success forgets all earlier outcomes, so the window holds at most one success, followed by the failures since.\<close>

fun trailing_failures :: "(rat \<times> bool) list \<Rightarrow> nat" where
  "trailing_failures os = length (takeWhile (\<lambda>(t, ok). \<not> ok) (rev os))"

definition record_all :: "rpc_config \<Rightarrow> (rat \<times> bool) list \<Rightarrow> 'v rpc_breaker \<Rightarrow> 'v rpc_breaker" where
  "record_all cfg os b = fold (\<lambda>(t, ok). record_outcome cfg t ok) os b"

lemma record_all_snoc: "record_all cfg (os @ [(t, ok)]) b = record_outcome cfg t ok (record_all cfg os b)"
  by (simp add: record_all_def)

lemma prune_length: "length (rb_outcomes (prune cfg t b)) \<le> length (rb_outcomes b)"
  by (simp add: prune_def length_filter_le)

lemma window_length: "length (rb_outcomes (record_all cfg os (new_breaker :: 'v rpc_breaker))) \<le> Suc (trailing_failures os)"
proof (induction os rule: rev_induct)
  case (snoc o1 os)
  obtain t ok where o1: "o1 = (t, ok)" by fastforce
  have "length (rb_outcomes (prune cfg t (record_all cfg os (new_breaker :: 'v rpc_breaker)))) \<le> length (rb_outcomes (record_all cfg os (new_breaker :: 'v rpc_breaker)))"
    by (rule prune_length)
  with snoc show ?case unfolding o1 record_all_snoc by (simp add: record_outcome_def Let_def)
qed (simp add: record_all_def new_breaker_def)

text \<open>However large the share of failures: while no run of failures is as long as the sample minimum less one, the breaker
  stays closed.\<close>

theorem short_failure_runs_never_open:
  assumes "\<And>n. Suc (trailing_failures (take n os)) < rb_min_samples cfg"
  shows "rb_opened_at (record_all cfg os (new_breaker :: 'v rpc_breaker)) = None"
proof -
  have "rb_opened_at (record_all cfg (take n os) (new_breaker :: 'v rpc_breaker)) = None" for n
  proof (induction n)
    case (Suc n)
    show ?case
    proof (cases "n < length os")
      case True
      obtain t ok where o1: "os ! n = (t, ok)" by fastforce
      have tk: "take (Suc n) os = take n os @ [(t, ok)]" using True o1 by (simp add: take_Suc_conv_app_nth)
      have "length (rb_outcomes (prune cfg t (record_all cfg (take n os) (new_breaker :: 'v rpc_breaker)))) < rb_min_samples cfg - 1" if "\<not> ok"
      proof -
        have "length (rb_outcomes (prune cfg t (record_all cfg (take n os) (new_breaker :: 'v rpc_breaker)))) \<le> Suc (trailing_failures (take n os))"
          by (rule le_trans [OF prune_length window_length])
        with assms [of "Suc n"] that show ?thesis unfolding tk by simp
      qed
      then have "ok \<or> length (rb_outcomes (prune cfg t (record_all cfg (take n os) (new_breaker :: 'v rpc_breaker)))) < rb_min_samples cfg - 1"
        by blast
      with Suc show ?thesis unfolding tk record_all_snoc by (auto simp: record_outcome_def prune_def Let_def)
    qed (use Suc in simp)
  qed (simp add: record_all_def new_breaker_def)
  from this [of "length os"] show ?thesis by simp
qed

lemma short_failure_runs_never_open_witness:
  "rb_opened_at (record_all default_rpc_config [(1, True), (2, False), (3, False), (4, False), (5, True), (6, False), (7, False), (8, False)]
     new_breaker) = None"
proof (rule short_failure_runs_never_open)
  fix n :: nat
  have "n = 0 \<or> n = 1 \<or> n = 2 \<or> n = 3 \<or> n = 4 \<or> n = 5 \<or> n = 6 \<or> n = 7 \<or> 8 \<le> n" by arith
  then show "Suc (trailing_failures (take n [(1, True), (2, False), (3, False), (4, False), (5, True), (6, False), (7, False), (8, False)])) <
      rb_min_samples default_rpc_config"
    by (elim disjE) (simp_all add: default_rpc_config_def numeral_eq_Suc)
qed

text \<open>A failed probe after an idle window does not open the breaker again: calls keep going through.\<close>

lemma idle_probe_failure_does_not_reopen:
  assumes "rb_opened_at b = Some t" "rb_open cfg \<le> now - t" "\<forall>(u, ok) \<in> set (rb_outcomes b). u < now - rb_window cfg"
    "1 < rb_min_samples cfg" "now \<le> later"
  shows "\<not> is_open cfg later (record_outcome cfg now False b)"
proof -
  have "filter (\<lambda>(t, ok). now - rb_window cfg \<le> t) (rb_outcomes b) = []"
    using assms(3) by (auto simp: filter_empty_conv)
  with assms show ?thesis by (simp add: record_outcome_def prune_def is_open_def Let_def)
qed

subsection \<open>Stale answers\<close>

type_synonym 'v rpc_event = "rat \<times> rat \<times> rat option \<times> string \<times> (string + 'v)"

fun rpc_run :: "rpc_config \<Rightarrow> 'v rpc_event list \<Rightarrow> 'v rpc_breaker \<Rightarrow> (string \<times> 'v rpc_result option) list \<times> 'v rpc_breaker" where
  "rpc_run cfg [] b = ([], b)"
| "rpc_run cfg ((now, elapsed, timeout, key, reply) # es) b =
     (case rpc_call cfg now elapsed timeout key reply b of (r, b1) \<Rightarrow>
        (case rpc_run cfg es b1 of (rs, b2) \<Rightarrow> ((key, r) # rs, b2)))"

text \<open>The last live answer for a key.\<close>

definition live_update :: "string \<Rightarrow> string \<times> 'v rpc_result option \<Rightarrow> 'v option \<Rightarrow> 'v option" where
  "live_update key kr v = (case kr of (k, r) \<Rightarrow> (case r of None \<Rightarrow> v | Some x \<Rightarrow> if k = key \<and> \<not> rr_stale x then Some (rr_value x) else v))"

definition last_live :: "string \<Rightarrow> (string \<times> 'v rpc_result option) list \<Rightarrow> 'v option" where
  "last_live key hist = fold (live_update key) hist None"

lemma record_outcome_cache [simp]: "rb_cache (record_outcome cfg now ok b) = rb_cache b"
  by (simp add: record_outcome_def prune_def Let_def)

lemma call_cache:
  assumes "rpc_call cfg now elapsed timeout key reply b = (r, b')"
  shows "map_option rr_value (rb_cache b' k) = live_update k (key, r) (map_option rr_value (rb_cache b k))"
  using assms
  by (auto simp: rpc_call_def live_update_def fallback_def cache_put_def Let_def
      split: if_splits sum.splits option.splits)

lemma run_cache:
  "rpc_run cfg es b = (hist, b') \<Longrightarrow> map_option rr_value (rb_cache b' k) = fold (live_update k) hist (map_option rr_value (rb_cache b k))"
proof (induction es arbitrary: b hist)
  case (Cons e es)
  obtain now elapsed timeout key reply where e: "e = (now, elapsed, timeout, key, reply)" by (cases e) auto
  obtain r b1 where c: "rpc_call cfg now elapsed timeout key reply b = (r, b1)" by fastforce
  obtain rs where rs: "rpc_run cfg es b1 = (rs, b')" "hist = (key, r) # rs" using Cons.prems c e by (auto split: prod.splits)
  with Cons.IH [OF rs(1)] call_cache [OF c, of k] show ?case by simp
qed simp

text \<open>Over any history: a live answer is the reply of this call; a stale one is the last live answer for the key, and there is
  an error only when there was none.\<close>

theorem answers_live_or_last_good:
  "case rpc_run cfg es new_breaker of (hist, b) \<Rightarrow>
     (case fst (rpc_call cfg now elapsed timeout key reply b) of
        None \<Rightarrow> last_live key hist = None
      | Some r \<Rightarrow> if rr_stale r then last_live key hist = Some (rr_value r) else reply = Inr (rr_value r))"
proof -
  obtain hist b where run: "rpc_run cfg es new_breaker = (hist, b)" by fastforce
  have cache: "map_option rr_value (rb_cache b key) = last_live key hist"
    using run_cache [OF run, of key] by (simp add: last_live_def new_breaker_def)
  show ?thesis unfolding run using cache [symmetric]
    by (auto simp: rpc_call_def fallback_def Let_def split: sum.split option.split)
qed

end
