(* ===== verification/Path_Cycles.thy ===== *)
theory Path_Cycles
  imports LL_Prelude "HOL-Library.Product_Lexorder" "HOL-Library.Multiset"
begin

text \<open>
  Rings of path payments (\<open>detection/path_cycle_detector.py\<close>, with \<open>add_path_payment_edges\<close> of \<open>detection/graph_engine.py\<close>).
  The enumeration of strongly connected components and of simple cycles (networkx) and the clock are arguments; amounts are exact.
\<close>

subsection \<open>The graph\<close>

record path_payment =
  pp_source :: string
  pp_destination :: string
  pp_source_asset :: string
  pp_destination_asset :: string
  pp_source_amount :: rat
  pp_time :: "time option"
  pp_hash :: "string option"

record hop =
  hop_amount_xlm :: rat
  hop_source_asset :: string
  hop_destination_asset :: string
  hop_time :: "time option"
  hop_hash :: "string option"

text \<open>The payments of an edge, in the order they came; an edge exists when there is one.\<close>

type_synonym payment_graph = "string \<times> string \<Rightarrow> hop list"

definition hop_of :: "path_payment \<Rightarrow> hop" where
  "hop_of p = \<lparr>hop_amount_xlm = pp_source_amount p, hop_source_asset = pp_source_asset p,
     hop_destination_asset = pp_destination_asset p, hop_time = pp_time p, hop_hash = pp_hash p\<rparr>"

definition add_path_payment :: "path_payment \<Rightarrow> payment_graph \<Rightarrow> payment_graph" where
  "add_path_payment p g =
     (if pp_source p = '''' \<or> pp_destination p = '''' then g
      else g((pp_source p, pp_destination p) := g (pp_source p, pp_destination p) @ [hop_of p]))"

definition add_path_payment_edges :: "path_payment list \<Rightarrow> payment_graph \<Rightarrow> payment_graph" where
  "add_path_payment_edges ps g = fold add_path_payment ps g"

definition build_path_payment_graph :: "path_payment list \<Rightarrow> payment_graph" where
  "build_path_payment_graph ps = add_path_payment_edges ps (\<lambda>_. [])"

subsection \<open>One payment per hop, within the smallest span\<close>

text \<open>The loop of \<open>_select_timed_cycle_edges\<close>. The heap always holds the current payment of every edge, so its top is the least of
  the pairs of time and edge number. \<open>None\<close> is the infinite range.\<close>

type_synonym timed = "(time \<times> hop) list"

definition current :: "timed list \<Rightarrow> nat list \<Rightarrow> nat \<Rightarrow> time" where
  "current timed ptr i = fst (timed ! i ! (ptr ! i))"

definition heap_top :: "timed list \<Rightarrow> nat list \<Rightarrow> time \<times> nat" where
  "heap_top timed ptr = Min (set (map (\<lambda>i. (current timed ptr i, i)) [0..<length ptr]))"

definition better :: "time \<Rightarrow> nat list \<Rightarrow> (time \<times> nat list) option \<Rightarrow> (time \<times> nat list) option" where
  "better r ptr best = (case best of None \<Rightarrow> Some (r, ptr) | Some (r', c) \<Rightarrow> if r < r' then Some (r, ptr) else best)"

lemma heap_top_index: "ptr \<noteq> [] \<Longrightarrow> snd (heap_top timed ptr) < length ptr"
proof -
  assume "ptr \<noteq> []"
  then have "heap_top timed ptr \<in> set (map (\<lambda>i. (current timed ptr i, i)) [0..<length ptr])"
    unfolding heap_top_def by (intro Min_in) simp_all
  then show ?thesis by auto
qed

function sweep :: "timed list \<Rightarrow> nat list \<Rightarrow> time \<Rightarrow> (time \<times> nat list) option \<Rightarrow> (time \<times> nat list) option" where
  "sweep timed ptr current_max best =
     (if ptr = [] then best
      else let (ts_min, li) = heap_top timed ptr;
               best' = better (current_max - ts_min) ptr best;
               nxt = ptr ! li + 1
           in if nxt < length (timed ! li)
              then sweep timed (ptr[li := nxt]) (max current_max (fst (timed ! li ! nxt))) best'
              else best')"
  by pat_completeness auto
termination
proof (relation "measure (\<lambda>(timed, ptr, _, _). \<Sum>i<length ptr. length (timed ! i) - ptr ! i)", simp)
  fix timed :: "timed list" and ptr :: "nat list" and current_max :: time and best :: "(time \<times> nat list) option" and x ts_min li best' nxt
  assume a: "ptr \<noteq> []" "x = heap_top timed ptr" "(ts_min, li) = x" "best' = better (current_max - ts_min) ptr best" "nxt = ptr ! li + 1"
    "nxt < length (timed ! li)"
  have li: "li < length ptr" using heap_top_index [OF a(1), of timed] a(2,3) by (metis snd_conv)
  have "(\<Sum>i<length ptr. length (timed ! i) - ptr[li := nxt] ! i) < (\<Sum>i<length ptr. length (timed ! i) - ptr ! i)"
    by (rule sum_strict_mono_ex1) (use li a(5,6) in \<open>auto simp: nth_list_update\<close>)
  then show "((timed, ptr[li := nxt], max current_max (fst (timed ! li ! nxt)), best'), timed, ptr, current_max, best)
      \<in> measure (\<lambda>(timed, ptr, _, _). \<Sum>i<length ptr. length (timed ! i) - ptr ! i)" by simp
qed

declare sweep.simps [simp del]

definition edges_of_cycle :: "string list \<Rightarrow> (string \<times> string) list" where
  "edges_of_cycle cycle = zip cycle (rotate1 cycle)"

definition with_times :: "hop list \<Rightarrow> timed" where
  "with_times hops = sort_key fst (List.map_filter (\<lambda>h. map_option (\<lambda>t. (t, h)) (hop_time h)) hops)"

definition select_timed_cycle_edges :: "payment_graph \<Rightarrow> string list \<Rightarrow> time \<Rightarrow> hop list option" where
  "select_timed_cycle_edges g cycle max_window =
     (let edges = map g (edges_of_cycle cycle)
      in if [] \<in> set edges then None
         else let timed = filter (\<lambda>ts. ts \<noteq> []) (map with_times edges);
                  untimed = map hd (filter (\<lambda>hops. with_times hops = []) edges)
              in if timed = [] then Some untimed
                 else case sweep timed (replicate (length timed) 0) (Max (set (map (\<lambda>ts. fst (hd ts)) timed))) None of
                        None \<Rightarrow> None
                      | Some (best_range, best_choice) \<Rightarrow>
                          if max_window < best_range then None
                          else Some (map (\<lambda>i. snd (timed ! i ! (best_choice ! i))) [0..<length timed] @ untimed))"

subsection \<open>The sweep finds the smallest span\<close>

definition edge_choice :: "timed list \<Rightarrow> nat list \<Rightarrow> bool" where
  "edge_choice timed c \<longleftrightarrow> length c = length timed \<and> (\<forall>i < length timed. c ! i < length (timed ! i))"

definition span_of :: "timed list \<Rightarrow> nat list \<Rightarrow> time" where
  "span_of timed c = Max (current timed c ` {..<length c}) - Min (current timed c ` {..<length c})"

lemma heap_top_least:
  assumes "ptr \<noteq> []" "heap_top timed ptr = (t, li)"
  shows "li < length ptr" "t = current timed ptr li" "t = Min (current timed ptr ` {..<length ptr})"
proof -
  have "(t, li) \<in> set (map (\<lambda>i. (current timed ptr i, i)) [0..<length ptr])"
    unfolding assms(2) [symmetric] heap_top_def using assms(1) by (intro Min_in) simp_all
  then show li: "li < length ptr" and t: "t = current timed ptr li" by auto
  have "t \<le> current timed ptr i" if "i < length ptr" for i
  proof -
    have "(t, li) \<le> (current timed ptr i, i)"
      unfolding assms(2) [symmetric] heap_top_def using that by (intro Min_le) simp_all
    then show ?thesis by (auto simp: less_eq_prod_def)
  qed
  then show "t = Min (current timed ptr ` {..<length ptr})"
    using li t by (intro Min_eqI [symmetric]) auto
qed

lemma Max_advance:
  fixes f g :: "nat \<Rightarrow> time"
  assumes "finite A" "j \<in> A" "f j = Min (f ` A)" "f j \<le> g j" "\<And>i. i \<in> A - {j} \<Longrightarrow> g i = f i"
  shows "max (Max (f ` A)) (g j) = Max (g ` A)"
proof (cases "A = {j}")
  case True
  with assms(4) show ?thesis by simp
next
  case False
  let ?B = "A - {j}"
  have A: "A = insert j ?B" using assms(2) by blast
  have B: "finite ?B" "?B \<noteq> {}" using assms(1,2) False by auto
  have img: "g ` ?B = f ` ?B" using assms(5) by auto
  have "f ` A = insert (f j) (f ` ?B)" "g ` A = insert (g j) (f ` ?B)" using A img by (metis image_insert)+
  then have f: "Max (f ` A) = max (f j) (Max (f ` ?B))" and g: "Max (g ` A) = max (g j) (Max (f ` ?B))"
    using B by (simp_all only: Max_insert finite_imageI image_is_empty not_False_eq_True)
  obtain i where i: "i \<in> ?B" using B(2) by blast
  have "f j \<le> f i" using i assms(1,3) by simp
  also have "f i \<le> Max (f ` ?B)" using i B(1) by simp
  finally show ?thesis using f g assms(4) by simp
qed

lemma span_of_ahead:
  assumes sorted: "\<And>i. i < length timed \<Longrightarrow> sorted (map fst (timed ! i))" and c: "edge_choice timed c" and p: "edge_choice timed ptr" "ptr \<noteq> []"
    and ge: "\<forall>i < length timed. ptr ! i \<le> c ! i" and li: "li < length timed" "c ! li = ptr ! li"
  shows "Max (current timed ptr ` {..<length ptr}) - current timed ptr li \<le> span_of timed c"
proof -
  have len: "length c = length timed" "length ptr = length timed" using c p by (simp_all add: edge_choice_def)
  have le: "current timed ptr i \<le> current timed c i" if "i < length timed" for i
  proof -
    have "c ! i < length (timed ! i)" using c that by (simp add: edge_choice_def)
    then show ?thesis using sorted_nth_mono [OF sorted [OF that], of "ptr ! i" "c ! i"] ge that
      by (simp add: current_def le_less_trans [of "ptr ! i" "c ! i"])
  qed
  have "Max (current timed ptr ` {..<length timed}) \<le> Max (current timed c ` {..<length timed})"
  proof (rule Max.boundedI)
    have "timed \<noteq> []" using p(2) len by auto
    then show "current timed ptr ` {..<length timed} \<noteq> {}" by (simp add: lessThan_empty_iff)
    fix x assume "x \<in> current timed ptr ` {..<length timed}"
    then obtain i where i: "i < length timed" "x = current timed ptr i" by blast
    have "x \<le> current timed c i" using le i by simp
    also have "\<dots> \<le> Max (current timed c ` {..<length timed})" using i by simp
    finally show "x \<le> Max (current timed c ` {..<length timed})" .
  qed simp
  moreover have "Min (current timed c ` {..<length timed}) \<le> current timed ptr li"
  proof -
    have "Min (current timed c ` {..<length timed}) \<le> current timed c li" using li(1) by (intro Min_le) simp_all
    then show ?thesis using li(2) by (simp add: current_def)
  qed
  ultimately show ?thesis by (simp add: span_of_def len)
qed

lemma sweep_smallest:
  assumes sorted: "\<And>i. i < length timed \<Longrightarrow> sorted (map fst (timed ! i))"
  shows "ptr \<noteq> [] \<Longrightarrow> edge_choice timed ptr \<Longrightarrow> current_max = Max (current timed ptr ` {..<length ptr}) \<Longrightarrow>
    (\<And>r c. best = Some (r, c) \<Longrightarrow> edge_choice timed c \<and> r = span_of timed c) \<Longrightarrow>
    (\<And>c. edge_choice timed c \<Longrightarrow> (\<forall>i < length timed. ptr ! i \<le> c ! i) \<or> (\<exists>r c'. best = Some (r, c') \<and> r \<le> span_of timed c)) \<Longrightarrow>
    \<exists>r c. sweep timed ptr current_max best = Some (r, c) \<and> edge_choice timed c \<and> r = span_of timed c \<and>
      (\<forall>c'. edge_choice timed c' \<longrightarrow> r \<le> span_of timed c')"
  using sorted
proof (induction timed ptr current_max best rule: sweep.induct)
  case (1 timed ptr current_max best)
  obtain t li where top: "heap_top timed ptr = (t, li)" by fastforce
  note least = heap_top_least [OF "1.prems"(1) top]
  define best' where "best' = better (current_max - t) ptr best"
  define nxt where "nxt = ptr ! li + 1"
  have len: "length ptr = length timed" using "1.prems"(2) by (simp add: edge_choice_def)
  have here: "current_max - t = span_of timed ptr" using "1.prems"(3) least(3) by (simp add: span_of_def)
  have "\<exists>r c. best' = Some (r, c) \<and> edge_choice timed c \<and> r = span_of timed c \<and> r \<le> current_max - t \<and>
      (\<forall>r0 c0. best = Some (r0, c0) \<longrightarrow> r \<le> r0)"
    using "1.prems"(4) "1.prems"(2) here unfolding best'_def better_def
    by (cases best) (auto simp: not_less)
  then obtain r c where best': "best' = Some (r, c)" "edge_choice timed c" "r = span_of timed c" "r \<le> current_max - t"
    "\<And>r0 c0. best = Some (r0, c0) \<Longrightarrow> r \<le> r0" by blast
  have covered: "r \<le> span_of timed d" if d: "edge_choice timed d" "\<not> (\<forall>i < length timed. ptr[li := nxt] ! i \<le> d ! i)" for d
    using "1.prems"(5) [OF d(1)]
  proof
    assume ge: "\<forall>i < length timed. ptr ! i \<le> d ! i"
    with d(2) least(1) len have "d ! li = ptr ! li" by (auto simp: nxt_def nth_list_update split: if_splits)
    with span_of_ahead [OF "1.prems"(6) d(1) "1.prems"(2,1) ge] least(1,2) len "1.prems"(3)
    have "current_max - t \<le> span_of timed d" by simp
    with best'(4) show ?thesis by simp
  next
    assume "\<exists>r c'. best = Some (r, c') \<and> r \<le> span_of timed d"
    with best'(5) show ?thesis by force
  qed
  show ?case
  proof (cases "nxt < length (timed ! li)")
    case True
    have step: "sweep timed ptr current_max best = sweep timed (ptr[li := nxt]) (max current_max (fst (timed ! li ! nxt))) best'"
      using True "1.prems"(1) top by (subst sweep.simps) (simp add: Let_def best'_def nxt_def)
    have p': "edge_choice timed (ptr[li := nxt])" using "1.prems"(2) True least(1) by (auto simp: edge_choice_def nth_list_update)
    have other: "current timed (ptr[li := nxt]) i = current timed ptr i" if "i \<noteq> li" for i using that by (simp add: current_def)
    have mine: "current timed (ptr[li := nxt]) li = fst (timed ! li ! nxt)" using least(1) by (simp add: current_def)
    have up: "current timed ptr li \<le> current timed (ptr[li := nxt]) li"
    proof -
      have "sorted (map fst (timed ! li))" using "1.prems"(6) least(1) len by simp
      from sorted_nth_mono [OF this, of "ptr ! li" nxt] True show ?thesis unfolding mine by (simp add: current_def nxt_def)
    qed
    have max': "max current_max (fst (timed ! li ! nxt)) = Max (current timed (ptr[li := nxt]) ` {..<length (ptr[li := nxt])})"
      using Max_advance [of "{..<length ptr}" li "current timed ptr" "current timed (ptr[li := nxt])"] least other up
      unfolding "1.prems"(3) mine by (simp add: mine)
    have "\<exists>r c. sweep timed (ptr[li := nxt]) (max current_max (fst (timed ! li ! nxt))) best' = Some (r, c) \<and> edge_choice timed c \<and>
        r = span_of timed c \<and> (\<forall>c'. edge_choice timed c' \<longrightarrow> r \<le> span_of timed c')"
    proof (rule "1.IH" [OF "1.prems"(1) top [symmetric] refl best'_def nxt_def True _ p' max'])
      show "ptr[li := nxt] \<noteq> []" using "1.prems"(1) by simp
      show "edge_choice timed c' \<and> r' = span_of timed c'" if "best' = Some (r', c')" for r' c'
        using that best'(1-3) by auto
      show "(\<forall>i < length timed. ptr[li := nxt] ! i \<le> d ! i) \<or> (\<exists>r c'. best' = Some (r, c') \<and> r \<le> span_of timed d)"
        if "edge_choice timed d" for d using covered [OF that] best'(1) by blast
    qed (use "1.prems"(6) in simp)
    with step show ?thesis by simp
  next
    case False
    have "sweep timed ptr current_max best = Some (r, c)"
      using False "1.prems"(1) top best'(1) by (subst sweep.simps) (simp add: Let_def best'_def nxt_def)
    moreover have "r \<le> span_of timed d" if "edge_choice timed d" for d
    proof (rule covered [OF that])
      have "d ! li < nxt" using that False least(1) len by (auto simp: edge_choice_def)
      then show "\<not> (\<forall>i < length timed. ptr[li := nxt] ! i \<le> d ! i)" using least(1) len by (auto simp: not_le)
    qed
    ultimately show ?thesis using best'(2,3) by blast
  qed
qed

text \<open>What a selection is: for every edge one payment that carries a time, or the first payment where none does.\<close>

definition picks :: "hop list list \<Rightarrow> hop list \<Rightarrow> bool" where
  "picks edges hs \<longleftrightarrow> list_all2 (\<lambda>hops h. if with_times hops = [] then h = hd hops else h \<in> snd ` set (with_times hops)) edges hs"

definition times_of :: "hop list \<Rightarrow> time set" where
  "times_of hs = {t. \<exists>h \<in> set hs. hop_time h = Some t}"

definition time_span :: "hop list \<Rightarrow> time" where
  "time_span hs = (if times_of hs = {} then 0 else Max (times_of hs) - Min (times_of hs))"

lemma with_times_set: "set (with_times hops) = {(t, h). h \<in> set hops \<and> hop_time h = Some t}"
  by (force simp: with_times_def List.map_filter_def image_iff)

lemma with_times_sorted: "sorted (map fst (with_times hops))"
  by (simp add: with_times_def)

definition chosen :: "timed list \<Rightarrow> nat list \<Rightarrow> hop list" where
  "chosen timed c = map2 (\<lambda>ts k. snd (ts ! k)) timed c"

lemma choice_list_all2: "edge_choice timed c \<longleftrightarrow> list_all2 (\<lambda>ts k. k < length ts) timed c"
  by (auto simp: edge_choice_def list_all2_conv_all_nth)

lemma current_image: "edge_choice timed c \<Longrightarrow> current timed c ` {..<length c} = set (map2 (\<lambda>ts k. fst (ts ! k)) timed c)"
  by (force simp: edge_choice_def current_def in_set_conv_nth image_iff)

lemma chosen_nth: "edge_choice timed c \<Longrightarrow> map (\<lambda>i. snd (timed ! i ! (c ! i))) [0..<length timed] = chosen timed c"
  by (rule nth_equalityI) (simp_all add: chosen_def edge_choice_def)

abbreviation timed_edges :: "hop list list \<Rightarrow> timed list" where
  "timed_edges edges \<equiv> filter (\<lambda>ts. ts \<noteq> []) (map with_times edges)"

abbreviation untimed_hops :: "hop list list \<Rightarrow> hop list" where
  "untimed_hops edges \<equiv> map hd (filter (\<lambda>hops. with_times hops = []) edges)"

lemma choice_to_picks:
  "list_all2 (\<lambda>ts k. k < length ts) (timed_edges edges) c \<Longrightarrow>
   \<exists>hs. picks edges hs \<and> mset hs = mset (chosen (timed_edges edges) c @ untimed_hops edges)"
proof (induction edges arbitrary: c)
  case (Cons hops edges)
  show ?case
  proof (cases "with_times hops = []")
    case True
    with Cons obtain hs where "picks edges hs" "mset hs = mset (chosen (timed_edges edges) c @ untimed_hops edges)" by auto
    with True show ?thesis by (intro exI [of _ "hd hops # hs"]) (simp add: picks_def)
  next
    case False
    with Cons.prems obtain k c' where c: "c = k # c'" "k < length (with_times hops)"
      "list_all2 (\<lambda>ts k. k < length ts) (timed_edges edges) c'" by (auto simp: list_all2_Cons1)
    from Cons.IH [OF c(3)] obtain hs where "picks edges hs" "mset hs = mset (chosen (timed_edges edges) c' @ untimed_hops edges)" by blast
    with False c(1,2) show ?thesis
      by (intro exI [of _ "snd (with_times hops ! k) # hs"]) (simp add: picks_def chosen_def)
  qed
qed (simp add: picks_def chosen_def)

lemma picks_to_choice:
  "picks edges hs \<Longrightarrow> [] \<notin> set edges \<Longrightarrow>
   \<exists>c. list_all2 (\<lambda>ts k. k < length ts) (timed_edges edges) c \<and> set (map2 (\<lambda>ts k. fst (ts ! k)) (timed_edges edges) c) = times_of hs"
proof (induction edges arbitrary: hs)
  case (Cons hops edges)
  from Cons.prems obtain h hs' where hs: "hs = h # hs'" "picks edges hs'" 
    and h: "if with_times hops = [] then h = hd hops else h \<in> snd ` set (with_times hops)" by (auto simp: picks_def list_all2_Cons1)
  from Cons.IH [OF hs(2)] Cons.prems(2) obtain c where
    c: "list_all2 (\<lambda>ts k. k < length ts) (timed_edges edges) c" "set (map2 (\<lambda>ts k. fst (ts ! k)) (timed_edges edges) c) = times_of hs'"
    by auto
  show ?case
  proof (cases "with_times hops = []")
    case True
    have "h \<in> set hops" using h True Cons.prems(2) by (cases hops) auto
    moreover have "hop_time x = None" if "x \<in> set hops" for x
    proof (rule ccontr)
      assume "hop_time x \<noteq> None"
      with that have "(the (hop_time x), x) \<in> set (with_times hops)" by (auto simp: with_times_set)
      with True show False by simp
    qed
    ultimately have "times_of hs = times_of hs'" by (auto simp: times_of_def hs(1))
    with True c show ?thesis by (intro exI [of _ c]) simp
  next
    case False
    then obtain t where "(t, h) \<in> set (with_times hops)" using h by (auto simp: image_iff)
    then obtain k where k: "k < length (with_times hops)" "with_times hops ! k = (t, h)" by (auto simp: in_set_conv_nth)
    have "hop_time h = Some t" using \<open>(t, h) \<in> _\<close> by (simp add: with_times_set)
    then have "times_of hs = insert t (times_of hs')" by (auto simp: times_of_def hs(1))
    with False c k show ?thesis by (intro exI [of _ "k # c"]) simp
  qed
qed (simp add: times_of_def picks_def)

lemma times_of_simps [simp]:
  "times_of [] = {}" "times_of (h # hs) = set_option (hop_time h) \<union> times_of hs" "times_of (hs @ hs') = times_of hs \<union> times_of hs'"
  by (auto simp: times_of_def)

lemma times_of_mset: "mset hs = mset hs' \<Longrightarrow> times_of hs = times_of hs'"
  by (drule mset_eq_setD) (simp add: times_of_def)

lemma span_mset: "mset hs = mset hs' \<Longrightarrow> time_span hs = time_span hs'"
  by (drule times_of_mset) (simp add: time_span_def)

lemma span_of_picks:
  assumes "edge_choice timed c" "timed \<noteq> []" "times_of hs = set (map2 (\<lambda>ts k. fst (ts ! k)) timed c)"
  shows "time_span hs = span_of timed c"
proof -
  have "length c = length timed" using assms(1) by (simp add: edge_choice_def)
  with assms(2) have "set (map2 (\<lambda>ts k. fst (ts ! k)) timed c) \<noteq> {}" by (cases c; cases timed) simp_all
  with assms(3) current_image [OF assms(1)] show ?thesis by (simp add: time_span_def span_of_def)
qed

lemma times_of_chosen:
  assumes "list_all2 (\<lambda>ts k. k < length ts) (timed_edges edges) c" "[] \<notin> set edges"
  shows "times_of (chosen (timed_edges edges) c @ untimed_hops edges) = set (map2 (\<lambda>ts k. fst (ts ! k)) (timed_edges edges) c)"
  using assms
proof (induction edges arbitrary: c)
  case (Cons hops edges)
  show ?case
  proof (cases "with_times hops = []")
    case True
    have "hd hops \<in> set hops" using Cons.prems(2) by (cases hops) auto
    moreover have "(t, h) \<notin> set (with_times hops)" for t h using True by simp
    ultimately have "hop_time (hd hops) = None" by (cases "hop_time (hd hops)") (auto simp: with_times_set)
    with Cons True show ?thesis by simp
  next
    case False
    with Cons.prems obtain k c' where c: "c = k # c'" "k < length (with_times hops)"
      "list_all2 (\<lambda>ts k. k < length ts) (timed_edges edges) c'" by (auto simp: list_all2_Cons1)
    have "with_times hops ! k \<in> set (with_times hops)" using c(2) by simp
    then have "hop_time (snd (with_times hops ! k)) = Some (fst (with_times hops ! k))" by (auto simp: with_times_set)
    with False Cons.IH [OF c(3)] Cons.prems(2) c(1) show ?thesis by (simp add: chosen_def)
  qed
qed (simp add: chosen_def)

text \<open>C4: The selection of a ring: nothing is returned only when an edge is missing or no selection fits the window; what is
  returned is a selection, and none has a smaller span.\<close>

theorem ring_selection_exact:
  assumes "0 \<le> max_window"
  shows "case select_timed_cycle_edges g ring max_window of
      None \<Rightarrow> [] \<in> set (map g (edges_of_cycle ring)) \<or> (\<forall>hs. picks (map g (edges_of_cycle ring)) hs \<longrightarrow> max_window < time_span hs)
    | Some sel \<Rightarrow> time_span sel \<le> max_window \<and> (\<exists>hs. picks (map g (edges_of_cycle ring)) hs \<and> mset hs = mset sel) \<and>
        (\<forall>hs. picks (map g (edges_of_cycle ring)) hs \<longrightarrow> time_span sel \<le> time_span hs)"
proof -
  define edges where "edges = map g (edges_of_cycle ring)"
  show ?thesis
  proof (cases "[] \<in> set edges")
    case True
    then show ?thesis by (simp add: select_timed_cycle_edges_def edges_def [symmetric])
  next
    case present: False
    define timed where "timed = timed_edges edges"
    have to_choice: "\<exists>c. edge_choice timed c \<and> times_of hs = set (map2 (\<lambda>ts k. fst (ts ! k)) timed c)" if "picks edges hs" for hs
      using picks_to_choice [OF that present] by (auto simp: choice_list_all2 timed_def)
    show ?thesis
    proof (cases "timed = []")
      case True
      then have sel: "select_timed_cycle_edges g ring max_window = Some (untimed_hops edges)"
        using present by (simp add: select_timed_cycle_edges_def edges_def [symmetric] timed_def [symmetric] Let_def)
      have "times_of hs = {}" if "picks edges hs" for hs using to_choice [OF that] True by (auto simp: edge_choice_def)
      then have zero: "time_span hs = 0" if "picks edges hs" for hs using that by (simp add: time_span_def)
      obtain hs where hs: "picks edges hs" "mset hs = mset (untimed_hops edges)"
        using choice_to_picks [of edges "[]"] True by (auto simp: timed_def chosen_def)
      then have "time_span (untimed_hops edges) = 0" using zero [OF hs(1)] span_mset by metis
      with hs zero assms show ?thesis by (auto simp: sel edges_def [symmetric])
    next
      case False
      have sorted: "sorted (map fst (timed ! i))" if "i < length timed" for i
      proof -
        have "timed ! i \<in> set (map with_times edges)" using nth_mem [OF that] by (auto simp: timed_def)
        then show ?thesis using with_times_sorted by auto
      qed
      have zeros: "edge_choice timed (replicate (length timed) 0)"
        using nth_mem [of _ timed] by (auto simp: edge_choice_def timed_def)
      have start: "Max (set (map (\<lambda>ts. fst (hd ts)) timed)) =
          Max (current timed (replicate (length timed) 0) ` {..<length (replicate (length timed) (0 :: nat))})"
      proof -
        have "fst (hd (timed ! i)) = current timed (replicate (length timed) 0) i" if "i < length timed" for i
          using zeros that by (auto simp: current_def edge_choice_def hd_conv_nth)
        then show ?thesis by (intro arg_cong [where f = Max]) (force simp: in_set_conv_nth image_iff)
      qed
      obtain r c where best: "sweep timed (replicate (length timed) 0) (Max (set (map (\<lambda>ts. fst (hd ts)) timed))) None = Some (r, c)"
        "edge_choice timed c" "r = span_of timed c" "\<And>c'. edge_choice timed c' \<Longrightarrow> r \<le> span_of timed c'"
        using sweep_smallest [OF sorted _ zeros start, of None] False by auto
      have sel: "select_timed_cycle_edges g ring max_window =
          (if max_window < r then None else Some (chosen timed c @ untimed_hops edges))"
        using present False best(1) chosen_nth [OF best(2)]
        by (simp add: select_timed_cycle_edges_def edges_def [symmetric] timed_def [symmetric] Let_def)
      have all2: "list_all2 (\<lambda>ts k. k < length ts) (timed_edges edges) c" using best(2) by (simp add: choice_list_all2 timed_def)
      have mine: "time_span (chosen timed c @ untimed_hops edges) = r"
        using span_of_picks [OF best(2) False] times_of_chosen [OF all2 present] best(3) by (simp add: timed_def)
      have least: "r \<le> time_span hs" if "picks edges hs" for hs
        using to_choice [OF that] span_of_picks [OF _ False] best(4) by fastforce
      obtain hs where "picks edges hs" "mset hs = mset (chosen timed c @ untimed_hops edges)"
        using choice_to_picks [OF all2] by (auto simp: timed_def)
      with mine least sel show ?thesis
        using less_le_trans [OF _ least, of max_window] by (auto simp: edges_def [symmetric])
    qed
  qed
qed

subsection \<open>The search\<close>

record ring =
  rg_accounts :: "string list"
  rg_path :: "string list"
  rg_value :: rat
  rg_length :: nat
  rg_duration :: time
  rg_diversity :: nat
  rg_hashes :: "string list"

record search_config =
  sc_max_length :: int
  sc_window :: time
  sc_min_xlm :: rat
  sc_max_component :: nat
  sc_max_seconds :: "rat option"
  sc_max_cycles :: "int option"

definition default_search :: search_config where
  "default_search = \<lparr>sc_max_length = 6, sc_window = 24 * 3600 * 1000000, sc_min_xlm = 0, sc_max_component = 12,
     sc_max_seconds = Some 5, sc_max_cycles = Some 10000\<rparr>"

definition touches :: "string set option \<Rightarrow> string list \<Rightarrow> bool" where
  "touches roots accounts \<longleftrightarrow> (case roots of None \<Rightarrow> True | Some R \<Rightarrow> set accounts \<inter> R \<noteq> {})"

text \<open>What the loop makes of one cycle, where it qualifies.\<close>

definition ring_of :: "search_config \<Rightarrow> payment_graph \<Rightarrow> string set option \<Rightarrow> string list \<Rightarrow> ring option" where
  "ring_of cfg g roots cycle =
     (if length cycle < 2 \<or> \<not> touches roots cycle then None
      else case select_timed_cycle_edges g cycle (sc_window cfg) of
        None \<Rightarrow> None
      | Some sel \<Rightarrow>
          (let amounts = map hop_amount_xlm sel;
               val = (if amounts = [] then 0 else Min (set amounts));
               path = map hop_source_asset sel;
               times = List.map_filter hop_time sel
           in if val < sc_min_xlm cfg then None
              else Some \<lparr>rg_accounts = cycle, rg_path = path @ [hd path], rg_value = val, rg_length = length cycle,
                rg_duration = (if 2 \<le> length times then Max (set times) - Min (set times) else 0),
                rg_diversity = card ((set (map hop_source_asset sel) \<union> set (map hop_destination_asset sel)) - {''''}),
                rg_hashes = filter (\<lambda>h. h \<noteq> '''') (List.map_filter hop_hash sel)\<rparr>))"

definition signature :: "ring \<Rightarrow> string set \<times> nat" where
  "signature r = (set (rg_accounts r), rg_length r)"

record search_state =
  ss_rings :: "ring list"
  ss_enumerated :: nat
  ss_reads :: nat
  ss_exhausted :: bool

text \<open>The budget: the clock is read (the \<open>n\<close>-th reading is \<open>elapsed n\<close>) only when there is a time limit.\<close>

definition count_spent :: "search_config \<Rightarrow> search_state \<Rightarrow> bool" where
  "count_spent cfg st = (case sc_max_cycles cfg of None \<Rightarrow> False | Some m \<Rightarrow> m \<le> int (ss_enumerated st))"

definition read_clock :: "search_config \<Rightarrow> search_state \<Rightarrow> search_state" where
  "read_clock cfg st = (case sc_max_seconds cfg of None \<Rightarrow> st | Some s \<Rightarrow> st\<lparr>ss_reads := ss_reads st + 1\<rparr>)"

definition try_cycle :: "search_config \<Rightarrow> payment_graph \<Rightarrow> string set option \<Rightarrow> string list \<Rightarrow> search_state \<Rightarrow> search_state" where
  "try_cycle cfg g roots cycle st =
     (let st1 = st\<lparr>ss_enumerated := ss_enumerated st + 1\<rparr>
      in case ring_of cfg g roots cycle of
           None \<Rightarrow> st1
         | Some r \<Rightarrow> if signature r \<in> set (map signature (ss_rings st1)) then st1 else st1\<lparr>ss_rings := ss_rings st1 @ [r]\<rparr>)"

fun search_cycles ::
    "search_config \<Rightarrow> payment_graph \<Rightarrow> string set option \<Rightarrow> (nat \<Rightarrow> rat) \<Rightarrow> string list list \<Rightarrow> search_state \<Rightarrow> search_state" where
  "search_cycles cfg g roots elapsed [] st = st"
| "search_cycles cfg g roots elapsed (cycle # cycles) st =
     (if (case sc_max_seconds cfg of None \<Rightarrow> False | Some s \<Rightarrow> s < elapsed (ss_reads st)) \<or> count_spent cfg st
      then (read_clock cfg st)\<lparr>ss_exhausted := True\<rparr>
      else search_cycles cfg g roots elapsed cycles (try_cycle cfg g roots cycle (read_clock cfg st)))"

definition eligible :: "search_config \<Rightarrow> string set option \<Rightarrow> string list \<Rightarrow> bool" where
  "eligible cfg roots component \<longleftrightarrow> 2 \<le> length component \<and> touches roots component \<and> length component \<le> sc_max_component cfg"

fun search_components ::
    "search_config \<Rightarrow> payment_graph \<Rightarrow> string set option \<Rightarrow> (nat \<Rightarrow> rat) \<Rightarrow> (string list \<times> string list list) list \<Rightarrow> search_state \<Rightarrow> search_state" where
  "search_components cfg g roots elapsed [] st = st"
| "search_components cfg g roots elapsed ((component, cycles) # rest) st =
     (if (case sc_max_seconds cfg of None \<Rightarrow> False | Some s \<Rightarrow> s \<le> elapsed (ss_reads st)) \<or> count_spent cfg st
      then (read_clock cfg st)\<lparr>ss_exhausted := True\<rparr>
      else if \<not> eligible cfg roots component then search_components cfg g roots elapsed rest (read_clock cfg st)
      else let st1 = search_cycles cfg g roots elapsed cycles (read_clock cfg st)
           in if ss_exhausted st1 then st1 else search_components cfg g roots elapsed rest st1)"

datatype search_error = Cycle_length_too_small | Negative_seconds | No_cycles_allowed

definition empty_search :: search_state where
  "empty_search = \<lparr>ss_rings = [], ss_enumerated = 0, ss_reads = 0, ss_exhausted = False\<rparr>"

definition detect_path_payment_cycles ::
    "search_config \<Rightarrow> payment_graph \<Rightarrow> string set option \<Rightarrow> (nat \<Rightarrow> rat) \<Rightarrow> (string list \<times> string list list) list \<Rightarrow> search_error + ring list" where
  "detect_path_payment_cycles cfg g roots elapsed components =
     (if sc_max_length cfg < 2 then Inl Cycle_length_too_small
      else if (case sc_max_seconds cfg of None \<Rightarrow> False | Some s \<Rightarrow> s < 0) then Inl Negative_seconds
      else if (case sc_max_cycles cfg of None \<Rightarrow> False | Some m \<Rightarrow> m < 1) then Inl No_cycles_allowed
      else Inr (sort_key (\<lambda>r. - rg_value r) (ss_rings (search_components cfg g roots elapsed components empty_search))))"

text \<open>Features of one account, and the alerts.\<close>

definition path_cycle_features :: "ring list \<Rightarrow> string \<Rightarrow> rat \<times> rat \<times> rat \<times> rat" where
  "path_cycle_features rings account =
     (let own = filter (\<lambda>r. account \<in> set (rg_accounts r)) rings
      in if own = [] then (0, 0, 0, 0)
         else (of_nat (length own), sum_list (map rg_value own), of_nat (Max (set (map rg_length own))),
               of_nat (card (\<Union> (set (map (\<lambda>r. set (rg_path r)) own)) - {''''}))))"

record ring_alert =
  ra_wallet :: string
  ra_pair :: string
  ra_ring :: ring

definition ring_pair :: "ring \<Rightarrow> string" where
  "ring_pair r = (if 2 \<le> length (rg_path r) then hd (rg_path r) @ ''/'' @ last (rg_path r) else ''UNKNOWN'')"

definition path_payment_cycles_to_alerts :: "ring list \<Rightarrow> ring_alert list" where
  "path_payment_cycles_to_alerts rings =
     map (\<lambda>r. \<lparr>ra_wallet = hd (rg_accounts r), ra_pair = ring_pair r, ra_ring = r\<rparr>) (filter (\<lambda>r. rg_accounts r \<noteq> []) rings)"

subsection \<open>What is found\<close>

definition candidates :: "search_config \<Rightarrow> string set option \<Rightarrow> (string list \<times> string list list) list \<Rightarrow> string list set" where
  "candidates cfg roots components = (\<Union>(component, cycles) \<in> set components. if eligible cfg roots component then set cycles else {})"

definition search_inv :: "search_config \<Rightarrow> payment_graph \<Rightarrow> string set option \<Rightarrow> string list set \<Rightarrow> search_state \<Rightarrow> bool" where
  "search_inv cfg g roots C st \<longleftrightarrow>
     distinct (map signature (ss_rings st)) \<and> (\<forall>r \<in> set (ss_rings st). \<exists>c \<in> C. ring_of cfg g roots c = Some r)"

definition covers :: "search_config \<Rightarrow> payment_graph \<Rightarrow> string set option \<Rightarrow> string list set \<Rightarrow> search_state \<Rightarrow> bool" where
  "covers cfg g roots C st \<longleftrightarrow> (\<forall>c \<in> C. \<forall>r. ring_of cfg g roots c = Some r \<longrightarrow> signature r \<in> signature ` set (ss_rings st))"

lemma read_clock_simps [simp]:
  "ss_rings (read_clock cfg st) = ss_rings st" "ss_enumerated (read_clock cfg st) = ss_enumerated st"
  "ss_exhausted (read_clock cfg st) = ss_exhausted st"
  by (simp_all add: read_clock_def split: option.split)

lemma try_cycle_inv:
  "search_inv cfg g roots C st \<Longrightarrow> c \<in> C \<Longrightarrow> search_inv cfg g roots C (try_cycle cfg g roots c st)"
  by (auto simp: search_inv_def try_cycle_def Let_def split: option.split)

lemma search_cycles_inv:
  "search_inv cfg g roots C st \<Longrightarrow> set cycles \<subseteq> C \<Longrightarrow> search_inv cfg g roots C (search_cycles cfg g roots elapsed cycles st)"
proof (induction cycles arbitrary: st)
  case (Cons c cycles)
  have r: "search_inv cfg g roots C (read_clock cfg st)" using Cons.prems(1) by (simp add: search_inv_def)
  with Cons.IH [OF try_cycle_inv [OF r, of c]] Cons.prems show ?case by (simp add: search_inv_def)
qed simp

lemma search_components_inv:
  "search_inv cfg g roots C st \<Longrightarrow> candidates cfg roots components \<subseteq> C \<Longrightarrow>
   search_inv cfg g roots C (search_components cfg g roots elapsed components st)"
proof (induction components arbitrary: st)
  case (Cons cc components)
  obtain component cycles where cc: "cc = (component, cycles)" by fastforce
  have rest: "candidates cfg roots components \<subseteq> C" "eligible cfg roots component \<Longrightarrow> set cycles \<subseteq> C"
    using Cons.prems(2) by (auto simp: candidates_def cc)
  have r: "search_inv cfg g roots C (read_clock cfg st)" using Cons.prems(1) by (simp add: search_inv_def)
  show ?case
    using Cons.IH [OF r rest(1)] Cons.IH [OF search_cycles_inv [OF r rest(2)] rest(1)] search_cycles_inv [OF r rest(2)] r
    by (auto simp: cc Let_def search_inv_def)
qed simp

lemma search_cycles_covers:
  assumes "sc_max_seconds cfg = None" "sc_max_cycles cfg = None"
  shows "covers cfg g roots C st \<Longrightarrow> \<not> ss_exhausted st \<Longrightarrow>
    covers cfg g roots (C \<union> set cycles) (search_cycles cfg g roots elapsed cycles st) \<and>
    \<not> ss_exhausted (search_cycles cfg g roots elapsed cycles st)"
proof (induction cycles arbitrary: st C)
  case (Cons c cycles)
  have "covers cfg g roots (insert c C) (try_cycle cfg g roots c (read_clock cfg st))" "\<not> ss_exhausted (try_cycle cfg g roots c (read_clock cfg st))"
    using Cons.prems by (auto simp: covers_def try_cycle_def Let_def split: option.split)
  from Cons.IH [OF this] show ?case using assms by (simp add: count_spent_def)
qed simp

lemma search_components_covers:
  assumes "sc_max_seconds cfg = None" "sc_max_cycles cfg = None"
  shows "covers cfg g roots C st \<Longrightarrow> \<not> ss_exhausted st \<Longrightarrow>
    covers cfg g roots (C \<union> candidates cfg roots components) (search_components cfg g roots elapsed components st)"
proof (induction components arbitrary: st C)
  case Nil
  then show ?case by (simp add: candidates_def)
next
  case (Cons cc components)
  obtain component cycles where cc: "cc = (component, cycles)" by fastforce
  have r: "covers cfg g roots C (read_clock cfg st)" "\<not> ss_exhausted (read_clock cfg st)" using Cons.prems by (simp_all add: covers_def)
  note s = search_cycles_covers [OF assms r, of cycles elapsed]
  show ?case
  proof (cases "eligible cfg roots component")
    case True
    then have "C \<union> candidates cfg roots (cc # components) = C \<union> set cycles \<union> candidates cfg roots components"
      by (auto simp: candidates_def cc)
    with Cons.IH [OF conjunct1 [OF s] conjunct2 [OF s]] True s assms show ?thesis by (simp add: cc count_spent_def Let_def)
  next
    case False
    then have "candidates cfg roots (cc # components) = candidates cfg roots components" by (auto simp: candidates_def cc)
    with Cons.IH [OF r] False assms show ?thesis by (simp add: cc count_spent_def)
  qed
qed

text \<open>C19: Every ring found comes from a cycle that qualifies, no two have the same accounts, the largest values come first; without a
  budget every cycle that qualifies is found, up to the set of its accounts.\<close>

theorem detected_rings_exact:
  assumes "detect_path_payment_cycles cfg g roots elapsed components = Inr rings"
  shows "sorted (map (\<lambda>r. - rg_value r) rings) \<and> distinct (map signature rings) \<and>
    (\<forall>r \<in> set rings. \<exists>c \<in> candidates cfg roots components. ring_of cfg g roots c = Some r) \<and>
    (sc_max_seconds cfg = None \<and> sc_max_cycles cfg = None \<longrightarrow>
      (\<forall>c \<in> candidates cfg roots components. \<forall>r. ring_of cfg g roots c = Some r \<longrightarrow> signature r \<in> signature ` set rings))"
proof -
  define st where "st = search_components cfg g roots elapsed components empty_search"
  have rings: "rings = sort_key (\<lambda>r. - rg_value r) (ss_rings st)"
    using assms by (simp add: detect_path_payment_cycles_def st_def split: if_splits)
  have inv: "search_inv cfg g roots (candidates cfg roots components) st"
    unfolding st_def by (rule search_components_inv) (simp_all add: search_inv_def empty_search_def)
  have "covers cfg g roots (candidates cfg roots components) st" if "sc_max_seconds cfg = None" "sc_max_cycles cfg = None"
    using search_components_covers [OF that, of g roots "{}" empty_search components elapsed]
    by (simp add: covers_def empty_search_def st_def)
  with inv show ?thesis
    by (auto simp: rings search_inv_def covers_def distinct_map)
qed

definition there_and_back :: "path_payment list" where
  "there_and_back =
     [\<lparr>pp_source = ''A'', pp_destination = ''B'', pp_source_asset = ''X'', pp_destination_asset = ''Y'', pp_source_amount = 5, pp_time = Some 0, pp_hash = Some ''t1''\<rparr>,
      \<lparr>pp_source = ''A'', pp_destination = ''B'', pp_source_asset = ''X'', pp_destination_asset = ''Y'', pp_source_amount = 7, pp_time = Some 90, pp_hash = Some ''t2''\<rparr>,
      \<lparr>pp_source = ''B'', pp_destination = ''A'', pp_source_asset = ''Y'', pp_destination_asset = ''X'', pp_source_amount = 6, pp_time = Some 100, pp_hash = Some ''t3''\<rparr>]"

lemma there_and_back_selected:
  "select_timed_cycle_edges (build_path_payment_graph there_and_back) [''A'', ''B''] 50 =
     Some [hop_of (there_and_back ! 1), hop_of (there_and_back ! 2)]"
  by code_simp

lemma ring_selection_exact_witness:
  "time_span [hop_of (there_and_back ! 1), hop_of (there_and_back ! 2)] \<le> 50"
  using ring_selection_exact [of 50 "build_path_payment_graph there_and_back" "[''A'', ''B'']"]
  unfolding there_and_back_selected by simp

definition unlimited_search :: search_config where
  "unlimited_search = default_search\<lparr>sc_max_seconds := None, sc_max_cycles := None\<rparr>"

lemma detected_rings_exact_witness:
  "case detect_path_payment_cycles unlimited_search (build_path_payment_graph there_and_back) None (\<lambda>_. 0) [([''A'', ''B''], [[''A'', ''B'']])] of
     Inl e \<Rightarrow> False | Inr rings \<Rightarrow> rings \<noteq> []"
proof -
  let ?g = "build_path_payment_graph there_and_back"
  obtain rings where r: "detect_path_payment_cycles unlimited_search ?g None (\<lambda>_. 0) [([''A'', ''B''], [[''A'', ''B'']])] = Inr rings"
    by (simp add: detect_path_payment_cycles_def unlimited_search_def default_search_def)
  have "[''A'', ''B''] \<in> candidates unlimited_search None [([''A'', ''B''], [[''A'', ''B'']])]"
    by (simp add: candidates_def eligible_def touches_def unlimited_search_def default_search_def)
  moreover have "ring_of unlimited_search ?g None [''A'', ''B''] \<noteq> None" by code_simp
  moreover have "sc_max_seconds unlimited_search = None" "sc_max_cycles unlimited_search = None"
    by (simp_all add: unlimited_search_def)
  ultimately have "rings \<noteq> []" using detected_rings_exact [OF r] by auto
  with r show ?thesis by simp
qed

text \<open>The asset pair of an alert always names one asset twice: the path of a ring ends with the asset it starts with.\<close>

lemma ring_pair_one_asset:
  assumes "ring_of cfg g roots cycle = Some r" "rg_path r \<noteq> [hd (rg_path r)]"
  shows "ring_pair r = hd (rg_path r) @ ''/'' @ hd (rg_path r)"
proof -
  obtain path where "rg_path r = path @ [hd path]"
    using assms(1) by (auto simp: ring_of_def Let_def split: if_splits option.splits)
  with assms(2) show ?thesis by (cases path) (simp_all add: ring_pair_def)
qed

text \<open>Two rings over the same accounts in opposite directions count as one: only the first is kept, whatever their values.\<close>

lemma opposite_rings_merged:
  assumes "ring_of cfg g roots c = Some r" "ring_of cfg g roots (rev c) = Some r'"
  shows "signature r' = signature r"
  using assms by (auto simp: ring_of_def signature_def Let_def split: if_splits option.splits)

end
