(* ===== verification/Drift_Detectors.thy ===== *)
theory Drift_Detectors
  imports LL_Prelude
begin

text \<open>
  The streaming drift detectors (\<open>detection/drift_detectors.py\<close>): the adaptive window of ADWIN as an exponential histogram of
  buckets, the Page-Hinkley test, and the registry that feeds one pair of them per feature. Values are exact reals.
\<close>

subsection \<open>Buckets\<close>

record bucket =
  bk_n :: nat
  bk_total :: real
  bk_variance :: real

definition combine_stats :: "bucket \<Rightarrow> bucket \<Rightarrow> bucket" where
  "combine_stats b1 b2 =
     (let n1 = bk_n b1; n2 = bk_n b2; n = n1 + n2
      in if n = 0 then \<lparr>bk_n = 0, bk_total = 0, bk_variance = 0\<rparr>
         else let mean1 = (if n1 \<noteq> 0 then bk_total b1 / real n1 else 0);
                  mean2 = (if n2 \<noteq> 0 then bk_total b2 / real n2 else 0);
                  delta = mean1 - mean2
              in \<lparr>bk_n = n, bk_total = bk_total b1 + bk_total b2,
                  bk_variance = bk_variance b1 + bk_variance b2 + delta * delta * real n1 * real n2 / real n\<rparr>)"

definition no_stats :: bucket where
  "no_stats = \<lparr>bk_n = 0, bk_total = 0, bk_variance = 0\<rparr>"

definition single :: "real \<Rightarrow> bucket" where
  "single v = \<lparr>bk_n = 1, bk_total = v, bk_variance = 0\<rparr>"

text \<open>The window: rows of buckets, each row oldest first, a higher row is older.\<close>

record adwin =
  aw_delta :: real
  aw_max :: nat
  aw_rows :: "bucket list list"
  aw_stats :: bucket
  aw_drift :: bool
  aw_detections :: nat
  aw_last :: "nat option"

definition new_adwin :: "real \<Rightarrow> nat \<Rightarrow> adwin option" where
  "new_adwin delta m =
     (if 0 < delta \<and> delta < 1
      then Some \<lparr>aw_delta = delta, aw_max = m, aw_rows = [[]], aw_stats = no_stats, aw_drift = False, aw_detections = 0, aw_last = None\<rparr>
      else None)"

text \<open>Merging the two oldest buckets of a row that is too long into the next row, and so on upwards.\<close>

fun compress :: "nat \<Rightarrow> bucket list list \<Rightarrow> bucket list list" where
  "compress m [] = []"
| "compress m [row] =
     (if m < length row
      then (case row of b1 # b2 # bs \<Rightarrow> bs # compress m [[combine_stats b1 b2]] | _ \<Rightarrow> [row])
      else [row])"
| "compress m (row # row' # rows) =
     (if m < length row
      then (case row of b1 # b2 # bs \<Rightarrow> bs # compress m ((row' @ [combine_stats b1 b2]) # rows) | _ \<Rightarrow> row # row' # rows)
      else row # row' # rows)"

declare compress.simps [simp del]

definition ordered_buckets :: "bucket list list \<Rightarrow> bucket list" where
  "ordered_buckets rows = concat (rev rows)"

definition refold :: "adwin \<Rightarrow> adwin" where
  "refold a = a\<lparr>aw_stats := foldl combine_stats no_stats (ordered_buckets (aw_rows a))\<rparr>"

definition epsilon_cut :: "adwin \<Rightarrow> int \<Rightarrow> int \<Rightarrow> real option" where
  "epsilon_cut a n0 n1 =
     (let n = bk_n (aw_stats a)
      in if n \<le> 1 \<or> n0 < 1 \<or> n1 < 1 then None
         else let delta' = aw_delta a / max (ln (real (max n 2))) (1 / 10 ^ 9);
                  m = 1 / (1 / real_of_int n0 + 1 / real_of_int n1);
                  variance = max (bk_variance (aw_stats a) / real n) (1 / 10 ^ 12)
              in Some (sqrt (2 / m * variance * ln (2 / delta')) + 2 / (3 * m) * ln (2 / delta')))"

text \<open>The number of oldest buckets to drop at the first cut point whose means differ by more than the bound.\<close>

fun find_cut :: "adwin \<Rightarrow> bucket \<Rightarrow> nat \<Rightarrow> bucket list \<Rightarrow> nat option" where
  "find_cut a acc i (b # b' # bs) =
     (let acc' = combine_stats acc b; n0 = int (bk_n acc'); n1 = int (bk_n (aw_stats a)) - n0
      in if n0 < 1 \<or> n1 < 1 then find_cut a acc' (i + 1) (b' # bs)
         else let mean0 = bk_total acc' / real_of_int n0; mean1 = (bk_total (aw_stats a) - bk_total acc') / real_of_int n1
              in case epsilon_cut a n0 n1 of
                   Some eps \<Rightarrow> if eps < \<bar>mean0 - mean1\<bar> then Some (i + 1) else find_cut a acc' (i + 1) (b' # bs)
                 | None \<Rightarrow> find_cut a acc' (i + 1) (b' # bs))"
| "find_cut a acc i bs = None"

fun drop_oldest_rows :: "nat \<Rightarrow> bucket list list \<Rightarrow> bucket list list" where
  "drop_oldest_rows k [] = []"
| "drop_oldest_rows k (row # rows) = drop k row # drop_oldest_rows (k - length row) rows"

definition maybe_cut :: "adwin \<Rightarrow> adwin option" where
  "maybe_cut a =
     (if bk_n (aw_stats a) < 2 * aw_max a then None
      else map_option (\<lambda>k. a\<lparr>aw_rows := rev (drop_oldest_rows k (rev (aw_rows a)))\<rparr>)
             (find_cut a no_stats 0 (ordered_buckets (aw_rows a))))"

lemma drop_oldest_rows_concat: "concat (drop_oldest_rows k rows) = drop k (concat rows)"
  by (induction k rows rule: drop_oldest_rows.induct) auto

lemma find_cut_bounds: "find_cut a acc i bs = Some k \<Longrightarrow> i < k \<and> k < i + length bs"
proof (induction bs arbitrary: acc i)
  case (Cons b bs)
  have next_cut: "i < k \<and> k < i + length (b # bs)" if "find_cut a acc' (i + 1) bs = Some k" for acc'
    using Cons.IH [OF that] by simp
  show ?case
  proof (cases bs)
    case Nil
    with Cons.prems show ?thesis by simp
  next
    case (Cons b' bs')
    with Cons.prems next_cut show ?thesis by (auto simp: Let_def split: if_splits option.splits)
  qed
qed simp

lemma maybe_cut_buckets:
  "maybe_cut a = Some a' \<Longrightarrow> \<exists>k. 0 < k \<and> k < length (ordered_buckets (aw_rows a)) \<and>
     a' = a\<lparr>aw_rows := rev (drop_oldest_rows k (rev (aw_rows a)))\<rparr> \<and>
     ordered_buckets (aw_rows a') = drop k (ordered_buckets (aw_rows a))"
  by (auto simp: maybe_cut_def ordered_buckets_def drop_oldest_rows_concat dest!: find_cut_bounds split: if_splits)

function cut_all :: "adwin \<Rightarrow> adwin" where
  "cut_all a = (case maybe_cut a of None \<Rightarrow> a | Some a' \<Rightarrow> cut_all (refold (a'\<lparr>aw_drift := True\<rparr>)))"
  by pat_completeness auto
termination
proof (relation "measure (\<lambda>a. length (ordered_buckets (aw_rows a)))", simp)
  fix a a' :: adwin
  assume "maybe_cut a = Some a'"
  then show "(refold (a'\<lparr>aw_drift := True\<rparr>), a) \<in> measure (\<lambda>a. length (ordered_buckets (aw_rows a)))"
    by (auto dest!: maybe_cut_buckets simp: refold_def)
qed

declare cut_all.simps [simp del]

definition update_adwin :: "real \<Rightarrow> adwin \<Rightarrow> bool \<times> adwin" where
  "update_adwin v a =
     (let a1 = refold (a\<lparr>aw_rows := compress (aw_max a) ((hd (aw_rows a) @ [single v]) # tl (aw_rows a))\<rparr>);
          a2 = cut_all (a1\<lparr>aw_drift := False\<rparr>);
          a3 = (if aw_drift a2 then a2\<lparr>aw_detections := aw_detections a2 + 1, aw_last := Some (bk_n (aw_stats a2))\<rparr> else a2)
      in (aw_drift a3, a3))"

definition estimation :: "adwin \<Rightarrow> real" where
  "estimation a = (if bk_n (aw_stats a) \<noteq> 0 then bk_total (aw_stats a) / real (bk_n (aw_stats a)) else 0)"

subsection \<open>Page-Hinkley\<close>

record page_hinkley =
  ph_delta :: real
  ph_threshold :: real
  ph_alpha :: real
  ph_mean :: real
  ph_n :: nat
  ph_cumulative :: real
  ph_min :: real
  ph_drift :: bool
  ph_detections :: nat
  ph_last :: "nat option"

definition new_page_hinkley :: "real \<Rightarrow> real \<Rightarrow> real \<Rightarrow> page_hinkley" where
  "new_page_hinkley delta threshold alpha =
     \<lparr>ph_delta = delta, ph_threshold = threshold, ph_alpha = alpha, ph_mean = 0, ph_n = 0, ph_cumulative = 0, ph_min = 0,
      ph_drift = False, ph_detections = 0, ph_last = None\<rparr>"

definition statistic :: "page_hinkley \<Rightarrow> real" where
  "statistic p = ph_cumulative p - ph_min p"

definition update_page_hinkley :: "real \<Rightarrow> page_hinkley \<Rightarrow> bool \<times> page_hinkley" where
  "update_page_hinkley v p =
     (let n = ph_n p + 1;
          mean = ph_mean p + (v - ph_mean p) / real n;
          cum = ph_alpha p * ph_cumulative p + (v - mean - ph_delta p);
          p1 = p\<lparr>ph_n := n, ph_mean := mean, ph_cumulative := cum, ph_min := min (ph_min p) cum\<rparr>;
          drift = ph_threshold p1 < statistic p1;
          p2 = p1\<lparr>ph_drift := drift\<rparr>
      in (drift,
          if drift then p2\<lparr>ph_detections := ph_detections p2 + 1, ph_last := Some n, ph_cumulative := 0, ph_min := 0\<rparr> else p2))"

subsection \<open>Configuration and registry\<close>

text \<open>Overrides are nested dictionaries; a number, a truth value or anything else at a leaf.\<close>

datatype override = Number real | Truth bool | Other | Dict "(string \<times> override) list"

datatype threshold_error = Attribute_error | Type_error | Value_error

definition is_dict :: "override \<Rightarrow> bool" where
  "is_dict d = (case d of Dict kvs \<Rightarrow> True | _ \<Rightarrow> False)"

definition dict_get :: "string \<Rightarrow> override \<Rightarrow> override \<Rightarrow> override" where
  "dict_get k d e = (case d of Dict kvs \<Rightarrow> (case map_of kvs k of Some v \<Rightarrow> v | None \<Rightarrow> e) | _ \<Rightarrow> e)"

definition config_value :: "override \<Rightarrow> string \<Rightarrow> string \<Rightarrow> string \<Rightarrow> override \<Rightarrow> threshold_error + real" where
  "config_value overrides feature test parameter dflt =
     (let feature_config = dict_get feature overrides (Dict [])
      in if \<not> is_dict feature_config then Inl Attribute_error
         else let test_config = dict_get test feature_config (Dict [])
              in if \<not> is_dict test_config then Inl Type_error
                 else case dict_get parameter test_config (dict_get parameter feature_config dflt) of
                        Number x \<Rightarrow> Inr x
                      | _ \<Rightarrow> Inl Value_error)"

text \<open>The registry's constructor reads two names that are neither parameters nor globals.\<close>

datatype construction = Name_error string

definition drift_registry :: "string list \<Rightarrow> construction" where
  "drift_registry feature_names = Name_error ''feature_config''"

definition get_drift_registry :: "string list \<Rightarrow> construction" where
  "get_drift_registry feature_names = drift_registry feature_names"

text \<open>What the methods do on a registry that holds a pair of detectors for every feature.\<close>

record registry =
  rg_detectors :: "(string \<times> adwin \<times> page_hinkley) list"
  rg_drifted :: "string list"
  rg_last_event :: "time option"
  rg_detection_width :: "nat option"
  rg_callback :: bool
  rg_in_flight :: bool
  rg_requested :: "time option"

definition request_retraining :: "time \<Rightarrow> registry \<Rightarrow> bool \<times> registry" where
  "request_retraining now r =
     (if \<not> rg_callback r \<or> rg_in_flight r then (False, r)
      else (True, r\<lparr>rg_in_flight := True, rg_requested := Some now\<rparr>))"

definition retraining_done :: "registry \<Rightarrow> registry" where
  "retraining_done r = r\<lparr>rg_in_flight := False\<rparr>"

datatype detector = Adwin | Page_hinkley

text \<open>One value: \<open>None\<close> stands for what is not a number, or not-a-number.\<close>

definition observe_value :: "string \<times> real option \<Rightarrow> registry \<Rightarrow> (string \<times> detector \<times> real) list \<times> registry" where
  "observe_value nv r =
     (case nv of (name, value) \<Rightarrow>
     (case (map_of (rg_detectors r) name, value) of
        (Some (a, p), Some v) \<Rightarrow>
          (let (fa, a') = update_adwin v a; (fp, p') = update_page_hinkley v p
           in ((if fa then [(name, Adwin, estimation a')] else []) @ (if fp then [(name, Page_hinkley, statistic p')] else []),
               r\<lparr>rg_detectors := map (\<lambda>(n, d). if n = name then (n, a', p') else (n, d)) (rg_detectors r)\<rparr>))
      | _ \<Rightarrow> ([], r)))"

fun observe_values :: "(string \<times> real option) list \<Rightarrow> registry \<Rightarrow> (string \<times> detector \<times> real) list \<times> registry" where
  "observe_values [] r = ([], r)"
| "observe_values (nv # nvs) r =
     (case observe_value nv r of (fired, r1) \<Rightarrow> (case observe_values nvs r1 of (rest, r2) \<Rightarrow> (fired @ rest, r2)))"

definition width_of :: "registry \<Rightarrow> string \<Rightarrow> nat" where
  "width_of r name = (case map_of (rg_detectors r) name of Some (a, p) \<Rightarrow> bk_n (aw_stats a) | None \<Rightarrow> 0)"

definition observe_features :: "time \<Rightarrow> (string \<times> real option) list \<Rightarrow> registry \<Rightarrow> (string \<times> detector \<times> real) list \<times> registry" where
  "observe_features now vector r =
     (case observe_values vector r of (fired, r1) \<Rightarrow>
        if fired = [] then (fired, r1)
        else (let drifted = sort (remdups (map fst fired));
                  r2 = r1\<lparr>rg_drifted := drifted, rg_last_event := Some now,
                          rg_detection_width := Some (Max (set (map (width_of r1) drifted)))\<rparr>
              in (fired, snd (request_retraining now r2))))"

definition drift_active :: "int \<Rightarrow> registry \<Rightarrow> bool" where
  "drift_active cooldown r =
     (case rg_detection_width r of
        None \<Rightarrow> False
      | Some w \<Rightarrow>
          (let ws = map (\<lambda>(n, a, p). bk_n (aw_stats a)) (rg_detectors r)
           in int (if ws = [] then 0 else Max (set ws)) - int w \<le> cooldown))"

subsection \<open>The window holds exact statistics\<close>

definition deviations :: "real list \<Rightarrow> real" where
  "deviations p = sum_list (map (\<lambda>x. (x - sum_list p / real (length p))\<^sup>2) p)"

definition exact :: "bucket \<Rightarrow> real list \<Rightarrow> bool" where
  "exact b p \<longleftrightarrow> bk_n b = length p \<and> bk_total b = sum_list p \<and> bk_variance b = deviations p"

lemma deviations_squares: "deviations p = sum_list (map power2 p) - (sum_list p)\<^sup>2 / real (length p)"
proof (cases "p = []")
  case False
  define m where "m = sum_list p / real (length p)"
  have len: "real (length p) \<noteq> 0" using False by simp
  have expand: "sum_list (map (\<lambda>x. (x - c)\<^sup>2) q) = sum_list (map power2 q) - 2 * c * sum_list q + real (length q) * c\<^sup>2" for c q
    by (induction q) (simp_all add: power2_eq_square algebra_simps)
  have "real (length p) * m\<^sup>2 = (sum_list p)\<^sup>2 / real (length p)" "m * sum_list p = (sum_list p)\<^sup>2 / real (length p)"
    using len by (simp_all add: m_def power2_eq_square)
  then show ?thesis unfolding deviations_def m_def [symmetric] expand by simp
qed (simp add: deviations_def)

lemma combine_exact:
  assumes "exact b1 p1" "exact b2 p2"
  shows "exact (combine_stats b1 b2) (p1 @ p2)"
proof (cases "p1 = [] \<or> p2 = []")
  case True
  with assms show ?thesis by (auto simp: exact_def combine_stats_def Let_def deviations_def)
next
  case False
  define m n where "m = real (length p1)" and "n = real (length p2)"
  have pos: "0 < m" "0 < n" using False by (simp_all add: m_def n_def)
  have key: "A - S\<^sup>2 / m + (B - T\<^sup>2 / n) + (S / m - T / n) * (S / m - T / n) * m * n / (m + n) = A + B - (S + T)\<^sup>2 / (m + n)"
    for A B S T :: real
  proof -
    have "(S / m - T / n) * (S / m - T / n) * m * n = S\<^sup>2 * n / m + T\<^sup>2 * m / n - 2 * S * T"
      using pos by (simp add: field_simps power2_eq_square)
    then have "(S / m - T / n) * (S / m - T / n) * m * n / (m + n) = (S\<^sup>2 * n / m + T\<^sup>2 * m / n - 2 * S * T) / (m + n)" by simp
    also have "\<dots> = S\<^sup>2 / m + T\<^sup>2 / n - (S + T)\<^sup>2 / (m + n)"
      using pos by (simp add: field_simps power2_eq_square)
    finally show ?thesis by simp
  qed
  from assms False show ?thesis
    using key [of "sum_list (map power2 p1)" "sum_list p1" "sum_list (map power2 p2)" "sum_list p2"]
    by (simp add: exact_def combine_stats_def Let_def deviations_squares m_def n_def)
qed

text \<open>The buckets hold a stretch of values, oldest first.\<close>

fun hold :: "bucket list \<Rightarrow> real list \<Rightarrow> bool" where
  "hold [] w \<longleftrightarrow> w = []"
| "hold (b # bs) w \<longleftrightarrow> (\<exists>p v. w = p @ v \<and> exact b p \<and> hold bs v)"

lemma hold_append: "hold (xs @ ys) w \<longleftrightarrow> (\<exists>u v. w = u @ v \<and> hold xs u \<and> hold ys v)"
  by (induction xs arbitrary: w) (simp_all, metis append_assoc)

lemma hold_drop: "hold bs w \<Longrightarrow> \<exists>u v. w = u @ v \<and> hold (drop k bs) v"
  using hold_append [of "take k bs" "drop k bs" w] by auto

lemma hold_combine: "hold (b1 # b2 # bs) w \<Longrightarrow> hold (combine_stats b1 b2 # bs) w"
  by (auto simp: combine_exact) (metis append_assoc combine_exact)

lemma fold_exact: "exact acc u \<Longrightarrow> hold bs w \<Longrightarrow> exact (foldl combine_stats acc bs) (u @ w)"
proof (induction bs arbitrary: acc u w)
  case (Cons b bs)
  then obtain p v where w: "w = p @ v" "exact b p" "hold bs v" by auto
  from Cons.IH [OF combine_exact [OF Cons.prems(1) w(2)] w(3)] w(1) show ?case by simp
qed simp

lemma ordered_Cons: "ordered_buckets (row # rows) = ordered_buckets rows @ row"
  by (simp add: ordered_buckets_def)

lemma two_front: "2 \<le> length row \<Longrightarrow> \<exists>b1 b2 bs. row = b1 # b2 # bs"
  by (cases row; cases "tl row") auto

lemma compress_short:
  assumes "\<not> (m < length row \<and> 2 \<le> length row)"
  shows "compress m (row # rows) = row # rows"
proof (cases rows)
  case Nil
  show ?thesis unfolding Nil by (subst compress.simps(2)) (use assms in \<open>auto split: list.split\<close>)
next
  case (Cons row' rest)
  show ?thesis unfolding Cons by (subst compress.simps(3)) (use assms in \<open>auto split: list.split\<close>)
qed

lemma compress_merge:
  assumes "m < length (b1 # b2 # bs)"
  shows "compress m [b1 # b2 # bs] = bs # compress m [[combine_stats b1 b2]]"
    and "compress m ((b1 # b2 # bs) # row' # rows) = bs # compress m ((row' @ [combine_stats b1 b2]) # rows)"
  by (subst compress.simps(2), use assms in simp) (subst compress.simps(3), use assms in simp)

lemma compress_holds: "hold (ordered_buckets rows) w \<Longrightarrow> hold (ordered_buckets (compress m rows)) w"
proof (induction m rows arbitrary: w rule: compress.induct)
  case (2 m row)
  show ?case
  proof (cases "m < length row \<and> 2 \<le> length row")
    case True
    then obtain b1 b2 bs where row: "row = b1 # b2 # bs" using two_front by blast
    have "hold ([combine_stats b1 b2] @ bs) w"
      using hold_combine [of b1 b2 bs w] 2(2) by (simp add: row ordered_buckets_def)
    then obtain u v where w: "w = u @ v" "hold [combine_stats b1 b2] u" "hold bs v" unfolding hold_append by blast
    have "hold (ordered_buckets [[combine_stats b1 b2]]) u" using w(2) by (simp add: ordered_buckets_def)
    with 2(1) [OF _ row refl, of u] True have "hold (ordered_buckets (compress m [[combine_stats b1 b2]])) u" by (simp add: row)
    then have "hold (ordered_buckets (compress m [[combine_stats b1 b2]]) @ bs) (u @ v)"
      unfolding hold_append using w(3) by blast
    moreover have "compress m [row] = bs # compress m [[combine_stats b1 b2]]" using True row by (simp add: compress_merge)
    ultimately show ?thesis using w(1) by (simp only: ordered_Cons)
  next
    case False
    with 2(2) compress_short [of m row "[]"] show ?thesis by simp
  qed
next
  case (3 m row row' rows)
  show ?case
  proof (cases "m < length row \<and> 2 \<le> length row")
    case True
    then obtain b1 b2 bs where row: "row = b1 # b2 # bs" using two_front by blast
    from 3(2) obtain u v where w: "w = u @ v" "hold (ordered_buckets (row' # rows)) u" "hold (b1 # b2 # bs) v"
      unfolding row ordered_Cons [of "b1 # b2 # bs"] hold_append by blast
    from hold_combine [OF w(3)] obtain p v' where v: "v = p @ v'" "exact (combine_stats b1 b2) p" "hold bs v'" by auto
    have "hold (ordered_buckets ((row' @ [combine_stats b1 b2]) # rows)) (u @ p)"
    proof -
      have "hold (ordered_buckets (row' # rows) @ [combine_stats b1 b2]) (u @ p)"
        unfolding hold_append using w(2) v(2) by (intro exI [of _ u] exI [of _ p]) simp
      then show ?thesis by (simp add: ordered_Cons)
    qed
    with 3(1) [OF _ row refl, of "u @ p"] True
    have "hold (ordered_buckets (compress m ((row' @ [combine_stats b1 b2]) # rows))) (u @ p)" by (simp add: row)
    then have "hold (ordered_buckets (compress m ((row' @ [combine_stats b1 b2]) # rows)) @ bs) ((u @ p) @ v')"
      unfolding hold_append using v(3) by blast
    with True w(1) v(1) show ?thesis by (simp add: row ordered_Cons compress_merge)
  next
    case False
    with 3(2) compress_short [of m row "row' # rows"] show ?thesis by simp
  qed
qed (simp add: compress.simps)

text \<open>A bucket of row \<open>k\<close> counts \<open>2 ^ k\<close> values, and no row is longer than the maximum.\<close>

fun sized :: "nat \<Rightarrow> nat \<Rightarrow> bucket list list \<Rightarrow> bool" where
  "sized m k [] \<longleftrightarrow> True"
| "sized m k (row # rows) \<longleftrightarrow> length row \<le> m \<and> (\<forall>b \<in> set row. bk_n b = 2 ^ k) \<and> sized m (Suc k) rows"

lemma combine_n: "bk_n (combine_stats b1 b2) = bk_n b1 + bk_n b2"
  by (simp add: combine_stats_def Let_def)

lemma compress_sized:
  "1 \<le> m \<Longrightarrow> length row \<le> Suc m \<Longrightarrow> \<forall>b \<in> set row. bk_n b = 2 ^ k \<Longrightarrow> sized m (Suc k) rows \<Longrightarrow> sized m k (compress m (row # rows))"
proof (induction rows arbitrary: row k)
  case Nil
  then show ?case
  proof (cases "m < length row")
    case True
    with Nil(1) have "2 \<le> length row" by linarith
    then obtain b1 b2 bs where row: "row = b1 # b2 # bs" using two_front by blast
    with Nil True show ?thesis by (simp add: compress_merge compress_short combine_n)
  qed (simp add: compress_short)
next
  case (Cons row' rows)
  show ?case
  proof (cases "m < length row")
    case True
    with Cons.prems(1) have "2 \<le> length row" by linarith
    then obtain b1 b2 bs where row: "row = b1 # b2 # bs" using two_front by blast
    have "sized m (Suc k) (compress m ((row' @ [combine_stats b1 b2]) # rows))"
      by (rule Cons.IH) (use Cons.prems row in \<open>auto simp: combine_n\<close>)
    with Cons.prems True row show ?thesis by (simp add: compress_merge)
  qed (use Cons.prems in \<open>auto simp: compress_short\<close>)
qed

lemma sized_shrink:
  "list_all2 (\<lambda>r r'. set r' \<subseteq> set r \<and> length r' \<le> length r) rows rows' \<Longrightarrow> sized m k rows \<Longrightarrow> sized m k rows'"
  by (induction rows rows' arbitrary: k rule: list_all2_induct) auto

lemma dropped_rows:
  "list_all2 (\<lambda>r r'. set r' \<subseteq> set r \<and> length r' \<le> length r) rows (rev (drop_oldest_rows k (rev rows)))"
proof -
  have "list_all2 (\<lambda>r r'. set r' \<subseteq> set r \<and> length r' \<le> length r) rows (drop_oldest_rows k rows)" for rows
    by (induction k rows rule: drop_oldest_rows.induct) (simp_all add: set_drop_subset)
  from this [of "rev rows"] show ?thesis by (subst list_all2_rev [symmetric]) simp
qed

definition adwin_inv :: "adwin \<Rightarrow> real list \<Rightarrow> bool" where
  "adwin_inv a w \<longleftrightarrow> 1 \<le> aw_max a \<and> aw_rows a \<noteq> [] \<and> hold (ordered_buckets (aw_rows a)) w \<and> exact (aw_stats a) w \<and> sized (aw_max a) 0 (aw_rows a)"

lemma refold_simps [simp]:
  "aw_rows (refold a) = aw_rows a" "aw_max (refold a) = aw_max a" "aw_delta (refold a) = aw_delta a" "aw_drift (refold a) = aw_drift a"
  by (simp_all add: refold_def)

lemma refold_exact: "hold (ordered_buckets (aw_rows a)) w \<Longrightarrow> exact (aw_stats (refold a)) w"
  using fold_exact [of no_stats "[]"] by (simp add: refold_def exact_def no_stats_def deviations_def)

lemma hold_positive: "hold bs w \<Longrightarrow> \<forall>b \<in> set bs. 0 < bk_n b \<Longrightarrow> bs \<noteq> [] \<Longrightarrow> w \<noteq> []"
  by (induction bs arbitrary: w) (auto simp: exact_def)

lemma sized_positive: "sized m k rows \<Longrightarrow> b \<in> set (ordered_buckets rows) \<Longrightarrow> 0 < bk_n b"
  by (induction m k rows rule: sized.induct) (auto simp: ordered_buckets_def)

lemma cut_inv:
  assumes "adwin_inv a w" "maybe_cut a = Some a'"
  shows "\<exists>u v. w = u @ v \<and> u \<noteq> [] \<and> adwin_inv (refold (a'\<lparr>aw_drift := True\<rparr>)) v"
proof -
  from maybe_cut_buckets [OF assms(2)] obtain k where k: "0 < k" "k < length (ordered_buckets (aw_rows a))"
    "a' = a\<lparr>aw_rows := rev (drop_oldest_rows k (rev (aw_rows a)))\<rparr>" "ordered_buckets (aw_rows a') = drop k (ordered_buckets (aw_rows a))"
    by blast
  define bs where "bs = ordered_buckets (aw_rows a)"
  from assms(1) have "hold (take k bs @ drop k bs) w" by (simp add: adwin_inv_def bs_def)
  then obtain u v where w: "w = u @ v" "hold (take k bs) u" "hold (drop k bs) v" unfolding hold_append by blast
  have "\<forall>b \<in> set (take k bs). 0 < bk_n b"
    using sized_positive [of "aw_max a" 0 "aw_rows a"] assms(1) by (auto simp: adwin_inv_def bs_def dest: in_set_takeD)
  moreover have "take k bs \<noteq> []" using k(1,2) by (auto simp: bs_def)
  ultimately have "u \<noteq> []" by (rule hold_positive [OF w(2)])
  moreover have "adwin_inv (refold (a'\<lparr>aw_drift := True\<rparr>)) v"
  proof -
    have "hold (ordered_buckets (aw_rows a')) v" using w(3) k(4) by (simp add: bs_def)
    moreover have "sized (aw_max a) 0 (rev (drop_oldest_rows k (rev (aw_rows a))))"
      using sized_shrink [OF dropped_rows] assms(1) by (simp add: adwin_inv_def)
    moreover have "rev (drop_oldest_rows k (rev (aw_rows a))) \<noteq> []"
      using assms(1) dropped_rows [of "aw_rows a" k] by (auto simp: adwin_inv_def)
    ultimately show ?thesis
      using assms(1) refold_exact [of "a'\<lparr>aw_drift := True\<rparr>" v] by (simp add: adwin_inv_def k(3))
  qed
  ultimately show ?thesis using w(1) by blast
qed

lemma cut_all_inv:
  "adwin_inv a w \<Longrightarrow> \<exists>u v. w = u @ v \<and> adwin_inv (cut_all a) v \<and> maybe_cut (cut_all a) = None \<and>
     (u = [] \<longleftrightarrow> maybe_cut a = None) \<and> (aw_drift (cut_all a) \<longleftrightarrow> aw_drift a \<or> maybe_cut a \<noteq> None) \<and> aw_max (cut_all a) = aw_max a"
proof (induction a arbitrary: w rule: cut_all.induct)
  case (1 a)
  show ?case
  proof (cases "maybe_cut a")
    case None
    with 1(2) show ?thesis by (subst (1 2 3 4) cut_all.simps) auto
  next
    case (Some a')
    define a2 where "a2 = refold (a'\<lparr>aw_drift := True\<rparr>)"
    have step: "cut_all a = cut_all a2" using Some by (subst cut_all.simps) (simp add: a2_def)
    from cut_inv [OF 1(2) Some] obtain u v where w: "w = u @ v" "u \<noteq> []" "adwin_inv a2 v" by (auto simp: a2_def)
    from 1(1) [OF Some, folded a2_def, OF w(3)] obtain u' v' where v: "v = u' @ v'" "adwin_inv (cut_all a2) v'"
      "maybe_cut (cut_all a2) = None" "aw_drift (cut_all a2) \<longleftrightarrow> aw_drift a2 \<or> maybe_cut a2 \<noteq> None" "aw_max (cut_all a2) = aw_max a2" by blast
    have "aw_drift a2" "aw_max a2 = aw_max a" using maybe_cut_buckets [OF Some] by (auto simp: a2_def)
    with v w(1,2) Some show ?thesis unfolding step by (intro exI [of _ "u @ u'"] exI [of _ v']) simp
  qed
qed

lemma adwin_inv_flags [simp]:
  "adwin_inv (a\<lparr>aw_drift := d\<rparr>) w = adwin_inv a w" "adwin_inv (a\<lparr>aw_detections := n\<rparr>) w = adwin_inv a w"
  "adwin_inv (a\<lparr>aw_last := l\<rparr>) w = adwin_inv a w"
  by (simp_all add: adwin_inv_def)

lemma maybe_cut_flags:
  "maybe_cut (a\<lparr>aw_detections := n, aw_last := l\<rparr>) = None \<longleftrightarrow> maybe_cut a = None"
proof -
  have "find_cut (a\<lparr>aw_detections := n, aw_last := l\<rparr>) acc i bs = find_cut a acc i bs" for acc i bs
    by (induction a acc i bs rule: find_cut.induct) (simp_all add: epsilon_cut_def Let_def)
  then show ?thesis by (simp add: maybe_cut_def)
qed

lemma update_adwin_inv:
  assumes "adwin_inv a w"
  shows "\<exists>u v. w @ [x] = u @ v \<and> adwin_inv (snd (update_adwin x a)) v \<and> maybe_cut (snd (update_adwin x a)) = None \<and>
    (fst (update_adwin x a) \<longleftrightarrow> u \<noteq> []) \<and> aw_max (snd (update_adwin x a)) = aw_max a"
proof -
  obtain row rows where rows: "aw_rows a = row # rows" using assms by (cases "aw_rows a") (auto simp: adwin_inv_def)
  define a1 where "a1 = refold (a\<lparr>aw_rows := compress (aw_max a) ((row @ [single x]) # rows)\<rparr>)"
  have one: "exact (single x) [x]" by (simp add: exact_def single_def deviations_def)
  have "hold (ordered_buckets ((row @ [single x]) # rows)) (w @ [x])"
  proof -
    have "hold (ordered_buckets (row # rows) @ [single x]) (w @ [x])"
      unfolding hold_append using assms one by (intro exI [of _ w] exI [of _ "[x]"]) (simp add: adwin_inv_def rows)
    then show ?thesis by (simp add: ordered_Cons)
  qed
  then have h: "hold (ordered_buckets (compress (aw_max a) ((row @ [single x]) # rows))) (w @ [x])" by (rule compress_holds)
  have s: "sized (aw_max a) 0 (compress (aw_max a) ((row @ [single x]) # rows))"
    by (rule compress_sized) (use assms in \<open>auto simp: adwin_inv_def rows single_def\<close>)
  have ne: "compress (aw_max a) ((row @ [single x]) # rows) \<noteq> []"
    using h by (cases "compress (aw_max a) ((row @ [single x]) # rows)") (auto simp: ordered_buckets_def)
  have inv1: "adwin_inv (a1\<lparr>aw_drift := False\<rparr>) (w @ [x])"
    using assms h s ne refold_exact [of "a\<lparr>aw_rows := compress (aw_max a) ((row @ [single x]) # rows)\<rparr>"] by (simp add: adwin_inv_def a1_def)
  from cut_all_inv [OF inv1] obtain u v where c: "w @ [x] = u @ v" "adwin_inv (cut_all (a1\<lparr>aw_drift := False\<rparr>)) v"
    "maybe_cut (cut_all (a1\<lparr>aw_drift := False\<rparr>)) = None" "(u = []) = (maybe_cut (a1\<lparr>aw_drift := False\<rparr>) = None)"
    "aw_drift (cut_all (a1\<lparr>aw_drift := False\<rparr>)) = (maybe_cut (a1\<lparr>aw_drift := False\<rparr>) \<noteq> None)"
    "aw_max (cut_all (a1\<lparr>aw_drift := False\<rparr>)) = aw_max a" by (auto simp: a1_def)
  then show ?thesis
    by (intro exI [of _ u] exI [of _ v]) (auto simp: update_adwin_def Let_def rows a1_def [symmetric] maybe_cut_flags)
qed

definition feed :: "real list \<Rightarrow> adwin \<Rightarrow> adwin" where
  "feed vs a = fold (\<lambda>v a. snd (update_adwin v a)) vs a"

lemma feed_inv:
  "adwin_inv a w \<Longrightarrow> \<exists>u v. w @ vs = u @ v \<and> adwin_inv (feed vs a) v \<and> aw_max (feed vs a) = aw_max a"
proof (induction vs arbitrary: a w)
  case (Cons x vs)
  from update_adwin_inv [OF Cons.prems, of x] obtain u v where
    u: "w @ [x] = u @ v" "adwin_inv (snd (update_adwin x a)) v" "aw_max (snd (update_adwin x a)) = aw_max a" by blast
  from Cons.IH [OF u(2)] obtain u' v' where "v @ vs = u' @ v'" "adwin_inv (feed vs (snd (update_adwin x a))) v'"
    "aw_max (feed vs (snd (update_adwin x a))) = aw_max a" using u(3) by auto
  moreover have "w @ x # vs = u @ v @ vs" using u(1) by (metis append.assoc append_Cons append_Nil)
  ultimately show ?case by (intro exI [of _ "u @ u'"] exI [of _ v']) (simp add: feed_def)
qed (auto simp: feed_def)

text \<open>C20: After any stream the window is a stretch of the latest values: count, sum and sum of squared deviations are exact, no cut
  point is left, a value is reported as drift exactly when older values were dropped, and the buckets of row \<open>k\<close>, at most the
  maximum many, count \<open>2 ^ k\<close> values each.\<close>

theorem adwin_window_exact:
  assumes "new_adwin delta m = Some a0" "1 \<le> m"
  shows "\<exists>u w. vs = u @ w \<and> exact (aw_stats (feed vs a0)) w \<and> sized m 0 (aw_rows (feed vs a0)) \<and>
    (let (drift, a) = update_adwin x (feed vs a0) in
       maybe_cut a = None \<and> (\<exists>u' w'. w @ [x] = u' @ w' \<and> exact (aw_stats a) w' \<and> (drift \<longleftrightarrow> u' \<noteq> [])))"
proof -
  have "adwin_inv a0 []" "aw_max a0 = m"
    using assms by (auto simp: new_adwin_def adwin_inv_def ordered_buckets_def exact_def no_stats_def deviations_def split: if_splits)
  from feed_inv [OF this(1), of vs] this(2) obtain u w where
    w: "vs = u @ w" "adwin_inv (feed vs a0) w" "aw_max (feed vs a0) = m" by auto
  from update_adwin_inv [OF w(2), of x] obtain u' w' where
    "w @ [x] = u' @ w'" "adwin_inv (snd (update_adwin x (feed vs a0))) w'" "maybe_cut (snd (update_adwin x (feed vs a0))) = None"
    "fst (update_adwin x (feed vs a0)) \<longleftrightarrow> u' \<noteq> []" by blast
  then have "\<exists>u' w'. w @ [x] = u' @ w' \<and> exact (aw_stats (snd (update_adwin x (feed vs a0)))) w' \<and> (fst (update_adwin x (feed vs a0)) \<longleftrightarrow> u' \<noteq> [])"
    "maybe_cut (snd (update_adwin x (feed vs a0))) = None" by (auto simp: adwin_inv_def)
  with w show ?thesis by (intro exI [of _ u] exI [of _ w]) (simp add: adwin_inv_def case_prod_unfold)
qed

lemma adwin_window_exact_witness:
  "\<exists>u w. [1, 2, 3] = u @ w \<and> exact (aw_stats (feed [1, 2, 3] (the (new_adwin (1 / 500) 5)))) w"
proof -
  have "new_adwin (1 / 500) 5 = Some (the (new_adwin (1 / 500) 5))" by (simp add: new_adwin_def)
  from adwin_window_exact [OF this, of "[1, 2, 3]" 4] show ?thesis by auto
qed

subsection \<open>What the tests miss\<close>

text \<open>Page-Hinkley only sees a rising mean: a stream that never rises is never reported, however far it falls.\<close>

definition ph_run :: "real list \<Rightarrow> page_hinkley \<Rightarrow> bool list \<times> page_hinkley" where
  "ph_run vs p = foldl (\<lambda>(ds, p) v. case update_page_hinkley v p of (d, p') \<Rightarrow> (ds @ [d], p')) ([], p) vs"

lemma falling_step:
  assumes "ph_alpha p = 1" "0 \<le> ph_delta p" "0 \<le> ph_threshold p" "ph_cumulative p = ph_min p" "ph_n p = 0 \<or> v \<le> ph_mean p"
  shows "\<not> fst (update_page_hinkley v p) \<and> ph_cumulative (snd (update_page_hinkley v p)) = ph_min (snd (update_page_hinkley v p)) \<and>
    v \<le> ph_mean (snd (update_page_hinkley v p)) \<and> ph_alpha (snd (update_page_hinkley v p)) = 1 \<and>
    ph_delta (snd (update_page_hinkley v p)) = ph_delta p \<and> ph_threshold (snd (update_page_hinkley v p)) = ph_threshold p"
proof -
  define mean where "mean = ph_mean p + (v - ph_mean p) / real (ph_n p + 1)"
  have "v \<le> mean"
  proof (cases "ph_n p = 0")
    case False
    with assms(5) have "v - ph_mean p \<le> 0" by simp
    then have "(v - ph_mean p) * 1 \<le> (v - ph_mean p) * (1 / real (ph_n p + 1))"
      by (intro mult_left_mono_neg) simp_all
    then show ?thesis by (simp add: mean_def)
  qed (simp add: mean_def)
  with assms show ?thesis
    by (simp add: update_page_hinkley_def Let_def mean_def [symmetric, simplified] statistic_def)
qed

lemma ph_run_snoc: "ph_run (vs @ [v]) p = (case ph_run vs p of (ds, q) \<Rightarrow> case update_page_hinkley v q of (d, q') \<Rightarrow> (ds @ [d], q'))"
  by (simp add: ph_run_def case_prod_unfold)

theorem falling_stream_never_reported:
  assumes "sorted_wrt (\<ge>) vs" "0 \<le> delta" "0 \<le> threshold"
  shows "True \<notin> set (fst (ph_run vs (new_page_hinkley delta threshold 1)))"
proof -
  have "True \<notin> set (fst (ph_run vs (new_page_hinkley delta threshold 1))) \<and>
    (let p = snd (ph_run vs (new_page_hinkley delta threshold 1))
     in ph_cumulative p = ph_min p \<and> ph_alpha p = 1 \<and> ph_delta p = delta \<and> ph_threshold p = threshold \<and>
        (if vs = [] then ph_n p = 0 else last vs \<le> ph_mean p))"
    using assms(1)
  proof (induction vs rule: rev_induct)
    case Nil
    then show ?case by (simp add: ph_run_def new_page_hinkley_def)
  next
    case (snoc v vs)
    obtain ds q where q: "ph_run vs (new_page_hinkley delta threshold 1) = (ds, q)" by fastforce
    have v: "vs \<noteq> [] \<Longrightarrow> v \<le> last vs" using snoc.prems by (simp add: sorted_wrt_append)
    have "sorted_wrt (\<ge>) vs" using snoc.prems by (simp add: sorted_wrt_append)
    note ih = snoc.IH [OF this, unfolded q, simplified]
    have "\<not> fst (update_page_hinkley v q) \<and> ph_cumulative (snd (update_page_hinkley v q)) = ph_min (snd (update_page_hinkley v q)) \<and>
      v \<le> ph_mean (snd (update_page_hinkley v q)) \<and> ph_alpha (snd (update_page_hinkley v q)) = 1 \<and>
      ph_delta (snd (update_page_hinkley v q)) = ph_delta q \<and> ph_threshold (snd (update_page_hinkley v q)) = ph_threshold q"
      by (rule falling_step) (use ih v assms(2,3) in \<open>auto simp: Let_def split: if_splits\<close>)
    with ih show ?case
      by (cases "update_page_hinkley v q") (simp add: ph_run_snoc q Let_def)
  qed
  then show ?thesis by blast
qed

lemma falling_stream_never_reported_witness:
  "True \<notin> set (fst (ph_run [1000000, 500, 0, - 1000000] (new_page_hinkley (1 / 200) 50 1)))"
  by (rule falling_stream_never_reported) simp_all

text \<open>The activity of a detection is measured by window widths of different features: where another feature's window is longer than
  that of the drifted ones by more than the cooldown, the registry is not active right after the detection.\<close>

lemma detection_inactive_at_once:
  assumes "observe_values vector r = (fired, r1)" "fired \<noteq> []" "other \<in> set (rg_detectors r1)" "other = (name, a, p)"
    and "int (Max (set (map (width_of r1) (map fst fired)))) + cooldown < int (bk_n (aw_stats a))"
  shows "\<not> drift_active cooldown (snd (observe_features now vector r))"
proof -
  define w where "w = Max (set (map (width_of r1) (sort (remdups (map fst fired)))))"
  have w: "w = Max (set (map (width_of r1) (map fst fired)))" by (simp add: w_def image_image)
  have obs: "rg_detectors (snd (observe_features now vector r)) = rg_detectors r1 \<and> rg_detection_width (snd (observe_features now vector r)) = Some w"
    using assms(1,2) by (simp add: observe_features_def request_retraining_def Let_def w_def)
  have "bk_n (aw_stats a) \<le> Max (set (map (\<lambda>(n, a, p). bk_n (aw_stats a)) (rg_detectors r1)))"
    using assms(3,4) by (intro Max_ge) (auto simp: image_iff intro!: bexI [of _ "(name, a, p)"])
  then have "int w + cooldown < int (Max (set (map (\<lambda>(n, a, p). bk_n (aw_stats a)) (rg_detectors r1))))"
    using assms(5) w by linarith
  moreover have "rg_detectors r1 \<noteq> []" using assms(3) by auto
  ultimately show ?thesis using obs by (auto simp: drift_active_def Let_def)
qed

text \<open>One retraining at a time.\<close>

lemma retraining_single_flight:
  assumes "request_retraining now r = (True, r')"
  shows "fst (request_retraining later r') = False" "fst (request_retraining later (retraining_done r'))"
  using assms by (auto simp: request_retraining_def retraining_done_def split: if_splits)

end
